(* ===== verification/LS_Prelude.thy ===== *)
theory LS_Prelude
  imports Main "HOL-Library.Word"
begin

text \<open>
  What the components share: the machine integer types of the C++ code, the outcomes of a piece
  of code that may leave defined behaviour or throw, checked access to byte buffers, and the
  byte order conversions of \<open>src/src/compat.h\<close> on the little-endian hosts the project builds for.

  A \<open>res\<close> value is \<open>Inl\<close> of a fault or \<open>Inr\<close> of the result. \<open>OutOfBounds\<close> and \<open>NullDeref\<close> are
  accesses outside an allocated buffer or through a null pointer (undefined behaviour in C++),
  \<open>AssertionFailed\<close> is the exception of \<open>assert_and_throw\<close> or a failed \<open>assert\<close>, and
  \<open>Unsupported\<close>, \<open>ParseError\<close> and \<open>RunTime\<close> are the C++ exceptions of those names.
  \<open>ArithmeticTrap\<close> is an integer division the processor refuses.
  \<open>OutOfFuel\<close> ends a loop that has used up the rounds its model grants it.
\<close>

unbundle bit_operations_syntax

named_theorems res_simps \<open>equations that evaluate the result combinators and buffer accesses\<close>

section \<open>Machine integers and outcomes\<close>

type_synonym u8 = "8 word"
type_synonym u16 = "16 word"
type_synonym u32 = "32 word"
type_synonym u64 = "64 word"

datatype fault = OutOfBounds | NullDeref | AssertionFailed | Unsupported | ParseError | RunTime | StreamEnd
  | ArithmeticTrap | OutOfFuel

type_synonym 'a res = "fault + 'a"

definition bindE :: "'e + 'a \<Rightarrow> ('a \<Rightarrow> 'e + 'b) \<Rightarrow> 'e + 'b" where
  "bindE m f = (case m of Inl e \<Rightarrow> Inl e | Inr x \<Rightarrow> f x)"

lemma bindE_simps [simp, res_simps]:
  "bindE (Inl e) f = Inl e"
  "bindE (Inr x) f = f x"
  by (simp_all add: bindE_def)

lemma bindE_Inr_conv: "bindE m f = Inr y \<longleftrightarrow> (\<exists>x. m = Inr x \<and> f x = Inr y)"
  by (cases m) auto

lemma bindE_InrE:
  assumes "bindE m f = Inr y"
  obtains x where "m = Inr x" and "f x = Inr y"
  using assms by (auto simp: bindE_Inr_conv)

lemma bindE_pair_conv: "bindE m (\<lambda>(x, s). f x s) = Inr y \<longleftrightarrow> (\<exists>x s. m = Inr (x, s) \<and> f x s = Inr y)"
  by (cases m) auto

lemma bindE_assoc: "bindE (bindE m f) g = bindE m (\<lambda>x. bindE (f x) g)"
  by (cases m) auto

lemma bindE_cong [fundef_cong]:
  assumes "m = m'" and "\<And>x. m' = Inr x \<Longrightarrow> f x = f' x"
  shows "bindE m f = bindE m' f'"
  using assms by (cases m') auto

text \<open>A loop over a list whose body may fail.\<close>

fun foldE :: "('a \<Rightarrow> 's \<Rightarrow> 'e + 's) \<Rightarrow> 's \<Rightarrow> 'a list \<Rightarrow> 'e + 's" where
  "foldE f s [] = Inr s"
| "foldE f s (x # xs) = bindE (f x s) (\<lambda>s'. foldE f s' xs)"

lemma unat_u32_less: "unat (w :: u32) < 4294967296"
  using unsigned_less [of w] by simp

section \<open>Byte buffers\<close>

text \<open>
  \<open>blit i xs buf\<close> is the buffer after \<open>memcpy (buf + i, xs, length xs)\<close>; \<open>mem_read\<close>,
  \<open>mem_write\<close> and \<open>rd\<close> check the bounds of the access first.
\<close>

definition blit :: "nat \<Rightarrow> 'a list \<Rightarrow> 'a list \<Rightarrow> 'a list" where
  "blit i xs buf = take i buf @ xs @ drop (i + length xs) buf"

definition rd :: "'a list \<Rightarrow> nat \<Rightarrow> 'a res" where
  "rd buf i = (if i < length buf then Inr (buf ! i) else Inl OutOfBounds)"

definition mem_read :: "nat \<Rightarrow> nat \<Rightarrow> 'a list \<Rightarrow> 'a list res" where
  "mem_read i n buf = (if i + n \<le> length buf then Inr (take n (drop i buf)) else Inl OutOfBounds)"

definition mem_write :: "nat \<Rightarrow> 'a list \<Rightarrow> 'a list \<Rightarrow> 'a list res" where
  "mem_write i xs buf =
     (if i + length xs \<le> length buf then Inr (blit i xs buf) else Inl OutOfBounds)"

lemma length_blit [simp]: "i + length xs \<le> length buf \<Longrightarrow> length (blit i xs buf) = length buf"
  by (simp add: blit_def)

lemma take_drop_blit [simp]:
  "i + length xs \<le> length buf \<Longrightarrow> take (length xs) (drop i (blit i xs buf)) = xs"
  by (simp add: blit_def)

lemma take_blit [simp]: "i \<le> length buf \<Longrightarrow> take i (blit i xs buf) = take i buf"
  by (simp add: blit_def)

lemma nth_blit_out:
  assumes "i + length xs \<le> length buf" and "j < i \<or> i + length xs \<le> j" and "j < length buf"
  shows "blit i xs buf ! j = buf ! j"
  using assms by (auto simp: blit_def nth_append)

lemma nth_blit_in:
  assumes "i + length xs \<le> length buf" and "i \<le> j" and "j < i + length xs"
  shows "blit i xs buf ! j = xs ! (j - i)"
  using assms by (auto simp: blit_def nth_append)

lemma rd_Inr [res_simps]: "i < length buf \<Longrightarrow> rd buf i = Inr (buf ! i)"
  by (simp add: rd_def)

lemma rd_Inr_iff: "rd buf i = Inr x \<longleftrightarrow> i < length buf \<and> x = buf ! i"
  by (auto simp: rd_def)

lemma rd_append [simp]: "rd (xs @ y # ys) (length xs) = Inr y"
  by (simp add: rd_def nth_append)

lemma mem_read_Inr_iff:
  "mem_read i n buf = Inr xs \<longleftrightarrow> i + n \<le> length buf \<and> xs = take n (drop i buf)"
  by (auto simp: mem_read_def)

lemma mem_write_Inr_iff:
  "mem_write i xs buf = Inr b \<longleftrightarrow> i + length xs \<le> length buf \<and> b = blit i xs buf"
  by (auto simp: mem_write_def)

lemma mem_read_write:
  "mem_write i xs buf = Inr b \<Longrightarrow> mem_read i (length xs) b = Inr xs"
  by (auto simp: mem_write_def mem_read_def split: if_splits)

section \<open>Byte order\<close>

text \<open>
  \<open>bytes_le16\<close> and its siblings are the bytes an integer occupies in memory on a little-endian
  host, what \<open>memcpy (buf, &value, n)\<close> stores; \<open>le16\<close> reads them back. \<open>swap16\<close>, \<open>swap32\<close> and
  \<open>swap64\<close> are \<open>SDL_Swap16\<close>, \<open>SDL_Swap32\<close> and \<open>SDL_Swap64\<close>, what \<open>LS_UINT16_TO_BE\<close> and its
  siblings expand to on such a host.
\<close>

definition bytes_le16 :: "u16 \<Rightarrow> u8 list" where
  "bytes_le16 w = [ucast w, ucast (drop_bit 8 w)]"

definition bytes_le32 :: "u32 \<Rightarrow> u8 list" where
  "bytes_le32 w = [ucast w, ucast (drop_bit 8 w), ucast (drop_bit 16 w), ucast (drop_bit 24 w)]"

definition bytes_le64 :: "u64 \<Rightarrow> u8 list" where
  "bytes_le64 w = bytes_le32 (ucast w) @ bytes_le32 (ucast (drop_bit 32 w))"

definition le16 :: "u8 list \<Rightarrow> u16" where
  "le16 bs = ucast (bs ! 0) OR push_bit 8 (ucast (bs ! 1))"

definition le32 :: "u8 list \<Rightarrow> u32" where
  "le32 bs = ucast (bs ! 0) OR push_bit 8 (ucast (bs ! 1)) OR push_bit 16 (ucast (bs ! 2))
     OR push_bit 24 (ucast (bs ! 3))"

definition le64 :: "u8 list \<Rightarrow> u64" where
  "le64 bs = ucast (le32 (take 4 bs)) OR push_bit 32 (ucast (le32 (drop 4 bs)))"

definition swap16 :: "u16 \<Rightarrow> u16" where
  "swap16 w = le16 (rev (bytes_le16 w))"

definition swap32 :: "u32 \<Rightarrow> u32" where
  "swap32 w = le32 (rev (bytes_le32 w))"

definition swap64 :: "u64 \<Rightarrow> u64" where
  "swap64 w = le64 (rev (bytes_le64 w))"

lemma length_bytes_le [simp]:
  "length (bytes_le16 a) = 2" "length (bytes_le32 b) = 4" "length (bytes_le64 c) = 8"
  by (simp_all add: bytes_le16_def bytes_le32_def bytes_le64_def)

lemma le16_bytes [simp]: "le16 (bytes_le16 w) = w"
  unfolding le16_def bytes_le16_def
  by (rule bit_word_eqI) (auto simp: bit_simps)

lemma le32_bytes [simp]: "le32 (bytes_le32 w) = w"
proof -
  have "24 \<le> n \<or> n - 16 < 8" if "\<not> n < 8" "\<not> n - 8 < 8" for n :: nat
    using that by arith
  then show ?thesis
    unfolding le32_def bytes_le32_def
    by (intro bit_word_eqI) (fastforce simp: bit_simps)
qed

lemma le64_bytes [simp]: "le64 (bytes_le64 w) = w"
  unfolding le64_def bytes_le64_def
  by (rule bit_word_eqI) (auto simp: bit_simps)

lemma bit_u8_beyond [simp]: "\<not> bit (b :: u8) (8 + n)" "\<not> bit b (16 + n)" "\<not> bit b (24 + n)"
  by (auto dest: bit_imp_le_length)

lemma list2_conv: "length xs = 2 \<longleftrightarrow> (\<exists>a b. xs = [a, b])"
  by (auto simp: numeral_eq_Suc length_Suc_conv)

lemma list4_conv: "length xs = 4 \<longleftrightarrow> (\<exists>a b c d. xs = [a, b, c, d])"
  by (auto simp: numeral_eq_Suc length_Suc_conv)

lemma bytes_le16_of [simp]: "length bs = 2 \<Longrightarrow> bytes_le16 (le16 bs) = bs"
  by (auto simp: list2_conv le16_def bytes_le16_def bit_simps intro!: bit_word_eqI)

lemma bytes_le32_of [simp]: "length bs = 4 \<Longrightarrow> bytes_le32 (le32 bs) = bs"
  by (auto simp: list4_conv le32_def bytes_le32_def bit_simps intro!: bit_word_eqI)

lemma bytes_swap16: "bytes_le16 (swap16 w) = rev (bytes_le16 w)"
  by (simp add: swap16_def)

lemma bytes_swap32: "bytes_le32 (swap32 w) = rev (bytes_le32 w)"
  by (simp add: swap32_def)

lemma swap16_swap16 [simp]: "swap16 (swap16 w) = w"
  by (metis bytes_swap16 le16_bytes rev_rev_ident)

lemma swap32_swap32 [simp]: "swap32 (swap32 w) = w"
  by (metis bytes_swap32 le32_bytes rev_rev_ident)

lemma le64_halves:
  "ucast (le64 bs) = le32 (take 4 bs)" "ucast (drop_bit 32 (le64 bs)) = le32 (drop 4 bs)"
  unfolding le64_def by (rule bit_word_eqI; auto simp: bit_simps dest: bit_imp_le_length)+

lemma bytes_le64_of [simp]: "length bs = 8 \<Longrightarrow> bytes_le64 (le64 bs) = bs"
  by (simp add: bytes_le64_def le64_halves)

lemma bytes_swap64: "bytes_le64 (swap64 w) = rev (bytes_le64 w)"
  by (simp add: swap64_def)

lemma swap64_swap64 [simp]: "swap64 (swap64 w) = w"
  by (metis bytes_swap64 le64_bytes rev_rev_ident)

section \<open>Bits\<close>

lemma mask_consts:
  "(0x3f :: u32) = mask 6" "(0xfff :: u32) = mask 12" "(0x3ffff :: u32) = mask 18"
  "(0x7ff :: u32) = mask 11" "(0xffff :: u32) = mask 16" "(0x1fffff :: u32) = mask 21"
  "(0xff :: u32) = mask 8"
  by (simp_all add: mask_eq_exp_minus_1)

lemma bit_lead_consts:
  "bit (0x80 :: int) n \<longleftrightarrow> n = 7"
  "bit (0xc0 :: int) n \<longleftrightarrow> n \<in> {6, 7}"
  "bit (0xe0 :: int) n \<longleftrightarrow> n \<in> {5, 6, 7}"
  "bit (0xf0 :: int) n \<longleftrightarrow> n \<in> {4, 5, 6, 7}"
  "bit (0xf8 :: int) n \<longleftrightarrow> n \<in> {3, 4, 5, 6, 7}"
proof -
  have eqs: "(0x80 :: int) = push_bit 7 (mask 1)" "(0xc0 :: int) = push_bit 6 (mask 2)"
    "(0xe0 :: int) = push_bit 5 (mask 3)" "(0xf0 :: int) = push_bit 4 (mask 4)"
    "(0xf8 :: int) = push_bit 3 (mask 5)"
    by (simp_all add: push_bit_eq_mult mask_eq_exp_minus_1)
  show "bit (0x80 :: int) n \<longleftrightarrow> n = 7" "bit (0xc0 :: int) n \<longleftrightarrow> n \<in> {6, 7}"
    "bit (0xe0 :: int) n \<longleftrightarrow> n \<in> {5, 6, 7}" "bit (0xf0 :: int) n \<longleftrightarrow> n \<in> {4, 5, 6, 7}"
    "bit (0xf8 :: int) n \<longleftrightarrow> n \<in> {3, 4, 5, 6, 7}"
    unfolding eqs bit_push_bit_iff bit_mask_iff by auto
qed

lemma not_bit_small:
  fixes c :: "'a::len word"
  assumes "c < 2 ^ n" and "n \<le> k"
  shows "\<not> bit c k"
proof -
  have "take_bit n c = c"
    using less_mask_eq [OF assms(1)] by (simp add: take_bit_eq_mask)
  with assms(2) show ?thesis
    by (metis bit_take_bit_iff not_less)
qed

text \<open>The class of a byte, read off its upper bits.\<close>

lemma and_eq_u8:
  fixes b m v :: u8
  shows "b AND m = v \<longleftrightarrow> (\<forall>k\<in>{0, 1, 2, 3, 4, 5, 6, 7}. (bit b k \<and> bit m k) = bit v k)"
    (is "_ \<longleftrightarrow> ?R")
proof
  assume "b AND m = v"
  then show ?R
    by (auto simp: bit_and_iff)
next
  assume R: ?R
  show "b AND m = v"
  proof (rule bit_word_eqI)
    fix k
    assume "k < LENGTH(8)"
    then have "k \<in> {0, 1, 2, 3, 4, 5, 6, 7}"
      by auto
    with R have "(bit b k \<and> bit m k) = bit v k"
      by blast
    then show "bit (b AND m) k = bit v k"
      by (simp add: bit_and_iff)
  qed
qed

lemma byte_class:
  fixes b :: u8
  shows "b AND 0x80 = 0 \<longleftrightarrow> \<not> bit b 7"
    and "b AND 0xc0 = 0x80 \<longleftrightarrow> bit b 7 \<and> \<not> bit b 6"
    and "b AND 0xe0 = 0xc0 \<longleftrightarrow> bit b 7 \<and> bit b 6 \<and> \<not> bit b 5"
    and "b AND 0xf0 = 0xe0 \<longleftrightarrow> bit b 7 \<and> bit b 6 \<and> bit b 5 \<and> \<not> bit b 4"
    and "b AND 0xf8 = 0xf0 \<longleftrightarrow> bit b 7 \<and> bit b 6 \<and> bit b 5 \<and> bit b 4 \<and> \<not> bit b 3"
  by (auto simp: and_eq_u8 bit_simps bit_lead_consts)

lemma sint_small: "unat w < 2 ^ 31 \<Longrightarrow> sint (w :: u32) = int (unat w)"
proof -
  assume "unat w < 2 ^ 31"
  then have "int (unat w) < int (2 ^ 31)"
    by (rule of_nat_less_iff [THEN iffD2])
  then have "uint w < 2 ^ 31"
    by simp
  moreover have "- (2 ^ 31) \<le> uint w"
    by (rule order_trans [of _ 0]) simp_all
  ultimately show ?thesis
    using signed_take_bit_int_eq_self [of 31 "uint w"] by (simp add: sint_uint)
qed

end
