(* ===== verification/Utf8.thy ===== *)
theory Utf8
  imports LS_Prelude
begin

text \<open>
  The UTF-8 layer of \<open>src/src/tiny_string.h\<close> and \<open>tiny_string.cpp\<close>: the character iterator
  \<open>CharIterator\<close>, a pointer into a byte buffer modelled as an index, and the encoder
  \<open>tiny_string::unicodeToUTF8\<close>. The lemmas relate both to lists of code points: what the encoder
  writes the iterator reads back, and a scan of an encoded list visits its code points in order.
\<close>

section \<open>CharIterator\<close>

text \<open>\<open>cc b\<close> is \<open>uint32_t(*p)\<close> for a (signed) \<open>char\<close> whose bits are \<open>b\<close>.\<close>

definition cc :: "u8 \<Rightarrow> u32" where
  "cc b = scast b"

definition getChar :: "u8 list \<Rightarrow> nat \<Rightarrow> u32 res" where
  "getChar buf p = bindE (rd buf p) (\<lambda>b0.
     if b0 AND 0x80 = 0 then Inr (cc b0)
     else if b0 AND 0xe0 = 0xc0 then
       bindE (rd buf (p + 1)) (\<lambda>b1.
         Inr ((push_bit 6 (cc b0) AND 0x7ff) + (cc b1 AND 0x3f)))
     else if b0 AND 0xf0 = 0xe0 then
       bindE (rd buf (p + 1)) (\<lambda>b1. bindE (rd buf (p + 2)) (\<lambda>b2.
         Inr ((push_bit 12 (cc b0) AND 0xffff) + (push_bit 6 (cc b1) AND 0xfff)
              + (cc b2 AND 0x3f))))
     else if b0 AND 0xf8 = 0xf0 then
       bindE (rd buf (p + 1)) (\<lambda>b1. bindE (rd buf (p + 2)) (\<lambda>b2. bindE (rd buf (p + 3)) (\<lambda>b3.
         Inr ((push_bit 18 (cc b0) AND 0x1fffff) + (push_bit 12 (cc b1) AND 0x3ffff)
              + (push_bit 6 (cc b2) AND 0xfff) + (cc b3 AND 0x3f)))))
     else Inr (- 1))"

text \<open>\<open>operator++\<close>: the pointer after the current character.\<close>

definition char_width :: "u8 \<Rightarrow> nat" where
  "char_width b =
     (if b AND 0x80 \<noteq> 0 then
        (if b AND 0xf8 = 0xf0 then 4
         else if b AND 0xf0 = 0xe0 then 3
         else if b AND 0xe0 = 0xc0 then 2
         else 1)
      else 1)"

definition inc_ptr :: "u8 list \<Rightarrow> nat \<Rightarrow> nat res" where
  "inc_ptr buf p = bindE (rd buf p) (\<lambda>b. Inr (p + char_width b))"

text \<open>\<open>operator--\<close>: back over the continuation bytes; it stops with a fault at the buffer's start.\<close>

fun dec_ptr :: "u8 list \<Rightarrow> nat \<Rightarrow> nat res" where
  "dec_ptr buf 0 = Inl OutOfBounds"
| "dec_ptr buf (Suc p) = bindE (rd buf p) (\<lambda>b.
     if b AND 0xc0 = 0x80 then dec_ptr buf p else Inr p)"

definition isValidUTF8 :: "u8 list \<Rightarrow> nat \<Rightarrow> bool res" where
  "isValidUTF8 buf p = bindE (getChar buf p) (\<lambda>c. Inr (c \<noteq> - 1))"

definition isdigit_byte :: "u8 \<Rightarrow> bool" where
  "isdigit_byte b \<longleftrightarrow> 0x30 \<le> b \<and> b \<le> 0x39"

definition isxdigit_byte :: "u8 \<Rightarrow> bool" where
  "isxdigit_byte b \<longleftrightarrow>
     isdigit_byte b \<or> (0x61 \<le> b \<and> b \<le> 0x66) \<or> (0x41 \<le> b \<and> b \<le> 0x46)"

definition digit_value :: "u8 \<Rightarrow> int" where
  "digit_value b = sint b - 0x30"

definition hex_value :: "u8 \<Rightarrow> int" where
  "hex_value b =
     (if 0x61 \<le> b \<and> b \<le> 0x66 then uint b - 0x61 + 10
      else if 0x41 \<le> b \<and> b \<le> 0x46 then uint b - 0x41 + 10
      else digit_value b)"

section \<open>The encoder\<close>

text \<open>
  The bytes \<open>tiny_string::unicodeToUTF8\<close> stores in \<open>buf\<close>; the size it returns counts the
  terminator as well, so it is one more than their number.
\<close>

definition utf8_enc :: "u32 \<Rightarrow> u8 list" where
  "utf8_enc c =
     (if c < 0x80 then [ucast (c AND 0xff)]
      else if c < 0x800 then
        [ucast (drop_bit 6 c OR 0xc0), ucast ((c AND 0x3f) OR 0x80)]
      else if c < 0x10000 then
        [ucast (drop_bit 12 c OR 0xe0), ucast ((drop_bit 6 c AND 0x3f) OR 0x80),
         ucast ((c AND 0x3f) OR 0x80)]
      else
        [ucast (drop_bit 18 c OR 0xf0), ucast ((drop_bit 12 c AND 0x3f) OR 0x80),
         ucast ((drop_bit 6 c AND 0x3f) OR 0x80), ucast ((c AND 0x3f) OR 0x80)])"

definition unicodeToUTF8 :: "u32 \<Rightarrow> u32 \<times> u8 list" where
  "unicodeToUTF8 c = (of_nat (length (utf8_enc c) + 1), utf8_enc c)"

definition unicodeIsWhiteSpace :: "u32 \<Rightarrow> bool" where
  "unicodeIsWhiteSpace c \<longleftrightarrow> c \<in> set
     [0x0009, 0x000A, 0x000B, 0x000C, 0x000D, 0x0020, 0x0085, 0x00A0, 0x1680,
      0x2000, 0x2001, 0x2002, 0x2003, 0x2004, 0x2005, 0x2006, 0x2007, 0x2008, 0x2009, 0x200A,
      0x2028, 0x2029, 0x202F, 0x205F, 0x3000]"

section \<open>Reading back an encoded character\<close>

definition valid_cp :: "u32 \<Rightarrow> bool" where
  "valid_cp c \<longleftrightarrow> c < 0x200000"

definition utf8s :: "u32 list \<Rightarrow> u8 list" where
  "utf8s cs = concat (map utf8_enc cs)"

text \<open>
  A continuation byte carries six bits of its argument, a lead byte the bits above them; adding
  them up at their places gives the code point back.
\<close>

lemma cont_bits:
  "cc (ucast ((x AND 0x3f) OR 0x80)) AND 0x3f = x AND 0x3f"
  "push_bit 6 (cc (ucast ((x AND 0x3f) OR 0x80))) AND 0xfff = push_bit 6 (x AND 0x3f)"
  "push_bit 12 (cc (ucast ((x AND 0x3f) OR 0x80))) AND 0x3ffff = push_bit 12 (x AND 0x3f)"
  unfolding cc_def mask_consts
  by (rule bit_word_eqI; auto simp: bit_simps bit_lead_consts)+

lemma lead_bits:
  "push_bit 6 (cc (ucast (drop_bit 6 x OR 0xc0))) AND 0x7ff = push_bit 6 (take_bit 5 (drop_bit 6 x))"
  "push_bit 12 (cc (ucast (drop_bit 12 x OR 0xe0))) AND 0xffff = push_bit 12 (take_bit 4 (drop_bit 12 x))"
  "push_bit 18 (cc (ucast (drop_bit 18 x OR 0xf0))) AND 0x1fffff = push_bit 18 (take_bit 3 (drop_bit 18 x))"
  unfolding cc_def mask_consts
  by (rule bit_word_eqI; auto simp: bit_simps bit_lead_consts)+

lemma take_drop_small:
  fixes c :: u32
  assumes "c < 2 ^ (m + n)"
  shows "take_bit m (drop_bit n c) = drop_bit n c"
proof -
  have "take_bit (m + n) c = c"
    using less_mask_eq [OF assms] by (simp add: take_bit_eq_mask)
  then have "drop_bit n c = drop_bit n (take_bit (m + n) c)"
    by simp
  then show ?thesis
    by (simp add: take_bit_drop_bit)
qed

lemma enc_dec_arith:
  fixes c :: u32
  shows "push_bit 6 (drop_bit 6 c) + (c AND 0x3f) = c"
    and "push_bit 12 (drop_bit 12 c) + push_bit 6 (drop_bit 6 c AND 0x3f) + (c AND 0x3f) = c"
    and "push_bit 18 (drop_bit 18 c) + push_bit 12 (drop_bit 12 c AND 0x3f)
           + push_bit 6 (drop_bit 6 c AND 0x3f) + (c AND 0x3f) = c"
proof -
  have step: "push_bit 6 (drop_bit 6 x) + (x AND 0x3f) = x" for x :: u32
    unfolding mask_consts by (simp flip: take_bit_eq_mask add: bits_ident)
  have up: "push_bit (n + 6) (drop_bit (n + 6) x) + push_bit n (drop_bit n x AND 0x3f)
      = push_bit n (drop_bit n x)" for n and x :: u32
    using step [of "drop_bit n x"]
    by (metis (no_types, lifting) drop_bit_drop_bit push_bit_add push_bit_push_bit add.commute)
  show "push_bit 6 (drop_bit 6 c) + (c AND 0x3f) = c"
    by (rule step)
  show "push_bit 12 (drop_bit 12 c) + push_bit 6 (drop_bit 6 c AND 0x3f) + (c AND 0x3f) = c"
    using up [of 6 c] step [of c] by simp
  show "push_bit 18 (drop_bit 18 c) + push_bit 12 (drop_bit 12 c AND 0x3f)
           + push_bit 6 (drop_bit 6 c AND 0x3f) + (c AND 0x3f) = c"
    using up [of 12 c] up [of 6 c] step [of c] by simp
qed

lemma enc_bytes_class:
  fixes c :: u32
  shows "c < 0x80 \<Longrightarrow> \<not> bit (ucast (c AND 0xff) :: u8) 7"
    and "c < 0x800 \<Longrightarrow> (ucast (drop_bit 6 c OR 0xc0) :: u8) AND 0xe0 = 0xc0"
    and "c < 0x10000 \<Longrightarrow> (ucast (drop_bit 12 c OR 0xe0) :: u8) AND 0xf0 = 0xe0"
    and "c < 0x200000 \<Longrightarrow> (ucast (drop_bit 18 c OR 0xf0) :: u8) AND 0xf8 = 0xf0"
    and "(ucast ((c AND 0x3f) OR 0x80) :: u8) AND 0xc0 = 0x80"
  using not_bit_small [of c 7] not_bit_small [of c 11] not_bit_small [of c 16]
    not_bit_small [of c 21]
  by (auto simp: byte_class mask_consts bit_simps bit_lead_consts)

lemma length_utf8_enc: "length (utf8_enc c) \<in> {1, 2, 3, 4}"
  by (simp add: utf8_enc_def)

lemma utf8_enc_not_Nil [simp]: "utf8_enc c \<noteq> []"
  by (simp add: utf8_enc_def)

lemma cc_ascii:
  fixes c :: u32
  assumes "c < 0x80"
  shows "cc (ucast (c AND 0xff)) = c"
proof (rule bit_word_eqI)
  fix k
  assume k: "k < LENGTH(32)"
  show "bit (cc (ucast (c AND 0xff))) k = bit c k"
    using not_bit_small [of c 7] assms unfolding cc_def mask_consts
    by (cases "k < 7") (auto simp: bit_simps min_def k)
qed

lemma getChar_utf8_enc:
  assumes "valid_cp c"
  shows "getChar (pre @ utf8_enc c @ post) (length pre) = Inr c"
proof -
  consider "c < 0x80" | "\<not> c < 0x80" "c < 0x800" | "\<not> c < 0x80" "\<not> c < 0x800" "c < 0x10000"
    | "\<not> c < 0x80" "\<not> c < 0x800" "\<not> c < 0x10000" "c < 0x200000"
    using assms by (auto simp: valid_cp_def)
  then show ?thesis
  proof cases
    case 1
    then show ?thesis
      by (simp add: getChar_def utf8_enc_def rd_def nth_append cc_ascii enc_bytes_class byte_class)
  next
    case 2
    then show ?thesis
      using enc_bytes_class(2) [of c]
      by (simp add: getChar_def utf8_enc_def rd_def nth_append lead_bits cont_bits enc_dec_arith [simplified]
          take_drop_small [where m = 5 and n = 6, simplified] byte_class)
  next
    case 3
    then show ?thesis
      using enc_bytes_class(3) [of c]
      by (simp add: getChar_def utf8_enc_def rd_def nth_append lead_bits cont_bits enc_dec_arith [simplified]
          take_drop_small [where m = 4 and n = 12, simplified] byte_class)
  next
    case 4
    then show ?thesis
      using enc_bytes_class(4) [of c]
      by (simp add: getChar_def utf8_enc_def rd_def nth_append lead_bits cont_bits enc_dec_arith [simplified]
          take_drop_small [where m = 3 and n = 18, simplified] byte_class)
  qed
qed

lemma char_width_utf8_enc:
  assumes "valid_cp c"
  shows "char_width (hd (utf8_enc c)) = length (utf8_enc c)"
  using assms enc_bytes_class(1-4) [of c]
  by (auto simp: char_width_def utf8_enc_def byte_class valid_cp_def)

lemma inc_ptr_utf8_enc:
  assumes "valid_cp c"
  shows "inc_ptr (pre @ utf8_enc c @ post) (length pre) = Inr (length pre + length (utf8_enc c))"
proof -
  have "(pre @ utf8_enc c @ post) ! length pre = hd (utf8_enc c)"
    by (cases "utf8_enc c") (simp_all add: nth_append)
  with char_width_utf8_enc [OF assms] show ?thesis
    by (simp add: inc_ptr_def rd_def)
qed

section \<open>Lists of code points\<close>

definition valid_cps :: "u32 list \<Rightarrow> bool" where
  "valid_cps cs \<longleftrightarrow> (\<forall>c\<in>set cs. valid_cp c)"

lemma utf8s_simps [simp]:
  "utf8s [] = []"
  "utf8s (c # cs) = utf8_enc c @ utf8s cs"
  "utf8s (cs @ ds) = utf8s cs @ utf8s ds"
  by (simp_all add: utf8s_def)

lemma valid_cps_simps [simp]:
  "valid_cps []"
  "valid_cps (c # cs) \<longleftrightarrow> valid_cp c \<and> valid_cps cs"
  "valid_cps (cs @ ds) \<longleftrightarrow> valid_cps cs \<and> valid_cps ds"
  by (auto simp: valid_cps_def)

lemma valid_cps_take_drop [simp]:
  "valid_cps cs \<Longrightarrow> valid_cps (take n cs)" "valid_cps cs \<Longrightarrow> valid_cps (drop n cs)"
  by (auto simp: valid_cps_def dest: in_set_takeD in_set_dropD)

lemma utf8_enc_zero [simp]: "utf8_enc 0 = [0]"
  by (simp add: utf8_enc_def)

lemma valid_cp_zero [simp]: "valid_cp 0"
  by (simp add: valid_cp_def)

lemma valid_cp_ascii: "c < 0x80 \<Longrightarrow> valid_cp c"
  by (simp add: valid_cp_def word_less_nat_alt)

lemma utf8s_eq_Nil_iff [simp]: "utf8s cs = [] \<longleftrightarrow> cs = []"
  by (cases cs) simp_all

lemma length_utf8s_ge: "length cs \<le> length (utf8s cs)"
proof (induction cs)
  case (Cons c cs)
  with length_utf8_enc [of c] show ?case
    by auto
qed simp

lemma utf8_enc_ascii: "c < 0x80 \<Longrightarrow> utf8_enc c = [ucast (c AND 0xff)]"
  by (simp add: utf8_enc_def)

lemma length_utf8s_ascii: "\<forall>c\<in>set cs. c < 0x80 \<Longrightarrow> length (utf8s cs) = length cs"
  by (induction cs) (auto simp: utf8_enc_ascii)

text \<open>Encodings are prefix free, so a byte prefix at a character boundary is a prefix of code points.\<close>

lemma utf8_enc_inject:
  assumes "valid_cp c" and "valid_cp d" and "utf8_enc c @ xs = utf8_enc d @ ys"
  shows "c = d \<and> xs = ys"
proof -
  have "getChar ([] @ utf8_enc c @ xs) (length ([] :: u8 list)) = Inr c"
    by (rule getChar_utf8_enc [OF assms(1)])
  moreover have "getChar ([] @ utf8_enc d @ ys) (length ([] :: u8 list)) = Inr d"
    by (rule getChar_utf8_enc [OF assms(2)])
  ultimately have "c = d"
    using assms(3) by simp
  with assms(3) show ?thesis
    by simp
qed

lemma utf8s_prefix_iff:
  assumes "valid_cps cs" and "valid_cps ds"
  shows "(\<exists>xs. utf8s cs = utf8s ds @ xs) \<longleftrightarrow> (\<exists>es. cs = ds @ es)"
  using assms
proof (induction ds arbitrary: cs)
  case (Cons d ds)
  show ?case
  proof
    assume "\<exists>xs. utf8s cs = utf8s (d # ds) @ xs"
    then obtain xs where eq: "utf8s cs = utf8_enc d @ utf8s ds @ xs"
      by auto
    then obtain c cs' where cs: "cs = c # cs'"
      by (cases cs) auto
    with eq Cons.prems have "c = d \<and> utf8s cs' = utf8s ds @ xs"
      by (intro utf8_enc_inject) auto
    with cs Cons show "\<exists>es. cs = (d # ds) @ es"
      by auto
  next
    assume "\<exists>es. cs = (d # ds) @ es"
    then show "\<exists>xs. utf8s cs = utf8s (d # ds) @ xs"
      by auto
  qed
qed auto

lemma utf8s_inject:
  assumes "valid_cps cs" and "valid_cps ds"
  shows "utf8s cs = utf8s ds \<longleftrightarrow> cs = ds"
proof
  assume eq: "utf8s cs = utf8s ds"
  then have "\<exists>es. cs = ds @ es"
    using utf8s_prefix_iff [OF assms] by (metis append_Nil2)
  with eq show "cs = ds"
    by auto
qed simp

section \<open>Scanning a buffer\<close>

text \<open>
  \<open>for (it = begin; it != end; ++it) body\<close>, where the body may leave the loop with a value. The
  pointer always grows and a dereference past the buffer faults, so the scan ends even where a
  truncated sequence makes the iterator jump over \<open>end\<close>.
\<close>

datatype ('r, 's) loop = Return 'r | Continue 's

function char_loop ::
  "u8 list \<Rightarrow> nat \<Rightarrow> (nat \<Rightarrow> 's \<Rightarrow> ('r, 's) loop res) \<Rightarrow> nat \<Rightarrow> 's \<Rightarrow> ('r, 's) loop res" where
  "char_loop buf e body p s =
     (if p = e then Inr (Continue s)
      else bindE (body p s) (\<lambda>r. case r of
             Return x \<Rightarrow> Inr (Return x)
           | Continue s' \<Rightarrow> bindE (inc_ptr buf p) (\<lambda>p'. char_loop buf e body p' s')))"
  by pat_completeness auto
termination
  by (relation "measure (\<lambda>(buf, e, body, p, s). length buf - p)")
    (auto simp: inc_ptr_def rd_def char_width_def split: if_splits)

declare char_loop.simps [simp del]

text \<open>The same loop over the code points of a valid string, with the byte offset of each.\<close>

fun cp_loop :: "(nat \<Rightarrow> 's \<Rightarrow> ('r, 's) loop res) \<Rightarrow> nat \<Rightarrow> u32 list \<Rightarrow> 's \<Rightarrow> ('r, 's) loop res" where
  "cp_loop body p [] s = Inr (Continue s)"
| "cp_loop body p (c # cs) s = bindE (body p s) (\<lambda>r. case r of
       Return x \<Rightarrow> Inr (Return x)
     | Continue s' \<Rightarrow> cp_loop body (p + length (utf8_enc c)) cs s')"

lemma char_loop_valid:
  assumes "valid_cps cs"
  shows "char_loop (pre @ utf8s cs @ post) (length pre + length (utf8s cs)) body (length pre) s
    = cp_loop body (length pre) cs s"
  using assms
proof (induction cs arbitrary: pre s)
  case Nil
  then show ?case
    by (simp add: char_loop.simps)
next
  case (Cons c cs)
  have IH: "char_loop (pre @ utf8_enc c @ utf8s cs @ post)
      (length pre + (length (utf8_enc c) + length (utf8s cs))) body
      (length pre + length (utf8_enc c))
      = cp_loop body (length pre + length (utf8_enc c)) cs"
    using Cons.IH [of "pre @ utf8_enc c"] Cons.prems by (intro ext) (simp add: add.assoc)
  have inc: "inc_ptr (pre @ utf8_enc c @ utf8s cs @ post) (length pre)
      = Inr (length pre + length (utf8_enc c))"
    using Cons.prems by (intro inc_ptr_utf8_enc) simp
  show ?case
    by (subst char_loop.simps) (simp add: inc IH)
qed

lemma cp_loop_fold:
  assumes "\<And>i s. i < length cs \<Longrightarrow>
      body (p + length (utf8s (take i cs))) s = Inr (Continue (f s (cs ! i)))"
  shows "cp_loop body p cs s = Inr (Continue (foldl f s cs))"
  using assms
proof (induction cs arbitrary: p s)
  case (Cons c cs)
  have "cp_loop body (p + length (utf8_enc c)) cs (f s c) = Inr (Continue (foldl f (f s c) cs))"
  proof (rule Cons.IH)
    fix i s
    assume "i < length cs"
    then show "body (p + length (utf8_enc c) + length (utf8s (take i cs))) s
        = Inr (Continue (f s (cs ! i)))"
      using Cons.prems [of "Suc i" s] by (simp add: add.assoc)
  qed
  with Cons.prems [of 0 s] show ?case
    by simp
qed simp

lemma getChar_at:
  assumes "valid_cps cs" and "i < length cs"
  shows "getChar (pre @ utf8s cs @ post) (length pre + length (utf8s (take i cs))) = Inr (cs ! i)"
proof -
  have cs: "utf8s cs = utf8s (take i cs) @ utf8_enc (cs ! i) @ utf8s (drop (Suc i) cs)"
    by (metis Cons_nth_drop_Suc append_take_drop_id assms(2) utf8s_simps(2) utf8s_simps(3))
  have "valid_cp (cs ! i)"
    using assms by (simp add: valid_cps_def)
  then show ?thesis
    using getChar_utf8_enc [of "cs ! i" "pre @ utf8s (take i cs)" "utf8s (drop (Suc i) cs) @ post"]
    by (simp add: cs)
qed

text \<open>A loop whose body reads the current character and folds it into the state.\<close>

lemma char_loop_fold:
  assumes "valid_cps cs"
    and "\<And>p s. body p s = bindE (getChar (utf8s cs @ post) p) (\<lambda>c. Inr (Continue (f s c)))"
  shows "char_loop (utf8s cs @ post) (length (utf8s cs)) body 0 s = Inr (Continue (foldl f s cs))"
proof -
  have "cp_loop body 0 cs s = Inr (Continue (foldl f s cs))"
    using getChar_at [OF assms(1), where pre = "[]" and post = post]
    by (intro cp_loop_fold) (simp add: assms(2))
  then show ?thesis
    using char_loop_valid [OF assms(1), where pre = "[]" and post = post and body = body and s = s]
    by simp
qed

text \<open>The same with a body that may fail.\<close>

lemma cp_loop_foldE:
  assumes "\<And>i s. i < length cs \<Longrightarrow>
      body (p + length (utf8s (take i cs))) s = bindE (f (cs ! i) s) (\<lambda>s'. Inr (Continue s'))"
  shows "cp_loop body p cs s = bindE (foldE f s cs) (\<lambda>s'. Inr (Continue s'))"
  using assms
proof (induction cs arbitrary: p s)
  case (Cons c cs)
  have "cp_loop body (p + length (utf8_enc c)) cs t = bindE (foldE f t cs) (\<lambda>s'. Inr (Continue s'))" for t
  proof (rule Cons.IH)
    fix i s
    assume "i < length cs"
    then show "body (p + length (utf8_enc c) + length (utf8s (take i cs))) s
        = bindE (f (cs ! i) s) (\<lambda>s'. Inr (Continue s'))"
      using Cons.prems [of "Suc i" s] by (simp add: add.assoc)
  qed
  with Cons.prems [of 0 s] show ?case
    by (simp add: bindE_assoc)
qed simp

lemma char_loop_foldE:
  assumes "valid_cps cs"
    and "\<And>p s. body p s = bindE (getChar (utf8s cs @ post) p) (\<lambda>c. bindE (f c s) (\<lambda>s'. Inr (Continue s')))"
  shows "char_loop (utf8s cs @ post) (length (utf8s cs)) body 0 s
    = bindE (foldE f s cs) (\<lambda>s'. Inr (Continue s'))"
proof -
  have "cp_loop body 0 cs s = bindE (foldE f s cs) (\<lambda>s'. Inr (Continue s'))"
    using getChar_at [OF assms(1), where pre = "[]" and post = post]
    by (intro cp_loop_foldE) (simp add: assms(2))
  then show ?thesis
    using char_loop_valid [OF assms(1), where pre = "[]" and post = post and body = body and s = s]
    by simp
qed

end
