(* ===== verification/Utf8Order.thy ===== *)
theory Utf8Order
  imports Utf8
begin

text \<open>
  The lexicographic order of lists and the order of encodings: comparing two UTF-8 strings byte by
  byte compares their code points.
\<close>

section \<open>Lexicographic order\<close>

fun lex_less :: "'a::linorder list \<Rightarrow> 'a list \<Rightarrow> bool" where
  "lex_less _ [] = False"
| "lex_less [] (y # ys) = True"
| "lex_less (x # xs) (y # ys) = (x < y \<or> x = y \<and> lex_less xs ys)"

lemma lex_less_map:
  assumes "\<And>x y. f x < f y \<longleftrightarrow> x < y"
  shows "lex_less (map f xs) (map f ys) = lex_less xs ys"
proof (induction xs ys rule: lex_less.induct)
  case (3 x xs y ys)
  have "f x = f y \<longleftrightarrow> x = y"
    using assms by (metis less_irrefl linorder_less_linear)
  with 3 assms show ?case
    by simp
qed simp_all

lemma lex_less_same_prefix [simp]: "lex_less (zs @ xs) (zs @ ys) = lex_less xs ys"
  by (induction zs) auto

lemma lex_less_irrefl [simp]: "\<not> lex_less xs xs"
  by (induction xs) auto

lemma lex_less_asym: "lex_less xs ys \<Longrightarrow> \<not> lex_less ys xs"
  by (induction xs ys rule: lex_less.induct) auto

section \<open>Encodings as digits in base 64\<close>

lemma ascii_byte:
  fixes c :: u32
  assumes "c < 0x80"
  shows "uint (ucast (c AND 0xff) :: u8) = uint c"
proof -
  have "c < 2 ^ 8"
    using assms by (rule order.strict_trans) simp
  then have c: "c AND mask 8 = c"
    by (rule less_mask_eq)
  then have "take_bit 8 (uint c) = uint c"
    by (metis take_bit_eq_mask unsigned_take_bit_eq)
  then show ?thesis
    unfolding mask_consts c by (simp add: unsigned_ucast_eq)
qed

text \<open>The bytes as numbers, digits of the code point in base 64 above the lead marks.\<close>

fun nat_enc :: "nat \<Rightarrow> nat list" where
  "nat_enc n = (if n < 128 then [n]
     else if n < 2048 then [192 + n div 64, 128 + n mod 64]
     else if n < 65536 then [224 + n div 4096, 128 + n div 64 mod 64, 128 + n mod 64]
     else [240 + n div 262144, 128 + n div 4096 mod 64, 128 + n div 64 mod 64, 128 + n mod 64])"

lemma unat_lead:
  fixes x m :: u32
  assumes "x AND m = 0" and "unat m + unat x < 256"
  shows "unat (ucast (x OR m) :: u8) = unat m + unat x"
proof -
  have "x OR m = x + m"
    using assms(1) by (intro disjunctive_add [symmetric]) (metis bit_and_iff bit_0_eq bot_apply bot_bool_def)
  moreover have "unat (x + m) = unat x + unat m"
    using assms(2) by (intro unat_add_lem [THEN iffD1]) simp
  ultimately show ?thesis
    using assms(2) by (simp add: unsigned_ucast_eq take_bit_nat_eq_self)
qed

lemma small_and:
  fixes x :: u32
  assumes "x < 2 ^ k"
  shows "x AND push_bit k y = 0"
  using not_bit_small [OF assms] by (intro bit_word_eqI) (auto simp: bit_simps not_less)

lemma unat_drop:
  fixes x :: u32
  shows "unat (drop_bit 6 x) = unat x div 64" "unat (drop_bit 12 x) = unat x div 4096"
    "unat (drop_bit 18 x) = unat x div 262144"
  by (simp_all add: drop_bit_eq_div unat_div)

lemma unat_and63: "unat ((x :: u32) AND 0x3f) = unat x mod 64"
  unfolding mask_consts by (simp add: unat_mod take_bit_eq_mod flip: take_bit_eq_mask)

lemma unat_cont: "unat (ucast ((x AND 0x3f) OR 0x80) :: u8) = 128 + unat (x :: u32) mod 64"
proof -
  have "(x AND 0x3f) AND 0x80 = 0"
    by (simp add: and.assoc)
  moreover have "unat x mod 64 < 64"
    by simp
  ultimately show ?thesis
    using unat_lead [of "x AND 0x3f" "0x80"] by (simp add: unat_and63)
qed

lemma unat_leads:
  fixes c :: u32
  shows "c < 0x800 \<Longrightarrow> unat (ucast (drop_bit 6 c OR 0xc0) :: u8) = 192 + unat c div 64"
    and "c < 0x10000 \<Longrightarrow> unat (ucast (drop_bit 12 c OR 0xe0) :: u8) = 224 + unat c div 4096"
    and "c < 0x200000 \<Longrightarrow> unat (ucast (drop_bit 18 c OR 0xf0) :: u8) = 240 + unat c div 262144"
proof -
  show "unat (ucast (drop_bit 6 c OR 0xc0) :: u8) = 192 + unat c div 64" if "c < 0x800"
  proof -
    have "unat c < 2048"
      using that by (simp add: word_less_nat_alt)
    then have "unat (drop_bit 6 c) < 32"
      by (simp add: unat_drop)
    moreover from this have "drop_bit 6 c AND 0xc0 = 0"
      using small_and [of "drop_bit 6 c" 6 3] by (simp add: word_less_nat_alt)
    ultimately show ?thesis
      using unat_lead [of "drop_bit 6 c" "0xc0"] by (simp add: unat_drop)
  qed
  show "unat (ucast (drop_bit 12 c OR 0xe0) :: u8) = 224 + unat c div 4096" if "c < 0x10000"
  proof -
    have "unat c < 65536"
      using that by (simp add: word_less_nat_alt)
    then have "unat (drop_bit 12 c) < 16"
      by (simp add: unat_drop)
    moreover from this have "drop_bit 12 c AND 0xe0 = 0"
      using small_and [of "drop_bit 12 c" 5 7] by (simp add: word_less_nat_alt)
    ultimately show ?thesis
      using unat_lead [of "drop_bit 12 c" "0xe0"] by (simp add: unat_drop)
  qed
  show "unat (ucast (drop_bit 18 c OR 0xf0) :: u8) = 240 + unat c div 262144" if "c < 0x200000"
  proof -
    have "unat c < 2097152"
      using that by (simp add: word_less_nat_alt)
    then have "unat (drop_bit 18 c) < 8"
      by (simp add: unat_drop)
    moreover from this have "drop_bit 18 c AND 0xf0 = 0"
      using small_and [of "drop_bit 18 c" 4 15] by (simp add: word_less_nat_alt)
    ultimately show ?thesis
      using unat_lead [of "drop_bit 18 c" "0xf0"] by (simp add: unat_drop)
  qed
qed

lemma unat_utf8_enc:
  assumes "valid_cp c"
  shows "map unat (utf8_enc c) = nat_enc (unat c)"
proof -
  have "unat (ucast (c AND 0xff) :: u8) = unat c" if "c < 0x80"
    using ascii_byte [OF that] by (metis unat_eq_nat_uint)
  moreover have "c < 0x80 \<longleftrightarrow> unat c < 128" "c < 0x800 \<longleftrightarrow> unat c < 2048"
    "c < 0x10000 \<longleftrightarrow> unat c < 65536" "c < 0x200000"
    using assms by (simp_all add: word_less_nat_alt valid_cp_def)
  ultimately show ?thesis
    by (auto simp: utf8_enc_def unat_cont unat_leads unat_drop)
qed

lemma digit_step:
  fixes m n :: nat
  assumes "m < n"
  shows "m div 64 < n div 64 \<or> m div 64 = n div 64 \<and> m mod 64 < n mod 64"
proof (cases "m div 64 = n div 64")
  case True
  then show ?thesis
    using assms mult_div_mod_eq [of 64 m] mult_div_mod_eq [of 64 n] by linarith
next
  case False
  moreover have "m div 64 \<le> n div 64"
    using assms by (intro div_le_mono) simp
  ultimately show ?thesis
    by simp
qed

lemma lex_less_cons: "x < y \<or> x = y \<and> lex_less xs ys \<Longrightarrow> lex_less ((a + x) # xs) ((a + y) # ys)"
  for x y a :: nat
  by simp

lemma digits2:
  fixes m n :: nat
  assumes "m < n"
  shows "lex_less ((a + m div 64) # (b + m mod 64) # xs) ((a + n div 64) # (b + n mod 64) # ys)"
  using digit_step [OF assms] by (intro lex_less_cons) (metis lex_less_cons)

lemma digits3:
  fixes m n :: nat
  assumes "m < n"
  shows "lex_less ((a + m div 64 div 64) # (b + m div 64 mod 64) # (b + m mod 64) # xs)
    ((a + n div 64 div 64) # (b + n div 64 mod 64) # (b + n mod 64) # ys)"
proof (cases "m div 64 < n div 64")
  case True
  then show ?thesis
    by (rule digits2)
next
  case False
  then have "m div 64 = n div 64" "m mod 64 < n mod 64"
    using digit_step [OF assms] by blast+
  then show ?thesis
    by (simp only: lex_less.simps add_less_cancel_left) simp
qed

lemma digits4:
  fixes m n :: nat
  assumes "m < n"
  shows "lex_less ((a + m div 64 div 64 div 64) # (b + m div 64 div 64 mod 64) # (b + m div 64 mod 64) # (b + m mod 64) # xs)
    ((a + n div 64 div 64 div 64) # (b + n div 64 div 64 mod 64) # (b + n div 64 mod 64) # (b + n mod 64) # ys)"
proof (cases "m div 64 < n div 64")
  case True
  then show ?thesis
    by (rule digits3)
next
  case False
  then have "m div 64 = n div 64" "m mod 64 < n mod 64"
    using digit_step [OF assms] by blast+
  then show ?thesis
    by (simp only: lex_less.simps add_less_cancel_left) simp
qed

lemma div_4096: "(n :: nat) div 4096 = n div 64 div 64" "n div 262144 = n div 64 div 64 div 64"
  by (simp_all only: div_mult2_eq [symmetric]) simp_all

lemma nat_enc_less:
  assumes "m < n"
  shows "lex_less (nat_enc m @ xs) (nat_enc n @ ys)"
proof -
  consider "n < 128" | "m < 128" "128 \<le> n" | "128 \<le> m" "n < 2048" | "128 \<le> m" "m < 2048" "2048 \<le> n"
    | "2048 \<le> m" "n < 65536" | "2048 \<le> m" "m < 65536" "65536 \<le> n" | "65536 \<le> m"
    using assms by linarith
  then show ?thesis
  proof cases
    case 3
    with assms have "nat_enc m = [192 + m div 64, 128 + m mod 64]"
      "nat_enc n = [192 + n div 64, 128 + n mod 64]"
      by simp_all
    then show ?thesis
      using digits2 [OF assms, of 192 128] by (simp only: append.simps)
  next
    case 4
    then have "m div 64 < 32"
      by simp
    with 4 show ?thesis
      by simp
  next
    case 5
    with assms have "nat_enc m = [224 + m div 4096, 128 + m div 64 mod 64, 128 + m mod 64]"
      "nat_enc n = [224 + n div 4096, 128 + n div 64 mod 64, 128 + n mod 64]"
      by simp_all
    then show ?thesis
      using digits3 [OF assms, of 224 128] by (simp only: append.simps div_4096)
  next
    case 6
    then have "m div 4096 < 16"
      by simp
    with 6 show ?thesis
      by simp
  next
    case 7
    with assms have
      "nat_enc m = [240 + m div 262144, 128 + m div 4096 mod 64, 128 + m div 64 mod 64, 128 + m mod 64]"
      "nat_enc n = [240 + n div 262144, 128 + n div 4096 mod 64, 128 + n div 64 mod 64, 128 + n mod 64]"
      by simp_all
    then show ?thesis
      using digits4 [OF assms, of 240 128] by (simp only: append.simps div_4096)
  qed (use assms in auto)
qed

lemma utf8_enc_less:
  assumes "valid_cp c" and "valid_cp d" and "c < d"
  shows "lex_less (utf8_enc c @ xs) (utf8_enc d @ ys)"
proof -
  have "lex_less (map unat (utf8_enc c @ xs)) (map unat (utf8_enc d @ ys))"
    using nat_enc_less [of "unat c" "unat d"] assms
    by (simp add: unat_utf8_enc word_less_nat_alt del: nat_enc.simps)
  then show ?thesis
    by (subst (asm) lex_less_map) (simp_all add: word_less_nat_alt)
qed

lemma lex_less_utf8s:
  assumes "valid_cps cs" and "valid_cps ds"
  shows "lex_less (utf8s cs) (utf8s ds) = lex_less cs ds"
  using assms
proof (induction cs ds rule: lex_less.induct)
  case (2 d ds)
  then show ?case
    by (cases "utf8_enc d") auto
next
  case (3 c cs d ds)
  then show ?case
    using utf8_enc_less [of c d] utf8_enc_less [of d c]
    by (cases c d rule: linorder_cases) (auto dest: lex_less_asym)
qed simp

end
