(* ===== verification/TinyString.thy ===== *)
theory TinyString
  imports Utf8Order
begin

text \<open>
  The string class of \<open>src/src/tiny_string.h\<close> and \<open>tiny_string.cpp\<close>: its buffer, the cached
  character count and flags, the constructors, concatenation and comparison.

  \<open>ts_bytes\<close> are the bytes before the terminator, so \<open>stringSize\<close> of the code is one more than
  their number; \<open>ts_cap\<close> is the number of bytes allocated behind \<open>buf\<close> (64 for the static
  buffer), which the code keeps implicit and every store is checked against. Sizes are naturals:
  strings of 2\<open>^\<close>32 bytes and more are outside the model. Arguments that callers choose freely
  (start positions, lengths, \<open>npos\<close>) stay 32-bit words.
\<close>

section \<open>The state\<close>

datatype ts_kind = READONLY | STATIC | DYNAMIC

record tiny_string =
  ts_bytes :: "u8 list"
  ts_cap :: nat
  ts_type :: ts_kind
  ts_numchars :: nat
  ts_isASCII :: bool
  ts_hasNull :: bool
  ts_isInteger :: bool

definition STATIC_SIZE :: nat where
  "STATIC_SIZE = 64"

definition npos :: u32 where
  "npos = - 1"

definition stringSize :: "tiny_string \<Rightarrow> nat" where
  "stringSize s = length (ts_bytes s) + 1"

definition numBytes :: "tiny_string \<Rightarrow> nat" where
  "numBytes s = stringSize s - 1"

definition numChars :: "tiny_string \<Rightarrow> nat" where
  "numChars s = ts_numchars s"

definition raw_buf :: "tiny_string \<Rightarrow> u8 list" where
  "raw_buf s = ts_bytes s @ [0]"

definition ts_empty :: "tiny_string \<Rightarrow> bool" where
  "ts_empty s \<longleftrightarrow> stringSize s = 1"

lemma numBytes_eq [simp]: "numBytes s = length (ts_bytes s)"
  by (simp add: numBytes_def stringSize_def)

lemma ts_empty_iff [simp]: "ts_empty s \<longleftrightarrow> ts_bytes s = []"
  by (simp add: ts_empty_def stringSize_def)

text \<open>The bytes of a C string: up to its first NUL, what \<open>strlen\<close> and \<open>strcpy\<close> see.\<close>

definition cstr :: "u8 list \<Rightarrow> u8 list" where
  "cstr xs = takeWhile (\<lambda>b. b \<noteq> 0) xs"

text \<open>
  \<open>memcmp\<close> may read all \<open>n\<close> bytes of both buffers, whatever it finds in them, so it is a fault unless both have
  them; only the sign of the result counts.
\<close>

fun memcmp_bytes :: "u8 list \<Rightarrow> u8 list \<Rightarrow> int" where
  "memcmp_bytes (x # xs) (y # ys) = (if x = y then memcmp_bytes xs ys else uint x - uint y)"
| "memcmp_bytes xs ys = 0"

definition memcmp :: "u8 list \<Rightarrow> u8 list \<Rightarrow> nat \<Rightarrow> int res" where
  "memcmp xs ys n =
     (if n \<le> length xs \<and> n \<le> length ys then Inr (memcmp_bytes (take n xs) (take n ys)) else Inl OutOfBounds)"

lemma memcmp_simps [simp]:
  "memcmp xs ys 0 = Inr 0"
  "n \<le> length xs \<Longrightarrow> n \<le> length ys \<Longrightarrow>
     memcmp (x # xs) (y # ys) (Suc n) = (if x = y then memcmp xs ys n else Inr (uint x - uint y))"
  by (simp_all add: memcmp_def)

section \<open>Buffer management\<close>

definition ts_new :: tiny_string where
  "ts_new = \<lparr>ts_bytes = [], ts_cap = STATIC_SIZE, ts_type = STATIC, ts_numchars = 0,
     ts_isASCII = True, ts_hasNull = False, ts_isInteger = False\<rparr>"

definition resetToStatic :: "tiny_string \<Rightarrow> tiny_string" where
  "resetToStatic s = s\<lparr>ts_bytes := [], ts_cap := STATIC_SIZE, ts_type := STATIC\<rparr>"

definition createBuffer :: "nat \<Rightarrow> tiny_string \<Rightarrow> tiny_string" where
  "createBuffer n s = s\<lparr>ts_type := DYNAMIC, ts_cap := n\<rparr>"

definition resizeBuffer :: "nat \<Rightarrow> tiny_string \<Rightarrow> tiny_string res" where
  "resizeBuffer n s =
     (if ts_type s \<noteq> DYNAMIC \<or> n < stringSize s then Inl AssertionFailed
      else Inr (s\<lparr>ts_cap := n\<rparr>))"

text \<open>The content and its terminator are stored behind \<open>buf\<close>: a fault unless they fit.\<close>

definition store :: "u8 list \<Rightarrow> tiny_string \<Rightarrow> tiny_string res" where
  "store xs s = (if length xs + 1 \<le> ts_cap s then Inr (s\<lparr>ts_bytes := xs\<rparr>) else Inl OutOfBounds)"

definition makePrivateCopy :: "u8 list \<Rightarrow> tiny_string \<Rightarrow> tiny_string res" where
  "makePrivateCopy xs s =
     (let s1 = resetToStatic s;
          n = length (cstr xs) + 1;
          s2 = (if STATIC_SIZE < n then createBuffer n s1 else s1)
      in store (cstr xs) s2)"

text \<open>
  \<open>init\<close>: recount the characters and set the flags. \<open>utfpos\<close> shifts the lead byte left once per
  byte; a character is counted when the bit shifted to the top is clear.
\<close>

record scan =
  sc_utfpos :: u8
  sc_numchars :: nat
  sc_isASCII :: bool
  sc_hasNull :: bool
  sc_isInteger :: bool

definition shl1 :: "u8 \<Rightarrow> u8" where
  "shl1 u = push_bit 1 u"

definition init_step :: "scan \<Rightarrow> u8 \<Rightarrow> scan" where
  "init_step a b =
     (let a1 =
        (if b AND 0x80 \<noteq> 0 then
           (let u = shl1 (if sc_utfpos a = 0 then b else sc_utfpos a);
                done = (u AND 0x80 = 0)
            in a\<lparr>sc_utfpos := (if done then 0 else u),
                 sc_numchars := (if done then sc_numchars a + 1 else sc_numchars a),
                 sc_isASCII := False, sc_isInteger := False\<rparr>)
         else a\<lparr>sc_numchars := sc_numchars a + 1\<rparr>)
      in if b = 0 then a1\<lparr>sc_hasNull := True\<rparr>
         else if isdigit_byte b then a1
         else a1\<lparr>sc_isInteger := False\<rparr>)"

definition scan0 :: scan where
  "scan0 = \<lparr>sc_utfpos = 0, sc_numchars = 0, sc_isASCII = True, sc_hasNull = False,
     sc_isInteger = True\<rparr>"

definition ts_init :: "tiny_string \<Rightarrow> tiny_string" where
  "ts_init s =
     (let a = foldl init_step scan0 (ts_bytes s)
      in s\<lparr>ts_numchars := sc_numchars a, ts_isASCII := sc_isASCII a, ts_hasNull := sc_hasNull a,
           ts_isInteger := sc_isInteger a\<rparr>)"

section \<open>Constructors and assignment\<close>

text \<open>From a C string, copied or kept as a read-only pointer; from a \<open>std::string\<close>; from bytes read.\<close>

definition from_cstr :: "u8 list \<Rightarrow> bool \<Rightarrow> tiny_string res" where
  "from_cstr xs copy =
     (if copy then bindE (makePrivateCopy xs ts_new) (\<lambda>s. Inr (ts_init s))
      else Inr (ts_init (ts_new\<lparr>ts_bytes := cstr xs, ts_type := READONLY,
                                ts_cap := length (cstr xs) + 1\<rparr>)))"

definition from_std_string :: "u8 list \<Rightarrow> tiny_string res" where
  "from_std_string xs =
     (let n = length xs + 1;
          s = (if STATIC_SIZE < n then createBuffer n ts_new else ts_new)
      in bindE (store xs s) (\<lambda>s. Inr (ts_init s)))"

definition ts_copy :: "tiny_string \<Rightarrow> tiny_string res" where
  "ts_copy r =
     (if ts_type r = READONLY then Inr r
      else
        let s = r\<lparr>ts_cap := STATIC_SIZE, ts_type := STATIC\<rparr>;
            s' = (if STATIC_SIZE < stringSize r then createBuffer (stringSize r) s else s)
        in store (ts_bytes r) s')"

text \<open>The characters between two iterators, given as byte offsets into \<open>buf\<close>.\<close>

definition from_range :: "u8 list \<Rightarrow> nat \<Rightarrow> nat \<Rightarrow> tiny_string res" where
  "from_range buf start stop =
     (let n = stop - start + 1;
          s = (if STATIC_SIZE < n then createBuffer n ts_new else ts_new)
      in bindE (mem_read start (stop - start) buf) (\<lambda>xs.
         bindE (store xs s) (\<lambda>s. Inr (ts_init s))))"

text \<open>The assignment operators; \<open>s\<close> is the old value of the target.\<close>

definition assign :: "tiny_string \<Rightarrow> tiny_string \<Rightarrow> tiny_string res" where
  "assign r s =
     (let s1 = resetToStatic s
      in bindE
           (if ts_type r = READONLY
            then Inr (s1\<lparr>ts_type := READONLY, ts_bytes := ts_bytes r, ts_cap := ts_cap r\<rparr>)
            else store (ts_bytes r)
                   (if STATIC_SIZE < stringSize r then createBuffer (stringSize r) s1 else s1))
           (\<lambda>s2. Inr (s2\<lparr>ts_isASCII := ts_isASCII r, ts_hasNull := ts_hasNull r,
              ts_isInteger := ts_isInteger r, ts_numchars := ts_numchars r\<rparr>)))"

definition assign_std :: "u8 list \<Rightarrow> tiny_string \<Rightarrow> tiny_string res" where
  "assign_std xs s =
     (let s1 = resetToStatic s;
          n = length xs + 1
      in bindE (store xs (if STATIC_SIZE < n then createBuffer n s1 else s1))
           (\<lambda>s2. Inr (ts_init s2)))"

definition assign_cstr :: "u8 list \<Rightarrow> tiny_string \<Rightarrow> tiny_string res" where
  "assign_cstr xs s = bindE (makePrivateCopy xs s) (\<lambda>s1. Inr (ts_init s1))"

definition setValue ::
  "u8 list \<Rightarrow> nat \<Rightarrow> bool \<Rightarrow> bool \<Rightarrow> bool \<Rightarrow> bool \<Rightarrow> tiny_string \<Rightarrow> tiny_string res" where
  "setValue xs nchars ascii hasnull isint copy s =
     bindE
       (if copy then
          (let s1 = resetToStatic s;
               n = length xs + 1
           in store xs (if STATIC_SIZE < n then createBuffer n s1 else s1))
        else Inr (s\<lparr>ts_type := READONLY, ts_bytes := xs, ts_cap := length xs + 1\<rparr>))
       (\<lambda>s. Inr (s\<lparr>ts_numchars := nchars, ts_isASCII := ascii, ts_hasNull := hasnull,
                    ts_isInteger := isint\<rparr>))"

definition ts_clear :: "tiny_string \<Rightarrow> tiny_string" where
  "ts_clear s = (resetToStatic s)\<lparr>ts_numchars := 0, ts_isASCII := True, ts_hasNull := False,
     ts_isInteger := False\<rparr>"

definition setChar :: "u32 \<Rightarrow> tiny_string \<Rightarrow> tiny_string res" where
  "setChar c s =
     (let s1 = (if ts_type s \<noteq> STATIC then resetToStatic s else s)
      in bindE (store (if c < 0x80 then [ucast (c AND 0xff)] else utf8_enc c) s1)
           (\<lambda>s2. Inr (s2\<lparr>ts_isASCII := c < 0x80, ts_hasNull := (c = 0),
              ts_isInteger := (0x30 \<le> c \<and> c \<le> 0x39), ts_numchars := 1\<rparr>)))"

definition fromChar :: "u32 \<Rightarrow> tiny_string res" where
  "fromChar c = setChar c ts_new"

section \<open>Concatenation\<close>

text \<open>Room for \<open>n\<close> bytes before an append: shared by the two \<open>operator+=\<close>.\<close>

definition grow_for :: "nat \<Rightarrow> bool \<Rightarrow> tiny_string \<Rightarrow> tiny_string res" where
  "grow_for n grows s =
     (if ts_type s = STATIC \<and> STATIC_SIZE < n then Inr (createBuffer n s)
      else if ts_type s = DYNAMIC \<and> grows then resizeBuffer n s
      else Inr s)"

definition privatise :: "tiny_string \<Rightarrow> tiny_string res" where
  "privatise s = (if ts_type s = READONLY then makePrivateCopy (ts_bytes s) s else Inr s)"

definition append_cstr :: "u8 list \<Rightarrow> tiny_string \<Rightarrow> tiny_string res" where
  "append_cstr xs s = bindE (privatise s) (\<lambda>s1.
     let added = cstr xs;
         n = stringSize s1 + length added
     in bindE (grow_for n (added \<noteq> []) s1) (\<lambda>s2.
        bindE (store (ts_bytes s1 @ added) s2) (\<lambda>s3. Inr (ts_init s3))))"

definition append :: "tiny_string \<Rightarrow> tiny_string \<Rightarrow> tiny_string res" where
  "append r s =
     (let int' = (if ts_empty s \<or> ts_isInteger s then ts_isInteger r else ts_isInteger s)
      in bindE (privatise (s\<lparr>ts_isInteger := int'\<rparr>)) (\<lambda>s1.
         bindE (grow_for (stringSize s1 + stringSize r - 1) (1 < stringSize r) s1) (\<lambda>s2.
         bindE (store (ts_bytes s1 @ ts_bytes r) s2) (\<lambda>s3.
           Inr (s3\<lparr>ts_isASCII := (if ts_isASCII s3 then ts_isASCII r else ts_isASCII s3),
                   ts_hasNull := (if \<not> ts_hasNull s3 then ts_hasNull r else ts_hasNull s3),
                   ts_numchars := ts_numchars s3 + ts_numchars r\<rparr>)))))"

definition append_char :: "u32 \<Rightarrow> tiny_string \<Rightarrow> tiny_string res" where
  "append_char c s = bindE (fromChar c) (\<lambda>r. append r s)"

definition append_std :: "u8 list \<Rightarrow> tiny_string \<Rightarrow> tiny_string res" where
  "append_std xs s = bindE (from_std_string xs) (\<lambda>r. append r s)"

definition ts_plus :: "tiny_string \<Rightarrow> tiny_string \<Rightarrow> tiny_string res" where
  "ts_plus s r = bindE (ts_copy s) (append r)"

definition ts_plus_cstr :: "tiny_string \<Rightarrow> u8 list \<Rightarrow> tiny_string res" where
  "ts_plus_cstr s xs = bindE (from_cstr xs False) (ts_plus s)"

definition ts_plus_std :: "tiny_string \<Rightarrow> u8 list \<Rightarrow> tiny_string res" where
  "ts_plus_std s xs = bindE (from_std_string xs) (ts_plus s)"

definition to_std_string :: "tiny_string \<Rightarrow> u8 list" where
  "to_std_string s = take (stringSize s - 1) (raw_buf s)"

section \<open>Comparison\<close>

definition ts_less :: "tiny_string \<Rightarrow> tiny_string \<Rightarrow> bool res" where
  "ts_less s r = bindE (memcmp (raw_buf s) (raw_buf r) (min (stringSize s) (stringSize r)))
     (\<lambda>ret. Inr (if ret = 0 then stringSize s < stringSize r else ret < 0))"

definition ts_greater :: "tiny_string \<Rightarrow> tiny_string \<Rightarrow> bool res" where
  "ts_greater s r = bindE (memcmp (raw_buf s) (raw_buf r) (min (stringSize s) (stringSize r)))
     (\<lambda>ret. Inr (if ret = 0 then stringSize r < stringSize s else 0 < ret))"

definition ts_eq :: "tiny_string \<Rightarrow> tiny_string \<Rightarrow> bool res" where
  "ts_eq s r =
     (if stringSize s \<noteq> stringSize r then Inr False
      else bindE (memcmp (raw_buf s) (raw_buf r) (stringSize s - 1)) (\<lambda>d. Inr (d = 0)))"

definition ts_neq :: "tiny_string \<Rightarrow> tiny_string \<Rightarrow> bool res" where
  "ts_neq s r = bindE (ts_eq s r) (\<lambda>b. Inr (\<not> b))"

definition ts_eq_std :: "tiny_string \<Rightarrow> u8 list \<Rightarrow> bool res" where
  "ts_eq_std s xs =
     (if stringSize s \<noteq> length xs + 1 then Inr False
      else bindE (memcmp (raw_buf s) (xs @ [0]) (stringSize s - 1)) (\<lambda>d. Inr (d = 0)))"

definition ts_neq_std :: "tiny_string \<Rightarrow> u8 list \<Rightarrow> bool res" where
  "ts_neq_std s xs =
     (if stringSize s \<noteq> length xs + 1 then Inr True
      else bindE (memcmp (raw_buf s) (xs @ [0]) (stringSize s - 1)) (\<lambda>d. Inr (d \<noteq> 0)))"

definition ts_eq_cstr :: "tiny_string \<Rightarrow> u8 list \<Rightarrow> bool res" where
  "ts_eq_cstr s xs =
     (if length (cstr xs) \<noteq> stringSize s - 1 then Inr False
      else bindE (memcmp (raw_buf s) (cstr xs) (length (cstr xs))) (\<lambda>d. Inr (d = 0)))"

text \<open>\<open>compare\<close> subtracts the bytes as signed \<open>char\<close>s, where \<open>operator<\<close> compares them unsigned.\<close>

fun compare_bytes :: "u8 list \<Rightarrow> u8 list \<Rightarrow> int" where
  "compare_bytes (x # xs) (y # ys) =
     (if sint x - sint y \<noteq> 0 then sint x - sint y else compare_bytes xs ys)"
| "compare_bytes _ _ = 0"

definition ts_compare :: "tiny_string \<Rightarrow> tiny_string \<Rightarrow> int" where
  "ts_compare s r =
     (let l = min (stringSize s) (stringSize r) - 1;
          res = compare_bytes (take l (ts_bytes s)) (take l (ts_bytes r))
      in if res \<noteq> 0 then res
         else if stringSize r < stringSize s then 1
         else if stringSize s < stringSize r then - 1
         else 0)"

definition startsWith :: "tiny_string \<Rightarrow> tiny_string \<Rightarrow> bool res" where
  "startsWith s r =
     (if numBytes s < numBytes r then Inr False
      else bindE (memcmp (raw_buf s) (raw_buf r) (numBytes r)) (\<lambda>d. Inr (d = 0)))"

definition endsWith :: "tiny_string \<Rightarrow> tiny_string \<Rightarrow> bool res" where
  "endsWith s r =
     (if numBytes s < numBytes r then Inr False
      else bindE (memcmp (drop (numBytes s - numBytes r) (raw_buf s)) (raw_buf r) (numBytes r))
             (\<lambda>d. Inr (d = 0)))"

text \<open>The overloads for C strings: \<open>strncmp\<close> also stops at a NUL.\<close>

fun strncmp_eq :: "u8 list \<Rightarrow> u8 list \<Rightarrow> nat \<Rightarrow> bool res" where
  "strncmp_eq xs ys 0 = Inr True"
| "strncmp_eq (x # xs) (y # ys) (Suc n) =
     (if x \<noteq> y then Inr False else if x = 0 then Inr True else strncmp_eq xs ys n)"
| "strncmp_eq xs ys (Suc n) = Inl OutOfBounds"

definition startsWith_cstr :: "tiny_string \<Rightarrow> u8 list \<Rightarrow> bool res" where
  "startsWith_cstr s o' = strncmp_eq (raw_buf s) (cstr o' @ [0]) (length (cstr o'))"

definition endsWith_cstr :: "tiny_string \<Rightarrow> u8 list \<Rightarrow> bool res" where
  "endsWith_cstr s o' =
     (if length (cstr o') \<le> numBytes s then
        strncmp_eq (drop (numBytes s - length (cstr o')) (raw_buf s)) (cstr o' @ [0])
          (length (cstr o'))
      else Inr False)"

section \<open>Strings as lists of code points\<close>

text \<open>
  \<open>ts_repr s cs\<close>: \<open>s\<close> holds the UTF-8 encoding of \<open>cs\<close>, its count and flags agree with it and
  its bytes fit the buffer. \<open>hasNull\<close> may stay set after the NUL is gone and \<open>isInteger\<close> may be
  clear on a string of digits, so only one direction of each is part of it; \<open>init\<close> does not let a
  NUL clear \<open>isInteger\<close>, so \<open>is_digits\<close> admits it.
\<close>

definition buf_ok :: "tiny_string \<Rightarrow> bool" where
  "buf_ok s \<longleftrightarrow> stringSize s \<le> ts_cap s \<and> (ts_type s = STATIC \<longrightarrow> ts_cap s = STATIC_SIZE)
     \<and> (ts_type s = READONLY \<longrightarrow> 0 \<notin> set (ts_bytes s))"

definition is_ascii :: "u32 list \<Rightarrow> bool" where
  "is_ascii cs \<longleftrightarrow> (\<forall>c\<in>set cs. c < 0x80)"

definition is_digits :: "u32 list \<Rightarrow> bool" where
  "is_digits cs \<longleftrightarrow> (\<forall>c\<in>set cs. c = 0 \<or> 0x30 \<le> c \<and> c \<le> 0x39)"

definition ts_repr :: "tiny_string \<Rightarrow> u32 list \<Rightarrow> bool" where
  "ts_repr s cs \<longleftrightarrow> valid_cps cs \<and> ts_bytes s = utf8s cs \<and> ts_numchars s = length cs
     \<and> ts_isASCII s = is_ascii cs \<and> (0 \<in> set cs \<longrightarrow> ts_hasNull s)
     \<and> (ts_isInteger s \<longrightarrow> is_digits cs) \<and> buf_ok s"

lemma is_ascii_simps [simp]:
  "is_ascii []" "is_ascii (c # cs) \<longleftrightarrow> c < 0x80 \<and> is_ascii cs"
  "is_ascii (cs @ ds) \<longleftrightarrow> is_ascii cs \<and> is_ascii ds"
  by (auto simp: is_ascii_def)

lemma is_digits_simps [simp]:
  "is_digits []" "is_digits (c # cs) \<longleftrightarrow> (c = 0 \<or> 0x30 \<le> c \<and> c \<le> 0x39) \<and> is_digits cs"
  "is_digits (cs @ ds) \<longleftrightarrow> is_digits cs \<and> is_digits ds"
  by (auto simp: is_digits_def)

lemma ts_repr_new [simp]: "ts_repr ts_new []"
  by (simp add: ts_repr_def ts_new_def buf_ok_def stringSize_def STATIC_SIZE_def)

lemma utf8_enc_bit7:
  assumes "valid_cp c" and "\<not> c < 0x80" and "b \<in> set (utf8_enc c)"
  shows "bit b 7"
  using assms enc_bytes_class(2-5) [of c] enc_bytes_class(5) [of "drop_bit 6 c"]
    enc_bytes_class(5) [of "drop_bit 12 c"]
  by (auto simp: utf8_enc_def byte_class valid_cp_def split: if_splits)

lemma zero_in_utf8_enc: "valid_cp c \<Longrightarrow> 0 \<in> set (utf8_enc c) \<longleftrightarrow> c = 0"
proof (cases "c < 0x80")
  case True
  then have "(ucast (c AND 0xff) :: u8) = 0 \<longleftrightarrow> c = 0"
    using ascii_byte [OF True] by (metis uint_0_iff)
  with True show ?thesis
    by (auto simp: utf8_enc_ascii)
next
  case False
  moreover assume "valid_cp c"
  ultimately show ?thesis
    using utf8_enc_bit7 [of c 0] by auto
qed

lemma zero_in_utf8s: "valid_cps cs \<Longrightarrow> 0 \<in> set (utf8s cs) \<longleftrightarrow> 0 \<in> set cs"
  by (induction cs) (auto simp: zero_in_utf8_enc)

lemma cstr_id: "0 \<notin> set xs \<Longrightarrow> cstr xs = xs"
  by (auto simp: cstr_def takeWhile_eq_all_conv)

lemma cstr_terminated: "0 \<notin> set xs \<Longrightarrow> cstr (xs @ [0]) = xs"
  unfolding cstr_def by (subst takeWhile_append2) auto

section \<open>Counting characters\<close>

lemma bit_shl1 [simp]:
  "bit (shl1 u) 7 \<longleftrightarrow> bit u 6" "bit (shl1 u) 6 \<longleftrightarrow> bit u 5"
  "bit (shl1 u) 5 \<longleftrightarrow> bit u 4" "bit (shl1 u) 4 \<longleftrightarrow> bit u 3"
  unfolding shl1_def bit_push_bit_iff by simp_all

lemma shl1_nonzero: "bit u 6 \<Longrightarrow> shl1 u \<noteq> 0"
  by (metis bit_shl1(1) bit_0_eq bot_apply bot_bool_def)

text \<open>
  The scan of one encoded character counts it once, whatever its length, and leaves \<open>utfpos\<close>
  clear again.
\<close>

definition scan_char :: "u32 \<Rightarrow> scan \<Rightarrow> scan" where
  "scan_char c a = a\<lparr>sc_numchars := sc_numchars a + 1,
     sc_isASCII := (sc_isASCII a \<and> c < 0x80),
     sc_hasNull := (sc_hasNull a \<or> c = 0),
     sc_isInteger := (sc_isInteger a \<and> (c = 0 \<or> 0x30 \<le> c \<and> c \<le> 0x39))\<rparr>"

lemma isdigit_ascii:
  fixes c :: u32
  assumes "c < 0x80"
  shows "isdigit_byte (ucast (c AND 0xff)) \<longleftrightarrow> 0x30 \<le> c \<and> c \<le> 0x39"
  unfolding isdigit_byte_def word_le_def ascii_byte [OF assms] by simp

lemma isdigit_byte_not_bit7:
  assumes "bit b 7"
  shows "\<not> isdigit_byte b"
proof
  assume "isdigit_byte b"
  then have "b < 2 ^ 7"
    by (auto simp: isdigit_byte_def word_less_nat_alt word_le_nat_alt)
  from not_bit_small [OF this, of 7] assms show False
    by simp
qed

lemma init_step_multi:
  assumes "bit b 7"
  shows "init_step a b =
    (let u = shl1 (if sc_utfpos a = 0 then b else sc_utfpos a)
     in if bit u 7 then a\<lparr>sc_utfpos := u, sc_isASCII := False, sc_isInteger := False\<rparr>
        else a\<lparr>sc_utfpos := 0, sc_numchars := sc_numchars a + 1, sc_isASCII := False,
               sc_isInteger := False\<rparr>)"
  using assms isdigit_byte_not_bit7 [OF assms]
  by (auto simp: init_step_def byte_class Let_def)

lemma scan_utf8_enc:
  assumes "valid_cp c" and "sc_utfpos a = 0"
  shows "foldl init_step a (utf8_enc c) = scan_char c a"
proof (cases "c < 0x80")
  case True
  have "(ucast (c AND 0xff) :: u8) = 0 \<longleftrightarrow> c = 0"
    using ascii_byte [OF True] by (metis uint_0_iff)
  with True show ?thesis
    using enc_bytes_class(1) [OF True]
    by (simp add: utf8_enc_ascii init_step_def byte_class isdigit_ascii scan_char_def Let_def)
next
  case False
  then have ne: "c \<noteq> 0" "\<not> c \<le> 0x39"
    by (auto simp: word_less_nat_alt word_le_nat_alt)
  have "foldl init_step a (utf8_enc c) =
    a\<lparr>sc_numchars := sc_numchars a + 1, sc_isASCII := False, sc_isInteger := False\<rparr>"
    using False assms utf8_enc_bit7 [OF assms(1) False] enc_bytes_class(2-4) [of c]
    by (auto simp: utf8_enc_def byte_class valid_cp_def init_step_multi shl1_nonzero Let_def)
  with False ne show ?thesis
    by (simp add: scan_char_def)
qed

lemma scan_utf8s:
  assumes "valid_cps cs" and "sc_utfpos a = 0"
  shows "foldl init_step a (utf8s cs) = a\<lparr>sc_numchars := sc_numchars a + length cs,
     sc_isASCII := (sc_isASCII a \<and> is_ascii cs), sc_hasNull := (sc_hasNull a \<or> 0 \<in> set cs),
     sc_isInteger := (sc_isInteger a \<and> is_digits cs)\<rparr>"
  using assms
proof (induction cs arbitrary: a)
  case Nil
  then show ?case
    by simp
next
  case (Cons c cs)
  then show ?case
    using Cons.IH [of "scan_char c a"]
    by (auto simp: scan_utf8_enc scan_char_def)
qed

lemma ts_init_utf8s:
  assumes "valid_cps cs" and "ts_bytes s = utf8s cs"
  shows "ts_init s = s\<lparr>ts_numchars := length cs, ts_isASCII := is_ascii cs,
     ts_hasNull := (0 \<in> set cs), ts_isInteger := is_digits cs\<rparr>"
  using scan_utf8s [OF assms(1), of scan0] by (simp add: ts_init_def assms(2) scan0_def Let_def)

lemma ts_repr_init:
  assumes "valid_cps cs" and "ts_bytes s = utf8s cs" and "buf_ok s"
  shows "ts_repr (ts_init s) cs"
  using assms by (simp add: ts_init_utf8s ts_repr_def buf_ok_def stringSize_def)

section \<open>Constructors and concatenation keep the representation\<close>

lemmas buf_defs = resetToStatic_def createBuffer_def store_def stringSize_def STATIC_SIZE_def

lemma makePrivateCopy_spec:
  "\<exists>t. makePrivateCopy xs s = Inr t \<and> ts_bytes t = cstr xs \<and> buf_ok t
     \<and> ts_type t \<noteq> READONLY
     \<and> ts_numchars t = ts_numchars s \<and> ts_isASCII t = ts_isASCII s
     \<and> ts_hasNull t = ts_hasNull s \<and> ts_isInteger t = ts_isInteger s"
  by (auto simp: makePrivateCopy_def buf_defs buf_ok_def Let_def)

lemma from_cstr_repr:
  assumes "valid_cps cs" and "0 \<notin> set cs" and "cstr xs = utf8s cs"
  shows "\<exists>t. from_cstr xs copy = Inr t \<and> ts_repr t cs"
proof (cases copy)
  case True
  with makePrivateCopy_spec [of xs ts_new] assms(1,3) show ?thesis
    by (auto simp: from_cstr_def intro: ts_repr_init)
next
  case False
  have "0 \<notin> set (utf8s cs)"
    using assms(1,2) by (simp add: zero_in_utf8s)
  with False assms(1,3) show ?thesis
    by (auto simp: from_cstr_def buf_ok_def buf_defs intro!: ts_repr_init)
qed

lemma from_std_string_repr:
  assumes "valid_cps cs"
  shows "\<exists>t. from_std_string (utf8s cs) = Inr t \<and> ts_repr t cs"
  using assms
  by (auto simp: from_std_string_def buf_defs buf_ok_def ts_new_def Let_def intro!: ts_repr_init)

lemma fromChar_repr:
  assumes "valid_cp c"
  shows "\<exists>t. fromChar c = Inr t \<and> ts_repr t [c]"
proof -
  have "length (utf8_enc c) \<le> 4"
    using length_utf8_enc [of c] by auto
  then show ?thesis
    using assms
    by (auto simp: fromChar_def setChar_def ts_repr_def buf_ok_def buf_defs ts_new_def
        utf8_enc_ascii)
qed

lemma ts_copy_repr:
  assumes "ts_repr s cs"
  shows "\<exists>t. ts_copy s = Inr t \<and> ts_repr t cs"
  using assms by (auto simp: ts_copy_def ts_repr_def buf_ok_def buf_defs Let_def)

lemma privatise_spec:
  assumes "buf_ok s"
  shows "\<exists>t. privatise s = Inr t \<and> ts_bytes t = ts_bytes s \<and> buf_ok t \<and> ts_type t \<noteq> READONLY
     \<and> ts_numchars t = ts_numchars s \<and> ts_isASCII t = ts_isASCII s
     \<and> ts_hasNull t = ts_hasNull s \<and> ts_isInteger t = ts_isInteger s"
  using makePrivateCopy_spec [of "ts_bytes s" s] assms
  by (auto simp: privatise_def buf_ok_def cstr_id)

lemma grow_store_spec:
  assumes "buf_ok s" and "ts_type s \<noteq> READONLY" and "n = length (ts_bytes s) + length xs + 1"
  shows "\<exists>t. bindE (grow_for n (xs \<noteq> []) s) (store (ts_bytes s @ xs)) = Inr t
     \<and> ts_bytes t = ts_bytes s @ xs \<and> buf_ok t
     \<and> ts_numchars t = ts_numchars s \<and> ts_isASCII t = ts_isASCII s
     \<and> ts_hasNull t = ts_hasNull s \<and> ts_isInteger t = ts_isInteger s"
  using assms
  by (cases "ts_type s") (auto simp: grow_for_def resizeBuffer_def buf_ok_def buf_defs)

lemma append_cstr_repr:
  assumes "ts_repr s cs" and "valid_cps ds" and "cstr xs = utf8s ds"
  shows "\<exists>t. append_cstr xs s = Inr t \<and> ts_repr t (cs @ ds)"
proof -
  from assms(1) obtain s1 where s1: "privatise s = Inr s1" "ts_bytes s1 = utf8s cs" "buf_ok s1"
    "ts_type s1 \<noteq> READONLY"
    using privatise_spec [of s] by (auto simp: ts_repr_def)
  obtain t where "bindE (grow_for (stringSize s1 + length (utf8s ds)) (utf8s ds \<noteq> []) s1)
      (store (ts_bytes s1 @ utf8s ds)) = Inr t" "ts_bytes t = utf8s (cs @ ds)" "buf_ok t"
    using grow_store_spec [OF s1(3,4), of _ "utf8s ds"] by (auto simp: stringSize_def s1(2))
  then show ?thesis
    using assms ts_repr_init [of "cs @ ds" t]
    by (auto simp: append_cstr_def s1(1) Let_def ts_repr_def bindE_Inr_conv simp flip: bindE_assoc)
qed

lemma append_repr:
  assumes "ts_repr s cs" and "ts_repr r ds"
  shows "\<exists>t. append r s = Inr t \<and> ts_repr t (cs @ ds)"
proof -
  define i where "i = (if ts_empty s \<or> ts_isInteger s then ts_isInteger r else ts_isInteger s)"
  obtain s1 where s1: "privatise (s\<lparr>ts_isInteger := i\<rparr>) = Inr s1" "ts_bytes s1 = utf8s cs"
    "buf_ok s1" "ts_type s1 \<noteq> READONLY" "ts_numchars s1 = length cs"
    "ts_isASCII s1 = is_ascii cs" "ts_hasNull s1 = ts_hasNull s" "ts_isInteger s1 = i"
    using assms(1) privatise_spec [of "s\<lparr>ts_isInteger := i\<rparr>"]
    by (auto simp: ts_repr_def buf_ok_def stringSize_def)
  have r: "ts_bytes r = utf8s ds" "1 < stringSize r \<longleftrightarrow> utf8s ds \<noteq> []"
    using assms(2) by (auto simp: ts_repr_def stringSize_def)
  obtain s2 t where t: "grow_for (stringSize s1 + stringSize r - 1) (1 < stringSize r) s1 = Inr s2"
    "store (ts_bytes s1 @ ts_bytes r) s2 = Inr t" "ts_bytes t = utf8s (cs @ ds)" "buf_ok t"
    "ts_numchars t = length cs" "ts_isASCII t = is_ascii cs" "ts_hasNull t = ts_hasNull s"
    "ts_isInteger t = i"
    using grow_store_spec [OF s1(3,4), of _ "utf8s ds"] s1 r
    by (auto simp: stringSize_def bindE_Inr_conv)
  define u where "u = t\<lparr>ts_isASCII := (if ts_isASCII t then ts_isASCII r else ts_isASCII t),
    ts_hasNull := (if \<not> ts_hasNull t then ts_hasNull r else ts_hasNull t),
    ts_numchars := ts_numchars t + ts_numchars r\<rparr>"
  have "append r s = Inr u"
    unfolding append_def Let_def i_def [symmetric] s1(1) bindE_simps t(1,2) u_def ..
  moreover have "i \<Longrightarrow> is_digits (cs @ ds)"
    using assms by (auto simp: i_def ts_repr_def split: if_splits)
  then have "ts_repr u (cs @ ds)"
    using t(3-) assms by (auto simp: u_def ts_repr_def buf_ok_def stringSize_def)
  ultimately show ?thesis
    by blast
qed

lemma append_char_repr:
  assumes "ts_repr s cs" and "valid_cp c"
  shows "\<exists>t. append_char c s = Inr t \<and> ts_repr t (cs @ [c])"
proof -
  obtain r where "fromChar c = Inr r" "ts_repr r [c]"
    using fromChar_repr [OF assms(2)] by blast
  with append_repr [OF assms(1)] show ?thesis
    by (auto simp: append_char_def)
qed

lemma ts_plus_repr:
  assumes "ts_repr s cs" and "ts_repr r ds"
  shows "\<exists>t. ts_plus s r = Inr t \<and> ts_repr t (cs @ ds)"
proof -
  obtain s' where "ts_copy s = Inr s'" "ts_repr s' cs"
    using ts_copy_repr [OF assms(1)] by blast
  with append_repr [OF _ assms(2)] show ?thesis
    by (auto simp: ts_plus_def)
qed

section \<open>Comparison is the order of the bytes\<close>

lemma memcmp_min:
  "n \<le> length xs \<Longrightarrow> n \<le> length ys \<Longrightarrow>
     \<exists>d. memcmp xs ys n = Inr d \<and> (d = 0 \<longleftrightarrow> take n xs = take n ys)"
proof (induction n arbitrary: xs ys)
  case (Suc n)
  then obtain x xs' y ys' where "xs = x # xs'" "ys = y # ys'"
    by (cases xs; cases ys) auto
  with Suc show ?case
    by (auto simp: word_uint_eq_iff)
qed simp

lemma ts_eq_iff: "ts_eq s r = Inr (ts_bytes s = ts_bytes r)"
proof -
  have "\<exists>d. memcmp (raw_buf s) (raw_buf r) (stringSize s - 1) = Inr d
      \<and> (d = 0 \<longleftrightarrow> ts_bytes s = ts_bytes r)" if "length (ts_bytes s) = length (ts_bytes r)"
    using memcmp_min [of "length (ts_bytes s)" "raw_buf s" "raw_buf r"] that
    by (auto simp: raw_buf_def stringSize_def)
  then show ?thesis
    by (auto simp: ts_eq_def stringSize_def)
qed

lemma memcmp_terminated:
  "\<exists>d. memcmp (xs @ [0]) (ys @ [0]) (min (length xs + 1) (length ys + 1)) = Inr d
     \<and> (if d = 0 then length xs < length ys else d < 0) = lex_less xs ys"
proof (induction xs ys rule: lex_less.induct)
  case (1 xs)
  then show ?case
    by (cases xs) (auto simp: uint_0_iff not_less)
next
  case (2 y ys)
  have "0 < uint y" if "y \<noteq> 0"
    using that by (metis order_le_less uint_0_iff uint_ge_0)
  then show ?case
    by auto
next
  case (3 x xs y ys)
  then show ?case
    by (cases "x = y") (auto simp: word_less_def word_uint_eq_iff)
qed

lemma ts_less_iff: "ts_less s r = Inr (lex_less (ts_bytes s) (ts_bytes r))"
  using memcmp_terminated [of "ts_bytes s" "ts_bytes r"]
  by (auto simp: ts_less_def raw_buf_def stringSize_def)

lemma assign_repr:
  assumes "ts_repr r cs"
  shows "\<exists>t. assign r s = Inr t \<and> ts_repr t cs"
  using assms by (cases "ts_type r") (auto simp: assign_def ts_repr_def buf_ok_def buf_defs Let_def)

lemma to_std_string_eq [simp]: "to_std_string s = ts_bytes s"
  by (simp add: to_std_string_def raw_buf_def stringSize_def)

section \<open>A canonical string for a list of code points\<close>

definition ts_of :: "u32 list \<Rightarrow> tiny_string" where
  "ts_of cs = (case from_std_string (utf8s cs) of Inr t \<Rightarrow> t | Inl _ \<Rightarrow> ts_new)"

lemma ts_repr_ts_of [simp]: "valid_cps cs \<Longrightarrow> ts_repr (ts_of cs) cs"
  using from_std_string_repr [of cs] by (auto simp: ts_of_def)

lemma ts_bytes_ts_of [simp]: "valid_cps cs \<Longrightarrow> ts_bytes (ts_of cs) = utf8s cs"
  using ts_repr_ts_of [of cs] by (simp add: ts_repr_def)

section \<open>Properties\<close>

text \<open>Construction and concatenation. For code points up to 0x1FFFFF, the \<open>std::string\<close>
  constructor, \<open>fromChar\<close>, copying, assignment over any old value and \<open>operator+\<close> neither throw nor
  store outside the buffer they chose (the static one or a fresh one), and return a string that
  holds the encoding of the expected code points with the character count and flags that go with
  it, NULs included.\<close>

theorem construction_correct:
  assumes "ts_repr s cs" and "ts_repr r ds" and "valid_cps es" and "valid_cp c"
  shows "(\<exists>t. from_std_string (utf8s es) = Inr t \<and> ts_repr t es)
    \<and> (\<exists>t. fromChar c = Inr t \<and> ts_repr t [c])
    \<and> (\<exists>t. ts_copy s = Inr t \<and> ts_repr t cs)
    \<and> (\<exists>t. assign s old = Inr t \<and> ts_repr t cs)
    \<and> (\<exists>t. ts_plus s r = Inr t \<and> ts_repr t (cs @ ds))"
  using from_std_string_repr [OF assms(3)] fromChar_repr [OF assms(4)] ts_copy_repr [OF assms(1)]
    assign_repr [OF assms(1)] ts_plus_repr [OF assms(1,2)]
  by blast

lemma construction_correct_witness:
  "\<exists>t. ts_plus (ts_of [0x61, 0, 0xe9]) (ts_of [0x1f600]) = Inr t
     \<and> ts_repr t ([0x61, 0, 0xe9] @ [0x1f600])"
  using construction_correct [of "ts_of [0x61, 0, 0xe9]" "[0x61, 0, 0xe9]" "ts_of [0x1f600]"
      "[0x1f600]" "[]" 0]
  by (simp add: valid_cp_def)

text \<open>C2: Order. For strings that hold the encodings of two lists of code points, \<open>operator<\<close>
  compares the bytes without leaving the buffers and decides the lexicographic order of the code
  points, and \<open>operator==\<close> decides their equality: the order of UTF-8 is the order of Unicode.\<close>

theorem less_is_code_point_order:
  assumes "ts_repr s cs" and "ts_repr r ds"
  shows "ts_less s r = Inr (lex_less cs ds) \<and> ts_eq s r = Inr (cs = ds)"
  using assms by (simp add: ts_less_iff ts_eq_iff ts_repr_def lex_less_utf8s utf8s_inject)

lemma less_is_code_point_order_witness:
  "ts_less (ts_of [0x61, 0xffff]) (ts_of [0x61, 0x10000]) = Inr True
     \<and> ts_eq (ts_of [0x61, 0xffff]) (ts_of [0x61, 0x10000]) = Inr False"
  using less_is_code_point_order [of "ts_of [0x61, 0xffff]" "[0x61, 0xffff]"
      "ts_of [0x61, 0x10000]" "[0x61, 0x10000]"]
  by (simp add: valid_cp_def)

end
