(* ===== verification/TinyIndex.thy ===== *)
theory TinyIndex
  imports TinyString
begin

text \<open>
  Access by character index in \<open>src/src/tiny_string.cpp\<close> and \<open>tiny_string.h\<close>: \<open>charAt\<close>, the search
  functions, \<open>substr\<close>, \<open>replace\<close>, \<open>split\<close> and the conversions between byte and character
  positions. A position result of \<open>None\<close> is \<open>npos\<close> (or the null pointer of \<open>strchr\<close>).
\<close>

section \<open>Characters\<close>

text \<open>\<open>n\<close> times \<open>++it\<close>.\<close>

fun skip :: "u8 list \<Rightarrow> nat \<Rightarrow> nat \<Rightarrow> nat res" where
  "skip buf 0 p = Inr p"
| "skip buf (Suc n) p = bindE (inc_ptr buf p) (skip buf n)"

definition charAt :: "tiny_string \<Rightarrow> u32 \<Rightarrow> u32 res" where
  "charAt s idx =
     (if ts_isASCII s then bindE (rd (raw_buf s) (unat idx)) (\<lambda>b. Inr (cc b))
      else bindE (skip (raw_buf s) (unat idx) 0) (\<lambda>p. getChar (raw_buf s) p))"

definition chars :: "tiny_string \<Rightarrow> u32 list res" where
  "chars s = bindE
     (char_loop (raw_buf s) (numBytes s)
        (\<lambda>p acc. bindE (getChar (raw_buf s) p) (\<lambda>c. Inr (Continue (acc @ [c])))) 0 [])
     (\<lambda>r. case r of Continue acc \<Rightarrow> Inr acc | Return () \<Rightarrow> Inr [])"

text \<open>\<open>startsWith\<close> and \<open>endsWith\<close> for a character; the last index wraps around for an empty string.\<close>

definition startsWith_char :: "tiny_string \<Rightarrow> u32 \<Rightarrow> bool res" where
  "startsWith_char s ch = bindE (charAt s 0) (\<lambda>c. Inr (c = ch))"

definition endsWith_char :: "tiny_string \<Rightarrow> u32 \<Rightarrow> bool res" where
  "endsWith_char s ch = bindE (charAt s (of_nat (numChars s) - 1)) (\<lambda>c. Inr (c = ch))"

fun contains_char_from :: "tiny_string \<Rightarrow> u32 \<Rightarrow> nat \<Rightarrow> nat \<Rightarrow> bool res" where
  "contains_char_from s ch i 0 = Inr False"
| "contains_char_from s ch i (Suc n) = bindE (charAt s (of_nat i)) (\<lambda>c.
     if c = ch then Inr True else contains_char_from s ch (Suc i) n)"

definition contains_char :: "tiny_string \<Rightarrow> u32 \<Rightarrow> bool res" where
  "contains_char s ch = contains_char_from s ch 0 (numChars s)"

section \<open>Searching\<close>

text \<open>The first position, counted from \<open>i\<close>, where \<open>ds\<close> occurs: what \<open>strstr\<close> computes.\<close>

fun search :: "'a list \<Rightarrow> 'a list \<Rightarrow> nat \<Rightarrow> nat option" where
  "search ds [] i = (if ds = [] then Some i else None)"
| "search ds (c # cs) i =
     (if take (length ds) (c # cs) = ds then Some i else search ds cs (Suc i))"

definition find_body ::
  "tiny_string \<Rightarrow> tiny_string \<Rightarrow> nat \<Rightarrow> nat \<Rightarrow> (nat option, nat) loop res" where
  "find_body s needle p pos =
     (if numChars s < pos + numChars needle then Inr (Return None)
      else bindE (memcmp (drop p (raw_buf s)) (raw_buf needle) (numBytes needle)) (\<lambda>d.
        Inr (if d = 0 then Return (Some pos) else Continue (pos + 1))))"

definition ts_find :: "tiny_string \<Rightarrow> tiny_string \<Rightarrow> u32 \<Rightarrow> nat option res" where
  "ts_find s needle start =
     (if ts_isASCII s \<and> \<not> ts_hasNull s then
        if numBytes s < unat start then Inl OutOfBounds
        else Inr (search (cstr (raw_buf needle)) (cstr (drop (unat start) (raw_buf s))) (unat start))
      else
        bindE (if start \<noteq> npos \<and> unat start < numChars s
               then bindE (skip (raw_buf s) (unat start) 0) (\<lambda>p. Inr (p, unat start))
               else Inr (0, 0))
          (\<lambda>(p, pos).
        bindE (char_loop (raw_buf s) (numBytes s) (find_body s needle) p pos) (\<lambda>r.
          case r of Return x \<Rightarrow> Inr x | Continue _ \<Rightarrow> Inr None)))"

definition ts_contains :: "tiny_string \<Rightarrow> tiny_string \<Rightarrow> bool res" where
  "ts_contains s needle = bindE (ts_find s needle 0) (\<lambda>r. Inr (r \<noteq> None))"

definition rfind_body ::
  "tiny_string \<Rightarrow> tiny_string \<Rightarrow> nat \<Rightarrow> nat \<Rightarrow> nat \<times> nat option \<Rightarrow> (nat option, nat \<times> nat option) loop res"
where
  "rfind_body s needle start p = (\<lambda>(pos, found).
     if pos \<le> start \<and> pos + numBytes needle \<le> numBytes s then
       bindE (memcmp (drop p (raw_buf s)) (raw_buf needle) (numBytes needle)) (\<lambda>d.
         Inr (Continue (pos + 1, if d = 0 then Some pos else found)))
     else Inr (Return found))"

definition ts_rfind :: "tiny_string \<Rightarrow> tiny_string \<Rightarrow> u32 \<Rightarrow> nat option res" where
  "ts_rfind s needle start =
     (let start' = (if start = npos then numChars s else unat start)
      in if ts_empty needle then Inr (Some start')
         else bindE (char_loop (raw_buf s) (numBytes s) (rfind_body s needle start') 0 (0, None))
           (\<lambda>r. case r of Return x \<Rightarrow> Inr x | Continue (_, found) \<Rightarrow> Inr found))"

text \<open>
  \<open>findFirst\<close> and \<open>findFirstInv\<close> differ in the comparison; so do \<open>findLast\<close> and \<open>findLastInv\<close>. The
  loop over \<open>str\<close> leaves at the first character that satisfies it.
\<close>

function find_first_loop ::
  "(u32 \<Rightarrow> u32 \<Rightarrow> bool) \<Rightarrow> tiny_string \<Rightarrow> tiny_string \<Rightarrow> nat \<Rightarrow> nat option res" where
  "find_first_loop cmp s str i =
     (if i < numChars s then
        bindE (charAt s (of_nat i)) (\<lambda>ch. bindE (chars str) (\<lambda>cs.
          if \<exists>c\<in>set cs. cmp ch c then Inr (Some i) else find_first_loop cmp s str (Suc i)))
      else Inr None)"
  by pat_completeness auto
termination
  by (relation "measure (\<lambda>(cmp, s, str, i). numChars s - i)") auto

declare find_first_loop.simps [simp del]

definition findFirst :: "tiny_string \<Rightarrow> tiny_string \<Rightarrow> u32 \<Rightarrow> nat option res" where
  "findFirst s str start = find_first_loop (=) s str (unat start)"

definition findFirstInv :: "tiny_string \<Rightarrow> tiny_string \<Rightarrow> u32 \<Rightarrow> nat option res" where
  "findFirstInv s str start = find_first_loop (\<noteq>) s str (unat start)"

text \<open>The descending loop runs over \<open>i, i - 1, \<dots>, 0\<close>; \<open>n\<close> is the number of rounds left.\<close>

fun find_last_loop ::
  "(u32 \<Rightarrow> u32 \<Rightarrow> bool) \<Rightarrow> tiny_string \<Rightarrow> tiny_string \<Rightarrow> nat \<Rightarrow> nat option res" where
  "find_last_loop cmp s str 0 = Inr None"
| "find_last_loop cmp s str (Suc i) =
     bindE (charAt s (of_nat i)) (\<lambda>ch. bindE (chars str) (\<lambda>cs.
       if \<exists>c\<in>set cs. cmp ch c then Inr (Some i) else find_last_loop cmp s str i))"

definition find_last_from :: "(u32 \<Rightarrow> u32 \<Rightarrow> bool) \<Rightarrow> tiny_string \<Rightarrow> tiny_string \<Rightarrow> u32 \<Rightarrow> nat option res"
where
  "find_last_from cmp s str start =
     (let i = min start (of_nat (numChars s) - 1)
      in if i = npos then Inr None else find_last_loop cmp s str (Suc (unat i)))"

definition findLast :: "tiny_string \<Rightarrow> tiny_string \<Rightarrow> u32 \<Rightarrow> nat option res" where
  "findLast = find_last_from (=)"

definition findLastInv :: "tiny_string \<Rightarrow> tiny_string \<Rightarrow> u32 \<Rightarrow> nat option res" where
  "findLastInv = find_last_from (\<noteq>)"

text \<open>
  \<open>strchr\<close> and \<open>strchrr\<close>: the offset of the pointer into \<open>buf\<close>. The library functions take the
  character as a \<open>char\<close> and count the terminator as part of the string; the scan of a non-ASCII
  string counts characters, and the code adds that count to \<open>buf\<close>.
\<close>

fun first_index :: "(u8 \<Rightarrow> bool) \<Rightarrow> u8 list \<Rightarrow> nat \<Rightarrow> nat option" where
  "first_index P [] i = None"
| "first_index P (b # bs) i = (if P b then Some i else first_index P bs (Suc i))"

fun last_index :: "(u8 \<Rightarrow> bool) \<Rightarrow> u8 list \<Rightarrow> nat \<Rightarrow> nat option \<Rightarrow> nat option" where
  "last_index P [] i found = found"
| "last_index P (b # bs) i found = last_index P bs (Suc i) (if P b then Some i else found)"

definition ts_strchr :: "tiny_string \<Rightarrow> u32 \<Rightarrow> nat option res" where
  "ts_strchr s c =
     (if ts_isASCII s \<and> \<not> ts_hasNull s then
        Inr (first_index (\<lambda>b. b = ucast c) (cstr (raw_buf s) @ [0]) 0)
      else bindE (char_loop (raw_buf s) (numBytes s)
             (\<lambda>p pos. bindE (getChar (raw_buf s) p) (\<lambda>ch.
                Inr (if ch = c then Return (Some pos) else Continue (pos + 1)))) 0 0)
           (\<lambda>r. case r of Return x \<Rightarrow> Inr x | Continue _ \<Rightarrow> Inr None))"

definition ts_strchrr :: "tiny_string \<Rightarrow> u32 \<Rightarrow> nat option res" where
  "ts_strchrr s c =
     (if ts_isASCII s \<and> \<not> ts_hasNull s then
        Inr (last_index (\<lambda>b. b = ucast c) (cstr (raw_buf s) @ [0]) 0 None)
      else bindE (char_loop (raw_buf s) (numBytes s)
             (\<lambda>p (pos, found). bindE (getChar (raw_buf s) p) (\<lambda>ch.
                Inr (Continue (pos + 1, if ch = c then Some pos else found)))) 0 (0, None))
           (\<lambda>r. case r of Return () \<Rightarrow> Inr None | Continue (_, found) \<Rightarrow> Inr found))"

section \<open>Substrings and replacement\<close>

definition substr_bytes :: "tiny_string \<Rightarrow> u32 \<Rightarrow> u32 \<Rightarrow> bool \<Rightarrow> tiny_string res" where
  "substr_bytes s start len resultisascii =
     (if stringSize s \<le> unat start then Inr ts_new
      else
        let l = (if len = - 1 \<or> stringSize s \<le> unat (start + len)
                 then stringSize s - (unat start + 1) else unat len);
            ret = (if STATIC_SIZE < l + 1 then createBuffer (l + 1) ts_new else ts_new)
        in if stringSize s \<le> unat start + l then Inl AssertionFailed
           else bindE (mem_read (unat start) l (raw_buf s)) (\<lambda>xs. bindE (store xs ret) (\<lambda>ret.
             Inr (if ts_isASCII s \<and> \<not> ts_hasNull s then ret\<lparr>ts_numchars := l\<rparr>
                  else if resultisascii then
                    ret\<lparr>ts_numchars := l, ts_hasNull := False, ts_isInteger := ts_isInteger s\<rparr>
                  else ts_init ret))))"

text \<open>\<open>getByteRange\<close>: the byte positions of \<open>start\<close> and \<open>start + len\<close>.\<close>

definition range_start_body :: "u32 \<Rightarrow> nat \<Rightarrow> nat \<times> nat \<Rightarrow> (nat, nat \<times> nat) loop res" where
  "range_start_body start p = (\<lambda>(pos, bytestart).
     Inr (if pos \<le> unat start then Continue (pos + 1, p) else Return bytestart))"

definition range_body ::
  "u32 \<Rightarrow> u32 \<Rightarrow> nat \<Rightarrow> nat \<times> nat \<times> nat \<Rightarrow> (nat \<times> nat, nat \<times> nat \<times> nat) loop res" where
  "range_body start len p = (\<lambda>(pos, bytestart, byteend).
     let bytestart' = (if pos \<le> unat start then p else bytestart)
     in Inr (if pos \<le> unat (start + len) then Continue (pos + 1, bytestart', p)
             else Return (bytestart', byteend)))"

definition getByteRange :: "tiny_string \<Rightarrow> u32 \<Rightarrow> u32 \<Rightarrow> (nat \<times> nat) res" where
  "getByteRange s start len =
     (if unat (start + len) = numChars s then
        bindE (char_loop (raw_buf s) (numBytes s) (range_start_body start) 0 (0, 0)) (\<lambda>r.
          case r of Return b \<Rightarrow> Inr (b, numBytes s) | Continue (_, b) \<Rightarrow> Inr (b, numBytes s))
      else
        bindE (char_loop (raw_buf s) (numBytes s) (range_body start len) 0 (0, 0, 0)) (\<lambda>r.
          case r of Return x \<Rightarrow> Inr x | Continue (_, x) \<Rightarrow> Inr x))"

definition substr :: "tiny_string \<Rightarrow> u32 \<Rightarrow> u32 \<Rightarrow> tiny_string res" where
  "substr s start len =
     (if numChars s < unat start then Inl AssertionFailed
      else
        let l = (if of_nat (numChars s) - start < len then of_nat (numChars s) - start else len)
        in if l = 0 then Inr ts_new
           else if ts_isASCII s then substr_bytes s start l False
           else bindE (getByteRange s start l) (\<lambda>(b, e).
             let n = of_nat e - of_nat b
             in substr_bytes s (of_nat b) n (n = l \<and> \<not> ts_hasNull s)))"

text \<open>The overload whose end is an iterator, given as its byte offset \<open>e\<close>.\<close>

definition substr_it :: "tiny_string \<Rightarrow> u32 \<Rightarrow> u32 \<Rightarrow> tiny_string res" where
  "substr_it s start e =
     (if ts_isASCII s then substr_bytes s start (e - start) False
      else if numChars s \<le> unat start then Inl AssertionFailed
      else bindE (char_loop (raw_buf s) (numBytes s)
             (\<lambda>p (pos, b). Inr (if pos < unat start then Continue (pos + 1, p) else Return b))
             0 (0, 0)) (\<lambda>r.
        let b = (case r of Return b \<Rightarrow> b | Continue (_, b) \<Rightarrow> b)
        in substr_bytes s (of_nat b) (e - of_nat b) False))"

definition stripPrefix :: "tiny_string \<Rightarrow> tiny_string \<Rightarrow> u32 \<Rightarrow> tiny_string res" where
  "stripPrefix s prefix offset = bindE (startsWith s prefix) (\<lambda>yes.
     if yes then substr s (of_nat (numChars prefix) + offset) npos else ts_copy s)"

definition stripSuffix :: "tiny_string \<Rightarrow> tiny_string \<Rightarrow> u32 \<Rightarrow> tiny_string res" where
  "stripSuffix s suffix offset = bindE (endsWith s suffix) (\<lambda>yes.
     if yes then substr s 0 (of_nat (numChars s) - of_nat (numChars suffix) - offset)
     else ts_copy s)"

definition replace_bytes :: "tiny_string \<Rightarrow> u32 \<Rightarrow> u32 \<Rightarrow> tiny_string \<Rightarrow> tiny_string res" where
  "replace_bytes s bytestart bytenum o' =
     (if stringSize s \<le> unat (bytestart + bytenum) then Inl AssertionFailed
      else
        let newlen = stringSize s + numBytes o' - unat bytenum;
            xs = take (unat bytestart) (ts_bytes s) @ ts_bytes o'
                   @ drop (unat (bytestart + bytenum)) (ts_bytes s);
            t = s\<lparr>ts_type := DYNAMIC, ts_cap := newlen, ts_bytes := xs\<rparr>
        in Inr (if ts_isASCII s \<and> ts_isASCII o' then
                  t\<lparr>ts_numchars := newlen - 1, ts_hasNull := (ts_hasNull s \<or> ts_hasNull o'),
                    ts_isInteger := (ts_isInteger s \<and> ts_isInteger o')\<rparr>
                else ts_init t))"

definition replace :: "tiny_string \<Rightarrow> u32 \<Rightarrow> u32 \<Rightarrow> tiny_string \<Rightarrow> tiny_string res" where
  "replace s pos1 n1 o' =
     (if numChars s < unat pos1 then Inl AssertionFailed
      else
        let n = (if numChars s < unat (pos1 + n1) then of_nat (numChars s) - pos1 else n1)
        in if ts_isASCII s then replace_bytes s pos1 n o'
           else bindE (getByteRange s pos1 n) (\<lambda>(b, e).
                  replace_bytes s (of_nat b) (of_nat e - of_nat b) o'))"

definition bytePosToIndex :: "tiny_string \<Rightarrow> u32 \<Rightarrow> nat option res" where
  "bytePosToIndex s bytepos =
     (if numBytes s \<le> unat bytepos then Inr (Some (numChars s))
      else if ts_isASCII s then Inr (Some (unat bytepos))
      else bindE (char_loop (raw_buf s) (numBytes s)
             (\<lambda>p index. Inr (if unat bytepos \<le> p then Return (Some index) else Continue (index + 1)))
             0 0)
           (\<lambda>r. case r of Return x \<Rightarrow> Inr x | Continue _ \<Rightarrow> Inr None))"

section \<open>Offsets of characters\<close>

lemma utf8s_take_drop: "utf8s cs = utf8s (take i cs) @ utf8s (drop i cs)"
  by (metis append_take_drop_id utf8s_simps(3))

lemma length_utf8s_take_Suc:
  "i < length cs \<Longrightarrow>
     length (utf8s (take (Suc i) cs)) = length (utf8s (take i cs)) + length (utf8_enc (cs ! i))"
  by (simp add: take_Suc_conv_app_nth)

lemma is_ascii_take_drop [simp]:
  "is_ascii cs \<Longrightarrow> is_ascii (take n cs)" "is_ascii cs \<Longrightarrow> is_ascii (drop n cs)"
  by (auto simp: is_ascii_def dest: in_set_takeD in_set_dropD)

lemma length_utf8s_is_ascii: "is_ascii cs \<Longrightarrow> length (utf8s cs) = length cs"
  by (simp add: is_ascii_def length_utf8s_ascii)

text \<open>A string with as many bytes as characters is ASCII.\<close>

lemma length_utf8_enc_1: "length (utf8_enc c) = 1 \<longleftrightarrow> c < 0x80"
  by (simp add: utf8_enc_def)

lemma is_ascii_lengthI: "length (utf8s cs) = length cs \<Longrightarrow> is_ascii cs"
proof (induction cs)
  case (Cons c cs)
  moreover have "length cs \<le> length (utf8s cs)"
    by (rule length_utf8s_ge)
  moreover have "1 \<le> length (utf8_enc c)"
    using length_utf8_enc [of c] by auto
  ultimately have "length (utf8_enc c) = 1" "length (utf8s cs) = length cs"
    by simp_all
  moreover from this have "c < 0x80"
    by (simp only: length_utf8_enc_1)
  ultimately show ?case
    using Cons.IH by simp
qed simp

lemma utf8s_take_ascii: "is_ascii cs \<Longrightarrow> utf8s (take n cs) = take n (utf8s cs)"
proof (induction cs arbitrary: n)
  case (Cons c cs)
  then show ?case
    by (cases n) (auto simp: utf8_enc_ascii)
qed simp

lemma utf8s_drop_ascii: "is_ascii cs \<Longrightarrow> utf8s (drop n cs) = drop n (utf8s cs)"
proof (induction cs arbitrary: n)
  case (Cons c cs)
  then show ?case
    by (cases n) (auto simp: utf8_enc_ascii)
qed simp

lemma utf8s_nth_ascii:
  "is_ascii cs \<Longrightarrow> i < length cs \<Longrightarrow> utf8s cs ! i = ucast ((cs ! i) AND 0xff)"
proof (induction cs arbitrary: i)
  case (Cons c cs)
  then show ?case
    by (cases i) (auto simp: utf8_enc_ascii)
qed simp

lemma skip_utf8s:
  assumes "valid_cps cs" and "i + n \<le> length cs"
  shows "skip (utf8s cs @ post) n (length (utf8s (take i cs))) = Inr (length (utf8s (take (i + n) cs)))"
  using assms(2)
proof (induction n arbitrary: i)
  case (Suc n)
  then have i: "i < length cs"
    by simp
  have "utf8s cs = utf8s (take i cs) @ utf8_enc (cs ! i) @ utf8s (drop (Suc i) cs)"
    using i by (metis Cons_nth_drop_Suc utf8s_simps(2) utf8s_take_drop)
  moreover have "valid_cp (cs ! i)"
    using assms(1) i by (simp add: valid_cps_def)
  ultimately have "inc_ptr (utf8s cs @ post) (length (utf8s (take i cs)))
      = Inr (length (utf8s (take (Suc i) cs)))"
    using inc_ptr_utf8_enc [of "cs ! i" "utf8s (take i cs)" "utf8s (drop (Suc i) cs) @ post"] i
    by (simp add: length_utf8s_take_Suc)
  with Suc show ?case
    by simp
qed simp

lemma skip_from_start:
  assumes "valid_cps cs" and "n \<le> length cs"
  shows "skip (utf8s cs @ post) n 0 = Inr (length (utf8s (take n cs)))"
  using skip_utf8s [OF assms(1), of 0 n post] assms(2) by simp

lemma raw_buf_repr: "ts_repr s cs \<Longrightarrow> raw_buf s = utf8s cs @ [0]"
  by (simp add: raw_buf_def ts_repr_def)

lemma charAt_repr:
  assumes "ts_repr s cs" and "unat i < length cs"
  shows "charAt s i = Inr (cs ! unat i)"
proof (cases "is_ascii cs")
  case True
  then have "cs ! unat i < 0x80"
    using assms(2) by (simp add: is_ascii_def)
  then have "cc (utf8s cs ! unat i) = cs ! unat i"
    using utf8s_nth_ascii [OF True assms(2)] by (simp add: cc_ascii)
  moreover have "ts_isASCII s"
    using True assms(1) by (simp add: ts_repr_def)
  ultimately show ?thesis
    using assms(2) True
    by (simp add: charAt_def raw_buf_repr [OF assms(1)] rd_def nth_append length_utf8s_is_ascii)
next
  case False
  with assms have "valid_cps cs" "\<not> ts_isASCII s"
    by (simp_all add: ts_repr_def)
  then show ?thesis
    using assms skip_from_start [of cs "unat i" "[0]"]
      getChar_at [of cs "unat i" "[]" "[0]"]
    by (simp add: charAt_def raw_buf_repr)
qed

lemma chars_repr:
  assumes "ts_repr s cs"
  shows "chars s = Inr cs"
proof -
  have v: "valid_cps cs" and n: "length (ts_bytes s) = length (utf8s cs)"
    using assms by (simp_all add: ts_repr_def)
  have fold: "foldl (\<lambda>acc c. acc @ [c]) xs cs = xs @ cs" for xs
    by (induction cs arbitrary: xs) auto
  let ?body = "\<lambda>p acc. bindE (getChar (utf8s cs @ [0]) p) (\<lambda>c. Inr (Continue (acc @ [c]) :: (unit, u32 list) loop))"
  have "char_loop (utf8s cs @ [0]) (length (utf8s cs)) ?body 0 []
      = Inr (Continue (foldl (\<lambda>acc c. acc @ [c]) [] cs))"
    by (rule char_loop_fold [OF v]) simp
  then show ?thesis
    by (simp add: chars_def raw_buf_repr [OF assms] n fold)
qed


section \<open>What the searches find\<close>

definition occurs_at :: "'a list \<Rightarrow> 'a list \<Rightarrow> nat \<Rightarrow> bool" where
  "occurs_at ds cs k \<longleftrightarrow> take (length ds) (drop k cs) = ds \<and> k + length ds \<le> length cs"

definition first_occurrence :: "'a list \<Rightarrow> 'a list \<Rightarrow> nat \<Rightarrow> nat option \<Rightarrow> bool" where
  "first_occurrence ds cs i r \<longleftrightarrow> (case r of
     None \<Rightarrow> \<forall>k. i \<le> k \<longrightarrow> \<not> occurs_at ds cs k
   | Some k \<Rightarrow> i \<le> k \<and> occurs_at ds cs k \<and> (\<forall>j. i \<le> j \<and> j < k \<longrightarrow> \<not> occurs_at ds cs j))"

lemma search_Some_ge: "search ds cs i = Some k \<Longrightarrow> i \<le> k"
  by (induction ds cs i rule: search.induct) (auto split: if_splits)

lemma search_short: "length cs < length ds \<Longrightarrow> search ds cs i = None"
proof (induction ds cs i rule: search.induct)
  case (2 ds c cs i)
  then have "length (take (length ds) (c # cs)) \<noteq> length ds"
    by simp
  then have "take (length ds) (c # cs) \<noteq> ds"
    by metis
  with 2 show ?case
    by simp
qed simp

lemma first_occurrence_search:
  "i \<le> length cs \<Longrightarrow> first_occurrence ds cs i (search ds (drop i cs) i)"
proof (induction "length cs - i" arbitrary: i)
  case 0
  then show ?case
    by (auto simp: first_occurrence_def occurs_at_def)
next
  case (Suc n)
  then have d: "drop i cs = cs ! i # drop (Suc i) cs"
    by (simp add: Cons_nth_drop_Suc)
  have occ: "occurs_at ds cs i \<longleftrightarrow> take (length ds) (drop i cs) = ds"
  proof
    assume t: "take (length ds) (drop i cs) = ds"
    then have "length ds = min (length cs - i) (length ds)"
      by (metis length_drop length_take min.commute)
    with t Suc.prems show "occurs_at ds cs i"
      by (simp add: occurs_at_def)
  qed (simp add: occurs_at_def)
  show ?case
  proof (cases "occurs_at ds cs i")
    case True
    with occ d show ?thesis
      by (auto simp: first_occurrence_def)
  next
    case False
    then have "search ds (drop i cs) i = search ds (drop (Suc i) cs) (Suc i)"
      using occ d by simp
    moreover have "first_occurrence ds cs (Suc i) (search ds (drop (Suc i) cs) (Suc i))"
      using Suc by simp
    moreover have "i \<le> k \<longleftrightarrow> k = i \<or> Suc i \<le> k" for k
      by auto
    ultimately show ?thesis
      using False by (auto simp: first_occurrence_def split: option.splits)
  qed
qed

lemma bytes_prefix_iff:
  assumes "valid_cps cs" and "valid_cps ds"
  shows "take (length (utf8s ds)) (utf8s cs) = utf8s ds \<longleftrightarrow> take (length ds) cs = ds"
proof -
  have pre: "take (length ys) xs = ys \<longleftrightarrow> (\<exists>zs. xs = ys @ zs)" for xs ys :: "'a list"
    by (metis append_eq_conv_conj append_take_drop_id)
  show ?thesis
    unfolding pre by (rule utf8s_prefix_iff [OF assms])
qed

lemma search_utf8s_ascii:
  assumes "is_ascii cs" and "valid_cps cs" and "valid_cps ds"
  shows "search (utf8s ds) (utf8s cs) i = search ds cs i"
  using assms
proof (induction cs arbitrary: i)
  case (Cons c cs)
  have "utf8s (c # cs) = ucast (c AND 0xff) # utf8s cs"
    using Cons.prems(1) by (simp add: utf8_enc_ascii)
  moreover have "take (length (utf8s ds)) (utf8s (c # cs)) = utf8s ds
      \<longleftrightarrow> take (length ds) (c # cs) = ds"
    using Cons.prems by (intro bytes_prefix_iff) auto
  ultimately show ?case
    using Cons by (auto simp del: utf8s_simps)
qed simp

text \<open>
  The comparison at a character boundary. \<open>find\<close> counts characters before it compares the bytes of the needle, so
  the bytes may run past the terminator; \<open>needle_fits\<close> excludes that: the last place where the needle can be has
  enough bytes.
\<close>

definition needle_fits :: "u32 list \<Rightarrow> u32 list \<Rightarrow> bool" where
  "needle_fits ds cs \<longleftrightarrow>
     (length ds \<le> length cs \<longrightarrow> length (utf8s ds) \<le> length (utf8s (drop (length cs - length ds) cs)) + 1)"

lemma needle_fits_at:
  assumes "needle_fits ds cs" and "i + length ds \<le> length cs"
  shows "length (utf8s ds) \<le> length (utf8s (drop i cs)) + 1"
proof -
  have "drop i cs = take (length cs - length ds - i) (drop i cs) @ drop (length cs - length ds) cs"
    using assms(2) by (metis add.commute add_le_imp_le_diff append_take_drop_id drop_drop le_add_diff_inverse2)
  then have "length (utf8s (drop (length cs - length ds) cs)) \<le> length (utf8s (drop i cs))"
    by (metis length_append le_add2 utf8s_simps(3))
  with assms show ?thesis
    by (simp add: needle_fits_def)
qed

lemma memcmp_needle:
  assumes "0 \<notin> set ys" and "length ys \<le> length xs + 1"
  shows "\<exists>d. memcmp (xs @ [0]) (ys @ zs) (length ys) = Inr d \<and> (d = 0 \<longleftrightarrow> take (length ys) xs = ys)"
proof -
  have "take (length ys) (xs @ [0]) = ys \<longleftrightarrow> take (length ys) xs = ys"
  proof (cases "length ys \<le> length xs")
    case False
    then have "take (length ys) (xs @ [0]) = xs @ [0]" "length (take (length ys) xs) \<noteq> length ys"
      using assms(2) by auto
    moreover have "xs @ [0] \<noteq> ys" using assms(1) by auto
    ultimately show ?thesis by metis
  qed simp
  then show ?thesis
    using memcmp_min [of "length ys" "xs @ [0]" "ys @ zs"] assms(2) by simp
qed

lemma memcmp_at:
  assumes "ts_repr s cs" and "ts_repr r ds" and "0 \<notin> set ds" and "length (utf8s ds) \<le> length (utf8s (drop i cs)) + 1"
  shows "\<exists>d. memcmp (drop (length (utf8s (take i cs))) (raw_buf s)) (raw_buf r) (length (ts_bytes r))
      = Inr d \<and> (d = 0 \<longleftrightarrow> take (length ds) (drop i cs) = ds)"
proof -
  have v: "valid_cps cs" "valid_cps ds" and "ts_bytes r = utf8s ds"
    using assms by (simp_all add: ts_repr_def)
  have "drop (length (utf8s (take i cs))) (raw_buf s) = utf8s (drop i cs) @ [0]"
    using utf8s_take_drop [of cs i] by (simp add: raw_buf_repr [OF assms(1)])
  moreover have "0 \<notin> set (utf8s ds)"
    using assms(3) v(2) by (simp add: zero_in_utf8s)
  ultimately show ?thesis
    using memcmp_needle [of "utf8s ds" "utf8s (drop i cs)" "[0]"] v assms(4)
      bytes_prefix_iff [of "drop i cs" ds] \<open>ts_bytes r = utf8s ds\<close>
    by (simp add: raw_buf_repr [OF assms(2)])
qed

lemma find_loop:
  assumes "ts_repr s cs" and "ts_repr r ds" and "0 \<notin> set ds" and "needle_fits ds cs"
    and "i < length cs \<or> i = length cs \<and> ds \<noteq> []"
  shows "\<exists>l. cp_loop (find_body s r) (length (utf8s (take i cs))) (drop i cs) i = Inr l
    \<and> (case l of Return x \<Rightarrow> x | Continue _ \<Rightarrow> None) = search ds (drop i cs) i"
  using assms(5)
proof (induction "length cs - i" arbitrary: i)
  case 0
  then show ?case
    by auto
next
  case (Suc n)
  then have i: "i < length cs" and d: "drop i cs = cs ! i # drop (Suc i) cs"
    by (auto simp: Cons_nth_drop_Suc)
  have nc: "numChars s = length cs" "numChars r = length ds"
    using assms by (simp_all add: numChars_def ts_repr_def)
  show ?case
  proof (cases "length cs < i + length ds")
    case True
    then have "search ds (drop i cs) i = None"
      using i by (intro search_short) (simp; arith)
    with True show ?thesis
      by (simp add: d find_body_def nc)
  next
    case False
    then obtain c where c: "memcmp (drop (length (utf8s (take i cs))) (raw_buf s)) (raw_buf r)
        (length (ts_bytes r)) = Inr c" "c = 0 \<longleftrightarrow> take (length ds) (drop i cs) = ds"
      using memcmp_at [OF assms(1-3), of i] needle_fits_at [OF assms(4), of i] by auto
    have "Suc i < length cs \<or> Suc i = length cs \<and> ds \<noteq> []" if "c \<noteq> 0"
      using i that c(2) False by auto
    with Suc(1) [of "Suc i"] Suc(2) False c show ?thesis
      using length_utf8s_take_Suc [OF i] by (simp add: d find_body_def nc)
  qed
qed

lemma unat_npos [simp]: "unat npos = 2 ^ 32 - 1"
  by (simp add: npos_def unsigned_minus_1_eq_mask mask_eq_exp_minus_1)

lemma repr_sizes:
  assumes "ts_repr s cs" and "stringSize s < 2 ^ 32"
  shows "length cs < 2 ^ 32 - 1" and "length (utf8s cs) < 2 ^ 32 - 1"
  using assms length_utf8s_ge [of cs] by (auto simp: ts_repr_def stringSize_def)

lemma ts_find_search:
  assumes "ts_repr s cs" and "ts_repr r ds" and "0 \<notin> set ds" and "unat start < length cs"
    and "stringSize s < 2 ^ 32" and "ts_isASCII s \<and> \<not> ts_hasNull s \<or> needle_fits ds cs"
  shows "ts_find s r start = Inr (search ds (drop (unat start) cs) (unat start))"
proof -
  have v: "valid_cps cs" "valid_cps ds" and b: "ts_bytes s = utf8s cs" "numChars s = length cs"
    using assms by (simp_all add: ts_repr_def numChars_def)
  note sizes = repr_sizes [OF assms(1,5)]
  show ?thesis
  proof (cases "ts_isASCII s \<and> \<not> ts_hasNull s")
    case True
    then have a: "is_ascii cs" "0 \<notin> set cs"
      using assms(1) by (auto simp: ts_repr_def)
    have "0 \<notin> set (utf8s cs)" "0 \<notin> set (utf8s ds)"
      using a(2) assms(3) v by (simp_all add: zero_in_utf8s)
    then have "0 \<notin> set (drop (unat start) (utf8s cs))" "0 \<notin> set (utf8s ds)"
      by (auto dest: in_set_dropD)
    then have "cstr (raw_buf r) = utf8s ds"
      "cstr (drop (unat start) (raw_buf s)) = utf8s (drop (unat start) cs)"
      using assms(4) a(1)
      by (auto simp: raw_buf_repr [OF assms(1)] raw_buf_repr [OF assms(2)] cstr_terminated
          length_utf8s_is_ascii utf8s_drop_ascii)
    with True show ?thesis
      using assms(4) a(1) v
      by (simp add: ts_find_def b length_utf8s_is_ascii search_utf8s_ascii)
  next
    case False
    let ?i = "unat start"
    have "start \<noteq> npos"
      using assms(4) sizes(1) by (auto simp: unat_npos)
    moreover have "skip (raw_buf s) ?i 0 = Inr (length (utf8s (take ?i cs)))"
      using skip_from_start [OF v(1), of ?i "[0]"] assms(4) by (simp add: raw_buf_repr [OF assms(1)])
    moreover have "char_loop (raw_buf s) (length (utf8s cs)) (find_body s r) (length (utf8s (take ?i cs))) ?i
        = cp_loop (find_body s r) (length (utf8s (take ?i cs))) (drop ?i cs) ?i"
      using char_loop_valid [of "drop ?i cs" "utf8s (take ?i cs)" "[0]" "find_body s r" ?i] v(1)
        utf8s_take_drop [of cs ?i]
      by (simp add: raw_buf_repr [OF assms(1)] flip: append_assoc length_append)
    moreover obtain l where "cp_loop (find_body s r) (length (utf8s (take ?i cs))) (drop ?i cs) ?i = Inr l"
      "(case l of Return x \<Rightarrow> x | Continue _ \<Rightarrow> None) = search ds (drop ?i cs) ?i"
      using find_loop [OF assms(1-3), of ?i] False assms(4,6) by auto
    ultimately show ?thesis
      using False assms(4) by (cases l) (auto simp: ts_find_def b)
  qed
qed


section \<open>Substrings of a represented string\<close>

abbreviation off :: "u32 list \<Rightarrow> nat \<Rightarrow> nat" where
  "off cs i \<equiv> length (utf8s (take i cs))"

lemma off_diff: "i \<le> j \<Longrightarrow> off cs j = off cs i + length (utf8s (take (j - i) (drop i cs)))"
  by (metis le_add_diff_inverse length_append take_add utf8s_simps(3))

lemma utf8s_slice: "take (off cs (i + n) - off cs i) (drop (off cs i) (utf8s cs @ zs)) = utf8s (take n (drop i cs))"
proof -
  have "utf8s cs = utf8s (take i cs) @ utf8s (take n (drop i cs)) @ utf8s (drop n (drop i cs))"
    by (metis utf8s_take_drop)
  moreover have "off cs (i + n) = off cs i + length (utf8s (take n (drop i cs)))"
    using off_diff [of i "i + n" cs] by simp
  ultimately show ?thesis
    by simp
qed

lemma range_start_loop:
  assumes "i \<le> length cs" and "unat start < length cs" and "i \<le> unat start + 1"
    and "i \<noteq> 0 \<Longrightarrow> b = off cs (i - 1)"
  shows "\<exists>l. cp_loop (range_start_body start) (off cs i) (drop i cs) (i, b) = Inr l
    \<and> (case l of Return x \<Rightarrow> x | Continue (_, x) \<Rightarrow> x) = off cs (unat start)"
  using assms
proof (induction "length cs - i" arbitrary: i b)
  case 0
  then have "i = length cs" "length cs - 1 = unat start" "i \<noteq> 0"
    by auto
  with 0 show ?case
    by simp
next
  case (Suc n)
  then have i: "i < length cs" and d: "drop i cs = cs ! i # drop (Suc i) cs"
    by (auto simp: Cons_nth_drop_Suc)
  show ?case
  proof (cases "i \<le> unat start")
    case True
    with Suc(1) [of "Suc i" "off cs i"] Suc(2-) i length_utf8s_take_Suc [OF i] show ?thesis
      by (simp add: d range_start_body_def)
  next
    case False
    then have "i - 1 = unat start" "i \<noteq> 0"
      using Suc.prems by simp_all
    with Suc.prems False show ?thesis
      by (simp add: d range_start_body_def)
  qed
qed

lemma range_loop:
  assumes "i \<le> length cs" and "unat (start + len) < length cs" and "unat start \<le> unat (start + len)"
    and "i \<le> unat (start + len) + 1"
    and "i \<noteq> 0 \<Longrightarrow> b = off cs (min (i - 1) (unat start)) \<and> e = off cs (i - 1)"
  shows "\<exists>l. cp_loop (range_body start len) (off cs i) (drop i cs) (i, b, e) = Inr l
    \<and> (case l of Return x \<Rightarrow> x | Continue (_, x) \<Rightarrow> x) = (off cs (unat start), off cs (unat (start + len)))"
  using assms
proof (induction "length cs - i" arbitrary: i b e)
  case 0
  then have "i = length cs" "length cs - 1 = unat (start + len)" "i \<noteq> 0"
    by auto
  with 0 show ?case
    by (simp add: min_def)
next
  case (Suc n)
  then have i: "i < length cs" and d: "drop i cs = cs ! i # drop (Suc i) cs"
    by (auto simp: Cons_nth_drop_Suc)
  define b' where "b' = (if i \<le> unat start then off cs i else b)"
  have b': "b' = off cs (min i (unat start))"
  proof (cases "i \<le> unat start")
    case False
    then have "min (i - 1) (unat start) = unat start" "min i (unat start) = unat start" "i \<noteq> 0"
      by simp_all
    with False Suc.prems(5) show ?thesis
      unfolding b'_def by metis
  qed (simp add: b'_def)
  show ?case
  proof (cases "i \<le> unat (start + len)")
    case True
    then have "range_body start len (off cs i) (i, b, e) = Inr (Continue (i + 1, b', off cs i))"
      by (simp add: range_body_def Let_def b'_def)
    with True Suc(1) [of "Suc i" b' "off cs i"] Suc(2-) i length_utf8s_take_Suc [OF i] b' show ?thesis
      by (simp add: d)
  next
    case False
    then have eq: "i - 1 = unat (start + len)" "i \<noteq> 0" "\<not> i \<le> unat start"
      and "min (i - 1) (unat start) = unat start"
      using Suc.prems by simp_all
    then have "b = off cs (unat start)" "e = off cs (unat (start + len))"
      using Suc.prems(5) by metis+
    with eq False show ?thesis
      by (simp add: d range_body_def Let_def)
  qed
qed

lemma getByteRange_repr:
  assumes "ts_repr s cs" and "unat start < length cs"
    and "unat (start + len) = unat start + unat len" and "unat start + unat len \<le> length cs"
  shows "getByteRange s start len = Inr (off cs (unat start), off cs (unat start + unat len))"
proof -
  have b: "valid_cps cs" "ts_bytes s = utf8s cs" "numChars s = length cs"
    using assms(1) by (simp_all add: ts_repr_def numChars_def)
  have loop: "char_loop (raw_buf s) (length (utf8s cs)) body 0 st = cp_loop body 0 cs st" for body st
    using char_loop_valid [OF b(1), of "[]" "[0]"] by (simp add: raw_buf_repr [OF assms(1)])
  show ?thesis
  proof (cases "unat start + unat len = length cs")
    case True
    obtain l where "cp_loop (range_start_body start) 0 cs (0, 0) = Inr l"
      "(case l of Return x \<Rightarrow> x | Continue (_, x) \<Rightarrow> x) = off cs (unat start)"
      using range_start_loop [of 0 cs start 0] assms(2) by auto
    with True assms show ?thesis
      by (cases l) (auto simp: getByteRange_def b loop)
  next
    case False
    obtain l where "cp_loop (range_body start len) 0 cs (0, 0, 0) = Inr l"
      "(case l of Return x \<Rightarrow> x | Continue (_, x) \<Rightarrow> x)
        = (off cs (unat start), off cs (unat (start + len)))"
      using range_loop [of 0 cs start len 0 0] assms False by auto
    with False assms show ?thesis
      by (cases l) (auto simp: getByteRange_def b loop)
  qed
qed


lemma substr_bytes_repr:
  assumes "ts_repr s cs" and "unat b = off cs i" and "unat n = off cs (i + k) - off cs i"
    and "0 < k" and "i + k \<le> length cs" and "stringSize s < 2 ^ 32"
    and "flag \<Longrightarrow> is_ascii (take k (drop i cs)) \<and> 0 \<notin> set cs \<and> \<not> is_ascii cs"
  shows "\<exists>t. substr_bytes s b n flag = Inr t \<and> ts_repr t (take k (drop i cs))"
proof -
  let ?ds = "take k (drop i cs)"
  have v: "valid_cps cs" "ts_bytes s = utf8s cs" "ts_isASCII s = is_ascii cs"
    "0 \<in> set cs \<longrightarrow> ts_hasNull s" "ts_isInteger s \<longrightarrow> is_digits cs"
    using assms(1) by (simp_all add: ts_repr_def)
  have split: "utf8s cs = utf8s (take i cs) @ utf8s ?ds @ utf8s (drop (i + k) cs)"
    by (metis utf8s_take_drop drop_drop add.commute)
  have len: "unat n = length (utf8s ?ds)" "off cs i + length (utf8s ?ds) \<le> length (utf8s cs)"
    using assms(3) off_diff [of i "i + k" cs] split by simp_all
  have sum: "unat (b + n) = unat b + unat n"
    using len assms(2) repr_sizes(2) [OF assms(1,6)] by (intro unat_add_lem [THEN iffD1]) simp
  have "0 < length (utf8s ?ds)"
    using assms(4,5) by simp
  then have start: "unat b < stringSize s" "\<not> stringSize s \<le> unat (b + n)" "n \<noteq> - 1"
    using len assms(2) sum repr_sizes(2) [OF assms(1,6)]
    by (auto simp: stringSize_def v unsigned_minus_1_eq_mask mask_eq_exp_minus_1)
  have read: "mem_read (unat b) (unat n) (raw_buf s) = Inr (utf8s ?ds)"
    using len split by (simp add: mem_read_def raw_buf_repr [OF assms(1)] assms(2))
  have l: "(if n = - 1 \<or> stringSize s \<le> unat (b + n) then stringSize s - (unat b + 1) else unat n)
      = unat n"
    using start by simp
  define u where "u = (if STATIC_SIZE < unat n + 1 then createBuffer (unat n + 1) ts_new else ts_new)"
  have ok: "buf_ok (u\<lparr>ts_bytes := utf8s ?ds\<rparr>)" "store (utf8s ?ds) u = Inr (u\<lparr>ts_bytes := utf8s ?ds\<rparr>)"
    using len by (auto simp: u_def buf_ok_def buf_defs ts_new_def)
  have flags: "ts_isASCII u" "\<not> ts_hasNull u" "\<not> ts_isInteger u"
    by (auto simp: u_def createBuffer_def ts_new_def)
  have digits: "is_digits ?ds" if "ts_isInteger s"
    using that v(5) by (auto simp: is_digits_def dest: in_set_takeD in_set_dropD)
  have eq: "substr_bytes s b n flag = Inr
      (if ts_isASCII s \<and> \<not> ts_hasNull s then u\<lparr>ts_bytes := utf8s ?ds, ts_numchars := unat n\<rparr>
       else if flag then u\<lparr>ts_bytes := utf8s ?ds, ts_numchars := unat n, ts_hasNull := False,
         ts_isInteger := ts_isInteger s\<rparr>
       else ts_init (u\<lparr>ts_bytes := utf8s ?ds\<rparr>))"
    unfolding substr_bytes_def Let_def l u_def [symmetric] using start(1) read ok(2) sum start(2)
    by simp
  have cnt: "is_ascii ?ds \<Longrightarrow> unat n = length ?ds"
    using len(1) by (simp add: length_utf8s_is_ascii)
  have "valid_cps ?ds"
    using v(1) by simp
  moreover have "ts_repr (ts_init (u\<lparr>ts_bytes := utf8s ?ds\<rparr>)) ?ds"
    using \<open>valid_cps ?ds\<close> ok(1) by (intro ts_repr_init) auto
  moreover have "ts_repr (u\<lparr>ts_bytes := utf8s ?ds, ts_numchars := unat n\<rparr>) ?ds"
    if "ts_isASCII s" "\<not> ts_hasNull s"
  proof -
    have "is_ascii ?ds" "0 \<notin> set ?ds"
      using that v(3,4) by (auto dest: in_set_takeD in_set_dropD)
    then show ?thesis
      using ok(1) flags \<open>valid_cps ?ds\<close> cnt by (simp add: ts_repr_def buf_ok_def stringSize_def)
  qed
  moreover have "ts_repr (u\<lparr>ts_bytes := utf8s ?ds, ts_numchars := unat n, ts_hasNull := False,
      ts_isInteger := ts_isInteger s\<rparr>) ?ds" if flag
  proof -
    have "is_ascii ?ds" "0 \<notin> set ?ds"
      using assms(7) [OF that] by (auto dest: in_set_takeD in_set_dropD)
    then show ?thesis
      using ok(1) flags \<open>valid_cps ?ds\<close> cnt digits
      by (simp add: ts_repr_def buf_ok_def stringSize_def)
  qed
  ultimately show ?thesis
    unfolding eq by (cases "ts_isASCII s \<and> \<not> ts_hasNull s"; cases flag) auto
qed

lemma substr_repr:
  assumes "ts_repr s cs" and "unat start \<le> length cs" and "stringSize s < 2 ^ 32"
  shows "\<exists>t. substr s start len = Inr t \<and> ts_repr t (take (unat len) (drop (unat start) cs))"
proof -
  have v: "valid_cps cs" "ts_bytes s = utf8s cs" "ts_isASCII s = is_ascii cs" "numChars s = length cs"
    using assms(1) by (simp_all add: ts_repr_def numChars_def)
  define l where "l = (if of_nat (numChars s) - start < len then of_nat (numChars s) - start else len)"
  have n: "unat (of_nat (length cs) :: u32) = length cs"
    using repr_sizes(1) [OF assms(1,3)] by (intro of_nat_inverse) simp_all
  then have "unat (of_nat (numChars s) - start) = length cs - unat start"
    using assms(2) v(4) by (simp add: unat_sub word_le_nat_alt)
  then have l: "unat l = min (length cs - unat start) (unat len)"
    by (auto simp: l_def word_less_nat_alt)
  have goal: "take (unat len) (drop (unat start) cs) = take (unat l) (drop (unat start) cs)"
    unfolding l by (metis length_drop take_all_iff min.commute take_take nle_le)
  have eq: "substr s start len = (if l = 0 then Inr ts_new
      else if ts_isASCII s then substr_bytes s start l False
      else bindE (getByteRange s start l) (\<lambda>(b, e).
             substr_bytes s (of_nat b) (of_nat e - of_nat b) (of_nat e - of_nat b = l \<and> \<not> ts_hasNull s)))"
    unfolding substr_def Let_def l_def [symmetric] using assms(2) v(4) by simp
  show ?thesis
  proof (cases "unat l = 0")
    case True
    then have "l = 0"
      by (simp add: unat_eq_zero)
    then show ?thesis
      unfolding goal True by (simp add: eq)
  next
    case False
    then have bound: "unat start < length cs" "unat start + unat l \<le> length cs" "l \<noteq> 0"
      using l assms(2) by auto
    show ?thesis
    proof (cases "is_ascii cs")
      case True
      then have "off cs i = i" if "i \<le> length cs" for i
        using that by (simp add: length_utf8s_is_ascii)
      then have "\<exists>t. substr_bytes s start l False = Inr t \<and> ts_repr t (take (unat l) (drop (unat start) cs))"
        using bound False assms by (intro substr_bytes_repr) auto
      with True bound goal show ?thesis
        by (simp add: eq v(3))
    next
      case na: False
      let ?b = "off cs (unat start)" and ?e = "off cs (unat start + unat l)"
      have le: "?b \<le> ?e" "?e < 2 ^ 32"
        using off_diff [of "unat start" "unat start + unat l" cs] utf8s_take_drop [of cs "unat start + unat l"]
          repr_sizes(2) [OF assms(1,3)] by auto
      then have ub: "unat (of_nat ?b :: u32) = ?b" and "unat (of_nat ?e :: u32) = ?e"
        by (simp_all add: of_nat_inverse)
      with le(1) have ue: "unat (of_nat ?e - of_nat ?b :: u32) = ?e - ?b"
        by (simp add: unat_sub word_le_nat_alt)
      have "unat (start + l) = unat start + unat l"
        using bound(2) repr_sizes(1) [OF assms(1,3)] by (intro unat_add_lem [THEN iffD1]) simp
      then have range: "getByteRange s start l = Inr (?b, ?e)"
        using bound by (intro getByteRange_repr [OF assms(1)]) auto
      have asc: "is_ascii (take (unat l) (drop (unat start) cs))" if "of_nat ?e - of_nat ?b = l"
      proof -
        have "length (utf8s (take (unat l) (drop (unat start) cs))) = unat l"
          using that ue off_diff [of "unat start" "unat start + unat l" cs] by simp
        then show ?thesis
          using bound(2) by (intro is_ascii_lengthI) simp
      qed
      have "\<exists>t. substr_bytes s (of_nat ?b) (of_nat ?e - of_nat ?b)
          (of_nat ?e - of_nat ?b = l \<and> \<not> ts_hasNull s) = Inr t
        \<and> ts_repr t (take (unat l) (drop (unat start) cs))"
        using bound assms False na asc
        by (intro substr_bytes_repr) (auto simp: ub ue ts_repr_def)
      then show ?thesis
        by (simp add: eq v(3) na bound(3) range goal)
    qed
  qed
qed


section \<open>Replacement\<close>

lemma replace_bytes_repr:
  assumes "ts_repr s cs" and "ts_repr r ds" and "i + k \<le> length cs" and "stringSize s < 2 ^ 32"
    and "unat b = off cs i" and "unat n = off cs (i + k) - off cs i"
  shows "\<exists>t. replace_bytes s b n r = Inr t \<and> ts_repr t (take i cs @ ds @ drop (i + k) cs)"
proof -
  let ?es = "take i cs @ ds @ drop (i + k) cs"
  have s: "valid_cps cs" "ts_bytes s = utf8s cs" "ts_isASCII s = is_ascii cs"
    "0 \<in> set cs \<Longrightarrow> ts_hasNull s" "ts_isInteger s \<Longrightarrow> is_digits cs"
    using assms(1) by (simp_all add: ts_repr_def)
  have r: "valid_cps ds" "ts_bytes r = utf8s ds" "ts_isASCII r = is_ascii ds"
    "0 \<in> set ds \<Longrightarrow> ts_hasNull r" "ts_isInteger r \<Longrightarrow> is_digits ds"
    using assms(2) by (simp_all add: ts_repr_def)
  have le: "off cs i \<le> off cs (i + k)" "off cs (i + k) \<le> length (utf8s cs)"
    using off_diff [of i "i + k" cs] utf8s_take_drop [of cs "i + k"] by auto
  have sum: "unat (b + n) = off cs (i + k)"
    using assms(5,6) le repr_sizes(2) [OF assms(1,4)] unat_add_lem [of b n] by simp
  have drp: "drop (off cs j) (utf8s cs) = utf8s (drop j cs)"
    and tk: "take (off cs j) (utf8s cs) = utf8s (take j cs)" for j
    using utf8s_take_drop [of cs j] by simp_all
  define newlen where "newlen = stringSize s + numBytes r - unat n"
  define t where "t = s\<lparr>ts_type := DYNAMIC, ts_cap := newlen, ts_bytes := utf8s ?es\<rparr>"
  have len: "newlen = length (utf8s ?es) + 1"
  proof -
    have "length (utf8s cs) = off cs (i + k) + length (utf8s (drop (i + k) cs))"
      using utf8s_take_drop [of cs "i + k"] by (metis length_append)
    with le(1) assms(6) show ?thesis
      by (simp add: newlen_def stringSize_def s(2) r(2))
  qed
  have eq: "replace_bytes s b n r = Inr (if ts_isASCII s \<and> ts_isASCII r then
      t\<lparr>ts_numchars := newlen - 1, ts_hasNull := (ts_hasNull s \<or> ts_hasNull r),
        ts_isInteger := (ts_isInteger s \<and> ts_isInteger r)\<rparr> else ts_init t)"
    using le sum unfolding replace_bytes_def Let_def newlen_def [symmetric]
    by (simp add: t_def stringSize_def s(2) r(2) assms(5) drp tk)
  have ok: "buf_ok t"
    by (simp add: t_def buf_ok_def stringSize_def len)
  have v: "valid_cps ?es"
    using s(1) r(1) by simp
  show ?thesis
  proof (cases "ts_isASCII s \<and> ts_isASCII r")
    case True
    then have a: "is_ascii ?es"
      using s(3) r(3) by simp
    have "ts_isInteger s \<and> ts_isInteger r \<Longrightarrow> is_digits ?es"
      using s(5) r(5) by (auto simp: is_digits_def dest: in_set_takeD in_set_dropD)
    moreover have "0 \<in> set ?es \<Longrightarrow> ts_hasNull s \<or> ts_hasNull r"
      using s(4) r(4) by (auto dest: in_set_takeD in_set_dropD)
    ultimately have "ts_repr (t\<lparr>ts_numchars := newlen - 1, ts_hasNull := (ts_hasNull s \<or> ts_hasNull r),
        ts_isInteger := (ts_isInteger s \<and> ts_isInteger r)\<rparr>) ?es"
      using v a ok True s(3) len length_utf8s_is_ascii [OF a]
      unfolding ts_repr_def by (simp add: t_def buf_ok_def stringSize_def)
    with True show ?thesis
      by (simp add: eq)
  next
    case False
    have "ts_repr (ts_init t) ?es"
      using v ok by (intro ts_repr_init) (simp_all add: t_def)
    with False show ?thesis
      by (auto simp: eq)
  qed
qed

lemma replace_repr:
  assumes "ts_repr s cs" and "ts_repr r ds" and "stringSize s < 2 ^ 32"
    and "unat pos + unat n \<le> length cs" and "is_ascii cs \<or> unat pos < length cs"
  shows "\<exists>t. replace s pos n r = Inr t
    \<and> ts_repr t (take (unat pos) cs @ ds @ drop (unat pos + unat n) cs)"
proof -
  have v: "ts_isASCII s = is_ascii cs" "numChars s = length cs"
    using assms(1) by (simp_all add: ts_repr_def numChars_def)
  have sum: "unat (pos + n) = unat pos + unat n"
    using assms(4) repr_sizes(1) [OF assms(1,3)] by (intro unat_add_lem [THEN iffD1]) simp
  have eq: "replace s pos n r = (if ts_isASCII s then replace_bytes s pos n r
      else bindE (getByteRange s pos n) (\<lambda>(b, e). replace_bytes s (of_nat b) (of_nat e - of_nat b) r))"
    unfolding replace_def Let_def using assms(4) sum v(2) by simp
  show ?thesis
  proof (cases "is_ascii cs")
    case True
    then have "off cs i = i" if "i \<le> length cs" for i
      using that by (simp add: length_utf8s_is_ascii)
    with True assms(4) show ?thesis
      using replace_bytes_repr [OF assms(1,2,4,3), of pos n] by (simp add: eq v(1))
  next
    case False
    let ?b = "off cs (unat pos)" and ?e = "off cs (unat pos + unat n)"
    have le: "?b \<le> ?e" "?e < 2 ^ 32"
      using off_diff [of "unat pos" "unat pos + unat n" cs]
        utf8s_take_drop [of cs "unat pos + unat n"] repr_sizes(2) [OF assms(1,3)] by auto
    then have "unat (of_nat ?b :: u32) = ?b" and "unat (of_nat ?e :: u32) = ?e"
      by (simp_all add: of_nat_inverse)
    moreover from this le(1) have "unat (of_nat ?e - of_nat ?b :: u32) = ?e - ?b"
      by (simp add: unat_sub word_le_nat_alt)
    moreover have "getByteRange s pos n = Inr (?b, ?e)"
      using False assms sum by (intro getByteRange_repr) auto
    ultimately show ?thesis
      using False replace_bytes_repr [OF assms(1,2,4,3), of "of_nat ?b" "of_nat ?e - of_nat ?b"]
      by (simp add: eq v(1))
  qed
qed

section \<open>Prefixes\<close>

lemma memcmp_prefix:
  assumes "length ys \<le> length xs"
  shows "\<exists>d. memcmp (xs @ [0]) (ys @ [0]) (length ys) = Inr d \<and> (d = 0 \<longleftrightarrow> take (length ys) xs = ys)"
  using memcmp_min [of "length ys" "xs @ [0]" "ys @ [0]"] assms by auto

lemma startsWith_repr:
  assumes "ts_repr s cs" and "ts_repr r ds"
  shows "startsWith s r = Inr (take (length ds) cs = ds)"
proof -
  have v: "valid_cps cs" "valid_cps ds" "ts_bytes s = utf8s cs" "ts_bytes r = utf8s ds"
    using assms by (simp_all add: ts_repr_def)
  show ?thesis
  proof (cases "length (utf8s ds) \<le> length (utf8s cs)")
    case True
    then show ?thesis
      using memcmp_prefix [OF True] bytes_prefix_iff [OF v(1,2)]
      by (auto simp: startsWith_def raw_buf_repr [OF assms(1)] raw_buf_repr [OF assms(2)] v(3,4))
  next
    case False
    then have "take (length ds) cs \<noteq> ds"
      unfolding bytes_prefix_iff [OF v(1,2), symmetric] by (metis length_take min.cobounded1)
    with False show ?thesis
      by (simp add: startsWith_def v(3,4))
  qed
qed

lemma stripPrefix_repr:
  assumes "ts_repr s cs" and "ts_repr r ds" and "stringSize s < 2 ^ 32"
  shows "\<exists>t. stripPrefix s r 0 = Inr t
    \<and> ts_repr t (if take (length ds) cs = ds then drop (length ds) cs else cs)"
proof (cases "take (length ds) cs = ds")
  case True
  then have le: "length ds \<le> length cs"
    by (metis length_take min.cobounded1)
  have r: "numChars r = length ds"
    using assms(2) by (simp add: ts_repr_def numChars_def)
  have n: "unat (of_nat (length ds) :: u32) = length ds"
    using le repr_sizes(1) [OF assms(1,3)] by (intro of_nat_inverse) simp_all
  have "length (drop (length ds) cs) \<le> 2 ^ 32 - 1"
    using repr_sizes(1) [OF assms(1,3)] by simp
  then have "take (unat npos) (drop (length ds) cs) = drop (length ds) cs"
    by simp
  moreover obtain t where "substr s (of_nat (length ds)) npos = Inr t"
    "ts_repr t (take (unat npos) (drop (unat (of_nat (length ds) :: u32)) cs))"
    using substr_repr [OF assms(1), of "of_nat (length ds)" npos] assms(3) n le by auto
  ultimately show ?thesis
    using True n by (simp add: stripPrefix_def startsWith_repr [OF assms(1,2)] r)
next
  case False
  then show ?thesis
    using ts_copy_repr [OF assms(1)] by (simp add: stripPrefix_def startsWith_repr [OF assms(1,2)])
qed


section \<open>Properties\<close>

text \<open>C1: Character access. On a string that holds the encoding of \<open>cs\<close>, iterating with
  \<open>CharIterator\<close> visits exactly the code points of \<open>cs\<close>, and \<open>charAt(i)\<close> is the \<open>i\<close>-th of them,
  both on the constant-time ASCII path and on the decoding path; no read leaves the buffer.\<close>

theorem iteration_roundtrip:
  assumes "ts_repr s cs"
  shows "chars s = Inr cs \<and> (\<forall>i. unat i < length cs \<longrightarrow> charAt s i = Inr (cs ! unat i))"
  using chars_repr [OF assms] charAt_repr [OF assms] by blast

lemma iteration_roundtrip_witness:
  "chars (ts_of [0x61, 0xe9, 0x20ac, 0x1f600]) = Inr [0x61, 0xe9, 0x20ac, 0x1f600]
     \<and> charAt (ts_of [0x61, 0xe9, 0x20ac, 0x1f600]) 2 = Inr 0x20ac"
  using iteration_roundtrip [of "ts_of [0x61, 0xe9, 0x20ac, 0x1f600]" "[0x61, 0xe9, 0x20ac, 0x1f600]"]
  by (auto simp: valid_cp_def)

text \<open>Search. For a needle without NULs and a start inside the string, \<open>find\<close> returns the first
  character position from \<open>start\<close> on at which the needle occurs, or \<open>npos\<close> when it occurs at none,
  on both the \<open>strstr\<close> path and the character loop (the latter for needles that pass \<open>needle_fits\<close>).\<close>

theorem find_first_occurrence:
  assumes "ts_repr s cs" and "ts_repr r ds" and "0 \<notin> set ds" and "unat start < length cs"
    and "stringSize s < 2 ^ 32" and "ts_isASCII s \<and> \<not> ts_hasNull s \<or> needle_fits ds cs"
  shows "\<exists>k. ts_find s r start = Inr k \<and> first_occurrence ds cs (unat start) k"
  using ts_find_search [OF assms] first_occurrence_search [of "unat start" cs ds] assms(4) by auto

lemma find_first_occurrence_witness:
  "\<exists>k. ts_find (ts_of [0x61, 0xe9, 0x62, 0xe9]) (ts_of [0xe9]) 2 = Inr k
     \<and> first_occurrence [0xe9 :: u32] [0x61, 0xe9, 0x62, 0xe9] 2 k"
  using find_first_occurrence [of "ts_of [0x61, 0xe9, 0x62, 0xe9]" "[0x61, 0xe9, 0x62, 0xe9]"
      "ts_of [0xe9]" "[0xe9]" 2]
  by (simp add: valid_cp_def stringSize_def utf8_enc_def needle_fits_def)

text \<open>A needle of three bytes is compared with the last character, which has one: \<open>memcmp\<close> is told to read past the
  terminator.\<close>

lemma find_overread:
  "ts_find (ts_of [0xe9, 0x61]) (ts_of [0x20ac]) 0 = Inl OutOfBounds"
  by code_simp

text \<open>\<open>substr(start, len)\<close> with \<open>start\<close> at most the number of characters returns the string of
  the \<open>len\<close> characters from \<open>start\<close> on, clamped at the end of the string (also for \<open>len = npos\<close>),
  with the count and flags of the result, on the ASCII and on the UTF-8 path.\<close>

theorem substr_correct:
  assumes "ts_repr s cs" and "unat start \<le> length cs" and "stringSize s < 2 ^ 32"
  shows "\<exists>t. substr s start len = Inr t \<and> ts_repr t (take (unat len) (drop (unat start) cs))"
  by (rule substr_repr [OF assms])

lemma substr_correct_witness:
  "\<exists>t. substr (ts_of [0x61, 0xe9, 0x62, 0x20ac]) 1 2 = Inr t \<and> ts_repr t [0xe9, 0x62]"
  using substr_correct [of "ts_of [0x61, 0xe9, 0x62, 0x20ac]" "[0x61, 0xe9, 0x62, 0x20ac]" 1 2]
  by (simp add: valid_cp_def stringSize_def utf8_enc_def)

text \<open>\<open>replace(pos, n, o)\<close> replaces the \<open>n\<close> characters from \<open>pos\<close> on by \<open>o\<close> and leaves the rest
  of the string as it was, for every range inside the string; at the very end of the string only
  when the string is ASCII.\<close>

theorem replace_correct:
  assumes "ts_repr s cs" and "ts_repr r ds" and "stringSize s < 2 ^ 32"
    and "unat pos + unat n \<le> length cs" and "is_ascii cs \<or> unat pos < length cs"
  shows "\<exists>t. replace s pos n r = Inr t
    \<and> ts_repr t (take (unat pos) cs @ ds @ drop (unat pos + unat n) cs)"
  by (rule replace_repr [OF assms])

lemma replace_correct_witness:
  "\<exists>t. replace (ts_of [0x61, 0xe9, 0x62]) 1 1 (ts_of [0x20ac, 0x63]) = Inr t
     \<and> ts_repr t [0x61, 0x20ac, 0x63, 0x62]"
  using replace_correct [of "ts_of [0x61, 0xe9, 0x62]" "[0x61, 0xe9, 0x62]" "ts_of [0x20ac, 0x63]"
      "[0x20ac, 0x63]" 1 1]
  by (simp add: valid_cp_def stringSize_def utf8_enc_def)

text \<open>At the end of a non-ASCII string \<open>replace(numChars(), 0, o)\<close> overwrites the last character.\<close>

lemma replace_at_end:
  "(case replace (ts_of [0x61, 0xe9]) 2 0 (ts_of [0x62]) of
      Inr t \<Rightarrow> ts_bytes t = utf8s [0x61, 0x62] | Inl _ \<Rightarrow> False)"
  by code_simp

text \<open>\<open>stripPrefix(prefix)\<close> removes the prefix when the string starts with it and otherwise
  returns the string unchanged.\<close>

theorem stripPrefix_correct:
  assumes "ts_repr s cs" and "ts_repr r ds" and "stringSize s < 2 ^ 32"
  shows "\<exists>t. stripPrefix s r 0 = Inr t
    \<and> ts_repr t (if take (length ds) cs = ds then drop (length ds) cs else cs)"
  by (rule stripPrefix_repr [OF assms])

lemma stripPrefix_correct_witness:
  "\<exists>t. stripPrefix (ts_of [0x61, 0xe9, 0x62]) (ts_of [0x61, 0xe9]) 0 = Inr t \<and> ts_repr t [0x62]"
  using stripPrefix_correct [of "ts_of [0x61, 0xe9, 0x62]" "[0x61, 0xe9, 0x62]" "ts_of [0x61, 0xe9]"
      "[0x61, 0xe9]"]
  by (simp add: valid_cp_def stringSize_def utf8_enc_def)

end
