(* ===== verification/CaseTables.thy ===== *)
theory CaseTables
  imports LS_Prelude
begin

text \<open>
  Case conversion of one character in \<open>src/src/tiny_string.cpp\<close>: the tables taken from avmplus and
  the functions \<open>unicharToUpper\<close> and \<open>unicharToLower\<close>, which try the ranges with a fixed offset
  first and then search the sorted table of single characters. The binary search is stated once
  as a locale over a sorted table and its conversions; both pairs of tables are instances.
\<close>

section \<open>The tables\<close>

definition lowerCaseBase :: "u16 list" where
  "lowerCaseBase =
    [0x00B5, 0x00FF, 0x0131, 0x0133, 0x0135, 0x0137, 0x017A, 0x017C, 0x017E, 0x017F, 0x0183,
     0x0185, 0x0188, 0x018C, 0x0192, 0x0195, 0x0199, 0x01A1, 0x01A3, 0x01A5, 0x01A8, 0x01AD,
     0x01B0, 0x01B4, 0x01B6, 0x01B9, 0x01BD, 0x01BF, 0x01C5, 0x01C6, 0x01C8, 0x01C9, 0x01CB,
     0x01CC, 0x01CE, 0x01D0, 0x01D2, 0x01D4, 0x01D6, 0x01D8, 0x01DA, 0x01DC, 0x01DD, 0x01DF,
     0x01E1, 0x01E3, 0x01E5, 0x01E7, 0x01E9, 0x01EB, 0x01ED, 0x01EF, 0x01F2, 0x01F3, 0x01F5,
     0x01F9, 0x01FB, 0x01FD, 0x01FF, 0x0253, 0x0254, 0x0256, 0x0257, 0x0259, 0x025B, 0x0260,
     0x0263, 0x0268, 0x0269, 0x026F, 0x0272, 0x0275, 0x0280, 0x0283, 0x0288, 0x028A, 0x028B,
     0x0292, 0x0345, 0x03AC, 0x03AD, 0x03AE, 0x03AF, 0x03CC, 0x03CD, 0x03CE, 0x03D0, 0x03D1,
     0x03D5, 0x03D6, 0x03F0, 0x03F1, 0x03F2, 0x03F5, 0x04C2, 0x04C4, 0x04C8, 0x04CC, 0x1E9B,
     0x1F40, 0x1F41, 0x1F42, 0x1F43, 0x1F44, 0x1F45, 0x1F51, 0x1F53, 0x1F55, 0x1F57, 0x1F60,
     0x1F61, 0x1F62, 0x1F63, 0x1F64, 0x1F65, 0x1F66, 0x1F67, 0x1F70, 0x1F71, 0x1F72, 0x1F73,
     0x1F74, 0x1F75, 0x1F76, 0x1F77, 0x1F78, 0x1F79, 0x1F7A, 0x1F7B, 0x1F7C, 0x1F7D, 0x1F80,
     0x1F81, 0x1F82, 0x1F83, 0x1F84, 0x1F85, 0x1F86, 0x1F87, 0x1F90, 0x1F91, 0x1F92, 0x1F93,
     0x1F94, 0x1F95, 0x1F96, 0x1F97, 0x1FA0, 0x1FA1, 0x1FA2, 0x1FA3, 0x1FA4, 0x1FA5, 0x1FA6,
     0x1FA7, 0x1FB0, 0x1FB1, 0x1FB3, 0x1FBE, 0x1FC3, 0x1FD0, 0x1FD1, 0x1FE0, 0x1FE1, 0x1FE5,
     0x1FF3]"

definition upperCaseConversion :: "u16 list" where
  "upperCaseConversion =
    [0x039C, 0x0178, 0x0049, 0x0132, 0x0134, 0x0136, 0x0179, 0x017B, 0x017D, 0x0053, 0x0182,
     0x0184, 0x0187, 0x018B, 0x0191, 0x01F6, 0x0198, 0x01A0, 0x01A2, 0x01A4, 0x01A7, 0x01AC,
     0x01AF, 0x01B3, 0x01B5, 0x01B8, 0x01BC, 0x01F7, 0x01C4, 0x01C4, 0x01C7, 0x01C7, 0x01CA,
     0x01CA, 0x01CD, 0x01CF, 0x01D1, 0x01D3, 0x01D5, 0x01D7, 0x01D9, 0x01DB, 0x018E, 0x01DE,
     0x01E0, 0x01E2, 0x01E4, 0x01E6, 0x01E8, 0x01EA, 0x01EC, 0x01EE, 0x01F1, 0x01F1, 0x01F4,
     0x01F8, 0x01FA, 0x01FC, 0x01FE, 0x0181, 0x0186, 0x0189, 0x018A, 0x018F, 0x0190, 0x0193,
     0x0194, 0x0197, 0x0196, 0x019C, 0x019D, 0x019F, 0x01A6, 0x01A9, 0x01AE, 0x01B1, 0x01B2,
     0x01B7, 0x0399, 0x0386, 0x0388, 0x0389, 0x038A, 0x038C, 0x038E, 0x038F, 0x0392, 0x0398,
     0x03A6, 0x03A0, 0x039A, 0x03A1, 0x03A3, 0x0395, 0x04C1, 0x04C3, 0x04C7, 0x04CB, 0x1E60,
     0x1F48, 0x1F49, 0x1F4A, 0x1F4B, 0x1F4C, 0x1F4D, 0x1F59, 0x1F5B, 0x1F5D, 0x1F5F, 0x1F68,
     0x1F69, 0x1F6A, 0x1F6B, 0x1F6C, 0x1F6D, 0x1F6E, 0x1F6F, 0x1FBA, 0x1FBB, 0x1FC8, 0x1FC9,
     0x1FCA, 0x1FCB, 0x1FDA, 0x1FDB, 0x1FF8, 0x1FF9, 0x1FEA, 0x1FEB, 0x1FFA, 0x1FFB, 0x1F88,
     0x1F89, 0x1F8A, 0x1F8B, 0x1F8C, 0x1F8D, 0x1F8E, 0x1F8F, 0x1F98, 0x1F99, 0x1F9A, 0x1F9B,
     0x1F9C, 0x1F9D, 0x1F9E, 0x1F9F, 0x1FA8, 0x1FA9, 0x1FAA, 0x1FAB, 0x1FAC, 0x1FAD, 0x1FAE,
     0x1FAF, 0x1FB8, 0x1FB9, 0x1FBC, 0x0399, 0x1FCC, 0x1FD8, 0x1FD9, 0x1FE8, 0x1FE9, 0x1FEC,
     0x1FFC]"

definition tolower_map :: "u8 list" where
  "tolower_map =
    [0x00, 0x00, 0x00, 0x00, 0x00, 0x00, 0x00, 0x00, 0x00, 0x00, 0x00, 0x00, 0x00, 0x00, 0x00,
     0x00, 0x00, 0x00, 0x00, 0x00, 0x00, 0x00, 0x00, 0x00, 0x00, 0x00, 0x00, 0x00, 0x00, 0x00,
     0x00, 0x00, 0x00, 0x00, 0x00, 0x00, 0x00, 0x00, 0x00, 0x00, 0x00, 0x00, 0x00, 0x00, 0x00,
     0x00, 0x00, 0x00, 0x00, 0x00, 0x00, 0x00, 0x00, 0x00, 0x00, 0x00, 0x00, 0x00, 0x00, 0x00,
     0x00, 0x00, 0x00, 0x00, 0x00, 0x20, 0x20, 0x20, 0x20, 0x20, 0x20, 0x20, 0x20, 0x20, 0x20,
     0x20, 0x20, 0x20, 0x20, 0x20, 0x20, 0x20, 0x20, 0x20, 0x20, 0x20, 0x20, 0x20, 0x20, 0x20,
     0x20, 0x00, 0x00, 0x00, 0x00, 0x00, 0x00, 0x00, 0x00, 0x00, 0x00, 0x00, 0x00, 0x00, 0x00,
     0x00, 0x00, 0x00, 0x00, 0x00, 0x00, 0x00, 0x00, 0x00, 0x00, 0x00, 0x00, 0x00, 0x00, 0x00,
     0x00, 0x00, 0x00, 0x00, 0x00, 0x00, 0x00, 0x00, 0x00, 0x00, 0x00, 0x00, 0x00, 0x00, 0x00,
     0x00, 0x00, 0x00, 0x00, 0x00, 0x00, 0x00, 0x00, 0x00, 0x00, 0x00, 0x00, 0x00, 0x00, 0x00,
     0x00, 0x00, 0x00, 0x00, 0x00, 0x00, 0x00, 0x00, 0x00, 0x00, 0x00, 0x00, 0x00, 0x00, 0x00,
     0x00, 0x00, 0x00, 0x00, 0x00, 0x00, 0x00, 0x00, 0x00, 0x00, 0x00, 0x00, 0x00, 0x00, 0x00,
     0x00, 0x00, 0x00, 0x00, 0x00, 0x00, 0x00, 0x00, 0x00, 0x00, 0x00, 0x00, 0x20, 0x20, 0x20,
     0x20, 0x20, 0x20, 0x20, 0x20, 0x20, 0x20, 0x20, 0x20, 0x20, 0x20, 0x20, 0x20, 0x20, 0x20,
     0x20, 0x20, 0x20, 0x20, 0x20, 0x00, 0x20, 0x20, 0x20, 0x20, 0x20, 0x20, 0x20, 0x00, 0x00,
     0x00, 0x00, 0x00, 0x00, 0x00, 0x00, 0x00, 0x00, 0x00, 0x00, 0x00, 0x00, 0x00, 0x00, 0x00,
     0x00, 0x00, 0x00, 0x00, 0x00, 0x00, 0x00, 0x00, 0x00, 0x00, 0x00, 0x00, 0x00, 0x00, 0x00]"

definition toupper_map :: "u8 list" where
  "toupper_map =
    [0x00, 0x00, 0x00, 0x00, 0x00, 0x00, 0x00, 0x00, 0x00, 0x00, 0x00, 0x00, 0x00, 0x00, 0x00,
     0x00, 0x00, 0x00, 0x00, 0x00, 0x00, 0x00, 0x00, 0x00, 0x00, 0x00, 0x00, 0x00, 0x00, 0x00,
     0x00, 0x00, 0x00, 0x00, 0x00, 0x00, 0x00, 0x00, 0x00, 0x00, 0x00, 0x00, 0x00, 0x00, 0x00,
     0x00, 0x00, 0x00, 0x00, 0x00, 0x00, 0x00, 0x00, 0x00, 0x00, 0x00, 0x00, 0x00, 0x00, 0x00,
     0x00, 0x00, 0x00, 0x00, 0x00, 0x00, 0x00, 0x00, 0x00, 0x00, 0x00, 0x00, 0x00, 0x00, 0x00,
     0x00, 0x00, 0x00, 0x00, 0x00, 0x00, 0x00, 0x00, 0x00, 0x00, 0x00, 0x00, 0x00, 0x00, 0x00,
     0x00, 0x00, 0x00, 0x00, 0x00, 0x00, 0x00, 0x20, 0x20, 0x20, 0x20, 0x20, 0x20, 0x20, 0x20,
     0x20, 0x20, 0x20, 0x20, 0x20, 0x20, 0x20, 0x20, 0x20, 0x20, 0x20, 0x20, 0x20, 0x20, 0x20,
     0x20, 0x20, 0x20, 0x00, 0x00, 0x00, 0x00, 0x00, 0x00, 0x00, 0x00, 0x00, 0x00, 0x00, 0x00,
     0x00, 0x00, 0x00, 0x00, 0x00, 0x00, 0x00, 0x00, 0x00, 0x00, 0x00, 0x00, 0x00, 0x00, 0x00,
     0x00, 0x00, 0x00, 0x00, 0x00, 0x00, 0x00, 0x00, 0x00, 0x00, 0x00, 0x00, 0x00, 0x00, 0x00,
     0x00, 0x00, 0x00, 0x00, 0x00, 0x00, 0x00, 0x00, 0x00, 0x00, 0x00, 0x00, 0x00, 0x00, 0x00,
     0x00, 0x00, 0x00, 0x00, 0x00, 0x00, 0x00, 0x00, 0x00, 0x00, 0x00, 0x00, 0x00, 0x00, 0x00,
     0x00, 0x00, 0x00, 0x00, 0x00, 0x00, 0x00, 0x00, 0x00, 0x00, 0x00, 0x00, 0x00, 0x00, 0x00,
     0x00, 0x00, 0x00, 0x00, 0x00, 0x00, 0x00, 0x00, 0x00, 0x00, 0x00, 0x00, 0x00, 0x00, 0x20,
     0x20, 0x20, 0x20, 0x20, 0x20, 0x20, 0x20, 0x20, 0x20, 0x20, 0x20, 0x20, 0x20, 0x20, 0x20,
     0x20, 0x20, 0x20, 0x20, 0x20, 0x20, 0x20, 0x00, 0x20, 0x20, 0x20, 0x20, 0x20, 0x20, 0x20]"

definition upperCaseBase :: "u16 list" where
  "upperCaseBase =
    [0x0130, 0x0132, 0x0134, 0x0136, 0x0178, 0x0179, 0x017B, 0x017D, 0x0181, 0x0182, 0x0184,
     0x0186, 0x0187, 0x0189, 0x018A, 0x018B, 0x018E, 0x018F, 0x0190, 0x0191, 0x0193, 0x0194,
     0x0196, 0x0197, 0x0198, 0x019C, 0x019D, 0x019F, 0x01A0, 0x01A2, 0x01A4, 0x01A6, 0x01A7,
     0x01A9, 0x01AC, 0x01AE, 0x01AF, 0x01B1, 0x01B2, 0x01B3, 0x01B5, 0x01B7, 0x01B8, 0x01BC,
     0x01C4, 0x01C5, 0x01C7, 0x01C8, 0x01CA, 0x01CB, 0x01CD, 0x01CF, 0x01D1, 0x01D3, 0x01D5,
     0x01D7, 0x01D9, 0x01DB, 0x01DE, 0x01E0, 0x01E2, 0x01E4, 0x01E6, 0x01E8, 0x01EA, 0x01EC,
     0x01EE, 0x01F1, 0x01F2, 0x01F4, 0x01F6, 0x01F7, 0x01F8, 0x01FA, 0x01FC, 0x01FE, 0x0386,
     0x0388, 0x0389, 0x038A, 0x038C, 0x038E, 0x038F, 0x03F4, 0x04C1, 0x04C3, 0x04C7, 0x04CB,
     0x1F48, 0x1F49, 0x1F4A, 0x1F4B, 0x1F4C, 0x1F4D, 0x1F59, 0x1F5B, 0x1F5D, 0x1F5F, 0x1F68,
     0x1F69, 0x1F6A, 0x1F6B, 0x1F6C, 0x1F6D, 0x1F6E, 0x1F6F, 0x1F88, 0x1F89, 0x1F8A, 0x1F8B,
     0x1F8C, 0x1F8D, 0x1F8E, 0x1F8F, 0x1F98, 0x1F99, 0x1F9A, 0x1F9B, 0x1F9C, 0x1F9D, 0x1F9E,
     0x1F9F, 0x1FA8, 0x1FA9, 0x1FAA, 0x1FAB, 0x1FAC, 0x1FAD, 0x1FAE, 0x1FAF, 0x1FB8, 0x1FB9,
     0x1FBA, 0x1FBB, 0x1FBC, 0x1FC8, 0x1FC9, 0x1FCA, 0x1FCB, 0x1FCC, 0x1FD8, 0x1FD9, 0x1FDA,
     0x1FDB, 0x1FE8, 0x1FE9, 0x1FEA, 0x1FEB, 0x1FEC, 0x1FF8, 0x1FF9, 0x1FFA, 0x1FFB, 0x1FFC,
     0x2126, 0x212A, 0x212B]"

definition lowerCaseConversion :: "u16 list" where
  "lowerCaseConversion =
    [0x0069, 0x0133, 0x0135, 0x0137, 0x00FF, 0x017A, 0x017C, 0x017E, 0x0253, 0x0183, 0x0185,
     0x0254, 0x0188, 0x0256, 0x0257, 0x018C, 0x01DD, 0x0259, 0x025B, 0x0192, 0x0260, 0x0263,
     0x0269, 0x0268, 0x0199, 0x026F, 0x0272, 0x0275, 0x01A1, 0x01A3, 0x01A5, 0x0280, 0x01A8,
     0x0283, 0x01AD, 0x0288, 0x01B0, 0x028A, 0x028B, 0x01B4, 0x01B6, 0x0292, 0x01B9, 0x01BD,
     0x01C6, 0x01C6, 0x01C9, 0x01C9, 0x01CC, 0x01CC, 0x01CE, 0x01D0, 0x01D2, 0x01D4, 0x01D6,
     0x01D8, 0x01DA, 0x01DC, 0x01DF, 0x01E1, 0x01E3, 0x01E5, 0x01E7, 0x01E9, 0x01EB, 0x01ED,
     0x01EF, 0x01F3, 0x01F3, 0x01F5, 0x0195, 0x01BF, 0x01F9, 0x01FB, 0x01FD, 0x01FF, 0x03AC,
     0x03AD, 0x03AE, 0x03AF, 0x03CC, 0x03CD, 0x03CE, 0x03B8, 0x04C2, 0x04C4, 0x04C8, 0x04CC,
     0x1F40, 0x1F41, 0x1F42, 0x1F43, 0x1F44, 0x1F45, 0x1F51, 0x1F53, 0x1F55, 0x1F57, 0x1F60,
     0x1F61, 0x1F62, 0x1F63, 0x1F64, 0x1F65, 0x1F66, 0x1F67, 0x1F80, 0x1F81, 0x1F82, 0x1F83,
     0x1F84, 0x1F85, 0x1F86, 0x1F87, 0x1F90, 0x1F91, 0x1F92, 0x1F93, 0x1F94, 0x1F95, 0x1F96,
     0x1F97, 0x1FA0, 0x1FA1, 0x1FA2, 0x1FA3, 0x1FA4, 0x1FA5, 0x1FA6, 0x1FA7, 0x1FB0, 0x1FB1,
     0x1F70, 0x1F71, 0x1FB3, 0x1F72, 0x1F73, 0x1F74, 0x1F75, 0x1FC3, 0x1FD0, 0x1FD1, 0x1F76,
     0x1F77, 0x1FE0, 0x1FE1, 0x1F7A, 0x1F7B, 0x1FE5, 0x1F78, 0x1F79, 0x1F7C, 0x1F7D, 0x1FF3,
     0x03C9, 0x006B, 0x00E5]"

section \<open>Conversion\<close>

text \<open>
  The loop of the two functions: \<open>lo\<close> and \<open>hi\<close> are 32-bit signed and stay within the table, so
  they are integers here; an access outside either table is a fault.
\<close>

definition rd_int :: "'a list \<Rightarrow> int \<Rightarrow> 'a res" where
  "rd_int xs i = (if i < 0 then Inl OutOfBounds else rd xs (nat i))"

function bsearch :: "u16 list \<Rightarrow> u16 list \<Rightarrow> u32 \<Rightarrow> int \<Rightarrow> int \<Rightarrow> u32 res" where
  "bsearch base conv ch lo hi =
     (if lo \<le> hi then
        (let pivot = (lo + hi) div 2
         in bindE (rd_int base pivot) (\<lambda>t.
              if ch = ucast t then bindE (rd_int conv pivot) (\<lambda>r. Inr (ucast r))
              else if ch < ucast t then bsearch base conv ch lo (pivot - 1)
              else bsearch base conv ch (pivot + 1) hi))
      else Inr ch)"
  by pat_completeness auto
termination
  by (relation "measure (\<lambda>(base, conv, ch, lo, hi). nat (hi - lo + 1))") (auto simp: Let_def)

declare bsearch.simps [simp del]

abbreviation between :: "u32 \<Rightarrow> u32 \<Rightarrow> u32 \<Rightarrow> bool" where
  "between lo hi ch \<equiv> lo \<le> ch \<and> ch \<le> hi"

definition unicharToUpper :: "u32 \<Rightarrow> u32 res" where
  "unicharToUpper ch =
     (if ch < 0xFF then bindE (rd toupper_map (unat ch)) (\<lambda>x. Inr (ucast x XOR ch))
      else if between 0x0450 0x045F ch then Inr (ch - 0x50)
      else if between 0x0561 0x0586 ch then Inr (ch - 0x30)
      else if between 0x03B1 0x03CB ch \<or> between 0x0430 0x044F ch \<or> between 0xFF41 0xFF5A ch
        then Inr (ch - 0x20)
      else if between 0x24D0 0x24E9 ch then Inr (ch - 0x1A)
      else if between 0x2170 0x217F ch then Inr (ch - 0x10)
      else if between 0x1F00 0x1F07 ch \<or> between 0x1F10 0x1F15 ch \<or> between 0x1F20 0x1F27 ch
          \<or> between 0x1F30 0x1F37 ch
        then Inr (ch + 0x8)
      else if between 0x0101 0x0233 ch \<and>
          (ch \<le> 0x012F \<and> ch AND 1 \<noteq> 0 \<or> between 0x013A 0x0148 ch \<and> ch AND 1 = 0
           \<or> between 0x014B 0x0177 ch \<and> ch AND 1 \<noteq> 0
           \<or> between 0x0201 0x0233 ch \<and> ch AND 1 \<noteq> 0 \<and> ch \<noteq> 0x0221)
        then Inr (ch - 1)
      else if ch AND 1 \<noteq> 0 \<and> between 0x03D9 0x03EF ch then Inr (ch - 1)
      else if ch AND 1 \<noteq> 0 \<and>
          (between 0x0461 0x04BF ch \<and> \<not> (ch = 0x0483 \<or> ch = 0x0485 \<or> ch = 0x0487 \<or> ch = 0x0489)
           \<or> between 0x04D1 0x04F9 ch)
          \<and> ch \<noteq> 0x0483 \<and> ch \<noteq> 0x0485 \<and> ch \<noteq> 0x0487 \<and> ch \<noteq> 0x0489
        then Inr (ch - 1)
      else if ch AND 1 \<noteq> 0 \<and> (between 0x1E01 0x1E95 ch \<or> between 0x1EA1 0x1EF9 ch)
        then Inr (ch - 1)
      else bsearch lowerCaseBase upperCaseConversion ch 0 (int (length lowerCaseBase) - 1))"

definition unicharToLower :: "u32 \<Rightarrow> u32 res" where
  "unicharToLower ch =
     (if ch < 0xFF then bindE (rd tolower_map (unat ch)) (\<lambda>x. Inr (ucast x XOR ch))
      else if between 0x10A0 0x10C5 ch then Inr (ch + 48)
      else if between 0x0400 0x040F ch then Inr (ch + 0x50)
      else if between 0x0531 0x0556 ch then Inr (ch + 0x30)
      else if between 0x0391 0x03AB ch \<or> between 0x0410 0x042F ch \<or> between 0xFF21 0xFF3A ch
        then Inr (ch + 0x20)
      else if between 0x24B6 0x24CF ch then Inr (ch + 0x1A)
      else if between 0x2160 0x216F ch then Inr (ch + 0x10)
      else if between 0x1F08 0x1F0F ch \<or> between 0x1F18 0x1F1D ch \<or> between 0x1F28 0x1F2F ch
          \<or> between 0x1F38 0x1F3F ch
        then Inr (ch - 0x8)
      else if between 0x0100 0x0232 ch \<and>
          (ch \<le> 0x012E \<and> ch AND 1 = 0 \<or> between 0x0139 0x0147 ch \<and> ch AND 1 \<noteq> 0
           \<or> between 0x014A 0x0176 ch \<and> ch AND 1 = 0
           \<or> between 0x0200 0x0232 ch \<and> ch AND 1 = 0 \<and> ch \<noteq> 0x0220)
        then Inr (ch + 1)
      else if ch AND 1 = 0 \<and> between 0x03D8 0x03EE ch then Inr (ch + 1)
      else if ch AND 1 = 0 \<and>
          (between 0x0460 0x04BE ch \<and> \<not> (ch = 0x0482 \<or> ch = 0x0484 \<or> ch = 0x0486 \<or> ch = 0x0488)
           \<or> between 0x04D0 0x04F8 ch)
          \<and> ch \<noteq> 0x0482 \<and> ch \<noteq> 0x0484 \<and> ch \<noteq> 0x0486 \<and> ch \<noteq> 0x0488
        then Inr (ch + 1)
      else if ch AND 1 = 0 \<and> (between 0x1E00 0x1E94 ch \<or> between 0x1EA0 0x1EF8 ch)
        then Inr (ch + 1)
      else bsearch upperCaseBase lowerCaseConversion ch 0 (int (length upperCaseBase) - 1))"

section \<open>Binary search in a sorted table\<close>

lemma unat_ucast_up [simp]: "unat (ucast (a :: u16) :: u32) = unat a" "unat (ucast (b :: u8) :: u32) = unat b"
proof -
  have "unat a < 2 ^ 16" "unat b < 2 ^ 8"
    using unsigned_less [of a] unsigned_less [of b] by simp_all
  then show "unat (ucast a :: u32) = unat a" "unat (ucast b :: u32) = unat b"
    by (simp_all add: unsigned_ucast_eq take_bit_nat_eq_self)
qed

lemma ucast_up_less [simp]:
  "(ucast a :: u32) < ucast b \<longleftrightarrow> a < b" "(ucast a :: u32) = ucast b \<longleftrightarrow> a = b" for a b :: u16
  by (simp_all add: word_less_nat_alt word_unat_eq_iff)

text \<open>\<open>entry\<close> is the conversion of a table read as a list of pairs: the entry of the character, or
  the character itself.\<close>

definition entry :: "u16 list \<Rightarrow> u16 list \<Rightarrow> u32 \<Rightarrow> u32 \<Rightarrow> bool" where
  "entry base conv ch r \<longleftrightarrow>
     (\<exists>i<length base. ch = ucast (base ! i) \<and> r = ucast (conv ! i))
     \<or> (\<forall>t\<in>set base. ch \<noteq> ucast t) \<and> r = ch"

locale sorted_table =
  fixes base :: "u16 list" and conv :: "u16 list"
  assumes sorted_base: "sorted_wrt (<) base"
    and same_length: "length base = length conv"
begin

lemma base_less: "i < j \<Longrightarrow> j < length base \<Longrightarrow> base ! i < base ! j"
  using sorted_base by (rule sorted_wrt_nth_less)

lemma base_less_iff: "i < length base \<Longrightarrow> j < length base \<Longrightarrow> base ! i < base ! j \<longleftrightarrow> i < j"
  using base_less by (metis linorder_less_linear order.asym order.irrefl)

text \<open>The loop keeps the character's index, if it has one, between \<open>lo\<close> and \<open>hi\<close>.\<close>

lemma bsearch_entry_from:
  assumes "0 \<le> lo" and "hi < int (length base)"
    and "\<And>i. i < length base \<Longrightarrow> ch = ucast (base ! i) \<Longrightarrow> lo \<le> int i \<and> int i \<le> hi"
  shows "\<exists>r. bsearch base conv ch lo hi = Inr r \<and> entry base conv ch r"
  using assms
proof (induction "nat (hi - lo + 1)" arbitrary: lo hi rule: less_induct)
  case less
  show ?case
  proof (cases "lo \<le> hi")
    case False
    then have "\<forall>t\<in>set base. ch \<noteq> ucast t"
      using less.prems(3) by (fastforce simp: in_set_conv_nth)
    with False show ?thesis
      by (simp add: bsearch.simps [of _ _ _ lo] entry_def)
  next
    case True
    define p where "p = (lo + hi) div 2"
    have p: "lo \<le> p" "p \<le> hi" "0 \<le> p" "nat p < length base"
      using True less.prems(1,2) by (auto simp: p_def)
    have step: "bsearch base conv ch lo hi =
        (if ch = ucast (base ! nat p) then Inr (ucast (conv ! nat p))
         else if ch < ucast (base ! nat p) then bsearch base conv ch lo (p - 1)
         else bsearch base conv ch (p + 1) hi)"
      using True p same_length
      by (subst bsearch.simps) (simp add: rd_int_def rd_def Let_def flip: p_def)
    consider "ch = ucast (base ! nat p)" | "ch < ucast (base ! nat p)" | "ucast (base ! nat p) < ch"
      by (rule linorder_cases)
    then show ?thesis
    proof cases
      case 1
      with step p(4) show ?thesis
        by (auto simp: entry_def)
    next
      case 2
      have "\<exists>r. bsearch base conv ch lo (p - 1) = Inr r \<and> entry base conv ch r"
      proof (rule less.hyps)
        fix i assume i: "i < length base" "ch = ucast (base ! i)"
        with 2 p(4) have "i < nat p"
          by (simp add: base_less_iff)
        with less.prems(3) [OF i] show "lo \<le> int i \<and> int i \<le> p - 1"
          by simp
      qed (use p less.prems in auto)
      with 2 step show ?thesis
        by auto
    next
      case 3
      have "\<exists>r. bsearch base conv ch (p + 1) hi = Inr r \<and> entry base conv ch r"
      proof (rule less.hyps)
        fix i assume i: "i < length base" "ch = ucast (base ! i)"
        with 3 p(4) have "nat p < i"
          by (simp add: base_less_iff)
        with less.prems(3) [OF i] show "p + 1 \<le> int i \<and> int i \<le> hi"
          by simp
      qed (use p less.prems in auto)
      with 3 step show ?thesis
        by (auto dest: less_asym)
    qed
  qed
qed

lemma bsearch_entry:
  "\<exists>r. bsearch base conv ch 0 (int (length base) - 1) = Inr r \<and> entry base conv ch r"
  by (rule bsearch_entry_from) auto

end

lemma sorted_wrt_successively: "successively (<) (xs :: u16 list) \<Longrightarrow> sorted_wrt (<) xs"
  by (subst successively_conv_sorted_wrt [symmetric]) (auto intro!: transpI)

interpretation upper_table: sorted_table upperCaseBase lowerCaseConversion
proof
  show "sorted_wrt (<) upperCaseBase"
    by (rule sorted_wrt_successively) (simp add: upperCaseBase_def)
  show "length upperCaseBase = length lowerCaseConversion"
    by (simp add: upperCaseBase_def lowerCaseConversion_def)
qed

interpretation lower_table: sorted_table lowerCaseBase upperCaseConversion
proof
  show "sorted_wrt (<) lowerCaseBase"
    by (rule sorted_wrt_successively) (simp add: lowerCaseBase_def)
  show "length lowerCaseBase = length upperCaseConversion"
    by (simp add: lowerCaseBase_def upperCaseConversion_def)
qed

section \<open>Conversion is total and stays in the range of code points\<close>

lemma length_maps [simp]: "length tolower_map = 255" "length toupper_map = 255"
  by (simp_all add: tolower_map_def toupper_map_def)

lemma map_entry:
  assumes "ch < 0xFF" and "length m = 255"
  shows "rd m (unat (ch :: u32)) = Inr (m ! unat ch :: u8)"
  using assms by (simp add: rd_def word_less_nat_alt)

lemma entry_bound: "entry base conv ch r \<Longrightarrow> r = ch \<or> r < 0x10000"
proof -
  have "(ucast (t :: u16) :: u32) < 0x10000" for t
    using unsigned_less [of t] by (simp add: word_less_nat_alt)
  then show "entry base conv ch r \<Longrightarrow> r = ch \<or> r < 0x10000"
    by (auto simp: entry_def)
qed

lemma xor_bound: "ch < 0x100 \<Longrightarrow> (ucast (x :: u8) :: u32) XOR ch < 0x100"
proof -
  assume "ch < 0x100"
  then have "ch = take_bit 8 ch"
    using less_mask_eq [of ch 8] by (simp add: take_bit_eq_mask)
  moreover have "(ucast x :: u32) = take_bit 8 (ucast x)"
    by (rule bit_word_eqI) (auto simp: bit_simps dest: bit_imp_le_length)
  ultimately have eq: "(ucast x :: u32) XOR ch = take_bit 8 (ucast x XOR ch)"
    by (metis take_bit_xor)
  have "take_bit 8 w < 0x100" for w :: u32
    using take_bit_nat_less_exp [of 8 "unat w"] by (simp add: word_less_nat_alt unsigned_take_bit_eq)
  then show ?thesis
    by (subst eq)
qed

text \<open>What both functions return: the character itself or one below 0x10000, and one below 0x100
  for one below 0xFF.\<close>

definition converts :: "u32 \<Rightarrow> u32 res \<Rightarrow> bool" where
  "converts ch x \<longleftrightarrow> (\<exists>r. x = Inr r \<and> (ch < 0xFF \<longrightarrow> r < 0x100) \<and> (r = ch \<or> r < 0x10000))"

lemma converts_map:
  assumes "ch < 0xFF" and "length (m :: u8 list) = 255"
  shows "converts ch (bindE (rd m (unat ch)) (\<lambda>x. Inr (ucast x XOR ch)))"
proof -
  have "ch < 0x100"
    using assms(1) by (rule less_trans) simp
  then have "(ucast (m ! unat ch) :: u32) XOR ch < 0x100"
    by (rule xor_bound)
  moreover from this have "(ucast (m ! unat ch) :: u32) XOR ch < 0x10000"
    by (rule less_trans) simp
  ultimately show ?thesis
    by (simp add: map_entry [OF assms] converts_def)
qed

lemma converts_offset:
  assumes "\<not> ch < 0xFF" and "ch \<le> 0xFF5A" and "k \<le> 0x50"
  shows "converts ch (Inr (ch + k))" and "converts ch (Inr (ch - k))"
proof -
  have "ch + k < 0x10000" and "ch - k < 0x10000"
    using assms by unat_arith+
  with assms(1) show "converts ch (Inr (ch + k))" and "converts ch (Inr (ch - k))"
    by (simp_all add: converts_def)
qed

lemma converts_bsearch:
  assumes "\<not> ch < 0xFF" and "\<exists>r. x = Inr r \<and> entry base conv ch r"
  shows "converts ch x"
  using assms entry_bound unfolding converts_def by blast

text \<open>The branches of the two functions beyond the first only need an upper bound of their guard.\<close>

lemma converts_if:
  assumes "b \<Longrightarrow> ch \<le> 0xFF5A" and "k \<le> 0x50" and "\<not> ch < 0xFF" and "converts ch y"
  shows "converts ch (if b then Inr (ch + k) else y)" and "converts ch (if b then Inr (ch - k) else y)"
  using assms converts_offset [of ch k] by simp_all

lemma unicharToLower_converts: "converts ch (unicharToLower ch)"
proof (cases "ch < 0xFF")
  case True
  then show ?thesis
    by (simp add: unicharToLower_def converts_map)
next
  case False
  have "converts ch (bsearch upperCaseBase lowerCaseConversion ch 0 (int (length upperCaseBase) - 1))"
    using False upper_table.bsearch_entry by (rule converts_bsearch)
  with False show ?thesis
    unfolding unicharToLower_def if_not_P [OF False]
    by (intro converts_if) (auto simp: word_le_nat_alt)
qed

lemma unicharToUpper_converts: "converts ch (unicharToUpper ch)"
proof (cases "ch < 0xFF")
  case True
  then show ?thesis
    by (simp add: unicharToUpper_def converts_map)
next
  case False
  have "converts ch (bsearch lowerCaseBase upperCaseConversion ch 0 (int (length lowerCaseBase) - 1))"
    using False lower_table.bsearch_entry by (rule converts_bsearch)
  with False show ?thesis
    unfolding unicharToUpper_def if_not_P [OF False]
    by (intro converts_if) (auto simp: word_le_nat_alt)
qed

section \<open>The conversions as functions\<close>

definition to_lower :: "u32 \<Rightarrow> u32" where
  "to_lower ch = (case unicharToLower ch of Inr r \<Rightarrow> r | Inl _ \<Rightarrow> ch)"

definition to_upper :: "u32 \<Rightarrow> u32" where
  "to_upper ch = (case unicharToUpper ch of Inr r \<Rightarrow> r | Inl _ \<Rightarrow> ch)"

lemma unicharToLower_eq: "unicharToLower ch = Inr (to_lower ch)"
  using unicharToLower_converts [of ch] by (auto simp: to_lower_def converts_def)

lemma unicharToUpper_eq: "unicharToUpper ch = Inr (to_upper ch)"
  using unicharToUpper_converts [of ch] by (auto simp: to_upper_def converts_def)

lemma to_lower_bounds: "(ch < 0xFF \<longrightarrow> to_lower ch < 0x100) \<and> (to_lower ch = ch \<or> to_lower ch < 0x10000)"
  using unicharToLower_converts [of ch] by (auto simp: to_lower_def converts_def)

lemma to_upper_bounds: "(ch < 0xFF \<longrightarrow> to_upper ch < 0x100) \<and> (to_upper ch = ch \<or> to_upper ch < 0x10000)"
  using unicharToUpper_converts [of ch] by (auto simp: to_upper_def converts_def)

section \<open>Properties\<close>

text \<open>The binary searches of the case conversions end with an answer for every character, read
  both tables of a pair only inside their bounds, and answer with the entry of the character in
  the table, or with the character itself when it has none.\<close>

theorem case_search_correct:
  "(\<exists>r. bsearch upperCaseBase lowerCaseConversion ch 0 (int (length upperCaseBase) - 1) = Inr r
      \<and> entry upperCaseBase lowerCaseConversion ch r)
   \<and> (\<exists>r. bsearch lowerCaseBase upperCaseConversion ch 0 (int (length lowerCaseBase) - 1) = Inr r
      \<and> entry lowerCaseBase upperCaseConversion ch r)"
  using upper_table.bsearch_entry lower_table.bsearch_entry by blast

end
