(* ===== verification/TinyText.thy ===== *)
theory TinyText
  imports TinyIndex CaseTables
begin

text \<open>
  The text operations of \<open>src/src/tiny_string.cpp\<close>: case conversion and comparison without case,
  \<open>split\<close>, \<open>getLine\<close>, quoting, trimming and the white space handling of HTML text.
\<close>

section \<open>Case\<close>

text \<open>
  The loop of \<open>lowercase\<close> and \<open>uppercase\<close>: each character is written at \<open>p\<close>, within \<open>cap\<close> bytes. The size of the
  buffer is computed with \<open>uint32_t\<close>, which wraps around.
\<close>

definition case_body ::
  "(u32 \<Rightarrow> u32 res) \<Rightarrow> u8 list \<Rightarrow> nat \<Rightarrow> nat \<Rightarrow> u8 list \<Rightarrow> (unit, u8 list) loop res" where
  "case_body conv buf cap p out = bindE (getChar buf p) (\<lambda>c. bindE (conv c) (\<lambda>d.
     if length out + length (utf8_enc d) \<le> cap then Inr (Continue (out @ utf8_enc d))
     else Inl OutOfBounds))"

definition convert_case :: "(u32 \<Rightarrow> u32 res) \<Rightarrow> tiny_string \<Rightarrow> tiny_string res" where
  "convert_case conv s =
     (let allocated = unat (2 * of_nat (numBytes s) + 7 :: u32);
          ret = createBuffer allocated ts_new
      in bindE (char_loop (raw_buf s) (numBytes s) (case_body conv (raw_buf s) allocated) 0 []) (\<lambda>r.
           case r of Return () \<Rightarrow> Inr ret
           | Continue out \<Rightarrow> bindE (store out ret) (\<lambda>ret. Inr (ts_init ret))))"

definition lowercase :: "tiny_string \<Rightarrow> tiny_string res" where
  "lowercase = convert_case unicharToLower"

definition uppercase :: "tiny_string \<Rightarrow> tiny_string res" where
  "uppercase = convert_case unicharToUpper"

text \<open>The library's \<open>strcasecmp\<close> on the bytes up to the first NUL; only the sign counts.\<close>

definition tolower_ascii :: "u8 \<Rightarrow> u8" where
  "tolower_ascii b = (if 0x41 \<le> b \<and> b \<le> 0x5A then b + 0x20 else b)"

fun strcasecmp_bytes :: "u8 list \<Rightarrow> u8 list \<Rightarrow> int" where
  "strcasecmp_bytes [] [] = 0"
| "strcasecmp_bytes [] (y # ys) = - 1"
| "strcasecmp_bytes (x # xs) [] = 1"
| "strcasecmp_bytes (x # xs) (y # ys) =
     (if tolower_ascii x = tolower_ascii y then strcasecmp_bytes xs ys
      else uint (tolower_ascii x) - uint (tolower_ascii y))"

function strcasecmp_loop :: "tiny_string \<Rightarrow> tiny_string \<Rightarrow> nat \<Rightarrow> nat \<Rightarrow> int res" where
  "strcasecmp_loop s r p q =
     (if p \<noteq> numBytes s \<and> q \<noteq> numBytes r then
        bindE (getChar (raw_buf s) p) (\<lambda>c. bindE (unicharToLower c) (\<lambda>c1.
        bindE (getChar (raw_buf r) q) (\<lambda>d. bindE (unicharToLower d) (\<lambda>c2.
          if c1 < c2 then Inr (- 1)
          else if c2 < c1 then Inr 1
          else bindE (inc_ptr (raw_buf s) p) (\<lambda>p'. bindE (inc_ptr (raw_buf r) q) (\<lambda>q'.
            strcasecmp_loop s r p' q'))))))
      else Inr (int (stringSize s) - int (stringSize r)))"
  by pat_completeness auto
termination
  by (relation "measure (\<lambda>(s, r, p, q). length (raw_buf s) - p)")
    (auto simp: inc_ptr_def rd_def char_width_def split: if_splits)

declare strcasecmp_loop.simps [simp del]

definition ts_strcasecmp :: "tiny_string \<Rightarrow> tiny_string \<Rightarrow> int res" where
  "ts_strcasecmp s r =
     (if ts_isASCII s \<and> ts_isASCII r
      then Inr (strcasecmp_bytes (cstr (raw_buf s)) (cstr (raw_buf r)))
      else strcasecmp_loop s r 0 0)"

text \<open>The comparison of the characters \<open>i, i + 1, \<dots>\<close>; the second argument counts those left.\<close>

fun caseless_loop :: "tiny_string \<Rightarrow> tiny_string \<Rightarrow> nat \<Rightarrow> nat \<Rightarrow> bool res" where
  "caseless_loop s r i 0 = Inr True"
| "caseless_loop s r i (Suc n) =
     bindE (charAt s (of_nat i)) (\<lambda>c. bindE (unicharToLower c) (\<lambda>c1.
     bindE (charAt r (of_nat i)) (\<lambda>d. bindE (unicharToLower d) (\<lambda>c2.
       if c1 \<noteq> c2 then Inr False else caseless_loop s r (Suc i) n))))"

definition caselessEquals :: "tiny_string \<Rightarrow> tiny_string \<Rightarrow> bool res" where
  "caselessEquals s r =
     (if numChars s \<noteq> numChars r then Inr False else caseless_loop s r 0 (numChars s))"

definition equalsWithCase :: "tiny_string \<Rightarrow> tiny_string \<Rightarrow> bool \<Rightarrow> bool res" where
  "equalsWithCase s r caseSensitive = (if caseSensitive then ts_eq s r else caselessEquals s r)"

definition ts_strcmp :: "tiny_string \<Rightarrow> tiny_string \<Rightarrow> int res" where
  "ts_strcmp s r = memcmp (raw_buf s) (raw_buf r) (min (stringSize s) (stringSize r))"

section \<open>Splitting\<close>

text \<open>
  \<open>split\<close> advances past each delimiter found, so \<open>numChars + 1\<close> rounds are enough.
\<close>

fun split_loop :: "nat \<Rightarrow> tiny_string \<Rightarrow> tiny_string \<Rightarrow> u32 \<Rightarrow> tiny_string list \<Rightarrow> tiny_string list res"
where
  "split_loop 0 s delim pos res = Inl OutOfFuel"
| "split_loop (Suc fuel) s delim pos res =
     (if unat pos < numChars s then
        bindE (ts_find s delim pos) (\<lambda>found. case found of
          None \<Rightarrow> bindE (substr s pos (of_nat (numChars s) - pos)) (\<lambda>t. Inr (res @ [t]))
        | Some e \<Rightarrow> bindE (substr s pos (of_nat e - pos)) (\<lambda>t.
            split_loop fuel s delim (of_nat e + 1) (res @ [t])))
      else Inr res)"

definition split :: "tiny_string \<Rightarrow> u32 \<Rightarrow> tiny_string list res" where
  "split s delimiter = bindE (fromChar delimiter) (\<lambda>delim.
     split_loop (numChars s + 1) s delim 0 [])"

section \<open>Lines\<close>

text \<open>
  \<open>getLine\<close>: \<open>gl_line\<close> is the caller's \<open>line\<close>, whose count and flags the scan updates in place.
\<close>

record getline_state =
  gl_line :: tiny_string
  gl_byteindex :: u32
  gl_endindex :: u32
  gl_utfpos :: u8
  gl_res :: bool

definition getline_class :: "tiny_string \<Rightarrow> getline_state \<Rightarrow> u8 \<Rightarrow> getline_state" where
  "getline_class s a b =
     (let line = gl_line a; i = gl_byteindex a
      in if b = 0x00 then a\<lparr>gl_line := line\<lparr>ts_hasNull := True, ts_isInteger := False\<rparr>\<rparr>
         else if b = 0x0A \<or> b = 0x0D then a\<lparr>gl_res := True, gl_endindex := i\<rparr>
         else if isdigit_byte b then a
         else if b = 0xe2 then
           (let a1 = a\<lparr>gl_line := line\<lparr>ts_isInteger := False\<rparr>\<rparr>
            in if i < of_nat (stringSize s) - 3
                 \<and> raw_buf s ! (unat i + 1) = 0x80
                 \<and> (raw_buf s ! (unat i + 2) = 0xa8 \<or> raw_buf s ! (unat i + 2) = 0xa9)
               then a1\<lparr>gl_endindex := i, gl_byteindex := i + 2, gl_res := True\<rparr>
               else a1)
         else a\<lparr>gl_line := line\<lparr>ts_isInteger := False\<rparr>\<rparr>)"

definition getline_count :: "getline_state \<Rightarrow> u8 \<Rightarrow> getline_state" where
  "getline_count a b =
     (let line = gl_line a
      in if b AND 0x80 \<noteq> 0 then
           (let u = shl1 (if gl_utfpos a = 0 then b else gl_utfpos a);
                done = (u AND 0x80 = 0)
            in a\<lparr>gl_utfpos := (if done then 0 else u),
                 gl_line := line\<lparr>ts_numchars := (if done then ts_numchars line + 1 else ts_numchars line),
                   ts_isASCII := False, ts_isInteger := False\<rparr>\<rparr>)
         else a\<lparr>gl_line := line\<lparr>ts_numchars := ts_numchars line + 1\<rparr>\<rparr>)"

fun getline_loop :: "nat \<Rightarrow> tiny_string \<Rightarrow> getline_state \<Rightarrow> getline_state res" where
  "getline_loop 0 s a = Inl OutOfFuel"
| "getline_loop (Suc fuel) s a =
     (if \<not> gl_res a \<and> unat (gl_byteindex a) < stringSize s - 1 then
        bindE (rd (raw_buf s) (unat (gl_byteindex a))) (\<lambda>b.
          let a1 = getline_class s a b;
              a2 = (if \<not> gl_res a1 then getline_count a1 b else a1)
          in getline_loop fuel s (a2\<lparr>gl_byteindex := gl_byteindex a2 + 1\<rparr>))
      else Inr a)"

definition getLine :: "tiny_string \<Rightarrow> u32 \<Rightarrow> tiny_string \<Rightarrow> (bool \<times> u32 \<times> tiny_string) res" where
  "getLine s byteindex line =
     (let startindex = byteindex;
          size = (of_nat (stringSize s) :: u32);
          e0 = size - byteindex - 1;
          endindex = (if e0 < startindex then size - 1 else e0)
      in bindE (getline_loop (stringSize s) s
           \<lparr>gl_line = line\<lparr>ts_isASCII := True, ts_isInteger := True\<rparr>, gl_byteindex = byteindex,
            gl_endindex = endindex, gl_utfpos = 0, gl_res = False\<rparr>) (\<lambda>a.
         let newsize = unat (gl_endindex a - startindex + 1);
             l0 = (if ts_type (gl_line a) = READONLY then resetToStatic (gl_line a) else gl_line a)
         in bindE (if ts_type l0 = STATIC \<and> STATIC_SIZE < newsize then Inr (createBuffer newsize l0)
                   else if ts_type l0 = DYNAMIC \<and> stringSize l0 < newsize then resizeBuffer newsize l0
                   else Inr l0) (\<lambda>l1.
            bindE (mem_read (unat startindex) (newsize - 1) (raw_buf s)) (\<lambda>xs.
            bindE (store xs l1) (\<lambda>l2.
              Inr (gl_res a,
                   if stringSize s - 1 \<le> unat (gl_byteindex a) then npos else gl_byteindex a,
                   l2))))))"

section \<open>Quoting\<close>

definition hex_digit :: "nat \<Rightarrow> u8" where
  "hex_digit n = (if n < 10 then of_nat (0x30 + n) else of_nat (0x57 + n))"

text \<open>\<open>sprintf\<close> with \<open>"\u%04x"\<close>: at least four digits, more when the value needs them.\<close>

fun hex_digits :: "nat \<Rightarrow> u8 list" where
  "hex_digits n = (if n < 16 then [hex_digit n] else hex_digits (n div 16) @ [hex_digit (n mod 16)])"

declare hex_digits.simps [simp del]

definition sprintf_u04x :: "u32 \<Rightarrow> u8 list" where
  "sprintf_u04x c =
     (let ds = hex_digits (unat c) in [0x5c, 0x75] @ replicate (4 - length ds) 0x30 @ ds)"

definition quote_char :: "u32 \<Rightarrow> tiny_string \<Rightarrow> tiny_string res" where
  "quote_char c t =
     (if c = 0x08 then append_cstr [0x5c, 0x62] t
      else if c = 0x0C then append_cstr [0x5c, 0x66] t
      else if c = 0x0A then append_cstr [0x5c, 0x6e] t
      else if c = 0x0D then append_cstr [0x5c, 0x72] t
      else if c = 0x09 then append_cstr [0x5c, 0x74] t
      else if c = 0x22 then append_cstr [0x5c, 0x22] t
      else if c = 0x5c then append_cstr [0x5c, 0x5c] t
      else if c < 0x20 \<or> 0xff < c then
        (if length (sprintf_u04x c) + 1 \<le> 7 then append_cstr (sprintf_u04x c) t
         else Inl OutOfBounds)
      else append_char c t)"

definition toQuotedString :: "tiny_string \<Rightarrow> tiny_string res" where
  "toQuotedString s = bindE (from_cstr [0x22] False) (\<lambda>res.
     bindE (char_loop (raw_buf s) (numBytes s)
        (\<lambda>p t. bindE (getChar (raw_buf s) p) (\<lambda>c. bindE (quote_char c t) (\<lambda>t'. Inr (Continue t')))) 0 res)
     (\<lambda>r. case r of Continue t \<Rightarrow> append_cstr [0x22] t | Return () \<Rightarrow> Inr res))"

section \<open>Trimming\<close>

definition isspace_byte :: "u8 \<Rightarrow> bool" where
  "isspace_byte b \<longleftrightarrow> b = 0x20 \<or> 0x09 \<le> b \<and> b \<le> 0x0D"

text \<open>The loops of \<open>getTrimPositions\<close>: forward over white space, then back from the end.\<close>

function trim_ascii :: "tiny_string \<Rightarrow> nat \<Rightarrow> nat res" where
  "trim_ascii s start =
     (if start < stringSize s then
        bindE (rd (raw_buf s) start) (\<lambda>c.
          if \<not> isspace_byte c then Inr start else trim_ascii s (start + 1))
      else Inr start)"
  by pat_completeness auto
termination
  by (relation "measure (\<lambda>(s, start). stringSize s - start)") auto

function trim_utf8 :: "tiny_string \<Rightarrow> nat \<Rightarrow> nat res" where
  "trim_utf8 s start =
     (if start < stringSize s then
        bindE (getChar (raw_buf s) start) (\<lambda>c.
          if \<not> unicodeIsWhiteSpace c then Inr start
          else bindE (inc_ptr (raw_buf s) start) (\<lambda>p. trim_utf8 s p))
      else Inr start)"
  by pat_completeness auto
termination
  by (relation "measure (\<lambda>(s, start). stringSize s - start)")
    (auto simp: inc_ptr_def rd_def char_width_def split: if_splits)

lemma dec_ptr_less: "dec_ptr buf p = Inr q \<Longrightarrow> q < p"
  by (induction buf p rule: dec_ptr.induct) (fastforce simp: bindE_Inr_conv split: if_splits)+

function trim_end :: "tiny_string \<Rightarrow> nat \<Rightarrow> nat \<Rightarrow> nat res" where
  "trim_end s start e =
     (if start < e then
        bindE (rd (raw_buf s) (e - 1)) (\<lambda>c.
          if c AND 0x80 \<noteq> 0 then
            bindE (dec_ptr (raw_buf s) e) (\<lambda>e'. bindE (getChar (raw_buf s) (e' + 1)) (\<lambda>ch.
              if \<not> unicodeIsWhiteSpace ch then Inr e' else trim_end s start e'))
          else if \<not> isspace_byte c then Inr e
          else trim_end s start (e - 1))
      else Inr e)"
  by pat_completeness auto
termination
  by (relation "measure (\<lambda>(s, start, e). e)") (auto dest: dec_ptr_less)

declare trim_ascii.simps [simp del] trim_utf8.simps [simp del] trim_end.simps [simp del]

definition getTrimPositions :: "tiny_string \<Rightarrow> (nat \<times> nat) res" where
  "getTrimPositions s =
     (if ts_empty s then Inr (0, stringSize s - 1)
      else bindE (if ts_isASCII s then trim_ascii s 0 else trim_utf8 s 0) (\<lambda>start.
           bindE (trim_end s start (stringSize s - 1)) (\<lambda>e. Inr (start, e))))"

definition removeWhitespace :: "tiny_string \<Rightarrow> tiny_string res" where
  "removeWhitespace s = bindE (getTrimPositions s) (\<lambda>(start, e).
     substr_bytes s (of_nat start) (of_nat e - of_nat start) False)"

definition trimLeft :: "tiny_string \<Rightarrow> tiny_string res" where
  "trimLeft s = bindE (getTrimPositions s) (\<lambda>(start, e). substr_bytes s (of_nat start) (- 1) False)"

definition isWhiteSpaceOnly :: "tiny_string \<Rightarrow> bool res" where
  "isWhiteSpaceOnly s = bindE (getTrimPositions s) (\<lambda>(start, e). Inr (start = e))"

fun trim_char_loop :: "tiny_string \<Rightarrow> u32 \<Rightarrow> nat \<Rightarrow> nat \<Rightarrow> nat res" where
  "trim_char_loop s ch i 0 = Inr i"
| "trim_char_loop s ch i (Suc n) = bindE (charAt s (of_nat i)) (\<lambda>c.
     if c = ch then trim_char_loop s ch (Suc i) n else Inr i)"

definition trimStartMatches_char :: "tiny_string \<Rightarrow> u32 \<Rightarrow> tiny_string res" where
  "trimStartMatches_char s ch = bindE (trim_char_loop s ch 0 (numChars s)) (\<lambda>i.
     substr s (of_nat i) (- 1))"

text \<open>The overload for a string makes no progress for an empty one; the rounds are bounded.\<close>

fun trim_string_loop :: "nat \<Rightarrow> tiny_string \<Rightarrow> tiny_string \<Rightarrow> nat \<Rightarrow> nat res" where
  "trim_string_loop 0 s str i = Inl OutOfFuel"
| "trim_string_loop (Suc fuel) s str i =
     (if i < numChars s then bindE (ts_find s str (of_nat i)) (\<lambda>r.
        if r = Some i then trim_string_loop fuel s str (i + numChars str) else Inr i)
      else Inr i)"

definition trimStartMatches :: "tiny_string \<Rightarrow> tiny_string \<Rightarrow> tiny_string res" where
  "trimStartMatches s str = bindE (trim_string_loop (numChars s + 1) s str 0) (\<lambda>i.
     substr s (of_nat i) (- 1))"

section \<open>HTML text\<close>

definition html_space :: "u32 \<Rightarrow> bool" where
  "html_space c \<longleftrightarrow> c = 0x20 \<or> c = 0x0A \<or> c = 0x09 \<or> c = 0x0D"

text \<open>The state of the loop: the compacted text, \<open>previousWasSpace\<close> and \<open>*hasNewline\<close>.\<close>

definition compact_char ::
  "u32 \<Rightarrow> tiny_string \<times> bool \<times> bool \<Rightarrow> (tiny_string \<times> bool \<times> bool) res" where
  "compact_char c = (\<lambda>(t, prev, nl).
     if html_space c then
       bindE (if prev then Inr t else append_char 0x20 t) (\<lambda>t'.
         Inr (t', True, nl \<or> c = 0x0A \<or> c = 0x0D))
     else bindE (append_char c t) (\<lambda>t'. Inr (t', False, nl)))"

definition compactHTMLWhiteSpace :: "tiny_string \<Rightarrow> bool \<Rightarrow> bool \<Rightarrow> (tiny_string \<times> bool) res" where
  "compactHTMLWhiteSpace s trimleft hasNewline =
     bindE (char_loop (raw_buf s) (numBytes s)
        (\<lambda>p a. bindE (getChar (raw_buf s) p) (\<lambda>c. bindE (compact_char c a) (\<lambda>a'. Inr (Continue a'))))
        0 (ts_new, trimleft, hasNewline))
     (\<lambda>r. case r of Continue (t, _, nl) \<Rightarrow> Inr (t, nl) | Return () \<Rightarrow> Inr (ts_new, hasNewline))"

definition endsWithHTMLWhitespace :: "tiny_string \<Rightarrow> bool res" where
  "endsWithHTMLWhitespace s =
     (if ts_empty s then Inr False
      else bindE (rd (raw_buf s) (numBytes s - 1)) (\<lambda>ch. Inr (html_space (cc ch))))"

definition encodeNull :: "tiny_string \<Rightarrow> tiny_string res" where
  "encodeNull s =
     (if \<not> ts_hasNull s then ts_copy s
      else bindE (char_loop (raw_buf s) (numBytes s)
        (\<lambda>p t. bindE (getChar (raw_buf s) p) (\<lambda>c.
           bindE (if c = 0 then append_cstr [0x26, 0x23, 0x78, 0x30, 0x3b] t else append_char c t)
             (\<lambda>t'. Inr (Continue t')))) 0 ts_new)
        (\<lambda>r. case r of Continue t \<Rightarrow> Inr t | Return () \<Rightarrow> Inr ts_new))"

section \<open>Validity and hashing\<close>

definition checkValidUTF :: "tiny_string \<Rightarrow> tiny_string res" where
  "checkValidUTF s =
     (if ts_isASCII s then Inr s
      else bindE (char_loop (raw_buf s) (numBytes s)
        (\<lambda>p _. bindE (isValidUTF8 (raw_buf s) p) (\<lambda>ok.
           Inr (if ok then Continue True else Return False))) 0 True)
        (\<lambda>r. Inr (if r = Return False then s\<lparr>ts_isASCII := True, ts_numchars := stringSize s - 1\<rparr>
                  else s)))"

text \<open>\<open>std::hash\<close>: the loop reads \<open>buf[1]\<close> up to the terminator, as signed characters.\<close>

definition hash_step :: "u64 \<Rightarrow> u8 \<Rightarrow> u64" where
  "hash_step h b = (push_bit 5 h + h) + scast b"

definition ts_hash :: "tiny_string \<Rightarrow> u64" where
  "ts_hash s = foldl hash_step 5381 (take (stringSize s - 1) (tl (raw_buf s)))"


section \<open>Case conversion\<close>

lemma convert_case_loop:
  assumes "\<And>c. conv c = Inr (f c)"
    and "\<And>c. length (utf8_enc (f c)) \<le> 2 * length (utf8_enc c)"
    and "length out + 2 * length (utf8s cs) \<le> cap"
  shows "foldE (\<lambda>c out. bindE (conv c) (\<lambda>d.
      if length out + length (utf8_enc d) \<le> cap then Inr (out @ utf8_enc d) else Inl OutOfBounds)) out cs
    = Inr (out @ utf8s (map f cs))"
  using assms(3)
proof (induction cs arbitrary: out)
  case (Cons c cs)
  then show ?case
    using assms(2) [of c] by (simp add: assms(1))
qed simp

lemma length_utf8s_map:
  assumes "\<And>c. length (utf8_enc (f c)) \<le> 2 * length (utf8_enc c)"
  shows "length (utf8s (map f cs)) \<le> 2 * length (utf8s cs)"
proof (induction cs)
  case (Cons c cs)
  with assms [of c] show ?case
    by simp
qed simp

lemma convert_case_repr:
  assumes "ts_repr s cs" and "\<And>c. conv c = Inr (f c)" and "\<And>c. valid_cp c \<Longrightarrow> valid_cp (f c)"
    and "\<And>c. length (utf8_enc (f c)) \<le> 2 * length (utf8_enc c)" and "numBytes s \<le> 2147483644"
  shows "\<exists>t. convert_case conv s = Inr t \<and> ts_repr t (map f cs)"
proof -
  have v: "valid_cps cs" "ts_bytes s = utf8s cs"
    using assms(1) by (simp_all add: ts_repr_def)
  have "unat (2 * of_nat (numBytes s) + 7 :: u32) = unat (of_nat (2 * numBytes s + 7) :: u32)"
    by simp
  then have w: "unat (2 * of_nat (numBytes s) + 7 :: u32) = 2 * numBytes s + 7"
    using assms(5) by (subst (asm) of_nat_inverse [OF refl]) simp_all
  define cap where "cap = 2 * numBytes s + 7"
  have "char_loop (raw_buf s) (numBytes s) (case_body conv (raw_buf s) cap) 0 []
      = bindE (foldE (\<lambda>c out. bindE (conv c) (\<lambda>d.
          if length out + length (utf8_enc d) \<le> cap then Inr (out @ utf8_enc d) else Inl OutOfBounds)) [] cs)
        (\<lambda>out. Inr (Continue out))"
    unfolding raw_buf_repr [OF assms(1)] numBytes_eq v(2)
    by (rule char_loop_foldE [OF v(1)])
      (auto simp: case_body_def assms(2) bindE_assoc intro!: bindE_cong)
  also have "\<dots> = Inr (Continue (utf8s (map f cs)))"
    by (subst convert_case_loop [of conv f, OF assms(2,4)]) (simp_all add: cap_def v(2))
  finally have loop: "char_loop (raw_buf s) (numBytes s) (case_body conv (raw_buf s) cap) 0 []
    = Inr (Continue (utf8s (map f cs)))" .
  have fits: "length (utf8s (map f cs)) + 1 \<le> cap"
    using length_utf8s_map [of f cs, OF assms(4)] by (simp add: cap_def v(2))
  have "valid_cps (map f cs)"
    using v(1) assms(3) by (auto simp: valid_cps_def)
  then have "ts_repr (ts_init ((createBuffer cap ts_new)\<lparr>ts_bytes := utf8s (map f cs)\<rparr>)) (map f cs)"
    using fits by (intro ts_repr_init) (auto simp: buf_ok_def createBuffer_def stringSize_def)
  then show ?thesis
    unfolding convert_case_def Let_def w cap_def [symmetric] loop
    using fits by (simp add: store_def createBuffer_def)
qed

lemma utf8_enc_case_length:
  assumes "(c < 0xFF \<longrightarrow> d < 0x100) \<and> (d = c \<or> d < 0x10000)"
  shows "length (utf8_enc d) \<le> 2 * length (utf8_enc c)"
proof (cases "c < 0x80")
  case True
  then have "c < 0xFF"
    by (rule less_trans) simp
  with assms have "d < 0x800"
    by (auto intro: less_trans)
  then show ?thesis
    by (auto simp: utf8_enc_def)
next
  case False
  then show ?thesis
    using length_utf8_enc [of d] by (auto simp: utf8_enc_def)
qed

lemma valid_cp_case:
  assumes "(c < 0xFF \<longrightarrow> d < 0x100) \<and> (d = c \<or> d < 0x10000)" and "valid_cp c"
  shows "valid_cp d"
  using assms by (auto simp: valid_cp_def intro: less_trans)

lemma lowercase_repr:
  assumes "ts_repr s cs" and "numBytes s \<le> 2147483644"
  shows "\<exists>t. lowercase s = Inr t \<and> ts_repr t (map to_lower cs)"
  unfolding lowercase_def
  using assms(1) unicharToLower_eq valid_cp_case [OF to_lower_bounds] utf8_enc_case_length [OF to_lower_bounds] assms(2)
  by (rule convert_case_repr)

lemma uppercase_repr:
  assumes "ts_repr s cs" and "numBytes s \<le> 2147483644"
  shows "\<exists>t. uppercase s = Inr t \<and> ts_repr t (map to_upper cs)"
  unfolding uppercase_def
  using assms(1) unicharToUpper_eq valid_cp_case [OF to_upper_bounds] utf8_enc_case_length [OF to_upper_bounds] assms(2)
  by (rule convert_case_repr)

lemma caseless_loop_repr:
  assumes "ts_repr s cs" and "ts_repr r ds" and "length cs = length ds" and "stringSize s < 2 ^ 32"
    and "i + n = length cs"
  shows "caseless_loop s r i n = Inr (map to_lower (drop i cs) = map to_lower (drop i ds))"
  using assms(5)
proof (induction n arbitrary: i)
  case (Suc n)
  then have i: "i < length cs" "i < length ds"
    using assms(3) by auto
  then have "unat (of_nat i :: u32) = i"
    using repr_sizes(1) [OF assms(1,4)] by (intro of_nat_inverse) simp_all
  then have "charAt s (of_nat i) = Inr (cs ! i)" "charAt r (of_nat i) = Inr (ds ! i)"
    using charAt_repr [OF assms(1), of "of_nat i"] charAt_repr [OF assms(2), of "of_nat i"] i by simp_all
  with Suc i show ?case
    using Cons_nth_drop_Suc [OF i(1), symmetric] Cons_nth_drop_Suc [OF i(2), symmetric]
    by (simp add: unicharToLower_eq)
qed (use assms(3) in simp)

lemma caselessEquals_repr:
  assumes "ts_repr s cs" and "ts_repr r ds" and "stringSize s < 2 ^ 32"
  shows "caselessEquals s r = Inr (map to_lower cs = map to_lower ds)"
proof -
  have n: "numChars s = length cs" "numChars r = length ds"
    using assms(1,2) by (simp_all add: ts_repr_def numChars_def)
  show ?thesis
  proof (cases "length cs = length ds")
    case True
    with caseless_loop_repr [OF assms(1,2) True assms(3), of 0 "length cs"] show ?thesis
      by (simp add: caselessEquals_def n)
  next
    case False
    then have "map to_lower cs \<noteq> map to_lower ds"
      by (metis length_map)
    with False show ?thesis
      by (simp add: caselessEquals_def n)
  qed
qed


section \<open>Splitting at a delimiter\<close>

text \<open>What \<open>split\<close> returns: the pieces between the delimiters, without an empty last one.\<close>

function split_spec :: "'a \<Rightarrow> 'a list \<Rightarrow> 'a list list" where
  "split_spec d cs =
     (if cs = [] then []
      else takeWhile (\<lambda>c. c \<noteq> d) cs #
        (case dropWhile (\<lambda>c. c \<noteq> d) cs of [] \<Rightarrow> [] | _ # rest \<Rightarrow> split_spec d rest))"
  by pat_completeness auto
termination
proof (relation "measure (length \<circ> snd)")
  fix d :: 'a and cs x rest
  assume "dropWhile (\<lambda>c. c \<noteq> d) cs = x # rest"
  then have "length rest < length (dropWhile (\<lambda>c. c \<noteq> d) cs)"
    by simp
  also have "\<dots> \<le> length cs"
    by (rule length_dropWhile_le)
  finally show "((d, rest), (d, cs)) \<in> measure (length \<circ> snd)"
    by simp
qed simp

declare split_spec.simps [simp del]

lemma search_single:
  "search [d] cs i = (if d \<in> set cs then Some (i + length (takeWhile (\<lambda>c. c \<noteq> d) cs)) else None)"
  by (induction cs arbitrary: i) auto

lemma split_loop_repr:
  assumes "ts_repr s cs" and "ts_repr delim [d]" and "d \<noteq> 0" and "stringSize s < 2 ^ 32"
    and fits: "ts_isASCII s \<and> \<not> ts_hasNull s \<or> needle_fits [d] cs"
    and "list_all2 ts_repr res done" and "unat pos \<le> length cs" and "length cs - unat pos < fuel"
  shows "\<exists>ts. split_loop fuel s delim pos res = Inr ts
    \<and> list_all2 ts_repr ts (done @ split_spec d (drop (unat pos) cs))"
  using assms(6-8)
proof (induction fuel arbitrary: pos res "done")
  case (Suc fuel)
  let ?rest = "drop (unat pos) cs"
  have n: "numChars s = length cs"
    using assms(1) by (simp add: ts_repr_def numChars_def)
  have len: "length cs < 2 ^ 32 - 1"
    by (rule repr_sizes(1) [OF assms(1,4)])
  have word: "unat (of_nat k :: u32) = k" if "k \<le> length cs" for k
    using that len by (intro of_nat_inverse) simp_all
  show ?case
  proof (cases "unat pos < length cs")
    case False
    with Suc.prems show ?thesis
      by (simp add: n split_spec.simps)
  next
    case True
    then have found: "ts_find s delim pos = Inr (search [d] ?rest (unat pos))"
      using assms by (intro ts_find_search) auto
    define w where "w = takeWhile (\<lambda>c. c \<noteq> d) ?rest"
    have unfold: "split_spec d ?rest = w # (case dropWhile (\<lambda>c. c \<noteq> d) ?rest of
        [] \<Rightarrow> [] | _ # rest \<Rightarrow> split_spec d rest)"
      using True by (subst split_spec.simps) (simp add: w_def)
    show ?thesis
    proof (cases "d \<in> set ?rest")
      case False
      then have w: "w = ?rest" "dropWhile (\<lambda>c. c \<noteq> d) ?rest = []"
        unfolding w_def by (auto simp: takeWhile_eq_all_conv dropWhile_eq_Nil_conv)
      have "unat (of_nat (length cs) - pos) = length cs - unat pos"
        using word [of "length cs"] True by (simp add: unat_sub word_le_nat_alt)
      then obtain t where "substr s pos (of_nat (length cs) - pos) = Inr t" "ts_repr t ?rest"
        using substr_repr [OF assms(1) _ assms(4), of pos "of_nat (length cs) - pos"] True by auto
      moreover have "split_spec d ?rest = [?rest]"
        unfolding unfold w by simp
      ultimately show ?thesis
        using True False Suc.prems(1) by (auto simp: n found search_single intro!: list_all2_appendI)
    next
      case True': True
      define e where "e = unat pos + length w"
      have "length w < length ?rest"
      proof -
        have "dropWhile (\<lambda>c. c \<noteq> d) ?rest \<noteq> []"
          using True' by (simp add: dropWhile_eq_Nil_conv)
        moreover have "?rest = w @ dropWhile (\<lambda>c. c \<noteq> d) ?rest"
          by (simp add: w_def)
        ultimately show ?thesis
          by (metis length_append length_greater_0_conv less_add_same_cancel1)
      qed
      then have e: "e < length cs"
        by (simp add: e_def)
      have "unat (of_nat e - pos) = length w"
        using word [of "length w"] e by (simp add: e_def)
      moreover have "take (length w) ?rest = w"
        unfolding w_def by (metis takeWhile_eq_take)
      ultimately obtain t where t: "substr s pos (of_nat e - pos) = Inr t" "ts_repr t w"
        using substr_repr [OF assms(1) _ assms(4), of pos "of_nat e - pos"] True by auto
      have "unat (of_nat (e + 1) :: u32) = e + 1"
        using e by (intro word) simp
      then have e1: "unat (of_nat e + 1 :: u32) = e + 1"
        by (simp only: of_nat_add of_nat_1)
      have "dropWhile (\<lambda>c. c \<noteq> d) ?rest = drop e cs"
        by (simp add: dropWhile_eq_drop w_def e_def add.commute)
      also have "\<dots> = cs ! e # drop (e + 1) cs"
        using e by (simp add: Cons_nth_drop_Suc)
      finally have spec: "split_spec d ?rest = w # split_spec d (drop (unat (of_nat e + 1 :: u32)) cs)"
        unfolding unfold e1 by simp
      have "\<exists>ts. split_loop fuel s delim (of_nat e + 1) (res @ [t]) = Inr ts
        \<and> list_all2 ts_repr ts ((done @ [w]) @ split_spec d (drop (unat (of_nat e + 1 :: u32)) cs))"
      proof (rule Suc.IH)
        show "list_all2 ts_repr (res @ [t]) (done @ [w])"
          using Suc.prems(1) t(2) by (intro list_all2_appendI) simp_all
        show "unat (of_nat e + 1 :: u32) \<le> length cs"
          unfolding e1 using e by simp
        show "length cs - unat (of_nat e + 1 :: u32) < fuel"
          unfolding e1 using Suc.prems(3) e by (simp add: e_def)
      qed
      with True True' t(1) spec show ?thesis
        by (simp add: n found search_single w_def [symmetric] e_def [symmetric])
    qed
  qed
qed simp

lemma split_repr:
  assumes "ts_repr s cs" and "valid_cp d" and "d \<noteq> 0" and "stringSize s < 2 ^ 32"
    and "ts_isASCII s \<and> \<not> ts_hasNull s \<or> needle_fits [d] cs"
  shows "\<exists>ts. split s d = Inr ts \<and> list_all2 ts_repr ts (split_spec d cs)"
proof -
  obtain delim where "fromChar d = Inr delim" "ts_repr delim [d]"
    using fromChar_repr [OF assms(2)] by blast
  moreover have "numChars s = length cs"
    using assms(1) by (simp add: ts_repr_def numChars_def)
  ultimately show ?thesis
    using split_loop_repr [OF assms(1) _ assms(3-5), of delim "[]" "[]" 0 "length cs + 1"]
    by (simp add: split_def)
qed

section \<open>Trimming a matched start\<close>

lemma trim_char_loop_repr:
  assumes "ts_repr s cs" and "stringSize s < 2 ^ 32" and "i + n = length cs"
  shows "trim_char_loop s ch i n = Inr (i + length (takeWhile (\<lambda>c. c = ch) (drop i cs)))"
  using assms(3)
proof (induction n arbitrary: i)
  case (Suc n)
  then have i: "i < length cs"
    by simp
  then have "unat (of_nat i :: u32) = i"
    using repr_sizes(1) [OF assms(1,2)] by (intro of_nat_inverse) simp_all
  then have "charAt s (of_nat i) = Inr (cs ! i)"
    using charAt_repr [OF assms(1), of "of_nat i"] i by simp
  with Suc show ?case
    using Cons_nth_drop_Suc [OF i, symmetric] by simp
qed simp

lemma trimStartMatches_char_repr:
  assumes "ts_repr s cs" and "stringSize s < 2 ^ 32"
  shows "\<exists>t. trimStartMatches_char s ch = Inr t \<and> ts_repr t (dropWhile (\<lambda>c. c = ch) cs)"
proof -
  let ?i = "length (takeWhile (\<lambda>c. c = ch) cs)"
  have n: "numChars s = length cs"
    using assms(1) by (simp add: ts_repr_def numChars_def)
  have i: "?i \<le> length cs"
    by (rule length_takeWhile_le)
  then have u: "unat (of_nat ?i :: u32) = ?i"
    using repr_sizes(1) [OF assms] by (intro of_nat_inverse) simp_all
  have "length cs \<le> unat (- 1 :: u32)"
    using repr_sizes(1) [OF assms] unat_npos by (simp add: npos_def)
  then have "take (unat (- 1 :: u32)) (drop ?i cs) = dropWhile (\<lambda>c. c = ch) cs"
    by (simp add: dropWhile_eq_drop)
  then show ?thesis
    using substr_repr [OF assms(1) _ assms(2), of "of_nat ?i" "- 1"] i u
      trim_char_loop_repr [OF assms, of 0 "length cs"]
    by (simp add: trimStartMatches_char_def n)
qed


section \<open>Trimming ASCII text\<close>

definition ascii_space :: "u32 \<Rightarrow> bool" where
  "ascii_space c \<longleftrightarrow> c = 0x20 \<or> 0x09 \<le> c \<and> c \<le> 0x0D"

definition strip_end :: "('a \<Rightarrow> bool) \<Rightarrow> 'a list \<Rightarrow> 'a list" where
  "strip_end P xs = rev (dropWhile P (rev xs))"

lemma strip_end_simps [simp]:
  "strip_end P [] = []"
  "strip_end P (xs @ [x]) = (if P x then strip_end P xs else xs @ [x])"
  by (simp_all add: strip_end_def)

lemma strip_end_prefix: "\<exists>ys. xs = strip_end P xs @ ys"
proof -
  have "rev xs = takeWhile P (rev xs) @ dropWhile P (rev xs)"
    by simp
  then have "xs = rev (dropWhile P (rev xs)) @ rev (takeWhile P (rev xs))"
    by (metis rev_append rev_rev_ident)
  then show ?thesis
    unfolding strip_end_def by blast
qed

lemma isspace_ascii:
  assumes "c < 0x80"
  shows "isspace_byte (ucast (c AND 0xff)) \<longleftrightarrow> ascii_space c"
  unfolding isspace_byte_def ascii_space_def word_le_def word_uint_eq_iff ascii_byte [OF assms] by simp

lemma ascii_string_nth:
  assumes "ts_repr s cs" and "is_ascii cs" and "i < length cs"
  shows "rd (raw_buf s) i = Inr (ucast (cs ! i AND 0xff))"
  using assms utf8s_nth_ascii [OF assms(2,3)]
  by (simp add: raw_buf_repr [OF assms(1)] rd_def nth_append length_utf8s_is_ascii)

lemma trim_ascii_repr:
  assumes "ts_repr s cs" and "is_ascii cs" and "i \<le> length cs"
  shows "trim_ascii s i = Inr (i + length (takeWhile ascii_space (drop i cs)))"
  using assms(3)
proof (induction "length cs - i" arbitrary: i)
  case 0
  then have "i = length cs"
    by simp
  moreover have "raw_buf s ! length cs = 0" "length (raw_buf s) = length cs + 1"
    using assms(2) by (simp_all add: raw_buf_repr [OF assms(1)] nth_append length_utf8s_is_ascii)
  ultimately show ?case
    by (subst trim_ascii.simps) (simp add: stringSize_def raw_buf_def rd_def isspace_byte_def)
next
  case (Suc n)
  then have i: "i < length cs" "cs ! i < 0x80"
    using assms(2) by (auto simp: is_ascii_def)
  have "stringSize s = length cs + 1"
    using assms by (simp add: stringSize_def ts_repr_def length_utf8s_is_ascii)
  with Suc(1) [of "i + 1"] Suc(2) i show ?case
    using Cons_nth_drop_Suc [OF i(1), symmetric] ascii_string_nth [OF assms(1,2) i(1)]
    by (subst trim_ascii.simps) (simp add: isspace_ascii)
qed

lemma trim_end_repr:
  assumes "ts_repr s cs" and "is_ascii cs" and "e \<le> length cs" and "i \<le> e"
  shows "trim_end s i e = Inr (i + length (strip_end ascii_space (take (e - i) (drop i cs))))"
  using assms(3,4)
proof (induction "e - i" arbitrary: e)
  case 0
  then show ?case
    by (subst trim_end.simps) simp
next
  case (Suc n)
  then obtain k where e: "e = Suc k" "i \<le> k" "k < length cs"
    by (cases e) auto
  then have "cs ! k < 0x80"
    using assms(2) by (auto simp: is_ascii_def)
  moreover from this have "(ucast (cs ! k AND 0xff) :: u8) AND 0x80 = 0"
    by (simp add: byte_class enc_bytes_class)
  moreover have "take (e - i) (drop i cs) = take (k - i) (drop i cs) @ [cs ! k]"
    using e take_Suc_conv_app_nth [of "k - i" "drop i cs"] by (simp add: Suc_diff_le)
  moreover have "length (take (k - i) (drop i cs)) = k - i"
    using e by simp
  ultimately show ?case
    using Suc(1) [of k] Suc(2) e ascii_string_nth [OF assms(1,2) e(3)]
    by (subst trim_end.simps) (simp add: isspace_ascii)
qed

lemma substr_bytes_empty:
  assumes "unat b < stringSize s"
  shows "\<exists>t. substr_bytes s b 0 False = Inr t \<and> ts_repr t []"
  using assms
  by (auto simp: substr_bytes_def Let_def mem_read_def raw_buf_def stringSize_def store_def ts_new_def
      STATIC_SIZE_def ts_init_def scan0_def ts_repr_def buf_ok_def)

lemma removeWhitespace_repr:
  assumes "ts_repr s cs" and "is_ascii cs" and "stringSize s < 2 ^ 32"
  shows "\<exists>t. removeWhitespace s = Inr t \<and> ts_repr t (strip_end ascii_space (dropWhile ascii_space cs))"
proof -
  define i where "i = (if cs = [] then 0 else length (takeWhile ascii_space cs))"
  define rest where "rest = dropWhile ascii_space cs"
  define res where "res = strip_end ascii_space rest"
  have i: "i \<le> length cs" "drop i cs = rest"
    by (simp_all add: i_def rest_def length_takeWhile_le dropWhile_eq_drop)
  obtain ys where ys: "rest = res @ ys"
    using strip_end_prefix [of rest ascii_space] by (auto simp: res_def)
  have size: "stringSize s = length cs + 1" "ts_isASCII s" "ts_bytes s = [] \<longleftrightarrow> cs = []"
    using assms by (auto simp: stringSize_def ts_repr_def length_utf8s_is_ascii)
  have pos: "getTrimPositions s = Inr (i, i + length res)"
  proof (cases "cs = []")
    case True
    then show ?thesis
      by (simp add: getTrimPositions_def size i_def res_def rest_def)
  next
    case False
    have "trim_ascii s 0 = Inr i"
      using trim_ascii_repr [OF assms(1,2), of 0] False by (simp add: i_def)
    moreover have "trim_end s i (length cs) = Inr (i + length res)"
      using trim_end_repr [OF assms(1,2) order_refl i(1)] i(2) length_drop [of i cs]
      by (simp add: res_def)
    ultimately show ?thesis
      using False by (simp add: getTrimPositions_def size)
  qed
  have len: "length cs < 2 ^ 32 - 1"
    by (rule repr_sizes(1) [OF assms(1,3)])
  have le: "i + length res \<le> length cs"
    using i ys by (metis add_leD1 diff_diff_left diff_is_0_eq length_append length_drop le_add_diff_inverse
        nat_add_left_cancel_le le_add1)
  have words: "unat (of_nat i :: u32) = i" "unat (of_nat (i + length res) :: u32) = i + length res"
    using le len by (intro of_nat_inverse; simp)+
  then have diff: "unat (of_nat (i + length res) - of_nat i :: u32) = length res"
    by (subst unat_sub) (simp_all add: word_le_nat_alt)
  have "\<exists>t. substr_bytes s (of_nat i) (of_nat (i + length res) - of_nat i) False = Inr t \<and> ts_repr t res"
  proof (cases "res = []")
    case True
    then show ?thesis
      using substr_bytes_empty [of "of_nat i" s] words(1) i(1) size(1) by simp
  next
    case False
    have "off cs k = k" if "k \<le> length cs" for k
      using that assms(2) by (simp add: length_utf8s_is_ascii)
    moreover have "take (length res) (drop i cs) = res"
      using i(2) ys by simp
    ultimately show ?thesis
      using substr_bytes_repr [OF assms(1), of "of_nat i" i "of_nat (i + length res) - of_nat i"
          "length res" False] words(1) diff False le assms(3) by simp
  qed
  then show ?thesis
    by (simp add: removeWhitespace_def pos res_def rest_def)
qed


section \<open>Compacting white space\<close>

text \<open>The text that \<open>compactHTMLWhiteSpace\<close> builds, with \<open>prev\<close> the value of \<open>previousWasSpace\<close>.\<close>

fun compact_spec :: "bool \<Rightarrow> u32 list \<Rightarrow> u32 list" where
  "compact_spec prev [] = []"
| "compact_spec prev (c # cs) =
     (if html_space c then (if prev then [] else [0x20]) @ compact_spec True cs
      else c # compact_spec False cs)"

lemma compact_fold:
  assumes "ts_repr t acc" and "valid_cps cs"
  shows "\<exists>t' prev'. foldE compact_char (t, prev, nl) cs
      = Inr (t', prev', nl \<or> 0x0A \<in> set cs \<or> 0x0D \<in> set cs) \<and> ts_repr t' (acc @ compact_spec prev cs)"
  using assms
proof (induction cs arbitrary: t acc prev nl)
  case (Cons c cs)
  then have c: "valid_cp c" "valid_cps cs"
    by simp_all
  obtain t1 where t1: "append_char 0x20 t = Inr t1" "ts_repr t1 (acc @ [0x20])"
    using append_char_repr [OF Cons.prems(1), of "0x20"] by (auto simp: valid_cp_def)
  obtain t2 where t2: "append_char c t = Inr t2" "ts_repr t2 (acc @ [c])"
    using append_char_repr [OF Cons.prems(1) c(1)] by blast
  show ?case
  proof (cases "html_space c")
    case True
    show ?thesis
      using Cons.IH [of t acc True "nl \<or> c = 0x0A \<or> c = 0x0D"]
        Cons.IH [of t1 "acc @ [0x20]" True "nl \<or> c = 0x0A \<or> c = 0x0D"] Cons.prems(1) c(2) t1 True
      by (cases prev) (auto simp: compact_char_def)
  next
    case False
    then have "c \<noteq> 0x0A" "c \<noteq> 0x0D"
      by (auto simp: html_space_def)
    then show ?thesis
      using Cons.IH [of t2 "acc @ [c]" False nl] c(2) t2 False by (auto simp: compact_char_def)
  qed
qed simp

lemma compactHTMLWhiteSpace_repr:
  assumes "ts_repr s cs"
  shows "\<exists>t. compactHTMLWhiteSpace s trimleft nl = Inr (t, nl \<or> 0x0A \<in> set cs \<or> 0x0D \<in> set cs)
    \<and> ts_repr t (compact_spec trimleft cs)"
proof -
  have v: "valid_cps cs" "ts_bytes s = utf8s cs"
    using assms by (simp_all add: ts_repr_def)
  obtain t prev where "foldE compact_char (ts_new, trimleft, nl) cs
      = Inr (t, prev, nl \<or> 0x0A \<in> set cs \<or> 0x0D \<in> set cs)" "ts_repr t (compact_spec trimleft cs)"
    using compact_fold [OF ts_repr_new v(1), of trimleft nl] by auto
  moreover have "char_loop (raw_buf s) (numBytes s)
      (\<lambda>p a. bindE (getChar (raw_buf s) p) (\<lambda>c. bindE (compact_char c a) (\<lambda>a'.
        Inr (Continue a' :: (unit, tiny_string \<times> bool \<times> bool) loop)))) 0 (ts_new, trimleft, nl)
      = bindE (foldE compact_char (ts_new, trimleft, nl) cs) (\<lambda>s'. Inr (Continue s'))"
    unfolding raw_buf_repr [OF assms] numBytes_eq v(2) by (rule char_loop_foldE [OF v(1)]) simp
  ultimately show ?thesis
    by (simp add: compactHTMLWhiteSpace_def)
qed

text \<open>The result has no white space but single blanks, and none at the front when trimming there.\<close>

lemma compact_spec_shape:
  "c \<in> set (compact_spec prev cs) \<Longrightarrow> html_space c \<Longrightarrow> c = 0x20"
  by (induction prev cs rule: compact_spec.induct) (auto split: if_splits)

lemma compact_spec_hd: "compact_spec True cs = [] \<or> hd (compact_spec True cs) \<noteq> 0x20"
proof (induction cs)
  case (Cons c cs)
  then show ?case
    by (auto simp: html_space_def)
qed simp

lemma compact_spec_no_double:
  "successively (\<lambda>a b. \<not> (a = 0x20 \<and> b = 0x20)) (compact_spec prev cs)"
proof (induction prev cs rule: compact_spec.induct)
  case (2 prev c cs)
  then show ?case
    using compact_spec_hd [of cs] by (cases prev) (auto simp: successively_Cons html_space_def)
qed simp

section \<open>Quoting\<close>

definition quote_spec :: "u32 \<Rightarrow> u32 list" where
  "quote_spec c =
     (if c = 0x08 then [0x5c, 0x62] else if c = 0x0C then [0x5c, 0x66]
      else if c = 0x0A then [0x5c, 0x6e] else if c = 0x0D then [0x5c, 0x72]
      else if c = 0x09 then [0x5c, 0x74] else if c = 0x22 then [0x5c, 0x22]
      else if c = 0x5c then [0x5c, 0x5c]
      else if c < 0x20 \<or> 0xff < c then map ucast (sprintf_u04x c)
      else [c])"


lemma utf8_enc_byte:
  assumes "b < 0x80"
  shows "utf8_enc (ucast (b :: u8)) = [b]" and "(ucast b :: u32) < 0x80"
proof -
  have b: "unat b < 128"
    using assms by (simp add: word_less_nat_alt)
  then show "(ucast b :: u32) < 0x80"
    by (simp add: word_less_nat_alt)
  moreover have "ucast ((ucast b :: u32) AND 0xff) = b"
    unfolding mask_consts by (rule bit_word_eqI) (auto simp: bit_simps)
  ultimately show "utf8_enc (ucast b) = [b]"
    by (simp add: utf8_enc_ascii)
qed

lemma ascii_bytes:
  assumes "\<forall>b\<in>set xs. b < 0x80 \<and> b \<noteq> 0"
  shows "cstr xs = utf8s (map ucast xs)" and "valid_cps (map ucast xs)"
proof -
  have "xs = utf8s (map ucast xs)"
    using assms by (induction xs) (simp_all add: utf8_enc_byte)
  moreover have "cstr xs = xs"
    using assms by (intro cstr_id) auto
  ultimately show "cstr xs = utf8s (map ucast xs)"
    by simp
  show "valid_cps (map ucast xs)"
    using assms by (auto simp: valid_cps_def valid_cp_ascii utf8_enc_byte)
qed

lemma hex_digit_range: "n < 16 \<Longrightarrow> hex_digit n < 0x80 \<and> hex_digit n \<noteq> 0"
  by (simp add: hex_digit_def word_less_nat_alt word_unat_eq_iff unat_of_nat del: of_nat_add)

lemma hex_digits_range: "b \<in> set (hex_digits n) \<Longrightarrow> b < 0x80 \<and> b \<noteq> 0"
proof (induction n rule: hex_digits.induct)
  case (1 n)
  then show ?case
    using hex_digit_range [of n] hex_digit_range [of "n mod 16"]
    by (subst (asm) (2) hex_digits.simps) (auto split: if_splits)
qed

lemma length_hex_digits: "n < 16 ^ Suc k \<Longrightarrow> length (hex_digits n) \<le> Suc k"
proof (induction k arbitrary: n)
  case 0
  then show ?case
    by (subst hex_digits.simps) simp
next
  case (Suc k)
  then have "n div 16 < 16 ^ Suc k"
    by (simp add: less_mult_imp_div_less)
  with Suc.IH show ?case
    by (subst hex_digits.simps) simp
qed

lemma append_cstr_ascii:
  assumes "ts_repr t acc" and "\<forall>b\<in>set xs. b < 0x80 \<and> b \<noteq> 0"
  shows "\<exists>t'. append_cstr xs t = Inr t' \<and> ts_repr t' (acc @ map ucast xs)"
  by (rule append_cstr_repr [OF assms(1) ascii_bytes(2,1) [OF assms(2)]])

lemma quote_char_repr:
  assumes "ts_repr t acc" and "valid_cp c" and "c \<le> 0xFFFF"
  shows "\<exists>t'. quote_char c t = Inr t' \<and> ts_repr t' (acc @ quote_spec c)"
proof -
  have "unat c < 16 ^ Suc 3"
    using assms(3) by (simp add: word_le_nat_alt)
  then have "length (hex_digits (unat c)) \<le> 4"
    using length_hex_digits by fastforce
  then have len: "length (sprintf_u04x c) + 1 \<le> 7"
    by (simp add: sprintf_u04x_def Let_def)
  have "\<forall>b\<in>set (sprintf_u04x c). b < 0x80 \<and> b \<noteq> 0"
    by (auto simp: sprintf_u04x_def Let_def dest: hex_digits_range)
  note long = append_cstr_ascii [OF assms(1) this]
  have esc: "\<exists>t'. append_cstr [0x5c, b] t = Inr t' \<and> ts_repr t' (acc @ [0x5c, ucast b])"
    if "b < 0x80" "b \<noteq> 0" for b
    using append_cstr_ascii [OF assms(1), of "[0x5c, b]"] that by simp
  show ?thesis
    using len long append_char_repr [OF assms(1,2)] esc [of "0x62"] esc [of "0x66"] esc [of "0x6e"]
      esc [of "0x72"] esc [of "0x74"] esc [of "0x22"] esc [of "0x5c"]
    by (simp add: quote_char_def quote_spec_def)
qed

lemma quote_fold:
  assumes "ts_repr t acc" and "valid_cps cs" and "\<forall>c\<in>set cs. c \<le> 0xFFFF"
  shows "\<exists>t'. foldE quote_char t cs = Inr t' \<and> ts_repr t' (acc @ concat (map quote_spec cs))"
  using assms
proof (induction cs arbitrary: t acc)
  case (Cons c cs)
  then obtain t1 where "quote_char c t = Inr t1" "ts_repr t1 (acc @ quote_spec c)"
    using quote_char_repr [of t acc c] by auto
  with Cons.IH [of t1 "acc @ quote_spec c"] Cons.prems show ?case
    by simp
qed simp

lemma toQuotedString_repr:
  assumes "ts_repr s cs" and "\<forall>c\<in>set cs. c \<le> 0xFFFF"
  shows "\<exists>t. toQuotedString s = Inr t
    \<and> ts_repr t ([0x22] @ concat (map quote_spec cs) @ [0x22])"
proof -
  have v: "valid_cps cs" "ts_bytes s = utf8s cs"
    using assms(1) by (simp_all add: ts_repr_def)
  have q: "cstr [0x22] = utf8s [0x22]" "valid_cps [0x22]"
    using ascii_bytes [of "[0x22]"] by simp_all
  obtain t0 where t0: "from_cstr [0x22] False = Inr t0" "ts_repr t0 [0x22]"
    using from_cstr_repr [of "[0x22]" "[0x22]" False] q by auto
  obtain t1 where t1: "foldE quote_char t0 cs = Inr t1" "ts_repr t1 ([0x22] @ concat (map quote_spec cs))"
    using quote_fold [OF t0(2) v(1) assms(2)] by blast
  obtain t2 where "append_cstr [0x22] t1 = Inr t2"
    "ts_repr t2 (([0x22] @ concat (map quote_spec cs)) @ [0x22])"
    using append_cstr_repr [OF t1(2) q(2,1)] by blast
  moreover have "char_loop (raw_buf s) (numBytes s)
      (\<lambda>p t. bindE (getChar (raw_buf s) p) (\<lambda>c. bindE (quote_char c t) (\<lambda>t'.
        Inr (Continue t' :: (unit, tiny_string) loop)))) 0 t0
      = bindE (foldE quote_char t0 cs) (\<lambda>s'. Inr (Continue s'))"
    unfolding raw_buf_repr [OF assms(1)] numBytes_eq v(2) by (rule char_loop_foldE [OF v(1)]) simp
  ultimately show ?thesis
    using t0(1) t1(1) by (simp add: toQuotedString_def)
qed


section \<open>Properties\<close>

text \<open>C3: Case conversion. For a string whose bytes are the UTF-8 encoding of the characters \<open>cs\<close> and at most
  2147483644 of them, \<open>lowercase\<close> and \<open>uppercase\<close> convert every character: no table access leaves its table, the
  buffer of \<open>2 * numBytes() + 7\<close> bytes (which does not wrap around in \<open>uint32_t\<close> for this length) allocated before the
  lengths of the converted characters are known is large enough, and count and flags of the result fit its
  content. For bytes that are not UTF-8 the buffer can be too small (\<open>lowercase_overflow\<close>).\<close>

theorem case_conversion_correct:
  assumes "ts_repr s cs" and "numBytes s \<le> 2147483644"
  shows "(\<exists>t. lowercase s = Inr t \<and> ts_repr t (map to_lower cs))
    \<and> (\<exists>t. uppercase s = Inr t \<and> ts_repr t (map to_upper cs))"
  using lowercase_repr [OF assms] uppercase_repr [OF assms] by blast

lemma case_conversion_correct_witness:
  "\<exists>t. uppercase (ts_of [0x61, 0x149, 0x131]) = Inr t \<and> ts_repr t (map to_upper [0x61, 0x149, 0x131])"
  using case_conversion_correct [of "ts_of [0x61, 0x149, 0x131]" "[0x61, 0x149, 0x131]"]
  by (simp add: valid_cp_def numBytes_eq utf8_enc_def)

text \<open>A single byte that is not UTF-8 is converted to four bytes, so eight of them overflow the
  buffer that \<open>lowercase\<close> allocates.\<close>

lemma lowercase_overflow:
  "bindE (from_std_string (replicate 8 0xff)) lowercase = Inl OutOfBounds"
  by code_simp

text \<open>Comparison without case: \<open>caselessEquals\<close> decides whether the two strings have the same
  characters after lower case conversion.\<close>

theorem caselessEquals_correct:
  assumes "ts_repr s cs" and "ts_repr r ds" and "stringSize s < 2 ^ 32"
  shows "caselessEquals s r = Inr (map to_lower cs = map to_lower ds)"
  by (rule caselessEquals_repr [OF assms])

lemma caselessEquals_correct_witness:
  "caselessEquals (ts_of [0x41, 0xc9]) (ts_of [0x61, 0xe9])
    = Inr (map to_lower [0x41, 0xc9] = map to_lower [0x61, 0xe9])"
  by (rule caselessEquals_correct) (simp_all add: valid_cp_def stringSize_def utf8_enc_def)

text \<open>C4: \<open>split(d)\<close>, for a delimiter that is a valid code point other than NUL and a string of less than 4 GiB whose
  bytes are the UTF-8 encoding of \<open>cs\<close>, ends and returns the pieces between the occurrences of the delimiter in
  order, empty pieces included except for one after a delimiter at the very end; the position loop needs
  at most one round per character, and no read leaves the buffer. If the string is not ASCII or has a NUL, the encoding of
  the delimiter has to be at most one byte longer than that of the last character (\<open>needle_fits\<close>), for \<open>find\<close> has \<open>memcmp\<close>
  read past the end of the string otherwise (\<open>find_overread\<close>).\<close>

theorem split_correct:
  assumes "ts_repr s cs" and "valid_cp d" and "d \<noteq> 0" and "stringSize s < 2 ^ 32"
    and "ts_isASCII s \<and> \<not> ts_hasNull s \<or> needle_fits [d] cs"
  shows "\<exists>ts. split s d = Inr ts \<and> list_all2 ts_repr ts (split_spec d cs)"
  by (rule split_repr [OF assms])

lemma split_correct_witness:
  "\<exists>ts. split (ts_of [0x61, 0x2c, 0x2c, 0xe9, 0x2c]) 0x2c = Inr ts
     \<and> list_all2 ts_repr ts (split_spec 0x2c [0x61, 0x2c, 0x2c, 0xe9, 0x2c])"
  by (rule split_correct) (simp_all add: valid_cp_def stringSize_def utf8_enc_def needle_fits_def)

text \<open>\<open>removeWhitespace\<close> on an ASCII string returns it without the white space at its beginning
  and its end, also for an empty string and one of white space only.\<close>

theorem removeWhitespace_correct:
  assumes "ts_repr s cs" and "is_ascii cs" and "stringSize s < 2 ^ 32"
  shows "\<exists>t. removeWhitespace s = Inr t
    \<and> ts_repr t (strip_end ascii_space (dropWhile ascii_space cs))"
  by (rule removeWhitespace_repr [OF assms])

lemma removeWhitespace_correct_witness:
  "\<exists>t. removeWhitespace (ts_of [0x20, 0x61, 0x20, 0x62, 0x0a]) = Inr t \<and> ts_repr t [0x61, 0x20, 0x62]"
  using removeWhitespace_correct [of "ts_of [0x20, 0x61, 0x20, 0x62, 0x0a]" "[0x20, 0x61, 0x20, 0x62, 0x0a]"]
  by (simp add: valid_cp_def stringSize_def utf8_enc_def ascii_space_def strip_end_def)

text \<open>On other strings the loop at the end looks at the byte after the lead byte of the last
  character and drops a character that is no white space.\<close>

lemma removeWhitespace_drops_last:
  "(case bindE (from_std_string (utf8s [0x61, 0xe9])) removeWhitespace of
      Inr t \<Rightarrow> ts_bytes t = utf8s [0x61] | Inl _ \<Rightarrow> False)"
  by code_simp

text \<open>\<open>compactHTMLWhiteSpace\<close> replaces every run of blanks, tabs and line breaks by one blank, by
  none at the front when \<open>trimleft\<close> is set, and reports whether a line break occurred; the result
  contains no other white space and no two blanks in a row.\<close>

theorem compactHTMLWhiteSpace_correct:
  assumes "ts_repr s cs"
  shows "\<exists>t. compactHTMLWhiteSpace s trimleft nl = Inr (t, nl \<or> 0x0A \<in> set cs \<or> 0x0D \<in> set cs)
    \<and> ts_repr t (compact_spec trimleft cs)
    \<and> (\<forall>c\<in>set (compact_spec trimleft cs). html_space c \<longrightarrow> c = 0x20)
    \<and> successively (\<lambda>a b. \<not> (a = 0x20 \<and> b = 0x20)) (compact_spec trimleft cs)"
  using compactHTMLWhiteSpace_repr [OF assms] compact_spec_shape compact_spec_no_double by blast

lemma compactHTMLWhiteSpace_correct_witness:
  "\<exists>t. compactHTMLWhiteSpace (ts_of [0x20, 0x61, 0x20, 0x0a, 0xe9]) True False = Inr (t, True)
     \<and> ts_repr t [0x61, 0x20, 0xe9]"
  using compactHTMLWhiteSpace_correct [of "ts_of [0x20, 0x61, 0x20, 0x0a, 0xe9]"
      "[0x20, 0x61, 0x20, 0x0a, 0xe9]" True False]
  by (simp add: valid_cp_def html_space_def)

text \<open>\<open>toQuotedString\<close> encloses the string in quotes, escapes quotes, backslashes and control
  characters and writes characters above 0xFF with four hexadecimal digits; for characters up to
  0xFFFF its buffer of seven bytes is not overrun.\<close>

theorem toQuotedString_correct:
  assumes "ts_repr s cs" and "\<forall>c\<in>set cs. c \<le> 0xFFFF"
  shows "\<exists>t. toQuotedString s = Inr t
    \<and> ts_repr t ([0x22] @ concat (map quote_spec cs) @ [0x22])"
  by (rule toQuotedString_repr [OF assms])

lemma toQuotedString_correct_witness:
  "\<exists>t. toQuotedString (ts_of [0x61, 0x22, 0x20ac]) = Inr t
     \<and> ts_repr t ([0x22] @ concat (map quote_spec [0x61, 0x22, 0x20ac]) @ [0x22])"
  by (rule toQuotedString_correct) (simp_all add: valid_cp_def)

text \<open>A character above 0xFFFF needs five digits, and its escape does not fit the buffer.\<close>

lemma quote_char_overflow:
  assumes "0xFFFF < c"
  shows "quote_char c t = Inl OutOfBounds"
proof -
  have "65535 < unat c"
    using assms by (simp add: word_less_nat_alt)
  then have "16 \<le> unat c div 16" "16 \<le> unat c div 256" "16 \<le> unat c div 4096"
    using div_le_mono [of 65536 "unat c" 16] div_le_mono [of 65536 "unat c" 256]
      div_le_mono [of 65536 "unat c" 4096] by simp_all
  then have "5 \<le> length (hex_digits (unat c))"
    by (simp add: hex_digits.simps [of "unat c"] hex_digits.simps [of "unat c div 16"]
        hex_digits.simps [of "unat c div 256"] hex_digits.simps [of "unat c div 4096"] 
        hex_digits.simps [of "unat c div 65536"] flip: div_mult2_eq)
  then have "\<not> length (sprintf_u04x c) + 1 \<le> 7"
    by (simp add: sprintf_u04x_def Let_def)
  moreover have "c \<noteq> 0x08" "c \<noteq> 0x0C" "c \<noteq> 0x0A" "c \<noteq> 0x0D" "c \<noteq> 0x09" "c \<noteq> 0x22" "c \<noteq> 0x5c" "0xff < c"
    using assms by (auto simp: word_less_nat_alt)
  ultimately show ?thesis
    by (simp add: quote_char_def)
qed

text \<open>\<open>trimStartMatches\<close> with an empty string does not end: no number of rounds is enough.\<close>

lemma trim_string_loop_diverges:
  assumes "ts_repr s cs" and "ts_repr r []" and "i < length cs" and "stringSize s < 2 ^ 32"
  shows "trim_string_loop fuel s r i = Inl OutOfFuel"
proof (induction fuel)
  case (Suc fuel)
  have "unat (of_nat i :: u32) = i"
    using repr_sizes(1) [OF assms(1,4)] assms(3) by (intro of_nat_inverse) simp_all
  moreover have "search [] (drop i cs) i = Some i"
    by (cases "drop i cs") simp_all
  ultimately have "ts_find s r (of_nat i) = Inr (Some i)"
    using ts_find_search [OF assms(1,2), of "of_nat i"] assms(3,4) by (simp add: needle_fits_def)
  moreover have "numChars s = length cs" "numChars r = 0"
    using assms(1,2) by (simp_all add: ts_repr_def numChars_def)
  ultimately show ?case
    using Suc assms(3) by simp
qed simp

text \<open>\<open>getLine\<close> initialises \<open>endindex\<close> with the number of bytes left instead of the end of the
  string, so the last line of a text loses its end when it starts in the first half.\<close>

lemma getLine_truncates:
  "(case bindE (from_std_string (utf8s [0x0a, 0x62, 0x63, 0x64])) (\<lambda>s. getLine s 1 ts_new) of
      Inr (found, next, line) \<Rightarrow> \<not> found \<and> next = npos \<and> ts_bytes line = utf8s [0x62, 0x63]
        \<and> ts_numchars line = 3
    | Inl _ \<Rightarrow> False)"
  by code_simp

end
