(* ===== verification/ByteArray.thy ===== *)
theory ByteArray
  imports TinyText
begin

text \<open>
  The byte buffer of \<open>src/src/scripting/flash/utils/ByteArray.h\<close> and \<open>ByteArray.cpp\<close>: its storage,
  byte order, position and the internal read and write operations. The methods ActionScript sees
  are in \<open>ByteArrayMethods\<close>.

  \<open>ba_bytes\<close> is the allocated block (\<open>None\<close> for a null pointer), \<open>ba_real_len\<close> and \<open>ba_len\<close> are the
  allocated and the visible length; every access is checked against the block. \<open>createError\<close> does
  not leave the function that calls it: it records the pending ActionScript exception, here in
  \<open>ba_error\<close>. \<open>ba_locks\<close> counts how often the (recursive) mutex of a shareable array is held.
\<close>

section \<open>The state\<close>

datatype as_error = OutOfMemoryError | EOFError | RangeError | ArgumentError | IOError

record byte_array =
  ba_littleEndian :: bool
  ba_objectEncoding :: u8
  ba_currentObjectEncoding :: u8
  ba_position :: u32
  ba_bytes :: "u8 list option"
  ba_real_len :: u32
  ba_len :: u32
  ba_shareable :: bool
  ba_locks :: int
  ba_error :: "as_error option"

definition BA_CHUNK_SIZE :: nat where
  "BA_CHUNK_SIZE = 4096"

definition BA_MAX_SIZE :: u32 where
  "BA_MAX_SIZE = 0x40000000"

definition AMF0 :: u8 where
  "AMF0 = 0"

definition AMF3 :: u8 where
  "AMF3 = 3"

text \<open>The constructor, over a block of \<open>l\<close> bytes that the array then owns or a null pointer.\<close>

definition ba_new :: "u8 list option \<Rightarrow> u32 \<Rightarrow> byte_array" where
  "ba_new b l = \<lparr>ba_littleEndian = False, ba_objectEncoding = AMF3, ba_currentObjectEncoding = AMF3,
     ba_position = 0, ba_bytes = b, ba_real_len = l, ba_len = l, ba_shareable = False,
     ba_locks = 0, ba_error = None\<rparr>"

definition ba_destruct :: "byte_array \<Rightarrow> byte_array" where
  "ba_destruct th = th\<lparr>ba_bytes := None, ba_currentObjectEncoding := AMF3, ba_objectEncoding := AMF3,
     ba_position := 0, ba_real_len := 0, ba_len := 0, ba_shareable := False,
     ba_littleEndian := False\<rparr>"

definition createError :: "as_error \<Rightarrow> byte_array \<Rightarrow> byte_array" where
  "createError e th = th\<lparr>ba_error := Some e\<rparr>"

definition ba_lock :: "byte_array \<Rightarrow> byte_array" where
  "ba_lock th = (if ba_shareable th then th\<lparr>ba_locks := ba_locks th + 1\<rparr> else th)"

definition ba_unlock :: "byte_array \<Rightarrow> byte_array" where
  "ba_unlock th = (if ba_shareable th then th\<lparr>ba_locks := ba_locks th - 1\<rparr> else th)"

definition setPosition :: "u32 \<Rightarrow> byte_array \<Rightarrow> byte_array" where
  "setPosition p th = ba_unlock ((ba_lock th)\<lparr>ba_position := p\<rparr>)"

text \<open>Accesses through \<open>bytes\<close>; copying no bytes touches no memory.\<close>

definition ba_store :: "nat \<Rightarrow> u8 list \<Rightarrow> byte_array \<Rightarrow> byte_array res" where
  "ba_store p xs th =
     (if xs = [] then Inr th
      else case ba_bytes th of
        None \<Rightarrow> Inl NullDeref
      | Some b \<Rightarrow> bindE (mem_write p xs b) (\<lambda>b'. Inr (th\<lparr>ba_bytes := Some b'\<rparr>)))"

definition ba_load :: "nat \<Rightarrow> nat \<Rightarrow> byte_array \<Rightarrow> u8 list res" where
  "ba_load p n th =
     (if n = 0 then Inr []
      else case ba_bytes th of None \<Rightarrow> Inl NullDeref | Some b \<Rightarrow> mem_read p n b)"

section \<open>The buffer\<close>

text \<open>The growth loop \<open>while (real_len < size) real_len += BA_CHUNK_SIZE\<close> and where it ends.\<close>

function grow_len :: "nat \<Rightarrow> nat \<Rightarrow> nat" where
  "grow_len real_len request = (if real_len < request then grow_len (real_len + BA_CHUNK_SIZE) request else real_len)"
  by pat_completeness auto
termination
  by (relation "measure (\<lambda>(r, s). s - r)") (auto simp: BA_CHUNK_SIZE_def)

declare grow_len.simps [simp del]

text \<open>
  \<open>getBufferIntern\<close>; the Boolean is false when the code returns a null pointer. A request of at
  most 1 GiB keeps \<open>real_len\<close> below 2\<open>^\<close>31, so the loop runs on naturals.
\<close>

definition getBufferIntern :: "u32 \<Rightarrow> bool \<Rightarrow> byte_array \<Rightarrow> (bool \<times> byte_array) res" where
  "getBufferIntern request enableResize th =
     (if BA_MAX_SIZE < request then Inr (False, createError OutOfMemoryError th)
      else case ba_bytes th of
        None \<Rightarrow> Inr (True, th\<lparr>ba_len := request, ba_real_len := request,
                             ba_bytes := Some (replicate (unat request) 0)\<rparr>)
      | Some b \<Rightarrow>
          if \<not> enableResize then
            (if request \<le> ba_len th then Inr (True, th) else Inl AssertionFailed)
          else if ba_real_len th < request then
            (let n = grow_len (unat (ba_real_len th)) (unat request);
                 prevLen = unat (ba_len th)
             in if length b < prevLen then Inl OutOfBounds
                else Inr (True, th\<lparr>ba_real_len := of_nat n, ba_len := request,
                       ba_bytes := Some (take prevLen b @ replicate (n - prevLen) 0)\<rparr>))
          else Inr (True, if ba_len th < request then th\<lparr>ba_len := request\<rparr> else th))"

definition getBuffer :: "u32 \<Rightarrow> bool \<Rightarrow> byte_array \<Rightarrow> (bool \<times> byte_array) res" where
  "getBuffer request enableResize th =
     (if request \<le> ba_real_len th \<and> 0 < request then
        Inr (ba_bytes th \<noteq> None, if ba_len th < request then th\<lparr>ba_len := request\<rparr> else th)
      else getBufferIntern request enableResize th)"

definition setLength :: "u32 \<Rightarrow> byte_array \<Rightarrow> byte_array res" where
  "setLength newLen th =
     bindE (if 0 < newLen then bindE (getBuffer newLen True th) (\<lambda>(_, th). Inr th)
            else Inr (th\<lparr>ba_bytes := None, ba_real_len := newLen\<rparr>))
       (\<lambda>th. let th = th\<lparr>ba_len := newLen\<rparr>
             in Inr (if ba_len th < ba_position th
                     then th\<lparr>ba_position := (if 0 < ba_len th then ba_len th else 0)\<rparr> else th))"

definition acquireBuffer :: "u8 list \<Rightarrow> byte_array \<Rightarrow> byte_array" where
  "acquireBuffer buf th = th\<lparr>ba_bytes := Some buf, ba_real_len := of_nat (length buf),
     ba_len := of_nat (length buf), ba_position := 0\<rparr>"

section \<open>Byte order\<close>

definition endian16 :: "bool \<Rightarrow> u16 \<Rightarrow> u16" where
  "endian16 littleEndian v = (if littleEndian then v else swap16 v)"

definition endian32 :: "bool \<Rightarrow> u32 \<Rightarrow> u32" where
  "endian32 littleEndian v = (if littleEndian then v else swap32 v)"

definition endian64 :: "bool \<Rightarrow> u64 \<Rightarrow> u64" where
  "endian64 littleEndian v = (if littleEndian then v else swap64 v)"

section \<open>Reading\<close>

text \<open>\<open>None\<close> stands for the return value \<open>false\<close>.\<close>

definition peekByte :: "byte_array \<Rightarrow> u8 option res" where
  "peekByte th =
     (if ba_len th \<le> ba_position th + 1 then Inr None
      else bindE (ba_load (unat (ba_position th + 1)) 1 th) (\<lambda>bs. Inr (Some (hd bs))))"

definition readByte :: "byte_array \<Rightarrow> (u8 option \<times> byte_array) res" where
  "readByte th =
     (if ba_len th \<le> ba_position th then Inr (None, th)
      else bindE (ba_load (unat (ba_position th)) 1 th) (\<lambda>bs.
             Inr (Some (hd bs), th\<lparr>ba_position := ba_position th + 1\<rparr>)))"

text \<open>Reading \<open>n\<close> bytes at the position after the test \<open>len < position + n\<close>, on 32 bits.\<close>

definition read_fixed :: "u32 \<Rightarrow> byte_array \<Rightarrow> (u8 list option \<times> byte_array) res" where
  "read_fixed n th =
     (if ba_len th < ba_position th + n then Inr (None, th)
      else bindE (ba_load (unat (ba_position th)) (unat n) th) (\<lambda>bs.
             Inr (Some bs, th\<lparr>ba_position := ba_position th + n\<rparr>)))"

definition readShort :: "byte_array \<Rightarrow> (u16 option \<times> byte_array) res" where
  "readShort th = bindE (read_fixed 2 th) (\<lambda>(r, th').
     Inr (map_option (\<lambda>bs. endian16 (ba_littleEndian th) (le16 bs)) r, th'))"

definition readUnsignedInt :: "byte_array \<Rightarrow> (u32 option \<times> byte_array) res" where
  "readUnsignedInt th = bindE (read_fixed 4 th) (\<lambda>(r, th').
     Inr (map_option (\<lambda>bs. endian32 (ba_littleEndian th) (le32 bs)) r, th'))"

text \<open>\<open>readFloat\<close> and \<open>readDouble\<close> at a given position: the bits of the number.\<close>

definition readFloat_at :: "u32 \<Rightarrow> byte_array \<Rightarrow> u32 option res" where
  "readFloat_at pos th =
     (if ba_len th < pos + 4 then Inr None
      else bindE (ba_load (unat pos) 4 th) (\<lambda>bs.
             Inr (Some (endian32 (ba_littleEndian th) (le32 bs)))))"

definition readDouble_at :: "u32 \<Rightarrow> byte_array \<Rightarrow> u64 option res" where
  "readDouble_at pos th =
     (if ba_len th < pos + 8 then Inr None
      else bindE (ba_load (unat pos) 8 th) (\<lambda>bs.
             Inr (Some (endian64 (ba_littleEndian th) (le64 bs)))))"

text \<open>The four rounds of \<open>readU29\<close>; \<open>n\<close> counts those left. The last byte carries eight bits.\<close>

fun readU29_loop :: "nat \<Rightarrow> u32 \<Rightarrow> byte_array \<Rightarrow> (u32 option \<times> byte_array) res" where
  "readU29_loop 0 ret th = Inr (Some ret, th)"
| "readU29_loop (Suc n) ret th = bindE (readByte th) (\<lambda>(r, th'). case r of
       None \<Rightarrow> Inr (None, th')
     | Some tmp \<Rightarrow>
         (let ret = push_bit 7 ret
          in if 0 < n then
               (let ret = ret OR (ucast tmp AND 0x7f)
                in if tmp AND 0x80 = 0 then Inr (Some ret, th') else readU29_loop n ret th')
             else
               (let ret = push_bit 1 ret OR ucast tmp
                in Inr (Some (if ret AND 0x10000000 \<noteq> 0 then ret OR 0xe0000000 else ret), th'))))"

definition readU29 :: "byte_array \<Rightarrow> (u32 option \<times> byte_array) res" where
  "readU29 = readU29_loop 4 0"

text \<open>\<open>strncpy\<close> from a block: it stops reading at a NUL and pads with zeros.\<close>

fun strncpy :: "u8 list \<Rightarrow> nat \<Rightarrow> u8 list res" where
  "strncpy xs 0 = Inr []"
| "strncpy (x # xs) (Suc n) =
     (if x = 0 then Inr (replicate (Suc n) 0) else bindE (strncpy xs n) (\<lambda>r. Inr (x # r)))"
| "strncpy [] (Suc n) = Inl OutOfBounds"

definition ba_strncpy :: "u32 \<Rightarrow> nat \<Rightarrow> byte_array \<Rightarrow> u8 list res" where
  "ba_strncpy p n th =
     (if n = 0 then Inr []
      else case ba_bytes th of
        None \<Rightarrow> Inl NullDeref
      | Some b \<Rightarrow> if length b < unat p then Inl OutOfBounds else strncpy (drop (unat p) b) n)"

definition has_BOM :: "byte_array \<Rightarrow> bool res" where
  "has_BOM th =
     (if ba_position th + 3 < ba_len th
      then bindE (ba_load (unat (ba_position th)) 3 th) (\<lambda>bs. Inr (bs = [0xef, 0xbb, 0xbf]))
      else Inr False)"

definition readUTF :: "byte_array \<Rightarrow> (tiny_string option \<times> byte_array) res" where
  "readUTF th = bindE (readShort th) (\<lambda>(r, th). case r of
       None \<Rightarrow> Inr (None, th)
     | Some stringLen \<Rightarrow>
         if ba_len th < ba_position th + ucast stringLen then Inr (None, th)
         else bindE (has_BOM th) (\<lambda>bom.
           let th = (if bom then th\<lparr>ba_position := ba_position th + 3\<rparr> else th);
               stringLen = (if bom then stringLen - (if 3 < stringLen then 3 else 0) else stringLen)
           in bindE (ba_strncpy (ba_position th) (unat stringLen) th) (\<lambda>buf.
              bindE (assign_cstr (buf @ [0]) ts_new) (\<lambda>s.
                Inr (Some s, th\<lparr>ba_position := ba_position th + ucast stringLen\<rparr>)))))"

definition readUTFBytes :: "u32 \<Rightarrow> byte_array \<Rightarrow> (tiny_string \<times> byte_array) res" where
  "readUTFBytes len th = bindE (has_BOM th) (\<lambda>bom.
     let th = (if bom then th\<lparr>ba_position := ba_position th + 3\<rparr> else th);
         len = (if bom then len - (if 3 < len then 3 else 0) else len)
     in if len + 1 = 0 then Inl OutOfBounds
        else bindE (ba_strncpy (ba_position th) (unat len) th) (\<lambda>buf.
             bindE (assign_cstr (buf @ [0]) ts_new) (\<lambda>s.
             bindE (checkValidUTF s) (\<lambda>s.
               Inr (s, th\<lparr>ba_position := ba_position th + len\<rparr>)))))"

definition readBytes_raw :: "u32 \<Rightarrow> u32 \<Rightarrow> byte_array \<Rightarrow> u8 list res" where
  "readBytes_raw offset len th =
     (if offset + len \<le> ba_len th then ba_load (unat offset) (unat len) th
      else Inl AssertionFailed)"

section \<open>Writing\<close>

text \<open>Room for the bytes up to the position after them, then the copy; a null result of
  \<open>getBuffer\<close> is not looked at.\<close>

definition write_bytes :: "u8 list \<Rightarrow> byte_array \<Rightarrow> byte_array res" where
  "write_bytes xs th =
     bindE (getBuffer (ba_position th + of_nat (length xs)) True th) (\<lambda>(_, th).
     bindE (ba_store (unat (ba_position th)) xs th) (\<lambda>th.
       Inr (th\<lparr>ba_position := ba_position th + of_nat (length xs)\<rparr>)))"

definition writeByte :: "u8 \<Rightarrow> byte_array \<Rightarrow> byte_array res" where
  "writeByte b = write_bytes [b]"

definition writeShort :: "u16 \<Rightarrow> byte_array \<Rightarrow> byte_array res" where
  "writeShort v th = write_bytes (bytes_le16 (endian16 (ba_littleEndian th) v)) th"

definition writeUnsignedInt :: "u32 \<Rightarrow> byte_array \<Rightarrow> byte_array res" where
  "writeUnsignedInt v th = write_bytes (bytes_le32 v) th"

definition writeUTF :: "tiny_string \<Rightarrow> byte_array \<Rightarrow> byte_array res" where
  "writeUTF str th =
     bindE (getBuffer (ba_position th + of_nat (numBytes str) + 2) True th) (\<lambda>(_, th).
       if 65535 < numBytes str then Inr (createError RangeError th)
       else
         let len = endian16 (ba_littleEndian th) (of_nat (numBytes str))
         in bindE (ba_store (unat (ba_position th)) (bytes_le16 len) th) (\<lambda>th.
            bindE (ba_store (unat (ba_position th) + 2) (ts_bytes str) th) (\<lambda>th.
              Inr (th\<lparr>ba_position := ba_position th + (of_nat (numBytes str) + 2)\<rparr>))))"

text \<open>The four rounds of \<open>writeU29\<close>, \<open>i = 4 - n\<close>.\<close>

fun writeU29_loop :: "u32 \<Rightarrow> nat \<Rightarrow> nat \<Rightarrow> byte_array \<Rightarrow> byte_array res" where
  "writeU29_loop val fourbytes 0 th = Inr th"
| "writeU29_loop val fourbytes (Suc n) th =
     (if 0 < n then
        (let tmp = drop_bit (n * 7 + fourbytes) val
         in if tmp = 0 then writeU29_loop val fourbytes n th
            else bindE (writeByte (ucast ((tmp AND 0x7f) OR 0x80)) th) (writeU29_loop val fourbytes n))
      else bindE (writeByte (ucast (val AND 0x7f)) th) (writeU29_loop val fourbytes n))"

definition writeU29 :: "u32 \<Rightarrow> byte_array \<Rightarrow> byte_array res" where
  "writeU29 val = writeU29_loop val (if val AND 0xff000000 \<noteq> 0 then 1 else 0) 4"

definition serializeDouble :: "u64 \<Rightarrow> byte_array \<Rightarrow> byte_array res" where
  "serializeDouble val th = foldE writeByte th (bytes_le64 (swap64 val))"

text \<open>The string and object tables of AMF serialization, in the order of insertion.\<close>

definition writeStringVR ::
  "(u8 list \<times> u32) list \<Rightarrow> tiny_string \<Rightarrow> byte_array \<Rightarrow> ((u8 list \<times> u32) list \<times> byte_array) res" where
  "writeStringVR stringMap s th =
     (let len = numBytes s
      in if 2 ^ 28 \<le> len then Inr (stringMap, createError RangeError th)
         else case map_of stringMap (ts_bytes s) of
           Some i \<Rightarrow> bindE (writeU29 (push_bit 1 i) th) (\<lambda>th. Inr (stringMap, th))
         | None \<Rightarrow>
             let stringMap' = (if len \<noteq> 0 then stringMap @ [(ts_bytes s, of_nat (length stringMap))]
                               else stringMap)
             in bindE (writeU29 (push_bit 1 (of_nat len) OR 1) th) (\<lambda>th.
                bindE (write_bytes (ts_bytes s) th) (\<lambda>th. Inr (stringMap', th))))"

definition writeStringAMF0 :: "tiny_string \<Rightarrow> byte_array \<Rightarrow> byte_array res" where
  "writeStringAMF0 s th =
     (let len = numBytes s
      in if len \<le> 0xffff then writeUTF s th
         else bindE (getBuffer (ba_position th + of_nat len + 4) True th) (\<lambda>(_, th).
              bindE (ba_store (unat (ba_position th))
                       (bytes_le32 (endian32 (ba_littleEndian th) (of_nat len))) th) (\<lambda>th.
              bindE (ba_store (unat (ba_position th) + 4) (ts_bytes s) th) (\<lambda>th.
                Inr (th\<lparr>ba_position := ba_position th + (of_nat len + 4)\<rparr>)))))"

definition writeXMLString ::
  "(nat \<times> u32) list \<Rightarrow> nat \<Rightarrow> tiny_string \<Rightarrow> byte_array \<Rightarrow> ((nat \<times> u32) list \<times> byte_array) res" where
  "writeXMLString objMap xml str th =
     (if 2 ^ 28 \<le> numBytes str then Inr (objMap, createError RangeError th)
      else case map_of objMap xml of
        Some i \<Rightarrow> bindE (writeU29 (push_bit 1 i) th) (\<lambda>th. Inr (objMap, th))
      | None \<Rightarrow>
          bindE (writeU29 (push_bit 1 (of_nat (numBytes str)) OR 1) th) (\<lambda>th.
          bindE (write_bytes (ts_bytes str) th) (\<lambda>th.
            Inr (objMap @ [(xml, of_nat (length objMap))], th))))"

text \<open>\<open>append\<close> from memory and from a stream that delivers the bytes \<open>data\<close>, and \<open>removeFrontBytes\<close>.\<close>

definition ba_append :: "u8 list \<Rightarrow> byte_array \<Rightarrow> byte_array res" where
  "ba_append data th =
     (let th = ba_lock th; oldlen = ba_len th
      in bindE (getBuffer (ba_len th + of_nat (length data)) True th) (\<lambda>(_, th).
         bindE (ba_store (unat oldlen) data th) (\<lambda>th. Inr (ba_unlock th))))"

definition removeFrontBytes :: "int \<Rightarrow> byte_array \<Rightarrow> byte_array res" where
  "removeFrontBytes count th =
     bindE (if count < sint (ba_len th) then
              (if count < 0 then Inl OutOfBounds
               else bindE (ba_load (nat count) (unat (ba_len th - of_int count)) th) (\<lambda>xs.
                      ba_store 0 xs th))
            else Inr th)
       (\<lambda>th. Inr (th\<lparr>ba_position := ba_position th - of_int count, ba_len := ba_len th - of_int count\<rparr>))"


section \<open>The invariant and the visible content\<close>

definition ba_ok :: "byte_array \<Rightarrow> bool" where
  "ba_ok th \<longleftrightarrow> (case ba_bytes th of
     None \<Rightarrow> ba_real_len th = 0 \<and> ba_len th = 0
   | Some b \<Rightarrow> length b = unat (ba_real_len th) \<and> ba_len th \<le> ba_real_len th)"

definition ba_data :: "byte_array \<Rightarrow> u8 list" where
  "ba_data th = (case ba_bytes th of None \<Rightarrow> [] | Some b \<Rightarrow> take (unat (ba_len th)) b)"

text \<open>What the operations on the buffer leave alone.\<close>

definition ba_same :: "byte_array \<Rightarrow> byte_array \<Rightarrow> bool" where
  "ba_same th th' \<longleftrightarrow> ba_littleEndian th' = ba_littleEndian th
     \<and> ba_objectEncoding th' = ba_objectEncoding th
     \<and> ba_currentObjectEncoding th' = ba_currentObjectEncoding th
     \<and> ba_shareable th' = ba_shareable th \<and> ba_locks th' = ba_locks th \<and> ba_error th' = ba_error th"

lemma ba_same_refl [simp]: "ba_same th th"
  by (simp add: ba_same_def)

lemma ba_same_trans [trans]: "ba_same a b \<Longrightarrow> ba_same b c \<Longrightarrow> ba_same a c"
  by (simp add: ba_same_def)

lemma length_ba_data: "ba_ok th \<Longrightarrow> length (ba_data th) = unat (ba_len th)"
  by (auto simp: ba_ok_def ba_data_def word_le_nat_alt split: option.splits)

lemma ba_ok_new [simp]: "length b < 2 ^ 32 \<Longrightarrow> ba_ok (ba_new (Some b) (of_nat (length b)))"
  by (simp add: ba_ok_def ba_new_def unat_of_nat)

lemma ba_ok_position [simp]: "ba_ok (th\<lparr>ba_position := p\<rparr>) = ba_ok th"
  by (cases "ba_bytes th") (simp_all add: ba_ok_def)

lemma ba_data_position [simp]: "ba_data (th\<lparr>ba_position := p\<rparr>) = ba_data th"
  by (cases "ba_bytes th") (simp_all add: ba_data_def)

lemma grow_len_bounds: "n \<le> grow_len r n \<and> r \<le> grow_len r n \<and> (r < n \<longrightarrow> grow_len r n < n + BA_CHUNK_SIZE)"
proof (induction r n rule: grow_len.induct)
  case (1 r n)
  show ?case
  proof (cases "r < n")
    case True
    have "grow_len (r + BA_CHUNK_SIZE) n < n + BA_CHUNK_SIZE"
    proof (cases "r + BA_CHUNK_SIZE < n")
      case False
      with True show ?thesis
        by (simp add: grow_len.simps [of "r + BA_CHUNK_SIZE" n])
    qed (use 1 True in simp)
    with 1 True show ?thesis
      by (simp add: grow_len.simps [of r n])
  qed (simp add: grow_len.simps [of r n])
qed

text \<open>A request of at most 1 GiB always succeeds: the visible content is kept and only grows.\<close>

lemma getBuffer_spec:
  assumes "ba_ok th" and "n \<le> BA_MAX_SIZE"
  obtains th' where "getBuffer n True th = Inr (True, th')" and "ba_ok th'"
    and "unat (ba_len th') = max (unat (ba_len th)) (unat n)" and "take (unat (ba_len th)) (ba_data th') = ba_data th"
    and "ba_position th' = ba_position th" and "ba_same th th'"
proof -
  have small: "unat n \<le> 2 ^ 30"
    using assms(2) by (simp add: BA_MAX_SIZE_def word_le_nat_alt)
  have "\<exists>th'. getBuffer n True th = Inr (True, th') \<and> ba_ok th'
    \<and> unat (ba_len th') = max (unat (ba_len th)) (unat n)
    \<and> take (unat (ba_len th)) (ba_data th') = ba_data th \<and> ba_position th' = ba_position th
    \<and> ba_same th th'"
  proof (cases "ba_bytes th")
    case None
    with assms show ?thesis
      by (auto simp: getBuffer_def getBufferIntern_def ba_ok_def ba_data_def ba_same_def not_le)
  next
    case (Some b)
    with assms(1) have b: "length b = unat (ba_real_len th)" "ba_len th \<le> ba_real_len th"
      by (simp_all add: ba_ok_def)
    show ?thesis
    proof (cases "ba_real_len th < n")
      case False
      with Some b assms(2) show ?thesis
        by (auto simp: getBuffer_def getBufferIntern_def ba_ok_def ba_data_def ba_same_def max_def
            word_le_nat_alt word_less_nat_alt min_def)
    next
      case True
      define g where "g = grow_len (unat (ba_real_len th)) (unat n)"
      have g: "unat n \<le> g" "g < 2 ^ 32"
        using grow_len_bounds [of "unat n" "unat (ba_real_len th)"] True small
        by (auto simp: g_def BA_CHUNK_SIZE_def word_less_nat_alt)
      then have ug: "unat (of_nat g :: u32) = g"
        by (intro of_nat_inverse) simp_all
      have len: "unat (ba_len th) \<le> length b" "unat (ba_len th) < unat n"
        using b True by (simp_all add: word_le_nat_alt word_less_nat_alt)
      have eq: "getBuffer n True th = Inr (True, th\<lparr>ba_real_len := of_nat g, ba_len := n,
          ba_bytes := Some (take (unat (ba_len th)) b @ replicate (g - unat (ba_len th)) 0)\<rparr>)"
        using True Some assms(2) len(1)
        by (auto simp: getBuffer_def getBufferIntern_def g_def [symmetric] Let_def not_less)
      then show ?thesis
        using Some g ug len True by (auto simp: ba_ok_def ba_data_def ba_same_def word_le_nat_alt
            word_less_nat_alt max_def min_def)
    qed
  qed
  with that show thesis
    by blast
qed

section \<open>Writing at the position\<close>

definition overwrite :: "nat \<Rightarrow> 'a list \<Rightarrow> 'a list \<Rightarrow> 'a list" where
  "overwrite p xs d = take p d @ xs @ drop (p + length xs) d"

text \<open>
  \<open>wrote xs th th'\<close>: the abstract effect of writing \<open>xs\<close> at a position inside the content or at
  its end: the bytes are replaced or appended and the position moves behind them.
\<close>

definition wrote :: "u8 list \<Rightarrow> byte_array \<Rightarrow> byte_array \<Rightarrow> bool" where
  "wrote xs th th' \<longleftrightarrow> ba_ok th' \<and> ba_data th' = overwrite (unat (ba_position th)) xs (ba_data th)
     \<and> unat (ba_position th') = unat (ba_position th) + length xs \<and> ba_same th th'"

text \<open>The precondition: the position lies in the content and there is room below 1 GiB.\<close>

definition room :: "nat \<Rightarrow> byte_array \<Rightarrow> bool" where
  "room n th \<longleftrightarrow> ba_ok th \<and> ba_position th \<le> ba_len th \<and> unat (ba_position th) + n \<le> 2 ^ 30"

lemma length_overwrite: "p \<le> length d \<Longrightarrow> length (overwrite p xs d) = max (length d) (p + length xs)"
  by (simp add: overwrite_def)

lemma overwrite_overwrite:
  assumes "p \<le> length d"
  shows "overwrite (p + length xs) ys (overwrite p xs d) = overwrite p (xs @ ys) d"
  using assms by (simp add: overwrite_def ac_simps)

lemma read_overwrite: "p \<le> length d \<Longrightarrow> take (length xs) (drop p (overwrite p xs d)) = xs"
  by (simp add: overwrite_def)

lemma wrote_room:
  assumes "room (length xs + n) th" and "wrote xs th th'"
  shows "room n th'"
proof -
  have "length (ba_data th') = unat (ba_len th')"
    using assms(2) by (intro length_ba_data) (simp add: wrote_def)
  moreover have "length (ba_data th) = unat (ba_len th)" "unat (ba_position th) \<le> unat (ba_len th)"
    using assms(1) by (simp_all add: room_def length_ba_data word_le_nat_alt)
  ultimately show ?thesis
    using assms by (auto simp: room_def wrote_def length_overwrite word_le_nat_alt)
qed

lemma wrote_trans:
  assumes "room (length xs + length ys) th" and "wrote xs th th'" and "wrote ys th' th''"
  shows "wrote (xs @ ys) th th''"
proof -
  have "unat (ba_position th) \<le> length (ba_data th)"
    using assms(1) by (simp add: room_def length_ba_data word_le_nat_alt)
  then show ?thesis
    using assms(2,3) by (auto simp: wrote_def overwrite_overwrite intro: ba_same_trans)
qed

lemma wrote_Nil: "ba_ok th \<Longrightarrow> wrote [] th th"
  by (simp add: wrote_def overwrite_def)

lemma position_add:
  assumes "unat p + n \<le> 2 ^ 30"
  shows "unat (p + of_nat n :: u32) = unat p + n"
proof -
  have "unat (of_nat n :: u32) = n"
    using assms by (intro of_nat_inverse) simp_all
  then show ?thesis
    using assms unat_add_lem [of p "of_nat n"] by simp
qed

lemma ba_store_spec:
  assumes "ba_ok th" and "p + length xs \<le> unat (ba_len th)"
  shows "\<exists>th'. ba_store p xs th = Inr th' \<and> ba_ok th' \<and> ba_data th' = overwrite p xs (ba_data th)
    \<and> ba_len th' = ba_len th \<and> ba_position th' = ba_position th \<and> ba_same th th'"
proof (cases "ba_bytes th")
  case None
  with assms have "xs = []" "p = 0"
    by (auto simp: ba_ok_def)
  with None assms show ?thesis
    by (simp add: ba_store_def overwrite_def)
next
  case (Some b)
  with assms(1) have b: "length b = unat (ba_real_len th)" "unat (ba_len th) \<le> unat (ba_real_len th)"
    by (simp_all add: ba_ok_def word_le_nat_alt)
  show ?thesis
  proof (cases "xs = []")
    case True
    with assms show ?thesis
      by (simp add: ba_store_def overwrite_def)
  next
    case False
    have "take (unat (ba_len th)) (blit p xs b) = overwrite p xs (take (unat (ba_len th)) b)"
      using assms(2) b by (simp add: blit_def overwrite_def drop_take min.absorb1)
    with False Some b assms show ?thesis
      by (auto simp: ba_store_def mem_write_def ba_ok_def ba_data_def ba_same_def word_le_nat_alt)
  qed
qed

lemma getBuffer_room:
  assumes "room n th"
  obtains th1 where "getBuffer (ba_position th + of_nat n) True th = Inr (True, th1)" and "ba_ok th1"
    and "unat (ba_position th) + n \<le> unat (ba_len th1)"
    and "\<And>xs. length xs = n \<Longrightarrow>
      overwrite (unat (ba_position th)) xs (ba_data th1) = overwrite (unat (ba_position th)) xs (ba_data th)"
    and "ba_position th1 = ba_position th" and "ba_same th th1"
proof -
  let ?p = "ba_position th"
  have pos: "unat (?p + of_nat n) = unat ?p + n" "ba_ok th" "?p \<le> ba_len th"
    using assms by (simp_all add: room_def position_add)
  have "?p + of_nat n \<le> BA_MAX_SIZE"
    using assms pos(1) by (simp add: BA_MAX_SIZE_def room_def word_le_nat_alt)
  from getBuffer_spec [OF pos(2) this] obtain th1 where th1:
    "getBuffer (?p + of_nat n) True th = Inr (True, th1)" "ba_ok th1"
    "unat (ba_len th1) = max (unat (ba_len th)) (unat (?p + of_nat n))"
    "take (unat (ba_len th)) (ba_data th1) = ba_data th" "ba_position th1 = ?p" "ba_same th th1" .
  have len1: "unat (ba_len th1) = max (unat (ba_len th)) (unat ?p + n)"
    unfolding th1(3) pos(1) ..
  have d: "overwrite (unat ?p) xs (ba_data th1) = overwrite (unat ?p) xs (ba_data th)"
    if xs: "length xs = n" for xs
  proof -
    have l: "length (ba_data th1) = unat (ba_len th1)" "unat ?p \<le> unat (ba_len th)"
      using th1(2) pos(3) by (simp_all add: length_ba_data word_le_nat_alt)
    then have "take (unat ?p) (ba_data th1) = take (unat ?p) (ba_data th)"
      using th1(4) by (metis min.absorb1 take_take)
    moreover have "drop (unat ?p + n) (ba_data th1) = drop (unat ?p + n) (ba_data th)"
    proof (cases "unat ?p + n \<le> unat (ba_len th)")
      case True
      then have "unat (ba_len th1) = unat (ba_len th)"
        using len1 by simp
      then have "ba_data th1 = ba_data th"
        using th1(4) l(1) by simp
      then show ?thesis
        by simp
    next
      case False
      then show ?thesis
        using l(1) len1 length_ba_data [OF pos(2)] by simp
    qed
    ultimately show ?thesis
      by (simp add: overwrite_def xs)
  qed
  show thesis
    by (rule that [OF th1(1,2) _ d th1(5,6)]) (simp_all add: len1)
qed

lemma write_bytes_spec:
  assumes "room (length xs) th"
  obtains th' where "write_bytes xs th = Inr th'" and "wrote xs th th'"
proof -
  let ?p = "ba_position th"
  obtain th1 where th1: "getBuffer (?p + of_nat (length xs)) True th = Inr (True, th1)" "ba_ok th1"
    "unat ?p + length xs \<le> unat (ba_len th1)"
    "overwrite (unat ?p) xs (ba_data th1) = overwrite (unat ?p) xs (ba_data th)"
    "ba_position th1 = ?p" "ba_same th th1"
    using getBuffer_room [OF assms] by metis
  obtain th2 where th2: "ba_store (unat ?p) xs th1 = Inr th2" "ba_ok th2"
    "ba_data th2 = overwrite (unat ?p) xs (ba_data th1)" "ba_position th2 = ?p" "ba_same th1 th2"
    using ba_store_spec [OF th1(2,3)] th1(5) by auto
  define th' where "th' = th2\<lparr>ba_position := ?p + of_nat (length xs)\<rparr>"
  have "write_bytes xs th = Inr th'"
    by (simp add: write_bytes_def th1(1,5) th2(1,4) th'_def)
  moreover have "wrote xs th th'"
    using th2 th1(4,6) assms position_add [of ?p "length xs"]
    by (auto simp: wrote_def th'_def ba_same_def room_def)
  ultimately show thesis
    by (rule that)
qed

text \<open>Writing byte by byte has the same effect.\<close>

lemma foldE_writeByte_spec:
  assumes "room (length xs) th"
  obtains th' where "foldE writeByte th xs = Inr th'" and "wrote xs th th'"
proof -
  have "\<exists>th'. foldE writeByte th xs = Inr th' \<and> wrote xs th th'"
    using assms
  proof (induction xs arbitrary: th)
    case Nil
    then show ?case
      by (simp add: wrote_Nil room_def)
  next
    case (Cons x xs)
    then have "room (length [x]) th"
      by (simp add: room_def)
    then obtain th1 where th1: "writeByte x th = Inr th1" "wrote [x] th th1"
      unfolding writeByte_def by (rule write_bytes_spec)
    have "room (length [x] + length xs) th"
      using Cons.prems by simp
    with th1(2) have "room (length xs) th1"
      by (metis wrote_room)
    then obtain th2 where "foldE writeByte th1 xs = Inr th2" "wrote xs th1 th2"
      using Cons.IH by blast
    with th1 wrote_trans [of "[x]" xs th th1 th2] Cons.prems show ?case
      by auto
  qed
  with that show thesis
    by blast
qed

section \<open>Reading at the position\<close>

lemma ba_load_spec:
  assumes "ba_ok th" and "p + n \<le> unat (ba_len th)"
  shows "ba_load p n th = Inr (take n (drop p (ba_data th)))"
proof (cases "ba_bytes th")
  case None
  with assms have "n = 0"
    by (auto simp: ba_ok_def)
  then show ?thesis
    by (simp add: ba_load_def)
next
  case (Some b)
  with assms(1) have "length b = unat (ba_real_len th)" "unat (ba_len th) \<le> unat (ba_real_len th)"
    by (simp_all add: ba_ok_def word_le_nat_alt)
  with Some assms(2) show ?thesis
    by (auto simp: ba_load_def mem_read_def ba_data_def drop_take)
qed

lemma readByte_spec:
  assumes "ba_ok th" and "ba_position th < ba_len th"
  shows "readByte th = Inr (Some (ba_data th ! unat (ba_position th)),
    th\<lparr>ba_position := ba_position th + 1\<rparr>)"
proof -
  let ?p = "unat (ba_position th)"
  have p: "?p + 1 \<le> unat (ba_len th)"
    using assms(2) by (simp add: word_less_nat_alt)
  then have "take 1 (drop ?p (ba_data th)) = [ba_data th ! ?p]"
    using length_ba_data [OF assms(1)] by (simp add: take_Suc_conv_app_nth hd_drop_conv_nth take_Suc)
  with ba_load_spec [OF assms(1) p] assms(2) show ?thesis
    by (simp add: readByte_def not_le)
qed

lemma readByte_eof: "ba_len th \<le> ba_position th \<Longrightarrow> readByte th = Inr (None, th)"
  by (simp add: readByte_def)

text \<open>A read of \<open>n\<close> bytes never faults while \<open>position + n\<close> does not wrap around: it delivers the
  bytes or reports the end of the data and leaves the position.\<close>

lemma read_fixed_spec:
  assumes "ba_ok th" and "unat (ba_position th) + unat n < 2 ^ 32"
  shows "read_fixed n th =
    (if unat (ba_position th) + unat n \<le> unat (ba_len th)
     then Inr (Some (take (unat n) (drop (unat (ba_position th)) (ba_data th))),
               th\<lparr>ba_position := ba_position th + n\<rparr>)
     else Inr (None, th))"
proof -
  have "unat (ba_position th + n) = unat (ba_position th) + unat n"
    using assms(2) by (intro unat_add_lem [THEN iffD1]) simp
  then show ?thesis
    using ba_load_spec [OF assms(1), of "unat (ba_position th)" "unat n"]
    by (auto simp: read_fixed_def word_less_nat_alt)
qed

text \<open>Reading back what was written at the old position.\<close>

lemma wrote_read:
  assumes "room (length xs) th" and "wrote xs th th'"
  shows "take (length xs) (drop (unat (ba_position th)) (ba_data th')) = xs"
    and "unat (ba_position th) + length xs \<le> unat (ba_len th')"
proof -
  have "unat (ba_position th) \<le> length (ba_data th)"
    using assms(1) by (simp add: room_def length_ba_data word_le_nat_alt)
  moreover have "length (ba_data th') = unat (ba_len th')"
    using assms(2) unfolding wrote_def by (metis length_ba_data)
  ultimately show "take (length xs) (drop (unat (ba_position th)) (ba_data th')) = xs"
    and "unat (ba_position th) + length xs \<le> unat (ba_len th')"
    using assms(2) length_overwrite [of "unat (ba_position th)" "ba_data th" xs]
    by (simp_all add: wrote_def read_overwrite)
qed

section \<open>Codecs of fixed width\<close>

text \<open>
  What the readers and writers of numbers rely on: an encoding of fixed width with a left inverse.
  The byte orders of the three widths provide it.
\<close>

locale fixed_codec =
  fixes enc :: "'w \<Rightarrow> u8 list" and dec :: "u8 list \<Rightarrow> 'w" and width :: nat
  assumes dec_enc: "dec (enc w) = w"
    and length_enc: "length (enc w) = width"
    and width_small: "width \<le> 8"
begin

lemma write_read:
  assumes "room width th"
  shows "\<exists>th'. write_bytes (enc w) th = Inr th' \<and> wrote (enc w) th th'
    \<and> (\<exists>bs. read_fixed (of_nat width) (th'\<lparr>ba_position := ba_position th\<rparr>)
          = Inr (Some bs, th'\<lparr>ba_position := ba_position th + of_nat width\<rparr>) \<and> dec bs = w)"
proof -
  have r: "room (length (enc w)) th"
    using assms by (simp add: length_enc)
  obtain th' where th': "write_bytes (enc w) th = Inr th'" "wrote (enc w) th th'"
    using write_bytes_spec [OF r] .
  let ?th0 = "th'\<lparr>ba_position := ba_position th\<rparr>"
  have n: "unat (of_nat width :: u32) = width"
    using width_small by (intro of_nat_inverse) simp_all
  have "read_fixed (of_nat width) ?th0 = Inr (Some (enc w), ?th0\<lparr>ba_position := ba_position th + of_nat width\<rparr>)"
    using read_fixed_spec [of ?th0 "of_nat width"] th'(2) r wrote_read [OF r th'(2)]
    by (simp add: n wrote_def room_def length_enc)
  with th' show ?thesis
    by (auto simp: dec_enc)
qed

end

lemma endian_involution [simp]:
  "endian16 le (endian16 le a) = a" "endian32 le (endian32 le b) = b"
  by (simp_all add: endian16_def endian32_def)

interpretation codec16: fixed_codec "\<lambda>v. bytes_le16 (endian16 le v)" "\<lambda>bs. endian16 le (le16 bs)" 2
  for le by unfold_locales simp_all

interpretation codec32: fixed_codec "\<lambda>v. bytes_le32 (endian32 le v)" "\<lambda>bs. endian32 le (le32 bs)" 4
  for le by unfold_locales simp_all


interpretation codec64: fixed_codec "\<lambda>v. bytes_le64 (endian64 le v)" "\<lambda>bs. endian64 le (le64 bs)" 8
  for le by unfold_locales (simp_all add: endian64_def)

section \<open>Integers of up to 29 bits\<close>

text \<open>The bytes \<open>writeU29\<close> stores for a value of at most 21 bits.\<close>

definition u29_bytes :: "u32 \<Rightarrow> u8 list" where
  "u29_bytes v =
     (if drop_bit 14 v \<noteq> 0 then [ucast ((drop_bit 14 v AND 0x7f) OR 0x80)] else [])
     @ (if drop_bit 7 v \<noteq> 0 then [ucast ((drop_bit 7 v AND 0x7f) OR 0x80)] else [])
     @ [ucast (v AND 0x7f)]"

lemma drop_bit_zero_small:
  fixes v :: u32
  assumes "v < 2 ^ n"
  shows "drop_bit n v = 0"
  using not_bit_small [OF assms] by (intro bit_word_eqI) (simp add: bit_simps)

lemma writeU29_bytes:
  assumes "v < 0x200000"
  shows "writeU29 v th = foldE writeByte th (u29_bytes v)"
proof -
  have z: "drop_bit 21 v = 0"
    using drop_bit_zero_small [of v 21] assms by simp
  have "\<not> bit v k" if "21 \<le> k" for k
    using not_bit_small [of v 21 k] assms that by simp
  then have "v AND push_bit 24 (mask 8) = 0"
    by (intro bit_word_eqI) (auto simp: bit_simps)
  moreover have "(0xff000000 :: u32) = push_bit 24 (mask 8)"
    by (simp add: push_bit_eq_mult mask_eq_exp_minus_1)
  ultimately have "v AND 0xff000000 = 0"
    by simp
  then have "writeU29 v th = writeU29_loop v 0 (Suc (Suc (Suc (Suc 0)))) th"
    by (simp add: writeU29_def numeral_eq_Suc)
  also have "\<dots> = foldE writeByte th (u29_bytes v)"
  proof -
    have l0: "writeU29_loop v 0 0 = Inr"
      by (rule ext) simp
    have l1: "writeU29_loop v 0 (Suc 0) = (\<lambda>th. bindE (writeByte (ucast (v AND 0x7f)) th) Inr)"
      by (rule ext) (simp add: l0)
    have l2: "writeU29_loop v 0 (Suc (Suc 0)) =
        (\<lambda>th. if drop_bit 7 v = 0 then writeU29_loop v 0 (Suc 0) th
              else bindE (writeByte (ucast ((drop_bit 7 v AND 0x7f) OR 0x80)) th) (writeU29_loop v 0 (Suc 0)))"
      by (rule ext) simp
    show ?thesis
      using z by (simp add: u29_bytes_def l0 l1 l2)
  qed
  finally show ?thesis .
qed

lemma u29_masks:
  "(ucast (ucast ((g AND 0x7f) OR 0x80) :: u8) :: u32) AND 0x7f = g AND 0x7f"
  "(ucast ((g AND 0x7f) OR 0x80) :: u8) AND 0x80 \<noteq> 0"
  "(ucast (ucast (g AND 0x7f) :: u8) :: u32) AND 0x7f = g AND 0x7f"
  "(ucast (g AND 0x7f) :: u8) AND 0x80 = 0"
  for g :: u32
proof -
  have m: "(0x7f :: u32) = mask 7"
    by (simp add: mask_eq_exp_minus_1)
  show "(ucast (ucast ((g AND 0x7f) OR 0x80) :: u8) :: u32) AND 0x7f = g AND 0x7f"
    "(ucast (ucast (g AND 0x7f) :: u8) :: u32) AND 0x7f = g AND 0x7f"
    unfolding m by (rule bit_word_eqI; auto simp: bit_simps bit_lead_consts)+
  show "(ucast ((g AND 0x7f) OR 0x80) :: u8) AND 0x80 \<noteq> 0"
    "(ucast (g AND 0x7f) :: u8) AND 0x80 = 0"
    unfolding m byte_class by (simp_all add: bit_simps bit_lead_consts)
qed

lemma u29_step: "push_bit 7 (drop_bit 7 v) OR (v AND 0x7f) = (v :: u32)"
proof -
  have m: "(0x7f :: u32) = mask 7"
    by (simp add: mask_eq_exp_minus_1)
  show ?thesis
    unfolding m by (rule bit_word_eqI) (auto simp: bit_simps)
qed

lemma read_group:
  assumes "ba_ok th" and "ba_position th < ba_len th" and "1 < k"
    and "ba_data th ! unat (ba_position th) = ucast ((g AND 0x7f) OR 0x80)"
  shows "readU29_loop k r th
    = readU29_loop (k - 1) (push_bit 7 r OR (g AND 0x7f)) (th\<lparr>ba_position := ba_position th + 1\<rparr>)"
proof -
  obtain n where "k = Suc n" "0 < n"
    using assms(3) by (cases k) auto
  with assms(4) show ?thesis
    by (simp add: readByte_spec [OF assms(1,2)] u29_masks Let_def)
qed

lemma read_last:
  assumes "ba_ok th" and "ba_position th < ba_len th" and "1 < k"
    and "ba_data th ! unat (ba_position th) = ucast (g AND 0x7f)"
  shows "readU29_loop k r th
    = Inr (Some (push_bit 7 r OR (g AND 0x7f)), th\<lparr>ba_position := ba_position th + 1\<rparr>)"
proof -
  obtain n where "k = Suc n" "0 < n"
    using assms(3) by (cases k) auto
  with assms(4) show ?thesis
    by (simp add: readByte_spec [OF assms(1,2)] u29_masks Let_def)
qed

lemma readU29_bytes:
  assumes "ba_ok th" and "v < 0x200000" and "unat (ba_position th) + length (u29_bytes v) \<le> unat (ba_len th)"
    and "take (length (u29_bytes v)) (drop (unat (ba_position th)) (ba_data th)) = u29_bytes v"
  shows "readU29 th = Inr (Some v, th\<lparr>ba_position := ba_position th + of_nat (length (u29_bytes v))\<rparr>)"
proof -
  let ?p = "ba_position th"
  have pos: "unat (?p + of_nat i) = unat ?p + i" if "i \<le> length (u29_bytes v)" for i
  proof -
    have "length (u29_bytes v) \<le> 3"
      by (simp add: u29_bytes_def)
    with that have "i < 2 ^ 32"
      by simp
    then have "unat (of_nat i :: u32) = i"
      by (intro of_nat_inverse) simp_all
    moreover have "unat ?p + i < 2 ^ 32"
      using that assms(3) unat_u32_less [of "ba_len th"] by simp
    ultimately show ?thesis
      using unat_add_lem [of ?p "of_nat i"] by simp
  qed
  have byte: "ba_data th ! unat (?p + of_nat i) = u29_bytes v ! i" "?p + of_nat i < ba_len th"
    if "i < length (u29_bytes v)" for i
  proof -
    have "(take (length (u29_bytes v)) (drop (unat ?p) (ba_data th))) ! i = ba_data th ! (unat ?p + i)"
      using that assms(3) length_ba_data [OF assms(1)] by simp
    with that assms(4) show "ba_data th ! unat (?p + of_nat i) = u29_bytes v ! i"
      by (simp add: pos)
    show "?p + of_nat i < ba_len th"
      using that assms(3) by (simp add: word_less_nat_alt pos)
  qed
  define th1 where "th1 = th\<lparr>ba_position := ?p + of_nat 1\<rparr>"
  define th2 where "th2 = th\<lparr>ba_position := ?p + of_nat 2\<rparr>"
  have z: "drop_bit 7 (drop_bit 14 v) = 0"
    using drop_bit_zero_small [of v 21] assms(2) by simp
  have step14: "drop_bit 14 v AND 0x7f = drop_bit 14 v"
    using u29_step [of "drop_bit 14 v"] unfolding z by simp
  have step7: "push_bit 7 (drop_bit 14 v) OR (drop_bit 7 v AND 0x7f) = drop_bit 7 v"
    using u29_step [of "drop_bit 7 v"] by simp
  consider "drop_bit 14 v \<noteq> 0" | "drop_bit 14 v = 0" "drop_bit 7 v \<noteq> 0" | "drop_bit 14 v = 0" "drop_bit 7 v = 0"
    by blast
  then show ?thesis
  proof cases
    case 1
    have "drop_bit 7 v \<noteq> 0"
    proof
      assume "drop_bit 7 v = 0"
      then have "drop_bit 7 (drop_bit 7 v) = 0"
        by simp
      with 1 show False
        by simp
    qed
    with 1 have bs: "u29_bytes v = [ucast ((drop_bit 14 v AND 0x7f) OR 0x80),
        ucast ((drop_bit 7 v AND 0x7f) OR 0x80), ucast (v AND 0x7f)]"
      by (simp add: u29_bytes_def)
    have "readU29 th = readU29_loop 3 (push_bit 7 0 OR (drop_bit 14 v AND 0x7f)) th1"
      using byte [of 0] assms(1) read_group [of th 4 "drop_bit 14 v" 0]
      by (simp add: readU29_def bs th1_def)
    also have "\<dots> = readU29_loop 2 (push_bit 7 (drop_bit 14 v) OR (drop_bit 7 v AND 0x7f)) th2"
      using byte [of 1] assms(1) read_group [of th1 3 "drop_bit 7 v" "drop_bit 14 v"]
      by (simp add: bs th1_def th2_def step14 add.assoc)
    also have "\<dots> = Inr (Some v, th\<lparr>ba_position := ?p + of_nat (length (u29_bytes v))\<rparr>)"
      using byte [of 2] assms(1) read_last [of th2 2 v "drop_bit 7 v"]
      by (simp add: bs th2_def step7 u29_step add.assoc)
    finally show ?thesis .
  next
    case 2
    then have bs: "u29_bytes v = [ucast ((drop_bit 7 v AND 0x7f) OR 0x80), ucast (v AND 0x7f)]"
      by (simp add: u29_bytes_def)
    have "readU29 th = readU29_loop 3 (push_bit 7 0 OR (drop_bit 7 v AND 0x7f)) th1"
      using byte [of 0] assms(1) read_group [of th 4 "drop_bit 7 v" 0]
      by (simp add: readU29_def bs th1_def)
    also have "\<dots> = readU29_loop 3 (drop_bit 7 v) th1"
      using step7 2 by simp
    also have "\<dots> = Inr (Some v, th\<lparr>ba_position := ?p + of_nat (length (u29_bytes v))\<rparr>)"
      using byte [of 1] assms(1) read_last [of th1 3 v "drop_bit 7 v"]
      by (simp add: bs th1_def u29_step add.assoc)
    finally show ?thesis .
  next
    case 3
    then have bs: "u29_bytes v = [ucast (v AND 0x7f)]"
      by (simp add: u29_bytes_def)
    show ?thesis
      using byte [of 0] assms(1) read_last [of th 4 v 0] u29_step [of v] 3
      by (simp add: readU29_def bs)
  qed
qed


section \<open>Strings with a length prefix\<close>

lemma writeUTF_spec:
  assumes "room (length (ts_bytes s) + 2) th" and "length (ts_bytes s) \<le> 65535"
  obtains th' where "writeUTF s th = Inr th'"
    and "wrote (bytes_le16 (endian16 (ba_littleEndian th) (of_nat (length (ts_bytes s)))) @ ts_bytes s) th th'"
proof -
  let ?p = "ba_position th" and ?bs = "ts_bytes s"
  let ?l = "bytes_le16 (endian16 (ba_littleEndian th) (of_nat (length ?bs)))"
  obtain th1 where th1: "getBuffer (?p + of_nat (length ?bs + 2)) True th = Inr (True, th1)" "ba_ok th1"
    "unat ?p + (length ?bs + 2) \<le> unat (ba_len th1)"
    and ov: "\<And>xs. length xs = length ?bs + 2 \<Longrightarrow>
      overwrite (unat ?p) xs (ba_data th1) = overwrite (unat ?p) xs (ba_data th)"
    and th1': "ba_position th1 = ?p" "ba_same th th1"
    by (rule getBuffer_room [OF assms(1)]) blast
  have le: "ba_littleEndian th1 = ba_littleEndian th"
    using th1'(2) by (simp add: ba_same_def)
  obtain th2 where th2: "ba_store (unat ?p) ?l th1 = Inr th2" "ba_ok th2"
    "ba_data th2 = overwrite (unat ?p) ?l (ba_data th1)" "ba_len th2 = ba_len th1"
    "ba_position th2 = ?p" "ba_same th1 th2"
    using ba_store_spec [OF th1(2), of "unat ?p" ?l] th1(3) th1'(1) by auto
  obtain th3 where th3: "ba_store (unat ?p + 2) ?bs th2 = Inr th3" "ba_ok th3"
    "ba_data th3 = overwrite (unat ?p + 2) ?bs (ba_data th2)" "ba_position th3 = ?p" "ba_same th2 th3"
    using ba_store_spec [OF th2(2), of "unat ?p + 2" ?bs] th1(3) th2(4,5) by auto
  have "ba_data th3 = overwrite (unat ?p) (?l @ ?bs) (ba_data th)"
    using overwrite_overwrite [of "unat ?p" "ba_data th1" ?l ?bs] th1(2,3)
    by (simp add: th3(3) th2(3) length_ba_data ov)
  moreover have "of_nat (length ?bs + 2) = of_nat (length ?bs) + (2 :: u32)"
    by simp
  moreover from this have "unat (?p + (of_nat (length ?bs) + 2)) = unat ?p + (length ?bs + 2)"
    using position_add [of ?p "length ?bs + 2"] assms(1) by (simp only: room_def)
  moreover define th' where "th' = th3\<lparr>ba_position := ?p + (of_nat (length ?bs) + 2)\<rparr>"
  ultimately have "wrote (?l @ ?bs) th th'"
    using th3 th2(6) th1'(2) by (auto simp: wrote_def ba_same_def)
  moreover have "writeUTF s th = Inr th'"
  proof -
    have "getBuffer (?p + of_nat (length ?bs) + 2) True th = Inr (True, th1)"
      using th1(1) by (simp only: of_nat_add of_nat_numeral add.assoc)
    then show ?thesis
      using assms(2) by (simp add: writeUTF_def le th1'(1) th2(1,5) th3(1) [simplified] th3(4) th'_def)
  qed
  ultimately show thesis
    using that by blast
qed

lemma strncpy_no_nul:
  assumes "0 \<notin> set xs"
  shows "strncpy (xs @ ys) (length xs) = Inr xs"
  using assms by (induction xs) auto


definition BOM :: "u8 list" where
  "BOM = [0xef, 0xbb, 0xbf]"

text \<open>Reading a string without NULs and without a byte order mark at the end of the data.\<close>

lemma readUTF_spec:
  assumes "ba_ok th" and "length bs \<le> 65535" and "0 \<notin> set bs" and "take 3 bs \<noteq> BOM"
    and "drop (unat (ba_position th)) (ba_data th)
      = bytes_le16 (endian16 (ba_littleEndian th) (of_nat (length bs))) @ bs"
    and "unat (ba_len th) \<le> 2 ^ 30"
  shows "\<exists>s th'. readUTF th = Inr (Some s, th') \<and> ts_bytes s = bs
    \<and> ba_position th' = ba_len th \<and> ba_data th' = ba_data th"
proof -
  let ?p = "unat (ba_position th)" and ?n = "length bs"
  have dl: "length (ba_data th) = unat (ba_len th)"
    by (rule length_ba_data [OF assms(1)])
  have "length (drop ?p (ba_data th)) = 2 + ?n"
    using assms(5) by simp
  then have len: "?p + 2 + ?n = unat (ba_len th)"
    using dl by simp
  have un: "unat (of_nat ?n :: u16) = ?n"
    using assms(2) by (intro of_nat_inverse) simp_all
  define q where "q = ba_position th + 2"
  have q: "unat q = ?p + 2"
    using position_add [of "ba_position th" 2] len assms(6) by (simp add: q_def)
  define th1 where "th1 = th\<lparr>ba_position := q\<rparr>"
  have short: "readShort th = Inr (Some (of_nat ?n), th1)"
    using read_fixed_spec [OF assms(1), of 2] len assms(5,6)
    by (simp add: readShort_def th1_def q_def)
  have ul: "unat (q + of_nat ?n) = unat (ba_len th)"
    using position_add [of q ?n] q len assms(6) by simp
  then have ql: "q + of_nat ?n = ba_len th"
    by (simp add: word_unat_eq_iff)
  have dq: "drop (unat q) (ba_data th) = bs"
    using assms(5) q by (metis add.commute append_eq_conv_conj drop_drop length_bytes_le(1))
  have bom: "has_BOM th1 = Inr False"
  proof (cases "q + 3 < ba_len th")
    case True
    have "unat (q + 3) = unat q + 3"
      using unat_add_lem [of q 3] q len assms(6) by simp
    with True have "unat q + 3 \<le> unat (ba_len th)"
      by (simp add: word_less_nat_alt)
    with True show ?thesis
      using ba_load_spec [of th1 "unat q" 3] assms(1,4) dq
      by (simp add: has_BOM_def th1_def BOM_def)
  next
    case False
    then show ?thesis
      by (simp add: has_BOM_def th1_def)
  qed
  have copy: "ba_strncpy q ?n th1 = Inr bs"
  proof (cases "ba_bytes th")
    case None
    with assms(1) len show ?thesis
      by (auto simp: ba_strncpy_def th1_def ba_ok_def)
  next
    case (Some b)
    then have b: "take (unat (ba_len th)) b = ba_data th" "unat (ba_len th) \<le> length b"
      using assms(1) by (auto simp: ba_data_def ba_ok_def word_le_nat_alt)
    then have "drop (unat q) b = bs @ drop (unat (ba_len th)) b"
      using dq q len by (metis append_take_drop_id drop_append dl drop_eq_Nil diff_is_0_eq
          le_add1 drop_0)
    with Some b q len show ?thesis
      using strncpy_no_nul [OF assms(3)] by (auto simp: ba_strncpy_def th1_def)
  qed
  obtain s where s: "assign_cstr (bs @ [0]) ts_new = Inr s" "ts_bytes s = bs"
    using makePrivateCopy_spec [of "bs @ [0]" ts_new] cstr_terminated [OF assms(3)]
    by (auto simp: assign_cstr_def ts_init_def Let_def)
  have "unat (of_nat ?n :: u32) = ?n"
    using assms(2) by (intro of_nat_inverse) simp_all
  then have "(ucast (of_nat ?n :: u16) :: u32) = of_nat ?n"
    by (simp add: word_unat_eq_iff un)
  then show ?thesis
    using short bom copy s ql un
    by (simp add: readUTF_def th1_def)
qed


section \<open>Properties\<close>

text \<open>Numbers. With the position inside the content and room below 1 GiB, writing a 16-, 32- or
  64-bit number in either byte order succeeds, replaces exactly the bytes from the position on (or
  appends them) and advances the position; reading at the old position in the same byte order
  returns the number.\<close>

theorem number_roundtrip:
  assumes "room 8 th"
  shows "(\<exists>th'. writeShort a th = Inr th'
        \<and> wrote (bytes_le16 (endian16 (ba_littleEndian th) a)) th th'
        \<and> readShort (th'\<lparr>ba_position := ba_position th\<rparr>) = Inr (Some a, th'\<lparr>ba_position := ba_position th + 2\<rparr>))
    \<and> (\<exists>th'. writeUnsignedInt (endian32 (ba_littleEndian th) b) th = Inr th'
        \<and> wrote (bytes_le32 (endian32 (ba_littleEndian th) b)) th th'
        \<and> readUnsignedInt (th'\<lparr>ba_position := ba_position th\<rparr>) = Inr (Some b, th'\<lparr>ba_position := ba_position th + 4\<rparr>))
    \<and> (\<exists>th'. write_bytes (bytes_le64 (endian64 (ba_littleEndian th) c)) th = Inr th'
        \<and> wrote (bytes_le64 (endian64 (ba_littleEndian th) c)) th th'
        \<and> readDouble_at (ba_position th) th' = Inr (Some c))"
proof (intro conjI)
  have "room 2 th" "room 4 th"
    using assms by (simp_all add: room_def)
  note same = wrote_def ba_same_def
  show "\<exists>th'. writeShort a th = Inr th'
        \<and> wrote (bytes_le16 (endian16 (ba_littleEndian th) a)) th th'
        \<and> readShort (th'\<lparr>ba_position := ba_position th\<rparr>) = Inr (Some a, th'\<lparr>ba_position := ba_position th + 2\<rparr>)"
    using codec16.write_read [OF \<open>room 2 th\<close>, of "ba_littleEndian th" a]
    by (auto simp: writeShort_def readShort_def same)
  show "\<exists>th'. writeUnsignedInt (endian32 (ba_littleEndian th) b) th = Inr th'
        \<and> wrote (bytes_le32 (endian32 (ba_littleEndian th) b)) th th'
        \<and> readUnsignedInt (th'\<lparr>ba_position := ba_position th\<rparr>) = Inr (Some b, th'\<lparr>ba_position := ba_position th + 4\<rparr>)"
    using codec32.write_read [OF \<open>room 4 th\<close>, of "ba_littleEndian th" b]
    by (auto simp: writeUnsignedInt_def readUnsignedInt_def same)
  show "\<exists>th'. write_bytes (bytes_le64 (endian64 (ba_littleEndian th) c)) th = Inr th'
        \<and> wrote (bytes_le64 (endian64 (ba_littleEndian th) c)) th th'
        \<and> readDouble_at (ba_position th) th' = Inr (Some c)"
    using codec64.write_read [OF assms, of "ba_littleEndian th" c]
    by (auto simp: readDouble_at_def read_fixed_def same ba_load_def split: if_splits option.splits
        elim!: bindE_InrE)
qed

lemma number_roundtrip_witness:
  "\<exists>th'. writeShort 0x1234 (ba_new None 0) = Inr th' \<and> readShort (th'\<lparr>ba_position := 0\<rparr>) = Inr (Some 0x1234, th'\<lparr>ba_position := 2\<rparr>)"
  using number_roundtrip [where th = "ba_new None 0" and a = "0x1234"]
  by (auto simp: room_def ba_ok_def ba_new_def)

text \<open>C6: Variable length integers. A value of at most 21 bits takes one to three bytes and reads
  back as itself.\<close>

theorem u29_roundtrip:
  assumes "room 3 th" and "v < 0x200000"
  shows "\<exists>th'. writeU29 v th = Inr th' \<and> wrote (u29_bytes v) th th'
    \<and> readU29 (th'\<lparr>ba_position := ba_position th\<rparr>) = Inr (Some v, th')"
proof -
  have len: "length (u29_bytes v) \<le> 3"
    by (simp add: u29_bytes_def)
  then have r: "room (length (u29_bytes v)) th"
    using assms(1) by (simp add: room_def)
  obtain th' where th': "writeU29 v th = Inr th'" "wrote (u29_bytes v) th th'"
    using foldE_writeByte_spec [OF r] writeU29_bytes [OF assms(2), of th] by metis
  have "unat (ba_position th + of_nat (length (u29_bytes v))) = unat (ba_position th')"
    using th'(2) r position_add by (simp add: wrote_def room_def)
  then have "ba_position th + of_nat (length (u29_bytes v)) = ba_position th'"
    by (simp only: word_unat_eq_iff)
  then have "readU29 (th'\<lparr>ba_position := ba_position th\<rparr>) = Inr (Some v, th')"
    using readU29_bytes [OF _ assms(2), of "th'\<lparr>ba_position := ba_position th\<rparr>"] wrote_read [OF r th'(2)] th'(2)
    by (simp add: wrote_def)
  with th' show ?thesis
    by blast
qed

lemma u29_roundtrip_witness:
  "\<exists>th'. writeU29 0x4321 (ba_new None 0) = Inr th'
     \<and> readU29 (th'\<lparr>ba_position := ba_position (ba_new None 0)\<rparr>) = Inr (Some 0x4321, th')"
  using u29_roundtrip [of "ba_new None 0" "0x4321"] by (auto simp: room_def ba_ok_def ba_new_def)

text \<open>A value of 22 to 24 bits is read back wrongly: the writer shifts by seven where the reader
  expects eight bits in the last byte.\<close>

lemma u29_22_bits:
  "bindE (writeU29 0x200000 (ba_new None 0)) (\<lambda>th. bindE (readU29 (th\<lparr>ba_position := 0\<rparr>)) (\<lambda>(v, _). Inr v))
    = Inr (Some 0x400000)"
  by code_simp

text \<open>From 25 bits on, bit 7 of the value is lost.\<close>

lemma u29_25_bits:
  "bindE (writeU29 0x1000080 (ba_new None 0)) (\<lambda>th. bindE (readU29 (th\<lparr>ba_position := 0\<rparr>)) (\<lambda>(v, _). Inr v))
    = Inr (Some 0x1000000)"
  by code_simp

text \<open>Strings. A string of at most 65535 bytes without NUL and byte order mark, appended with
  \<open>writeUTF\<close> at the end of the data, takes its length and its bytes, and \<open>readUTF\<close> at the old
  position returns it and leaves the position at the end.\<close>

theorem utf_roundtrip:
  assumes "room (length (ts_bytes s) + 2) th" and "ba_position th = ba_len th"
    and "length (ts_bytes s) \<le> 65535" and "0 \<notin> set (ts_bytes s)" and "take 3 (ts_bytes s) \<noteq> BOM"
  shows "\<exists>th' s' th''. writeUTF s th = Inr th' \<and> length (ba_data th') = length (ba_data th) + 2 + length (ts_bytes s)
    \<and> readUTF (th'\<lparr>ba_position := ba_position th\<rparr>) = Inr (Some s', th'') \<and> ts_bytes s' = ts_bytes s
    \<and> ba_position th'' = ba_len th'"
proof -
  let ?bs = "ts_bytes s" and ?p = "unat (ba_position th)"
  let ?xs = "bytes_le16 (endian16 (ba_littleEndian th) (of_nat (length ?bs))) @ ?bs"
  obtain th' where th': "writeUTF s th = Inr th'" "wrote ?xs th th'"
    using writeUTF_spec [OF assms(1,3)] .
  have p: "?p = length (ba_data th)"
    using assms(1,2) by (simp add: room_def length_ba_data)
  then have data: "ba_data th' = ba_data th @ ?xs"
    using th'(2) by (simp add: wrote_def overwrite_def)
  moreover have "ba_ok th'" "ba_littleEndian th' = ba_littleEndian th"
    using th'(2) by (simp_all add: wrote_def ba_same_def)
  moreover from this data have "unat (ba_len th') = ?p + (length ?bs + 2)"
    using length_ba_data [of th'] p by simp
  ultimately have "\<exists>s' th''. readUTF (th'\<lparr>ba_position := ba_position th\<rparr>) = Inr (Some s', th'') \<and> ts_bytes s' = ?bs
    \<and> ba_position th'' = ba_len th' \<and> ba_data th'' = ba_data th'"
    using readUTF_spec [of "th'\<lparr>ba_position := ba_position th\<rparr>" ?bs] assms(1,3-5) p
    by (simp add: room_def)
  with th'(1) data show ?thesis
    by auto
qed

lemma utf_roundtrip_witness:
  "\<exists>th' s' th''. writeUTF (ts_of [0x61, 0xe9]) (ba_new None 0) = Inr th'
     \<and> readUTF (th'\<lparr>ba_position := 0\<rparr>) = Inr (Some s', th'') \<and> ts_bytes s' = utf8s [0x61, 0xe9]"
  using utf_roundtrip [of "ts_of [0x61, 0xe9]" "ba_new None 0"]
  by (auto simp: room_def ba_ok_def ba_new_def valid_cp_def BOM_def utf8_enc_def)

end
