(* ===== verification/ByteArrayMethods.thy ===== *)
theory ByteArrayMethods
  imports ByteArray
begin

text \<open>
  The methods of \<open>flash.utils.ByteArray\<close> in \<open>ByteArray.cpp\<close> as ActionScript calls them, with their
  argument checks, the end-of-file errors and the locking of shareable arrays.

  Arguments are the values after the conversion by \<open>asAtomHandler\<close> and \<open>ARG_UNPACK\<close>; \<open>argslen\<close> is
  passed where the code checks it. A result is an \<open>as_value\<close>; \<open>ANone\<close> is a return without storing
  one. Floating point numbers are their bits. The character set conversion of SDL and the
  compressors of zlib are parameters.
\<close>

datatype as_value = ANone | AUndefined | ABool bool | AInt int | AUInt u32 | AFloat u32 | ANumber u64
  | AString tiny_string

type_synonym 'a ba_result = "('a \<times> byte_array) res"

section \<open>Properties of the array\<close>

definition m_getPosition :: "byte_array \<Rightarrow> as_value" where
  "m_getPosition th = AUInt (ba_position th)"

definition m_setPosition :: "u32 \<Rightarrow> byte_array \<Rightarrow> as_value ba_result" where
  "m_setPosition pos th = Inr (ANone, setPosition pos th)"

definition m_getLength :: "byte_array \<Rightarrow> as_value" where
  "m_getLength th = AUInt (ba_len th)"

definition m_getBytesAvailable :: "byte_array \<Rightarrow> as_value" where
  "m_getBytesAvailable th = AUInt (ba_len th - ba_position th)"

text \<open>\<open>_setLength\<close> returns with the lock held when the length does not change.\<close>

definition m_setLength :: "nat \<Rightarrow> int \<Rightarrow> byte_array \<Rightarrow> as_value ba_result" where
  "m_setLength argslen arg th =
     (if argslen \<noteq> 1 then Inl AssertionFailed
      else
        let newLen = of_int arg; th = ba_lock th
        in if newLen = ba_len th then Inr (ANone, th)
           else bindE (setLength newLen th) (\<lambda>th. Inr (ANone, ba_unlock th)))"

definition m_getEndian :: "byte_array \<Rightarrow> bool" where
  "m_getEndian th = ba_littleEndian th"

definition little_endian_str :: "u8 list" where
  "little_endian_str = [0x6c, 0x69, 0x74, 0x74, 0x6c, 0x65, 0x45, 0x6e, 0x64, 0x69, 0x61, 0x6e]"

definition big_endian_str :: "u8 list" where
  "big_endian_str = [0x62, 0x69, 0x67, 0x45, 0x6e, 0x64, 0x69, 0x61, 0x6e]"

definition m_setEndian :: "tiny_string \<Rightarrow> byte_array \<Rightarrow> as_value ba_result" where
  "m_setEndian s th = bindE (ts_eq_cstr s little_endian_str) (\<lambda>little. bindE (ts_eq_cstr s big_endian_str) (\<lambda>big.
     Inr (ANone, if little then th\<lparr>ba_littleEndian := True\<rparr>
                 else if big then th\<lparr>ba_littleEndian := False\<rparr>
                 else createError ArgumentError th)))"

definition m_getObjectEncoding :: "byte_array \<Rightarrow> as_value" where
  "m_getObjectEncoding th = AUInt (ucast (ba_objectEncoding th))"

definition m_setObjectEncoding :: "u32 \<Rightarrow> byte_array \<Rightarrow> as_value ba_result" where
  "m_setObjectEncoding val th =
     (if val \<noteq> ucast AMF0 \<and> val \<noteq> ucast AMF3 then Inr (ANone, createError ArgumentError th)
      else Inr (ANone, th\<lparr>ba_objectEncoding := ucast val, ba_currentObjectEncoding := ucast val\<rparr>))"

definition m_setDefaultObjectEncoding :: "nat \<Rightarrow> int \<Rightarrow> u8 res" where
  "m_setDefaultObjectEncoding argslen val =
     (if argslen \<noteq> 1 then Inl AssertionFailed
      else if val = 0 then Inr AMF0 else if val = 3 then Inr AMF3 else Inl RunTime)"

definition m_constructor :: "u8 \<Rightarrow> byte_array \<Rightarrow> byte_array" where
  "m_constructor dflt th = th\<lparr>ba_currentObjectEncoding := dflt, ba_objectEncoding := dflt\<rparr>"

definition m_setShareable :: "bool \<Rightarrow> byte_array \<Rightarrow> as_value ba_result" where
  "m_setShareable val th = Inr (ANone, if \<not> ba_shareable th then th\<lparr>ba_shareable := val\<rparr> else th)"

definition m_clear :: "byte_array \<Rightarrow> as_value ba_result" where
  "m_clear th = Inr (ANone, ba_unlock ((ba_lock th)\<lparr>ba_bytes := None, ba_len := 0, ba_real_len := 0,
     ba_position := 0\<rparr>))"

section \<open>Reading\<close>

text \<open>The common shape: a read under the lock whose failure raises the end-of-file error.\<close>

definition read_method ::
  "bool \<Rightarrow> (byte_array \<Rightarrow> ('a option \<times> byte_array) res) \<Rightarrow> ('a \<Rightarrow> as_value) \<Rightarrow> byte_array \<Rightarrow> as_value ba_result"
where
  "read_method args_ok op val th =
     (if \<not> args_ok then Inl AssertionFailed
      else bindE (op (ba_lock th)) (\<lambda>(r, th). case r of
             None \<Rightarrow> Inr (ANone, createError EOFError (ba_unlock th))
           | Some v \<Rightarrow> Inr (val v, ba_unlock th)))"

definition m_readBoolean :: "byte_array \<Rightarrow> as_value ba_result" where
  "m_readBoolean = read_method True readByte (\<lambda>b. ABool (b \<noteq> 0))"

definition m_readByte :: "nat \<Rightarrow> byte_array \<Rightarrow> as_value ba_result" where
  "m_readByte argslen = read_method (argslen = 0) readByte (\<lambda>b. AInt (sint b))"

definition m_readUnsignedByte :: "nat \<Rightarrow> byte_array \<Rightarrow> as_value ba_result" where
  "m_readUnsignedByte argslen = read_method (argslen = 0) readByte (\<lambda>b. AUInt (ucast b))"

definition m_readShort :: "nat \<Rightarrow> byte_array \<Rightarrow> as_value ba_result" where
  "m_readShort argslen = read_method (argslen = 0) readShort (\<lambda>v. AInt (sint v))"

definition m_readUnsignedShort :: "nat \<Rightarrow> byte_array \<Rightarrow> as_value ba_result" where
  "m_readUnsignedShort argslen = read_method (argslen = 0) readShort (\<lambda>v. AUInt (ucast v))"

definition m_readUnsignedInt :: "nat \<Rightarrow> byte_array \<Rightarrow> as_value ba_result" where
  "m_readUnsignedInt argslen = read_method (argslen = 0) readUnsignedInt AUInt"

text \<open>\<open>readInt\<close> repeats the test and the copy of \<open>readUnsignedInt\<close> in place.\<close>

definition m_readInt :: "nat \<Rightarrow> byte_array \<Rightarrow> as_value ba_result" where
  "m_readInt argslen th =
     read_method (argslen = 0) (read_fixed 4)
       (\<lambda>bs. AInt (sint (endian32 (ba_littleEndian th) (le32 bs)))) th"

definition m_readFloat :: "nat \<Rightarrow> byte_array \<Rightarrow> as_value ba_result" where
  "m_readFloat argslen = read_method (argslen = 0)
     (\<lambda>th. bindE (readFloat_at (ba_position th) th) (\<lambda>r.
        Inr (r, if r = None then th else th\<lparr>ba_position := ba_position th + 4\<rparr>))) AFloat"

definition m_readDouble :: "nat \<Rightarrow> byte_array \<Rightarrow> as_value ba_result" where
  "m_readDouble argslen = read_method (argslen = 0)
     (\<lambda>th. bindE (readDouble_at (ba_position th) th) (\<lambda>r.
        Inr (r, if r = None then th else th\<lparr>ba_position := ba_position th + 8\<rparr>))) ANumber"

definition m_readUTF :: "byte_array \<Rightarrow> as_value ba_result" where
  "m_readUTF = read_method True readUTF AString"

text \<open>\<open>readUTFBytes\<close> does not release the lock when it succeeds.\<close>

definition m_readUTFBytes :: "u32 \<Rightarrow> byte_array \<Rightarrow> as_value ba_result" where
  "m_readUTFBytes len th =
     (let th = ba_lock th
      in if ba_len th < ba_position th + len then Inr (ANone, createError EOFError (ba_unlock th))
         else bindE (readUTFBytes len th) (\<lambda>(s, th). Inr (AString s, th)))"

text \<open>\<open>readMultiByte\<close>: \<open>iconv\<close> yields the converted bytes, if any. The position stays.\<close>

definition utf_8_str :: "u8 list" where
  "utf_8_str = [0x75, 0x74, 0x66, 0x2d, 0x38]"

definition m_readMultiByte ::
  "(u8 list \<Rightarrow> u8 list \<Rightarrow> u8 list option) \<Rightarrow> u32 \<Rightarrow> tiny_string \<Rightarrow> byte_array \<Rightarrow> as_value ba_result" where
  "m_readMultiByte iconv len charset th =
     (let th = ba_lock th
      in if ba_len th < ba_position th + len then Inr (ANone, createError EOFError (ba_unlock th))
         else bindE (ba_strncpy (ba_position th) (unat len) th) (\<lambda>s.
              bindE (ts_eq_cstr charset utf_8_str) (\<lambda>utf8.
              bindE (if utf8 then from_cstr (s @ [0]) True
                     else case iconv (ts_bytes charset) s of
                            Some v \<Rightarrow> from_cstr (v @ [0]) True | None \<Rightarrow> Inr ts_new) (\<lambda>res.
                Inr (AString res, ba_unlock th)))))"

text \<open>\<open>readBytes\<close> into another array \<open>out\<close>.\<close>

definition m_readBytes ::
  "byte_array \<Rightarrow> u32 \<Rightarrow> u32 \<Rightarrow> byte_array \<Rightarrow> (as_value \<times> byte_array \<times> byte_array) res" where
  "m_readBytes out offset len th =
     (let th = ba_lock th
      in if len = 0 \<and> ba_len th < ba_position th then Inl AssertionFailed
         else
           let len = (if len = 0 then ba_len th - ba_position th else len)
           in if ba_len th < ba_position th + len then
                Inr (ANone, createError EOFError (ba_unlock th), out)
              else if 0xFFFFFFFF < unat len + unat offset then
                Inr (ANone, createError RangeError (ba_unlock th), out)
              else bindE (getBuffer (len + offset) True out) (\<lambda>(ok, out).
                   bindE (ba_load (unat (ba_position th)) (unat len) th) (\<lambda>xs.
                   bindE (if ok \<or> xs = [] then ba_store (unat offset) xs out else Inl NullDeref) (\<lambda>out.
                     Inr (ANone, ba_unlock (th\<lparr>ba_position := ba_position th + len\<rparr>), out)))))"

section \<open>Writing\<close>

definition write_method :: "bool \<Rightarrow> (byte_array \<Rightarrow> byte_array res) \<Rightarrow> byte_array \<Rightarrow> as_value ba_result" where
  "write_method args_ok op th =
     (if \<not> args_ok then Inl AssertionFailed
      else bindE (op (ba_lock th)) (\<lambda>th. Inr (ANone, ba_unlock th)))"

definition m_writeByte :: "nat \<Rightarrow> int \<Rightarrow> byte_array \<Rightarrow> as_value ba_result" where
  "m_writeByte argslen v = write_method (argslen = 1) (writeByte (of_int v))"

definition m_writeBoolean :: "bool \<Rightarrow> byte_array \<Rightarrow> as_value ba_result" where
  "m_writeBoolean b = write_method True (writeByte (if b then 1 else 0))"

definition m_writeShort :: "int \<Rightarrow> byte_array \<Rightarrow> as_value ba_result" where
  "m_writeShort v = write_method True (writeShort (of_int v))"

definition m_writeInt :: "nat \<Rightarrow> int \<Rightarrow> byte_array \<Rightarrow> as_value ba_result" where
  "m_writeInt argslen v = write_method (argslen = 1)
     (\<lambda>th. write_bytes (bytes_le32 (endian32 (ba_littleEndian th) (of_int v))) th)"

definition m_writeUnsignedInt :: "nat \<Rightarrow> u32 \<Rightarrow> byte_array \<Rightarrow> as_value ba_result" where
  "m_writeUnsignedInt argslen v = write_method (argslen = 1)
     (\<lambda>th. writeUnsignedInt (endian32 (ba_littleEndian th) v) th)"

definition m_writeFloat :: "nat \<Rightarrow> u32 \<Rightarrow> byte_array \<Rightarrow> as_value ba_result" where
  "m_writeFloat argslen v = write_method (argslen = 1)
     (\<lambda>th. write_bytes (bytes_le32 (endian32 (ba_littleEndian th) v)) th)"

definition m_writeDouble :: "nat \<Rightarrow> u64 \<Rightarrow> byte_array \<Rightarrow> as_value ba_result" where
  "m_writeDouble argslen v = write_method (argslen = 1)
     (\<lambda>th. write_bytes (bytes_le64 (endian64 (ba_littleEndian th) v)) th)"

definition m_writeUTF :: "nat \<Rightarrow> tiny_string \<Rightarrow> byte_array \<Rightarrow> as_value ba_result" where
  "m_writeUTF argslen s = write_method (argslen = 1) (writeUTF s)"

definition m_writeUTFBytes :: "nat \<Rightarrow> tiny_string \<Rightarrow> byte_array \<Rightarrow> as_value ba_result" where
  "m_writeUTFBytes argslen s = write_method (argslen = 1) (write_bytes (ts_bytes s))"

definition m_writeMultiByte ::
  "(u8 list \<Rightarrow> u8 list \<Rightarrow> u8 list option) \<Rightarrow> tiny_string \<Rightarrow> tiny_string \<Rightarrow> byte_array \<Rightarrow> as_value ba_result"
where
  "m_writeMultiByte iconv val charset th = bindE (ts_eq_cstr charset utf_8_str) (\<lambda>utf8.
     write_method True
       (if utf8 then write_bytes (ts_bytes val)
        else case iconv (ts_bytes charset) (ts_bytes val) of
               Some v \<Rightarrow> write_bytes (cstr v) | None \<Rightarrow> Inr) th)"

text \<open>\<open>writeBytes\<close> from another array \<open>src\<close>; \<open>offset\<close> and \<open>length\<close> are clamped on 32 bits.\<close>

definition m_writeBytes ::
  "nat \<Rightarrow> byte_array \<Rightarrow> u32 \<Rightarrow> u32 \<Rightarrow> byte_array \<Rightarrow> (as_value \<times> byte_array \<times> byte_array) res" where
  "m_writeBytes argslen src offset_arg length_arg th =
     (if argslen < 1 \<or> 3 < argslen then Inl AssertionFailed
      else
        let offset = (if 2 \<le> argslen then offset_arg else 0);
            len = (if argslen = 3 then length_arg else 0);
            offset = (if ba_len src - 1 < offset then 0 else offset);
            len = (if ba_len src - offset < len then 0 else len);
            len = (if len = 0 then ba_len src - offset else len)
        in bindE (getBuffer (offset + len) False src) (\<lambda>(ok, src).
           let th = ba_lock th
           in bindE (getBuffer (ba_position th + len) True th) (\<lambda>(_, th).
              bindE (if ok \<or> len = 0 then ba_load (unat offset) (unat len) src else Inl NullDeref) (\<lambda>xs.
              bindE (ba_store (unat (ba_position th)) xs th) (\<lambda>th.
                Inr (ANone, ba_unlock (th\<lparr>ba_position := ba_position th + len\<rparr>), src))))))"

section \<open>Access by index\<close>

text \<open>\<open>getVariableByInteger\<close>; \<open>None\<close> is the lookup of an ordinary property for negative indices.\<close>

definition m_getIndex :: "u32 \<Rightarrow> byte_array \<Rightarrow> as_value option ba_result" where
  "m_getIndex index th =
     (if sint index < 0 then Inr (None, th)
      else if index < ba_len th then
        bindE (ba_load (unat index) 1 (ba_lock th)) (\<lambda>bs.
          Inr (Some (AUInt (ucast (hd bs))), ba_unlock (ba_lock th)))
      else Inr (Some AUndefined, th))"

text \<open>The store shared by the two setters: room, zeros up to the index, then the byte.\<close>

definition set_index :: "u32 \<Rightarrow> u8 \<Rightarrow> byte_array \<Rightarrow> byte_array res" where
  "set_index index value th =
     (let th = ba_lock th; prevLen = ba_len th
      in bindE (if prevLen \<le> index then
                  bindE (getBuffer (index + 1) True th) (\<lambda>(_, th).
                    ba_store (unat prevLen) (replicate (unat (index - prevLen)) 0) th)
                else Inr th)
           (\<lambda>th. bindE (ba_store (unat index) [value] th) (\<lambda>th. Inr (ba_unlock th))))"

text \<open>\<open>setVariableByInteger\<close>; again negative indices go to the ordinary properties.\<close>

definition m_setIndex :: "u32 \<Rightarrow> u32 \<Rightarrow> byte_array \<Rightarrow> byte_array option res" where
  "m_setIndex index value th =
     (if sint index < 0 then Inr None
      else bindE (set_index index (ucast (value AND 0xff)) th) (\<lambda>th. Inr (Some th)))"

text \<open>\<open>setVariableByMultiname\<close> for a name that is an array index.\<close>

definition m_setIndexByName :: "u32 \<Rightarrow> u32 \<Rightarrow> byte_array \<Rightarrow> byte_array res" where
  "m_setIndexByName index value th =
     (if BA_MAX_SIZE < index then Inr (createError OutOfMemoryError th)
      else set_index index (ucast (value AND 0xff)) th)"

definition m_hasIndex :: "u32 \<Rightarrow> byte_array \<Rightarrow> bool" where
  "m_hasIndex index th \<longleftrightarrow> index < ba_len th"

section \<open>The generic methods of arrays\<close>

text \<open>\<open>memmove(bytes + dst, bytes + src, n)\<close>.\<close>

definition ba_memmove :: "nat \<Rightarrow> nat \<Rightarrow> nat \<Rightarrow> byte_array \<Rightarrow> byte_array res" where
  "ba_memmove dst src n th = bindE (ba_load src n th) (\<lambda>xs. ba_store dst xs th)"

text \<open>\<open>pop\<close> and \<open>shift\<close> have the same text: a byte is read at the position, the first one removed.\<close>

definition m_pop :: "byte_array \<Rightarrow> as_value ba_result" where
  "m_pop th = bindE (readByte (ba_lock th)) (\<lambda>(r, th). case r of
       None \<Rightarrow> Inr (AUInt 0, ba_unlock th)
     | Some b \<Rightarrow> bindE (ba_memmove 0 1 (unat (ba_len th - 1)) th) (\<lambda>th.
         Inr (AUInt (ucast b), ba_unlock (th\<lparr>ba_len := ba_len th - 1\<rparr>))))"

definition m_shift :: "byte_array \<Rightarrow> as_value ba_result" where
  "m_shift th = bindE (readByte (ba_lock th)) (\<lambda>(r, th). case r of
       None \<Rightarrow> Inr (AUInt 0, ba_unlock th)
     | Some b \<Rightarrow> bindE (ba_memmove 0 1 (unat (ba_len th - 1)) th) (\<lambda>th.
         Inr (AUInt (ucast b), ba_unlock (th\<lparr>ba_len := ba_len th - 1\<rparr>))))"

text \<open>\<open>push\<close> stores at \<open>bytes[len + i]\<close>, after \<open>getBuffer\<close> has raised \<open>len\<close>.\<close>

definition m_push :: "int list \<Rightarrow> byte_array \<Rightarrow> as_value ba_result" where
  "m_push args th = bindE (getBuffer (ba_len th + of_nat (length args)) True (ba_lock th)) (\<lambda>(_, th).
     bindE (foldE (\<lambda>(i, v) th. ba_store (unat (ba_len th + of_nat i)) [of_int v] th) th
              (zip [0..<length args] args)) (\<lambda>th.
       Inr (AUInt (ba_len th), ba_unlock th)))"

definition m_unshift :: "int list \<Rightarrow> byte_array \<Rightarrow> as_value ba_result" where
  "m_unshift args th = bindE (getBuffer (ba_len th + of_nat (length args)) True (ba_lock th)) (\<lambda>(_, th).
     bindE (foldE (\<lambda>(i, v) th. bindE (ba_memmove (length args) 0 (unat (ba_len th)) th)
                                  (ba_store i [of_int v])) th
              (zip [0..<length args] args)) (\<lambda>th.
       Inr (AUInt (ba_len th), ba_unlock th)))"

section \<open>Atomic operations\<close>

definition m_atomicCompareAndSwapIntAt :: "u32 \<Rightarrow> u32 \<Rightarrow> u32 \<Rightarrow> byte_array \<Rightarrow> as_value ba_result" where
  "m_atomicCompareAndSwapIntAt byteindex expectedValue newvalue th =
     (if sint byteindex < 0 \<or> unat byteindex mod 4 \<noteq> 0 then Inr (ANone, createError RangeError th)
      else let th = ba_lock th
        in if sint (ba_len th) - 4 \<le> sint byteindex then
             Inr (ANone, createError RangeError (ba_unlock th))
           else bindE (ba_load (unat byteindex) 4 th) (\<lambda>bs. let res = le32 bs
             in bindE (if res = expectedValue then ba_store (unat byteindex) (bytes_le32 newvalue) th
                       else Inr th) (\<lambda>th. Inr (AInt (sint res), ba_unlock th))))"

definition m_atomicCompareAndSwapLength :: "u32 \<Rightarrow> u32 \<Rightarrow> byte_array \<Rightarrow> as_value ba_result" where
  "m_atomicCompareAndSwapLength expectedLength newLength th =
     (let th = ba_lock th; res = ba_len th
      in bindE (if res = expectedLength then setLength newLength th else Inr th) (\<lambda>th.
           Inr (AInt (sint res), ba_unlock th)))"

section \<open>Serialization of the array itself\<close>

definition byte_array_marker :: u8 where
  "byte_array_marker = 0xc"

text \<open>\<open>serialize\<close> of the array \<open>self\<close> known as \<open>key\<close> into \<open>out\<close>.\<close>

definition m_serialize ::
  "nat \<Rightarrow> byte_array \<Rightarrow> (nat \<times> u32) list \<Rightarrow> byte_array \<Rightarrow> ((nat \<times> u32) list \<times> byte_array) res" where
  "m_serialize key self objMap out =
     (if ba_objectEncoding out = AMF0 then Inr (objMap, out)
      else if map_of objMap key \<noteq> None then Inl AssertionFailed
      else bindE (writeByte byte_array_marker out) (\<lambda>out.
        if 0x20000000 \<le> ba_len self then Inl AssertionFailed
        else bindE (writeU29 (push_bit 1 (ba_len self) OR 1) out) (\<lambda>out.
          bindE (ba_load 0 (unat (ba_len self)) self) (\<lambda>bs.
          bindE (foldE writeByte out bs) (\<lambda>out.
            Inr (objMap @ [(key, of_nat (length objMap))], out))))))"

section \<open>Compression\<close>

text \<open>
  zlib is a parameter. \<open>zdeflate raw input n\<close> is what a finishing \<open>deflate\<close> writes to an output
  buffer of \<open>n\<close> bytes (\<open>None\<close> when it fails or leaves input), \<open>fresh n\<close> the content of a new buffer
  of \<open>n\<close> bytes and \<open>compressBound\<close> the bound of zlib.
\<close>

definition compress_zlib ::
  "(bool \<Rightarrow> u8 list \<Rightarrow> nat \<Rightarrow> u8 list option) \<Rightarrow> (nat \<Rightarrow> nat) \<Rightarrow> (nat \<Rightarrow> u8 list) \<Rightarrow> bool \<Rightarrow> byte_array \<Rightarrow>
    byte_array res" where
  "compress_zlib zdeflate compressBound fresh raw th =
     (if ba_len th = 0 then Inr th
      else bindE (ba_load 0 (unat (ba_len th)) th) (\<lambda>input.
        let buflen = compressBound (unat (ba_len th))
        in case zdeflate raw input buflen of
             None \<Rightarrow> Inl RunTime
           | Some out \<Rightarrow> bindE (mem_write 0 out (fresh buflen)) (\<lambda>compressed.
               Inr ((acquireBuffer compressed th)\<lparr>ba_position := of_nat buflen\<rparr>))))"

text \<open>
  \<open>inflate s n\<close>: the next state of the stream, the bytes written to \<open>n\<close> bytes of output space and
  the status; the loop of \<open>uncompress_zlib\<close> gives the buffer \<open>len\<close> more bytes whenever it is full.
  \<open>None\<close> is the error return; the fuel bounds the calls of \<open>inflate\<close>.
\<close>

datatype z_status = Z_OK | Z_STREAM_END | Z_ERROR

fun inflate_loop ::
  "('z \<Rightarrow> nat \<Rightarrow> 'z \<times> u8 list \<times> z_status) \<Rightarrow> nat \<Rightarrow> nat \<Rightarrow> 'z \<Rightarrow> nat \<Rightarrow> u8 list \<Rightarrow> u8 list option res" where
  "inflate_loop inflate len 0 s buf_size out = Inl OutOfFuel"
| "inflate_loop inflate len (Suc fuel) s buf_size out =
     (case inflate s (buf_size - length out) of (s', xs, status) \<Rightarrow>
        let out = out @ xs
        in case status of
             Z_ERROR \<Rightarrow> Inr None
           | Z_STREAM_END \<Rightarrow> Inr (Some out)
           | Z_OK \<Rightarrow> inflate_loop inflate len fuel s'
                      (if length out = buf_size then buf_size + len else buf_size) out)"

definition uncompress_zlib ::
  "(bool \<Rightarrow> u8 list \<Rightarrow> 'z option) \<Rightarrow> ('z \<Rightarrow> nat \<Rightarrow> 'z \<times> u8 list \<times> z_status) \<Rightarrow> nat \<Rightarrow> bool \<Rightarrow> byte_array \<Rightarrow>
    byte_array res" where
  "uncompress_zlib inflateInit inflate fuel raw th =
     (if ba_len th = 0 then Inr th
      else bindE (ba_load 0 (unat (ba_len th)) th) (\<lambda>input. case inflateInit raw input of
        None \<Rightarrow> Inr (createError IOError th)
      | Some s \<Rightarrow> bindE (inflate_loop inflate (unat (ba_len th)) fuel s (unat (3 * ba_len th)) []) (\<lambda>r.
          case r of
            None \<Rightarrow> Inr (createError IOError th)
          | Some out \<Rightarrow> Inr (th\<lparr>ba_len := of_nat (length out), ba_real_len := of_nat (length out),
              ba_bytes := Some out, ba_position := 0\<rparr>))))"

definition m_deflate ::
  "(bool \<Rightarrow> u8 list \<Rightarrow> nat \<Rightarrow> u8 list option) \<Rightarrow> (nat \<Rightarrow> nat) \<Rightarrow> (nat \<Rightarrow> u8 list) \<Rightarrow> byte_array \<Rightarrow> byte_array res"
where
  "m_deflate zdeflate compressBound fresh th =
     bindE (compress_zlib zdeflate compressBound fresh True (ba_lock th)) (\<lambda>th. Inr (ba_unlock th))"

definition m_inflate ::
  "(bool \<Rightarrow> u8 list \<Rightarrow> 'z option) \<Rightarrow> ('z \<Rightarrow> nat \<Rightarrow> 'z \<times> u8 list \<times> z_status) \<Rightarrow> nat \<Rightarrow> byte_array \<Rightarrow> byte_array res"
where
  "m_inflate inflateInit inflate fuel th =
     bindE (uncompress_zlib inflateInit inflate fuel True (ba_lock th)) (\<lambda>th. Inr (ba_unlock th))"

text \<open>\<open>_compress\<close> and \<open>_uncompress\<close> with the algorithms of zlib: \<open>raw\<close> for \<open>deflate\<close>, not \<open>raw\<close> for every other name
  but \<open>lzma\<close>.\<close>

definition m_compress ::
  "(bool \<Rightarrow> u8 list \<Rightarrow> nat \<Rightarrow> u8 list option) \<Rightarrow> (nat \<Rightarrow> nat) \<Rightarrow> (nat \<Rightarrow> u8 list) \<Rightarrow> bool \<Rightarrow> byte_array \<Rightarrow>
    byte_array res"
where
  "m_compress zdeflate compressBound fresh raw th =
     bindE (compress_zlib zdeflate compressBound fresh raw (ba_lock th)) (\<lambda>th. Inr (ba_unlock th))"

definition m_uncompress ::
  "(bool \<Rightarrow> u8 list \<Rightarrow> 'z option) \<Rightarrow> ('z \<Rightarrow> nat \<Rightarrow> 'z \<times> u8 list \<times> z_status) \<Rightarrow> nat \<Rightarrow> bool \<Rightarrow> byte_array \<Rightarrow> byte_array res"
where
  "m_uncompress inflateInit inflate fuel raw th =
     bindE (uncompress_zlib inflateInit inflate fuel raw (ba_lock th)) (\<lambda>th. Inr (ba_unlock th))"

end
