(* ===== verification/ByteArrayCalls.thy ===== *)
theory ByteArrayCalls
  imports ByteArrayMethods
begin

text \<open>
  A \<open>ByteArray\<close> under calls: one constructor of \<open>ba_call\<close> per method, the step relation of the calls that return and
  the arrays they can reach. The invariant \<open>ba_ok\<close> and the balance of the lock are shown for the steps.

  The calls are the methods of a script and the C++ functions \<open>setVariableByInteger\<close>, \<open>setVariableByMultiname\<close> (for an
  index), \<open>append\<close> and \<open>removeFrontBytes\<close>. \<open>readBytes\<close> and \<open>writeBytes\<close> work on two arrays, so they are two calls each: of
  the array the method is called on and of the other one, which is not the same. Left out are \<open>readObject\<close>, \<open>writeObject\<close>,
  which walk the object model, and \<open>compress\<close> and \<open>uncompress\<close> with the algorithm \<open>lzma\<close>.
\<close>

section \<open>Calls\<close>

datatype ba_call =
  CSetPosition u32 | CSetLength nat int | CSetEndian tiny_string | CSetObjectEncoding u32
| CSetShareable bool | CClear
| CReadBoolean | CReadByte nat | CReadUnsignedByte nat | CReadShort nat | CReadUnsignedShort nat
| CReadInt nat | CReadUnsignedInt nat | CReadFloat nat | CReadDouble nat
| CReadUTF | CReadUTFBytes u32 | CReadMultiByte u32 tiny_string
| CWriteBoolean bool | CWriteByte nat int | CWriteShort int | CWriteInt nat int
| CWriteUnsignedInt nat u32 | CWriteFloat nat u32 | CWriteDouble nat u64
| CWriteUTF nat tiny_string | CWriteUTFBytes nat tiny_string | CWriteMultiByte tiny_string tiny_string
| CPop | CShift | CPush "int list" | CUnshift "int list"
| CSetIndexByName u32 u32 | CSetIndex u32 u32
| CCompareAndSwapInt u32 u32 u32 | CCompareAndSwapLength u32 u32
| CReadBytes byte_array u32 u32 | CReadBytesOut byte_array u32 u32
| CWriteBytes nat byte_array u32 u32 | CWriteBytesSource nat byte_array u32 u32
| CDeflate | CInflate | CCompress bool | CUncompress bool
| CAppend "u8 list" | CRemoveFront int

text \<open>
  What the host provides: the character conversion of SDL and zlib, with the buffers that \<open>new\<close> delivers and the
  fuel of the decompression.
\<close>

record 'z host =
  h_iconv :: "u8 list \<Rightarrow> u8 list \<Rightarrow> u8 list option"
  h_deflate :: "bool \<Rightarrow> u8 list \<Rightarrow> nat \<Rightarrow> u8 list option"
  h_compressBound :: "nat \<Rightarrow> nat"
  h_fresh :: "nat \<Rightarrow> u8 list"
  h_inflateInit :: "bool \<Rightarrow> u8 list \<Rightarrow> 'z option"
  h_inflate :: "'z \<Rightarrow> nat \<Rightarrow> 'z \<times> u8 list \<times> z_status"
  h_fuel :: nat

definition no_value :: "byte_array res \<Rightarrow> as_value ba_result" where
  "no_value r = bindE r (\<lambda>th. Inr (ANone, th))"

fun run_call :: "'z host \<Rightarrow> ba_call \<Rightarrow> byte_array \<Rightarrow> as_value ba_result" where
  "run_call h (CSetPosition p) th = m_setPosition p th"
| "run_call h (CSetLength n v) th = m_setLength n v th"
| "run_call h (CSetEndian s) th = m_setEndian s th"
| "run_call h (CSetObjectEncoding v) th = m_setObjectEncoding v th"
| "run_call h (CSetShareable b) th = m_setShareable b th"
| "run_call h CClear th = m_clear th"
| "run_call h CReadBoolean th = m_readBoolean th"
| "run_call h (CReadByte n) th = m_readByte n th"
| "run_call h (CReadUnsignedByte n) th = m_readUnsignedByte n th"
| "run_call h (CReadShort n) th = m_readShort n th"
| "run_call h (CReadUnsignedShort n) th = m_readUnsignedShort n th"
| "run_call h (CReadInt n) th = m_readInt n th"
| "run_call h (CReadUnsignedInt n) th = m_readUnsignedInt n th"
| "run_call h (CReadFloat n) th = m_readFloat n th"
| "run_call h (CReadDouble n) th = m_readDouble n th"
| "run_call h CReadUTF th = m_readUTF th"
| "run_call h (CReadUTFBytes n) th = m_readUTFBytes n th"
| "run_call h (CReadMultiByte n s) th = m_readMultiByte (h_iconv h) n s th"
| "run_call h (CWriteBoolean b) th = m_writeBoolean b th"
| "run_call h (CWriteByte n v) th = m_writeByte n v th"
| "run_call h (CWriteShort v) th = m_writeShort v th"
| "run_call h (CWriteInt n v) th = m_writeInt n v th"
| "run_call h (CWriteUnsignedInt n v) th = m_writeUnsignedInt n v th"
| "run_call h (CWriteFloat n v) th = m_writeFloat n v th"
| "run_call h (CWriteDouble n v) th = m_writeDouble n v th"
| "run_call h (CWriteUTF n s) th = m_writeUTF n s th"
| "run_call h (CWriteUTFBytes n s) th = m_writeUTFBytes n s th"
| "run_call h (CWriteMultiByte v s) th = m_writeMultiByte (h_iconv h) v s th"
| "run_call h CPop th = m_pop th"
| "run_call h CShift th = m_shift th"
| "run_call h (CPush vs) th = m_push vs th"
| "run_call h (CUnshift vs) th = m_unshift vs th"
| "run_call h (CSetIndexByName i v) th = no_value (m_setIndexByName i v th)"
| "run_call h (CCompareAndSwapInt i e n) th = m_atomicCompareAndSwapIntAt i e n th"
| "run_call h (CCompareAndSwapLength e n) th = m_atomicCompareAndSwapLength e n th"
| "run_call h (CSetIndex i v) th = bindE (m_setIndex i v th) (\<lambda>r. Inr (ANone, case r of None \<Rightarrow> th | Some th \<Rightarrow> th))"
| "run_call h (CReadBytes out ofs n) th = bindE (m_readBytes out ofs n th) (\<lambda>(v, th, out). Inr (v, th))"
| "run_call h (CReadBytesOut src ofs n) out = bindE (m_readBytes out ofs n src) (\<lambda>(v, src, out). Inr (v, out))"
| "run_call h (CWriteBytes argslen src ofs n) th = bindE (m_writeBytes argslen src ofs n th) (\<lambda>(v, th, src). Inr (v, th))"
| "run_call h (CWriteBytesSource argslen th ofs n) src =
     bindE (m_writeBytes argslen src ofs n th) (\<lambda>(v, th, src). Inr (v, src))"
| "run_call h CDeflate th = no_value (m_deflate (h_deflate h) (h_compressBound h) (h_fresh h) th)"
| "run_call h CInflate th = no_value (m_inflate (h_inflateInit h) (h_inflate h) (h_fuel h) th)"
| "run_call h (CCompress raw) th = no_value (m_compress (h_deflate h) (h_compressBound h) (h_fresh h) raw th)"
| "run_call h (CUncompress raw) th = no_value (m_uncompress (h_inflateInit h) (h_inflate h) (h_fuel h) raw th)"
| "run_call h (CAppend bs) th = no_value (ba_append bs th)"
| "run_call h (CRemoveFront n) th = no_value (removeFrontBytes n th)"

text \<open>
  The calls that leave the array well formed. A new length above 1 GiB is stored although no buffer of this size
  was allocated; \<open>removeFrontBytes\<close> has to remove bytes that are there; the new buffers of a compression have the size
  asked for and the result of \<open>zlib\<close> is shorter than 4 GiB.
\<close>

definition bound_ok :: "'z host \<Rightarrow> byte_array \<Rightarrow> bool" where
  "bound_ok h th \<longleftrightarrow> (let n = h_compressBound h (unat (ba_len th)) in length (h_fresh h n) = n \<and> n < 2 ^ 32)"

definition inflated_ok :: "'z host \<Rightarrow> bool \<Rightarrow> byte_array \<Rightarrow> bool" where
  "inflated_ok h raw th \<longleftrightarrow> (\<forall>input s out. ba_load 0 (unat (ba_len th)) th = Inr input \<and> h_inflateInit h raw input = Some s \<and>
     inflate_loop (h_inflate h) (unat (ba_len th)) (h_fuel h) s (unat (3 * ba_len th)) [] = Inr (Some out) \<longrightarrow>
     length out < 2 ^ 32)"

fun call_ok :: "'z host \<Rightarrow> ba_call \<Rightarrow> byte_array \<Rightarrow> bool" where
  "call_ok h (CSetLength n v) th \<longleftrightarrow> (of_int v :: u32) \<le> BA_MAX_SIZE"
| "call_ok h (CCompareAndSwapLength e n) th \<longleftrightarrow> n \<le> BA_MAX_SIZE"
| "call_ok h (CRemoveFront n) th \<longleftrightarrow> 0 \<le> n \<and> n \<le> uint (ba_len th)"
| "call_ok h CDeflate th \<longleftrightarrow> bound_ok h th"
| "call_ok h (CCompress raw) th \<longleftrightarrow> bound_ok h th"
| "call_ok h CInflate th \<longleftrightarrow> inflated_ok h True th"
| "call_ok h (CUncompress raw) th \<longleftrightarrow> inflated_ok h raw th"
| "call_ok h _ th \<longleftrightarrow> True"

text \<open>The two methods that keep the lock on some path.\<close>

fun keeps_lock :: "ba_call \<Rightarrow> bool" where
  "keeps_lock (CSetLength n v) \<longleftrightarrow> True"
| "keeps_lock (CReadUTFBytes n) \<longleftrightarrow> True"
| "keeps_lock _ \<longleftrightarrow> False"

inductive ba_step :: "'z host \<Rightarrow> byte_array \<Rightarrow> byte_array \<Rightarrow> bool" for h where
  call: "run_call h c th = Inr (v, th') \<Longrightarrow> call_ok h c th \<Longrightarrow> ba_step h th th'"

inductive ba_reachable :: "'z host \<Rightarrow> byte_array \<Rightarrow> bool" for h where
  new: "ba_reachable h (ba_new None 0)"
| buffer: "length b < 2 ^ 32 \<Longrightarrow> ba_reachable h (ba_new (Some b) (of_nat (length b)))"
| step: "ba_reachable h th \<Longrightarrow> ba_step h th th' \<Longrightarrow> ba_reachable h th'"

inductive_cases ba_stepE: "ba_step h th th'"

section \<open>What the operations preserve\<close>

lemma no_value_Inr [simp]: "no_value r = Inr (v, th') \<longleftrightarrow> r = Inr th' \<and> v = ANone"
  by (cases r) (auto simp: no_value_def)

text \<open>The frame of an operation below the lock: the invariant holds on, the lock is not touched.\<close>

definition ba_frame :: "byte_array \<Rightarrow> byte_array \<Rightarrow> bool" where
  "ba_frame th th' \<longleftrightarrow> (ba_ok th \<longrightarrow> ba_ok th') \<and> ba_locks th' = ba_locks th \<and> ba_shareable th' = ba_shareable th"

lemma ba_frame_refl [simp]: "ba_frame th th"
  by (simp add: ba_frame_def)

lemma ba_frame_trans: "ba_frame a b \<Longrightarrow> ba_frame b c \<Longrightarrow> ba_frame a c"
  by (simp add: ba_frame_def)

lemma ba_frame_position [simp]: "ba_frame a (b\<lparr>ba_position := p\<rparr>) = ba_frame a b"
  by (simp add: ba_frame_def)

lemma ba_ok_error [simp]: "ba_ok (createError e th) = ba_ok th"
  by (cases "ba_bytes th") (simp_all add: ba_ok_def createError_def)

lemma ba_frame_error [simp]: "ba_frame a (createError e b) = ba_frame a b"
  by (simp add: ba_frame_def) (simp add: createError_def)

lemma ba_ok_lock [simp]: "ba_ok (ba_lock th) = ba_ok th" "ba_ok (ba_unlock th) = ba_ok th"
  by (cases "ba_bytes th"; simp add: ba_ok_def ba_lock_def ba_unlock_def)+

text \<open>The frame of an operation run between \<open>ba_lock\<close> and \<open>ba_unlock\<close>.\<close>

lemma ba_frame_locked: "ba_frame (ba_lock th) th' \<Longrightarrow> ba_frame th (ba_unlock th')"
  by (cases "ba_shareable th") (auto simp: ba_frame_def, auto simp: ba_lock_def ba_unlock_def)

lemma ba_store_frame: "ba_store p xs th = Inr th' \<Longrightarrow> ba_frame th th'"
  by (auto simp: ba_store_def ba_frame_def ba_ok_def mem_write_def split: if_splits option.splits elim!: bindE_InrE)

lemma getBuffer_frame:
  assumes "getBuffer n True th = Inr (r, th')"
  shows "ba_frame th th'"
proof (cases "n \<le> BA_MAX_SIZE")
  case True
  show ?thesis
  proof (cases "ba_ok th")
    case ok: True
    then obtain th'' where "getBuffer n True th = Inr (True, th'')" "ba_ok th''" "ba_same th th''"
      using getBuffer_spec [OF ok True] by metis
    with assms show ?thesis
      by (simp add: ba_frame_def ba_same_def)
  next
    case False
    with assms show ?thesis
      by (auto simp: ba_frame_def getBuffer_def getBufferIntern_def createError_def Let_def
          split: if_splits option.splits)
  qed
next
  case False
  with assms show ?thesis
    by (auto simp: ba_frame_def ba_ok_def getBuffer_def getBufferIntern_def createError_def not_le
        split: if_splits option.splits)
qed

lemma write_bytes_frame: "write_bytes xs th = Inr th' \<Longrightarrow> ba_frame th th'"
  by (auto simp: write_bytes_def elim!: bindE_InrE dest!: getBuffer_frame ba_store_frame intro: ba_frame_trans)

lemma writeUTF_frame: "writeUTF s th = Inr th' \<Longrightarrow> ba_frame th th'"
  by (auto simp: writeUTF_def Let_def split: if_splits elim!: bindE_InrE
      dest!: getBuffer_frame ba_store_frame intro: ba_frame_trans; simp add: ba_frame_def)

lemma writeShort_frame: "writeShort v th = Inr th' \<Longrightarrow> ba_frame th th'"
  unfolding writeShort_def by (rule write_bytes_frame)

lemma read_fixed_frame: "read_fixed n th = Inr (r, th') \<Longrightarrow> ba_frame th th'"
  by (auto simp: read_fixed_def split: if_splits elim!: bindE_InrE)

lemma readByte_frame: "readByte th = Inr (r, th') \<Longrightarrow> ba_frame th th'"
  by (auto simp: readByte_def split: if_splits elim!: bindE_InrE)

lemma readShort_frame: "readShort th = Inr (r, th') \<Longrightarrow> ba_frame th th'"
  by (auto simp: readShort_def elim!: bindE_InrE dest: read_fixed_frame)

lemma readUnsignedInt_frame: "readUnsignedInt th = Inr (r, th') \<Longrightarrow> ba_frame th th'"
  by (auto simp: readUnsignedInt_def elim!: bindE_InrE dest: read_fixed_frame)

lemma readUTF_frame: "readUTF th = Inr (r, th') \<Longrightarrow> ba_frame th th'"
  by (auto simp: readUTF_def Let_def split: if_splits option.splits elim!: bindE_InrE dest!: readShort_frame)

lemma readUTFBytes_frame: "readUTFBytes n th = Inr (r, th') \<Longrightarrow> ba_frame th th'"
  by (auto simp: readUTFBytes_def Let_def split: if_splits elim!: bindE_InrE)

lemma read_method_frame:
  assumes "read_method ok op f th = Inr (v, th')"
    and "\<And>th r th'. op th = Inr (r, th') \<Longrightarrow> ba_frame th th'"
  shows "ba_frame th th'"
  using assms(1) by (auto simp: read_method_def split: if_splits option.splits elim!: bindE_InrE
      dest!: assms(2) intro!: ba_frame_locked)

lemma write_method_frame:
  assumes "write_method ok op th = Inr (v, th')" and "\<And>th th'. op th = Inr th' \<Longrightarrow> ba_frame th th'"
  shows "ba_frame th th'"
  using assms(1) by (auto simp: write_method_def split: if_splits elim!: bindE_InrE
      dest!: assms(2) intro!: ba_frame_locked)


lemma setLength_frame:
  assumes "setLength n th = Inr th'" and "n \<le> BA_MAX_SIZE"
  shows "ba_frame th th'"
proof (cases "n = 0")
  case True
  with assms(1) show ?thesis
    by (auto simp: setLength_def ba_frame_def ba_ok_def Let_def split: if_splits)
next
  case False
  then obtain r th1 where th1: "getBuffer n True th = Inr (r, th1)"
    and th': "th' = (let th = th1\<lparr>ba_len := n\<rparr> in
      if ba_len th < ba_position th then th\<lparr>ba_position := (if 0 < ba_len th then ba_len th else 0)\<rparr> else th)"
    using assms(1) by (auto simp: setLength_def word_neq_0_conv Let_def elim!: bindE_InrE)
  have frame: "ba_frame th th1"
    using th1 by (rule getBuffer_frame)
  moreover have "ba_ok (th1\<lparr>ba_len := n\<rparr>)" if ok: "ba_ok th"
  proof -
    obtain th2 where "getBuffer n True th = Inr (True, th2)"
      "unat (ba_len th2) = max (unat (ba_len th)) (unat n)"
      using getBuffer_spec [OF ok assms(2)] by metis
    with th1 have "n \<le> ba_len th1"
      by (simp add: word_le_nat_alt)
    with frame ok False show ?thesis
      by (auto simp: ba_frame_def ba_ok_def split: option.splits)
  qed
  ultimately show ?thesis
    by (auto simp: th' Let_def ba_frame_def)
qed

lemma set_index_frame: "set_index i v th = Inr th' \<Longrightarrow> ba_frame th th'"
  by (auto simp: set_index_def Let_def split: if_splits elim!: bindE_InrE
      dest!: getBuffer_frame ba_store_frame intro!: ba_frame_locked intro: ba_frame_trans; simp add: ba_frame_def)

lemma foldE_frame:
  assumes "\<And>x th th'. f x th = Inr th' \<Longrightarrow> ba_frame th th'" and "foldE f th xs = Inr th'"
  shows "ba_frame th th'"
  using assms(2) by (induction xs arbitrary: th) (auto elim!: bindE_InrE dest: assms(1) intro: ba_frame_trans)

lemma ba_memmove_frame: "ba_memmove d s n th = Inr th' \<Longrightarrow> ba_frame th th'"
  by (auto simp: ba_memmove_def elim!: bindE_InrE dest!: ba_store_frame)

lemma m_pop_frame:
  assumes "m_pop th = Inr (v, th')"
  shows "ba_frame th th'"
proof -
  obtain r th1 where th1: "readByte (ba_lock th) = Inr (r, th1)"
    using assms by (auto simp: m_pop_def elim!: bindE_InrE)
  then have frame: "ba_frame (ba_lock th) th1"
    by (rule readByte_frame)
  show ?thesis
  proof (cases r)
    case None
    with assms th1 frame show ?thesis
      by (auto simp: m_pop_def intro!: ba_frame_locked)
  next
    case (Some b)
    then obtain th2 where th2: "ba_memmove 0 1 (unat (ba_len th1 - 1)) th1 = Inr th2"
      and th': "th' = ba_unlock (th2\<lparr>ba_len := ba_len th2 - 1\<rparr>)"
      using assms th1 by (auto simp: m_pop_def elim!: bindE_InrE)
    have pos: "ba_len th2 \<noteq> 0" "ba_bytes th2 \<noteq> None"
      using th1 Some th2 by (auto simp: readByte_def ba_memmove_def ba_load_def ba_store_def
          split: if_splits option.splits elim!: bindE_InrE)
    have "ba_frame th1 th2"
      using th2 by (rule ba_memmove_frame)
    moreover have "ba_ok (th2\<lparr>ba_len := ba_len th2 - 1\<rparr>)" if "ba_ok th2"
    proof -
      have "ba_len th2 - 1 \<le> ba_len th2"
        using pos(1) by (simp add: word_le_nat_alt unat_minus_one)
      then show ?thesis
        using that pos(2) by (auto simp: ba_ok_def)
    qed
    ultimately have "ba_frame (ba_lock th) (th2\<lparr>ba_len := ba_len th2 - 1\<rparr>)"
      using frame by (auto simp: ba_frame_def)
    then show ?thesis
      by (simp add: th' ba_frame_locked)
  qed
qed


lemma m_shift_eq_pop: "m_shift = m_pop"
  by (simp add: fun_eq_iff m_shift_def m_pop_def)

lemma m_push_frame: "m_push vs th = Inr (v, th') \<Longrightarrow> ba_frame th th'"
  by (auto simp: m_push_def elim!: bindE_InrE dest!: getBuffer_frame foldE_frame [rotated] ba_store_frame
      intro!: ba_frame_locked intro: ba_frame_trans)

lemma m_unshift_frame: "m_unshift vs th = Inr (v, th') \<Longrightarrow> ba_frame th th'"
  by (auto simp: m_unshift_def elim!: bindE_InrE dest!: getBuffer_frame foldE_frame [rotated] ba_store_frame ba_memmove_frame
      intro!: ba_frame_locked intro: ba_frame_trans)

lemma m_cas_int_frame: "m_atomicCompareAndSwapIntAt i e n th = Inr (v, th') \<Longrightarrow> ba_frame th th'"
  by (auto simp: m_atomicCompareAndSwapIntAt_def Let_def split: if_splits elim!: bindE_InrE dest!: ba_store_frame
      intro!: ba_frame_locked)

lemma m_cas_length_frame:
  "m_atomicCompareAndSwapLength e n th = Inr (v, th') \<Longrightarrow> n \<le> BA_MAX_SIZE \<Longrightarrow> ba_frame th th'"
  by (auto simp: m_atomicCompareAndSwapLength_def Let_def split: if_splits elim!: bindE_InrE dest!: setLength_frame
      intro!: ba_frame_locked)


section \<open>The calls\<close>

lemma m_clear_frame: "m_clear th = Inr (v, th') \<Longrightarrow> ba_frame th th'"
  by (cases "ba_shareable th") (auto simp: m_clear_def ba_frame_def ba_lock_def ba_unlock_def ba_ok_def)

lemma m_setPosition_frame: "m_setPosition p th = Inr (v, th') \<Longrightarrow> ba_frame th th'"
  by (auto simp: m_setPosition_def setPosition_def intro!: ba_frame_locked)

lemma m_setEndian_frame: "m_setEndian s th = Inr (v, th') \<Longrightarrow> ba_frame th th'"
  by (cases "ba_bytes th") (auto simp: m_setEndian_def createError_def ba_frame_def ba_ok_def
      split: if_splits elim!: bindE_InrE)

lemma m_setObjectEncoding_frame: "m_setObjectEncoding e th = Inr (v, th') \<Longrightarrow> ba_frame th th'"
  by (cases "ba_bytes th") (auto simp: m_setObjectEncoding_def createError_def ba_frame_def ba_ok_def split: if_splits)

lemma m_readMultiByte_frame: "m_readMultiByte ic n s th = Inr (v, th') \<Longrightarrow> ba_frame th th'"
  by (auto simp: m_readMultiByte_def Let_def split: if_splits elim!: bindE_InrE intro!: ba_frame_locked)

lemmas read_defs = m_readBoolean_def m_readByte_def m_readUnsignedByte_def m_readShort_def
  m_readUnsignedShort_def m_readInt_def m_readUnsignedInt_def m_readFloat_def m_readDouble_def m_readUTF_def

lemmas write_defs = m_writeBoolean_def m_writeByte_def m_writeShort_def m_writeInt_def
  m_writeUnsignedInt_def m_writeFloat_def m_writeDouble_def m_writeUTF_def m_writeUTFBytes_def

lemmas op_frames = readByte_frame readShort_frame readUnsignedInt_frame read_fixed_frame readUTF_frame
  write_bytes_frame writeUTF_frame

lemma read_call_frame:
  assumes "c \<in> {CReadBoolean, CReadByte n, CReadUnsignedByte n, CReadShort n, CReadUnsignedShort n, CReadInt n,
      CReadUnsignedInt n, CReadFloat n, CReadDouble n, CReadUTF}"
    and "run_call h c th = Inr (v, th')"
  shows "ba_frame th th'"
  using assms
  by (auto simp: read_defs dest!: read_method_frame elim!: bindE_InrE split: if_splits dest: op_frames)


lemma write_call_frame:
  assumes "c \<in> {CWriteBoolean b, CWriteByte n i, CWriteShort i, CWriteInt n i, CWriteUnsignedInt n u,
      CWriteFloat n u, CWriteDouble n d, CWriteUTF n s, CWriteUTFBytes n s}"
    and "run_call h c th = Inr (v, th')"
  shows "ba_frame th th'"
  using assms
  by (auto simp: write_defs writeByte_def writeUnsignedInt_def dest!: write_method_frame
      elim!: bindE_InrE intro: write_bytes_frame writeUTF_frame writeShort_frame)

lemma m_writeMultiByte_frame: "m_writeMultiByte ic s cs th = Inr (v, th') \<Longrightarrow> ba_frame th th'"
  by (auto simp: m_writeMultiByte_def elim!: bindE_InrE dest!: write_method_frame split: option.splits
      if_splits dest: write_bytes_frame)

lemma getBuffer_fixed_frame: "getBuffer n False th = Inr (r, th') \<Longrightarrow> ba_frame th th'"
  by (auto simp: ba_frame_def ba_ok_def getBuffer_def getBufferIntern_def createError_def Let_def not_less
      split: if_splits option.splits)

lemma m_setIndex_frame: "m_setIndex i u th = Inr (Some th') \<Longrightarrow> ba_frame th th'"
  by (auto simp: m_setIndex_def split: if_splits elim!: bindE_InrE dest!: set_index_frame)

lemma m_readBytes_frame:
  assumes "m_readBytes out ofs n th = Inr (v, th', out')"
  shows "ba_frame th th' \<and> ba_frame out out'"
  using assms by (auto simp: m_readBytes_def Let_def split: if_splits elim!: bindE_InrE
      dest!: getBuffer_frame ba_store_frame intro!: ba_frame_locked intro: ba_frame_trans)

lemma m_writeBytes_frame:
  assumes "m_writeBytes argslen src ofs n th = Inr (v, th', src')"
  shows "ba_frame th th' \<and> ba_frame src src'"
  using assms unfolding m_writeBytes_def Let_def
  by (auto split: if_splits elim!: bindE_InrE
      dest!: getBuffer_frame getBuffer_fixed_frame ba_store_frame intro!: ba_frame_locked intro: ba_frame_trans)

lemma compress_zlib_frame:
  assumes "compress_zlib (h_deflate h) (h_compressBound h) (h_fresh h) raw th = Inr th'" and "bound_ok h th"
  shows "ba_frame th th'"
  using assms by (auto simp: compress_zlib_def bound_ok_def Let_def mem_write_def acquireBuffer_def ba_frame_def ba_ok_def
      unat_of_nat split: if_splits option.splits elim!: bindE_InrE)

lemma uncompress_zlib_frame:
  assumes "uncompress_zlib (h_inflateInit h) (h_inflate h) (h_fuel h) raw th = Inr th'" and "inflated_ok h raw th"
  shows "ba_frame th th'"
proof (cases "ba_len th = 0")
  case False
  then obtain input where input: "ba_load 0 (unat (ba_len th)) th = Inr input"
    using assms(1) by (auto simp: uncompress_zlib_def elim!: bindE_InrE)
  show ?thesis
  proof (cases "h_inflateInit h raw input")
    case None
    then show ?thesis using assms(1) False input by (auto simp: uncompress_zlib_def)
  next
    case (Some s)
    then obtain r where r: "inflate_loop (h_inflate h) (unat (ba_len th)) (h_fuel h) s (unat (3 * ba_len th)) [] = Inr r"
      using assms(1) False input by (auto simp: uncompress_zlib_def elim!: bindE_InrE)
    show ?thesis
    proof (cases r)
      case None
      then show ?thesis using assms(1) False input Some r by (auto simp: uncompress_zlib_def)
    next
      case (Some out)
      moreover have "length out < 2 ^ 32"
        using assms(2) input \<open>h_inflateInit h raw input = Some s\<close> r Some by (auto simp: inflated_ok_def)
      ultimately show ?thesis
        using assms(1) False input r \<open>h_inflateInit h raw input = Some s\<close>
        by (auto simp: uncompress_zlib_def ba_frame_def ba_ok_def unat_of_nat)
    qed
  qed
qed (use assms in \<open>simp add: uncompress_zlib_def\<close>)

lemma bound_ok_lock [simp]: "bound_ok h (ba_lock th) = bound_ok h th"
  by (simp add: bound_ok_def ba_lock_def)

lemma inflated_ok_lock [simp]: "inflated_ok h raw (ba_lock th) = inflated_ok h raw th"
proof -
  have "ba_len (ba_lock th) = ba_len th" "ba_load i n (ba_lock th) = ba_load i n th" for i n
    by (simp_all add: ba_lock_def ba_load_def cong: option.case_cong)
  then show ?thesis
    by (simp add: inflated_ok_def)
qed

lemma m_compress_frame:
  assumes "m_compress (h_deflate h) (h_compressBound h) (h_fresh h) raw th = Inr th'" and "bound_ok h th"
  shows "ba_frame th th'"
  using assms by (auto simp: m_compress_def elim!: bindE_InrE intro!: ba_frame_locked compress_zlib_frame)

lemma m_uncompress_frame:
  assumes "m_uncompress (h_inflateInit h) (h_inflate h) (h_fuel h) raw th = Inr th'" and "inflated_ok h raw th"
  shows "ba_frame th th'"
  using assms by (auto simp: m_uncompress_def elim!: bindE_InrE intro!: ba_frame_locked uncompress_zlib_frame)

lemma m_deflate_eq: "m_deflate d b f = m_compress d b f True"
  by (simp add: fun_eq_iff m_deflate_def m_compress_def)

lemma m_inflate_eq: "m_inflate i f n = m_uncompress i f n True"
  by (simp add: fun_eq_iff m_inflate_def m_uncompress_def)

lemma ba_append_frame: "ba_append bs th = Inr th' \<Longrightarrow> ba_frame th th'"
  by (auto simp: ba_append_def Let_def elim!: bindE_InrE dest!: getBuffer_frame ba_store_frame
      intro!: ba_frame_locked intro: ba_frame_trans)

lemma removeFrontBytes_frame:
  assumes "removeFrontBytes n th = Inr th'" and "0 \<le> n" and "n \<le> uint (ba_len th)"
  shows "ba_frame th th'"
proof -
  have "n < 2 ^ 32"
    using assms(3) uint_lt2p [of "ba_len th"] by simp
  then have "take_bit 32 n = n"
    using assms(2) by (simp add: take_bit_int_eq_self)
  then have le: "ba_len th - of_int n \<le> ba_len th"
    using assms(2,3) by (simp add: word_le_def uint_sub_if' uint_word_of_int_eq)
  have store: "ba_store 0 xs th = Inr th1 \<Longrightarrow> ba_frame th th1 \<and> ba_len th1 = ba_len th" for xs th1
    using ba_store_frame [of 0 xs th th1] by (auto simp: ba_store_def split: if_splits option.splits elim!: bindE_InrE)
  have "\<exists>th1. (if n < sint (ba_len th) then bindE (ba_load (nat n) (unat (ba_len th - of_int n)) th) (\<lambda>xs. ba_store 0 xs th)
        else Inr th) = Inr th1 \<and> th' = th1\<lparr>ba_position := ba_position th1 - of_int n, ba_len := ba_len th1 - of_int n\<rparr>"
    using assms(1,2) unfolding removeFrontBytes_def by (auto elim!: bindE_InrE split: if_splits)
  then obtain th1 where r: "(if n < sint (ba_len th) then bindE (ba_load (nat n) (unat (ba_len th - of_int n)) th) (\<lambda>xs. ba_store 0 xs th)
        else Inr th) = Inr th1"
    and th': "th' = th1\<lparr>ba_position := ba_position th1 - of_int n, ba_len := ba_len th1 - of_int n\<rparr>"
    by blast
  have th1: "ba_frame th th1" "ba_len th1 = ba_len th"
    using r store by (auto split: if_splits elim!: bindE_InrE)
  show ?thesis
    using th1 le by (auto simp: th' ba_frame_def ba_ok_def split: option.splits)
qed

lemmas call_frames = m_setPosition_frame m_setEndian_frame m_setObjectEncoding_frame m_clear_frame
  m_readMultiByte_frame m_writeMultiByte_frame m_pop_frame m_push_frame m_unshift_frame
  m_cas_int_frame m_cas_length_frame m_setIndex_frame m_readBytes_frame m_writeBytes_frame m_compress_frame m_uncompress_frame
  ba_append_frame removeFrontBytes_frame

lemma run_call_frame:
  assumes "run_call h c th = Inr (v, th')" and "call_ok h c th" and "\<not> keeps_lock c" and "\<And>b. c \<noteq> CSetShareable b"
  shows "ba_frame th th'"
  using assms
proof (cases c)
  case (CSetIndexByName i u)
  with assms(1) show ?thesis
    by (auto simp: m_setIndexByName_def split: if_splits elim!: bindE_InrE dest!: set_index_frame)
qed (auto simp: m_shift_eq_pop m_deflate_eq m_inflate_eq split: option.splits elim!: bindE_InrE dest: call_frames
      intro: read_call_frame [OF _ assms(1)] write_call_frame [OF _ assms(1)])

lemma run_call_ok:
  assumes "run_call h c th = Inr (v, th')" and "call_ok h c th" and "ba_ok th"
  shows "ba_ok th'"
proof (cases "keeps_lock c \<or> (\<exists>b. c = CSetShareable b)")
  case False
  then have "ba_frame th th'"
    using run_call_frame [OF assms(1,2)] by blast
  with assms(3) show ?thesis
    by (simp add: ba_frame_def)
next
  case True
  then consider n i where "c = CSetLength n i" | n where "c = CReadUTFBytes n" | b where "c = CSetShareable b"
    by (cases c) auto
  then show ?thesis
  proof cases
    case 1
    with assms show ?thesis
      by (auto simp: m_setLength_def Let_def split: if_splits elim!: bindE_InrE dest!: setLength_frame)
        (auto simp: ba_frame_def)
  next
    case 2
    with assms show ?thesis
      by (auto simp: m_readUTFBytes_def Let_def split: if_splits elim!: bindE_InrE dest!: readUTFBytes_frame)
        (auto simp: ba_frame_def)
  next
    case 3
    with assms show ?thesis
      by (cases "ba_bytes th") (auto simp: m_setShareable_def ba_ok_def split: if_splits)
  qed
qed

lemma run_call_locks:
  assumes "run_call h c th = Inr (v, th')" and "call_ok h c th" and "\<not> keeps_lock c"
  shows "ba_locks th' = ba_locks th"
proof (cases "\<exists>b. c = CSetShareable b")
  case True
  with assms show ?thesis
    by (auto simp: m_setShareable_def)
next
  case False
  then have "ba_frame th th'"
    using run_call_frame [OF assms(1-3)] by blast
  then show ?thesis
    by (simp add: ba_frame_def)
qed

section \<open>Properties\<close>

text \<open>C5: Invariant. In every state that a new array can reach through the calls of \<open>ba_call\<close> (all methods of a script that
  change the array except \<open>readObject\<close>, \<open>writeObject\<close> and \<open>compress\<close> and \<open>uncompress\<close> with \<open>lzma\<close>, and the C++
  functions \<open>setVariableByInteger\<close>, \<open>setVariableByMultiname\<close> with an index, \<open>append\<close> and \<open>removeFrontBytes\<close>; \<open>readBytes\<close> and
  \<open>writeBytes\<close> with another array than the array itself), the visible length lies inside the allocated block and the
  block has the recorded size; every further such call that returns keeps this and, except for \<open>length\<close> and
  \<open>readUTFBytes\<close>, releases the lock as often as it took it. Excluded by \<open>call_ok\<close> are a length set above 1 GiB, which is
  stored although no block is allocated, \<open>removeFrontBytes\<close> of a negative number of bytes or of more than there are,
  and compressed or uncompressed data of 4 GiB or more; a new buffer has the size that was asked for.\<close>

theorem reachable_invariant:
  assumes "ba_reachable h th"
  shows "ba_ok th \<and> (\<forall>c v th'. run_call h c th = Inr (v, th') \<and> call_ok h c th \<longrightarrow>
    ba_ok th' \<and> (\<not> keeps_lock c \<longrightarrow> ba_locks th' = ba_locks th))"
proof -
  have "ba_ok th"
    using assms
  proof (induction rule: ba_reachable.induct)
    case new
    then show ?case
      by (simp add: ba_ok_def ba_new_def)
  next
    case (step th th')
    then show ?case
      by (auto elim!: ba_stepE dest: run_call_ok)
  qed simp
  then show ?thesis
    using run_call_ok run_call_locks by blast
qed

text \<open>A host whose compressor and decompressor copy.\<close>

definition copy_host :: "u8 list host" where
  "copy_host = \<lparr>h_iconv = (\<lambda>_ _. None), h_deflate = (\<lambda>_ bs _. Some bs), h_compressBound = (\<lambda>n. n),
     h_fresh = (\<lambda>n. replicate n 0), h_inflateInit = (\<lambda>_ bs. Some bs),
     h_inflate = (\<lambda>bs n. (drop n bs, take n bs, if length bs \<le> n then Z_STREAM_END else Z_OK)), h_fuel = 3\<rparr>"

lemma reachable_invariant_witness:
  "\<exists>th'. run_call copy_host (CWriteByte 1 7) (ba_new (Some [1, 2]) 2) = Inr (ANone, th') \<and> ba_ok th'"
proof -
  have "ba_reachable copy_host (ba_new (Some [1, 2]) 2)"
    using ba_reachable.buffer [of "[1, 2]"] by simp
  moreover have "call_ok copy_host (CWriteByte 1 7) (ba_new (Some [1, 2]) 2)"
    by simp
  ultimately have "run_call copy_host (CWriteByte 1 7) (ba_new (Some [1, 2]) 2) = Inr (v, th') \<Longrightarrow> ba_ok th'" for v th'
    using reachable_invariant by blast
  moreover have "bindE (run_call copy_host (CWriteByte 1 7) (ba_new (Some [1, 2]) 2)) (\<lambda>(v, _). Inr v) = Inr ANone"
    by code_simp
  ultimately show ?thesis
    by (auto elim!: bindE_InrE simp del: run_call.simps)
qed

text \<open>The paths on which the lock is kept, and the length that no block stands behind.\<close>

lemma setLength_keeps_lock:
  assumes "ba_shareable th" and "of_int n = ba_len th"
  shows "\<exists>th'. m_setLength 1 n th = Inr (ANone, th') \<and> ba_locks th' = ba_locks th + 1"
  using assms by (auto simp: m_setLength_def ba_lock_def)

lemma readUTFBytes_keeps_lock:
  assumes "ba_shareable th" and "m_readUTFBytes n th = Inr (AString s, th')"
  shows "ba_locks th' = ba_locks th + 1"
  using assms by (auto simp: m_readUTFBytes_def Let_def ba_lock_def split: if_splits elim!: bindE_InrE
      dest!: readUTFBytes_frame) (auto simp: ba_frame_def)

lemma setLength_too_large:
  "\<exists>th'. m_setLength 1 0x40000001 (ba_new None 0) = Inr (ANone, th') \<and> ba_len th' = 0x40000001
     \<and> ba_bytes th' = None \<and> m_readByte 0 th' = Inl NullDeref"
  by (simp add: m_setLength_def setLength_def getBuffer_def getBufferIntern_def ba_new_def BA_MAX_SIZE_def
      createError_def ba_lock_def ba_unlock_def m_readByte_def read_method_def readByte_def ba_load_def)

end
