(* ===== verification/ByteArraySpec.thy ===== *)
theory ByteArraySpec
  imports ByteArrayCalls
begin

text \<open>
  The functional behaviour of the methods of \<open>ByteArray\<close> in terms of the visible content: reading
  numbers, access by index, copying between arrays, compare-and-swap, the string table of AMF
  serialization and decompression.
\<close>

section \<open>The lock and the content\<close>

lemma ba_lock_simps [simp]:
  "ba_data (ba_lock th) = ba_data th" "ba_data (ba_unlock th) = ba_data th"
  "ba_len (ba_lock th) = ba_len th" "ba_position (ba_lock th) = ba_position th"
  "ba_len (ba_unlock th) = ba_len th" "ba_position (ba_unlock th) = ba_position th"
  "ba_littleEndian (ba_lock th) = ba_littleEndian th"
  "ba_unlock (ba_lock th) = th"
  "ba_unlock ((ba_lock th)\<lparr>ba_position := p\<rparr>) = th\<lparr>ba_position := p\<rparr>"
  by (cases "ba_bytes th"; simp add: ba_lock_def ba_unlock_def ba_data_def)+

lemma ba_locks_update [simp]:
  "ba_ok (th\<lparr>ba_locks := l\<rparr>) = ba_ok th" "ba_data (th\<lparr>ba_locks := l\<rparr>) = ba_data th"
  by (cases "ba_bytes th"; simp add: ba_ok_def ba_data_def)+

lemma wrote_locked: "wrote xs (ba_lock th) th' \<Longrightarrow> wrote xs th (ba_unlock th')"
  by (cases "ba_shareable th") (auto simp: wrote_def ba_same_def ba_lock_def ba_unlock_def)

lemma ba_data_error [simp]: "ba_data (createError e th) = ba_data th"
  by (cases "ba_bytes th") (simp_all add: ba_data_def createError_def)

lemma room_lock [simp]: "room n (ba_lock th) = room n th"
  by (simp add: room_def)

section \<open>Reading numbers\<close>

text \<open>The contract of a read of \<open>n\<close> bytes: their value and the position behind them, or the
  end-of-file error and the position unchanged.\<close>

definition read_spec :: "nat \<Rightarrow> (u8 list \<Rightarrow> as_value) \<Rightarrow> byte_array \<Rightarrow> as_value \<times> byte_array" where
  "read_spec n val th =
     (if unat (ba_position th) + n \<le> unat (ba_len th)
      then (val (take n (drop (unat (ba_position th)) (ba_data th))),
            th\<lparr>ba_position := ba_position th + of_nat n\<rparr>)
      else (ANone, createError EOFError th))"

lemma read_method_fixed:
  assumes "ba_ok th" and "unat (ba_position th) + unat n < 2 ^ 32"
    and "op (ba_lock th) = bindE (read_fixed n (ba_lock th)) (\<lambda>(r, th). Inr (map_option g r, th))"
  shows "read_method True op f th = Inr (read_spec (unat n) (\<lambda>bs. f (g bs)) th)"
  using read_fixed_spec [of "ba_lock th" n] assms
  by (simp add: read_method_def read_spec_def)

lemma readByte_eq_fixed:
  assumes "ba_ok th" and "unat (ba_position th) + 1 < 2 ^ 32"
  shows "readByte th = bindE (read_fixed 1 th) (\<lambda>(r, th). Inr (map_option hd r, th))"
proof -
  have "unat (ba_position th + 1) = unat (ba_position th) + 1"
    using assms(2) unat_add_lem [of "ba_position th" 1] by simp
  then have "ba_len th < ba_position th + 1 \<longleftrightarrow> ba_len th \<le> ba_position th"
    by (simp add: word_less_nat_alt word_le_nat_alt less_Suc_eq_le)
  then show ?thesis
    by (auto simp: readByte_def read_fixed_def bindE_def split: sum.splits)
qed


text \<open>\<open>readFloat\<close> and \<open>readDouble\<close> at a given position, followed by the step of the position.\<close>

lemma read_at_eq_fixed:
  "bindE (readFloat_at (ba_position th) th) (\<lambda>r. Inr (r, if r = None then th else th\<lparr>ba_position := ba_position th + 4\<rparr>))
    = bindE (read_fixed 4 th) (\<lambda>(r, th'). Inr (map_option (\<lambda>bs. endian32 (ba_littleEndian th) (le32 bs)) r, th'))"
  "bindE (readDouble_at (ba_position th) th) (\<lambda>r. Inr (r, if r = None then th else th\<lparr>ba_position := ba_position th + 8\<rparr>))
    = bindE (read_fixed 8 th) (\<lambda>(r, th'). Inr (map_option (\<lambda>bs. endian64 (ba_littleEndian th) (le64 bs)) r, th'))"
  by (auto simp: readFloat_at_def readDouble_at_def read_fixed_def bindE_def split: sum.splits)

text \<open>Reading numbers. On a well-formed array whose position is at least eight below 2\<open>^\<close>32, the
  reading methods never fail: when enough bytes follow the position they return the number in the
  byte order of the array, signed or unsigned as documented, and move behind it; otherwise they raise
  the end-of-file error and leave the position.\<close>

theorem read_methods_correct:
  assumes "ba_ok th" and "unat (ba_position th) + 8 < 2 ^ 32"
  defines "e16 \<equiv> \<lambda>bs. endian16 (ba_littleEndian th) (le16 bs)"
    and "e32 \<equiv> \<lambda>bs. endian32 (ba_littleEndian th) (le32 bs)"
    and "e64 \<equiv> \<lambda>bs. endian64 (ba_littleEndian th) (le64 bs)"
  shows "m_readBoolean th = Inr (read_spec 1 (\<lambda>bs. ABool (hd bs \<noteq> 0)) th)
    \<and> m_readByte 0 th = Inr (read_spec 1 (\<lambda>bs. AInt (sint (hd bs))) th)
    \<and> m_readUnsignedByte 0 th = Inr (read_spec 1 (\<lambda>bs. AUInt (ucast (hd bs))) th)
    \<and> m_readShort 0 th = Inr (read_spec 2 (\<lambda>bs. AInt (sint (e16 bs))) th)
    \<and> m_readUnsignedShort 0 th = Inr (read_spec 2 (\<lambda>bs. AUInt (ucast (e16 bs))) th)
    \<and> m_readInt 0 th = Inr (read_spec 4 (\<lambda>bs. AInt (sint (e32 bs))) th)
    \<and> m_readUnsignedInt 0 th = Inr (read_spec 4 (\<lambda>bs. AUInt (e32 bs)) th)
    \<and> m_readFloat 0 th = Inr (read_spec 4 (\<lambda>bs. AFloat (e32 bs)) th)
    \<and> m_readDouble 0 th = Inr (read_spec 8 (\<lambda>bs. ANumber (e64 bs)) th)"
proof -
  have byte: "read_method True readByte f th = Inr (read_spec 1 (\<lambda>bs. f (hd bs)) th)" for f
    using read_method_fixed [OF assms(1), of 1 readByte hd f] readByte_eq_fixed [of "ba_lock th"] assms(1,2) by simp
  have short: "read_method True readShort f th = Inr (read_spec 2 (\<lambda>bs. f (e16 bs)) th)" for f
    using read_method_fixed [OF assms(1), of 2 readShort e16 f] assms(2) by (simp add: readShort_def e16_def)
  have long: "read_method True readUnsignedInt f th = Inr (read_spec 4 (\<lambda>bs. f (e32 bs)) th)" for f
    using read_method_fixed [OF assms(1), of 4 readUnsignedInt e32 f] assms(2)
    by (simp add: readUnsignedInt_def e32_def)
  have raw: "read_method True (read_fixed 4) f th = Inr (read_spec 4 f th)" for f
  proof -
    have "read_fixed 4 (ba_lock th) = bindE (read_fixed 4 (ba_lock th)) (\<lambda>(r, th). Inr (map_option id r, th))"
      by (cases "read_fixed 4 (ba_lock th)") (auto simp: option.map_id)
    from read_method_fixed [of th 4 "read_fixed 4" id f, OF assms(1) _ this] show ?thesis
      using assms(2) by simp
  qed
  have f: "m_readFloat 0 th = Inr (read_spec 4 (\<lambda>bs. AFloat (e32 bs)) th)"
    using read_method_fixed [OF assms(1), of 4 _ e32 AFloat] assms(2)
    by (simp add: m_readFloat_def e32_def read_at_eq_fixed)
  have d: "m_readDouble 0 th = Inr (read_spec 8 (\<lambda>bs. ANumber (e64 bs)) th)"
    using read_method_fixed [OF assms(1), of 8 _ e64 ANumber] assms(2)
    by (simp add: m_readDouble_def e64_def read_at_eq_fixed)
  show ?thesis
    using f d by (simp add: read_defs byte short long raw e32_def)
qed


lemma read_methods_correct_witness:
  "m_readShort 0 (ba_new (Some [0x92, 0x34]) 2) = Inr (AInt (- 28108), (ba_new (Some [0x92, 0x34]) 2)\<lparr>ba_position := 2\<rparr>)
    \<and> m_readInt 0 (ba_new (Some [0x92, 0x34]) 2) = Inr (ANone, createError EOFError (ba_new (Some [0x92, 0x34]) 2))"
proof -
  have v: "sint (endian16 False (le16 [0x92, 0x34])) = - 28108"
    by code_simp
  show ?thesis
    using read_methods_correct [of "ba_new (Some [0x92, 0x34]) 2"] ba_ok_new [of "[0x92, 0x34]"] v
    by (simp add: read_spec_def ba_new_def ba_data_def)
qed

section \<open>Access by index\<close>

lemma ba_data_nth:
  assumes "ba_ok th" and "i < ba_len th"
  shows "ba_load (unat i) 1 th = Inr [ba_data th ! unat i]"
proof -
  have "unat i + 1 \<le> unat (ba_len th)" "unat i < length (ba_data th)"
    using assms by (simp_all add: word_less_nat_alt length_ba_data)
  then show ?thesis
    using ba_load_spec [OF assms(1), of "unat i" 1] by (simp add: take_Suc hd_drop_conv_nth)
qed

lemma getIndex_spec:
  assumes "ba_ok th" and "unat i < 2 ^ 31"
  shows "m_getIndex i th = Inr (Some (if unat i < length (ba_data th) then AUInt (ucast (ba_data th ! unat i))
    else AUndefined), th)"
  using assms ba_data_nth [of "ba_lock th" i] sint_small [OF assms(2)]
  by (auto simp: m_getIndex_def length_ba_data word_less_nat_alt)

text \<open>The content after a byte is stored: zeros up to the index, then the byte.\<close>

definition put_at :: "nat \<Rightarrow> u8 \<Rightarrow> u8 list \<Rightarrow> u8 list" where
  "put_at i v d = (d @ replicate (Suc i - length d) 0)[i := v]"

lemma put_at_end: "length d \<le> i \<Longrightarrow> put_at i v d = d @ replicate (i - length d) 0 @ [v]"
proof -
  assume "length d \<le> i"
  then have "replicate (Suc i - length d) (0 :: u8) = replicate (i - length d) 0 @ [0]"
    by (simp add: Suc_diff_le replicate_append_same)
  with \<open>length d \<le> i\<close> show ?thesis
    by (simp add: put_at_def list_update_append)
qed

lemma overwrite_one: "i < length d \<Longrightarrow> overwrite i [v] d = d[i := v]"
  by (simp add: overwrite_def upd_conv_take_nth_drop)

lemma set_index_spec:
  assumes "ba_ok th" and "i < BA_MAX_SIZE"
  shows "\<exists>th'. set_index i v th = Inr th' \<and> ba_ok th' \<and> ba_data th' = put_at (unat i) v (ba_data th)
    \<and> ba_position th' = ba_position th"
proof (cases "ba_len th \<le> i")
  case False
  then have i: "unat i < length (ba_data th)"
    using assms(1) by (simp add: length_ba_data word_less_nat_alt not_le)
  then obtain th1 where "ba_store (unat i) [v] (ba_lock th) = Inr th1" "ba_ok th1"
    "ba_data th1 = overwrite (unat i) [v] (ba_data th)" "ba_position th1 = ba_position th"
    using ba_store_spec [of "ba_lock th" "unat i" "[v]"] assms(1) by (auto simp: length_ba_data)
  with False i show ?thesis
    by (simp add: set_index_def put_at_def overwrite_one)
next
  case True
  have u1: "unat (i + 1) = Suc (unat i)"
    using assms(2) unat_add_lem [of i 1] by (simp add: BA_MAX_SIZE_def word_less_nat_alt)
  then have "i + 1 \<le> BA_MAX_SIZE"
    using assms(2) by (simp add: word_le_nat_alt word_less_nat_alt)
  then obtain th1 where th1: "getBuffer (i + 1) True (ba_lock th) = Inr (True, th1)" "ba_ok th1"
    "unat (ba_len th1) = max (unat (ba_len th)) (Suc (unat i))" "take (unat (ba_len th)) (ba_data th1) = ba_data th"
    "ba_position th1 = ba_position th"
    using getBuffer_spec [of "ba_lock th" "i + 1"] assms(1) u1 by (metis ba_lock_simps(1,3,4) ba_ok_lock(1))
  have len: "unat (ba_len th) \<le> unat i" "unat (ba_len th1) = Suc (unat i)"
    "length (ba_data th) = unat (ba_len th)" "length (ba_data th1) = Suc (unat i)"
    using True th1(2,3) assms(1) by (simp_all add: word_le_nat_alt length_ba_data)
  define gap where "gap = unat (i - ba_len th)"
  have gap: "gap = unat i - unat (ba_len th)"
    using True by (simp add: gap_def unat_sub)
  obtain th2 where th2: "ba_store (unat (ba_len th)) (replicate gap 0) th1 = Inr th2" "ba_ok th2"
    "ba_data th2 = overwrite (unat (ba_len th)) (replicate gap 0) (ba_data th1)" "ba_len th2 = ba_len th1"
    "ba_position th2 = ba_position th"
    using ba_store_spec [OF th1(2), of "unat (ba_len th)" "replicate gap 0"] len gap th1(5) by auto
  obtain th3 where th3: "ba_store (unat i) [v] th2 = Inr th3" "ba_ok th3"
    "ba_data th3 = overwrite (unat i) [v] (ba_data th2)" "ba_position th3 = ba_position th"
    using ba_store_spec [OF th2(2), of "unat i" "[v]"] th2(4,5) len by auto
  have "ba_data th2 = ba_data th @ replicate gap 0 @ drop (unat i) (ba_data th1)"
    using th1(4) gap len(1) by (simp add: th2(3) overwrite_def)
  then have "ba_data th3 = put_at (unat i) v (ba_data th)"
    using gap len by (simp add: th3(3) put_at_end overwrite_def)
  with True th1(1) th2(1) th3 show ?thesis
    by (simp add: set_index_def gap_def)
qed


text \<open>Access by index. Storing a value at an index below 1 GiB succeeds: the array then holds the
  low byte of the value there, every other index reads as before, and the bytes between the old end
  and the index read as zero.\<close>

theorem index_law:
  assumes "ba_ok th" and "i < BA_MAX_SIZE" and "unat j < 2 ^ 31"
  shows "\<exists>th'. m_setIndexByName i v th = Inr th' \<and> ba_ok th' \<and> m_setIndex i v th = Inr (Some th')
    \<and> m_getIndex j th' = (if j = i then Inr (Some (AUInt (v AND 0xff)), th')
        else if unat j < length (ba_data th) then bindE (m_getIndex j th) (\<lambda>(r, _). Inr (r, th'))
        else Inr (Some (if j < i then AUInt 0 else AUndefined), th'))"
proof -
  have i: "unat i < 2 ^ 31" "\<not> BA_MAX_SIZE < i"
    using assms(2) by (auto simp: BA_MAX_SIZE_def word_less_nat_alt)
  obtain th' where th': "set_index i (ucast (v AND 0xff)) th = Inr th'" "ba_ok th'"
    "ba_data th' = put_at (unat i) (ucast (v AND 0xff)) (ba_data th)"
    using set_index_spec [OF assms(1,2)] by blast
  have "ucast (ucast (v AND 0xff) :: u8) = v AND (0xff :: u32)"
    by (rule bit_word_eqI) (auto simp: bit_simps mask_consts)
  then have "m_getIndex j th' = (if j = i then Inr (Some (AUInt (v AND 0xff)), th')
      else if unat j < length (ba_data th) then bindE (m_getIndex j th) (\<lambda>(r, _). Inr (r, th'))
      else Inr (Some (if j < i then AUInt 0 else AUndefined), th'))"
    using assms by (auto simp: getIndex_spec th'(2,3) put_at_def nth_list_update nth_append word_less_nat_alt
        word_unat_eq_iff)
  with th' i show ?thesis
    by (auto simp: m_setIndexByName_def m_setIndex_def sint_small)
qed

lemma index_law_witness:
  "\<exists>th'. m_setIndexByName 3 0x1ff (ba_new (Some [7]) 1) = Inr th' \<and> m_getIndex 2 th' = Inr (Some (AUInt 0), th')"
  using index_law [of "ba_new (Some [7]) 1" 3 2 "0x1ff"] ba_ok_new [of "[7]"]
  by (auto simp: BA_MAX_SIZE_def ba_data_def ba_new_def word_less_nat_alt)

text \<open>The index 2\<open>^\<close>30 passes the test of the setter, but no buffer of 2\<open>^\<close>30 + 1 bytes is given.\<close>

lemma setIndex_limit: "m_setIndexByName BA_MAX_SIZE v (ba_new None 0) = Inl NullDeref"
proof -
  have "\<not> (0x40000001 :: u32) \<le> 0" "unat (0x40000000 :: u32) \<noteq> 0"
    by simp_all
  then show ?thesis
    by (simp add: m_setIndexByName_def set_index_def getBuffer_def getBufferIntern_def BA_MAX_SIZE_def ba_new_def
        ba_lock_def createError_def ba_store_def)
qed


section \<open>Copying between arrays\<close>

lemma overwrite_grow:
  assumes "take (length d) d' = d" and "length d' = max (length d) (length xs + p)" and "p \<le> length d"
  shows "overwrite p xs d' = overwrite p xs d"
proof -
  have "take p d' = take p d"
    using assms(1,3) by (metis min.absorb1 take_take)
  moreover have "drop (p + length xs) d' = drop (p + length xs) d"
    using assms by (cases "p + length xs \<le> length d") simp_all
  ultimately show ?thesis
    by (simp add: overwrite_def)
qed

text \<open>Copying out of another array. \<open>writeBytes\<close> with a range inside a non-empty source below
  1 GiB writes exactly the bytes of that range (from the offset to the end when the length is 0) at
  the position of the target and leaves the source as it is.\<close>

theorem writeBytes_correct:
  assumes "ba_ok src" and "ba_len src \<le> BA_MAX_SIZE" and "offset < ba_len src"
    and "unat offset + unat len \<le> unat (ba_len src)"
  defines "xs \<equiv> take (if len = 0 then unat (ba_len src) else unat len) (drop (unat offset) (ba_data src))"
  assumes "room (length xs) th"
  shows "\<exists>th'. m_writeBytes 3 src offset len th = Inr (ANone, th', src) \<and> wrote xs th th'"
proof -
  define n where "n = (if len = 0 then ba_len src - offset else len)"
  have small: "unat (ba_len src) \<le> 2 ^ 30"
    using assms(2) by (simp add: BA_MAX_SIZE_def word_le_nat_alt)
  have un: "unat n = (if len = 0 then unat (ba_len src) - unat offset else unat len)"
    using assms(3) by (simp add: n_def unat_sub)
  have range: "unat offset + unat n \<le> unat (ba_len src)"
    using assms(3,4) by (simp add: un word_less_nat_alt)
  then have ux: "unat (offset + n) = unat offset + unat n"
    using small by (intro unat_add_lem [THEN iffD1]) simp
  have lx: "length xs = unat n" "xs = take (unat n) (drop (unat offset) (ba_data src))"
    using assms(3,4) un by (auto simp: xs_def length_ba_data [OF assms(1)] word_less_nat_alt)
  have pos: "0 < unat n"
    using assms(3) by (cases "len = 0") (auto simp: un word_less_nat_alt unat_gt_0)
  have "ba_bytes src \<noteq> None"
    using assms(1,3) by (auto simp: ba_ok_def word_less_nat_alt split: option.splits)
  then have buf: "getBuffer (offset + n) False src = Inr (True, src)"
    using range pos assms(1) ux by (auto simp: getBuffer_def ba_ok_def word_le_nat_alt word_less_nat_alt)
  have load: "ba_load (unat offset) (unat n) src = Inr xs"
    using ba_load_spec [OF assms(1) range] by (simp add: lx(2))
  have on: "of_nat (length xs) = n"
    using lx(1) by simp
  obtain th1 where th1: "write_bytes xs (ba_lock th) = Inr th1" "wrote xs (ba_lock th) th1"
    using write_bytes_spec [of xs "ba_lock th"] assms(6) by (metis room_lock)
  have o: "\<not> ba_len src - 1 < offset" "\<not> ba_len src - offset < len"
  proof -
    have "ba_len src \<noteq> 0"
      using assms(3) by (cases "ba_len src = 0") simp_all
    then have "unat (ba_len src - 1) = unat (ba_len src) - 1" "unat (ba_len src - offset) = unat (ba_len src) - unat offset"
      using assms(3) unat_minus_one [of "ba_len src"] by (auto simp: unat_sub)
    then show "\<not> ba_len src - 1 < offset" "\<not> ba_len src - offset < len"
      using assms(3,4) by (auto simp: word_less_nat_alt)
  qed
  have "m_writeBytes 3 src offset len th = Inr (ANone, ba_unlock th1, src)"
    using th1(1) o buf load
    by (auto simp: m_writeBytes_def write_bytes_def on n_def [symmetric] elim!: bindE_InrE)
  moreover have "wrote xs th (ba_unlock th1)"
    using th1(2) by (rule wrote_locked)
  ultimately show ?thesis
    by blast
qed


lemma writeBytes_correct_witness:
  "\<exists>th'. m_writeBytes 3 (ba_new (Some [1, 2, 3, 4]) 4) 1 2 (ba_new None 0) = Inr (ANone, th', ba_new (Some [1, 2, 3, 4]) 4)
     \<and> wrote [2, 3] (ba_new None 0) th'"
  using writeBytes_correct [of "ba_new (Some [1, 2, 3, 4]) 4" 1 2 "ba_new None 0"] ba_ok_new [of "[1, 2, 3, 4]"]
  by (simp add: room_def ba_new_def ba_data_def BA_MAX_SIZE_def ba_ok_def)

text \<open>Copying into another array. \<open>readBytes\<close> of a range that follows the position replaces the
  bytes of the target from the offset on by it and moves the position; a longer range raises the
  end-of-file error and changes neither array.\<close>

theorem readBytes_correct:
  assumes "ba_ok th" and "ba_ok out" and "offset \<le> ba_len out" and "0 < unat len"
    and "unat offset + unat len \<le> 2 ^ 30" and "unat (ba_position th) + unat len < 2 ^ 32"
  shows "if unat (ba_position th) + unat len \<le> unat (ba_len th) then
      \<exists>out'. m_readBytes out offset len th = Inr (ANone, th\<lparr>ba_position := ba_position th + len\<rparr>, out') \<and> ba_ok out'
        \<and> ba_data out' = overwrite (unat offset) (take (unat len) (drop (unat (ba_position th)) (ba_data th))) (ba_data out)
    else m_readBytes out offset len th = Inr (ANone, createError EOFError th, out)"
proof -
  have un: "unat (ba_position th + len) = unat (ba_position th) + unat len"
    using assms(6) by (intro unat_add_lem [THEN iffD1]) simp
  have nz: "len \<noteq> 0"
    using assms(4) by auto
  show ?thesis
  proof (cases "unat (ba_position th) + unat len \<le> unat (ba_len th)")
    case False
    with un nz show ?thesis
      by (simp add: m_readBytes_def Let_def word_less_nat_alt)
  next
    case True
    define xs where "xs = take (unat len) (drop (unat (ba_position th)) (ba_data th))"
    have lx: "length xs = unat len"
      using True by (simp add: xs_def length_ba_data [OF assms(1)])
    have load: "ba_load (unat (ba_position th)) (unat len) (ba_lock th) = Inr xs"
      using ba_load_spec [of "ba_lock th" "unat (ba_position th)" "unat len"] assms(1) True by (simp add: xs_def)
    have "room (unat len) (out\<lparr>ba_position := offset\<rparr>)"
      using assms(2,3,5) by (simp add: room_def)
    have uo: "unat (len + offset) = unat len + unat offset"
      using assms(5) by (intro unat_add_lem [THEN iffD1]) simp
    then have "len + offset \<le> BA_MAX_SIZE"
      using assms(5) by (simp add: BA_MAX_SIZE_def word_le_nat_alt)
    then obtain out1 where out1: "getBuffer (len + offset) True out = Inr (True, out1)" "ba_ok out1"
      "unat (ba_len out1) = max (unat (ba_len out)) (unat len + unat offset)"
      "take (unat (ba_len out)) (ba_data out1) = ba_data out"
      using getBuffer_spec [OF assms(2)] uo by metis
    have "unat offset + length xs \<le> unat (ba_len out1)"
      unfolding out1(3) lx by simp
    then obtain out2 where out2: "ba_store (unat offset) xs out1 = Inr out2" "ba_ok out2"
      "ba_data out2 = overwrite (unat offset) xs (ba_data out1)"
      using ba_store_spec [OF out1(2), of "unat offset" xs] by auto
    have "overwrite (unat offset) xs (ba_data out1) = overwrite (unat offset) xs (ba_data out)"
      using out1(2-4) assms(2,3)
      by (intro overwrite_grow) (simp_all add: length_ba_data word_le_nat_alt lx)
    with out2 out1(1) load True un nz assms(5) show ?thesis
      by (auto simp: m_readBytes_def Let_def word_less_nat_alt xs_def)
  qed
qed


lemma readBytes_correct_witness:
  "\<exists>out'. m_readBytes (ba_new (Some [9]) 1) 1 2 (ba_new (Some [1, 2, 3]) 3)
     = Inr (ANone, (ba_new (Some [1, 2, 3]) 3)\<lparr>ba_position := 2\<rparr>, out') \<and> ba_data out' = [9, 1, 2]"
  using readBytes_correct [of "ba_new (Some [1, 2, 3]) 3" "ba_new (Some [9]) 1" 1 2]
    ba_ok_new [of "[1, 2, 3]"] ba_ok_new [of "[9]"]
  by (auto simp: ba_new_def ba_data_def overwrite_def)

section \<open>Compare and swap\<close>

lemma sint_neg: "2 ^ 31 \<le> unat w \<Longrightarrow> sint (w :: u32) < 0"
proof (rule ccontr)
  assume "2 ^ 31 \<le> unat w" and "\<not> sint w < 0"
  then have "\<not> bit w 31"
    using bit_last_iff [of w] by simp
  moreover have "k < 31 \<or> k = 31" if "k < LENGTH(32)" for k
    using that by auto
  ultimately have "take_bit 31 w = w"
    by (intro bit_word_eqI) (metis bit_take_bit_iff)
  then have "unat w = take_bit 31 (unat w)"
    by (metis unsigned_take_bit_eq)
  then have "unat w < 2 ^ 31"
    by (metis take_bit_nat_less_exp)
  with \<open>2 ^ 31 \<le> unat w\<close> show False
    by simp
qed

text \<open>Compare-and-swap. At an aligned index at least five bytes before the end,
  \<open>atomicCompareAndSwapIntAt\<close> returns the stored integer and replaces it exactly when it is the
  expected one; every other index raises a range error and changes nothing.\<close>

theorem compareAndSwapInt_correct:
  fixes i :: u32
  assumes "ba_ok th" and "unat (ba_len th) < 2 ^ 31"
  defines "old \<equiv> le32 (take 4 (drop (unat i) (ba_data th)))"
  shows "if unat i < 2 ^ 31 \<and> unat i mod 4 = 0 \<and> unat i + 4 < unat (ba_len th) then
      \<exists>th'. m_atomicCompareAndSwapIntAt i e n th = Inr (AInt (sint old), th') \<and> ba_ok th'
        \<and> ba_data th' = (if old = e then overwrite (unat i) (bytes_le32 n) (ba_data th) else ba_data th)
    else m_atomicCompareAndSwapIntAt i e n th = Inr (ANone, createError RangeError th)"
proof (cases "unat i < 2 ^ 31")
  case False
  then have "sint i < 0"
    by (simp add: sint_neg)
  with False show ?thesis
    by (simp add: m_atomicCompareAndSwapIntAt_def)
next
  case True
  have "sint (ba_len th) - 4 \<le> sint i \<longleftrightarrow> unat (ba_len th) \<le> unat i + 4"
    using sint_small [OF True] sint_small [OF assms(2)] by linarith
  moreover have "\<not> sint i < 0"
    using sint_small [OF True] by linarith
  ultimately have si: "sint (ba_len th) - 4 \<le> sint i \<longleftrightarrow> unat (ba_len th) \<le> unat i + 4" "\<not> sint i < 0" .
  show ?thesis
  proof (cases "unat i mod 4 = 0 \<and> unat i + 4 < unat (ba_len th)")
    case False
    with True si show ?thesis
      by (auto simp: m_atomicCompareAndSwapIntAt_def Let_def)
  next
    case in_range: True
    have load: "ba_load (unat i) 4 (ba_lock th) = Inr (take 4 (drop (unat i) (ba_data th)))"
      using ba_load_spec [of "ba_lock th" "unat i" 4] assms(1) in_range by simp
    obtain th1 where "ba_store (unat i) (bytes_le32 n) (ba_lock th) = Inr th1" "ba_ok th1"
      "ba_data th1 = overwrite (unat i) (bytes_le32 n) (ba_data th)"
      using ba_store_spec [of "ba_lock th" "unat i" "bytes_le32 n"] assms(1) in_range by auto
    with in_range True si load assms(1) show ?thesis
      by (auto simp: m_atomicCompareAndSwapIntAt_def Let_def old_def)
  qed
qed


lemma compareAndSwapInt_correct_witness:
  "m_atomicCompareAndSwapIntAt 4 0 7 (ba_new (Some [1, 0, 0, 0, 2, 0, 0, 0]) 8)
    = Inr (ANone, createError RangeError (ba_new (Some [1, 0, 0, 0, 2, 0, 0, 0]) 8))"
  using compareAndSwapInt_correct [of "ba_new (Some [1, 0, 0, 0, 2, 0, 0, 0]) 8" 4 0 7]
    ba_ok_new [of "[1, 0, 0, 0, 2, 0, 0, 0]"]
  by (simp add: ba_new_def)

section \<open>The string table of AMF\<close>

text \<open>The table is well formed: different strings, numbered in the order of their first use.\<close>

definition table_ok :: "(u8 list \<times> u32) list \<Rightarrow> bool" where
  "table_ok m \<longleftrightarrow> distinct (map fst m) \<and> map snd m = map of_nat [0..<length m] \<and> [] \<notin> fst ` set m"

lemma table_lookup:
  assumes "table_ok m" and "k < length m"
  shows "map_of m (fst (m ! k)) = Some (of_nat k)"
proof -
  have "snd (m ! k) = of_nat k"
    using assms by (metis (no_types, lifting) add_0 length_map map_upt_Suc nth_map nth_upt table_ok_def)
  moreover have "(fst (m ! k), snd (m ! k)) \<in> set m"
    using assms(2) by simp
  ultimately show ?thesis
    using assms(1) by (simp add: table_ok_def)
qed

lemma table_insert:
  assumes "table_ok m" and "map_of m bs = None" and "bs \<noteq> []"
  shows "table_ok (m @ [(bs, of_nat (length m))])"
  using assms by (auto simp: table_ok_def map_of_eq_None_iff)

text \<open>C7: String references. Writing a string to an AMF3 stream keeps the string table well formed
  and its old entries in place; afterwards the string, unless empty, has one position in the table,
  and from then on it is written as the reference to this position alone.\<close>

theorem string_table:
  assumes "table_ok m" and "writeStringVR m s th = Inr (m', th')" and "length (ts_bytes s) < 2 ^ 28"
  shows "table_ok m' \<and> take (length m) m' = m
    \<and> (ts_bytes s \<noteq> [] \<longrightarrow> (\<exists>k < length m'. fst (m' ! k) = ts_bytes s
         \<and> (\<forall>out. writeStringVR m' s out = bindE (writeU29 (2 * of_nat k) out) (\<lambda>out. Inr (m', out)))))"
proof -
  let ?bs = "ts_bytes s"
  have m': "m' = (if map_of m ?bs = None \<and> ?bs \<noteq> [] then m @ [(?bs, of_nat (length m))] else m)"
    using assms(2,3) by (auto simp: writeStringVR_def Let_def split: option.splits if_splits elim!: bindE_InrE)
  then have ok: "table_ok m'"
    using assms(1) table_insert by simp
  moreover have "\<exists>k < length m'. fst (m' ! k) = ?bs
      \<and> (\<forall>out. writeStringVR m' s out = bindE (writeU29 (2 * of_nat k) out) (\<lambda>out. Inr (m', out)))"
    if "?bs \<noteq> []"
  proof -
    have "?bs \<in> fst ` set m'"
      using that by (auto simp: m' map_of_eq_None_iff)
    then obtain k where k: "k < length m'" "fst (m' ! k) = ?bs"
      by (auto simp: in_set_conv_nth)
    with table_lookup [OF ok k(1)] assms(3) show ?thesis
      by (auto simp: writeStringVR_def push_bit_eq_mult mult.commute)
  qed
  ultimately show ?thesis
    using m' by auto
qed

lemma string_table_witness:
  "\<exists>m' th'. writeStringVR [] (ts_of [0x61]) (ba_new None 0) = Inr (m', th') \<and> table_ok m' \<and> length m' = 1"
proof -
  let ?th = "ba_new None 0" and ?s = "ts_of [0x61]"
  have s: "ts_bytes ?s = [0x61]"
    by (simp add: valid_cp_def utf8_enc_def)
  have "room 2 ?th"
    by (simp add: room_def ba_ok_def ba_new_def)
  then obtain th1 where th1: "writeU29 3 ?th = Inr th1" "wrote (u29_bytes 3) ?th th1" "room 1 th1"
    using foldE_writeByte_spec [of "u29_bytes 3" ?th] writeU29_bytes [of 3 ?th] wrote_room [of "u29_bytes 3" 1 ?th]
    by (auto simp: u29_bytes_def room_def)
  then obtain th2 where "write_bytes [0x61] th1 = Inr th2"
    using write_bytes_spec [of "[0x61]" th1] by auto
  with th1(1) have w: "writeStringVR [] ?s ?th = Inr ([([0x61], 0)], th2)"
    by (simp add: writeStringVR_def s)
  have "table_ok []"
    by (simp add: table_ok_def)
  from string_table [OF this w] w show ?thesis
    by (simp add: s)
qed

section \<open>Decompression\<close>

text \<open>A stream that holds \<open>data\<close> behaves like \<open>inflate\<close>: it fills the space and ends with the data.\<close>

definition inflates :: "('z \<Rightarrow> nat \<Rightarrow> 'z \<times> u8 list \<times> z_status) \<Rightarrow> (u8 list \<Rightarrow> 'z) \<Rightarrow> bool" where
  "inflates inflate st \<longleftrightarrow> (\<forall>data n. inflate (st data) n =
     (st (drop n data), take n data, if length data \<le> n then Z_STREAM_END else Z_OK))"

lemma inflate_loop_correct:
  assumes "inflates inflate st" and "0 < l" and "length out \<le> bsize" and "length data \<le> bsize - length out + fuel * l"
  shows "inflate_loop inflate l (Suc fuel) (st data) bsize out = Inr (Some (out @ data))"
  using assms(3,4)
proof (induction fuel arbitrary: data bsize out)
  case 0
  with assms(1) show ?case
    by (simp add: inflates_def Let_def)
next
  case (Suc fuel)
  define n where "n = bsize - length out"
  show ?case
  proof (cases "length data \<le> n")
    case True
    with assms(1) show ?thesis
      by (simp add: inflates_def Let_def n_def)
  next
    case False
    then have "length (out @ take n data) = bsize"
      using Suc.prems(1) by (simp add: n_def)
    with False assms(1) Suc.IH [of "out @ take n data" "bsize + l" "drop n data"] Suc.prems show ?thesis
      by (simp add: inflate_loop.simps(2) [of _ _ "Suc fuel"] inflates_def n_def [symmetric] Let_def algebra_simps
          del: inflate_loop.simps)
  qed
qed

text \<open>Decompression. With a zlib that delivers \<open>data\<close> for the content of the array, \<open>_inflate\<close>
  returns: the growing buffer takes all of \<open>data\<close>, however long it is, in at most one call of
  \<open>inflate\<close> per \<open>len\<close> bytes, the array then holds \<open>data\<close> and its position is 0.\<close>

theorem inflate_correct:
  assumes "ba_ok th" and "0 < ba_len th" and "ba_len th \<le> BA_MAX_SIZE" and "inflates inflate st"
    and "inflateInit True (ba_data th) = Some (st data)" and "length data < 2 ^ 32" and "length data \<le> fuel * unat (ba_len th)"
  shows "\<exists>th'. m_inflate inflateInit inflate (Suc fuel) th = Inr th' \<and> ba_ok th' \<and> ba_data th' = data
    \<and> ba_position th' = 0"
proof -
  have small: "unat (ba_len th) \<le> 2 ^ 30" "0 < unat (ba_len th)"
    using assms(2,3) by (simp_all add: BA_MAX_SIZE_def word_le_nat_alt word_less_nat_alt)
  have "inflate_loop inflate (unat (ba_len th)) (Suc fuel) (st data) (unat (3 * ba_len th)) [] = Inr (Some ([] @ data))"
    by (rule inflate_loop_correct [OF assms(4) small(2)]) (use assms(7) in simp_all)
  moreover have "ba_load 0 (unat (ba_len th)) (ba_lock th) = Inr (ba_data th)"
    using ba_load_spec [of "ba_lock th" 0 "unat (ba_len th)"] assms(1) length_ba_data [OF assms(1)] by simp
  moreover have "ba_len th \<noteq> 0"
    using small(2) by auto
  ultimately show ?thesis
    using assms(5,6)
    by (auto simp: m_inflate_def uncompress_zlib_def ba_unlock_def ba_ok_def ba_data_def unat_of_nat)
qed

lemma inflate_correct_witness:
  "\<exists>th'. m_inflate (\<lambda>raw bs. Some (bs @ bs)) (\<lambda>bs n. (drop n bs, take n bs, if length bs \<le> n then Z_STREAM_END else Z_OK))
      (Suc 2) (ba_new (Some [1, 2]) 2) = Inr th' \<and> ba_data th' = [1, 2, 1, 2]"
  using inflate_correct [of "ba_new (Some [1, 2]) 2" "\<lambda>bs n. (drop n bs, take n bs, if length bs \<le> n then Z_STREAM_END else Z_OK)"
      id "\<lambda>raw bs. Some (bs @ bs)" "[1, 2, 1, 2]" 2] ba_ok_new [of "[1, 2]"]
  by (auto simp: inflates_def BA_MAX_SIZE_def ba_new_def ba_data_def word_less_nat_alt)

text \<open>\<open>_deflate\<close> keeps the whole output buffer: what follows the compressed data in it is content.\<close>

lemma deflate_keeps_buffer:
  assumes "ba_ok th" and "ba_len th \<noteq> 0" and "zdeflate True (ba_data th) (bound (unat (ba_len th))) = Some out"
    and "length (fresh (bound (unat (ba_len th)))) = bound (unat (ba_len th))" and "length out \<le> bound (unat (ba_len th))"
    and "bound (unat (ba_len th)) < 2 ^ 32"
  shows "\<exists>th'. m_deflate zdeflate bound fresh th = Inr th'
    \<and> ba_data th' = out @ drop (length out) (fresh (bound (unat (ba_len th))))"
proof -
  have "ba_load 0 (unat (ba_len th)) (ba_lock th) = Inr (ba_data th)"
    using ba_load_spec [of "ba_lock th" 0 "unat (ba_len th)"] assms(1) length_ba_data [OF assms(1)] by simp
  with assms show ?thesis
    by (auto simp: m_deflate_def compress_zlib_def mem_write_def blit_def acquireBuffer_def ba_unlock_def ba_data_def
        unat_of_nat Let_def)
qed

end
