(* ===== verification/ByteArrayText.thy ===== *)
theory ByteArrayText
  imports ByteArrayMethods
begin

text \<open>
  The content of a \<open>ByteArray\<close> as text: \<open>validateUtf8\<close>, \<open>parseUtf8\<close> and \<open>_toString\<close> of
  \<open>ByteArray.cpp\<close>. \<open>_toString\<close> keeps well-formed text as it is and turns every byte that does not
  belong to a well-formed sequence into the character with its value.
\<close>

section \<open>The functions\<close>

text \<open>A byte whose two upper bits are those of a continuation byte.\<close>

definition is_cont :: "u8 list \<Rightarrow> nat \<Rightarrow> bool res" where
  "is_cont bs i = bindE (rd bs i) (\<lambda>b. Inr (b AND 0xC0 = 0x80))"

fun all_cont :: "u8 list \<Rightarrow> nat list \<Rightarrow> bool res" where
  "all_cont bs [] = Inr True"
| "all_cont bs (i # is) = bindE (is_cont bs i) (\<lambda>c. if c then all_cont bs is else Inr False)"

text \<open>The length of the sequence that a byte starts, from its bits 4 to 7; 0 for a continuation.\<close>

definition seq_len :: "u8 \<Rightarrow> nat" where
  "seq_len b =
     (if b AND 0xc0 = 0xc0 then
        (if b AND 0x30 = 0x20 then 3 else if b AND 0x30 = 0x30 then 4 else 2)
      else if b AND 0xc0 = 0x80 then 0 else 1)"

text \<open>\<open>validateUtf8(bytes + p, len)\<close>; the list is the block from \<open>bytes + p\<close> on.\<close>

function validateUtf8 :: "u8 list \<Rightarrow> nat \<Rightarrow> bool res" where
  "validateUtf8 bs len =
     (if len = 0 then Inr True
      else bindE (rd bs 0) (\<lambda>b.
        let n = seq_len b
        in if n = 0 then Inr False
           else if len < n then Inr False
           else bindE (all_cont bs [1..<n]) (\<lambda>ok.
             if \<not> ok then Inr False
             else if n = 1 then validateUtf8 bs (len - 1)
             else validateUtf8 (drop n bs) (len - n))))"
  by pat_completeness auto
termination
  by (relation "measure snd") auto

declare validateUtf8.simps [simp del]

text \<open>The value of a sequence of \<open>n\<close> bytes, without a check of the continuation bytes.\<close>

definition seq_value :: "u8 list \<Rightarrow> nat \<Rightarrow> u32 res" where
  "seq_value bs n =
     bindE (rd bs 0) (\<lambda>b0. bindE (rd bs 1) (\<lambda>b1.
       if n = 2 then Inr ((push_bit 6 (ucast b0) AND 0x7C0) OR (ucast b1 AND 0x3F))
       else bindE (rd bs 2) (\<lambda>b2.
         if n = 3 then
           Inr ((push_bit 12 (ucast b0) AND 0xF000) OR (push_bit 6 (ucast b1) AND 0xFC0)
                 OR (ucast b2 AND 0x3F))
         else bindE (rd bs 3) (\<lambda>b3.
           Inr ((push_bit 18 (ucast b0) AND 0x1C0000) OR (push_bit 12 (ucast b1) AND 0x3F000)
                 OR (push_bit 6 (ucast b2) AND 0xFC0) OR (ucast b3 AND 0x3F))))))"

text \<open>What \<open>parseUtf8\<close> takes from the front: a character and the number of its bytes.\<close>

definition next_char :: "u8 list \<Rightarrow> nat \<Rightarrow> (u32 \<times> nat) res" where
  "next_char bs len = bindE (rd bs 0) (\<lambda>b.
     let n = seq_len b
     in if n \<le> 1 \<or> len < n then Inr (ucast b, 1)
        else bindE (all_cont bs [1..<n]) (\<lambda>ok.
          if \<not> ok then Inr (ucast b, 1)
          else bindE (seq_value bs n) (\<lambda>c. Inr (c, n))))"

lemma next_char_pos: "next_char bs len = Inr (c, n) \<Longrightarrow> 0 < n"
  by (auto simp: next_char_def seq_len_def Let_def split: if_splits elim!: bindE_InrE)

function parseUtf8 :: "u8 list \<Rightarrow> nat \<Rightarrow> tiny_string \<Rightarrow> tiny_string res" where
  "parseUtf8 bs len acc =
     (if len = 0 then Inr acc
      else case next_char bs len of
        Inl e \<Rightarrow> Inl e
      | Inr (c, n) \<Rightarrow> bindE (append_char c acc) (parseUtf8 (drop n bs) (len - n)))"
  by pat_completeness auto
termination
  by (relation "measure (\<lambda>(_, len, _). len)") (auto dest: next_char_pos)

declare parseUtf8.simps [simp del]

text \<open>\<open>_toString\<close>; the length is converted to a signed integer on the way.\<close>

definition m_toString :: "byte_array \<Rightarrow> tiny_string res" where
  "m_toString th =
     bindE (if 3 < ba_len th then bindE (ba_load 0 3 th) (\<lambda>bs.
              Inr (if bs = [0xef, 0xbb, 0xbf] then 3 else 0)) else Inr 0) (\<lambda>start.
       let b = (case ba_bytes th of None \<Rightarrow> [] | Some b \<Rightarrow> drop start b);
           len = ba_len th - of_nat start; n = nat (sint len)
       in bindE (validateUtf8 b n) (\<lambda>valid.
            if valid then bindE (ba_load start (unat len) th) from_std_string
            else parseUtf8 b n ts_new))"

section \<open>One character\<close>

lemma text_masks:
  "(0x7C0 :: u32) = push_bit 6 (mask 5)" "(0xFC0 :: u32) = push_bit 6 (mask 6)"
  "(0xF000 :: u32) = push_bit 12 (mask 4)" "(0x3F000 :: u32) = push_bit 12 (mask 6)"
  "(0x1C0000 :: u32) = push_bit 18 (mask 3)"
  by (simp_all add: mask_eq_exp_minus_1 push_bit_eq_mult)

lemma seq_len_class:
  fixes b :: u8
  shows "seq_len b = (if \<not> bit b 7 then 1 else if \<not> bit b 6 then 0
    else if \<not> bit b 5 then 2 else if \<not> bit b 4 then 3 else 4)"
proof -
  have eqs: "(0x30 :: int) = push_bit 4 (mask 2)" "(0x20 :: int) = push_bit 5 (mask 1)"
    by (simp_all add: push_bit_eq_mult mask_eq_exp_minus_1)
  have bits: "bit (0x30 :: int) n \<longleftrightarrow> n = 4 \<or> n = 5" "bit (0x20 :: int) n \<longleftrightarrow> n = 5" for n
    unfolding eqs bit_push_bit_iff bit_mask_iff by auto
  have "b AND 0xc0 = 0xc0 \<longleftrightarrow> bit b 7 \<and> bit b 6" "b AND 0x30 = 0x20 \<longleftrightarrow> bit b 5 \<and> \<not> bit b 4"
    "b AND 0x30 = 0x30 \<longleftrightarrow> bit b 5 \<and> bit b 4"
    by (auto simp: and_eq_u8 bit_simps bit_lead_consts bits)
  then show ?thesis
    by (auto simp: seq_len_def byte_class)
qed

lemma seq_len_le_4: "seq_len b \<le> 4"
  by (simp add: seq_len_def)

lemma seq_len_utf8_enc: "valid_cp c \<Longrightarrow> seq_len (hd (utf8_enc c)) = length (utf8_enc c)"
  using enc_bytes_class(1-4) [of c]
  by (auto simp: utf8_enc_def byte_class valid_cp_def seq_len_class)

lemma all_cont_utf8_enc:
  "all_cont (utf8_enc c @ post) [1..<length (utf8_enc c)] = Inr True"
  using enc_bytes_class(5)
  by (auto simp: utf8_enc_def is_cont_def rd_def nth_append upt_rec numeral_nat)

lemma seq_value_utf8_enc:
  assumes "valid_cp c" and "1 < length (utf8_enc c)"
  shows "seq_value (utf8_enc c @ post) (length (utf8_enc c)) = Inr c"
proof -
  have "\<not> c < 0x80"
    using assms(2) utf8_enc_ascii [of c] by auto
  then consider "\<not> c < 0x80" "c < 0x800" | "\<not> c < 0x80" "\<not> c < 0x800" "c < 0x10000"
    | "\<not> c < 0x80" "\<not> c < 0x800" "\<not> c < 0x10000" "c < 0x200000"
    using assms by (auto simp: valid_cp_def)
  then show ?thesis
  proof cases
    case 1
    have "(push_bit 6 (ucast (ucast (drop_bit 6 c OR 0xc0) :: u8)) AND 0x7C0)
      OR (ucast (ucast ((c AND 0x3f) OR 0x80) :: u8) AND 0x3F) = c" (is "?v = c")
    proof (rule bit_word_eqI)
      fix k assume "k < LENGTH(32)"
      then show "bit ?v k = bit c k"
        using not_bit_small [of c 11 k] 1(2) unfolding text_masks mask_consts
        by (cases "k < 6"; cases "k < 11") (auto simp: bit_simps bit_lead_consts)
    qed
    with 1 show ?thesis
      by (simp add: seq_value_def utf8_enc_def rd_def)
  next
    case 2
    have "(push_bit 12 (ucast (ucast (drop_bit 12 c OR 0xe0) :: u8)) AND 0xF000)
      OR (push_bit 6 (ucast (ucast ((drop_bit 6 c AND 0x3f) OR 0x80) :: u8)) AND 0xFC0)
      OR (ucast (ucast ((c AND 0x3f) OR 0x80) :: u8) AND 0x3F) = c" (is "?v = c")
    proof (rule bit_word_eqI)
      fix k assume "k < LENGTH(32)"
      then show "bit ?v k = bit c k"
        using not_bit_small [of c 16 k] 2(3) unfolding text_masks mask_consts
        by (cases "k < 6"; cases "k < 12"; cases "k < 16") (auto simp: bit_simps bit_lead_consts)
    qed
    with 2 show ?thesis
      by (simp add: seq_value_def utf8_enc_def rd_def or.assoc)
  next
    case 3
    have "(push_bit 18 (ucast (ucast (drop_bit 18 c OR 0xf0) :: u8)) AND 0x1C0000)
      OR (push_bit 12 (ucast (ucast ((drop_bit 12 c AND 0x3f) OR 0x80) :: u8)) AND 0x3F000)
      OR (push_bit 6 (ucast (ucast ((drop_bit 6 c AND 0x3f) OR 0x80) :: u8)) AND 0xFC0)
      OR (ucast (ucast ((c AND 0x3f) OR 0x80) :: u8) AND 0x3F) = c" (is "?v = c")
    proof (rule bit_word_eqI)
      fix k assume "k < LENGTH(32)"
      then show "bit ?v k = bit c k"
        using not_bit_small [of c 21 k] 3(4) unfolding text_masks mask_consts
        by (cases "k < 6"; cases "k < 12"; cases "k < 18"; cases "k < 21")
          (auto simp: bit_simps bit_lead_consts)
    qed
    with 3 show ?thesis
      by (simp add: seq_value_def utf8_enc_def rd_def or.assoc)
  qed
qed


lemma rd_hd: "rd (utf8_enc c @ post) 0 = Inr (hd (utf8_enc c))"
  by (cases "utf8_enc c") (simp_all add: rd_def)

lemma next_char_utf8_enc:
  assumes "valid_cp c" and "length (utf8_enc c) \<le> len"
  shows "next_char (utf8_enc c @ post) len = Inr (c, length (utf8_enc c))"
proof (cases "c < 0x80")
  case True
  then have "ucast (ucast (c AND 0xff) :: u8) = c"
    using not_bit_small [of c 8] True less_trans [of c "0x80" "0x100"]
    by (intro bit_word_eqI) (auto simp: bit_simps mask_consts; meson not_less)
  with True show ?thesis
    using enc_bytes_class(1) [OF True]
    by (simp add: next_char_def utf8_enc_ascii rd_def seq_len_class)
next
  case False
  then have n: "1 < length (utf8_enc c)"
    by (simp add: utf8_enc_def)
  have "all_cont (utf8_enc c @ post) [Suc 0..<length (utf8_enc c)] = Inr True"
    using all_cont_utf8_enc [of c post] by simp
  then show ?thesis
    using assms n seq_value_utf8_enc [OF assms(1) n, of post]
    by (simp add: next_char_def rd_hd seq_len_utf8_enc)
qed

lemma next_char_stray: "b AND 0xc0 = 0x80 \<Longrightarrow> next_char (b # post) len = Inr (ucast b, 1)"
  by (simp add: next_char_def rd_def seq_len_class byte_class)

lemma all_cont_total: "\<forall>i\<in>set is. i < length bs \<Longrightarrow> \<exists>r. all_cont bs is = Inr r"
  by (induction "is") (auto simp: is_cont_def rd_def)

lemma valid_cp_bits:
  assumes "\<And>k. 21 \<le> k \<Longrightarrow> k < 32 \<Longrightarrow> \<not> bit c k"
  shows "valid_cp c"
proof -
  have "take_bit 21 c = c"
    using assms by (intro bit_word_eqI) (auto simp: bit_take_bit_iff; meson not_less)
  then have "unat c = take_bit 21 (unat c)"
    by (metis unsigned_take_bit_eq)
  then have "unat c < 2 ^ 21"
    by (metis take_bit_nat_less_exp)
  then show ?thesis
    by (simp add: valid_cp_def word_less_nat_alt)
qed

lemma seq_value_total:
  assumes "n \<le> length bs" and "n \<in> {2, 3, 4}"
  shows "\<exists>c. seq_value bs n = Inr c \<and> valid_cp c"
proof -
  show ?thesis
    using assms unfolding text_masks
    by (auto simp: seq_value_def rd_def text_masks mask_consts bit_simps intro!: valid_cp_bits; arith)
qed

lemma next_char_total:
  assumes "0 < len" and "len \<le> length bs"
  shows "\<exists>c n. next_char bs len = Inr (c, n) \<and> n \<le> len \<and> valid_cp c"
proof -
  have byte: "valid_cp (ucast (b :: u8))" for b
    by (rule valid_cp_bits) (auto simp: bit_simps dest: bit_imp_le_length)
  have r: "rd bs 0 = Inr (bs ! 0)"
    using assms by (auto simp: rd_def)
  define n where "n = seq_len (bs ! 0)"
  show ?thesis
  proof (cases "n \<le> 1 \<or> len < n")
    case True
    with r byte assms(1) show ?thesis
      by (simp add: next_char_def Let_def n_def)
  next
    case False
    then have "n \<in> {2, 3, 4}" "n \<le> length bs"
      using seq_len_le_4 [of "bs ! 0"] assms(2) by (auto simp: n_def)
    then obtain ok c where "all_cont bs [1..<n] = Inr ok" "seq_value bs n = Inr c" "valid_cp c"
      using all_cont_total [of "[1..<n]" bs] seq_value_total [of n bs] by auto
    with False r byte assms(1) show ?thesis
      by (cases ok) (auto simp: next_char_def Let_def n_def [symmetric] not_le)
  qed
qed


section \<open>Well-formed text with stray bytes\<close>

text \<open>A text as it may be stored: characters (\<open>Inr\<close>) between bytes that start no sequence (\<open>Inl\<close>).\<close>

definition piece_ok :: "u8 + u32 \<Rightarrow> bool" where
  "piece_ok x = (case x of Inl b \<Rightarrow> b AND 0xc0 = 0x80 | Inr c \<Rightarrow> valid_cp c)"

definition piece_bytes :: "u8 + u32 \<Rightarrow> u8 list" where
  "piece_bytes x = (case x of Inl b \<Rightarrow> [b] | Inr c \<Rightarrow> utf8_enc c)"

definition piece_char :: "u8 + u32 \<Rightarrow> u32" where
  "piece_char x = (case x of Inl b \<Rightarrow> ucast b | Inr c \<Rightarrow> c)"

lemma next_char_piece:
  assumes "piece_ok x" and "length (piece_bytes x) \<le> len"
  shows "next_char (piece_bytes x @ post) len = Inr (piece_char x, length (piece_bytes x))"
  using assms next_char_utf8_enc next_char_stray
  by (cases x) (auto simp: piece_ok_def piece_bytes_def piece_char_def)

lemma valid_cp_byte: "valid_cp (ucast (b :: u8))"
  by (rule valid_cp_bits) (auto simp: bit_simps dest: bit_imp_le_length)

lemma parseUtf8_pieces:
  assumes "\<forall>x\<in>set xs. piece_ok x" and "ts_repr acc as"
  shows "\<exists>t. parseUtf8 (concat (map piece_bytes xs)) (length (concat (map piece_bytes xs))) acc = Inr t
    \<and> ts_repr t (as @ map piece_char xs)"
  using assms
proof (induction xs arbitrary: acc as)
  case Nil
  then show ?case
    by (simp add: parseUtf8.simps)
next
  case (Cons x xs)
  have "valid_cp (piece_char x)" "piece_bytes x \<noteq> []"
    using Cons.prems(1) valid_cp_byte by (auto simp: piece_ok_def piece_char_def piece_bytes_def split: sum.splits)
  moreover obtain acc' where "append_char (piece_char x) acc = Inr acc'" "ts_repr acc' (as @ [piece_char x])"
    using append_char_repr [OF Cons.prems(2) calculation(1)] by blast
  ultimately show ?case
    using Cons.IH [of acc' "as @ [piece_char x]"] Cons.prems(1) next_char_piece [of x]
    by (simp add: parseUtf8.simps [of "piece_bytes x @ ys" for ys])
qed

lemma parseUtf8_total:
  assumes "len \<le> length bs" and "ts_repr acc as"
  shows "\<exists>t cs. parseUtf8 bs len acc = Inr t \<and> ts_repr t cs"
  using assms
proof (induction len arbitrary: bs acc as rule: less_induct)
  case (less len)
  show ?case
  proof (cases "len = 0")
    case True
    then show ?thesis
      using less.prems by (auto simp: parseUtf8.simps)
  next
    case False
    then obtain c n where n: "next_char bs len = Inr (c, n)" "n \<le> len" "valid_cp c"
      using next_char_total [of len bs] less.prems by auto
    then obtain acc' where "append_char c acc = Inr acc'" "ts_repr acc' (as @ [c])"
      using append_char_repr less.prems by blast
    with False n next_char_pos [OF n(1)] less.IH [of "len - n" "drop n bs" acc'] less.prems(1) show ?thesis
      by (simp add: parseUtf8.simps [of bs len])
  qed
qed

lemma validateUtf8_ascii: "seq_len b = 1 \<Longrightarrow> validateUtf8 (b # bs) n = Inr True"
  by (induction n) (simp_all add: validateUtf8.simps rd_def)

lemma validateUtf8_utf8s:
  assumes "valid_cps cs"
  shows "validateUtf8 (utf8s cs @ post) (length (utf8s cs)) = Inr True"
  using assms
proof (induction cs)
  case Nil
  then show ?case
    by (simp add: validateUtf8.simps)
next
  case (Cons c cs)
  define n where "n = length (utf8_enc c)"
  have l: "seq_len (hd (utf8_enc c)) = n" "n \<noteq> 0"
    using Cons.prems by (simp_all add: seq_len_utf8_enc n_def)
  show ?case
  proof (cases "n = 1")
    case True
    then show ?thesis
      using validateUtf8_ascii [of "hd (utf8_enc c)"] l by (cases "utf8_enc c") simp_all
  next
    case False
    then show ?thesis
      using Cons l all_cont_utf8_enc [of c "utf8s cs @ post"] rd_hd [of c "utf8s cs @ post"]
      by (simp add: validateUtf8.simps [of "utf8_enc c @ ys" for ys] n_def [symmetric])
  qed
qed

section \<open>Properties\<close>

text \<open>Well-formed text. An array below 2 GiB that holds the UTF-8 encoding of a text, with or
  without a byte order mark in front of it, is converted by \<open>toString\<close> to exactly this text.\<close>

theorem toString_text:
  assumes "ba_ok th" and "unat (ba_len th) < 2 ^ 31" and "valid_cps cs"
    and "ba_data th = (if bom then BOM @ utf8s cs else utf8s cs)"
    and "bom \<longrightarrow> cs \<noteq> []" and "\<not> bom \<longrightarrow> take 3 (utf8s cs) \<noteq> BOM"
  shows "\<exists>t. m_toString th = Inr t \<and> ts_repr t cs"
proof -
  define start where "start = (if bom then 3 else 0 :: nat)"
  have dl: "length (ba_data th) = unat (ba_len th)"
    by (rule length_ba_data [OF assms(1)])
  have len: "unat (ba_len th) = start + length (utf8s cs)"
    using assms(4) dl by (cases bom) (simp_all add: start_def BOM_def)
  have bom: "(if 3 < ba_len th then bindE (ba_load 0 3 th) (\<lambda>bs.
      Inr (if bs = [0xef, 0xbb, 0xbf] then 3 else 0)) else Inr 0) = (Inr start :: nat res)"
  proof (cases "3 < ba_len th")
    case True
    then have "ba_load 0 3 th = Inr (take 3 (ba_data th))"
      using ba_load_spec [OF assms(1), of 0 3] by (simp add: word_less_nat_alt)
    with True assms(4,6) show ?thesis
      by (simp add: start_def BOM_def split: if_splits)
  next
    case False
    then have "\<not> bom"
      using len assms(5) by (auto simp: start_def word_less_nat_alt)
    with False show ?thesis
      by (simp add: start_def)
  qed
  define n where "n = length (utf8s cs)"
  have un: "unat (ba_len th - of_nat start) = n"
    using len by (simp add: unat_sub word_le_nat_alt start_def n_def)
  then have sn: "nat (sint (ba_len th - of_nat start)) = n"
    using assms(2) len by (simp add: sint_small n_def)
  define b where "b = (case ba_bytes th of None \<Rightarrow> [] | Some b \<Rightarrow> drop start b)"
  have d: "drop start (ba_data th) = utf8s cs"
    using assms(4) by (simp add: start_def BOM_def)
  have "\<exists>post. b = utf8s cs @ post"
  proof (cases "ba_bytes th")
    case None
    with d show ?thesis
      by (simp add: ba_data_def)
  next
    case (Some bs)
    then have "take n b = utf8s cs"
      using d len by (simp add: b_def ba_data_def drop_take n_def)
    then show ?thesis
      by (metis append_take_drop_id)
  qed
  then have "validateUtf8 b n = Inr True"
    using validateUtf8_utf8s [OF assms(3)] by (auto simp: n_def)
  moreover have "ba_load start n th = Inr (utf8s cs)"
    using ba_load_spec [OF assms(1), of start n] d len by (simp add: n_def)
  ultimately show ?thesis
    using from_std_string_repr [OF assms(3)]
    unfolding m_toString_def bom by (simp add: b_def [symmetric] un sn)
qed

lemma toString_text_witness:
  "\<exists>t. m_toString (ba_new (Some [0xef, 0xbb, 0xbf, 0x61, 0xc3, 0xa9]) 6) = Inr t \<and> ts_repr t [0x61, 0xe9]"
  using toString_text [of "ba_new (Some [0xef, 0xbb, 0xbf, 0x61, 0xc3, 0xa9]) 6" "[0x61, 0xe9]" True]
    ba_ok_new [of "[0xef, 0xbb, 0xbf, 0x61, 0xc3, 0xa9]"]
  by (simp add: ba_data_def ba_new_def BOM_def utf8_enc_def valid_cp_def)

text \<open>Damaged text. \<open>parseUtf8\<close> stays inside its input and returns a well-formed string for every
  sequence of bytes; on characters mixed with stray continuation bytes it keeps the characters and
  turns each stray byte into the character with its value.\<close>

theorem parseUtf8_correct:
  "(\<exists>t cs. parseUtf8 bs (length bs) ts_new = Inr t \<and> ts_repr t cs)
    \<and> (list_all piece_ok xs \<longrightarrow>
        (\<exists>t. parseUtf8 (concat (map piece_bytes xs)) (length (concat (map piece_bytes xs))) ts_new = Inr t
           \<and> ts_repr t (map piece_char xs)))"
  using parseUtf8_total [of "length bs" bs ts_new "[]"] parseUtf8_pieces [of xs ts_new "[]"]
  by (simp add: list_all_iff)

lemma parseUtf8_correct_witness:
  "\<exists>t. parseUtf8 [0x61, 0x80, 0xc3, 0xa9] (length [0x61 :: u8, 0x80, 0xc3, 0xa9]) ts_new = Inr t \<and> ts_repr t [0x61, 0x80, 0xe9]"
  using parseUtf8_correct [of "[]" "[Inr 0x61, Inl 0x80, Inr 0xe9]"]
  by (simp add: piece_ok_def piece_bytes_def piece_char_def utf8_enc_def valid_cp_def)

text \<open>
  \<open>validateUtf8\<close> does not advance its pointer over an ASCII byte: from the first one on nothing is
  checked, so a damaged text that contains an ASCII byte before the damage is not repaired.
\<close>

lemma toString_not_repaired:
  "bindE (m_toString (ba_new (Some [0x61, 0xff]) 2)) (\<lambda>s. Inr (ts_bytes s)) = Inr [0x61, 0xff]
    \<and> bindE (parseUtf8 [0x61, 0xff] 2 ts_new) (\<lambda>s. Inr (ts_bytes s)) = Inr [0x61, 0xc3, 0xbf]"
  by code_simp

end
