(* ===== verification/AbcStream.thy ===== *)
theory AbcStream
  imports LS_Prelude
begin

text \<open>
  The integer formats of AVM2 bytecode and the two readers the code has for them: the operators
  \<open>>>\<close> on an \<open>istream\<close> (\<open>scripting/abctypes.cpp\<close>, \<open>swftypes.h\<close>) and the class \<open>memorystream\<close>
  (\<open>parsing/streams.h\<close>) of the interpreter.

  An \<open>istream\<close> is the list of the bytes still to be read. The streams that carry an SWF file are set
  to throw on a short read (\<open>ParseThread::parse\<close> in \<open>swf.cpp\<close>), which is the fault \<open>StreamEnd\<close>. The streams that
  \<open>Domain.load\<close> and \<open>Domain.loadBytes\<close> open (\<open>scripting/avmplus/avmplus.cpp\<close>) are not set to throw; they are not modelled.
  A \<open>memorystream\<close> delivers zeros behind its end.
\<close>

section \<open>Sources of bytes\<close>

type_synonym istream = "u8 list"

type_synonym 'a parser = "istream \<Rightarrow> ('a \<times> istream) res"

fun in_byte :: "u8 parser" where
  "in_byte [] = Inl StreamEnd"
| "in_byte (b # bs) = Inr (b, bs)"

definition in_read :: "nat \<Rightarrow> u8 list parser" where
  "in_read n s = (if length s < n then Inl StreamEnd else Inr (take n s, drop n s))"

text \<open>\<open>ms_code\<close> is the buffer up to \<open>lastcodepos\<close>, \<open>ms_pos\<close> the offset of \<open>codepos\<close> in it and
  \<open>ms_error\<close> tells whether \<open>handleError\<close> has raised a pending \<open>VerifyError\<close>.\<close>

record memorystream =
  ms_code :: "u8 list"
  ms_pos :: nat
  ms_error :: bool

definition ms_new :: "u8 list \<Rightarrow> memorystream" where
  "ms_new b = \<lparr>ms_code = b, ms_pos = 0, ms_error = False\<rparr>"

definition ms_size :: "memorystream \<Rightarrow> nat" where
  "ms_size m = length (ms_code m)"

definition ms_tellg :: "memorystream \<Rightarrow> nat" where
  "ms_tellg m = ms_pos m"

definition ms_atend :: "memorystream \<Rightarrow> bool" where
  "ms_atend m \<longleftrightarrow> ms_pos m = length (ms_code m)"

definition ms_seekg :: "nat \<Rightarrow> memorystream \<Rightarrow> memorystream" where
  "ms_seekg offset m = m\<lparr>ms_pos := (if length (ms_code m) \<le> offset then length (ms_code m) else offset)\<rparr>"

text \<open>\<open>read\<close> into a zeroed buffer of \<open>n\<close> bytes; behind the end the length of the copy is negative.\<close>

definition ms_read :: "nat \<Rightarrow> memorystream \<Rightarrow> (u8 list \<times> memorystream) res" where
  "ms_read n m =
     (if length (ms_code m) \<le> ms_pos m + n then
        (if length (ms_code m) < ms_pos m then Inl OutOfBounds
         else let xs = drop (ms_pos m) (ms_code m)
              in Inr (xs @ replicate (n - length xs) 0, m\<lparr>ms_pos := length (ms_code m)\<rparr>))
      else Inr (take n (drop (ms_pos m) (ms_code m)), m\<lparr>ms_pos := ms_pos m + n\<rparr>))"

definition ms_readbyte :: "memorystream \<Rightarrow> (u8 \<times> memorystream) res" where
  "ms_readbyte m =
     Inr (if ms_pos m < length (ms_code m) then (ms_code m ! ms_pos m, m\<lparr>ms_pos := ms_pos m + 1\<rparr>) else (0, m))"

definition ms_peekbyte :: "memorystream \<Rightarrow> u8" where
  "ms_peekbyte m = (if ms_pos m < length (ms_code m) then ms_code m ! ms_pos m else 0)"

definition ms_peekbyteFromPosition :: "nat \<Rightarrow> memorystream \<Rightarrow> u8" where
  "ms_peekbyteFromPosition pos m = (if pos < length (ms_code m) then ms_code m ! pos else 0)"

section \<open>Integers of variable length\<close>

text \<open>
  The do-while loop that all readers share. \<open>n\<close> counts the rounds left, \<open>i = 7 * (5 - n)\<close>; the
  fifth byte gives four bits and ends the loop.
\<close>

fun u32_loop :: "('s \<Rightarrow> (u8 \<times> 's) res) \<Rightarrow> nat \<Rightarrow> u32 \<Rightarrow> 's \<Rightarrow> (u32 \<times> 's) res" where
  "u32_loop rb 0 val s = Inr (val, s)"
| "u32_loop rb (Suc n) val s = bindE (rb s) (\<lambda>(t, s).
     if n = 0 then Inr (val OR push_bit 28 (ucast (t AND 0xf)), s)
     else let val = val OR push_bit (7 * (4 - n)) (ucast (t AND 0x7f))
          in if t AND 0x80 \<noteq> 0 then u32_loop rb n val s else Inr (val, s))"

definition in_u32 :: "u32 parser" where
  "in_u32 = u32_loop in_byte 5 0"

text \<open>\<open>s32\<close> repeats the loop on a signed variable; the word stands for its bits.\<close>

definition in_s32 :: "u32 parser" where
  "in_s32 = u32_loop in_byte 5 0"

definition in_u30 :: "u32 parser" where
  "in_u30 s = bindE (in_u32 s) (\<lambda>(val, s).
     if val AND 0xc0000000 \<noteq> 0 then Inl AssertionFailed else Inr (val, s))"

definition LittleEndianToSignedHost24 :: "u32 \<Rightarrow> u32 res" where
  "LittleEndianToSignedHost24 x =
     (if \<not> x < 0x1000000 then Inl AssertionFailed
      else Inr (if x AND 0x800000 \<noteq> 0 then x OR 0xff000000 else x))"

definition in_s24 :: "u32 parser" where
  "in_s24 s = bindE (in_read 3 s) (\<lambda>(bs, s).
     bindE (LittleEndianToSignedHost24 (le32 (bs @ [0]))) (\<lambda>v. Inr (v, s)))"

definition in_u16 :: "u16 parser" where
  "in_u16 s = bindE (in_read 2 s) (\<lambda>(bs, s). Inr (le16 bs, s))"

definition in_d64 :: "u64 parser" where
  "in_d64 s = bindE (in_read 8 s) (\<lambda>(bs, s). Inr (le64 bs, s))"

definition ms_readu32 :: "memorystream \<Rightarrow> (u32 \<times> memorystream) res" where
  "ms_readu32 = u32_loop ms_readbyte 5 0"

definition ms_check_u30 :: "u32 \<Rightarrow> memorystream \<Rightarrow> memorystream" where
  "ms_check_u30 val m = (if val AND 0xc0000000 \<noteq> 0 then m\<lparr>ms_error := True\<rparr> else m)"

definition ms_readu30 :: "memorystream \<Rightarrow> (u32 \<times> memorystream) res" where
  "ms_readu30 m = bindE (ms_readu32 m) (\<lambda>(val, m). Inr (val, ms_check_u30 val m))"

definition ms_skipu30FromPosition :: "nat \<Rightarrow> memorystream \<Rightarrow> (nat \<times> memorystream) res" where
  "ms_skipu30FromPosition pos m = bindE (ms_readu32 (m\<lparr>ms_pos := pos\<rparr>)) (\<lambda>(_, m').
     Inr (ms_pos m', m'\<lparr>ms_pos := ms_pos m\<rparr>))"

definition ms_peeku30FromPosition :: "nat \<Rightarrow> memorystream \<Rightarrow> (u32 \<times> memorystream) res" where
  "ms_peeku30FromPosition pos m = bindE (ms_readu32 (m\<lparr>ms_pos := pos\<rparr>)) (\<lambda>(val, m').
     Inr (val, (ms_check_u30 val m')\<lparr>ms_pos := ms_pos m\<rparr>))"

definition ms_reads24 :: "memorystream \<Rightarrow> (u32 \<times> memorystream) res" where
  "ms_reads24 m = bindE (ms_read 3 m) (\<lambda>(bs, m).
     bindE (LittleEndianToSignedHost24 (le32 (bs @ [0]))) (\<lambda>v. Inr (v, m)))"

definition ms_peeks24FromPosition :: "nat \<Rightarrow> memorystream \<Rightarrow> (u32 \<times> memorystream) res" where
  "ms_peeks24FromPosition pos m = bindE (ms_reads24 (m\<lparr>ms_pos := pos\<rparr>)) (\<lambda>(val, m').
     Inr (val, m'\<lparr>ms_pos := ms_pos m\<rparr>))"

section \<open>The encoding and its readers\<close>

text \<open>The shortest encoding of a number in at most \<open>n\<close> bytes, seven bits each, the low ones first.\<close>

fun enc_loop :: "nat \<Rightarrow> u32 \<Rightarrow> u8 list" where
  "enc_loop 0 v = []"
| "enc_loop (Suc n) v =
     (if n = 0 then [ucast (v AND 0xf)]
      else if v < 0x80 then [ucast v]
      else (ucast (v AND 0x7f) OR 0x80) # enc_loop n (drop_bit 7 v))"

definition enc_u32 :: "u32 \<Rightarrow> u8 list" where
  "enc_u32 = enc_loop 5"

lemma group_bits:
  fixes v :: u32
  shows "ucast (ucast (v AND 0xf) AND 0xf :: u8) = v AND 0xf"
    and "v < 0x80 \<Longrightarrow> ucast (ucast v AND 0x7f :: u8) = v"
    and "v < 0x80 \<Longrightarrow> (ucast v :: u8) AND 0x80 = 0"
    and "ucast ((ucast (v AND 0x7f) OR 0x80) AND 0x7f :: u8) = v AND 0x7f"
    and "(ucast (v AND 0x7f) OR 0x80 :: u8) AND 0x80 \<noteq> 0"
    and "(v AND 0x7f) OR push_bit 7 (drop_bit 7 v) = v"
proof -
  have m: "(0xf :: u32) = mask 4" "(0x7f :: u32) = mask 7" "(0xf :: u8) = mask 4" "(0x7f :: u8) = mask 7"
    by (simp_all add: mask_eq_exp_minus_1)
  show "ucast (ucast (v AND 0xf) AND 0xf :: u8) = v AND 0xf"
    unfolding m by (rule bit_word_eqI) (auto simp: bit_simps)
  show "ucast ((ucast (v AND 0x7f) OR 0x80) AND 0x7f :: u8) = v AND 0x7f"
    unfolding m by (rule bit_word_eqI) (auto simp: bit_simps bit_lead_consts)
  show "(ucast (v AND 0x7f) OR 0x80 :: u8) AND 0x80 \<noteq> 0"
    by (simp add: byte_class bit_simps bit_lead_consts)
  show "(v AND 0x7f) OR push_bit 7 (drop_bit 7 v) = v"
    unfolding m by (rule bit_word_eqI) (auto simp: bit_simps; metis le_add_diff_inverse not_less)
  assume v: "v < 0x80"
  then have small: "\<not> bit v k" if "7 \<le> k" for k
    using not_bit_small [of v 7 k] that by simp
  then show "(ucast v :: u8) AND 0x80 = 0"
    by (simp add: byte_class bit_simps)
  show "ucast (ucast v AND 0x7f :: u8) = v"
  proof (rule bit_word_eqI)
    fix k
    show "bit (ucast (ucast v AND 0x7f :: u8) :: u32) k = bit v k"
      using small [of k] unfolding m by (cases "k < 7") (auto simp: bit_simps)
  qed
qed

lemma group_step: "push_bit i (v AND 0x7f) OR push_bit (i + 7) (drop_bit 7 v) = push_bit i (v :: u32)"
proof -
  have "push_bit i ((v AND 0x7f) OR push_bit 7 (drop_bit 7 v))
      = push_bit i (v AND 0x7f) OR push_bit (i + 7) (drop_bit 7 v)"
    by (simp only: push_bit_or push_bit_push_bit add.commute)
  then show ?thesis
    by (simp only: group_bits(6))
qed

text \<open>Any source that hands out the bytes of a list one by one.\<close>

locale byte_source =
  fixes rb :: "'s \<Rightarrow> (u8 \<times> 's) res" and rest :: "'s \<Rightarrow> u8 list"
  assumes next_byte: "rest s = b # bs \<Longrightarrow> \<exists>s'. rb s = Inr (b, s') \<and> rest s' = bs"
begin

lemma u32_loop_enc:
  assumes "rest s = enc_loop n v @ bs" and "0 < n" and "n \<le> 5" and "unat v < 2 ^ (32 - 7 * (5 - n))"
  shows "\<exists>s'. u32_loop rb n val s = Inr (val OR push_bit (7 * (5 - n)) v, s') \<and> rest s' = bs"
  using assms
proof (induction n arbitrary: v val s)
  case (Suc n)
  consider "n = 0" | "n \<noteq> 0" "v < 0x80" | "n \<noteq> 0" "\<not> v < 0x80"
    by blast
  then show ?case
  proof cases
    case 1
    with Suc.prems(4) have "v < 2 ^ 4"
      by (simp add: word_less_nat_alt)
    then have "v AND 0xf = v"
      using less_mask_eq [of v 4] by (simp add: mask_eq_exp_minus_1)
    moreover obtain s' where "rb s = Inr (ucast (v AND 0xf), s')" "rest s' = bs"
      using next_byte [of s "ucast (v AND 0xf)" bs] Suc.prems(1) 1 by auto
    ultimately show ?thesis
      using 1 group_bits(1) [of v] by simp
  next
    case 2
    then obtain s' where "rb s = Inr (ucast v, s')" "rest s' = bs"
      using next_byte [of s "ucast v" bs] Suc.prems(1) by auto
    with 2 group_bits(2,3) [of v] Suc.prems(3) show ?thesis
      by (simp add: Suc_diff_le)
  next
    case 3
    let ?t = "ucast (v AND 0x7f) OR 0x80 :: u8" and ?i = "7 * (4 - n)"
    obtain s1 where s1: "rb s = Inr (?t, s1)" "rest s1 = enc_loop n (drop_bit 7 v) @ bs"
      using next_byte [of s ?t "enc_loop n (drop_bit 7 v) @ bs"] Suc.prems(1) 3 by auto
    have e: "2 ^ (32 - 7 * (4 - n)) = 128 * (2 ^ (32 - 7 * (5 - n)) :: nat)"
    proof -
      have "32 - 7 * (4 - n) = 7 + (32 - 7 * (5 - n))"
        using 3 Suc.prems(3) by auto
      then show ?thesis
        by (simp only: power_add) simp
    qed
    have "unat (drop_bit 7 v) < 2 ^ (32 - 7 * (5 - n))"
      using Suc.prems(4) by (simp add: e drop_bit_eq_div unat_div_distrib less_mult_imp_div_less mult.commute)
    moreover have "0 < n" "n \<le> 5"
      using 3 Suc.prems(3) by simp_all
    ultimately obtain s' where s': "u32_loop rb n (val OR push_bit ?i (v AND 0x7f)) s1
        = Inr ((val OR push_bit ?i (v AND 0x7f)) OR push_bit (7 * (5 - n)) (drop_bit 7 v), s')" "rest s' = bs"
      using Suc.IH [OF s1(2)] by blast
    have "7 * (5 - n) = ?i + 7"
      using 3 Suc.prems(3) by simp
    then have p: "push_bit ?i (v AND 0x7f) OR push_bit (7 * (5 - n)) (drop_bit 7 v) = push_bit ?i v"
      by (simp only: group_step)
    have "(val OR push_bit ?i (v AND 0x7f)) OR push_bit (7 * (5 - n)) (drop_bit 7 v)
        = val OR push_bit (7 * (5 - Suc n)) v"
    proof -
      have i: "7 * (5 - Suc n) = ?i"
        by arith
      show ?thesis
        unfolding i or.assoc p ..
    qed
    moreover have "u32_loop rb (Suc n) val s = u32_loop rb n (val OR push_bit ?i (v AND 0x7f)) s1"
      unfolding u32_loop.simps s1(1) bindE_simps prod.case Let_def group_bits(4) using 3 group_bits(5) [of v] by simp
    ultimately show ?thesis
      using s' by auto
  qed
qed simp

lemma u32_enc:
  assumes "rest s = enc_u32 v @ bs"
  shows "\<exists>s'. u32_loop rb 5 0 s = Inr (v, s') \<and> rest s' = bs"
  using u32_loop_enc [of s 5 v bs 0] assms unsigned_less [of v] by (simp add: enc_u32_def)

end

interpretation istream_source: byte_source in_byte id
  by unfold_locales simp

interpretation memory_source: byte_source ms_readbyte "\<lambda>m. drop (ms_pos m) (ms_code m)"
proof
  fix m :: memorystream and b bs
  assume a: "drop (ms_pos m) (ms_code m) = b # bs"
  then have "ms_pos m < length (ms_code m)"
    by (metis drop_eq_Nil list.distinct(1) not_le)
  with a show "\<exists>m'. ms_readbyte m = Inr (b, m') \<and> drop (ms_pos m') (ms_code m') = bs"
    by (auto simp: ms_readbyte_def Cons_nth_drop_Suc [symmetric])
qed


section \<open>The interpreter's stream\<close>

definition ms_moved :: "nat \<Rightarrow> memorystream \<Rightarrow> memorystream \<Rightarrow> bool" where
  "ms_moved n m m' \<longleftrightarrow> ms_code m' = ms_code m \<and> ms_error m' = ms_error m \<and> ms_pos m \<le> ms_pos m'
     \<and> ms_pos m' \<le> ms_pos m + n \<and> (ms_pos m \<le> length (ms_code m) \<longrightarrow> ms_pos m' \<le> length (ms_code m))"

lemma ms_readbyte_moved: "ms_readbyte m = Inr (t, m') \<Longrightarrow> ms_moved 1 m m'"
  by (auto simp: ms_readbyte_def ms_moved_def split: if_splits)

lemma ms_moved_trans: "ms_moved a m m' \<Longrightarrow> ms_moved b m' m'' \<Longrightarrow> ms_moved (a + b) m m''"
  by (auto simp: ms_moved_def)

lemma ms_loop_frame:
  assumes "u32_loop ms_readbyte n val m = Inr (v, m')"
  shows "ms_moved n m m'"
  using assms
proof (induction n arbitrary: val m)
  case 0
  then show ?case
    by (simp add: ms_moved_def)
next
  case (Suc n)
  then obtain t m1 where m1: "ms_readbyte m = Inr (t, m1)"
    by (auto elim!: bindE_InrE)
  then have moved: "ms_moved 1 m m1"
    by (rule ms_readbyte_moved)
  show ?case
  proof (cases "m' = m1")
    case True
    with moved show ?thesis
      by (auto simp: ms_moved_def)
  next
    case False
    with Suc.prems m1 have "\<exists>val. u32_loop ms_readbyte n val m1 = Inr (v, m')"
      by (auto simp: Let_def split: if_splits)
    with Suc.IH ms_moved_trans [OF moved] show ?thesis
      by auto
  qed
qed

lemma ms_loop_total: "\<exists>v m'. u32_loop ms_readbyte n val m = Inr (v, m')"
  by (induction n arbitrary: val m) (auto simp: ms_readbyte_def Let_def)

lemma ms_readu32_enc:
  assumes "ms_code m = pre @ enc_u32 v @ bs" and "ms_pos m = length pre"
  shows "ms_readu32 m = Inr (v, m\<lparr>ms_pos := length pre + length (enc_u32 v)\<rparr>)"
proof -
  obtain m' where m': "u32_loop ms_readbyte 5 0 m = Inr (v, m')" "drop (ms_pos m') (ms_code m') = bs"
    using memory_source.u32_enc [of m v bs] assms by auto
  with ms_loop_frame [OF m'(1)] assms have "ms_pos m' = length pre + length (enc_u32 v)" "ms_code m' = ms_code m"
    "ms_error m' = ms_error m"
    by (auto simp: ms_moved_def dest!: arg_cong [where f = length])
  with m'(1) show ?thesis
    by (cases m; cases m') (simp add: ms_readu32_def)
qed

lemma in_u32_enc: "in_u32 (enc_u32 v @ bs) = Inr (v, bs)" "in_s32 (enc_u32 v @ bs) = Inr (v, bs)"
  using istream_source.u32_enc [of "enc_u32 v @ bs" v bs] by (simp_all add: in_u32_def in_s32_def)

lemma u30_mask: "v < 0x40000000 \<Longrightarrow> v AND 0xc0000000 = (0 :: u32)"
proof -
  assume v: "v < 0x40000000"
  have c: "(0xc0000000 :: u32) = push_bit 30 (mask 2)"
    by (simp add: mask_eq_exp_minus_1 push_bit_eq_mult)
  show ?thesis
    using not_bit_small [of v 30] v unfolding c by (intro bit_word_eqI) (auto simp: bit_simps)
qed

lemma in_u30_enc: "v < 0x40000000 \<Longrightarrow> in_u30 (enc_u32 v @ bs) = Inr (v, bs)"
  by (simp add: in_u30_def in_u32_enc u30_mask)

section \<open>Properties\<close>

text \<open>Variable length integers. A 32-bit number in its shortest encoding of at most five bytes is
  read back by the file reader, whatever follows it, and by the interpreter's stream wherever it
  stands in the code; a number below 2\<open>^\<close>30 also as \<open>u30\<close>. Skipping and peeking at a position agree
  with reading there and leave the stream where it was.\<close>

theorem u32_roundtrip:
  assumes "ms_code m = pre @ enc_u32 v @ bs"
  shows "length (enc_u32 v) \<le> 5 \<and> in_u32 (enc_u32 v @ bs) = Inr (v, bs) \<and> in_s32 (enc_u32 v @ bs) = Inr (v, bs)
    \<and> (v < 0x40000000 \<longrightarrow> in_u30 (enc_u32 v @ bs) = Inr (v, bs)
         \<and> ms_peeku30FromPosition (length pre) m = Inr (v, m))
    \<and> (ms_pos m = length pre \<longrightarrow> ms_readu32 m = Inr (v, m\<lparr>ms_pos := length pre + length (enc_u32 v)\<rparr>))
    \<and> ms_skipu30FromPosition (length pre) m = Inr (length pre + length (enc_u32 v), m)"
proof -
  let ?m = "m\<lparr>ms_pos := length pre\<rparr>"
  have at: "ms_readu32 ?m = Inr (v, ?m\<lparr>ms_pos := length pre + length (enc_u32 v)\<rparr>)"
    by (rule ms_readu32_enc) (simp_all add: assms)
  have reset: "?m\<lparr>ms_pos := k\<rparr>\<lparr>ms_pos := ms_pos m\<rparr> = m" for k
    by simp
  have "length (enc_loop n v) \<le> n" for n
    by (induction n arbitrary: v) simp_all
  then have "length (enc_u32 v) \<le> 5"
    by (simp add: enc_u32_def)
  moreover have "ms_skipu30FromPosition (length pre) m = Inr (length pre + length (enc_u32 v), m)"
    using at by (simp add: ms_skipu30FromPosition_def)
  moreover have "ms_peeku30FromPosition (length pre) m = Inr (v, m)" "in_u30 (enc_u32 v @ bs) = Inr (v, bs)"
    if "v < 0x40000000"
    using at in_u30_enc u30_mask that by (simp_all add: ms_peeku30FromPosition_def ms_check_u30_def)
  ultimately show ?thesis
    using in_u32_enc ms_readu32_enc [OF assms] by blast
qed

lemma u32_roundtrip_witness:
  "ms_readu32 ((ms_new [0, 0xac, 0x02])\<lparr>ms_pos := 1\<rparr>) = Inr (0x12c, (ms_new [0, 0xac, 0x02])\<lparr>ms_pos := 3\<rparr>)"
proof -
  have "enc_u32 0x12c = [0xac, 0x02]"
    by code_simp
  then show ?thesis
    using u32_roundtrip [of "(ms_new [0, 0xac, 0x02])\<lparr>ms_pos := 1\<rparr>" "[0]" "0x12c" "[]"]
    by (simp add: ms_new_def numeral_eq_Suc)
qed

lemma le32_three: "le32 (take 3 (bytes_le32 v) @ [0]) = v AND 0xffffff"
proof (rule bit_word_eqI)
  fix k assume "k < LENGTH(32)"
  have m: "(0xffffff :: u32) = mask 24"
    by (simp add: mask_eq_exp_minus_1)
  show "bit (le32 (take 3 (bytes_le32 v) @ [0])) k = bit (v AND 0xffffff) k"
    unfolding m by (cases "k < 8"; cases "k < 16") (auto simp: le32_def bytes_le32_def bit_simps)
qed

lemma sign_extend_24:
  assumes "signed_take_bit 23 v = v"
  shows "LittleEndianToSignedHost24 (v AND 0xffffff) = Inr (v :: u32)"
proof -
  have c: "(0xffffff :: u32) = mask 24" "(0x800000 :: u32) = push_bit 23 (mask 1)" "(0xff000000 :: u32) = push_bit 24 (mask 8)"
    "(0x1000000 :: u32) = 2 ^ 24"
    by (simp_all add: mask_eq_exp_minus_1 push_bit_eq_mult)
  have up: "bit v k = bit v 23" if "24 \<le> k" "k < 32" for k
    using arg_cong [OF assms, of "\<lambda>w. bit w k"] that by (simp add: bit_signed_take_bit_iff)
  have "v AND 0xffffff < 0x1000000"
    by (rule le_less_trans [OF word_and_le1]) simp
  moreover have "(v AND 0xffffff) AND 0x800000 \<noteq> 0 \<longleftrightarrow> bit v 23"
  proof -
    have e: "(0x800000 :: u32) = 2 ^ 23"
      by simp
    show ?thesis
      unfolding e c(1) by (simp only: and_exp_eq_0_iff_not_bit) (simp add: bit_and_iff bit_mask_iff)
  qed
  moreover have "(v AND 0xffffff) OR 0xff000000 = v" if "bit v 23"
    using up that unfolding c by (intro bit_word_eqI) (auto simp: bit_simps)
  moreover have "v AND 0xffffff = v" if "\<not> bit v 23"
    using up that unfolding c by (intro bit_word_eqI) (auto simp: bit_simps; meson not_less)
  ultimately show ?thesis
    by (auto simp: LittleEndianToSignedHost24_def)
qed

text \<open>Branch offsets. A number that fits 24 bits with its sign is read back from its three bytes by
  both readers.\<close>

theorem s24_roundtrip:
  assumes "signed_take_bit 23 v = (v :: u32)" and "ms_code m = pre @ take 3 (bytes_le32 v) @ bs"
  shows "in_s24 (take 3 (bytes_le32 v) @ bs) = Inr (v, bs)
    \<and> (ms_pos m = length pre \<longrightarrow> ms_reads24 m = Inr (v, m\<lparr>ms_pos := length pre + 3\<rparr>))
    \<and> ms_peeks24FromPosition (length pre) m = Inr (v, m)"
proof -
  have len: "length (take 3 (bytes_le32 v)) = 3"
    by simp
  have read: "ms_reads24 m' = Inr (v, m'\<lparr>ms_pos := length pre + 3\<rparr>)"
    if "ms_code m' = ms_code m" "ms_pos m' = length pre" for m'
  proof -
    have "ms_read 3 m' = Inr (take 3 (bytes_le32 v), m'\<lparr>ms_pos := length pre + 3\<rparr>)"
      using that assms(2) len by (cases bs) (simp_all add: ms_read_def)
    then show ?thesis
      using sign_extend_24 [OF assms(1)] by (simp add: ms_reads24_def le32_three)
  qed
  have "in_s24 (take 3 (bytes_le32 v) @ bs) = Inr (v, bs)"
    using sign_extend_24 [OF assms(1)] len by (simp add: in_s24_def in_read_def le32_three)
  moreover have "ms_peeks24FromPosition (length pre) m = Inr (v, m)"
    using read [of "m\<lparr>ms_pos := length pre\<rparr>"] by (simp add: ms_peeks24FromPosition_def)
  ultimately show ?thesis
    using read [of m] by blast
qed

lemma s24_roundtrip_witness:
  "in_s24 [0xfe, 0xff, 0xff, 7] = Inr (- 2, [7])"
proof -
  have "signed_take_bit 23 (- 2) = (- 2 :: u32)" "take 3 (bytes_le32 (- 2)) = [0xfe, 0xff, 0xff]"
    by code_simp+
  then show ?thesis
    using s24_roundtrip [of "- 2" "ms_new [0xfe, 0xff, 0xff, 7]" "[]" "[7]"] by (simp add: ms_new_def)
qed

text \<open>Peeking behind the end copies a negative number of bytes.\<close>

lemma peeks24_behind_end: "ms_peeks24FromPosition 2 (ms_new [0]) = Inl OutOfBounds"
  by code_simp

end
