(* ===== verification/AbcTypes.thy ===== *)
theory AbcTypes
  imports AbcStream
begin

text \<open>
  The structures of an ABC file (the bytecode of ActionScript 3) and the operators \<open>>>\<close> that read
  them, \<open>scripting/abctypes.h\<close> and \<open>scripting/abctypes.cpp\<close>.

  Each operator fills a value-initialised structure, in which every number is zero; fields that a
  branch does not read keep this value, so the readers start from the constants \<open>..._new\<close>. The
  interning of strings (\<open>SystemState::getUniqueStringId\<close>) is a parameter, as it lives outside of
  the parser: \<open>intern bs\<close> is the id of the string with the bytes \<open>bs\<close>.
\<close>

section \<open>Structures\<close>

record namespace_info =
  ni_kind :: u8
  ni_name :: u32

record ns_set_info =
  ss_count :: u32
  ss_ns :: "u32 list"

record multiname_info =
  mn_kind :: u8
  mn_name :: u32
  mn_ns :: u32
  mn_ns_set :: u32
  mn_type_definition :: u32
  mn_param_types :: "u32 list"
  mn_runtimeargs :: nat

text \<open>
  The constructor leaves the kind of a name unset, which matters only for element 0 of the pool,
  whose kind nothing reads; it is 0 here.
\<close>

definition multiname_new :: multiname_info where
  "multiname_new = \<lparr>mn_kind = 0, mn_name = 0, mn_ns = 0, mn_ns_set = 0, mn_type_definition = 0,
     mn_param_types = [], mn_runtimeargs = 0\<rparr>"

record cpool_info =
  cp_int_count :: u32
  cp_integer :: "u32 list"
  cp_uint_count :: u32
  cp_uinteger :: "u32 list"
  cp_double_count :: u32
  cp_doubles :: "u64 list"
  cp_string_count :: u32
  cp_strings :: "u32 list"
  cp_namespace_count :: u32
  cp_namespaces :: "namespace_info list"
  cp_ns_set_count :: u32
  cp_ns_sets :: "ns_set_info list"
  cp_multiname_count :: u32
  cp_multinames :: "multiname_info list"

record option_detail =
  od_val :: u32
  od_kind :: u8

record item_info =
  it_key :: u32
  it_value :: u32

record metadata_info =
  md_name :: u32
  md_item_count :: u32
  md_items :: "item_info list"

record traits_info =
  tr_name :: u32
  tr_kind :: u8
  tr_slot_id :: u32
  tr_type_name :: u32
  tr_vindex :: u32
  tr_vkind :: u8
  tr_classi :: u32
  tr_function :: u32
  tr_disp_id :: u32
  tr_method :: u32
  tr_metadata_count :: u32
  tr_metadata :: "u32 list"

definition traits_new :: traits_info where
  "traits_new = \<lparr>tr_name = 0, tr_kind = 0, tr_slot_id = 0, tr_type_name = 0, tr_vindex = 0, tr_vkind = 0,
     tr_classi = 0, tr_function = 0, tr_disp_id = 0, tr_method = 0, tr_metadata_count = 0, tr_metadata = []\<rparr>"

record instance_info =
  ii_name :: u32
  ii_supername :: u32
  ii_flags :: u8
  ii_protectedNs :: u32
  ii_interface_count :: u32
  ii_interfaces :: "u32 list"
  ii_init :: u32
  ii_trait_count :: u32
  ii_traits :: "traits_info list"

record class_info =
  cl_cinit :: u32
  cl_trait_count :: u32
  cl_traits :: "traits_info list"

record script_info =
  sc_init :: u32
  sc_trait_count :: u32
  sc_traits :: "traits_info list"

record exception_info =
  ex_from :: u32
  ex_to :: u32
  ex_target :: u32
  ex_exc_type :: u32
  ex_var_name :: u32

record method_info_simple =
  mi_param_count :: u32
  mi_return_type :: u32
  mi_param_type :: "u32 list"
  mi_name :: u32
  mi_flags :: u8
  mi_option_count :: u32
  mi_options :: "option_detail list"
  mi_param_names :: "u32 list"

record method_body_info =
  mb_method :: u32
  mb_max_stack :: u32
  mb_local_count :: u32
  mb_init_scope_depth :: u32
  mb_max_scope_depth :: u32
  mb_returnvaluepos :: u16
  mb_code :: "u8 list"
  mb_exceptions :: "exception_info list"
  mb_trait_count :: u32
  mb_traits :: "traits_info list"

section \<open>Readers\<close>

text \<open>A vector of \<open>n\<close> elements, each read by \<open>p\<close>.\<close>

fun in_vector :: "'a parser \<Rightarrow> nat \<Rightarrow> 'a list parser" where
  "in_vector p 0 s = Inr ([], s)"
| "in_vector p (Suc n) s = bindE (p s) (\<lambda>(x, s). bindE (in_vector p n s) (\<lambda>(xs, s). Inr (x # xs, s)))"

text \<open>A vector of the constant pool: element 0 is not in the file and keeps its initial value \<open>d\<close>.\<close>

definition in_pool :: "'a \<Rightarrow> 'a parser \<Rightarrow> u32 \<Rightarrow> 'a list parser" where
  "in_pool d p count s =
     (if count = 0 then Inr ([], s)
      else bindE (in_vector p (unat count - 1) s) (\<lambda>(xs, s). Inr (d # xs, s)))"

definition in_string_info :: "(u8 list \<Rightarrow> u32) \<Rightarrow> u32 parser" where
  "in_string_info intern s = bindE (in_u30 s) (\<lambda>(bsize, s).
     bindE (in_read (unat bsize) s) (\<lambda>(bs, s). Inr (intern bs, s)))"

definition PACKAGE_NAMESPACE :: u8 where "PACKAGE_NAMESPACE = 0x16"

definition NAMESPACE :: u8 where "NAMESPACE = 0x08"

definition namespace_kinds :: "u8 list" where
  "namespace_kinds = [0x05, 0x08, 0x16, 0x17, 0x18, 0x19, 0x1a]"

definition in_namespace_info :: "namespace_info parser" where
  "in_namespace_info s = bindE (in_byte s) (\<lambda>(kind, s). bindE (in_u30 s) (\<lambda>(name, s).
     if kind \<notin> set namespace_kinds then Inl Unsupported
     else Inr (\<lparr>ni_kind = (if kind = PACKAGE_NAMESPACE then NAMESPACE else kind), ni_name = name\<rparr>, s)))"

definition in_ns_set_info :: "ns_set_info parser" where
  "in_ns_set_info s = bindE (in_u30 s) (\<lambda>(count, s). bindE (in_vector in_u30 (unat count) s) (\<lambda>(ns, s).
     Inr (\<lparr>ss_count = count, ss_ns = ns\<rparr>, s)))"

definition in_multiname_info :: "multiname_info parser" where
  "in_multiname_info s = bindE (in_byte s) (\<lambda>(kind, s).
     let v = multiname_new\<lparr>mn_kind := kind\<rparr>
     in if kind \<in> {0x07, 0x0d} then
          bindE (in_u30 s) (\<lambda>(ns, s). bindE (in_u30 s) (\<lambda>(name, s). Inr (v\<lparr>mn_ns := ns, mn_name := name\<rparr>, s)))
        else if kind \<in> {0x0f, 0x10} then
          bindE (in_u30 s) (\<lambda>(name, s). Inr (v\<lparr>mn_name := name, mn_runtimeargs := 1\<rparr>, s))
        else if kind \<in> {0x11, 0x12} then Inr (v\<lparr>mn_runtimeargs := 2\<rparr>, s)
        else if kind \<in> {0x09, 0x0e} then
          bindE (in_u30 s) (\<lambda>(name, s). bindE (in_u30 s) (\<lambda>(ns_set, s).
            Inr (v\<lparr>mn_name := name, mn_ns_set := ns_set\<rparr>, s)))
        else if kind \<in> {0x1b, 0x1c} then
          bindE (in_u30 s) (\<lambda>(ns_set, s). Inr (v\<lparr>mn_ns_set := ns_set, mn_runtimeargs := 1\<rparr>, s))
        else if kind = 0x1d then
          bindE (in_u30 s) (\<lambda>(td, s). bindE (in_byte s) (\<lambda>(num_params, s).
          bindE (in_vector in_u30 (unat num_params) s) (\<lambda>(ps, s).
            Inr (v\<lparr>mn_type_definition := td, mn_param_types := ps\<rparr>, s))))
        else Inl Unsupported)"

definition in_option_detail :: "option_detail parser" where
  "in_option_detail s = bindE (in_u30 s) (\<lambda>(val, s). bindE (in_byte s) (\<lambda>(kind, s).
     Inr (\<lparr>od_val = val, od_kind = kind\<rparr>, s)))"

definition in_method_info_simple :: "method_info_simple parser" where
  "in_method_info_simple s = bindE (in_u30 s) (\<lambda>(param_count, s). bindE (in_u30 s) (\<lambda>(return_type, s).
     bindE (in_vector in_u30 (unat param_count) s) (\<lambda>(param_type, s).
     bindE (in_u30 s) (\<lambda>(name, s). bindE (in_byte s) (\<lambda>(flags, s).
     bindE (if flags AND 0x08 \<noteq> 0 then bindE (in_u30 s) (\<lambda>(option_count, s).
              bindE (in_vector in_option_detail (unat option_count) s) (\<lambda>(options, s).
                Inr ((option_count, options), s)))
            else Inr ((0, []), s)) (\<lambda>((option_count, options), s).
     bindE (if flags AND 0x80 \<noteq> 0 then in_vector in_u30 (unat param_count) s else Inr ([], s)) (\<lambda>(param_names, s).
       Inr (\<lparr>mi_param_count = param_count, mi_return_type = return_type, mi_param_type = param_type,
              mi_name = name, mi_flags = flags, mi_option_count = option_count, mi_options = options,
              mi_param_names = param_names\<rparr>, s))))))))"

text \<open>Metadata is stored as all keys followed by all values.\<close>

definition in_metadata_info :: "metadata_info parser" where
  "in_metadata_info s = bindE (in_u30 s) (\<lambda>(name, s). bindE (in_u30 s) (\<lambda>(item_count, s).
     bindE (in_vector in_u30 (unat item_count) s) (\<lambda>(keys, s).
     bindE (in_vector in_u30 (unat item_count) s) (\<lambda>(values, s).
       Inr (\<lparr>md_name = name, md_item_count = item_count,
              md_items = map2 (\<lambda>k v. \<lparr>it_key = k, it_value = v\<rparr>) keys values\<rparr>, s)))))"

text \<open>The switch on the kind of a trait, and the metadata that a flag of the kind announces.\<close>

definition in_trait_data :: "traits_info \<Rightarrow> traits_info parser" where
  "in_trait_data v s = (let k = tr_kind v AND 0xf
     in if k = 0 \<or> k = 6 then
          bindE (in_u30 s) (\<lambda>(slot_id, s). bindE (in_u30 s) (\<lambda>(type_name, s). bindE (in_u30 s) (\<lambda>(vindex, s).
          let v = v\<lparr>tr_slot_id := slot_id, tr_type_name := type_name, tr_vindex := vindex\<rparr>
          in if vindex \<noteq> 0 then bindE (in_byte s) (\<lambda>(vkind, s). Inr (v\<lparr>tr_vkind := vkind\<rparr>, s))
             else Inr (v, s))))
        else if k = 4 then
          bindE (in_u30 s) (\<lambda>(slot_id, s). bindE (in_u30 s) (\<lambda>(classi, s).
            Inr (v\<lparr>tr_slot_id := slot_id, tr_classi := classi\<rparr>, s)))
        else if k = 5 then
          bindE (in_u30 s) (\<lambda>(slot_id, s). bindE (in_u30 s) (\<lambda>(function', s).
            Inr (v\<lparr>tr_slot_id := slot_id, tr_function := function'\<rparr>, s)))
        else if k = 1 \<or> k = 2 \<or> k = 3 then
          bindE (in_u30 s) (\<lambda>(disp_id, s). bindE (in_u30 s) (\<lambda>(method, s).
            Inr (v\<lparr>tr_disp_id := disp_id, tr_method := method\<rparr>, s)))
        else Inr (v, s))"

definition in_trait_metadata :: "traits_info \<Rightarrow> traits_info parser" where
  "in_trait_metadata v s =
     (if tr_kind v AND 0x40 \<noteq> 0 then
        bindE (in_u30 s) (\<lambda>(count, s). bindE (in_vector in_u30 (unat count) s) (\<lambda>(md, s).
          Inr (v\<lparr>tr_metadata_count := count, tr_metadata := md\<rparr>, s)))
      else Inr (v, s))"

definition in_traits_info :: "traits_info parser" where
  "in_traits_info s = bindE (in_u30 s) (\<lambda>(name, s). bindE (in_byte s) (\<lambda>(kind, s).
     bindE (in_trait_data (traits_new\<lparr>tr_name := name, tr_kind := kind\<rparr>) s) (\<lambda>(v, s). in_trait_metadata v s)))"

text \<open>A count followed by as many traits, as classes, instances, scripts and bodies end.\<close>

definition in_traits :: "(u32 \<times> traits_info list) parser" where
  "in_traits s = bindE (in_u30 s) (\<lambda>(count, s). bindE (in_vector in_traits_info (unat count) s) (\<lambda>(ts, s).
     Inr ((count, ts), s)))"

definition in_script_info :: "script_info parser" where
  "in_script_info s = bindE (in_u30 s) (\<lambda>(init, s). bindE (in_traits s) (\<lambda>((count, ts), s).
     Inr (\<lparr>sc_init = init, sc_trait_count = count, sc_traits = ts\<rparr>, s)))"

definition in_class_info :: "class_info parser" where
  "in_class_info s = bindE (in_u30 s) (\<lambda>(cinit, s). bindE (in_traits s) (\<lambda>((count, ts), s).
     Inr (\<lparr>cl_cinit = cinit, cl_trait_count = count, cl_traits = ts\<rparr>, s)))"

definition in_exception_info :: "exception_info parser" where
  "in_exception_info s = bindE (in_u30 s) (\<lambda>(from', s). bindE (in_u30 s) (\<lambda>(to, s). bindE (in_u30 s) (\<lambda>(target, s).
     bindE (in_u30 s) (\<lambda>(exc_type, s). bindE (in_u30 s) (\<lambda>(var_name, s).
       Inr (\<lparr>ex_from = from', ex_to = to, ex_target = target, ex_exc_type = exc_type, ex_var_name = var_name\<rparr>, s))))))"

definition ClassProtectedNs :: u8 where "ClassProtectedNs = 0x08"

text \<open>The interfaces of an instance: an index 0 is refused as soon as it is read.\<close>

definition in_interface :: "u32 parser" where
  "in_interface s = bindE (in_u30 s) (\<lambda>(i, s). if i = 0 then Inl ParseError else Inr (i, s))"

definition in_instance_info :: "instance_info parser" where
  "in_instance_info s = bindE (in_u30 s) (\<lambda>(name, s). bindE (in_u30 s) (\<lambda>(supername, s).
     bindE (in_byte s) (\<lambda>(flags, s).
     bindE (if flags AND ClassProtectedNs \<noteq> 0 then in_u30 s else Inr (0, s)) (\<lambda>(protectedNs, s).
     bindE (in_u30 s) (\<lambda>(interface_count, s). bindE (in_vector in_interface (unat interface_count) s) (\<lambda>(interfaces, s).
     bindE (in_u30 s) (\<lambda>(init, s). bindE (in_traits s) (\<lambda>((count, ts), s).
       Inr (\<lparr>ii_name = name, ii_supername = supername, ii_flags = flags, ii_protectedNs = protectedNs,
              ii_interface_count = interface_count, ii_interfaces = interfaces, ii_init = init,
              ii_trait_count = count, ii_traits = ts\<rparr>, s)))))))))"

definition in_method_body_info :: "method_body_info parser" where
  "in_method_body_info s = bindE (in_u30 s) (\<lambda>(method, s). bindE (in_u30 s) (\<lambda>(max_stack, s).
     bindE (in_u30 s) (\<lambda>(local_count, s). bindE (in_u30 s) (\<lambda>(init_scope_depth, s).
     bindE (in_u30 s) (\<lambda>(max_scope_depth, s). bindE (in_u30 s) (\<lambda>(code_length, s).
     bindE (in_read (unat code_length) s) (\<lambda>(code, s). bindE (in_u30 s) (\<lambda>(exception_count, s).
     bindE (in_vector in_exception_info (unat exception_count) s) (\<lambda>(exceptions, s).
     bindE (in_traits s) (\<lambda>((count, ts), s).
       Inr (\<lparr>mb_method = method, mb_max_stack = max_stack, mb_local_count = local_count,
              mb_init_scope_depth = init_scope_depth, mb_max_scope_depth = max_scope_depth,
              mb_returnvaluepos = ucast (local_count + 1), mb_code = code, mb_exceptions = exceptions,
              mb_trait_count = count, mb_traits = ts\<rparr>, s)))))))))))"

definition in_cpool_info :: "(u8 list \<Rightarrow> u32) \<Rightarrow> cpool_info parser" where
  "in_cpool_info intern s =
     bindE (in_u30 s) (\<lambda>(nint, s). bindE (in_pool 0 in_s32 nint s) (\<lambda>(ints, s).
     bindE (in_u30 s) (\<lambda>(nuint, s). bindE (in_pool 0 in_u32 nuint s) (\<lambda>(uints, s).
     bindE (in_u30 s) (\<lambda>(ndouble, s). bindE (in_pool 0 in_d64 ndouble s) (\<lambda>(doubles, s).
     bindE (in_u30 s) (\<lambda>(nstring, s). bindE (in_pool 0 (in_string_info intern) nstring s) (\<lambda>(strings, s).
     bindE (in_u30 s) (\<lambda>(nns, s). bindE (in_pool \<lparr>ni_kind = 0, ni_name = 0\<rparr> in_namespace_info nns s) (\<lambda>(nss, s).
     bindE (in_u30 s) (\<lambda>(nset, s). bindE (in_pool \<lparr>ss_count = 0, ss_ns = []\<rparr> in_ns_set_info nset s) (\<lambda>(sets, s).
     bindE (in_u30 s) (\<lambda>(nmulti, s). bindE (in_pool multiname_new in_multiname_info nmulti s) (\<lambda>(multis, s).
       Inr (\<lparr>cp_int_count = nint, cp_integer = ints, cp_uint_count = nuint, cp_uinteger = uints,
              cp_double_count = ndouble, cp_doubles = doubles, cp_string_count = nstring, cp_strings = strings,
              cp_namespace_count = nns, cp_namespaces = nss, cp_ns_set_count = nset, cp_ns_sets = sets,
              cp_multiname_count = nmulti, cp_multinames = multis\<rparr>, s)))))))))))))))"

end
