(* ===== verification/AbcFormat.thy ===== *)
theory AbcFormat
  imports AbcTypes
begin

text \<open>
  The format of ABC files: what the readers of \<open>AbcTypes\<close> accept and what they make of it. Each
  structure has a writer \<open>ser_...\<close>, which states its layout, and the condition \<open>..._ok\<close> under which
  the structure can be written.
\<close>

named_theorems wire

section \<open>Formats\<close>

text \<open>
  The contract of one structure: the reader consumes exactly what the writer produced and returns
  \<open>val x\<close>. It is closed under vectors and the vectors of the constant pool.
\<close>

definition ser_list :: "('a \<Rightarrow> u8 list) \<Rightarrow> 'a list \<Rightarrow> u8 list" where
  "ser_list ser xs = concat (map ser xs)"

definition pool_ok :: "'a \<Rightarrow> ('a \<Rightarrow> bool) \<Rightarrow> u32 \<Rightarrow> 'a list \<Rightarrow> bool" where
  "pool_ok d ok count xs \<longleftrightarrow> unat count = length xs \<and> (xs \<noteq> [] \<longrightarrow> hd xs = d) \<and> list_all ok (tl xs)"

locale wire_format =
  fixes parse :: "'b parser" and ser :: "'a \<Rightarrow> u8 list" and val :: "'a \<Rightarrow> 'b" and ok :: "'a \<Rightarrow> bool"
  assumes parse_ser: "ok x \<Longrightarrow> parse (ser x @ bs) = Inr (val x, bs)"
begin

lemma vector: "list_all ok xs \<Longrightarrow> in_vector parse (length xs) (ser_list ser xs @ bs) = Inr (map val xs, bs)"
  by (induction xs) (simp_all add: parse_ser ser_list_def)

lemma pool:
  assumes "pool_ok d ok count xs" and "val d = d'"
  shows "in_pool d' parse count (ser_list ser (tl xs) @ bs) = Inr (map val xs, bs)"
proof (cases xs)
  case Nil
  with assms show ?thesis
    by (simp add: pool_ok_def in_pool_def unat_eq_0 ser_list_def)
next
  case (Cons x ys)
  with assms have "unat count - 1 = length ys" "count \<noteq> 0"
    by (auto simp: pool_ok_def)
  with Cons assms vector [of ys bs] show ?thesis
    by (simp add: pool_ok_def in_pool_def)
qed

lemma unambiguous:
  assumes "ok x" and "ok y" and "ser x @ bs = ser y @ cs"
  shows "val x = val y \<and> bs = cs"
  using parse_ser [OF assms(1), of bs] parse_ser [OF assms(2), of cs] assms(3) by simp

end

section \<open>Numbers, bytes and strings\<close>

definition u30_ok :: "u32 \<Rightarrow> bool" where
  "u30_ok v \<longleftrightarrow> v < 0x40000000"

interpretation u30: wire_format in_u30 enc_u32 id u30_ok
  by unfold_locales (simp add: u30_ok_def in_u30_enc)

interpretation u32: wire_format in_u32 enc_u32 id "\<lambda>_. True"
  by unfold_locales (simp add: in_u32_enc)

interpretation s32: wire_format in_s32 enc_u32 id "\<lambda>_. True"
  by unfold_locales (simp add: in_u32_enc)

interpretation d64: wire_format in_d64 bytes_le64 id "\<lambda>_. True"
  by unfold_locales (simp add: in_d64_def in_read_def)

lemmas [wire] = u30.parse_ser [simplified] u30.vector [simplified] in_u32_enc

lemma in_byte_Cons [wire]: "in_byte (b # bs) = Inr (b, bs)"
  by simp

lemma in_read_append [wire]: "n = length xs \<Longrightarrow> in_read n (xs @ bs) = Inr (xs, bs)"
  by (simp add: in_read_def)

definition ser_string :: "u8 list \<Rightarrow> u8 list" where
  "ser_string bs = enc_u32 (of_nat (length bs)) @ bs"

definition string_ok :: "u8 list \<Rightarrow> bool" where
  "string_ok bs \<longleftrightarrow> length bs < 2 ^ 30"

lemma string_ok_count: "string_ok bs \<Longrightarrow> u30_ok (of_nat (length bs)) \<and> unat (of_nat (length bs) :: u32) = length bs"
  by (simp add: string_ok_def u30_ok_def word_less_nat_alt unat_of_nat)

interpretation string_format: wire_format "in_string_info intern" ser_string intern string_ok for intern
  by unfold_locales (use string_ok_count in \<open>simp add: in_string_info_def ser_string_def wire\<close>)

section \<open>Names\<close>

definition ser_namespace :: "namespace_info \<Rightarrow> u8 list" where
  "ser_namespace v = ni_kind v # enc_u32 (ni_name v)"

definition namespace_ok :: "namespace_info \<Rightarrow> bool" where
  "namespace_ok v \<longleftrightarrow> ni_kind v \<in> set namespace_kinds \<and> u30_ok (ni_name v)"

text \<open>Package namespaces are read as plain namespaces.\<close>

definition collapse :: "namespace_info \<Rightarrow> namespace_info" where
  "collapse v = (if ni_kind v = PACKAGE_NAMESPACE then v\<lparr>ni_kind := NAMESPACE\<rparr> else v)"

interpretation namespace: wire_format in_namespace_info ser_namespace collapse namespace_ok
  by unfold_locales (auto simp: in_namespace_info_def ser_namespace_def namespace_ok_def collapse_def wire)

definition ser_ns_set :: "ns_set_info \<Rightarrow> u8 list" where
  "ser_ns_set v = enc_u32 (ss_count v) @ ser_list enc_u32 (ss_ns v)"

definition ns_set_ok :: "ns_set_info \<Rightarrow> bool" where
  "ns_set_ok v \<longleftrightarrow> u30_ok (ss_count v) \<and> unat (ss_count v) = length (ss_ns v) \<and> list_all u30_ok (ss_ns v)"

interpretation ns_set: wire_format in_ns_set_info ser_ns_set id ns_set_ok
  by unfold_locales (simp add: in_ns_set_info_def ser_ns_set_def ns_set_ok_def wire)

text \<open>The layout of a name follows its kind; what the kind does not have is zero.\<close>

definition ser_multiname :: "multiname_info \<Rightarrow> u8 list" where
  "ser_multiname v = mn_kind v #
     (if mn_kind v \<in> {0x07, 0x0d} then enc_u32 (mn_ns v) @ enc_u32 (mn_name v)
      else if mn_kind v \<in> {0x0f, 0x10} then enc_u32 (mn_name v)
      else if mn_kind v \<in> {0x11, 0x12} then []
      else if mn_kind v \<in> {0x09, 0x0e} then enc_u32 (mn_name v) @ enc_u32 (mn_ns_set v)
      else if mn_kind v \<in> {0x1b, 0x1c} then enc_u32 (mn_ns_set v)
      else enc_u32 (mn_type_definition v) @ of_nat (length (mn_param_types v)) # ser_list enc_u32 (mn_param_types v))"

definition multiname_ok :: "multiname_info \<Rightarrow> bool" where
  "multiname_ok v \<longleftrightarrow>
     u30_ok (mn_ns v) \<and> u30_ok (mn_name v) \<and> u30_ok (mn_ns_set v) \<and> u30_ok (mn_type_definition v)
     \<and> list_all u30_ok (mn_param_types v) \<and> length (mn_param_types v) < 256
     \<and> mn_kind v \<in> {0x07, 0x0d, 0x0f, 0x10, 0x11, 0x12, 0x09, 0x0e, 0x1b, 0x1c, 0x1d}
     \<and> (mn_kind v \<notin> {0x07, 0x0d} \<longrightarrow> mn_ns v = 0)
     \<and> (mn_kind v \<notin> {0x07, 0x0d, 0x0f, 0x10, 0x09, 0x0e} \<longrightarrow> mn_name v = 0)
     \<and> (mn_kind v \<notin> {0x09, 0x0e, 0x1b, 0x1c} \<longrightarrow> mn_ns_set v = 0)
     \<and> (mn_kind v \<noteq> 0x1d \<longrightarrow> mn_type_definition v = 0 \<and> mn_param_types v = [])
     \<and> mn_runtimeargs v = (if mn_kind v \<in> {0x11, 0x12} then 2 else if mn_kind v \<in> {0x0f, 0x10, 0x1b, 0x1c} then 1 else 0)"

interpretation multiname: wire_format in_multiname_info ser_multiname id multiname_ok
proof
  fix v :: multiname_info and bs
  assume ok: "multiname_ok v"
  obtain k name ns ns_set td ps r where v: "v = \<lparr>mn_kind = k, mn_name = name, mn_ns = ns, mn_ns_set = ns_set,
      mn_type_definition = td, mn_param_types = ps, mn_runtimeargs = r\<rparr>"
    by (cases v)
  have n: "unat (of_nat (length ps) :: u8) = length ps"
    using ok by (simp add: multiname_ok_def unat_of_nat v)
  have "k = 0x07 \<or> k = 0x0d \<or> k = 0x0f \<or> k = 0x10 \<or> k = 0x11 \<or> k = 0x12 \<or> k = 0x09 \<or> k = 0x0e \<or> k = 0x1b
      \<or> k = 0x1c \<or> k = 0x1d"
    using ok by (simp add: multiname_ok_def v)
  then show "in_multiname_info (ser_multiname v @ bs) = Inr (id v, bs)"
    by (elim disjE; use ok n in \<open>simp add: in_multiname_info_def ser_multiname_def multiname_ok_def multiname_new_def v wire\<close>)
qed

lemmas [wire] = ns_set.parse_ser [simplified] ns_set.vector [simplified] multiname.parse_ser [simplified]
  multiname.vector [simplified] namespace.parse_ser namespace.vector

section \<open>Methods, metadata and exceptions\<close>

definition ser_option :: "option_detail \<Rightarrow> u8 list" where
  "ser_option v = enc_u32 (od_val v) @ [od_kind v]"

definition option_ok :: "option_detail \<Rightarrow> bool" where
  "option_ok v \<longleftrightarrow> u30_ok (od_val v)"

interpretation option_format: wire_format in_option_detail ser_option id option_ok
  by unfold_locales (simp add: in_option_detail_def ser_option_def option_ok_def wire)

lemmas [wire] = option_format.vector [simplified]

definition ser_method_info :: "method_info_simple \<Rightarrow> u8 list" where
  "ser_method_info v = enc_u32 (mi_param_count v) @ enc_u32 (mi_return_type v) @ ser_list enc_u32 (mi_param_type v)
     @ enc_u32 (mi_name v) @ [mi_flags v]
     @ (if mi_flags v AND 0x08 \<noteq> 0 then enc_u32 (mi_option_count v) @ ser_list ser_option (mi_options v) else [])
     @ (if mi_flags v AND 0x80 \<noteq> 0 then ser_list enc_u32 (mi_param_names v) else [])"

definition method_info_ok :: "method_info_simple \<Rightarrow> bool" where
  "method_info_ok v \<longleftrightarrow> u30_ok (mi_param_count v) \<and> u30_ok (mi_return_type v) \<and> u30_ok (mi_name v)
     \<and> unat (mi_param_count v) = length (mi_param_type v) \<and> list_all u30_ok (mi_param_type v)
     \<and> u30_ok (mi_option_count v) \<and> unat (mi_option_count v) = length (mi_options v) \<and> list_all option_ok (mi_options v)
     \<and> list_all u30_ok (mi_param_names v)
     \<and> (if mi_flags v AND 0x80 \<noteq> 0 then length (mi_param_names v) = length (mi_param_type v) else mi_param_names v = [])
     \<and> (mi_flags v AND 0x08 = 0 \<longrightarrow> mi_options v = [])"

interpretation method_format: wire_format in_method_info_simple ser_method_info id method_info_ok
proof
  fix v :: method_info_simple and bs
  assume ok: "method_info_ok v"
  have names: "in_vector in_u30 (length (mi_param_type v)) (ser_list enc_u32 (mi_param_names v) @ cs)
      = Inr (mi_param_names v, cs)" if "mi_flags v AND 0x80 \<noteq> 0" for cs
    using ok that u30.vector [of "mi_param_names v" cs] by (simp add: method_info_ok_def)
  have noopt: "mi_option_count v = 0" if "mi_flags v AND 0x08 = 0"
    using ok that by (auto simp: method_info_ok_def unat_0_iff)
  show "in_method_info_simple (ser_method_info v @ bs) = Inr (id v, bs)"
    using ok names noopt unfolding in_method_info_simple_def ser_method_info_def method_info_ok_def
    by (cases "mi_flags v AND 0x08 = 0"; cases "mi_flags v AND 0x80 = 0"; simp add: wire)
qed

definition ser_metadata :: "metadata_info \<Rightarrow> u8 list" where
  "ser_metadata v = enc_u32 (md_name v) @ enc_u32 (md_item_count v) @ ser_list enc_u32 (map it_key (md_items v))
     @ ser_list enc_u32 (map it_value (md_items v))"

definition metadata_ok :: "metadata_info \<Rightarrow> bool" where
  "metadata_ok v \<longleftrightarrow> u30_ok (md_name v) \<and> u30_ok (md_item_count v) \<and> unat (md_item_count v) = length (md_items v)
     \<and> list_all u30_ok (map it_key (md_items v)) \<and> list_all u30_ok (map it_value (md_items v))"

lemma zip_items: "map2 (\<lambda>k v. \<lparr>it_key = k, it_value = v\<rparr>) (map it_key xs) (map it_value xs) = xs"
  by (induction xs) simp_all

interpretation metadata: wire_format in_metadata_info ser_metadata id metadata_ok
proof
  fix v :: metadata_info and bs
  assume ok: "metadata_ok v"
  have k: "in_vector in_u30 (length (md_items v)) (ser_list enc_u32 (map it_key (md_items v)) @ cs)
      = Inr (map it_key (md_items v), cs)" for cs
    using ok u30.vector [of "map it_key (md_items v)" cs] by (simp add: metadata_ok_def)
  have w: "in_vector in_u30 (length (md_items v)) (ser_list enc_u32 (map it_value (md_items v)) @ cs)
      = Inr (map it_value (md_items v), cs)" for cs
    using ok u30.vector [of "map it_value (md_items v)" cs] by (simp add: metadata_ok_def)
  show "in_metadata_info (ser_metadata v @ bs) = Inr (id v, bs)"
    using ok by (simp add: in_metadata_info_def ser_metadata_def metadata_ok_def wire k w zip_items del: list.map_comp list.pred_map)
qed

definition ser_exception :: "exception_info \<Rightarrow> u8 list" where
  "ser_exception v = enc_u32 (ex_from v) @ enc_u32 (ex_to v) @ enc_u32 (ex_target v) @ enc_u32 (ex_exc_type v)
     @ enc_u32 (ex_var_name v)"

definition exception_ok :: "exception_info \<Rightarrow> bool" where
  "exception_ok v \<longleftrightarrow> u30_ok (ex_from v) \<and> u30_ok (ex_to v) \<and> u30_ok (ex_target v) \<and> u30_ok (ex_exc_type v)
     \<and> u30_ok (ex_var_name v)"

interpretation exception_format: wire_format in_exception_info ser_exception id exception_ok
  by unfold_locales (simp add: in_exception_info_def ser_exception_def exception_ok_def wire)

lemmas [wire] = exception_format.vector [simplified] metadata.vector [simplified] method_format.vector [simplified]

section \<open>Traits\<close>

definition ser_trait :: "traits_info \<Rightarrow> u8 list" where
  "ser_trait v = enc_u32 (tr_name v) @ [tr_kind v]
     @ (let k = tr_kind v AND 0xf
        in if k = 0 \<or> k = 6 then enc_u32 (tr_slot_id v) @ enc_u32 (tr_type_name v) @ enc_u32 (tr_vindex v)
             @ (if tr_vindex v \<noteq> 0 then [tr_vkind v] else [])
           else if k = 4 then enc_u32 (tr_slot_id v) @ enc_u32 (tr_classi v)
           else if k = 5 then enc_u32 (tr_slot_id v) @ enc_u32 (tr_function v)
           else if k = 1 \<or> k = 2 \<or> k = 3 then enc_u32 (tr_disp_id v) @ enc_u32 (tr_method v)
           else [])
     @ (if tr_kind v AND 0x40 \<noteq> 0 then enc_u32 (tr_metadata_count v) @ ser_list enc_u32 (tr_metadata v) else [])"

definition trait_ok :: "traits_info \<Rightarrow> bool" where
  "trait_ok v \<longleftrightarrow> (let k = tr_kind v AND 0xf in
     u30_ok (tr_name v) \<and> u30_ok (tr_slot_id v) \<and> u30_ok (tr_type_name v) \<and> u30_ok (tr_vindex v) \<and> u30_ok (tr_classi v)
     \<and> u30_ok (tr_function v) \<and> u30_ok (tr_disp_id v) \<and> u30_ok (tr_method v)
     \<and> u30_ok (tr_metadata_count v) \<and> unat (tr_metadata_count v) = length (tr_metadata v) \<and> list_all u30_ok (tr_metadata v)
     \<and> (k \<notin> {0, 4, 5, 6} \<longrightarrow> tr_slot_id v = 0) \<and> (k \<notin> {0, 6} \<longrightarrow> tr_type_name v = 0 \<and> tr_vindex v = 0)
     \<and> (tr_vindex v = 0 \<longrightarrow> tr_vkind v = 0) \<and> (k \<noteq> 4 \<longrightarrow> tr_classi v = 0) \<and> (k \<noteq> 5 \<longrightarrow> tr_function v = 0)
     \<and> (k \<notin> {1, 2, 3} \<longrightarrow> tr_disp_id v = 0 \<and> tr_method v = 0) \<and> (tr_kind v AND 0x40 = 0 \<longrightarrow> tr_metadata v = []))"

interpretation trait: wire_format in_traits_info ser_trait id trait_ok
proof
  fix v :: traits_info and bs
  assume ok: "trait_ok v"
  obtain name kind slot ty vindex vkind cls fn disp mth mc md where v: "v = \<lparr>tr_name = name, tr_kind = kind,
      tr_slot_id = slot, tr_type_name = ty, tr_vindex = vindex, tr_vkind = vkind, tr_classi = cls, tr_function = fn,
      tr_disp_id = disp, tr_method = mth, tr_metadata_count = mc, tr_metadata = md\<rparr>"
    by (cases v)
  have mc: "mc = 0" if "kind AND 0x40 = 0"
    using ok that by (auto simp: trait_ok_def v Let_def unat_0_iff)
  consider "kind AND 0xf = 0 \<or> kind AND 0xf = 6" "vindex = 0" | "kind AND 0xf = 0 \<or> kind AND 0xf = 6" "vindex \<noteq> 0"
    | "kind AND 0xf = 4" | "kind AND 0xf = 5" | "kind AND 0xf = 1 \<or> kind AND 0xf = 2 \<or> kind AND 0xf = 3"
    | "kind AND 0xf \<notin> {0, 1, 2, 3, 4, 5, 6}"
    by blast
  then show "in_traits_info (ser_trait v @ bs) = Inr (id v, bs)"
    by cases (use ok mc in \<open>(elim disjE)?; cases "kind AND 0x40 = 0";
      simp add: in_traits_info_def in_trait_data_def in_trait_metadata_def ser_trait_def trait_ok_def traits_new_def v
      Let_def wire\<close>)+
qed

lemmas [wire] = trait.vector [simplified]

end
