(* ===== verification/AbcOverride.thy ===== *)
theory AbcOverride
  imports AbcTypes
begin

text \<open>
  The overridden methods of classes: the part of the constructor of \<open>ABCContext\<close> in
  \<open>scripting/abc.cpp\<close> that runs for every instance it has read, the names of the classes it needs
  (\<open>getMultiname\<close> without a call context, \<open>getMultinameImpl\<close> without runtime arguments), and
  \<open>Class_inherit::hasoverriddenmethod\<close> of \<open>scripting/class.cpp\<close>.

  A class shares the set of overridden methods with the class it extends: \<open>overriddenmethods\<close> is a
  pointer. Sets are therefore kept in a store, and a pointer is the index of its set there.
\<close>

section \<open>Static names\<close>

definition BUILTIN_EMPTY :: u32 where "BUILTIN_EMPTY = 0"

definition BUILTIN_ANY :: u32 where "BUILTIN_ANY = 0x10000"

text \<open>
  What a \<open>multiname\<close> keeps here: the id of its name and the name ids of its namespaces. A name that
  is not set has the id \<open>UINT32_MAX\<close>.
\<close>

record static_name =
  sn_name_s_id :: u32
  sn_ns :: "u32 list"

definition getString :: "cpool_info \<Rightarrow> u32 \<Rightarrow> u32 res" where
  "getString pool s = rd (cp_strings pool) (unat s)"

text \<open>\<open>nsNameAndKind (context, index)\<close>: the name id of a namespace of the pool.\<close>

definition ns_name_id :: "cpool_info \<Rightarrow> u32 \<Rightarrow> u32 res" where
  "ns_name_id pool i = bindE (rd (cp_namespaces pool) (unat i)) (\<lambda>ns. getString pool (ni_name ns))"

fun mapE :: "('a \<Rightarrow> 'b res) \<Rightarrow> 'a list \<Rightarrow> 'b list res" where
  "mapE f [] = Inr []"
| "mapE f (x # xs) = bindE (f x) (\<lambda>y. bindE (mapE f xs) (\<lambda>ys. Inr (y # ys)))"

text \<open>
  The name of a template instance joins the names of the template and of its arguments;
  \<open>str_of\<close> and \<open>intern\<close> are the string table of the player (\<open>getStringFromUniqueId\<close> and
  \<open>getUniqueStringId\<close>). The code also resolves the arguments themselves, by calls of \<open>getMultiname\<close> whose results go to
  \<open>templateinstancenames\<close>, and caches every name; both are left out, for the name and the namespaces of the result do not depend on them.
\<close>

definition template_arg :: "(u32 \<Rightarrow> u8 list) \<Rightarrow> cpool_info \<Rightarrow> u32 \<Rightarrow> u8 list res" where
  "template_arg str_of pool i = bindE (rd (cp_multinames pool) (unat i)) (\<lambda>p.
     bindE (if unat (mn_ns p) < length (cp_namespaces pool)
            then bindE (ns_name_id pool (mn_ns p)) (\<lambda>n. Inr (if str_of n \<noteq> [] then str_of n @ [0x24] else []))
            else Inr []) (\<lambda>nsname.
     bindE (getString pool (mn_name p)) (\<lambda>n. Inr ([0x24] @ nsname @ str_of n))))"

definition getMultinameImpl :: "(u8 list \<Rightarrow> u32) \<Rightarrow> (u32 \<Rightarrow> u8 list) \<Rightarrow> cpool_info \<Rightarrow> u32 \<Rightarrow> static_name option res" where
  "getMultinameImpl intern str_of pool midx =
     (if cp_multiname_count pool = 0 then Inr None
      else if midx = 0 then Inr (Some \<lparr>sn_name_s_id = BUILTIN_ANY, sn_ns = [BUILTIN_EMPTY]\<rparr>)
      else bindE (rd (cp_multinames pool) (unat midx)) (\<lambda>m.
        let name = (if mn_name m \<noteq> 0 then getString pool (mn_name m) else Inr 0xffffffff)
        in if mn_kind m \<in> {0x07, 0x0d} then
             bindE (rd (cp_namespaces pool) (unat (mn_ns m))) (\<lambda>ns.
             bindE (if ni_kind ns = 0 then Inr []
                    else bindE (ns_name_id pool (mn_ns m)) (\<lambda>n. Inr [n])) (\<lambda>nss.
             bindE name (\<lambda>n. Inr (Some \<lparr>sn_name_s_id = n, sn_ns = nss\<rparr>))))
           else if mn_kind m \<in> {0x09, 0x0e} then
             bindE (rd (cp_ns_sets pool) (unat (mn_ns_set m))) (\<lambda>set.
             bindE (mapE (ns_name_id pool) (ss_ns set)) (\<lambda>nss.
             bindE name (\<lambda>n. Inr (Some \<lparr>sn_name_s_id = n, sn_ns = nss\<rparr>))))
           else if mn_kind m \<in> {0x1b, 0x1c} then
             bindE (rd (cp_ns_sets pool) (unat (mn_ns_set m))) (\<lambda>set.
             bindE (mapE (ns_name_id pool) (ss_ns set)) (\<lambda>nss. Inr (Some \<lparr>sn_name_s_id = 0xffffffff, sn_ns = nss\<rparr>)))
           else if mn_kind m \<in> {0x0f, 0x10} then
             bindE (getString pool (mn_name m)) (\<lambda>n. Inr (Some \<lparr>sn_name_s_id = n, sn_ns = []\<rparr>))
           else if mn_kind m \<in> {0x11, 0x12} then Inr (Some \<lparr>sn_name_s_id = 0xffffffff, sn_ns = []\<rparr>)
           else if mn_kind m = 0x1d then
             bindE (rd (cp_multinames pool) (unat (mn_type_definition m))) (\<lambda>td.
             bindE (getString pool (mn_name td)) (\<lambda>n.
             bindE (mapE (template_arg str_of pool) (mn_param_types m)) (\<lambda>args.
             bindE (ns_name_id pool (mn_ns td)) (\<lambda>ns.
               Inr (Some \<lparr>sn_name_s_id = intern (str_of n @ concat args), sn_ns = [ns]\<rparr>)))))
           else Inl Unsupported))"

text \<open>Without a call context a name with runtime arguments has no value.\<close>

definition getMultiname :: "(u8 list \<Rightarrow> u32) \<Rightarrow> (u32 \<Rightarrow> u8 list) \<Rightarrow> cpool_info \<Rightarrow> u32 \<Rightarrow> static_name option res" where
  "getMultiname intern str_of pool n =
     bindE (if n \<noteq> 0 then bindE (rd (cp_multinames pool) (unat n)) (\<lambda>m. Inr (mn_runtimeargs m)) else Inr 0) (\<lambda>from_stack.
     if from_stack > 0 then Inr None else getMultinameImpl intern str_of pool n)"

text \<open>\<open>QName (name->name_s_id, name->ns[0].nsNameId)\<close>.\<close>

type_synonym qname = "u32 \<times> u32"

definition class_qname :: "(u8 list \<Rightarrow> u32) \<Rightarrow> (u32 \<Rightarrow> u8 list) \<Rightarrow> cpool_info \<Rightarrow> u32 \<Rightarrow> qname res" where
  "class_qname intern str_of pool n = bindE (getMultiname intern str_of pool n) (\<lambda>name.
     case name of None \<Rightarrow> Inl NullDeref
     | Some m \<Rightarrow> bindE (rd (sn_ns m) 0) (\<lambda>ns. Inr (sn_name_s_id m, ns)))"

section \<open>The sets of overridden methods\<close>

text \<open>\<open>customclassoverriddenmethods\<close> of the application domain and the sets it points to.\<close>

record overrides =
  ov_classes :: "qname \<rightharpoonup> nat"
  ov_sets :: "u32 list list"

definition Override :: u8 where "Override = 0x20"

definition ClassInterface :: u8 where "ClassInterface = 0x04"

definition isInterface :: "instance_info \<Rightarrow> bool" where
  "isInterface v \<longleftrightarrow> ii_flags v AND ClassInterface \<noteq> 0"

definition new_set :: "overrides \<Rightarrow> nat \<times> overrides" where
  "new_set ov = (length (ov_sets ov), ov\<lparr>ov_sets := ov_sets ov @ [[]]\<rparr>)"

definition insert_set :: "nat \<Rightarrow> u32 \<Rightarrow> overrides \<Rightarrow> overrides" where
  "insert_set p x ov = ov\<lparr>ov_sets := (ov_sets ov)[p := List.insert x (ov_sets ov ! p)]\<rparr>"

definition trait_method_name :: "cpool_info \<Rightarrow> traits_info \<Rightarrow> u32 res" where
  "trait_method_name pool t = bindE (rd (cp_multinames pool) (unat (tr_name t))) (\<lambda>m. getString pool (mn_name m))"

definition insert_override :: "cpool_info \<Rightarrow> nat \<Rightarrow> traits_info \<Rightarrow> overrides \<Rightarrow> overrides res" where
  "insert_override pool p t ov =
     (if tr_kind t AND Override \<noteq> 0 then bindE (trait_method_name pool t) (\<lambda>n. Inr (insert_set p n ov))
      else Inr ov)"

text \<open>One instance; the first component of the result is its \<open>overriddenmethods\<close>.\<close>

definition register_class ::
  "(u8 list \<Rightarrow> u32) \<Rightarrow> (u32 \<Rightarrow> u8 list) \<Rightarrow> cpool_info \<Rightarrow> instance_info \<Rightarrow> overrides \<Rightarrow> (nat \<times> overrides) res" where
  "register_class intern str_of pool v ov =
     bindE (if ii_supername v \<noteq> 0
            then bindE (class_qname intern str_of pool (ii_supername v)) (\<lambda>super.
              case ov_classes ov super of None \<Rightarrow> Inr (new_set ov) | Some p \<Rightarrow> Inr (p, ov))
            else Inr (new_set ov)) (\<lambda>(p, ov).
     bindE (if \<not> isInterface v then foldE (insert_override pool p) ov (ii_traits v) else Inr ov) (\<lambda>ov.
     bindE (class_qname intern str_of pool (ii_name v)) (\<lambda>name.
       Inr (p, if ov_classes ov name = None then ov\<lparr>ov_classes := (ov_classes ov)(name \<mapsto> p)\<rparr> else ov))))"

fun register_classes ::
  "(u8 list \<Rightarrow> u32) \<Rightarrow> (u32 \<Rightarrow> u8 list) \<Rightarrow> cpool_info \<Rightarrow> instance_info list \<Rightarrow> overrides \<Rightarrow> (nat list \<times> overrides) res" where
  "register_classes intern str_of pool [] ov = Inr ([], ov)"
| "register_classes intern str_of pool (v # vs) ov = bindE (register_class intern str_of pool v ov) (\<lambda>(p, ov).
     bindE (register_classes intern str_of pool vs ov) (\<lambda>(ps, ov). Inr (p # ps, ov)))"

text \<open>
  \<open>Class_inherit::hasoverriddenmethod\<close>: \<open>idx\<close> is \<open>class_index\<close> (\<open>None\<close> for -1), \<open>base\<close> the set
  of \<open>Class_base\<close>, which the native classes fill.
\<close>

definition hasoverriddenmethod :: "u32 list \<Rightarrow> nat list \<Rightarrow> overrides \<Rightarrow> nat option \<Rightarrow> u32 \<Rightarrow> bool" where
  "hasoverriddenmethod base ps ov idx name =
     (case idx of None \<Rightarrow> True
      | Some i \<Rightarrow> if name \<in> set (ov_sets ov ! (ps ! i)) then True else name \<in> set base)"

section \<open>What registering a class changes\<close>

text \<open>Pointers stay valid, sets and the table of classes only grow.\<close>

definition ov_inv :: "overrides \<Rightarrow> bool" where
  "ov_inv ov \<longleftrightarrow> (\<forall>q p. ov_classes ov q = Some p \<longrightarrow> p < length (ov_sets ov))"

definition grows :: "overrides \<Rightarrow> overrides \<Rightarrow> bool" where
  "grows ov ov' \<longleftrightarrow> ov_classes ov \<subseteq>\<^sub>m ov_classes ov' \<and> length (ov_sets ov) \<le> length (ov_sets ov')
     \<and> (\<forall>p < length (ov_sets ov). set (ov_sets ov ! p) \<subseteq> set (ov_sets ov' ! p))"

lemma grows_refl [simp]: "grows ov ov"
  by (simp add: grows_def)

lemma grows_trans [trans]: "grows a b \<Longrightarrow> grows b c \<Longrightarrow> grows a c"
  unfolding grows_def by (meson map_le_trans order_trans order_less_le_trans subset_trans)

lemma grows_class: "grows ov ov' \<Longrightarrow> ov_classes ov q = Some p \<Longrightarrow> ov_classes ov' q = Some p"
  unfolding grows_def map_le_def by (metis domI)

lemma grows_set: "grows ov ov' \<Longrightarrow> p < length (ov_sets ov) \<Longrightarrow> n \<in> set (ov_sets ov ! p) \<Longrightarrow> n \<in> set (ov_sets ov' ! p)"
  by (auto simp: grows_def)

lemma grows_length: "grows ov ov' \<Longrightarrow> p < length (ov_sets ov) \<Longrightarrow> p < length (ov_sets ov')"
  by (simp add: grows_def)

lemma new_set_grows: "new_set ov = (p, ov') \<Longrightarrow> grows ov ov' \<and> p < length (ov_sets ov') \<and> ov_classes ov' = ov_classes ov"
  by (auto simp: new_set_def grows_def nth_append)

lemma insert_set_grows [simp]: "grows ov (insert_set p x ov)"
  by (cases "p < length (ov_sets ov)") (auto simp: grows_def insert_set_def nth_list_update list_update_beyond)

lemma insert_set_simps [simp]:
  "ov_classes (insert_set p x ov) = ov_classes ov"
  "length (ov_sets (insert_set p x ov)) = length (ov_sets ov)"
  "p < length (ov_sets ov) \<Longrightarrow> x \<in> set (ov_sets (insert_set p x ov) ! p)"
  by (simp_all add: insert_set_def)

lemma insert_override_grows:
  assumes "insert_override pool p t ov = Inr ov'"
  shows "grows ov ov' \<and> ov_classes ov' = ov_classes ov"
  using assms by (auto simp: insert_override_def split: if_splits elim!: bindE_InrE)

lemma insert_overrides:
  assumes "foldE (insert_override pool p) ov ts = Inr ov'" and "p < length (ov_sets ov)"
  shows "grows ov ov' \<and> ov_classes ov' = ov_classes ov
    \<and> (\<forall>t\<in>set ts. \<forall>n. tr_kind t AND Override \<noteq> 0 \<longrightarrow> trait_method_name pool t = Inr n \<longrightarrow> n \<in> set (ov_sets ov' ! p))"
  using assms
proof (induction ts arbitrary: ov)
  case (Cons t ts)
  then obtain ov1 where t: "insert_override pool p t ov = Inr ov1" and ts: "foldE (insert_override pool p) ov1 ts = Inr ov'"
    by (auto elim!: bindE_InrE)
  have g1: "grows ov ov1" "ov_classes ov1 = ov_classes ov"
    using insert_override_grows [OF t] by simp_all
  have p: "p < length (ov_sets ov1)"
    using g1(1) Cons.prems(2) by (rule grows_length)
  note IH = Cons.IH [OF ts p]
  have "n \<in> set (ov_sets ov' ! p)" if "tr_kind t AND Override \<noteq> 0" "trait_method_name pool t = Inr n" for n
  proof -
    have "n \<in> set (ov_sets ov1 ! p)"
      using t that Cons.prems(2) by (auto simp: insert_override_def)
    then show ?thesis
      using IH p grows_set by blast
  qed
  with IH g1 show ?case
    using grows_trans by auto
qed simp

lemma register_class_spec:
  assumes "register_class intern str_of pool v ov = Inr (p, ov')" and "ov_inv ov"
  shows "ov_inv ov' \<and> grows ov ov' \<and> p < length (ov_sets ov')
    \<and> (\<forall>q p'. ii_supername v \<noteq> 0 \<longrightarrow> class_qname intern str_of pool (ii_supername v) = Inr q
        \<longrightarrow> ov_classes ov q = Some p' \<longrightarrow> p = p')
    \<and> (\<exists>q. class_qname intern str_of pool (ii_name v) = Inr q
        \<and> ov_classes ov' = (if ov_classes ov q = None then (ov_classes ov)(q \<mapsto> p) else ov_classes ov))
    \<and> (\<not> isInterface v \<longrightarrow> (\<forall>t\<in>set (ii_traits v). \<forall>n. tr_kind t AND Override \<noteq> 0 \<longrightarrow> trait_method_name pool t = Inr n
        \<longrightarrow> n \<in> set (ov_sets ov' ! p)))"
proof -
  obtain ov1 ov2 q where super: "(if ii_supername v \<noteq> 0
            then bindE (class_qname intern str_of pool (ii_supername v)) (\<lambda>super.
              case ov_classes ov super of None \<Rightarrow> Inr (new_set ov) | Some p \<Rightarrow> Inr (p, ov))
            else Inr (new_set ov)) = Inr (p, ov1)"
    and ts: "(if \<not> isInterface v then foldE (insert_override pool p) ov1 (ii_traits v) else Inr ov1) = Inr ov2"
    and q: "class_qname intern str_of pool (ii_name v) = Inr q"
    and ov': "ov' = (if ov_classes ov2 q = None then ov2\<lparr>ov_classes := (ov_classes ov2)(q \<mapsto> p)\<rparr> else ov2)"
    using assms(1) unfolding register_class_def by (auto elim!: bindE_InrE)
  have g1: "grows ov ov1 \<and> p < length (ov_sets ov1) \<and> ov_classes ov1 = ov_classes ov"
    using super new_set_grows [of ov p ov1] assms(2)
    by (auto simp: ov_inv_def split: if_splits option.splits elim!: bindE_InrE)
  have g2: "grows ov1 ov2 \<and> ov_classes ov2 = ov_classes ov1"
    using ts insert_overrides [of pool p ov1 "ii_traits v" ov2] g1 by (auto split: if_splits)
  have g3: "grows ov2 ov'"
    unfolding ov' by (auto simp: grows_def map_le_def)
  have p2: "p < length (ov_sets ov2)"
    using g1 g2 grows_length by blast
  have "ov_inv ov'"
    using assms(2) p2 g1 g2 grows_length [OF conjunct1 [OF g1]] grows_length [OF conjunct1 [OF g2]]
    unfolding ov_inv_def ov' by (auto split: if_splits)
  moreover have "n \<in> set (ov_sets ov' ! p)" if "\<not> isInterface v" "t \<in> set (ii_traits v)" "tr_kind t AND Override \<noteq> 0"
      "trait_method_name pool t = Inr n" for t n
    using insert_overrides [of pool p ov1 "ii_traits v" ov2] ts g1 that grows_set [OF g3 p2] by auto
  moreover have "p = p'" if "ii_supername v \<noteq> 0" "class_qname intern str_of pool (ii_supername v) = Inr q'"
      "ov_classes ov q' = Some p'" for q' p'
    using super that by simp
  moreover have "grows ov ov'" "p < length (ov_sets ov')"
    using g1 g2 g3 p2 grows_trans grows_length by blast+
  ultimately show ?thesis
    using q g1 g2 unfolding ov' by auto
qed

lemma register_classes_spec:
  assumes "register_classes intern str_of pool vs ov = Inr (ps, ov')" and "ov_inv ov"
  shows "ov_inv ov' \<and> grows ov ov' \<and> length ps = length vs
    \<and> dom (ov_classes ov') = dom (ov_classes ov) \<union> {q. \<exists>v\<in>set vs. class_qname intern str_of pool (ii_name v) = Inr q}"
  using assms
proof (induction vs arbitrary: ov ps)
  case (Cons v vs)
  then obtain p ov1 ps1 where v: "register_class intern str_of pool v ov = Inr (p, ov1)"
    and vs: "register_classes intern str_of pool vs ov1 = Inr (ps1, ov')" and ps: "ps = p # ps1"
    by (auto elim!: bindE_InrE)
  note spec = register_class_spec [OF v Cons.prems(2)]
  then obtain q where q: "class_qname intern str_of pool (ii_name v) = Inr q"
    and c: "ov_classes ov1 = (if ov_classes ov q = None then (ov_classes ov)(q \<mapsto> p) else ov_classes ov)"
    by blast
  from c have d: "dom (ov_classes ov1) = insert q (dom (ov_classes ov))"
    by (cases "ov_classes ov q") (auto simp: insert_absorb domI)
  note IH = Cons.IH [OF vs conjunct1 [OF spec]]
  have "grows ov ov'"
    using spec IH grows_trans by blast
  moreover have "dom (ov_classes ov') = dom (ov_classes ov)
      \<union> {q. \<exists>w\<in>set (v # vs). class_qname intern str_of pool (ii_name w) = Inr q}"
    using IH d q by auto
  ultimately show ?case
    using IH ps by simp
qed simp

text \<open>The steps before, at and after one instance.\<close>

lemma register_classes_nth:
  assumes "register_classes intern str_of pool vs ov = Inr (ps, ov')" and "j < length vs"
  obtains ov1 ov2 where "register_classes intern str_of pool (take j vs) ov = Inr (take j ps, ov1)"
    and "register_class intern str_of pool (vs ! j) ov1 = Inr (ps ! j, ov2)"
    and "register_classes intern str_of pool (drop (Suc j) vs) ov2 = Inr (drop (Suc j) ps, ov')"
proof -
  have "\<exists>ov1 ov2. register_classes intern str_of pool (take j vs) ov = Inr (take j ps, ov1)
      \<and> register_class intern str_of pool (vs ! j) ov1 = Inr (ps ! j, ov2)
      \<and> register_classes intern str_of pool (drop (Suc j) vs) ov2 = Inr (drop (Suc j) ps, ov')"
    using assms
  proof (induction vs arbitrary: ov ps j)
    case (Cons v vs)
    then obtain p ovn ps1 where v: "register_class intern str_of pool v ov = Inr (p, ovn)"
      and vs: "register_classes intern str_of pool vs ovn = Inr (ps1, ov')" and ps: "ps = p # ps1"
      by (auto elim!: bindE_InrE)
    show ?case
    proof (cases j)
      case 0
      with v vs ps show ?thesis
        by simp
    next
      case (Suc k)
      with Cons.prems Cons.IH [OF vs, of k] v ps show ?thesis
        by auto
    qed
  qed simp
  with that show thesis
    by blast
qed

section \<open>Descendants\<close>

text \<open>
  Instance \<open>j\<close> extends the earlier instance \<open>i\<close>: the super name of \<open>j\<close> is the name of \<open>i\<close>, which no
  instance before \<open>i\<close> and no class of the domain has.
\<close>

definition extends :: "(u8 list \<Rightarrow> u32) \<Rightarrow> (u32 \<Rightarrow> u8 list) \<Rightarrow> cpool_info \<Rightarrow> overrides \<Rightarrow> instance_info list \<Rightarrow> nat \<Rightarrow> nat \<Rightarrow> bool"
  where "extends intern str_of pool ov vs j i \<longleftrightarrow> i < j \<and> j < length vs \<and> ii_supername (vs ! j) \<noteq> 0
     \<and> (case class_qname intern str_of pool (ii_name (vs ! i)) of Inl _ \<Rightarrow> False
        | Inr q \<Rightarrow> class_qname intern str_of pool (ii_supername (vs ! j)) = Inr q \<and> ov_classes ov q = None
            \<and> list_all (\<lambda>v. class_qname intern str_of pool (ii_name v) \<noteq> Inr q) (take i vs))"

lemma extends_shares:
  assumes reg: "register_classes intern str_of pool vs ov = Inr (ps, ov')" and inv: "ov_inv ov"
    and ext: "extends intern str_of pool ov vs j i"
  shows "ps ! j = ps ! i"
proof -
  obtain q where ij: "i < j" "j < length vs" and qi: "class_qname intern str_of pool (ii_name (vs ! i)) = Inr q"
    and qj: "ii_supername (vs ! j) \<noteq> 0" "class_qname intern str_of pool (ii_supername (vs ! j)) = Inr q"
    and new: "ov_classes ov q = None" "\<forall>v\<in>set (take i vs). class_qname intern str_of pool (ii_name v) \<noteq> Inr q"
    using ext by (auto simp: extends_def list_all_iff split: sum.splits)
  obtain ovj ovj' where j: "register_classes intern str_of pool (take j vs) ov = Inr (take j ps, ovj)"
    "register_class intern str_of pool (vs ! j) ovj = Inr (ps ! j, ovj')"
    using register_classes_nth [OF reg ij(2)] by metis
  obtain ovi ovi' where i: "register_classes intern str_of pool (take i (take j vs)) ov = Inr (take i (take j ps), ovi)"
    "register_class intern str_of pool (take j vs ! i) ovi = Inr (take j ps ! i, ovi')"
    "register_classes intern str_of pool (drop (Suc i) (take j vs)) ovi' = Inr (drop (Suc i) (take j ps), ovj)"
    using register_classes_nth [OF j(1), of i] ij by (metis length_take min.absorb4)
  have vi: "take j vs ! i = vs ! i" "take j ps ! i = ps ! i" "take i (take j vs) = take i vs"
    using ij by simp_all
  note si = register_classes_spec [OF i(1) inv]
  have "ov_classes ovi q = None"
    using si new vi by (auto simp: domIff dest!: equalityD1)
  moreover note s2 = register_class_spec [OF i(2) conjunct1 [OF si]]
  ultimately have "ov_classes ovi' q = Some (ps ! i)"
    using qi vi by auto
  moreover note s3 = register_classes_spec [OF i(3) conjunct1 [OF s2]]
  ultimately have "ov_classes ovj q = Some (ps ! i)"
    using grows_class by blast
  then show ?thesis
    using register_class_spec [OF j(2) conjunct1 [OF s3]] qj by blast
qed

inductive descends :: "(u8 list \<Rightarrow> u32) \<Rightarrow> (u32 \<Rightarrow> u8 list) \<Rightarrow> cpool_info \<Rightarrow> overrides \<Rightarrow> instance_info list \<Rightarrow> nat \<Rightarrow> nat \<Rightarrow> bool"
  for intern str_of pool ov vs where
  refl: "descends intern str_of pool ov vs i i"
| step: "extends intern str_of pool ov vs j i \<Longrightarrow> descends intern str_of pool ov vs i h \<Longrightarrow> descends intern str_of pool ov vs j h"

lemma descends_shares:
  assumes "descends intern str_of pool ov vs j i"
    and "register_classes intern str_of pool vs ov = Inr (ps, ov')" and "ov_inv ov"
  shows "ps ! j = ps ! i"
  using assms by (induction rule: descends.induct) (auto dest: extends_shares)

lemma own_overrides:
  assumes reg: "register_classes intern str_of pool vs ov = Inr (ps, ov')" and inv: "ov_inv ov" and j: "j < length vs"
    and t: "\<not> isInterface (vs ! j)" "t \<in> set (ii_traits (vs ! j))" "tr_kind t AND Override \<noteq> 0"
      "trait_method_name pool t = Inr n"
  shows "n \<in> set (ov_sets ov' ! (ps ! j))"
proof -
  obtain ov1 ov2 where steps: "register_classes intern str_of pool (take j vs) ov = Inr (take j ps, ov1)"
    "register_class intern str_of pool (vs ! j) ov1 = Inr (ps ! j, ov2)"
    "register_classes intern str_of pool (drop (Suc j) vs) ov2 = Inr (drop (Suc j) ps, ov')"
    using register_classes_nth [OF reg j] by metis
  note s1 = register_classes_spec [OF steps(1) inv]
  note s2 = register_class_spec [OF steps(2) conjunct1 [OF s1]]
  note s3 = register_classes_spec [OF steps(3) conjunct1 [OF s2]]
  from s2 t have "n \<in> set (ov_sets ov2 ! (ps ! j))" "ps ! j < length (ov_sets ov2)"
    by blast+
  with s3 show ?thesis
    using grows_set by blast
qed

text \<open>C12: A method that a loaded class overrides is never taken for final: when the class with index
  \<open>j\<close> is the class \<open>i\<close> or a descendant of it loaded after it, and has an override of the method
  \<open>n\<close>, then \<open>hasoverriddenmethod\<close> of class \<open>i\<close> answers yes for \<open>n\<close> once all classes are read, so no
  call on an expression of type \<open>i\<close> is bound to the method of \<open>i\<close>.\<close>

theorem overridden_method_found:
  assumes "register_classes intern str_of pool vs ov = Inr (ps, ov')" and "ov_inv ov"
    and "descends intern str_of pool ov vs j i" and "j < length vs" and "\<not> isInterface (vs ! j)"
    and "t \<in> set (ii_traits (vs ! j))" and "tr_kind t AND Override \<noteq> 0" and "trait_method_name pool t = Inr n"
  shows "hasoverriddenmethod base ps ov' (Some i) n"
  using own_overrides [OF assms(1,2,4-8)] descends_shares [OF assms(3,1,2)] by (simp add: hasoverriddenmethod_def)

text \<open>Two classes: \<open>B\<close> extends \<open>A\<close> and overrides its method \<open>m\<close>.\<close>

definition sample_qname :: "u32 \<Rightarrow> multiname_info" where
  "sample_qname name = multiname_new\<lparr>mn_kind := 0x07, mn_ns := 1, mn_name := name\<rparr>"

definition sample_pool :: cpool_info where
  "sample_pool = \<lparr>cp_int_count = 0, cp_integer = [], cp_uint_count = 0, cp_uinteger = [], cp_double_count = 0,
     cp_doubles = [], cp_string_count = 4, cp_strings = [0, 65, 66, 109], cp_namespace_count = 2,
     cp_namespaces = [\<lparr>ni_kind = 0, ni_name = 0\<rparr>, \<lparr>ni_kind = 0x08, ni_name = 0\<rparr>], cp_ns_set_count = 0,
     cp_ns_sets = [], cp_multiname_count = 4,
     cp_multinames = [multiname_new, sample_qname 1, sample_qname 2, sample_qname 3]\<rparr>"

definition sample_class :: "u32 \<Rightarrow> u32 \<Rightarrow> traits_info list \<Rightarrow> instance_info" where
  "sample_class name super ts = \<lparr>ii_name = name, ii_supername = super, ii_flags = 0, ii_protectedNs = 0,
     ii_interface_count = 0, ii_interfaces = [], ii_init = 0, ii_trait_count = of_nat (length ts), ii_traits = ts\<rparr>"

definition sample_classes :: "instance_info list" where
  "sample_classes = [sample_class 1 0 [], sample_class 2 1 [traits_new\<lparr>tr_name := 3, tr_kind := 0x21\<rparr>]]"

lemmas sample_simps = sample_pool_def sample_class_def sample_classes_def sample_qname_def multiname_new_def
  class_qname_def getMultiname_def getMultinameImpl_def ns_name_id_def getString_def rd_def

lemma sample_registered:
  "register_classes (\<lambda>_. 0) (\<lambda>_. []) sample_pool sample_classes \<lparr>ov_classes = Map.empty, ov_sets = []\<rparr>
    = Inr ([0, 0], \<lparr>ov_classes = [(65, 0) \<mapsto> 0, (66, 0) \<mapsto> 0], ov_sets = [[109]]\<rparr>)"
  by (simp add: sample_simps register_class_def new_set_def insert_override_def insert_set_def trait_method_name_def
      isInterface_def Override_def traits_new_def)

lemma sample_extends: "extends (\<lambda>_. 0) (\<lambda>_. []) sample_pool \<lparr>ov_classes = Map.empty, ov_sets = []\<rparr> sample_classes 1 0"
  by (simp add: extends_def sample_simps)

theorem overridden_method_found_witness:
  "hasoverriddenmethod [] [0, 0] \<lparr>ov_classes = [(65, 0) \<mapsto> 0, (66, 0) \<mapsto> 0], ov_sets = [[109]]\<rparr> (Some 0) 109"
proof (rule overridden_method_found [OF sample_registered])
  show "descends (\<lambda>_. 0) (\<lambda>_. []) sample_pool \<lparr>ov_classes = Map.empty, ov_sets = []\<rparr> sample_classes 1 0"
    using sample_extends by (blast intro: descends.intros)
  show "traits_new\<lparr>tr_name := 3, tr_kind := 0x21\<rparr> \<in> set (ii_traits (sample_classes ! 1))"
    by (simp add: sample_simps)
qed (simp_all add: ov_inv_def sample_simps isInterface_def Override_def traits_new_def trait_method_name_def)

end
