(* ===== verification/AbcFile.thy ===== *)
theory AbcFile
  imports AbcFormat AbcOverride
begin

text \<open>
  A whole ABC file: the constructor of \<open>ABCContext\<close> in \<open>scripting/abc.cpp\<close>, which reads the parts
  in order, registers the overridden methods of every instance as soon as it is read, and links
  every method body with its method signature. Of the tables of atoms it derives from the constant
  pool only the look-up of the names of the namespaces is part of the model, which may fail.
\<close>

section \<open>The file\<close>

record abc_file =
  abc_minor :: u16
  abc_major :: u16
  abc_pool :: cpool_info
  abc_methods :: "method_info_simple list"
  abc_metadata :: "metadata_info list"
  abc_instances :: "instance_info list"
  abc_classes :: "class_info list"
  abc_scripts :: "script_info list"
  abc_bodies :: "method_body_info list"

text \<open>
  What the constructor leaves besides the file: \<open>instances[i].overriddenmethods\<close>, the overridden
  methods of the application domain, and \<open>methods[m].body\<close> as the index of the body, where one is
  linked.
\<close>

record abc_context =
  ac_file :: abc_file
  ac_overridden :: "nat list"
  ac_overrides :: overrides
  ac_links :: "nat option list"

text \<open>A count followed by the vector.\<close>

definition in_counted :: "'a parser \<Rightarrow> 'a list parser" where
  "in_counted p s = bindE (in_u30 s) (\<lambda>(count, s). in_vector p (unat count) s)"

text \<open>The loop over the namespaces of the pool: the name of each is looked up.\<close>

definition namespace_names :: "cpool_info \<Rightarrow> u32 list res" where
  "namespace_names pool = mapE (\<lambda>ns. getString pool (ni_name ns)) (cp_namespaces pool)"

text \<open>The loop over the instances.\<close>

fun in_instances :: "(u8 list \<Rightarrow> u32) \<Rightarrow> (u32 \<Rightarrow> u8 list) \<Rightarrow> cpool_info \<Rightarrow> nat \<Rightarrow> overrides \<Rightarrow>
    (instance_info list \<times> nat list \<times> overrides) parser" where
  "in_instances intern str_of pool 0 ov s = Inr (([], [], ov), s)"
| "in_instances intern str_of pool (Suc n) ov s = bindE (in_instance_info s) (\<lambda>(v, s).
     bindE (register_class intern str_of pool v ov) (\<lambda>(p, ov).
     bindE (in_instances intern str_of pool n ov s) (\<lambda>((vs, ps, ov), s). Inr ((v # vs, p # ps, ov), s))))"

definition link_body :: "nat \<Rightarrow> u32 \<Rightarrow> nat option list \<Rightarrow> nat option list res" where
  "link_body i m links = bindE (rd links (unat m)) (\<lambda>b.
     if b \<noteq> None then Inl ParseError else Inr (links[unat m := Some i]))"

text \<open>The loop over the method bodies: body \<open>i\<close> is read and linked at once.\<close>

fun in_bodies :: "nat \<Rightarrow> nat \<Rightarrow> nat option list \<Rightarrow> (method_body_info list \<times> nat option list) parser" where
  "in_bodies 0 i links s = Inr (([], links), s)"
| "in_bodies (Suc n) i links s = bindE (in_method_body_info s) (\<lambda>(b, s).
     bindE (link_body i (mb_method b) links) (\<lambda>links.
     bindE (in_bodies n (Suc i) links s) (\<lambda>((bs, links), s). Inr ((b # bs, links), s))))"

definition in_abc :: "(u8 list \<Rightarrow> u32) \<Rightarrow> (u32 \<Rightarrow> u8 list) \<Rightarrow> overrides \<Rightarrow> abc_context parser" where
  "in_abc intern str_of ov s =
     bindE (in_u16 s) (\<lambda>(minor, s). bindE (in_u16 s) (\<lambda>(major, s).
     bindE (in_cpool_info intern s) (\<lambda>(pool, s). bindE (namespace_names pool) (\<lambda>_.
     bindE (in_counted in_method_info_simple s) (\<lambda>(methods, s).
     bindE (in_counted in_metadata_info s) (\<lambda>(metadata, s).
     bindE (in_u30 s) (\<lambda>(class_count, s).
     bindE (in_instances intern str_of pool (unat class_count) ov s) (\<lambda>((instances, ps, ov), s).
     bindE (in_vector in_class_info (unat class_count) s) (\<lambda>(classes, s).
     bindE (in_counted in_script_info s) (\<lambda>(scripts, s).
     bindE (in_u30 s) (\<lambda>(body_count, s).
     bindE (in_bodies (unat body_count) 0 (replicate (length methods) None) s) (\<lambda>((bodies, links), s).
       Inr (\<lparr>ac_file = \<lparr>abc_minor = minor, abc_major = major, abc_pool = pool, abc_methods = methods,
                abc_metadata = metadata, abc_instances = instances, abc_classes = classes,
                abc_scripts = scripts, abc_bodies = bodies\<rparr>,
              ac_overridden = ps, ac_overrides = ov, ac_links = links\<rparr>, s)))))))))))))"

section \<open>The remaining formats\<close>

definition counted_ok :: "('a \<Rightarrow> bool) \<Rightarrow> 'a list \<Rightarrow> bool" where
  "counted_ok ok xs \<longleftrightarrow> length xs < 2 ^ 30 \<and> list_all ok xs"

definition ser_counted :: "('a \<Rightarrow> u8 list) \<Rightarrow> 'a list \<Rightarrow> u8 list" where
  "ser_counted ser xs = enc_u32 (of_nat (length xs)) @ ser_list ser xs"

lemma count_ok: "length xs < 2 ^ 30 \<Longrightarrow> u30_ok (of_nat (length xs)) \<and> unat (of_nat (length xs) :: u32) = length xs"
  by (simp add: u30_ok_def word_less_nat_alt unat_of_nat)

context wire_format
begin

lemma counted: "counted_ok ok xs \<Longrightarrow> in_counted parse (ser_counted ser xs @ bs) = Inr (map val xs, bs)"
  using count_ok [of xs] vector [of xs bs] by (simp add: in_counted_def ser_counted_def counted_ok_def wire)

end

definition traits_ok :: "u32 \<Rightarrow> traits_info list \<Rightarrow> bool" where
  "traits_ok count ts \<longleftrightarrow> u30_ok count \<and> unat count = length ts \<and> list_all trait_ok ts"

definition ser_traits :: "u32 \<Rightarrow> traits_info list \<Rightarrow> u8 list" where
  "ser_traits count ts = enc_u32 count @ ser_list ser_trait ts"

lemma in_traits_ser [wire]: "traits_ok count ts \<Longrightarrow> in_traits (ser_traits count ts @ bs) = Inr ((count, ts), bs)"
  by (simp add: in_traits_def ser_traits_def traits_ok_def wire)

definition ser_script :: "script_info \<Rightarrow> u8 list" where
  "ser_script v = enc_u32 (sc_init v) @ ser_traits (sc_trait_count v) (sc_traits v)"

definition script_ok :: "script_info \<Rightarrow> bool" where
  "script_ok v \<longleftrightarrow> u30_ok (sc_init v) \<and> traits_ok (sc_trait_count v) (sc_traits v)"

interpretation script: wire_format in_script_info ser_script id script_ok
  by unfold_locales (simp add: in_script_info_def ser_script_def script_ok_def wire)

definition ser_class :: "class_info \<Rightarrow> u8 list" where
  "ser_class v = enc_u32 (cl_cinit v) @ ser_traits (cl_trait_count v) (cl_traits v)"

definition class_ok :: "class_info \<Rightarrow> bool" where
  "class_ok v \<longleftrightarrow> u30_ok (cl_cinit v) \<and> traits_ok (cl_trait_count v) (cl_traits v)"

interpretation class_format: wire_format in_class_info ser_class id class_ok
  by unfold_locales (simp add: in_class_info_def ser_class_def class_ok_def wire)

interpretation iface: wire_format in_interface enc_u32 id "\<lambda>i. u30_ok i \<and> i \<noteq> 0"
  by unfold_locales (simp add: in_interface_def wire)

definition ser_instance :: "instance_info \<Rightarrow> u8 list" where
  "ser_instance v = enc_u32 (ii_name v) @ enc_u32 (ii_supername v) @ [ii_flags v]
     @ (if ii_flags v AND ClassProtectedNs \<noteq> 0 then enc_u32 (ii_protectedNs v) else [])
     @ enc_u32 (ii_interface_count v) @ ser_list enc_u32 (ii_interfaces v) @ enc_u32 (ii_init v)
     @ ser_traits (ii_trait_count v) (ii_traits v)"

definition instance_ok :: "instance_info \<Rightarrow> bool" where
  "instance_ok v \<longleftrightarrow> u30_ok (ii_name v) \<and> u30_ok (ii_supername v) \<and> u30_ok (ii_protectedNs v)
     \<and> (ii_flags v AND ClassProtectedNs = 0 \<longrightarrow> ii_protectedNs v = 0)
     \<and> u30_ok (ii_interface_count v) \<and> unat (ii_interface_count v) = length (ii_interfaces v)
     \<and> list_all (\<lambda>i. u30_ok i \<and> i \<noteq> 0) (ii_interfaces v) \<and> u30_ok (ii_init v)
     \<and> traits_ok (ii_trait_count v) (ii_traits v)"

interpretation instance_format: wire_format in_instance_info ser_instance id instance_ok
proof
  fix v :: instance_info and bs
  assume ok: "instance_ok v"
  then show "in_instance_info (ser_instance v @ bs) = Inr (id v, bs)"
    by (cases "ii_flags v AND ClassProtectedNs = 0")
      (simp_all add: in_instance_info_def ser_instance_def instance_ok_def wire iface.vector [simplified])
qed

definition ser_body :: "method_body_info \<Rightarrow> u8 list" where
  "ser_body v = enc_u32 (mb_method v) @ enc_u32 (mb_max_stack v) @ enc_u32 (mb_local_count v)
     @ enc_u32 (mb_init_scope_depth v) @ enc_u32 (mb_max_scope_depth v) @ ser_string (mb_code v)
     @ ser_counted ser_exception (mb_exceptions v) @ ser_traits (mb_trait_count v) (mb_traits v)"

definition body_ok :: "method_body_info \<Rightarrow> bool" where
  "body_ok v \<longleftrightarrow> u30_ok (mb_method v) \<and> u30_ok (mb_max_stack v) \<and> u30_ok (mb_local_count v)
     \<and> u30_ok (mb_init_scope_depth v) \<and> u30_ok (mb_max_scope_depth v) \<and> string_ok (mb_code v)
     \<and> counted_ok exception_ok (mb_exceptions v) \<and> traits_ok (mb_trait_count v) (mb_traits v)
     \<and> mb_returnvaluepos v = ucast (mb_local_count v + 1)"

interpretation body: wire_format in_method_body_info ser_body id body_ok
proof
  fix v :: method_body_info and bs
  assume ok: "body_ok v"
  then have "u30_ok (of_nat (length (mb_code v)))" "unat (of_nat (length (mb_code v)) :: u32) = length (mb_code v)"
    "u30_ok (of_nat (length (mb_exceptions v)))" "unat (of_nat (length (mb_exceptions v)) :: u32) = length (mb_exceptions v)"
    using string_ok_count [of "mb_code v"] count_ok [of "mb_exceptions v"] by (simp_all add: body_ok_def counted_ok_def)
  with ok show "in_method_body_info (ser_body v @ bs) = Inr (id v, bs)"
    by (simp add: in_method_body_info_def ser_body_def body_ok_def ser_string_def ser_counted_def counted_ok_def wire)
qed

lemmas [wire] = script.counted [simplified] class_format.vector [simplified] instance_format.vector [simplified]
  metadata.counted [simplified] method_format.counted [simplified] body.parse_ser [simplified]

section \<open>The constant pool\<close>

text \<open>The strings of the pool are written from \<open>strs\<close>; in the pool they are ids.\<close>

definition ser_cpool :: "cpool_info \<Rightarrow> u8 list list \<Rightarrow> u8 list" where
  "ser_cpool c strs =
     enc_u32 (cp_int_count c) @ ser_list enc_u32 (tl (cp_integer c))
     @ enc_u32 (cp_uint_count c) @ ser_list enc_u32 (tl (cp_uinteger c))
     @ enc_u32 (cp_double_count c) @ ser_list bytes_le64 (tl (cp_doubles c))
     @ enc_u32 (cp_string_count c) @ ser_list ser_string (tl strs)
     @ enc_u32 (cp_namespace_count c) @ ser_list ser_namespace (tl (cp_namespaces c))
     @ enc_u32 (cp_ns_set_count c) @ ser_list ser_ns_set (tl (cp_ns_sets c))
     @ enc_u32 (cp_multiname_count c) @ ser_list ser_multiname (tl (cp_multinames c))"

text \<open>Element 0 of each vector has its initial value; for the strings this is the id 0.\<close>

definition cpool_ok :: "cpool_info \<Rightarrow> u8 list list \<Rightarrow> bool" where
  "cpool_ok c strs \<longleftrightarrow>
     u30_ok (cp_int_count c) \<and> pool_ok 0 (\<lambda>_. True) (cp_int_count c) (cp_integer c)
     \<and> u30_ok (cp_uint_count c) \<and> pool_ok 0 (\<lambda>_. True) (cp_uint_count c) (cp_uinteger c)
     \<and> u30_ok (cp_double_count c) \<and> pool_ok 0 (\<lambda>_. True) (cp_double_count c) (cp_doubles c)
     \<and> u30_ok (cp_string_count c) \<and> unat (cp_string_count c) = length strs \<and> list_all string_ok (tl strs)
     \<and> u30_ok (cp_namespace_count c)
     \<and> pool_ok \<lparr>ni_kind = 0, ni_name = 0\<rparr> namespace_ok (cp_namespace_count c) (cp_namespaces c)
     \<and> u30_ok (cp_ns_set_count c) \<and> pool_ok \<lparr>ss_count = 0, ss_ns = []\<rparr> ns_set_ok (cp_ns_set_count c) (cp_ns_sets c)
     \<and> u30_ok (cp_multiname_count c) \<and> pool_ok multiname_new multiname_ok (cp_multiname_count c) (cp_multinames c)"

text \<open>What the reader makes of it: the ids of the strings and the collapsed namespaces.\<close>

definition resolve :: "(u8 list \<Rightarrow> u32) \<Rightarrow> u8 list list \<Rightarrow> cpool_info \<Rightarrow> cpool_info" where
  "resolve intern strs c = c\<lparr>cp_strings := (if strs = [] then [] else 0 # map intern (tl strs)),
     cp_namespaces := map collapse (cp_namespaces c)\<rparr>"

lemma string_pool:
  assumes "list_all string_ok (tl strs)" and "unat count = length strs"
  shows "in_pool 0 (in_string_info intern) count (ser_list ser_string (tl strs) @ bs)
    = Inr (if strs = [] then [] else 0 # map intern (tl strs), bs)"
proof (cases strs)
  case Nil
  with assms(2) show ?thesis
    by (simp add: in_pool_def unat_0_iff ser_list_def)
next
  case (Cons x ys)
  with assms(2) have "unat count - 1 = length ys" "count \<noteq> 0"
    by auto
  with Cons assms(1) string_format.vector [of ys intern bs] show ?thesis
    by (simp add: in_pool_def)
qed

lemma collapse_new: "collapse \<lparr>ni_kind = 0, ni_name = 0\<rparr> = \<lparr>ni_kind = 0, ni_name = 0\<rparr>"
  by (simp add: collapse_def PACKAGE_NAMESPACE_def)

text \<open>The seven vectors, each as the reader finds it.\<close>

lemma cpool_vectors:
  assumes "cpool_ok c strs"
  shows "in_pool 0 in_s32 (cp_int_count c) (ser_list enc_u32 (tl (cp_integer c)) @ bs) = Inr (cp_integer c, bs)"
    and "in_pool 0 in_u32 (cp_uint_count c) (ser_list enc_u32 (tl (cp_uinteger c)) @ bs) = Inr (cp_uinteger c, bs)"
    and "in_pool 0 in_d64 (cp_double_count c) (ser_list bytes_le64 (tl (cp_doubles c)) @ bs) = Inr (cp_doubles c, bs)"
    and "in_pool 0 (in_string_info intern) (cp_string_count c) (ser_list ser_string (tl strs) @ bs)
      = Inr (cp_strings (resolve intern strs c), bs)"
    and "in_pool \<lparr>ni_kind = 0, ni_name = 0\<rparr> in_namespace_info (cp_namespace_count c)
        (ser_list ser_namespace (tl (cp_namespaces c)) @ bs) = Inr (map collapse (cp_namespaces c), bs)"
    and "in_pool \<lparr>ss_count = 0, ss_ns = []\<rparr> in_ns_set_info (cp_ns_set_count c)
        (ser_list ser_ns_set (tl (cp_ns_sets c)) @ bs) = Inr (cp_ns_sets c, bs)"
    and "in_pool multiname_new in_multiname_info (cp_multiname_count c)
        (ser_list ser_multiname (tl (cp_multinames c)) @ bs) = Inr (cp_multinames c, bs)"
  using assms s32.pool [of 0 "cp_int_count c" "cp_integer c" 0 bs] u32.pool [of 0 "cp_uint_count c" "cp_uinteger c" 0 bs]
    d64.pool [of 0 "cp_double_count c" "cp_doubles c" 0 bs] string_pool [of strs "cp_string_count c" intern bs]
    namespace.pool [OF _ collapse_new, of "cp_namespace_count c" "cp_namespaces c" bs]
    ns_set.pool [of "\<lparr>ss_count = 0, ss_ns = []\<rparr>" "cp_ns_set_count c" "cp_ns_sets c" "\<lparr>ss_count = 0, ss_ns = []\<rparr>" bs]
    multiname.pool [of multiname_new "cp_multiname_count c" "cp_multinames c" multiname_new bs]
  by (simp_all add: cpool_ok_def resolve_def)

lemma in_cpool_ser [wire]:
  assumes "cpool_ok c strs"
  shows "in_cpool_info intern (ser_cpool c strs @ bs) = Inr (resolve intern strs c, bs)"
proof -
  have ok: "u30_ok (cp_int_count c)" "u30_ok (cp_uint_count c)" "u30_ok (cp_double_count c)" "u30_ok (cp_string_count c)"
    "u30_ok (cp_namespace_count c)" "u30_ok (cp_ns_set_count c)" "u30_ok (cp_multiname_count c)"
    using assms by (simp_all add: cpool_ok_def)
  have "in_cpool_info intern (ser_cpool c strs @ bs)
      = Inr (c\<lparr>cp_strings := cp_strings (resolve intern strs c), cp_namespaces := map collapse (cp_namespaces c)\<rparr>, bs)"
    by (simp add: in_cpool_info_def ser_cpool_def ok cpool_vectors [OF assms] u30.parse_ser [simplified])
  then show ?thesis
    by (simp add: resolve_def)
qed

section \<open>Linking\<close>

fun link_all :: "nat \<Rightarrow> method_body_info list \<Rightarrow> nat option list \<Rightarrow> nat option list" where
  "link_all i [] links = links"
| "link_all i (b # bs) links = link_all (Suc i) bs (links[unat (mb_method b) := Some i])"

definition methods_of :: "method_body_info list \<Rightarrow> nat list" where
  "methods_of bodies = map (\<lambda>b. unat (mb_method b)) bodies"

lemma length_link_all [simp]: "length (link_all i bs links) = length links"
  by (induction bs arbitrary: i links) simp_all

lemma link_all_other: "m \<notin> set (methods_of bs) \<Longrightarrow> link_all i bs links ! m = links ! m"
  by (induction bs arbitrary: i links) (auto simp: methods_of_def)

lemma link_all_nth:
  assumes "distinct (methods_of bs)" and "\<forall>m\<in>set (methods_of bs). m < length links" and "k < length bs"
  shows "link_all i bs links ! (methods_of bs ! k) = Some (i + k)"
  using assms
proof (induction bs arbitrary: i k links)
  case (Cons b bs)
  show ?case
  proof (cases k)
    case 0
    with Cons.prems show ?thesis
      using link_all_other [of "unat (mb_method b)" bs "Suc i" "links[unat (mb_method b) := Some i]"]
      by (simp add: methods_of_def)
  next
    case (Suc j)
    with Cons show ?thesis
      by (simp add: methods_of_def)
  qed
qed simp

text \<open>The loop succeeds exactly when no method gets two bodies.\<close>

lemma in_bodies_ser:
  assumes "list_all body_ok bodies" and "distinct (methods_of bodies)"
    and "\<forall>m\<in>set (methods_of bodies). m < length links \<and> links ! m = None"
  shows "in_bodies (length bodies) i links (ser_list ser_body bodies @ bs) = Inr ((bodies, link_all i bodies links), bs)"
  using assms
proof (induction bodies arbitrary: i links)
  case Nil
  then show ?case
    by (simp add: ser_list_def)
next
  case (Cons b bodies)
  let ?m = "unat (mb_method b)"
  have "link_body i (mb_method b) links = Inr (links[?m := Some i])"
    using Cons.prems(3) by (simp add: link_body_def rd_def methods_of_def)
  moreover have "\<forall>m\<in>set (methods_of bodies). m < length (links[?m := Some i]) \<and> links[?m := Some i] ! m = None"
    using Cons.prems(2,3) by (auto simp: methods_of_def nth_list_update)
  ultimately show ?case
    using Cons by (simp add: ser_list_def methods_of_def wire)
qed

lemma in_bodies_links:
  assumes "in_bodies n i links s = Inr ((bodies, links'), s')"
  shows "length bodies = n \<and> links' = link_all i bodies links \<and> distinct (methods_of bodies)
    \<and> (\<forall>m\<in>set (methods_of bodies). m < length links \<and> links ! m = None)"
  using assms
proof (induction n arbitrary: i links s bodies)
  case 0
  then show ?case
    by (auto simp: methods_of_def)
next
  case (Suc n)
  then obtain b s1 links1 bodies1 where b: "bodies = b # bodies1" "in_bodies n (Suc i) links1 s1 = Inr ((bodies1, links'), s')"
    and link: "link_body i (mb_method b) links = Inr links1"
    by (auto elim!: bindE_InrE)
  then have "unat (mb_method b) < length links" "links ! unat (mb_method b) = None"
    "links1 = links[unat (mb_method b) := Some i]"
    by (auto simp: link_body_def rd_def split: if_splits elim!: bindE_InrE)
  with Suc.IH [OF b(2)] show ?case
    by (auto simp: b(1) methods_of_def nth_list_update split: if_splits)
qed

section \<open>Instances\<close>

lemma in_instances_ser:
  assumes "list_all instance_ok vs" and "register_classes intern str_of pool vs ov = Inr (ps, ov')"
  shows "in_instances intern str_of pool (length vs) ov (ser_list ser_instance vs @ bs) = Inr ((vs, ps, ov'), bs)"
  using assms
proof (induction vs arbitrary: ov ps)
  case Nil
  then show ?case
    by (simp add: ser_list_def)
next
  case (Cons v vs)
  then obtain p ov1 ps1 where v: "register_class intern str_of pool v ov = Inr (p, ov1)"
    and vs: "register_classes intern str_of pool vs ov1 = Inr (ps1, ov')" and ps: "ps = p # ps1"
    by (auto elim!: bindE_InrE)
  with Cons.prems(1) Cons.IH [OF _ vs] instance_format.parse_ser [of v] show ?case
    by (simp add: ser_list_def)
qed

lemma in_instances_registers:
  assumes "in_instances intern str_of pool n ov s = Inr ((vs, ps, ov'), s')"
  shows "length vs = n \<and> register_classes intern str_of pool vs ov = Inr (ps, ov')"
  using assms by (induction n arbitrary: ov s vs ps) (auto elim!: bindE_InrE)

section \<open>The whole file\<close>

definition ser_abc :: "abc_file \<Rightarrow> u8 list list \<Rightarrow> u8 list" where
  "ser_abc f strs = bytes_le16 (abc_minor f) @ bytes_le16 (abc_major f) @ ser_cpool (abc_pool f) strs
     @ ser_counted ser_method_info (abc_methods f) @ ser_counted ser_metadata (abc_metadata f)
     @ ser_counted ser_instance (abc_instances f) @ ser_list ser_class (abc_classes f)
     @ ser_counted ser_script (abc_scripts f) @ ser_counted ser_body (abc_bodies f)"

definition abc_ok :: "abc_file \<Rightarrow> u8 list list \<Rightarrow> bool" where
  "abc_ok f strs \<longleftrightarrow> cpool_ok (abc_pool f) strs
     \<and> list_all (\<lambda>ns. unat (ni_name ns) < length strs) (cp_namespaces (abc_pool f)) \<and> counted_ok method_info_ok (abc_methods f)
     \<and> counted_ok metadata_ok (abc_metadata f) \<and> counted_ok instance_ok (abc_instances f)
     \<and> length (abc_classes f) = length (abc_instances f) \<and> list_all class_ok (abc_classes f)
     \<and> counted_ok script_ok (abc_scripts f) \<and> counted_ok body_ok (abc_bodies f)
     \<and> distinct (methods_of (abc_bodies f))
     \<and> list_all (\<lambda>m. m < length (abc_methods f)) (methods_of (abc_bodies f))"

lemma in_u16_le [wire]: "in_u16 (bytes_le16 w @ bs) = Inr (w, bs)"
  by (simp add: in_u16_def in_read_def)

lemma mapE_ok: "list_all (\<lambda>x. \<exists>y. f x = Inr y) xs \<Longrightarrow> \<exists>ys. mapE f xs = Inr ys"
  by (induction xs) auto

lemma namespace_names_ok:
  assumes "list_all (\<lambda>ns. unat (ni_name ns) < length strs) (cp_namespaces c)"
  shows "\<exists>ys. namespace_names (resolve intern strs c) = Inr ys"
  unfolding namespace_names_def
proof (rule mapE_ok)
  have "length (cp_strings (resolve intern strs c)) = length strs"
    by (cases strs) (simp_all add: resolve_def)
  with assms show "list_all (\<lambda>ns. \<exists>y. getString (resolve intern strs c) (ni_name ns) = Inr y)
      (cp_namespaces (resolve intern strs c))"
    by (auto simp: resolve_def list_all_iff getString_def rd_def collapse_def)
qed

lemma in_abc_ser:
  assumes ok: "abc_ok f strs"
    and reg: "register_classes intern str_of (resolve intern strs (abc_pool f)) (abc_instances f) ov = Inr (ps, ov')"
  shows "in_abc intern str_of ov (ser_abc f strs @ bs) = Inr (\<lparr>ac_file = f\<lparr>abc_pool := resolve intern strs (abc_pool f)\<rparr>,
    ac_overridden = ps, ac_overrides = ov',
    ac_links = link_all 0 (abc_bodies f) (replicate (length (abc_methods f)) None)\<rparr>, bs)"
proof -
  have n: "u30_ok (of_nat (length (abc_instances f)))" "unat (of_nat (length (abc_instances f)) :: u32) = length (abc_instances f)"
    "u30_ok (of_nat (length (abc_bodies f)))" "unat (of_nat (length (abc_bodies f)) :: u32) = length (abc_bodies f)"
    using ok count_ok [of "abc_instances f"] count_ok [of "abc_bodies f"] by (simp_all add: abc_ok_def counted_ok_def)
  have i: "in_instances intern str_of (resolve intern strs (abc_pool f)) (length (abc_instances f)) ov
      (ser_list ser_instance (abc_instances f) @ cs) = Inr ((abc_instances f, ps, ov'), cs)" for cs
    using in_instances_ser [OF _ reg] ok by (simp add: abc_ok_def counted_ok_def)
  have c: "in_vector in_class_info (length (abc_instances f)) (ser_list ser_class (abc_classes f) @ cs)
      = Inr (abc_classes f, cs)" for cs
    using ok class_format.vector [of "abc_classes f" cs] by (simp add: abc_ok_def)
  have b: "in_bodies (length (abc_bodies f)) 0 (replicate (length (abc_methods f)) None) (ser_list ser_body (abc_bodies f) @ cs)
      = Inr ((abc_bodies f, link_all 0 (abc_bodies f) (replicate (length (abc_methods f)) None)), cs)" for cs
    using ok in_bodies_ser [of "abc_bodies f" "replicate (length (abc_methods f)) None" 0 cs]
    by (simp add: abc_ok_def counted_ok_def list_all_iff)
  obtain names where "namespace_names (resolve intern strs (abc_pool f)) = Inr names"
    using ok namespace_names_ok [of strs "abc_pool f" intern] by (auto simp: abc_ok_def)
  with ok show ?thesis
    by (simp add: in_abc_def ser_abc_def abc_ok_def ser_counted_def [of ser_instance] ser_counted_def [of ser_body] n i c b wire)
qed

section \<open>Properties\<close>

lemma in_vector_length: "in_vector p n s = Inr (xs, s') \<Longrightarrow> length xs = n"
  by (induction n arbitrary: s xs) (auto elim!: bindE_InrE)

lemma methods_of_append [simp]: "methods_of (xs @ ys) = methods_of xs @ methods_of ys"
  by (simp add: methods_of_def)

lemma in_bodies_append:
  "in_bodies (n + m) i links s = bindE (in_bodies n i links s) (\<lambda>((xs, links), s).
     bindE (in_bodies m (i + n) links s) (\<lambda>((ys, links), s). Inr ((xs @ ys, links), s)))"
  by (induction n arbitrary: i links s) (auto simp: bindE_def split: sum.split prod.split)

lemma ser_list_append [simp]: "ser_list ser (xs @ ys) = ser_list ser xs @ ser_list ser ys"
  by (simp add: ser_list_def)

text \<open>Links in both directions.\<close>

definition linked :: "method_body_info list \<Rightarrow> nat option list \<Rightarrow> bool" where
  "linked bodies links \<longleftrightarrow> (\<forall>k < length bodies. methods_of bodies ! k < length links
       \<and> links ! (methods_of bodies ! k) = Some k)
     \<and> (\<forall>m < length links. \<forall>k. links ! m = Some k \<longrightarrow> k < length bodies \<and> methods_of bodies ! k = m)"

lemma link_all_linked:
  assumes "distinct (methods_of bodies)" and "\<forall>m\<in>set (methods_of bodies). m < n"
  shows "linked bodies (link_all 0 bodies (replicate n None))"
proof -
  have len [simp]: "length (methods_of bodies) = length bodies"
    by (simp add: methods_of_def)
  have fwd: "link_all 0 bodies (replicate n None) ! (methods_of bodies ! k) = Some k" if "k < length bodies" for k
    using link_all_nth [of bodies "replicate n None" k 0] assms that by simp
  have "k < length bodies \<and> methods_of bodies ! k = m"
    if "m < n" "link_all 0 bodies (replicate n None) ! m = Some k" for m k
  proof (cases "m \<in> set (methods_of bodies)")
    case True
    then obtain j where "j < length bodies" "methods_of bodies ! j = m"
      by (auto simp: in_set_conv_nth)
    with fwd [of j] that show ?thesis
      by simp
  next
    case False
    with that link_all_other [of m bodies 0 "replicate n None"] show ?thesis
      by simp
  qed
  with fwd assms show ?thesis
    by (simp add: linked_def)
qed

text \<open>C8: Loading an ABC file that is laid out as the format says yields exactly the structures that were
  written, with the strings of the pool interned and package namespaces turned into namespaces,
  leaves the bytes after the file, and links every method with its body.\<close>

theorem abc_roundtrip:
  assumes "abc_ok f strs"
    and "register_classes intern str_of (resolve intern strs (abc_pool f)) (abc_instances f) ov = Inr (ps, ov')"
  shows "\<exists>links. in_abc intern str_of ov (ser_abc f strs @ bs)
      = Inr (\<lparr>ac_file = f\<lparr>abc_pool := resolve intern strs (abc_pool f)\<rparr>, ac_overridden = ps, ac_overrides = ov',
              ac_links = links\<rparr>, bs)
    \<and> length links = length (abc_methods f) \<and> linked (abc_bodies f) links"
proof -
  have "linked (abc_bodies f) (link_all 0 (abc_bodies f) (replicate (length (abc_methods f)) None))"
    using assms(1) by (intro link_all_linked) (simp_all add: abc_ok_def list_all_iff)
  then show ?thesis
    using in_abc_ser [OF assms, of bs] by simp
qed

text \<open>C10: A context that comes out of the loading, from a stream that throws at its end, has consistent links: a method has
  the body that names it and no other, no two bodies name one method, there is one class for each instance, and the overridden
  methods are those of all instances in order. This is for files in which every body names a method of the table: the code does
  not check the index (abc.cpp:723), and a body outside of the table is an access outside of the vector, undefined in C++, for
  which the model yields no context (see \<open>bodies_rejected\<close>).\<close>

theorem abc_links:
  assumes "in_abc intern str_of ov s = Inr (c, s')"
  shows "length (ac_links c) = length (abc_methods (ac_file c)) \<and> linked (abc_bodies (ac_file c)) (ac_links c)
    \<and> length (abc_classes (ac_file c)) = length (abc_instances (ac_file c))
    \<and> register_classes intern str_of (abc_pool (ac_file c)) (abc_instances (ac_file c)) ov
        = Inr (ac_overridden c, ac_overrides c)"
proof -
  obtain minor major pool methods md instances ps ov' classes scripts n bodies links s1 s2 s3 s4 s5 nb
    where inst: "in_instances intern str_of pool n ov s1 = Inr ((instances, ps, ov'), s2)"
      and cls: "in_vector in_class_info n s2 = Inr (classes, s3)"
      and bodies: "in_bodies nb 0 (replicate (length methods) None) s4 = Inr ((bodies, links), s5)"
      and c: "c = \<lparr>ac_file = \<lparr>abc_minor = minor, abc_major = major, abc_pool = pool, abc_methods = methods,
                abc_metadata = md, abc_instances = instances, abc_classes = classes,
                abc_scripts = scripts, abc_bodies = bodies\<rparr>,
              ac_overridden = ps, ac_overrides = ov', ac_links = links\<rparr>"
    using assms unfolding in_abc_def
    by (simp only: bindE_Inr_conv split_paired_Ex prod.case sum.inject prod.inject)
      (elim exE conjE, rule that, assumption, assumption, assumption, erule sym)
  have links: "length bodies = nb" "links = link_all 0 bodies (replicate (length methods) None)" "distinct (methods_of bodies)"
    "\<forall>m\<in>set (methods_of bodies). m < length methods"
    using in_bodies_links [OF bodies] by auto
  have "linked bodies links"
    unfolding links(2) by (rule link_all_linked [OF links(3,4)])
  moreover have "length links = length methods"
    by (simp add: links(2))
  ultimately show ?thesis
    using in_instances_registers [OF inst] in_vector_length [OF cls] by (simp only: c abc_context.simps abc_file.simps)
qed

text \<open>C11: A body for a method that already has one ends the loading with a \<open>ParseException\<close>, whatever
  follows it; a body that names a method outside of the table is an access out of the bounds of
  \<open>methods\<close>.\<close>

theorem bodies_rejected:
  assumes "list_all body_ok (bodies @ [b])" and "distinct (methods_of bodies)"
    and "list_all (\<lambda>m. m < n) (methods_of bodies)"
    and "unat (mb_method b) \<in> set (methods_of bodies) \<or> n \<le> unat (mb_method b)"
  shows "in_bodies (length bodies + Suc j) 0 (replicate n None) (ser_list ser_body (bodies @ [b]) @ bs)
    = Inl (if unat (mb_method b) < n then ParseError else OutOfBounds)"
proof -
  let ?links = "link_all 0 bodies (replicate n None)"
  have read: "in_bodies (length bodies) 0 (replicate n None) (ser_list ser_body bodies @ ser_body b @ bs)
      = Inr ((bodies, ?links), ser_body b @ bs)"
    using assms(1-3) by (intro in_bodies_ser) (simp_all add: list_all_iff)
  have taken: "?links ! unat (mb_method b) \<noteq> None" if m: "unat (mb_method b) < n"
  proof -
    obtain k where k: "k < length bodies" "methods_of bodies ! k = unat (mb_method b)"
      using assms(4) m by (auto simp: in_set_conv_nth methods_of_def)
    moreover have "linked bodies ?links"
      using assms(2,3) by (intro link_all_linked) (simp_all add: list_all_iff)
    ultimately show ?thesis
      by (metis linked_def option.distinct(1))
  qed
  have "link_body (length bodies) (mb_method b) ?links = Inl (if unat (mb_method b) < n then ParseError else OutOfBounds)"
    using taken by (auto simp: link_body_def rd_def)
  with assms(1) read show ?thesis
    unfolding in_bodies_append by (simp add: wire ser_list_def [of _ "[b]"])
qed

text \<open>A small file: one method without parameters whose body is \<open>returnvoid\<close>.\<close>

definition sample_method :: method_info_simple where
  "sample_method = \<lparr>mi_param_count = 0, mi_return_type = 0, mi_param_type = [], mi_name = 0, mi_flags = 0,
     mi_option_count = 0, mi_options = [], mi_param_names = []\<rparr>"

definition sample_body :: "u32 \<Rightarrow> method_body_info" where
  "sample_body m = \<lparr>mb_method = m, mb_max_stack = 1, mb_local_count = 1, mb_init_scope_depth = 0,
     mb_max_scope_depth = 1, mb_returnvaluepos = 2, mb_code = [0x47], mb_exceptions = [], mb_trait_count = 0,
     mb_traits = []\<rparr>"

definition sample_abc :: abc_file where
  "sample_abc = \<lparr>abc_minor = 16, abc_major = 46, abc_pool = sample_pool, abc_methods = [sample_method], abc_metadata = [],
     abc_instances = [], abc_classes = [], abc_scripts = [], abc_bodies = [sample_body 0]\<rparr>"

lemma sample_body_ok: "m < 0x40000000 \<Longrightarrow> body_ok (sample_body m)"
  by (simp add: body_ok_def sample_body_def u30_ok_def string_ok_def counted_ok_def traits_ok_def)

lemma sample_abc_ok: "abc_ok sample_abc [[], [65], [66], [109]]"
  by (simp add: abc_ok_def sample_abc_def sample_body_ok methods_of_def counted_ok_def sample_method_def method_info_ok_def
      u30_ok_def cpool_ok_def pool_ok_def string_ok_def sample_pool_def sample_qname_def multiname_new_def multiname_ok_def
      namespace_ok_def namespace_kinds_def) (simp add: sample_body_def)

theorem abc_roundtrip_witness:
  "\<exists>links. in_abc (\<lambda>_. 7) (\<lambda>_. []) \<lparr>ov_classes = Map.empty, ov_sets = []\<rparr> (ser_abc sample_abc [[], [65], [66], [109]] @ [1])
      = Inr (\<lparr>ac_file = sample_abc\<lparr>abc_pool := resolve (\<lambda>_. 7) [[], [65], [66], [109]] sample_pool\<rparr>, ac_overridden = [],
              ac_overrides = \<lparr>ov_classes = Map.empty, ov_sets = []\<rparr>, ac_links = links\<rparr>, [1])
    \<and> length links = 1 \<and> linked [sample_body 0] links"
  using abc_roundtrip [OF sample_abc_ok, of "\<lambda>_. 7" "\<lambda>_. []" "\<lparr>ov_classes = Map.empty, ov_sets = []\<rparr>" "[]"
      "\<lparr>ov_classes = Map.empty, ov_sets = []\<rparr>" "[1]"]
  by (simp add: sample_abc_def)

theorem abc_links_witness:
  "\<exists>c s'. in_abc (\<lambda>_. 7) (\<lambda>_. []) \<lparr>ov_classes = Map.empty, ov_sets = []\<rparr> (ser_abc sample_abc [[], [65], [66], [109]]) = Inr (c, s')
    \<and> linked (abc_bodies (ac_file c)) (ac_links c)"
proof -
  have "\<exists>c s'. in_abc (\<lambda>_. 7) (\<lambda>_. []) \<lparr>ov_classes = Map.empty, ov_sets = []\<rparr> (ser_abc sample_abc [[], [65], [66], [109]]) = Inr (c, s')"
    using in_abc_ser [OF sample_abc_ok, of "\<lambda>_. 7" "\<lambda>_. []" "\<lparr>ov_classes = Map.empty, ov_sets = []\<rparr>" "[]"
        "\<lparr>ov_classes = Map.empty, ov_sets = []\<rparr>" "[]"]
    by (simp add: sample_abc_def)
  then show ?thesis
    using abc_links by blast
qed

theorem bodies_rejected_witness:
  "in_bodies (Suc (Suc 0)) 0 (replicate 2 None) (ser_list ser_body [sample_body 1, sample_body 1]) = Inl ParseError"
  using bodies_rejected [of "[sample_body 1]" "sample_body 1" 2 0 "[]"] sample_body_ok [of 1]
  by (simp add: methods_of_def sample_body_def del: in_bodies.simps replicate.simps)

end
