(* ===== verification/AbcSound.thy ===== *)
theory AbcSound
  imports AbcFile "HOL-Library.Sublist"
begin

text \<open>
  What the readers of ABC structures guarantee whatever bytes they get: a structure comes out only
  if it satisfies the conditions of the format, and what is left of the stream is a suffix of it.
\<close>

section \<open>Sound readers\<close>

locale sound_reader =
  fixes parse :: "'a parser" and ok :: "'a \<Rightarrow> bool"
  assumes sound: "parse s = Inr (x, s') \<Longrightarrow> ok x \<and> suffix s' s"
begin

lemma vector: "in_vector parse n s = Inr (xs, s') \<Longrightarrow> length xs = n \<and> list_all ok xs \<and> suffix s' s"
proof (induction n arbitrary: s xs)
  case (Suc n)
  then obtain x s1 ys where "parse s = Inr (x, s1)" "in_vector parse n s1 = Inr (ys, s')" "xs = x # ys"
    by (auto simp: bindE_pair_conv)
  with Suc.IH [of s1 ys] sound [of s x s1] show ?case
    by (auto intro: suffix_order.trans)
qed simp

lemma pool: "in_pool d parse count s = Inr (xs, s') \<Longrightarrow> pool_ok d ok count xs \<and> suffix s' s"
  by (auto simp: in_pool_def pool_ok_def bindE_pair_conv unat_gt_0 Suc_diff_1 split: if_splits dest!: vector)

end

text \<open>The law in the form that \<open>auto\<close> uses to take a reader apart.\<close>

context sound_reader
begin

lemma parts: "parse s = Inr (x, s') \<Longrightarrow> ok x \<and> (\<exists>pre. s = pre @ s')"
  using sound [of s x s'] by (auto simp: suffix_def)

lemma vector_parts: "in_vector parse n s = Inr (xs, s') \<Longrightarrow> length xs = n \<and> list_all ok xs \<and> (\<exists>pre. s = pre @ s')"
  using vector [of n s xs s'] by (auto simp: suffix_def)

lemma pool_parts: "in_pool d parse count s = Inr (xs, s') \<Longrightarrow> pool_ok d ok count xs \<and> (\<exists>pre. s = pre @ s')"
  using pool [of d count s xs s'] by (auto simp: suffix_def)

end

section \<open>Numbers\<close>

interpretation byte_reader: sound_reader in_byte "\<lambda>_. True"
proof
  fix s :: "u8 list" and x s'
  show "in_byte s = Inr (x, s') \<Longrightarrow> True \<and> suffix s' s"
    by (cases s) (auto simp: suffix_def)
qed

lemma in_read_sound: "in_read n s = Inr (x, s') \<Longrightarrow> length x = n \<and> suffix s' s"
  by (auto simp: in_read_def suffix_drop split: if_splits)

lemma u32_loop_sound: "u32_loop in_byte n v s = Inr (x, s') \<Longrightarrow> suffix s' s"
proof (induction n arbitrary: v s)
  case (Suc n)
  then obtain t s1 where t: "in_byte s = Inr (t, s1)"
    by (auto simp: bindE_pair_conv)
  have "suffix s' s1"
    using Suc.prems Suc.IH t by (auto simp: Let_def split: if_splits)
  then show ?case
    using byte_reader.sound [OF t] by (blast intro: suffix_order.trans)
qed simp

interpretation u32_reader: sound_reader in_u32 "\<lambda>_. True"
  by unfold_locales (auto simp: in_u32_def dest: u32_loop_sound)

interpretation s32_reader: sound_reader in_s32 "\<lambda>_. True"
  by unfold_locales (auto simp: in_s32_def dest: u32_loop_sound)

lemma u30_mask_iff: "v AND 0xc0000000 = (0 :: u32) \<Longrightarrow> v < 0x40000000"
proof -
  assume a: "v AND 0xc0000000 = 0"
  have m: "NOT (mask 30) = (0xc0000000 :: u32)"
    by (simp add: mask_eq_exp_minus_1 not_eq_complement)
  have "v = (v AND mask 30) OR (v AND NOT (mask 30))"
    by (simp add: bit_eq_iff bit_simps) blast
  with a m have "v = take_bit 30 v"
    by (simp add: take_bit_eq_mask)
  then have "unat v < 2 ^ 30"
    by (metis take_bit_nat_less_exp unsigned_take_bit_eq)
  then show ?thesis
    by (simp add: word_less_nat_alt)
qed

interpretation u30_reader: sound_reader in_u30 u30_ok
  by unfold_locales (auto simp: in_u30_def bindE_pair_conv u30_ok_def u30_mask_iff split: if_splits dest: u32_reader.sound)

lemma suffix_self [intro!, simp]: "suffix s s"
  by simp

lemmas number_parts = u30_reader.parts byte_reader.parts u30_reader.vector_parts

lemma in_read_parts: "in_read n s = Inr (x, s') \<Longrightarrow> length x = n \<and> (\<exists>pre. s = pre @ s')"
  using in_read_sound [of n s x s'] by (auto simp: suffix_def)

lemma u30_ok_0 [simp]: "u30_ok 0"
  by (simp add: u30_ok_def)

lemma u30_ok_nat: "u30_ok v \<longleftrightarrow> unat v < 1073741824"
  by (simp add: u30_ok_def word_less_nat_alt)

lemma unat_u8_less [simp]: "unat (w :: u8) < 256"
  using unsigned_less [of w] by simp

context sound_reader
begin

lemma counted_parts: "in_counted parse s = Inr (xs, s') \<Longrightarrow> counted_ok ok xs \<and> (\<exists>pre. s = pre @ s')"
  by (auto simp: in_counted_def counted_ok_def bindE_pair_conv u30_ok_def word_less_nat_alt dest!: vector_parts u30_reader.parts)

end

section \<open>Structures\<close>

interpretation d64_reader: sound_reader in_d64 "\<lambda>_. True"
  by unfold_locales (auto simp: in_d64_def bindE_pair_conv dest: in_read_sound)

interpretation string_reader: sound_reader "in_string_info intern" "\<lambda>_. True" for intern
  by unfold_locales (auto simp: in_string_info_def bindE_pair_conv suffix_appendI dest!: number_parts in_read_parts)

interpretation namespace_reader: sound_reader in_namespace_info namespace_ok
  by unfold_locales (auto simp: in_namespace_info_def namespace_ok_def namespace_kinds_def NAMESPACE_def PACKAGE_NAMESPACE_def
      bindE_pair_conv suffix_appendI split: if_splits dest!: number_parts)

interpretation ns_set_reader: sound_reader in_ns_set_info ns_set_ok
  by unfold_locales (auto simp: in_ns_set_info_def ns_set_ok_def bindE_pair_conv suffix_appendI dest!: number_parts)

interpretation multiname_reader: sound_reader in_multiname_info multiname_ok
proof
  fix s v s'
  assume "in_multiname_info s = Inr (v, s')"
  then obtain k s1 where k: "in_byte s = Inr (k, s1)" and rest: "in_multiname_info (k # s1) = Inr (v, s')"
    by (auto simp: in_multiname_info_def bindE_pair_conv)
  have "multiname_ok v \<and> suffix s' s1"
  proof (cases "k \<in> {0x07, 0x0d, 0x0f, 0x10, 0x11, 0x12, 0x09, 0x0e, 0x1b, 0x1c, 0x1d}")
    case False
    with rest show ?thesis
      by (simp add: in_multiname_info_def)
  next
    case True
    then have "k = 0x07 \<or> k = 0x0d \<or> k = 0x0f \<or> k = 0x10 \<or> k = 0x11 \<or> k = 0x12 \<or> k = 0x09 \<or> k = 0x0e \<or> k = 0x1b
        \<or> k = 0x1c \<or> k = 0x1d"
      by simp
    then show ?thesis
      by (elim disjE; use rest in \<open>clarsimp simp: in_multiname_info_def multiname_new_def bindE_pair_conv dest!: number_parts\<close>)
        (simp_all add: multiname_ok_def suffix_appendI)
  qed
  then show "multiname_ok v \<and> suffix s' s"
    using byte_reader.sound [OF k] suffix_order.trans by blast
qed

interpretation option_reader: sound_reader in_option_detail option_ok
  by unfold_locales (auto simp: in_option_detail_def option_ok_def bindE_pair_conv suffix_appendI dest!: number_parts)

interpretation exception_reader: sound_reader in_exception_info exception_ok
  by unfold_locales (auto simp: in_exception_info_def exception_ok_def bindE_pair_conv suffix_appendI dest!: number_parts)

interpretation method_reader: sound_reader in_method_info_simple method_info_ok
  by unfold_locales (auto simp: in_method_info_simple_def method_info_ok_def bindE_pair_conv suffix_appendI
      split: if_splits dest!: number_parts option_reader.vector_parts)

lemma map_items: "length ks = length vs \<Longrightarrow> map (it_key \<circ> (\<lambda>(k, v). \<lparr>it_key = k, it_value = v\<rparr>)) (zip ks vs) = ks
    \<and> map (it_value \<circ> (\<lambda>(k, v). \<lparr>it_key = k, it_value = v\<rparr>)) (zip ks vs) = vs"
  by (induction ks vs rule: list_induct2) simp_all

interpretation metadata_reader: sound_reader in_metadata_info metadata_ok
  by unfold_locales (auto simp: in_metadata_info_def metadata_ok_def bindE_pair_conv suffix_appendI map_items
      simp del: list.pred_map dest!: number_parts)

text \<open>A trait at its three stages: the name and kind, the data of the kind, the metadata.\<close>

lemma in_trait_data_parts:
  assumes "in_trait_data (traits_new\<lparr>tr_name := name, tr_kind := kind\<rparr>) s = Inr (v, s')" and "u30_ok name"
  shows "trait_ok (v\<lparr>tr_metadata_count := 0, tr_metadata := []\<rparr>) \<and> tr_kind v = kind \<and> (\<exists>pre. s = pre @ s')
    \<and> tr_metadata_count v = 0 \<and> tr_metadata v = []"
proof -
  consider "kind AND 0xf = 0 \<or> kind AND 0xf = 6" | "kind AND 0xf = 4" | "kind AND 0xf = 5"
    | "kind AND 0xf = 1 \<or> kind AND 0xf = 2 \<or> kind AND 0xf = 3"
    | "kind AND 0xf \<notin> {0, 1, 2, 3, 4, 5, 6}"
    by auto
  then show ?thesis
    by cases (use assms in \<open>(elim disjE)?, auto simp: in_trait_data_def traits_new_def bindE_pair_conv trait_ok_def Let_def
      split: if_splits dest!: number_parts\<close>)
qed

interpretation trait_reader: sound_reader in_traits_info trait_ok
proof
  fix s v s'
  assume "in_traits_info s = Inr (v, s')"
  then obtain name s1 kind s2 w s3 where parts: "in_u30 s = Inr (name, s1)" "in_byte s1 = Inr (kind, s2)"
    and data: "in_trait_data (traits_new\<lparr>tr_name := name, tr_kind := kind\<rparr>) s2 = Inr (w, s3)"
    and md: "in_trait_metadata w s3 = Inr (v, s')"
    by (auto simp: in_traits_info_def bindE_pair_conv)
  note parts = u30_reader.parts [OF parts(1)] byte_reader.parts [OF parts(2)]
  note data = in_trait_data_parts [OF data conjunct1 [OF parts(1)]]
  have "trait_ok v \<and> (\<exists>pre. s3 = pre @ s')"
  proof (cases "kind AND 0x40 = 0")
    case True
    with md data have "v = w\<lparr>tr_metadata_count := 0, tr_metadata := []\<rparr>" "s' = s3"
      by (simp_all add: in_trait_metadata_def)
    with data show ?thesis
      by simp
  next
    case False
    with md data obtain count md s4 where m: "in_u30 s3 = Inr (count, s4)" "in_vector in_u30 (unat count) s4 = Inr (md, s')"
      and v: "v = w\<lparr>tr_metadata_count := count, tr_metadata := md\<rparr>"
      by (auto simp: in_trait_metadata_def bindE_pair_conv)
    have "trait_ok v"
      using data u30_reader.parts [OF m(1)] u30_reader.vector_parts [OF m(2)] False by (simp add: trait_ok_def Let_def v)
    with u30_reader.parts [OF m(1)] u30_reader.vector_parts [OF m(2)] show ?thesis
      by auto
  qed
  with parts data show "trait_ok v \<and> suffix s' s"
    by (auto simp: suffix_appendI)
qed

lemma in_traits_parts: "in_traits s = Inr ((count, ts), s') \<Longrightarrow> traits_ok count ts \<and> (\<exists>pre. s = pre @ s')"
  by (auto simp: in_traits_def traits_ok_def bindE_pair_conv dest!: u30_reader.parts trait_reader.vector_parts)

interpretation script_reader: sound_reader in_script_info script_ok
  by unfold_locales (auto simp: in_script_info_def script_ok_def bindE_pair_conv suffix_appendI dest!: number_parts in_traits_parts)

interpretation class_reader: sound_reader in_class_info class_ok
  by unfold_locales (auto simp: in_class_info_def class_ok_def bindE_pair_conv suffix_appendI dest!: number_parts in_traits_parts)

interpretation iface_reader: sound_reader in_interface "\<lambda>i. u30_ok i \<and> i \<noteq> 0"
  by unfold_locales (auto simp: in_interface_def bindE_pair_conv suffix_appendI split: if_splits dest!: number_parts)

interpretation instance_reader: sound_reader in_instance_info instance_ok
  by unfold_locales (auto simp: in_instance_info_def instance_ok_def bindE_pair_conv suffix_appendI
      split: if_splits dest!: number_parts iface_reader.vector_parts in_traits_parts)

interpretation body_reader: sound_reader in_method_body_info body_ok
  by unfold_locales (auto simp: in_method_body_info_def body_ok_def bindE_pair_conv suffix_appendI string_ok_def counted_ok_def u30_ok_nat dest!: number_parts in_read_parts exception_reader.vector_parts in_traits_parts)

section \<open>Whole files\<close>

definition cpool_wf :: "cpool_info \<Rightarrow> bool" where
  "cpool_wf c \<longleftrightarrow>
     u30_ok (cp_int_count c) \<and> pool_ok 0 (\<lambda>_. True) (cp_int_count c) (cp_integer c)
     \<and> u30_ok (cp_uint_count c) \<and> pool_ok 0 (\<lambda>_. True) (cp_uint_count c) (cp_uinteger c)
     \<and> u30_ok (cp_double_count c) \<and> pool_ok 0 (\<lambda>_. True) (cp_double_count c) (cp_doubles c)
     \<and> u30_ok (cp_string_count c) \<and> pool_ok 0 (\<lambda>_. True) (cp_string_count c) (cp_strings c)
     \<and> u30_ok (cp_namespace_count c)
     \<and> pool_ok \<lparr>ni_kind = 0, ni_name = 0\<rparr> namespace_ok (cp_namespace_count c) (cp_namespaces c)
     \<and> u30_ok (cp_ns_set_count c) \<and> pool_ok \<lparr>ss_count = 0, ss_ns = []\<rparr> ns_set_ok (cp_ns_set_count c) (cp_ns_sets c)
     \<and> u30_ok (cp_multiname_count c) \<and> pool_ok multiname_new multiname_ok (cp_multiname_count c) (cp_multinames c)"

interpretation cpool_reader: sound_reader "in_cpool_info intern" cpool_wf for intern
proof
  fix s c s'
  assume "in_cpool_info intern s = Inr (c, s')"
  then show "cpool_wf c \<and> suffix s' s"
    unfolding in_cpool_info_def
    by (clarsimp simp: bindE_pair_conv cpool_wf_def suffix_appendI dest!: u30_reader.parts s32_reader.pool_parts
        u32_reader.pool_parts d64_reader.pool_parts string_reader.pool_parts namespace_reader.pool_parts
        ns_set_reader.pool_parts multiname_reader.pool_parts)
qed

lemma in_instances_parts:
  "in_instances intern str_of pool n ov s = Inr ((vs, ps, ov'), s') \<Longrightarrow> length vs = n \<and> list_all instance_ok vs \<and> (\<exists>pre. s = pre @ s')"
proof (induction n arbitrary: ov s vs ps)
  case (Suc n)
  then obtain v s1 p ov1 vs1 ps1 where v: "in_instance_info s = Inr (v, s1)"
    and vs: "in_instances intern str_of pool n ov1 s1 = Inr ((vs1, ps1, ov'), s')" and "vs = v # vs1"
    by (auto simp: bindE_pair_conv)
  with Suc.IH [OF vs] instance_reader.parts [OF v] show ?case
    by auto
qed simp

lemma in_bodies_parts:
  "in_bodies n i links s = Inr ((bs, links'), s') \<Longrightarrow> length bs = n \<and> list_all body_ok bs \<and> (\<exists>pre. s = pre @ s')"
proof (induction n arbitrary: i links s bs)
  case (Suc n)
  then obtain b s1 links1 bs1 where b: "in_method_body_info s = Inr (b, s1)"
    and bs: "in_bodies n (Suc i) links1 s1 = Inr ((bs1, links'), s')" and "bs = b # bs1"
    by (auto simp: bindE_pair_conv bindE_Inr_conv)
  with Suc.IH [OF bs] body_reader.parts [OF b] show ?case
    by auto
qed simp

definition abc_wf :: "abc_file \<Rightarrow> bool" where
  "abc_wf f \<longleftrightarrow> cpool_wf (abc_pool f) \<and> counted_ok method_info_ok (abc_methods f)
     \<and> counted_ok metadata_ok (abc_metadata f) \<and> counted_ok instance_ok (abc_instances f)
     \<and> length (abc_classes f) = length (abc_instances f) \<and> list_all class_ok (abc_classes f)
     \<and> counted_ok script_ok (abc_scripts f) \<and> counted_ok body_ok (abc_bodies f)"

lemma in_u16_parts: "in_u16 s = Inr (x, s') \<Longrightarrow> \<exists>pre. s = pre @ s'"
  by (auto simp: in_u16_def bindE_pair_conv dest: in_read_parts)

text \<open>A trait of a kind that does not exist is read as one without fields.\<close>

lemma unknown_trait_kind:
  "in_traits_info [1, 0x0f, 9] = Inr (traits_new\<lparr>tr_name := 1, tr_kind := 0x0f\<rparr>, [9])"
  by code_simp

text \<open>C9: Whatever bytes are loaded, from a stream that throws at its end (as the stream of a SWF file does), every
  structure that comes out satisfies \<open>abc_wf\<close>: each count is below 2^30 and equal to the length of its vector, each
  index read as \<open>u30\<close> is below 2^30, the kinds of namespaces and names are those of the format, names and traits have
  only the fields that their kind reads (the others are zero or empty), element 0 of each vector of the constant pool has its
  initial value, the interfaces of an instance are not zero, and the bytes left over are a suffix of the bytes given. The kind of
  a trait itself is not checked: the kinds 7 to 15, which the code only logs (\<open>unknown_trait_kind\<close>), pass without any
  field.\<close>

theorem abc_type:
  assumes "in_abc intern str_of ov s = Inr (c, s')"
  shows "abc_wf (ac_file c) \<and> suffix s' s"
proof -
  have "abc_wf (ac_file c) \<and> (\<exists>pre. s = pre @ s')"
    using assms unfolding in_abc_def
    by (clarsimp simp: bindE_Inr_conv abc_wf_def counted_ok_def u30_ok_nat dest!: in_u16_parts cpool_reader.parts
        method_reader.counted_parts metadata_reader.counted_parts in_instances_parts u30_reader.parts
        class_reader.vector_parts script_reader.counted_parts in_bodies_parts)
  then show ?thesis
    by (auto simp: suffix_appendI)
qed

theorem abc_type_witness:
  "\<exists>c. in_abc (\<lambda>_. 7) (\<lambda>_. []) \<lparr>ov_classes = Map.empty, ov_sets = []\<rparr> (ser_abc sample_abc [[], [65], [66], [109]] @ [1]) = Inr (c, [1])
    \<and> abc_wf (ac_file c)"
proof -
  have "\<exists>c. in_abc (\<lambda>_. 7) (\<lambda>_. []) \<lparr>ov_classes = Map.empty, ov_sets = []\<rparr>
      (ser_abc sample_abc [[], [65], [66], [109]] @ [1]) = Inr (c, [1])"
    using in_abc_ser [OF sample_abc_ok, of "\<lambda>_. 7" "\<lambda>_. []" "\<lparr>ov_classes = Map.empty, ov_sets = []\<rparr>" "[]"
        "\<lparr>ov_classes = Map.empty, ov_sets = []\<rparr>" "[1]"]
    by (simp add: sample_abc_def)
  then show ?thesis
    using abc_type by blast
qed

end
