(* ===== verification/ArraySort.thy ===== *)
theory ArraySort
  imports LS_Prelude "HOL-Library.Multiset"
begin

text \<open>
  The quicksort of \<open>Array.sort\<close> and \<open>Array.sortOn\<close>, \<open>qsort\<close> in \<open>scripting/toplevel/Array.cpp\<close>: the
  iterative algorithm with a stack of 33 frames that the code uses because a comparison function of
  a script need not be a consistent order.

  Indices are the \<open>uint32_t\<close> of the code and wrap around; every access to the vector and to the
  stack of frames is checked.
\<close>

section \<open>Comparisons\<close>

text \<open>
  The code only asks for the sign of the \<open>number_t\<close> a comparison returns; \<open>CmpNaN\<close> stands for a
  result that is not a number, for which every question has the answer no. A comparison may have
  a state of its own, that of the script.
\<close>

datatype cmp_result = CmpLess | CmpEqual | CmpGreater | CmpNaN

type_synonym ('a, 's) comparator = "'a \<Rightarrow> 'a \<Rightarrow> 's \<Rightarrow> cmp_result \<times> 's"

definition is_gt :: "cmp_result \<Rightarrow> bool" where "is_gt r \<longleftrightarrow> r = CmpGreater"

definition is_le :: "cmp_result \<Rightarrow> bool" where "is_le r \<longleftrightarrow> r = CmpLess \<or> r = CmpEqual"

definition is_ge :: "cmp_result \<Rightarrow> bool" where "is_ge r \<longleftrightarrow> r = CmpGreater \<or> r = CmpEqual"

section \<open>The algorithm\<close>

definition compare_at :: "('a, 's) comparator \<Rightarrow> 'a list \<Rightarrow> u32 \<Rightarrow> u32 \<Rightarrow> 's \<Rightarrow> (cmp_result \<times> 's) res" where
  "compare_at cmp v i j s = bindE (rd v (unat i)) (\<lambda>a. bindE (rd v (unat j)) (\<lambda>b. Inr (cmp a b s)))"

definition swap_at :: "u32 \<Rightarrow> u32 \<Rightarrow> 'a list \<Rightarrow> 'a list res" where
  "swap_at i j v = bindE (rd v (unat i)) (\<lambda>a. bindE (rd v (unat j)) (\<lambda>b. Inr (v[unat i := b, unat j := a])))"

text \<open>\<open>if (comp.compare(v[i],v[j]) > 0) std::swap(v[i],v[j])\<close>; also tells whether it swapped.\<close>

definition order_at :: "('a, 's) comparator \<Rightarrow> u32 \<Rightarrow> u32 \<Rightarrow> 'a list \<Rightarrow> 's \<Rightarrow> (bool \<times> 'a list \<times> 's) res" where
  "order_at cmp i j v s = bindE (compare_at cmp v i j s) (\<lambda>(r, s).
     if is_gt r then bindE (swap_at i j v) (\<lambda>v. Inr (True, v, s)) else Inr (False, v, s))"

text \<open>Partitions of fewer than four elements.\<close>

definition sort_small :: "('a, 's) comparator \<Rightarrow> u32 \<Rightarrow> u32 \<Rightarrow> 'a list \<Rightarrow> 's \<Rightarrow> ('a list \<times> 's) res" where
  "sort_small cmp size' lo v s =
     (if size' = 3 then
        bindE (order_at cmp lo (lo + 1) v s) (\<lambda>(_, v, s).
        bindE (order_at cmp (lo + 1) (lo + 2) v s) (\<lambda>(swapped, v, s).
          if swapped then bindE (order_at cmp lo (lo + 1) v s) (\<lambda>(_, v, s). Inr (v, s)) else Inr (v, s)))
      else if size' = 2 then bindE (order_at cmp lo (lo + 1) v s) (\<lambda>(_, v, s). Inr (v, s))
      else Inr (v, s))"

text \<open>The two inner do-while loops; the first argument of each bounds the rounds.\<close>

fun scan_left :: "nat \<Rightarrow> ('a, 's) comparator \<Rightarrow> 'a list \<Rightarrow> u32 \<Rightarrow> u32 \<Rightarrow> u32 \<Rightarrow> 's \<Rightarrow> (u32 \<times> 's) res" where
  "scan_left 0 cmp v lo hi left s = Inl OutOfFuel"
| "scan_left (Suc n) cmp v lo hi left s =
     (let left = left + 1
      in if left \<le> hi then bindE (compare_at cmp v left lo s) (\<lambda>(r, s).
           if is_le r then scan_left n cmp v lo hi left s else Inr (left, s))
         else Inr (left, s))"

fun scan_right :: "nat \<Rightarrow> ('a, 's) comparator \<Rightarrow> 'a list \<Rightarrow> u32 \<Rightarrow> u32 \<Rightarrow> 's \<Rightarrow> (u32 \<times> 's) res" where
  "scan_right 0 cmp v lo right s = Inl OutOfFuel"
| "scan_right (Suc n) cmp v lo right s =
     (let right = right - 1
      in if right > lo then bindE (compare_at cmp v right lo s) (\<lambda>(r, s).
           if is_ge r then scan_right n cmp v lo right s else Inr (right, s))
         else Inr (right, s))"

text \<open>The loop that moves both ends towards each other.\<close>

fun partition_loop :: "nat \<Rightarrow> ('a, 's) comparator \<Rightarrow> u32 \<Rightarrow> u32 \<Rightarrow> u32 \<Rightarrow> u32 \<Rightarrow> 'a list \<Rightarrow> 's \<Rightarrow>
    (u32 \<times> u32 \<times> 'a list \<times> 's) res" where
  "partition_loop 0 cmp lo hi left right v s = Inl OutOfFuel"
| "partition_loop (Suc n) cmp lo hi left right v s =
     bindE (scan_left (length v + 1) cmp v lo hi left s) (\<lambda>(left, s).
     bindE (scan_right (length v + 1) cmp v lo right s) (\<lambda>(right, s).
       if right < left then Inr (left, right, v, s)
       else bindE (swap_at left right v) (\<lambda>v. partition_loop n cmp lo hi left right v s)))"

text \<open>The element in the middle becomes the pivot and is moved between the partitions at the end.\<close>

definition partition_at :: "('a, 's) comparator \<Rightarrow> u32 \<Rightarrow> u32 \<Rightarrow> 'a list \<Rightarrow> 's \<Rightarrow> (u32 \<times> u32 \<times> 'a list \<times> 's) res" where
  "partition_at cmp lo hi v s =
     (let size' = hi - lo + 1; pivot = lo + size' div 2
      in bindE (swap_at pivot lo v) (\<lambda>v.
         bindE (partition_loop (length v + 1) cmp lo hi lo (hi + 1) v s) (\<lambda>(left, right, v, s).
         bindE (swap_at lo right v) (\<lambda>v. Inr (left, right, v, s)))))"

text \<open>The stack of frames.\<close>

type_synonym frames = "(u32 \<times> u32) list"

definition STACK_FRAMES :: nat where "STACK_FRAMES = 33"

definition push_frame :: "u32 \<Rightarrow> u32 \<Rightarrow> frames \<Rightarrow> frames res" where
  "push_frame lo hi stk = (if length stk < STACK_FRAMES then Inr ((lo, hi) # stk) else Inl OutOfBounds)"

text \<open>From \<open>recurse\<close> on. The first argument bounds the number of partitions that are sorted.\<close>

fun qsort_loop :: "nat \<Rightarrow> ('a, 's) comparator \<Rightarrow> frames \<Rightarrow> u32 \<Rightarrow> u32 \<Rightarrow> 'a list \<Rightarrow> 's \<Rightarrow> ('a list \<times> 's) res"
  and pop_frame :: "nat \<Rightarrow> ('a, 's) comparator \<Rightarrow> frames \<Rightarrow> 'a list \<Rightarrow> 's \<Rightarrow> ('a list \<times> 's) res" where
  "qsort_loop 0 cmp stk lo hi v s = Inl OutOfFuel"
| "qsort_loop (Suc n) cmp stk lo hi v s =
     (let size' = hi - lo + 1
      in if size' < 4 then bindE (sort_small cmp size' lo v s) (\<lambda>(v, s). pop_frame n cmp stk v s)
         else bindE (partition_at cmp lo hi v s) (\<lambda>(left, right, v, s).
           if right - 1 - lo \<ge> hi - left then
             bindE (if lo + 1 < right then push_frame lo (right - 1) stk else Inr stk) (\<lambda>stk.
               if left < hi then qsort_loop n cmp stk left hi v s else pop_frame n cmp stk v s)
           else
             bindE (if left < hi then push_frame left hi stk else Inr stk) (\<lambda>stk.
               if lo + 1 < right then qsort_loop n cmp stk lo (right - 1) v s else pop_frame n cmp stk v s)))"
| "pop_frame n cmp [] v s = Inr (v, s)"
| "pop_frame n cmp ((lo, hi) # stk) v s = qsort_loop n cmp stk lo hi v s"

definition qsort_array :: "('a, 's) comparator \<Rightarrow> u32 \<Rightarrow> u32 \<Rightarrow> 'a list \<Rightarrow> 's \<Rightarrow> ('a list \<times> 's) res" where
  "qsort_array cmp lo hi v s = (if lo \<ge> hi then Inr (v, s) else qsort_loop (length v + 1) cmp [] lo hi v s)"

text \<open>The call \<open>qsort (tmp, c, 0, tmp.size () - 1)\<close>.\<close>

definition sort_vector :: "('a, 's) comparator \<Rightarrow> 'a list \<Rightarrow> 's \<Rightarrow> ('a list \<times> 's) res" where
  "sort_vector cmp v s = qsort_array cmp 0 (of_nat (length v) - 1) v s"

section \<open>Rearranging a part of a vector\<close>

text \<open>\<open>v'\<close> is \<open>v\<close> with the elements from \<open>a\<close> to \<open>b - 1\<close> in another order.\<close>

definition perm_in :: "nat \<Rightarrow> nat \<Rightarrow> 'a list \<Rightarrow> 'a list \<Rightarrow> bool" where
  "perm_in a b v v' \<longleftrightarrow> mset v' = mset v \<and> take a v' = take a v \<and> drop b v' = drop b v"

lemma perm_in_refl [simp]: "perm_in a b v v"
  by (simp add: perm_in_def)

lemma perm_in_trans [trans]: "perm_in a b u v \<Longrightarrow> perm_in a b v w \<Longrightarrow> perm_in a b u w"
  by (simp add: perm_in_def)

lemma perm_in_length: "perm_in a b v v' \<Longrightarrow> length v' = length v"
  unfolding perm_in_def by (metis size_mset)

lemma perm_in_mono:
  assumes "perm_in a b v v'" and "a' \<le> a" and "b \<le> b'"
  shows "perm_in a' b' v v'"
proof -
  have "take a' v' = take a' (take a v')" "take a' v = take a' (take a v)"
    "drop b' v' = drop (b' - b) (drop b v')" "drop b' v = drop (b' - b) (drop b v)"
    using assms(2,3) by (simp_all add: min_absorb1)
  with assms(1) show ?thesis
    unfolding perm_in_def by metis
qed

lemma perm_in_outside:
  assumes "perm_in a b v v'" and "k < a \<or> b \<le> k" and "k < length v"
  shows "v' ! k = v ! k"
proof (cases "k < a")
  case True
  then have "v' ! k = take a v' ! k" "v ! k = take a v ! k"
    by simp_all
  with assms(1) show ?thesis
    by (simp add: perm_in_def)
next
  case False
  with assms(2,3) perm_in_length [OF assms(1)] have "v' ! k = drop b v' ! (k - b)" "v ! k = drop b v ! (k - b)"
    by simp_all
  with assms(1) show ?thesis
    by (simp add: perm_in_def)
qed

text \<open>What holds of all elements of the part holds of all of them afterwards.\<close>

lemma perm_in_all:
  assumes p: "perm_in a b v v'" and P: "\<And>k. a \<le> k \<Longrightarrow> k < b \<Longrightarrow> k < length v \<Longrightarrow> P (v ! k)"
    and k: "a \<le> k" "k < b" "k < length v"
  shows "P (v' ! k)"
proof -
  define mid where "mid u = take (b - a) (drop a u)" for u :: "'a list"
  have split: "u = take a u @ mid u @ drop b u" for u :: "'a list"
    using append_take_drop_id [of "b - a" "drop a u"] append_take_drop_id [of a u] k by (simp add: mid_def)
  have "mset (take a v') + mset (mid v') + mset (drop b v') = mset (take a v) + mset (mid v) + mset (drop b v)"
    using split [of v] split [of v'] p by (metis mset_append perm_in_def union_assoc)
  with p have "mset (mid v') = mset (mid v)"
    by (simp add: perm_in_def)
  moreover have "v' ! k \<in> set (mid v')"
    using k perm_in_length [OF p] by (auto simp: mid_def in_set_conv_nth intro!: exI [of _ "k - a"])
  ultimately have "v' ! k \<in> set (mid v)"
    by (metis set_mset_mset)
  then obtain j where "j < b - a" "a + j < length v" "v' ! k = v ! (a + j)"
    by (auto simp: mid_def in_set_conv_nth)
  with P [of "a + j"] show ?thesis
    by simp
qed

lemma perm_in_swap:
  assumes "a \<le> i" and "i < b" and "a \<le> j" and "j < b" and "b \<le> length v"
  shows "perm_in a b v (v[i := v ! j, j := v ! i])"
  using assms mset_swap [of j v i] unfolding perm_in_def by simp

section \<open>Comparisons that respect an order\<close>

text \<open>
  What sorting needs of a comparison: on the elements that satisfy \<open>ok\<close> it never contradicts the
  preorder \<open>le\<close>. Every comparison respects the preorder that relates everything.
\<close>

locale respects_order =
  fixes cmp :: "('a, 's) comparator" and le :: "'a \<Rightarrow> 'a \<Rightarrow> bool" and ok :: "'a \<Rightarrow> bool"
  assumes le_refl: "le a a" and le_trans: "le a b \<Longrightarrow> le b c \<Longrightarrow> le a c"
    and not_gt_le: "ok a \<Longrightarrow> ok b \<Longrightarrow> fst (cmp a b s) \<noteq> CmpGreater \<Longrightarrow> le a b"
    and not_less_ge: "ok a \<Longrightarrow> ok b \<Longrightarrow> fst (cmp a b s) \<noteq> CmpLess \<Longrightarrow> le b a"
begin

definition all_ok :: "'a list \<Rightarrow> bool" where
  "all_ok v \<longleftrightarrow> (\<forall>x\<in>set v. ok x)"

lemma all_ok_nth: "all_ok v \<Longrightarrow> k < length v \<Longrightarrow> ok (v ! k)"
  by (simp add: all_ok_def)

lemma perm_in_ok: "perm_in a b v v' \<Longrightarrow> all_ok v \<Longrightarrow> all_ok v'"
  unfolding perm_in_def all_ok_def by (metis mset_eq_setD)

definition sorted_in :: "nat \<Rightarrow> nat \<Rightarrow> 'a list \<Rightarrow> bool" where
  "sorted_in a b v \<longleftrightarrow> (\<forall>i j. a \<le> i \<longrightarrow> i < j \<longrightarrow> j < b \<longrightarrow> le (v ! i) (v ! j))"

lemma compare_at_ok:
  assumes "unat i < length v" and "unat j < length v"
  shows "compare_at cmp v i j s = Inr (cmp (v ! unat i) (v ! unat j) s)"
  using assms by (simp add: compare_at_def rd_def)

lemma swap_at_ok:
  assumes "unat i < length v" and "unat j < length v"
  shows "swap_at i j v = Inr (v[unat i := v ! unat j, unat j := v ! unat i])"
  using assms by (simp add: swap_at_def rd_def)

lemma scan_left_ok:
  assumes "unat lo \<le> unat left" and "unat left \<le> unat hi" and "unat hi < length v" and "length v < 2 ^ 32"
    and "unat hi - unat left < n" and ok: "all_ok v"
  shows "\<exists>left' s'. scan_left n cmp v lo hi left s = Inr (left', s') \<and> unat left < unat left' \<and> unat left' \<le> unat hi + 1
    \<and> (\<forall>k. unat left < k \<longrightarrow> k < unat left' \<longrightarrow> le (v ! k) (v ! unat lo))
    \<and> (unat left' \<le> unat hi \<longrightarrow> le (v ! unat lo) (v ! unat left'))"
  using assms
proof (induction n arbitrary: left s)
  case (Suc n)
  let ?l = "left + 1"
  have l: "unat ?l = unat left + 1"
    using Suc.prems by (simp add: unat_word_ariths)
  show ?case
  proof (cases "unat ?l \<le> unat hi")
    case False
    with l Suc.prems show ?thesis
      by (auto simp: Let_def word_le_nat_alt intro!: exI [of _ "?l"])
  next
    case True
    obtain r s1 where r: "cmp (v ! unat ?l) (v ! unat lo) s = (r, s1)"
      by fastforce
    have oks: "ok (v ! unat ?l)" "ok (v ! unat lo)"
      using True Suc.prems by (auto intro!: all_ok_nth [OF ok])
    have c: "compare_at cmp v ?l lo s = Inr (r, s1)"
      using True Suc.prems r by (subst compare_at_ok) auto
    show ?thesis
    proof (cases "is_le r")
      case False
      then have "le (v ! unat lo) (v ! unat ?l)"
        using not_less_ge [OF oks, of s] r by (auto simp: is_le_def)
      with False c l True show ?thesis
        by (auto simp: Let_def word_le_nat_alt intro!: exI [of _ "?l"])
    next
      case le: True
      then have here: "le (v ! unat ?l) (v ! unat lo)"
        using not_gt_le [OF oks, of s] r by (auto simp: is_le_def)
      obtain left' s' where rec: "scan_left n cmp v lo hi ?l s1 = Inr (left', s')" "unat ?l < unat left'"
        "unat left' \<le> unat hi + 1" "\<forall>k. unat ?l < k \<longrightarrow> k < unat left' \<longrightarrow> le (v ! k) (v ! unat lo)"
        "unat left' \<le> unat hi \<longrightarrow> le (v ! unat lo) (v ! unat left')"
        using Suc.IH [OF _ True Suc.prems(3,4), of s1] Suc.prems(1,5,6) True l by fastforce
      have "le (v ! k) (v ! unat lo)" if "unat left < k" "k < unat left'" for k
        using rec(4) here that l by (cases "k = unat ?l") auto
      with rec le c l True show ?thesis
        by (auto simp: Let_def word_le_nat_alt)
    qed
  qed
qed simp

lemma scan_right_ok:
  assumes "unat lo < unat right" and "unat right \<le> length v" and "unat right - unat lo \<le> n" and ok: "all_ok v"
  shows "\<exists>right' s'. scan_right n cmp v lo right s = Inr (right', s') \<and> unat right' < unat right \<and> unat lo \<le> unat right'
    \<and> (\<forall>k. unat right' < k \<longrightarrow> k < unat right \<longrightarrow> le (v ! unat lo) (v ! k))
    \<and> (unat lo < unat right' \<longrightarrow> le (v ! unat right') (v ! unat lo))"
  using assms
proof (induction n arbitrary: right s)
  case (Suc n)
  let ?r = "right - 1"
  have nz: "right \<noteq> 0"
    using Suc.prems by auto
  have l: "unat ?r = unat right - 1"
    using nz by (rule unat_minus_one)
  show ?case
  proof (cases "unat lo < unat ?r")
    case False
    with l Suc.prems show ?thesis
      by (auto simp: Let_def word_less_nat_alt intro!: exI [of _ "?r"])
  next
    case True
    obtain r s1 where r: "cmp (v ! unat ?r) (v ! unat lo) s = (r, s1)"
      by fastforce
    have oks: "ok (v ! unat ?r)" "ok (v ! unat lo)"
      using True Suc.prems l by (auto intro!: all_ok_nth [OF ok])
    have c: "compare_at cmp v ?r lo s = Inr (r, s1)"
      using True Suc.prems r l by (subst compare_at_ok) auto
    show ?thesis
    proof (cases "is_ge r")
      case False
      then have "le (v ! unat ?r) (v ! unat lo)"
        using not_gt_le [OF oks, of s] r by (auto simp: is_ge_def)
      with False c l True Suc.prems show ?thesis
        by (auto simp: Let_def word_less_nat_alt intro!: exI [of _ "?r"])
    next
      case ge: True
      then have here: "le (v ! unat lo) (v ! unat ?r)"
        using not_less_ge [OF oks, of s] r by (auto simp: is_ge_def)
      obtain right' s' where rec: "scan_right n cmp v lo ?r s1 = Inr (right', s')" "unat right' < unat ?r"
        "unat lo \<le> unat right'" "\<forall>k. unat right' < k \<longrightarrow> k < unat ?r \<longrightarrow> le (v ! unat lo) (v ! k)"
        "unat lo < unat right' \<longrightarrow> le (v ! unat right') (v ! unat lo)"
        using Suc.IH [OF True, of s1] Suc.prems(2,3,4) True l by fastforce
      have "le (v ! unat lo) (v ! k)" if "unat right' < k" "k < unat right" for k
        using rec(4) here that l by (cases "k = unat ?r") auto
      with rec ge c l True show ?thesis
        by (auto simp: Let_def word_less_nat_alt)
    qed
  qed
qed simp

text \<open>
  The loop keeps the elements up to \<open>left\<close> at most the pivot and those from \<open>right\<close> on at least
  the pivot, which stays at \<open>lo\<close>.
\<close>

definition split_at :: "nat \<Rightarrow> nat \<Rightarrow> nat \<Rightarrow> nat \<Rightarrow> 'a list \<Rightarrow> bool" where
  "split_at lo hi l r v \<longleftrightarrow> (\<forall>k. lo < k \<longrightarrow> k < l \<longrightarrow> le (v ! k) (v ! lo)) \<and> (\<forall>k. r < k \<longrightarrow> k \<le> hi \<longrightarrow> le (v ! lo) (v ! k))"

lemma partition_loop_ok:
  assumes "unat lo \<le> unat left" and "unat left \<le> unat hi" and "unat left \<le> unat right" and "unat lo < unat right"
    and "unat right \<le> unat hi + 1" and "unat hi < length v" and "length v < 2 ^ 32" and "unat right - unat left < n"
    and "split_at (unat lo) (unat hi) (unat left + 1) (unat right - 1) v" and "all_ok v"
  shows "\<exists>left' right' v' s'. partition_loop n cmp lo hi left right v s = Inr (left', right', v', s')
    \<and> perm_in (unat lo + 1) (unat hi + 1) v v' \<and> unat right' < unat left' \<and> unat lo \<le> unat right' \<and> unat right' \<le> unat hi
    \<and> unat lo < unat left' \<and> unat left' \<le> unat hi + 1 \<and> split_at (unat lo) (unat hi) (unat left') (unat right') v'"
  using assms
proof (induction n arbitrary: left right v s)
  case (Suc n)
  obtain l s1 where l: "scan_left (length v + 1) cmp v lo hi left s = Inr (l, s1)" "unat left < unat l" "unat l \<le> unat hi + 1"
    "\<forall>k. unat left < k \<longrightarrow> k < unat l \<longrightarrow> le (v ! k) (v ! unat lo)" "unat l \<le> unat hi \<longrightarrow> le (v ! unat lo) (v ! unat l)"
    using scan_left_ok [of lo left hi v "length v + 1" s] Suc.prems by fastforce
  obtain r s2 where r: "scan_right (length v + 1) cmp v lo right s1 = Inr (r, s2)" "unat r < unat right" "unat lo \<le> unat r"
    "\<forall>k. unat r < k \<longrightarrow> k < unat right \<longrightarrow> le (v ! unat lo) (v ! k)" "unat lo < unat r \<longrightarrow> le (v ! unat r) (v ! unat lo)"
    using scan_right_ok [of lo right v "length v + 1" s1] Suc.prems by fastforce
  have left_ok: "le (v ! k) (v ! unat lo)" if "unat lo < k" "k < unat l" for k
    using Suc.prems(9) l(4) that by (cases "k \<le> unat left") (auto simp: split_at_def)
  have right_ok: "le (v ! unat lo) (v ! k)" if "unat r < k" "k \<le> unat hi" for k
    using Suc.prems(9) r(4) that by (cases "unat right \<le> k") (auto simp: split_at_def)
  have split: "split_at (unat lo) (unat hi) (unat l) (unat r) v"
    using left_ok right_ok by (simp add: split_at_def)
  show ?case
  proof (cases "unat r < unat l")
    case True
    then have "partition_loop (Suc n) cmp lo hi left right v s = Inr (l, r, v, s2)"
      using l(1) r(1) by (simp add: word_less_nat_alt)
    with True l r split Suc.prems show ?thesis
      by auto
  next
    case False
    let ?v = "v[unat l := v ! unat r, unat r := v ! unat l]"
    have swap: "swap_at l r v = Inr ?v"
      using Suc.prems l r False by (intro swap_at_ok) auto
    have perm: "perm_in (unat lo + 1) (unat hi + 1) v ?v"
      using Suc.prems l r False by (intro perm_in_swap) auto
    have bounds: "unat lo < unat l" "unat l \<le> unat r" "unat r \<le> unat hi" "unat hi < length v"
      using Suc.prems l r False by auto
    have ends: "le (v ! unat r) (v ! unat lo)" "le (v ! unat lo) (v ! unat l)"
      using l(5) r(5) bounds by auto
    have new: "split_at (unat lo) (unat hi) (unat l + 1) (unat r - 1) ?v"
      unfolding split_at_def
    proof (intro conjI allI impI)
      fix k
      assume "unat lo < k" and "k < unat l + 1"
      then show "le (?v ! k) (?v ! unat lo)"
        using left_ok [of k] ends bounds by (cases "k = unat l") (auto simp: nth_list_update)
    next
      fix k
      assume "unat r - 1 < k" and "k \<le> unat hi"
      then show "le (?v ! unat lo) (?v ! k)"
        using right_ok [of k] ends bounds by (cases "k = unat r") (auto simp: nth_list_update)
    qed
    have "unat r - unat l < n"
      using bounds l(2) r(2) Suc.prems(8) by linarith
    then obtain left' right' v' s' where rec: "partition_loop n cmp lo hi l r ?v s2 = Inr (left', right', v', s')"
      "perm_in (unat lo + 1) (unat hi + 1) ?v v'" "unat right' < unat left' \<and> unat lo \<le> unat right' \<and> unat right' \<le> unat hi
        \<and> unat lo < unat left' \<and> unat left' \<le> unat hi + 1 \<and> split_at (unat lo) (unat hi) (unat left') (unat right') v'"
      using Suc.IH [of l r ?v s2] new bounds Suc.prems(7) perm_in_ok [OF perm Suc.prems(10)] by auto
    have "partition_loop (Suc n) cmp lo hi left right v s = Inr (left', right', v', s')"
      using l(1) r(1) False swap rec(1) by (simp add: word_less_nat_alt)
    with rec perm_in_trans [OF perm rec(2)] show ?thesis
      by blast
  qed
qed simp

text \<open>After the pivot is in its place, the three partitions are in order.\<close>

lemma partition_at_ok:
  assumes "unat lo < unat hi" and "unat hi < length v" and "length v < 2 ^ 32" and "all_ok v"
  shows "\<exists>left right v' s'. partition_at cmp lo hi v s = Inr (left, right, v', s')
    \<and> perm_in (unat lo) (unat hi + 1) v v' \<and> unat right < unat left \<and> unat lo \<le> unat right
    \<and> unat left \<le> unat hi + 1
    \<and> (\<forall>k. unat lo \<le> k \<longrightarrow> k < unat left \<longrightarrow> le (v' ! k) (v' ! unat right))
    \<and> (\<forall>k. unat right \<le> k \<longrightarrow> k \<le> unat hi \<longrightarrow> le (v' ! unat right) (v' ! k))"
proof -
  let ?pivot = "lo + (hi - lo + 1) div 2"
  have sz: "unat (hi - lo + 1) = unat hi - unat lo + 1"
    using assms by (simp add: unat_word_ariths unat_sub word_le_nat_alt)
  have hi1: "unat (hi + 1) = unat hi + 1"
    using assms by (simp add: unat_word_ariths)
  have pv: "unat ?pivot = unat lo + (unat hi - unat lo + 1) div 2"
    using assms sz by (subst unat_add_lem [THEN iffD1]) (simp_all add: unat_div)
  have pb: "unat lo \<le> unat ?pivot" "unat ?pivot \<le> unat hi"
    using pv assms(1) by linarith+
  let ?v1 = "v[unat ?pivot := v ! unat lo, unat lo := v ! unat ?pivot]"
  have s1: "swap_at ?pivot lo v = Inr ?v1"
    using assms pb by (intro swap_at_ok) auto
  have p1: "perm_in (unat lo) (unat hi + 1) v ?v1"
    using assms pb by (intro perm_in_swap) auto
  obtain l r v2 s2 where loop: "partition_loop (length ?v1 + 1) cmp lo hi lo (hi + 1) ?v1 s = Inr (l, r, v2, s2)"
    and p2: "perm_in (unat lo + 1) (unat hi + 1) ?v1 v2"
    and b: "unat r < unat l" "unat lo \<le> unat r" "unat r \<le> unat hi" "unat lo < unat l" "unat l \<le> unat hi + 1"
    and sp: "split_at (unat lo) (unat hi) (unat l) (unat r) v2"
    using partition_loop_ok [of lo lo hi "hi + 1" ?v1 "length ?v1 + 1" s] assms hi1 perm_in_ok [OF p1 assms(4)] by (fastforce simp: split_at_def)
  have len2: "length v2 = length v"
    using perm_in_length [OF p2] by simp
  let ?v3 = "v2[unat lo := v2 ! unat r, unat r := v2 ! unat lo]"
  have s3: "swap_at lo r v2 = Inr ?v3"
    using assms b len2 by (intro swap_at_ok) auto
  have p3: "perm_in (unat lo) (unat hi + 1) v2 ?v3"
    using assms b len2 by (intro perm_in_swap) auto
  have perm: "perm_in (unat lo) (unat hi + 1) v ?v3"
    using perm_in_trans [OF p1 perm_in_trans [OF perm_in_mono [OF p2] p3]] by simp
  have v3: "?v3 ! k = (if k = unat r then v2 ! unat lo else if k = unat lo then v2 ! unat r else v2 ! k)" if "k \<le> unat hi" for k
    using that b assms len2 by (simp add: nth_list_update)
  have low: "le (?v3 ! k) (?v3 ! unat r)" if "unat lo \<le> k" "k < unat l" for k
  proof -
    have "k \<le> unat hi"
      using that b by linarith
    with sp that b show ?thesis
      unfolding v3 [OF \<open>k \<le> unat hi\<close>] v3 [OF \<open>unat r \<le> unat hi\<close>] split_at_def by (simp add: le_refl)
  qed
  have high: "le (?v3 ! unat r) (?v3 ! k)" if "unat r \<le> k" "k \<le> unat hi" for k
    using sp that b unfolding v3 [OF \<open>k \<le> unat hi\<close>] v3 [OF \<open>unat r \<le> unat hi\<close>] split_at_def by (simp add: le_refl)
  have "partition_at cmp lo hi v s = Inr (l, r, ?v3, s2)"
    by (simp only: partition_at_def Let_def s1 bindE_simps loop prod.case s3)
  with perm low high b show ?thesis
    by blast
qed

section \<open>Small partitions\<close>

lemma order_at_ok:
  assumes "unat i = a" and "unat j = b" and "a < length v" and "b < length v" and "a \<noteq> b" and ok: "all_ok v"
  shows "\<exists>sw v' s'. order_at cmp i j v s = Inr (sw, v', s') \<and> le (v' ! a) (v' ! b)
    \<and> v' = (if sw then v[a := v ! b, b := v ! a] else v)"
proof -
  obtain r s1 where r: "cmp (v ! a) (v ! b) s = (r, s1)"
    by fastforce
  show ?thesis
    using not_gt_le [of "v ! a" "v ! b" s] not_less_ge [of "v ! a" "v ! b" s] all_ok_nth [OF ok] r assms
    by (cases "is_gt r") (auto simp: order_at_def compare_at_ok swap_at_ok is_gt_def)
qed

lemma sorted_in_two: "le (v ! a) (v ! (a + 1)) \<Longrightarrow> sorted_in a (a + 2) v"
  by (auto simp: sorted_in_def less_Suc_eq numeral_2_eq_2)

lemma sorted_in_three:
  assumes "le (v ! a) (v ! (a + 1))" and "le (v ! (a + 1)) (v ! (a + 2))"
  shows "sorted_in a (a + 3) v"
  unfolding sorted_in_def
proof (intro allI impI)
  fix i j
  assume "a \<le> i" and "i < j" and "j < a + 3"
  then consider "i = a" "j = a + 1" | "i = a" "j = a + 2" | "i = a + 1" "j = a + 2"
    by linarith
  then show "le (v ! i) (v ! j)"
    using assms le_trans by cases auto
qed

lemma sort_three:
  assumes lo: "unat lo = a" "unat (lo + 1) = a + 1" "unat (lo + 2) = a + 2" and len: "a + 2 < length v" and ok: "all_ok v"
  shows "\<exists>v' s'. sort_small cmp 3 lo v s = Inr (v', s') \<and> perm_in a (a + 3) v v' \<and> sorted_in a (a + 3) v'"
proof -
  obtain b1 v1 s1 where o1: "order_at cmp lo (lo + 1) v s = Inr (b1, v1, s1)" "le (v1 ! a) (v1 ! (a + 1))"
    "v1 = (if b1 then v[a := v ! (a + 1), a + 1 := v ! a] else v)"
    using order_at_ok [OF lo(1,2), of v s] len ok by auto
  have p1: "perm_in a (a + 3) v v1"
    unfolding o1(3) using perm_in_swap [of a a "a + 3" "a + 1" v] len by simp
  note n1 = perm_in_length [OF p1]
  obtain b2 v2 s2 where o2: "order_at cmp (lo + 1) (lo + 2) v1 s1 = Inr (b2, v2, s2)" "le (v2 ! (a + 1)) (v2 ! (a + 2))"
    "v2 = (if b2 then v1[a + 1 := v1 ! (a + 2), a + 2 := v1 ! (a + 1)] else v1)"
    using order_at_ok [OF lo(2,3), of v1 s1] len n1 perm_in_ok [OF p1 ok] by auto
  have p2: "perm_in a (a + 3) v v2"
    unfolding o2(3) using perm_in_trans [OF p1 perm_in_swap [of a "a + 1" "a + 3" "a + 2" v1]] p1 len n1 by simp
  note n2 = perm_in_length [OF p2]
  show ?thesis
  proof (cases b2)
    case False
    with o1(1,2) o2 p1 show ?thesis
      by (auto simp: sort_small_def sorted_in_three)
  next
    case True
    then have "le (v2 ! a) (v2 ! (a + 2))"
      using o1(2) o2(3) len n1 by simp
    moreover obtain b3 v3 s3 where o3: "order_at cmp lo (lo + 1) v2 s2 = Inr (b3, v3, s3)" "le (v3 ! a) (v3 ! (a + 1))"
      "v3 = (if b3 then v2[a := v2 ! (a + 1), a + 1 := v2 ! a] else v2)"
      using order_at_ok [OF lo(1,2), of v2 s2] len n2 perm_in_ok [OF p2 ok] by auto
    ultimately have "le (v3 ! (a + 1)) (v3 ! (a + 2))"
      using o2(2) len n2 by simp
    with o3(2) have "sorted_in a (a + 3) v3"
      by (rule sorted_in_three)
    moreover have "perm_in a (a + 3) v v3"
      unfolding o3(3) using perm_in_trans [OF p2 perm_in_swap [of a a "a + 3" "a + 1" v2]] p2 len n2 by simp
    ultimately show ?thesis
      using o1(1) o2(1) o3(1) True by (auto simp: sort_small_def)
  qed
qed

lemma sort_two:
  assumes lo: "unat lo = a" "unat (lo + 1) = a + 1" and len: "a + 1 < length v" and ok: "all_ok v"
  shows "\<exists>v' s'. sort_small cmp 2 lo v s = Inr (v', s') \<and> perm_in a (a + 2) v v' \<and> sorted_in a (a + 2) v'"
proof -
  obtain b v1 s1 where o: "order_at cmp lo (lo + 1) v s = Inr (b, v1, s1)" "le (v1 ! a) (v1 ! (a + 1))"
    "v1 = (if b then v[a := v ! (a + 1), a + 1 := v ! a] else v)"
    using order_at_ok [OF lo, of v s] len ok by auto
  have "perm_in a (a + 2) v v1"
    unfolding o(3) using perm_in_swap [of a a "a + 2" "a + 1" v] len by simp
  with o(1) sorted_in_two [OF o(2)] show ?thesis
    by (simp add: sort_small_def)
qed

lemma sort_small_ok:
  assumes "unat lo \<le> unat hi" and "unat hi < length v" and "unat hi - unat lo + 1 < 4" and "length v < 2 ^ 32" and "all_ok v"
  shows "\<exists>v' s'. sort_small cmp (hi - lo + 1) lo v s = Inr (v', s') \<and> perm_in (unat lo) (unat hi + 1) v v'
    \<and> sorted_in (unat lo) (unat hi + 1) v'"
proof -
  have sz: "unat (hi - lo + 1) = unat hi - unat lo + 1"
    using assms by (simp add: unat_word_ariths unat_sub word_le_nat_alt)
  consider "unat hi = unat lo" | "unat hi = unat lo + 1" | "unat hi = unat lo + 2"
    using assms by linarith
  then show ?thesis
  proof cases
    case 1
    then have "hi = lo"
      by (simp add: word_unat_eq_iff)
    then show ?thesis
      by (simp add: sort_small_def sorted_in_def)
  next
    case 2
    then have n: "hi - lo + 1 = 2"
      using sz by (simp add: word_unat_eq_iff)
    have l1: "unat (lo + 1) = unat lo + 1"
      using assms 2 by (simp add: unat_word_ariths)
    show ?thesis
      using sort_two [where v = v and s = s, OF refl l1] 2 assms n by (simp add: numeral_2_eq_2)
  next
    case 3
    then have n: "hi - lo + 1 = 3"
      using sz by (simp add: word_unat_eq_iff)
    have l: "unat (lo + 1) = unat lo + 1" "unat (lo + 2) = unat lo + 2"
      using assms 3 by (simp_all add: unat_word_ariths)
    show ?thesis
      using sort_three [where v = v and s = s, OF refl l] 3 assms n by (simp add: numeral_3_eq_3)
  qed
qed

section \<open>The whole sort\<close>

text \<open>
  Sorting the part from \<open>a\<close> to \<open>b - 1\<close> takes \<open>c\<close> partitions, at most one for each element, and
  works with every stack on which there is room for the binary logarithm of the size of the part.
\<close>

definition solves :: "nat \<Rightarrow> nat \<Rightarrow> u32 \<Rightarrow> u32 \<Rightarrow> 'a list \<Rightarrow> 's \<Rightarrow> 'a list \<Rightarrow> 's \<Rightarrow> nat \<Rightarrow> bool" where
  "solves a b lo hi v s v' s' c \<longleftrightarrow> perm_in a b v v' \<and> sorted_in a b v' \<and> c \<le> b - a
     \<and> (\<forall>stk d n. b - a \<le> 2 ^ d \<longrightarrow> length stk + d \<le> STACK_FRAMES \<longrightarrow>
          (if a + 1 < b then qsort_loop (c + n) cmp stk lo hi v s else pop_frame (c + n) cmp stk v s)
            = pop_frame n cmp stk v' s')"

lemma solves_nothing: "b \<le> a + 1 \<Longrightarrow> solves a b lo hi v s v s 0"
  by (auto simp: solves_def sorted_in_def)

lemma sorted_in_join:
  assumes "\<forall>k. a \<le> k \<longrightarrow> k < l \<longrightarrow> le (w ! k) p" and "\<forall>k. r \<le> k \<longrightarrow> k < b \<longrightarrow> le p (w ! k)" and "r < l"
    and "sorted_in a r w" and "sorted_in l b w"
  shows "sorted_in a b w"
  unfolding sorted_in_def
proof (intro allI impI)
  fix i j
  assume ij: "a \<le> i" "i < j" "j < b"
  consider "j < r" | "l \<le> i" | "i < l" "r \<le> j"
    by linarith
  then show "le (w ! i) (w ! j)"
  proof cases
    case 3
    with assms(1) [rule_format, of i] assms(2) [rule_format, of j] ij show ?thesis
      using le_trans by blast
  qed (use assms(4,5) ij in \<open>simp_all add: sorted_in_def\<close>)
qed

text \<open>A part that is rearranged leaves a disjoint part sorted and within its bounds.\<close>

lemma sorted_in_other:
  assumes "perm_in x y v w" and "b \<le> x \<or> y \<le> a" and "b \<le> length v" and "sorted_in a b v"
  shows "sorted_in a b w"
  using assms(2-4) perm_in_outside [OF assms(1)] by (auto simp: sorted_in_def)

lemma perm_in_bound:
  assumes "perm_in x y v w" and "\<forall>k. a \<le> k \<longrightarrow> k < b \<longrightarrow> P (v ! k)" and "a \<le> x \<and> y \<le> b \<or> b \<le> x \<or> y \<le> a" and "b \<le> length v"
  shows "\<forall>k. a \<le> k \<longrightarrow> k < b \<longrightarrow> P (w ! k)"
proof (intro allI impI)
  fix k
  assume k: "a \<le> k" "k < b"
  show "P (w ! k)"
  proof (cases "x \<le> k \<and> k < y")
    case True
    with perm_in_all [OF assms(1), of P k] assms(2,3,4) k show ?thesis
      by auto
  next
    case False
    with perm_in_outside [OF assms(1), of k] assms(2,4) k show ?thesis
      by auto
  qed
qed

text \<open>The half that is sorted first is at most half of the whole when the other one is on the stack.\<close>

lemma first_part_half:
  fixes lo hi left right :: u32
  assumes "unat lo = a" and "unat hi + 1 = b" and "unat left = l" and "unat right = r" and "a \<le> r" and "r < l" and "l \<le> b"
  shows "right - 1 - lo \<ge> hi - left \<Longrightarrow> a + 1 < r \<Longrightarrow> 2 * (b - l) \<le> b - a"
    and "\<not> right - 1 - lo \<ge> hi - left \<Longrightarrow> l + 1 < b \<Longrightarrow> 2 * (r - a) \<le> b - a"
proof -
  have diff: "unat (x - y) = unat x - unat y" if "unat y \<le> unat x" for x y :: u32
    using that by (simp add: unat_sub word_le_nat_alt)
  have right: "unat (right - 1 - lo) = r - 1 - a" if "a < r"
  proof -
    have "unat (right - 1) = r - 1"
      using that assms by (metis not_less_zero unat_0 unat_minus_one)
    with diff [of lo "right - 1"] that assms show ?thesis
      by simp
  qed
  have left: "unat (hi - left) = b - 1 - l" if "l < b"
    using diff [of left hi] that assms by simp
  show "2 * (b - l) \<le> b - a" if "right - 1 - lo \<ge> hi - left" "a + 1 < r"
    using right left that assms by (cases "l < b") (auto simp: word_le_nat_alt)
  show "2 * (r - a) \<le> b - a" if c: "\<not> right - 1 - lo \<ge> hi - left" and l: "l + 1 < b"
  proof (cases "a < r")
    case True
    with right left c l assms show ?thesis
      by (auto simp: word_le_nat_alt)
  next
    case False
    with assms show ?thesis
      by simp
  qed
qed

text \<open>Two parts one after the other: the second waits on the stack while the first is sorted.\<close>

lemma solves_both:
  assumes one: "solves x y lo1 hi1 v1 s1 v2 s2 c" and two: "solves x' y' lo2 hi2 v2 s2 v3 s3 c'"
    and half: "x' + 1 < y' \<Longrightarrow> 2 * (y - x) \<le> m" and m: "y - x \<le> m" "y' - x' \<le> m" "m \<le> 2 ^ d" "1 < m"
    and stk: "length stk + d \<le> STACK_FRAMES"
  shows "bindE (if x' + 1 < y' then push_frame lo2 hi2 stk else Inr stk) (\<lambda>stk.
      if x + 1 < y then qsort_loop (c + (c' + n)) cmp stk lo1 hi1 v1 s1 else pop_frame (c + (c' + n)) cmp stk v1 s1)
    = pop_frame n cmp stk v3 s3"
proof -
  have "d \<noteq> 0"
    using m(3,4) by (intro notI) simp
  then obtain d' where d': "d = Suc d'"
    by (cases d) auto
  have "y' - x' \<le> 2 ^ d"
    using m by simp
  with two stk have second: "(if x' + 1 < y' then qsort_loop (c' + n) cmp stk lo2 hi2 v2 s2 else pop_frame (c' + n) cmp stk v2 s2)
      = pop_frame n cmp stk v3 s3"
    by (simp add: solves_def)
  have first: "(if x + 1 < y then qsort_loop (c + k) cmp stk' lo1 hi1 v1 s1 else pop_frame (c + k) cmp stk' v1 s1)
      = pop_frame k cmp stk' v2 s2" if "y - x \<le> 2 ^ e" "length stk' + e \<le> STACK_FRAMES" for k stk' e
    using one that by (simp add: solves_def)
  show ?thesis
  proof (cases "x' + 1 < y'")
    case True
    have "y - x \<le> 2 ^ d'"
      using half [OF True] m(3) d' by simp
    with first [of d' "(lo2, hi2) # stk"] second True stk d' show ?thesis
      by (simp add: push_frame_def)
  next
    case False
    have "y - x \<le> 2 ^ d"
      using m by simp
    with first [of d stk] second False stk show ?thesis
      by simp
  qed
qed

lemma parts_sorted:
  assumes low: "\<forall>k. a \<le> k \<longrightarrow> k < l \<longrightarrow> le (v1 ! k) p" and high: "\<forall>k. r \<le> k \<longrightarrow> k < b \<longrightarrow> le p (v1 ! k)"
    and bounds: "a \<le> r" "r < l" "l \<le> b" "b \<le> length v1"
    and one: "solves x y lo1 hi1 v1 s1 v2 s2 c" and two: "solves x' y' lo2 hi2 v2 s2 v3 s3 c'"
    and parts: "x = a \<and> y = r \<and> x' = l \<and> y' = b \<or> x = l \<and> y = b \<and> x' = a \<and> y' = r"
  shows "perm_in a b v1 v3 \<and> sorted_in a b v3"
proof -
  have p2: "perm_in x y v1 v2" and p3: "perm_in x' y' v2 v3" and so: "sorted_in x y v2" "sorted_in x' y' v3"
    using one two by (auto simp: solves_def)
  have len2: "length v2 = length v1"
    using perm_in_length [OF p2] .
  have "perm_in a b v1 v3"
    using perm_in_trans [OF perm_in_mono [OF p2] perm_in_mono [OF p3]] parts bounds by auto
  moreover have "sorted_in a b v3"
  proof (rule sorted_in_join)
    have "\<forall>k. a \<le> k \<longrightarrow> k < l \<longrightarrow> le (v2 ! k) p"
      using perm_in_bound [OF p2 low] parts bounds by auto
    then show "\<forall>k. a \<le> k \<longrightarrow> k < l \<longrightarrow> le (v3 ! k) p"
      using perm_in_bound [OF p3, of a l "\<lambda>z. le z p"] parts bounds len2 by auto
    have "\<forall>k. r \<le> k \<longrightarrow> k < b \<longrightarrow> le p (v2 ! k)"
      using perm_in_bound [OF p2 high] parts bounds by auto
    then show "\<forall>k. r \<le> k \<longrightarrow> k < b \<longrightarrow> le p (v3 ! k)"
      using perm_in_bound [OF p3, of r b "le p"] parts bounds len2 by auto
    have "sorted_in x y v3"
      using sorted_in_other [OF p3 _ _ so(1)] parts bounds len2 by auto
    with so(2) parts show "sorted_in a r v3" "sorted_in l b v3"
      by auto
  qed (rule bounds(2))
  ultimately show ?thesis
    by simp
qed

lemma solves_region:
  assumes "a + 1 < b \<longrightarrow> unat lo = a \<and> unat hi + 1 = b" and "b \<le> length v" and "length v < 2 ^ 32" and "all_ok v"
  shows "\<exists>v' s' c. solves a b lo hi v s v' s' c"
  using assms
proof (induction "b - a" arbitrary: a b lo hi v s rule: less_induct)
  case less
  show ?case
  proof (cases "a + 1 < b")
    case False
    then show ?thesis
      using solves_nothing [of b a] by (metis not_less)
  next
    case True
    then have ab: "unat lo = a" "unat hi + 1 = b"
      using less.prems by auto
    have sz: "unat (hi - lo + 1) = b - a"
      using ab True less.prems by (auto simp: unat_word_ariths unat_sub word_le_nat_alt)
    show ?thesis
    proof (cases "b - a < 4")
      case small: True
      have "unat hi - unat lo + 1 < 4"
        using small ab True by linarith
      then obtain v' s' where "sort_small cmp (hi - lo + 1) lo v s = Inr (v', s')" "perm_in a b v v'" "sorted_in a b v'"
        using sort_small_ok [of lo hi v s] ab True less.prems by auto
      moreover have "hi - lo + 1 < 4"
        using sz small by (simp add: word_less_nat_alt)
      ultimately have "solves a b lo hi v s v' s' 1"
        using True by (auto simp: solves_def Let_def)
      then show ?thesis
        by blast
    next
      case large: False
      obtain left right v1 s1 where part: "partition_at cmp lo hi v s = Inr (left, right, v1, s1)" and p1: "perm_in a b v v1"
        and lr: "unat right < unat left" "a \<le> unat right" "unat left \<le> b"
        and low: "\<forall>k. a \<le> k \<longrightarrow> k < unat left \<longrightarrow> le (v1 ! k) (v1 ! unat right)"
        and high: "\<forall>k. unat right \<le> k \<longrightarrow> k < b \<longrightarrow> le (v1 ! unat right) (v1 ! k)"
        using partition_at_ok [of lo hi v s] ab True less.prems by (auto simp: less_Suc_eq_le)
      define l r where "l = unat left" and "r = unat right"
      note lr = lr [folded l_def r_def] and low = low [folded l_def r_def] and high = high [folded l_def r_def]
      have len1: "length v1 = length v"
        using perm_in_length [OF p1] .
      have ok1: "all_ok v1"
        using perm_in_ok [OF p1] less.prems by simp
      have conds: "lo + 1 < right \<longleftrightarrow> a + 1 < r" "left < hi \<longleftrightarrow> l + 1 < b" "\<not> hi - lo + 1 < 4"
        using ab sz large True less.prems by (auto simp: word_less_nat_alt unat_word_ariths l_def r_def)
      have right1: "a + 1 < r \<longrightarrow> unat lo = a \<and> unat (right - 1) + 1 = r"
        using ab by (metis One_nat_def Suc_eq_plus1 Suc_pred not_less_zero r_def unat_0 unat_minus_one zero_less_iff_neq_zero)
      have left1: "l + 1 < b \<longrightarrow> unat left = l \<and> unat hi + 1 = b"
        using ab by (simp add: l_def)
      have smaller: "r - a < b - a" "b - l < b - a" "r - a + (b - l) + 1 \<le> b - a"
        using lr by linarith+
      have step: "qsort_loop (Suc n) cmp stk lo hi v s =
          (if right - 1 - lo \<ge> hi - left then
             bindE (if a + 1 < r then push_frame lo (right - 1) stk else Inr stk) (\<lambda>stk.
               if l + 1 < b then qsort_loop n cmp stk left hi v1 s1 else pop_frame n cmp stk v1 s1)
           else
             bindE (if l + 1 < b then push_frame left hi stk else Inr stk) (\<lambda>stk.
               if a + 1 < r then qsort_loop n cmp stk lo (right - 1) v1 s1 else pop_frame n cmp stk v1 s1))" for n stk
        using conds part by (simp add: Let_def)
      note half = first_part_half [OF ab l_def [symmetric] r_def [symmetric] lr(2) lr(1) lr(3)]
      show ?thesis
      proof (cases "right - 1 - lo \<ge> hi - left")
        case cond: True
        obtain v2 s2 c2 where two: "solves l b left hi v1 s1 v2 s2 c2"
          using less.hyps [OF smaller(2) left1, of v1 s1] less.prems len1 ok1 by auto
        then have len2: "length v2 = length v" and ok2: "all_ok v2"
          using perm_in_length [of l b v1 v2] len1 perm_in_ok [OF _ ok1] by (auto simp: solves_def)
        obtain v3 s3 c3 where three: "solves a r lo (right - 1) v2 s2 v3 s3 c3"
          using less.hyps [OF smaller(1) right1, of v2 s2] less.prems lr len2 ok2 by auto
        have perm: "perm_in a b v v3 \<and> sorted_in a b v3"
          using parts_sorted [OF low high lr(2,1,3) _ two three] perm_in_trans [OF p1] less.prems(2) len1 by auto
        have run: "qsort_loop (Suc (c2 + (c3 + n))) cmp stk lo hi v s = pop_frame n cmp stk v3 s3"
          if "b - a \<le> 2 ^ d" "length stk + d \<le> STACK_FRAMES" for stk d n
          using solves_both [OF two three half(1) [OF cond], of d stk n] smaller that large cond unfolding step by simp
        have "solves a b lo hi v s v3 s3 (Suc (c2 + c3))"
          using True two three smaller(3) perm run unfolding solves_def by (simp add: add.assoc)
        then show ?thesis
          by blast
      next
        case cond: False
        obtain v2 s2 c2 where two: "solves a r lo (right - 1) v1 s1 v2 s2 c2"
          using less.hyps [OF smaller(1) right1, of v1 s1] less.prems lr len1 ok1 by auto
        then have len2: "length v2 = length v" and ok2: "all_ok v2"
          using perm_in_length [of a r v1 v2] len1 perm_in_ok [OF _ ok1] by (auto simp: solves_def)
        obtain v3 s3 c3 where three: "solves l b left hi v2 s2 v3 s3 c3"
          using less.hyps [OF smaller(2) left1, of v2 s2] less.prems len2 ok2 by auto
        have perm: "perm_in a b v v3 \<and> sorted_in a b v3"
          using parts_sorted [OF low high lr(2,1,3) _ two three] perm_in_trans [OF p1] less.prems(2) len1 by auto
        have run: "qsort_loop (Suc (c2 + (c3 + n))) cmp stk lo hi v s = pop_frame n cmp stk v3 s3"
          if "b - a \<le> 2 ^ d" "length stk + d \<le> STACK_FRAMES" for stk d n
          using solves_both [OF two three half(2) [OF cond], of d stk n] smaller that large cond unfolding step by simp
        have "solves a b lo hi v s v3 s3 (Suc (c2 + c3))"
          using True two three smaller(3) perm run unfolding solves_def by (simp add: add.assoc)
        then show ?thesis
          by blast
      qed
    qed
  qed
qed

lemma sort_vector_ok:
  assumes "length v < 2 ^ 32" and "\<forall>x\<in>set v. ok x"
  shows "\<exists>v' s'. sort_vector cmp v s = Inr (v', s') \<and> mset v' = mset v \<and> sorted_wrt le v'"
proof (cases "length v < 2")
  case True
  then consider "v = []" | x where "v = [x]"
    by (cases v; cases "tl v") auto
  then show ?thesis
    by cases (simp_all add: sort_vector_def qsort_array_def sort_small_def)
next
  case False
  let ?n = "length v"
  have hi: "unat (of_nat ?n - 1 :: u32) = ?n - 1"
    using False assms by (simp add: unat_sub word_le_nat_alt unat_of_nat)
  have "unat (0 :: u32) = 0" "unat (of_nat ?n - 1 :: u32) + 1 = ?n"
    using hi False by simp_all
  then obtain v' s' c where sol: "solves 0 ?n 0 (of_nat ?n - 1) v s v' s' c"
    using solves_region [of 0 ?n 0 "of_nat ?n - 1" v s] assms by (auto simp: all_ok_def)
  obtain n where n: "?n + 1 = c + n"
    using sol by (auto simp: solves_def intro!: that [of "?n + 1 - c"])
  have "qsort_loop (?n + 1) cmp [] 0 (of_nat ?n - 1) v s = Inr (v', s')"
    using sol [unfolded solves_def, THEN conjunct2, THEN conjunct2, THEN conjunct2, rule_format, where stk = "[]" and d = 32 and n = n]
      False assms unfolding n by (simp add: STACK_FRAMES_def)
  moreover have "\<not> of_nat ?n - 1 \<le> (0 :: u32)"
    using hi False by (simp add: word_le_nat_alt)
  moreover have perm: "perm_in 0 ?n v v'" and so: "sorted_in 0 ?n v'"
    using sol by (simp_all add: solves_def)
  moreover have "sorted_wrt le v'"
    using so perm_in_length [OF perm] by (simp add: sorted_in_def sorted_wrt_iff_nth_less)
  moreover have "mset v' = mset v"
    using perm by (simp add: perm_in_def)
  ultimately show ?thesis
    unfolding sort_vector_def qsort_array_def by auto
qed

end

text \<open>Without any assumption on the comparison.\<close>

interpretation any_cmp: respects_order cmp "\<lambda>_ _. True" "\<lambda>_. True" for cmp :: "('a, 's) comparator"
  by unfold_locales simp_all

text \<open>C16: Sorting with any comparison at all, be it inconsistent, random or never a number, returns: no
  access leaves the vector, the stack of 33 frames never overflows, the loops end, and the result
  has the same elements.\<close>

theorem sort_any_comparison:
  fixes cmp :: "('a, 's) comparator"
  assumes "length v < 2 ^ 32"
  shows "\<exists>v' s'. sort_vector cmp v s = Inr (v', s') \<and> mset v' = mset v"
  using any_cmp.sort_vector_ok [OF assms, of cmp s] by blast

definition first_greater :: "(nat, unit) comparator" where
  "first_greater a b s = (CmpGreater, s)"

theorem sort_any_comparison_witness:
  "\<exists>v' s'. sort_vector first_greater [1, 2, 3, 4, 5] () = Inr (v', s') \<and> mset v' = {#1, 2, 3, 4, 5#}"
  using sort_any_comparison [of "[1, 2, 3, 4, 5]" first_greater "()"] by simp

end
