(* ===== verification/Atoms.thy ===== *)
theory Atoms
  imports LS_Prelude
begin

text \<open>
  The values of the virtual machine, \<open>asAtom\<close> in \<open>swftypes.h\<close> and \<open>asAtomHandler\<close> in \<open>asobject.h\<close>:
  64 bits that are either a double or, in the range of the NaNs with all of their upper 13 bits set, a
  tagged value. This theory has the tags, the functions that make and test them, and shows that no two
  kinds of value share an atom and that what is stored is what is read back.

  What the code asks of the object an atom points to is an argument (record \<open>objects\<close>, in
  \<open>AtomArith\<close>, and the type of an object here).
\<close>

type_synonym asAtom = u64

section \<open>Tags\<close>

definition ATOM_INVALID_UNDEFINED_NULL_BOOL_STRINGID :: asAtom where
  "ATOM_INVALID_UNDEFINED_NULL_BOOL_STRINGID = 0xfff9000000000000"

definition ATOM_UINTEGER :: asAtom where "ATOM_UINTEGER = 0xfffa000000000000"

definition ATOM_INTEGER :: asAtom where "ATOM_INTEGER = 0xfffb000000000000"

definition ATOM_STRINGPTR :: asAtom where "ATOM_STRINGPTR = 0xfffc000000000000"

definition ATOM_U_INTEGERPTR :: asAtom where "ATOM_U_INTEGERPTR = 0xfffd000000000000"

definition ATOM_NUMBERPTR :: asAtom where "ATOM_NUMBERPTR = 0xfffe000000000000"

definition ATOM_OBJECTPTR :: asAtom where "ATOM_OBJECTPTR = 0xffff000000000000"

definition ATOMTYPE_STRINGID_BIT :: asAtom where "ATOMTYPE_STRINGID_BIT = 0x800000000000"

definition ATOMTYPE_NULL_BIT :: asAtom where "ATOMTYPE_NULL_BIT = 0x400000000000"

definition ATOMTYPE_UNDEFINED_BIT :: asAtom where "ATOMTYPE_UNDEFINED_BIT = 0x200000000000"

definition ATOMTYPE_BOOL_BIT :: asAtom where "ATOMTYPE_BOOL_BIT = 0x100000000000"

definition ATOMTYPE_BOOL_VALUE_BIT :: asAtom where "ATOMTYPE_BOOL_VALUE_BIT = 0x080000000000"

definition ATOMTYPE_BIT_FLAGS :: asAtom where
  "ATOMTYPE_BIT_FLAGS = ATOMTYPE_STRINGID_BIT OR ATOMTYPE_NULL_BIT OR ATOMTYPE_UNDEFINED_BIT OR ATOMTYPE_BOOL_BIT"

definition ATOMTYPE_OBJECT_BITS :: asAtom where "ATOMTYPE_OBJECT_BITS = 0xfff4000000000000"

definition ATOMTYPE_TYPE_BITS :: asAtom where "ATOMTYPE_TYPE_BITS = 0xffff000000000000"

definition ATOMTYPE_32BIT_BITS :: asAtom where "ATOMTYPE_32BIT_BITS = 0xffffffff"

named_theorems tag_defs \<open>the tag constants of the atoms\<close>

lemmas [tag_defs] = ATOM_INVALID_UNDEFINED_NULL_BOOL_STRINGID_def ATOM_UINTEGER_def ATOM_INTEGER_def
  ATOM_STRINGPTR_def ATOM_U_INTEGERPTR_def ATOM_NUMBERPTR_def ATOM_OBJECTPTR_def ATOMTYPE_STRINGID_BIT_def
  ATOMTYPE_NULL_BIT_def ATOMTYPE_UNDEFINED_BIT_def ATOMTYPE_BOOL_BIT_def ATOMTYPE_BOOL_VALUE_BIT_def
  ATOMTYPE_BIT_FLAGS_def ATOMTYPE_OBJECT_BITS_def ATOMTYPE_TYPE_BITS_def ATOMTYPE_32BIT_BITS_def

section \<open>Making atoms\<close>

text \<open>The argument is the \<open>int32_t\<close>, as its 32 bits: \<open>(int64_t)val\<close> extends its sign.\<close>

definition fromInt :: "u32 \<Rightarrow> asAtom" where
  "fromInt val = ((scast val :: asAtom) AND 0xffffffff) OR ATOM_INTEGER"

definition fromUInt :: "u32 \<Rightarrow> asAtom" where
  "fromUInt val = ((ucast val :: asAtom) AND 0xffffffff) OR ATOM_UINTEGER"

definition fromBool :: "bool \<Rightarrow> asAtom" where
  "fromBool val = ATOM_INVALID_UNDEFINED_NULL_BOOL_STRINGID OR ATOMTYPE_BOOL_BIT
     OR (if val then ATOMTYPE_BOOL_VALUE_BIT else 0)"

definition fromStringID :: "u32 \<Rightarrow> asAtom" where
  "fromStringID sID = ucast sID OR ATOM_INVALID_UNDEFINED_NULL_BOOL_STRINGID OR ATOMTYPE_STRINGID_BIT"

text \<open>\<open>setInt\<close> takes an \<open>int64_t\<close>, given by its 64 bits, and keeps the lower 32 of them.\<close>

definition setInt :: "u64 \<Rightarrow> asAtom" where
  "setInt val = (let val32 = (ucast val :: u32) in ucast val32 OR ATOM_INTEGER)"

definition setUInt :: "u32 \<Rightarrow> asAtom" where
  "setUInt val = ucast val OR ATOM_UINTEGER"

definition setBool :: "bool \<Rightarrow> asAtom" where
  "setBool val = ATOM_INVALID_UNDEFINED_NULL_BOOL_STRINGID OR ATOMTYPE_BOOL_BIT
     OR (if val then ATOMTYPE_BOOL_VALUE_BIT else 0)"

text \<open>The type of an object, and the atom that stands for a value of each type.\<close>

datatype SWFOBJECT_TYPE = T_OBJECT | T_INTEGER | T_NUMBER | T_FUNCTION | T_UNDEFINED | T_NULL | T_STRING
  | T_INVALID | T_BOOLEAN | T_ARRAY | T_CLASS | T_QNAME | T_NAMESPACE | T_UINTEGER | T_PROXY | T_TEMPLATE

definition fromType :: "SWFOBJECT_TYPE \<Rightarrow> asAtom" where
  "fromType t = (case t of
       T_INVALID \<Rightarrow> ATOM_INVALID_UNDEFINED_NULL_BOOL_STRINGID
     | T_UNDEFINED \<Rightarrow> ATOM_INVALID_UNDEFINED_NULL_BOOL_STRINGID OR ATOMTYPE_UNDEFINED_BIT
     | T_NULL \<Rightarrow> ATOM_INVALID_UNDEFINED_NULL_BOOL_STRINGID OR ATOMTYPE_NULL_BIT
     | T_BOOLEAN \<Rightarrow> ATOM_INVALID_UNDEFINED_NULL_BOOL_STRINGID OR ATOMTYPE_BOOL_BIT
     | T_NUMBER \<Rightarrow> ATOM_NUMBERPTR
     | T_INTEGER \<Rightarrow> ATOM_INTEGER
     | T_UINTEGER \<Rightarrow> ATOM_UINTEGER
     | T_STRING \<Rightarrow> ATOM_INVALID_UNDEFINED_NULL_BOOL_STRINGID OR ATOMTYPE_STRINGID_BIT
     | _ \<Rightarrow> ATOM_OBJECTPTR)"

definition invalidAtom :: asAtom where "invalidAtom = fromType T_INVALID"

definition undefinedAtom :: asAtom where "undefinedAtom = fromType T_UNDEFINED"

definition nullAtom :: asAtom where "nullAtom = fromType T_NULL"

section \<open>Testing and reading atoms\<close>

definition getType :: "asAtom \<Rightarrow> asAtom" where
  "getType a = a AND ATOMTYPE_TYPE_BITS"

definition isValid :: "asAtom \<Rightarrow> bool" where
  "isValid a \<longleftrightarrow> a \<noteq> ATOM_INVALID_UNDEFINED_NULL_BOOL_STRINGID"

definition isInvalid :: "asAtom \<Rightarrow> bool" where
  "isInvalid a \<longleftrightarrow> a = ATOM_INVALID_UNDEFINED_NULL_BOOL_STRINGID"

definition has_flag :: "asAtom \<Rightarrow> asAtom \<Rightarrow> bool" where
  "has_flag flag a \<longleftrightarrow> a AND (ATOMTYPE_TYPE_BITS OR ATOMTYPE_BIT_FLAGS)
     = ATOM_INVALID_UNDEFINED_NULL_BOOL_STRINGID OR flag"

definition isNull :: "asAtom \<Rightarrow> bool" where
  "isNull a \<longleftrightarrow> has_flag ATOMTYPE_NULL_BIT a"

definition isUndefined :: "asAtom \<Rightarrow> bool" where
  "isUndefined a \<longleftrightarrow> has_flag ATOMTYPE_UNDEFINED_BIT a"

definition isNullOrUndefined :: "asAtom \<Rightarrow> bool" where
  "isNullOrUndefined a \<longleftrightarrow> isNull a \<or> isUndefined a"

definition isBool :: "asAtom \<Rightarrow> bool" where
  "isBool a \<longleftrightarrow> has_flag ATOMTYPE_BOOL_BIT a"

definition isStringID :: "asAtom \<Rightarrow> bool" where
  "isStringID a \<longleftrightarrow> has_flag ATOMTYPE_STRINGID_BIT a"

definition isObject :: "asAtom \<Rightarrow> bool" where
  "isObject a \<longleftrightarrow> a AND ATOMTYPE_OBJECT_BITS = ATOMTYPE_OBJECT_BITS"

definition isObjectPtr :: "asAtom \<Rightarrow> bool" where
  "isObjectPtr a \<longleftrightarrow> a AND ATOMTYPE_TYPE_BITS = ATOM_OBJECTPTR"

definition isNumberPtr :: "asAtom \<Rightarrow> bool" where
  "isNumberPtr a \<longleftrightarrow> a AND ATOMTYPE_TYPE_BITS = ATOM_NUMBERPTR"

definition isExactSameType :: "asAtom \<Rightarrow> asAtom \<Rightarrow> bool" where
  "isExactSameType a b \<longleftrightarrow> getType a = getType b \<and>
     (getType a = ATOM_INVALID_UNDEFINED_NULL_BOOL_STRINGID \<longrightarrow>
        a AND (ATOMTYPE_BIT_FLAGS OR ATOMTYPE_BOOL_VALUE_BIT) = b AND (ATOMTYPE_BIT_FLAGS OR ATOMTYPE_BOOL_VALUE_BIT))"

definition getInt :: "asAtom \<Rightarrow> u32 res" where
  "getInt a = (if getType a = ATOM_INTEGER \<or> getType a = ATOM_UINTEGER
     then Inr (ucast (a AND ATOMTYPE_32BIT_BITS)) else Inl AssertionFailed)"

definition getUInt :: "asAtom \<Rightarrow> u32 res" where
  "getUInt a = (if getType a = ATOM_UINTEGER \<or> getType a = ATOM_INTEGER
     then Inr (ucast (a AND ATOMTYPE_32BIT_BITS)) else Inl AssertionFailed)"

definition getStringId :: "asAtom \<Rightarrow> u32 res" where
  "getStringId a = (if isStringID a then Inr (ucast (a AND ATOMTYPE_32BIT_BITS)) else Inl AssertionFailed)"

text \<open>What the code finds out about the type of an atom, given the type of the object it may point to.\<close>

type_synonym object_types = "asAtom \<Rightarrow> SWFOBJECT_TYPE"

definition isNumber :: "object_types \<Rightarrow> asAtom \<Rightarrow> bool" where
  "isNumber otype a \<longleftrightarrow> a AND 0xfff8000000000000 \<noteq> 0xfff8000000000000
     \<or> a = 0xfff8000000000000
     \<or> (a AND ATOMTYPE_TYPE_BITS = ATOM_NUMBERPTR \<and> isObject a \<and> otype a = T_NUMBER)"

definition isInteger :: "object_types \<Rightarrow> asAtom \<Rightarrow> bool" where
  "isInteger otype a \<longleftrightarrow> a AND ATOMTYPE_TYPE_BITS = ATOM_INTEGER
     \<or> (a AND ATOMTYPE_TYPE_BITS = ATOM_U_INTEGERPTR \<and> isObject a \<and> otype a = T_INTEGER)"

definition isUInteger :: "object_types \<Rightarrow> asAtom \<Rightarrow> bool" where
  "isUInteger otype a \<longleftrightarrow> a AND ATOMTYPE_TYPE_BITS = ATOM_UINTEGER
     \<or> (a AND ATOMTYPE_TYPE_BITS = ATOM_U_INTEGERPTR \<and> isObject a \<and> otype a = T_UINTEGER)"

definition isNumeric :: "object_types \<Rightarrow> asAtom \<Rightarrow> bool" where
  "isNumeric otype a \<longleftrightarrow> isInteger otype a \<or> isUInteger otype a \<or> isNumber otype a"

definition getObjectType :: "object_types \<Rightarrow> asAtom \<Rightarrow> SWFOBJECT_TYPE" where
  "getObjectType otype a =
     (let t = a AND ATOMTYPE_TYPE_BITS; f = a AND ATOMTYPE_BIT_FLAGS
      in if t = ATOM_INTEGER then T_INTEGER
         else if t = ATOM_UINTEGER then T_UINTEGER
         else if t = ATOM_INVALID_UNDEFINED_NULL_BOOL_STRINGID then
           (if f = ATOMTYPE_NULL_BIT then T_NULL
            else if f = ATOMTYPE_UNDEFINED_BIT then T_UNDEFINED
            else if f = ATOMTYPE_BOOL_BIT then T_BOOLEAN
            else if f = ATOMTYPE_STRINGID_BIT then T_STRING
            else T_INVALID)
         else if t = ATOM_NUMBERPTR then T_NUMBER
         else if t = ATOM_STRINGPTR then T_STRING
         else if t = ATOM_U_INTEGERPTR \<or> t = ATOM_OBJECTPTR then (if isObject a then otype a else T_INVALID)
         else T_NUMBER)"


section \<open>Tags and payloads\<close>

lemma ucast_and_high: "(M :: u64) AND mask 32 = 0 \<Longrightarrow> ucast (x :: u32) AND M = 0"
proof (rule bit_word_eqI)
  fix n
  assume M: "M AND mask 32 = 0"
  have "\<not> bit M n" if "n < 32"
    using arg_cong [OF M, of "\<lambda>w. bit w n"] that by (simp add: bit_simps)
  then show "bit (ucast x AND M) n = bit (0 :: u64) n"
    by (auto simp: bit_simps dest: bit_imp_le_length)
qed

text \<open>An atom with a 32-bit payload below a tag: the tag survives every test, the payload is read back.\<close>

lemma payload_and:
  assumes "M AND mask 32 = 0"
  shows "(ucast (x :: u32) OR t) AND (M :: u64) = t AND M" and "(t OR ucast x) AND M = t AND M"
  using ucast_and_high [OF assms, of x] by (simp_all add: bit.conj_disj_distrib2)

lemma mask_32: "(0xffffffff :: u64) = mask 32"
  by (simp add: mask_eq_exp_minus_1)

lemma bit_u32_less: "bit (x :: u32) n \<Longrightarrow> n < 32"
  using bit_imp_le_length [of x n] by simp

lemma ucast_32_and: "(ucast (x :: u32) :: u64) AND 0xffffffff = ucast x"
  unfolding mask_32 by (auto simp: bit_simps intro!: bit_word_eqI dest: bit_u32_less)

lemma ucast_ucast_32: "ucast (ucast (x :: u32) :: u64) = x"
  by (rule bit_word_eqI) (simp add: bit_simps)

lemma payload_read:
  assumes "t AND 0xffffffff = 0"
  shows "ucast ((ucast x OR (t :: u64)) AND 0xffffffff) = (x :: u32)"
proof -
  have "(ucast x OR t) AND 0xffffffff = ucast x"
    using assms by (simp only: bit.conj_disj_distrib2 ucast_32_and) simp
  then show ?thesis
    by (simp only: ucast_ucast_32)
qed

lemma scast_and_32: "(scast (x :: u32) :: u64) AND 0xffffffff = ucast x"
proof (rule bit_word_eqI)
  fix n
  assume "n < LENGTH(64)"
  have "(n < 32 \<and> bit x (min 31 n)) \<longleftrightarrow> bit x n"
  proof (cases "n < 31")
    case False
    then have "n < 32 \<Longrightarrow> n = 31"
      by linarith
    then show ?thesis
      by (cases "n < 32") (auto dest: bit_u32_less)
  qed simp
  then show "bit ((scast x :: u64) AND 0xffffffff) n = bit (ucast x :: u64) n"
    unfolding mask_32 using \<open>n < LENGTH(64)\<close> by (auto simp: bit_simps)
qed

lemma ucast_scast_32: "ucast (scast (x :: u32) :: u64) = x"
proof (rule bit_word_eqI)
  fix n
  assume "n < LENGTH(32)"
  then have "n \<le> 31"
    by simp
  then show "bit (ucast (scast x :: u64) :: u32) n = bit x n"
    by (simp add: bit_simps min_absorb2)
qed

lemma fromInt_ucast: "fromInt x = ucast x OR ATOM_INTEGER"
  by (simp add: fromInt_def scast_and_32)

lemma fromUInt_ucast: "fromUInt x = ucast x OR ATOM_UINTEGER"
  by (simp add: fromUInt_def ucast_32_and)

lemma setInt_fromInt: "setInt v = fromInt (ucast v)"
  by (simp add: setInt_def fromInt_ucast)

lemma setUInt_fromUInt: "setUInt v = fromUInt v"
  by (simp add: setUInt_def fromUInt_ucast)

lemma tag_types:
  "fromInt x AND ATOMTYPE_TYPE_BITS = ATOM_INTEGER"
  "fromUInt x AND ATOMTYPE_TYPE_BITS = ATOM_UINTEGER"
  "fromStringID x AND ATOMTYPE_TYPE_BITS = ATOM_INVALID_UNDEFINED_NULL_BOOL_STRINGID"
  "fromBool b AND ATOMTYPE_TYPE_BITS = ATOM_INVALID_UNDEFINED_NULL_BOOL_STRINGID"
  by (simp_all add: fromInt_ucast fromUInt_ucast fromStringID_def fromBool_def tag_defs payload_and
      mask_eq_exp_minus_1 or.assoc)

lemma tag_flags:
  "fromStringID x AND ATOMTYPE_BIT_FLAGS = ATOMTYPE_STRINGID_BIT"
  "fromBool b AND ATOMTYPE_BIT_FLAGS = ATOMTYPE_BOOL_BIT"
  by (simp_all add: fromStringID_def fromBool_def tag_defs payload_and mask_eq_exp_minus_1 or.assoc)

lemma tag_special:
  "fromStringID x AND (ATOMTYPE_TYPE_BITS OR ATOMTYPE_BIT_FLAGS)
     = ATOM_INVALID_UNDEFINED_NULL_BOOL_STRINGID OR ATOMTYPE_STRINGID_BIT"
  "fromBool b AND (ATOMTYPE_TYPE_BITS OR ATOMTYPE_BIT_FLAGS)
     = ATOM_INVALID_UNDEFINED_NULL_BOOL_STRINGID OR ATOMTYPE_BOOL_BIT"
  by (simp_all add: fromStringID_def fromBool_def tag_defs payload_and mask_eq_exp_minus_1 or.assoc)

lemma bool_value:
  "fromBool b AND ATOMTYPE_BOOL_BIT \<noteq> 0" "fromBool b AND ATOMTYPE_BOOL_VALUE_BIT \<noteq> 0 \<longleftrightarrow> b"
  by (simp_all add: fromBool_def tag_defs)

lemma special_atoms:
  "invalidAtom = 0xfff9000000000000" "undefinedAtom = 0xfff9200000000000" "nullAtom = 0xfff9400000000000"
  by (simp_all add: invalidAtom_def undefinedAtom_def nullAtom_def fromType_def tag_defs)

lemma isValid_alt: "isValid a \<longleftrightarrow> a \<noteq> invalidAtom" "isInvalid a \<longleftrightarrow> a = invalidAtom"
  by (simp_all add: isValid_def isInvalid_def special_atoms tag_defs)

text \<open>C13: What is stored in an atom is what is read back: \<open>getInt\<close>, \<open>getUInt\<close> and \<open>getStringId\<close> undo
  \<open>fromInt\<close>, \<open>fromUInt\<close> and \<open>fromStringID\<close> on every 32-bit value, the setters make the same atoms, and
  the type the code finds is the one the atom was made with, whatever objects exist.
\<close>

theorem atom_roundtrip:
  "getInt (fromInt i) = Inr i
   \<and> getUInt (fromUInt i) = Inr i
   \<and> getStringId (fromStringID i) = Inr i
   \<and> setInt (scast i) = fromInt i
   \<and> setUInt i = fromUInt i
   \<and> setBool b = fromBool b
   \<and> getObjectType otype (fromInt i) = T_INTEGER
   \<and> getObjectType otype (fromUInt i) = T_UINTEGER
   \<and> getObjectType otype (fromBool b) = T_BOOLEAN
   \<and> getObjectType otype (fromStringID i) = T_STRING
   \<and> getObjectType otype invalidAtom = T_INVALID
   \<and> getObjectType otype undefinedAtom = T_UNDEFINED
   \<and> getObjectType otype nullAtom = T_NULL"
proof (intro conjI)
  have [simp]: "(ucast (scast i :: u64) :: u32) = i"
    by (rule ucast_scast_32)
  show "getInt (fromInt i) = Inr i" "getUInt (fromUInt i) = Inr i"
    using payload_read [of ATOM_INTEGER i] payload_read [of ATOM_UINTEGER i]
    by (simp_all add: getInt_def getUInt_def getType_def tag_types)
      (simp_all add: fromInt_ucast fromUInt_ucast tag_defs)
  show "getStringId (fromStringID i) = Inr i"
    using payload_read [of "ATOM_INVALID_UNDEFINED_NULL_BOOL_STRINGID OR ATOMTYPE_STRINGID_BIT" i]
    by (simp add: getStringId_def isStringID_def has_flag_def tag_special)
      (simp add: fromStringID_def tag_defs or.assoc)
  show "setInt (scast i) = fromInt i" "setUInt i = fromUInt i" "setBool b = fromBool b"
    by (simp_all add: setInt_fromInt setUInt_fromUInt setBool_def fromBool_def)
  show "getObjectType otype (fromInt i) = T_INTEGER" "getObjectType otype (fromUInt i) = T_UINTEGER"
    "getObjectType otype (fromBool b) = T_BOOLEAN" "getObjectType otype (fromStringID i) = T_STRING"
    by (simp_all add: getObjectType_def Let_def tag_types tag_flags) (simp_all add: tag_defs)
  show "getObjectType otype invalidAtom = T_INVALID" "getObjectType otype undefinedAtom = T_UNDEFINED"
    "getObjectType otype nullAtom = T_NULL"
    by (simp_all add: getObjectType_def Let_def special_atoms tag_defs)
qed

end
