(* ===== verification/AtomArith.thy ===== *)
theory AtomArith
  imports Complex_Main Atoms "HOL-Library.Signed_Division"
begin

text \<open>
  Numbers in atoms: the doubles of \<open>fromNumber\<close>, the conversions \<open>toInt\<close>, \<open>toUInt\<close>, \<open>toInt64\<close> and
  \<open>getNumber\<close> of \<open>asAtomHandler\<close> (\<open>asobject.h\<close>), \<open>numberToInt\<close>, and the arithmetic of the interpreter on
  atoms.
\<close>

section \<open>Doubles\<close>

text \<open>The values of a \<open>number_t\<close>; the two zeros are one value here. \<open>dval\<close> reads the 64 bits of a double.\<close>

datatype number_t = NaN | NegInf | Fin rat | PosInf

definition dval :: "u64 \<Rightarrow> number_t" where
  "dval w =
     (let n = unat w; negative = n \<ge> 2 ^ 63; ex = n div 2 ^ 52 mod 2 ^ 11; ma = n mod 2 ^ 52;
          sign = (\<lambda>r. if negative then - r else r)
      in if ex = 2047 then (if ma \<noteq> 0 then NaN else if negative then NegInf else PosInf)
         else if ex = 0 then Fin (sign (of_nat ma / 2 ^ 1074))
         else if ex \<ge> 1075 then Fin (sign (of_nat ((2 ^ 52 + ma) * 2 ^ (ex - 1075))))
         else Fin (sign (of_nat (2 ^ 52 + ma) / 2 ^ (1075 - ex))))"

text \<open>The double an integer is converted to, rounded to the nearest one and to even when two are as near.\<close>

fun ilog2 :: "nat \<Rightarrow> nat" where
  "ilog2 n = (if n \<le> 1 then 0 else Suc (ilog2 (n div 2)))"

declare ilog2.simps [simp del]

definition significand :: "nat \<Rightarrow> nat" where
  "significand m =
     (let e = ilog2 m
      in if e \<le> 52 then m * 2 ^ (52 - e)
         else let s = 2 ^ (e - 52); q = m div s; r = m mod s
              in if 2 * r > s \<or> 2 * r = s \<and> odd q then q + 1 else q)"

definition double_of_int :: "int \<Rightarrow> u64" where
  "double_of_int i =
     (let m = nat \<bar>i\<bar>
      in if m = 0 then 0
         else of_nat ((if i < 0 then 2 ^ 63 else 0) + (ilog2 m + 1023) * 2 ^ 52 + (significand m - 2 ^ 52)))"

text \<open>\<open>quiet_NaN\<close> of \<open>numeric_limits<double>\<close>.\<close>

definition quiet_NaN :: u64 where "quiet_NaN = 0x7ff8000000000000"

text \<open>\<open>numberToInt\<close>, ToInt32 of ECMA-262: \<open>floor\<close>, \<open>fabs\<close> and \<open>fmod\<close> are exact on doubles.\<close>

definition numberToInt :: "number_t \<Rightarrow> u32" where
  "numberToInt val =
     (case val of
        Fin r \<Rightarrow>
          if r = 0 then 0
          else
            let posInt = \<lfloor>\<bar>r\<bar>\<rfloor>;
                posInt = (if posInt > 4294967295 then posInt mod 4294967296 else posInt)
            in if posInt \<ge> 2147483648 then
                 (if r < 0 then 0x80000000 - word_of_int (posInt - 2147483648)
                  else 0x80000000 + word_of_int (posInt - 2147483648))
               else word_of_int (if r < 0 then - posInt else posInt)
      | _ \<Rightarrow> 0)"

section \<open>Conversions\<close>

text \<open>
  What the conversions ask of the object an atom points to, or of the string with an identifier: its
  \<open>toInt\<close>, \<open>toUInt\<close>, \<open>toInt64\<close> and \<open>toNumber\<close> (the latter as the bits of a double); what the processor
  answers for a conversion of a double that does not fit into an \<open>int64_t\<close>, which C++ leaves undefined;
  and its arithmetic on doubles.
\<close>

record objects =
  object_type :: object_types
  object_toInt :: "asAtom \<Rightarrow> u32"
  object_toUInt :: "asAtom \<Rightarrow> u32"
  object_toInt64 :: "asAtom \<Rightarrow> u64"
  object_toNumber :: "asAtom \<Rightarrow> u64"
  string_toInt :: "u32 \<Rightarrow> u32"
  string_toUInt :: "u32 \<Rightarrow> u32"
  string_toInt64 :: "u32 \<Rightarrow> u64"
  string_toNumber :: "u32 \<Rightarrow> u64"
  double_overflow :: "number_t \<Rightarrow> u64"
  fpu_add :: "u64 \<Rightarrow> u64 \<Rightarrow> u64"
  fpu_subtract :: "u64 \<Rightarrow> u64 \<Rightarrow> u64"
  fpu_multiply :: "u64 \<Rightarrow> u64 \<Rightarrow> u64"
  fpu_fmod :: "u64 \<Rightarrow> u64 \<Rightarrow> u64"

text \<open>\<open>(int64_t)d\<close>, towards zero.\<close>

definition double_toInt64 :: "objects \<Rightarrow> u64 \<Rightarrow> u64" where
  "double_toInt64 ob d =
     (case dval d of
        Fin r \<Rightarrow> (let i = (if r < 0 then - \<lfloor>- r\<rfloor> else \<lfloor>r\<rfloor>)
                  in if - (2 ^ 63) \<le> i \<and> i < 2 ^ 63 then word_of_int i else double_overflow ob (Fin r))
      | n \<Rightarrow> double_overflow ob n)"

text \<open>The cases all of the conversions distinguish.\<close>

definition atom_switch :: "asAtom \<Rightarrow> (u32 \<Rightarrow> 'r) \<Rightarrow> (u32 \<Rightarrow> 'r) \<Rightarrow> (u32 \<Rightarrow> 'r) \<Rightarrow> 'r \<Rightarrow> (asAtom \<Rightarrow> 'r) \<Rightarrow> (u64 \<Rightarrow> 'r) \<Rightarrow> 'r" where
  "atom_switch a as_int as_uint as_string special as_object as_double =
     (let t = a AND ATOMTYPE_TYPE_BITS; payload = ucast (a AND ATOMTYPE_32BIT_BITS)
      in if t = ATOM_INTEGER then as_int payload
         else if t = ATOM_UINTEGER then as_uint payload
         else if t = ATOM_INVALID_UNDEFINED_NULL_BOOL_STRINGID then
           (if a AND ATOMTYPE_BIT_FLAGS = ATOMTYPE_STRINGID_BIT then as_string payload else special)
         else if t = ATOM_STRINGPTR \<or> t = ATOM_U_INTEGERPTR \<or> t = ATOM_NUMBERPTR \<or> t = ATOM_OBJECTPTR
           then as_object a
         else as_double a)"

definition is_true :: "asAtom \<Rightarrow> bool" where
  "is_true a \<longleftrightarrow> a AND ATOMTYPE_BOOL_BIT \<noteq> 0 \<and> a AND ATOMTYPE_BOOL_VALUE_BIT \<noteq> 0"

definition toInt :: "objects \<Rightarrow> asAtom \<Rightarrow> u32" where
  "toInt ob a = atom_switch a id id (string_toInt ob) (if is_true a then 1 else 0) (object_toInt ob)
     (\<lambda>d. numberToInt (dval d))"

definition toUInt :: "objects \<Rightarrow> asAtom \<Rightarrow> u32" where
  "toUInt ob a = atom_switch a id id (string_toUInt ob) (if is_true a then 1 else 0) (object_toUInt ob)
     (\<lambda>d. numberToInt (dval d))"

definition INT64_MAX :: u64 where "INT64_MAX = 0x7fffffffffffffff"

definition toInt64 :: "objects \<Rightarrow> asAtom \<Rightarrow> u64" where
  "toInt64 ob a = atom_switch a scast ucast (string_toInt64 ob) (if is_true a then 1 else 0) (object_toInt64 ob)
     (\<lambda>d. case dval d of Fin r \<Rightarrow> double_toInt64 ob d | _ \<Rightarrow> INT64_MAX)"

definition getNumber :: "objects \<Rightarrow> asAtom \<Rightarrow> u64" where
  "getNumber ob a = atom_switch a (\<lambda>x. double_of_int (sint x)) (\<lambda>x. double_of_int (uint x)) (string_toNumber ob)
     (if a AND ATOMTYPE_BOOL_BIT \<noteq> 0
      then (if a AND ATOMTYPE_BOOL_VALUE_BIT \<noteq> 0 then double_of_int 1 else double_of_int 0)
      else if a AND ATOMTYPE_UNDEFINED_BIT \<noteq> 0 then quiet_NaN else double_of_int 0)
     (object_toNumber ob) id"

definition fromNumber :: "u64 \<Rightarrow> asAtom" where
  "fromNumber val = val"

definition setNumber :: "u64 \<Rightarrow> asAtom" where
  "setNumber val = val"

section \<open>Arithmetic\<close>

text \<open>\<open>setInt\<close> on a value of type \<open>int\<close>, whose sign is extended to 64 bits.\<close>

definition setInt32 :: "u32 \<Rightarrow> asAtom" where
  "setInt32 i = setInt (scast i)"

text \<open>
  What \<open>add\<close>, \<open>subtract\<close> and \<open>multiply\<close> make of a result in \<open>int64_t\<close>: an int, a uint or a double. The
  bounds of the code leave the extreme values to the next kind.
\<close>

definition store_result :: "bool \<Rightarrow> u64 \<Rightarrow> asAtom" where
  "store_result forceint res' =
     (if forceint \<or> (sint res' > - 2147483648 \<and> sint res' < 2147483647) then setInt32 (ucast res')
      else if sint res' \<ge> 0 \<and> sint res' < 4294967295 then setUInt (ucast res')
      else fromNumber (double_of_int (sint res')))"

definition store_double :: "objects \<Rightarrow> bool \<Rightarrow> u64 \<Rightarrow> asAtom" where
  "store_double ob forceint d = (if forceint then setInt (double_toInt64 ob d) else fromNumber d)"

text \<open>The test of \<open>subtract\<close>, \<open>multiply\<close> and \<open>modulo\<close> for two integers.\<close>

definition both_integers :: "objects \<Rightarrow> asAtom \<Rightarrow> asAtom \<Rightarrow> bool" where
  "both_integers ob a v2 \<longleftrightarrow>
     (a AND ATOMTYPE_TYPE_BITS = ATOM_INTEGER \<or> a AND ATOMTYPE_TYPE_BITS = ATOM_UINTEGER) \<and>
     (isInteger (object_type ob) v2 \<or> v2 AND ATOMTYPE_TYPE_BITS = ATOM_UINTEGER)"

definition subtract :: "objects \<Rightarrow> asAtom \<Rightarrow> asAtom \<Rightarrow> bool \<Rightarrow> asAtom" where
  "subtract ob a v2 forceint =
     (if both_integers ob a v2 then store_result forceint (toInt64 ob a - toInt64 ob v2)
      else store_double ob forceint (fpu_subtract ob (getNumber ob a) (getNumber ob v2)))"

definition multiply :: "objects \<Rightarrow> asAtom \<Rightarrow> asAtom \<Rightarrow> bool \<Rightarrow> asAtom" where
  "multiply ob a v2 forceint =
     (if both_integers ob a v2 then store_result forceint (toInt64 ob a * toInt64 ob v2)
      else store_double ob forceint (fpu_multiply ob (getNumber ob v2) (getNumber ob a)))"

text \<open>\<open>add\<close> on numbers; \<open>None\<close> where it goes on with strings and objects.\<close>

definition add :: "objects \<Rightarrow> asAtom \<Rightarrow> asAtom \<Rightarrow> bool \<Rightarrow> asAtom option" where
  "add ob a v2 forceint =
     (let ot = object_type ob
      in if (isInteger ot a \<or> isUInteger ot a) \<and> (isInteger ot v2 \<or> isUInteger ot v2)
         then Some (store_result forceint (toInt64 ob a + toInt64 ob v2))
         else if (isInteger ot a \<or> isUInteger ot a \<or> isNumber ot a) \<and>
                 (isNumber ot v2 \<or> isInteger ot v2 \<or> isUInteger ot v2)
         then Some (store_double ob forceint (fpu_add ob (getNumber ob a) (getNumber ob v2)))
         else None)"

text \<open>The \<open>%\<close> of C++ on \<open>int\<close>; a division by zero and \<open>INT_MIN % -1\<close> trap.\<close>

definition int_rem :: "u32 \<Rightarrow> u32 \<Rightarrow> u32 res" where
  "int_rem x y = (if y = 0 \<or> (sint x = - 2147483648 \<and> sint y = - 1) then Inl ArithmeticTrap
     else Inr (word_of_int (sint x smod sint y)))"

definition modulo_doubles :: "objects \<Rightarrow> asAtom \<Rightarrow> asAtom \<Rightarrow> bool \<Rightarrow> asAtom" where
  "modulo_doubles ob a v2 forceint = store_double ob forceint (fpu_fmod ob (getNumber ob a) (getNumber ob v2))"

definition modulo :: "objects \<Rightarrow> asAtom \<Rightarrow> asAtom \<Rightarrow> bool \<Rightarrow> asAtom res" where
  "modulo ob a v2 forceint =
     (if both_integers ob a v2 then
        let num1 = toInt ob a; num2 = toInt ob v2
        in if \<not> forceint \<and> num2 = 0 then Inr (setNumber quiet_NaN)
           else bindE (int_rem num1 num2) (\<lambda>r. Inr (setInt32 r))
      else Inr (modulo_doubles ob a v2 forceint))"

definition moduloreplace :: "objects \<Rightarrow> asAtom \<Rightarrow> asAtom \<Rightarrow> bool \<Rightarrow> asAtom res" where
  "moduloreplace ob v1 v2 forceint =
     (if both_integers ob v1 v2 then
        let num1 = toInt ob v1; num2 = toInt ob v2
        in if \<not> forceint \<and> num2 = 0 then Inr (setNumber quiet_NaN)
           else if num2 = 0 then Inr (setInt32 0)
           else bindE (int_rem num1 num2) (\<lambda>r. Inr (setInt32 r))
      else Inr (modulo_doubles ob v1 v2 forceint))"

text \<open>The increment of a double: integers become an int or a uint again.\<close>

definition is_integral :: "rat \<Rightarrow> bool" where
  "is_integral r \<longleftrightarrow> of_int \<lfloor>r\<rfloor> = r"

definition increment_double :: "objects \<Rightarrow> u64 \<Rightarrow> asAtom" where
  "increment_double ob n =
     (case dval n of
        Fin r \<Rightarrow>
          if is_integral r \<and> r \<ge> - 2147483648 \<and> r < 4294967295 then
            (if r < 2147483647 then setInt (word_of_int (\<lfloor>r\<rfloor> + 1)) else setUInt (word_of_int (\<lfloor>r\<rfloor> + 1)))
          else setNumber (fpu_add ob n (double_of_int 1))
      | _ \<Rightarrow> setNumber n)"

definition decrement_double :: "objects \<Rightarrow> u64 \<Rightarrow> asAtom" where
  "decrement_double ob n =
     (case dval n of
        Fin r \<Rightarrow>
          if is_integral r \<and> r > - 2147483648 \<and> r \<le> 4294967295 then
            (if r \<le> 2147483647 then setInt (word_of_int (\<lfloor>r\<rfloor> - 1)) else setUInt (word_of_int (\<lfloor>r\<rfloor> - 1)))
          else setNumber (fpu_subtract ob n (double_of_int 1))
      | _ \<Rightarrow> setNumber n)"

definition is_finite :: "u64 \<Rightarrow> bool" where
  "is_finite n = (case dval n of Fin _ \<Rightarrow> True | _ \<Rightarrow> False)"

definition increment :: "objects \<Rightarrow> asAtom \<Rightarrow> asAtom" where
  "increment ob a =
     (let t = a AND ATOMTYPE_TYPE_BITS; f = a AND ATOMTYPE_BIT_FLAGS; payload = ucast (a AND ATOMTYPE_32BIT_BITS) :: u32
      in if t = ATOM_INVALID_UNDEFINED_NULL_BOOL_STRINGID then
           (if f = ATOMTYPE_NULL_BIT then setInt 1
            else if f = ATOMTYPE_UNDEFINED_BIT then setNumber quiet_NaN
            else if f = ATOMTYPE_BOOL_BIT then setInt ((if a AND ATOMTYPE_BOOL_VALUE_BIT \<noteq> 0 then 1 else 0) + 1)
            else if f = ATOMTYPE_STRINGID_BIT then setNumber (fpu_add ob (string_toNumber ob payload) (double_of_int 1))
            else a)
         else if t = ATOM_INTEGER then setInt32 (payload + 1)
         else if t = ATOM_UINTEGER then setUInt (payload + 1)
         else if t = ATOM_NUMBERPTR then
           (if is_finite (object_toNumber ob a) then increment_double ob (object_toNumber ob a) else a)
         else increment_double ob (getNumber ob a))"

definition decrement :: "objects \<Rightarrow> asAtom \<Rightarrow> asAtom" where
  "decrement ob a =
     (let t = a AND ATOMTYPE_TYPE_BITS; f = a AND ATOMTYPE_BIT_FLAGS; payload = ucast (a AND ATOMTYPE_32BIT_BITS) :: u32
      in if t = ATOM_INVALID_UNDEFINED_NULL_BOOL_STRINGID then
           (if f = ATOMTYPE_NULL_BIT then setInt (- 1)
            else if f = ATOMTYPE_UNDEFINED_BIT then setNumber quiet_NaN
            else if f = ATOMTYPE_BOOL_BIT then setInt ((if a AND ATOMTYPE_BOOL_VALUE_BIT \<noteq> 0 then 1 else 0) - 1)
            else if f = ATOMTYPE_STRINGID_BIT
              then setNumber (fpu_subtract ob (string_toNumber ob payload) (double_of_int 1))
            else a)
         else if t = ATOM_INTEGER then setInt ((a AND ATOMTYPE_32BIT_BITS) - 1)
         else if t = ATOM_UINTEGER then
           (if payload > 0 then setUInt (payload - 1) else setInt (- 1))
         else if t = ATOM_NUMBERPTR then
           (if is_finite (object_toNumber ob a) then decrement_double ob (object_toNumber ob a) else a)
         else decrement_double ob (getNumber ob a))"

text \<open>The operations on \<open>int\<close>; they wrap around.\<close>

definition increment_i :: "objects \<Rightarrow> asAtom \<Rightarrow> u32 \<Rightarrow> asAtom" where
  "increment_i ob a amount = setInt32 (toInt ob a + amount)"

definition decrement_i :: "objects \<Rightarrow> asAtom \<Rightarrow> u32 \<Rightarrow> asAtom" where
  "decrement_i ob a amount = setInt32 (toInt ob a - amount)"

definition negate_i :: "objects \<Rightarrow> asAtom \<Rightarrow> asAtom" where
  "negate_i ob a = setInt32 (- toInt ob a)"

definition add_i :: "objects \<Rightarrow> asAtom \<Rightarrow> asAtom \<Rightarrow> asAtom" where
  "add_i ob a v2 = setInt (scast (toInt ob a) + scast (toInt ob v2))"

definition subtract_i :: "objects \<Rightarrow> asAtom \<Rightarrow> asAtom \<Rightarrow> asAtom" where
  "subtract_i ob a v2 = setInt32 (toInt ob a - toInt ob v2)"

definition multiply_i :: "objects \<Rightarrow> asAtom \<Rightarrow> asAtom \<Rightarrow> asAtom" where
  "multiply_i ob a v2 = setInt (scast (toInt ob a * toInt ob v2))"

definition bit_xor :: "objects \<Rightarrow> asAtom \<Rightarrow> asAtom \<Rightarrow> asAtom" where
  "bit_xor ob a v1 = setInt32 (toInt ob v1 XOR toInt ob a)"

definition bit_and :: "objects \<Rightarrow> asAtom \<Rightarrow> asAtom \<Rightarrow> asAtom" where
  "bit_and ob a v1 = setInt32 (toInt ob v1 AND toInt ob a)"

definition bit_or :: "objects \<Rightarrow> asAtom \<Rightarrow> asAtom \<Rightarrow> asAtom" where
  "bit_or ob a v1 = setInt32 (toInt ob v1 OR toInt ob a)"

definition bitnot :: "objects \<Rightarrow> asAtom \<Rightarrow> asAtom" where
  "bitnot ob a = setInt32 (NOT (toInt ob a))"

definition lshift :: "objects \<Rightarrow> asAtom \<Rightarrow> asAtom \<Rightarrow> asAtom" where
  "lshift ob a v1 = setInt32 (push_bit (unat (toUInt ob v1 AND 0x1f)) (toInt ob a))"

definition rshift :: "objects \<Rightarrow> asAtom \<Rightarrow> asAtom \<Rightarrow> asAtom" where
  "rshift ob a v1 = setInt32 (signed_drop_bit (unat (toUInt ob v1 AND 0x1f)) (toInt ob a))"

definition urshift :: "objects \<Rightarrow> asAtom \<Rightarrow> asAtom \<Rightarrow> asAtom" where
  "urshift ob a v1 = setUInt (drop_bit (unat (toUInt ob v1 AND 0x1f)) (toUInt ob a))"

section \<open>Doubles of integers\<close>

lemma ilog2_1: "ilog2 (Suc 0) = 0"
  by (subst ilog2.simps) simp

lemma ilog2_bounds: "0 < m \<Longrightarrow> 2 ^ ilog2 m \<le> m \<and> m < 2 ^ (ilog2 m + 1)"
proof (induction m rule: ilog2.induct)
  case (1 n)
  show ?case
  proof (cases "n \<le> 1")
    case True
    with 1 have "n = 1"
      by simp
    then show ?thesis
      by (simp add: ilog2_1)
  next
    case False
    with 1 have IH: "2 ^ ilog2 (n div 2) \<le> n div 2" "n div 2 < 2 ^ (ilog2 (n div 2) + 1)"
      by simp_all
    have e: "ilog2 n = Suc (ilog2 (n div 2))"
      using False by (simp add: ilog2.simps [of n])
    have "2 * 2 ^ ilog2 (n div 2) \<le> n" "n < 2 * 2 ^ (ilog2 (n div 2) + 1)"
      using IH by linarith+
    then show ?thesis
      by (simp add: e)
  qed
qed

lemma double_fields:
  fixes E ma :: nat
  assumes "E < 2048" "ma < 2 ^ 52" and n: "n = (if s then 2 ^ 63 else 0) + E * 2 ^ 52 + ma"
  shows "unat (of_nat n :: u64) = n" "n div 2 ^ 52 mod 2 ^ 11 = E" "n mod 2 ^ 52 = ma" "2 ^ 63 \<le> n \<longleftrightarrow> s"
proof -
  define S :: nat where "S = (if s then 1 else 0)"
  have n': "n = ma + 2 ^ 52 * (E + 2 ^ 11 * S)"
    by (simp add: n S_def)
  have "n div 2 ^ 52 = E + 2 ^ 11 * S"
    unfolding n' using assms(2) by simp
  then show "n div 2 ^ 52 mod 2 ^ 11 = E"
    using assms(1) by simp
  show "n mod 2 ^ 52 = ma"
    unfolding n' using assms(2) by (simp only: mod_mult_self2) simp
  have "E * 2 ^ 52 + ma < 2 ^ 63"
    using assms(1,2) by simp
  then show "2 ^ 63 \<le> n \<longleftrightarrow> s"
    by (simp add: n)
  have "n < 2 ^ 64"
    using \<open>E * 2 ^ 52 + ma < 2 ^ 63\<close> by (simp add: n)
  then show "unat (of_nat n :: u64) = n"
    by (simp add: unat_of_nat)
qed

lemma dval_fields:
  assumes "0 < E" "E < 2047" "ma < 2 ^ 52"
  shows "dval (of_nat ((if s then 2 ^ 63 else 0) + E * 2 ^ 52 + ma)) =
    Fin ((if s then - 1 else 1) * (if E \<ge> 1075 then of_nat ((2 ^ 52 + ma) * 2 ^ (E - 1075))
       else of_nat (2 ^ 52 + ma) / 2 ^ (1075 - E)))"
proof -
  define n where "n = (if s then 2 ^ 63 else 0) + E * 2 ^ 52 + ma"
  note f = double_fields [of E ma n s, OF _ _ n_def]
  show ?thesis
    unfolding dval_def Let_def n_def [symmetric]
    using f assms by (simp add: diff_divide_distrib add_divide_distrib)
qed

lemma significand_range:
  assumes "0 < m" "m < 2 ^ 53"
  shows "ilog2 m \<le> 52" "2 ^ 52 \<le> significand m" "significand m < 2 ^ 53" "significand m = m * 2 ^ (52 - ilog2 m)"
proof -
  note b = ilog2_bounds [OF assms(1)]
  show e: "ilog2 m \<le> 52"
  proof (rule ccontr)
    assume "\<not> ilog2 m \<le> 52"
    then have "(2 :: nat) ^ 53 \<le> 2 ^ ilog2 m"
      by (intro power_increasing) auto
    with b assms(2) show False
      by linarith
  qed
  show s: "significand m = m * 2 ^ (52 - ilog2 m)"
    using e by (simp add: significand_def Let_def)
  have "(2 :: nat) ^ ilog2 m * 2 ^ (52 - ilog2 m) \<le> m * 2 ^ (52 - ilog2 m)"
    using b by (intro mult_right_mono) auto
  then show "2 ^ 52 \<le> significand m"
    using e by (simp add: s flip: power_add)
  have "m * 2 ^ (52 - ilog2 m) < 2 ^ (ilog2 m + 1) * 2 ^ (52 - ilog2 m)"
    using b by (intro mult_strict_right_mono) auto
  then show "significand m < 2 ^ 53"
    using e by (simp add: s flip: power_add power_Suc)
qed

lemma ilog2_2_53: "ilog2 9007199254740992 = 53"
proof -
  have "ilog2 (2 ^ k) = k" for k
  proof (induction k)
    case (Suc k)
    have "1 \<le> (2 :: nat) ^ k"
      by simp
    then have "\<not> 2 ^ Suc k \<le> (1 :: nat)"
      unfolding power_Suc by linarith
    with Suc show ?case
      by (subst ilog2.simps) (simp del: One_nat_def)
  qed (simp add: ilog2_1)
  from this [of 53] show ?thesis
    by simp
qed

lemma dval_double_of_int:
  assumes "\<bar>i\<bar> \<le> 2 ^ 53"
  shows "dval (double_of_int i) = Fin (of_int i)"
proof -
  define m where "m = nat \<bar>i\<bar>"
  have i: "of_int i = (if i < 0 then - 1 else 1) * (of_nat m :: rat)"
    by (simp add: m_def)
  have "m \<le> 2 ^ 53"
    using assms by (simp add: m_def nat_le_iff)
  then consider "m = 0" | "0 < m" "m < 2 ^ 53" | "m = 2 ^ 53"
    by linarith
  then show ?thesis
  proof cases
    case 1
    then show ?thesis
      by (simp add: double_of_int_def m_def dval_def)
  next
    case 2
    note r = significand_range [OF 2]
    have "dval (double_of_int i) = Fin ((if i < 0 then - 1 else 1) *
        (if ilog2 m + 1023 \<ge> 1075 then of_nat ((2 ^ 52 + (significand m - 2 ^ 52)) * 2 ^ (ilog2 m + 1023 - 1075))
         else of_nat (2 ^ 52 + (significand m - 2 ^ 52)) / 2 ^ (1075 - (ilog2 m + 1023))))"
      using 2 r dval_fields [of "ilog2 m + 1023" "significand m - 2 ^ 52" "i < 0"]
      by (simp add: double_of_int_def Let_def flip: m_def)
    also have "(if ilog2 m + 1023 \<ge> 1075 then of_nat ((2 ^ 52 + (significand m - 2 ^ 52)) * 2 ^ (ilog2 m + 1023 - 1075))
         else of_nat (2 ^ 52 + (significand m - 2 ^ 52)) / 2 ^ (1075 - (ilog2 m + 1023))) = (of_nat m :: rat)"
      using r(1,2) by (auto simp: r(4) of_nat_diff)
    finally show ?thesis
      by (simp add: i)
  next
    case 3
    have "significand m = 2 ^ 52"
      by (simp add: significand_def Let_def ilog2_2_53 3)
    then show ?thesis
      using dval_fields [of 1076 0 "i < 0"] 3
      by (simp add: double_of_int_def Let_def ilog2_2_53 i flip: m_def)
  qed
qed


section \<open>Doubles and tags\<close>

lemma nan_of_large:
  assumes "0xfff1000000000000 \<le> w"
  shows "dval w = NaN"
proof -
  define n where "n = unat w"
  have "n < 2 ^ 64"
    using unsigned_less [of w] by (simp add: n_def)
  have "0xfff1 * 2 ^ 48 \<le> n"
    using assms by (simp add: n_def word_le_nat_alt)
  then obtain d where d: "n = 0xfff1 * 2 ^ 48 + d"
    using le_Suc_ex by blast
  then have "d < 15 * 2 ^ 48"
    using \<open>n < 2 ^ 64\<close> by simp
  have n: "n = (1 * 2 ^ 48 + d) + 2 ^ 52 * 4095"
    by (simp add: d)
  have "n div 2 ^ 52 = 4095"
    using \<open>d < 15 * 2 ^ 48\<close> unfolding n by simp
  moreover have "n mod 2 ^ 52 = 1 * 2 ^ 48 + d"
    using \<open>d < 15 * 2 ^ 48\<close> unfolding n by (simp only: mod_mult_self2) simp
  ultimately show ?thesis
    by (simp add: dval_def Let_def flip: n_def)
qed

text \<open>A test for set bits from this range only succeeds on a NaN.\<close>

lemma not_tagged:
  assumes "dval w \<noteq> NaN" "0xfff1000000000000 \<le> t"
  shows "w AND M \<noteq> t"
proof
  assume "w AND M = t"
  then have "t \<le> w"
    using word_and_le2 by blast
  then have "0xfff1000000000000 \<le> w"
    using assms(2) order_trans by blast
  then show False
    using assms(1) nan_of_large by blast
qed

lemma quiet_NaN_tag: "quiet_NaN AND ATOMTYPE_TYPE_BITS = 0x7ff8000000000000"
  by (simp add: quiet_NaN_def tag_defs)

lemma getNumber_double: "dval w \<noteq> NaN \<Longrightarrow> getNumber ob w = w"
  using not_tagged [of w] by (simp add: getNumber_def atom_switch_def Let_def tag_defs)

text \<open>
  A double that is not a NaN is a Number for every test of the code and nothing else: neither
  an integer, an object, nor one of the special values; and its value is the double itself.
\<close>

theorem doubles_are_numbers:
  assumes "dval w \<noteq> NaN"
  shows "isNumber otype (fromNumber w) \<and> getObjectType otype (fromNumber w) = T_NUMBER
    \<and> \<not> isInteger otype (fromNumber w) \<and> \<not> isUInteger otype (fromNumber w) \<and> \<not> isObject (fromNumber w)
    \<and> isValid (fromNumber w) \<and> \<not> isUndefined (fromNumber w) \<and> \<not> isNull (fromNumber w)
    \<and> \<not> isBool (fromNumber w) \<and> \<not> isStringID (fromNumber w) \<and> getNumber ob (fromNumber w) = w"
proof -
  have "isValid w"
    using not_tagged [OF assms, of _ "- 1"] by (simp add: isValid_def tag_defs)
  then show ?thesis
    using not_tagged [OF assms] getNumber_double [OF assms, of ob]
    by (simp add: fromNumber_def isNumber_def getObjectType_def isInteger_def isUInteger_def isObject_def
        isUndefined_def isNull_def isBool_def isStringID_def has_flag_def Let_def tag_defs)
qed

lemma doubles_are_numbers_witness:
  "isNumber (\<lambda>_. T_OBJECT) (fromNumber 0x3ff0000000000000) \<and> \<not> isObject (fromNumber 0x3ff0000000000000)"
  using doubles_are_numbers [of "0x3ff0000000000000" "\<lambda>_. T_OBJECT"] by (simp add: dval_def Let_def)

text \<open>NaNs with their sign bit set are another matter: this one passes as an object with a chosen address.\<close>

lemma nan_is_object: "dval 0xffff123456789abc = NaN" "isObject (fromNumber 0xffff123456789abc)"
  "\<not> isNumber (\<lambda>_. T_OBJECT) (fromNumber 0xffff123456789abc)"
  by (simp_all add: dval_def Let_def isObject_def isNumber_def fromNumber_def tag_defs)

text \<open>So does a negative signalling NaN, which lies outside of the range the comments reserve.\<close>

lemma signalling_nan_is_object: "isObject (fromNumber 0xfff4000000000000)"
  "isNumber (\<lambda>_. T_OBJECT) (fromNumber 0xfff4000000000000)" "dval 0xfff0000000000000 = NegInf"
  by (simp_all add: dval_def Let_def isObject_def isNumber_def fromNumber_def tag_defs)

section \<open>ToInt32\<close>

text \<open>\<open>numberToInt\<close> is ToInt32 of ECMA-262: the integer part of the number, modulo 2 to the 32, and 0
  for NaN and the infinities.
\<close>

theorem numberToInt_correct:
  "numberToInt NaN = 0 \<and> numberToInt PosInf = 0 \<and> numberToInt NegInf = 0
   \<and> numberToInt (Fin r) = word_of_int ((if r < 0 then - 1 else 1) * \<lfloor>\<bar>r\<bar>\<rfloor>)"
proof -
  define p where "p = \<lfloor>\<bar>r\<bar>\<rfloor>"
  define q where "q = (if p > 4294967295 then p mod 4294967296 else p)"
  have "0 \<le> p"
    by (simp add: p_def)
  have wq: "(word_of_int q :: u32) = word_of_int p"
    unfolding q_def by (simp add: word_of_int_eq_iff take_bit_eq_mod)
  have "(word_of_int (q - 2147483648) :: u32) = word_of_int q - 0x80000000"
    by simp
  moreover have "(0x80000000 :: u32) - (x - 0x80000000) = - x" "(0x80000000 :: u32) + (x - 0x80000000) = x" for x
  proof -
    have "(0x80000000 :: u32) - (x - 0x80000000) = (0x80000000 + 0x80000000) - x"
      by (simp only: diff_diff_eq2)
    moreover have "(0x80000000 :: u32) + 0x80000000 = 0"
      by simp
    ultimately show "(0x80000000 :: u32) - (x - 0x80000000) = - x"
      by (simp only: diff_0)
  qed (simp only: add_diff_eq add_diff_cancel_left')
  ultimately have "r \<noteq> 0 \<Longrightarrow> numberToInt (Fin r) = (if r < 0 then - word_of_int q else word_of_int q)"
    unfolding numberToInt_def Let_def number_t.case p_def [symmetric] q_def [symmetric]
    by (simp only: if_False if_cancel split: if_split) simp
  then have "numberToInt (Fin r) = word_of_int ((if r < 0 then - 1 else 1) * p)"
    unfolding wq by (cases "r = 0") (simp_all add: numberToInt_def p_def)
  then show ?thesis
    by (simp add: numberToInt_def p_def)
qed


section \<open>Integers\<close>

text \<open>\<open>int_atom a x\<close>: the atom is an int or a uint of value \<open>x\<close>.\<close>

definition int_atom :: "asAtom \<Rightarrow> int \<Rightarrow> bool" where
  "int_atom a x \<longleftrightarrow> (- 2147483648 \<le> x \<and> x < 2147483648 \<and> a = fromInt (word_of_int x))
     \<or> (0 \<le> x \<and> x < 4294967296 \<and> a = fromUInt (word_of_int x))"

lemma tag_payloads:
  "ucast (fromInt i AND ATOMTYPE_32BIT_BITS) = i" "ucast (fromUInt i AND ATOMTYPE_32BIT_BITS) = i"
  using payload_read [of ATOM_INTEGER i] payload_read [of ATOM_UINTEGER i]
  by (simp_all add: fromInt_ucast fromUInt_ucast tag_defs)

lemma switch_int:
  "atom_switch (fromInt i) f g h s obj d = f i" "atom_switch (fromUInt i) f g h s obj d = g i"
  by (simp_all add: atom_switch_def Let_def tag_types tag_payloads) (simp add: tag_defs)

lemma tags_differ: "ATOM_INTEGER \<noteq> ATOM_UINTEGER" "ATOM_UINTEGER \<noteq> ATOM_INTEGER"
  "ATOM_INTEGER \<noteq> ATOM_INVALID_UNDEFINED_NULL_BOOL_STRINGID" "ATOM_UINTEGER \<noteq> ATOM_INVALID_UNDEFINED_NULL_BOOL_STRINGID"
  by (simp_all add: tag_defs)

lemma sint_int32: "- 2147483648 \<le> x \<Longrightarrow> x < 2147483648 \<Longrightarrow> sint (word_of_int x :: u32) = x"
  by (simp add: sint_sbintrunc' signed_take_bit_int_eq_self)

lemma uint_uint32: "0 \<le> x \<Longrightarrow> x < 4294967296 \<Longrightarrow> uint (word_of_int x :: u32) = x"
  by (simp add: uint_word_of_int take_bit_int_eq_self)

lemma int_atom_number: "int_atom a x \<Longrightarrow> getNumber ob a = double_of_int x"
  by (auto simp: int_atom_def getNumber_def switch_int sint_int32 uint_uint32)

lemma int_atom_int64: "int_atom a x \<Longrightarrow> toInt64 ob a = word_of_int x"
  by (auto simp: int_atom_def toInt64_def switch_int scast_eq ucast_eq sint_int32 uint_uint32)

lemma int_atom_int: "int_atom a x \<Longrightarrow> toInt ob a = word_of_int x"
  by (auto simp: int_atom_def toInt_def switch_int)

lemma int_atom_range: "int_atom a x \<Longrightarrow> - 2147483648 \<le> x \<and> x < 4294967296"
  by (auto simp: int_atom_def)

lemma int_atom_tests:
  assumes "int_atom a x" "int_atom b y"
  shows "both_integers ob a b" "isInteger ot a \<or> isUInteger ot a"
  using assms by (auto simp: int_atom_def both_integers_def isInteger_def isUInteger_def tag_types)

lemma sint_int64: "- (2 ^ 63) \<le> r \<Longrightarrow> r < 2 ^ 63 \<Longrightarrow> sint (word_of_int r :: u64) = r"
  by (simp add: sint_sbintrunc' signed_take_bit_int_eq_self)

lemma store_result_number:
  assumes "\<bar>r\<bar> \<le> 2 ^ 53"
  shows "getNumber ob (store_result False (word_of_int r)) = double_of_int r"
proof -
  have s: "sint (word_of_int r :: u64) = r"
    using assms by (intro sint_int64) simp_all
  have u: "ucast (word_of_int r :: u64) = (word_of_int r :: u32)"
    by (simp add: ucast_eq uint_word_of_int word_of_int_eq_iff take_bit_eq_mod mod_mod_cancel)
  consider "- 2147483648 < r" "r < 2147483647" | "\<not> (- 2147483648 < r \<and> r < 2147483647)" "0 \<le> r" "r < 4294967295"
    | "\<not> (- 2147483648 < r \<and> r < 2147483647)" "\<not> (0 \<le> r \<and> r < 4294967295)"
    by blast
  then show ?thesis
  proof cases
    case 1
    then have "int_atom (fromInt (word_of_int r)) r"
      by (simp add: int_atom_def)
    with 1 int_atom_number [OF this, of ob] show ?thesis
      by (simp add: store_result_def s u setInt32_def setInt_fromInt ucast_scast_32)
  next
    case 2
    then have "int_atom (fromUInt (word_of_int r)) r"
      by (simp add: int_atom_def)
    with 2 int_atom_number [OF this, of ob] show ?thesis
      by (auto simp: store_result_def s u setUInt_fromUInt)
  next
    case 3
    then have "store_result False (word_of_int r) = double_of_int r"
      by (auto simp: store_result_def s fromNumber_def)
    then show ?thesis
      using assms dval_double_of_int [of r] by (simp add: getNumber_double)
  qed
qed


lemma int_atom_small: "int_atom a x \<Longrightarrow> \<bar>x\<bar> \<le> 4294967296"
  using int_atom_range [of a x] by (simp add: abs_le_iff)

lemma int_atom_finite: "int_atom a x \<Longrightarrow> dval (getNumber ob a) = Fin (of_int x)"
  using int_atom_small [of a x] by (simp add: int_atom_number dval_double_of_int)

lemma store_result_value:
  "\<bar>r\<bar> \<le> 2 ^ 53 \<Longrightarrow> dval (getNumber ob (store_result False (word_of_int r))) = Fin (of_int r)"
  by (simp add: store_result_number dval_double_of_int)

lemma int_atom_fromInt: "- 2147483648 \<le> x \<Longrightarrow> x < 2147483648 \<Longrightarrow> int_atom (fromInt (word_of_int x)) x"
  by (simp add: int_atom_def)

lemma int_atom_fromUInt: "0 \<le> x \<Longrightarrow> x < 4294967296 \<Longrightarrow> int_atom (fromUInt (word_of_int x)) x"
  by (simp add: int_atom_def)

lemma int_atomE:
  assumes "int_atom a x"
  obtains "- 2147483648 \<le> x" "x < 2147483648" "a = fromInt (word_of_int x)"
    | "0 \<le> x" "x < 4294967296" "a = fromUInt (word_of_int x)"
  using assms by (auto simp: int_atom_def)

text \<open>Some 32-bit values have two names.\<close>

lemma u32_names: "(- 2147483648 :: u32) = 0x80000000" "(- 1 :: u32) = 0xffffffff" "(0x100000000 :: u32) = 0"
  "(18446744071562067968 :: u32) = 0x80000000"
  by simp_all

lemma ucast_m1: "ucast (- 1 :: u64) = (- 1 :: u32)"
  by (rule bit_word_eqI) (simp add: bit_simps)

lemma fromInt_names: "fromInt (- 2147483648) = fromInt 0x80000000" "fromInt (- 1) = fromInt 0xffffffff"
  "fromInt 18446744071562067968 = fromInt 0x80000000" "fromUInt 0x100000000 = fromUInt 0"
  by (simp_all only: u32_names)

lemmas step_simps = Let_def tag_types tag_payloads tags_differ setInt32_def setInt_fromInt setUInt_fromUInt
  ucast_scast_32

lemma increment_int:
  assumes "int_atom a x" "a \<notin> {fromInt 0x7fffffff, fromUInt 0xffffffff}"
  shows "int_atom (increment ob a) (x + 1)"
  using assms(1)
proof (cases rule: int_atomE)
  case 1
  with assms(2) have "x \<noteq> 2147483647"
    by auto
  moreover have "increment ob a = fromInt (word_of_int (x + 1))"
    by (simp add: 1 increment_def step_simps)
  ultimately show ?thesis
    using 1 by (simp add: int_atom_fromInt del: wi_hom_add of_int_add)
next
  case 2
  with assms(2) have "x \<noteq> 4294967295"
    by auto
  moreover have "increment ob a = fromUInt (word_of_int (x + 1))"
    by (simp add: 2 increment_def step_simps)
  ultimately show ?thesis
    using 2 by (simp add: int_atom_fromUInt del: of_int_add)
qed

lemma payload_64: "(fromInt i AND ATOMTYPE_32BIT_BITS) = ucast i"
  by (simp add: fromInt_ucast bit.conj_disj_distrib2 tag_defs ucast_32_and)

lemma ucast_minus_1: "ucast (ucast (i :: u32) - 1 :: u64) = i - 1"
proof -
  have "ucast (x - 1 :: u64) = (ucast x - 1 :: u32)" for x
    by (rule word_uint_eqI) (simp add: uint_word_ariths unsigned_ucast_eq take_bit_eq_mod mod_simps mod_mod_cancel)
  then show ?thesis
    by (simp add: ucast_ucast_32)
qed

lemma decrement_int:
  assumes "int_atom a x" "a \<noteq> fromInt 0x80000000"
  shows "int_atom (decrement ob a) (x - 1)"
  using assms(1)
proof (cases rule: int_atomE)
  case 1
  with assms(2) have "x \<noteq> - 2147483648"
    by (auto simp: fromInt_names)
  moreover have "decrement ob a = fromInt (word_of_int (x - 1))"
    using ucast_minus_1 [of "word_of_int x"] by (simp add: 1 decrement_def step_simps payload_64)
  ultimately show ?thesis
    using 1 by (simp add: int_atom_fromInt del: of_int_diff)
next
  case 2
  show ?thesis
  proof (cases "x = 0")
    case True
    then show ?thesis
      using int_atom_fromInt [of "- 1"] by (simp add: 2 decrement_def step_simps ucast_m1)
  next
    case False
    then have "(word_of_int x :: u32) > 0"
      using 2 by (simp add: word_less_def uint_uint32)
    then have "decrement ob a = fromUInt (word_of_int (x - 1))"
      by (simp add: 2 decrement_def step_simps)
    with False 2 show ?thesis
      by (simp add: int_atom_fromUInt del: of_int_diff)
  qed
qed

text \<open>C14: The arithmetic of the interpreter on ints and uints is exact where the result fits into a double:
  the difference, the sum and the product of two integer atoms have the value of the difference, the sum
  and the product of their values, whichever kind of atom stores them; and so do the successor and the
  predecessor, except those of the largest int and uint and of the smallest int.
\<close>

theorem arithmetic_exact:
  assumes "int_atom a x" and "int_atom b y"
  shows "dval (getNumber ob (subtract ob a b False)) = Fin (of_int (x - y))
    \<and> (\<exists>r. add ob a b False = Some r \<and> dval (getNumber ob r) = Fin (of_int (x + y)))
    \<and> (\<bar>x * y\<bar> \<le> 2 ^ 53 \<longrightarrow> dval (getNumber ob (multiply ob a b False)) = Fin (of_int (x * y)))
    \<and> (a \<notin> {fromInt 0x7fffffff, fromUInt 0xffffffff} \<longrightarrow>
         dval (getNumber ob (increment ob a)) = Fin (of_int (x + 1)))
    \<and> (a \<noteq> fromInt 0x80000000 \<longrightarrow> dval (getNumber ob (decrement ob a)) = Fin (of_int (x - 1)))"
proof (intro conjI impI)
  note b = int_atom_tests [OF assms] and c = int_atom_tests(2) [OF assms(2) assms(1), of "object_type ob"]
    and i = int_atom_int64 [OF assms(1), of ob] int_atom_int64 [OF assms(2), of ob]
  have "\<bar>x - y\<bar> \<le> 2 ^ 53" "\<bar>x + y\<bar> \<le> 2 ^ 53"
    using int_atom_small [OF assms(1)] int_atom_small [OF assms(2)] by (simp_all add: abs_le_iff)
  note s = this [THEN store_result_value [of _ ob]]
  show "dval (getNumber ob (subtract ob a b False)) = Fin (of_int (x - y))"
    unfolding subtract_def using b s(1) i by (simp flip: of_int_diff)
  show "\<exists>r. add ob a b False = Some r \<and> dval (getNumber ob r) = Fin (of_int (x + y))"
    unfolding add_def Let_def using b c s(2) i by (simp flip: of_int_add)
  show "dval (getNumber ob (multiply ob a b False)) = Fin (of_int (x * y))" if "\<bar>x * y\<bar> \<le> 2 ^ 53"
    unfolding multiply_def using b i store_result_value [OF that, of ob] by (simp flip: of_int_mult)
qed (rule int_atom_finite increment_int decrement_int assms | assumption)+

text \<open>A program without objects and strings, on a processor that answers 0: the integers need nothing of it.\<close>

definition no_objects :: objects where
  "no_objects = \<lparr>object_type = (\<lambda>_. T_OBJECT), object_toInt = (\<lambda>_. 0), object_toUInt = (\<lambda>_. 0),
     object_toInt64 = (\<lambda>_. 0), object_toNumber = (\<lambda>_. 0), string_toInt = (\<lambda>_. 0), string_toUInt = (\<lambda>_. 0),
     string_toInt64 = (\<lambda>_. 0), string_toNumber = (\<lambda>_. 0), double_overflow = (\<lambda>_. 0x8000000000000000),
     fpu_add = (\<lambda>_ _. 0), fpu_subtract = (\<lambda>_ _. 0), fpu_multiply = (\<lambda>_ _. 0), fpu_fmod = (\<lambda>_ _. 0)\<rparr>"

lemma arithmetic_exact_witness:
  "int_atom (fromInt 5) 5 \<and> int_atom (fromUInt 7) 7 \<and>
   dval (getNumber no_objects (subtract no_objects (fromInt 5) (fromUInt 7) False)) = Fin (- 2)"
proof -
  have "int_atom (fromInt 5) 5" "int_atom (fromUInt 7) 7"
    using int_atom_fromInt [of 5] int_atom_fromUInt [of 7] by simp_all
  then show ?thesis
    using arithmetic_exact [of "fromInt 5" 5 "fromUInt 7" 7 no_objects] by simp
qed

section \<open>Where the arithmetic is not exact\<close>

text \<open>\<open>increment\<close> and \<open>decrement\<close> wrap around, while a double of the same value becomes a uint or a double.\<close>

lemma increment_wraps:
  "increment ob (fromInt 0x7fffffff) = fromInt 0x80000000" "increment ob (fromUInt 0xffffffff) = fromUInt 0"
  "decrement ob (fromInt 0x80000000) = fromInt 0x7fffffff"
  using ucast_minus_1 [of "0x80000000"] by (simp_all add: increment_def decrement_def step_simps payload_64 fromInt_names)

text \<open>The product of two uints can exceed an \<open>int64_t\<close>; it comes out negative.\<close>

lemma multiply_overflow:
  "dval (getNumber ob (multiply ob (fromUInt 0xffffffff) (fromUInt 0xffffffff) False)) = Fin (- 8589934591)"
proof -
  have u: "int_atom (fromUInt 0xffffffff) 4294967295"
    using int_atom_fromUInt [of 4294967295] by simp
  have "toInt64 ob (fromUInt 0xffffffff) * toInt64 ob (fromUInt 0xffffffff) = word_of_int (- 8589934591)"
    unfolding int_atom_int64 [OF u] by simp
  then show ?thesis
    unfolding multiply_def using int_atom_tests(1) [OF u u, of ob] store_result_value [of "- 8589934591" ob] by simp
qed

text \<open>\<open>modulo\<close> takes uints for ints, and traps on a division by zero that \<open>moduloreplace\<close> avoids.\<close>

lemma modulo_uint: "modulo ob (fromUInt 0xffffffff) (fromUInt 10) False = Inr (fromInt 0xffffffff)"
proof -
  have "int_atom (fromUInt 0xffffffff) 4294967295" "int_atom (fromUInt 10) 10"
    using int_atom_fromUInt [of 4294967295] int_atom_fromUInt [of 10] by simp_all
  note this [THEN int_atom_int] int_atom_tests(1) [OF this]
  then show ?thesis
    by (simp add: modulo_def int_rem_def step_simps smod_int_alt_def fromInt_names)
qed

lemma modulo_traps:
  "modulo ob (fromInt 7) (fromInt 0) True = Inl ArithmeticTrap"
  "moduloreplace ob (fromInt 7) (fromInt 0) True = Inr (fromInt 0)"
  "modulo ob (fromInt 0x80000000) (fromInt 0xffffffff) False = Inl ArithmeticTrap"
proof -
  have "int_atom (fromInt 7) 7" "int_atom (fromInt 0) 0" "int_atom (fromInt 0x80000000) (- 2147483648)"
    "int_atom (fromInt 0xffffffff) (- 1)"
    using int_atom_fromInt [of 7] int_atom_fromInt [of 0] int_atom_fromInt [of "- 2147483648"]
      int_atom_fromInt [of "- 1"] by (simp_all add: fromInt_names)
  note this [THEN int_atom_int] int_atom_tests(1) [OF this(1,2)] int_atom_tests(1) [OF this(3,4)]
  then show
    "modulo ob (fromInt 7) (fromInt 0) True = Inl ArithmeticTrap"
    "moduloreplace ob (fromInt 7) (fromInt 0) True = Inr (fromInt 0)"
    "modulo ob (fromInt 0x80000000) (fromInt 0xffffffff) False = Inl ArithmeticTrap"
    by (simp_all add: modulo_def moduloreplace_def int_rem_def step_simps)
qed

end
