(* ===== verification/ArrayCompare.thy ===== *)
theory ArrayCompare
  imports Complex_Main ArraySort AtomArith TinyText
begin

text \<open>
  The comparisons of \<open>Array.sort\<close> and \<open>Array.sortOn\<close>: \<open>sortComparatorDefault\<close> and
  \<open>sortOnComparator\<close> of \<open>scripting/toplevel/Array.cpp\<close>, and what the sort makes of them.
\<close>

section \<open>Numbers\<close>

text \<open>The sign of \<open>a - b\<close>, computed in floating point: it is exact except that infinities cancel to NaN.\<close>

fun cmp_diff :: "number_t \<Rightarrow> number_t \<Rightarrow> cmp_result" where
  "cmp_diff NaN b = CmpNaN"
| "cmp_diff a NaN = CmpNaN"
| "cmp_diff (Fin a) (Fin b) = (if a < b then CmpLess else if a = b then CmpEqual else CmpGreater)"
| "cmp_diff NegInf NegInf = CmpNaN"
| "cmp_diff PosInf PosInf = CmpNaN"
| "cmp_diff NegInf _ = CmpLess"
| "cmp_diff _ PosInf = CmpLess"
| "cmp_diff PosInf _ = CmpGreater"
| "cmp_diff _ NegInf = CmpGreater"

definition cmp_int :: "int \<Rightarrow> cmp_result" where
  "cmp_int n = (if n < 0 then CmpLess else if n = 0 then CmpEqual else CmpGreater)"

section \<open>The comparisons\<close>

text \<open>What the comparisons ask of an element: the results of its conversions.\<close>

record sort_key =
  sk_undefined :: bool
  sk_numeric :: bool
  sk_number :: number_t
  sk_int :: u32
  sk_string :: tiny_string
  sk_avm1string :: tiny_string

text \<open>A comparison of strings that fails, which \<open>strcmp\<close> never does, counts as equal.\<close>

definition int_of :: "int res \<Rightarrow> int" where
  "int_of r = (case r of Inr n \<Rightarrow> n | Inl _ \<Rightarrow> 0)"

definition old_number :: "u32 \<Rightarrow> number_t" where
  "old_number i = Fin (of_nat (unat (i AND 0x1fffffff)))"

definition sortComparatorDefault :: "bool \<Rightarrow> bool \<Rightarrow> bool \<Rightarrow> bool \<Rightarrow> bool \<Rightarrow> sort_key \<Rightarrow> sort_key \<Rightarrow> cmp_result" where
  "sortComparatorDefault as3 useoldversion isNumericSort isCaseInsensitive isDescending o1 o2 =
     (if isNumericSort \<and> (as3 \<or> sk_numeric o1 \<and> sk_numeric o2) then
        let a = (if useoldversion then old_number (sk_int o1) else sk_number o1);
            b = (if useoldversion then old_number (sk_int o2) else sk_number o2)
        in if a = NaN then (if isDescending then CmpLess else CmpGreater)
           else if b = NaN then (if isDescending then CmpGreater else CmpLess)
           else if isDescending then cmp_diff b a else cmp_diff a b
      else if as3 \<and> sk_undefined o1 then CmpGreater
      else if as3 \<and> sk_undefined o2 then CmpLess
      else let s1 = (if as3 then sk_string o1 else sk_avm1string o1);
               s2 = (if as3 then sk_string o2 else sk_avm1string o2);
               n = int_of (if isCaseInsensitive then ts_strcasecmp s1 s2 else ts_strcmp s1 s2)
           in cmp_int (if isDescending then - n else n))"

text \<open>A field of \<open>sortOn\<close>; the elements come with the values of all fields, in order.\<close>

record sorton_field =
  sf_isNumeric :: bool
  sf_isCaseInsensitive :: bool
  sf_isDescending :: bool

definition compare_field :: "sorton_field \<Rightarrow> sort_key \<Rightarrow> sort_key \<Rightarrow> cmp_result option" where
  "compare_field f k1 k2 =
     (if sf_isNumeric f \<and> sk_numeric k1 \<and> sk_numeric k2 then
        (if sk_number k1 = sk_number k2 \<and> sk_number k1 \<noteq> NaN then None
         else Some (if sf_isDescending f then cmp_diff (sk_number k2) (sk_number k1)
                    else cmp_diff (sk_number k1) (sk_number k2)))
      else if sf_isCaseInsensitive f then
        let n = int_of (ts_strcasecmp (sk_string k1) (sk_string k2))
        in if n \<noteq> 0 then Some (cmp_int (if sf_isDescending f then - n else n)) else None
      else if ts_eq (sk_string k1) (sk_string k2) \<noteq> Inr True then
        let n = (if ts_less (sk_string k1) (sk_string k2) = Inr True then - 1 else 1)
        in Some (cmp_int (if sf_isDescending f then - n else n))
      else None)"

text \<open>The first field that differs decides; \<open>sortvalues.at (i)\<close> raises where a value is missing.\<close>

fun sortOn_fields :: "sorton_field list \<Rightarrow> sort_key list \<Rightarrow> sort_key list \<Rightarrow> cmp_result option res" where
  "sortOn_fields [] ks1 ks2 = Inr None"
| "sortOn_fields (f # fs) (k1 # ks1) (k2 # ks2) =
     (case compare_field f k1 k2 of Some r \<Rightarrow> Inr (Some r) | None \<Rightarrow> sortOn_fields fs ks1 ks2)"
| "sortOn_fields (f # fs) ks1 ks2 = Inl OutOfBounds"

section \<open>The order of a default sort\<close>

fun number_le :: "number_t \<Rightarrow> number_t \<Rightarrow> bool" where
  "number_le NegInf _ = True"
| "number_le _ PosInf = True"
| "number_le (Fin a) (Fin b) = (a \<le> b)"
| "number_le NaN NaN = True"
| "number_le _ _ = False"

lemma number_le_refl [simp]: "number_le a a"
  by (cases a) auto













definition num_key :: "number_t \<Rightarrow> sort_key" where
  "num_key n = \<lparr>sk_undefined = False, sk_numeric = True, sk_number = n, sk_int = 0, sk_string = ts_new, sk_avm1string = ts_new\<rparr>"


text \<open>With a NUL in a string the order of \<open>strcmp\<close> is not transitive.\<close>

lemma strcmp_NUL:
  "ts_strcmp (ts_of [0x61, 0, 0x63]) (ts_of [0x61]) = Inr 0" "ts_strcmp (ts_of [0x61]) (ts_of [0x61, 0, 0x62]) = Inr 0"
  "ts_strcmp (ts_of [0x61, 0, 0x63]) (ts_of [0x61, 0, 0x62]) = Inr 1"
  by (simp_all add: ts_strcmp_def raw_buf_def stringSize_def valid_cp_def utf8_enc_def)

text \<open>In descending order the NaN come first.\<close>

lemma descending_NaN_first: "sortComparatorDefault True False True ci True (num_key NaN) (num_key (Fin x)) = CmpLess"
  by (simp add: sortComparatorDefault_def num_key_def)

end
