(* ===== verification/ArrayData.thy ===== *)
theory ArrayData
  imports AtomArith "HOL-Library.AList"
begin

text \<open>
  The storage of an \<open>Array\<close> (\<open>scripting/toplevel/Array.h\<close> and \<open>Array.cpp\<close>): a vector for the first
  65536 indices, a map for the others, and the length. Elements that were never set or were deleted
  are the invalid atom.

  The model is that of a plain \<open>Array\<close> object, neither of a class that derives from it nor of an AVM1
  array, so that \<open>size()\<close> is \<open>currentsize\<close> and no class is sealed; reference counts are left out.
  Lengths and indices are natural numbers; a parameter of type \<open>uint32_t\<close> is reduced modulo 2 to the 32
  where the code converts to it.
\<close>

section \<open>State\<close>

definition ARRAY_SIZE_THRESHOLD :: nat where "ARRAY_SIZE_THRESHOLD = 65536"

definition UINT32_MAX :: nat where "UINT32_MAX = 4294967295"

definition to_u32 :: "nat \<Rightarrow> nat" where "to_u32 n = n mod 4294967296"

text \<open>\<open>data_second\<close> lists the entries of the \<open>std::unordered_map\<close> in the order of their iteration.\<close>

record as_array =
  currentsize :: nat
  data_first :: "asAtom list"
  data_second :: "(nat \<times> asAtom) list"

definition array_new :: as_array where
  "array_new = \<lparr>currentsize = 0, data_first = [], data_second = []\<rparr>"

text \<open>\<open>std::vector<asAtom>::resize\<close>: new atoms have all of their bits zero, which is the Number 0.\<close>

definition vector_resize :: "nat \<Rightarrow> asAtom list \<Rightarrow> asAtom list" where
  "vector_resize n xs = take n xs @ replicate (n - length xs) 0"

section \<open>Access by index\<close>

text \<open>The atom stored at an index, as \<open>at\<close>, \<open>hasEntry\<close> and \<open>at_nocheck\<close> look it up.\<close>

definition stored :: "nat \<Rightarrow> as_array \<Rightarrow> asAtom" where
  "stored index a =
     (if index < ARRAY_SIZE_THRESHOLD then
        (if index < length (data_first a) then data_first a ! index else invalidAtom)
      else (case map_of (data_second a) index of Some v \<Rightarrow> v | None \<Rightarrow> invalidAtom))"

text \<open>\<open>at\<close> also tells whether it raised a \<open>RangeError\<close>, which does not stop it.\<close>

definition array_at :: "nat \<Rightarrow> bool \<Rightarrow> as_array \<Rightarrow> bool \<times> asAtom" where
  "array_at index checkinvalid a =
     (let range_error = currentsize a \<le> index; ret = stored index a
      in (range_error, if checkinvalid \<or> isValid ret then ret else undefinedAtom))"

definition at_nocheck :: "asAtom \<Rightarrow> nat \<Rightarrow> as_array \<Rightarrow> asAtom" where
  "at_nocheck ret index a =
     (let ret =
        (if index < ARRAY_SIZE_THRESHOLD then
           (if index < length (data_first a) then data_first a ! index else ret)
         else (case map_of (data_second a) index of Some v \<Rightarrow> v | None \<Rightarrow> ret))
      in if isInvalid ret then undefinedAtom else ret)"

definition hasEntry :: "nat \<Rightarrow> as_array \<Rightarrow> bool" where
  "hasEntry index a = isValid (stored index a)"

text \<open>
  \<open>set\<close>: whether the value differs from the old one (the result of the function), whether it raised a
  \<open>RangeError\<close>, and the array.
\<close>

definition array_set :: "nat \<Rightarrow> asAtom \<Rightarrow> bool \<Rightarrow> as_array \<Rightarrow> bool \<times> bool \<times> as_array" where
  "array_set index v checkbounds a =
     (let index = to_u32 index
      in if index < currentsize a then
           if index < ARRAY_SIZE_THRESHOLD then
             (let present = index < length (data_first a);
                  ret = \<not> (present \<and> data_first a ! index = v);
                  first = (if present then data_first a else vector_resize (index + 1) (data_first a))
              in (ret, False, a\<lparr>data_first := first[index := v]\<rparr>))
           else
             (let ret = (map_of (data_second a) index \<noteq> Some v)
              in (ret, False, a\<lparr>data_second := AList.update index v (data_second a)\<rparr>))
         else (True, checkbounds, a))"

definition set_at :: "nat \<Rightarrow> asAtom \<Rightarrow> as_array \<Rightarrow> as_array" where
  "set_at index v a = snd (snd (array_set index v False a))"

text \<open>The loop of \<open>resize\<close> that fills the vector up.\<close>

function resize_loop :: "nat \<Rightarrow> nat \<Rightarrow> as_array \<Rightarrow> as_array" where
  "resize_loop i n a =
     (if i < n \<and> i < ARRAY_SIZE_THRESHOLD then resize_loop (i + 1) n (set_at i invalidAtom a) else a)"
  by pat_completeness auto
termination
  by (relation "measure (\<lambda>(i, n, a). n - i)") auto

declare resize_loop.simps [simp del]

definition resize :: "nat \<Rightarrow> as_array \<Rightarrow> as_array" where
  "resize n a =
     (if n < currentsize a then
        a\<lparr>data_first := (if n < length (data_first a) then vector_resize n (data_first a) else data_first a),
          data_second := filter (\<lambda>(k, _). k < n) (data_second a),
          currentsize := n\<rparr>
      else (resize_loop (to_u32 (length (data_first a))) n (a\<lparr>currentsize := n\<rparr>))\<lparr>currentsize := n\<rparr>)"

definition push :: "asAtom \<Rightarrow> as_array \<Rightarrow> as_array" where
  "push v a =
     (if currentsize a = UINT32_MAX then a
      else set_at (currentsize a) v (a\<lparr>currentsize := currentsize a + 1\<rparr>))"

section \<open>Methods of one element\<close>

text \<open>\<open>push\<close> for ECMA and for AS3; the result is the new length, as an \<open>int32_t\<close>.\<close>

definition array_push :: "asAtom list \<Rightarrow> as_array \<Rightarrow> asAtom \<times> as_array" where
  "array_push args a =
     (let s = currentsize a; a = fold push args a; a = a\<lparr>currentsize := s + length args\<rparr>
      in (setInt (of_nat (currentsize a)), a))"

fun push_as3_loop :: "asAtom list \<Rightarrow> as_array \<Rightarrow> as_array" where
  "push_as3_loop [] a = a"
| "push_as3_loop (v # vs) a = (if currentsize a \<ge> UINT32_MAX then a else push_as3_loop vs (push v a))"

definition array_push_as3 :: "asAtom list \<Rightarrow> as_array \<Rightarrow> asAtom \<times> as_array" where
  "array_push_as3 args a =
     (let a = push_as3_loop args a in (setInt (of_nat (currentsize a)), a))"

definition getLength :: "as_array \<Rightarrow> asAtom" where
  "getLength a = setUInt (of_nat (currentsize a))"

definition setLength :: "u32 \<Rightarrow> as_array \<Rightarrow> as_array" where
  "setLength newLen a = (if unat newLen = currentsize a then a else resize (unat newLen) a)"

text \<open>
  The constructor: one number is a length (\<open>NumberArg\<close> has its \<open>toUInt\<close> and whether that is the number
  itself), anything else the elements. \<open>None\<close> is the \<open>RangeError\<close>.
\<close>

datatype constructor_args = NumberArg u32 bool | ElementArgs "asAtom list"

fun set_elements :: "nat \<Rightarrow> asAtom list \<Rightarrow> as_array \<Rightarrow> as_array" where
  "set_elements i [] a = a"
| "set_elements i (v # vs) a = set_elements (i + 1) vs (set_at i v a)"

definition constructorImpl :: "constructor_args \<Rightarrow> as_array \<Rightarrow> as_array option" where
  "constructorImpl args a =
     (case args of
        NumberArg n exact \<Rightarrow> (if \<not> exact then None else Some (resize (unat n) a))
      | ElementArgs vs \<Rightarrow> Some (set_elements 0 vs (resize (length vs) a)))"

section \<open>Properties with an integer name\<close>

text \<open>Where the value of an element comes from: the array, the prototype chain or the base class.\<close>

datatype lookup_result = Found asAtom | PrototypeChain | BaseClass

definition getVariableByInteger :: "int \<Rightarrow> as_array \<Rightarrow> lookup_result" where
  "getVariableByInteger index a =
     (if index \<ge> 0 \<and> nat index < currentsize a then
        let i = nat index;
            ret = (if i < ARRAY_SIZE_THRESHOLD \<and> i < length (data_first a) then data_first a ! i else invalidAtom)
        in if isValid ret then Found ret
           else (case map_of (data_second a) i of Some v \<Rightarrow> Found v | None \<Rightarrow> PrototypeChain)
      else BaseClass)"

text \<open>The result of \<open>setVariableByInteger\<close> is the \<open>alreadyset\<close> it reports; \<open>None\<close> is the base class.\<close>

definition setVariableByInteger :: "int \<Rightarrow> asAtom \<Rightarrow> as_array \<Rightarrow> (bool \<times> as_array) option" where
  "setVariableByInteger index v a =
     (if index < 0 then None
      else let i = nat index; a = (if i \<ge> currentsize a then resize (i + 1) a else a);
               (ret, _, a) = array_set i v False a
           in Some (\<not> ret, a))"

text \<open>The accesses by a name that \<open>isValidMultiname\<close> has turned into an index.\<close>

definition getVariableByMultiname :: "u32 \<Rightarrow> as_array \<Rightarrow> lookup_result" where
  "getVariableByMultiname index a =
     (let i = unat index;
          ret = (if i < ARRAY_SIZE_THRESHOLD \<and> i < length (data_first a) then data_first a ! i else invalidAtom)
      in if isValid ret then Found ret
         else (case map_of (data_second a) i of
                 Some v \<Rightarrow> Found v
               | None \<Rightarrow> if i \<ge> currentsize a then PrototypeChain else Found undefinedAtom))"

definition getVariableByMultiname_i :: "objects \<Rightarrow> u32 \<Rightarrow> as_array \<Rightarrow> u32 option" where
  "getVariableByMultiname_i ob index a =
     (let i = unat index
      in if i < currentsize a then
           (if i < ARRAY_SIZE_THRESHOLD then
              Some (if length (data_first a) > i then toInt ob (data_first a ! i) else 0)
            else (case map_of (data_second a) i of Some v \<Rightarrow> Some (toInt ob v) | None \<Rightarrow> Some 0))
         else None)"

definition setVariableByMultiname :: "u32 \<Rightarrow> asAtom \<Rightarrow> as_array \<Rightarrow> bool \<times> as_array" where
  "setVariableByMultiname index v a =
     (let i = unat index; a = (if i \<ge> currentsize a then resize (i + 1) a else a);
          (ret, _, a) = array_set i v False a
      in (\<not> ret, a))"

definition setVariableByMultiname_i :: "u32 \<Rightarrow> u32 \<Rightarrow> as_array \<Rightarrow> as_array" where
  "setVariableByMultiname_i index val a =
     (let a = (if unat index \<ge> currentsize a then resize (unat (index + 1)) a else a)
      in set_at (unat index) (fromInt val) a)"

definition hasPropertyByMultiname :: "u32 \<Rightarrow> as_array \<Rightarrow> bool" where
  "hasPropertyByMultiname index a =
     (let i = unat index
      in if i < ARRAY_SIZE_THRESHOLD then (if length (data_first a) > i then isValid (data_first a ! i) else False)
         else map_of (data_second a) i \<noteq> None)"

definition deleteVariableByMultiname :: "u32 \<Rightarrow> as_array \<Rightarrow> as_array" where
  "deleteVariableByMultiname index a =
     (let i = unat index
      in if i \<ge> currentsize a then a
         else if i < length (data_first a) then a\<lparr>data_first := (data_first a)[i := invalidAtom]\<rparr>
         else a\<lparr>data_second := AList.delete i (data_second a)\<rparr>)"


section \<open>The array as a list\<close>

definition elems :: "as_array \<Rightarrow> asAtom list" where
  "elems a = map (\<lambda>i. stored i a) [0..<currentsize a]"

text \<open>
  An array is in order when the vector is as long as the length allows, and the map has indices between
  the vector and the length only.
\<close>

definition array_ok :: "as_array \<Rightarrow> bool" where
  "array_ok a \<longleftrightarrow> length (data_first a) = min (currentsize a) ARRAY_SIZE_THRESHOLD \<and>
     distinct (map fst (data_second a)) \<and>
     fst ` set (data_second a) \<subseteq> {ARRAY_SIZE_THRESHOLD..<min (currentsize a) 4294967296}"

named_theorems array_defs \<open>definitions of the storage of arrays\<close>

lemmas [array_defs] = stored_def array_ok_def

lemma length_elems [simp]: "length (elems a) = currentsize a"
  by (simp add: elems_def)

lemma nth_elems: "i < currentsize a \<Longrightarrow> elems a ! i = stored i a"
  by (simp add: elems_def)

lemma elems_eqI:
  assumes "currentsize a = length xs" and "\<And>i. i < length xs \<Longrightarrow> stored i a = xs ! i"
  shows "elems a = xs"
  using assms by (intro nth_equalityI) (simp_all add: nth_elems)

lemma array_okD:
  assumes "array_ok a"
  shows "length (data_first a) = min (currentsize a) ARRAY_SIZE_THRESHOLD" "distinct (map fst (data_second a))"
    "map_of (data_second a) k = Some v \<Longrightarrow> ARRAY_SIZE_THRESHOLD \<le> k \<and> k < currentsize a \<and> k < 4294967296"
  using assms by (force simp: array_ok_def dest: map_of_SomeD)+

lemma stored_beyond: "array_ok a \<Longrightarrow> currentsize a \<le> i \<Longrightarrow> stored i a = invalidAtom"
  by (auto simp: stored_def array_okD(1) dest: array_okD(3) split: option.split)

lemma array_ok_new: "array_ok array_new" "elems array_new = []"
  by (simp_all add: array_ok_def array_new_def elems_def)

lemma currentsize_new [simp]: "currentsize array_new = 0"
  by (simp add: array_new_def)

lemma to_u32_small: "n < 4294967296 \<Longrightarrow> to_u32 n = n"
  by (simp add: to_u32_def)

subsection \<open>\<open>set\<close>\<close>

lemma currentsize_set_at [simp]: "currentsize (set_at i v a) = currentsize a"
  by (simp add: set_at_def array_set_def Let_def)

lemma set_at_beyond: "currentsize a \<le> to_u32 i \<Longrightarrow> set_at i v a = a"
  by (simp add: set_at_def array_set_def Let_def)

text \<open>A step of \<open>set\<close> that does not leave a gap in the vector changes one element.\<close>

lemma stored_set_at:
  assumes "to_u32 i < currentsize a" and "to_u32 i < ARRAY_SIZE_THRESHOLD \<longrightarrow> to_u32 i \<le> length (data_first a)"
  shows "stored j (set_at i v a) = (if j = to_u32 i then v else stored j a)"
  using assms
  by (auto simp: stored_def set_at_def array_set_def Let_def vector_resize_def update_conv' nth_append nth_list_update
      split: option.split)

lemma array_ok_set_at:
  assumes "array_ok a"
  shows "array_ok (set_at i v a)"
proof (cases "to_u32 i < currentsize a")
  case True
  have "to_u32 i < 4294967296"
    by (simp add: to_u32_def)
  with True assms show ?thesis
    by (simp add: array_ok_def set_at_def array_set_def Let_def distinct_update dom_update vector_resize_def)
qed (simp add: set_at_beyond assms)

lemma elems_set_at:
  assumes "array_ok a" "i < 4294967296"
  shows "elems (set_at i v a) = (elems a)[i := v]"
proof (cases "i < currentsize a")
  case True
  with assms have "stored j (set_at i v a) = (if j = i then v else stored j a)" for j
    using stored_set_at [of i a j v] by (auto simp: to_u32_small array_okD)
  with True show ?thesis
    by (intro elems_eqI) (auto simp: nth_list_update nth_elems)
next
  case False
  with assms show ?thesis
    by (simp add: set_at_beyond to_u32_small list_update_beyond)
qed

subsection \<open>\<open>resize\<close> and \<open>push\<close>\<close>

lemma threshold_small: "i \<le> ARRAY_SIZE_THRESHOLD \<Longrightarrow> to_u32 i = i"
  by (simp add: to_u32_def ARRAY_SIZE_THRESHOLD_def)

lemma set_at_append:
  assumes "i = length (data_first a)" "i < ARRAY_SIZE_THRESHOLD" "i < currentsize a"
  shows "set_at i v a = a\<lparr>data_first := data_first a @ [v]\<rparr>"
  using assms threshold_small [of i] by (simp add: set_at_def array_set_def Let_def vector_resize_def)

lemma resize_loop_eq:
  assumes "i = length (data_first a)" "i \<le> ARRAY_SIZE_THRESHOLD" "n \<le> currentsize a"
  shows "resize_loop i n a =
    a\<lparr>data_first := data_first a @ replicate (min n ARRAY_SIZE_THRESHOLD - i) invalidAtom\<rparr>"
  using assms
proof (induction i n a rule: resize_loop.induct)
  case (1 i n a)
  show ?case
  proof (cases "i < n \<and> i < ARRAY_SIZE_THRESHOLD")
    case True
    then have s: "set_at i invalidAtom a = a\<lparr>data_first := data_first a @ [invalidAtom]\<rparr>"
      using 1 by (intro set_at_append) auto
    have r: "min n ARRAY_SIZE_THRESHOLD - i = Suc (min n ARRAY_SIZE_THRESHOLD - (i + 1))"
      using True by linarith
    have "i + 1 = length (data_first (set_at i invalidAtom a))" "i + 1 \<le> ARRAY_SIZE_THRESHOLD"
      "n \<le> currentsize (set_at i invalidAtom a)"
      unfolding s using True 1(2-4) by simp_all
    note 1(1) [OF True this]
    then show ?thesis
      using True by (subst resize_loop.simps) (simp add: s r del: min_less_iff_conj)
  next
    case False
    then show ?thesis
      by (subst resize_loop.simps) auto
  qed
qed

lemma resize_up:
  assumes "currentsize a \<le> n" "length (data_first a) \<le> ARRAY_SIZE_THRESHOLD"
  shows "resize n a = a\<lparr>currentsize := n,
    data_first := data_first a @ replicate (min n ARRAY_SIZE_THRESHOLD - length (data_first a)) invalidAtom\<rparr>"
  using assms resize_loop_eq [of _ "a\<lparr>currentsize := n\<rparr>" n]
  by (simp add: resize_def threshold_small)

lemma array_ok_resize:
  assumes "array_ok a"
  shows "array_ok (resize n a)"
proof (cases "n < currentsize a")
  case True
  have "distinct (map fst (filter (\<lambda>(k, _). k < n) (data_second a)))"
    using array_okD(2) [OF assms] by (rule distinct_map_filter)
  moreover have "fst ` set (filter (\<lambda>(k, _). k < n) (data_second a)) \<subseteq> {ARRAY_SIZE_THRESHOLD..<min n 4294967296}"
    using assms by (fastforce simp: array_ok_def)
  ultimately show ?thesis
    using True array_okD(1) [OF assms] by (auto simp: array_ok_def resize_def vector_resize_def)
next
  case False
  then have "resize n a = a\<lparr>currentsize := n,
    data_first := data_first a @ replicate (min n ARRAY_SIZE_THRESHOLD - length (data_first a)) invalidAtom\<rparr>"
    using array_okD(1) [OF assms] by (intro resize_up) auto
  with False assms show ?thesis
    by (auto simp: array_ok_def)
qed

lemma currentsize_resize [simp]: "currentsize (resize n a) = n"
  by (simp add: resize_def)

lemma map_of_filter_key: "map_of (filter (\<lambda>(k, _). P k) xs) k = (if P k then map_of xs k else None)"
  by (induction xs) auto

lemma stored_resize:
  assumes "array_ok a"
  shows "stored i (resize n a) = (if i < n then stored i a else invalidAtom)"
proof (cases "n < currentsize a")
  case True
  with array_okD(1) [OF assms] show ?thesis
    by (auto simp: stored_def resize_def vector_resize_def map_of_filter_key)
next
  case False
  then have "resize n a = a\<lparr>currentsize := n,
    data_first := data_first a @ replicate (min n ARRAY_SIZE_THRESHOLD - length (data_first a)) invalidAtom\<rparr>"
    using array_okD(1) [OF assms] by (intro resize_up) auto
  then have "stored i (resize n a) = stored i a"
    using array_okD(1) [OF assms] by (auto simp: stored_def nth_append split: option.split)
  with False show ?thesis
    using stored_beyond [OF assms, of i] by simp
qed

text \<open>\<open>fit n xs\<close>: a list cut or filled up with holes to length \<open>n\<close>.\<close>

definition fit :: "nat \<Rightarrow> asAtom list \<Rightarrow> asAtom list" where
  "fit n xs = take n xs @ replicate (n - length xs) invalidAtom"

lemma length_fit [simp]: "length (fit n xs) = n"
  by (simp add: fit_def)

lemma nth_fit: "i < n \<Longrightarrow> fit n xs ! i = (if i < length xs then xs ! i else invalidAtom)"
  by (simp add: fit_def nth_append)

lemma elems_resize: "array_ok a \<Longrightarrow> elems (resize n a) = fit n (elems a)"
  by (intro elems_eqI) (simp_all add: stored_resize nth_fit nth_elems stored_beyond)

lemma elems_resize_up: "array_ok a \<Longrightarrow> currentsize a \<le> n \<Longrightarrow>
    elems (resize n a) = elems a @ replicate (n - currentsize a) invalidAtom"
  by (simp add: elems_resize fit_def)

lemma elems_resize_down: "array_ok a \<Longrightarrow> n \<le> currentsize a \<Longrightarrow> elems (resize n a) = take n (elems a)"
  by (simp add: elems_resize fit_def)

lemma push_eq:
  assumes "array_ok a" "currentsize a < UINT32_MAX"
  shows "push v a = set_at (currentsize a) v (a\<lparr>currentsize := currentsize a + 1\<rparr>)"
    "to_u32 (currentsize a) = currentsize a"
  using assms by (simp_all add: push_def to_u32_small UINT32_MAX_def)

lemma array_ok_push:
  assumes "array_ok a" "currentsize a < UINT32_MAX"
  shows "array_ok (push v a)"
  using assms push_eq(1) [OF assms, of v] push_eq(2) [OF assms]
  by (simp add: array_ok_def set_at_def array_set_def Let_def vector_resize_def distinct_update dom_update
      UINT32_MAX_def) auto

lemma elems_push:
  assumes "array_ok a" "currentsize a < UINT32_MAX"
  shows "elems (push v a) = elems a @ [v]"
proof -
  have "stored i (push v a) = (if i = currentsize a then v else stored i a)" for i
    unfolding push_eq(1) [OF assms]
    using push_eq(2) [OF assms] array_okD(1) [OF assms(1)]
    by (subst stored_set_at) (auto simp: stored_def)
  then show ?thesis
    by (intro elems_eqI) (simp_all add: push_eq(1) [OF assms] nth_append nth_elems)
qed

subsection \<open>Appending many elements\<close>

text \<open>What the methods that collect results rely on: appending, up to a limit.\<close>

locale list_storage =
  fixes ok :: "'s \<Rightarrow> bool" and contents :: "'s \<Rightarrow> 'a list" and append_one :: "'a \<Rightarrow> 's \<Rightarrow> 's" and limit :: nat
  assumes append_ok: "ok s \<Longrightarrow> length (contents s) < limit \<Longrightarrow> ok (append_one v s)"
    and append_contents: "ok s \<Longrightarrow> length (contents s) < limit \<Longrightarrow> contents (append_one v s) = contents s @ [v]"
begin

lemma fold_append:
  assumes "ok s" "length (contents s) + length vs \<le> limit"
  shows "ok (fold append_one vs s) \<and> contents (fold append_one vs s) = contents s @ vs"
  using assms
proof (induction vs arbitrary: s)
  case (Cons v vs)
  then have "ok (append_one v s)" "contents (append_one v s) = contents s @ [v]"
    by (simp_all add: append_ok append_contents)
  with Cons.IH [of "append_one v s"] Cons.prems show ?case
    by simp
qed simp

end

interpretation array: list_storage array_ok elems push UINT32_MAX
  by unfold_locales (simp_all add: array_ok_push elems_push)

lemmas array_fold = array.fold_append [THEN conjunct1] array.fold_append [THEN conjunct2]

lemma currentsize_elems: "elems a = xs \<Longrightarrow> currentsize a = length xs"
  using length_elems [of a] by simp

lemma same_size: "currentsize a = n \<Longrightarrow> a\<lparr>currentsize := n\<rparr> = a"
  by auto

lemma array_push_list:
  assumes "array_ok a" "currentsize a + length args \<le> UINT32_MAX"
  shows "array_ok (snd (array_push args a))" "elems (snd (array_push args a)) = elems a @ args"
proof -
  have "array_ok (fold push args a)" and e: "elems (fold push args a) = elems a @ args"
    using array_fold [of a args] assms by simp_all
  moreover have "currentsize (fold push args a) = currentsize a + length args"
    using currentsize_elems [OF e] by simp
  ultimately show "array_ok (snd (array_push args a))" "elems (snd (array_push args a)) = elems a @ args"
    by (simp_all add: array_push_def Let_def same_size)
qed

lemma push_as3_list:
  assumes "array_ok a" "currentsize a \<le> UINT32_MAX"
  shows "array_ok (push_as3_loop args a) \<and>
    elems (push_as3_loop args a) = elems a @ take (UINT32_MAX - currentsize a) args"
  using assms
proof (induction args arbitrary: a)
  case (Cons v vs)
  show ?case
  proof (cases "currentsize a < UINT32_MAX")
    case True
    note p = array_ok_push [OF Cons.prems(1) True, of v] elems_push [OF Cons.prems(1) True, of v]
    have "currentsize (push v a) = currentsize a + 1"
      using currentsize_elems [OF p(2)] by simp
    with Cons.IH [OF p(1)] p(2) True show ?thesis
      by (simp add: take_Cons' Suc_diff_Suc)
  next
    case False
    with Cons.prems show ?thesis
      by simp
  qed
qed simp

lemma set_elements_list:
  assumes "array_ok a" "i + length vs \<le> currentsize a" "currentsize a \<le> 4294967296"
  shows "array_ok (set_elements i vs a) \<and>
    elems (set_elements i vs a) = take i (elems a) @ vs @ drop (i + length vs) (elems a)"
  using assms
proof (induction i vs a rule: set_elements.induct)
  case (1 i a)
  then show ?case
    by simp
next
  case (2 i v vs a)
  then have "elems (set_at i v a) = (elems a)[i := v]" "array_ok (set_at i v a)"
    by (simp_all add: elems_set_at array_ok_set_at)
  with 2 show ?case
    by (simp add: take_Suc_conv_app_nth upd_conv_take_nth_drop add.commute [of "length vs"])
qed

lemma constructor_list:
  assumes "constructorImpl args array_new = Some a"
    and "case args of ElementArgs vs \<Rightarrow> length vs < 4294967296 | NumberArg _ _ \<Rightarrow> True"
  shows "array_ok a \<and> elems a = (case args of NumberArg n _ \<Rightarrow> replicate (unat n) invalidAtom | ElementArgs vs \<Rightarrow> vs)"
proof (cases args)
  case (NumberArg n e)
  with assms show ?thesis
    by (auto simp: constructorImpl_def array_ok_resize elems_resize array_ok_new fit_def split: if_splits)
next
  case (ElementArgs vs)
  then have a: "a = set_elements 0 vs (resize (length vs) array_new)" and l: "length vs < 4294967296"
    using assms by (simp_all add: constructorImpl_def)
  show ?thesis
    using set_elements_list [of "resize (length vs) array_new" 0 vs] l
    by (simp add: a ElementArgs array_ok_resize array_ok_new elems_resize fit_def)
qed

subsection \<open>Access by name\<close>

lemma set_variable_list:
  assumes "array_ok a"
  shows "array_ok (snd (setVariableByMultiname i v a)) \<and>
    elems (snd (setVariableByMultiname i v a)) = (fit (max (currentsize a) (unat i + 1)) (elems a))[unat i := v]"
proof -
  define b where "b = (if unat i \<ge> currentsize a then resize (unat i + 1) a else a)"
  have ok: "array_ok b"
    using assms by (simp add: b_def array_ok_resize)
  have "elems b = fit (max (currentsize a) (unat i + 1)) (elems a)"
    using assms by (auto simp: b_def elems_resize max_def fit_def)
  moreover have "snd (setVariableByMultiname i v a) = set_at (unat i) v b"
    by (simp add: setVariableByMultiname_def Let_def b_def set_at_def split: prod.split)
  ultimately show ?thesis
    using ok unat_u32_less [of i] by (simp add: array_ok_set_at elems_set_at)
qed

lemma stored_delete:
  assumes "array_ok a"
  shows "stored j (deleteVariableByMultiname i a) = (if j = unat i then invalidAtom else stored j a)"
proof (cases "unat i < currentsize a")
  case True
  with array_okD(1) [OF assms] show ?thesis
    by (auto simp: stored_def deleteVariableByMultiname_def Let_def nth_list_update delete_conv'
        split: option.split)
next
  case False
  then have "deleteVariableByMultiname i a = a"
    by (simp add: deleteVariableByMultiname_def)
  with False stored_beyond [OF assms, of "unat i"] show ?thesis
    by auto
qed

lemma delete_list:
  assumes "array_ok a"
  shows "array_ok (deleteVariableByMultiname i a) \<and>
    elems (deleteVariableByMultiname i a) = (elems a)[unat i := invalidAtom]"
proof
  have "currentsize (deleteVariableByMultiname i a) = currentsize a"
    by (simp add: deleteVariableByMultiname_def Let_def)
  then show "elems (deleteVariableByMultiname i a) = (elems a)[unat i := invalidAtom]"
    by (intro elems_eqI) (auto simp: stored_delete assms nth_list_update nth_elems)
  have "fst ` set (AList.delete (unat i) (data_second a)) \<subseteq> fst ` set (data_second a)"
    by (rule dom_delete_subset)
  with assms show "array_ok (deleteVariableByMultiname i a)"
    by (auto simp: array_ok_def deleteVariableByMultiname_def Let_def distinct_delete)
qed

lemma lookup_variable:
  assumes "array_ok a"
  shows "getVariableByMultiname i a =
    (if isValid (stored (unat i) a) then Found (stored (unat i) a)
     else if map_of (data_second a) (unat i) = Some invalidAtom then Found invalidAtom
     else if unat i < currentsize a then Found undefinedAtom else PrototypeChain)"
  using array_okD(1) [OF assms] array_okD(3) [OF assms]
  by (fastforce simp: getVariableByMultiname_def Let_def stored_def isValid_alt split: option.splits)

section \<open>The laws of the storage\<close>

text \<open>C15: An array is the list of its elements. A new array is in order and empty. From an array in order,
  \<open>set\<close>, \<open>resize\<close>, assigning and deleting by an index give an array in order again, and the list they
  give is the list with the element updated (for an index below 2^32; unchanged if it is not below the length), the list cut or
  filled up with holes, the list filled up to the index and updated there, and the list with a hole. The \<open>push\<close> of the prototype,
  if the length with the arguments is at most \<open>UINT32_MAX\<close> (else it stores nothing, or over the first elements, and
  reports the longer length: \<open>push_on_full_array\<close>, \<open>push_overwrites_first\<close>), gives the list with the
  arguments behind it; the AS3 \<open>push\<close>, from a length of at most \<open>UINT32_MAX\<close>, the list with as many of
  the arguments behind it as lead to that length.\<close>

theorem array_list_laws:
  assumes "array_ok a"
  shows "array_ok array_new \<and> elems array_new = []
    \<and> array_ok (set_at n v a) \<and> (n < 4294967296 \<longrightarrow> elems (set_at n v a) = (elems a)[n := v])
    \<and> array_ok (resize n a) \<and> elems (resize n a) = fit n (elems a)
    \<and> (currentsize a + length args \<le> UINT32_MAX \<longrightarrow>
         array_ok (snd (array_push args a)) \<and> elems (snd (array_push args a)) = elems a @ args)
    \<and> (currentsize a \<le> UINT32_MAX \<longrightarrow>
         array_ok (snd (array_push_as3 args a)) \<and>
         elems (snd (array_push_as3 args a)) = elems a @ take (UINT32_MAX - currentsize a) args)
    \<and> array_ok (snd (setVariableByMultiname i v a))
    \<and> elems (snd (setVariableByMultiname i v a)) = (fit (max (currentsize a) (unat i + 1)) (elems a))[unat i := v]
    \<and> array_ok (deleteVariableByMultiname i a)
    \<and> elems (deleteVariableByMultiname i a) = (elems a)[unat i := invalidAtom]"
  using assms array_push_list [OF assms, of args] push_as3_list [OF assms, of args]
    set_variable_list [OF assms, of i v] delete_list [OF assms, of i]
  by (simp add: array_ok_new array_ok_set_at elems_set_at array_ok_resize elems_resize array_push_as3_def Let_def)

lemma array_list_laws_witness: "array_ok array_new \<and>
    elems (snd (setVariableByMultiname 1 5 array_new)) = [invalidAtom, 5]"
  using array_list_laws [where a = array_new and i = 1 and v = 5 and n = 0 and args = "[]"]
  by (simp add: array_ok_new fit_def)

section \<open>Where the code departs from them\<close>

text \<open>
  After \<open>push\<close> has taken the length past 32 bits, it writes its argument over the first elements.
\<close>

lemma push_overwrites_first:
  assumes "currentsize a = 4294967296" "data_first a = x # xs"
  shows "stored 0 (push v a) = v" "currentsize (push v a) = 4294967297"
  using assms
  by (simp_all add: push_def UINT32_MAX_def set_at_def array_set_def to_u32_def ARRAY_SIZE_THRESHOLD_def stored_def)

text \<open>Such a length is what \<open>push\<close> leaves when the array is full.\<close>

lemma push_on_full_array: "currentsize a = UINT32_MAX \<Longrightarrow> currentsize (snd (array_push [v] a)) = 4294967296"
  by (simp add: array_push_def Let_def UINT32_MAX_def)

text \<open>Assigning an int to the last index empties the array: \<open>index + 1\<close> is computed in 32 bits.\<close>

lemma set_i_last_index_clears:
  assumes "currentsize a \<le> UINT32_MAX"
  shows "currentsize (setVariableByMultiname_i 0xffffffff x a) = 0"
    "currentsize (snd (setVariableByMultiname 0xffffffff (fromInt x) a)) = 4294967296"
  using assms by (simp_all add: setVariableByMultiname_i_def setVariableByMultiname_def array_set_def Let_def
      UINT32_MAX_def split: prod.split)

text \<open>
  A write behind the end of a vector that is too short leaves zeros, not holes, in between. (The pop of
  a hole makes such a vector.)
\<close>

lemma gap_reads_zero:
  assumes "currentsize a = 2" "data_first a = []"
  shows "data_first (set_at 1 v a) = [0, v]" "hasEntry 0 (set_at 1 v a)"
  using assms by (simp_all add: set_at_def array_set_def Let_def to_u32_def ARRAY_SIZE_THRESHOLD_def
      vector_resize_def hasEntry_def stored_def isValid_alt special_atoms)

end
