(* ===== verification/ArrayMethods.thy ===== *)
theory ArrayMethods
  imports ArrayData
begin

text \<open>
  The methods of \<open>Array\<close> that work on its storage alone (\<open>scripting/toplevel/Array.cpp\<close>): \<open>pop\<close>, \<open>shift\<close>,
  \<open>unshift\<close>, \<open>splice\<close>, \<open>slice\<close>, \<open>concat\<close>, \<open>reverse\<close>, \<open>insertAt\<close>, \<open>removeAt\<close>, the searches and \<open>join\<close>.

  The arrays among the objects of the prototype chain are an argument (\<open>chain\<close>), as are the comparison
  and the conversion to a string of two and of one element.
\<close>

section \<open>Prototype chain\<close>

text \<open>\<open>getIntegerNameListFromPrototypeChain\<close> and \<open>getMemberFromPrototypeChain\<close>: the first array long enough.\<close>

fun member_from_chain :: "as_array list \<Rightarrow> nat \<Rightarrow> asAtom" where
  "member_from_chain [] i = invalidAtom"
| "member_from_chain (ar # ars) i =
     (if i < currentsize ar then at_nocheck invalidAtom i ar else member_from_chain ars i)"

definition fill_one :: "as_array list \<Rightarrow> nat \<Rightarrow> as_array \<Rightarrow> as_array" where
  "fill_one chain i a =
     (if isInvalid (snd (array_at i True a)) then
        let m = member_from_chain chain i in if isValid m then set_at i m a else a
      else a)"

definition fillFromPrototypeChain :: "as_array list \<Rightarrow> nat \<Rightarrow> nat \<Rightarrow> as_array \<Rightarrow> as_array" where
  "fillFromPrototypeChain chain startindex count' a =
     fold (fill_one chain) [startindex..<min (to_u32 (startindex + count')) (currentsize a)] a"

section \<open>Both ends\<close>

text \<open>The loop of \<open>pop\<close> over the holes at the end of the vector.\<close>

function pop_invalid :: "asAtom \<Rightarrow> asAtom list \<Rightarrow> asAtom \<times> asAtom list" where
  "pop_invalid ret xs =
     (if isInvalid ret \<and> xs \<noteq> [] then pop_invalid (last xs) (butlast xs) else (ret, xs))"
  by pat_completeness auto
termination
  by (relation "measure (\<lambda>(ret, xs). length xs)") auto

declare pop_invalid.simps [simp del]

definition array_pop :: "as_array \<Rightarrow> asAtom \<times> as_array" where
  "array_pop a =
     (let size' = to_u32 (currentsize a)
      in if size' = 0 then (undefinedAtom, a)
         else
           let (ret, a) =
             (if size' \<le> ARRAY_SIZE_THRESHOLD then
                (if length (data_first a) > 0 then
                   let (ret, first) = pop_invalid invalidAtom (data_first a)
                   in (if isInvalid ret then undefinedAtom else ret, a\<lparr>data_first := first\<rparr>)
                 else (undefinedAtom, a))
              else (case map_of (data_second a) (size' - 1) of
                      Some v \<Rightarrow> (v, a\<lparr>data_second := AList.delete (size' - 1) (data_second a)\<rparr>)
                    | None \<Rightarrow> (undefinedAtom, a)))
           in (ret, a\<lparr>currentsize := currentsize a - 1\<rparr>))"

text \<open>\<open>v[i] = x\<close> on a vector.\<close>

definition vector_write :: "nat \<Rightarrow> 'a \<Rightarrow> 'a list \<Rightarrow> 'a list res" where
  "vector_write i x v = (if i < length v then Inr (v[i := x]) else Inl OutOfBounds)"

text \<open>\<open>move_down\<close>: an entry of the map moves to the index before it, the first one into the vector.\<close>

definition move_down :: "(nat \<Rightarrow> nat) \<Rightarrow> nat \<times> asAtom \<Rightarrow> asAtom list \<times> (nat \<times> asAtom) list \<Rightarrow>
    (asAtom list \<times> (nat \<times> asAtom) list) res" where
  "move_down new_key = (\<lambda>(k, v) (first, tmp).
     if k = ARRAY_SIZE_THRESHOLD then bindE (vector_write (ARRAY_SIZE_THRESHOLD - 1) v first) (\<lambda>first. Inr (first, tmp))
     else Inr (first, AList.update (new_key k) v tmp))"

definition array_shift :: "as_array \<Rightarrow> (asAtom \<times> as_array) res" where
  "array_shift a =
     (if currentsize a = 0 then Inr (undefinedAtom, a)
      else
        let ret = (if length (data_first a) > 0 then data_first a ! 0 else invalidAtom);
            ret = (if isInvalid ret then undefinedAtom else ret)
        in bindE (foldE (\<lambda>(k, v) s. if k \<noteq> 0 then move_down (\<lambda>k. k - 1) (k, v) s else Inr s)
                 (tl (data_first a), []) (data_second a)) (\<lambda>(first, tmp).
             Inr (ret, resize (currentsize a - 1) (a\<lparr>data_first := first, data_second := tmp\<rparr>))))"

text \<open>\<open>set_all\<close>: the loop that stores the entries of a temporary map.\<close>

definition set_all :: "(nat \<times> asAtom) list \<Rightarrow> as_array \<Rightarrow> as_array" where
  "set_all = fold (\<lambda>(k, v). set_at k v)"

definition unshift_map :: "asAtom list \<Rightarrow> as_array \<Rightarrow> (nat \<times> asAtom) list" where
  "unshift_map args a =
     (let n = length args;
          tmp = fold (\<lambda>i. AList.update (to_u32 (i + n)) (data_first a ! i)) [0..<length (data_first a)] [];
          tmp = fold (\<lambda>(k, v). AList.update (to_u32 (k + n)) v) (data_second a) tmp
      in fold (\<lambda>i. AList.update i (args ! i)) [0..<n] tmp)"

definition array_unshift :: "asAtom list \<Rightarrow> as_array \<Rightarrow> asAtom \<times> as_array" where
  "array_unshift args a =
     (let a = (if length args > 0 then
                 let a = resize (currentsize a + length args) a; tmp = unshift_map args a
                 in set_all (sort_key fst tmp) (a\<lparr>data_first := [], data_second := []\<rparr>)
               else a)
      in (setUInt (of_nat (currentsize a)), a))"

section \<open>Ranges\<close>

text \<open>A value of type \<open>int\<close>.\<close>

definition to_i32 :: "int \<Rightarrow> int" where
  "to_i32 n = (n + 2147483648) mod 4294967296 - 2147483648"

definition capIndex :: "int \<Rightarrow> as_array \<Rightarrow> int" where
  "capIndex i a =
     (let totalSize = to_i32 (int (currentsize a))
      in if totalSize \<le> 0 then 0
         else if i < - totalSize then 0
         else if i > totalSize then totalSize
         else if i \<ge> 0 then i
         else i + totalSize)"

text \<open>The arguments of \<open>slice\<close> are read as \<open>uint32_t\<close> and passed on as \<open>int\<close>.\<close>

definition array_slice :: "as_array list \<Rightarrow> u32 \<Rightarrow> u32 \<Rightarrow> as_array \<Rightarrow> as_array" where
  "array_slice chain startIndex endIndex a =
     (let s = nat (capIndex (sint startIndex) a); e = nat (capIndex (sint endIndex) a)
      in fold (\<lambda>i res'. let v = snd (array_at i True a)
                       in if isValid v then push v res'
                          else let m = member_from_chain chain i in if isValid m then push m res' else res')
           [s..<min e (currentsize a)] array_new)"

text \<open>
  \<open>splice\<close>: the removed elements go to the result, those behind them are remembered in \<open>tmp\<close> (whose
  elements start as zero bits) and stored again behind the inserted ones.
\<close>

definition splice_collect :: "as_array list \<Rightarrow> nat \<Rightarrow> nat \<Rightarrow> as_array \<Rightarrow> as_array" where
  "splice_collect chain s d a =
     fold (\<lambda>i res'. let v = snd (array_at (s + i) True a)
                   in if isValid v then set_at i v res'
                      else let m = member_from_chain chain (s + i) in if isValid m then set_at i m res' else res')
       [0..<d] (resize d array_new)"

definition erase_at :: "nat \<Rightarrow> 'a list \<Rightarrow> 'a list" where
  "erase_at i xs = take i xs @ drop (i + 1) xs"

definition splice_delete :: "nat \<Rightarrow> nat \<Rightarrow> as_array \<Rightarrow> as_array" where
  "splice_delete s d a =
     fold (\<lambda>i a. if i + s < ARRAY_SIZE_THRESHOLD then
                   (if s < length (data_first a) then a\<lparr>data_first := erase_at s (data_first a)\<rparr> else a)
                 else a\<lparr>data_second := AList.delete (s + i) (data_second a)\<rparr>)
       [0..<d] a"

definition splice_remember_one :: "as_array list \<Rightarrow> nat \<Rightarrow> nat \<Rightarrow> asAtom list \<times> as_array \<Rightarrow> asAtom list \<times> as_array" where
  "splice_remember_one chain s i = (\<lambda>(tmp, a).
     if i < ARRAY_SIZE_THRESHOLD then
       (if s < length (data_first a) then
          let v = data_first a ! s; v = (if isValid v then v else member_from_chain chain i)
          in (tmp @ [v], a\<lparr>data_first := erase_at s (data_first a)\<rparr>)
        else (tmp @ [0], a))
     else (case map_of (data_second a) i of
             Some v \<Rightarrow> (tmp @ [v], a\<lparr>data_second := AList.delete i (data_second a)\<rparr>)
           | None \<Rightarrow> (tmp @ [member_from_chain chain i], a)))"

definition splice_move :: "as_array list \<Rightarrow> nat \<Rightarrow> nat \<Rightarrow> asAtom list \<Rightarrow> nat \<Rightarrow> as_array \<Rightarrow> as_array \<times> as_array" where
  "splice_move chain s d newvals totalSize a =
     (let res' = splice_collect chain s d a;
          a = (if d > 0 then splice_delete s d a else a);
          (tmp, a) = fold (splice_remember_one chain s) [s + d..<totalSize] ([], a);
          a = resize s a;
          a = fold push newvals a;
          a = resize (to_u32 (totalSize - d + length newvals)) a;
          a = fold (\<lambda>i a. if isValid (tmp ! i) then set_at (s + i + length newvals) (tmp ! i) a else a)
                [0..<totalSize - (s + d)] a
      in (res', a))"

text \<open>
  \<open>None\<close> for \<open>deleteCount\<close> is the default, the length as an \<open>int\<close>. The result is \<open>None\<close> when the
  method returns early. Counts are natural numbers, what they are in the code for lengths that fit
  into an \<open>int\<close>.
\<close>

definition array_splice :: "as_array list \<Rightarrow> int \<Rightarrow> int option \<Rightarrow> asAtom list \<Rightarrow> as_array \<Rightarrow> (as_array \<times> as_array) option" where
  "array_splice chain startIndex deleteCount newvals a =
     (let d = (case deleteCount of Some d \<Rightarrow> d | None \<Rightarrow> to_i32 (int (currentsize a)))
      in if d < 0 then None
         else
           let totalSize = to_u32 (currentsize a);
               s = nat (capIndex startIndex a);
               d = (if to_u32 (s + nat d) > totalSize then totalSize - s else nat d)
           in Some (splice_move chain s d newvals totalSize a))"

section \<open>One element in the middle\<close>

definition vector_insert :: "nat \<Rightarrow> 'a \<Rightarrow> 'a list \<Rightarrow> 'a list res" where
  "vector_insert i x v = (if i \<le> length v then Inr (take i v @ x # drop i v) else Inl OutOfBounds)"

definition array_insertAt :: "as_array list \<Rightarrow> int \<Rightarrow> asAtom \<Rightarrow> as_array \<Rightarrow> as_array res" where
  "array_insertAt chain index v a =
     (let index = (if index < 0 \<and> int (currentsize a) \<ge> - index then to_i32 (int (currentsize a) + index) else index);
          index = nat (if index < 0 then 0 else index)
      in if index \<ge> currentsize a then
           Inr (set_at (currentsize a) v (a\<lparr>currentsize := currentsize a + 1\<rparr>))
         else
           let a = fillFromPrototypeChain chain index (to_u32 (currentsize a)) a
           in bindE (if index < ARRAY_SIZE_THRESHOLD then vector_insert index v (data_first a) else Inr (data_first a)) (\<lambda>first.
              let tmp = fold (\<lambda>(k, w). AList.update (to_u32 (k + (if k \<ge> index then 1 else 0))) w) (data_second a) [];
                  (first, tmp) = (if length first > ARRAY_SIZE_THRESHOLD
                    then (butlast first, AList.update ARRAY_SIZE_THRESHOLD (first ! ARRAY_SIZE_THRESHOLD) tmp)
                    else (first, tmp));
                  a = set_all (sort_key fst tmp) (a\<lparr>data_first := first, data_second := []\<rparr>)
              in Inr (set_at index v (a\<lparr>currentsize := currentsize a + 1\<rparr>))))"

definition array_removeAt :: "as_array list \<Rightarrow> int \<Rightarrow> as_array \<Rightarrow> (asAtom \<times> as_array) res" where
  "array_removeAt chain index a =
     (let index = (if index < 0 then to_i32 (int (currentsize a) + index) else index);
          index = nat (if index < 0 then 0 else index);
          a = fillFromPrototypeChain chain index (to_u32 (currentsize a)) a;
          (ret, a) =
            (if index < ARRAY_SIZE_THRESHOLD then
               (if index < length (data_first a) then (data_first a ! index, a\<lparr>data_first := erase_at index (data_first a)\<rparr>)
                else (undefinedAtom, a))
             else (case map_of (data_second a) index of
                     Some v \<Rightarrow> (v, a\<lparr>data_second := AList.delete index (data_second a)\<rparr>)
                   | None \<Rightarrow> (undefinedAtom, a)));
          ret = (if isInvalid ret then undefinedAtom else ret);
          a = (if index < currentsize a then a\<lparr>currentsize := currentsize a - 1\<rparr> else a)
      in bindE (foldE (move_down (\<lambda>k. k - (if k > index then 1 else 0))) (data_first a, []) (data_second a)) (\<lambda>(first, tmp).
           Inr (ret, a\<lparr>data_first := first, data_second := tmp\<rparr>)))"

section \<open>Whole arrays\<close>

datatype concat_arg = ArrayArg as_array | ValueArg asAtom

fun concat_one :: "concat_arg \<Rightarrow> as_array \<Rightarrow> as_array" where
  "concat_one (ArrayArg other) res' =
     (let oldSize = currentsize res'; newSize = oldSize + length (data_first other);
          res' = fold push (data_first other) res';
          res' = fold (\<lambda>(k, v). set_at (newSize + k) v) (data_second other) res'
      in resize (oldSize + currentsize other) res')"
| "concat_one (ValueArg v) res' = push v res'"

definition array_concat :: "concat_arg list \<Rightarrow> as_array \<Rightarrow> as_array" where
  "array_concat args a =
     fold concat_one args \<lparr>currentsize = currentsize a, data_first = data_first a, data_second = data_second a\<rparr>"

text \<open>\<open>reverse\<close>; \<open>ord\<close> is the order in which the entries of its temporary map are visited.\<close>

definition strip_invalid :: "asAtom list \<Rightarrow> asAtom list" where
  "strip_invalid xs = rev (dropWhile isInvalid (rev xs))"

definition array_reverse :: "((nat \<times> asAtom) list \<Rightarrow> (nat \<times> asAtom) list) \<Rightarrow> as_array \<Rightarrow> as_array" where
  "array_reverse ord a =
     (let a = a\<lparr>data_first := strip_invalid (data_first a)\<rparr>
      in if data_second a = [] then a\<lparr>data_first := rev (data_first a)\<rparr>
         else
           let tmp = fold (\<lambda>i. AList.update i (data_first a ! i)) [0..<length (data_first a)] (data_second a);
               size' = to_u32 (currentsize a)
           in fold (\<lambda>(k, v). set_at (nat ((int size' - (int k + 1)) mod 4294967296)) v) (ord tmp)
                (a\<lparr>data_first := [], data_second := []\<rparr>))"

section \<open>Searching\<close>

definition array_indexOf :: "(asAtom \<Rightarrow> bool) \<Rightarrow> int \<Rightarrow> as_array \<Rightarrow> int" where
  "array_indexOf eq index a =
     (let index = (if index < 0 then to_i32 (int (currentsize a) + index) else index);
          index = nat (if index < 0 then 0 else index);
          res' = (if index < length (data_first a) then List.find (\<lambda>i. eq (data_first a ! i)) [index..<length (data_first a)] else None)
      in case res' of Some i \<Rightarrow> int i
         | None \<Rightarrow> (case List.find (\<lambda>(k, v). index \<le> k \<and> eq v) (data_second a) of
                      Some (k, _) \<Rightarrow> to_i32 (int k) | None \<Rightarrow> - 1))"

primrec last_index_loop :: "(asAtom \<Rightarrow> bool) \<Rightarrow> nat \<Rightarrow> as_array \<Rightarrow> int res" where
  "last_index_loop eq 0 a =
     bindE (rd (data_first a) 0) (\<lambda>v. Inr (if isValid v \<and> eq v then 0 else - 1))"
| "last_index_loop eq (Suc i) a =
     (let next = last_index_loop eq i a
      in if Suc i \<ge> ARRAY_SIZE_THRESHOLD then
           (case map_of (data_second a) (to_u32 (Suc i)) of
              Some v \<Rightarrow> if eq v then Inr (to_i32 (int (Suc i))) else next
            | None \<Rightarrow> next)
         else bindE (rd (data_first a) (Suc i)) (\<lambda>v.
              if isValid v \<and> eq v then Inr (to_i32 (int (Suc i))) else next))"

text \<open>\<open>index\<close> is \<open>None\<close> for NaN; \<open>one_arg\<close> tells that only the value to search for was given.\<close>

definition array_lastIndexOf :: "(asAtom \<Rightarrow> bool) \<Rightarrow> bool \<Rightarrow> int option \<Rightarrow> as_array \<Rightarrow> int res" where
  "array_lastIndexOf eq one_arg index a =
     (if one_arg \<and> currentsize a = 0 then Inr (- 1)
      else case index of
        None \<Rightarrow> Inr 0
      | Some j \<Rightarrow>
          if j < 0 then
            (if nat (- j) > currentsize a then Inr (- 1) else last_index_loop eq (currentsize a - nat (- j)) a)
          else
            last_index_loop eq
              (if nat j \<ge> currentsize a then (if currentsize a = 0 then 18446744073709551615 else currentsize a - 1)
               else nat j) a)"

section \<open>Text\<close>

definition array_join :: "(asAtom \<Rightarrow> u8 list) \<Rightarrow> u8 list \<Rightarrow> as_array \<Rightarrow> u8 list" where
  "array_join to_string del a =
     concat (map (\<lambda>i.
       (let v = snd (array_at i False a) in if \<not> isUndefined v \<and> \<not> isNull v then to_string v else [])
       @ (if i \<noteq> currentsize a - 1 then del else [])) [0..<currentsize a])"

definition toString_priv :: "(asAtom \<Rightarrow> u8 list) \<Rightarrow> as_array \<Rightarrow> u8 list" where
  "toString_priv to_string a =
     concat (map (\<lambda>i.
       (let sl = stored i a in if isValid sl \<and> \<not> isNull sl \<and> \<not> isUndefined sl then to_string sl else [])
       @ (if i \<noteq> currentsize a - 1 then [44] else [])) [0..<currentsize a])"

end
