(* ===== verification/ArrayLists.thy ===== *)
theory ArrayLists
  imports ArrayMethods "HOL-Library.Multiset"
begin

text \<open>
  What the methods of \<open>ArrayMethods\<close> do to the list of the elements: each of them is a function on
  lists for the arrays it handles, and there is a lemma for each kind of array it does not handle.
\<close>

section \<open>Holes and the prototype chain\<close>

lemma array_at_stored [simp]: "snd (array_at i True a) = stored i a"
  by (simp add: array_at_def Let_def)

definition or_chain :: "as_array list \<Rightarrow> nat \<Rightarrow> asAtom \<Rightarrow> asAtom" where
  "or_chain chain i v = (if isValid v then v else member_from_chain chain i)"

lemma isInvalid_iff: "isInvalid v \<longleftrightarrow> \<not> isValid v"
  by (simp add: isInvalid_def isValid_def)

lemma or_chain_invalid: "\<not> isValid v \<Longrightarrow> \<not> isValid (member_from_chain chain i) \<Longrightarrow> or_chain chain i v = v"
  by (simp add: or_chain_def isValid_alt)

lemma fill_one_ok: "array_ok a \<Longrightarrow> array_ok (fill_one chain i a) \<and> currentsize (fill_one chain i a) = currentsize a"
  by (simp add: fill_one_def Let_def array_ok_set_at)

lemma elems_same: "(elems a)[i := stored i a] = elems a"
  by (cases "i < currentsize a") (simp_all add: list_update_beyond flip: nth_elems)

lemma elems_fill_one:
  assumes "array_ok a" "i < 4294967296"
  shows "elems (fill_one chain i a) = (elems a)[i := or_chain chain i (stored i a)]"
proof (cases "isValid (stored i a)")
  case True
  then show ?thesis
    by (simp add: fill_one_def isInvalid_iff or_chain_def elems_same)
next
  case False
  then show ?thesis
  proof (cases "isValid (member_from_chain chain i)")
    case True
    with False assms show ?thesis
      by (simp add: fill_one_def isInvalid_iff or_chain_def Let_def elems_set_at)
  next
    case no: False
    with False assms show ?thesis
      by (simp add: fill_one_def isInvalid_iff or_chain_invalid Let_def elems_same)
  qed
qed

lemma fill_from_chain:
  assumes "array_ok a" "m \<le> 4294967296"
  shows "array_ok (fold (fill_one chain) [s..<m] a) \<and> currentsize (fold (fill_one chain) [s..<m] a) = currentsize a \<and>
    (\<forall>i < currentsize a. elems (fold (fill_one chain) [s..<m] a) ! i =
       (if s \<le> i \<and> i < m then or_chain chain i (elems a ! i) else elems a ! i))"
  using assms(2)
proof (induction m)
  case (Suc m)
  show ?case
  proof (cases "s \<le> m")
    case True
    define b where "b = fold (fill_one chain) [s..<m] a"
    have b: "array_ok b" "currentsize b = currentsize a" and
      e: "\<forall>i < currentsize a. elems b ! i = (if s \<le> i \<and> i < m then or_chain chain i (elems a ! i) else elems a ! i)"
      using Suc by (simp_all add: b_def)
    have "elems (fill_one chain m b) = (elems b)[m := or_chain chain m (stored m b)]"
      using Suc.prems b by (simp add: elems_fill_one)
    moreover have "m < currentsize a \<Longrightarrow> stored m b = elems a ! m"
      using e b(2) nth_elems [of m b] by auto
    ultimately show ?thesis
      using True b(2) e fill_one_ok [OF b(1), of chain m]
      by (auto simp: nth_list_update less_Suc_eq simp flip: b_def)
  qed (use assms(1) in auto)
qed (simp add: assms(1))

lemma fillFromPrototypeChain_list:
  assumes "array_ok a" "currentsize a < 2147483648" "s \<le> currentsize a"
  shows "array_ok (fillFromPrototypeChain chain s (currentsize a) a)"
    and "elems (fillFromPrototypeChain chain s (currentsize a) a) =
      map (\<lambda>i. if s \<le> i then or_chain chain i (elems a ! i) else elems a ! i) [0..<currentsize a]"
proof -
  have "min (to_u32 (s + currentsize a)) (currentsize a) = currentsize a"
    using assms by (simp add: to_u32_def)
  then show "array_ok (fillFromPrototypeChain chain s (currentsize a) a)"
    and "elems (fillFromPrototypeChain chain s (currentsize a) a) =
      map (\<lambda>i. if s \<le> i then or_chain chain i (elems a ! i) else elems a ! i) [0..<currentsize a]"
    using fill_from_chain [OF assms(1), of "currentsize a" chain s] assms
    by (auto simp: fillFromPrototypeChain_def intro!: nth_equalityI)
qed

section \<open>pop\<close>

lemma pop_invalid_valid:
  assumes "xs \<noteq> []" "isValid (last xs)"
  shows "pop_invalid invalidAtom xs = (last xs, butlast xs)"
  using assms by (subst pop_invalid.simps) (subst pop_invalid.simps, simp add: isInvalid_iff isValid_alt)

lemma elems_butlast:
  assumes "currentsize b = currentsize a - 1" "\<And>i. i < currentsize a - 1 \<Longrightarrow> stored i b = stored i a"
  shows "elems b = butlast (elems a)"
  using assms by (intro elems_eqI) (simp_all add: nth_butlast nth_elems)

lemma pop_list:
  assumes ok: "array_ok a" and size: "0 < currentsize a" "currentsize a \<le> UINT32_MAX"
    and hole: "currentsize a \<le> ARRAY_SIZE_THRESHOLD \<longrightarrow> isValid (last (elems a))"
  shows "array_ok (snd (array_pop a))" "elems (snd (array_pop a)) = butlast (elems a)"
    "isValid (last (elems a)) \<Longrightarrow> fst (array_pop a) = last (elems a)"
proof -
  define n where "n = currentsize a - 1"
  have u: "to_u32 (currentsize a) = currentsize a"
    using size by (simp add: to_u32_small UINT32_MAX_def)
  have l: "last (elems a) = stored n a"
    using size by (simp add: last_conv_nth nth_elems n_def flip: length_greater_0_conv)
  have "array_ok (snd (array_pop a)) \<and> elems (snd (array_pop a)) = butlast (elems a) \<and>
    (isValid (last (elems a)) \<longrightarrow> fst (array_pop a) = last (elems a))"
  proof (cases "currentsize a \<le> ARRAY_SIZE_THRESHOLD")
    case True
    with ok have f: "length (data_first a) = currentsize a" "data_second a = []"
      by (auto simp: array_ok_def ARRAY_SIZE_THRESHOLD_def)
    have ne: "data_first a \<noteq> []"
      using f size by auto
    have "n < ARRAY_SIZE_THRESHOLD" "n < length (data_first a)" "n = length (data_first a) - 1"
      using True f size unfolding n_def by linarith+
    then have "last (data_first a) = stored n a"
      using ne by (simp add: stored_def last_conv_nth)
    then have p: "pop_invalid invalidAtom (data_first a) = (stored n a, butlast (data_first a))"
      using pop_invalid_valid [OF ne] hole l True by simp
    have b: "array_pop a = (stored n a, a\<lparr>data_first := butlast (data_first a), currentsize := n\<rparr>)"
      using True hole l p ne size by (simp add: array_pop_def Let_def u isInvalid_iff n_def)
    have "elems (snd (array_pop a)) = butlast (elems a)"
      using f True by (intro elems_butlast) (auto simp: b stored_def nth_butlast n_def)
    with b f True l show ?thesis
      by (simp add: array_ok_def n_def)
  next
    case False
    then have n: "ARRAY_SIZE_THRESHOLD \<le> n" "n < currentsize a"
      by (auto simp: n_def)
    have b: "array_pop a = (case map_of (data_second a) n of
        Some v \<Rightarrow> (v, a\<lparr>data_second := AList.delete n (data_second a), currentsize := n\<rparr>)
      | None \<Rightarrow> (undefinedAtom, a\<lparr>data_second := AList.delete n (data_second a), currentsize := n\<rparr>))"
    proof (cases "map_of (data_second a) n")
      case None
      then have "AList.delete n (data_second a) = data_second a"
        by (simp add: map_of_eq_None_iff)
      with None False size show ?thesis
        by (simp add: array_pop_def Let_def u n_def)
    qed (use False size in \<open>simp add: array_pop_def Let_def u n_def\<close>)
    have "fst ` set (AList.delete n (data_second a)) \<subseteq> {ARRAY_SIZE_THRESHOLD..<min n 4294967296}"
    proof -
      have "fst ` set (AList.delete n (data_second a)) \<subseteq> fst ` set (data_second a) - {n}"
        using delete_notin_dom [of n "data_second a"] dom_delete_subset [of n "data_second a"] by blast
      also have "\<dots> \<subseteq> {ARRAY_SIZE_THRESHOLD..<min (currentsize a) 4294967296} - {n}"
        using ok unfolding array_ok_def by blast
      also have "\<dots> \<subseteq> {ARRAY_SIZE_THRESHOLD..<min n 4294967296}"
        by (auto simp: n_def)
      finally show ?thesis .
    qed
    then have "array_ok (snd (array_pop a))"
      using ok n by (auto simp: b array_ok_def distinct_delete split: option.split)
    moreover have "elems (snd (array_pop a)) = butlast (elems a)"
      using n by (intro elems_butlast) (auto simp: b stored_def delete_conv' n_def split: option.split)
    moreover have "isValid (stored n a) \<longrightarrow> fst (array_pop a) = stored n a"
      using n by (auto simp: b stored_def isValid_alt split: option.split)
    ultimately show ?thesis
      by (simp add: l)
  qed
  then show "array_ok (snd (array_pop a))" "elems (snd (array_pop a)) = butlast (elems a)"
    "isValid (last (elems a)) \<Longrightarrow> fst (array_pop a) = last (elems a)"
    by blast+
qed


text \<open>A hole at the end: \<open>pop\<close> returns the element before it, and leaves the vector too short.\<close>

lemma pop_of_hole:
  assumes "currentsize a = 2" "data_first a = [v, invalidAtom]" "isValid v"
  shows "array_pop a = (v, a\<lparr>data_first := [], currentsize := 1\<rparr>)"
proof -
  have "pop_invalid invalidAtom [v, invalidAtom] = (v, [])"
    using assms(3) by (simp add: pop_invalid.simps isInvalid_iff isValid_alt)
  with assms show ?thesis
    by (simp add: array_pop_def Let_def to_u32_def ARRAY_SIZE_THRESHOLD_def isInvalid_iff)
qed

section \<open>shift\<close>

lemma no_second: "array_ok a \<Longrightarrow> currentsize a \<le> ARRAY_SIZE_THRESHOLD \<Longrightarrow> data_second a = []"
  by (auto simp: array_ok_def ARRAY_SIZE_THRESHOLD_def)

lemma elems_first: "array_ok a \<Longrightarrow> currentsize a \<le> ARRAY_SIZE_THRESHOLD \<Longrightarrow> elems a = data_first a"
  by (intro elems_eqI) (auto simp: array_ok_def stored_def)

lemma array_ok_first: "length xs \<le> ARRAY_SIZE_THRESHOLD \<Longrightarrow>
    array_ok \<lparr>currentsize = length xs, data_first = xs, data_second = []\<rparr>"
  by (simp add: array_ok_def)

lemma shift_list:
  assumes "array_ok a" "0 < currentsize a" "currentsize a \<le> ARRAY_SIZE_THRESHOLD"
  shows "\<exists>b. array_shift a = Inr (if isValid (hd (elems a)) then hd (elems a) else undefinedAtom, b)
    \<and> array_ok b \<and> elems b = tl (elems a)"
proof -
  have f: "length (data_first a) = currentsize a" "data_second a = []" "elems a = data_first a"
    using array_okD(1) [OF assms(1)] no_second [OF assms(1,3)] elems_first [OF assms(1,3)] assms(3) by simp_all
  have ne: "data_first a \<noteq> []"
    using f(1) assms(2) by auto
  define b where "b = \<lparr>currentsize = currentsize a - 1, data_first = tl (data_first a), data_second = []\<rparr>"
  have "resize (currentsize a - 1) (a\<lparr>data_first := tl (data_first a), data_second := []\<rparr>) = b"
    using assms f by (simp add: resize_def b_def)
  then have "array_shift a = Inr (if isValid (hd (elems a)) then hd (elems a) else undefinedAtom, b)"
    using assms(2) f ne by (simp add: array_shift_def Let_def isInvalid_iff hd_conv_nth)
  moreover have "b = \<lparr>currentsize = length (tl (data_first a)), data_first = tl (data_first a), data_second = []\<rparr>"
    using f by (simp add: b_def)
  then have "array_ok b"
    using array_ok_first [of "tl (data_first a)"] f assms(3) by simp
  moreover have "elems b = tl (elems a)"
    using elems_first [OF \<open>array_ok b\<close>] assms(3) f by (simp add: b_def)
  ultimately show ?thesis
    by blast
qed

text \<open>Above the threshold, \<open>shift\<close> and \<open>removeAt\<close> write behind the end of the vector.\<close>

lemma foldE_Inl: "f x s = Inl e \<Longrightarrow> foldE f s (x # xs) = Inl e"
  by simp

lemma shift_out_of_bounds:
  assumes "array_ok a" "data_second a = (65536, v) # xs"
  shows "array_shift a = Inl OutOfBounds"
proof -
  have "map_of (data_second a) 65536 = Some v"
    by (simp add: assms(2))
  then have "65536 < currentsize a"
    using array_okD(3) [OF assms(1)] by blast
  then have "length (data_first a) = 65536"
    using array_okD(1) [OF assms(1)] by (simp add: ARRAY_SIZE_THRESHOLD_def)
  with \<open>65536 < currentsize a\<close> show ?thesis
    by (simp add: array_shift_def Let_def assms(2) move_down_def vector_write_def ARRAY_SIZE_THRESHOLD_def)
qed

section \<open>The loop that stores a map\<close>

lemma set_all_Cons: "set_all ((k, v) # xs) a = set_all xs (set_at k v a)"
  by (simp add: set_all_def)

lemma currentsize_set_all [simp]: "currentsize (set_all xs a) = currentsize a"
  by (induction xs arbitrary: a) (auto simp: set_all_Cons, simp add: set_all_def)

lemma stored_set_same: "k < currentsize a \<Longrightarrow> k < 4294967296 \<Longrightarrow> stored k (set_at k v a) = v"
  by (simp add: stored_def set_at_def array_set_def Let_def to_u32_small vector_resize_def update_conv')

text \<open>An element that is there already stays, whatever \<open>set\<close> does to the gaps behind the vector.\<close>

definition present :: "nat \<Rightarrow> as_array \<Rightarrow> bool" where
  "present k a \<longleftrightarrow> (k < ARRAY_SIZE_THRESHOLD \<longrightarrow> k < length (data_first a))"

lemma stored_set_other:
  "present k a \<Longrightarrow> k \<noteq> to_u32 i \<Longrightarrow> stored k (set_at i v a) = stored k a"
  by (auto simp: present_def stored_def set_at_def array_set_def Let_def vector_resize_def nth_append nth_list_update
      update_conv' split: option.split)

lemma present_set: "present k a \<Longrightarrow> present k (set_at i v a)"
  by (auto simp: present_def set_at_def array_set_def Let_def vector_resize_def)

lemma present_set_same: "k < currentsize a \<Longrightarrow> k < 4294967296 \<Longrightarrow> present k (set_at k v a)"
  by (auto simp: present_def set_at_def array_set_def Let_def vector_resize_def to_u32_small)

lemma stored_set_all_other:
  "present k a \<Longrightarrow> k \<notin> fst ` set xs \<Longrightarrow> \<forall>i\<in>fst ` set xs. i < 4294967296 \<Longrightarrow>
    stored k (set_all xs a) = stored k a \<and> present k (set_all xs a)"
proof (induction xs arbitrary: a)
  case (Cons x xs)
  obtain i v where x: "x = (i, v)"
    by force
  with Cons.prems have "stored k (set_at i v a) = stored k a" "present k (set_at i v a)"
    by (auto simp: stored_set_other present_set to_u32_small)
  with Cons x show ?case
    by (auto simp: set_all_Cons)
qed (simp add: set_all_def)

lemma stored_set_all:
  assumes "distinct (map fst xs)" "map_of xs k = Some v" "\<forall>i\<in>fst ` set xs. i < 4294967296" "k < currentsize a"
  shows "stored k (set_all xs a) = v \<and> present k (set_all xs a)"
  using assms
proof (induction xs arbitrary: a)
  case (Cons x xs)
  obtain i w where x: "x = (i, w)"
    by force
  show ?case
  proof (cases "k = i")
    case True
    with Cons.prems x have "k \<notin> fst ` set xs" "k < 4294967296" "w = v"
      by auto
    then show ?thesis
      using True x Cons.prems stored_set_all_other [of k "set_at k v a" xs]
      by (auto simp: set_all_Cons stored_set_same present_set_same)
  next
    case False
    with Cons x show ?thesis
      by (auto simp: set_all_Cons)
  qed
qed simp


text \<open>Arrays whose vector may be too short.\<close>

definition array_weak :: "as_array \<Rightarrow> bool" where
  "array_weak a \<longleftrightarrow> length (data_first a) \<le> min (currentsize a) ARRAY_SIZE_THRESHOLD \<and>
     distinct (map fst (data_second a)) \<and>
     fst ` set (data_second a) \<subseteq> {ARRAY_SIZE_THRESHOLD..<min (currentsize a) 4294967296}"

lemma array_ok_weak: "array_ok a \<Longrightarrow> array_weak a"
  by (simp add: array_ok_def array_weak_def)

lemma array_weak_set_at:
  assumes "array_weak a"
  shows "array_weak (set_at i v a)"
proof (cases "to_u32 i < currentsize a")
  case True
  have "to_u32 i < 4294967296"
    by (simp add: to_u32_def)
  with True assms show ?thesis
    by (simp add: array_weak_def set_at_def array_set_def Let_def distinct_update dom_update vector_resize_def)
qed (simp add: set_at_beyond assms)

lemma array_weak_set_all: "array_weak a \<Longrightarrow> array_weak (set_all xs a)"
  by (induction xs arbitrary: a) (auto simp: set_all_Cons array_weak_set_at, simp add: set_all_def)

lemma array_ok_of_present:
  assumes "array_weak a" "\<And>k. k < currentsize a \<Longrightarrow> k < ARRAY_SIZE_THRESHOLD \<Longrightarrow> present k a"
  shows "array_ok a"
proof -
  define m where "m = min (currentsize a) ARRAY_SIZE_THRESHOLD"
  have "m \<le> length (data_first a)"
  proof (cases m)
    case (Suc k)
    then have "k < currentsize a" "k < ARRAY_SIZE_THRESHOLD"
      by (simp_all add: m_def min_def split: if_splits)
    with assms(2) [of k] Suc show ?thesis
      by (simp add: present_def)
  qed simp
  with assms(1) show ?thesis
    unfolding array_ok_def array_weak_def m_def by (intro conjI le_antisym) simp_all
qed

lemma distinct_sort_key: "distinct (map fst xs) \<Longrightarrow> distinct (map fst (sort_key fst xs))"
  by (simp add: distinct_map distinct_sort)

lemma map_of_sort_key: "distinct (map fst xs) \<Longrightarrow> map_of (sort_key fst xs) = map_of xs"
  by (simp add: map_of_inject_set distinct_sort_key)

lemma map_of_fold_update:
  assumes "inj_on f (set is)"
  shows "map_of (fold (\<lambda>i. AList.update (f i) (g i)) is al) k =
    (if k \<in> f ` set is then Some (g (the_inv_into (set is) f k)) else map_of al k)"
  using assms
proof (induction "is" arbitrary: al rule: rev_induct)
  case (snoc i xs)
  then have "inj_on f (set xs)"
    by (simp add: inj_on_def)
  note IH = snoc.IH [OF this]
  have inv: "the_inv_into (set (xs @ [i])) f (f j) = j" if "j \<in> set (xs @ [i])" for j
    using snoc.prems that by (rule the_inv_into_f_f)
  have inv': "the_inv_into (set xs) f (f j) = j" if "j \<in> set xs" for j
    using \<open>inj_on f (set xs)\<close> that by (rule the_inv_into_f_f)
  show ?case
    using inv inv' by (auto simp: update_conv' IH)
qed simp

lemma distinct_fold_update:
  "distinct (map fst al) \<Longrightarrow> distinct (map fst (fold (\<lambda>i. AList.update (f i) (g i)) is al))"
  by (induction "is" arbitrary: al) (simp_all add: distinct_update)

text \<open>Storing a map into an emptied array gives the map, as long as it covers the vector.\<close>

lemma store_map:
  fixes a :: as_array
  assumes "distinct (map fst tmp)" "\<forall>i\<in>fst ` set tmp. i < 4294967296"
    and "\<forall>k. k < currentsize a \<longrightarrow> k < ARRAY_SIZE_THRESHOLD \<longrightarrow> map_of tmp k \<noteq> None"
  defines "b \<equiv> set_all tmp (a\<lparr>data_first := [], data_second := []\<rparr>)"
  shows "array_ok b" "currentsize b = currentsize a"
    "k < currentsize a \<Longrightarrow> stored k b = (case map_of tmp k of Some v \<Rightarrow> v | None \<Rightarrow> invalidAtom)"
proof -
  define e where "e = a\<lparr>data_first := [], data_second := []\<rparr>"
  have e: "currentsize e = currentsize a"
    by (simp add: e_def)
  show "currentsize b = currentsize a"
    by (simp add: b_def)
  have *: "stored k b = (case map_of tmp k of Some v \<Rightarrow> v | None \<Rightarrow> invalidAtom) \<and> present k b" if "k < currentsize a" for k
  proof (cases "map_of tmp k")
    case None
    with assms(3) that have T: "ARRAY_SIZE_THRESHOLD \<le> k"
      by (meson not_less)
    then have "present k e" "stored k e = invalidAtom"
      by (simp_all add: present_def stored_def e_def)
    moreover have "k \<notin> fst ` set tmp"
      using None by (simp add: map_of_eq_None_iff)
    ultimately show ?thesis
      using None assms(2) stored_set_all_other [of k e tmp] by (simp add: b_def flip: e_def)
  next
    case (Some v)
    with stored_set_all [of tmp k v e] that assms(1,2) e show ?thesis
      by (simp add: b_def flip: e_def)
  qed
  then show "k < currentsize a \<Longrightarrow> stored k b = (case map_of tmp k of Some v \<Rightarrow> v | None \<Rightarrow> invalidAtom)"
    by blast
  have "array_weak b"
    unfolding b_def by (rule array_weak_set_all) (simp add: array_weak_def)
  then show "array_ok b"
    using * \<open>currentsize b = currentsize a\<close> by (intro array_ok_of_present) simp_all
qed

section \<open>unshift\<close>

lemma unshift_map_eq:
  assumes "array_ok a" "currentsize a + length args < 4294901760"
  shows "distinct (map fst (unshift_map args a))" and "map_of (unshift_map args a) k =
    (if k < length args then Some (args ! k)
     else if k - length args < length (data_first a) then Some (data_first a ! (k - length args))
     else map_of (data_second a) (k - length args))"
    and "fst ` set (unshift_map args a) \<subseteq> {..<4294967296}"
proof -
  define n where "n = length args"
  define t1 where "t1 = fold (\<lambda>i. AList.update (to_u32 (i + n)) (data_first a ! i)) [0..<length (data_first a)] []"
  define t2 where "t2 = fold (\<lambda>p. AList.update (to_u32 (fst p + n)) (snd p)) (data_second a) t1"
  have t3: "unshift_map args a = fold (\<lambda>i. AList.update i (args ! i)) [0..<n] t2"
    by (simp add: unshift_map_def Let_def t1_def t2_def n_def split_def)
  have d: "distinct (map fst t1)" "distinct (map fst t2)"
    by (simp_all add: t1_def t2_def distinct_fold_update)
  then show "distinct (map fst (unshift_map args a))"
    unfolding t3 by (intro distinct_fold_update)
  have L: "length (data_first a) \<le> 65536"
    using array_okD(1) [OF assms(1)] by (simp add: ARRAY_SIZE_THRESHOLD_def)
  have u1: "to_u32 (i + n) = i + n" if "i < length (data_first a)" for i
    using that L assms(2) by (intro to_u32_small) (simp add: n_def)
  have u2: "to_u32 (i + n) = i + n" if "(i, v) \<in> set (data_second a)" for i v
  proof -
    have "i \<in> fst ` set (data_second a)"
      using that by force
    then have "i < currentsize a"
      using assms(1) unfolding array_ok_def by auto
    with assms(2) show ?thesis
      by (intro to_u32_small) (simp add: n_def)
  qed
  have inj1: "inj_on (\<lambda>i. to_u32 (i + n)) (set [0..<length (data_first a)])"
    by (rule inj_onI) (simp add: u1)
  have inj2: "inj_on (\<lambda>p. to_u32 (fst p + n)) (set (data_second a))"
  proof (rule inj_onI)
    fix p q
    assume pq: "p \<in> set (data_second a)" "q \<in> set (data_second a)" "to_u32 (fst p + n) = to_u32 (fst q + n)"
    then have "fst p = fst q"
      using u2 [of "fst p" "snd p"] u2 [of "fst q" "snd q"] by simp
    with pq array_okD(2) [OF assms(1)] show "p = q"
      by (simp add: distinct_map inj_on_def)
  qed
  have m1: "map_of t1 k = (if n \<le> k \<and> k - n < length (data_first a) then Some (data_first a ! (k - n)) else None)" for k
  proof (cases "n \<le> k \<and> k - n < length (data_first a)")
    case True
    then have k: "k = to_u32 ((k - n) + n)"
      using u1 [of "k - n"] by simp
    have "the_inv_into {0..<length (data_first a)} (\<lambda>i. to_u32 (i + n)) k = k - n"
      using the_inv_into_f_f [OF inj1, of "k - n"] True k by simp
    moreover have "k \<in> (\<lambda>i. to_u32 (i + n)) ` {0..<length (data_first a)}"
      using True k by (intro image_eqI [of _ _ "k - n"]) simp_all
    ultimately show ?thesis
      using True by (simp add: t1_def map_of_fold_update [OF inj1])
  next
    case False
    then have "k \<notin> (\<lambda>i. to_u32 (i + n)) ` {0..<length (data_first a)}"
      by (auto simp: u1)
    with False show ?thesis
      by (auto simp: t1_def map_of_fold_update [OF inj1])
  qed
  have m2: "map_of t2 k = (if n \<le> k \<and> map_of (data_second a) (k - n) \<noteq> None then map_of (data_second a) (k - n) else map_of t1 k)" for k
  proof (cases "n \<le> k \<and> map_of (data_second a) (k - n) \<noteq> None")
    case True
    then obtain v where v: "map_of (data_second a) (k - n) = Some v" "n \<le> k"
      by blast
    then have p: "(k - n, v) \<in> set (data_second a)"
      by (simp add: map_of_SomeD)
    then have k: "k = to_u32 (fst (k - n, v) + n)"
      using v u2 [OF p] by simp
    have "the_inv_into (set (data_second a)) (\<lambda>p. to_u32 (fst p + n)) k = (k - n, v)"
      by (subst k) (rule the_inv_into_f_f [OF inj2 p])
    moreover have "k \<in> (\<lambda>p. to_u32 (fst p + n)) ` set (data_second a)"
      using k p by (intro image_eqI)
    ultimately show ?thesis
      using v by (simp add: t2_def map_of_fold_update [OF inj2])
  next
    case False
    then have "k \<notin> (\<lambda>p. to_u32 (fst p + n)) ` set (data_second a)"
      by (auto simp: u2 map_of_eq_None_iff image_iff)
    with False show ?thesis
      by (auto simp: t2_def map_of_fold_update [OF inj2])
  qed
  have "inj_on (\<lambda>i. i) (set [0..<n])"
    by simp
  note m3 = map_of_fold_update [OF this, of "\<lambda>i. args ! i" t2]
  have m: "map_of (unshift_map args a) k = (if k < n then Some (args ! k) else map_of t2 k)" for k
  proof -
    have "the_inv_into {0..<n} (\<lambda>i. i) k = k" if "k < n"
      using the_inv_into_f_f [of "\<lambda>i. i" "{0..<n}" k] that by simp
    then show ?thesis
      unfolding t3 m3 by auto
  qed
  have m': "map_of (unshift_map args a) k =
    (if k < length args then Some (args ! k)
     else if k - length args < length (data_first a) then Some (data_first a ! (k - length args))
     else map_of (data_second a) (k - length args))" for k
  proof -
    have "map_of (data_second a) (k - n) = None" if "k - n < length (data_first a)"
      using that array_okD(3) [OF assms(1), of "k - n"] array_okD(1) [OF assms(1)]
      by (cases "map_of (data_second a) (k - n)") auto
    then show ?thesis
      unfolding m m2 m1 by (auto simp flip: n_def)
  qed
  then show "map_of (unshift_map args a) k =
    (if k < length args then Some (args ! k)
     else if k - length args < length (data_first a) then Some (data_first a ! (k - length args))
     else map_of (data_second a) (k - length args))" .
  show "fst ` set (unshift_map args a) \<subseteq> {..<4294967296}"
  proof
    fix k
    assume "k \<in> fst ` set (unshift_map args a)"
    then have "map_of (unshift_map args a) k \<noteq> None"
      by (simp add: map_of_eq_None_iff)
    then consider "k < n" | "k - n < length (data_first a)" | v where "map_of (data_second a) (k - n) = Some v"
      unfolding m' n_def by (auto split: if_splits)
    then have "k < 4294967296"
    proof cases
      case 3
      then have "k - n < currentsize a"
        using array_okD(3) [OF assms(1)] by blast
      with assms(2) show ?thesis
        by (simp add: n_def)
    qed (use assms(2) L in \<open>simp_all add: n_def\<close>)
    then show "k \<in> {..<4294967296}"
      by simp
  qed
qed

lemma unshift_list:
  assumes "array_ok a" "currentsize a + 2 * length args < 4294901760"
  shows "array_ok (snd (array_unshift args a))" "elems (snd (array_unshift args a)) = args @ elems a"
proof -
  have "array_ok (snd (array_unshift args a)) \<and> elems (snd (array_unshift args a)) = args @ elems a"
  proof (cases "args = []")
    case True
    with assms(1) show ?thesis
      by (simp add: array_unshift_def)
  next
    case False
    define n where "n = length args"
    define b where "b = resize (currentsize a + n) a"
    define tmp where "tmp = sort_key fst (unshift_map args b)"
    have b: "array_ok b" "currentsize b = currentsize a + n"
      using assms(1) by (simp_all add: b_def array_ok_resize)
    have "currentsize b + length args < 4294901760"
      using b assms(2) by (simp add: n_def)
    note u = unshift_map_eq [OF b(1) this]
    have m: "map_of tmp = map_of (unshift_map args b)" and d: "distinct (map fst tmp)"
      using u(1) by (simp_all add: tmp_def map_of_sort_key distinct_sort_key)
    have r: "\<forall>i\<in>fst ` set tmp. i < 4294967296"
      using u(3) by (auto simp: tmp_def)
    have covered: "\<forall>k. k < currentsize b \<longrightarrow> k < ARRAY_SIZE_THRESHOLD \<longrightarrow> map_of tmp k \<noteq> None"
      using array_okD(1) [OF b(1)] unfolding m u(2) by auto
    note s = store_map [OF d r covered]
    have e: "snd (array_unshift args a) = set_all tmp (b\<lparr>data_first := [], data_second := []\<rparr>)"
      using False by (simp add: array_unshift_def Let_def tmp_def b_def n_def)
    have "elems (snd (array_unshift args a)) = args @ elems a"
    proof (rule elems_eqI)
      show "currentsize (snd (array_unshift args a)) = length (args @ elems a)"
        using b s(2) by (simp add: e n_def)
      fix i
      assume "i < length (args @ elems a)"
      then have i: "i < currentsize b"
        using b by (simp add: n_def)
      have "stored (i - n) b = stored (i - n) a" if "n \<le> i"
      proof -
      have "i - n < currentsize a + n"
        using that i b by linarith
      then show ?thesis
        by (simp add: b_def stored_resize assms(1))
    qed
      moreover have "stored i (snd (array_unshift args a)) =
          (if i < n then args ! i else stored (i - n) b)"
        using s(3) [OF i] array_okD(1) [OF b(1)] array_okD(3) [OF b(1), of "i - n"] i b(2) unfolding m u(2)
        by (auto simp: e n_def stored_def split: option.split)
      ultimately show "stored i (snd (array_unshift args a)) = (args @ elems a) ! i"
        using i b by (auto simp: nth_append n_def nth_elems)
    qed
    with s(1) show ?thesis
      by (simp add: e)
  qed
  then show "array_ok (snd (array_unshift args a))" "elems (snd (array_unshift args a)) = args @ elems a"
    by blast+
qed


section \<open>reverse\<close>

lemma strip_valid: "xs = [] \<or> isValid (last xs) \<Longrightarrow> strip_invalid xs = xs"
  by (cases xs rule: rev_cases) (auto simp: strip_invalid_def isInvalid_iff)

lemma map_of_perm:
  assumes "distinct (map fst xs)" "mset ys = mset xs"
  shows "distinct (map fst ys)" "map_of ys = map_of xs"
proof -
  have "mset (map fst ys) = mset (map fst xs)"
    using assms(2) by simp
  then show d: "distinct (map fst ys)"
    using assms(1) mset_eq_imp_distinct_iff by blast
  show "map_of ys = map_of xs"
    using d assms mset_eq_setD [OF assms(2)] by (simp add: map_of_inject_set)
qed

lemma map_of_reflect:
  assumes "\<forall>k\<in>fst ` set xs. k < n" "j < n"
  shows "map_of (map (\<lambda>(k, v). (n - Suc k, v)) xs) j = map_of xs (n - Suc j)"
  using assms by (induction xs) auto

lemma reverse_fold: "fold (\<lambda>(k, v). set_at (f k) v) xs a = set_all (map (\<lambda>(k, v). (f k, v)) xs) a"
  by (induction xs arbitrary: a) (auto simp: set_all_def)

lemma reverse_list:
  assumes ok: "array_ok a" and size: "currentsize a \<le> UINT32_MAX" and dense: "\<forall>i < currentsize a. isValid (stored i a)"
    and ord: "\<And>xs. mset (ord xs) = mset xs"
  shows "array_ok (array_reverse ord a) \<and> elems (array_reverse ord a) = rev (elems a)"
proof -
  define n where "n = currentsize a"
  have f: "data_first a = [] \<or> isValid (last (data_first a))"
  proof (cases "data_first a = []")
    case False
    define k where "k = length (data_first a) - 1"
    have "0 < length (data_first a)"
      using False by simp
    moreover have "length (data_first a) \<le> currentsize a" "length (data_first a) \<le> ARRAY_SIZE_THRESHOLD"
      using array_okD(1) [OF ok] by simp_all
    ultimately have k: "k < length (data_first a)" "k < currentsize a" "k < ARRAY_SIZE_THRESHOLD"
      unfolding k_def by linarith+
    then have "isValid (data_first a ! k)"
      using dense by (auto simp: stored_def dest!: spec [of _ k])
    then show ?thesis
      using False by (simp add: last_conv_nth k_def)
  qed simp
  have strip: "a\<lparr>data_first := strip_invalid (data_first a)\<rparr> = a"
    using strip_valid [OF f] by simp
  show ?thesis
  proof (cases "data_second a = []")
    case True
    have le: "currentsize a \<le> ARRAY_SIZE_THRESHOLD"
    proof (rule ccontr)
      assume "\<not> currentsize a \<le> ARRAY_SIZE_THRESHOLD"
      then have "isValid (stored ARRAY_SIZE_THRESHOLD a)"
        using dense by simp
      then show False
        using True by (simp add: stored_def isValid_alt)
    qed
    then have l: "length (data_first a) = currentsize a"
      using array_okD(1) [OF ok] by simp
    have "array_reverse ord a = a\<lparr>data_first := rev (data_first a)\<rparr>"
      unfolding array_reverse_def strip Let_def using True by simp
    moreover have "array_ok (a\<lparr>data_first := rev (data_first a)\<rparr>)"
      using ok by (simp add: array_ok_def)
    ultimately show ?thesis
      using elems_first [OF ok le] elems_first [of "a\<lparr>data_first := rev (data_first a)\<rparr>"] le by simp
  next
    case False
    define tmp where "tmp = fold (\<lambda>i. AList.update i (data_first a ! i)) [0..<length (data_first a)] (data_second a)"
    define r where "r = map (\<lambda>(k, v). (n - Suc k, v)) (ord tmp)"
    have "inj_on (\<lambda>i. i) (set [0..<length (data_first a)])"
      by simp
    from map_of_fold_update [OF this, of "\<lambda>i. data_first a ! i" "data_second a"]
    have m: "map_of tmp k = (if k < length (data_first a) then Some (data_first a ! k) else map_of (data_second a) k)" for k
      using the_inv_into_f_f [of "\<lambda>i. i" "{0..<length (data_first a)}" k] by (auto simp: tmp_def)
    have d: "distinct (map fst tmp)"
      using array_okD(2) [OF ok] by (simp add: tmp_def distinct_fold_update)
    note p = map_of_perm [OF d ord]
    have below: "k < n" if "k \<in> fst ` set (ord tmp)" for k
    proof -
      have "map_of tmp k \<noteq> None"
        using that by (simp add: map_of_eq_None_iff flip: p(2))
      then show ?thesis
        unfolding m n_def using array_okD(1) [OF ok] array_okD(3) [OF ok] by (auto split: if_splits)
    qed
    have rm: "map_of r j = map_of tmp (n - Suc j)" if "j < n" for j
      using map_of_reflect [of "ord tmp" n j] below that by (simp add: r_def p(2))
    have "inj_on (\<lambda>k. n - Suc k) (fst ` set (ord tmp))"
      using below by (intro inj_onI) (metis Suc_diff_Suc Suc_inject diff_diff_cancel less_imp_le)
    then have "distinct (map (\<lambda>k. n - Suc k) (map fst (ord tmp)))"
      using p(1) by (simp add: distinct_map del: map_map)
    then have rd: "distinct (map fst r)"
      by (simp add: r_def comp_def split_def)
    have rr: "\<forall>i\<in>fst ` set r. i < 4294967296"
      using below size by (auto simp: r_def n_def UINT32_MAX_def) 
    have full: "map_of tmp k = Some (stored k a)" if "k < n" for k
    proof -
      have "isValid (stored k a)"
        using dense that by (simp add: n_def)
      then show ?thesis
        using that array_okD(1) [OF ok] unfolding m n_def
        by (auto simp: stored_def isValid_alt split: option.splits if_splits)
    qed
    have cov: "\<forall>k. k < currentsize a \<longrightarrow> k < ARRAY_SIZE_THRESHOLD \<longrightarrow> map_of r k \<noteq> None"
      using rm full by (simp add: n_def)
    have "(int (to_u32 n) - (int k + 1)) mod 4294967296 = int (n - Suc k)" if "k < n" for k
      using that size by (simp add: to_u32_small n_def UINT32_MAX_def of_nat_diff)
    then have idx: "map (\<lambda>(k, v). (nat ((int (to_u32 n) - (int k + 1)) mod 4294967296), v)) (ord tmp) = r"
      unfolding r_def using below by (force intro!: map_cong)
    have "array_reverse ord a = set_all r (a\<lparr>data_first := [], data_second := []\<rparr>)"
      unfolding array_reverse_def strip Let_def reverse_fold
      using False by (simp add: idx [symmetric] n_def tmp_def)
    moreover note s = store_map [OF rd rr cov]
    moreover have "elems (set_all r (a\<lparr>data_first := [], data_second := []\<rparr>)) = rev (elems a)"
      by (intro elems_eqI) (simp_all add: s(3) rm full n_def rev_nth nth_elems)
    ultimately show ?thesis
      by simp
  qed
qed

text \<open>A hole at the end: the vector is reversed on its own, and the hole stays at the end.\<close>

lemma reverse_with_hole:
  assumes "currentsize a = 3" "data_first a = [x, y, invalidAtom]" "data_second a = []" "isValid y"
  shows "data_first (array_reverse ord a) = [y, x]" "currentsize (array_reverse ord a) = 3"
  using assms by (simp_all add: array_reverse_def strip_invalid_def isInvalid_iff isValid_alt)


section \<open>splice and slice\<close>

lemma to_i32_small: "- 2147483648 \<le> n \<Longrightarrow> n < 2147483648 \<Longrightarrow> to_i32 n = n"
  by (simp add: to_i32_def)

text \<open>The position a signed index stands for.\<close>

definition position :: "int \<Rightarrow> nat \<Rightarrow> nat" where
  "position i n = (if i < 0 then n - nat (- i) else min (nat i) n)"

lemma capIndex_position:
  assumes "currentsize a < 2147483648"
  shows "capIndex i a = int (position i (currentsize a))" "position i n \<le> n"
  using assms by (auto simp: capIndex_def position_def Let_def to_i32_small)

text \<open>A loop that stores the valid ones of some values where there are holes.\<close>

definition store_valid :: "nat \<Rightarrow> (nat \<Rightarrow> asAtom) \<Rightarrow> nat \<Rightarrow> as_array \<Rightarrow> as_array" where
  "store_valid p f m r = fold (\<lambda>i r. if isValid (f i) then set_at (p + i) (f i) r else r) [0..<m] r"

lemma store_valid_Suc:
  "store_valid p f (Suc m) r = (if isValid (f m) then set_at (p + m) (f m) (store_valid p f m r) else store_valid p f m r)"
  by (simp add: store_valid_def)

lemma store_valid_list:
  assumes "array_ok r" "p + m \<le> currentsize r" "currentsize r \<le> 4294967296"
    "\<forall>i < m. elems r ! (p + i) = invalidAtom"
  shows "array_ok (store_valid p f m r) \<and>
    elems (store_valid p f m r) = take p (elems r) @ map f [0..<m] @ drop (p + m) (elems r)"
  using assms(2,4)
proof (induction m)
  case 0
  then show ?case
    by (simp add: store_valid_def assms(1))
next
  case (Suc m)
  let ?b = "store_valid p f m r" and ?rest = "drop (p + Suc m) (elems r)"
  have sz: "p + m < length (elems r)" "elems r ! (p + m) = invalidAtom"
    using Suc.prems by simp_all
  have ok: "array_ok ?b" and "elems ?b = take p (elems r) @ map f [0..<m] @ drop (p + m) (elems r)"
    using Suc by simp_all
  then have e: "elems ?b = (take p (elems r) @ map f [0..<m]) @ invalidAtom # ?rest"
    using Cons_nth_drop_Suc [OF sz(1)] sz(2) by simp
  have l: "length (take p (elems r) @ map f [0..<m]) = p + m"
    using sz(1) by simp
  show ?case
  proof (cases "isValid (f m)")
    case True
    have "p + m < 4294967296"
      using sz(1) assms(3) by simp
    then have "elems (set_at (p + m) (f m) ?b) = (elems ?b)[p + m := f m]"
      by (rule elems_set_at [OF ok])
    also have "\<dots> = (take p (elems r) @ map f [0..<m]) @ f m # ?rest"
      unfolding e using l by (metis list_update_length)
    finally show ?thesis
      using True ok by (simp add: store_valid_Suc array_ok_set_at)
  next
    case False
    then show ?thesis
      using e ok by (simp add: store_valid_Suc isValid_alt)
  qed
qed

lemma splice_collect_store:
  "splice_collect chain s d a = store_valid 0 (\<lambda>i. or_chain chain (s + i) (stored (s + i) a)) d (resize d array_new)"
  unfolding splice_collect_def store_valid_def
  by (intro fold_cong refl ext) (auto simp: or_chain_def Let_def)

lemma splice_collect_list:
  assumes "d \<le> 4294967296"
  shows "array_ok (splice_collect chain s d a)"
    "elems (splice_collect chain s d a) = map (\<lambda>i. or_chain chain (s + i) (stored (s + i) a)) [0..<d]"
  using store_valid_list [of "resize d array_new" 0 d] assms
  by (simp_all add: splice_collect_store array_ok_resize array_ok_new elems_resize fit_def)

text \<open>What is left of the storage while the elements from \<open>s\<close> up to \<open>j\<close> have been taken out.\<close>

definition taken_out :: "nat \<Rightarrow> nat \<Rightarrow> as_array \<Rightarrow> as_array \<Rightarrow> bool" where
  "taken_out s j a b \<longleftrightarrow> currentsize b = currentsize a \<and>
     data_first b = take s (data_first a) @ drop j (data_first a) \<and>
     distinct (map fst (data_second b)) \<and>
     (\<forall>k. map_of (data_second b) k = (if s \<le> k \<and> k < j then None else map_of (data_second a) k))"

lemma erase_at_append: "length xs = s \<Longrightarrow> erase_at s (xs @ y # ys) = xs @ ys"
  by (simp add: erase_at_def)

lemma taken_out_first:
  assumes "taken_out s j a b" "s \<le> j" "j < length (data_first a)"
  shows "s < length (data_first b)" "data_first b ! s = data_first a ! j"
    "erase_at s (data_first b) = take s (data_first a) @ drop (Suc j) (data_first a)"
proof -
  have "data_first b = take s (data_first a) @ data_first a ! j # drop (Suc j) (data_first a)"
    using assms(1) Cons_nth_drop_Suc [OF assms(3)] by (simp add: taken_out_def)
  then show "s < length (data_first b)" "data_first b ! s = data_first a ! j"
    "erase_at s (data_first b) = take s (data_first a) @ drop (Suc j) (data_first a)"
    using assms(2,3) by (simp_all add: nth_append erase_at_append)
qed

lemma taken_out_Suc_first:
  assumes "taken_out s j a b" "s \<le> j" "j < length (data_first a)" "array_ok a"
  shows "taken_out s (Suc j) a (b\<lparr>data_first := erase_at s (data_first b)\<rparr>)"
proof -
  have "map_of (data_second a) j = None"
    using assms(3) array_okD(3) [OF assms(4), of j] array_okD(1) [OF assms(4)]
    by (cases "map_of (data_second a) j") auto
  with assms(1) taken_out_first [OF assms(1-3)] show ?thesis
    by (auto simp: taken_out_def less_Suc_eq)
qed

lemma taken_out_Suc_second:
  assumes "taken_out s j a b" "s \<le> j" "ARRAY_SIZE_THRESHOLD \<le> j" "array_ok a"
  shows "taken_out s (Suc j) a (b\<lparr>data_second := AList.delete j (data_second b)\<rparr>)"
proof -
  have "length (data_first a) \<le> j"
    using array_okD(1) [OF assms(4)] assms(3) by simp
  with assms(1,2) show ?thesis
    by (auto simp: taken_out_def less_Suc_eq delete_conv' distinct_delete)
qed

lemma splice_delete_taken:
  assumes "array_ok a" "s + d \<le> currentsize a"
  shows "taken_out s (s + d) a (splice_delete s d a)"
  using assms(2)
proof (induction d)
  case 0
  show ?case
    using array_okD(2) [OF assms(1)] by (auto simp: splice_delete_def taken_out_def)
next
  case (Suc d)
  define b where "b = splice_delete s d a"
  have t: "taken_out s (s + d) a b"
    using Suc by (simp add: b_def)
  show ?case
  proof (cases "d + s < ARRAY_SIZE_THRESHOLD")
    case True
    then have l: "s + d < length (data_first a)"
      using array_okD(1) [OF assms(1)] Suc.prems by simp
    have "splice_delete s (Suc d) a = b\<lparr>data_first := erase_at s (data_first b)\<rparr>"
      using True taken_out_first(1) [OF t _ l] by (simp add: splice_delete_def flip: b_def) (simp add: b_def splice_delete_def)
    then show ?thesis
      using taken_out_Suc_first [OF t _ l assms(1)] by simp
  next
    case False
    then have "splice_delete s (Suc d) a = b\<lparr>data_second := AList.delete (s + d) (data_second b)\<rparr>"
      by (simp add: splice_delete_def b_def)
    then show ?thesis
      using taken_out_Suc_second [OF t _ _ assms(1)] False by simp
  qed
qed

text \<open>The map holds no holes, or the prototype chain has nothing to put there.\<close>

definition no_mapped_hole :: "as_array list \<Rightarrow> as_array \<Rightarrow> bool" where
  "no_mapped_hole chain a \<longleftrightarrow> (\<forall>k. map_of (data_second a) k = Some invalidAtom \<longrightarrow> member_from_chain chain k = invalidAtom)"

lemma remember_taken:
  assumes "array_ok a" "no_mapped_hole chain a" "s \<le> p" "p + m \<le> currentsize a" "taken_out s p a b"
  shows "\<exists>c. fold (splice_remember_one chain s) [p..<p + m] ([], b) =
      (map (\<lambda>i. or_chain chain (p + i) (stored (p + i) a)) [0..<m], c) \<and> taken_out s (p + m) a c"
  using assms(4)
proof (induction m)
  case 0
  with assms(5) show ?case
    by simp
next
  case (Suc m)
  let ?j = "p + m" and ?tmp = "map (\<lambda>i. or_chain chain (p + i) (stored (p + i) a)) [0..<m]"
  obtain c where c: "fold (splice_remember_one chain s) [p..<?j] ([], b) = (?tmp, c)" and t: "taken_out s ?j a c"
    using Suc by auto
  have f: "fold (splice_remember_one chain s) [p..<p + Suc m] ([], b) = splice_remember_one chain s ?j (?tmp, c)"
    using c by simp
  show ?case
  proof (cases "?j < ARRAY_SIZE_THRESHOLD")
    case True
    then have l: "?j < length (data_first a)" "s \<le> ?j"
      using array_okD(1) [OF assms(1)] Suc.prems assms(3) by simp_all
    have "splice_remember_one chain s ?j (?tmp, c) =
        (?tmp @ [or_chain chain ?j (stored ?j a)], c\<lparr>data_first := erase_at s (data_first c)\<rparr>)"
      using True l taken_out_first [OF t l(2,1)]
      by (simp add: splice_remember_one_def Let_def or_chain_def stored_def)
    then show ?thesis
      unfolding f using taken_out_Suc_first [OF t l(2,1) assms(1)] by simp
  next
    case False
    then have T: "ARRAY_SIZE_THRESHOLD \<le> ?j" "s \<le> ?j"
      using assms(3) by simp_all
    have k: "map_of (data_second c) ?j = map_of (data_second a) ?j"
      using t by (simp add: taken_out_def)
    have "splice_remember_one chain s ?j (?tmp, c) =
        (?tmp @ [or_chain chain ?j (stored ?j a)], c\<lparr>data_second := AList.delete ?j (data_second c)\<rparr>)"
    proof (cases "map_of (data_second a) ?j")
      case None
      then have "map_of (data_second c) ?j = None"
        using k by simp
      then have "AList.delete ?j (data_second c) = data_second c"
        by (simp add: map_of_eq_None_iff)
      with None False k show ?thesis
        by (simp add: splice_remember_one_def or_chain_def stored_def isValid_alt)
    next
      case (Some v)
      then have "or_chain chain ?j v = v"
        using assms(2) by (auto simp: or_chain_def no_mapped_hole_def isValid_alt)
      with Some False k show ?thesis
        by (simp add: splice_remember_one_def stored_def)
    qed
    then show ?thesis
      unfolding f using taken_out_Suc_second [OF t T(2,1) assms(1)] by simp
  qed
qed


lemma cut_after_taking:
  assumes "array_ok a" "taken_out s (currentsize a) a b" "s \<le> currentsize a"
  shows "array_ok (resize s b) \<and> elems (resize s b) = take s (elems a)"
proof -
  have b: "currentsize b = currentsize a" "data_first b = take s (data_first a)"
    "distinct (map fst (data_second b))" and
    m: "map_of (data_second b) k = (if s \<le> k \<and> k < currentsize a then None else map_of (data_second a) k)" for k
    using assms(2) array_okD(1) [OF assms(1)] by (simp_all add: taken_out_def)
  have keys: "fst ` set (data_second b) \<subseteq> {ARRAY_SIZE_THRESHOLD..<min s 4294967296}"
  proof
    fix k
    assume "k \<in> fst ` set (data_second b)"
    then have "map_of (data_second b) k \<noteq> None"
      by (simp add: map_of_eq_None_iff)
    then obtain v where "map_of (data_second a) k = Some v" "\<not> (s \<le> k \<and> k < currentsize a)"
      unfolding m by (auto split: if_splits)
    with array_okD(3) [OF assms(1), of k v] show "k \<in> {ARRAY_SIZE_THRESHOLD..<min s 4294967296}"
      by auto
  qed
  then have "filter (\<lambda>(k, _). k < s) (data_second b) = data_second b"
    by (fastforce intro!: filter_True)
  then have r: "resize s b = b\<lparr>currentsize := s\<rparr>"
    using b array_okD(1) [OF assms(1)] assms(3) resize_up [of b s]
    by (cases "s < currentsize b") (simp_all add: resize_def)
  have "array_ok (resize s b)"
    using b keys array_okD(1) [OF assms(1)] assms(3) by (simp add: array_ok_def r)
  moreover have "elems (resize s b) = take s (elems a)"
  proof (rule elems_eqI)
    fix i
    assume "i < length (take s (elems a))"
    then show "stored i (resize s b) = take s (elems a) ! i"
      using b m by (simp add: r nth_elems) (simp add: stored_def)
  qed (simp add: assms(3))
  ultimately show ?thesis
    by blast
qed

lemma splice_list:
  fixes start :: int and dc :: "int option"
  assumes ok: "array_ok a" and size: "currentsize a < 2147483648" "length newvals < 2147483648"
    and holes: "no_mapped_hole chain a" and dc: "case dc of Some d \<Rightarrow> 0 \<le> d \<and> d < 2147483648 | None \<Rightarrow> True"
  defines "n \<equiv> currentsize a"
  defines "s \<equiv> position start n"
  defines "d \<equiv> (case dc of None \<Rightarrow> n - s | Some d \<Rightarrow> min (nat d) (n - s))"
  defines "xs \<equiv> map (\<lambda>i. or_chain chain i (elems a ! i)) [0..<n]"
  shows "\<exists>r b. array_splice chain start dc newvals a = Some (r, b) \<and> array_ok r \<and> array_ok b \<and>
    elems r = take d (drop s xs) \<and> elems b = take s (elems a) @ newvals @ drop (s + d) xs"
proof -
  have s: "nat (capIndex start a) = s" "s \<le> n"
    using capIndex_position [OF size(1), of start] by (simp_all add: s_def n_def)
  have n: "to_u32 (currentsize a) = n" "n < 2147483648" "to_i32 (int n) = int n"
    using size(1) by (simp_all add: n_def to_u32_small to_i32_small)
  define d0 where "d0 = (case dc of Some d \<Rightarrow> d | None \<Rightarrow> int n)"
  have d0: "0 \<le> d0" "d0 < 2147483648" and d: "d = min (nat d0) (n - s)"
    using dc n(2) by (auto simp: d0_def d_def split: option.splits)
  have "to_u32 (s + nat d0) = s + nat d0"
    using s(2) n(2) d0 by (intro to_u32_small) linarith
  then have cap: "(if to_u32 (s + nat d0) > n then n - s else nat d0) = d"
    by (auto simp: d)
  have sd: "s + d \<le> n"
    using s(2) by (simp add: d)
  define b1 where "b1 = splice_delete s d a"
  have t1: "taken_out s (s + d) a b1"
    using splice_delete_taken [OF ok] sd by (simp add: b1_def n_def)
  have b1: "(if d > 0 then splice_delete s d a else a) = b1"
    by (simp add: b1_def splice_delete_def)
  define f where "f = (\<lambda>i. or_chain chain (s + d + i) (stored (s + d + i) a))"
  define m where "m = n - (s + d)"
  obtain c where c: "fold (splice_remember_one chain s) [s + d..<n] ([], b1) = (map f [0..<m], c)" and t2: "taken_out s n a c"
    using remember_taken [OF ok holes _ _ t1, of m] sd by (auto simp: m_def f_def n_def)
  have c1: "array_ok (resize s c)" "elems (resize s c) = take s (elems a)"
    using cut_after_taking [OF ok] t2 s(2) by (simp_all add: n_def)
  have len: "currentsize (resize s c) + length newvals \<le> UINT32_MAX"
    using s(2) n(2) size(2) by (simp add: UINT32_MAX_def)
  define c2 where "c2 = fold push newvals (resize s c)"
  have c2: "array_ok c2" "elems c2 = take s (elems a) @ newvals"
    using array_fold [of "resize s c" newvals] c1 len by (simp_all add: c2_def)
  have total: "to_u32 (n - d + length newvals) = n - d + length newvals" "n - d + length newvals \<le> 4294967296"
    using n(2) size(2) by (simp_all add: to_u32_def)
  define c3 where "c3 = resize (n - d + length newvals) c2"
  have "currentsize c2 = s + length newvals"
    using currentsize_elems [OF c2(2)] s(2) by (simp add: n_def)
  then have c3: "array_ok c3" "elems c3 = (take s (elems a) @ newvals) @ replicate m invalidAtom"
    using c2 sd elems_resize_up [OF c2(1), of "n - d + length newvals"]
    by (simp_all add: c3_def array_ok_resize m_def)
  define c4 where "c4 = store_valid (s + length newvals) f m c3"
  have sz3: "currentsize c3 = s + length newvals + m"
    using currentsize_elems [OF c3(2)] s(2) by (simp add: n_def)
  have "array_ok c4 \<and> elems c4 = take (s + length newvals) (elems c3) @ map f [0..<m] @ drop (s + length newvals + m) (elems c3)"
    unfolding c4_def using sz3 total(2) sd s(2)
    by (intro store_valid_list) (auto simp: c3 nth_append m_def n_def)
  then have c4: "array_ok c4" "elems c4 = take s (elems a) @ newvals @ map f [0..<m]"
    using s(2) by (simp_all add: c3 n_def)
  have loop: "fold (\<lambda>i a. if isValid (map f [0..<m] ! i) then set_at (s + i + length newvals) (map f [0..<m] ! i) a else a)
      [0..<n - (s + d)] c3 = c4"
    unfolding c4_def store_valid_def m_def [symmetric] by (intro fold_cong refl ext) (simp add: ac_simps)
  have r: "array_ok (splice_collect chain s d a)"
    "elems (splice_collect chain s d a) = map (\<lambda>i. or_chain chain (s + i) (stored (s + i) a)) [0..<d]"
    using splice_collect_list [of d chain s a] sd n(2) by simp_all
  have "splice_move chain s d newvals n a = (splice_collect chain s d a, c4)"
    by (simp add: splice_move_def b1 c total loop flip: c2_def c3_def)
  moreover have "array_splice chain start dc newvals a = Some (splice_move chain s d newvals n a)"
  proof -
    have "(case dc of Some d \<Rightarrow> d | None \<Rightarrow> to_i32 (int (currentsize a))) = d0"
      using n(3) by (cases dc) (simp_all add: d0_def n_def)
    then show ?thesis
      using d0(1) unfolding array_splice_def Let_def n(1) s(1) by (simp only: cap) simp
  qed
  ultimately have "array_splice chain start dc newvals a = Some (splice_collect chain s d a, c4)"
    by simp
  moreover have "map (\<lambda>i. or_chain chain (s + i) (stored (s + i) a)) [0..<d] = take d (drop s xs)"
    using sd by (intro nth_equalityI) (simp_all add: xs_def nth_elems n_def)
  moreover have "map f [0..<m] = drop (s + d) xs"
  proof (rule nth_equalityI)
    fix i
    assume "i < length (map f [0..<m])"
    then have "s + d + i < n" "i < m"
      by (simp_all add: m_def)
    then show "map f [0..<m] ! i = drop (s + d) xs ! i"
      using sd by (simp add: xs_def nth_elems n_def f_def)
  qed (simp add: xs_def m_def)
  ultimately show ?thesis
    using r c4 by auto
qed

section \<open>slice\<close>

lemma slice_fold:
  assumes "array_ok r" "currentsize r + length is \<le> UINT32_MAX"
  shows "array_ok (fold (\<lambda>i r. let v = snd (array_at i True a)
      in if isValid v then push v r
         else let m = member_from_chain chain i in if isValid m then push m r else r) is r) \<and>
    elems (fold (\<lambda>i r. let v = snd (array_at i True a)
      in if isValid v then push v r
         else let m = member_from_chain chain i in if isValid m then push m r else r) is r) =
    elems r @ filter isValid (map (\<lambda>i. or_chain chain i (stored i a)) is)"
  using assms
proof (induction "is" arbitrary: r)
  case (Cons i xs)
  define c where "c = or_chain chain i (stored i a)"
  have size: "currentsize r < UINT32_MAX"
    using Cons.prems by simp
  have "currentsize (push c r) = currentsize r + 1"
    using currentsize_elems [OF elems_push [OF Cons.prems(1) size]] by simp
  with Cons.IH [of "push c r"] Cons.IH [of r] Cons.prems array_ok_push [OF Cons.prems(1) size, of c]
    elems_push [OF Cons.prems(1) size, of c]
  show ?case
    by (cases "isValid (stored i a)") (simp_all add: c_def or_chain_def Let_def)
qed simp

lemma slice_list:
  assumes "array_ok a" "currentsize a < 2147483648"
  shows "array_ok (array_slice chain s e a) \<and> elems (array_slice chain s e a) =
    filter isValid (map (\<lambda>i. or_chain chain i (elems a ! i))
      [position (sint s) (currentsize a)..<position (sint e) (currentsize a)])"
proof -
  define p where "p = position (sint s) (currentsize a)"
  define q where "q = position (sint e) (currentsize a)"
  have pq: "nat (capIndex (sint s) a) = p" "nat (capIndex (sint e) a) = q" "q \<le> currentsize a"
    using capIndex_position [OF assms(2)] by (simp_all add: p_def q_def)
  have "currentsize array_new + length [p..<q] \<le> UINT32_MAX"
    using pq assms(2) by (simp add: UINT32_MAX_def)
  note f = slice_fold [OF array_ok_new(1) this, of a chain]
  have "map (\<lambda>i. or_chain chain i (stored i a)) [p..<q] = map (\<lambda>i. or_chain chain i (elems a ! i)) [p..<q]"
    using pq by (intro map_cong) (simp_all add: nth_elems)
  with f show ?thesis
    unfolding array_slice_def Let_def pq using pq(3)
    by (simp add: min_absorb1 array_ok_new(2) flip: p_def q_def)
qed

section \<open>insertAt and removeAt\<close>

text \<open>The elements once the holes from an index on have been filled from the prototype chain.\<close>

definition filled_from :: "as_array list \<Rightarrow> nat \<Rightarrow> as_array \<Rightarrow> asAtom list" where
  "filled_from chain s a =
     map (\<lambda>i. if s \<le> i then or_chain chain i (elems a ! i) else elems a ! i) [0..<currentsize a]"

lemma length_filled_from [simp]: "length (filled_from chain s a) = currentsize a"
  by (simp add: filled_from_def)

lemma or_chain_Nil: "or_chain [] i v = v"
  by (simp add: or_chain_def isValid_alt)

lemma filled_from_Nil: "filled_from [] s a = elems a"
  by (intro nth_equalityI) (simp_all add: filled_from_def or_chain_Nil)

lemma fill_list:
  fixes chain :: "as_array list" and i :: int and v :: asAtom
  assumes "array_ok a" "currentsize a < 2147483648" "s \<le> currentsize a"
  defines "b \<equiv> fillFromPrototypeChain chain s (to_u32 (currentsize a)) a"
  shows "array_ok b" "elems b = filled_from chain s a" "currentsize b = currentsize a"
proof -
  have "to_u32 (currentsize a) = currentsize a"
    using assms(2) by (simp add: to_u32_small)
  with fillFromPrototypeChain_list [OF assms(1-3), of chain]
  show "array_ok b" and e: "elems b = filled_from chain s a"
    by (simp_all add: b_def filled_from_def)
  show "currentsize b = currentsize a"
    using currentsize_elems [OF e] by simp
qed

lemma insertAt_list:
  fixes chain :: "as_array list" and i :: int and v :: asAtom
  assumes ok: "array_ok a" and size: "currentsize a < ARRAY_SIZE_THRESHOLD" and i: "- 2147483648 < i" "i < 2147483648"
  defines "p \<equiv> position i (currentsize a)"
  shows "\<exists>b. array_insertAt chain i v a = Inr b \<and> array_ok b \<and>
    elems b = take p (elems a) @ v # drop p (filled_from chain p a)"
proof -
  have n: "currentsize a < 2147483648" "currentsize a < UINT32_MAX"
    using size by (simp_all add: ARRAY_SIZE_THRESHOLD_def UINT32_MAX_def)
  define i1 where "i1 = (if i < 0 \<and> int (currentsize a) \<ge> - i then to_i32 (int (currentsize a) + i) else i)"
  define j where "j = nat (if i1 < 0 then 0 else i1)"
  have j: "p = min j (currentsize a)"
    using n(1) i by (auto simp: p_def position_def j_def i1_def to_i32_small)
  show ?thesis
  proof (cases "j \<ge> currentsize a")
    case True
    then have "array_insertAt chain i v a = Inr (push v a)"
      using n(2) by (simp add: array_insertAt_def Let_def push_def flip: i1_def j_def)
    moreover have "p = currentsize a"
      using True j by simp
    ultimately show ?thesis
      using array_ok_push [OF ok n(2), of v] elems_push [OF ok n(2), of v] by simp
  next
    case False
    then have p: "j = p" "p < currentsize a" "p \<le> currentsize a"
      using j by auto
    define b where "b = fillFromPrototypeChain chain p (to_u32 (currentsize a)) a"
    note b = fill_list [OF ok n(1) p(3), of chain, folded b_def]
    have le: "currentsize b \<le> ARRAY_SIZE_THRESHOLD"
      using b(3) size by simp
    have f: "data_first b = filled_from chain p a" "data_second b = []"
      using elems_first [OF b(1) le] no_second [OF b(1) le] b(2) by simp_all
    define xs where "xs = take p (filled_from chain p a) @ v # drop p (filled_from chain p a)"
    define c where "c = \<lparr>currentsize = length xs, data_first = xs, data_second = []\<rparr>"
    have lx: "length xs = currentsize a + 1"
      using p f by (simp add: xs_def)
    have "xs[p := v] = xs"
      using p f by (simp add: xs_def list_update_append)
    then have "set_at p v c = c"
      using p size lx by (simp add: set_at_def array_set_def Let_def c_def threshold_small)
    moreover have "b\<lparr>data_first := xs, data_second := [], currentsize := Suc (currentsize a)\<rparr> = c"
      by (simp add: c_def lx)
    ultimately have "array_insertAt chain i v a = Inr c"
      using False p f size lx b(3) unfolding array_insertAt_def Let_def i1_def [symmetric] j_def [symmetric] p(1) b_def [symmetric]
      by (simp add: vector_insert_def set_all_def flip: xs_def)
    moreover have c: "array_ok c"
      using array_ok_first [of xs] lx size by (simp add: c_def)
    moreover have "elems c = xs"
      using elems_first [OF c] lx size by (simp add: c_def)
    moreover have "take p (filled_from chain p a) = take p (elems a)"
      using p by (intro nth_equalityI) (simp_all add: filled_from_def)
    ultimately show ?thesis
      by (simp add: xs_def)
  qed
qed

lemma removeAt_list:
  fixes chain :: "as_array list" and i :: int and v :: asAtom
  assumes ok: "array_ok a" and size: "currentsize a \<le> ARRAY_SIZE_THRESHOLD" and i: "- 2147483648 < i" "i < 2147483648"
  defines "p \<equiv> (if i < 0 then position i (currentsize a) else nat i)"
  defines "xs \<equiv> filled_from chain p a"
  shows "\<exists>b. array_removeAt chain i a =
      Inr (if p < currentsize a \<and> isValid (xs ! p) then xs ! p else undefinedAtom, b) \<and> array_ok b \<and>
    elems b = take p (elems a) @ drop (p + 1) xs"
proof -
  have n: "currentsize a < 2147483648"
    using size by (simp add: ARRAY_SIZE_THRESHOLD_def)
  define i1 where "i1 = (if i < 0 then to_i32 (int (currentsize a) + i) else i)"
  have j: "nat (if i1 < 0 then 0 else i1) = p"
    using n i by (auto simp: p_def position_def i1_def to_i32_small)
  define b where "b = fillFromPrototypeChain chain p (to_u32 (currentsize a)) a"
  have "array_ok b \<and> elems b = xs \<and> currentsize b = currentsize a"
  proof (cases "p \<le> currentsize a")
    case True
    then show ?thesis
      using fill_list [OF ok n True, of chain] by (simp_all add: b_def xs_def)
  next
    case False
    then have "b = a"
      by (simp add: b_def fillFromPrototypeChain_def)
    moreover have "elems a = xs"
      using False by (intro elems_eqI) (simp_all add: xs_def filled_from_def nth_elems)
    ultimately show ?thesis
      using ok by simp_all
  qed
  then have b: "array_ok b" "elems b = xs" "currentsize b = currentsize a"
    by blast+
  have le: "currentsize b \<le> ARRAY_SIZE_THRESHOLD"
    using b(3) size by simp
  have f: "data_first b = xs" "data_second b = []"
    using elems_first [OF b(1) le] no_second [OF b(1) le] b(2) by simp_all
  have lx: "length xs = currentsize a"
    by (simp add: xs_def)
  have tp: "take p xs = take p (elems a)"
    by (intro nth_equalityI) (simp_all add: xs_def filled_from_def)
  show ?thesis
  proof (cases "p < currentsize a")
    case True
    define c where "c = \<lparr>currentsize = length (erase_at p xs), data_first = erase_at p xs, data_second = []\<rparr>"
    have le: "length (erase_at p xs) = currentsize a - 1"
      using True lx by (simp add: erase_at_def)
    have "array_removeAt chain i a = Inr (if isValid (xs ! p) then xs ! p else undefinedAtom, c)"
      using True size f lx b(3) unfolding array_removeAt_def Let_def i1_def [symmetric] j b_def [symmetric]
      by (simp add: isInvalid_iff c_def le)
    moreover have c: "array_ok c"
      using array_ok_first [of "erase_at p xs"] le size by (simp add: c_def)
    moreover have "elems c = erase_at p xs"
      using elems_first [OF c] le size by (simp add: c_def)
    ultimately show ?thesis
      using True tp by (simp add: erase_at_def)
  next
    case False
    have "array_removeAt chain i a = Inr (undefinedAtom, b)"
      using False f lx b(3) unfolding array_removeAt_def Let_def i1_def [symmetric] j b_def [symmetric]
      by (simp add: isInvalid_iff isValid_alt special_atoms)
    moreover have "xs = take p (elems a)"
      using tp False lx by simp
    ultimately show ?thesis
      using False b lx by simp
  qed
qed


text \<open>An insertion into an array of 65536 elements loses the last one.\<close>

lemma set_all_out_of_range:
  assumes "\<forall>k\<in>fst ` set xs. currentsize a \<le> k \<and> k < 4294967296"
  shows "set_all xs a = a"
  using assms by (induction xs) (auto simp: set_all_def set_at_beyond to_u32_small)

lemma insertAt_loses_last:
  assumes "array_ok a" "currentsize a = 65536" "i < 65536"
  shows "\<exists>b. array_insertAt [] (int i) v a = Inr b \<and> currentsize b = 65537 \<and> stored 65536 b = invalidAtom"
proof -
  have n: "currentsize a < 2147483648" "i \<le> currentsize a"
    using assms by simp_all
  define b where "b = fillFromPrototypeChain [] i (to_u32 (currentsize a)) a"
  note b = fill_list [OF assms(1) n, of "[]", folded b_def]
  have b_eq: "fillFromPrototypeChain [] i (to_u32 65536) a = b"
    by (simp add: b_def assms(2))
  have f: "length (data_first b) = 65536" "data_second b = []"
    using array_okD(1) [OF b(1)] no_second [OF b(1)] b(3) assms(2) by (simp_all add: ARRAY_SIZE_THRESHOLD_def)
  define w where "w = (take i (data_first b) @ v # drop i (data_first b)) ! 65536"
  define xs where "xs = butlast (take i (data_first b) @ v # drop i (data_first b))"
  have "set_all [(65536, w)] (b\<lparr>data_first := xs, data_second := []\<rparr>) = b\<lparr>data_first := xs, data_second := []\<rparr>"
    using b(3) assms(2) by (intro set_all_out_of_range) simp
  then have "array_insertAt [] (int i) v a =
      Inr (set_at i v (b\<lparr>data_first := xs, data_second := [], currentsize := 65537\<rparr>))"
    using assms(2,3) f b(3) b_eq unfolding array_insertAt_def Let_def
    by (simp add: vector_insert_def ARRAY_SIZE_THRESHOLD_def w_def [symmetric] xs_def [symmetric])
  moreover have "stored 65536 (set_at i v (b\<lparr>data_first := xs, data_second := [], currentsize := 65537\<rparr>)) = invalidAtom"
    using assms(3) by (simp add: stored_def set_at_def array_set_def Let_def to_u32_small ARRAY_SIZE_THRESHOLD_def)
  ultimately show ?thesis
    by simp
qed

text \<open>Removing an element below the threshold from a larger array writes behind the end of the vector.\<close>

lemma removeAt_out_of_bounds:
  assumes "array_ok a" "currentsize a = 65537" "i < 65536" "data_second a = [(65536, v)]"
  shows "array_removeAt [] (int i) a = Inl OutOfBounds"
proof -
  have f: "length (data_first a) = 65536"
    using array_okD(1) [OF assms(1)] assms(2) by (simp add: ARRAY_SIZE_THRESHOLD_def)
  have "fill_one [] k b = b" for k b
    by (simp add: fill_one_def isValid_alt)
  then have "fold (fill_one []) ks b = b" for ks b
    by (induction ks arbitrary: b) simp_all
  then show ?thesis
    using assms(2-4) f by (simp add: array_removeAt_def Let_def fillFromPrototypeChain_def move_down_def
        vector_write_def ARRAY_SIZE_THRESHOLD_def erase_at_def)
qed

section \<open>concat\<close>

fun contents :: "concat_arg \<Rightarrow> asAtom list" where
  "contents (ArrayArg other) = elems other"
| "contents (ValueArg v) = [v]"

fun small_arg :: "concat_arg \<Rightarrow> bool" where
  "small_arg (ArrayArg other) \<longleftrightarrow> array_ok other \<and> currentsize other \<le> ARRAY_SIZE_THRESHOLD"
| "small_arg (ValueArg v) \<longleftrightarrow> True"

lemma concat_one_list:
  assumes "array_ok r" "small_arg x" "currentsize r + length (contents x) \<le> UINT32_MAX"
  shows "array_ok (concat_one x r) \<and> elems (concat_one x r) = elems r @ contents x"
proof (cases x)
  case (ArrayArg other)
  then have o: "elems other = data_first other" "data_second other = []" "length (data_first other) = currentsize other"
    using assms(2) elems_first [of other] no_second [of other] array_okD(1) [of other] by simp_all
  define b where "b = fold push (data_first other) r"
  have b: "array_ok b" "elems b = elems r @ data_first other"
    using array_fold [of r "data_first other"] assms(1,3) ArrayArg o by (simp_all add: b_def)
  have sz: "currentsize b = currentsize r + currentsize other"
    using currentsize_elems [OF b(2)] o by simp
  have "concat_one x r = resize (currentsize r + currentsize other) b"
    by (simp add: ArrayArg o Let_def b_def)
  then show ?thesis
    using b sz elems_resize [OF b(1), of "currentsize b"] ArrayArg o by (simp add: array_ok_resize fit_def)
next
  case (ValueArg v)
  with assms show ?thesis
    by (simp add: array_ok_push elems_push)
qed

lemma concat_list:
  assumes "array_ok a" "\<forall>x\<in>set args. small_arg x" "currentsize a + length (concat (map contents args)) \<le> UINT32_MAX"
  shows "array_ok (array_concat args a) \<and> elems (array_concat args a) = elems a @ concat (map contents args)"
proof -
  have "array_ok (fold concat_one args r) \<and> elems (fold concat_one args r) = elems r @ concat (map contents args)"
    if "array_ok r" "currentsize r + length (concat (map contents args)) \<le> UINT32_MAX" for r
    using that assms(2)
  proof (induction args arbitrary: r)
    case (Cons x xs)
    then have c: "array_ok (concat_one x r)" "elems (concat_one x r) = elems r @ contents x"
      using concat_one_list [of r x] by simp_all
    have "currentsize (concat_one x r) = currentsize r + length (contents x)"
      using currentsize_elems [OF c(2)] by simp
    with Cons.IH [OF c(1)] Cons.prems c(2) show ?case
      by simp
  qed simp
  moreover have r: "\<lparr>currentsize = currentsize a, data_first = data_first a, data_second = data_second a\<rparr> = a"
    by simp
  ultimately show ?thesis
    using assms(1,3) unfolding array_concat_def r by blast
qed

text \<open>The elements of an argument from index 65536 on are lost: their indices count the vector twice.\<close>

lemma concat_loses_large_part:
  assumes "array_ok r" "array_ok other" "ARRAY_SIZE_THRESHOLD \<le> i" "i < currentsize other"
    "currentsize r + currentsize other + ARRAY_SIZE_THRESHOLD < 4294967296"
  shows "stored (currentsize r + i) (concat_one (ArrayArg other) r) = invalidAtom"
proof -
  define b where "b = fold push (data_first other) r"
  have l: "length (data_first other) = ARRAY_SIZE_THRESHOLD"
    using array_okD(1) [OF assms(2)] assms(3,4) by simp
  have b: "array_ok b" "elems b = elems r @ data_first other"
    using array_fold [of r "data_first other"] assms(1,5) l assms(3,4) by (simp_all add: b_def UINT32_MAX_def)
  have sz: "currentsize b = currentsize r + ARRAY_SIZE_THRESHOLD"
    using currentsize_elems [OF b(2)] l by simp
  have "fold (\<lambda>(k, v). set_at (currentsize r + length (data_first other) + k) v) xs b = b"
    if "set xs \<subseteq> set (data_second other)" for xs
    using that
  proof (induction xs)
    case (Cons x xs)
    obtain k v where x: "x = (k, v)"
      by force
    with Cons.prems have "k \<in> fst ` set (data_second other)"
      by force
    then have "k < currentsize other"
      using assms(2) unfolding array_ok_def by auto
    then have "to_u32 (currentsize r + length (data_first other) + k) = currentsize r + length (data_first other) + k"
      using assms(5) l by (intro to_u32_small) simp
    then have "set_at (currentsize r + length (data_first other) + k) v b = b"
      using sz l by (intro set_at_beyond) simp
    with Cons x show ?case
      by simp
  qed simp
  then have "concat_one (ArrayArg other) r = resize (currentsize r + currentsize other) b"
    by (simp add: Let_def b_def)
  then show ?thesis
    using stored_resize [OF b(1), of "currentsize r + i"] stored_beyond [OF b(1), of "currentsize r + i"] assms(3) sz
    by simp
qed

section \<open>Searching\<close>

lemma indexOf_list:
  assumes "array_ok a" "currentsize a \<le> ARRAY_SIZE_THRESHOLD" "- 2147483648 \<le> i" "i < 2147483648"
  shows "array_indexOf eq i a =
    (case List.find (\<lambda>k. eq (elems a ! k)) [position i (currentsize a)..<currentsize a] of Some k \<Rightarrow> int k | None \<Rightarrow> - 1)"
proof -
  have f: "elems a = data_first a" "data_second a = []" "length (data_first a) = currentsize a"
    using elems_first [OF assms(1,2)] no_second [OF assms(1,2)] array_okD(1) [OF assms(1)] assms(2) by simp_all
  define i1 where "i1 = (if i < 0 then to_i32 (int (currentsize a) + i) else i)"
  define j where "j = nat (if i1 < 0 then 0 else i1)"
  have j: "position i (currentsize a) = min j (currentsize a)"
    using assms(2-4) by (auto simp: position_def j_def i1_def to_i32_small ARRAY_SIZE_THRESHOLD_def)
  show ?thesis
    using f unfolding array_indexOf_def Let_def i1_def [symmetric] j_def [symmetric] j
    by (auto split: option.split)
qed

lemma last_index_list:
  assumes "array_ok a" "currentsize a \<le> ARRAY_SIZE_THRESHOLD" "i < currentsize a"
  shows "last_index_loop eq i a = Inr
    (case List.find (\<lambda>k. isValid (elems a ! k) \<and> eq (elems a ! k)) (rev [0..<Suc i]) of Some k \<Rightarrow> int k | None \<Rightarrow> - 1)"
  using assms(3)
proof (induction i)
  case 0
  then show ?case
    using elems_first [OF assms(1,2)] array_okD(1) [OF assms(1)] assms(2) by (simp add: rd_Inr)
next
  case (Suc i)
  then have "rd (data_first a) (Suc i) = Inr (elems a ! Suc i)"
    using elems_first [OF assms(1,2)] array_okD(1) [OF assms(1)] assms(2) by (simp add: rd_Inr)
  with Suc assms(2) show ?case
    by (simp add: Let_def to_i32_small ARRAY_SIZE_THRESHOLD_def)
qed

lemma lastIndexOf_list:
  assumes "array_ok a" "currentsize a \<le> ARRAY_SIZE_THRESHOLD" "0 < currentsize a"
  shows "array_lastIndexOf eq one_arg (Some j) a =
    (if j < - int (currentsize a) then Inr (- 1)
     else let start = (if j < 0 then nat (int (currentsize a) + j) else min (nat j) (currentsize a - 1))
       in Inr (case List.find (\<lambda>k. isValid (elems a ! k) \<and> eq (elems a ! k)) (rev [0..<Suc start]) of
           Some k \<Rightarrow> int k | None \<Rightarrow> - 1))"
proof -
  have "currentsize a - nat (- j) = nat (int (currentsize a) + j)" if "j < 0"
    using that by linarith
  moreover have "(if nat j \<ge> currentsize a then currentsize a - 1 else nat j) = min (nat j) (currentsize a - 1)" if "\<not> j < 0"
    using that assms(3) by auto
  ultimately show ?thesis
    using assms(3) last_index_list [OF assms(1,2)]
    by (auto simp: array_lastIndexOf_def Let_def)
qed

text \<open>
  In an empty array, a search with a start index that is not negative begins at the largest 64-bit index
  and goes down to the first one below the threshold, where it reads outside of the vector.
\<close>

lemma last_index_empty: "data_first a = [] \<Longrightarrow> data_second a = [] \<Longrightarrow> last_index_loop eq i a = Inl OutOfBounds"
  by (induction i) (simp_all add: rd_def Let_def)

lemma lastIndexOf_empty: "array_lastIndexOf eq False (Some 0) array_new = Inl OutOfBounds"
  using last_index_empty [of array_new] by (simp add: array_lastIndexOf_def array_new_def)


section \<open>The methods as list functions\<close>

text \<open>The methods at both ends. \<open>unshift\<close> puts its arguments before the elements. Below 65536 elements,
  \<open>shift\<close> returns the first element and removes it. \<open>pop\<close> returns the last element and removes it, for
  arrays of any length, unless it is a hole that lies below the threshold. The array stays in order.
\<close>

theorem ends_correct:
  assumes "array_ok a"
  shows "(currentsize a + 2 * length args < 4294901760 \<longrightarrow>
       array_ok (snd (array_unshift args a)) \<and> elems (snd (array_unshift args a)) = args @ elems a)
    \<and> (0 < currentsize a \<and> currentsize a \<le> ARRAY_SIZE_THRESHOLD \<longrightarrow>
       (\<exists>b. array_shift a = Inr (if isValid (hd (elems a)) then hd (elems a) else undefinedAtom, b)
          \<and> array_ok b \<and> elems b = tl (elems a)))
    \<and> (0 < currentsize a \<and> currentsize a \<le> UINT32_MAX \<and> isValid (last (elems a)) \<longrightarrow>
       fst (array_pop a) = last (elems a) \<and> array_ok (snd (array_pop a)) \<and> elems (snd (array_pop a)) = butlast (elems a))
    \<and> (ARRAY_SIZE_THRESHOLD < currentsize a \<and> currentsize a \<le> UINT32_MAX \<longrightarrow>
       array_ok (snd (array_pop a)) \<and> elems (snd (array_pop a)) = butlast (elems a))"
  using unshift_list [OF assms, of args] shift_list [OF assms] pop_list [OF assms] by auto

text \<open>An array of given elements, for the examples.\<close>

definition array_of :: "asAtom list \<Rightarrow> as_array" where
  "array_of xs = \<lparr>currentsize = length xs, data_first = xs, data_second = []\<rparr>"

lemma array_of:
  assumes "length xs \<le> ARRAY_SIZE_THRESHOLD"
  shows "array_ok (array_of xs)" "elems (array_of xs) = xs" "currentsize (array_of xs) = length xs"
proof -
  show ok: "array_ok (array_of xs)" "currentsize (array_of xs) = length xs"
    using array_ok_first [OF assms] by (simp_all add: array_of_def)
  show "elems (array_of xs) = xs"
    using elems_first [OF ok(1)] assms by (simp add: array_of_def)
qed

lemma array_of_12: "array_ok (array_of [1, 2])" "elems (array_of [1, 2]) = [1, 2]" "currentsize (array_of [1, 2]) = 2"
  using array_of [of "[1, 2]"] by (simp_all add: ARRAY_SIZE_THRESHOLD_def)

lemma ends_correct_witness:
  "elems (snd (array_unshift [7] (array_of [1, 2]))) = [7, 1, 2] \<and> elems (snd (array_pop (array_of [1, 2]))) = [1]"
  using ends_correct [OF array_of_12(1), of "[7]"] by (simp add: array_of_12 UINT32_MAX_def isValid_alt special_atoms)

text \<open>\<open>splice\<close> on an array of any length below 2 to the 31: it returns the elements from the start index
  on, as many as asked for and as there are, and puts its further arguments in their place; with only a
  start index it takes all that follow. Negative indices count from the end. Holes among the elements
  from the start index on take what the prototype chain has for them.
\<close>

theorem splice_correct:
  fixes start :: int and dc :: "int option"
  assumes "array_ok a" and "currentsize a < 2147483648" "length newvals < 2147483648"
    and "no_mapped_hole chain a" and "case dc of Some d \<Rightarrow> 0 \<le> d \<and> d < 2147483648 | None \<Rightarrow> True"
  defines "n \<equiv> currentsize a"
  defines "s \<equiv> position start n"
  defines "d \<equiv> (case dc of None \<Rightarrow> n - s | Some d \<Rightarrow> min (nat d) (n - s))"
  defines "xs \<equiv> map (\<lambda>i. or_chain chain i (elems a ! i)) [0..<n]"
  shows "\<exists>r b. array_splice chain start dc newvals a = Some (r, b) \<and> array_ok r \<and> array_ok b \<and>
    elems r = take d (drop s xs) \<and> elems b = take s (elems a) @ newvals @ drop (s + d) xs"
  unfolding d_def s_def n_def xs_def by (rule splice_list [OF assms(1-5)])

lemma splice_correct_witness:
  "\<exists>r b. array_splice [] (- 1) (Some 1) [8, 9] (array_of [1, 2]) = Some (r, b) \<and> elems r = [2] \<and> elems b = [1, 8, 9]"
  using splice_correct [OF array_of_12(1), of "[8, 9]" "[]" "Some 1" "- 1"]
  by (auto simp: array_of_12 no_mapped_hole_def position_def or_chain_Nil upt_rec numeral_2_eq_2)

text \<open>\<open>slice\<close>, \<open>insertAt\<close>, \<open>removeAt\<close>, \<open>concat\<close> and \<open>reverse\<close> give the list of the elements between two
  positions without the holes, the list with a new element at a position, without the element at a
  position, with the contents of the arguments behind it, and the reversed list; for arrays and arguments
  below the threshold, and \<open>reverse\<close> for any array without holes, in whatever order it visits its map.
\<close>

theorem rearrange_correct:
  assumes "array_ok a" and "- 2147483648 < i" "i < 2147483648"
  defines "n \<equiv> currentsize a" and "p \<equiv> position i (currentsize a)"
    and "q \<equiv> (if i < 0 then position i (currentsize a) else nat i)"
  shows "(n < 2147483648 \<longrightarrow> array_ok (array_slice chain s e a) \<and> elems (array_slice chain s e a) =
         filter isValid (map (\<lambda>i. or_chain chain i (elems a ! i)) [position (sint s) n..<position (sint e) n]))
    \<and> (n < ARRAY_SIZE_THRESHOLD \<longrightarrow> (\<exists>b. array_insertAt chain i v a = Inr b \<and> array_ok b \<and>
         elems b = take p (elems a) @ v # drop p (filled_from chain p a)))
    \<and> (n \<le> ARRAY_SIZE_THRESHOLD \<longrightarrow> (\<exists>r b. array_removeAt chain i a = Inr (r, b) \<and> array_ok b \<and>
         elems b = take q (elems a) @ drop (q + 1) (filled_from chain q a) \<and>
         (q < n \<and> isValid (filled_from chain q a ! q) \<longrightarrow> r = filled_from chain q a ! q)))
    \<and> ((\<forall>x\<in>set args. small_arg x) \<and> n + length (concat (map contents args)) \<le> UINT32_MAX \<longrightarrow>
         array_ok (array_concat args a) \<and> elems (array_concat args a) = elems a @ concat (map contents args))
    \<and> (n \<le> UINT32_MAX \<and> (\<forall>i < n. isValid (elems a ! i)) \<and> (\<forall>xs. mset (ord xs) = mset xs) \<longrightarrow>
         array_ok (array_reverse ord a) \<and> elems (array_reverse ord a) = rev (elems a))"
proof (intro conjI impI)
  show "array_ok (array_slice chain s e a)" "elems (array_slice chain s e a) =
      filter isValid (map (\<lambda>i. or_chain chain i (elems a ! i)) [position (sint s) n..<position (sint e) n])"
    if "n < 2147483648"
    using slice_list [OF assms(1)] that by (simp_all add: n_def)
  show "\<exists>b. array_insertAt chain i v a = Inr b \<and> array_ok b \<and>
      elems b = take p (elems a) @ v # drop p (filled_from chain p a)" if "n < ARRAY_SIZE_THRESHOLD"
    using insertAt_list [OF assms(1) _ assms(2,3)] that by (simp add: n_def p_def)
  show "\<exists>r b. array_removeAt chain i a = Inr (r, b) \<and> array_ok b \<and>
         elems b = take q (elems a) @ drop (q + 1) (filled_from chain q a) \<and>
         (q < n \<and> isValid (filled_from chain q a ! q) \<longrightarrow> r = filled_from chain q a ! q)" if "n \<le> ARRAY_SIZE_THRESHOLD"
    using removeAt_list [OF assms(1) that [unfolded n_def] assms(2,3), of chain, folded q_def] by (auto simp: n_def)
  show "array_ok (array_concat args a)" "elems (array_concat args a) = elems a @ concat (map contents args)"
    if "(\<forall>x\<in>set args. small_arg x) \<and> n + length (concat (map contents args)) \<le> UINT32_MAX"
    using concat_list [OF assms(1)] that by (simp_all add: n_def)
  show "array_ok (array_reverse ord a)" "elems (array_reverse ord a) = rev (elems a)"
    if "n \<le> UINT32_MAX \<and> (\<forall>i < n. isValid (elems a ! i)) \<and> (\<forall>xs. mset (ord xs) = mset xs)"
    using reverse_list [OF assms(1), of ord] that by (simp_all add: n_def nth_elems)
qed

lemma rearrange_correct_witness:
  "\<exists>b. array_insertAt [] 1 7 (array_of [1, 2]) = Inr b \<and> elems b = [1, 7, 2]"
  using rearrange_correct [OF array_of_12(1), where i = 1 and v = 7 and chain = "[]", THEN conjunct2, THEN conjunct1]
  by (auto simp: array_of_12 position_def ARRAY_SIZE_THRESHOLD_def filled_from_Nil)

text \<open>The searches below the threshold: \<open>indexOf\<close> returns the first index from its start on whose element
  is equal to the value, \<open>lastIndexOf\<close> the last one up to its start that is not a hole, and -1 when there
  is none.
\<close>

theorem search_correct:
  assumes "array_ok a" and "currentsize a \<le> ARRAY_SIZE_THRESHOLD" and "- 2147483648 \<le> i" "i < 2147483648"
  shows "array_indexOf eq i a =
      (case List.find (\<lambda>k. eq (elems a ! k)) [position i (currentsize a)..<currentsize a] of Some k \<Rightarrow> int k | None \<Rightarrow> - 1)
    \<and> (0 < currentsize a \<longrightarrow> array_lastIndexOf eq one_arg (Some i) a =
        (if i < - int (currentsize a) then Inr (- 1)
         else let start = (if i < 0 then nat (int (currentsize a) + i) else min (nat i) (currentsize a - 1))
           in Inr (case List.find (\<lambda>k. isValid (elems a ! k) \<and> eq (elems a ! k)) (rev [0..<Suc start]) of
               Some k \<Rightarrow> int k | None \<Rightarrow> - 1)))"
  using indexOf_list [OF assms] lastIndexOf_list [OF assms(1,2)] by blast

lemma search_correct_witness: "array_indexOf (\<lambda>v. v = 2) 0 (array_of [1, 2]) = 1"
  using search_correct [OF array_of_12(1), of 0 "\<lambda>v. v = 2", THEN conjunct1]
  by (simp add: array_of_12 ARRAY_SIZE_THRESHOLD_def position_def upt_rec numeral_2_eq_2)

end
