(* ===== verification/TimeSpec.thy ===== *)
theory TimeSpec
  imports LS_Prelude
begin

text \<open>
  Points in time and durations: the class \<open>TimeSpec\<close> of \<open>utils/timespec.h\<close>, seconds and nanoseconds in
  64 bits each, and \<open>CondTime\<close> of \<open>threading.h\<close> and \<open>threading.cpp\<close>, a point in time in milliseconds.

  The order of the code makes \<open>timespec\<close> a linear order, so that the library's facts on sorted lists
  apply to the queues of timers. \<open>ns\<close> is the number of nanoseconds a value stands for.
\<close>

section \<open>TimeSpec\<close>

datatype timespec = TimeSpec (tsec: u64) (tnsec: u64)

definition nsPerSec :: u64 where "nsPerSec = 1000000000"

definition timespec_new :: "u64 \<Rightarrow> u64 \<Rightarrow> timespec" where
  "timespec_new secs nsecs = TimeSpec (secs + nsecs div nsPerSec) (nsecs mod nsPerSec)"

definition time_fromNs :: "u64 \<Rightarrow> timespec" where
  "time_fromNs v = TimeSpec (v div nsPerSec) (v mod nsPerSec)"

definition time_fromUs :: "u64 \<Rightarrow> timespec" where "time_fromUs us = time_fromNs (us * 1000)"

definition time_fromMs :: "u64 \<Rightarrow> timespec" where "time_fromMs ms = time_fromNs (ms * 1000000)"

definition time_fromSec :: "u64 \<Rightarrow> timespec" where "time_fromSec s = timespec_new s 0"

definition time_less :: "timespec \<Rightarrow> timespec \<Rightarrow> bool" where
  "time_less a b \<longleftrightarrow> tsec a < tsec b \<or> (tsec a = tsec b \<and> tnsec a < tnsec b)"

definition time_less_eq :: "timespec \<Rightarrow> timespec \<Rightarrow> bool" where
  "time_less_eq a b \<longleftrightarrow> tsec a < tsec b \<or> (tsec a = tsec b \<and> tnsec a \<le> tnsec b)"

definition time_minus :: "timespec \<Rightarrow> timespec \<Rightarrow> timespec" where
  "time_minus a b =
     (let negNs = tnsec a < tnsec b
      in timespec_new (tsec a - tsec b - (if negNs then 1 else 0))
           ((if negNs then tnsec a + nsPerSec else tnsec a) - tnsec b))"

definition time_plus :: "timespec \<Rightarrow> timespec \<Rightarrow> timespec" where
  "time_plus a b =
     (let nsecs = tnsec a + tnsec b; addSec = nsecs \<ge> nsPerSec
      in timespec_new (tsec a + tsec b + (if addSec then 1 else 0)) (nsecs - (if addSec then nsPerSec else 0)))"

definition time_toNs :: "timespec \<Rightarrow> u64" where "time_toNs t = tsec t * nsPerSec + tnsec t"

definition time_times :: "timespec \<Rightarrow> u64 \<Rightarrow> timespec" where
  "time_times t n =
     (let totalNsec = tnsec t * n; extraSec = totalNsec div nsPerSec
      in timespec_new (tsec t * n + extraSec) (totalNsec mod nsPerSec))"

definition time_divide :: "timespec \<Rightarrow> u64 \<Rightarrow> timespec res" where
  "time_divide t n =
     (if n = 0 then Inl ArithmeticTrap
      else let r = timespec_new (tsec t div n) (tnsec t div n); extra = timespec_new (tsec t mod n) (tnsec t mod n)
           in Inr (TimeSpec (tsec r) (tnsec r + time_toNs extra div n)))"

definition time_saturatingSub :: "timespec \<Rightarrow> timespec \<Rightarrow> timespec" where
  "time_saturatingSub a b = (if time_less_eq b a then time_minus a b else TimeSpec 0 0)"

definition time_absDiff :: "timespec \<Rightarrow> timespec \<Rightarrow> timespec" where
  "time_absDiff a b = (if time_less_eq b a then time_minus a b else time_minus b a)"

definition time_toMs :: "timespec \<Rightarrow> u64" where "time_toMs t = time_toNs t div 1000000"

definition time_toUs :: "timespec \<Rightarrow> u64" where "time_toUs t = time_toNs t div 1000"

definition time_toMsRound :: "timespec \<Rightarrow> u64" where "time_toMsRound t = (time_toNs t + 1000000 div 2) div 1000000"

instantiation timespec :: "{zero, plus, minus, linorder}"
begin

definition "0 = TimeSpec 0 0"
definition "a + b = time_plus a b"
definition "a - b = time_minus a b"
definition "a < b \<longleftrightarrow> time_less a b"
definition "a \<le> b \<longleftrightarrow> time_less_eq a b"

instance
  by standard
    (auto simp: less_timespec_def less_eq_timespec_def time_less_def time_less_eq_def timespec.expand)

end

lemmas timespec_defs = zero_timespec_def plus_timespec_def minus_timespec_def less_timespec_def less_eq_timespec_def

section \<open>The nanoseconds\<close>

definition ns :: "timespec \<Rightarrow> nat" where "ns t = unat (tsec t) * 1000000000 + unat (tnsec t)"

definition normal :: "timespec \<Rightarrow> bool" where "normal t \<longleftrightarrow> tnsec t < nsPerSec"

text \<open>The number of nanoseconds that 64-bit seconds can hold.\<close>

definition NS_LIMIT :: nat where "NS_LIMIT = 18446744073709551616 * 1000000000"

lemma unat_nsPerSec: "unat nsPerSec = 1000000000"
  by (simp add: nsPerSec_def)

lemma u64_less: "unat (w :: u64) < 18446744073709551616"
  using unsigned_less [of w] by simp

lemma normal_unat: "normal t \<longleftrightarrow> unat (tnsec t) < 1000000000"
  by (simp add: normal_def word_less_nat_alt unat_nsPerSec)

lemma normal_timespec_new [simp]: "normal (timespec_new s v)" and normal_fromNs [simp]: "normal (time_fromNs v)"
  by (simp_all add: normal_def timespec_new_def time_fromNs_def nsPerSec_def word_mod_less_divisor)

lemma timespec_new_normal: "v < nsPerSec \<Longrightarrow> timespec_new s v = TimeSpec s v"
  by (simp add: timespec_new_def div_word_less mod_word_less)

lemma normal_plus [simp]: "normal (a + b)" and normal_minus [simp]: "normal (a - b)" and normal_0 [simp]: "normal 0"
  by (simp_all add: timespec_defs time_plus_def time_minus_def Let_def) (simp add: normal_def nsPerSec_def)

lemma ns_0 [simp]: "ns 0 = 0"
  by (simp add: ns_def timespec_defs)

lemma ns_less: "normal a \<Longrightarrow> normal b \<Longrightarrow> a < b \<longleftrightarrow> ns a < ns b"
  by (auto simp: timespec_defs time_less_def ns_def normal_unat word_less_nat_alt word_unat_eq_iff)

lemma ns_le: "normal a \<Longrightarrow> normal b \<Longrightarrow> a \<le> b \<longleftrightarrow> ns a \<le> ns b"
  using ns_less [of b a] by (auto simp: not_less [symmetric])

lemma ns_inject: "normal a \<Longrightarrow> normal b \<Longrightarrow> ns a = ns b \<longleftrightarrow> a = b"
  using ns_le [of a b] ns_le [of b a] by auto

lemma ns_plus:
  assumes "normal a" and "normal b" and "ns a + ns b < NS_LIMIT"
  shows "ns (a + b) = ns a + ns b"
proof -
  define x y where "x = unat (tnsec a)" and "y = unat (tnsec b)"
  have xy: "x < 1000000000" "y < 1000000000"
    using assms by (simp_all add: normal_unat x_def y_def)
  have s: "unat (tnsec a + tnsec b) = x + y"
    using xy by (simp add: x_def y_def unat_add_lem [THEN iffD1])
  have secs: "unat (tsec a) + unat (tsec b) + (if 1000000000 \<le> x + y then 1 else 0) < 18446744073709551616"
    using assms(3) xy by (auto simp: ns_def NS_LIMIT_def x_def y_def)
  show ?thesis
  proof (cases "1000000000 \<le> x + y")
    case True
    have "nsPerSec \<le> tnsec a + tnsec b"
      using True by (simp add: word_le_nat_alt s unat_nsPerSec)
    moreover have "unat (tnsec a + tnsec b - nsPerSec) = x + y - 1000000000"
      using True by (simp add: unat_sub word_le_nat_alt s unat_nsPerSec)
    moreover have "unat (tsec a + tsec b + 1) = unat (tsec a) + unat (tsec b) + 1"
      using secs True by (simp add: unat_word_ariths)
    ultimately show ?thesis
      using True xy
      by (simp add: timespec_defs time_plus_def Let_def timespec_new_normal word_less_nat_alt unat_nsPerSec ns_def
          x_def y_def)
  next
    case False
    then have "\<not> nsPerSec \<le> tnsec a + tnsec b"
      by (simp add: word_le_nat_alt s unat_nsPerSec)
    moreover have "unat (tsec a + tsec b) = unat (tsec a) + unat (tsec b)"
      using secs False by (simp add: unat_word_ariths)
    ultimately show ?thesis
      using False s
      by (simp add: timespec_defs time_plus_def Let_def timespec_new_normal word_less_nat_alt unat_nsPerSec ns_def
          x_def y_def)
  qed
qed

lemma ns_minus:
  assumes "normal a" and "normal b" and "b \<le> a"
  shows "ns (a - b) = ns a - ns b"
proof -
  define x y where "x = unat (tnsec a)" and "y = unat (tnsec b)"
  have xy: "x < 1000000000" "y < 1000000000"
    using assms by (simp_all add: normal_unat x_def y_def)
  have le: "ns b \<le> ns a"
    using assms ns_le by blast
  show ?thesis
  proof (cases "x < y")
    case True
    have l: "unat (tsec b) < unat (tsec a)"
      using le True xy by (simp add: ns_def x_def y_def)
    have "unat (tnsec a + nsPerSec) = x + 1000000000"
      using xy by (simp add: unat_word_ariths unat_nsPerSec x_def)
    then have n: "unat (tnsec a + nsPerSec - tnsec b) = x + 1000000000 - y"
      using xy by (simp add: unat_sub word_le_nat_alt y_def)
    have "unat (tsec a - tsec b) = unat (tsec a) - unat (tsec b)"
      using l by (simp add: unat_sub word_le_nat_alt)
    then have "unat (tsec a - tsec b - 1) = unat (tsec a) - unat (tsec b) - 1"
      using l by (subst unat_sub) (simp_all add: word_le_nat_alt)
    then show ?thesis
      using True l n xy
      by (simp add: timespec_defs time_minus_def Let_def timespec_new_normal word_less_nat_alt unat_nsPerSec ns_def
          x_def y_def algebra_simps) 
  next
    case False
    have l: "unat (tsec b) \<le> unat (tsec a)"
      using le False xy by (simp add: ns_def x_def y_def)
    have n: "unat (tnsec a - tnsec b) = x - y"
      using False by (simp add: unat_sub word_le_nat_alt x_def y_def)
    have "unat (tsec a - tsec b) = unat (tsec a) - unat (tsec b)"
      using l by (simp add: unat_sub word_le_nat_alt)
    then show ?thesis
      using False l n xy
      by (simp add: timespec_defs time_minus_def Let_def timespec_new_normal word_less_nat_alt unat_nsPerSec ns_def
          x_def y_def diff_mult_distrib)
  qed
qed

lemma ns_toNs: "ns t < 18446744073709551616 \<Longrightarrow> unat (time_toNs t) = ns t"
  by (simp add: time_toNs_def unat_word_ariths unat_nsPerSec ns_def)

lemma ns_fromNs [simp]: "ns (time_fromNs v) = unat v"
  by (simp add: ns_def time_fromNs_def unat_div unat_mod unat_nsPerSec)

lemma ns_fromMs: "unat ms * 1000000 < 18446744073709551616 \<Longrightarrow> ns (time_fromMs ms) = unat ms * 1000000"
  by (simp add: time_fromMs_def unat_word_ariths)

lemma ns_saturatingSub: "normal a \<Longrightarrow> normal b \<Longrightarrow> ns (time_saturatingSub a b) = ns a - ns b"
  using ns_minus [of a b] ns_le [of b a] by (auto simp: time_saturatingSub_def timespec_defs ns_def)

lemma digits_bound: "q < m \<Longrightarrow> y < k \<Longrightarrow> q * k + y < m * (k :: nat)"
proof -
  assume "q < m" "y < k"
  then have "q * k + y < Suc q * k" "Suc q * k \<le> m * k"
    by (simp, intro mult_le_mono1) simp
  then show ?thesis by linarith
qed

lemma divided_sum: "(m * a + b) * k + (m * c + d) = m * (a * k + c) + (b * k + d :: nat)"
  by (simp add: algebra_simps)

lemma ns_divide:
  assumes "normal t" and "0 < unat n" and "unat n \<le> 2 ^ 34"
  shows "\<exists>r. time_divide t n = Inr r \<and> normal r \<and> ns r = ns t div unat n"
proof -
  define s x m where "s = unat (tsec t)" and "x = unat (tnsec t)" and "m = unat n"
  have x: "x < 1000000000" and m: "0 < m" "m \<le> 2 ^ 34"
    using assms by (simp_all add: normal_unat x_def m_def)
  have small: "tnsec t div n < nsPerSec" "tnsec t mod n < nsPerSec"
    using le_less_trans [OF div_le_dividend x, of m] le_less_trans [OF mod_less_eq_dividend x, of m]
    by (simp_all add: word_less_nat_alt unat_div unat_mod unat_nsPerSec flip: x_def m_def)
  have "(s mod m) * 1000000000 + x mod m < m * 1000000000"
    using m by (intro digits_bound le_less_trans [OF mod_less_eq_dividend x]) simp
  note extra = this
  have e: "unat (time_toNs (TimeSpec (tsec t mod n) (tnsec t mod n))) = (s mod m) * 1000000000 + x mod m"
    using extra m by (subst ns_toNs) (simp_all add: ns_def unat_mod flip: s_def x_def m_def)
  have split: "s * 1000000000 + x = m * ((s div m) * 1000000000 + x div m) + ((s mod m) * 1000000000 + x mod m)"
    using divided_sum [of m "s div m" "s mod m" 1000000000 "x div m" "x mod m"] by simp
  have q: "(s * 1000000000 + x) div m = (s div m) * 1000000000 + x div m + ((s mod m) * 1000000000 + x mod m) div m"
    using m by (subst split) simp
  have b: "x div m + ((s mod m) * 1000000000 + x mod m) div m < 1000000000"
  proof -
    have "x div m + ((s mod m) * 1000000000 + x mod m) div m = (m * (x div m) + ((s mod m) * 1000000000 + x mod m)) div m"
      by (rule div_mult_self4 [symmetric]) (use m in simp)
    also have "m * (x div m) + ((s mod m) * 1000000000 + x mod m) = (s mod m) * 1000000000 + x"
      using divided_sum [of m 0 "s mod m" 1000000000 "x div m" "x mod m"] by simp
    also have "((s mod m) * 1000000000 + x) div m < 1000000000"
      using m x by (intro less_mult_imp_div_less) (simp add: digits_bound mult.commute [of 1000000000])
    finally show ?thesis .
  qed
  define r where "r = TimeSpec (tsec t div n) (tnsec t div n + time_toNs (TimeSpec (tsec t mod n) (tnsec t mod n)) div n)"
  have "n \<noteq> 0"
    using assms by auto
  then have "time_divide t n = Inr r"
    by (simp add: time_divide_def timespec_new_normal small r_def Let_def)
  moreover have u: "unat (tnsec r) = x div m + ((s mod m) * 1000000000 + x mod m) div m"
    using b e by (simp add: r_def unat_word_ariths unat_div flip: x_def m_def)
  then have "normal r"
    using b by (simp add: normal_unat)
  moreover have "ns r = ns t div unat n"
    using u q by (simp add: ns_def r_def unat_div flip: s_def x_def m_def)
  ultimately show ?thesis by blast
qed

lemma ns_times:
  assumes "normal t" and "ns t * unat n < NS_LIMIT" and "unat n \<le> 2 ^ 34"
  shows "ns (time_times t n) = ns t * unat n"
proof -
  define x m where "x = unat (tnsec t)" and "m = unat n"
  have x: "x < 1000000000"
    using assms by (simp add: normal_unat x_def)
  have "x * m \<le> 1000000000 * 2 ^ 34"
    using x assms by (intro mult_le_mono) (simp_all add: m_def)
  then have p: "unat (tnsec t * n) = x * m"
    by (simp add: unat_word_ariths flip: x_def m_def)
  have e: "ns t * m = (unat (tsec t) * m + x * m div 1000000000) * 1000000000 + x * m mod 1000000000"
    by (simp add: ns_def algebra_simps flip: x_def)
  then have s: "unat (tsec t) * m + x * m div 1000000000 < 18446744073709551616"
    using assms(2) by (simp add: NS_LIMIT_def flip: m_def)
  then have "unat (tsec t * n + tnsec t * n div nsPerSec) = unat (tsec t) * m + x * m div 1000000000"
    using p by (simp add: unat_word_ariths unat_div unat_nsPerSec flip: m_def)
  moreover have "tnsec t * n mod nsPerSec < nsPerSec"
    by (rule word_mod_less_divisor) (simp add: nsPerSec_def)
  ultimately show ?thesis
    using p e by (simp add: time_times_def Let_def timespec_new_normal ns_def unat_mod unat_nsPerSec flip: m_def)
qed

text \<open>Time arithmetic. On values whose nanoseconds are below 10 to the 9, the comparisons of \<open>TimeSpec\<close> are
  those of the nanoseconds it stands for, and sum, difference, saturating difference, product and quotient
  are exact as long as the seconds fit into 64 bits; the results have their nanoseconds below 10 to the 9 again.
  Milliseconds are converted back and forth without loss.\<close>

theorem timespec_arithmetic:
  assumes "normal a" and "normal b"
  shows "(time_less a b \<longleftrightarrow> ns a < ns b) \<and> (time_less_eq a b \<longleftrightarrow> ns a \<le> ns b)
    \<and> (ns a + ns b < NS_LIMIT \<longrightarrow> ns (time_plus a b) = ns a + ns b \<and> normal (time_plus a b))
    \<and> (ns b \<le> ns a \<longrightarrow> ns (time_minus a b) = ns a - ns b \<and> normal (time_minus a b))
    \<and> ns (time_saturatingSub a b) = ns a - ns b
    \<and> (\<forall>n. 0 < unat n \<and> unat n \<le> 2 ^ 34 \<longrightarrow>
         (\<exists>q. time_divide a n = Inr q \<and> normal q \<and> ns q = ns a div unat n) \<and>
         (ns a * unat n < NS_LIMIT \<longrightarrow> ns (time_times a n) = ns a * unat n))
    \<and> (\<forall>ms. unat ms * 1000000 < 2 ^ 64 \<longrightarrow> time_toMs (time_fromMs ms) = ms)"
proof (intro conjI impI allI)
  show "time_toMs (time_fromMs ms) = ms" if "unat ms * 1000000 < 2 ^ 64" for ms
    using that by (simp add: time_toMs_def word_unat_eq_iff unat_div ns_toNs ns_fromMs)
qed (use assms ns_less [of a b] ns_le [of a b] ns_le [of b a] ns_plus ns_minus ns_saturatingSub ns_divide ns_times
      normal_plus [of a b] normal_minus [of a b] in \<open>simp_all add: timespec_defs\<close>)

lemma timespec_arithmetic_witness:
  "ns (time_minus (TimeSpec 3 100) (TimeSpec 1 999999900)) = 1000000200"
  using timespec_arithmetic [of "TimeSpec 3 100" "TimeSpec 1 999999900"]
  by (simp add: normal_def nsPerSec_def ns_def)

section \<open>CondTime\<close>

text \<open>
  A point in time in milliseconds. The constructor takes the number of milliseconds from now on that
  the point should lie in the future, but stores the current time; \<open>now\<close> is the clock when it is called.
\<close>

type_synonym condtime = u64

definition CondTime :: "u64 \<Rightarrow> u32 \<Rightarrow> condtime" where
  "CondTime now milliseconds = now"

definition isInTheFuture :: "u64 \<Rightarrow> condtime \<Rightarrow> bool" where
  "isInTheFuture now c \<longleftrightarrow> c > now"

definition addMilliseconds :: "u64 \<Rightarrow> u32 \<Rightarrow> condtime \<Rightarrow> condtime" where
  "addMilliseconds now ms c = (let t = c + ucast ms in if t < now then now + ucast ms else t)"

lemma addMilliseconds_future:
  assumes "now \<le> 0xffffffff00000000"
  shows "now \<le> addMilliseconds now ms c"
proof -
  have "unat ms < 4294967296"
    using unsigned_less [of ms] by simp
  then have "unat now + unat ms < 18446744073709551616"
    using assms by (simp add: word_le_nat_alt)
  then have "now \<le> now + ucast ms"
    by (simp add: word_le_nat_alt unat_word_ariths unsigned_ucast_eq take_bit_nat_eq_self)
  then show ?thesis
    by (auto simp: addMilliseconds_def Let_def not_less)
qed

end
