(* ===== verification/TimerThread.thy ===== *)
theory TimerThread
  imports TimeSpec
begin

text \<open>
  The timer thread: the class \<open>TimerThread\<close> of \<open>timer.h\<close> and \<open>timer.cpp\<close>, a queue of events ordered by
  the time they are due, filled by any thread and emptied by a worker.

  The mutex is free only while the worker waits or executes a job, so that a run of the program is a
  sequence of the steps \<open>tt_label\<close>: the clock advances, some thread creates the event of a job it adds (which reads the
  clock, without the mutex), inserts an event it has created, removes a job, sets the flag \<open>stopMe\<close> of a job or stops the
  thread, or the worker runs from one point where it releases the mutex to the next. \<open>addTick\<close> and \<open>addWait\<close> are two steps,
  between which anything may happen; \<open>adding\<close> holds the events that are created and not yet inserted.
  Jobs are pointers, of any type \<open>'j\<close>. The state records the calls of \<open>tick\<close> and \<open>tickFence\<close>.
\<close>

section \<open>The queue\<close>

record 'j timing_event =
  ev_job :: 'j
  wakeUpTime :: condtime
  tickTime :: u32
  isTick :: bool

definition timing_event_new :: "u64 \<Rightarrow> 'j \<Rightarrow> bool \<Rightarrow> u32 \<Rightarrow> u32 \<Rightarrow> 'j timing_event" where
  "timing_event_new now job tick tick_time wait_time =
     \<lparr>ev_job = job, wakeUpTime = CondTime now (if tick then tick_time else wait_time), tickTime = tick_time, isTick = tick\<rparr>"

fun insert_behind :: "'j timing_event \<Rightarrow> 'j timing_event list \<Rightarrow> 'j timing_event list" where
  "insert_behind e [] = [e]"
| "insert_behind e (x # xs) = (if wakeUpTime x > wakeUpTime e then e # x # xs else x # insert_behind e xs)"

text \<open>The result tells whether \<open>newEvent\<close> is signalled.\<close>

fun insertNewEvent_nolock :: "'j timing_event \<Rightarrow> 'j timing_event list \<Rightarrow> 'j timing_event list \<times> bool" where
  "insertNewEvent_nolock e [] = ([e], True)"
| "insertNewEvent_nolock e (x # xs) =
     (if wakeUpTime x > wakeUpTime e then (e # x # xs, True) else (x # insert_behind e xs, False))"

section \<open>The thread\<close>

text \<open>Where the worker has released the mutex: waiting for the first event, for the time of an event, or in \<open>tick\<close>.\<close>

datatype 'j worker_at = WaitEvent | WaitTime | Ticking "'j timing_event" | Returned

record 'j timer_thread =
  clock :: u64
  pendingEvents :: "'j timing_event list"
  adding :: "'j timing_event list"
  stopped :: bool
  stopMe :: "'j \<Rightarrow> bool"
  worker_at :: "'j worker_at"
  newEvent :: nat
  ticked :: "'j list"
  fenced :: "'j list"

definition timer_thread_new :: "u64 \<Rightarrow> 'j timer_thread" where
  "timer_thread_new now = \<lparr>clock = now, pendingEvents = [], adding = [], stopped = False, stopMe = (\<lambda>_. False), worker_at = WaitEvent,
     newEvent = 0, ticked = [], fenced = []\<rparr>"

definition signal :: "bool \<Rightarrow> 'j timer_thread \<Rightarrow> 'j timer_thread" where
  "signal b s = (if b then s\<lparr>newEvent := newEvent s + 1\<rparr> else s)"

definition insertNewEvent :: "'j timing_event \<Rightarrow> 'j timer_thread \<Rightarrow> 'j timer_thread" where
  "insertNewEvent e s =
     (let (q, b) = insertNewEvent_nolock e (pendingEvents s) in signal b (s\<lparr>pendingEvents := q\<rparr>))"

text \<open>The first statement of \<open>addTick\<close> and \<open>addWait\<close>, and the second, under the mutex.\<close>

definition addTick :: "u32 \<Rightarrow> 'j \<Rightarrow> 'j timer_thread \<Rightarrow> 'j timer_thread" where
  "addTick tick_time job s = s\<lparr>adding := timing_event_new (clock s) job True tick_time 0 # adding s\<rparr>"

definition addWait :: "u32 \<Rightarrow> 'j \<Rightarrow> 'j timer_thread \<Rightarrow> 'j timer_thread" where
  "addWait wait_time job s = s\<lparr>adding := timing_event_new (clock s) job False 0 wait_time # adding s\<rparr>"

definition add_created :: "'j timing_event \<Rightarrow> 'j timer_thread \<Rightarrow> 'j timer_thread" where
  "add_created e s = insertNewEvent e (s\<lparr>adding := remove1 e (adding s)\<rparr>)"

definition tickFence :: "'j \<Rightarrow> 'j timer_thread \<Rightarrow> 'j timer_thread" where
  "tickFence job s = s\<lparr>fenced := job # fenced s\<rparr>"

text \<open>The search of \<open>removeJob_noLock\<close>, which also notes whether the job was found at the front.\<close>

fun remove_first :: "'j \<Rightarrow> 'j timing_event list \<Rightarrow> ('j timing_event list \<times> bool) option" where
  "remove_first job [] = None"
| "remove_first job (x # xs) =
     (if ev_job x = job then Some (xs, True) else map_option (\<lambda>(q, _). (x # q, False)) (remove_first job xs))"

definition removeJob :: "'j \<Rightarrow> 'j timer_thread \<Rightarrow> 'j timer_thread" where
  "removeJob job s =
     (case remove_first job (pendingEvents s) of
        None \<Rightarrow> s
      | Some (q, first) \<Rightarrow> signal first ((tickFence job s)\<lparr>pendingEvents := q\<rparr>))"

definition stop :: "'j timer_thread \<Rightarrow> 'j timer_thread" where
  "stop s = signal True (s\<lparr>stopped := True\<rparr>)"

text \<open>The destructor, after the worker has returned.\<close>

definition timer_thread_delete :: "'j timer_thread \<Rightarrow> 'j timer_thread" where
  "timer_thread_delete s =
     (let s = stop s in s\<lparr>fenced := rev (map ev_job (pendingEvents s)) @ fenced s, pendingEvents := []\<rparr>)"

text \<open>
  The worker: the start of its loop, what it does when it holds the mutex again after \<open>newEvent.wait\<close>, after
  \<open>timing.wait\<close>, and after a tick.
\<close>

definition loop_top :: "'j timer_thread \<Rightarrow> 'j timer_thread" where
  "loop_top s = s\<lparr>worker_at := (if pendingEvents s = [] then WaitEvent else WaitTime)\<rparr>"

definition worker_signalled :: "'j timer_thread \<Rightarrow> 'j timer_thread" where
  "worker_signalled s = (if stopped s then s\<lparr>worker_at := Returned\<rparr> else loop_top s)"

definition worker_awake :: "'j timer_thread \<Rightarrow> 'j timer_thread" where
  "worker_awake s =
     (if stopped s then s\<lparr>worker_at := Returned\<rparr>
      else case pendingEvents s of
        [] \<Rightarrow> loop_top s
      | e # q \<Rightarrow>
          if isInTheFuture (clock s) (wakeUpTime e) then loop_top s
          else let s = s\<lparr>pendingEvents := q\<rparr>
            in if stopMe s (ev_job e) then loop_top (tickFence (ev_job e) s)
               else let s = (if isTick e
                             then insertNewEvent (e\<lparr>wakeUpTime := addMilliseconds (clock s) (tickTime e) (wakeUpTime e)\<rparr>) s
                             else s)
                 in s\<lparr>ticked := ev_job e # ticked s, worker_at := Ticking e\<rparr>)"

definition worker_back :: "'j timing_event \<Rightarrow> 'j timer_thread \<Rightarrow> 'j timer_thread" where
  "worker_back e s = loop_top (if isTick e then s else tickFence (ev_job e) s)"

definition worker :: "'j timer_thread \<Rightarrow> 'j timer_thread" where
  "worker s = (case worker_at s of WaitEvent \<Rightarrow> worker_signalled s | WaitTime \<Rightarrow> worker_awake s
     | Ticking e \<Rightarrow> worker_back e s | Returned \<Rightarrow> s)"

datatype 'j tt_label = Clock u64 | AddTick u32 'j | AddWait u32 'j | Insert "'j timing_event" | RemoveJob 'j | StopMe 'j bool | Stop | Worker

fun tt_step :: "'j tt_label \<Rightarrow> 'j timer_thread \<Rightarrow> 'j timer_thread" where
  "tt_step (Clock d) s = s\<lparr>clock := clock s + d\<rparr>"
| "tt_step (AddTick t j) s = addTick t j s"
| "tt_step (AddWait t j) s = addWait t j s"
| "tt_step (Insert e) s = add_created e s"
| "tt_step (RemoveJob j) s = removeJob j s"
| "tt_step (StopMe j b) s = s\<lparr>stopMe := (stopMe s)(j := b)\<rparr>"
| "tt_step Stop s = stop s"
| "tt_step Worker s = worker s"

text \<open>The clock does not run backwards and stays far from its end; a thread inserts an event it has created.\<close>

definition CLOCK_END :: u64 where "CLOCK_END = 0xffffffff00000000"

fun tt_enabled :: "'j tt_label \<Rightarrow> 'j timer_thread \<Rightarrow> bool" where
  "tt_enabled (Clock d) s \<longleftrightarrow> clock s \<le> clock s + d \<and> clock s + d \<le> CLOCK_END"
| "tt_enabled (Insert e) s \<longleftrightarrow> e \<in> set (adding s)"
| "tt_enabled _ s \<longleftrightarrow> True"

inductive tt_run :: "'j timer_thread \<Rightarrow> 'j tt_label list \<Rightarrow> 'j timer_thread \<Rightarrow> bool" where
  tt_stay: "tt_run s [] s"
| tt_next: "tt_enabled l s \<Longrightarrow> tt_run (tt_step l s) ls s' \<Longrightarrow> tt_run s (l # ls) s'"

inductive_cases tt_run_NilE: "tt_run s [] s'"
inductive_cases tt_run_ConsE: "tt_run s (l # ls) s'"

section \<open>The order of the queue\<close>

definition in_order :: "'j timing_event list \<Rightarrow> bool" where
  "in_order = sorted_wrt (\<lambda>a b. wakeUpTime a \<le> wakeUpTime b)"

lemma insert_nolock_behind: "fst (insertNewEvent_nolock e q) = insert_behind e q"
  by (cases q) simp_all

lemma set_insert_behind [simp]: "set (insert_behind e q) = insert e (set q)"
  by (induction q) auto

lemma count_insert_behind [simp]:
  "count_list (map ev_job (insert_behind e q)) j = count_list (map ev_job q) j + (if ev_job e = j then 1 else 0)"
  by (induction q) auto

lemma in_order_insert: "in_order q \<Longrightarrow> in_order (insert_behind e q)"
  by (induction q) (auto simp: in_order_def intro: order_trans less_imp_le)

lemma insert_behind_due:
  assumes "in_order (pre @ e # post)" and "wakeUpTime e \<le> wakeUpTime e'"
  shows "insert_behind e' (pre @ e # post) = pre @ e # insert_behind e' post"
  using assms by (induction pre) (force simp: in_order_def not_less)+

lemma pending_insert [simp]: "pendingEvents (insertNewEvent e s) = insert_behind e (pendingEvents s)"
  using insert_nolock_behind [of e "pendingEvents s"]
  by (cases "insertNewEvent_nolock e (pendingEvents s)") (simp add: insertNewEvent_def signal_def)

lemma insert_frame [simp]:
  "clock (insertNewEvent e s) = clock s" "stopped (insertNewEvent e s) = stopped s" "stopMe (insertNewEvent e s) = stopMe s"
  "worker_at (insertNewEvent e s) = worker_at s" "ticked (insertNewEvent e s) = ticked s"
  "fenced (insertNewEvent e s) = fenced s" "adding (insertNewEvent e s) = adding s"
  by (simp_all add: insertNewEvent_def signal_def split: prod.splits)

lemma remove_first_split:
  "remove_first j q = Some (q', b) \<Longrightarrow> \<exists>pre e post. q = pre @ e # post \<and> ev_job e = j \<and> q' = pre @ post"
proof (induction q arbitrary: q' b)
  case (Cons x q)
  show ?case
  proof (cases "ev_job x = j")
    case True
    then show ?thesis using Cons.prems by (intro exI [of _ "[]"]) auto
  next
    case False
    then obtain r c where r: "remove_first j q = Some (r, c)" "q' = x # r"
      using Cons.prems by auto
    obtain pre e post where "q = pre @ e # post" "ev_job e = j" "r = pre @ post"
      using Cons.IH [OF r(1)] by blast
    then show ?thesis
      using r(2) by (intro exI [of _ "x # pre"]) auto
  qed
qed simp

lemma remove_first_other:
  assumes "remove_first j (pre @ e # post) = Some (q', b)" and "ev_job e \<noteq> j"
  shows "\<exists>pre' post'. q' = pre' @ e # post' \<and> length pre' \<le> length pre"
  using assms
proof (induction pre arbitrary: q' b)
  case (Cons x pre)
  show ?case
  proof (cases "ev_job x = j")
    case True
    then show ?thesis using Cons.prems by auto
  next
    case False
    then obtain r c where r: "remove_first j (pre @ e # post) = Some (r, c)" "q' = x # r"
      using Cons.prems by auto
    obtain pre' post' where "r = pre' @ e # post'" "length pre' \<le> length pre"
      using Cons.IH [OF r(1) Cons.prems(2)] by blast
    then show ?thesis
      using r(2) by (intro exI [of _ "x # pre'"] exI [of _ post']) simp
  qed
qed (auto split: if_splits)

text \<open>What every state of a run satisfies.\<close>

definition tt_ok :: "'j timer_thread \<Rightarrow> bool" where
  "tt_ok s \<longleftrightarrow> in_order (pendingEvents s) \<and> clock s \<le> CLOCK_END \<and> (worker_at s = Returned \<longrightarrow> stopped s)"

lemma tt_ok_new: "now \<le> CLOCK_END \<Longrightarrow> tt_ok (timer_thread_new now)"
  by (simp add: tt_ok_def timer_thread_new_def in_order_def)

lemma tt_ok_insert: "tt_ok s \<Longrightarrow> tt_ok (insertNewEvent e s)"
  by (simp add: tt_ok_def in_order_insert)

lemma tt_ok_created: "tt_ok s \<Longrightarrow> tt_ok (add_created e s)"
  unfolding add_created_def by (rule tt_ok_insert) (simp add: tt_ok_def)

lemma loop_top_frame [simp]:
  "clock (loop_top s) = clock s" "pendingEvents (loop_top s) = pendingEvents s" "stopped (loop_top s) = stopped s"
  "stopMe (loop_top s) = stopMe s" "ticked (loop_top s) = ticked s" "fenced (loop_top s) = fenced s"
  "adding (loop_top s) = adding s"
  "worker_at (loop_top s) = (if pendingEvents s = [] then WaitEvent else WaitTime)"
  by (simp_all add: loop_top_def)

lemma tt_ok_loop_top [simp]: "tt_ok (s\<lparr>worker_at := WaitEvent\<rparr>) \<Longrightarrow> tt_ok (loop_top s)"
  by (simp add: tt_ok_def)

lemma tt_ok_remove:
  assumes "tt_ok s"
  shows "tt_ok (removeJob j s)"
proof (cases "remove_first j (pendingEvents s)")
  case (Some r)
  obtain q b where r: "r = (q, b)" by fastforce
  from Some obtain pre e post where "pendingEvents s = pre @ e # post" "q = pre @ post"
    using remove_first_split [of j "pendingEvents s"] r by auto
  then show ?thesis
    using assms Some r by (auto simp: removeJob_def signal_def tickFence_def tt_ok_def in_order_def sorted_wrt_append)
qed (use assms in \<open>simp add: removeJob_def\<close>)

lemma tt_ok_awake:
  assumes "tt_ok s"
  shows "tt_ok (worker_awake s)"
proof (cases "pendingEvents s")
  case (Cons e q)
  then have "tt_ok (s\<lparr>pendingEvents := q\<rparr>)"
    using assms by (simp add: tt_ok_def in_order_def)
  note t = this tt_ok_insert [OF this, of "e\<lparr>wakeUpTime := addMilliseconds (clock s) (tickTime e) (wakeUpTime e)\<rparr>"]
  show ?thesis
    using assms t Cons by (simp add: worker_awake_def Let_def tickFence_def tt_ok_def)
qed (use assms in \<open>auto simp: worker_awake_def tt_ok_def\<close>)

lemma tt_ok_step:
  assumes "tt_ok s" and "tt_enabled l s"
  shows "tt_ok (tt_step l s)"
proof (cases l)
  case Worker
  then show ?thesis
    using assms tt_ok_awake [of s]
    by (cases "worker_at s") (auto simp: worker_def worker_signalled_def worker_back_def tickFence_def tt_ok_def)
next
  case (RemoveJob j)
  then show ?thesis using assms tt_ok_remove by simp
next
  case (Insert e)
  then show ?thesis using assms tt_ok_created by simp
qed (use assms in \<open>auto simp: addTick_def addWait_def in_order_insert stop_def signal_def tt_ok_def\<close>)


lemma tt_ok_run: "tt_run s ls s' \<Longrightarrow> tt_ok s \<Longrightarrow> tt_ok s'"
  by (induction rule: tt_run.induct) (simp_all add: tt_ok_step)

section \<open>Jobs that are due\<close>

text \<open>
  The event \<open>e\<close> is due and pending behind at most \<open>n\<close> others, those included that a thread has created with an earlier
  time and not yet inserted.
\<close>

definition overtaking :: "'j timing_event \<Rightarrow> 'j timer_thread \<Rightarrow> nat" where
  "overtaking e s = length (filter (\<lambda>x. wakeUpTime x < wakeUpTime e) (adding s))"

definition due_behind :: "'j timing_event \<Rightarrow> nat \<Rightarrow> 'j timer_thread \<Rightarrow> bool" where
  "due_behind e n s \<longleftrightarrow> wakeUpTime e \<le> clock s
     \<and> (\<exists>pre post. pendingEvents s = pre @ e # post \<and> length pre + overtaking e s \<le> n)"

definition runs_for :: "'j \<Rightarrow> 'j timer_thread \<Rightarrow> bool" where
  "runs_for j s \<longleftrightarrow> tt_ok s \<and> \<not> stopped s \<and> \<not> stopMe s j"

fun keeps_job :: "'j \<Rightarrow> 'j tt_label \<Rightarrow> bool" where
  "keeps_job j Stop \<longleftrightarrow> False"
| "keeps_job j (RemoveJob i) \<longleftrightarrow> i \<noteq> j"
| "keeps_job j (StopMe i b) \<longleftrightarrow> i \<noteq> j \<or> \<not> b"
| "keeps_job j _ \<longleftrightarrow> True"

lemma due_behind_frame:
  "clock t = clock s \<Longrightarrow> pendingEvents t = pendingEvents s \<Longrightarrow> adding t = adding s \<Longrightarrow> due_behind e n t = due_behind e n s"
  by (simp add: due_behind_def overtaking_def)

lemma due_behind_insert:
  assumes "due_behind e n s" and "tt_ok s" and "wakeUpTime e \<le> wakeUpTime e'"
  shows "due_behind e n (insertNewEvent e' s)"
proof -
  obtain pre post where d: "wakeUpTime e \<le> clock s" "pendingEvents s = pre @ e # post" "length pre + overtaking e s \<le> n"
    using assms(1) by (auto simp: due_behind_def)
  have "insert_behind e' (pre @ e # post) = pre @ e # insert_behind e' post"
    using assms d by (intro insert_behind_due) (auto simp: tt_ok_def)
  then show ?thesis
    using d by (auto simp: due_behind_def overtaking_def)
qed

text \<open>An event anywhere in the queue loses at most one place when another one is inserted.\<close>

lemma insert_behind_one:
  "\<exists>pre' post'. insert_behind e' (pre @ e # post) = pre' @ e # post' \<and> length pre' \<le> length pre + 1"
proof (induction pre)
  case Nil
  show ?case
    by (cases "wakeUpTime e > wakeUpTime e'") (auto intro: exI [of _ "[e']"] exI [of _ "[]"])
next
  case (Cons x pre)
  then obtain pre' post' where p: "insert_behind e' (pre @ e # post) = pre' @ e # post'" "length pre' \<le> length pre + 1"
    by blast
  show ?case
  proof (cases "wakeUpTime x > wakeUpTime e'")
    case True
    then show ?thesis by (intro exI [of _ "e' # x # pre"] exI [of _ post]) simp
  next
    case False
    then show ?thesis using p by (intro exI [of _ "x # pre'"] exI [of _ post']) simp
  qed
qed

lemma filter_remove1_length:
  "x \<in> set xs \<Longrightarrow> P x \<Longrightarrow> Suc (length (filter P (remove1 x xs))) = length (filter P xs)"
  by (induction xs) auto

lemma filter_remove1_other: "\<not> P x \<Longrightarrow> filter P (remove1 x xs) = filter P xs"
  by (induction xs) auto

text \<open>The insertion of a created event: an earlier one takes the place it was counted for.\<close>

lemma due_behind_created:
  assumes d: "due_behind e n s" and ok: "tt_ok s" and x: "x \<in> set (adding s)"
  shows "due_behind e n (add_created x s)"
proof -
  define t where "t = s\<lparr>adding := remove1 x (adding s)\<rparr>"
  obtain pre post where p: "wakeUpTime e \<le> clock s" "pendingEvents s = pre @ e # post" "length pre + overtaking e s \<le> n"
    using d by (auto simp: due_behind_def)
  have t: "tt_ok t" "clock t = clock s" "pendingEvents t = pendingEvents s"
    using ok by (simp_all add: t_def tt_ok_def)
  show ?thesis
  proof (cases "wakeUpTime x < wakeUpTime e")
    case True
    then have o: "overtaking e t + 1 = overtaking e s"
      using x by (simp add: overtaking_def t_def filter_remove1_length)
    obtain pre' post' where "insert_behind x (pre @ e # post) = pre' @ e # post'" "length pre' \<le> length pre + 1"
      using insert_behind_one by blast
    then show ?thesis
      using p o t by (auto simp: due_behind_def overtaking_def add_created_def simp flip: t_def)
  next
    case False
    then have "overtaking e t = overtaking e s"
      by (simp add: overtaking_def t_def filter_remove1_other)
    then have "due_behind e n t"
      using d t by (simp add: due_behind_def)
    then show ?thesis
      using due_behind_insert [of e n t x] t False by (simp add: add_created_def flip: t_def)
  qed
qed

lemma due_behind_remove:
  assumes "due_behind e n s" and "ev_job e \<noteq> j"
  shows "due_behind e n (removeJob j s)"
proof (cases "remove_first j (pendingEvents s)")
  case (Some r)
  obtain q b where r: "r = (q, b)" by fastforce
  obtain pre post where d: "wakeUpTime e \<le> clock s" "pendingEvents s = pre @ e # post" "length pre + overtaking e s \<le> n"
    using assms(1) by (auto simp: due_behind_def)
  obtain pre' post' where "q = pre' @ e # post'" "length pre' \<le> length pre"
    using remove_first_other [of j pre e post q b] Some r d assms(2) by auto
  then show ?thesis
    using d Some r by (auto simp: due_behind_def overtaking_def removeJob_def signal_def tickFence_def)
qed (use assms in \<open>simp add: removeJob_def\<close>)

lemma removeJob_frame [simp]:
  "clock (removeJob j s) = clock s" "stopped (removeJob j s) = stopped s" "stopMe (removeJob j s) = stopMe s"
  "worker_at (removeJob j s) = worker_at s" "ticked (removeJob j s) = ticked s"
  by (simp_all add: removeJob_def signal_def tickFence_def split: option.splits)

lemma add_created_frame [simp]:
  "clock (add_created x s) = clock s" "stopped (add_created x s) = stopped s" "stopMe (add_created x s) = stopMe s"
  "worker_at (add_created x s) = worker_at s" "ticked (add_created x s) = ticked s" "fenced (add_created x s) = fenced s"
  by (simp_all add: add_created_def)

lemma step_keeps:
  assumes "runs_for (ev_job e) s" and "tt_enabled l s" and "keeps_job (ev_job e) l" and "l \<noteq> Worker"
    and "due_behind e n s"
  shows "due_behind e n (tt_step l s)" "worker_at (tt_step l s) = worker_at s" "ticked (tt_step l s) = ticked s"
    "runs_for (ev_job e) (tt_step l s)"
proof -
  have ok: "tt_ok (tt_step l s)"
    using assms tt_ok_step by (auto simp: runs_for_def)
  have new: "due_behind e n (s\<lparr>adding := x # adding s\<rparr>)" if "clock s \<le> wakeUpTime x" for x
    using assms(5) that by (auto simp: due_behind_def overtaking_def)
  have later: "due_behind e n (s\<lparr>clock := clock s + d\<rparr>)" if "clock s \<le> clock s + d" for d
    using assms(5) that by (auto simp: due_behind_def overtaking_def)
  show "due_behind e n (tt_step l s)"
    using assms new later due_behind_created [OF assms(5)] due_behind_remove [OF assms(5)]
    by (cases l) (auto simp: runs_for_def addTick_def addWait_def timing_event_new_def CondTime_def
        due_behind_frame [of "s\<lparr>stopMe := f\<rparr>" s for f])
  show "worker_at (tt_step l s) = worker_at s" "ticked (tt_step l s) = ticked s" "runs_for (ev_job e) (tt_step l s)"
    using assms ok by (cases l; auto simp: runs_for_def addTick_def addWait_def)+
qed

text \<open>One step of the worker executes the job or comes closer to it.\<close>

definition ticking :: "'j timer_thread \<Rightarrow> nat" where
  "ticking s = (case worker_at s of WaitTime \<Rightarrow> 0 | _ \<Rightarrow> 1)"

lemma worker_runs_for:
  assumes "runs_for j s"
  shows "runs_for j (worker s)" "clock (worker s) = clock s"
proof -
  have "stopped (worker s) = stopped s \<and> stopMe (worker s) = stopMe s \<and> clock (worker s) = clock s"
    by (simp add: worker_def worker_signalled_def worker_awake_def worker_back_def tickFence_def Let_def
        split: worker_at.splits list.splits)
  then show "runs_for j (worker s)" "clock (worker s) = clock s"
    using assms tt_ok_step [of s Worker] by (simp_all add: runs_for_def)
qed

lemma awake_front:
  assumes "runs_for (ev_job e) s" and "pendingEvents s = e # post" and "wakeUpTime e \<le> clock s"
  shows "ticked (worker_awake s) = ev_job e # ticked s"
  using assms by (simp add: worker_awake_def runs_for_def isInTheFuture_def Let_def)

lemma awake_behind:
  assumes "tt_ok s" and "\<not> stopped s" and q: "pendingEvents s = x # pre @ e # post" and "wakeUpTime e \<le> clock s"
    and n: "length pre + overtaking e s \<le> n"
  shows "due_behind e n (worker_awake s) \<and> ticking (worker_awake s) \<le> 1
    \<and> (ticked (worker_awake s) = ticked s \<or> ticked (worker_awake s) = ev_job x # ticked s)"
proof -
  define s1 where "s1 = s\<lparr>pendingEvents := pre @ e # post\<rparr>"
  have s1: "tt_ok s1" "due_behind e n s1" "clock s1 = clock s" "pendingEvents s1 \<noteq> []"
    using assms by (auto simp: s1_def tt_ok_def in_order_def due_behind_def overtaking_def)
  have x: "wakeUpTime x \<le> clock s"
    using assms by (auto simp: tt_ok_def in_order_def)
  have "clock s \<le> 0xffffffff00000000"
    using assms(1) by (simp add: tt_ok_def CLOCK_END_def)
  then have "clock s \<le> addMilliseconds (clock s) (tickTime x) (wakeUpTime x)"
    by (rule addMilliseconds_future)
  then have f: "wakeUpTime e \<le> addMilliseconds (clock s) (tickTime x) (wakeUpTime x)"
    using assms(4) by order
  define s2 where "s2 = insertNewEvent (x\<lparr>wakeUpTime := addMilliseconds (clock s) (tickTime x) (wakeUpTime x)\<rparr>) s1"
  have s2: "due_behind e n s2"
    using due_behind_insert [OF s1(2,1)] f by (simp add: s2_def)
  have eq: "worker_awake s =
      (if stopMe s (ev_job x) then loop_top (tickFence (ev_job x) s1)
       else (if isTick x then s2 else s1)\<lparr>ticked := ev_job x # ticked s, worker_at := Ticking x\<rparr>)"
    using assms x by (simp add: worker_awake_def isInTheFuture_def Let_def s1_def s2_def)
  have "due_behind e n (worker_awake s)"
    using s1(2) s2 by (auto simp: eq due_behind_def overtaking_def tickFence_def)
  moreover have "ticking (worker_awake s) \<le> 1"
    by (simp add: ticking_def split: worker_at.split)
  ultimately show ?thesis
    by (simp add: eq tickFence_def s1_def)
qed

lemma worker_progress:
  assumes r: "runs_for (ev_job e) s" and d: "due_behind e n s"
  shows "count_list (ticked s) (ev_job e) < count_list (ticked (worker s)) (ev_job e)
    \<or> count_list (ticked s) (ev_job e) \<le> count_list (ticked (worker s)) (ev_job e)
      \<and> (\<exists>m. due_behind e m (worker s) \<and> 2 * m + ticking (worker s) < 2 * n + ticking s)"
proof -
  obtain pre post where p: "wakeUpTime e \<le> clock s" "pendingEvents s = pre @ e # post" "length pre + overtaking e s \<le> n"
    using d by (auto simp: due_behind_def)
  have top: "due_behind e n t \<and> ticking t = 0"
    if "t = loop_top u" "clock u = clock s" "pendingEvents u = pendingEvents s" "adding u = adding s" for t u
    using that d p by (simp add: ticking_def due_behind_frame [of "loop_top u" s])
  show ?thesis
  proof (cases "worker_at s")
    case Returned
    then show ?thesis using r by (auto simp: runs_for_def tt_ok_def)
  next
    case WaitEvent
    then have "worker s = loop_top s" "ticking s = 1"
      using r by (simp_all add: worker_def worker_signalled_def runs_for_def ticking_def)
    then show ?thesis using top [of "worker s" s] by auto
  next
    case (Ticking e')
    then have "worker s = loop_top (if isTick e' then s else tickFence (ev_job e') s)" "ticking s = 1"
      by (simp_all add: worker_def worker_back_def ticking_def)
    then show ?thesis
      using top [of "worker s" "if isTick e' then s else tickFence (ev_job e') s"] by (auto simp: tickFence_def)
  next
    case WaitTime
    then have w: "worker s = worker_awake s" "ticking s = 0"
      by (simp_all add: worker_def ticking_def)
    show ?thesis
    proof (cases pre)
      case Nil
      then show ?thesis using awake_front [OF r] p w by simp
    next
      case (Cons x pre')
      note b = awake_behind [of s x pre' e post "n - 1"]
      have "due_behind e (n - 1) (worker s)" "ticking (worker s) \<le> 1"
        "ticked (worker s) = ticked s \<or> ticked (worker s) = ev_job x # ticked s"
        using b r p Cons w by (simp_all add: runs_for_def)
      moreover have "2 * (n - 1) + 1 < 2 * n"
        using p(3) Cons by simp
      ultimately show ?thesis
        using w(2) by (intro disjI2 conjI exI [of _ "n - 1"]) auto
    qed
  qed
qed

lemma step_ticked: "count_list (ticked s) j \<le> count_list (ticked (tt_step l s)) j"
  by (cases l) (auto simp: addTick_def addWait_def stop_def signal_def worker_def worker_awake_def worker_back_def
      tickFence_def add_created_def worker_signalled_def Let_def split: worker_at.splits list.splits)

lemma run_ticked: "tt_run s ls s' \<Longrightarrow> count_list (ticked s) j \<le> count_list (ticked s') j"
  by (induction rule: tt_run.induct) (auto intro: order_trans step_ticked)

lemma due_job_run:
  assumes "tt_run s ls s'" and "runs_for (ev_job e) s" and "due_behind e n s" and "\<forall>l \<in> set ls. keeps_job (ev_job e) l"
    and "2 * n + ticking s < count_list ls Worker"
  shows "count_list (ticked s) (ev_job e) < count_list (ticked s') (ev_job e)"
  using assms
proof (induction arbitrary: n rule: tt_run.induct)
  case (tt_next l s ls s')
  show ?case
  proof (cases "l = Worker")
    case False
    note k = step_keeps [OF tt_next.prems(1) tt_next.hyps(1) _ False tt_next.prems(2)]
    have "keeps_job (ev_job e) l"
      using tt_next.prems(3) by simp
    note k = k [OF this]
    have "count_list (ticked (tt_step l s)) (ev_job e) < count_list (ticked s') (ev_job e)"
      using tt_next.prems False k by (intro tt_next.IH [of n]) (auto simp: ticking_def)
    then show ?thesis using k(3) by simp
  next
    case True
    note w = worker_runs_for(1) [OF tt_next.prems(1)]
    consider "count_list (ticked s) (ev_job e) < count_list (ticked (worker s)) (ev_job e)"
      | m where "due_behind e m (worker s)" "2 * m + ticking (worker s) < 2 * n + ticking s"
          "count_list (ticked s) (ev_job e) \<le> count_list (ticked (worker s)) (ev_job e)"
      using worker_progress [OF tt_next.prems(1,2)] by blast
    then show ?thesis
    proof cases
      case 1
      then show ?thesis using run_ticked [OF tt_next.hyps(2), of "ev_job e"] True by simp
    next
      case 2
      have "count_list (ticked (worker s)) (ev_job e) < count_list (ticked s') (ev_job e)"
        using tt_next.prems 2 w True tt_next.IH [of m] by simp
      then show ?thesis using 2(3) by simp
    qed
  qed
qed simp

text \<open>C18: Liveness of the timer thread. In any run of the program from a new timer thread, in which threads create events
  (reading the clock) and insert them later under the mutex, consider a moment at which the event of a job is due and pending
  behind \<open>n\<close> others, while \<open>k\<close> threads have created an event with an earlier time and not yet inserted
  it; the thread is not stopped and the job is not to be stopped. However the run goes on, with jobs added and removed by any
  thread and the clock advancing (not backwards, and below its end), as long as neither this job is removed or told to stop nor
  the thread stopped, the worker executes the job within \<open>2 * (n + k) + 2\<close> of its steps, each from one release of the
  mutex to the next: only those \<open>k\<close> events can overtake it, not events that are created later nor periodic ones that
  are enqueued again.\<close>

theorem due_job_executed:
  assumes "now \<le> CLOCK_END" and "tt_run (timer_thread_new now) before s"
    and "pendingEvents s = pre @ e # post" and "wakeUpTime e \<le> clock s" and "\<not> stopped s" and "\<not> stopMe s (ev_job e)"
    and "tt_run s ls s'" and "\<forall>l \<in> set ls. keeps_job (ev_job e) l"
    and "2 * (length pre + overtaking e s) + 2 \<le> count_list ls Worker"
  shows "count_list (ticked s) (ev_job e) < count_list (ticked s') (ev_job e)"
proof -
  have "runs_for (ev_job e) s"
    using assms tt_ok_run [OF assms(2) tt_ok_new [OF assms(1)]] by (simp add: runs_for_def)
  moreover have "due_behind e (length pre + overtaking e s) s"
    using assms by (auto simp: due_behind_def)
  moreover have "ticking s \<le> 1"
    by (simp add: ticking_def split: worker_at.split)
  ultimately show ?thesis
    using assms by (intro due_job_run [of s ls s' e "length pre + overtaking e s"]) auto
qed

text \<open>A periodic job that was added first does not keep a second one from running; nor does a third one whose event was created before
  and is inserted before the second is executed.\<close>

definition ev :: "u64 \<Rightarrow> nat \<Rightarrow> bool \<Rightarrow> nat timing_event" where
  "ev t j b = timing_event_new t j b 0 0"

definition sample_labels :: "nat tt_label list" where
  "sample_labels = [AddWait 0 9, Clock 1, AddTick 0 7, AddWait 0 8, Insert (ev 6 7 True), Insert (ev 6 8 False)]"

definition sample_rest :: "nat tt_label list" where
  "sample_rest = [Worker, Insert (ev 5 9 False), Worker, Worker, Worker, Worker, Worker]"

lemma tt_run_iff: "tt_run s [] s' \<longleftrightarrow> s' = s" "tt_run s (l # ls) s' \<longleftrightarrow> tt_enabled l s \<and> tt_run (tt_step l s) ls s'"
  by (auto intro: tt_run.intros elim: tt_run_NilE tt_run_ConsE)

theorem due_job_executed_witness:
  "\<exists>s s'. tt_run (timer_thread_new 5) sample_labels s \<and> tt_run s sample_rest s' \<and> 8 \<in> set (ticked s')"
proof -
  define s where "s = fold tt_step sample_labels (timer_thread_new 5)"
  define s' where "s' = fold tt_step sample_rest s"
  have s: "s = \<lparr>clock = 6, pendingEvents = [ev 6 7 True, ev 6 8 False], adding = [ev 5 9 False], stopped = False,
      stopMe = (\<lambda>_. False), worker_at = WaitEvent, newEvent = 1, ticked = [], fenced = []\<rparr>"
    by (simp add: s_def sample_labels_def addTick_def addWait_def add_created_def insertNewEvent_def signal_def ev_def timing_event_new_def
        CondTime_def timer_thread_new_def)
  have r: "tt_run (timer_thread_new 5) sample_labels s"
    by (simp add: s_def sample_labels_def tt_run_iff addTick_def addWait_def add_created_def insertNewEvent_def signal_def ev_def
        timing_event_new_def CondTime_def timer_thread_new_def CLOCK_END_def)
  have r': "tt_run s sample_rest s'"
    by (simp add: s'_def sample_rest_def tt_run_iff s worker_def worker_signalled_def loop_top_def)
  have p: "pendingEvents s = [ev 6 7 True] @ ev 6 8 False # []" "wakeUpTime (ev 6 8 False) \<le> clock s" "\<not> stopped s"
    "\<not> stopMe s (ev_job (ev 6 8 False))" "ev_job (ev 6 8 False) = 8" "overtaking (ev 6 8 False) s = 1"
    by (simp_all add: s ev_def timing_event_new_def CondTime_def overtaking_def)
  have "count_list (ticked s) (ev_job (ev 6 8 False)) < count_list (ticked s') (ev_job (ev 6 8 False))"
    using due_job_executed [OF _ r p(1-4) r'] p(6) by (simp add: CLOCK_END_def sample_rest_def)
  then have "8 \<in> set (ticked s')"
    using p(5) by (metis count_list_0_iff not_less_zero)
  then show ?thesis using r r' by blast
qed

section \<open>Fences\<close>

text \<open>The events a job still has: pending, or executed for the last time.\<close>

definition owed :: "'j \<Rightarrow> 'j timer_thread \<Rightarrow> nat" where
  "owed j s = count_list (map ev_job (pendingEvents s)) j
     + (case worker_at s of Ticking e \<Rightarrow> (if \<not> isTick e \<and> ev_job e = j then 1 else 0) | _ \<Rightarrow> 0)"

fun added :: "'j \<Rightarrow> 'j tt_label list \<Rightarrow> nat" where
  "added j [] = 0"
| "added j (Insert e # ls) = (if ev_job e = j then 1 else 0) + added j ls"
| "added j (_ # ls) = added j ls"

lemma fenced_remove:
  "count_list (fenced (removeJob i s)) j + owed j (removeJob i s) = count_list (fenced s) j + owed j s"
proof (cases "remove_first i (pendingEvents s)")
  case (Some r)
  obtain q b where r: "r = (q, b)" by fastforce
  from Some obtain pre e post where "pendingEvents s = pre @ e # post" "ev_job e = i" "q = pre @ post"
    using remove_first_split [of i "pendingEvents s"] r by auto
  then show ?thesis
    using Some r by (simp add: removeJob_def signal_def tickFence_def owed_def)
qed (simp add: removeJob_def)

lemma fenced_worker:
  "count_list (fenced (worker s)) j + owed j (worker s) = count_list (fenced s) j + owed j s"
  by (simp add: worker_def worker_signalled_def worker_awake_def worker_back_def tickFence_def owed_def Let_def
      split: worker_at.splits list.splits)

lemma fenced_step:
  "count_list (fenced (tt_step l s)) j + owed j (tt_step l s) = count_list (fenced s) j + owed j s + added j [l]"
  using fenced_remove fenced_worker
  by (cases l) (simp_all add: addTick_def addWait_def add_created_def stop_def signal_def owed_def)

lemma fenced_run:
  "tt_run s ls s' \<Longrightarrow> count_list (fenced s') j + owed j s' = count_list (fenced s) j + owed j s + added j ls"
proof (induction rule: tt_run.induct)
  case (tt_next l s ls s')
  have "added j (l # ls) = added j [l] + added j ls"
    by (cases l) simp_all
  then show ?case
    using tt_next.IH fenced_step [of l s j] by simp
qed simp

text \<open>C19: Every job handed to the timer thread gets its \<open>tickFence\<close> exactly once per registration, which is what lets jobs
  delete themselves there: whatever the order of additions, removals, stop flags and ticks, the fences of a job,
  its pending events and its running one-shot event add up to the number of times it was added (its event was inserted); and when the
  worker has returned and the thread is deleted, the fences alone do.\<close>

theorem fenced_exactly_once:
  assumes "tt_run (timer_thread_new now) ls s"
  shows "count_list (fenced s) j + owed j s = added j ls
    \<and> (worker_at s = Returned \<longrightarrow> count_list (fenced (timer_thread_delete s)) j = added j ls)"
proof
  show c: "count_list (fenced s) j + owed j s = added j ls"
    using fenced_run [OF assms, of j] by (simp add: timer_thread_new_def owed_def)
  have "count_list (rev xs) j = count_list xs j" for xs :: "'a list"
    by (induction xs) auto
  then show "worker_at s = Returned \<longrightarrow> count_list (fenced (timer_thread_delete s)) j = added j ls"
    using c by (auto simp: timer_thread_delete_def stop_def signal_def owed_def Let_def)
qed

theorem fenced_exactly_once_witness:
  "\<exists>s :: nat timer_thread. tt_run (timer_thread_new 0) [AddWait 0 7, Insert (ev 0 7 False), Worker, Worker, Worker, Stop, Worker] s
     \<and> count_list (fenced (timer_thread_delete s)) 7 = 1"
proof -
  define ls where "ls = [AddWait 0 7, Insert (ev 0 7 False), Worker, Worker, Worker, Stop, Worker]"
  define s where "s = fold tt_step ls (timer_thread_new 0 :: nat timer_thread)"
  have r: "tt_run (timer_thread_new 0) ls s"
    by (simp add: s_def ls_def tt_run_iff addWait_def timer_thread_new_def ev_def timing_event_new_def)
  have "worker_at s = Returned"
    by (simp add: s_def ls_def worker_def worker_signalled_def worker_awake_def worker_back_def loop_top_def addWait_def
        add_created_def ev_def insertNewEvent_def timing_event_new_def CondTime_def
        timer_thread_new_def isInTheFuture_def tickFence_def stop_def signal_def Let_def)
  then show ?thesis
    using r fenced_exactly_once [OF r, of 7] by (auto simp: ls_def ev_def timing_event_new_def)
qed

section \<open>A wait that does not wait\<close>

text \<open>
  The constructor of \<open>CondTime\<close> forgets its argument: a job added with a delay is due at once.
\<close>

lemma wait_ignores_delay:
  "wakeUpTime (timing_event_new now j False t wait_time) = now"
  by (simp add: timing_event_new_def CondTime_def)

end
