(* ===== verification/LSTimers.thy ===== *)
theory LSTimers
  imports TimeSpec "HOL-Library.While_Combinator"
begin

text \<open>
  The timers of a program that runs in a single thread: the class \<open>LSTimers\<close> of \<open>timer.h\<close> and \<open>timer.cpp\<close>, and
  the functions of \<open>SystemState\<close> in \<open>swf.cpp\<close> that use it.

  The multiset of timers, ordered by deadline, is the list of its elements in order; a timer is inserted behind
  those with the same deadline. Jobs are pointers of a type \<open>'j\<close>, ordered by their address. What they do is a parameter:
  executing a job changes the rest of the program, of type \<open>'w\<close>, and adds and removes timers. The field
  \<open>executed\<close> records the timers whose job has been executed.
\<close>

section \<open>Timers\<close>

datatype timer_type = WaitTimer | TickTimer | FrameTimer

record 'j lstimer =
  t_type :: timer_type
  startTime :: timespec
  fakeStartTime :: timespec
  timeout :: timespec
  t_job :: 'j

definition deadline :: "'j lstimer \<Rightarrow> timespec" where "deadline t = startTime t + timeout t"

definition fakeDeadline :: "'j lstimer \<Rightarrow> timespec" where "fakeDeadline t = fakeStartTime t + timeout t"

definition isFrame :: "'j lstimer \<Rightarrow> bool" where "isFrame t \<longleftrightarrow> t_type t = FrameTimer"

definition isWait :: "'j lstimer \<Rightarrow> bool" where "isWait t \<longleftrightarrow> t_type t = WaitTimer"

record ('j, 'w) ls_timers =
  timers :: "'j lstimer list"
  currentTime :: timespec
  fakeCurrentTime :: timespec
  curFrameTime :: timespec
  nextFrameTime :: timespec
  world :: 'w
  executed :: "'j lstimer list"

datatype 'j timer_call = CallAddTick u32 'j | CallAddFrameTick 'j | CallAddWait u32 'j | CallRemoveJob 'j

text \<open>
  The rest of the program: the code of the jobs, the duration of a frame in nanoseconds (\<open>1.0f / getFrameRate()\<close>
  times \<open>nsPerSec\<close>), and what a peek at an empty multiset reads, which is undefined behaviour in C++ but decides only
  on a notification.
\<close>

record ('j, 'w) jobs =
  job_tick :: "'j \<Rightarrow> 'w \<Rightarrow> 'w \<times> 'j timer_call list"
  job_tickFence :: "'j \<Rightarrow> 'w \<Rightarrow> 'w"
  job_stopMe :: "'w \<Rightarrow> 'j \<Rightarrow> bool"
  frame_ns :: "'w \<Rightarrow> u64"
  notifyTimer :: "'w \<Rightarrow> 'w"
  past_end :: "'j lstimer"

definition maxTicks :: nat where "maxTicks = 10"

definition maxFrames :: nat where "maxFrames = 5"

section \<open>Operations\<close>

definition getFrameRate :: "('j, 'w) jobs \<Rightarrow> ('j, 'w) ls_timers \<Rightarrow> timespec" where
  "getFrameRate P s = time_fromNs (frame_ns P (world s))"

fun multiset_insert :: "'j lstimer \<Rightarrow> 'j lstimer list \<Rightarrow> 'j lstimer list" where
  "multiset_insert t [] = [t]"
| "multiset_insert t (x # xs) = (if deadline t < deadline x then t # x # xs else x # multiset_insert t xs)"

definition peekTimerNoLock :: "('j, 'w) jobs \<Rightarrow> ('j, 'w) ls_timers \<Rightarrow> 'j lstimer" where
  "peekTimerNoLock P s = (case timers s of [] \<Rightarrow> past_end P | t # _ \<Rightarrow> t)"

definition do_notifyTimer :: "('j, 'w) jobs \<Rightarrow> ('j, 'w) ls_timers \<Rightarrow> ('j, 'w) ls_timers" where
  "do_notifyTimer P s = s\<lparr>world := notifyTimer P (world s)\<rparr>"

definition do_tickFence :: "('j, 'w) jobs \<Rightarrow> 'j \<Rightarrow> ('j, 'w) ls_timers \<Rightarrow> ('j, 'w) ls_timers" where
  "do_tickFence P j s = s\<lparr>world := job_tickFence P j (world s)\<rparr>"

definition pushTimerNoLock :: "('j, 'w) jobs \<Rightarrow> 'j lstimer \<Rightarrow> ('j, 'w) ls_timers \<Rightarrow> ('j, 'w) ls_timers" where
  "pushTimerNoLock P t s =
     (let notify = deadline (peekTimerNoLock P s) > deadline t; s = s\<lparr>timers := multiset_insert t (timers s)\<rparr>
      in if notify then do_notifyTimer P s else s)"

definition popTimerNoLock :: "('j, 'w) jobs \<Rightarrow> ('j, 'w) ls_timers \<Rightarrow> 'j lstimer \<times> ('j, 'w) ls_timers" where
  "popTimerNoLock P s = (peekTimerNoLock P s, s\<lparr>timers := tl (timers s)\<rparr>)"

definition addJob :: "('j, 'w) jobs \<Rightarrow> timespec \<Rightarrow> timer_type \<Rightarrow> 'j \<Rightarrow> ('j, 'w) ls_timers \<Rightarrow> ('j, 'w) ls_timers" where
  "addJob P time type job s =
     pushTimerNoLock P \<lparr>t_type = type, startTime = (if type = FrameTimer then curFrameTime s else currentTime s),
       fakeStartTime = fakeCurrentTime s, timeout = time, t_job = job\<rparr> s"

text \<open>\<open>addTick\<close>, \<open>addFrameTick\<close> and \<open>addWait\<close> as \<open>SystemState\<close> calls them, with milliseconds.\<close>

definition lst_addTick :: "('j, 'w) jobs \<Rightarrow> u32 \<Rightarrow> 'j \<Rightarrow> ('j, 'w) ls_timers \<Rightarrow> ('j, 'w) ls_timers" where
  "lst_addTick P tick_time job s = addJob P (time_fromMs (ucast tick_time)) TickTimer job s"

definition lst_addFrameTick :: "('j, 'w) jobs \<Rightarrow> 'j \<Rightarrow> ('j, 'w) ls_timers \<Rightarrow> ('j, 'w) ls_timers" where
  "lst_addFrameTick P job s = addJob P (getFrameRate P s) FrameTimer job s"

definition lst_addWait :: "('j, 'w) jobs \<Rightarrow> u32 \<Rightarrow> 'j \<Rightarrow> ('j, 'w) ls_timers \<Rightarrow> ('j, 'w) ls_timers" where
  "lst_addWait P wait_time job s = addJob P (time_fromMs (ucast wait_time)) WaitTimer job s"

fun erase_job :: "'j \<Rightarrow> 'j lstimer list \<Rightarrow> 'j lstimer list" where
  "erase_job job [] = []"
| "erase_job job (x # xs) = (if t_job x = job then xs else x # erase_job job xs)"

definition removeJobNoLock :: "('j, 'w) jobs \<Rightarrow> 'j \<Rightarrow> ('j, 'w) ls_timers \<Rightarrow> ('j, 'w) ls_timers" where
  "removeJobNoLock P job s =
     (if job \<notin> t_job ` set (timers s) then s
      else let first = t_job (hd (timers s)) = job; s = s\<lparr>timers := erase_job job (timers s)\<rparr>
           in do_tickFence P job (if first then do_notifyTimer P s else s))"

definition cleanup :: "('j::linorder, 'w) jobs \<Rightarrow> ('j, 'w) ls_timers \<Rightarrow> ('j, 'w) ls_timers" where
  "cleanup P s = (fold (do_tickFence P) (sort (remdups (map t_job (timers s)))) s)\<lparr>timers := []\<rparr>"

fun do_call :: "('j, 'w) jobs \<Rightarrow> 'j timer_call \<Rightarrow> ('j, 'w) ls_timers \<Rightarrow> ('j, 'w) ls_timers" where
  "do_call P (CallAddTick t j) s = lst_addTick P t j s"
| "do_call P (CallAddFrameTick j) s = lst_addFrameTick P j s"
| "do_call P (CallAddWait t j) s = lst_addWait P t j s"
| "do_call P (CallRemoveJob j) s = removeJobNoLock P j s"

definition run_job :: "('j, 'w) jobs \<Rightarrow> 'j lstimer \<Rightarrow> ('j, 'w) ls_timers \<Rightarrow> ('j, 'w) ls_timers" where
  "run_job P t s =
     (let (w, calls) = job_tick P (t_job t) (world s)
      in fold (do_call P) calls (s\<lparr>world := w, executed := executed s @ [t]\<rparr>))"

section \<open>updateTimers\<close>

definition resetTimer :: "('j, 'w) jobs \<Rightarrow> 'j lstimer \<Rightarrow> ('j, 'w) ls_timers \<Rightarrow> ('j, 'w) ls_timers" where
  "resetTimer P t s =
     pushTimerNoLock P (t\<lparr>startTime := startTime t + timeout t, fakeStartTime := fakeStartTime t + timeout t\<rparr>) s"

definition getFrameJobs :: "('j, 'w) ls_timers \<Rightarrow> nat" where
  "getFrameJobs s = length (filter isFrame (timers s))"

record ('j, 'w) update_state =
  tickCount :: nat
  frameTickCount :: nat
  looping :: bool
  st :: "('j, 'w) ls_timers"

definition some_due :: "('j, 'w) update_state \<Rightarrow> bool" where
  "some_due l \<longleftrightarrow> looping l \<and> timers (st l) \<noteq> [] \<and> deadline (hd (timers (st l))) < currentTime (st l)"

text \<open>The times that a timer about to run advances.\<close>

definition advance_frames :: "('j, 'w) jobs \<Rightarrow> ('j, 'w) ls_timers \<Rightarrow> ('j, 'w) ls_timers" where
  "advance_frames P s =
     (let t = peekTimerNoLock P s;
          s = (if fakeDeadline t > fakeCurrentTime s then s\<lparr>fakeCurrentTime := fakeDeadline t\<rparr> else s)
      in if nextFrameTime s < currentTime s
         then s\<lparr>curFrameTime := nextFrameTime s, nextFrameTime := nextFrameTime s + getFrameRate P s\<rparr> else s)"

text \<open>Executes the first timer.\<close>

definition execute_timer :: "('j, 'w) jobs \<Rightarrow> ('j, 'w) ls_timers \<Rightarrow> ('j, 'w) ls_timers" where
  "execute_timer P s =
     (let (t, s) = popTimerNoLock P s
      in if job_stopMe P (world s) (t_job t) then do_tickFence P (t_job t) s
         else let s = (if isWait t then s else resetTimer P t s); s = run_job P t s
           in if isWait t then do_tickFence P (t_job t) s else s)"

definition update_body :: "('j, 'w) jobs \<Rightarrow> bool \<Rightarrow> nat \<Rightarrow> ('j, 'w) update_state \<Rightarrow> ('j, 'w) update_state" where
  "update_body P allowFrameTimers maxFrameTicks l =
     (let s = st l; frame = isFrame (peekTimerNoLock P s)
      in if \<not> allowFrameTimers \<and> frame
         then (let (t, s) = popTimerNoLock P s in l\<lparr>st := resetTimer P t s\<rparr>)
         else let s = advance_frames P s;
                  ticks = tickCount l + (if frame then 0 else 1); frames = frameTickCount l + (if frame then 1 else 0)
           in if \<not> frame \<and> ticks > maxTicks
              then l\<lparr>tickCount := ticks, looping := False, st := s\<lparr>currentTime := currentTime s - time_fromMs 100\<rparr>\<rparr>
              else if frame \<and> frames > maxFrameTicks
              then l\<lparr>frameTickCount := frames, looping := False, st := s\<lparr>currentTime := currentTime s - time_fromMs 1\<rparr>\<rparr>
              else l\<lparr>tickCount := ticks, frameTickCount := frames, st := execute_timer P s\<rparr>)"

definition update_loop :: "('j, 'w) jobs \<Rightarrow> bool \<Rightarrow> ('j, 'w) ls_timers \<Rightarrow> ('j, 'w) update_state option" where
  "update_loop P allowFrameTimers s =
     while_option some_due (update_body P allowFrameTimers (maxFrames * getFrameJobs s))
       \<lparr>tickCount = 0, frameTickCount = 0, looping = True, st = s\<rparr>"

text \<open>\<open>None\<close> is a call that never returns.\<close>

definition updateTimers :: "('j, 'w) jobs \<Rightarrow> timespec \<Rightarrow> bool \<Rightarrow> ('j, 'w) ls_timers \<Rightarrow> (timespec \<times> ('j, 'w) ls_timers) option" where
  "updateTimers P delta allowFrameTimers s =
     (let s = s\<lparr>currentTime := currentTime s + delta\<rparr>
      in if timers s = [] then Some (0, s)
         else map_option (\<lambda>l. let s = st l in
                (if timers s = [] then 0 else time_saturatingSub (deadline (peekTimerNoLock P s)) (currentTime s), s))
              (update_loop P allowFrameTimers s))"


section \<open>The timers in order\<close>

definition by_deadline :: "'j lstimer list \<Rightarrow> bool" where
  "by_deadline = sorted_wrt (\<lambda>a b. deadline a \<le> deadline b)"

text \<open>No duration exceeds 64 bits of nanoseconds, and no point in time comes as close to the end of the seconds.\<close>

definition time_ok :: "timespec \<Rightarrow> bool" where
  "time_ok t \<longleftrightarrow> normal t \<and> ns t + 18446744073709551616 < NS_LIMIT"

definition duration_ok :: "timespec \<Rightarrow> bool" where
  "duration_ok t \<longleftrightarrow> normal t \<and> ns t < 18446744073709551616"

definition timer_ok :: "'j lstimer \<Rightarrow> bool" where
  "timer_ok t \<longleftrightarrow> time_ok (startTime t) \<and> duration_ok (timeout t) \<and> (isFrame t \<longrightarrow> 0 < ns (timeout t))"

definition lst_ok :: "('j, 'w) ls_timers \<Rightarrow> bool" where
  "lst_ok s \<longleftrightarrow> (\<forall>t \<in> set (timers s). timer_ok t) \<and> by_deadline (timers s)
     \<and> time_ok (currentTime s) \<and> time_ok (curFrameTime s) \<and> normal (nextFrameTime s)"

definition jobs_ok :: "('j, 'w) jobs \<Rightarrow> bool" where
  "jobs_ok P \<longleftrightarrow> (\<forall>w. 0 < frame_ns P w)"

lemma set_multiset_insert [simp]: "set (multiset_insert t ts) = insert t (set ts)"
  by (induction ts) auto

lemma by_deadline_insert: "by_deadline ts \<Longrightarrow> by_deadline (multiset_insert t ts)"
  by (induction ts) (auto simp: by_deadline_def intro: order_trans less_imp_le)

lemma by_deadline_tl: "by_deadline ts \<Longrightarrow> by_deadline (tl ts)"
  by (cases ts) (simp_all add: by_deadline_def)

lemma by_deadline_hd: "by_deadline ts \<Longrightarrow> t \<in> set ts \<Longrightarrow> deadline (hd ts) \<le> deadline t"
  by (cases ts) (auto simp: by_deadline_def)

lemma set_erase_job: "set (erase_job j ts) \<subseteq> set ts"
  by (induction ts) auto

lemma by_deadline_erase: "by_deadline ts \<Longrightarrow> by_deadline (erase_job j ts)"
  using set_erase_job by (induction ts) (fastforce simp: by_deadline_def)+

lemma ns_deadline:
  assumes "timer_ok t"
  shows "ns (deadline t) = ns (startTime t) + ns (timeout t)" "normal (deadline t)"
  using assms ns_plus [of "startTime t" "timeout t"]
  by (simp_all add: timer_ok_def time_ok_def duration_ok_def deadline_def)

lemma timers_push [simp]: "timers (pushTimerNoLock P t s) = multiset_insert t (timers s)"
  by (simp add: pushTimerNoLock_def do_notifyTimer_def Let_def)

lemma push_frame [simp]:
  "currentTime (pushTimerNoLock P t s) = currentTime s" "curFrameTime (pushTimerNoLock P t s) = curFrameTime s"
  "nextFrameTime (pushTimerNoLock P t s) = nextFrameTime s" "executed (pushTimerNoLock P t s) = executed s"
  by (simp_all add: pushTimerNoLock_def do_notifyTimer_def Let_def)

lemma lst_ok_push: "lst_ok s \<Longrightarrow> timer_ok t \<Longrightarrow> lst_ok (pushTimerNoLock P t s)"
  by (simp add: lst_ok_def by_deadline_insert)

lemma duration_fromMs: "duration_ok (time_fromMs (ucast (ms :: u32)))"
proof -
  have l: "unat ms < 4294967296"
    by (rule unat_u32_less)
  then have u: "unat (ucast ms :: u64) = unat ms"
    by (simp add: unsigned_ucast_eq take_bit_nat_eq_self)
  then have "ns (time_fromMs (ucast ms)) = unat ms * 1000000"
    using l by (subst ns_fromMs) (simp_all add: u)
  then show ?thesis
    using l by (simp add: duration_ok_def time_fromMs_def)
qed

lemma duration_frame: "jobs_ok P \<Longrightarrow> duration_ok (getFrameRate P s) \<and> 0 < ns (getFrameRate P s)"
  using u64_less [of "frame_ns P (world s)"]
  by (simp add: duration_ok_def getFrameRate_def jobs_ok_def word_gt_0 unat_gt_0)

lemma lst_ok_addJob:
  assumes "lst_ok s" and "duration_ok d" and "ty = FrameTimer \<Longrightarrow> 0 < ns d"
  shows "lst_ok (addJob P d ty j s)"
  unfolding addJob_def using assms
  by (intro lst_ok_push) (auto simp: lst_ok_def timer_ok_def isFrame_def)

text \<open>What adding and removing jobs leaves alone: everything but the timers, the world and the notifications.\<close>

definition calm :: "('j, 'w) ls_timers \<Rightarrow> ('j, 'w) ls_timers \<Rightarrow> bool" where
  "calm s s' \<longleftrightarrow> currentTime s' = currentTime s \<and> executed s' = executed s
     \<and> (\<forall>t \<in> set (timers s'). t \<in> set (timers s) \<or> isFrame t \<or> currentTime s \<le> deadline t)"

lemma calm_refl [simp]: "calm s s"
  by (simp add: calm_def)

lemma calm_trans: "calm s s' \<Longrightarrow> calm s' s'' \<Longrightarrow> calm s s''"
  by (auto simp: calm_def)

lemma not_before_start:
  assumes "timer_ok t"
  shows "startTime t \<le> deadline t"
  using assms ns_deadline [OF assms] by (subst ns_le) (auto simp: timer_ok_def time_ok_def)

lemma calm_addJob:
  assumes "lst_ok s" and "duration_ok d" and "ty = FrameTimer \<Longrightarrow> 0 < ns d"
  shows "calm s (addJob P d ty j s)"
proof -
  let ?t = "\<lparr>t_type = ty, startTime = (if ty = FrameTimer then curFrameTime s else currentTime s),
       fakeStartTime = fakeCurrentTime s, timeout = d, t_job = j\<rparr>"
  have "timer_ok ?t"
    using assms by (auto simp: lst_ok_def timer_ok_def isFrame_def)
  then have "isFrame ?t \<or> currentTime s \<le> deadline ?t"
    using not_before_start [of ?t] by (auto simp: isFrame_def)
  then show ?thesis
    by (auto simp: addJob_def calm_def)
qed

lemma remove_ok: "lst_ok s \<Longrightarrow> lst_ok (removeJobNoLock P j s) \<and> calm s (removeJobNoLock P j s)"
  using set_erase_job [of j "timers s"]
  by (auto simp: removeJobNoLock_def do_tickFence_def do_notifyTimer_def Let_def lst_ok_def calm_def by_deadline_erase)

lemma call_ok:
  assumes "jobs_ok P" and "lst_ok s"
  shows "lst_ok (do_call P c s) \<and> calm s (do_call P c s)"
  using assms duration_frame [OF assms(1), of s] remove_ok [OF assms(2)]
  by (cases c) (auto simp: lst_addTick_def lst_addWait_def lst_addFrameTick_def
      intro!: lst_ok_addJob calm_addJob duration_fromMs)

lemma calls_ok:
  assumes "jobs_ok P" and "lst_ok s"
  shows "lst_ok (fold (do_call P) cs s) \<and> calm s (fold (do_call P) cs s)"
  using assms(2)
proof (induction cs arbitrary: s)
  case (Cons c cs)
  show ?case
    using Cons.IH [of "do_call P c s"] call_ok [OF assms(1) Cons.prems, of c] calm_trans by auto
qed simp

lemma run_job_ok:
  assumes "jobs_ok P" and "lst_ok s"
  shows "lst_ok (run_job P t s) \<and> calm (s\<lparr>executed := executed s @ [t]\<rparr>) (run_job P t s)"
proof -
  obtain w cs where w: "job_tick P (t_job t) (world s) = (w, cs)" by fastforce
  define s1 where "s1 = s\<lparr>world := w, executed := executed s @ [t]\<rparr>"
  have "lst_ok s1" using assms(2) by (simp add: s1_def lst_ok_def)
  note c = calls_ok [OF assms(1) this, of cs]
  have "run_job P t s = fold (do_call P) cs s1"
    by (simp add: run_job_def w s1_def)
  then show ?thesis
    using c by (simp add: calm_def s1_def)
qed

lemma reset_ok:
  assumes "lst_ok s" and "timer_ok t" and "deadline t < currentTime s"
  shows "lst_ok (resetTimer P t s)" "set (timers (resetTimer P t s)) = insert (t\<lparr>startTime := deadline t, fakeStartTime := fakeStartTime t + timeout t\<rparr>) (set (timers s))"
    "currentTime (resetTimer P t s) = currentTime s" "executed (resetTimer P t s) = executed s"
proof -
  have "ns (deadline t) < ns (currentTime s)"
    using assms ns_deadline [OF assms(2)] by (simp add: ns_less lst_ok_def time_ok_def)
  then have "timer_ok (t\<lparr>startTime := deadline t, fakeStartTime := fakeStartTime t + timeout t\<rparr>)"
    using assms ns_deadline [OF assms(2)] by (simp add: timer_ok_def lst_ok_def time_ok_def isFrame_def)
  then show "lst_ok (resetTimer P t s)" "set (timers (resetTimer P t s)) = insert (t\<lparr>startTime := deadline t, fakeStartTime := fakeStartTime t + timeout t\<rparr>) (set (timers s))"
    "currentTime (resetTimer P t s) = currentTime s" "executed (resetTimer P t s) = executed s"
    using assms(1) lst_ok_push by (simp_all add: resetTimer_def deadline_def)
qed


section \<open>The loop\<close>

lemma advance_frame [simp]:
  "timers (advance_frames P s) = timers s" "currentTime (advance_frames P s) = currentTime s"
  "executed (advance_frames P s) = executed s"
  by (simp_all add: advance_frames_def Let_def)

lemma advance_ok:
  assumes "lst_ok s"
  shows "lst_ok (advance_frames P s)"
proof -
  have "time_ok (nextFrameTime s)" if "nextFrameTime s < currentTime s"
    using that assms ns_less [of "nextFrameTime s" "currentTime s"] by (auto simp: lst_ok_def time_ok_def)
  then show ?thesis
    using assms by (simp add: advance_frames_def Let_def lst_ok_def)
qed

text \<open>One timer that is due, as \<open>timers s = t # ts\<close>.\<close>

lemma pop_ok:
  assumes "lst_ok s" and "timers s = t # ts"
  shows "popTimerNoLock P s = (t, s\<lparr>timers := ts\<rparr>)" "lst_ok (s\<lparr>timers := ts\<rparr>)" "timer_ok t"
    "\<forall>x \<in> set ts. deadline t \<le> deadline x"
  using assms by (auto simp: popTimerNoLock_def peekTimerNoLock_def lst_ok_def by_deadline_def)

lemma execute_ok:
  assumes P: "jobs_ok P" and ok: "lst_ok s" and t: "timers s = t # ts" and due: "deadline t < currentTime s"
  shows "lst_ok (execute_timer P s) \<and> currentTime (execute_timer P s) = currentTime s
    \<and> executed (execute_timer P s) = executed s @ (if job_stopMe P (world s) (t_job t) then [] else [t])
    \<and> (\<forall>x \<in> set (timers (execute_timer P s)). isFrame x \<or> deadline t \<le> deadline x)"
proof (cases "job_stopMe P (world s) (t_job t)")
  case True
  then show ?thesis
    using pop_ok [OF ok t] by (auto simp: execute_timer_def do_tickFence_def lst_ok_def)
next
  case False
  note p = pop_ok [OF ok t]
  define s1 where "s1 = (if isWait t then s\<lparr>timers := ts\<rparr> else resetTimer P t (s\<lparr>timers := ts\<rparr>))"
  define t' where "t' = t\<lparr>startTime := deadline t, fakeStartTime := fakeStartTime t + timeout t\<rparr>"
  note r = reset_ok [OF p(2) p(3), of P]
  have s1: "lst_ok s1" "currentTime s1 = currentTime s" "executed s1 = executed s" "set (timers s1) \<subseteq> insert t' (set ts)"
    using p r due by (auto simp: s1_def t'_def)
  have d: "deadline t \<le> deadline t'" if "t' \<in> set (timers s1)"
    using that s1(1) not_before_start [of t'] by (auto simp: lst_ok_def t'_def)
  have rest: "\<forall>x \<in> set (timers s1). deadline t \<le> deadline x"
    using d s1(4) p(4) by auto
  have e: "execute_timer P s = (if isWait t then do_tickFence P (t_job t) (run_job P t s1) else run_job P t s1)"
    using False p(1) by (simp add: execute_timer_def s1_def)
  have j: "lst_ok (run_job P t s1)" "currentTime (run_job P t s1) = currentTime s" "executed (run_job P t s1) = executed s @ [t]"
    "\<forall>x \<in> set (timers (run_job P t s1)). isFrame x \<or> deadline t \<le> deadline x"
    using run_job_ok [OF P s1(1), of t] s1 rest due by (auto simp: calm_def intro: order_trans less_imp_le)
  then show ?thesis
    using False e by (auto simp: do_tickFence_def lst_ok_def)
qed

text \<open>
  What holds in every round, for a call that starts with the time \<open>T\<close>: the timers that ran, \<open>news\<close>, were due;
  and if frame timers are not allowed, they executed in the order of their deadlines.
\<close>

definition round_ok :: "bool \<Rightarrow> nat \<Rightarrow> timespec \<Rightarrow> 'j lstimer list \<Rightarrow> ('j, 'w) update_state \<Rightarrow> 'j lstimer list \<Rightarrow> bool" where
  "round_ok allow maxF T before l news \<longleftrightarrow>
     executed (st l) = before @ news \<and> (\<forall>t \<in> set (timers (st l)). timer_ok t) \<and> by_deadline (timers (st l))
     \<and> time_ok (curFrameTime (st l)) \<and> normal (nextFrameTime (st l))
     \<and> currentTime (st l) \<in> (if looping l then {T} else {T - time_fromMs 100, T - time_fromMs 1})
     \<and> (\<forall>t \<in> set news. timer_ok t \<and> deadline t < T)
     \<and> length (filter (\<lambda>t. \<not> isFrame t) news) \<le> min (tickCount l) maxTicks
     \<and> length (filter isFrame news) \<le> min (frameTickCount l) maxF
     \<and> (looping l \<longrightarrow> tickCount l \<le> maxTicks \<and> frameTickCount l \<le> maxF)
     \<and> (\<not> allow \<longrightarrow> by_deadline news \<and> (\<forall>t \<in> set news. \<not> isFrame t)
          \<and> (\<forall>t \<in> set news. \<forall>x \<in> set (timers (st l)). isFrame x \<or> deadline t \<le> deadline x))"

lemma update_body_run:
  assumes "timers (st l) = t # ts" and "allow \<or> \<not> isFrame t"
    and "n = tickCount l + (if isFrame t then 0 else 1)" and "f = frameTickCount l + (if isFrame t then 1 else 0)"
    and "s = advance_frames P (st l)"
  shows "update_body P allow maxF l =
        (if \<not> isFrame t \<and> n > maxTicks then l\<lparr>tickCount := n, looping := False, st := s\<lparr>currentTime := currentTime (st l) - time_fromMs 100\<rparr>\<rparr>
         else if isFrame t \<and> f > maxF then l\<lparr>frameTickCount := f, looping := False, st := s\<lparr>currentTime := currentTime (st l) - time_fromMs 1\<rparr>\<rparr>
         else l\<lparr>tickCount := n, frameTickCount := f, st := execute_timer P s\<rparr>)"
  using assms by (auto simp: update_body_def peekTimerNoLock_def Let_def)

lemma round_ok_step:
  assumes P: "jobs_ok P" and T: "time_ok T" and l: "round_ok allow maxF T before l news" and due: "some_due l"
  shows "\<exists>news'. round_ok allow maxF T before (update_body P allow maxF l) news'"
proof -
  obtain t ts where t: "timers (st l) = t # ts"
    using due by (cases "timers (st l)") (auto simp: some_due_def)
  have lo: "looping l" and d: "deadline t < T" and cur: "currentTime (st l) = T"
    using due l t by (auto simp: some_due_def round_ok_def)
  have ok: "lst_ok (st l)"
    using l T lo cur by (simp add: round_ok_def lst_ok_def)
  note p = pop_ok [OF ok t]
  show ?thesis
  proof (cases "\<not> allow \<and> isFrame t")
    case True
    have "timer_ok t" "deadline t < currentTime ((st l)\<lparr>timers := ts\<rparr>)"
      using p(3) d cur by simp_all
    note r = reset_ok [OF p(2) this, of P]
    have "update_body P allow maxF l = l\<lparr>st := resetTimer P t ((st l)\<lparr>timers := ts\<rparr>)\<rparr>"
      using True p(1) t by (simp add: update_body_def peekTimerNoLock_def Let_def)
    then have "round_ok allow maxF T before (update_body P allow maxF l) news"
      using l r t True cur by (auto simp: round_ok_def lst_ok_def isFrame_def)
    then show ?thesis by blast
  next
    case False
    define s where "s = advance_frames P (st l)"
    have s: "lst_ok s" "timers s = t # ts" "currentTime s = T" "executed s = before @ news"
      using advance_ok [OF ok] t cur l by (simp_all add: s_def round_ok_def)
    define n f where "n = tickCount l + (if isFrame t then 0 else 1)" and "f = frameTickCount l + (if isFrame t then 1 else 0)"
    have "allow \<or> \<not> isFrame t" using False by blast
    note b = update_body_run [OF t this n_def f_def s_def, unfolded cur]
    have u: "(\<forall>t \<in> set (timers s). timer_ok t) \<and> by_deadline (timers s) \<and> time_ok (curFrameTime s) \<and> normal (nextFrameTime s)"
      using s(1) by (simp add: lst_ok_def)
    have old: "executed s = before @ news \<and> (\<forall>t \<in> set news. timer_ok t \<and> deadline t < T)
      \<and> length (filter (\<lambda>t. \<not> isFrame t) news) \<le> tickCount l \<and> length (filter isFrame news) \<le> frameTickCount l
      \<and> tickCount l \<le> maxTicks \<and> frameTickCount l \<le> maxF
      \<and> (\<not> allow \<longrightarrow> by_deadline news \<and> (\<forall>t \<in> set news. \<not> isFrame t)
          \<and> (\<forall>t \<in> set news. \<forall>x \<in> set (timers s). isFrame x \<or> deadline t \<le> deadline x))"
      using l lo s(2,4) t by (simp add: round_ok_def)
    have slow: "round_ok allow maxF T before (update_body P allow maxF l) news" if c: "\<not> isFrame t" "n > maxTicks"
    proof -
      have "update_body P allow maxF l = l\<lparr>tickCount := n, looping := False, st := s\<lparr>currentTime := T - time_fromMs 100\<rparr>\<rparr>"
        using b c by simp
      then show ?thesis using u old c by (simp add: round_ok_def n_def)
    qed
    have slow_frame: "round_ok allow maxF T before (update_body P allow maxF l) news" if c: "isFrame t" "f > maxF"
    proof -
      have "update_body P allow maxF l = l\<lparr>frameTickCount := f, looping := False, st := s\<lparr>currentTime := T - time_fromMs 1\<rparr>\<rparr>"
        using b c by simp
      then show ?thesis using u old c by (simp add: round_ok_def f_def)
    qed
    show ?thesis
    proof (cases "\<not> isFrame t \<and> n > maxTicks \<or> isFrame t \<and> f > maxF")
      case True
      then show ?thesis using slow slow_frame by blast
    next
      case go: False
      have "deadline t < currentTime s" using d s(3) by simp
      note e = execute_ok [OF P s(1,2) this]
      have k: "\<forall>t' \<in> set news \<union> {t}. \<forall>x \<in> set (timers (execute_timer P s)). isFrame x \<or> deadline t' \<le> deadline x" if "\<not> allow"
        using that old s(2) False e by (auto intro: order_trans)
      show ?thesis
      proof (cases "job_stopMe P (world s) (t_job t)")
        case True
        then have "round_ok allow maxF T before (l\<lparr>tickCount := n, frameTickCount := f, st := execute_timer P s\<rparr>) news"
          using e old go lo s(3) k True by (auto simp: round_ok_def lst_ok_def n_def f_def)
        then show ?thesis using go b by auto
      next
        case runs: False
        have o: "by_deadline (news @ [t])" if "\<not> allow"
          using that old s(2) False by (auto simp: by_deadline_def sorted_wrt_append)
        have "round_ok allow maxF T before (l\<lparr>tickCount := n, frameTickCount := f, st := execute_timer P s\<rparr>) (news @ [t])"
          using e old go lo s(3) runs o k False p(3) d by (auto simp: round_ok_def lst_ok_def n_def f_def)
        then show ?thesis using go b by auto
      qed
    qed
  qed
qed


section \<open>The loop ends\<close>

text \<open>How far the frame timers lie behind the current time.\<close>

definition frame_debt :: "timespec \<Rightarrow> 'j lstimer list \<Rightarrow> nat" where
  "frame_debt T ts = sum_list (map (\<lambda>t. if isFrame t then ns T - ns (deadline t) else 0) ts)"

lemma frame_debt_simps [simp]:
  "frame_debt T (t # ts) = (if isFrame t then ns T - ns (deadline t) else 0) + frame_debt T ts"
  by (simp add: frame_debt_def)

lemma frame_debt_insert: "frame_debt T (multiset_insert t ts) = frame_debt T (t # ts)"
  by (induction ts) auto

definition rounds :: "nat \<Rightarrow> timespec \<Rightarrow> (('j, 'w) update_state \<times> ('j, 'w) update_state) set" where
  "rounds maxF T = measures [\<lambda>l. if looping l then 1 else 0,
     \<lambda>l. (maxTicks - tickCount l) + (maxF - frameTickCount l), \<lambda>l. frame_debt T (timers (st l))]"

lemma reset_debt:
  assumes "timer_ok t" and "isFrame t" and "ns (deadline t) < ns T" and "time_ok T"
  shows "ns T - ns (deadline (t\<lparr>startTime := deadline t, fakeStartTime := x\<rparr>)) < ns T - ns (deadline t)"
proof -
  have "timer_ok (t\<lparr>startTime := deadline t, fakeStartTime := x\<rparr>)"
    using assms ns_deadline [OF assms(1)] by (auto simp: timer_ok_def time_ok_def isFrame_def)
  from ns_deadline(1) [OF this] have "ns (deadline t) < ns (deadline (t\<lparr>startTime := deadline t, fakeStartTime := x\<rparr>))"
    using assms by (simp add: timer_ok_def)
  then show ?thesis using assms by linarith
qed

lemma round_smaller:
  assumes P: "jobs_ok P" and T: "time_ok T" and l: "round_ok allow maxF T before l news" and due: "some_due l"
  shows "(update_body P allow maxF l, l) \<in> rounds maxF T"
proof -
  obtain t ts where t: "timers (st l) = t # ts"
    using due by (cases "timers (st l)") (auto simp: some_due_def)
  have lo: "looping l" and d: "deadline t < T" and cur: "currentTime (st l) = T"
    using due l t by (auto simp: some_due_def round_ok_def)
  have c: "tickCount l \<le> maxTicks" "frameTickCount l \<le> maxF" "timer_ok t"
    using l lo t by (auto simp: round_ok_def)
  show ?thesis
  proof (cases "\<not> allow \<and> isFrame t")
    case True
    have u: "update_body P allow maxF l = l\<lparr>st := resetTimer P t ((st l)\<lparr>timers := ts\<rparr>)\<rparr>"
      using True t by (simp add: update_body_def popTimerNoLock_def peekTimerNoLock_def Let_def)
    have "ns (deadline t) < ns T"
      using d c(3) T ns_deadline(2) [OF c(3)] by (simp add: ns_less time_ok_def)
    then have "frame_debt T (timers (st (update_body P allow maxF l))) < frame_debt T (timers (st l))"
      unfolding u using reset_debt [OF c(3), of T] True T
      by (simp add: t resetTimer_def frame_debt_insert deadline_def isFrame_def)
    moreover have "looping (update_body P allow maxF l) = looping l"
      "tickCount (update_body P allow maxF l) = tickCount l" "frameTickCount (update_body P allow maxF l) = frameTickCount l"
      by (simp_all add: u)
    ultimately show ?thesis
      by (simp add: rounds_def)
  next
    case False
    then show ?thesis
      using lo c update_body_run [OF t _ refl refl refl, of allow P maxF]
      by (cases "isFrame t") (simp_all add: rounds_def, linarith+)
  qed
qed


lemma update_loop_ends:
  assumes P: "jobs_ok P" and s: "lst_ok s"
  shows "\<exists>l news. update_loop P allow s = Some l \<and> \<not> some_due l
    \<and> round_ok allow (maxFrames * getFrameJobs s) (currentTime s) (executed s) l news"
proof -
  let ?T = "currentTime s" and ?m = "maxFrames * getFrameJobs s"
  let ?body = "update_body P allow ?m" and ?start = "\<lparr>tickCount = 0, frameTickCount = 0, looping = True, st = s\<rparr>"
  let ?inv = "\<lambda>l. \<exists>news. round_ok allow ?m ?T (executed s) l news"
  have T: "time_ok ?T" using s by (simp add: lst_ok_def)
  have start: "?inv ?start"
    using s by (intro exI [of _ "[]"]) (simp add: round_ok_def lst_ok_def by_deadline_def)
  have keep: "?inv (?body l)" if "?inv l \<and> some_due l" for l
    using that round_ok_step [OF P T] by blast
  have "{(l', l). (?inv l \<and> some_due l) \<and> l' = ?body l} \<subseteq> rounds ?m ?T"
    using round_smaller [OF P T] by auto
  then have "wf {(l', l). (?inv l \<and> some_due l) \<and> l' = ?body l}"
    by (rule wf_subset [rotated]) (simp add: rounds_def)
  then obtain l where l: "while_option some_due ?body ?start = Some l"
    using wf_while_option_Some [of ?inv some_due ?body ?start] keep start by blast
  have "?inv l"
    using while_option_rule [of ?inv some_due ?body, OF _ l start] keep by blast
  moreover have "\<not> some_due l"
    using while_option_stop [OF l] .
  ultimately show ?thesis
    using l by (auto simp: update_loop_def)
qed

text \<open>A call of \<open>updateTimers\<close> returns, whatever the jobs it executes do to the timers, provided that frames take some
  time: at most ten jobs that are no frame jobs are executed and none of them before its deadline. Without frame timers, as the
  player calls it, they are executed in the order of their deadlines. If the call has not hit its limits, no
  timer is due any more when it returns, and the result is the time until the next one; if it has, the clock is set
  back by 100 ms or 1 ms.\<close>

theorem update_timers_correct:
  assumes P: "jobs_ok P" and s: "lst_ok (s\<lparr>currentTime := currentTime s + delta\<rparr>)"
  shows "\<exists>r s' news. updateTimers P delta allow s = Some (r, s') \<and> executed s' = executed s @ news
    \<and> (\<forall>t \<in> set news. deadline t < currentTime s + delta)
    \<and> length (filter (\<lambda>t. \<not> isFrame t) news) \<le> 10
    \<and> (\<not> allow \<longrightarrow> filter isFrame news = [] \<and> sorted_wrt (\<le>) (map deadline news))
    \<and> (\<forall>t \<in> set (timers s'). timer_ok t) \<and> by_deadline (timers s')
    \<and> (currentTime s' = currentTime s + delta \<and> (\<forall>t \<in> set (timers s'). currentTime s' \<le> deadline t)
         \<and> (timers s' \<noteq> [] \<longrightarrow> ns r = ns (deadline (hd (timers s'))) - ns (currentTime s'))
       \<or> currentTime s' \<in> {currentTime s + delta - time_fromMs 100, currentTime s + delta - time_fromMs 1})"
proof -
  define s0 where "s0 = s\<lparr>currentTime := currentTime s + delta\<rparr>"
  have s0: "lst_ok s0" "executed s0 = executed s" "currentTime s0 = currentTime s + delta" "timers s0 = timers s"
    using s by (simp_all add: s0_def)
  show ?thesis
  proof (cases "timers s = []")
    case True
    then show ?thesis
      using s0 by (intro exI [of _ 0] exI [of _ s0] exI [of _ "[]"]) (simp add: updateTimers_def s0_def by_deadline_def)
  next
    case False
    obtain l news where l: "update_loop P allow s0 = Some l" "\<not> some_due l"
      and r: "round_ok allow (maxFrames * getFrameJobs s0) (currentTime s0) (executed s0) l news"
      using update_loop_ends [OF P s0(1)] by blast
    define d where "d = (if timers (st l) = [] then 0 else time_saturatingSub (deadline (peekTimerNoLock P (st l))) (currentTime (st l)))"
    have u: "updateTimers P delta allow s = Some (d, st l)"
      using False l(1) by (simp add: updateTimers_def s0_def d_def Let_def)
    have o: "by_deadline (timers (st l))" "\<forall>t \<in> set (timers (st l)). timer_ok t"
      using r by (simp_all add: round_ok_def)
    have fin: "currentTime (st l) = currentTime s0 \<and> (\<forall>t \<in> set (timers (st l)). currentTime s0 \<le> deadline t)
        \<and> (timers (st l) \<noteq> [] \<longrightarrow> ns d = ns (deadline (hd (timers (st l)))) - ns (currentTime s0))" if "looping l"
    proof -
      have c: "currentTime (st l) = currentTime s0"
        using that r by (simp add: round_ok_def)
      have due: "currentTime s0 \<le> deadline (hd (timers (st l)))" if "timers (st l) \<noteq> []"
        using l(2) that \<open>looping l\<close> c by (simp add: some_due_def not_less)
      have "currentTime s0 \<le> deadline t" if "t \<in> set (timers (st l))" for t
      proof -
        have "timers (st l) \<noteq> []" using that by auto
        from order_trans [OF due [OF this] by_deadline_hd [OF o(1) that]] show ?thesis .
      qed
      moreover have "ns d = ns (deadline (hd (timers (st l)))) - ns (currentTime s0)" if "timers (st l) \<noteq> []"
      proof -
        have "timer_ok (hd (timers (st l)))" "peekTimerNoLock P (st l) = hd (timers (st l))"
          using that o(2) by (cases "timers (st l)"; simp add: peekTimerNoLock_def)+
        then show ?thesis
          using that s0(1) c by (simp add: d_def ns_saturatingSub ns_deadline(2) lst_ok_def time_ok_def)
      qed
      ultimately show ?thesis using c by blast
    qed
    have lim: "currentTime (st l) \<in> {currentTime s0 - time_fromMs 100, currentTime s0 - time_fromMs 1}" if "\<not> looping l"
      using that r by (simp add: round_ok_def)
    have n: "executed (st l) = executed s @ news" "\<forall>t \<in> set news. deadline t < currentTime s0" "length (filter (\<lambda>t. \<not> isFrame t) news) \<le> 10"
      using r s0 by (auto simp: round_ok_def maxTicks_def)
    have srt: "filter isFrame news = [] \<and> sorted_wrt (\<le>) (map deadline news)" if "\<not> allow"
      using that r by (auto simp: round_ok_def by_deadline_def sorted_wrt_map filter_empty_conv)
    show ?thesis
      using u n srt o fin lim s0(3)
      by (intro exI [of _ d] exI [of _ "st l"] exI [of _ news], cases "looping l") simp_all
  qed
qed


text \<open>Jobs that do nothing, and one of them waiting for 100 ms when 200 ms pass.\<close>

definition idle_jobs :: "(nat, unit) jobs" where
  "idle_jobs = \<lparr>job_tick = (\<lambda>_ w. (w, [])), job_tickFence = (\<lambda>_ w. w), job_stopMe = (\<lambda>_ _. False),
     frame_ns = (\<lambda>_. 40000000), notifyTimer = id,
     past_end = \<lparr>t_type = WaitTimer, startTime = TimeSpec 0 0, fakeStartTime = TimeSpec 0 0, timeout = TimeSpec 0 0, t_job = 0\<rparr>\<rparr>"

definition one_wait :: "(nat, unit) ls_timers" where
  "one_wait = \<lparr>timers = [\<lparr>t_type = WaitTimer, startTime = TimeSpec 1 0, fakeStartTime = TimeSpec 0 0,
       timeout = TimeSpec 0 100000000, t_job = 7\<rparr>],
     currentTime = TimeSpec 1 0, fakeCurrentTime = TimeSpec 0 0, curFrameTime = TimeSpec 0 0, nextFrameTime = TimeSpec 5 0,
     world = (), executed = []\<rparr>"

theorem update_timers_correct_witness:
  "\<exists>r s'. updateTimers idle_jobs (TimeSpec 0 200000000) False one_wait = Some (r, s')
     \<and> length (filter (\<lambda>t. \<not> isFrame t) (executed s')) \<le> 10"
proof -
  have "jobs_ok idle_jobs" by (simp add: jobs_ok_def idle_jobs_def)
  moreover have "lst_ok (one_wait\<lparr>currentTime := currentTime one_wait + TimeSpec 0 200000000\<rparr>)"
    by (simp add: lst_ok_def one_wait_def timer_ok_def time_ok_def duration_ok_def normal_def ns_def NS_LIMIT_def
        nsPerSec_def by_deadline_def isFrame_def timespec_defs time_plus_def timespec_new_def)
  ultimately show ?thesis
    using update_timers_correct [of idle_jobs one_wait "TimeSpec 0 200000000" False] by (auto simp: one_wait_def)
qed

section \<open>Where the clock jumps\<close>

text \<open>
  In the first 100 ms of a program, setting the clock back after too many ticks takes it around to the end of the
  64-bit seconds, when every timer is due.
\<close>

lemma set_back_underflow: "time_fromMs 50 - time_fromMs 100 = TimeSpec 0xffffffffffffffff 950000000"
  by (simp add: timespec_defs time_minus_def time_fromMs_def time_fromNs_def timespec_new_def nsPerSec_def)

text \<open>A timer pushed to an empty set is compared with what lies behind its end.\<close>

lemma push_reads_past_end:
  assumes "timers s = []"
  shows "pushTimerNoLock P t s =
    (if deadline t < deadline (past_end P) then do_notifyTimer P (s\<lparr>timers := [t]\<rparr>) else s\<lparr>timers := [t]\<rparr>)"
  using assms by (simp add: pushTimerNoLock_def peekTimerNoLock_def)

end
