(* ===== verification/FlashTimer.thy ===== *)
theory FlashTimer
  imports LSTimers Atoms
begin

text \<open>
  What ActionScript sees of the timers: the class \<open>flash.utils.Timer\<close> (\<open>scripting/flash/utils/Timer.h\<close>,
  \<open>Timer.cpp\<close>) and the intervals of \<open>setInterval\<close> and \<open>setTimeout\<close> (\<open>IntervalManager\<close>, \<open>IntervalRunner\<close>).

  The calls of \<open>SystemState\<close> that add and remove jobs are the commands \<open>timer_call\<close> of \<open>LSTimers\<close>; events go to
  the queue of the virtual machine.
\<close>

section \<open>flash.utils.Timer\<close>

datatype timer_event = TimerEvent | TimerCompleteEvent

record as_timer =
  running :: bool
  delay :: u32
  repeatCount :: u32
  currentCount :: u32
  stopMe :: bool
  vm_events :: "timer_event list"

definition as_timer_new :: as_timer where
  "as_timer_new = \<lparr>running = False, delay = 0, repeatCount = 0, currentCount = 0, stopMe = False, vm_events = []\<rparr>"

text \<open>The arguments are the ints the atoms convert to.\<close>

definition timer_constructor :: "u32 \<Rightarrow> u32 option \<Rightarrow> as_timer \<Rightarrow> as_timer" where
  "timer_constructor d n t =
     (let t = t\<lparr>delay := d\<rparr> in case n of None \<Rightarrow> t | Some n \<Rightarrow> t\<lparr>repeatCount := n\<rparr>)"

definition timer_tick :: "as_timer \<Rightarrow> as_timer" where
  "timer_tick t =
     (let t = t\<lparr>vm_events := vm_events t @ [TimerEvent]\<rparr>; t = t\<lparr>currentCount := currentCount t + 1\<rparr>
      in if repeatCount t \<noteq> 0 \<and> currentCount t \<ge> repeatCount t
         then t\<lparr>vm_events := vm_events t @ [TimerCompleteEvent], stopMe := True\<rparr> else t)"

definition timer_afterHandleEvent :: "timer_event \<Rightarrow> as_timer \<Rightarrow> as_timer" where
  "timer_afterHandleEvent ev t = (if stopMe t \<and> ev = TimerEvent then t\<lparr>running := False\<rparr> else t)"

definition timer_setRepeatCount :: "'j \<Rightarrow> u32 \<Rightarrow> as_timer \<Rightarrow> 'j timer_call list \<times> as_timer" where
  "timer_setRepeatCount self n t =
     (let t = t\<lparr>repeatCount := n\<rparr>
      in if repeatCount t > 0 \<and> repeatCount t \<le> currentCount t
         then ([CallRemoveJob self], t\<lparr>running := False\<rparr>) else ([], t))"

text \<open>The result is false if the RangeError 2066 is raised.\<close>

definition timer_setDelay :: "u32 \<Rightarrow> as_timer \<Rightarrow> bool \<times> as_timer" where
  "timer_setDelay d t = (if sint d < 0 then (False, t) else (True, t\<lparr>delay := d\<rparr>))"

definition timer_start :: "'j \<Rightarrow> as_timer \<Rightarrow> 'j timer_call list \<times> as_timer" where
  "timer_start self t =
     (if running t then ([], t)
      else let t = t\<lparr>running := True, stopMe := False\<rparr>; d = (if delay t < 17 then 17 else delay t)
           in if repeatCount t = 1 then ([CallAddWait d self], t) else ([CallAddTick d self], t))"

definition timer_stop :: "'j \<Rightarrow> as_timer \<Rightarrow> 'j timer_call list \<times> as_timer" where
  "timer_stop self t = (if running t then ([CallRemoveJob self], t\<lparr>running := False\<rparr>) else ([], t))"

definition timer_reset :: "'j \<Rightarrow> as_timer \<Rightarrow> 'j timer_call list \<times> as_timer" where
  "timer_reset self t = (let (calls, t) = timer_stop self t in (calls, t\<lparr>currentCount := 0\<rparr>))"

text \<open>
  A job is not executed again once it has set \<open>stopMe\<close>: both kinds of timers discard it then (\<open>worker_awake\<close>
  and \<open>execute_timer\<close>).
\<close>

fun timer_ticks :: "nat \<Rightarrow> as_timer \<Rightarrow> as_timer" where
  "timer_ticks 0 t = t"
| "timer_ticks (Suc k) t = (if stopMe t then t else timer_ticks k (timer_tick t))"

lemma timer_ticks_endless:
  "repeatCount t = 0 \<Longrightarrow> \<not> stopMe t \<Longrightarrow>
   vm_events (timer_ticks k t) = vm_events t @ replicate k TimerEvent \<and> \<not> stopMe (timer_ticks k t)"
  by (induction k arbitrary: t) (auto simp: timer_tick_def Let_def)

lemma timer_ticks_count:
  assumes "unat (currentCount t) < unat (repeatCount t)" and "\<not> stopMe t"
  shows "vm_events (timer_ticks k t) = vm_events t @
      (if k < unat (repeatCount t) - unat (currentCount t) then replicate k TimerEvent
       else replicate (unat (repeatCount t) - unat (currentCount t)) TimerEvent @ [TimerCompleteEvent])
    \<and> (stopMe (timer_ticks k t) \<longleftrightarrow> unat (repeatCount t) - unat (currentCount t) \<le> k)"
  using assms
proof (induction k arbitrary: t)
  case (Suc k)
  have u: "unat (currentCount t + 1) = unat (currentCount t) + 1"
    using Suc.prems(1) unat_u32_less [of "repeatCount t"] by (simp add: unat_word_ariths)
  have r: "repeatCount t \<noteq> 0" using Suc.prems(1) by auto
  define t' where "t' = timer_tick t"
  show ?case
  proof (cases "unat (currentCount t) + 1 < unat (repeatCount t)")
    case True
    then have t': "t' = t\<lparr>vm_events := vm_events t @ [TimerEvent], currentCount := currentCount t + 1\<rparr>"
      using u by (auto simp: t'_def timer_tick_def Let_def word_le_nat_alt)
    have d: "unat (repeatCount t) - unat (currentCount t) = Suc (unat (repeatCount t) - unat (currentCount t'))"
      using True u by (simp add: t')
    show ?thesis
      using Suc.IH [of t'] Suc.prems True u unfolding d by (simp add: t' flip: t'_def)
  next
    case False
    then have t': "t' = t\<lparr>currentCount := currentCount t + 1, vm_events := vm_events t @ [TimerEvent, TimerCompleteEvent], stopMe := True\<rparr>"
      using u r by (auto simp: t'_def timer_tick_def Let_def word_le_nat_alt)
    have d: "unat (repeatCount t) - unat (currentCount t) = 1"
      using False Suc.prems(1) by simp
    have "timer_ticks k t' = t'"
      by (cases k) (simp_all add: t')
    then show ?thesis
      using Suc.prems unfolding d by (simp add: t' flip: t'_def)
  qed
qed simp

text \<open>A \<open>Timer\<close> that is started with a repeat count above its current count posts exactly the missing number of \<open>timer\<close>
  events, then one \<open>timerComplete\<close>, and is not executed again, however often it would be due; with repeat count 0 it
  posts one event each time for ever. It is handed to the timers once per start, as a single wait if its
  repeat count is 1, and never with less than 17 ms.\<close>

theorem timer_repeats:
  assumes "\<not> running t"
  shows "let (calls, t') = timer_start self t; n = unat (repeatCount t); c = unat (currentCount t) in
      running t' \<and> \<not> stopMe t'
      \<and> (\<exists>d \<ge> 17. calls = (if n = 1 then [CallAddWait d self] else [CallAddTick d self]))
      \<and> fst (timer_start self t') = []
      \<and> (n = 0 \<longrightarrow> (\<forall>k. vm_events (timer_ticks k t') = vm_events t @ replicate k TimerEvent))
      \<and> (c < n \<longrightarrow> (\<forall>k \<ge> n - c. vm_events (timer_ticks k t') = vm_events t @ replicate (n - c) TimerEvent @ [TimerCompleteEvent]))"
proof -
  define t' where "t' = t\<lparr>running := True, stopMe := False\<rparr>"
  have c: "timer_start self t = (if repeatCount t = 1 then [CallAddWait (if delay t < 17 then 17 else delay t) self]
      else [CallAddTick (if delay t < 17 then 17 else delay t) self], t')"
    using assms by (simp add: timer_start_def t'_def Let_def)
  have one: "unat (repeatCount t) = 1 \<longleftrightarrow> repeatCount t = 1"
    using unat_1 [where 'a = 32] by (metis word_unat_eq_iff)
  have z: "unat (repeatCount t) = 0 \<longleftrightarrow> repeatCount t = 0"
    by (simp add: unat_eq_0)
  have d: "\<exists>d \<ge> 17. calls = (if unat (repeatCount t) = 1 then [CallAddWait d self] else [CallAddTick d self])"
    if "calls = fst (timer_start self t)" for calls
    using that unfolding c one by (intro exI [of _ "if delay t < 17 then 17 else delay t"]) (auto simp: not_less)
  have e: "vm_events (timer_ticks k t') = vm_events t @ replicate k TimerEvent" if "unat (repeatCount t) = 0" for k
    using timer_ticks_endless [of t' k] that z by (simp add: t'_def)
  have f: "vm_events (timer_ticks k t') = vm_events t @ replicate (unat (repeatCount t) - unat (currentCount t)) TimerEvent @ [TimerCompleteEvent]"
    if "unat (currentCount t) < unat (repeatCount t)" "unat (repeatCount t) - unat (currentCount t) \<le> k" for k
    using timer_ticks_count [of t' k] that by (simp add: t'_def)
  have s: "running t' \<and> \<not> stopMe t' \<and> fst (timer_start self t') = []"
    by (simp add: t'_def timer_start_def)
  show ?thesis
    using d [OF refl] e f s unfolding c by (simp add: Let_def)
qed

theorem timer_repeats_witness:
  "vm_events (timer_ticks 5 (snd (timer_start () (timer_constructor 100 (Some 3) as_timer_new)))) =
     replicate 3 TimerEvent @ [TimerCompleteEvent]"
proof -
  define t where "t = timer_constructor 100 (Some 3) as_timer_new"
  have t: "\<not> running t" "repeatCount t = 3" "currentCount t = 0" "vm_events t = []"
    by (simp_all add: t_def timer_constructor_def as_timer_new_def)
  show ?thesis
    using timer_repeats [OF t(1), of "()"] t unfolding t_def [symmetric]
    by (cases "timer_start () t") (simp add: Let_def)
qed

section \<open>Intervals\<close>

text \<open>
  \<open>IntervalManager\<close> and its \<open>IntervalRunner\<close>s. A runner is allocated by \<open>setupTimer\<close> and deletes itself in
  \<open>tickFence\<close>; \<open>heap\<close> holds those that exist, at the address \<open>p\<close> of each, and every use of a runner looks it up
  there: a deleted one is the fault \<open>NullDeref\<close>. The timers are the list \<open>jobs\<close> of the runners registered with \<open>SystemState\<close>
  and whether they tick more than once; a wait leaves the list when it is executed.
\<close>

datatype interval_type = INTERVAL | TIMEOUT

record runner =
  r_type :: interval_type
  r_id :: u32
  r_running :: bool
  r_finished :: bool

record intervals =
  runners :: "u32 \<rightharpoonup> nat"
  currentID :: u32
  heap :: "nat \<rightharpoonup> runner"
  next_address :: nat
  jobs :: "(nat \<times> bool) list"

definition intervals_new :: intervals where
  "intervals_new = \<lparr>runners = Map.empty, currentID = 1, heap = Map.empty, next_address = 0, jobs = []\<rparr>"

definition getFreeID :: "intervals \<Rightarrow> u32 \<times> intervals" where
  "getFreeID s = (currentID s, s\<lparr>currentID := currentID s + 1\<rparr>)"

definition the_runner :: "nat \<Rightarrow> intervals \<Rightarrow> runner res" where
  "the_runner p s = (case heap s p of None \<Rightarrow> Inl NullDeref | Some r \<Rightarrow> Inr r)"

definition update_runner :: "nat \<Rightarrow> (runner \<Rightarrow> runner) \<Rightarrow> intervals \<Rightarrow> intervals res" where
  "update_runner p f s = bindE (the_runner p s) (\<lambda>r. Inr (s\<lparr>heap := (heap s)(p \<mapsto> f r)\<rparr>))"

text \<open>\<open>tickFence\<close>: \<open>delete this\<close>.\<close>

definition runner_tickFence :: "nat \<Rightarrow> intervals \<Rightarrow> intervals res" where
  "runner_tickFence p s = bindE (the_runner p s) (\<lambda>_. Inr (s\<lparr>heap := (heap s)(p := None)\<rparr>))"

fun erase_first :: "nat \<Rightarrow> (nat \<times> bool) list \<Rightarrow> (nat \<times> bool) list" where
  "erase_first p [] = []"
| "erase_first p (x # xs) = (if fst x = p then xs else x # erase_first p xs)"

definition sys_removeJob :: "nat \<Rightarrow> intervals \<Rightarrow> intervals res" where
  "sys_removeJob p s =
     (if p \<in> fst ` set (jobs s) then runner_tickFence p (s\<lparr>jobs := erase_first p (jobs s)\<rparr>) else Inr s)"

definition runner_removeJob :: "nat \<Rightarrow> intervals \<Rightarrow> intervals res" where
  "runner_removeJob p s = bindE (the_runner p s) (\<lambda>r.
     if r_running r then update_runner p (\<lambda>r. r\<lparr>r_finished := True\<rparr>) s else sys_removeJob p s)"

text \<open>
  The condition of \<open>clearInterval\<close> as it is parsed: the test for the end and that of the type select one of the
  enumeration's values, \<open>TIMEOUT = 1\<close> and \<open>INTERVAL = 0\<close>, which is then taken for a truth value.
\<close>

definition interval_value :: "interval_type \<Rightarrow> nat" where
  "interval_value t = (case t of INTERVAL \<Rightarrow> 0 | TIMEOUT \<Rightarrow> 1)"

definition clearInterval :: "u32 \<Rightarrow> bool \<Rightarrow> intervals \<Rightarrow> intervals res" where
  "clearInterval i isTimeout s =
     (case runners s i of
        None \<Rightarrow> if interval_value INTERVAL \<noteq> 0 then Inl NullDeref else Inr s
      | Some p \<Rightarrow> bindE (the_runner p s) (\<lambda>r.
          if interval_value (if interval_value (r_type r) = of_bool isTimeout then TIMEOUT else INTERVAL) \<noteq> 0
          then runner_removeJob p (s\<lparr>runners := (runners s)(i := None)\<rparr>) else Inr s))"

text \<open>
  \<open>setupTimer\<close>: what it finds out about its arguments, the function and the atom of the delay. The result
  is the id, or nothing if the call leaves its result alone; an interval of 0 also posts the function to the front
  of the event queue.
\<close>

record setup_args =
  argslen :: nat
  first_is_function :: bool
  named_function :: bool
  delay_atom :: asAtom
  delay_int :: u32

definition setupTimer :: "setup_args \<Rightarrow> bool \<Rightarrow> intervals \<Rightarrow> (u32 option \<times> bool) \<times> intervals" where
  "setupTimer a isInterval s =
     (if argslen a < 2 \<or> (\<not> first_is_function a \<and> argslen a < 3) then ((None, False), s)
      else if \<not> first_is_function a \<and> \<not> named_function a then (let (i, s) = getFreeID s in ((Some i, False), s))
      else if isUndefined (delay_atom a) then ((None, False), s)
      else if isNull (delay_atom a) then (let (i, s) = getFreeID s in ((Some i, False), s))
      else let at_once = delay_int a = 0 \<and> isInterval;
               (i, s) = getFreeID s;
               p = next_address s;
               r = \<lparr>r_type = (if isInterval then INTERVAL else TIMEOUT), r_id = i, r_running = False, r_finished = False\<rparr>
           in ((Some i, at_once), s\<lparr>heap := (heap s)(p \<mapsto> r), next_address := p + 1, jobs := jobs s @ [(p, isInterval)],
                 runners := (runners s)(i \<mapsto> p)\<rparr>))"

text \<open>\<open>tick\<close> up to the wait for the event, which runs the callback, and from there on.\<close>

definition runner_tick_begin :: "nat \<Rightarrow> intervals \<Rightarrow> intervals res" where
  "runner_tick_begin p s = update_runner p (\<lambda>r. r\<lparr>r_running := True\<rparr>) s"

definition runner_tick_leave :: "nat \<Rightarrow> intervals \<Rightarrow> intervals res" where
  "runner_tick_leave p s = update_runner p (\<lambda>r. r\<lparr>r_running := False\<rparr>) s"

definition runner_tick_close :: "nat \<Rightarrow> intervals \<Rightarrow> intervals res" where
  "runner_tick_close p s = bindE (the_runner p s) (\<lambda>r. if r_type r = TIMEOUT then clearInterval (r_id r) True s else Inr s)"

definition runner_tick_last :: "nat \<Rightarrow> intervals \<Rightarrow> intervals res" where
  "runner_tick_last p s = bindE (the_runner p s) (\<lambda>r. if r_finished r then sys_removeJob p s else Inr s)"

text \<open>The destructor clears all intervals; the map is in the order of the ids.\<close>

fun delete_runners :: "u32 list \<Rightarrow> intervals \<Rightarrow> intervals res" where
  "delete_runners [] s = Inr s"
| "delete_runners (i # is) s =
     (case runners s i of
        None \<Rightarrow> delete_runners is s
      | Some p \<Rightarrow> bindE (sys_removeJob p (s\<lparr>runners := (runners s)(i := None)\<rparr>)) (delete_runners is))"

section \<open>No runner is used after it is deleted\<close>

text \<open>
  Intervals with their threads. The thread that executes timers (the worker of \<open>TimerThread\<close>, or the caller of \<open>updateTimers\<close>) takes a job under
  the mutex of the timers, releases it, calls \<open>tick\<close>, which sets \<open>running\<close>, waits for the callback and resets \<open>running\<close>, closes a
  timeout, looks at \<open>finished\<close>, and deletes a timeout: \<open>active\<close> is the job and \<open>phase\<close> what it has done. Any other thread,
  the one of the virtual machine that runs the callback included, sets and clears intervals under the mutex of the manager; between the
  test of \<open>running\<close> and the assignment to \<open>finished\<close> \<open>clearing\<close> is the runner, and the mutex is taken.
\<close>

datatype tick_phase = Taken | Called | Left | Closed

record interval_machine =
  ivs :: intervals
  active :: "(nat \<times> bool) option"
  phase :: tick_phase
  clearing :: "nat option"

definition machine_new :: interval_machine where
  "machine_new = \<lparr>ivs = intervals_new, active = None, phase = Closed, clearing = None\<rparr>"

text \<open>\<open>clearInterval\<close> up to the assignment to \<open>finished\<close>.\<close>

definition clear_begin :: "u32 \<Rightarrow> bool \<Rightarrow> intervals \<Rightarrow> (nat option \<times> intervals) res" where
  "clear_begin i isTimeout s =
     (case runners s i of
        None \<Rightarrow> if interval_value INTERVAL \<noteq> 0 then Inl NullDeref else Inr (None, s)
      | Some p \<Rightarrow> bindE (the_runner p s) (\<lambda>r.
          if interval_value (if interval_value (r_type r) = of_bool isTimeout then TIMEOUT else INTERVAL) \<noteq> 0
          then (let s = s\<lparr>runners := (runners s)(i := None)\<rparr>
                in if r_running r then Inr (Some p, s) else bindE (sys_removeJob p s) (\<lambda>s. Inr (None, s)))
          else Inr (None, s)))"

definition set_finished :: "nat \<Rightarrow> intervals \<Rightarrow> intervals res" where
  "set_finished p = update_runner p (\<lambda>r. r\<lparr>r_finished := True\<rparr>)"

lemma bindE_return [simp]: "bindE m Inr = m"
  by (cases m) simp_all


datatype interval_label = Setup setup_args bool | Clear u32 bool | Cleared | Take nat | Call | Leave | Close | End

definition at_phase :: "tick_phase \<Rightarrow> (nat \<times> bool \<Rightarrow> intervals \<Rightarrow> interval_machine res) \<Rightarrow> interval_machine \<Rightarrow> interval_machine res" where
  "at_phase ph f m = (case active m of None \<Rightarrow> Inr m | Some x \<Rightarrow> if phase m = ph then f x (ivs m) else Inr m)"

fun interval_step :: "interval_label \<Rightarrow> interval_machine \<Rightarrow> interval_machine res" where
  "interval_step (Setup a b) m = Inr (if clearing m = None then m\<lparr>ivs := snd (setupTimer a b (ivs m))\<rparr> else m)"
| "interval_step (Clear i b) m =
     (if clearing m \<noteq> None then Inr m
      else bindE (clear_begin i b (ivs m)) (\<lambda>(q, s). Inr (m\<lparr>ivs := s, clearing := q\<rparr>)))"
| "interval_step Cleared m =
     (case clearing m of None \<Rightarrow> Inr m
      | Some p \<Rightarrow> bindE (set_finished p (ivs m)) (\<lambda>s. Inr (m\<lparr>ivs := s, clearing := None\<rparr>)))"
| "interval_step (Take k) m =
     (if active m \<noteq> None \<or> length (jobs (ivs m)) \<le> k then Inr m
      else let s = ivs m; (p, again) = jobs s ! k; s = (if again then s else s\<lparr>jobs := take k (jobs s) @ drop (k + 1) (jobs s)\<rparr>)
           in Inr (m\<lparr>ivs := s, active := Some (p, again), phase := Taken\<rparr>))"
| "interval_step Call m =
     at_phase Taken (\<lambda>(p, _) s. bindE (runner_tick_begin p s) (\<lambda>s. Inr (m\<lparr>ivs := s, phase := Called\<rparr>))) m"
| "interval_step Leave m =
     at_phase Called (\<lambda>(p, _) s. bindE (runner_tick_leave p s) (\<lambda>s. Inr (m\<lparr>ivs := s, phase := Left\<rparr>))) m"
| "interval_step Close m =
     (if clearing m \<noteq> None then Inr m
      else at_phase Left (\<lambda>(p, _) s. bindE (runner_tick_close p s) (\<lambda>s. Inr (m\<lparr>ivs := s, phase := Closed\<rparr>))) m)"
| "interval_step End m =
     at_phase Closed (\<lambda>(p, again) s. bindE (runner_tick_last p s) (\<lambda>s.
       bindE (if again then Inr s else runner_tickFence p s) (\<lambda>s. Inr (m\<lparr>ivs := s, active := None\<rparr>)))) m"



definition iv_ok :: "intervals \<Rightarrow> (nat \<times> bool) option \<Rightarrow> bool \<Rightarrow> nat option \<Rightarrow> bool" where
  "iv_ok s act run c \<longleftrightarrow>
     (\<forall>i p. runners s i = Some p \<longrightarrow> (\<exists>r. heap s p = Some r \<and> r_id r = i \<and> \<not> r_finished r) \<and> c \<noteq> Some p)
     \<and> distinct (map fst (jobs s))
     \<and> (\<forall>(p, k) \<in> set (jobs s). \<exists>r. heap s p = Some r \<and> (k \<longleftrightarrow> r_type r = INTERVAL))
     \<and> (\<forall>p r. heap s p = Some r \<longrightarrow> p < next_address s \<and> (r_running r \<longleftrightarrow> run \<and> p \<in> fst ` set_option act)
          \<and> (p \<in> fst ` set (jobs s) \<or> p \<in> fst ` set_option act))
     \<and> (\<forall>(p, k) \<in> set_option act. (\<exists>r. heap s p = Some r \<and> (k \<longleftrightarrow> r_type r = INTERVAL)) \<and> (k \<longleftrightarrow> p \<in> fst ` set (jobs s)))
     \<and> (\<forall>p. c = Some p \<longrightarrow> (\<exists>r. heap s p = Some r \<and> \<not> r_finished r))"

lemma iv_okD:
  assumes "iv_ok s act run c"
  shows iv_runner: "runners s i = Some p \<Longrightarrow> (\<exists>r. heap s p = Some r \<and> r_id r = i \<and> \<not> r_finished r) \<and> c \<noteq> Some p"
    and iv_distinct: "distinct (map fst (jobs s))"
    and iv_job: "(p, k) \<in> set (jobs s) \<Longrightarrow> \<exists>r. heap s p = Some r \<and> (k \<longleftrightarrow> r_type r = INTERVAL)"
    and iv_heap: "heap s p = Some r \<Longrightarrow> p < next_address s \<and> (r_running r \<longleftrightarrow> run \<and> p \<in> fst ` set_option act)
          \<and> (p \<in> fst ` set (jobs s) \<or> p \<in> fst ` set_option act)"
    and iv_active: "act = Some (p, k) \<Longrightarrow> (\<exists>r. heap s p = Some r \<and> (k \<longleftrightarrow> r_type r = INTERVAL)) \<and> (k \<longleftrightarrow> p \<in> fst ` set (jobs s))"
    and iv_clearing: "c = Some p \<Longrightarrow> \<exists>r. heap s p = Some r \<and> \<not> r_finished r"
proof -
  note ok = assms [unfolded iv_ok_def]
  note c1 = ok [THEN conjunct1] and ok = ok [THEN conjunct2]
  note c2 = ok [THEN conjunct1] and ok = ok [THEN conjunct2]
  note c3 = ok [THEN conjunct1] and ok = ok [THEN conjunct2]
  note c4 = ok [THEN conjunct1] and ok = ok [THEN conjunct2]
  note c5 = ok [THEN conjunct1] and c6 = ok [THEN conjunct2]
  show "runners s i = Some p \<Longrightarrow> (\<exists>r. heap s p = Some r \<and> r_id r = i \<and> \<not> r_finished r) \<and> c \<noteq> Some p" using c1 by blast
  show "distinct (map fst (jobs s))" by (rule c2)
  show "(p, k) \<in> set (jobs s) \<Longrightarrow> \<exists>r. heap s p = Some r \<and> (k \<longleftrightarrow> r_type r = INTERVAL)"
    using c3 [THEN bspec, of "(p, k)"] by simp
  show "heap s p = Some r \<Longrightarrow> p < next_address s \<and> (r_running r \<longleftrightarrow> run \<and> p \<in> fst ` set_option act)
      \<and> (p \<in> fst ` set (jobs s) \<or> p \<in> fst ` set_option act)"
    using c4 by blast
  show "act = Some (p, k) \<Longrightarrow> (\<exists>r. heap s p = Some r \<and> (k \<longleftrightarrow> r_type r = INTERVAL)) \<and> (k \<longleftrightarrow> p \<in> fst ` set (jobs s))"
    using c5 [THEN bspec, of "(p, k)"] by auto
  show "c = Some p \<Longrightarrow> \<exists>r. heap s p = Some r \<and> \<not> r_finished r" using c6 by blast
qed


















definition plain_interval :: setup_args where
  "plain_interval = \<lparr>argslen = 2, first_is_function = True, named_function = False, delay_atom = fromInt 50, delay_int = 50\<rparr>"

lemma plain_setup:
  "snd (setupTimer plain_interval b intervals_new) =
     intervals_new\<lparr>currentID := 2,
       heap := [0 \<mapsto> \<lparr>r_type = (if b then INTERVAL else TIMEOUT), r_id = 1, r_running = False, r_finished = False\<rparr>],
       next_address := 1, jobs := [(0, b)], runners := [1 \<mapsto> 0]\<rparr>"
proof -
  have "\<not> isUndefined (fromInt 50)" "\<not> isNull (fromInt 50)"
    by (simp_all add: fromInt_ucast isUndefined_def isNull_def has_flag_def tag_defs)
  then show ?thesis
    by (simp add: setupTimer_def plain_interval_def getFreeID_def Let_def intervals_new_def)
qed

lemmas interval_defs = machine_new_def intervals_new_def at_phase_def runner_tick_begin_def runner_tick_leave_def
  runner_tick_close_def runner_tick_last_def update_runner_def the_runner_def clear_begin_def interval_value_def
  sys_removeJob_def runner_tickFence_def set_finished_def


text \<open>
  The moments that are excluded: an interval that is cleared when its job has been taken but \<open>running\<close> is not yet set, or
  when \<open>running\<close> has been reset, is deleted before the thread that executes timers uses it again.
\<close>

lemma interval_race:
  "foldE interval_step machine_new [Setup plain_interval True, Take 0, Clear 1 False, Call] = Inl NullDeref"
  "foldE interval_step machine_new [Setup plain_interval True, Take 0, Call, Leave, Clear 1 False, Close] = Inl NullDeref"
  using plain_setup [of True] by (simp_all add: interval_defs)

end
