(* ===== verification/CircularQueue.thy ===== *)
theory CircularQueue
  imports LS_Prelude
begin

text \<open>
  The queue between a decoder and its consumer: the class \<open>BlockingCircularQueue\<close> of \<open>threading.h\<close>, a ring of
  buffers with a semaphore for the free ones and one for the used ones.

  The indices and the size are \<open>uint32_t\<close>, the semaphores are their counts; a thread that would block in \<open>wait\<close>
  does not return, which is \<open>None\<close>. The producer obtains a buffer with \<open>acquireLast\<close>, fills it, and hands it over
  with \<open>commitLast\<close>; \<open>ring_put\<close> is these three steps with no call of the consumer between them.
\<close>

section \<open>The ring\<close>

record 'a ring =
  queue :: "'a list"
  freeBuffers :: nat
  usedBuffers :: nat
  bufferHead :: u32
  bufferTail :: u32
  ring_size :: u32
  empty_flag :: bool

definition ring_new :: "u32 \<Rightarrow> 'a \<Rightarrow> 'a ring" where
  "ring_new n x = \<lparr>queue = replicate (unat n) x, freeBuffers = unat n, usedBuffers = 0, bufferHead = 0, bufferTail = 0,
     ring_size = n, empty_flag = True\<rparr>"

definition ring_isEmpty :: "'a ring \<Rightarrow> bool" where "ring_isEmpty r = empty_flag r"

definition ring_front :: "'a ring \<Rightarrow> 'a res" where
  "ring_front r = (if empty_flag r then Inl AssertionFailed else rd (queue r) (unat (bufferHead r)))"

definition nonBlockingPopFront :: "'a ring \<Rightarrow> bool \<times> 'a ring" where
  "nonBlockingPopFront r =
     (if usedBuffers r = 0 then (False, r)
      else let r = r\<lparr>usedBuffers := usedBuffers r - 1\<rparr>;
               r = r\<lparr>bufferHead := (bufferHead r + 1) mod ring_size r\<rparr>;
               r = (if bufferHead r = bufferTail r then r\<lparr>empty_flag := True\<rparr> else r)
           in (True, r\<lparr>freeBuffers := freeBuffers r + 1\<rparr>))"

definition acquireLast :: "'a ring \<Rightarrow> (u32 \<times> 'a ring) option" where
  "acquireLast r =
     (if freeBuffers r = 0 then None
      else let r = r\<lparr>freeBuffers := freeBuffers r - 1\<rparr>
           in Some (bufferTail r, r\<lparr>bufferTail := (bufferTail r + 1) mod ring_size r\<rparr>))"

definition commitLast :: "'a ring \<Rightarrow> 'a ring" where
  "commitLast r = (let r = r\<lparr>empty_flag := False\<rparr> in r\<lparr>usedBuffers := usedBuffers r + 1\<rparr>)"

definition ring_len :: "'a ring \<Rightarrow> u32" where
  "ring_len r =
     (let tmp = (bufferTail r + ring_size r - bufferHead r) mod ring_size r
      in if tmp = 0 \<and> \<not> empty_flag r then ring_size r else tmp)"

text \<open>The producer fills the buffer between \<open>acquireLast\<close> and \<open>commitLast\<close>.\<close>

definition fill :: "u32 \<Rightarrow> 'a \<Rightarrow> 'a ring \<Rightarrow> 'a ring" where
  "fill i x r = r\<lparr>queue := (queue r)[unat i := x]\<rparr>"

definition ring_put :: "'a \<Rightarrow> 'a ring \<Rightarrow> 'a ring option" where
  "ring_put x r = map_option (\<lambda>(i, r). commitLast (fill i x r)) (acquireLast r)"

section \<open>A bounded queue\<close>

text \<open>
  Calls of the producer and the consumer in any order, and what they observe: the producer whether it gets a buffer
  (a blocked producer ends the run) and \<open>len\<close> afterwards; the consumer \<open>isEmpty\<close>, the buffer at the front if there is
  one, whether the buffer was released, and \<open>len\<close> afterwards.
\<close>

datatype 'a queue_op = Put 'a | Take

datatype 'a queue_out = Blocked | Stored nat | Taken bool "'a res option" bool nat

fun queue_run ::
  "('a \<Rightarrow> 'q \<Rightarrow> 'q option) \<Rightarrow> ('q \<Rightarrow> 'a res) \<Rightarrow> ('q \<Rightarrow> bool \<times> 'q) \<Rightarrow> ('q \<Rightarrow> nat) \<Rightarrow> ('q \<Rightarrow> bool)
   \<Rightarrow> 'a queue_op list \<Rightarrow> 'q \<Rightarrow> 'a queue_out list" where
  "queue_run put front pop len isEmpty [] q = []"
| "queue_run put front pop len isEmpty (Put x # ops) q =
     (case put x q of None \<Rightarrow> [Blocked] | Some q' \<Rightarrow> Stored (len q') # queue_run put front pop len isEmpty ops q')"
| "queue_run put front pop len isEmpty (Take # ops) q =
     (let e = isEmpty q; y = (if e then None else Some (front q)); (b, q') = pop q
      in Taken e y b (len q') # queue_run put front pop len isEmpty ops q')"

definition ring_run :: "'a queue_op list \<Rightarrow> 'a ring \<Rightarrow> 'a queue_out list" where
  "ring_run = queue_run ring_put ring_front nonBlockingPopFront (\<lambda>r. unat (ring_len r)) ring_isEmpty"

text \<open>The same run of a list of at most \<open>n\<close> elements.\<close>

fun list_run :: "nat \<Rightarrow> 'a queue_op list \<Rightarrow> 'a list \<Rightarrow> 'a queue_out list" where
  "list_run n [] xs = []"
| "list_run n (Put x # ops) xs =
     (if length xs = n then [Blocked] else Stored (length xs + 1) # list_run n ops (xs @ [x]))"
| "list_run n (Take # ops) [] = Taken True None False 0 # list_run n ops []"
| "list_run n (Take # ops) (x # xs) = Taken False (Some (Inr x)) True (length xs) # list_run n ops xs"

text \<open>The contents, from the head on, and the ring that represents them.\<close>

definition contents :: "'a ring \<Rightarrow> 'a list" where
  "contents r = map (\<lambda>k. queue r ! ((unat (bufferHead r) + k) mod unat (ring_size r))) [0..<usedBuffers r]"

definition ring_ok :: "'a ring \<Rightarrow> bool" where
  "ring_ok r \<longleftrightarrow> 0 < ring_size r \<and> ring_size r \<le> 0x80000000 \<and> length (queue r) = unat (ring_size r)
     \<and> bufferHead r < ring_size r \<and> usedBuffers r + freeBuffers r = unat (ring_size r)
     \<and> bufferTail r < ring_size r
     \<and> unat (bufferTail r) = (unat (bufferHead r) + usedBuffers r) mod unat (ring_size r)
     \<and> (empty_flag r \<longleftrightarrow> usedBuffers r = 0)"

locale bounded_queue =
  fixes ok :: "'q \<Rightarrow> bool" and items :: "'q \<Rightarrow> 'a list" and bound :: "'q \<Rightarrow> nat"
    and put :: "'a \<Rightarrow> 'q \<Rightarrow> 'q option" and front :: "'q \<Rightarrow> 'a res" and pop :: "'q \<Rightarrow> bool \<times> 'q"
    and len :: "'q \<Rightarrow> nat" and isEmpty :: "'q \<Rightarrow> bool"
  assumes bounded: "ok q \<Longrightarrow> length (items q) \<le> bound q"
    and put_full: "ok q \<Longrightarrow> length (items q) = bound q \<Longrightarrow> put x q = None"
    and put_room: "ok q \<Longrightarrow> length (items q) < bound q \<Longrightarrow>
      \<exists>q'. put x q = Some q' \<and> ok q' \<and> items q' = items q @ [x] \<and> bound q' = bound q"
    and pop_empty: "ok q \<Longrightarrow> items q = [] \<Longrightarrow> pop q = (False, q)"
    and pop_first: "ok q \<Longrightarrow> items q = y # ys \<Longrightarrow>
      front q = Inr y \<and> (\<exists>q'. pop q = (True, q') \<and> ok q' \<and> items q' = ys \<and> bound q' = bound q)"
    and len_items: "ok q \<Longrightarrow> len q = length (items q)"
    and isEmpty_items: "ok q \<Longrightarrow> isEmpty q \<longleftrightarrow> items q = []"
begin

text \<open>Every run is the run of the list of the contents.\<close>

lemma run_items: "ok q \<Longrightarrow> queue_run put front pop len isEmpty ops q = list_run (bound q) ops (items q)"
proof (induction ops arbitrary: q)
  case (Cons a ops)
  show ?case
  proof (cases a)
    case (Put x)
    show ?thesis
    proof (cases "length (items q) = bound q")
      case True
      then show ?thesis using Put put_full [OF Cons.prems] by simp
    next
      case False
      then obtain q' where q': "put x q = Some q'" "ok q'" "items q' = items q @ [x]" "bound q' = bound q"
        using put_room [OF Cons.prems] bounded [OF Cons.prems] by fastforce
      then show ?thesis using Put False Cons.IH [OF q'(2)] len_items [OF q'(2)] by simp
    qed
  next
    case Take
    show ?thesis
    proof (cases "items q")
      case Nil
      then show ?thesis
        using Take Cons.IH [OF Cons.prems] pop_empty [OF Cons.prems Nil] len_items [OF Cons.prems]
          isEmpty_items [OF Cons.prems] by simp
    next
      case (Cons y ys)
      then obtain q' where q': "front q = Inr y" "pop q = (True, q')" "ok q'" "items q' = ys" "bound q' = bound q"
        using pop_first [OF Cons.prems] by auto
      then show ?thesis
        using Take Cons Cons.IH [OF q'(3)] len_items [OF q'(3)] isEmpty_items [OF Cons.prems] by simp
    qed
  qed
qed simp

end

lemma unat_Suc_less: "h < n \<Longrightarrow> unat (h + 1 :: u32) = unat h + 1"
  using unat_u32_less [of n] by (simp add: word_less_nat_alt unat_word_ariths)

lemma next_index: "h < n \<Longrightarrow> unat ((h + 1) mod n :: u32) = (unat h + 1) mod unat n"
  by (simp add: unat_mod_distrib unat_Suc_less)

lemma next_less: "h < n \<Longrightarrow> (h + 1) mod n < (n :: u32)"
  by (simp add: word_less_nat_alt next_index)

lemma pos_unat: "0 < (n :: u32) \<Longrightarrow> 0 < unat n"
  by (simp add: word_less_nat_alt)

lemma ring_ok_new:
  "0 < n \<Longrightarrow> n \<le> 0x80000000 \<Longrightarrow> ring_ok (ring_new n x) \<and> contents (ring_new n x) = []"
  by (simp add: ring_ok_def ring_new_def contents_def)

lemma contents_length [simp]: "length (contents r) = usedBuffers r"
  by (simp add: contents_def)

lemma mod_add_less: "i \<le> j \<Longrightarrow> j < n \<Longrightarrow> (h + i) mod n = (h + j) mod n \<Longrightarrow> i = (j :: nat)"
proof -
  assume a: "i \<le> j" "j < n" "(h + i) mod n = (h + j) mod n"
  then have "n dvd (h + j) - (h + i)"
    using mod_eq_dvd_iff_nat [of "h + i" "h + j" n] by simp
  then have "n dvd j - i" by simp
  then show ?thesis using a nat_dvd_not_less [of "j - i" n] by fastforce
qed

lemma mod_add_inj: "i < n \<Longrightarrow> j < n \<Longrightarrow> (h + i) mod n = (h + j) mod n \<longleftrightarrow> i = (j :: nat)"
  using mod_add_less [of i j n h] mod_add_less [of j i n h] by (metis nat_le_linear)

lemma put_ring:
  assumes ok: "ring_ok r"
  shows "usedBuffers r = unat (ring_size r) \<Longrightarrow> ring_put x r = None"
    and "usedBuffers r < unat (ring_size r) \<Longrightarrow>
      \<exists>r'. ring_put x r = Some r' \<and> ring_ok r' \<and> contents r' = contents r @ [x] \<and> ring_size r' = ring_size r"
proof -
  show "ring_put x r = None" if "usedBuffers r = unat (ring_size r)"
    using ok that by (simp add: ring_put_def acquireLast_def ring_ok_def)
  assume u: "usedBuffers r < unat (ring_size r)"
  let ?n = "unat (ring_size r)" and ?h = "unat (bufferHead r)" and ?k = "usedBuffers r" and ?t = "unat (bufferTail r)"
  define r' where "r' = r\<lparr>freeBuffers := freeBuffers r - 1, bufferTail := (bufferTail r + 1) mod ring_size r,
      queue := (queue r)[?t := x], empty_flag := False, usedBuffers := ?k + 1\<rparr>"
  have f: "freeBuffers r \<noteq> 0" using ok u by (auto simp: ring_ok_def)
  then have p: "ring_put x r = Some r'"
    by (simp add: ring_put_def acquireLast_def commitLast_def fill_def r'_def)
  have t: "?t = (?h + ?k) mod ?n" "?t < ?n" "length (queue r) = ?n" "bufferTail r < ring_size r"
    using ok by (auto simp: ring_ok_def word_less_nat_alt)
  have "unat ((bufferTail r + 1) mod ring_size r) = (?h + Suc ?k) mod ?n"
    using t by (simp add: next_index mod_simps)
  then have "ring_ok r'"
    using ok f t(4) by (simp add: ring_ok_def r'_def next_less)
  moreover have "contents r' = contents r @ [x]"
  proof (rule nth_equalityI)
    fix i assume "i < length (contents r')"
    then have i: "i < ?k + 1" by (simp add: r'_def)
    show "contents r' ! i = (contents r @ [x]) ! i"
    proof (cases "i < ?k")
      case True
      then have "(?h + i) mod ?n \<noteq> ?t"
        using u mod_add_inj [of i ?n ?k ?h] t(1) by auto
      then show ?thesis using True by (simp add: contents_def r'_def nth_append)
    next
      case False
      then have "i = ?k" using i by simp
      then show ?thesis using t by (simp add: contents_def r'_def nth_append del: upt_Suc)
    qed
  qed (simp add: r'_def)
  ultimately show "\<exists>r'. ring_put x r = Some r' \<and> ring_ok r' \<and> contents r' = contents r @ [x] \<and> ring_size r' = ring_size r"
    using p by (auto simp: r'_def)
qed

lemma pop_ring:
  assumes ok: "ring_ok r" and c: "contents r = y # ys"
  shows "ring_front r = Inr y
    \<and> (\<exists>r'. nonBlockingPopFront r = (True, r') \<and> ring_ok r' \<and> contents r' = ys \<and> ring_size r' = ring_size r)"
proof -
  let ?n = "unat (ring_size r)" and ?h = "unat (bufferHead r)" and ?k = "usedBuffers r" and ?t = "unat (bufferTail r)"
  let ?h' = "(bufferHead r + 1) mod ring_size r"
  have k: "?k = Suc (length ys)" using c contents_length [of r] by simp
  have n: "?h < ?n" "length (queue r) = ?n" "?t = (?h + ?k) mod ?n" "?k \<le> ?n" "bufferHead r < ring_size r"
    using ok by (auto simp: ring_ok_def word_less_nat_alt)
  have h': "unat ?h' = (?h + 1) mod ?n" using n(5) by (rule next_index)
  have nth: "contents r ! i = queue r ! ((?h + i) mod ?n)" if "i < ?k" for i
    using that by (simp add: contents_def)
  have "ring_front r = Inr y"
    using ok k n nth [of 0] c by (simp add: ring_front_def ring_ok_def rd_def)
  moreover define r' where "r' = r\<lparr>usedBuffers := ?k - 1, bufferHead := ?h',
      empty_flag := (?k = 1), freeBuffers := freeBuffers r + 1\<rparr>"
  have "(?h + 1) mod ?n = ?t \<longleftrightarrow> ?k = 1"
  proof (cases "?k = ?n")
    case True
    then have "?t = (?h + 0) mod ?n" using n by simp
    then show ?thesis
      using True k n mod_add_inj [of 1 ?n 0 ?h] by (cases "?n = 1") auto
  next
    case False
    then show ?thesis using n k mod_add_inj [of 1 ?n ?k ?h] by auto
  qed
  then have e: "?h' = bufferTail r \<longleftrightarrow> ?k = 1" by (simp add: word_unat_eq_iff h')
  have flag: "\<not> empty_flag r" using ok k by (simp add: ring_ok_def)
  have "nonBlockingPopFront r = (True, r')"
    using k e flag by (cases "?k = 1") (simp_all add: nonBlockingPopFront_def r'_def Let_def)
  moreover have "ring_ok r'"
    using ok k h' by (auto simp: ring_ok_def r'_def next_less mod_simps)
  moreover have "contents r' = ys"
  proof (rule nth_equalityI)
    show "length (contents r') = length ys" by (simp add: r'_def k)
    fix i assume "i < length (contents r')"
    then have i: "i < length ys" by (simp add: r'_def k)
    have "contents r' ! i = queue r ! (((?h + 1) mod ?n + i) mod ?n)"
      using i k h' by (simp add: contents_def r'_def)
    also have "((?h + 1) mod ?n + i) mod ?n = (?h + Suc i) mod ?n"
      by (simp add: mod_simps)
    also have "queue r ! ((?h + Suc i) mod ?n) = contents r ! Suc i"
      using nth [of "Suc i"] i k by simp
    finally show "contents r' ! i = ys ! i" using c by simp
  qed
  ultimately show ?thesis by (auto simp: r'_def)
qed

text \<open>\<open>len\<close> adds the size to the tail, which does not wrap around in a ring of at most \<open>2 ^ 31\<close> buffers.\<close>

lemma ring_len_contents:
  assumes "ring_ok r"
  shows "unat (ring_len r) = length (contents r)"
proof -
  let ?n = "unat (ring_size r)" and ?h = "unat (bufferHead r)" and ?k = "usedBuffers r" and ?t = "unat (bufferTail r)"
  have n: "0 < ?n" "?h < ?n" "?t < ?n" "?n \<le> 2147483648" "?t = (?h + ?k) mod ?n" "?k \<le> ?n" "empty_flag r \<longleftrightarrow> ?k = 0"
    using assms by (auto simp: ring_ok_def word_less_nat_alt word_le_nat_alt)
  have add: "unat (bufferTail r + ring_size r) = ?t + ?n"
    using n(2,3,4) by (simp add: unat_word_ariths)
  have "unat (bufferTail r + ring_size r - bufferHead r) = ?t + ?n - ?h"
    using n add by (subst unat_sub) (simp_all add: word_le_nat_alt)
  then have tmp: "unat ((bufferTail r + ring_size r - bufferHead r) mod ring_size r) = (?t + ?n - ?h) mod ?n"
    by (simp add: unat_mod_distrib)
  have m: "(?t + ?n - ?h) mod ?n = ?k mod ?n"
  proof (cases "?h + ?k < ?n")
    case True
    then show ?thesis using n by simp
  next
    case False
    then have "(?h + ?k) mod ?n = ?h + ?k - ?n"
      using n by (simp add: mod_if)
    then show ?thesis using n False by simp
  qed
  have "(bufferTail r + ring_size r - bufferHead r) mod ring_size r = 0 \<longleftrightarrow> ?k mod ?n = 0"
    using tmp m by (metis unat_0 unat_eq_0)
  then show ?thesis
    using n tmp m by (cases "?k = ?n") (auto simp: ring_len_def Let_def)
qed

interpretation ring_queue: bounded_queue ring_ok contents "\<lambda>r. unat (ring_size r)" ring_put ring_front nonBlockingPopFront
  "\<lambda>r. unat (ring_len r)" ring_isEmpty
proof
  show "length (contents r) \<le> unat (ring_size r)" if "ring_ok r" for r :: "'a ring"
    using that by (auto simp: ring_ok_def)
  show "nonBlockingPopFront r = (False, r)" if "ring_ok r" "contents r = []" for r :: "'a ring"
    using that by (simp add: contents_def nonBlockingPopFront_def)
  show "ring_isEmpty r \<longleftrightarrow> contents r = []" if "ring_ok r" for r :: "'a ring"
    using that contents_length [of r] by (auto simp: ring_ok_def ring_isEmpty_def simp del: contents_length)
qed (use put_ring pop_ring in \<open>fastforce simp: ring_len_contents\<close>)+

text \<open>C21: A ring of \<open>n\<close> buffers, with \<open>n\<close> from 1 to \<open>2 ^ 31\<close>, is a queue of at most \<open>n\<close> elements: for every sequence of puts
  (\<open>acquireLast\<close>, the filling of the buffer and \<open>commitLast\<close> with no call of the consumer between them) and takes
  (\<open>isEmpty\<close>, \<open>front\<close> if it is not empty, \<open>nonBlockingPopFront\<close>) of a new ring, in any order and however often the
  indices go round, what the calls return is what a list of elements yields. A put blocks if and only if there are
  \<open>n\<close> elements in the queue, a take gets the oldest element that is left and frees its buffer, \<open>isEmpty\<close> tells whether
  there is one, and \<open>len\<close> is the number of elements after every call.\<close>

theorem ring_is_queue:
  assumes "0 < n" and "n \<le> 0x80000000"
  shows "ring_run ops (ring_new n z) = list_run (unat n) ops []"
  using ring_queue.run_items [of "ring_new n z" ops] ring_ok_new [OF assms, of z]
  by (simp add: ring_run_def ring_new_def)

theorem ring_is_queue_witness:
  "ring_run [Put 5, Put 6, Put 7, Take, Put 8, Take, Take, Take, Take, Put 9] (ring_new 3 (0 :: nat))
   = [Stored 1, Stored 2, Stored 3, Taken False (Some (Inr 5)) True 2, Stored 3, Taken False (Some (Inr 6)) True 2,
      Taken False (Some (Inr 7)) True 1, Taken False (Some (Inr 8)) True 0, Taken True None False 0, Stored 1]"
  by (subst ring_is_queue) simp_all

section \<open>A look at the ring in between\<close>

text \<open>
  A consumer that takes the last committed element while the producer holds a buffer it has not committed yet finds
  \<open>isEmpty\<close> false afterwards, and \<open>front\<close> returns the buffer that is being filled.
\<close>

lemma empty_flag_wrong:
  "\<exists>r i r' r''. ring_put 5 (ring_new 3 0) = Some r \<and> acquireLast r = Some (i, r') \<and> nonBlockingPopFront r' = (True, r'')
     \<and> usedBuffers r'' = 0 \<and> \<not> ring_isEmpty r'' \<and> ring_front r'' = Inr (0 :: nat)"
proof -
  have "replicate 3 (0 :: nat) = [0, 0, 0]"
    by (simp add: numeral_3_eq_3)
  then show ?thesis
    by (simp add: ring_put_def acquireLast_def commitLast_def fill_def ring_new_def nonBlockingPopFront_def
        ring_isEmpty_def ring_front_def rd_def)
qed

text \<open>In a ring of more than \<open>2 ^ 31\<close> buffers the sum in \<open>len\<close> wraps around.\<close>

lemma ring_len_wraps:
  "ring_len \<lparr>queue = q, freeBuffers = 1000000000, usedBuffers = 2000000000, bufferHead = 0, bufferTail = 2000000000,
     ring_size = 3000000000, empty_flag = False\<rparr> = 705032704"
  by (simp add: ring_len_def)

end
