(* ===== verification/ThreadPool.thy ===== *)
theory ThreadPool
  imports LS_Prelude "HOL-Library.Multiset"
begin

text \<open>
  The thread pool, \<open>thread_pool.cpp\<close>: workers that take jobs from a queue, additional threads for the jobs that find all
  workers busy, and the ways in which the pool is stopped.

  Every thread is a program counter; a step of a thread goes from one access of the shared state to the next one, and
  what a function does with the mutex held is one step. The semaphore is its count, and a thread that would
  block has no step. What \<open>execute\<close> does is not modelled, except that it ends (the worker catches all
  exceptions); the jobs that were started and aborted and every call of \<open>jobFence\<close> (\<open>fenced\<close>) are recorded in the state;
  two further records single out the calls of \<open>jobFence\<close> for jobs that were never started (\<open>dropped\<close>) and those for the
  job of an additional thread by the thread that stops the pool (\<open>refenced\<close>), which the thread itself fences as well.
\<close>

section \<open>The state\<close>

type_synonym job = nat

datatype worker_pc =
    AtWait | AtTest | AtLock | AtStart job | AtExecute job | AtFence job | Exited

record worker_thread =
  pc :: worker_pc
  cur_job :: "job option"

datatype extra_pc = XStart job | XExecute job | XFence job | XClear | XExited

record extra_thread =
  xpc :: extra_pc
  pair_second :: "job option"

text \<open>Where the thread is that is in \<open>forceStop\<close>, \<open>waitAll\<close> or \<open>forceStopWorker\<close>; \<open>Calm\<close> is outside of them.\<close>

datatype caller =
    Calm
  | StopSignal nat | StopFence | StopJoin nat | StopExtra nat | StopExtraJoin nat | Stopped
  | WaitSignal nat | WaitJoin nat | WaitExtra nat | Waited
  | KillSignal nat nat | KillFence nat | KillExtra nat nat | KillExtraJoin nat nat

record pool =
  threadPool :: "worker_thread list"
  additionalThreads :: "extra_thread list"
  jobs :: "job list"
  num_jobs :: nat
  stopFlag :: bool
  runcount :: nat
  caller :: caller
  added :: "job list"
  started :: "job list"
  fenced :: "job list"
  dropped :: "job list"
  refenced :: "job list"
  aborted :: "job list"

definition pool_new :: "nat \<Rightarrow> pool" where
  "pool_new threads = \<lparr>threadPool = replicate threads \<lparr>pc = AtWait, cur_job = None\<rparr>, additionalThreads = [], jobs = [],
     num_jobs = 0, stopFlag = False, runcount = 0, caller = Calm,
     added = [], started = [], fenced = [], dropped = [], refenced = [], aborted = []\<rparr>"

section \<open>The steps\<close>

abbreviation set_worker :: "nat \<Rightarrow> worker_thread \<Rightarrow> pool \<Rightarrow> pool" where
  "set_worker i w s \<equiv> s\<lparr>threadPool := (threadPool s)[i := w]\<rparr>"

abbreviation set_extra :: "nat \<Rightarrow> extra_thread \<Rightarrow> pool \<Rightarrow> pool" where
  "set_extra i x s \<equiv> s\<lparr>additionalThreads := (additionalThreads s)[i := x]\<rparr>"

definition job_worker :: "nat \<Rightarrow> pool \<Rightarrow> pool option" where
  "job_worker i s =
     (if length (threadPool s) \<le> i then None
      else let w = threadPool s ! i in
        case pc w of
          AtWait \<Rightarrow> if num_jobs s = 0 then None
            else Some (set_worker i (w\<lparr>pc := AtTest\<rparr>) (s\<lparr>num_jobs := num_jobs s - 1\<rparr>))
        | AtTest \<Rightarrow> Some (set_worker i (w\<lparr>pc := if stopFlag s then Exited else AtLock\<rparr>) s)
        | AtLock \<Rightarrow> (case jobs s of
              [] \<Rightarrow> Some (set_worker i (w\<lparr>pc := Exited\<rparr>) s)
            | myJob # js \<Rightarrow> Some (set_worker i \<lparr>pc = AtStart myJob, cur_job = Some myJob\<rparr>
                (s\<lparr>jobs := js, runcount := runcount s + 1\<rparr>)))
        | AtStart myJob \<Rightarrow>
            if stopFlag s then Some (set_worker i (w\<lparr>pc := Exited\<rparr>) s)
            else Some (set_worker i (w\<lparr>pc := AtExecute myJob\<rparr>) (s\<lparr>started := started s @ [myJob]\<rparr>))
        | AtExecute myJob \<Rightarrow>
            Some (set_worker i \<lparr>pc = AtFence myJob, cur_job = None\<rparr> (s\<lparr>runcount := runcount s - 1\<rparr>))
        | AtFence myJob \<Rightarrow>
            Some (set_worker i (w\<lparr>pc := AtWait\<rparr>) (s\<lparr>fenced := fenced s @ [myJob]\<rparr>))
        | Exited \<Rightarrow> None)"

definition runAdditionalThread :: "job \<Rightarrow> pool \<Rightarrow> pool" where
  "runAdditionalThread j s =
     s\<lparr>additionalThreads := additionalThreads s @ [\<lparr>xpc = XStart j, pair_second = Some j\<rparr>]\<rparr>"

definition addJob :: "job \<Rightarrow> pool \<Rightarrow> pool" where
  "addJob j s =
     (let s = s\<lparr>added := added s @ [j]\<rparr> in
      if stopFlag s then s\<lparr>fenced := fenced s @ [j], dropped := dropped s @ [j]\<rparr>
      else if runcount s = length (threadPool s) then runAdditionalThread j s
      else s\<lparr>jobs := jobs s @ [j], num_jobs := num_jobs s + 1\<rparr>)"

definition additional_job_worker :: "nat \<Rightarrow> pool \<Rightarrow> pool option" where
  "additional_job_worker i s =
     (if length (additionalThreads s) \<le> i then None
      else let x = additionalThreads s ! i in
        case xpc x of
          XStart myJob \<Rightarrow> Some (set_extra i (x\<lparr>xpc := XExecute myJob\<rparr>) (s\<lparr>started := started s @ [myJob]\<rparr>))
        | XExecute myJob \<Rightarrow> Some (set_extra i (x\<lparr>xpc := XFence myJob\<rparr>) s)
        | XFence myJob \<Rightarrow> Some (set_extra i (x\<lparr>xpc := XClear\<rparr>) (s\<lparr>fenced := fenced s @ [myJob]\<rparr>))
        | XClear \<Rightarrow> Some (set_extra i \<lparr>xpc = XExited, pair_second = None\<rparr> s)
        | XExited \<Rightarrow> None)"

text \<open>The jobs that the workers are executing, as the pool sees them.\<close>

definition running :: "pool \<Rightarrow> job list" where
  "running s = concat (map (\<lambda>w. case cur_job w of None \<Rightarrow> [] | Some j \<Rightarrow> [j]) (threadPool s))"

definition forceStop :: "pool \<Rightarrow> pool option" where
  "forceStop s = (case caller s of
       Calm \<Rightarrow> if stopFlag s then None else Some (s\<lparr>stopFlag := True, caller := StopSignal 0\<rparr>)
     | StopSignal k \<Rightarrow>
         if k < length (threadPool s) then Some (s\<lparr>num_jobs := num_jobs s + 1, caller := StopSignal (k + 1)\<rparr>)
         else Some (s\<lparr>caller := StopFence\<rparr>)
     | StopFence \<Rightarrow>
         Some (s\<lparr>aborted := aborted s @ running s, fenced := fenced s @ jobs s, dropped := dropped s @ jobs s,
           jobs := [], caller := StopJoin 0\<rparr>)
     | StopJoin i \<Rightarrow>
         if i < length (threadPool s)
         then if pc (threadPool s ! i) = Exited then Some (s\<lparr>caller := StopJoin (i + 1)\<rparr>) else None
         else Some (s\<lparr>caller := StopExtra 0\<rparr>)
     | StopExtra i \<Rightarrow>
         if i < length (additionalThreads s)
         then (case pair_second (additionalThreads s ! i) of
             None \<Rightarrow> Some (s\<lparr>caller := StopExtraJoin i\<rparr>)
           | Some job \<Rightarrow> Some (s\<lparr>aborted := aborted s @ [job], fenced := fenced s @ [job],
               refenced := refenced s @ [job], caller := StopExtraJoin i\<rparr>))
         else Some (s\<lparr>caller := Stopped\<rparr>)
     | StopExtraJoin i \<Rightarrow>
         if xpc (additionalThreads s ! i) = XExited then Some (s\<lparr>caller := StopExtra (i + 1)\<rparr>) else None
     | _ \<Rightarrow> None)"

definition waitAll :: "pool \<Rightarrow> pool option" where
  "waitAll s = (case caller s of
       Calm \<Rightarrow> Some (s\<lparr>caller := WaitSignal 0\<rparr>)
     | WaitSignal k \<Rightarrow>
         if k < length (threadPool s) then Some (s\<lparr>num_jobs := num_jobs s + 1, caller := WaitSignal (k + 1)\<rparr>)
         else Some (s\<lparr>caller := WaitJoin 0\<rparr>)
     | WaitJoin i \<Rightarrow>
         if i < length (threadPool s)
         then if pc (threadPool s ! i) = Exited then Some (s\<lparr>caller := WaitJoin (i + 1)\<rparr>) else None
         else Some (s\<lparr>threadPool := [], caller := WaitExtra 0\<rparr>)
     | WaitExtra i \<Rightarrow>
         if i < length (additionalThreads s)
         then if xpc (additionalThreads s ! i) = XExited then Some (s\<lparr>caller := WaitExtra (i + 1)\<rparr>) else None
         else Some (s\<lparr>additionalThreads := [], caller := Waited\<rparr>)
     | _ \<Rightarrow> None)"

text \<open>The workers that started the jobs (\<open>fromWorker\<close>) are a parameter of \<open>forceStopWorker\<close>.\<close>

definition forceStopWorker :: "(job \<Rightarrow> nat) \<Rightarrow> nat \<Rightarrow> pool \<Rightarrow> pool option" where
  "forceStopWorker fromWorker wrk s = (case caller s of
       Calm \<Rightarrow> Some (s\<lparr>caller := KillSignal wrk 0\<rparr>)
     | KillSignal w k \<Rightarrow>
         if w \<noteq> wrk then None
         else if k < length (threadPool s) then Some (s\<lparr>num_jobs := num_jobs s + 1, caller := KillSignal wrk (k + 1)\<rparr>)
         else Some (s\<lparr>caller := KillFence wrk\<rparr>)
     | KillFence w \<Rightarrow>
         if w \<noteq> wrk then None
         else Some (s\<lparr>aborted := aborted s @ filter (\<lambda>j. fromWorker j = wrk) (running s),
                fenced := fenced s @ filter (\<lambda>j. fromWorker j = wrk) (jobs s),
                dropped := dropped s @ filter (\<lambda>j. fromWorker j = wrk) (jobs s),
                jobs := filter (\<lambda>j. fromWorker j \<noteq> wrk) (jobs s), caller := KillExtra wrk 0\<rparr>)
     | KillExtra w i \<Rightarrow>
         if w \<noteq> wrk then None
         else if i < length (additionalThreads s)
         then (case pair_second (additionalThreads s ! i) of
             None \<Rightarrow> Some (s\<lparr>caller := KillExtra wrk (i + 1)\<rparr>)
           | Some job \<Rightarrow>
               if fromWorker job = wrk
               then Some (s\<lparr>aborted := aborted s @ [job], fenced := fenced s @ [job],
                 refenced := refenced s @ [job], caller := KillExtraJoin wrk i\<rparr>)
               else Some (s\<lparr>caller := KillExtra wrk (i + 1)\<rparr>))
         else Some (s\<lparr>caller := Calm\<rparr>)
     | KillExtraJoin w i \<Rightarrow>
         if w \<noteq> wrk \<or> xpc (additionalThreads s ! i) \<noteq> XExited then None
         else Some (s\<lparr>additionalThreads := take i (additionalThreads s) @ drop (i + 1) (additionalThreads s),
                caller := KillExtra wrk i\<rparr>)
     | _ \<Rightarrow> None)"

datatype act = Add job | Work nat | Extra nat | Stop | WaitAll | Kill nat

fun pool_act :: "(job \<Rightarrow> nat) \<Rightarrow> act \<Rightarrow> pool \<Rightarrow> pool option" where
  "pool_act fromWorker (Add j) s = Some (addJob j s)"
| "pool_act fromWorker (Work i) s = job_worker i s"
| "pool_act fromWorker (Extra i) s = additional_job_worker i s"
| "pool_act fromWorker Stop s = forceStop s"
| "pool_act fromWorker WaitAll s = waitAll s"
| "pool_act fromWorker (Kill w) s = forceStopWorker fromWorker w s"

text \<open>Any order of the steps of all threads.\<close>

inductive pool_reach :: "(job \<Rightarrow> nat) \<Rightarrow> pool \<Rightarrow> act list \<Rightarrow> pool \<Rightarrow> bool" for fromWorker s where
  reach_start: "pool_reach fromWorker s [] s"
| reach_step: "pool_reach fromWorker s acts t \<Longrightarrow> pool_act fromWorker a t = Some u \<Longrightarrow>
     pool_reach fromWorker s (acts @ [a]) u"

section \<open>Where a job is\<close>

lemma sum_part: "i < length xs \<Longrightarrow> f (xs ! i) \<le> (sum_list (map f xs) :: nat)"
  by (rule member_le_sum_list) auto

lemma sum_update:
  "i < length xs \<Longrightarrow> sum_list (map f (xs[i := x])) = sum_list (map f xs) + f x - (f (xs ! i) :: nat)"
proof (induction xs arbitrary: i)
  case (Cons y xs)
  show ?case
  proof (cases i)
    case (Suc k)
    then show ?thesis using Cons sum_part [of k xs f] by simp
  qed simp
qed simp

definition has :: "job \<Rightarrow> job option \<Rightarrow> nat" where "has j x = (if x = Some j then 1 else 0)"

lemma has_simps [simp]: "has j None = 0" "has j (Some i) = (if i = j then 1 else 0)"
  by (auto simp: has_def)

text \<open>A worker holds the job it has taken and not yet fenced, also one that ended with it.\<close>

fun held :: "job \<Rightarrow> worker_thread \<Rightarrow> nat" where
  "held j w = (case pc w of AtStart i \<Rightarrow> has j (Some i) | AtExecute i \<Rightarrow> has j (Some i) | AtFence i \<Rightarrow> has j (Some i)
     | Exited \<Rightarrow> has j (cur_job w) | _ \<Rightarrow> 0)"

fun unstarted :: "job \<Rightarrow> worker_thread \<Rightarrow> nat" where
  "unstarted j w = (case pc w of AtStart i \<Rightarrow> has j (Some i) | Exited \<Rightarrow> has j (cur_job w) | _ \<Rightarrow> 0)"

fun xheld :: "job \<Rightarrow> extra_thread \<Rightarrow> nat" where
  "xheld j x = (case xpc x of XStart i \<Rightarrow> has j (Some i) | XExecute i \<Rightarrow> has j (Some i) | XFence i \<Rightarrow> has j (Some i) | _ \<Rightarrow> 0)"

fun xunstarted :: "job \<Rightarrow> extra_thread \<Rightarrow> nat" where
  "xunstarted j x = (case xpc x of XStart i \<Rightarrow> has j (Some i) | _ \<Rightarrow> 0)"

fun busy :: "worker_thread \<Rightarrow> nat" where
  "busy w = (case pc w of AtStart i \<Rightarrow> 1 | AtExecute i \<Rightarrow> 1 | Exited \<Rightarrow> (if cur_job w = None then 0 else 1) | _ \<Rightarrow> 0)"

abbreviation over :: "('a \<Rightarrow> nat) \<Rightarrow> 'a list \<Rightarrow> nat" where "over f xs \<equiv> sum_list (map f xs)"

definition accounted :: "job \<Rightarrow> pool \<Rightarrow> bool" where
  "accounted j s \<longleftrightarrow>
     count_list (added s) j + count_list (refenced s) j = count_list (jobs s) j + over (held j) (threadPool s)
       + over (xheld j) (additionalThreads s) + count_list (fenced s) j
   \<and> count_list (added s) j = count_list (jobs s) j + over (unstarted j) (threadPool s)
       + over (xunstarted j) (additionalThreads s) + count_list (started s) j + count_list (dropped s) j"

fun stopping :: "caller \<Rightarrow> bool" where
  "stopping c = (case c of StopSignal k \<Rightarrow> True | StopFence \<Rightarrow> True | StopJoin i \<Rightarrow> True | StopExtra i \<Rightarrow> True
     | StopExtraJoin i \<Rightarrow> True | Stopped \<Rightarrow> True | _ \<Rightarrow> False)"

fun worker_ok :: "bool \<Rightarrow> worker_thread \<Rightarrow> bool" where
  "worker_ok stop w = (case pc w of AtStart i \<Rightarrow> cur_job w = Some i | AtExecute i \<Rightarrow> cur_job w = Some i
     | Exited \<Rightarrow> stop \<or> cur_job w = None | _ \<Rightarrow> cur_job w = None)"

fun needy :: "worker_thread \<Rightarrow> nat" where
  "needy w = (case pc w of AtWait \<Rightarrow> 1 | AtExecute i \<Rightarrow> 1 | AtFence i \<Rightarrow> 1 | _ \<Rightarrow> 0)"

definition exited_upto :: "nat \<Rightarrow> pool \<Rightarrow> bool" where
  "exited_upto i s \<longleftrightarrow> (\<forall>k<length (threadPool s). k < i \<longrightarrow> pc (threadPool s ! k) = Exited)"

definition xexited_upto :: "nat \<Rightarrow> pool \<Rightarrow> bool" where
  "xexited_upto i s \<longleftrightarrow> (\<forall>k<length (additionalThreads s). k < i \<longrightarrow> xpc (additionalThreads s ! k) = XExited)"

definition all_exited :: "pool \<Rightarrow> bool" where
  "all_exited s \<longleftrightarrow> exited_upto (length (threadPool s)) s"

text \<open>What the thread that stops the pool has achieved at each point.\<close>

definition caller_ok :: "pool \<Rightarrow> bool" where
  "caller_ok s \<longleftrightarrow> (case caller s of
       StopSignal k \<Rightarrow> k \<le> length (threadPool s) \<and> over needy (threadPool s) \<le> num_jobs s + (length (threadPool s) - k)
     | StopFence \<Rightarrow> over needy (threadPool s) \<le> num_jobs s
     | StopJoin i \<Rightarrow> jobs s = [] \<and> exited_upto i s \<and> over needy (threadPool s) \<le> num_jobs s
     | StopExtra i \<Rightarrow> jobs s = [] \<and> all_exited s \<and> xexited_upto i s
     | StopExtraJoin i \<Rightarrow> jobs s = [] \<and> all_exited s \<and> xexited_upto i s \<and> i < length (additionalThreads s)
     | Stopped \<Rightarrow> jobs s = [] \<and> all_exited s \<and> xexited_upto (length (additionalThreads s)) s
     | WaitJoin i \<Rightarrow> exited_upto i s
     | WaitExtra i \<Rightarrow> i \<le> length (additionalThreads s) \<and> xexited_upto i s
     | KillExtraJoin w i \<Rightarrow> i < length (additionalThreads s)
     | _ \<Rightarrow> True)"

declare worker_ok.simps [simp del] stopping.simps [simp del]

definition pool_ok :: "pool \<Rightarrow> bool" where
  "pool_ok s \<longleftrightarrow> (\<forall>j. accounted j s) \<and> runcount s = over busy (threadPool s)
     \<and> (\<forall>w\<in>set (threadPool s). worker_ok (stopFlag s) w)
     \<and> (stopFlag s \<longleftrightarrow> stopping (caller s)) \<and> caller_ok s"

lemma accounted_work:
  assumes "accounted j s" and "job_worker i s = Some t" and "\<forall>w\<in>set (threadPool s). worker_ok (stopFlag s) w"
  shows "accounted j t"
proof -
  let ?w = "threadPool s ! i"
  have i: "i < length (threadPool s)" using assms(2) by (auto simp: job_worker_def split: if_splits)
  then have ok: "worker_ok (stopFlag s) ?w" using assms(3) by auto
  note u = sum_update [OF i] and p = sum_part [OF i, of "held j"] sum_part [OF i, of "unstarted j"]
  show ?thesis
    using assms(1,2) i p ok
    by (cases "pc ?w"; cases "jobs s") (auto simp: job_worker_def worker_ok.simps accounted_def u Let_def split: if_splits)
qed

lemma work_frame:
  assumes "job_worker i s = Some t"
  shows "stopFlag t = stopFlag s \<and> caller t = caller s \<and> additionalThreads t = additionalThreads s
    \<and> length (threadPool t) = length (threadPool s) \<and> (jobs s = [] \<longrightarrow> jobs t = [])"
    and "exited_upto k s \<Longrightarrow> exited_upto k t"
    and "stopFlag s \<Longrightarrow> over needy (threadPool t) + num_jobs s \<le> over needy (threadPool s) + num_jobs t"
proof -
  let ?w = "threadPool s ! i"
  have i: "i < length (threadPool s)" using assms by (auto simp: job_worker_def split: if_splits)
  note u = sum_update [OF i] and p = sum_part [OF i, of needy]
  show "stopFlag t = stopFlag s \<and> caller t = caller s \<and> additionalThreads t = additionalThreads s
    \<and> length (threadPool t) = length (threadPool s) \<and> (jobs s = [] \<longrightarrow> jobs t = [])"
    using assms i by (cases "pc ?w"; cases "jobs s") (auto simp: job_worker_def Let_def split: if_splits)
  have "pc ?w \<noteq> Exited \<and> (\<exists>w. threadPool t = (threadPool s)[i := w])"
    using assms i by (cases "pc ?w"; cases "jobs s") (auto simp: job_worker_def Let_def split: if_splits)
  then show "exited_upto k s \<Longrightarrow> exited_upto k t"
    using i by (auto simp: exited_upto_def nth_list_update)
  show "stopFlag s \<Longrightarrow> over needy (threadPool t) + num_jobs s \<le> over needy (threadPool s) + num_jobs t"
    using assms i p
    by (cases "pc ?w"; cases "jobs s") (auto simp: job_worker_def u Let_def split: if_splits)
qed

lemma work_busy:
  assumes "runcount s = over busy (threadPool s)" and "\<forall>w\<in>set (threadPool s). worker_ok (stopFlag s) w"
    and "job_worker i s = Some t"
  shows "runcount t = over busy (threadPool t)" and "\<forall>w\<in>set (threadPool t). worker_ok (stopFlag s) w"
proof -
  let ?w = "threadPool s ! i"
  have i: "i < length (threadPool s)" using assms(3) by (auto simp: job_worker_def split: if_splits)
  then have ok: "worker_ok (stopFlag s) ?w" using assms(2) by auto
  note u = sum_update [OF i] and p = sum_part [OF i, of busy]
  show "runcount t = over busy (threadPool t)"
    using assms(1,3) i ok p
    by (cases "pc ?w"; cases "jobs s") (auto simp: job_worker_def worker_ok.simps u Let_def split: if_splits)
  have "\<exists>w. threadPool t = (threadPool s)[i := w] \<and> worker_ok (stopFlag s) w"
    using assms(3) i ok
    by (cases "pc ?w"; cases "jobs s") (auto simp: job_worker_def worker_ok.simps Let_def split: if_splits)
  then show "\<forall>w\<in>set (threadPool t). worker_ok (stopFlag s) w"
    using assms(2) by (auto dest!: set_update_subset_insert [THEN subsetD])
qed

lemma pool_okD:
  assumes "pool_ok s"
  shows "accounted j s" and "runcount s = over busy (threadPool s)" and "\<forall>w\<in>set (threadPool s). worker_ok (stopFlag s) w"
    and "stopFlag s \<longleftrightarrow> stopping (caller s)" and "caller_ok s"
  using assms unfolding pool_ok_def by blast+

lemma pool_okI:
  "(\<And>j. accounted j s) \<Longrightarrow> runcount s = over busy (threadPool s) \<Longrightarrow>
   \<forall>w\<in>set (threadPool s). worker_ok (stopFlag s) w \<Longrightarrow> (stopFlag s \<longleftrightarrow> stopping (caller s)) \<Longrightarrow> caller_ok s \<Longrightarrow> pool_ok s"
  unfolding pool_ok_def by blast

lemma work_ok:
  assumes "pool_ok s" and "job_worker i s = Some t"
  shows "pool_ok t"
proof -
  note ok = pool_okD [OF assms(1)] and f = work_frame [OF assms(2)]
  have "caller_ok t"
  proof (cases "stopFlag s")
    case True
    then show ?thesis
      using ok(5) f(1) f(2) f(3) [OF True]
      by (cases "caller s") (auto simp: caller_ok_def all_exited_def xexited_upto_def)
  next
    case False
    then show ?thesis
      using ok(4,5) f(1,2)
      by (cases "caller s") (auto simp: caller_ok_def stopping.simps xexited_upto_def)
  qed
  then show ?thesis
    using work_busy [OF ok(2,3) assms(2)] accounted_work [OF ok(1) assms(2) ok(3)] ok(4) f(1)
    by (intro pool_okI) simp_all
qed

lemma extra_frame:
  assumes "additional_job_worker i s = Some t"
  shows "stopFlag t = stopFlag s" and "caller t = caller s" and "threadPool t = threadPool s" and "jobs t = jobs s"
    and "num_jobs t = num_jobs s" and "runcount t = runcount s" and "dropped t = dropped s"
    and "length (additionalThreads t) = length (additionalThreads s)" and "refenced t = refenced s"
  using assms by (cases "xpc (additionalThreads s ! i)"; auto simp: additional_job_worker_def Let_def split: if_splits)+

lemma extra_ok:
  assumes "pool_ok s" and "additional_job_worker i s = Some t"
  shows "pool_ok t"
proof -
  let ?x = "additionalThreads s ! i"
  have i: "i < length (additionalThreads s)" using assms(2) by (auto simp: additional_job_worker_def split: if_splits)
  note ok = pool_okD [OF assms(1)] and u = sum_update [OF i] and p = sum_part [OF i]
  have acc: "accounted j t" for j
    using ok(1) [of j] assms(2) i p [of "xheld j"] p [of "xunstarted j"]
    by (cases "xpc ?x") (auto simp: additional_job_worker_def accounted_def u Let_def split: if_splits)
  note f = extra_frame [OF assms(2)]
  have "xpc ?x \<noteq> XExited \<and> (\<exists>x. additionalThreads t = (additionalThreads s)[i := x])"
    using assms(2) i by (cases "xpc ?x") (auto simp: additional_job_worker_def Let_def)
  then have "xexited_upto k s \<Longrightarrow> xexited_upto k t" for k
    using i by (auto simp: xexited_upto_def nth_list_update)
  then have "caller_ok t"
    using ok(5) f by (cases "caller s") (auto simp: caller_ok_def all_exited_def exited_upto_def)
  then show ?thesis using acc ok f by (simp add: pool_ok_def)
qed

lemma add_ok:
  assumes "pool_ok s"
  shows "pool_ok (addJob j s)"
proof -
  note ok = pool_okD [OF assms]
  have "accounted i (addJob j s)" for i
    using ok(1) [of i] by (auto simp: addJob_def runAdditionalThread_def accounted_def Let_def)
  moreover have "caller_ok (addJob j s)"
    using ok(4,5)
    by (cases "caller s") (auto simp: caller_ok_def addJob_def runAdditionalThread_def stopping.simps Let_def
        all_exited_def exited_upto_def xexited_upto_def nth_append)
  moreover have "runcount (addJob j s) = runcount s \<and> threadPool (addJob j s) = threadPool s
      \<and> stopFlag (addJob j s) = stopFlag s \<and> caller (addJob j s) = caller s"
    by (simp add: addJob_def runAdditionalThread_def Let_def)
  ultimately show ?thesis
    using ok by (intro pool_okI) simp_all
qed



lemma zero_over: "(\<And>x. x \<in> set xs \<Longrightarrow> f x = 0) \<Longrightarrow> over f xs = 0"
  by (induction xs) auto

lemma wait_ok:
  assumes "pool_ok s" and "waitAll s = Some t"
  shows "pool_ok t"
proof -
  note ok = pool_okD [OF assms(1)]
  have none: "held j w = 0 \<and> unstarted j w = 0 \<and> busy w = 0"
    if "caller s = WaitJoin i" "\<not> i < length (threadPool s)" "w \<in> set (threadPool s)" for i j w
  proof -
    have "pc w = Exited"
      using ok(5) that by (auto simp: caller_ok_def exited_upto_def in_set_conv_nth)
    moreover have "cur_job w = None"
      using bspec [OF ok(3) that(3)] ok(4) that(1) calculation by (simp add: worker_ok.simps stopping.simps)
    ultimately show ?thesis by simp
  qed
  have xnone: "xheld j x = 0 \<and> xunstarted j x = 0"
    if "caller s = WaitExtra i" "\<not> i < length (additionalThreads s)" "x \<in> set (additionalThreads s)" for i j x
  proof -
    have "xpc x = XExited"
      using ok(5) that by (auto simp: caller_ok_def xexited_upto_def in_set_conv_nth)
    then show ?thesis by simp
  qed
  have acc: "accounted j t" for j
    using ok(1) [of j] assms(2)
      zero_over [of "threadPool s" "held j"] zero_over [of "threadPool s" "unstarted j"]
      zero_over [of "additionalThreads s" "xheld j"] zero_over [of "additionalThreads s" "xunstarted j"]
    by (cases "caller s")
      (auto simp: waitAll_def accounted_def none xnone simp del: held.simps unstarted.simps xheld.simps xunstarted.simps
        split: if_splits)
  have b: "runcount t = over busy (threadPool t) \<and> (\<forall>w\<in>set (threadPool t). worker_ok (stopFlag t) w)
    \<and> (stopFlag t \<longleftrightarrow> stopping (caller t))"
    using ok(2,3,4) assms(2) zero_over [of "threadPool s" busy] none
    by (cases "caller s")
      (auto simp: waitAll_def stopping.simps simp del: busy.simps held.simps unstarted.simps split: if_splits)
  have "caller_ok t"
    using ok(5) assms(2)
    by (cases "caller s")
      (auto simp: waitAll_def caller_ok_def exited_upto_def xexited_upto_def less_Suc_eq split: if_splits)
  with acc b show ?thesis by (metis pool_okI)
qed






lemma new_ok: "pool_ok (pool_new n)"
proof (rule pool_okI)
  show "accounted j (pool_new n)" for j
    by (simp add: accounted_def pool_new_def zero_over)
  show "runcount (pool_new n) = over busy (threadPool (pool_new n))"
    by (simp add: pool_new_def zero_over)
  show "\<forall>w\<in>set (threadPool (pool_new n)). worker_ok (stopFlag (pool_new n)) w"
    by (simp add: pool_new_def worker_ok.simps)
  show "stopFlag (pool_new n) \<longleftrightarrow> stopping (caller (pool_new n))"
    by (simp add: pool_new_def stopping.simps)
  show "caller_ok (pool_new n)"
    by (simp add: pool_new_def caller_ok_def)
qed

section \<open>The steps come to an end\<close>

fun todo :: "worker_thread \<Rightarrow> nat" where
  "todo w = (case pc w of AtTest \<Rightarrow> 2 | AtLock \<Rightarrow> 1 | AtStart j \<Rightarrow> 3 | AtExecute j \<Rightarrow> 2 | AtFence j \<Rightarrow> 1 | _ \<Rightarrow> 0)"

fun xtodo :: "extra_thread \<Rightarrow> nat" where
  "xtodo x = (case xpc x of XStart j \<Rightarrow> 4 | XExecute j \<Rightarrow> 3 | XFence j \<Rightarrow> 2 | XClear \<Rightarrow> 1 | XExited \<Rightarrow> 0)"

definition caller_todo :: "pool \<Rightarrow> nat" where
  "caller_todo s = (let n = length (threadPool s); m = length (additionalThreads s) in
     case caller s of
       Calm \<Rightarrow> 5 * n + m + 4 | WaitSignal k \<Rightarrow> 4 * (n - k) + n + m + 3 | WaitJoin i \<Rightarrow> (n - i) + m + 2
     | WaitExtra i \<Rightarrow> (m - i) + 1
     | StopSignal k \<Rightarrow> 4 * (n - k) + n + 2 * m + 4 | StopFence \<Rightarrow> n + 2 * m + 3 | StopJoin i \<Rightarrow> (n - i) + 2 * m + 2
     | StopExtra i \<Rightarrow> 2 * (m - i) + 1 | StopExtraJoin i \<Rightarrow> 2 * (m - i) | _ \<Rightarrow> 0)"

definition work_left :: "pool \<Rightarrow> nat" where
  "work_left s = 3 * num_jobs s + 3 * length (jobs s) + over todo (threadPool s) + over xtodo (additionalThreads s) + caller_todo s"

lemma work_less:
  assumes "job_worker i s = Some t"
  shows "work_left t < work_left s"
proof -
  let ?w = "threadPool s ! i"
  have i: "i < length (threadPool s)" using assms by (auto simp: job_worker_def split: if_splits)
  note u = sum_update [OF i] and p = sum_part [OF i, of todo] and f = work_frame(1) [OF assms]
  have c: "caller_todo t = caller_todo s" using f by (simp add: caller_todo_def)
  have "3 * num_jobs t + 3 * length (jobs t) + over todo (threadPool t)
      < 3 * num_jobs s + 3 * length (jobs s) + over todo (threadPool s)"
    using assms i p
    by (cases "pc ?w"; cases "jobs s") (auto simp: job_worker_def u Let_def split: if_splits)
  then show ?thesis using c f by (simp add: work_left_def)
qed

lemma extra_less:
  assumes "additional_job_worker i s = Some t"
  shows "work_left t < work_left s"
proof -
  let ?x = "additionalThreads s ! i"
  have i: "i < length (additionalThreads s)" using assms by (auto simp: additional_job_worker_def split: if_splits)
  note u = sum_update [OF i] and p = sum_part [OF i, of xtodo]
  note f = extra_frame [OF assms]
  have "caller_todo t = caller_todo s" using f by (simp add: caller_todo_def)
  moreover have "over xtodo (additionalThreads t) < over xtodo (additionalThreads s)"
    using assms i p by (cases "xpc ?x") (auto simp: additional_job_worker_def u Let_def)
  ultimately show ?thesis using f by (simp add: work_left_def)
qed


lemma wait_less:
  assumes "waitAll s = Some t"
  shows "work_left t < work_left s"
  using assms
  by (cases "caller s") (auto simp: waitAll_def work_left_def caller_todo_def Let_def split: if_splits)

section \<open>Without a stop\<close>

declare sum_list_eq_0_iff [simp del]

fun awake :: "worker_thread \<Rightarrow> nat" where
  "awake w = (case pc w of AtTest \<Rightarrow> 1 | AtLock \<Rightarrow> 1 | _ \<Rightarrow> 0)"

fun gone :: "worker_thread \<Rightarrow> nat" where
  "gone w = (case pc w of Exited \<Rightarrow> 1 | _ \<Rightarrow> 0)"

fun signals :: "pool \<Rightarrow> nat" where
  "signals s = (case caller s of WaitSignal k \<Rightarrow> k | WaitJoin i \<Rightarrow> length (threadPool s) | _ \<Rightarrow> 0)"

text \<open>The semaphore has a token for every queued job that no worker is about to take, and those of \<open>waitAll\<close>.\<close>

definition calm :: "pool \<Rightarrow> bool" where
  "calm s \<longleftrightarrow> pool_ok s \<and> dropped s = [] \<and> refenced s = []
     \<and> num_jobs s + over awake (threadPool s) + over gone (threadPool s) = length (jobs s) + signals s
     \<and> (0 < over gone (threadPool s) \<or> threadPool s = [] \<longrightarrow> jobs s = [])
     \<and> (case caller s of Calm \<Rightarrow> over gone (threadPool s) = 0 | WaitSignal k \<Rightarrow> k \<le> length (threadPool s)
          | WaitJoin i \<Rightarrow> True | WaitExtra i \<Rightarrow> threadPool s = [] | Waited \<Rightarrow> threadPool s = [] | _ \<Rightarrow> False)"

lemma gone_le: "over gone ws \<le> length ws"
  by (induction ws) (auto split: worker_pc.splits)

lemma gone_all: "\<forall>w\<in>set ws. pc w = Exited \<Longrightarrow> over gone ws = length ws"
  by (induction ws) auto

lemma busy_le: "over busy ws \<le> length ws"
  by (induction ws) (auto split: worker_pc.splits)

lemma calm_not_stopping: "calm s \<Longrightarrow> \<not> stopFlag s"
  using pool_okD(4) [of s] by (cases "caller s") (auto simp: calm_def stopping.simps)

lemma calmD:
  assumes "calm s"
  shows "pool_ok s" and "dropped s = [] \<and> refenced s = []"
    and "num_jobs s + over awake (threadPool s) + over gone (threadPool s) = length (jobs s) + signals s"
    and "0 < over gone (threadPool s) \<or> threadPool s = [] \<Longrightarrow> jobs s = []"
    and "case caller s of Calm \<Rightarrow> over gone (threadPool s) = 0 | WaitSignal k \<Rightarrow> k \<le> length (threadPool s)
          | WaitJoin i \<Rightarrow> True | WaitExtra i \<Rightarrow> threadPool s = [] | Waited \<Rightarrow> threadPool s = [] | _ \<Rightarrow> False"
  using assms unfolding calm_def by blast+

lemma calmI:
  assumes "pool_ok s" and "dropped s = [] \<and> refenced s = []"
    and "num_jobs s + over awake (threadPool s) + over gone (threadPool s) = length (jobs s) + signals s"
    and "0 < over gone (threadPool s) \<or> threadPool s = [] \<Longrightarrow> jobs s = []"
    and "case caller s of Calm \<Rightarrow> over gone (threadPool s) = 0 | WaitSignal k \<Rightarrow> k \<le> length (threadPool s)
          | WaitJoin i \<Rightarrow> True | WaitExtra i \<Rightarrow> threadPool s = [] | Waited \<Rightarrow> threadPool s = [] | _ \<Rightarrow> False"
  shows "calm s"
  using assms unfolding calm_def by blast

lemma calm_work:
  assumes "calm s" and "job_worker i s = Some t"
  shows "calm t"
proof -
  let ?w = "threadPool s ! i" and ?a = "over awake (threadPool s)" and ?g = "over gone (threadPool s)"
  have i: "i < length (threadPool s)" using assms(2) by (auto simp: job_worker_def split: if_splits)
  have ns: "\<not> stopFlag s" by (rule calm_not_stopping [OF assms(1)])
  note u = sum_update [OF i] and p = sum_part [OF i, of awake] sum_part [OF i, of gone]
    and f = work_frame(1) [OF assms(2)] and c = calmD [OF assms(1)]
  have tokens: "num_jobs t + over awake (threadPool t) + over gone (threadPool t) + length (jobs s)
      = num_jobs s + ?a + ?g + length (jobs t)"
    using assms(2) i p ns by (cases "pc ?w"; cases "jobs s"; auto simp: job_worker_def u Let_def split: if_splits)
  have d: "dropped t = dropped s \<and> refenced t = refenced s"
    using assms(2) i by (cases "pc ?w"; cases "jobs s"; auto simp: job_worker_def Let_def split: if_splits)
  have g: "over gone (threadPool t) = ?g \<or> jobs s = [] \<and> 0 < ?a"
    using assms(2) i p ns by (cases "pc ?w"; cases "jobs s"; auto simp: job_worker_def u Let_def split: if_splits)
  have sig: "signals t = signals s" using f by (simp split: caller.splits)
  show ?thesis
  proof (rule calmI)
    show "num_jobs t + over awake (threadPool t) + over gone (threadPool t) = length (jobs t) + signals t"
      using tokens c(3) sig by simp
    show "jobs t = []" if "0 < over gone (threadPool t) \<or> threadPool t = []"
      using that g f c(4) by auto
    show "case caller t of Calm \<Rightarrow> over gone (threadPool t) = 0 | WaitSignal k \<Rightarrow> k \<le> length (threadPool t)
          | WaitJoin i \<Rightarrow> True | WaitExtra i \<Rightarrow> threadPool t = [] | Waited \<Rightarrow> threadPool t = [] | _ \<Rightarrow> False"
      using c(3,5) f g by (cases "caller s") auto
  qed (use work_ok [OF c(1) assms(2)] d c(2) in simp_all)
qed

lemma calm_extra:
  assumes "calm s" and "additional_job_worker i s = Some t"
  shows "calm t"
proof -
  note c = calmD [OF assms(1)] and f = extra_frame [OF assms(2)]
  have "signals t = signals s" using f by (simp split: caller.splits)
  then show ?thesis
    using c f extra_ok [OF c(1) assms(2)]
    by (intro calmI) (simp_all del: signals.simps gone.simps awake.simps cong: caller.case_cong)
qed

lemma calm_add:
  assumes "calm s" and "caller s = Calm"
  shows "calm (addJob j s)"
proof -
  note c = calmD [OF assms(1)] and ns = calm_not_stopping [OF assms(1)]
  have "runcount s = 0" if "threadPool s = []"
    using that pool_okD(2) [OF c(1)] by simp
  then show ?thesis
    using c ns assms(2) add_ok [OF c(1), of j]
    by (intro calmI; cases "runcount s = length (threadPool s)")
      (auto simp: addJob_def runAdditionalThread_def Let_def simp del: awake.simps gone.simps)
qed

lemma calm_wait:
  assumes "calm s" and "waitAll s = Some t"
  shows "calm t"
proof -
  note c = calmD [OF assms(1)]
  have all: "over gone (threadPool s) = length (threadPool s)" if "caller s = WaitJoin i" "\<not> i < length (threadPool s)" for i
  proof -
    have "\<forall>w\<in>set (threadPool s). pc w = Exited"
      using pool_okD(5) [OF c(1)] that by (auto simp: caller_ok_def exited_upto_def in_set_conv_nth)
    then show ?thesis by (rule gone_all)
  qed
  show ?thesis
    using c wait_ok [OF c(1) assms(2)] assms(2) all
    by (intro calmI; cases "caller s") (auto simp: waitAll_def simp del: awake.simps gone.simps split: if_splits)
qed

text \<open>Some thread can go on until \<open>waitAll\<close> has returned.\<close>

lemma work_enabled:
  assumes "i < length (threadPool s)" and "pc (threadPool s ! i) \<noteq> Exited"
    and "pc (threadPool s ! i) = AtWait \<Longrightarrow> 0 < num_jobs s"
  shows "job_worker i s \<noteq> None"
  using assms by (cases "pc (threadPool s ! i)") (auto simp: job_worker_def Let_def split: list.splits)

lemma extra_enabled:
  "i < length (additionalThreads s) \<Longrightarrow> xpc (additionalThreads s ! i) \<noteq> XExited \<Longrightarrow> additional_job_worker i s \<noteq> None"
  by (cases "xpc (additionalThreads s ! i)") (auto simp: additional_job_worker_def Let_def)

lemma over_pos: "0 < over f xs \<Longrightarrow> \<exists>i<length xs. 0 < f (xs ! i)"
proof (induction xs)
  case (Cons x xs)
  then show ?case by (cases "f x = 0") (auto intro: exI [of _ 0] exI [of _ "Suc _"])
qed simp

lemma gone_less: "i < length ws \<Longrightarrow> pc (ws ! i) \<noteq> Exited \<Longrightarrow> over gone ws < length ws"
proof (induction ws arbitrary: i)
  case (Cons w ws)
  show ?case
  proof (cases i)
    case 0
    then have "gone w = 0" using Cons.prems by (simp split: worker_pc.splits)
    then show ?thesis using gone_le [of ws] by (simp del: gone.simps)
  next
    case (Suc k)
    then have "over gone ws < length ws" using Cons by (simp del: gone.simps)
    moreover have "gone w \<le> 1" by (simp split: worker_pc.splits)
    ultimately show ?thesis by (simp del: gone.simps)
  qed
qed simp

lemma calm_progress:
  assumes "calm s" and "caller s \<noteq> Waited"
  shows "\<exists>a. a \<in> {WaitAll} \<union> range Work \<union> range Extra \<and> pool_act fw a s \<noteq> None"
proof -
  note c = calmD [OF assms(1)] and ok = pool_okD [OF c(1)]
  show ?thesis
  proof (cases "waitAll s = None")
    case False
    then show ?thesis by (intro exI [of _ WaitAll]) simp
  next
    case True
    then consider (join) i where "caller s = WaitJoin i" "i < length (threadPool s)" "pc (threadPool s ! i) \<noteq> Exited"
      | (extra) i where "i < length (additionalThreads s)" "xpc (additionalThreads s ! i) \<noteq> XExited"
      using c(5) assms(2) by (cases "caller s") (auto simp: waitAll_def split: if_splits)
    then show ?thesis
    proof cases
      case join
      have "over gone (threadPool s) < length (threadPool s)"
        using gone_less [OF join(2,3)] .
      then have "0 < num_jobs s + over awake (threadPool s)"
        using c(3) join(1) unfolding signals.simps by (simp only: caller.case)
      then consider "0 < num_jobs s" | "0 < over awake (threadPool s)" by linarith
      then obtain k where "job_worker k s \<noteq> None"
      proof cases
        case 1
        then show ?thesis using work_enabled [OF join(2,3)] that by blast
      next
        case 2
        then obtain k where "k < length (threadPool s)" "0 < awake (threadPool s ! k)"
          using over_pos by blast
        then show ?thesis using work_enabled [of k s] that by (auto split: worker_pc.splits)
      qed
      then show ?thesis by (intro exI [of _ "Work k"]) simp
    next
      case extra
      then show ?thesis using extra_enabled by (intro exI [of _ "Extra i"]) simp
    qed
  qed
qed


lemma calm_act:
  assumes "calm s" and "a \<in> {WaitAll} \<union> range Work \<union> range Extra" and "pool_act fw a s = Some t"
  shows "calm t \<and> work_left t < work_left s"
    and "(caller s = Waited \<longrightarrow> additionalThreads s = []) \<Longrightarrow> caller t = Waited \<longrightarrow> additionalThreads t = []"
proof -
  from assms(2) consider "a = WaitAll" | i where "a = Work i" | i where "a = Extra i" by auto
  then have "calm t \<and> work_left t < work_left s
      \<and> ((caller s = Waited \<longrightarrow> additionalThreads s = []) \<longrightarrow> caller t = Waited \<longrightarrow> additionalThreads t = [])"
  proof cases
    case 1
    then show ?thesis using assms(3) calm_wait [OF assms(1)] wait_less
      by (cases "caller s") (auto simp: waitAll_def split: if_splits)
  next
    case 2
    then show ?thesis using assms(3) calm_work [OF assms(1)] work_less work_frame(1) by simp
  next
    case 3
    then show ?thesis using assms(3) calm_extra [OF assms(1)] extra_less extra_frame(2,8) by simp (metis length_0_conv)
  qed
  then show "calm t \<and> work_left t < work_left s"
    and "(caller s = Waited \<longrightarrow> additionalThreads s = []) \<Longrightarrow> caller t = Waited \<longrightarrow> additionalThreads t = []"
    by blast+
qed

lemma calm_run:
  assumes "pool_reach fw s acts t" and "calm s \<and> caller s = Calm" and "set acts \<subseteq> {WaitAll} \<union> range Work \<union> range Extra"
  shows "calm t \<and> length acts + work_left t \<le> work_left s \<and> (caller t = Waited \<longrightarrow> additionalThreads t = [])"
  using assms
proof (induction rule: pool_reach.induct)
  case (reach_step acts t a u)
  then have t: "calm t" "length acts + work_left t \<le> work_left s" "caller t = Waited \<longrightarrow> additionalThreads t = []"
    and a: "a \<in> {WaitAll} \<union> range Work \<union> range Extra" by simp_all
  show ?case using calm_act [OF t(1) a reach_step.hyps(2)] t by auto
qed simp

lemma calm_reach:
  assumes "pool_reach fw s acts t" and "calm s" and "caller s = Calm" and "set acts \<subseteq> range Add \<union> range Work \<union> range Extra"
  shows "calm t \<and> caller t = Calm"
  using assms
proof (induction rule: pool_reach.induct)
  case (reach_step acts t a u)
  then have t: "calm t" "caller t = Calm" by simp_all
  from reach_step.prems(3) consider j where "a = Add j" | i where "a = Work i" | i where "a = Extra i" by auto
  then show ?case
  proof cases
    case 1
    then show ?thesis using calm_add [OF t] t(2) reach_step.hyps(2)
      by (auto simp: addJob_def runAdditionalThread_def Let_def split: if_splits)
  next
    case 2
    then show ?thesis using calm_work [OF t(1)] work_frame(1) t(2) reach_step.hyps(2) by simp
  next
    case 3
    then show ?thesis using calm_extra [OF t(1)] extra_frame(2) t(2) reach_step.hyps(2) by simp
  qed
qed simp

lemma calm_new: "calm (pool_new n) \<and> caller (pool_new n) = Calm"
proof
  show "calm (pool_new n)"
    by (rule calmI) (simp_all add: new_ok, simp_all add: pool_new_def zero_over sum_list_replicate)
qed (simp add: pool_new_def)

text \<open>When all workers have returned and the additional threads are done, every job has run.\<close>

lemma all_done:
  assumes "calm s" and "caller s = Waited" and "additionalThreads s = []"
  shows "count_list (started s) j = count_list (added s) j \<and> count_list (fenced s) j = count_list (added s) j"
proof -
  have "threadPool s = []" "jobs s = []" "dropped s = []" "refenced s = []"
    using calmD [OF assms(1)] assms(2) by auto
  then show ?thesis
    using pool_okD(1) [OF calmD(1) [OF assms(1)], of j] assms(3) by (simp add: accounted_def)
qed

text \<open>Runs that are given as a list of steps.\<close>

fun pool_run :: "(job \<Rightarrow> nat) \<Rightarrow> act list \<Rightarrow> pool \<Rightarrow> pool option" where
  "pool_run fw [] s = Some s"
| "pool_run fw (a # as) s = Option.bind (pool_act fw a s) (pool_run fw as)"

lemma run_reach: "pool_reach fw s acts t \<Longrightarrow> pool_run fw as t = Some u \<Longrightarrow> pool_reach fw s (acts @ as) u"
proof (induction as arbitrary: acts t)
  case (Cons a as)
  then obtain v where v: "pool_act fw a t = Some v" "pool_run fw as v = Some u" by (auto simp: bind_eq_Some_conv)
  show ?case using Cons.IH [OF reach_step [OF Cons.prems(1) v(1)] v(2)] by simp
qed simp

lemmas pool_run_reach = run_reach [OF reach_start, simplified]

lemmas pool_steps = job_worker_def addJob_def runAdditionalThread_def additional_job_worker_def forceStop_def waitAll_def
  forceStopWorker_def pool_new_def running_def

text \<open>C22: As long as nobody stops the pool, no job is lost and none is run twice: after any sequence of \<open>addJob\<close> calls
  interleaved in any way with the steps of the threads, \<open>waitAll\<close> and the threads together make at most \<open>work_left\<close> further
  steps, one of them can always go on until \<open>waitAll\<close> returns, and when it has returned, every job was executed and fenced
  exactly as often as it was added.\<close>

theorem all_jobs_run:
  assumes "pool_reach fw (pool_new n) acts s" and "set acts \<subseteq> range Add \<union> range Work \<union> range Extra"
    and "pool_reach fw s waiting t" and "set waiting \<subseteq> {WaitAll} \<union> range Work \<union> range Extra"
  shows "length waiting \<le> work_left s
    \<and> (caller t \<noteq> Waited \<longrightarrow> (\<exists>a. a \<in> {WaitAll} \<union> range Work \<union> range Extra \<and> pool_act fw a t \<noteq> None))
    \<and> (caller t = Waited \<longrightarrow>
      count_list (started t) j = count_list (added t) j \<and> count_list (fenced t) j = count_list (added t) j)"
proof -
  have s: "calm s \<and> caller s = Calm"
    using calm_reach [OF assms(1)] calm_new assms(2) by blast
  have t: "calm t \<and> length waiting + work_left t \<le> work_left s \<and> (caller t = Waited \<longrightarrow> additionalThreads t = [])"
    by (rule calm_run [OF assms(3) s assms(4)])
  show ?thesis
    using t calm_progress [of t fw] all_done [of t j] by auto
qed

theorem all_jobs_run_witness:
  "\<exists>s t. pool_run (\<lambda>j. 0) [Add 5, Work 0, Work 0, Work 0, Add 6] (pool_new 1) = Some s
     \<and> pool_run (\<lambda>j. 0) [WaitAll, Work 0, Extra 0] s = Some t
     \<and> 3 \<le> work_left s \<and> (\<exists>a. a \<in> {WaitAll} \<union> range Work \<union> range Extra \<and> pool_act (\<lambda>j. 0) a t \<noteq> None)"
proof -
  let ?as = "[Add 5, Work 0, Work 0, Work 0, Add 6]" and ?bs = "[WaitAll, Work 0, Extra 0]"
  have "\<exists>s. pool_run (\<lambda>j. 0) ?as (pool_new 1) = Some s
      \<and> (\<exists>t. pool_run (\<lambda>j. 0) ?bs s = Some t \<and> caller t \<noteq> Waited)"
    by (simp add: pool_steps Let_def)
  then obtain s t where r: "pool_run (\<lambda>j. 0) ?as (pool_new 1) = Some s" "pool_run (\<lambda>j. 0) ?bs s = Some t"
    and t: "caller t \<noteq> Waited"
    by (elim exE conjE) (rule that)
  have "set ?as \<subseteq> range Add \<union> range Work \<union> range Extra" "set ?bs \<subseteq> {WaitAll} \<union> range Work \<union> range Extra" by auto
  note st = all_jobs_run [OF pool_run_reach [OF r(1)] this(1) pool_run_reach [OF r(2)] this(2)]
  have "3 \<le> work_left s" using conjunct1 [OF st] by simp
  moreover have "\<exists>a. a \<in> {WaitAll} \<union> range Work \<union> range Extra \<and> pool_act (\<lambda>j. 0) a t \<noteq> None" using st t by blast
  ultimately show ?thesis using r by blast
qed

section \<open>With a stop\<close>













section \<open>What goes wrong\<close>

text \<open>
  A job that a worker has taken when the flag is set is neither executed nor fenced: the job 5 was added and
  \<open>forceStop\<close> has returned.
\<close>

lemma taken_job_not_fenced:
  "\<exists>s. pool_run fw [Add 5, Work 0, Work 0, Work 0, Stop, Work 0, Stop, Stop, Stop, Stop, Stop, Stop] (pool_new 1) = Some s
     \<and> caller s = Stopped \<and> added s = [5] \<and> started s = [] \<and> fenced s = []"
  by (simp add: pool_steps Let_def)

text \<open>
  \<open>forceStopWorker\<close> wakes all workers; one that is idle finds no job and ends for good. A job that is added later stays in
  the queue.
\<close>

lemma idle_workers_end:
  "\<exists>s. pool_run fw [Kill 3, Kill 3, Kill 3, Kill 3, Kill 3, Work 0, Work 0, Work 0, Add 5] (pool_new 1) = Some s
     \<and> caller s = Calm \<and> jobs s = [5] \<and> map pc (threadPool s) = [Exited] \<and> additionalThreads s = []"
  by (simp add: pool_steps Let_def)

text \<open>A job of an additional thread is fenced by the thread and by \<open>forceStop\<close>.\<close>

lemma additional_job_fenced_twice:
  "\<exists>s. pool_run fw [Add 5, Extra 0, Extra 0, Extra 0, Stop, Stop, Stop, Stop, Stop, Extra 0, Stop, Stop] (pool_new 0) = Some s
     \<and> caller s = Stopped \<and> fenced s = [5, 5]"
  by (simp add: pool_steps Let_def)

text \<open>Jobs that are added before the workers have taken the earlier ones wait for a worker although no thread is free for them.\<close>

lemma no_additional_thread:
  "\<exists>s. pool_run fw [Add 5, Add 6, Work 0, Work 0, Work 0, Work 0] (pool_new 1) = Some s
     \<and> running s = [5] \<and> jobs s = [6] \<and> additionalThreads s = []"
  by (simp add: pool_steps Let_def)

end
