(* ===== verification/EventDispatch.thy ===== *)
theory EventDispatch
  imports LS_Prelude "HOL-Library.Multiset"
begin

text \<open>
  Listeners and the dispatch of events, \<open>flashevents.cpp\<close> and \<open>ABCVm::publicHandleEvent\<close> of \<open>abc.cpp\<close>.

  Objects are numbers; the state of an object that matters here is a \<open>dispatcher\<close>. What a listener does is a parameter,
  as are the virtual functions that are called around it (\<open>hooks\<close>): they may change everything, the listeners
  included. The functions return the calls they made beside the new state.
\<close>

section \<open>Functions and listeners\<close>

type_synonym obj = nat

datatype fkind =
    Synthetic "nat option" nat nat  \<comment> \<open>\<open>inClass\<close>, \<open>val\<close> and \<open>mi\<close>\<close>
  | Builtin nat  \<comment> \<open>\<open>val_atom\<close>\<close>

record ifunction =
  func_id :: nat
  kind :: fkind
  closure_this :: "obj option"
  clonedFrom :: "nat option"

definition isEqual :: "ifunction \<Rightarrow> ifunction \<Rightarrow> bool" where
  "isEqual f r = (case kind f of
      Synthetic inClass v m \<Rightarrow>
        func_id r = func_id f \<or>
        (inClass \<noteq> None \<and> (case kind r of Synthetic inClass' v' m' \<Rightarrow> v = v' \<and> m = m' \<and> inClass = inClass' | Builtin _ \<Rightarrow> False))
    | Builtin v \<Rightarrow> (case kind r of Synthetic _ _ _ \<Rightarrow> False | Builtin v' \<Rightarrow> v = v'))"

record listener =
  l_func :: ifunction
  priority :: int
  use_capture :: bool
  l_worker :: nat

definition listener_eq :: "listener \<Rightarrow> listener \<Rightarrow> bool" where
  "listener_eq l r =
     (if use_capture l \<noteq> use_capture r \<or> l_worker l \<noteq> l_worker r then False
      else if closure_this (l_func l) \<noteq> None \<and> closure_this (l_func r) \<noteq> None
           \<and> closure_this (l_func l) \<noteq> closure_this (l_func r) then False
      else isEqual (l_func l) (l_func r))"


record dispatcher =
  handlers :: "string \<rightharpoonup> listener list"
  forcedTarget :: "obj option"
  isDisplayObject :: bool
  waitingForParser :: bool
  legacy :: bool
  onStage :: bool
  broadcastEventListenerCount :: nat

record world =
  dispatchers :: "obj \<Rightarrow> dispatcher"
  par :: "obj \<Rightarrow> obj option"
  frameListeners :: "obj list"
  framePhase :: string
  stageInvalidated :: bool

definition frame_events :: "string set" where
  "frame_events = {''enterFrame'', ''exitFrame'', ''frameConstructed'', ''render''}"

section \<open>Adding and removing listeners\<close>

abbreviation set_dispatcher :: "obj \<Rightarrow> dispatcher \<Rightarrow> world \<Rightarrow> world" where
  "set_dispatcher x d w \<equiv> w\<lparr>dispatchers := (dispatchers w)(x := d)\<rparr>"

definition registerFrameListener :: "obj \<Rightarrow> world \<Rightarrow> world" where
  "registerFrameListener x w =
     (if x \<in> set (frameListeners w) then w else w\<lparr>frameListeners := frameListeners w @ [x]\<rparr>)"

definition unregisterFrameListener :: "obj \<Rightarrow> world \<Rightarrow> world" where
  "unregisterFrameListener x w = w\<lparr>frameListeners := filter (\<lambda>y. y \<noteq> x) (frameListeners w)\<rparr>"

definition addBroadcastEventListener :: "obj \<Rightarrow> world \<Rightarrow> world" where
  "addBroadcastEventListener x w =
     (let d = dispatchers w x; w = (if broadcastEventListenerCount d = 0 then registerFrameListener x w else w)
      in set_dispatcher x (d\<lparr>broadcastEventListenerCount := broadcastEventListenerCount d + 1\<rparr>) w)"

definition removeBroadcastEventListener :: "obj \<Rightarrow> world \<Rightarrow> world res" where
  "removeBroadcastEventListener x w =
     (let d = dispatchers w x in
      if broadcastEventListenerCount d = 0 then Inl AssertionFailed
      else let n = broadcastEventListenerCount d - 1;
               w = set_dispatcher x (d\<lparr>broadcastEventListenerCount := n\<rparr>) w
           in Inr (if n = 0 then unregisterFrameListener x w else w))"

text \<open>The listener that is found first decides whether the new one is registered.\<close>

definition already_registered :: "listener \<Rightarrow> listener list \<Rightarrow> bool" where
  "already_registered new ls = (case find (\<lambda>l. listener_eq l new) ls of
       None \<Rightarrow> False
     | Some l \<Rightarrow>
         use_capture l = use_capture new \<and>
         (let f = l_func l; g = l_func new in
          func_id f = func_id g \<or>
          (clonedFrom f \<noteq> None \<and> clonedFrom f = clonedFrom g \<and> closure_this f = closure_this g)))"

definition listeners_of :: "string \<Rightarrow> dispatcher \<Rightarrow> listener list" where
  "listeners_of t d = (case handlers d t of None \<Rightarrow> [] | Some ls \<Rightarrow> ls)"

definition addEventListener ::
  "obj \<Rightarrow> string \<Rightarrow> ifunction \<Rightarrow> bool \<Rightarrow> int \<Rightarrow> nat \<Rightarrow> bool \<Rightarrow> world \<Rightarrow> world" where
  "addEventListener th eventName func useCapture prio wrk isPrimordial w =
     (let d = dispatchers w th;
          listeners = listeners_of eventName d;
          new = \<lparr>l_func = func, priority = prio, use_capture = useCapture, l_worker = wrk\<rparr>
      in if already_registered new listeners then w
         else let w = (if isPrimordial \<and> isDisplayObject d \<and> eventName \<in> frame_events
                       then addBroadcastEventListener th w else w);
                  d = dispatchers w th
              in set_dispatcher th (d\<lparr>handlers := (handlers d)(eventName \<mapsto> listeners @ [new])\<rparr>) w)"

definition hasEventListener :: "obj \<Rightarrow> string \<Rightarrow> world \<Rightarrow> bool" where
  "hasEventListener th eventName w = (handlers (dispatchers w th) eventName \<noteq> None)"

fun remove_listener :: "listener \<Rightarrow> listener list \<Rightarrow> bool \<times> listener list" where
  "remove_listener ls [] = (False, [])"
| "remove_listener ls (l # xs) =
     (if listener_eq l ls then (True, xs) else (let (b, ys) = remove_listener ls xs in (b, l # ys)))"

definition removeEventListener :: "obj \<Rightarrow> string \<Rightarrow> ifunction \<Rightarrow> bool \<Rightarrow> nat \<Rightarrow> world \<Rightarrow> world res" where
  "removeEventListener th eventName func useCapture wrk w =
     (let d = dispatchers w th in
      case handlers d eventName of
        None \<Rightarrow> Inr w
      | Some xs \<Rightarrow>
          let ls = \<lparr>l_func = func, priority = 0, use_capture = useCapture, l_worker = wrk\<rparr>;
              (removed, ys) = remove_listener ls xs;
              w = set_dispatcher th (d\<lparr>handlers := (handlers d)(eventName := if ys = [] then None else Some ys)\<rparr>) w
          in if removed \<and> isDisplayObject d \<and> eventName \<in> frame_events then removeBroadcastEventListener th w else Inr w)"

definition clearEventListeners :: "obj \<Rightarrow> world \<Rightarrow> world" where
  "clearEventListeners th w = set_dispatcher th ((dispatchers w th)\<lparr>handlers := Map.empty\<rparr>) w"

section \<open>Events\<close>

datatype phase = NoPhase | Capturing | AtTarget | Bubbling

record event =
  etype :: string
  bubbles :: bool
  cancelable :: bool
  defaultPrevented :: bool
  propagationStopped :: bool
  immediatePropagationStopped :: bool
  eventPhase :: phase
  target :: "obj option"
  currentTarget :: "obj option"
  relatedObject :: "obj option"
  instanceWorker :: nat

definition event_new :: "string \<Rightarrow> bool \<Rightarrow> bool \<Rightarrow> nat \<Rightarrow> event" where
  "event_new t b c wrk = \<lparr>etype = t, bubbles = b, cancelable = c, defaultPrevented = False, propagationStopped = False,
     immediatePropagationStopped = False, eventPhase = NoPhase, target = None, currentTarget = None, relatedObject = None,
     instanceWorker = wrk\<rparr>"

definition preventDefault :: "event \<Rightarrow> event" where
  "preventDefault e = (if cancelable e then e\<lparr>defaultPrevented := True\<rparr> else e)"

definition stopPropagation :: "event \<Rightarrow> event" where "stopPropagation e = e\<lparr>propagationStopped := True\<rparr>"

definition stopImmediatePropagation :: "event \<Rightarrow> event" where
  "stopImmediatePropagation e = e\<lparr>immediatePropagationStopped := True\<rparr>"

text \<open>A call of a listener, with the two flags as they are after it.\<close>

record call =
  c_obj :: obj
  c_phase :: phase
  c_listener :: listener
  c_stopped :: bool
  c_immediate :: bool

record hooks =
  before_handle :: "obj \<Rightarrow> event \<Rightarrow> world \<Rightarrow> world"
  sort_listeners :: "listener list \<Rightarrow> listener list"
  execute :: "listener \<Rightarrow> event \<Rightarrow> world \<Rightarrow> event \<times> world"
  after_execution :: "obj \<Rightarrow> event \<Rightarrow> world \<Rightarrow> world"
  avm1_handle :: "obj \<Rightarrow> event \<Rightarrow> world \<Rightarrow> world"
  default_behavior :: "obj \<Rightarrow> event \<Rightarrow> world \<Rightarrow> world"
  clone_event :: "event \<Rightarrow> event option"

section \<open>The listeners of one object\<close>

definition skipped :: "event \<Rightarrow> listener \<Rightarrow> bool" where
  "skipped e l = ((eventPhase e \<noteq> Capturing \<and> use_capture l) \<or> (eventPhase e = Capturing \<and> \<not> use_capture l)
     \<or> l_worker l \<noteq> instanceWorker e)"

fun call_listeners :: "hooks \<Rightarrow> obj \<Rightarrow> listener list \<Rightarrow> event \<Rightarrow> world \<Rightarrow> call list \<times> event \<times> world" where
  "call_listeners h th [] e w = ([], e, w)"
| "call_listeners h th (l # ls) e w =
     (if skipped e l then call_listeners h th ls e w
      else if immediatePropagationStopped e then call_listeners h th ls e w
      else let (e', w) = execute h l e w;
               w = after_execution h th e' w;
               c = \<lparr>c_obj = th, c_phase = eventPhase e, c_listener = l, c_stopped = propagationStopped e',
                    c_immediate = immediatePropagationStopped e'\<rparr>;
               (cs, e, w) = call_listeners h th ls e' w
           in (c # cs, e, w))"

definition dispatcher_handleEvent :: "hooks \<Rightarrow> obj \<Rightarrow> event \<Rightarrow> world \<Rightarrow> call list \<times> event \<times> world" where
  "dispatcher_handleEvent h th e w =
     (let w = before_handle h th e w in
      case handlers (dispatchers w th) (etype e) of
        None \<Rightarrow> ([], e, w)
      | Some ls \<Rightarrow> call_listeners h th (sort_listeners h ls) e w)"

section \<open>Capture, target and bubbling\<close>

partial_function (option) parents_of :: "(obj \<Rightarrow> obj option) \<Rightarrow> obj \<Rightarrow> obj list option" where
  "parents_of pa cur = (case pa cur of
       None \<Rightarrow> Some []
     | Some p \<Rightarrow> Option.bind (parents_of pa p) (\<lambda>ps. Some (p # ps)))"

partial_function (option) parents_until :: "(obj \<Rightarrow> obj option) \<Rightarrow> obj list \<Rightarrow> obj \<Rightarrow> obj list option" where
  "parents_until pa rparents cur = (case pa cur of
       None \<Rightarrow> Some []
     | Some p \<Rightarrow> if p \<in> set rparents then Some [] else Option.bind (parents_until pa rparents p) (\<lambda>ps. Some (p # ps)))"

text \<open>The parents that take part, and whether there is a target phase.\<close>

definition dispatch_path :: "(obj \<Rightarrow> obj option) \<Rightarrow> event \<Rightarrow> obj \<Rightarrow> obj \<Rightarrow> (obj list \<times> bool) option" where
  "dispatch_path pa e dispatcher realdispatcher =
     (case (if etype e \<in> {''rollOver'', ''rollOut''} then relatedObject e else None) of
        Some rcur \<Rightarrow>
          Option.bind (parents_of pa rcur) (\<lambda>rps.
            let rparents = rcur # rps in
            if dispatcher \<in> set rparents then Some ([], False)
            else map_option (\<lambda>ps. (ps, True)) (parents_until pa rparents dispatcher))
      | None \<Rightarrow> map_option (\<lambda>ps. (ps, True)) (parents_of pa realdispatcher))"

definition stopped :: "event \<Rightarrow> bool" where
  "stopped e = (immediatePropagationStopped e \<or> propagationStopped e)"

definition visit :: "hooks \<Rightarrow> obj \<Rightarrow> obj \<Rightarrow> event \<Rightarrow> world \<Rightarrow> call list \<times> event \<times> world" where
  "visit h current x e w =
     (let (cs, e, w) = dispatcher_handleEvent h x (e\<lparr>currentTarget := Some current\<rparr>) w
      in (cs, e\<lparr>currentTarget := None\<rparr>, w))"

fun visit_all :: "hooks \<Rightarrow> obj list \<Rightarrow> event \<Rightarrow> world \<Rightarrow> call list \<times> event \<times> world" where
  "visit_all h [] e w = ([], e, w)"
| "visit_all h (x # xs) e w =
     (if stopped e then ([], e, w)
      else let (cs, e, w) = visit h x x e w; (ds, e, w) = visit_all h xs e w in (cs @ ds, e, w))"

definition skips_enter_frame :: "dispatcher \<Rightarrow> event \<Rightarrow> bool" where
  "skips_enter_frame d e = (isDisplayObject d \<and> etype e = ''enterFrame'' \<and> (waitingForParser d \<or> (legacy d \<and> \<not> onStage d)))"

definition frame_phase_begin :: "event \<Rightarrow> world \<Rightarrow> world" where
  "frame_phase_begin e w = (if etype e \<in> {''exitFrame'', ''frameConstructed''} then w\<lparr>framePhase := etype e\<rparr> else w)"

definition frame_phase_end :: "event \<Rightarrow> world \<Rightarrow> world" where
  "frame_phase_end e w = (if etype e \<in> {''exitFrame'', ''frameConstructed''} then w\<lparr>framePhase := []\<rparr> else w)"

text \<open>The target is set unless it was overridden, and the capture phase begins when it is a display object.\<close>

definition dispatch_begin :: "obj \<Rightarrow> event \<Rightarrow> world \<Rightarrow> event" where
  "dispatch_begin dispatcher e w =
     (let e = (if target e = None then e\<lparr>target := Some dispatcher\<rparr> else e)
      in if isDisplayObject (dispatchers w (the (target e))) then e\<lparr>eventPhase := Capturing\<rparr> else e)"

definition dispatch_parents :: "obj \<Rightarrow> event \<Rightarrow> world \<Rightarrow> (obj list \<times> bool) option" where
  "dispatch_parents dispatcher e w =
     (let realdispatcher = the (target e) in
      if isDisplayObject (dispatchers w realdispatcher) then dispatch_path (par w) e dispatcher realdispatcher
      else Some ([], True))"

definition target_phase :: "hooks \<Rightarrow> bool \<Rightarrow> obj \<Rightarrow> obj \<Rightarrow> event \<Rightarrow> world \<Rightarrow> call list \<times> event \<times> world" where
  "target_phase h doTarget realdispatcher dispatcher e w =
     (if doTarget
      then let e = e\<lparr>eventPhase := AtTarget\<rparr> in if \<not> stopped e then visit h realdispatcher dispatcher e w else ([], e, w)
      else ([], e, w))"

definition bubbling_phase :: "hooks \<Rightarrow> obj list \<Rightarrow> event \<Rightarrow> world \<Rightarrow> call list \<times> event \<times> world" where
  "bubbling_phase h parents e w =
     (if bubbles e \<and> parents \<noteq> [] then visit_all h parents (e\<lparr>eventPhase := Bubbling\<rparr>) w else ([], e, w))"

definition dispatch_end :: "hooks \<Rightarrow> obj \<Rightarrow> event \<Rightarrow> world \<Rightarrow> event \<times> world" where
  "dispatch_end h dispatcher e w =
     (let w = avm1_handle h dispatcher e w;
          w = (if \<not> defaultPrevented e then default_behavior h dispatcher e w else w);
          e = e\<lparr>currentTarget := None, target := None\<rparr>
      in (e, frame_phase_end e w))"

definition publicHandleEvent :: "hooks \<Rightarrow> obj \<Rightarrow> event \<Rightarrow> world \<Rightarrow> (call list \<times> event \<times> world) option" where
  "publicHandleEvent h dispatcher e w =
     (let w = frame_phase_begin e w in
      if skips_enter_frame (dispatchers w dispatcher) e then Some ([], e, w)
      else
        let e = dispatch_begin dispatcher e w
        in Option.bind (dispatch_parents dispatcher e w) (\<lambda>(parents, doTarget).
             let realdispatcher = the (target e);
                 (cs1, e, w) = visit_all h (rev parents) e w;
                 (cs2, e, w) = target_phase h doTarget realdispatcher dispatcher e w;
                 (cs3, e, w) = bubbling_phase h parents e w;
                 (e, w) = dispatch_end h dispatcher e w
             in Some (cs1 @ cs2 @ cs3, e, w)))"

definition dispatchEvent :: "hooks \<Rightarrow> obj \<Rightarrow> event \<Rightarrow> world \<Rightarrow> (bool \<times> call list \<times> world) option" where
  "dispatchEvent h th e w =
     (case (if target e \<noteq> None then clone_event h e else Some e) of
        None \<Rightarrow> Some (False, [], w)
      | Some e \<Rightarrow>
          let e = e\<lparr>target := (case forcedTarget (dispatchers w th) of None \<Rightarrow> Some th | Some x \<Rightarrow> Some x)\<rparr>
          in map_option (\<lambda>(cs, e, w). (\<not> defaultPrevented e, cs, w)) (publicHandleEvent h th e w))"

text \<open>A broadcast uses one event for all objects that listen to frame events.\<close>

fun broadcast_to :: "hooks \<Rightarrow> obj list \<Rightarrow> event \<Rightarrow> world \<Rightarrow> (call list \<times> event \<times> world) option" where
  "broadcast_to h [] e w = Some ([], e, w)"
| "broadcast_to h (x # xs) e w =
     Option.bind (publicHandleEvent h x e w) (\<lambda>(cs, e, w).
       map_option (\<lambda>(ds, e, w). (cs @ ds, e, w)) (broadcast_to h xs e w))"

definition handleBroadcastEvent :: "hooks \<Rightarrow> string \<Rightarrow> nat \<Rightarrow> world \<Rightarrow> (call list \<times> event \<times> world) option" where
  "handleBroadcastEvent h event wrk w =
     (if event = ''render'' \<and> \<not> stageInvalidated w then Some ([], event_new event False False wrk, w)
      else let w = (if event = ''render'' then w\<lparr>stageInvalidated := False\<rparr> else w);
               tmplisteners = filter (\<lambda>x. \<not> (legacy (dispatchers w x) \<and> event \<noteq> ''enterFrame'')) (frameListeners w)
           in broadcast_to h tmplisteners (event_new event False False wrk) w)"

section \<open>Registered listeners\<close>

text \<open>No entry without a listener; the counter of an object is the number of its listeners of frame events, and the objects with a
  positive counter are those that get broadcasts.\<close>

definition count_frame :: "dispatcher \<Rightarrow> nat" where
  "count_frame d = length (listeners_of ''enterFrame'' d) + length (listeners_of ''exitFrame'' d)
     + length (listeners_of ''frameConstructed'' d) + length (listeners_of ''render'' d)"

definition world_ok :: "world \<Rightarrow> bool" where
  "world_ok w \<longleftrightarrow> (\<forall>x. (\<forall>t. handlers (dispatchers w x) t \<noteq> Some [])
      \<and> broadcastEventListenerCount (dispatchers w x) = (if isDisplayObject (dispatchers w x) then count_frame (dispatchers w x) else 0)
      \<and> (x \<in> set (frameListeners w) \<longleftrightarrow> 0 < broadcastEventListenerCount (dispatchers w x)))
    \<and> distinct (frameListeners w)"

lemma remove_listener_cases:
  "remove_listener ls xs = (b, ys) \<Longrightarrow>
   (if b then \<exists>us l vs. xs = us @ l # vs \<and> ys = us @ vs \<and> listener_eq l ls \<and> (\<forall>u\<in>set us. \<not> listener_eq u ls)
    else ys = xs \<and> (\<forall>u\<in>set xs. \<not> listener_eq u ls))"
proof (induction xs arbitrary: b ys)
  case (Cons l xs)
  obtain c zs where r: "remove_listener ls xs = (c, zs)" by fastforce
  show ?case
  proof (cases "listener_eq l ls")
    case True
    then show ?thesis using Cons.prems by (auto intro: exI [of _ "[]"])
  next
    case False
    then have "b = c" "ys = l # zs" using Cons.prems r by simp_all
    then show ?thesis
      using Cons.IH [OF r] False
      by (cases c; simp; elim exE conjE) (rule_tac x = "l # us" in exI, simp)
  qed
qed simp

lemma listeners_of_update [simp]:
  "listeners_of t (d\<lparr>handlers := (handlers d)(s := v)\<rparr>) = (if t = s then (case v of None \<Rightarrow> [] | Some ls \<Rightarrow> ls) else listeners_of t d)"
  by (simp add: listeners_of_def)

lemma listeners_of_count [simp]: "listeners_of t (d\<lparr>broadcastEventListenerCount := n\<rparr>) = listeners_of t d"
  by (simp add: listeners_of_def)

lemma count_frame_update:
  "count_frame (d\<lparr>handlers := (handlers d)(t := v)\<rparr>) + (if t \<in> frame_events then length (listeners_of t d) else 0)
   = count_frame d + (if t \<in> frame_events then (case v of None \<Rightarrow> 0 | Some ls \<Rightarrow> length ls) else 0)"
  by (auto simp: count_frame_def frame_events_def split: option.splits)

lemma count_frame_count [simp]: "count_frame (d\<lparr>broadcastEventListenerCount := n\<rparr>) = count_frame d"
  by (simp add: count_frame_def)

lemma count_frame_pos: "t \<in> frame_events \<Longrightarrow> length (listeners_of t d) \<le> count_frame d"
  by (auto simp: count_frame_def frame_events_def)

text \<open>The objects one by one: the broadcast lists change only for the object that is worked on.\<close>

definition object_ok :: "obj \<Rightarrow> world \<Rightarrow> bool" where
  "object_ok x w \<longleftrightarrow> (\<forall>t. handlers (dispatchers w x) t \<noteq> Some [])
      \<and> broadcastEventListenerCount (dispatchers w x) = (if isDisplayObject (dispatchers w x) then count_frame (dispatchers w x) else 0)
      \<and> (x \<in> set (frameListeners w) \<longleftrightarrow> 0 < broadcastEventListenerCount (dispatchers w x))"

lemma world_ok_objects: "world_ok w \<longleftrightarrow> (\<forall>x. object_ok x w) \<and> distinct (frameListeners w)"
  by (simp add: world_ok_def object_ok_def)

lemma object_ok_other:
  "object_ok y w \<Longrightarrow> dispatchers w' y = dispatchers w y \<Longrightarrow>
   (y \<in> set (frameListeners w') \<longleftrightarrow> y \<in> set (frameListeners w)) \<Longrightarrow> object_ok y w'"
  by (simp add: object_ok_def)

lemma broadcast_add:
  assumes "w' = addBroadcastEventListener x w" and "object_ok x w" and "distinct (frameListeners w)"
  shows "dispatchers w' = (dispatchers w)(x := (dispatchers w x)\<lparr>broadcastEventListenerCount :=
      broadcastEventListenerCount (dispatchers w x) + 1\<rparr>)"
    and "set (frameListeners w') = insert x (set (frameListeners w))" and "distinct (frameListeners w')"
  using assms by (auto simp: addBroadcastEventListener_def registerFrameListener_def object_ok_def Let_def)

lemma broadcast_remove:
  assumes "0 < broadcastEventListenerCount (dispatchers w x)" and "distinct (frameListeners w)" and "x \<in> set (frameListeners w)"
  defines "n \<equiv> broadcastEventListenerCount (dispatchers w x) - 1"
  shows "\<exists>w'. removeBroadcastEventListener x w = Inr w'
    \<and> dispatchers w' = (dispatchers w)(x := (dispatchers w x)\<lparr>broadcastEventListenerCount := n\<rparr>)
    \<and> set (frameListeners w') = (if n = 0 then set (frameListeners w) - {x} else set (frameListeners w))
    \<and> distinct (frameListeners w')"
  using assms by (auto simp: removeBroadcastEventListener_def unregisterFrameListener_def Let_def)

lemma add_listener_ok:
  assumes ok: "world_ok w"
  shows "world_ok (addEventListener x t f c p wrk True w)"
proof -
  let ?d = "dispatchers w x"
  define new where "new = \<lparr>l_func = f, priority = p, use_capture = c, l_worker = wrk\<rparr>"
  have x: "object_ok x w" and d: "distinct (frameListeners w)" using ok by (simp_all add: world_ok_objects)
  show ?thesis
  proof (cases "already_registered new (listeners_of t ?d)")
    case True
    then show ?thesis using ok by (simp add: addEventListener_def Let_def new_def)
  next
    case False
    let ?v = "Some (listeners_of t ?d @ [new])"
    define w1 where "w1 = (if isDisplayObject ?d \<and> t \<in> frame_events then addBroadcastEventListener x w else w)"
    define w2 where "w2 = set_dispatcher x ((dispatchers w1 x)\<lparr>handlers := (handlers (dispatchers w1 x))(t := ?v)\<rparr>) w1"
    have w2: "addEventListener x t f c p wrk True w = w2"
      using False by (simp add: addEventListener_def Let_def new_def w1_def w2_def)
    have frames: "set (frameListeners w2) = (if isDisplayObject ?d \<and> t \<in> frame_events then insert x (set (frameListeners w))
        else set (frameListeners w))" "distinct (frameListeners w2)"
      and dx: "dispatchers w2 x = ?d\<lparr>handlers := (handlers ?d)(t := ?v),
          broadcastEventListenerCount := broadcastEventListenerCount ?d + (if isDisplayObject ?d \<and> t \<in> frame_events then 1 else 0)\<rparr>"
      and dy: "\<And>y. y \<noteq> x \<Longrightarrow> dispatchers w2 y = dispatchers w y"
      using broadcast_add [OF refl x d] d by (auto simp: w2_def w1_def)
    have "object_ok x w2"
      using x count_frame_update [of ?d t ?v] frames(1) by (auto simp: object_ok_def dx count_frame_count)
    moreover have "object_ok y w2" if "y \<noteq> x" for y
      using object_ok_other [of y w w2] ok that dy [OF that] frames(1) by (auto simp: world_ok_objects)
    ultimately show ?thesis using w2 frames(2) by (metis world_ok_objects)
  qed
qed

lemma remove_steps:
  assumes ok: "world_ok w" and h: "handlers (dispatchers w x) t = Some xs"
    and r: "remove_listener \<lparr>l_func = f, priority = 0, use_capture = c, l_worker = wrk\<rparr> xs = (b, ys)"
  defines "n \<equiv> broadcastEventListenerCount (dispatchers w x) - (if b \<and> isDisplayObject (dispatchers w x) \<and> t \<in> frame_events then 1 else 0)"
  shows "\<exists>w'. removeEventListener x t f c wrk w = Inr w'
    \<and> dispatchers w' = (dispatchers w)(x := (dispatchers w x)\<lparr>handlers := (handlers (dispatchers w x))(t := if ys = [] then None else Some ys),
        broadcastEventListenerCount := n\<rparr>)
    \<and> set (frameListeners w') = (if n = 0 then set (frameListeners w) - {x} else set (frameListeners w))
    \<and> distinct (frameListeners w')"
proof -
  let ?d = "dispatchers w x" and ?h = "(handlers (dispatchers w x))(t := if ys = [] then None else Some ys)"
  define w1 where "w1 = set_dispatcher x (?d\<lparr>handlers := ?h\<rparr>) w"
  have x: "object_ok x w" and d: "distinct (frameListeners w)" using ok by (simp_all add: world_ok_objects)
  have e: "removeEventListener x t f c wrk w =
      (if b \<and> isDisplayObject ?d \<and> t \<in> frame_events then removeBroadcastEventListener x w1 else Inr w1)"
    using h r by (simp add: removeEventListener_def Let_def w1_def)
  show ?thesis
  proof (cases "b \<and> isDisplayObject ?d \<and> t \<in> frame_events")
    case True
    have "xs \<noteq> []" using x h by (auto simp: object_ok_def)
    then have "0 < length (listeners_of t ?d)" using h by (simp add: listeners_of_def)
    then have "0 < count_frame ?d" using True count_frame_pos [of t ?d] by linarith
    then have pos: "0 < broadcastEventListenerCount ?d"
      using True x by (simp add: object_ok_def)
    have fl: "frameListeners w1 = frameListeners w" "dispatchers w1 x = ?d\<lparr>handlers := ?h\<rparr>" by (simp_all add: w1_def)
    obtain w2 where w2: "removeBroadcastEventListener x w1 = Inr w2"
        "dispatchers w2 = (dispatchers w1)(x := (dispatchers w1 x)\<lparr>broadcastEventListenerCount := n\<rparr>)"
        "set (frameListeners w2) = (if n = 0 then set (frameListeners w) - {x} else set (frameListeners w))"
        "distinct (frameListeners w2)"
      using broadcast_remove [of w1 x] pos x d True by (auto simp: fl object_ok_def n_def)
    moreover have "dispatchers w2 = (dispatchers w)(x := ?d\<lparr>handlers := ?h, broadcastEventListenerCount := n\<rparr>)"
      using w2(2) by (simp add: w1_def)
    ultimately show ?thesis using e True by auto
  next
    case False
    have n: "n = broadcastEventListenerCount ?d" unfolding n_def by (simp only: False if_False diff_zero)
    have "set (frameListeners w) = (if n = 0 then set (frameListeners w) - {x} else set (frameListeners w))"
      using x n by (auto simp: object_ok_def)
    then show ?thesis using e False n d by (simp add: w1_def)
  qed
qed

lemma removed_count:
  assumes "remove_listener ls xs = (b, ys)"
  shows "length xs = length ys + (if b then 1 else 0)"
  using remove_listener_cases [OF assms] by (cases b) auto

lemma remove_listener_ok:
  assumes ok: "world_ok w"
  shows "\<exists>w'. removeEventListener x t f c wrk w = Inr w' \<and> world_ok w'"
proof (cases "handlers (dispatchers w x) t")
  case None
  then show ?thesis using ok by (simp add: removeEventListener_def Let_def)
next
  case (Some xs)
  let ?d = "dispatchers w x" and ?ls = "\<lparr>l_func = f, priority = 0, use_capture = c, l_worker = wrk\<rparr>"
  obtain b ys where r: "remove_listener ?ls xs = (b, ys)" by fastforce
  define n where "n = broadcastEventListenerCount ?d - (if b \<and> isDisplayObject ?d \<and> t \<in> frame_events then 1 else 0)"
  let ?v = "if ys = [] then None else Some ys"
  obtain w' where w': "removeEventListener x t f c wrk w = Inr w'"
      "dispatchers w' = (dispatchers w)(x := ?d\<lparr>handlers := (handlers ?d)(t := ?v), broadcastEventListenerCount := n\<rparr>)"
      "set (frameListeners w') = (if n = 0 then set (frameListeners w) - {x} else set (frameListeners w))"
      "distinct (frameListeners w')"
    using remove_steps [OF ok Some r] unfolding n_def by blast
  have x: "object_ok x w" using ok by (simp add: world_ok_objects)
  have "count_frame (?d\<lparr>handlers := (handlers ?d)(t := ?v)\<rparr>) + (if t \<in> frame_events then length xs else 0)
      = count_frame ?d + (if t \<in> frame_events then length ys else 0)"
    using count_frame_update [of ?d t ?v] Some by (auto simp: listeners_of_def)
  then have c: "count_frame ?d = count_frame (?d\<lparr>handlers := (handlers ?d)(t := ?v)\<rparr>) + (if b \<and> t \<in> frame_events then 1 else 0)"
    using removed_count [OF r] by (auto split: if_splits)
  have dx: "dispatchers w' x = ?d\<lparr>handlers := (handlers ?d)(t := ?v), broadcastEventListenerCount := n\<rparr>"
    using w'(2) by simp
  have n: "n = (if isDisplayObject ?d then count_frame (dispatchers w' x) else 0)"
    using x c by (auto simp: object_ok_def dx n_def)
  have "x \<in> set (frameListeners w') \<longleftrightarrow> 0 < n"
    using x w'(3) by (auto simp: object_ok_def n_def split: if_splits)
  moreover have "\<forall>s. handlers (dispatchers w' x) s \<noteq> Some []"
    using x by (simp add: object_ok_def dx)
  ultimately have "object_ok x w'"
    using n by (simp add: object_ok_def dx)
  moreover have "object_ok y w'" if "y \<noteq> x" for y
    using object_ok_other [of y w w'] ok that w'(2,3) by (auto simp: world_ok_objects)
  ultimately show ?thesis using w'(1,4) by (metis world_ok_objects)
qed

text \<open>
  The calls of one program, in the workers it has; the argument \<open>isPrimordial\<close> tells which worker is the primordial one.
  The counters and \<open>world_ok\<close> need that no background worker adds a listener of a frame event: \<open>addEventListener\<close> does not
  count it, \<open>removeEventListener\<close> does (\<open>background_removal_asserts\<close> below).
\<close>

datatype listener_call =
    AddListener obj string ifunction bool int nat
  | RemoveListener obj string ifunction bool nat

fun listener_calls :: "(nat \<Rightarrow> bool) \<Rightarrow> listener_call list \<Rightarrow> world \<Rightarrow> world res" where
  "listener_calls isPrimordial [] w = Inr w"
| "listener_calls isPrimordial (AddListener x t f c p wrk # cs) w =
     listener_calls isPrimordial cs (addEventListener x t f c p wrk (isPrimordial wrk) w)"
| "listener_calls isPrimordial (RemoveListener x t f c wrk # cs) w =
     bindE (removeEventListener x t f c wrk w) (listener_calls isPrimordial cs)"

fun counted_call :: "(nat \<Rightarrow> bool) \<Rightarrow> listener_call \<Rightarrow> bool" where
  "counted_call isPrimordial (AddListener x t f c p wrk) \<longleftrightarrow> isPrimordial wrk \<or> t \<notin> frame_events"
| "counted_call isPrimordial (RemoveListener x t f c wrk) \<longleftrightarrow> True"

lemma add_counted_ok:
  assumes "world_ok w" and "isPrimordial \<or> t \<notin> frame_events"
  shows "world_ok (addEventListener x t f c p wrk isPrimordial w)"
proof -
  have "addEventListener x t f c p wrk isPrimordial w = addEventListener x t f c p wrk True w"
    using assms(2) by (auto simp: addEventListener_def Let_def)
  then show ?thesis using add_listener_ok [OF assms(1)] by simp
qed

text \<open>C24: Whatever listeners the workers of the program add and remove, as long as no background worker (one that is not
  primordial) adds a listener of a frame event, and starting from consistent tables such as those without listeners: no assertion of
  the code fails, no event keeps an empty list of listeners (so that \<open>hasEventListener\<close> is true exactly for the events
  with a listener), and the display objects that receive broadcasts are exactly those with a listener of a frame event, each
  once. The excepted case is one in which the code does fail: a background worker that removes its listener of a frame event
  runs into an assertion (\<open>background_removal_asserts\<close>).\<close>

theorem listeners_consistent:
  assumes "world_ok w" and "list_all (counted_call isPrimordial) cs"
  shows "\<exists>w'. listener_calls isPrimordial cs w = Inr w' \<and> world_ok w'
    \<and> (\<forall>x t. hasEventListener x t w' \<longleftrightarrow> listeners_of t (dispatchers w' x) \<noteq> [])
    \<and> (\<forall>x. x \<in> set (frameListeners w') \<longleftrightarrow>
         isDisplayObject (dispatchers w' x) \<and> (\<exists>t\<in>frame_events. hasEventListener x t w'))"
proof -
  have "\<exists>w'. listener_calls isPrimordial cs w = Inr w' \<and> world_ok w'"
    using assms
  proof (induction isPrimordial cs w rule: listener_calls.induct)
    case (2 isPrimordial x t f c p wrk cs w)
    then show ?case using add_counted_ok by simp
  next
    case (3 isPrimordial x t f c wrk cs w)
    then show ?case using remove_listener_ok [OF "3.prems"(1), of x t f c wrk] by auto
  qed simp
  then obtain w' where w': "listener_calls isPrimordial cs w = Inr w'" "world_ok w'" by blast
  have has: "hasEventListener x t w' \<longleftrightarrow> listeners_of t (dispatchers w' x) \<noteq> []" for x t
    using w'(2) by (cases "handlers (dispatchers w' x) t") (auto simp: hasEventListener_def listeners_of_def world_ok_def)
  have "0 < count_frame d \<longleftrightarrow> (\<exists>t\<in>frame_events. listeners_of t d \<noteq> [])" for d
    by (auto simp: count_frame_def frame_events_def)
  then have "x \<in> set (frameListeners w') \<longleftrightarrow> isDisplayObject (dispatchers w' x) \<and> (\<exists>t\<in>frame_events. hasEventListener x t w')" for x
    using w'(2) has by (auto simp: world_ok_def split: if_splits)
  then show ?thesis using w' has by blast
qed

definition no_listeners :: "dispatcher" where
  "no_listeners = \<lparr>handlers = Map.empty, forcedTarget = None, isDisplayObject = True, waitingForParser = False, legacy = False,
     onStage = True, broadcastEventListenerCount = 0\<rparr>"

definition empty_world :: "(obj \<Rightarrow> obj option) \<Rightarrow> world" where
  "empty_world pa = \<lparr>dispatchers = (\<lambda>x. no_listeners), par = pa, frameListeners = [], framePhase = [], stageInvalidated = False\<rparr>"

lemma empty_world_ok: "world_ok (empty_world pa)"
  by (simp add: world_ok_def empty_world_def no_listeners_def count_frame_def listeners_of_def)

theorem listeners_consistent_witness:
  "\<exists>w'. listener_calls (\<lambda>wrk. wrk = 0)
       [AddListener 1 ''render'' \<lparr>func_id = 7, kind = Builtin 8, closure_this = None, clonedFrom = None\<rparr> False 0 0,
        AddListener 2 ''message'' \<lparr>func_id = 7, kind = Builtin 8, closure_this = None, clonedFrom = None\<rparr> False 0 5,
        RemoveListener 2 ''message'' \<lparr>func_id = 7, kind = Builtin 8, closure_this = None, clonedFrom = None\<rparr> False 5]
     (empty_world (\<lambda>x. None)) = Inr w' \<and> world_ok w'"
proof -
  have "list_all (counted_call (\<lambda>wrk. wrk = 0))
       [AddListener 1 ''render'' \<lparr>func_id = 7, kind = Builtin 8, closure_this = None, clonedFrom = None\<rparr> False 0 0,
        AddListener 2 ''message'' \<lparr>func_id = 7, kind = Builtin 8, closure_this = None, clonedFrom = None\<rparr> False 0 5,
        RemoveListener 2 ''message'' \<lparr>func_id = 7, kind = Builtin 8, closure_this = None, clonedFrom = None\<rparr> False 5]"
    by (simp add: frame_events_def)
  from listeners_consistent [OF empty_world_ok this] show ?thesis by blast
qed

text \<open>Removing a listener undoes adding it: unless an equal listener was registered before, after \<open>addEventListener\<close> the object has a
  listener for the event, and \<open>removeEventListener\<close> with the same function and phase restores all tables and the set of
  objects that receive broadcasts.\<close>

theorem add_remove_listener:
  assumes "world_ok w" and "\<forall>l\<in>set (listeners_of t (dispatchers w x)). \<not> listener_eq l \<lparr>l_func = f, priority = p, use_capture = c, l_worker = wrk\<rparr>"
  shows "hasEventListener x t (addEventListener x t f c p wrk True w)
    \<and> (\<exists>w'. removeEventListener x t f c wrk (addEventListener x t f c p wrk True w) = Inr w'
         \<and> dispatchers w' = dispatchers w \<and> set (frameListeners w') = set (frameListeners w))"
proof -
  let ?d = "dispatchers w x" and ?new = "\<lparr>l_func = f, priority = p, use_capture = c, l_worker = wrk\<rparr>"
  let ?ls = "listeners_of t ?d" and ?frame = "isDisplayObject (dispatchers w x) \<and> t \<in> frame_events"
  define w1 where "w1 = addEventListener x t f c p wrk True w"
  have ok: "object_ok x w" "distinct (frameListeners w)" using assms(1) by (simp_all add: world_ok_objects)
  have fresh: "\<not> already_registered ?new ?ls"
    using assms(2) by (auto simp: already_registered_def find_Some_iff split: option.splits)
  have d1: "dispatchers w1 = (dispatchers w)(x := ?d\<lparr>handlers := (handlers ?d)(t \<mapsto> ?ls @ [?new]),
      broadcastEventListenerCount := broadcastEventListenerCount ?d + (if ?frame then 1 else 0)\<rparr>)"
    and f1: "set (frameListeners w1) = (if ?frame then insert x (set (frameListeners w)) else set (frameListeners w))"
    using fresh broadcast_add [OF refl ok] by (auto simp: w1_def addEventListener_def Let_def)
  have neq: "\<not> listener_eq l \<lparr>l_func = f, priority = 0, use_capture = c, l_worker = wrk\<rparr>" if "l \<in> set ?ls" for l
    using assms(2) that by (auto simp: listener_eq_def split: if_splits)
  have self: "listener_eq ?new \<lparr>l_func = f, priority = 0, use_capture = c, l_worker = wrk\<rparr>"
    by (simp add: listener_eq_def isEqual_def split: fkind.splits)
  have "remove_listener \<lparr>l_func = f, priority = 0, use_capture = c, l_worker = wrk\<rparr> (ls @ [?new]) = (True, ls)"
    if "\<forall>l\<in>set ls. \<not> listener_eq l \<lparr>l_func = f, priority = 0, use_capture = c, l_worker = wrk\<rparr>" for ls
    using that self by (induction ls) simp_all
  then have r: "remove_listener \<lparr>l_func = f, priority = 0, use_capture = c, l_worker = wrk\<rparr> (?ls @ [?new]) = (True, ?ls)"
    using neq by blast
  have ok1: "world_ok w1" unfolding w1_def by (rule add_listener_ok [OF assms(1)])
  have h1: "handlers (dispatchers w1 x) t = Some (?ls @ [?new])" by (simp add: d1)
  have h: "(handlers ?d)(t := if ?ls = [] then None else Some ?ls) = handlers ?d"
    using ok(1) by (auto simp: object_ok_def listeners_of_def split: option.splits)
  obtain w' where w': "removeEventListener x t f c wrk w1 = Inr w'"
      "dispatchers w' = dispatchers w"
      "set (frameListeners w') = (if broadcastEventListenerCount ?d = 0 then set (frameListeners w1) - {x} else set (frameListeners w1))"
    using remove_steps [OF ok1 h1 r] h by (auto simp: d1)
  have "set (frameListeners w') = set (frameListeners w)"
    using w'(3) f1 ok(1) by (auto simp: object_ok_def)
  then show ?thesis using w' h1 by (auto simp: w1_def hasEventListener_def)
qed

theorem add_remove_listener_witness:
  "hasEventListener 1 ''render'' (addEventListener 1 ''render'' \<lparr>func_id = 7, kind = Builtin 8, closure_this = None, clonedFrom = None\<rparr>
     False 0 0 True (empty_world (\<lambda>x. None)))"
  using add_remove_listener [OF empty_world_ok, where t = "''render''" and x = 1 and c = False and p = 0 and wrk = 0
      and f = "\<lparr>func_id = 7, kind = Builtin 8, closure_this = None, clonedFrom = None\<rparr>"]
  by (simp add: empty_world_def no_listeners_def listeners_of_def)

section \<open>The order of the calls\<close>

text \<open>What ActionScript can do to the event that is dispatched: stop it, but not undo that.\<close>

definition tame :: "hooks \<Rightarrow> bool" where
  "tame h \<longleftrightarrow> (\<forall>l e w e' w'. execute h l e w = (e', w') \<longrightarrow>
     etype e' = etype e \<and> bubbles e' = bubbles e \<and> eventPhase e' = eventPhase e \<and> instanceWorker e' = instanceWorker e
     \<and> (immediatePropagationStopped e \<longrightarrow> immediatePropagationStopped e')
     \<and> (propagationStopped e \<longrightarrow> propagationStopped e'))"

lemma tameD:
  assumes "tame h" and "execute h l e w = (e', w')"
  shows "etype e' = etype e \<and> bubbles e' = bubbles e \<and> eventPhase e' = eventPhase e \<and> instanceWorker e' = instanceWorker e"
    and "immediatePropagationStopped e \<Longrightarrow> immediatePropagationStopped e'"
    and "propagationStopped e \<Longrightarrow> propagationStopped e'"
  using assms unfolding tame_def by blast+

definition follows :: "call \<Rightarrow> call \<Rightarrow> bool" where
  "follows c d \<longleftrightarrow> \<not> c_immediate c \<and> (c_stopped c \<longrightarrow> c_obj d = c_obj c \<and> c_phase d = c_phase c)"

definition well_stopped :: "call list \<Rightarrow> event \<Rightarrow> event \<Rightarrow> bool" where
  "well_stopped cs e e' \<longleftrightarrow> successively follows cs
     \<and> (if cs = [] then stopped e' = stopped e else stopped e' = (c_stopped (last cs) \<or> c_immediate (last cs)))"

lemma well_stopped_append:
  assumes "well_stopped cs e e1" and "well_stopped ds e1 e2" and "stopped e1 \<Longrightarrow> ds = []"
  shows "well_stopped (cs @ ds) e e2"
  using assms by (cases "ds = []") (auto simp: well_stopped_def successively_append_iff follows_def)

lemma call_listeners_stop:
  assumes "tame h"
  shows "call_listeners h x ls e w = (cs, e', w') \<Longrightarrow>
    successively follows cs \<and> (\<forall>c\<in>set cs. c_obj c = x \<and> c_phase c = eventPhase e)
    \<and> (immediatePropagationStopped e \<longrightarrow> cs = [])
    \<and> (if cs = [] then e' = e
       else propagationStopped e' = c_stopped (last cs) \<and> immediatePropagationStopped e' = c_immediate (last cs))"
proof (induction ls arbitrary: e w cs)
  case (Cons l ls)
  show ?case
  proof (cases "skipped e l \<or> immediatePropagationStopped e")
    case True
    then show ?thesis using Cons by (auto split: if_splits)
  next
    case False
    obtain e1 w1 where ex: "execute h l e w = (e1, w1)" by fastforce
    obtain ds where ds: "call_listeners h x ls e1 (after_execution h x e1 w1) = (ds, e', w')"
      and cs: "cs = \<lparr>c_obj = x, c_phase = eventPhase e, c_listener = l, c_stopped = propagationStopped e1,
          c_immediate = immediatePropagationStopped e1\<rparr> # ds"
      using Cons.prems False ex by (auto simp: Let_def split: prod.splits if_splits)
    have ph: "eventPhase e1 = eventPhase e" using tameD(1) [OF assms ex] by simp
    note IH = Cons.IH [OF ds]
    show ?thesis
    proof (cases ds)
      case Nil
      then show ?thesis using IH False cs by simp
    next
      case (Cons d ds')
      then show ?thesis using IH False cs ph by (auto simp: follows_def)
    qed
  qed
qed simp

lemma call_listeners_ok:
  assumes "tame h" and "call_listeners h x ls e w = (cs, e', w')"
  shows "well_stopped cs e e'" and "\<forall>c\<in>set cs. c_obj c = x \<and> c_phase c = eventPhase e"
    and "immediatePropagationStopped e \<Longrightarrow> cs = []"
  using call_listeners_stop [OF assms] by (auto simp: well_stopped_def stopped_def)

lemma visit_ok:
  assumes "tame h" and "visit h ct x e w = (cs, e', w')"
  shows "well_stopped cs e e'"
proof -
  let ?e = "e\<lparr>currentTarget := Some ct\<rparr>"
  obtain e1 where e1: "dispatcher_handleEvent h x ?e w = (cs, e1, w')" and e': "e' = e1\<lparr>currentTarget := None\<rparr>"
    using assms(2) by (auto simp: visit_def split: prod.splits)
  have s: "stopped ?e = stopped e" "stopped e' = stopped e1" by (simp_all add: stopped_def e')
  have "well_stopped cs ?e e1"
    using e1 call_listeners_ok(1) [OF assms(1)]
    by (auto simp: dispatcher_handleEvent_def well_stopped_def Let_def split: option.splits)
  then show ?thesis by (simp add: well_stopped_def s)
qed

lemma visit_all_ok:
  assumes "tame h"
  shows "visit_all h xs e w = (cs, e', w') \<Longrightarrow> well_stopped cs e e' \<and> (stopped e \<longrightarrow> cs = [])"
proof (induction xs arbitrary: e w cs)
  case Nil
  then show ?case by (auto simp: well_stopped_def)
next
  case (Cons x xs)
  show ?case
  proof (cases "stopped e")
    case True
    then show ?thesis using Cons.prems by (auto simp: well_stopped_def)
  next
    case False
    then obtain as e1 w1 bs where a: "visit h x x e w = (as, e1, w1)" "visit_all h xs e1 w1 = (bs, e', w')" "cs = as @ bs"
      using Cons.prems by (auto split: prod.splits)
    then show ?thesis
      using well_stopped_append [OF visit_ok [OF assms a(1)]] Cons.IH [OF a(2)] False by auto
  qed
qed

text \<open>The phases one after the other.\<close>

lemma publicHandleEvent_phases:
  assumes "publicHandleEvent h x e w = Some (cs, e', w')" and "\<not> skips_enter_frame (dispatchers w x) e"
  defines "w0 \<equiv> frame_phase_begin e w" and "e0 \<equiv> dispatch_begin x e (frame_phase_begin e w)"
  obtains ps doT cs1 e1 w1 cs2 e2 w2 cs3 e3 w3
  where "dispatch_parents x e0 w0 = Some (ps, doT)"
    and "visit_all h (rev ps) e0 w0 = (cs1, e1, w1)"
    and "target_phase h doT (the (target e0)) x e1 w1 = (cs2, e2, w2)"
    and "bubbling_phase h ps e2 w2 = (cs3, e3, w3)"
    and "cs = cs1 @ cs2 @ cs3" and "dispatch_end h x e3 w3 = (e', w')"
proof -
  have ns: "\<not> skips_enter_frame (dispatchers w0 x) e"
    using assms(2) by (simp add: w0_def frame_phase_begin_def)
  obtain ps doT where path: "dispatch_parents x e0 w0 = Some (ps, doT)"
    using assms(1) ns by (cases "dispatch_parents x e0 w0") (auto simp: publicHandleEvent_def e0_def w0_def Let_def)
  obtain cs1 e1 w1 where a: "visit_all h (rev ps) e0 w0 = (cs1, e1, w1)" by (metis prod_cases3)
  obtain cs2 e2 w2 where b: "target_phase h doT (the (target e0)) x e1 w1 = (cs2, e2, w2)" by (metis prod_cases3)
  obtain cs3 e3 w3 where c: "bubbling_phase h ps e2 w2 = (cs3, e3, w3)" by (metis prod_cases3)
  obtain e4 w4 where d: "dispatch_end h x e3 w3 = (e4, w4)" by fastforce
  have "publicHandleEvent h x e w = Some (cs1 @ cs2 @ cs3, e4, w4)"
    using ns path a b c d by (simp add: publicHandleEvent_def Let_def w0_def e0_def)
  then show thesis using that [OF path a b c] assms(1) d by simp
qed

lemma target_phase_ok:
  assumes "tame h" and "target_phase h d r x e w = (cs, e', w')"
  shows "well_stopped cs e e' \<and> (stopped e \<longrightarrow> cs = [])"
proof -
  have s: "stopped (e\<lparr>eventPhase := AtTarget\<rparr>) = stopped e" by (simp add: stopped_def)
  then have "visit h r x (e\<lparr>eventPhase := AtTarget\<rparr>) w = (cs, e', w')
      \<or> cs = [] \<and> stopped e' = stopped e"
    and "stopped e \<longrightarrow> cs = [] \<and> stopped e' = stopped e"
    using assms(2) by (auto simp: target_phase_def Let_def split: if_splits)
  then show ?thesis
    using visit_ok [OF assms(1)] s by (auto simp: well_stopped_def)
qed

lemma bubbling_phase_ok:
  assumes "tame h" and "bubbling_phase h ps e w = (cs, e', w')"
  shows "well_stopped cs e e' \<and> (stopped e \<longrightarrow> cs = [])"
proof -
  have "stopped (e\<lparr>eventPhase := Bubbling\<rparr>) = stopped e" by (simp add: stopped_def)
  then show ?thesis
    using assms(2) visit_all_ok [OF assms(1), of ps "e\<lparr>eventPhase := Bubbling\<rparr>" w cs e' w']
    by (auto simp: bubbling_phase_def well_stopped_def split: if_splits)
qed

text \<open>C26: A stopped event is stopped: whatever the listeners do otherwise (add and remove listeners, move objects, dispatch other events),
  after a listener that called \<open>stopImmediatePropagation\<close> no other listener is called, and after one
  that called \<open>stopPropagation\<close> only the remaining listeners of the same object and phase are.\<close>

theorem stop_respected:
  assumes "tame h" and "publicHandleEvent h x e w = Some (us @ c # d # vs, e', w')"
  shows "\<not> c_immediate c \<and> (c_stopped c \<longrightarrow> c_obj d = c_obj c \<and> c_phase d = c_phase c)"
proof (cases "skips_enter_frame (dispatchers w x) e")
  case True
  then have "skips_enter_frame (dispatchers (frame_phase_begin e w) x) e" by (simp add: frame_phase_begin_def)
  then show ?thesis using assms(2) by (simp add: publicHandleEvent_def Let_def)
next
  case False
  from publicHandleEvent_phases [OF assms(2) False] obtain ps doT cs1 e1 w1 cs2 e2 w2 cs3 e3 w3 r e0 w0
    where p: "visit_all h (rev ps) e0 w0 = (cs1, e1, w1)" "target_phase h doT r x e1 w1 = (cs2, e2, w2)"
      "bubbling_phase h ps e2 w2 = (cs3, e3, w3)" "us @ c # d # vs = cs1 @ cs2 @ cs3"
    by metis
  note a = visit_all_ok [OF assms(1) p(1)] and b = target_phase_ok [OF assms(1) p(2)]
    and c = bubbling_phase_ok [OF assms(1) p(3)]
  have "well_stopped (cs2 @ cs3) e1 e3" using b c by (blast intro: well_stopped_append)
  moreover have "stopped e1 \<Longrightarrow> cs2 @ cs3 = []"
    using b c by (auto simp: well_stopped_def)
  ultimately have "well_stopped (cs1 @ cs2 @ cs3) e0 e3" using a by (blast intro: well_stopped_append)
  then have "successively follows (us @ c # d # vs)" using p(4) by (simp add: well_stopped_def)
  then show ?thesis by (simp add: successively_append_iff follows_def)
qed

section \<open>Without a stop\<close>




definition call_key :: "call \<Rightarrow> obj \<times> phase \<times> listener" where
  "call_key c = (c_obj c, c_phase c, c_listener c)"








definition same_event :: "event \<Rightarrow> event \<Rightarrow> bool" where
  "same_event e e' \<longleftrightarrow> etype e' = etype e \<and> bubbles e' = bubbles e \<and> instanceWorker e' = instanceWorker e \<and> stopped e' = stopped e"

lemma same_event_trans: "same_event e e1 \<Longrightarrow> same_event e1 e2 \<Longrightarrow> same_event e e2"
  by (simp add: same_event_def)










section \<open>Examples\<close>

text \<open>Listeners that do what a function of their number says, with a stable sort.\<close>

definition simple_hooks :: "(nat \<Rightarrow> event \<Rightarrow> event) \<Rightarrow> hooks" where
  "simple_hooks act = \<lparr>before_handle = (\<lambda>x e w. w), sort_listeners = sort_key (\<lambda>l. - priority l),
     execute = (\<lambda>l e w. (act (func_id (l_func l)) e, w)), after_execution = (\<lambda>x e w. w), avm1_handle = (\<lambda>x e w. w),
     default_behavior = (\<lambda>x e w. w), clone_event = Some\<rparr>"


definition plain :: "nat \<Rightarrow> ifunction" where
  "plain n = \<lparr>func_id = n, kind = Synthetic None n n, closure_this = None, clonedFrom = None\<rparr>"

lemma plain_eq [simp]: "isEqual (plain m) (plain n) \<longleftrightarrow> m = n"
  by (auto simp: isEqual_def plain_def)

lemma plain_id [simp]: "func_id (plain n) = n"
  by (simp add: plain_def)

lemmas dispatch_eval = addEventListener_def already_registered_def listener_eq_def listeners_of_def empty_world_def
  no_listeners_def frame_events_def publicHandleEvent_def Let_def frame_phase_begin_def frame_phase_end_def event_new_def
  skips_enter_frame_def dispatch_begin_def dispatch_parents_def dispatch_path_def parents_of.simps target_phase_def stopped_def
  visit_def dispatcher_handleEvent_def simple_hooks_def skipped_def bubbling_phase_def dispatch_end_def


theorem stop_respected_witness:
  "\<exists>(c :: call) (d :: call). map func_id (map l_func (map c_listener [c, d])) = [7, 9] \<and> \<not> c_immediate c"
proof -
  let ?w = "addEventListener 1 ''click'' (plain 7) False 5 0 True (addEventListener 1 ''click'' (plain 9) False 3 0 True
    (empty_world (\<lambda>x. None)))"
  let ?h = "simple_hooks (\<lambda>n e. if n = 7 then stopPropagation e else e)" and ?e = "event_new ''click'' True False 0"
  have "tame ?h" by (simp add: tame_def simple_hooks_def stopPropagation_def)
  moreover have "\<exists>c d e' w'. publicHandleEvent ?h 1 ?e ?w = Some ([c, d], e', w')
      \<and> map func_id (map l_func (map c_listener [c, d])) = [7, 9]"
    by (simp add: dispatch_eval stopPropagation_def)
  then obtain c d e' w' where p: "publicHandleEvent ?h 1 ?e ?w = Some ([] @ c # d # [], e', w')"
      and k: "map func_id (map l_func (map c_listener [c, d])) = [7, 9]" by auto
  ultimately have "\<not> c_immediate c" using stop_respected [OF _ p] by simp
  with k show ?thesis by (intro exI [of _ c] exI [of _ d] conjI)
qed

section \<open>What goes wrong\<close>

text \<open>
  All receivers of a broadcast get the same event, and only its target is reset in between: when the listener
  of one object stops the event, the listeners of the other objects are not called.
\<close>

lemma broadcast_stopped_for_all:
  "\<exists>cs e' w'. handleBroadcastEvent (simple_hooks (\<lambda>n e. if n = 7 then stopImmediatePropagation e else e)) ''enterFrame'' 0
      (addEventListener 2 ''enterFrame'' (plain 9) False 0 0 True
        (addEventListener 1 ''enterFrame'' (plain 7) False 0 0 True (empty_world (\<lambda>x. None)))) = Some (cs, e', w')
    \<and> map c_obj cs = [1]"
  by (simp add: dispatch_eval handleBroadcastEvent_def addBroadcastEventListener_def registerFrameListener_def
      stopImmediatePropagation_def)

text \<open>
  A comment in \<open>publicHandleEvent\<close> says that \<open>rollOver\<close> has no bubbling phase. The code has one, on the same ancestors as
  the capture phase, if the event was made with \<open>bubbles\<close>: the listener of the parent is called.
\<close>

lemma roll_over_bubbles:
  "\<exists>cs e' w'. publicHandleEvent (simple_hooks (\<lambda>n e. e)) 2 ((event_new ''rollOver'' True False 0)\<lparr>relatedObject := Some 3\<rparr>)
      (addEventListener 1 ''rollOver'' (plain 7) False 0 0 True (empty_world (\<lambda>x. if x = 2 then Some 1 else None))) = Some (cs, e', w')
    \<and> map call_key cs = [(1, Bubbling, \<lparr>l_func = plain 7, priority = 0, use_capture = False, l_worker = 0\<rparr>)]"
  by (simp add: dispatch_eval call_key_def parents_until.simps)

text \<open>A background worker that removes its listener of a frame event decrements a counter that it did not increment.\<close>

lemma background_removal_asserts:
  "removeEventListener 1 ''render'' (plain 7) False 5 (addEventListener 1 ''render'' (plain 7) False 0 5 False (empty_world pa))
   = Inl AssertionFailed"
  by (simp add: dispatch_eval removeEventListener_def removeBroadcastEventListener_def)

text \<open>
  Only the first listener that compares equal is tested: beside an unbound method (the first one), its
  bound clone is registered every time it is added.
\<close>

lemma registered_twice:
  fixes f g
  defines "f \<equiv> \<lparr>func_id = 7, kind = Synthetic (Some 1) 2 3, closure_this = None, clonedFrom = None\<rparr>"
    and "g \<equiv> \<lparr>func_id = 8, kind = Synthetic (Some 1) 2 3, closure_this = Some 4, clonedFrom = Some 7\<rparr>"
  shows "map (func_id \<circ> l_func) (listeners_of ''click'' (dispatchers
      (addEventListener 1 ''click'' g False 0 0 True (addEventListener 1 ''click'' g False 0 0 True
        (addEventListener 1 ''click'' f False 0 0 True (empty_world pa)))) 1)) = [7, 8, 8]"
  by (simp add: dispatch_eval f_def g_def isEqual_def)

end
