(* ===== verification/DisplayList.thy ===== *)
theory DisplayList
  imports LS_Prelude
begin

text \<open>
  The tree of display objects: \<open>DisplayObjectContainer\<close> of \<open>scripting/flash/display/flashdisplay.cpp\<close> with the parts of
  \<open>DisplayObject\<close> and \<open>SystemState\<close> it uses.

  Objects are numbers. A container has its list of children from back to front, and the two maps between
  those that the timeline placed and their depths. Events are fired by a parameter that may change everything. A
  function that walks the tree is \<open>None\<close> where the code does not return; a method that ActionScript
  calls either is done, raises an error of the script, or fails an assertion.
\<close>

section \<open>The state\<close>

record dobj =
  parent :: "nat option"
  children :: "nat list"
  depthToChild :: "(int \<times> nat) list"
  childToDepth :: "nat \<rightharpoonup> int"
  onStage :: bool
  isContainer :: bool
  needsAS3 :: bool
  d_legacy :: bool
  constructed :: bool
  clipDepth :: int
  clipMask :: "nat option"
  markedForDeletion :: bool
  deletionMarks :: "int list"
  isAVM1Movie :: bool
  isRootMovieClip :: bool

record dworld =
  objs :: "nat \<Rightarrow> dobj"
  stage_obj :: nat
  mainClip :: nat
  isVmThread :: bool
  listResetParent :: "nat list"
  fired :: "(string \<times> nat) list"

type_synonym fire = "string \<Rightarrow> nat \<Rightarrow> dworld \<Rightarrow> dworld"

abbreviation upd :: "nat \<Rightarrow> (dobj \<Rightarrow> dobj) \<Rightarrow> dworld \<Rightarrow> dworld" where
  "upd x g t \<equiv> t\<lparr>objs := (objs t)(x := g (objs t x))\<rparr>"

abbreviation kids :: "dworld \<Rightarrow> nat \<Rightarrow> nat list" where "kids t p \<equiv> children (objs t p)"

datatype 'a outcome = Done 'a dworld | ScriptError nat | AssertFails | BadAccess | Hangs

section \<open>Parents\<close>

definition isInResetParentList :: "nat \<Rightarrow> dworld \<Rightarrow> bool" where
  "isInResetParentList c t = (c \<in> set (listResetParent t))"

definition removeFromResetParentList :: "nat \<Rightarrow> dworld \<Rightarrow> dworld" where
  "removeFromResetParentList c t = t\<lparr>listResetParent := remove1 c (listResetParent t)\<rparr>"

definition addDisplayObjectToResetParentList :: "nat \<Rightarrow> dworld \<Rightarrow> dworld" where
  "addDisplayObjectToResetParentList c t =
     (if c \<in> set (listResetParent t) then t else t\<lparr>listResetParent := listResetParent t @ [c]\<rparr>)"

definition setParent :: "nat \<Rightarrow> nat option \<Rightarrow> dworld \<Rightarrow> dworld" where
  "setParent c p t =
     (if parent (objs t c) \<noteq> p
      then upd c (\<lambda>obj. obj\<lparr>parent := p\<rparr>) (if p \<noteq> None then removeFromResetParentList c t else t)
      else t)"

fun reset_parents :: "nat list \<Rightarrow> dworld \<Rightarrow> dworld" where
  "reset_parents [] t = t"
| "reset_parents (c # cs) t = reset_parents cs (setParent c None t)"

definition resetParentList :: "dworld \<Rightarrow> dworld" where
  "resetParentList t = (reset_parents (listResetParent t) t)\<lparr>listResetParent := []\<rparr>"

partial_function (option) has_stage :: "dworld \<Rightarrow> nat \<Rightarrow> bool option" where
  "has_stage t x = (if x = stage_obj t then Some True
     else case parent (objs t x) of None \<Rightarrow> Some False | Some p \<Rightarrow> has_stage t p)"

section \<open>On and off the stage\<close>

definition display_setOnStage :: "fire \<Rightarrow> bool \<Rightarrow> bool \<Rightarrow> nat \<Rightarrow> dworld \<Rightarrow> dworld" where
  "display_setOnStage f staged force x t =
     (let changed = (staged \<noteq> onStage (objs t x));
          t = (if changed then upd x (\<lambda>obj. obj\<lparr>onStage := staged\<rparr>) t else t)
      in if force \<or> changed
         then (if onStage (objs t x) then (if \<not> isRootMovieClip (objs t x) then f ''addedToStage'' x t else t)
               else f ''removedFromStage'' x t)
         else t)"

text \<open>The objects of a list with all below them, depth first.\<close>

partial_function (option) setOnStage_all :: "fire \<Rightarrow> bool \<Rightarrow> bool \<Rightarrow> nat list \<Rightarrow> dworld \<Rightarrow> dworld option" where
  "setOnStage_all f staged force xs t = (case xs of
       [] \<Rightarrow> Some t
     | x # ys \<Rightarrow>
         if isContainer (objs t x)
         then if staged \<noteq> onStage (objs t x) \<or> force
              then Option.bind (setOnStage_all f staged force (kids t x) (display_setOnStage f staged force x t))
                     (setOnStage_all f staged force ys)
              else setOnStage_all f staged force ys t
         else setOnStage_all f staged force ys (display_setOnStage f staged force x t))"

definition setOnStage :: "fire \<Rightarrow> bool \<Rightarrow> bool \<Rightarrow> nat \<Rightarrow> dworld \<Rightarrow> dworld option" where
  "setOnStage f staged force x t = setOnStage_all f staged force [x] t"

section \<open>Depths\<close>

definition hasLegacyChildAt :: "int \<Rightarrow> nat \<Rightarrow> dworld \<Rightarrow> bool" where
  "hasLegacyChildAt d p t = (map_of (depthToChild (objs t p)) d \<noteq> None)"

definition findLegacyChildDepth :: "nat \<Rightarrow> nat \<Rightarrow> dworld \<Rightarrow> int" where
  "findLegacyChildDepth c p t = (case childToDepth (objs t p) c of None \<Rightarrow> 0 | Some d \<Rightarrow> d)"

definition getRawDepth :: "nat \<Rightarrow> dworld \<Rightarrow> int" where
  "getRawDepth c t = (case parent (objs t c) of None \<Rightarrow> 0 | Some p \<Rightarrow> findLegacyChildDepth c p t)"

fun insert_depth :: "int \<Rightarrow> nat \<Rightarrow> (int \<times> nat) list \<Rightarrow> (int \<times> nat) list" where
  "insert_depth d c [] = [(d, c)]"
| "insert_depth d c ((k, x) # m) =
     (if d < k then (d, c) # (k, x) # m else if d = k then (k, x) # m else (k, x) # insert_depth d c m)"

definition umarkLegacyChild :: "nat \<Rightarrow> nat \<Rightarrow> dworld \<Rightarrow> dworld" where
  "umarkLegacyChild c p t = (case childToDepth (objs t p) c of
       None \<Rightarrow> t
     | Some d \<Rightarrow> upd p (\<lambda>obj. obj\<lparr>depthToChild := filter (\<lambda>(k, _). k \<noteq> d) (depthToChild obj),
                              childToDepth := (childToDepth obj)(c := None)\<rparr>) t)"

definition getMaxLegacyChildDepth :: "nat \<Rightarrow> dworld \<Rightarrow> int" where
  "getMaxLegacyChildDepth p t =
     (let m = fold (\<lambda>(k, _) m. if k > m then k else m) (depthToChild (objs t p)) (- 1) in if m \<ge> 0 then m else 4294967295)"

fun check_clips :: "(int \<times> nat) list \<Rightarrow> nat option \<Rightarrow> dworld \<Rightarrow> dworld" where
  "check_clips [] clip t = t"
| "check_clips ((d, x) # m) clip t =
     (if clipDepth (objs t x) \<noteq> 0 then check_clips m (Some x) t
      else case clip of
        Some y \<Rightarrow> if clipDepth (objs t y) > d then check_clips m clip (upd x (\<lambda>obj. obj\<lparr>clipMask := Some y\<rparr>) t)
                  else check_clips m clip (upd x (\<lambda>obj. obj\<lparr>clipMask := None\<rparr>) t)
      | None \<Rightarrow> check_clips m clip (upd x (\<lambda>obj. obj\<lparr>clipMask := None\<rparr>) t))"

definition checkClipDepth :: "nat \<Rightarrow> dworld \<Rightarrow> dworld" where
  "checkClipDepth p t = check_clips (depthToChild (objs t p)) None t"

section \<open>Children\<close>

fun getChildIndex_from :: "nat list \<Rightarrow> nat \<Rightarrow> int \<Rightarrow> int" where
  "getChildIndex_from [] c n = - 1"
| "getChildIndex_from (x # xs) c n = (if x = c then n else getChildIndex_from xs c (n + 1))"

definition getChildIndex :: "nat \<Rightarrow> nat \<Rightarrow> dworld \<Rightarrow> int" where
  "getChildIndex c p t = getChildIndex_from (kids t p) c 0"

definition insert_at :: "int \<Rightarrow> 'a \<Rightarrow> 'a list \<Rightarrow> 'a list" where
  "insert_at i x xs = (if 0 \<le> i \<and> i < int (length xs) then take (nat i) xs @ x # drop (nat i) xs else xs @ [x])"

definition setChildIndexIntern :: "nat \<Rightarrow> int \<Rightarrow> nat \<Rightarrow> dworld \<Rightarrow> dworld" where
  "setChildIndexIntern c index p t =
     (let cur = getChildIndex c p t in
      if cur < 0 then t
      else let t = upd p (\<lambda>obj. obj\<lparr>children := take (nat cur) (children obj) @ drop (nat cur + 1) (children obj)\<rparr>) t;
               t = umarkLegacyChild c p t;
               t = upd p (\<lambda>obj. obj\<lparr>children := insert_at index c (children obj)\<rparr>) t
           in checkClipDepth p t)"

definition removeFromDisplayList :: "nat \<Rightarrow> nat \<Rightarrow> dworld \<Rightarrow> dworld" where
  "removeFromDisplayList c p t = upd p (\<lambda>obj. obj\<lparr>children := remove1 c (children obj)\<rparr>) (umarkLegacyChild c p t)"

definition handleRemovedEvent :: "fire \<Rightarrow> nat \<Rightarrow> bool \<Rightarrow> bool \<Rightarrow> dworld \<Rightarrow> dworld option" where
  "handleRemovedEvent f c keepOnStage sendevents t =
     (let t = (if sendevents then f ''removed'' c t else t) in
      if keepOnStage then Some t
      else if onStage (objs t c) then setOnStage f False True c t
      else Option.bind (has_stage t c) (\<lambda>b. if b then setOnStage f False True c t else Some t))"

definition removeChild_intern ::
  "fire \<Rightarrow> nat \<Rightarrow> bool \<Rightarrow> bool \<Rightarrow> bool \<Rightarrow> bool \<Rightarrow> nat \<Rightarrow> dworld \<Rightarrow> (bool \<times> dworld) option" where
  "removeChild_intern f c direct inskipping keeponstage sendevents p t =
     (if parent (objs t c) \<noteq> Some p then Some (False, t)
      else if c \<notin> set (kids t p) then Some (isInResetParentList c t, t)
      else let t = removeFromDisplayList c p t in
        Option.bind (handleRemovedEvent f c keeponstage sendevents t) (\<lambda>t.
          let t = (if \<not> direct \<and> \<not> inskipping \<and> \<not> isVmThread t then addDisplayObjectToResetParentList c t
                   else setParent c None t)
          in Some (True, checkClipDepth p t)))"

definition addChildAt_intern :: "fire \<Rightarrow> nat \<Rightarrow> nat \<Rightarrow> bool \<Rightarrow> nat \<Rightarrow> dworld \<Rightarrow> dworld option" where
  "addChildAt_intern f c index inskipping p t =
     (if parent (objs t c) = Some p \<and> \<not> isInResetParentList c t \<and> getChildIndex c p t \<ge> 0
      then Some (setChildIndexIntern c (if index < 2147483648 then int index else - 1) p t)
      else
        Option.bind
          (case parent (objs t c) of
             Some q \<Rightarrow> if \<not> isInResetParentList c t \<and> q \<noteq> p
                       then map_option snd (removeChild_intern f c False inskipping False True q t) else Some t
           | None \<Rightarrow> Some t)
          (\<lambda>t. let t = removeFromResetParentList c t;
                   t = setParent c (Some p) t;
                   t = upd p (\<lambda>obj. obj\<lparr>children := (if index \<ge> length (children obj) then children obj @ [c]
                                               else take index (children obj) @ c # drop index (children obj))\<rparr>) t;
                   t = f ''added'' c t
               in if \<not> onStage (objs t p) \<or> c \<noteq> mainClip t then setOnStage f (onStage (objs t p)) False c t else Some t))"

fun removeChildren_list :: "fire \<Rightarrow> nat list \<Rightarrow> bool \<Rightarrow> nat \<Rightarrow> dworld \<Rightarrow> dworld option" where
  "removeChildren_list f [] legacy p t = Some t"
| "removeChildren_list f (c # cs) legacy p t =
     (let t = (if legacy then upd c (\<lambda>obj. obj\<lparr>d_legacy := False\<rparr>) t else t)
      in Option.bind (removeChild_intern f c False False False True p t) (\<lambda>(_, t). removeChildren_list f cs legacy p t))"

partial_function (option) contains_any :: "dworld \<Rightarrow> nat list \<Rightarrow> nat \<Rightarrow> bool option" where
  "contains_any t xs d = (case xs of
       [] \<Rightarrow> Some False
     | x # ys \<Rightarrow>
         if x = d then Some True
         else if isContainer (objs t x)
         then Option.bind (contains_any t (kids t x) d) (\<lambda>b. if b then Some True else contains_any t ys d)
         else contains_any t ys d)"

definition contains_intern :: "nat \<Rightarrow> nat \<Rightarrow> dworld \<Rightarrow> bool option" where
  "contains_intern d p t = (if d = p then Some True else contains_any t (kids t p) d)"

section \<open>The methods of ActionScript\<close>

text \<open>An argument that should be a display object.\<close>

datatype darg = NoObject  \<comment> \<open>null, undefined or a class\<close> | OtherObject | DisplayArg nat

definition as_done :: "'a \<Rightarrow> dworld option \<Rightarrow> 'a outcome" where
  "as_done x r = (case r of None \<Rightarrow> Hangs | Some t \<Rightarrow> Done x t)"

definition is_as2_child :: "nat \<Rightarrow> nat \<Rightarrow> dworld \<Rightarrow> bool" where
  "is_as2_child c p t = (needsAS3 (objs t p) \<and> (\<not> needsAS3 (objs t c) \<or> isAVM1Movie (objs t c)))"

definition addChildAt :: "fire \<Rightarrow> darg \<Rightarrow> int \<Rightarrow> nat \<Rightarrow> dworld \<Rightarrow> nat option outcome" where
  "addChildAt f arg index p t = (case arg of
       NoObject \<Rightarrow> Done None t
     | OtherObject \<Rightarrow> AssertFails
     | DisplayArg c \<Rightarrow>
         if \<not> (index \<ge> 0 \<and> nat index \<le> length (kids t p)) then AssertFails
         else if is_as2_child c p t then ScriptError 2180
         else as_done (Some c) (addChildAt_intern f c (nat index) False p (upd c (\<lambda>obj. obj\<lparr>d_legacy := False\<rparr>) t)))"

definition addChild :: "fire \<Rightarrow> darg \<Rightarrow> nat \<Rightarrow> dworld \<Rightarrow> nat option outcome" where
  "addChild f arg p t = (case arg of
       NoObject \<Rightarrow> Done None t
     | OtherObject \<Rightarrow> AssertFails
     | DisplayArg c \<Rightarrow>
         if is_as2_child c p t then ScriptError 2180
         else as_done (Some c) (addChildAt_intern f c 4294967295 False p (upd c (\<lambda>obj. obj\<lparr>d_legacy := False\<rparr>) t)))"

definition removeChild :: "fire \<Rightarrow> darg \<Rightarrow> nat \<Rightarrow> dworld \<Rightarrow> nat option outcome" where
  "removeChild f arg p t = (case arg of
       NoObject \<Rightarrow> ScriptError 2007
     | OtherObject \<Rightarrow> Done None t
     | DisplayArg c \<Rightarrow>
         (case removeChild_intern f c False False False True p t of
            None \<Rightarrow> Hangs
          | Some (removed, t) \<Rightarrow>
              if \<not> removed then ScriptError 2025 else Done (Some c) (upd c (\<lambda>obj. obj\<lparr>d_legacy := False\<rparr>) t)))"

definition removeChildAt :: "fire \<Rightarrow> int \<Rightarrow> nat \<Rightarrow> dworld \<Rightarrow> nat option outcome" where
  "removeChildAt f index p t =
     (if index \<ge> int (length (kids t p)) \<or> index < 0 then ScriptError 2025
      else let c = kids t p ! nat index in
        case removeChild_intern f c False False False True p t of
          None \<Rightarrow> Hangs
        | Some (_, t) \<Rightarrow> Done (Some c) (upd c (\<lambda>obj. obj\<lparr>d_legacy := False\<rparr>) t))"

definition removeChildren :: "fire \<Rightarrow> nat \<Rightarrow> nat \<Rightarrow> nat \<Rightarrow> dworld \<Rightarrow> unit outcome" where
  "removeChildren f beginindex endindex p t =
     (let n = length (kids t p);
          inRange = (beginindex < n \<and> beginindex < 2147483648 \<and> endindex < n \<and> endindex < 2147483648)
      in if (\<not> inRange \<and> endindex \<noteq> 2147483647) \<or> beginindex > endindex then ScriptError 2006
         else let endindex = (if endindex > n then n else endindex + 1)
              in if beginindex > endindex then Done () t
                 else as_done () (removeChildren_list f (take (endindex - beginindex) (drop beginindex (kids t p))) True p t))"

definition removeAllChildren :: "fire \<Rightarrow> nat \<Rightarrow> dworld \<Rightarrow> dworld option" where
  "removeAllChildren f p t = removeChildren_list f (kids t p) False p t"

definition setChildIndex :: "darg \<Rightarrow> int \<Rightarrow> nat \<Rightarrow> dworld \<Rightarrow> unit outcome" where
  "setChildIndex arg index p t = (case arg of
       DisplayArg c \<Rightarrow>
         if parent (objs t c) \<noteq> Some p then ScriptError 1508
         else if index < 0 \<or> index > int (length (kids t p)) then ScriptError 2006
         else Done () (setChildIndexIntern c index p t)
     | _ \<Rightarrow> ScriptError 1508)"

definition swap_children_at :: "nat \<Rightarrow> nat \<Rightarrow> nat \<Rightarrow> dworld \<Rightarrow> dworld" where
  "swap_children_at i j p t =
     (let a = kids t p ! i; b = kids t p ! j;
          t = upd p (\<lambda>obj. obj\<lparr>children := (children obj)[i := b, j := a]\<rparr>) t;
          t = umarkLegacyChild (kids t p ! i) p t;
          t = umarkLegacyChild (kids t p ! j) p t
      in checkClipDepth p t)"

definition swapChildren :: "darg \<Rightarrow> darg \<Rightarrow> nat \<Rightarrow> dworld \<Rightarrow> unit outcome" where
  "swapChildren arg1 arg2 p t = (case (arg1, arg2) of
       (DisplayArg a, DisplayArg b) \<Rightarrow>
         if a = b then Done () t
         else let i = getChildIndex a p t; j = getChildIndex b p t in
           if i < 0 \<or> j < 0 then ScriptError 2025 else Done () (swap_children_at (nat i) (nat j) p t)
     | _ \<Rightarrow> AssertFails)"

definition swapChildrenAt :: "int \<Rightarrow> int \<Rightarrow> nat \<Rightarrow> dworld \<Rightarrow> unit outcome" where
  "swapChildrenAt index1 index2 p t =
     (let n = int (length (kids t p)) in
      if index1 < 0 \<or> index1 > n \<or> index2 < 0 \<or> index2 > n then ScriptError 2006
      else if index1 = index2 then Done () t
      else if index1 = n \<or> index2 = n then BadAccess
      else Done () (swap_children_at (nat index1) (nat index2) p t))"

definition getChildAt :: "nat \<Rightarrow> nat \<Rightarrow> dworld \<Rightarrow> nat option outcome" where
  "getChildAt index p t =
     (if \<not> constructed (objs t p) then Done None t
      else if index \<ge> length (kids t p) then ScriptError 2025
      else let c = kids t p ! index in if \<not> constructed (objs t c) then Done None t else Done (Some c) t)"

definition as_getChildIndex :: "darg \<Rightarrow> nat \<Rightarrow> dworld \<Rightarrow> int outcome" where
  "as_getChildIndex arg p t = (case arg of
       DisplayArg c \<Rightarrow> (let i = getChildIndex c p t in if i = - 1 then ScriptError 2025 else Done i t)
     | _ \<Rightarrow> ScriptError 2025)"

definition as_contains :: "darg \<Rightarrow> nat \<Rightarrow> dworld \<Rightarrow> bool outcome" where
  "as_contains arg p t = (case arg of
       DisplayArg c \<Rightarrow> (case contains_intern c p t of None \<Rightarrow> Hangs | Some b \<Rightarrow> Done b t)
     | _ \<Rightarrow> Done False t)"

definition numChildren :: "nat \<Rightarrow> dworld \<Rightarrow> nat" where "numChildren p t = length (kids t p)"

section \<open>The timeline\<close>

text \<open>The child with the greatest depth that is not above \<open>d\<close>.\<close>

fun child_below :: "int \<Rightarrow> (int \<times> nat) list \<Rightarrow> nat option \<Rightarrow> nat option" where
  "child_below d [] pre = pre"
| "child_below d ((k, x) # m) pre = (if k > d then pre else child_below d m (Some x))"

fun skip_raw :: "dworld \<Rightarrow> nat list \<Rightarrow> nat" where
  "skip_raw t [] = 0"
| "skip_raw t (x # xs) = (if getRawDepth x t \<ge> 0 then Suc (skip_raw t xs) else 0)"

definition insert_position :: "int \<Rightarrow> bool \<Rightarrow> nat \<Rightarrow> dworld \<Rightarrow> nat" where
  "insert_position d fromtag p t =
     (case child_below d (depthToChild (objs t p)) None of
        Some x \<Rightarrow>
          if x \<in> set (kids t p)
          then let i = nat (getChildIndex x p t) + 1 in if fromtag then i + skip_raw t (drop i (kids t p)) else i
          else 0
      | None \<Rightarrow> if kids t p \<noteq> [] \<and> fromtag then skip_raw t (kids t p) else 0)"

definition insertLegacyChildAt :: "fire \<Rightarrow> int \<Rightarrow> nat \<Rightarrow> bool \<Rightarrow> bool \<Rightarrow> nat \<Rightarrow> dworld \<Rightarrow> dworld option" where
  "insertLegacyChildAt f d c inskipping fromtag p t =
     (if hasLegacyChildAt d p t then Some t
      else map_option
        (upd p (\<lambda>obj. obj\<lparr>depthToChild := insert_depth d c (depthToChild obj),
           childToDepth := (if childToDepth obj c = None then (childToDepth obj)(c \<mapsto> d) else childToDepth obj)\<rparr>))
        (addChildAt_intern f c (insert_position d fromtag p t) inskipping p t))"

definition deleteLegacyChildAt :: "fire \<Rightarrow> int \<Rightarrow> bool \<Rightarrow> nat \<Rightarrow> dworld \<Rightarrow> dworld option" where
  "deleteLegacyChildAt f d inskipping p t = (case map_of (depthToChild (objs t p)) d of
       None \<Rightarrow> Some t
     | Some c \<Rightarrow>
         map_option snd (removeChild_intern f c False inskipping False True p
           (if inskipping then t else upd c (\<lambda>obj. obj\<lparr>markedForDeletion := True\<rparr>) t)))"

definition LegacyChildRemoveDeletionMark :: "int \<Rightarrow> nat \<Rightarrow> dworld \<Rightarrow> bool \<times> dworld" where
  "LegacyChildRemoveDeletionMark d p t =
     (if d \<in> set (deletionMarks (objs t p)) then (True, upd p (\<lambda>obj. obj\<lparr>deletionMarks := remove1 d (deletionMarks obj)\<rparr>) t)
      else (False, t))"

fun erase_marked :: "fire \<Rightarrow> int list \<Rightarrow> nat \<Rightarrow> dworld \<Rightarrow> dworld option" where
  "erase_marked f [] p t = Some t"
| "erase_marked f (d # ds) p t =
     Option.bind (deleteLegacyChildAt f d False p t)
       (\<lambda>t. erase_marked f ds p (upd p (\<lambda>obj. obj\<lparr>deletionMarks := remove1 d (deletionMarks obj)\<rparr>) t))"

definition LegacyChildEraseDeletionMarked :: "fire \<Rightarrow> nat \<Rightarrow> dworld \<Rightarrow> dworld option" where
  "LegacyChildEraseDeletionMarked f p t = erase_marked f (deletionMarks (objs t p)) p t"

end
