(* ===== verification/DisplayTree.thy ===== *)
theory DisplayTree
  imports DisplayList
begin

text \<open>
  What the operations of \<open>DisplayList\<close> keep: the display objects form trees, lists of children and parents
  agree, the children that the timeline placed are in the order of their depths, and an object is on the
  stage exactly if it is below it.
\<close>

section \<open>Invariants\<close>

definition kid_rel :: "dworld \<Rightarrow> (nat \<times> nat) set" where
  "kid_rel t = {(p, c). c \<in> set (kids t p)}"

definition par_rel :: "dworld \<Rightarrow> (nat \<times> nat) set" where
  "par_rel t = {(p, c). parent (objs t c) = Some p}"

definition maps_ok :: "dobj \<Rightarrow> bool" where
  "maps_ok ob \<longleftrightarrow> sorted_wrt (<) (map fst (depthToChild ob))
     \<and> (\<forall>d c. (d, c) \<in> set (depthToChild ob) \<longleftrightarrow> childToDepth ob c = Some d)"

definition depths_ok :: "dobj \<Rightarrow> bool" where
  "depths_ok ob \<longleftrightarrow> maps_ok ob
     \<and> filter (\<lambda>c. childToDepth ob c \<noteq> None) (children ob) = map snd (depthToChild ob)"

definition shape_ok :: "dworld \<Rightarrow> bool" where
  "shape_ok t \<longleftrightarrow>
     (\<forall>p. distinct (kids t p) \<and> depths_ok (objs t p) \<and> (kids t p \<noteq> [] \<longrightarrow> isContainer (objs t p)))
     \<and> (\<forall>p c. c \<in> set (kids t p) \<longrightarrow> parent (objs t c) = Some p)
     \<and> finite (par_rel t) \<and> acyclic (par_rel t) \<and> parent (objs t (stage_obj t)) = None"

text \<open>A parent without the child waits for the end of the removal events.\<close>

definition lists_ok :: "dworld \<Rightarrow> bool" where
  "lists_ok t \<longleftrightarrow>
     (\<forall>p c. parent (objs t c) = Some p \<longrightarrow> c \<in> set (kids t p) \<or> c \<in> set (listResetParent t))
     \<and> (\<forall>p c. c \<in> set (listResetParent t) \<longrightarrow> c \<notin> set (kids t p)) \<and> distinct (listResetParent t)"

definition stage_ok :: "dworld \<Rightarrow> bool" where
  "stage_ok t \<longleftrightarrow> (\<forall>p c. c \<in> set (kids t p) \<longrightarrow> onStage (objs t c) = onStage (objs t p))
     \<and> (\<forall>x. onStage (objs t x) \<and> x \<noteq> stage_obj t \<longrightarrow> (\<exists>p. x \<in> set (kids t p)))"

definition tree_ok :: "dworld \<Rightarrow> bool" where
  "tree_ok t \<longleftrightarrow> shape_ok t \<and> lists_ok t \<and> stage_ok t"

text \<open>Events that only are recorded.\<close>

definition quiet_fire :: "fire \<Rightarrow> bool" where
  "quiet_fire f \<longleftrightarrow> (\<forall>e c t. \<exists>l. f e c t = t\<lparr>fired := l\<rparr>)"

definition same_shape :: "dworld \<Rightarrow> dworld \<Rightarrow> bool" where
  "same_shape t t' \<longleftrightarrow> (\<forall>x. parent (objs t' x) = parent (objs t x) \<and> children (objs t' x) = children (objs t x)
       \<and> depthToChild (objs t' x) = depthToChild (objs t x) \<and> childToDepth (objs t' x) = childToDepth (objs t x)
       \<and> isContainer (objs t' x) = isContainer (objs t x))
     \<and> stage_obj t' = stage_obj t \<and> mainClip t' = mainClip t \<and> isVmThread t' = isVmThread t
     \<and> listResetParent t' = listResetParent t"

lemma same_shape_refl [simp]: "same_shape t t"
  by (simp add: same_shape_def)

lemma same_shape_trans: "same_shape t u \<Longrightarrow> same_shape u v \<Longrightarrow> same_shape t v"
  by (simp add: same_shape_def)

lemma same_shapeD:
  assumes "same_shape t t'"
  shows "kids t' x = kids t x" and "parent (objs t' x) = parent (objs t x)" and "kid_rel t' = kid_rel t" and "par_rel t' = par_rel t"
    and "listResetParent t' = listResetParent t" and "stage_obj t' = stage_obj t" and "isContainer (objs t' x) = isContainer (objs t x)"
    and "depths_ok (objs t' x) = depths_ok (objs t x)" and "isVmThread t' = isVmThread t" and "mainClip t' = mainClip t"
    and "depthToChild (objs t' x) = depthToChild (objs t x)" and "childToDepth (objs t' x) = childToDepth (objs t x)"
  using assms by (simp_all add: same_shape_def kid_rel_def par_rel_def depths_ok_def maps_ok_def)

lemma shape_ok_same: "same_shape t t' \<Longrightarrow> shape_ok t' = shape_ok t"
  unfolding shape_ok_def by (simp only: same_shapeD)

lemma lists_ok_same: "same_shape t t' \<Longrightarrow> lists_ok t' = lists_ok t"
  unfolding lists_ok_def by (simp only: same_shapeD)

lemma quiet_fireD:
  assumes "quiet_fire f"
  shows "objs (f e c t) = objs t" and "same_shape t (f e c t)"
proof -
  obtain l where "f e c t = t\<lparr>fired := l\<rparr>" using assms unfolding quiet_fire_def by metis
  then show "objs (f e c t) = objs t" and "same_shape t (f e c t)" by (simp_all add: same_shape_def)
qed

lemma kid_par: "shape_ok t \<Longrightarrow> kid_rel t \<subseteq> par_rel t"
  by (auto simp: shape_ok_def kid_rel_def par_rel_def)

lemma kid_acyclic: "shape_ok t \<Longrightarrow> finite (kid_rel t) \<and> acyclic (kid_rel t)"
  using kid_par [of t] by (auto simp: shape_ok_def intro: finite_subset acyclic_subset)

text \<open>A height for the objects, so that walks down the tree end.\<close>

lemma height_exists:
  assumes "finite r" and "acyclic r"
  shows "\<exists>h :: 'a \<Rightarrow> nat. \<forall>x y. (x, y) \<in> r \<longrightarrow> h y < h x"
proof (intro exI allI impI)
  fix x y assume xy: "(x, y) \<in> r"
  have fin: "finite {z. (w, z) \<in> r\<^sup>+}" for w
  proof -
    have "{z. (w, z) \<in> r\<^sup>+} \<subseteq> Range (r\<^sup>+)" by blast
    then show ?thesis using assms(1) finite_subset finite_Range trancl_range by metis
  qed
  have "{z. (y, z) \<in> r\<^sup>+} \<subset> {z. (x, z) \<in> r\<^sup>+}"
  proof
    show "{z. (y, z) \<in> r\<^sup>+} \<subseteq> {z. (x, z) \<in> r\<^sup>+}"
      using xy by (auto intro: trancl_into_trancl2)
    have "(y, y) \<notin> r\<^sup>+" using assms(2) by (auto simp: acyclic_def)
    then show "{z. (y, z) \<in> r\<^sup>+} \<noteq> {z. (x, z) \<in> r\<^sup>+}" using xy by auto
  qed
  then show "card {z. (y, z) \<in> r\<^sup>+} < card {z. (x, z) \<in> r\<^sup>+}"
    using fin by (intro psubset_card_mono)
qed

section \<open>On and off the stage\<close>

definition below :: "dworld \<Rightarrow> nat set \<Rightarrow> nat set" where
  "below t X = (kid_rel t)\<^sup>* `` X"

lemma below_self: "x \<in> X \<Longrightarrow> x \<in> below t X"
  by (auto simp: below_def)

lemma below_kid: "p \<in> below t X \<Longrightarrow> c \<in> set (kids t p) \<Longrightarrow> c \<in> below t X"
  by (auto simp: below_def kid_rel_def intro: rtrancl_into_rtrancl)

lemma below_Un: "below t (X \<union> Y) = below t X \<union> below t Y"
  by (auto simp: below_def)

lemma below_insert: "below t (insert x X) = below t {x} \<union> below t X"
  by (auto simp: below_def)

lemma below_step: "below t {x} = insert x (below t (set (kids t x)))"
  by (auto simp: below_def kid_rel_def elim: converse_rtranclE intro: converse_rtrancl_into_rtrancl)

lemma below_same: "same_shape t t' \<Longrightarrow> below t' X = below t X"
  by (simp add: below_def same_shapeD)

lemma below_cases:
  assumes "c \<in> below t X" and "shape_ok t" and "c \<in> set (kids t p)"
  shows "c \<in> X \<or> p \<in> below t X"
proof -
  obtain x where x: "x \<in> X" "(x, c) \<in> (kid_rel t)\<^sup>*" using assms(1) by (auto simp: below_def)
  show ?thesis
  proof (cases "x = c")
    case False
    then obtain q where q: "(x, q) \<in> (kid_rel t)\<^sup>*" "(q, c) \<in> kid_rel t" using x(2) by (meson rtranclE)
    then have "parent (objs t c) = Some q" "parent (objs t c) = Some p"
      using assms(2,3) unfolding shape_ok_def kid_rel_def by blast+
    then have "q = p" by simp
    then show ?thesis using q(1) x(1) by (auto simp: below_def)
  qed (use x in simp)
qed

lemma not_below_kids: "shape_ok t \<Longrightarrow> x \<notin> below t (set (kids t x))"
proof
  assume ok: "shape_ok t" and "x \<in> below t (set (kids t x))"
  then obtain c where "(x, c) \<in> kid_rel t" "(c, x) \<in> (kid_rel t)\<^sup>*" by (auto simp: below_def kid_rel_def)
  then have "(x, x) \<in> (kid_rel t)\<^sup>+" by (rule rtrancl_into_trancl2)
  then show False using kid_acyclic [OF ok] by (auto simp: acyclic_def)
qed

lemma display_setOnStage:
  assumes "quiet_fire f"
  shows "same_shape t (display_setOnStage f s force x t)"
    and "onStage (objs (display_setOnStage f s force x t) y) = (if y = x then s else onStage (objs t y))"
proof -
  define t1 where "t1 = (if s \<noteq> onStage (objs t x) then upd x (\<lambda>obj. obj\<lparr>onStage := s\<rparr>) t else t)"
  have 1: "same_shape t t1" "onStage (objs t1 y) = (if y = x then s else onStage (objs t y))"
    by (auto simp: t1_def same_shape_def)
  have e: "display_setOnStage f s force x t =
      (if force \<or> s \<noteq> onStage (objs t x)
       then (if onStage (objs t1 x) then (if \<not> isRootMovieClip (objs t1 x) then f ''addedToStage'' x t1 else t1) else f ''removedFromStage'' x t1)
       else t1)"
    by (simp add: display_setOnStage_def Let_def t1_def)
  show "same_shape t (display_setOnStage f s force x t)"
    using 1(1) quiet_fireD(2) [OF assms, of t1] same_shape_trans unfolding e by auto
  show "onStage (objs (display_setOnStage f s force x t) y) = (if y = x then s else onStage (objs t y))"
    using 1(2) quiet_fireD(1) [OF assms] unfolding e by auto
qed

text \<open>The objects below a list of siblings, with the states they have.\<close>

definition roots :: "dworld \<Rightarrow> nat set \<Rightarrow> bool" where
  "roots t X \<longleftrightarrow> (\<forall>x\<in>X. \<forall>p. x \<in> set (kids t p) \<longrightarrow> p \<notin> below t X)"

definition uniform :: "dworld \<Rightarrow> nat set \<Rightarrow> bool" where
  "uniform t X \<longleftrightarrow> (\<forall>p\<in>below t X. \<forall>c\<in>set (kids t p). onStage (objs t c) = onStage (objs t p))"

lemma uniform_below: "uniform t X \<Longrightarrow> x \<in> X \<Longrightarrow> y \<in> below t {x} \<Longrightarrow> onStage (objs t y) = onStage (objs t x)"
proof -
  assume u: "uniform t X" and x: "x \<in> X" and "y \<in> below t {x}"
  then have "(x, y) \<in> (kid_rel t)\<^sup>*" by (simp add: below_def)
  then show ?thesis
  proof (induction rule: rtrancl_induct)
    case (step y z)
    then have "y \<in> below t X" "z \<in> set (kids t y)" using x by (auto simp: below_def kid_rel_def)
    then show ?case using u step.IH by (auto simp: uniform_def)
  qed simp
qed

lemma roots_kids: "shape_ok t \<Longrightarrow> roots t (set (kids t x))"
proof -
  assume ok: "shape_ok t"
  have "p = x" if "c \<in> set (kids t x)" "c \<in> set (kids t p)" for c p
    using ok that unfolding shape_ok_def by (metis option.inject)
  then show ?thesis using not_below_kids [OF ok] by (auto simp: roots_def)
qed

lemma roots_tail: "roots t (insert x X) \<Longrightarrow> roots t X"
  by (auto simp: roots_def below_insert [of t x X])

lemma uniform_kids: "uniform t (insert x X) \<Longrightarrow> uniform t (set (kids t x))"
  using below_insert [of t x X] below_step [of t x] by (auto simp: uniform_def)

lemma below_disjoint:
  assumes "shape_ok t" and "roots t (insert x X)" and "p \<in> below t X" and "c \<in> set (kids t p)" and "c \<in> below t {x}"
  shows "p \<in> below t {x}"
  using below_cases [OF assms(5,1,4)] assms(2,3,4) by (auto simp: roots_def below_insert [of t x X])

lemma uniform_after:
  assumes ok: "shape_ok t" and same: "same_shape t t'" and r: "roots t (insert x X)" and u: "uniform t (insert x X)"
    and on: "\<And>y. onStage (objs t' y) = (if y \<in> below t {x} then s else onStage (objs t y))"
  shows "uniform t' X"
  unfolding uniform_def
proof (intro ballI)
  fix p c assume "p \<in> below t' X" "c \<in> set (kids t' p)"
  then have p: "p \<in> below t X" and c: "c \<in> set (kids t p)" using same by (simp_all add: below_same same_shapeD)
  have "onStage (objs t c) = onStage (objs t p)"
    using u p c below_insert [of t x X] by (auto simp: uniform_def)
  moreover have "c \<in> below t {x} \<longleftrightarrow> p \<in> below t {x}"
    using below_disjoint [OF ok r p c] below_kid [OF _ c] by blast
  ultimately show "onStage (objs t' c) = onStage (objs t' p)" by (simp add: on)
qed

lemma uniform_set_root:
  assumes ok: "shape_ok t" and "same_shape t t'" and u: "uniform t (set (kids t x))"
    and on: "\<And>y. onStage (objs t' y) = (if y = x then s else onStage (objs t y))"
  shows "uniform t' (set (kids t' x))"
  unfolding uniform_def
proof (intro ballI)
  fix p c assume "p \<in> below t' (set (kids t' x))" "c \<in> set (kids t' p)"
  then have p: "p \<in> below t (set (kids t x))" and c: "c \<in> set (kids t p)" using assms(2) by (simp_all add: below_same same_shapeD)
  then have "p \<noteq> x" "c \<noteq> x" using not_below_kids [OF ok, of x] below_kid [OF p c] by auto
  then show "onStage (objs t' c) = onStage (objs t' p)" using u p c by (simp add: on uniform_def)
qed

definition sets_below :: "bool \<Rightarrow> nat set \<Rightarrow> dworld \<Rightarrow> dworld \<Rightarrow> bool" where
  "sets_below s X t t' \<longleftrightarrow> same_shape t t' \<and> (\<forall>y. onStage (objs t' y) = (if y \<in> below t X then s else onStage (objs t y)))"

lemma sets_below_trans:
  assumes "sets_below s X t u" and "sets_below s Y u v"
  shows "sets_below s (X \<union> Y) t v"
  using assms same_shape_trans [of t u v] by (auto simp: sets_below_def below_Un below_same)

lemma setOnStage_all_ok:
  assumes f: "quiet_fire f"
  shows "shape_ok t \<Longrightarrow> (\<forall>x y. (x, y) \<in> kid_rel t \<longrightarrow> h y < (h x :: nat)) \<Longrightarrow> (\<forall>x\<in>set xs. h x < n) \<Longrightarrow>
    roots t (set xs) \<Longrightarrow> force \<or> uniform t (set xs) \<Longrightarrow>
    \<exists>t'. setOnStage_all f s force xs t = Some t' \<and> sets_below s (set xs) t t'"
proof (induction n arbitrary: xs t)
  case 0
  then have "xs = []" by (cases xs) auto
  then show ?case by (simp add: setOnStage_all.simps sets_below_def below_def)
next
  case (Suc n)
  note outer = Suc.IH
  from Suc.prems show ?case
  proof (induction xs arbitrary: t)
    case Nil
    then show ?case by (simp add: setOnStage_all.simps sets_below_def below_def)
  next
    case (Cons x ys)
    note ok = Cons.prems(1) and h = Cons.prems(2)
    have rest: "\<exists>t'. setOnStage_all f s force ys u = Some t' \<and> sets_below s (set (x # ys)) t t'"
      if u: "sets_below s {x} t u" for u
    proof -
      have same: "same_shape t u" and on: "\<And>y. onStage (objs u y) = (if y \<in> below t {x} then s else onStage (objs t y))"
        using u by (simp_all add: sets_below_def)
      have "roots u (set ys)"
        using roots_tail [of t x "set ys"] Cons.prems(4) same by (simp add: roots_def below_same same_shapeD)
      moreover have "force \<or> uniform u (set ys)"
        using uniform_after [OF ok same _ _ on] Cons.prems(4,5) by auto
      moreover have "\<forall>x y. (x, y) \<in> kid_rel u \<longrightarrow> h y < h x" using h same by (simp add: same_shapeD)
      ultimately obtain t' where "setOnStage_all f s force ys u = Some t'" "sets_below s (set ys) u t'"
        using Cons.IH [of u] Cons.prems(3) shape_ok_same [OF same] ok by auto
      then show ?thesis using sets_below_trans [OF u] by auto
    qed
    define t1 where "t1 = display_setOnStage f s force x t"
    have t1: "same_shape t t1" "\<And>y. onStage (objs t1 y) = (if y = x then s else onStage (objs t y))"
      unfolding t1_def using display_setOnStage [OF f] by blast+
    consider (leaf) "\<not> isContainer (objs t x)" | (skip) "isContainer (objs t x)" "s = onStage (objs t x)" "\<not> force"
      | (walk) "isContainer (objs t x)" "s \<noteq> onStage (objs t x) \<or> force" by blast
    then show ?case
    proof cases
      case leaf
      then have "kids t x = []" using ok by (auto simp: shape_ok_def)
      then have "sets_below s {x} t t1" using t1 below_step [of t x] by (simp add: sets_below_def below_def)
      then show ?thesis using rest leaf by (simp add: setOnStage_all.simps [of f s force "x # ys"] t1_def)
    next
      case skip
      then have "sets_below s {x} t t"
        using Cons.prems(5) uniform_below [of t "set (x # ys)" x] by (auto simp: sets_below_def)
      moreover have "setOnStage_all f s force (x # ys) t = setOnStage_all f s force ys t"
        using skip by (subst setOnStage_all.simps) simp
      ultimately show ?thesis using rest [of t] by simp
    next
      case walk
      have hk: "\<forall>c\<in>set (kids t1 x). h c < n"
        using h Cons.prems(3) t1(1) by (fastforce simp: kid_rel_def same_shapeD)
      have "uniform t (set (kids t x)) \<Longrightarrow> uniform t1 (set (kids t1 x))"
        using uniform_set_root [OF ok t1(1) _ t1(2)] .
      then have "force \<or> uniform t1 (set (kids t1 x))"
        using Cons.prems(5) uniform_kids [of t x "set ys"] by auto
      moreover have "shape_ok t1" using ok shape_ok_same [OF t1(1)] by simp
      moreover have "\<forall>x y. (x, y) \<in> kid_rel t1 \<longrightarrow> h y < h x" using h t1(1) by (simp add: same_shapeD)
      ultimately obtain t2 where t2: "setOnStage_all f s force (kids t1 x) t1 = Some t2" "sets_below s (set (kids t1 x)) t1 t2"
        using outer [of t1 "kids t1 x"] hk roots_kids [of t1 x] by blast
      have "sets_below s {x} t t2"
        using t2(2) t1 below_step [of t x] same_shape_trans [OF t1(1)]
        by (auto simp: sets_below_def below_same same_shapeD [OF t1(1)])
      then show ?thesis
        using rest walk t2(1) same_shapeD(1) [OF t1(1), of x]
        by (simp add: setOnStage_all.simps [of f s force "x # ys"] t1_def)
    qed
  qed
qed

lemma setOnStage_ok:
  assumes "quiet_fire f" and "shape_ok t" and "force \<or> uniform t {c}"
  shows "\<exists>t'. setOnStage f s force c t = Some t' \<and> sets_below s {c} t t'"
proof -
  obtain h :: "nat \<Rightarrow> nat" where h: "\<forall>x y. (x, y) \<in> kid_rel t \<longrightarrow> h y < h x"
    using height_exists kid_acyclic [OF assms(2)] by blast
  have "roots t {c}"
  proof -
    have False if "c \<in> set (kids t p)" "p \<in> below t {c}" for p
    proof -
      have "(c, c) \<in> (kid_rel t)\<^sup>+" using that by (auto simp: below_def kid_rel_def intro: rtrancl_into_trancl1)
      then show False using kid_acyclic [OF assms(2)] by (auto simp: acyclic_def)
    qed
    then show ?thesis by (auto simp: roots_def)
  qed
  then show ?thesis
    using setOnStage_all_ok [OF assms(1,2) h, of "[c]" "Suc (h c)"] assms(3) by (simp add: setOnStage_def)
qed

lemma has_stage_returns:
  assumes "shape_ok t"
  shows "\<exists>b. has_stage t x = Some b"
proof -
  have "finite ((par_rel t)\<inverse>)" "acyclic ((par_rel t)\<inverse>)" using assms by (auto simp: shape_ok_def)
  then obtain h :: "nat \<Rightarrow> nat" where h: "\<forall>x y. (x, y) \<in> (par_rel t)\<inverse> \<longrightarrow> h y < h x"
    using height_exists by blast
  show ?thesis
  proof (induction "h x" arbitrary: x rule: less_induct)
    case less
    show ?case
    proof (cases "parent (objs t x)")
      case (Some p)
      then have "h p < h x" using h by (auto simp: par_rel_def)
      then obtain b where "has_stage t p = Some b" using less by blast
      then have "has_stage t x = Some (x = stage_obj t \<or> b)" using Some by (subst has_stage.simps) simp
      then show ?thesis by blast
    next
      case None
      then have "has_stage t x = Some (x = stage_obj t)" by (subst has_stage.simps) simp
      then show ?thesis by blast
    qed
  qed
qed

section \<open>Depths\<close>

definition unmark :: "nat \<Rightarrow> dobj \<Rightarrow> dobj" where
  "unmark c ob = ob\<lparr>depthToChild := filter (\<lambda>(k, x). x \<noteq> c) (depthToChild ob), childToDepth := (childToDepth ob)(c := None)\<rparr>"

lemma depths_unique:
  assumes "maps_ok ob" and "(d, c) \<in> set (depthToChild ob)" and "(k, x) \<in> set (depthToChild ob)"
  shows "k = d \<longleftrightarrow> x = c"
proof
  have d: "distinct (map fst (depthToChild ob))"
    using assms(1) by (auto simp: maps_ok_def strict_sorted_iff)
  show "k = d \<Longrightarrow> x = c" using assms(2,3) eq_key_imp_eq_value [OF d] by blast
  show "x = c \<Longrightarrow> k = d" using assms unfolding maps_ok_def by (metis option.inject)
qed

lemma umark_unmark:
  assumes "maps_ok (objs t p)"
  shows "umarkLegacyChild c p t = upd p (unmark c) t"
proof (cases "childToDepth (objs t p) c")
  case None
  then have "filter (\<lambda>(k, x). x \<noteq> c) (depthToChild (objs t p)) = depthToChild (objs t p)"
    using assms by (intro filter_True) (auto simp: maps_ok_def)
  moreover have "(childToDepth (objs t p))(c := None) = childToDepth (objs t p)" using None by auto
  ultimately have "unmark c (objs t p) = objs t p" by (simp add: unmark_def)
  then show ?thesis using None by (simp add: umarkLegacyChild_def)
next
  case (Some d)
  then have "(d, c) \<in> set (depthToChild (objs t p))" using assms by (simp add: maps_ok_def)
  then have "filter (\<lambda>(k, _). k \<noteq> d) (depthToChild (objs t p)) = filter (\<lambda>(k, x). x \<noteq> c) (depthToChild (objs t p))"
    using depths_unique [OF assms] by (intro filter_cong) auto
  then show ?thesis using Some by (simp add: umarkLegacyChild_def unmark_def)
qed

lemma unmark_simps [simp]:
  "children (unmark c ob) = children ob" "parent (unmark c ob) = parent ob" "isContainer (unmark c ob) = isContainer ob"
  "onStage (unmark c ob) = onStage ob" "childToDepth (unmark c ob) = (childToDepth ob)(c := None)"
  "depthToChild (unmark c ob) = filter (\<lambda>(k, x). x \<noteq> c) (depthToChild ob)"
  by (simp_all add: unmark_def)

lemma maps_ok_unmark: "maps_ok ob \<Longrightarrow> maps_ok (unmark c ob)"
  by (auto simp: maps_ok_def sorted_wrt_map intro: sorted_wrt_filter)

lemma depths_ok_unmark:
  assumes "depths_ok ob"
  shows "depths_ok (unmark c ob)"
proof -
  have "filter (\<lambda>x. ((childToDepth ob)(c := None)) x \<noteq> None) (children ob)
      = filter (\<lambda>x. x \<noteq> c) (filter (\<lambda>x. childToDepth ob x \<noteq> None) (children ob))"
    by (auto simp: filter_filter intro: filter_cong)
  also have "\<dots> = map snd (filter (\<lambda>(k, x). x \<noteq> c) (depthToChild ob))"
    using assms by (simp add: depths_ok_def filter_map comp_def case_prod_beta')
  finally show ?thesis using assms maps_ok_unmark by (simp add: depths_ok_def)
qed

text \<open>Children without a depth can be put anywhere.\<close>

lemma depths_ok_children:
  assumes "depths_ok ob" and "filter (\<lambda>c. childToDepth ob c \<noteq> None) xs = filter (\<lambda>c. childToDepth ob c \<noteq> None) (children ob)"
  shows "depths_ok (ob\<lparr>children := xs\<rparr>)"
  using assms by (simp add: depths_ok_def maps_ok_def)

lemma filter_remove1_not: "\<not> P c \<Longrightarrow> filter P (remove1 c xs) = filter P xs"
  by (induction xs) auto

lemma filter_insert_not: "\<not> P c \<Longrightarrow> filter P (take i xs @ c # drop i xs) = filter P xs"
  by (metis append_take_drop_id filter.simps(2) filter_append)

lemma filter_snoc_not: "\<not> P c \<Longrightarrow> filter P (xs @ [c]) = filter P xs"
  by simp

lemma filter_insert_at: "\<not> P c \<Longrightarrow> filter P (insert_at i c xs) = filter P xs"
  unfolding insert_at_def using filter_insert_not [of P c "nat i" xs] filter_snoc_not [of P c xs] by (simp del: filter_append)

lemma check_clips_same:
  "same_shape t (check_clips m clip t) \<and> (\<forall>x. onStage (objs (check_clips m clip t) x) = onStage (objs t x))"
proof (induction m clip t rule: check_clips.induct)
  case (2 d x m clip t)
  have s: "same_shape t (upd x (\<lambda>obj. obj\<lparr>clipMask := v\<rparr>) t)" for v by (simp add: same_shape_def)
  show ?case
  proof (cases "clipDepth (objs t x) \<noteq> 0")
    case True
    then show ?thesis using 2 by simp
  next
    case False
    then show ?thesis
      using 2 same_shape_trans [OF s] by (cases clip) auto
  qed
qed simp

lemma checkClipDepth_same: "same_shape t (checkClipDepth p t)" "onStage (objs (checkClipDepth p t) x) = onStage (objs t x)"
  using check_clips_same by (simp_all add: checkClipDepth_def)

lemma sets_none: "same_shape t t' \<Longrightarrow> (\<And>x. onStage (objs t' x) = onStage (objs t x)) \<Longrightarrow> tree_ok t \<Longrightarrow> tree_ok t'"
  using shape_ok_same [of t t'] lists_ok_same [of t t'] by (simp add: tree_ok_def stage_ok_def same_shapeD)

section \<open>Moving children\<close>

text \<open>One container changes the order of its children.\<close>

definition with_dobj :: "nat \<Rightarrow> dobj \<Rightarrow> dworld \<Rightarrow> dworld" where
  "with_dobj p ob t = t\<lparr>objs := (objs t)(p := ob)\<rparr>"

lemma tree_ok_reorder:
  assumes "tree_ok t" and "set (children ob) = set (kids t p)" and "distinct (children ob)" and "depths_ok ob"
    and "parent ob = parent (objs t p)" and "isContainer ob = isContainer (objs t p)" and "onStage ob = onStage (objs t p)"
  shows "tree_ok (with_dobj p ob t)"
proof -
  let ?t = "with_dobj p ob t"
  have k: "set (kids ?t q) = set (kids t q)" "parent (objs ?t q) = parent (objs t q)" "onStage (objs ?t q) = onStage (objs t q)"
    "isContainer (objs ?t q) = isContainer (objs t q)" for q
    using assms by (auto simp: with_dobj_def)
  have r: "par_rel ?t = par_rel t" "listResetParent ?t = listResetParent t" "stage_obj ?t = stage_obj t"
    using assms(5) by (auto simp: par_rel_def with_dobj_def)
  have "kids ?t q = [] \<longleftrightarrow> kids t q = []" for q using k(1) [of q] by (metis set_empty)
  moreover have "distinct (kids ?t q) \<and> depths_ok (objs ?t q)" for q
    using assms(1,3,4) by (auto simp: with_dobj_def tree_ok_def shape_ok_def)
  ultimately have "shape_ok ?t"
    using assms(1) unfolding tree_ok_def shape_ok_def by (simp only: k r) blast
  moreover have "lists_ok ?t \<and> stage_ok ?t"
    using assms(1) unfolding tree_ok_def lists_ok_def stage_ok_def by (simp only: k r) blast
  ultimately show ?thesis by (simp add: tree_ok_def)
qed

lemma getChildIndex_from_spec:
  "getChildIndex_from xs c n = (if c \<in> set xs then n + int (length (takeWhile (\<lambda>x. x \<noteq> c) xs)) else - 1)"
  if "0 \<le> n"
  using that by (induction xs arbitrary: n) auto

lemma getChildIndex_spec:
  "getChildIndex c p t = (if c \<in> set (kids t p) then int (length (takeWhile (\<lambda>x. x \<noteq> c) (kids t p))) else - 1)"
  by (simp add: getChildIndex_def getChildIndex_from_spec)

lemma remove_at_index:
  "c \<in> set xs \<Longrightarrow> take (length (takeWhile (\<lambda>x. x \<noteq> c) xs)) xs @ drop (length (takeWhile (\<lambda>x. x \<noteq> c) xs) + 1) xs = remove1 c xs"
  by (induction xs) auto

lemma index_nth: "c \<in> set xs \<Longrightarrow> length (takeWhile (\<lambda>x. x \<noteq> c) xs) < length xs \<and> xs ! length (takeWhile (\<lambda>x. x \<noteq> c) xs) = c"
  by (induction xs) auto

lemma set_insert_mid: "set (take i xs @ c # drop i xs) = insert c (set xs)"
proof -
  have "set (take i xs @ c # drop i xs) = insert c (set (take i xs @ drop i xs))" by (simp del: append_take_drop_id)
  then show ?thesis by (simp only: append_take_drop_id)
qed

lemma set_insert_end: "set (xs @ [c]) = insert c (set xs)" by simp

lemma set_if_insert: "set (if b then take i xs @ c # drop i xs else xs @ [c]) = insert c (set xs)"
  by (cases b) (simp_all only: if_True if_False set_insert_mid set_insert_end)

lemma set_insert_at: "set (insert_at i c xs) = insert c (set xs)"
  unfolding insert_at_def by (rule set_if_insert)

lemma distinct_insert_at: "distinct xs \<Longrightarrow> c \<notin> set xs \<Longrightarrow> distinct (insert_at i c xs)"
proof -
  assume a: "distinct xs" "c \<notin> set xs"
  have "distinct (take (nat i) xs @ drop (nat i) xs)" "set (take (nat i) xs @ drop (nat i) xs) = set xs" using a by simp_all
  then have "distinct (take (nat i) xs @ c # drop (nat i) xs)" using a(2) by (auto simp del: append_take_drop_id)
  then show ?thesis using a by (simp add: insert_at_def)
qed

text \<open>A container with one child moved.\<close>

definition moved_to :: "int \<Rightarrow> nat \<Rightarrow> dobj \<Rightarrow> dobj" where
  "moved_to i c ob = (unmark c ob)\<lparr>children := insert_at i c (remove1 c (children ob))\<rparr>"

lemma setChildIndexIntern_eq:
  assumes "shape_ok t" and "c \<in> set (kids t p)"
  shows "setChildIndexIntern c i p t = checkClipDepth p (with_dobj p (moved_to i c (objs t p)) t)"
proof -
  let ?ob = "(objs t p)\<lparr>children := remove1 c (kids t p)\<rparr>"
  have cur: "getChildIndex c p t = int (length (takeWhile (\<lambda>x. x \<noteq> c) (kids t p)))"
    using assms(2) by (simp add: getChildIndex_spec)
  have "maps_ok (objs (with_dobj p ?ob t) p)"
    using assms(1) by (simp add: with_dobj_def shape_ok_def depths_ok_def maps_ok_def)
  then have "umarkLegacyChild c p (with_dobj p ?ob t) = upd p (unmark c) (with_dobj p ?ob t)"
    by (rule umark_unmark)
  then show ?thesis
    using remove_at_index [OF assms(2)]
    by (simp add: setChildIndexIntern_def cur Let_def with_dobj_def moved_to_def unmark_def)
qed

lemma moved_to_ok:
  assumes "shape_ok t" and "c \<in> set (kids t p)"
  shows "depths_ok (moved_to i c (objs t p))" and "set (children (moved_to i c (objs t p))) = set (kids t p)"
    and "distinct (children (moved_to i c (objs t p)))"
proof -
  have ok: "depths_ok (objs t p)" "distinct (kids t p)" using assms(1) by (simp_all add: shape_ok_def)
  then show "depths_ok (moved_to i c (objs t p))"
    unfolding moved_to_def
    by (intro depths_ok_children depths_ok_unmark) (simp_all add: filter_insert_at filter_remove1_not)
  show "set (children (moved_to i c (objs t p))) = set (kids t p)" "distinct (children (moved_to i c (objs t p)))"
    using ok(2) assms(2) by (auto simp: moved_to_def set_insert_at distinct_insert_at)
qed

lemma setChildIndexIntern_ok:
  assumes "tree_ok t" and "c \<in> set (kids t p)"
  shows "tree_ok (setChildIndexIntern c i p t)" and "kids (setChildIndexIntern c i p t) p = insert_at i c (remove1 c (kids t p))"
    and "q \<noteq> p \<Longrightarrow> kids (setChildIndexIntern c i p t) q = kids t q"
    and "parent (objs (setChildIndexIntern c i p t) x) = parent (objs t x)"
    and "isVmThread (setChildIndexIntern c i p t) = isVmThread t"
proof -
  let ?u = "with_dobj p (moved_to i c (objs t p)) t"
  have s: "shape_ok t" using assms(1) by (simp add: tree_ok_def)
  note e = setChildIndexIntern_eq [OF s assms(2)] and m = moved_to_ok [OF s assms(2)]
  have "tree_ok ?u"
    using tree_ok_reorder [OF assms(1) m(2,3,1)] by (simp add: moved_to_def)
  then show "tree_ok (setChildIndexIntern c i p t)" unfolding e using sets_none [OF checkClipDepth_same] by blast
  show "kids (setChildIndexIntern c i p t) p = insert_at i c (remove1 c (kids t p))"
    unfolding e by (simp add: same_shapeD(1) [OF checkClipDepth_same(1)] with_dobj_def moved_to_def)
  show "q \<noteq> p \<Longrightarrow> kids (setChildIndexIntern c i p t) q = kids t q"
    unfolding e by (simp add: same_shapeD(1) [OF checkClipDepth_same(1)] with_dobj_def)
  show "parent (objs (setChildIndexIntern c i p t) x) = parent (objs t x)"
    unfolding e by (simp add: same_shapeD(2) [OF checkClipDepth_same(1)] with_dobj_def moved_to_def)
  show "isVmThread (setChildIndexIntern c i p t) = isVmThread t"
    unfolding e by (simp add: same_shapeD(9) [OF checkClipDepth_same(1)] with_dobj_def)
qed

section \<open>Removing a child\<close>

text \<open>What is left when \<open>c\<close> has been removed from \<open>p\<close>, apart from where its parent is kept.\<close>

definition removed_from :: "nat \<Rightarrow> nat \<Rightarrow> dworld \<Rightarrow> dworld \<Rightarrow> bool" where
  "removed_from c p t t' \<longleftrightarrow>
     kids t' p = remove1 c (kids t p) \<and> (\<forall>q. q \<noteq> p \<longrightarrow> kids t' q = kids t q)
     \<and> (\<forall>x. x \<noteq> c \<longrightarrow> parent (objs t' x) = parent (objs t x))
     \<and> (if isVmThread t then parent (objs t' c) = None else parent (objs t' c) \<in> {None, Some p})
     \<and> (\<forall>x. isContainer (objs t' x) = isContainer (objs t x))
     \<and> (\<forall>q. depthToChild (objs t' q) = (if q = p then filter (\<lambda>(k, x). x \<noteq> c) (depthToChild (objs t q)) else depthToChild (objs t q)))
     \<and> (\<forall>q. childToDepth (objs t' q) = (if q = p then (childToDepth (objs t q))(c := None) else childToDepth (objs t q)))
     \<and> (\<forall>y. onStage (objs t' y) = (onStage (objs t y) \<and> y \<notin> below t {c}))
     \<and> stage_obj t' = stage_obj t \<and> mainClip t' = mainClip t \<and> isVmThread t' = isVmThread t"

lemma below_without:
  assumes "\<And>q. q \<noteq> p \<Longrightarrow> kids u q = kids t q" and "kids u p = remove1 c (kids t p)" and ok: "shape_ok t" and c: "c \<in> set (kids t p)"
  shows "below u {c} = below t {c}"
proof -
  have d: "distinct (kids t p)" using ok by (simp add: shape_ok_def)
  have k: "set (kids u q) = (if q = p then set (kids t p) - {c} else set (kids t q))" for q
    using assms(1,2) d by simp
  have acy: "p \<notin> below t {c}"
  proof
    assume "p \<in> below t {c}"
    then have "(c, c) \<in> (kid_rel t)\<^sup>+" using c by (auto simp: below_def kid_rel_def intro: rtrancl_into_trancl1)
    then show False using kid_acyclic [OF ok] by (auto simp: acyclic_def)
  qed
  show ?thesis
  proof
    have "kid_rel u \<subseteq> kid_rel t" by (auto simp: kid_rel_def k split: if_splits)
    then show "below u {c} \<subseteq> below t {c}" by (auto simp: below_def dest: rtrancl_mono [THEN subsetD])
    have "(c, y) \<in> (kid_rel u)\<^sup>*" if "(c, y) \<in> (kid_rel t)\<^sup>*" for y
      using that
    proof (induction rule: rtrancl_induct)
      case (step y z)
      then have "y \<noteq> p" using acy by (auto simp: below_def)
      then have "(y, z) \<in> kid_rel u" using step.hyps(2) by (simp add: kid_rel_def k)
      then show ?case using step.IH by simp
    qed simp
    then show "below t {c} \<subseteq> below u {c}" by (auto simp: below_def)
  qed
qed

lemma detach_ok:
  assumes t: "tree_ok t" and c: "c \<in> set (kids t p)"
  defines "u \<equiv> removeFromDisplayList c p t"
  shows "u = with_dobj p ((unmark c (objs t p))\<lparr>children := remove1 c (kids t p)\<rparr>) t" and "shape_ok u"
    and "below u {c} = below t {c}" and "\<forall>q. c \<notin> set (kids u q)"
proof -
  have s: "shape_ok t" and l: "lists_ok t" using t by (simp_all add: tree_ok_def)
  then have d: "distinct (kids t p)" "depths_ok (objs t p)" by (simp_all add: shape_ok_def)
  then show u: "u = with_dobj p ((unmark c (objs t p))\<lparr>children := remove1 c (kids t p)\<rparr>) t"
    by (simp add: u_def removeFromDisplayList_def umark_unmark depths_ok_def with_dobj_def)
  have k: "kids u q = (if q = p then remove1 c (kids t p) else kids t q)" "parent (objs u q) = parent (objs t q)"
    "isContainer (objs u q) = isContainer (objs t q)" "stage_obj u = stage_obj t" for q
    by (simp_all add: u with_dobj_def)
  have dp: "depths_ok (objs u q)" for q
  proof (cases "q = p")
    case True
    have "depths_ok ((unmark c (objs t p))\<lparr>children := remove1 c (kids t p)\<rparr>)"
      by (intro depths_ok_children depths_ok_unmark d) (simp add: filter_remove1_not)
    then show ?thesis using True by (simp add: u with_dobj_def)
  qed (use s in \<open>simp add: u with_dobj_def shape_ok_def\<close>)
  have r: "par_rel u = par_rel t" by (simp add: par_rel_def k)
  have "isContainer (objs t p)" using s c by (force simp: shape_ok_def)
  then show "shape_ok u"
    using s d dp unfolding shape_ok_def r k(2-4)
    by (auto simp: k dest: set_remove1_subset [THEN subsetD])
  show "below u {c} = below t {c}" by (rule below_without [OF _ _ s c]) (simp_all add: k)
  have "q = p" if "c \<in> set (kids t q)" for q
    using s c that unfolding shape_ok_def by (metis option.inject)
  then show "\<forall>q. c \<notin> set (kids u q)" using d by (auto simp: k)
qed

lemma stage_uniform: "stage_ok t \<Longrightarrow> uniform t X"
  by (simp add: stage_ok_def uniform_def)

lemma handleRemovedEvent_ok:
  assumes f: "quiet_fire f" and s: "shape_ok u" and off: "onStage (objs u c) \<or> (\<forall>y\<in>below u {c}. \<not> onStage (objs u y))"
  shows "\<exists>v. handleRemovedEvent f c False sendevents u = Some v \<and> sets_below False {c} u v"
proof -
  define u1 where "u1 = (if sendevents then f ''removed'' c u else u)"
  have u1: "same_shape u u1" "objs u1 = objs u" using quiet_fireD [OF f] by (simp_all add: u1_def)
  have s1: "shape_ok u1" using shape_ok_same [OF u1(1)] s by simp
  obtain v where v: "setOnStage f False True c u1 = Some v" "sets_below False {c} u1 v"
    using setOnStage_ok [OF f s1, of True c False] by auto
  have lift: "sets_below False {c} u w" if "sets_below False {c} u1 w" for w
    using that u1 same_shape_trans [OF u1(1)] by (simp add: sets_below_def below_same [OF u1(1)])
  have e: "handleRemovedEvent f c False sendevents u =
      (if onStage (objs u1 c) then setOnStage f False True c u1
       else Option.bind (has_stage u1 c) (\<lambda>b. if b then setOnStage f False True c u1 else Some u1))"
    by (simp only: handleRemovedEvent_def Let_def u1_def if_False)
  show ?thesis
  proof (cases "onStage (objs u1 c)")
    case True
    then show ?thesis using e v lift by simp
  next
    case False
    then have "sets_below False {c} u1 u1"
      using off u1 by (auto simp: sets_below_def below_same [OF u1(1)])
    moreover obtain b where "has_stage u1 c = Some b" using has_stage_returns [OF s1] by blast
    ultimately show ?thesis using e False v lift by (cases b) auto
  qed
qed

lemma shape_ok_orphan:
  assumes "shape_ok v" and "\<forall>q. c \<notin> set (kids v q)"
  shows "shape_ok (upd c (\<lambda>obj. obj\<lparr>parent := None\<rparr>) v)"
proof -
  let ?w = "upd c (\<lambda>obj. obj\<lparr>parent := None\<rparr>) v"
  have k: "kids ?w q = kids v q" "depths_ok (objs ?w q) = depths_ok (objs v q)" "isContainer (objs ?w q) = isContainer (objs v q)" for q
    by (simp_all add: depths_ok_def maps_ok_def)
  have "par_rel ?w \<subseteq> par_rel v" by (auto simp: par_rel_def split: if_splits)
  then have "finite (par_rel ?w)" "acyclic (par_rel ?w)"
    using assms(1) by (auto simp: shape_ok_def intro: finite_subset acyclic_subset)
  moreover have "x \<in> set (kids v q) \<longrightarrow> parent (objs ?w x) = Some q" for x q
    using assms by (auto simp: shape_ok_def)
  moreover have "parent (objs ?w (stage_obj ?w)) = None" using assms(1) by (simp add: shape_ok_def)
  ultimately show ?thesis using assms(1) unfolding shape_ok_def k by blast
qed

lemma removeChild_ok:
  assumes t: "tree_ok t" and f: "quiet_fire f" and p: "parent (objs t c) = Some p" and c: "c \<in> set (kids t p)"
  shows "\<exists>t'. removeChild_intern f c direct inskipping False sendevents p t = Some (True, t') \<and> tree_ok t' \<and> removed_from c p t t'"
proof -
  have s: "shape_ok t" and l: "lists_ok t" and st: "stage_ok t" using t by (simp_all add: tree_ok_def)
  define u where "u = removeFromDisplayList c p t"
  note d = detach_ok [OF t c, folded u_def]
  have u: "kids u q = (if q = p then remove1 c (kids t p) else kids t q)" "parent (objs u q) = parent (objs t q)"
    "onStage (objs u q) = onStage (objs t q)" "isContainer (objs u q) = isContainer (objs t q)" "stage_obj u = stage_obj t"
    "mainClip u = mainClip t" "isVmThread u = isVmThread t" "listResetParent u = listResetParent t"
    "depthToChild (objs u q) = (if q = p then filter (\<lambda>(k, x). x \<noteq> c) (depthToChild (objs t q)) else depthToChild (objs t q))"
    "childToDepth (objs u q) = (if q = p then (childToDepth (objs t q))(c := None) else childToDepth (objs t q))" for q
    by (simp_all add: d(1) with_dobj_def)
  have "onStage (objs u c) \<or> (\<forall>y\<in>below u {c}. \<not> onStage (objs u y))"
    using uniform_below [OF stage_uniform [OF st, of "{c}"], of c] by (auto simp: u d(3))
  then obtain v where v: "handleRemovedEvent f c False sendevents u = Some v" "sets_below False {c} u v"
    using handleRemovedEvent_ok [OF f d(2)] by blast
  have vs: "same_shape u v" and on: "\<And>y. onStage (objs v y) = (onStage (objs t y) \<and> y \<notin> below t {c})"
    using v(2) by (auto simp: sets_below_def d(3) u)
  have sv: "shape_ok v" using d(2) shape_ok_same [OF vs] by simp
  note vu = same_shapeD [OF vs]
  define keep where "keep \<longleftrightarrow> \<not> direct \<and> \<not> inskipping \<and> \<not> isVmThread v"
  define w where "w = (if keep then addDisplayObjectToResetParentList c v else setParent c None v)"
  have c0: "c \<notin> set (listResetParent t)" using l c by (auto simp: lists_ok_def)
  have w: "w = (if keep then v\<lparr>listResetParent := listResetParent t @ [c]\<rparr> else upd c (\<lambda>obj. obj\<lparr>parent := None\<rparr>) v)"
    using c0 p by (simp add: w_def addDisplayObjectToResetParentList_def setParent_def vu u)
  have e: "removeChild_intern f c direct inskipping False sendevents p t = Some (True, checkClipDepth p w)"
    using p c v(1) by (simp add: removeChild_intern_def Let_def u_def [symmetric] w_def keep_def)
  have kw: "kids w q = kids u q" "onStage (objs w q) = onStage (objs v q)" "isContainer (objs w q) = isContainer (objs u q)" for q
    by (auto simp: w vu)
  have pw: "parent (objs w x) = (if x = c \<and> \<not> keep then None else parent (objs t x))" for x
    by (auto simp: w vu u)
  have rw: "listResetParent w = (if keep then listResetParent t @ [c] else listResetParent t)" by (simp add: w vu u)
  have "shape_ok (v\<lparr>listResetParent := listResetParent t @ [c]\<rparr>)"
    using sv by (simp add: shape_ok_def par_rel_def)
  then have shape: "shape_ok w" using shape_ok_orphan [OF sv] d(4) by (simp add: w vu)
  have uniq: "q = p" if "c \<in> set (kids t q)" for q using s c that unfolding shape_ok_def by (metis option.inject)
  have dis: "distinct (kids t p)" using s by (simp add: shape_ok_def)
  have lists: "lists_ok w"
  proof -
    have "x \<in> set (kids w q) \<or> x \<in> set (listResetParent w)" if "parent (objs w x) = Some q" for x q
      using that l p by (cases "x = c") (auto simp: kw u pw rw lists_ok_def split: if_splits)
    moreover have "x \<notin> set (kids w q)" if "x \<in> set (listResetParent w)" for x q
      using that l d(4) by (auto simp: kw u rw lists_ok_def split: if_splits dest: notin_set_remove1)
    moreover have "distinct (listResetParent w)" using l c0 by (simp add: rw lists_ok_def)
    ultimately show ?thesis by (auto simp: lists_ok_def)
  qed
  have stage: "stage_ok w"
  proof -
    have "onStage (objs w x) = onStage (objs w q)" if x: "x \<in> set (kids w q)" for x q
    proof -
      have xq: "x \<in> set (kids t q)" "x \<noteq> c" using x d(4) dis by (auto simp: kw u split: if_splits)
      then have "x \<in> below t {c} \<longleftrightarrow> q \<in> below t {c}"
        using below_cases [OF _ s xq(1), of "{c}"] below_kid [OF _ xq(1)] by blast
      then show ?thesis using st xq by (auto simp: kw on stage_ok_def)
    qed
    moreover have "\<exists>q. x \<in> set (kids w q)" if x: "onStage (objs w x)" "x \<noteq> stage_obj w" for x
    proof -
      have "onStage (objs t x)" "x \<notin> below t {c}" using x(1) by (auto simp: kw on)
      moreover have "stage_obj w = stage_obj t" by (simp add: w vu u)
      ultimately obtain q where q: "x \<in> set (kids t q)" using st x(2) by (auto simp: stage_ok_def)
      have "x \<noteq> c" using \<open>x \<notin> below t {c}\<close> below_self [of c "{c}"] by auto
      then show ?thesis using q by (auto simp: kw u intro!: exI [of _ q])
    qed
    ultimately show ?thesis by (auto simp: stage_ok_def)
  qed
  have "tree_ok (checkClipDepth p w)"
    using sets_none [OF checkClipDepth_same] shape lists stage by (simp add: tree_ok_def)
  moreover have "removed_from c p t (checkClipDepth p w)"
    using below_self
    by (auto simp: removed_from_def same_shapeD [OF checkClipDepth_same(1)] checkClipDepth_same(2) kw pw p u on w vu keep_def)
  ultimately show ?thesis using e by blast
qed

section \<open>Adding a child\<close>

definition insert_child :: "nat \<Rightarrow> 'a \<Rightarrow> 'a list \<Rightarrow> 'a list" where
  "insert_child i c xs = (if i \<ge> length xs then xs @ [c] else take i xs @ c # drop i xs)"

lemma set_insert_child: "set (insert_child i c xs) = insert c (set xs)"
  using set_insert_mid set_insert_end by (metis insert_child_def)

lemma distinct_insert_child: "distinct xs \<Longrightarrow> c \<notin> set xs \<Longrightarrow> distinct (insert_child i c xs)"
  using distinct_insert_at [of xs c "int i"] by (auto simp: insert_child_def insert_at_def split: if_splits)

lemma filter_insert_child: "\<not> P c \<Longrightarrow> filter P (insert_child i c xs) = filter P xs"
  using filter_insert_not [of P c i xs] filter_snoc_not [of P c xs] by (simp add: insert_child_def del: filter_append)

definition attach :: "nat \<Rightarrow> nat \<Rightarrow> nat \<Rightarrow> dworld \<Rightarrow> dworld" where
  "attach c i p t = upd p (\<lambda>obj. obj\<lparr>children := insert_child i c (children obj)\<rparr>)
     (setParent c (Some p) (removeFromResetParentList c t))"

lemma attach_fields:
  assumes "c \<noteq> p" and "distinct (listResetParent t)"
  shows "kids (attach c i p t) q = (if q = p then insert_child i c (kids t p) else kids t q)"
    and "parent (objs (attach c i p t) x) = (if x = c then Some p else parent (objs t x))"
    and "onStage (objs (attach c i p t) x) = onStage (objs t x)" and "isContainer (objs (attach c i p t) x) = isContainer (objs t x)"
    and "depthToChild (objs (attach c i p t) x) = depthToChild (objs t x)"
    and "childToDepth (objs (attach c i p t) x) = childToDepth (objs t x)"
    and "stage_obj (attach c i p t) = stage_obj t" and "mainClip (attach c i p t) = mainClip t"
    and "isVmThread (attach c i p t) = isVmThread t"
    and "set (listResetParent (attach c i p t)) = set (listResetParent t) - {c}" and "distinct (listResetParent (attach c i p t))"
  using assms by (auto simp: attach_def setParent_def removeFromResetParentList_def)

lemma attach_ok:
  assumes t: "tree_ok t" and c: "\<forall>q. c \<notin> set (kids t q)" and cyc: "(c, p) \<notin> (par_rel t)\<^sup>*" and stage: "c \<noteq> stage_obj t"
    and cont: "isContainer (objs t p)"
  shows "shape_ok (attach c i p t)" and "lists_ok (attach c i p t)" and "uniform (attach c i p t) {c}"
    and "p \<notin> below (attach c i p t) {c}"
proof -
  let ?u = "attach c i p t"
  have s: "shape_ok t" and l: "lists_ok t" and st: "stage_ok t" using t by (simp_all add: tree_ok_def)
  have cp: "c \<noteq> p" using cyc by auto
  have dl: "distinct (listResetParent t)" using l by (simp add: lists_ok_def)
  note a = attach_fields [OF cp dl, of i]
  have par: "par_rel ?u \<subseteq> insert (p, c) (par_rel t)" by (auto simp: par_rel_def a split: if_splits)
  have fin: "finite (par_rel ?u)" using par s by (auto simp: shape_ok_def intro: finite_subset)
  have acy: "acyclic (par_rel ?u)"
    using par s cyc acyclic_insert [of p c "par_rel t"] by (auto simp: shape_ok_def intro: acyclic_subset)
  have none: "childToDepth (objs t p) c = None"
  proof (rule ccontr)
    assume "childToDepth (objs t p) c \<noteq> None"
    then obtain d where "(d, c) \<in> set (depthToChild (objs t p))"
      using s by (auto simp: shape_ok_def depths_ok_def maps_ok_def)
    then have "c \<in> set (map snd (depthToChild (objs t p)))" by force
    then have "c \<in> set (kids t p)" using s unfolding shape_ok_def depths_ok_def by (metis filter_is_subset subsetD)
    then show False using c by simp
  qed
  have dp: "depths_ok (objs ?u q)" for q
  proof -
    have "maps_ok (objs ?u q)" using s by (simp add: maps_ok_def a shape_ok_def depths_ok_def)
    moreover have "filter (\<lambda>x. childToDepth (objs t q) x \<noteq> None) (kids ?u q) = filter (\<lambda>x. childToDepth (objs t q) x \<noteq> None) (kids t q)"
      using none filter_insert_child [of "\<lambda>x. childToDepth (objs t p) x \<noteq> None" c i "kids t p"] by (simp add: a)
    ultimately show ?thesis using s by (simp add: depths_ok_def a shape_ok_def)
  qed
  show shape: "shape_ok ?u"
    using s fin acy dp c cont stage unfolding shape_ok_def
    by (auto simp: a set_insert_child distinct_insert_child)
  show "lists_ok ?u"
    using l c a(11) unfolding lists_ok_def by (auto simp: a(1,2,10) set_insert_child)
  show np: "p \<notin> below ?u {c}"
  proof
    assume "p \<in> below ?u {c}"
    then have "(c, p) \<in> (par_rel ?u)\<^sup>*"
      using rtrancl_mono [OF kid_par [OF shape]] by (auto simp: below_def)
    moreover have "(p, c) \<in> par_rel ?u" by (simp add: par_rel_def a)
    ultimately have "(c, c) \<in> (par_rel ?u)\<^sup>+" by (rule rtrancl_into_trancl1)
    then show False using acy by (auto simp: acyclic_def)
  qed
  show "uniform ?u {c}"
    unfolding uniform_def
  proof (intro ballI)
    fix q x assume "q \<in> below ?u {c}" "x \<in> set (kids ?u q)"
    then have "x \<in> set (kids t q)" using np by (auto simp: a split: if_splits)
    then show "onStage (objs ?u x) = onStage (objs ?u q)" using st by (simp add: a stage_ok_def)
  qed
qed

text \<open>The new child gets the state of its container.\<close>

definition added_to :: "nat \<Rightarrow> nat \<Rightarrow> nat \<Rightarrow> dworld \<Rightarrow> dworld \<Rightarrow> bool" where
  "added_to c i p t t' \<longleftrightarrow> kids t' p = insert_child i c (kids t p) \<and> (\<forall>q. q \<noteq> p \<longrightarrow> kids t' q = kids t q)
     \<and> (\<forall>x. parent (objs t' x) = (if x = c then Some p else parent (objs t x)))
     \<and> (\<forall>x. isContainer (objs t' x) = isContainer (objs t x)) \<and> (\<forall>q. depthToChild (objs t' q) = depthToChild (objs t q))
     \<and> (\<forall>q. childToDepth (objs t' q) = childToDepth (objs t q))
     \<and> stage_obj t' = stage_obj t \<and> mainClip t' = mainClip t \<and> isVmThread t' = isVmThread t"

lemma join_ok:
  assumes t: "tree_ok t" and f: "quiet_fire f" and c: "\<forall>q. c \<notin> set (kids t q)" and cyc: "(c, p) \<notin> (par_rel t)\<^sup>*"
    and stage: "c \<noteq> stage_obj t" and main: "c \<noteq> mainClip t" and cont: "isContainer (objs t p)"
  shows "\<exists>t'. (let t = f ''added'' c (attach c i p t)
      in if \<not> onStage (objs t p) \<or> c \<noteq> mainClip t then setOnStage f (onStage (objs t p)) False c t else Some t) = Some t'
    \<and> tree_ok t' \<and> added_to c i p t t'"
proof -
  define u where "u = attach c i p t"
  define v where "v = f ''added'' c u"
  have cp: "c \<noteq> p" using cyc by auto
  have dl: "distinct (listResetParent t)" using t by (simp add: tree_ok_def lists_ok_def)
  note a = attach_fields [OF cp dl, of i, folded u_def] and ok = attach_ok [OF t c cyc stage cont, of i, folded u_def]
  have v: "same_shape u v" "objs v = objs u" using quiet_fireD [OF f] by (simp_all add: v_def)
  have sv: "shape_ok v" using ok(1) shape_ok_same [OF v(1)] by simp
  have "uniform v {c}" using ok(3) v by (simp add: uniform_def below_same [OF v(1)])
  then obtain w where w: "setOnStage f (onStage (objs v p)) False c v = Some w" "sets_below (onStage (objs v p)) {c} v w"
    using setOnStage_ok [OF f sv, of False c "onStage (objs v p)"] by blast
  have uw: "same_shape u w" using w(2) same_shape_trans [OF v(1)] by (simp add: sets_below_def)
  have on: "onStage (objs w y) = (if y \<in> below u {c} then onStage (objs t p) else onStage (objs t y))" for y
    using w(2) by (simp add: sets_below_def below_same [OF v(1)] v(2) a)
  note ws = same_shapeD [OF uw]
  have st: "stage_ok t" using t by (simp add: tree_ok_def)
  have "stage_ok w"
  proof -
    have "onStage (objs w x) = onStage (objs w q)" if "x \<in> set (kids w q)" for x q
    proof (cases "x = c")
      case True
      then have "q = p" using that c by (auto simp: ws a split: if_splits)
      then show ?thesis using True ok(4) below_self [of c "{c}" u] by (simp add: on)
    next
      case False
      have xq: "x \<in> set (kids u q)" using that by (simp add: ws)
      then have "x \<in> set (kids t q)" using False by (auto simp: a set_insert_child split: if_splits)
      moreover have "x \<in> below u {c} \<longleftrightarrow> q \<in> below u {c}"
        using below_cases [OF _ ok(1) xq, of "{c}"] below_kid [OF _ xq] False by blast
      ultimately show ?thesis using st by (auto simp: on stage_ok_def)
    qed
    moreover have "\<exists>q. x \<in> set (kids w q)" if x: "onStage (objs w x)" "x \<noteq> stage_obj w" for x
    proof (cases "x \<in> below u {c}")
      case True
      show ?thesis
      proof (cases "x = c")
        case True
        then show ?thesis by (auto simp: ws a set_insert_child intro!: exI [of _ p])
      next
        case False
        with \<open>x \<in> below u {c}\<close> obtain q where "(q, x) \<in> kid_rel u" by (auto simp: below_def elim: rtranclE)
        then show ?thesis by (auto simp: kid_rel_def ws)
      qed
    next
      case False
      then obtain q where "x \<in> set (kids t q)" using x st by (auto simp: on stage_ok_def ws a)
      then show ?thesis by (auto simp: ws a set_insert_child intro!: exI [of _ q])
    qed
    ultimately show ?thesis by (auto simp: stage_ok_def)
  qed
  then have "tree_ok w" using ok(1,2) shape_ok_same [OF uw] lists_ok_same [OF uw] by (simp add: tree_ok_def)
  moreover have "added_to c i p t w" by (auto simp: added_to_def ws a)
  moreover have "mainClip v = mainClip t" using same_shapeD(10) [OF v(1)] by (simp add: a)
  ultimately show ?thesis using w(1) main by (simp add: Let_def u_def v_def)
qed

text \<open>What adding leaves, wherever the child was.\<close>

definition placed :: "nat \<Rightarrow> nat \<Rightarrow> nat \<Rightarrow> dworld \<Rightarrow> dworld \<Rightarrow> bool" where
  "placed c i p t t' \<longleftrightarrow> kids t' p = insert_child i c (remove1 c (kids t p))
     \<and> (\<forall>q. q \<noteq> p \<longrightarrow> kids t' q = remove1 c (kids t q))
     \<and> (\<forall>x. parent (objs t' x) = (if x = c then Some p else parent (objs t x))) \<and> isVmThread t' = isVmThread t"

definition may_add :: "nat \<Rightarrow> nat \<Rightarrow> dworld \<Rightarrow> bool" where
  "may_add c p t \<longleftrightarrow> (c, p) \<notin> (par_rel t)\<^sup>* \<and> c \<noteq> stage_obj t \<and> c \<noteq> mainClip t \<and> isContainer (objs t p)
     \<and> length (kids t p) \<le> 2147483648"

lemma addChildAt_join:
  assumes t: "tree_ok t" and f: "quiet_fire f" and c: "\<forall>q. c \<notin> set (kids t q)" and m: "may_add c p t"
    and r: "\<forall>q. parent (objs t c) = Some q \<longrightarrow> isInResetParentList c t"
  shows "\<exists>t'. addChildAt_intern f c i inskipping p t = Some t' \<and> tree_ok t' \<and> added_to c i p t t'"
proof -
  have m': "(c, p) \<notin> (par_rel t)\<^sup>*" "c \<noteq> stage_obj t" "c \<noteq> mainClip t" "isContainer (objs t p)"
    using m by (simp_all add: may_add_def)
  have e: "addChildAt_intern f c i inskipping p t = (let t = f ''added'' c (attach c i p t)
      in if \<not> onStage (objs t p) \<or> c \<noteq> mainClip t then setOnStage f (onStage (objs t p)) False c t else Some t)"
    using r by (cases "parent (objs t c)") (auto simp: addChildAt_intern_def attach_def insert_child_def Let_def)
  show ?thesis unfolding e by (rule join_ok [OF t f c m'])
qed

lemma no_parent_listed:
  assumes "tree_ok t" and "parent (objs t c) = None \<or> isInResetParentList c t"
  shows "c \<notin> set (kids t q)"
  using assms by (auto simp: tree_ok_def shape_ok_def lists_ok_def isInResetParentList_def)

lemma only_parent:
  assumes "tree_ok t" and "parent (objs t c) = Some q"
  shows "c \<in> set (kids t r) \<Longrightarrow> r = q" and "\<not> isInResetParentList c t \<Longrightarrow> c \<in> set (kids t q)"
  using assms by (auto simp: tree_ok_def shape_ok_def lists_ok_def isInResetParentList_def)

lemma addChildAt_move:
  assumes t: "tree_ok t" and m: "may_add c p t" and c: "parent (objs t c) = Some p" "\<not> isInResetParentList c t"
  shows "\<exists>t'. addChildAt_intern f c i inskipping p t = Some t' \<and> tree_ok t' \<and> placed c i p t t'"
proof -
  let ?i = "if i < 2147483648 then int i else - 1"
  have k: "c \<in> set (kids t p)" using only_parent(2) [OF t c] .
  have e: "addChildAt_intern f c i inskipping p t = Some (setChildIndexIntern c ?i p t)"
    using c k by (simp add: addChildAt_intern_def getChildIndex_spec)
  have l: "length (remove1 c (kids t p)) < 2147483648"
    using m k length_pos_if_in_set [OF k] by (simp add: may_add_def length_remove1) linarith
  have "insert_at ?i c (remove1 c (kids t p)) = insert_child i c (remove1 c (kids t p))"
    using l by (auto simp: insert_at_def insert_child_def)
  moreover have "remove1 c (kids t q) = kids t q" if "q \<noteq> p" for q
    using only_parent(1) [OF t c(1), of q] that by (intro remove1_idem) auto
  ultimately have "placed c i p t (setChildIndexIntern c ?i p t)"
    using setChildIndexIntern_ok(2-5) [OF t k] c(1) by (auto simp: placed_def)
  then show ?thesis using e setChildIndexIntern_ok(1) [OF t k] by blast
qed

lemma addChildAt_intern_ok:
  assumes t: "tree_ok t" and f: "quiet_fire f" and m: "may_add c p t"
  shows "\<exists>t'. addChildAt_intern f c i inskipping p t = Some t' \<and> tree_ok t' \<and> placed c i p t t'"
proof -
  consider (join) "parent (objs t c) = None \<or> isInResetParentList c t"
    | (move) "parent (objs t c) = Some p" "\<not> isInResetParentList c t"
    | (other) q where "parent (objs t c) = Some q" "\<not> isInResetParentList c t" "q \<noteq> p"
    by (cases "parent (objs t c)") auto
  then show ?thesis
  proof cases
    case join
    have no: "\<forall>q. c \<notin> set (kids t q)" using no_parent_listed [OF t join] by blast
    have "\<forall>q. parent (objs t c) = Some q \<longrightarrow> isInResetParentList c t" using join by auto
    from addChildAt_join [OF t f no m this, of i inskipping] show ?thesis
      using no by (auto simp: added_to_def placed_def remove1_idem)
  next
    case move
    then show ?thesis by (rule addChildAt_move [OF t m])
  next
    case (other q)
    have k: "c \<in> set (kids t q)" using only_parent(2) [OF t other(1,2)] .
    obtain u where u: "removeChild_intern f c False inskipping False True q t = Some (True, u)" "tree_ok u" "removed_from c q t u"
      using removeChild_ok [OF t f other(1) k] by blast
    have ku: "kids u r = remove1 c (kids t r)" for r
    proof (cases "r = q")
      case False
      then have "remove1 c (kids t r) = kids t r" using only_parent(1) [OF t other(1), of r] by (intro remove1_idem) auto
      then show ?thesis using u(3) False by (simp add: removed_from_def)
    qed (use u(3) in \<open>simp add: removed_from_def\<close>)
    have no: "\<forall>r. c \<notin> set (kids u r)" using t by (simp add: ku tree_ok_def shape_ok_def)
    have par: "par_rel u \<subseteq> par_rel t"
      using u(3) other(1) by (auto simp: par_rel_def removed_from_def split: if_splits) (metis insertE option.distinct(1) singletonD)+
    have mu: "may_add c p u"
      using m u(3) rtrancl_mono [OF par] other(3) by (auto simp: may_add_def removed_from_def)
    have pu: "parent (objs u c) \<noteq> Some p" using u(3) other(3) by (auto simp: removed_from_def split: if_splits)
    have e: "addChildAt_intern f c i inskipping p t = (let t = f ''added'' c (attach c i p u)
        in if \<not> onStage (objs t p) \<or> c \<noteq> mainClip t then setOnStage f (onStage (objs t p)) False c t else Some t)"
      using other u(1) by (simp add: addChildAt_intern_def attach_def insert_child_def Let_def)
    have mu': "(c, p) \<notin> (par_rel u)\<^sup>*" "c \<noteq> stage_obj u" "c \<noteq> mainClip u" "isContainer (objs u p)"
      using mu by (simp_all add: may_add_def)
    obtain w where w: "addChildAt_intern f c i inskipping p t = Some w" "tree_ok w" "added_to c i p u w"
      using join_ok [OF u(2) f no mu', of i] unfolding e by blast
    have "placed c i p t w"
      using w(3) u(3) by (auto simp: placed_def added_to_def ku removed_from_def)
    then show ?thesis using w by blast
  qed
qed

end
