(* ===== verification/DisplayOps.thy ===== *)
theory DisplayOps
  imports DisplayTree
begin

text \<open>
  The remaining operations on display lists, the run of any sequence of them, and the properties of the display
  list: the tree stays consistent, children end up where the methods say, objects are on the stage
  exactly if they are below it, and children of the timeline are drawn in the order of their depths.
\<close>

section \<open>Swapping\<close>

lemma filter_list_update: "\<not> P (xs ! i) \<Longrightarrow> \<not> P y \<Longrightarrow> i < length xs \<Longrightarrow> filter P (xs[i := y]) = filter P xs"
  by (induction xs arbitrary: i) (auto split: nat.splits)

definition swapped :: "nat \<Rightarrow> nat \<Rightarrow> dobj \<Rightarrow> dobj" where
  "swapped i j ob = (unmark (children ob ! i) (unmark (children ob ! j) ob))
     \<lparr>children := (children ob)[i := children ob ! j, j := children ob ! i]\<rparr>"

lemma depths_ok_swapped:
  assumes "depths_ok ob" and "distinct (children ob)" and "i < length (children ob)" and "j < length (children ob)"
  shows "depths_ok (swapped i j ob)"
  unfolding swapped_def
proof (intro depths_ok_children depths_ok_unmark assms(1))
  let ?u = "unmark (children ob ! i) (unmark (children ob ! j) ob)" and ?P = "\<lambda>c. childToDepth (unmark (children ob ! i) (unmark (children ob ! j) ob)) c \<noteq> None"
  have n: "\<not> ?P (children ob ! i)" "\<not> ?P (children ob ! j)" by simp_all
  have m: "(children ob)[i := children ob ! j] ! j = children ob ! j"
    using assms(4) by (cases "i = j") simp_all
  have "filter ?P ((children ob)[i := children ob ! j, j := children ob ! i]) = filter ?P (children ob)"
    using n m assms(3,4) by (subst filter_list_update; (subst filter_list_update)?) (simp_all del: unmark_simps(5))
  then show "filter ?P ((children ob)[i := children ob ! j, j := children ob ! i]) = filter ?P (children ?u)" by simp
qed

lemma unmark_children: "unmark x (ob\<lparr>children := l\<rparr>) = (unmark x ob)\<lparr>children := l\<rparr>"
  by (rule dobj.equality) (simp_all add: unmark_def)

lemma swap_children_at_eq:
  assumes "shape_ok t" and "i < length (kids t p)" and "j < length (kids t p)"
  shows "swap_children_at i j p t = checkClipDepth p (with_dobj p (swapped i j (objs t p)) t)"
proof -
  let ?xs = "kids t p"
  define t1 where "t1 = upd p (\<lambda>obj. obj\<lparr>children := (children obj)[i := ?xs ! j, j := ?xs ! i]\<rparr>) t"
  have k: "kids t1 p = ?xs[i := ?xs ! j, j := ?xs ! i]" by (simp add: t1_def)
  have ki: "kids t1 p ! i = ?xs ! j" "kids t1 p ! j = ?xs ! i"
    using assms(2,3) by (cases "i = j"; simp add: k)+
  have ok: "maps_ok (objs t p)" using assms(1) by (simp add: shape_ok_def depths_ok_def)
  have m1: "maps_ok (objs t1 p)" using ok by (simp add: t1_def maps_ok_def)
  have u1: "umarkLegacyChild (?xs ! j) p t1 = upd p (unmark (?xs ! j)) t1" by (rule umark_unmark [OF m1])
  define t2 where "t2 = upd p (unmark (?xs ! j)) t1"
  have m2: "maps_ok (objs t2 p)" using maps_ok_unmark [OF m1] by (simp add: t2_def)
  have k2: "kids t2 p ! j = ?xs ! i" using ki(2) by (simp add: t2_def)
  have "swap_children_at i j p t =
      (let t2 = umarkLegacyChild (kids t1 p ! i) p t1 in checkClipDepth p (umarkLegacyChild (kids t2 p ! j) p t2))"
    by (simp only: swap_children_at_def Let_def t1_def)
  also have "\<dots> = checkClipDepth p (upd p (unmark (?xs ! i)) t2)"
    by (simp only: Let_def ki(1) u1 t2_def [symmetric] k2 umark_unmark [OF m2])
  also have "upd p (unmark (?xs ! i)) t2 = with_dobj p (swapped i j (objs t p)) t"
    using unmark_children by (simp add: t1_def t2_def with_dobj_def swapped_def)
  finally show ?thesis .
qed

lemma swap_children_at_ok:
  assumes t: "tree_ok t" and i: "i < length (kids t p)" and j: "j < length (kids t p)"
  shows "tree_ok (swap_children_at i j p t)"
    and "kids (swap_children_at i j p t) p = (kids t p)[i := kids t p ! j, j := kids t p ! i]"
    and "q \<noteq> p \<Longrightarrow> kids (swap_children_at i j p t) q = kids t q"
    and "parent (objs (swap_children_at i j p t) x) = parent (objs t x)"
proof -
  have s: "shape_ok t" using t by (simp add: tree_ok_def)
  have d: "distinct (kids t p)" "depths_ok (objs t p)" using s by (simp_all add: shape_ok_def)
  note e = swap_children_at_eq [OF s i j]
  have "tree_ok (with_dobj p (swapped i j (objs t p)) t)"
    using depths_ok_swapped [OF d(2,1) i j] d(1) i j
    by (intro tree_ok_reorder [OF t]) (simp_all add: swapped_def set_swap)
  then show "tree_ok (swap_children_at i j p t)" unfolding e using sets_none [OF checkClipDepth_same] by blast
  show "kids (swap_children_at i j p t) p = (kids t p)[i := kids t p ! j, j := kids t p ! i]"
    unfolding e by (simp add: same_shapeD(1) [OF checkClipDepth_same(1)] with_dobj_def swapped_def)
  show "q \<noteq> p \<Longrightarrow> kids (swap_children_at i j p t) q = kids t q"
    unfolding e by (simp add: same_shapeD(1) [OF checkClipDepth_same(1)] with_dobj_def)
  show "parent (objs (swap_children_at i j p t) x) = parent (objs t x)"
    unfolding e by (simp add: same_shapeD(2) [OF checkClipDepth_same(1)] with_dobj_def swapped_def)
qed

section \<open>Removing several children\<close>

text \<open>Changes of the fields that the tree does not use.\<close>

lemma tree_ok_field:
  assumes "\<And>ob. parent (g ob) = parent ob \<and> children (g ob) = children ob \<and> depthToChild (g ob) = depthToChild ob
      \<and> childToDepth (g ob) = childToDepth ob \<and> isContainer (g ob) = isContainer ob \<and> onStage (g ob) = onStage ob"
  shows "same_shape t (upd c g t)" and "onStage (objs (upd c g t) x) = onStage (objs t x)" and "tree_ok (upd c g t) = tree_ok t"
proof -
  show s: "same_shape t (upd c g t)" using assms by (simp add: same_shape_def)
  show o: "onStage (objs (upd c g t) x) = onStage (objs t x)" for x using assms by simp
  have "shape_ok (upd c g t) = shape_ok t" "lists_ok (upd c g t) = lists_ok t" using s by (simp_all only: shape_ok_same lists_ok_same)
  moreover have "stage_ok (upd c g t) = stage_ok t" unfolding stage_ok_def by (simp only: same_shapeD [OF s] o)
  ultimately show "tree_ok (upd c g t) = tree_ok t" by (simp add: tree_ok_def)
qed

lemma removeChild_intern_returns:
  assumes t: "tree_ok t" and f: "quiet_fire f"
  shows "\<exists>b t'. removeChild_intern f c direct inskipping False sendevents p t = Some (b, t') \<and> tree_ok t'
    \<and> kids t' p = remove1 c (kids t p) \<and> (\<forall>q. q \<noteq> p \<longrightarrow> kids t' q = kids t q)"
proof (cases "parent (objs t c) = Some p \<and> c \<in> set (kids t p)")
  case True
  then show ?thesis using removeChild_ok [OF t f, of c p direct inskipping sendevents] by (auto simp: removed_from_def)
next
  case False
  have "c \<notin> set (kids t p)" using False t by (auto simp: tree_ok_def shape_ok_def)
  then show ?thesis using t False by (auto simp: removeChild_intern_def remove1_idem)
qed

lemma removeChildren_list_ok:
  assumes f: "quiet_fire f"
  shows "tree_ok t \<Longrightarrow> \<exists>t'. removeChildren_list f cs legacy p t = Some t' \<and> tree_ok t'
    \<and> kids t' p = fold remove1 cs (kids t p) \<and> (\<forall>q. q \<noteq> p \<longrightarrow> kids t' q = kids t q)"
proof (induction cs arbitrary: t)
  case (Cons c cs)
  define u where "u = (if legacy then upd c (\<lambda>obj. obj\<lparr>d_legacy := False\<rparr>) t else t)"
  have u: "tree_ok u" "kids u q = kids t q" for q
    using Cons.prems tree_ok_field(3) [where g = "\<lambda>obj. obj\<lparr>d_legacy := False\<rparr>" and c = c and t = t] by (simp_all add: u_def)
  obtain b v where v: "removeChild_intern f c False False False True p u = Some (b, v)" "tree_ok v"
    "kids v p = remove1 c (kids t p)" "\<forall>q. q \<noteq> p \<longrightarrow> kids v q = kids t q"
    using removeChild_intern_returns [OF u(1) f] by (metis u(2))
  obtain w where w: "removeChildren_list f cs legacy p v = Some w" "tree_ok w"
    "kids w p = fold remove1 cs (kids v p)" "\<forall>q. q \<noteq> p \<longrightarrow> kids w q = kids v q"
    using Cons.IH [OF v(2)] by blast
  have "removeChildren_list f (c # cs) legacy p t = Some w" using v(1) w(1) by (simp add: u_def [symmetric])
  then show ?case using v w by simp
qed simp

section \<open>Children of the timeline\<close>

abbreviation not_above :: "int \<Rightarrow> int \<times> nat \<Rightarrow> bool" where "not_above d \<equiv> \<lambda>(k, x). k \<le> d"

lemma child_below_last:
  "sorted_wrt (<) (map fst m) \<Longrightarrow>
   child_below d m pre = (if takeWhile (not_above d) m = [] then pre else Some (snd (last (takeWhile (not_above d) m))))"
  by (induction d m pre rule: child_below.induct) auto

lemma insert_depth_split:
  "d \<notin> fst ` set m \<Longrightarrow> insert_depth d c m = takeWhile (not_above d) m @ (d, c) # dropWhile (not_above d) m"
  by (induction d c m rule: insert_depth.induct) auto

lemma set_insert_depth: "d \<notin> fst ` set m \<Longrightarrow> set (insert_depth d c m) = insert (d, c) (set m)"
  by (induction d c m rule: insert_depth.induct) auto

lemma sorted_insert_depth:
  "sorted_wrt (<) (map fst m) \<Longrightarrow> d \<notin> fst ` set m \<Longrightarrow> sorted_wrt (<) (map fst (insert_depth d c m))"
  by (induction d c m rule: insert_depth.induct) (auto split: if_splits simp: set_insert_depth)

lemma skip_raw_spec: "x \<in> set (take (skip_raw t xs) xs) \<Longrightarrow> 0 \<le> getRawDepth x t"
  by (induction xs) (auto split: if_splits)

lemma split_at:
  assumes "xs @ x # ys = us @ x # vs" and "distinct (xs @ x # ys)"
  shows "xs = us" and "ys = vs"
proof -
  have "x \<notin> set xs" "x \<notin> set ys" using assms(2) by auto
  then have "xs = us \<and> ys = vs" using assms(1) append_Cons_eq_iff [of x xs ys us vs] by blast
  then show "xs = us" and "ys = vs" by simp_all
qed

text \<open>The position of a new child: below it are the children with smaller depths.\<close>

definition fits :: "int \<Rightarrow> nat \<Rightarrow> dobj \<Rightarrow> bool" where
  "fits d i ob \<longleftrightarrow> filter (\<lambda>c. childToDepth ob c \<noteq> None) (take i (children ob)) = map snd (takeWhile (not_above d) (depthToChild ob))
     \<and> filter (\<lambda>c. childToDepth ob c \<noteq> None) (drop i (children ob)) = map snd (dropWhile (not_above d) (depthToChild ob))"

lemma fits_skip:
  assumes "fits d i ob" and "\<forall>x\<in>set (take n (drop i (children ob))). childToDepth ob x = None"
  shows "fits d (i + n) ob"
proof -
  let ?P = "\<lambda>c. childToDepth ob c \<noteq> None"
  have n: "filter ?P (take n (drop i (children ob))) = []" using assms(2) by (simp add: filter_empty_conv)
  have "filter ?P (take n (drop i (children ob)) @ drop n (drop i (children ob))) = filter ?P (drop i (children ob))"
    by (simp only: append_take_drop_id)
  then have "filter ?P (drop n (drop i (children ob))) = filter ?P (drop i (children ob))"
    using n by (simp only: filter_append append_Nil)
  moreover have "filter ?P (take (i + n) (children ob)) = filter ?P (take i (children ob))"
    using n by (simp add: take_add)
  ultimately show ?thesis using assms(1) by (simp add: fits_def add.commute)
qed

lemma fits_zero:
  assumes "depths_ok ob" and "takeWhile (not_above d) (depthToChild ob) = []"
  shows "fits d 0 ob"
proof -
  have "dropWhile (not_above d) (depthToChild ob) = depthToChild ob"
    using assms(2) by (metis append_Nil takeWhile_dropWhile_id)
  then show ?thesis using assms by (simp add: fits_def depths_ok_def)
qed

lemma filter_mid: "xs = us @ x # vs \<Longrightarrow> P x \<Longrightarrow> filter P xs = filter P us @ x # filter P vs"
  by simp

lemma snoc_map: "xs \<noteq> [] \<Longrightarrow> map g xs = map g (butlast xs) @ [g (last xs)]"
  by (induction xs) auto

lemma fits_after:
  assumes ok: "depths_ok ob" and d: "distinct (children ob)" and ne: "takeWhile (not_above d) (depthToChild ob) \<noteq> []"
    and x: "x = snd (last (takeWhile (not_above d) (depthToChild ob)))"
  shows "x \<in> set (children ob)" and "fits d (length (takeWhile (\<lambda>y. y \<noteq> x) (children ob)) + 1) ob"
proof -
  let ?P = "\<lambda>c. childToDepth ob c \<noteq> None" and ?m1 = "takeWhile (not_above d) (depthToChild ob)" and ?m2 = "dropWhile (not_above d) (depthToChild ob)"
  let ?n = "length (takeWhile (\<lambda>y. y \<noteq> x) (children ob))"
  have m: "filter ?P (children ob) = map snd (butlast ?m1) @ x # map snd ?m2"
  proof -
    have "map snd ?m1 = map snd (butlast ?m1) @ [x]" using snoc_map [OF ne, of snd] x by simp
    then show ?thesis using ok unfolding depths_ok_def by (metis append_Cons append_Nil append_assoc map_append takeWhile_dropWhile_id)
  qed
  have "x \<in> set (filter ?P (children ob))" by (simp only: m) simp
  then have xp: "x \<in> set (children ob) \<and> ?P x" by simp
  then show xin: "x \<in> set (children ob)" by simp
  have px: "?P x" using xp by simp
  have c: "children ob = take ?n (children ob) @ x # drop (?n + 1) (children ob)"
    using index_nth [OF xin] by (metis Suc_eq_plus1 id_take_nth_drop)
  note fm = filter_mid [OF c, of ?P, OF px]
  have e: "filter ?P (take ?n (children ob)) @ x # filter ?P (drop (?n + 1) (children ob)) = map snd (butlast ?m1) @ x # map snd ?m2"
    using m fm by (rule trans [OF sym, rotated])
  have dm: "distinct (filter ?P (take ?n (children ob)) @ x # filter ?P (drop (?n + 1) (children ob)))"
    using distinct_filter [OF d, of ?P] by (simp only: fm)
  have "filter ?P (take ?n (children ob)) = map snd (butlast ?m1)" "filter ?P (drop (?n + 1) (children ob)) = map snd ?m2"
    using split_at [OF e dm] by simp_all
  moreover have "take (?n + 1) (children ob) = take ?n (children ob) @ [x]"
    using index_nth [OF xin] by (simp add: take_Suc_conv_app_nth)
  moreover have "filter ?P (take ?n (children ob) @ [x]) = filter ?P (take ?n (children ob)) @ [x]"
    using px by simp
  moreover have "map snd ?m1 = map snd (butlast ?m1) @ [x]"
    using snoc_map [OF ne, of snd] x by simp
  ultimately show "fits d (?n + 1) ob" by (simp only: fits_def)
qed

lemma insert_position_fits:
  assumes s: "shape_ok t" and raw: "fromtag \<longrightarrow> (\<forall>(k, x)\<in>set (depthToChild (objs t p)). k < 0)"
  shows "fits d (insert_position d fromtag p t) (objs t p)"
proof -
  have ok: "depths_ok (objs t p)" and dis: "distinct (kids t p)" using s by (simp_all add: shape_ok_def)
  have srt: "sorted_wrt (<) (map fst (depthToChild (objs t p)))" using ok by (simp add: depths_ok_def maps_ok_def)
  have none: "childToDepth (objs t p) x = None" if ft: fromtag and x: "x \<in> set (kids t p)" "0 \<le> getRawDepth x t" for x
  proof -
    have "getRawDepth x t = (case childToDepth (objs t p) x of None \<Rightarrow> 0 | Some d \<Rightarrow> d)"
      using s x(1) by (simp add: shape_ok_def getRawDepth_def findLegacyChildDepth_def)
    moreover have "k < 0" if "childToDepth (objs t p) x = Some k" for k
      using raw ft that ok by (force simp: depths_ok_def maps_ok_def)
    ultimately show ?thesis using x(2) by (cases "childToDepth (objs t p) x") fastforce+
  qed
  have skip: "fits d (i + skip_raw t (drop i (kids t p))) (objs t p)" if "fits d i (objs t p)" fromtag for i
    using none [OF that(2)] skip_raw_spec [of _ t "drop i (kids t p)"]
    by (intro fits_skip that(1)) (meson in_set_dropD in_set_takeD)
  show ?thesis
  proof (cases "takeWhile (not_above d) (depthToChild (objs t p)) = []")
    case True
    then show ?thesis
      using fits_zero [OF ok] skip [of 0] by (simp add: insert_position_def child_below_last [OF srt])
  next
    case False
    let ?x = "snd (last (takeWhile (not_above d) (depthToChild (objs t p))))"
    note fa = fits_after [OF ok dis False refl]
    show ?thesis
      using fa skip [OF fa(2)] False
      by (simp add: insert_position_def child_below_last [OF srt] getChildIndex_spec nat_add_distrib Let_def)
  qed
qed

lemma depths_ok_insert:
  assumes ok: "depths_ok ob" and fit: "fits d i ob" and c: "c \<notin> set (children ob)" and d: "d \<notin> fst ` set (depthToChild ob)"
  shows "depths_ok (ob\<lparr>children := insert_child i c (children ob), depthToChild := insert_depth d c (depthToChild ob),
    childToDepth := (childToDepth ob)(c \<mapsto> d)\<rparr>)"
proof -
  let ?P = "\<lambda>x. ((childToDepth ob)(c \<mapsto> d)) x \<noteq> None" and ?Q = "\<lambda>x. childToDepth ob x \<noteq> None"
  have m: "maps_ok ob" using ok by (simp add: depths_ok_def)
  have nc: "childToDepth ob c = None"
  proof (rule ccontr)
    assume "childToDepth ob c \<noteq> None"
    then obtain k where "(k, c) \<in> set (depthToChild ob)" using m by (auto simp: maps_ok_def)
    then have "c \<in> set (map snd (depthToChild ob))" by force
    then show False using ok c unfolding depths_ok_def by (metis filter_is_subset subsetD)
  qed
  have PQ: "filter ?P xs = filter ?Q xs" if "c \<notin> set xs" for xs using that by (intro filter_cong) auto
  have "insert_child i c (children ob) = take i (children ob) @ c # drop i (children ob)" by (simp add: insert_child_def)
  then have "filter ?P (insert_child i c (children ob)) = filter ?P (take i (children ob)) @ c # filter ?P (drop i (children ob))" by simp
  also have "\<dots> = filter ?Q (take i (children ob)) @ c # filter ?Q (drop i (children ob))"
    using c by (subst (1 2) PQ) (auto dest: in_set_takeD in_set_dropD)
  also have "\<dots> = map snd (insert_depth d c (depthToChild ob))"
    using fit by (simp add: fits_def insert_depth_split [OF d])
  finally have f: "filter ?P (insert_child i c (children ob)) = map snd (insert_depth d c (depthToChild ob))" .
  have "(k, x) \<in> set (insert_depth d c (depthToChild ob)) \<longleftrightarrow> ((childToDepth ob)(c \<mapsto> d)) x = Some k" for k x
    using m nc by (auto simp: set_insert_depth [OF d] maps_ok_def)
  then show ?thesis
    using f m sorted_insert_depth [OF _ d] by (simp add: depths_ok_def maps_ok_def)
qed

text \<open>A child of the timeline may be placed where it is not yet, and above children that ActionScript added
  only if these have no depth.\<close>

definition may_place :: "nat \<Rightarrow> bool \<Rightarrow> nat \<Rightarrow> dworld \<Rightarrow> bool" where
  "may_place c fromtag p t \<longleftrightarrow> may_add c p t \<and> c \<notin> set (kids t p)
     \<and> (fromtag \<longrightarrow> (\<forall>(k, x)\<in>set (depthToChild (objs t p)). k < 0))"

definition placed_depths :: "nat \<Rightarrow> nat \<Rightarrow> dworld \<Rightarrow> dworld \<Rightarrow> bool" where
  "placed_depths c p t t' \<longleftrightarrow> depthToChild (objs t' p) = depthToChild (objs t p) \<and> childToDepth (objs t' p) = childToDepth (objs t p)"

lemma addChildAt_depths:
  assumes t: "tree_ok t" and f: "quiet_fire f" and m: "may_add c p t" and c: "c \<notin> set (kids t p)"
    and r: "addChildAt_intern f c i inskipping p t = Some t'"
  shows "placed_depths c p t t'"
proof -
  consider (join) "parent (objs t c) = None \<or> isInResetParentList c t"
    | (other) q where "parent (objs t c) = Some q" "\<not> isInResetParentList c t" "q \<noteq> p"
    using only_parent(2) [OF t, of c p] c by (cases "parent (objs t c)") auto
  then show ?thesis
  proof cases
    case join
    have no: "\<forall>q. c \<notin> set (kids t q)" using no_parent_listed [OF t join] by blast
    have "\<forall>q. parent (objs t c) = Some q \<longrightarrow> isInResetParentList c t" using join by auto
    then show ?thesis using addChildAt_join [OF t f no m, of i inskipping] r by (auto simp: added_to_def placed_depths_def)
  next
    case (other q)
    obtain u where u: "removeChild_intern f c False inskipping False True q t = Some (True, u)" "tree_ok u" "removed_from c q t u"
      using removeChild_ok [OF t f other(1) only_parent(2) [OF t other(1,2)]] by blast
    have no: "\<forall>r. c \<notin> set (kids u r)"
    proof
      fix r
      show "c \<notin> set (kids u r)"
        using u(3) t only_parent(1) [OF t other(1), of r] by (cases "r = q") (auto simp: removed_from_def tree_ok_def shape_ok_def)
    qed
    have par: "par_rel u \<subseteq> par_rel t"
      using u(3) other(1) by (auto simp: par_rel_def removed_from_def split: if_splits) (metis insertE option.distinct(1) singletonD)+
    have mu: "(c, p) \<notin> (par_rel u)\<^sup>*" "c \<noteq> stage_obj u" "c \<noteq> mainClip u" "isContainer (objs u p)"
      using m u(3) rtrancl_mono [OF par] by (auto simp: may_add_def removed_from_def)
    have e: "addChildAt_intern f c i inskipping p t = (let t = f ''added'' c (attach c i p u)
        in if \<not> onStage (objs t p) \<or> c \<noteq> mainClip t then setOnStage f (onStage (objs t p)) False c t else Some t)"
      using other u(1) by (simp add: addChildAt_intern_def attach_def insert_child_def Let_def)
    have "added_to c i p u t'" using join_ok [OF u(2) f no mu, of i] r unfolding e by auto
    then show ?thesis using u(3) other(3) by (auto simp: added_to_def removed_from_def placed_depths_def)
  qed
qed

text \<open>The child gets its place among the depths.\<close>

lemma record_depth_ok:
  assumes t: "tree_ok t" and "depths_ok (g (objs t p))"
    and g: "\<And>ob. parent (g ob) = parent ob \<and> children (g ob) = children ob \<and> isContainer (g ob) = isContainer ob \<and> onStage (g ob) = onStage ob"
  shows "tree_ok (upd p g t)"
proof -
  have "tree_ok (with_dobj p (g (objs t p)) t)"
    using t assms(2) g by (intro tree_ok_reorder) (simp_all add: tree_ok_def shape_ok_def)
  then show ?thesis by (simp add: with_dobj_def)
qed

lemma insertLegacyChildAt_ok:
  assumes t: "tree_ok t" and f: "quiet_fire f" and m: "may_place c fromtag p t"
  shows "\<exists>t'. insertLegacyChildAt f d c inskipping fromtag p t = Some t' \<and> tree_ok t'
    \<and> (\<not> hasLegacyChildAt d p t \<longrightarrow> childToDepth (objs t' p) c = Some d \<and> c \<in> set (kids t' p))"
proof (cases "hasLegacyChildAt d p t")
  case False
  let ?i = "insert_position d fromtag p t"
  have s: "shape_ok t" using t by (simp add: tree_ok_def)
  have ok: "depths_ok (objs t p)" using s by (simp add: shape_ok_def)
  have m': "may_add c p t" "c \<notin> set (kids t p)" "fromtag \<longrightarrow> (\<forall>(k, x)\<in>set (depthToChild (objs t p)). k < 0)"
    using m by (simp_all add: may_place_def)
  obtain u where u: "addChildAt_intern f c ?i inskipping p t = Some u" "tree_ok u" "placed c ?i p t u"
    using addChildAt_intern_ok [OF t f m'(1)] by blast
  have pd: "placed_depths c p t u" using addChildAt_depths [OF t f m'(1,2) u(1)] .
  have d: "d \<notin> fst ` set (depthToChild (objs t p))"
    using False by (force simp: hasLegacyChildAt_def map_of_eq_None_iff)
  have nc: "childToDepth (objs t p) c = None"
  proof (rule ccontr)
    assume "childToDepth (objs t p) c \<noteq> None"
    then have "c \<in> set (map snd (depthToChild (objs t p)))" using ok by (force simp: depths_ok_def maps_ok_def)
    then show False using ok m'(2) unfolding depths_ok_def by (metis filter_is_subset subsetD)
  qed
  define g :: "dobj \<Rightarrow> dobj" where "g = (\<lambda>obj. obj\<lparr>depthToChild := insert_depth d c (depthToChild obj),
           childToDepth := (if childToDepth obj c = None then (childToDepth obj)(c \<mapsto> d) else childToDepth obj)\<rparr>)"
  have r: "insertLegacyChildAt f d c inskipping fromtag p t = Some (upd p g u)"
    using False u(1) by (simp add: insertLegacyChildAt_def g_def)
  have ku: "kids u p = insert_child ?i c (kids t p)" using u(3) m'(2) by (simp add: placed_def remove1_idem)
  have "depths_ok ((objs t p)\<lparr>children := insert_child ?i c (kids t p), depthToChild := insert_depth d c (depthToChild (objs t p)),
      childToDepth := (childToDepth (objs t p))(c \<mapsto> d)\<rparr>)"
    by (rule depths_ok_insert [OF ok insert_position_fits [OF s m'(3)] m'(2) d])
  then have "depths_ok (g (objs u p))"
    using pd nc by (simp add: depths_ok_def maps_ok_def g_def ku placed_depths_def)
  then have "tree_ok (upd p g u)" by (intro record_depth_ok [OF u(2)]) (simp_all add: g_def)
  then show ?thesis using r pd nc by (simp add: g_def placed_depths_def ku set_insert_child)
qed (use t in \<open>simp add: insertLegacyChildAt_def\<close>)

lemma deleteLegacyChildAt_ok:
  assumes t: "tree_ok t" and f: "quiet_fire f"
  shows "\<exists>t'. deleteLegacyChildAt f d inskipping p t = Some t' \<and> tree_ok t'"
proof (cases "map_of (depthToChild (objs t p)) d")
  case (Some c)
  define u where "u = (if inskipping then t else upd c (\<lambda>obj. obj\<lparr>markedForDeletion := True\<rparr>) t)"
  have "tree_ok u"
    using t tree_ok_field(3) [where g = "\<lambda>obj. obj\<lparr>markedForDeletion := True\<rparr>" and c = c and t = t] by (simp add: u_def)
  then show ?thesis
    using removeChild_intern_returns [of u f c False inskipping True p] f Some by (auto simp: deleteLegacyChildAt_def u_def [symmetric])
qed (use t in \<open>simp add: deleteLegacyChildAt_def\<close>)

lemma erase_marked_ok:
  assumes f: "quiet_fire f"
  shows "tree_ok t \<Longrightarrow> \<exists>t'. erase_marked f ds p t = Some t' \<and> tree_ok t'"
proof (induction ds arbitrary: t)
  case (Cons d ds)
  obtain u where u: "deleteLegacyChildAt f d False p t = Some u" "tree_ok u"
    using deleteLegacyChildAt_ok [OF Cons.prems f] by blast
  have "tree_ok (upd p (\<lambda>obj. obj\<lparr>deletionMarks := remove1 d (deletionMarks obj)\<rparr>) u)"
    using u(2) tree_ok_field(3) [where g = "\<lambda>obj. obj\<lparr>deletionMarks := remove1 d (deletionMarks obj)\<rparr>" and c = p and t = u] by simp
  then show ?case using Cons.IH u(1) by simp
qed simp

section \<open>Any sequence of operations\<close>

datatype display_op = Add nat nat | AddAt nat int nat | Remove nat nat | RemoveAt int nat | RemoveRange nat nat nat
  | RemoveAll nat | SetIndex nat int nat | Swap nat nat nat | SwapAt int int nat
  | Place int nat bool bool nat | Delete int bool nat | EraseMarked nat

text \<open>The state after a method: an error of the script changes nothing.\<close>

fun world_after :: "'a outcome \<Rightarrow> dworld \<Rightarrow> dworld option" where
  "world_after (Done x t') t = Some t'"
| "world_after (ScriptError n) t = Some t"
| "world_after AssertFails t = Some t"
| "world_after BadAccess t = None"
| "world_after Hangs t = None"

fun run_op :: "fire \<Rightarrow> display_op \<Rightarrow> dworld \<Rightarrow> dworld option" where
  "run_op f (Add c p) t = world_after (addChild f (DisplayArg c) p t) t"
| "run_op f (AddAt c i p) t = world_after (addChildAt f (DisplayArg c) i p t) t"
| "run_op f (Remove c p) t = world_after (removeChild f (DisplayArg c) p t) t"
| "run_op f (RemoveAt i p) t = world_after (removeChildAt f i p t) t"
| "run_op f (RemoveRange i j p) t = world_after (removeChildren f i j p t) t"
| "run_op f (RemoveAll p) t = removeAllChildren f p t"
| "run_op f (SetIndex c i p) t = world_after (setChildIndex (DisplayArg c) i p t) t"
| "run_op f (Swap a b p) t = world_after (swapChildren (DisplayArg a) (DisplayArg b) p t) t"
| "run_op f (SwapAt i j p) t = world_after (swapChildrenAt i j p t) t"
| "run_op f (Place d c inskipping fromtag p) t = insertLegacyChildAt f d c inskipping fromtag p t"
| "run_op f (Delete d inskipping p) t = deleteLegacyChildAt f d inskipping p t"
| "run_op f (EraseMarked p) t = LegacyChildEraseDeletionMarked f p t"

fun allowed :: "display_op \<Rightarrow> dworld \<Rightarrow> bool" where
  "allowed (Add c p) t = may_add c p t"
| "allowed (AddAt c i p) t = may_add c p t"
| "allowed (SwapAt i j p) t = (i \<noteq> int (length (kids t p)) \<and> j \<noteq> int (length (kids t p)))"
| "allowed (Place d c inskipping fromtag p) t = may_place c fromtag p t"
| "allowed _ t = True"

fun run_ops :: "fire \<Rightarrow> display_op list \<Rightarrow> dworld \<Rightarrow> dworld option" where
  "run_ops f [] t = Some t"
| "run_ops f (a # as) t = (case run_op f a t of None \<Rightarrow> None | Some t \<Rightarrow> run_ops f as t)"

fun all_allowed :: "fire \<Rightarrow> display_op list \<Rightarrow> dworld \<Rightarrow> bool" where
  "all_allowed f [] t = True"
| "all_allowed f (a # as) t = (allowed a t \<and> (\<forall>t'. run_op f a t = Some t' \<longrightarrow> all_allowed f as t'))"

lemma not_legacy:
  shows "tree_ok (upd c (\<lambda>obj. obj\<lparr>d_legacy := False\<rparr>) t) = tree_ok t" and "kids (upd c (\<lambda>obj. obj\<lparr>d_legacy := False\<rparr>) t) q = kids t q"
    and "may_add x p (upd c (\<lambda>obj. obj\<lparr>d_legacy := False\<rparr>) t) = may_add x p t"
    and "parent (objs (upd c (\<lambda>obj. obj\<lparr>d_legacy := False\<rparr>) t) x) = parent (objs t x)"
    and "onStage (objs (upd c (\<lambda>obj. obj\<lparr>d_legacy := False\<rparr>) t) x) = onStage (objs t x)"
    and "isVmThread (upd c (\<lambda>obj. obj\<lparr>d_legacy := False\<rparr>) t) = isVmThread t"
proof -
  let ?u = "upd c (\<lambda>obj. obj\<lparr>d_legacy := False\<rparr>) t"
  show "tree_ok ?u = tree_ok t" by (rule tree_ok_field(3)) simp
  have s: "same_shape t ?u" by (rule tree_ok_field(1)) simp
  show "kids ?u q = kids t q" and "may_add x p ?u = may_add x p t" and "parent (objs ?u x) = parent (objs t x)"
    by (simp_all only: may_add_def same_shapeD [OF s])
  show "onStage (objs ?u x) = onStage (objs t x)" and "isVmThread ?u = isVmThread t" by simp_all
qed

lemma addChildAt_returns:
  assumes t: "tree_ok t" and f: "quiet_fire f" and m: "may_add c p t"
  shows "\<exists>t'. addChildAt_intern f c i False p (upd c (\<lambda>obj. obj\<lparr>d_legacy := False\<rparr>) t) = Some t' \<and> tree_ok t' \<and> placed c i p t t'"
  using addChildAt_intern_ok [of "upd c (\<lambda>obj. obj\<lparr>d_legacy := False\<rparr>) t" f c p i False] t f m
  by (simp only: not_legacy placed_def)

lemma removeChild_after:
  assumes t: "tree_ok t" and f: "quiet_fire f"
  shows "\<exists>t'. world_after (removeChild f (DisplayArg c) p t) t = Some t' \<and> tree_ok t'"
    and "\<exists>t'. world_after (removeChildAt f i p t) t = Some t' \<and> tree_ok t'"
  using removeChild_intern_returns [OF t f, of c False False True p]
    removeChild_intern_returns [OF t f, of "kids t p ! nat i" False False True p] t
  by (auto simp: removeChild_def removeChildAt_def Let_def not_legacy simp del: fun_upd_apply)

lemma run_op_ok:
  assumes t: "tree_ok t" and f: "quiet_fire f" and a: "allowed a t"
  shows "\<exists>t'. run_op f a t = Some t' \<and> tree_ok t'"
proof (cases a)
  case (Add c p)
  then show ?thesis using addChildAt_returns [OF t f, of c p 4294967295] a t by (auto simp: addChild_def as_done_def simp del: fun_upd_apply)
next
  case (AddAt c i p)
  then show ?thesis using addChildAt_returns [OF t f, of c p "nat i"] a t by (auto simp: addChildAt_def as_done_def simp del: fun_upd_apply)
next
  case (Remove c p)
  then show ?thesis using removeChild_after(1) [OF t f] by simp
next
  case (RemoveAt i p)
  then show ?thesis using removeChild_after(2) [OF t f] by simp
next
  case (RemoveRange i j p)
  then show ?thesis
    using removeChildren_list_ok [OF f t, of _ True p] t
    by (auto simp: removeChildren_def Let_def as_done_def split: option.split) (metis option.distinct(1) option.inject)+
next
  case (RemoveAll p)
  then show ?thesis using removeChildren_list_ok [OF f t, of "kids t p" False p] by (auto simp: removeAllChildren_def)
next
  case (SetIndex c i p)
  have "tree_ok (setChildIndexIntern c i p t)"
    using setChildIndexIntern_ok(1) [OF t] t by (cases "c \<in> set (kids t p)") (auto simp: setChildIndexIntern_def getChildIndex_spec)
  then show ?thesis using SetIndex t by (simp add: setChildIndex_def)
next
  case (Swap x y p)
  then show ?thesis
    using swap_children_at_ok(1) [OF t] index_nth [of x "kids t p"] index_nth [of y "kids t p"] t
    by (auto simp: swapChildren_def Let_def getChildIndex_spec)
next
  case (SwapAt i j p)
  then show ?thesis using swap_children_at_ok(1) [OF t] a t by (auto simp: swapChildrenAt_def Let_def)
next
  case (Place d c inskipping fromtag p)
  then show ?thesis using insertLegacyChildAt_ok [OF t f] a by fastforce
next
  case (Delete d inskipping p)
  then show ?thesis using deleteLegacyChildAt_ok [OF t f] by simp
next
  case (EraseMarked p)
  then show ?thesis using erase_marked_ok [OF f t] by (simp add: LegacyChildEraseDeletionMarked_def)
qed

lemma run_ops_ok:
  assumes f: "quiet_fire f"
  shows "tree_ok t \<Longrightarrow> all_allowed f as t \<Longrightarrow> \<exists>t'. run_ops f as t = Some t' \<and> tree_ok t'"
proof (induction as arbitrary: t)
  case (Cons a as)
  obtain u where "run_op f a t = Some u" "tree_ok u" using run_op_ok [OF Cons.prems(1) f, of a] Cons.prems(2) by auto
  then show ?case using Cons.IH [of u] Cons.prems(2) by simp
qed simp

lemma on_stage_below:
  assumes t: "tree_ok t"
  shows "onStage (objs t x) \<longleftrightarrow> onStage (objs t (stage_obj t)) \<and> x \<in> below t {stage_obj t}"
proof
  have st: "stage_ok t" using t by (simp add: tree_ok_def)
  show "onStage (objs t (stage_obj t)) \<and> x \<in> below t {stage_obj t} \<Longrightarrow> onStage (objs t x)"
    using uniform_below [OF stage_uniform [OF st, of "{stage_obj t}"], of "stage_obj t" x] by simp
  have "finite ((kid_rel t)\<inverse>)" "acyclic ((kid_rel t)\<inverse>)" using kid_acyclic t by (auto simp: tree_ok_def)
  then obtain h :: "nat \<Rightarrow> nat" where h: "\<forall>x y. (x, y) \<in> (kid_rel t)\<inverse> \<longrightarrow> h y < h x" using height_exists by blast
  show "onStage (objs t x) \<Longrightarrow> onStage (objs t (stage_obj t)) \<and> x \<in> below t {stage_obj t}"
  proof (induction "h x" arbitrary: x rule: less_induct)
    case less
    show ?case
    proof (cases "x = stage_obj t")
      case False
      then obtain p where p: "x \<in> set (kids t p)" using st less.prems by (auto simp: stage_ok_def)
      then have "h p < h x" "onStage (objs t p)" using h st less.prems by (auto simp: kid_rel_def stage_ok_def)
      then show ?thesis using less.hyps [of p] below_kid [OF _ p] by blast
    qed (use less.prems in \<open>simp add: below_self\<close>)
  qed
qed

text \<open>C27: Whatever sequence of allowed calls is made on the containers of the stage (children added, moved, swapped and
  removed by ActionScript, placed and deleted by the timeline), starting from a consistent tree such as the empty stage, no call
  hangs, parents and lists of children keep agreeing, no object is in two containers or below itself, the children of the timeline
  are drawn in the order of their depths, and an object is marked as on the stage exactly if it is below the stage. The handlers
  of the events do not change the tree (\<open>quiet_fire\<close>), and a call that throws (an error of the script or
  \<open>assert_and_throw\<close>) changes nothing. Allowed (\<open>allowed\<close>) are all calls except: adding or placing the
  container itself, something the container is in, the stage or the main clip, adding to an object that is no container or that
  has more than 2 ^ 31 children; \<open>swapChildrenAt\<close> with an index equal to the number of children; and placing a child
  by the timeline that is already in the container, or by a tag of the file (\<open>fromtag\<close>) when the container has a
  child at a depth that is not negative. The code refuses none of these; \<open>added_to_itself\<close>,
  \<open>swapChildrenAt_past_the_end\<close> and \<open>tag_child_above_script_child\<close> show what then goes wrong.\<close>

theorem display_tree_kept:
  assumes "quiet_fire f" and "tree_ok t" and "all_allowed f ops t"
  shows "\<exists>t'. run_ops f ops t = Some t' \<and> tree_ok t'
    \<and> (\<forall>x. onStage (objs t' x) \<longleftrightarrow> onStage (objs t' (stage_obj t')) \<and> x \<in> below t' {stage_obj t'})"
  using run_ops_ok [OF assms] on_stage_below by blast

text \<open>A stage with nothing on it.\<close>

definition plain_dobj :: "bool \<Rightarrow> bool \<Rightarrow> dobj" where
  "plain_dobj staged container = \<lparr>parent = None, children = [], depthToChild = [], childToDepth = (\<lambda>_. None), onStage = staged,
     isContainer = container, needsAS3 = True, d_legacy = True, constructed = True, clipDepth = 0, clipMask = None,
     markedForDeletion = False, deletionMarks = [], isAVM1Movie = False, isRootMovieClip = False\<rparr>"

definition empty_stage :: dworld where
  "empty_stage = \<lparr>objs = (\<lambda>x. plain_dobj (x = 0) (x < 2)), stage_obj = 0, mainClip = 9, isVmThread = True, listResetParent = [], fired = []\<rparr>"

definition note_event :: fire where "note_event e c t = t\<lparr>fired := fired t @ [(e, c)]\<rparr>"

lemma note_event_quiet: "quiet_fire note_event"
  by (auto simp: quiet_fire_def note_event_def)

lemma empty_stage_ok: "tree_ok empty_stage"
  by (simp add: tree_ok_def shape_ok_def lists_ok_def stage_ok_def depths_ok_def maps_ok_def empty_stage_def plain_dobj_def par_rel_def acyclic_def) auto

lemma empty_stage_may_add: "p < 2 \<Longrightarrow> c \<noteq> p \<Longrightarrow> c \<noteq> 0 \<Longrightarrow> c \<noteq> 9 \<Longrightarrow> may_add c p empty_stage"
  by (simp add: may_add_def empty_stage_def plain_dobj_def par_rel_def)

theorem display_tree_kept_witness:
  "\<exists>t'. run_ops note_event [Add 1 0, SetIndex 1 0 0, Swap 1 2 0, Remove 1 0, RemoveAll 0] empty_stage = Some t' \<and> tree_ok t'
    \<and> (\<forall>x. onStage (objs t' x) \<longleftrightarrow> onStage (objs t' (stage_obj t')) \<and> x \<in> below t' {stage_obj t'})"
  by (rule display_tree_kept [OF note_event_quiet empty_stage_ok]) (simp add: empty_stage_may_add)

lemma remove_inserted: "c \<notin> set xs \<Longrightarrow> remove1 c (insert_child k c xs) = xs"
  by (auto simp: insert_child_def remove1_append dest: in_set_takeD)

text \<open>What one \<open>addChild\<close> or \<open>addChildAt\<close> does, and \<open>removeChild\<close> after it.\<close>

lemma add_then_remove:
  assumes f: "quiet_fire f" and t: "tree_ok t" and m: "may_add c p t" and as2: "\<not> is_as2_child c p t" and vm: "isVmThread t"
    and a: "addChildAt_intern f c k False p (upd c (\<lambda>obj. obj\<lparr>d_legacy := False\<rparr>) t) = Some t1" and ok: "tree_ok t1"
    and pl: "placed c k p t t1"
  shows "onStage (objs t1 c) = onStage (objs t1 p)"
    and "\<exists>t2. removeChild f (DisplayArg c) p t1 = Done (Some c) t2 \<and> (\<forall>q. kids t2 q = remove1 c (kids t q))
      \<and> parent (objs t2 c) = None \<and> \<not> onStage (objs t2 c)"
proof -
  have k: "kids t1 p = insert_child k c (remove1 c (kids t p))" "\<forall>q. q \<noteq> p \<longrightarrow> kids t1 q = remove1 c (kids t q)"
    and par: "parent (objs t1 c) = Some p" and vm1: "isVmThread t1" using pl vm by (simp_all add: placed_def)
  then have c: "c \<in> set (kids t1 p)" by (simp add: set_insert_child)
  then show "onStage (objs t1 c) = onStage (objs t1 p)" using ok by (simp add: tree_ok_def stage_ok_def)
  obtain u where u: "removeChild_intern f c False False False True p t1 = Some (True, u)" "removed_from c p t1 u"
    using removeChild_ok [OF ok f par c] by blast
  have "c \<notin> set (remove1 c (kids t p))" using t by (simp add: tree_ok_def shape_ok_def)
  then have "remove1 c (kids t1 p) = remove1 c (kids t p)" unfolding k(1) by (rule remove_inserted)
  then have ku: "kids u q = remove1 c (kids t q)" for q
    using u(2) k(2) unfolding removed_from_def by (cases "q = p") simp_all
  show "\<exists>t2. removeChild f (DisplayArg c) p t1 = Done (Some c) t2 \<and> (\<forall>q. kids t2 q = remove1 c (kids t q))
      \<and> parent (objs t2 c) = None \<and> \<not> onStage (objs t2 c)"
    using u vm1 below_self [of c "{c}" t1] by (simp add: removeChild_def removed_from_def ku)
qed

text \<open>A child that was put into a container, and what \<open>removeChild\<close> does next.\<close>

definition put_in :: "fire \<Rightarrow> nat \<Rightarrow> nat list \<Rightarrow> nat \<Rightarrow> dworld \<Rightarrow> dworld \<Rightarrow> bool" where
  "put_in f c new_kids p t t1 \<longleftrightarrow> kids t1 p = new_kids \<and> (\<forall>q. q \<noteq> p \<longrightarrow> kids t1 q = remove1 c (kids t q))
     \<and> parent (objs t1 c) = Some p \<and> onStage (objs t1 c) = onStage (objs t1 p)
     \<and> (\<exists>t2. removeChild f (DisplayArg c) p t1 = Done (Some c) t2 \<and> (\<forall>q. kids t2 q = remove1 c (kids t q))
          \<and> parent (objs t2 c) = None \<and> \<not> onStage (objs t2 c))"

lemma put_in_placed:
  assumes "quiet_fire f" and "tree_ok t" and "may_add c p t" and "\<not> is_as2_child c p t" and "isVmThread t"
  shows "\<exists>t1. as_done (Some c) (addChildAt_intern f c k False p (upd c (\<lambda>obj. obj\<lparr>d_legacy := False\<rparr>) t)) = Done (Some c) t1
    \<and> put_in f c (insert_child k c (remove1 c (kids t p))) p t t1"
proof -
  obtain t1 where t1: "addChildAt_intern f c k False p (upd c (\<lambda>obj. obj\<lparr>d_legacy := False\<rparr>) t) = Some t1" "tree_ok t1"
    "placed c k p t t1" using addChildAt_returns [OF assms(2,1,3)] by blast
  note r = add_then_remove [OF assms t1]
  have "put_in f c (insert_child k c (remove1 c (kids t p))) p t t1"
    unfolding put_in_def using t1(3) r by (simp add: placed_def)
  then show ?thesis using t1(1) by (auto simp: as_done_def)
qed

text \<open>C28: Where children go. For calls on the VM thread of a container in a consistent tree, with a child that may be added (it
  is not the container nor something the container is in, nor the stage or the main clip; the container has at most 2 ^ 31
  children) and that is not an AVM1 object in an AVM2 container (which the code refuses), and with handlers of the events that do not
  change the tree: \<open>addChild\<close> puts the child at the end and \<open>addChildAt\<close> at the index from 0 to the number of children (counted
  without the child itself); in both cases the child leaves whatever container it was in, all other children keep their order, its parent is
  the container and it is on the stage exactly if the container is. \<open>removeChild\<close> afterwards takes it out again: every container is as
  before, without the child, and the child has no parent and is not on the stage.\<close>

theorem children_where_asked:
  assumes "quiet_fire f" and "tree_ok t" and "may_add c p t" and "\<not> is_as2_child c p t" and "isVmThread t"
    and "0 \<le> i" and "i \<le> int (length (kids t p))"
  shows "\<exists>t1 t2. addChild f (DisplayArg c) p t = Done (Some c) t1 \<and> put_in f c (remove1 c (kids t p) @ [c]) p t t1
    \<and> addChildAt f (DisplayArg c) i p t = Done (Some c) t2
    \<and> put_in f c (insert_child (nat i) c (remove1 c (kids t p))) p t t2"
proof -
  note put = put_in_placed [OF assms(1-5)]
  have "length (remove1 c (kids t p)) \<le> 4294967295" using assms(3) by (auto simp: may_add_def length_remove1)
  then have "insert_child 4294967295 c (remove1 c (kids t p)) = remove1 c (kids t p) @ [c]" by (simp add: insert_child_def)
  then obtain t1 where t1: "addChild f (DisplayArg c) p t = Done (Some c) t1" "put_in f c (remove1 c (kids t p) @ [c]) p t t1"
    using put [of 4294967295] assms(4) by (auto simp: addChild_def)
  obtain t2 where t2: "addChildAt f (DisplayArg c) i p t = Done (Some c) t2"
      "put_in f c (insert_child (nat i) c (remove1 c (kids t p))) p t t2"
    using put [of "nat i"] assms(4,6,7) by (auto simp: addChildAt_def nat_le_iff)
  show ?thesis using t1 t2 by blast
qed

theorem children_where_asked_witness:
  "\<exists>t1 t2. addChild note_event (DisplayArg 1) 0 empty_stage = Done (Some 1) t1 \<and> put_in note_event 1 [1] 0 empty_stage t1
    \<and> addChildAt note_event (DisplayArg 1) 0 0 empty_stage = Done (Some 1) t2 \<and> put_in note_event 1 [1] 0 empty_stage t2"
proof -
  have "may_add 1 0 empty_stage" "\<not> is_as2_child 1 0 empty_stage" "isVmThread empty_stage" "kids empty_stage 0 = []"
    by (simp add: empty_stage_may_add) (simp_all add: is_as2_child_def, simp_all add: empty_stage_def plain_dobj_def)
  then show ?thesis
    using children_where_asked [OF note_event_quiet empty_stage_ok, of 1 0 0] by (simp add: insert_child_def)
qed

section \<open>Where the code differs\<close>

text \<open>Neither \<open>addChild\<close> nor \<open>addChildAt\<close> refuses the container itself: after adding a container that is nowhere to
  itself, the search for its stage does not end. The walk that sets its state has found it in that state already.\<close>

lemma stage_found_elsewhere:
  assumes "parent (objs t x) = Some x" and "x \<noteq> stage_obj t"
  shows "has_stage t' y = Some b \<Longrightarrow> t' = t \<longrightarrow> y \<noteq> x"
proof -
  have step: "u = t \<longrightarrow> z \<noteq> x"
    if rec: "\<And>v w c. rec v w = Some c \<Longrightarrow> v = t \<longrightarrow> w \<noteq> x"
      and r: "(if z = stage_obj u then Some True else case parent (objs u z) of None \<Rightarrow> Some False | Some p \<Rightarrow> rec u p) = Some c" for rec u z c
  proof (intro impI notI)
    assume "u = t" "z = x"
    then have "rec t x = Some c" using r assms by simp
    then show False using rec by blast
  qed
  assume "has_stage t' y = Some b"
  then have r: "(case (t', y) of (v, w) \<Rightarrow> has_stage v w) = Some b" by simp
  have "(case (t', y) of (v, w) \<Rightarrow> (\<lambda>c. v = t \<longrightarrow> w \<noteq> x)) b"
    by (rule has_stage.raw_induct [where P = "\<lambda>v w c. v = t \<longrightarrow> w \<noteq> x", OF _ r]) (rule step)
  then show ?thesis by simp
qed

lemma own_parent_no_stage:
  assumes "parent (objs t x) = Some x" and "x \<noteq> stage_obj t"
  shows "has_stage t x = None"
  using stage_found_elsewhere [OF assms] by (cases "has_stage t x") auto

lemma added_to_itself:
  assumes "quiet_fire f" and "parent (objs t p) = None" and "kids t p = []" and "isContainer (objs t p)" and "\<not> onStage (objs t p)"
    and "listResetParent t = []" and "needsAS3 (objs t p)" and "\<not> isAVM1Movie (objs t p)" and "p \<noteq> stage_obj t"
  shows "\<exists>t'. addChild f (DisplayArg p) p t = Done (Some p) t' \<and> parent (objs t' p) = Some p \<and> kids t' p = [p] \<and> has_stage t' p = None"
proof -
  define u where "u = attach p 4294967295 p (upd p (\<lambda>obj. obj\<lparr>d_legacy := False\<rparr>) t)"
  have u: "kids u p = [p]" "parent (objs u p) = Some p" "\<not> onStage (objs u p)" "isContainer (objs u p)" "stage_obj u = stage_obj t"
    using assms by (simp_all add: u_def attach_def insert_child_def setParent_def removeFromResetParentList_def)
  define v where "v = f ''added'' p u"
  have v: "objs v = objs u" "stage_obj v = stage_obj t"
    using quiet_fireD(1) [OF assms(1)] same_shapeD(6) [OF quiet_fireD(2) [OF assms(1)]] by (simp_all add: v_def u)
  define t0 where "t0 = upd p (\<lambda>obj. obj\<lparr>d_legacy := False\<rparr>) t"
  have "parent (objs t0 p) = None" using assms(2) by (simp add: t0_def)
  then have "addChildAt_intern f p 4294967295 False p t0 = (let t = f ''added'' p (attach p 4294967295 p t0)
      in if \<not> onStage (objs t p) \<or> p \<noteq> mainClip t then setOnStage f (onStage (objs t p)) False p t else Some t)"
    by (simp add: addChildAt_intern_def attach_def insert_child_def Let_def)
  also have "\<dots> = setOnStage f False False p v"
    unfolding t0_def u_def [symmetric] v_def [symmetric] Let_def using u(3) v(1) by simp
  also have "\<dots> = Some v" by (simp add: setOnStage_def setOnStage_all.simps v u)
  finally have "addChildAt_intern f p 4294967295 False p (upd p (\<lambda>obj. obj\<lparr>d_legacy := False\<rparr>) t) = Some v"
    by (simp only: t0_def)
  then show ?thesis
    using assms u v own_parent_no_stage [of v p] by (simp add: addChild_def as_done_def is_as2_child_def del: fun_upd_apply)
qed

lemma swapChildrenAt_past_the_end:
  "i \<noteq> int (length (kids t p)) \<Longrightarrow> 0 \<le> i \<Longrightarrow> i < int (length (kids t p)) \<Longrightarrow> swapChildrenAt i (int (length (kids t p))) p t = BadAccess"
  by (simp add: swapChildrenAt_def Let_def)

text \<open>\<open>insertLegacyChildAt\<close> passes over every child with a depth that is not negative. For a child that an AVM1 script placed
  at depth 3 this puts a child of the timeline with a smaller depth above it.\<close>

lemma tag_child_above_script_child:
  assumes "kids t p = [x]" and "depthToChild (objs t p) = [(3, x)]" and "childToDepth (objs t p) x = Some 3" and "parent (objs t x) = Some p"
  shows "insert_position (- 16000) True p t = 1"
  using assms by (simp add: insert_position_def getRawDepth_def findLegacyChildDepth_def)

end
