(* ===== verification/StdString.thy ===== *)
theory StdString
  imports LS_Prelude
begin

text \<open>
  The operations of \<open>std::string\<close> that the code for URLs uses: a string is a list of characters, positions
  are \<open>size_t\<close> with \<open>npos\<close> as the greatest one, and an operation that throws \<open>std::out_of_range\<close> fails.
\<close>

definition str_npos :: nat where "str_npos = 18446744073709551615"

text \<open>A subtraction on \<open>size_t\<close>.\<close>

definition size_minus :: "nat \<Rightarrow> nat \<Rightarrow> nat" where
  "size_minus a b = (if b \<le> a then a - b else a + 18446744073709551616 - b)"

fun find_from :: "string \<Rightarrow> string \<Rightarrow> nat \<Rightarrow> nat" where
  "find_from w [] i = (if w = [] then i else str_npos)"
| "find_from w (c # s) i = (if take (length w) (c # s) = w then i else find_from w s (i + 1))"

definition str_find :: "string \<Rightarrow> string \<Rightarrow> nat \<Rightarrow> nat" where
  "str_find w s pos = (if pos \<le> length s then find_from w (drop pos s) pos else str_npos)"

fun rfind_at :: "string \<Rightarrow> string \<Rightarrow> nat \<Rightarrow> nat" where
  "rfind_at w s 0 = (if take (length w) s = w then 0 else str_npos)"
| "rfind_at w s (Suc i) = (if take (length w) (drop (Suc i) s) = w then Suc i else rfind_at w s i)"

definition str_rfind :: "string \<Rightarrow> string \<Rightarrow> nat \<Rightarrow> nat" where
  "str_rfind w s pos = (if length w \<le> length s then rfind_at w s (min pos (length s - length w)) else str_npos)"

definition str_substr :: "nat \<Rightarrow> nat \<Rightarrow> string \<Rightarrow> string res" where
  "str_substr pos n s = (if pos \<le> length s then Inr (take n (drop pos s)) else Inl OutOfBounds)"

definition str_replace :: "nat \<Rightarrow> nat \<Rightarrow> string \<Rightarrow> string \<Rightarrow> string res" where
  "str_replace pos n w s = (if pos \<le> length s then Inr (take pos s @ w @ drop (pos + n) s) else Inl OutOfBounds)"

definition tolower :: "char \<Rightarrow> char" where
  "tolower c = (if 65 \<le> (of_char c :: nat) \<and> (of_char c :: nat) \<le> 90 then char_of (of_char c + 32 :: nat) else c)"

definition str_lower :: "string \<Rightarrow> string" where "str_lower s = map tolower s"

lemma size_minus_le [simp]: "b \<le> a \<Longrightarrow> size_minus a b = a - b"
  by (simp add: size_minus_def)

section \<open>Searching\<close>

lemma find_from_bounds: "find_from w s i = str_npos \<or> i \<le> find_from w s i \<and> find_from w s i \<le> i + length s"
  by (induction w s i rule: find_from.induct) auto

lemma find_from_match:
  assumes "find_from w s i \<noteq> str_npos"
  shows "take (length w) (drop (find_from w s i - i) s) = w"
  using assms
proof (induction w s i rule: find_from.induct)
  case (2 w c s i)
  then show ?case
    using find_from_bounds [of w s "i + 1"] by (auto simp: drop_Cons' split: if_splits)
qed (auto split: if_splits)

lemma str_find_match:
  assumes "str_find w s 0 \<noteq> str_npos"
  shows "take (length w) (drop (str_find w s 0) s) = w"
  using find_from_match [of w s 0] assms by (simp add: str_find_def)

lemma str_find_le: "str_find w s 0 \<noteq> str_npos \<Longrightarrow> str_find w s 0 + length w \<le> length s"
proof -
  assume a: "str_find w s 0 \<noteq> str_npos"
  have "length (take (length w) (drop (str_find w s 0) s)) = length w" using str_find_match [OF a] by simp
  moreover have "str_find w s 0 \<le> length s" using find_from_bounds [of w s 0] a by (auto simp: str_find_def)
  ultimately show ?thesis by (auto simp: min_def split: if_splits)
qed

text \<open>A character that the sought word does not begin with is passed over.\<close>

lemma find_from_skip:
  assumes "w \<noteq> []" and "hd w \<notin> set a"
  shows "find_from w (a @ s) i = find_from w s (i + length a)"
  using assms
proof (induction a arbitrary: i)
  case (Cons c a)
  obtain d v where w: "w = d # v" using assms(1) by (cases w) auto
  then have "take (length w) (c # a @ s) \<noteq> w" using Cons.prems by auto
  then show ?case using Cons by simp
qed simp

lemma find_from_none:
  assumes "w \<noteq> []" and "hd w \<notin> set a"
  shows "find_from w a i = str_npos"
  using find_from_skip [OF assms, of "[]" i] assms(1) by simp

lemma str_find_none: "c \<notin> set s \<Longrightarrow> str_find (c # w) s i = str_npos"
  using find_from_none [of "c # w" "drop i s" i] by (auto simp: str_find_def dest: in_set_dropD)

lemma str_find_char:
  assumes "c \<notin> set a"
  shows "str_find [c] (a @ c # s) 0 = length a"
  using find_from_skip [of "[c]" a "c # s" 0] assms by (simp add: str_find_def)

lemma rfind_at_skip:
  assumes "w \<noteq> []" and "\<forall>j. i < j \<and> j \<le> k \<longrightarrow> s ! j \<noteq> hd w" and "i \<le> k" and "k < length s"
  shows "rfind_at w s k = rfind_at w s i"
  using assms(2-4)
proof (induction k)
  case (Suc k)
  show ?case
  proof (cases "i = Suc k")
    case False
    then have n: "s ! Suc k \<noteq> hd w" using Suc.prems by simp
    have "take (length w) (drop (Suc k) s) \<noteq> w"
    proof
      assume "take (length w) (drop (Suc k) s) = w"
      then have "hd w = hd (take (length w) (drop (Suc k) s))" by simp
      also have "\<dots> = s ! Suc k" using Suc.prems(3) assms(1) by (simp add: hd_drop_conv_nth)
      finally show False using n by simp
    qed
    then show ?thesis using Suc False by simp
  qed simp
qed simp

lemma rfind_char_at: "i < length s \<Longrightarrow> s ! i = c \<Longrightarrow> rfind_at [c] s i = i"
  by (cases i; cases s) (auto simp: take_Suc hd_drop_conv_nth)

lemma str_rfind_last:
  assumes "c \<notin> set b" and "length a \<le> p" and "p \<le> length a + length b"
  shows "str_rfind [c] (a @ c # b @ r) p = length a"
proof -
  let ?s = "a @ c # b @ r"
  have "\<forall>j. length a < j \<and> j \<le> p \<longrightarrow> ?s ! j \<noteq> c"
    using assms by (auto simp: nth_append nth_Cons' dest: nth_mem)
  then have "rfind_at [c] ?s p = rfind_at [c] ?s (length a)"
    using assms(2,3) by (intro rfind_at_skip) auto
  also have "\<dots> = length a" by (rule rfind_char_at) simp_all
  finally show ?thesis using assms(3) by (simp add: str_rfind_def min_absorb1)
qed

lemma rfind_at_none:
  assumes "c \<notin> set s"
  shows "rfind_at [c] s i = str_npos"
proof (induction i)
  case (Suc i)
  have "take (length [c]) (drop (Suc i) s) \<noteq> [c]"
    using assms by (metis in_set_dropD in_set_takeD list.set_intros(1))
  then show ?case using Suc by simp
qed (use assms in \<open>cases s; auto\<close>)

end
