(* ===== verification/UrlPath.thy ===== *)
theory UrlPath
  imports StdString
begin

text \<open>
  \<open>URLInfo::normalizePath\<close> of \<open>backends/urlutils.cpp\<close>. The result is \<open>None\<close> where a loop of the code does not
  end, and a fault where \<open>std::string\<close> throws. On paths that begin with a slash the code is compared with a function on
  the list of segments.
\<close>

section \<open>The code\<close>

definition size_plus :: "nat \<Rightarrow> nat \<Rightarrow> nat" where "size_plus a b = (a + b) mod 18446744073709551616"

function remove_double_slashes :: "string \<Rightarrow> string" where
  "remove_double_slashes s =
     (let i = str_find ''//'' s 0
      in if i = str_npos then s else remove_double_slashes (take i s @ ''/'' @ drop (i + 2) s))"
  by pat_completeness auto
termination
  by (relation "measure length") (auto dest: str_find_le)

declare remove_double_slashes.simps [simp del]

definition one_dir_up :: "nat \<Rightarrow> string \<Rightarrow> string res" where
  "one_dir_up d s =
     (if d = 0 then str_replace d 3 '''' s
      else let p = str_rfind ''/'' s (size_minus d 2) in str_replace p (size_plus (size_minus d p) 3) '''' s)"

partial_function (option) remove_double_dots :: "string \<Rightarrow> string res option" where
  "remove_double_dots s =
     (let d = str_find ''/../'' s 0
      in if d = str_npos then Some (Inr s)
         else case one_dir_up d s of Inl e \<Rightarrow> Some (Inl e) | Inr s' \<Rightarrow> remove_double_dots s')"

definition remove_last_double_dot :: "string \<Rightarrow> string res" where
  "remove_last_double_dot s =
     (if length s \<ge> 3 \<and> drop (length s - 3) s = ''/..''
      then let p = str_rfind ''/'' s (size_minus (length s) 4) in str_replace p (size_plus (size_minus (length s) p) 2) ''/'' s
      else Inr s)"

function remove_single_dots :: "string \<Rightarrow> string" where
  "remove_single_dots s =
     (let i = str_find ''/./'' s 0
      in if i = str_npos then s else remove_single_dots (take i s @ drop (i + 2) s))"
  by pat_completeness auto
termination
  by (relation "measure length") (auto dest: str_find_le)

declare remove_single_dots.simps [simp del]

definition remove_last_dot :: "string \<Rightarrow> string" where
  "remove_last_dot s =
     (let s = (if length s \<ge> 2 \<and> drop (length s - 2) s = ''/.'' then take (length s - 1) s else s)
      in if s = ''.'' then '''' else s)"

definition normalizePath :: "string \<Rightarrow> string res option" where
  "normalizePath s = (case remove_double_dots (remove_double_slashes s) of
       None \<Rightarrow> None
     | Some r \<Rightarrow> Some (bindE r (\<lambda>s. bindE (remove_last_double_dot s) (\<lambda>s. Inr (remove_last_dot (remove_single_dots s))))))"

section \<open>Segments\<close>

fun path_of :: "string list \<Rightarrow> string" where
  "path_of [] = []"
| "path_of (s # ss) = CHR ''/'' # s @ path_of ss"

definition segments :: "string list \<Rightarrow> bool" where
  "segments ss \<longleftrightarrow> (\<forall>s\<in>set ss. CHR ''/'' \<notin> set s)"

lemma segments_simps [simp]:
  "segments []" "segments (s # ss) \<longleftrightarrow> CHR ''/'' \<notin> set s \<and> segments ss" "segments (ss @ ts) \<longleftrightarrow> segments ss \<and> segments ts"
  by (auto simp: segments_def)

lemma path_of_append [simp]: "path_of (ss @ ts) = path_of ss @ path_of ts"
  by (induction ss) auto

lemma length_path_of: "length (path_of ss) = sum_list (map (\<lambda>s. length s + 1) ss)"
  by (induction ss) auto

lemma path_of_start: "ss \<noteq> [] \<Longrightarrow> \<exists>r. path_of ss = CHR ''/'' # r"
  by (cases ss) auto

text \<open>A word between slashes is found where a segment that is not the last one equals it.\<close>

lemma segment_match:
  assumes "CHR ''/'' \<notin> set s" and "CHR ''/'' \<notin> set m"
  shows "take (length m + 2) (path_of (s # ss)) = CHR ''/'' # m @ ''/'' \<longleftrightarrow> s = m \<and> ss \<noteq> []"
proof
  assume "take (length m + 2) (path_of (s # ss)) = CHR ''/'' # m @ ''/''"
  then have t: "take (length m + 1) (s @ path_of ss) = m @ ''/''" by simp
  define r where "r = drop (length m + 1) (s @ path_of ss)"
  have "s @ path_of ss = take (length m + 1) (s @ path_of ss) @ r" unfolding r_def by (simp only: append_take_drop_id)
  then have e: "s @ path_of ss = m @ CHR ''/'' # r" by (simp only: t append_assoc append_Cons append_Nil)
  have "CHR ''/'' \<in> set (s @ path_of ss)" by (simp only: e) simp
  then have ne: "ss \<noteq> []" using assms(1) by auto
  then obtain q where q: "path_of ss = CHR ''/'' # q" using path_of_start by blast
  have "takeWhile (\<lambda>c. c \<noteq> CHR ''/'') (s @ path_of ss) = s" using assms(1) q by (simp add: takeWhile_append)
  moreover have "takeWhile (\<lambda>c. c \<noteq> CHR ''/'') (m @ CHR ''/'' # r) = m" using assms(2) by (simp add: takeWhile_append)
  ultimately show "s = m \<and> ss \<noteq> []" using e ne by simp
next
  assume "s = m \<and> ss \<noteq> []"
  then show "take (length m + 2) (path_of (s # ss)) = CHR ''/'' # m @ ''/''"
    using path_of_start [of ss] by auto
qed

lemma find_segment_step:
  assumes "CHR ''/'' \<notin> set s" and "CHR ''/'' \<notin> set m" and "s \<noteq> m \<or> ss = []"
  shows "find_from (CHR ''/'' # m @ ''/'') (path_of (s # ss)) i = find_from (CHR ''/'' # m @ ''/'') (path_of ss) (i + length s + 1)"
proof -
  let ?w = "CHR ''/'' # m @ ''/''"
  have "take (length ?w) (path_of (s # ss)) \<noteq> ?w" using segment_match [OF assms(1,2), of ss] assms(3) by simp
  then have "find_from ?w (path_of (s # ss)) i = find_from ?w (s @ path_of ss) (i + 1)" by simp
  also have "\<dots> = find_from ?w (path_of ss) (i + 1 + length s)" by (rule find_from_skip) (use assms(1) in simp_all)
  finally show ?thesis by (simp add: add.commute add.left_commute)
qed

lemma find_segment_none:
  assumes "segments ss" and "CHR ''/'' \<notin> set m" and "m \<notin> set (butlast ss)"
  shows "find_from (CHR ''/'' # m @ ''/'') (path_of ss) i = str_npos"
  using assms
proof (induction ss arbitrary: i)
  case (Cons s ss)
  have "s \<noteq> m \<or> ss = []" using Cons.prems(3) by (auto split: if_splits)
  moreover have "m \<notin> set (butlast ss)" using Cons.prems(3) by (auto split: if_splits)
  ultimately show ?case using Cons find_segment_step [of s m ss i] by simp
qed simp

lemma find_segment_first:
  assumes "segments xs" and "CHR ''/'' \<notin> set m" and "m \<notin> set xs" and "ys \<noteq> []"
  shows "find_from (CHR ''/'' # m @ ''/'') (path_of (xs @ m # ys)) i = i + length (path_of xs)"
  using assms(1,3)
proof (induction xs arbitrary: i)
  case Nil
  have "take (length (CHR ''/'' # m @ ''/'')) (path_of (m # ys)) = CHR ''/'' # m @ ''/''"
    using segment_match [OF assms(2,2), of ys] assms(4) by simp
  then show ?case by simp
next
  case (Cons s xs)
  then have "find_from (CHR ''/'' # m @ ''/'') (path_of (s # xs @ m # ys)) i
      = find_from (CHR ''/'' # m @ ''/'') (path_of (xs @ m # ys)) (i + length s + 1)"
    by (intro find_segment_step) (use assms(2) in auto)
  also have "\<dots> = i + length s + 1 + length (path_of xs)" using Cons by simp
  finally show ?case by simp
qed

lemma first_segment:
  assumes "m \<in> set (butlast ss)"
  obtains xs ys where "ss = xs @ m # ys" and "m \<notin> set xs" and "ys \<noteq> []"
proof -
  obtain xs zs where z: "butlast ss = xs @ m # zs" "m \<notin> set xs" using split_list_first [OF assms] by blast
  have "ss \<noteq> []" using assms by auto
  then have "ss = xs @ m # (zs @ [last ss])" using append_butlast_last_id [of ss] z(1) by simp
  then show ?thesis using that z(2) by blast
qed

abbreviation short_path :: "string list \<Rightarrow> bool" where "short_path ss \<equiv> length (path_of ss) < 18446744073709551600"

lemma str_find_segment:
  assumes "segments ss" and "CHR ''/'' \<notin> set m"
  shows "m \<notin> set (butlast ss) \<Longrightarrow> str_find (CHR ''/'' # m @ ''/'') (path_of ss) 0 = str_npos"
    and "ss = xs @ m # ys \<Longrightarrow> m \<notin> set xs \<Longrightarrow> ys \<noteq> [] \<Longrightarrow> short_path ss \<Longrightarrow>
      str_find (CHR ''/'' # m @ ''/'') (path_of ss) 0 = length (path_of xs) \<and> length (path_of xs) \<noteq> str_npos"
  using assms find_segment_none [of ss m 0] find_segment_first [of xs m ys 0]
  by (auto simp: str_find_def str_npos_def simp del: find_from.simps)

definition without_inner :: "string \<Rightarrow> string list \<Rightarrow> string list" where
  "without_inner m ss = filter (\<lambda>s. s \<noteq> m) (butlast ss) @ [last ss]"

lemma without_inner_none: "ss \<noteq> [] \<Longrightarrow> m \<notin> set (butlast ss) \<Longrightarrow> without_inner m ss = ss"
  unfolding without_inner_def by (subst filter_True) auto

lemma without_inner_split: "ys \<noteq> [] \<Longrightarrow> without_inner m (xs @ m # ys) = without_inner m (xs @ ys)"
  by (simp add: without_inner_def butlast_append)

lemma remove_double_slashes_path:
  assumes "segments ss" and "ss \<noteq> []" and "short_path ss"
  shows "remove_double_slashes (path_of ss) = path_of (without_inner [] ss)"
  using assms
proof (induction "length ss" arbitrary: ss rule: less_induct)
  case less
  show ?case
  proof (cases "[] \<in> set (butlast ss)")
    case False
    then show ?thesis
      using str_find_segment(1) [OF less.prems(1), of "[]"] less.prems(2) without_inner_none [of ss "[]"]
      by (subst remove_double_slashes.simps) simp
  next
    case True
    then obtain xs ys where x: "ss = xs @ [] # ys" "[] \<notin> set xs" "ys \<noteq> []" by (rule first_segment)
    obtain r where r: "path_of ys = CHR ''/'' # r" using path_of_start [OF x(3)] by blast
    have "str_find ''//'' (path_of ss) 0 = length (path_of xs)" "length (path_of xs) \<noteq> str_npos"
      using str_find_segment(2) [OF less.prems(1) _ x less.prems(3)] by simp_all
    then have "remove_double_slashes (path_of ss) = remove_double_slashes (path_of (xs @ ys))"
      by (subst remove_double_slashes.simps) (simp add: Let_def x(1) r)
    also have "\<dots> = path_of (without_inner [] (xs @ ys))"
      using less.prems x by (intro less.hyps) simp_all
    finally show ?thesis using without_inner_split [OF x(3), of "[]" xs] x(1) by simp
  qed
qed

lemma remove_single_dots_path:
  assumes "segments ss" and "ss \<noteq> []" and "short_path ss"
  shows "remove_single_dots (path_of ss) = path_of (without_inner ''.'' ss)"
  using assms
proof (induction "length ss" arbitrary: ss rule: less_induct)
  case less
  show ?case
  proof (cases "''.'' \<in> set (butlast ss)")
    case False
    then show ?thesis
      using str_find_segment(1) [OF less.prems(1), of "''.''"] less.prems(2) without_inner_none [of ss "''.''"]
      by (subst remove_single_dots.simps) simp
  next
    case True
    then obtain xs ys where x: "ss = xs @ ''.'' # ys" "''.'' \<notin> set xs" "ys \<noteq> []" by (rule first_segment)
    have "str_find ''/./'' (path_of ss) 0 = length (path_of xs)" "length (path_of xs) \<noteq> str_npos"
      using str_find_segment(2) [OF less.prems(1) _ x less.prems(3)] by simp_all
    then have "remove_single_dots (path_of ss) = remove_single_dots (path_of (xs @ ys))"
      by (subst remove_single_dots.simps) (simp add: Let_def x(1))
    also have "\<dots> = path_of (without_inner ''.'' (xs @ ys))"
      using less.prems x by (intro less.hyps) simp_all
    finally show ?thesis using without_inner_split [OF x(3), of "''.''" xs] x(1) by simp
  qed
qed

text \<open>\<open>..\<close> removes the segment before it.\<close>

fun up :: "string list \<Rightarrow> string list \<Rightarrow> string list" where
  "up acc [] = rev acc"
| "up acc [s] = rev (s # acc)"
| "up acc (s # t # ss) = (if s = ''..'' then up (tl acc) (t # ss) else up (s # acc) (t # ss))"

lemma one_dir_up_path:
  assumes "segments (xs @ [x])" and "x \<noteq> []" and "ys \<noteq> []" and "short_path (xs @ x # ''..'' # ys)"
  shows "one_dir_up (length (path_of (xs @ [x]))) (path_of (xs @ x # ''..'' # ys)) = Inr (path_of (xs @ ys))"
proof -
  let ?s = "path_of (xs @ x # ''..'' # ys)" and ?d = "length (path_of (xs @ [x]))"
  have d: "?d = length (path_of xs) + length x + 1" "length x \<ge> 1" using assms(2) by (cases x; simp)+
  have "str_rfind ''/'' (path_of xs @ CHR ''/'' # x @ path_of (''..'' # ys)) (?d - 2) = length (path_of xs)"
    using assms(1) d by (intro str_rfind_last) auto
  then have r: "str_rfind ''/'' ?s (size_minus ?d 2) = length (path_of xs)" using d by simp
  have n: "size_plus (size_minus ?d (length (path_of xs))) 3 = length x + 4"
    using d assms(4) by (simp add: size_plus_def)
  have "?d \<noteq> 0" using d(1) by simp
  then have "one_dir_up ?d ?s = str_replace (length (path_of xs)) (length x + 4) '''' ?s"
    by (simp only: one_dir_up_def Let_def r n if_False)
  moreover have "drop (length x + 4) (CHR ''/'' # x @ path_of (''..'' # ys)) = path_of ys" by (simp add: numeral_eq_Suc)
  ultimately show ?thesis by (simp add: str_replace_def)
qed

lemma remove_double_dots_path:
  assumes "segments (rev acc @ ss)" and "ss \<noteq> []" and "[] \<notin> set acc" and "''..'' \<notin> set acc" and "[] \<notin> set (butlast ss)"
    and "short_path (rev acc @ ss)"
  shows "remove_double_dots (path_of (rev acc @ ss)) = Some (Inr (path_of (up acc ss)))"
  using assms
proof (induction acc ss rule: up.induct)
  case (2 acc s)
  then have "str_find ''/../'' (path_of (rev acc @ [s])) 0 = str_npos"
    using str_find_segment(1) [OF 2(1), of "''..''"] by simp
  then show ?case by (subst remove_double_dots.simps) (simp add: Let_def)
next
  case (3 acc s t ss)
  show ?case
  proof (cases "s = ''..''")
    case False
    then show ?thesis using 3 by (auto split: if_splits)
  next
    case True
    let ?p = "path_of (rev acc @ s # t # ss)"
    have f: "str_find ''/../'' ?p 0 = length (path_of (rev acc)) \<and> length (path_of (rev acc)) \<noteq> str_npos"
      using str_find_segment(2) [OF 3(3), of "''..''" "rev acc" "t # ss"] True 3(6,8) by simp
    have "one_dir_up (length (path_of (rev acc))) ?p = Inr (path_of (rev (tl acc) @ t # ss))"
    proof (cases acc)
      case Nil
      then show ?thesis using True by (simp add: one_dir_up_def str_replace_def)
    next
      case (Cons x xs)
      have "one_dir_up (length (path_of (rev xs @ [x]))) (path_of (rev xs @ x # ''..'' # t # ss)) = Inr (path_of (rev xs @ t # ss))"
        using 3(3,5,8) Cons True by (intro one_dir_up_path) auto
      then show ?thesis using Cons True by simp
    qed
    then have "remove_double_dots ?p = remove_double_dots (path_of (rev (tl acc) @ t # ss))"
      using f by (subst remove_double_dots.simps) (simp add: Let_def)
    also have "\<dots> = Some (Inr (path_of (up (tl acc) (t # ss))))"
      using 3(3-8) True by (intro 3(1)) (cases acc; simp add: length_path_of split: if_splits)+
    finally show ?thesis using True by simp
  qed
qed simp

lemma last_segment_match:
  assumes "CHR ''/'' \<notin> set l" and "CHR ''/'' \<notin> set m"
  shows "length (p @ CHR ''/'' # l) \<ge> length m + 1 \<and> drop (length (p @ CHR ''/'' # l) - (length m + 1)) (p @ CHR ''/'' # l) = CHR ''/'' # m
     \<longleftrightarrow> l = m"
proof
  let ?s = "p @ CHR ''/'' # l"
  assume "length ?s \<ge> length m + 1 \<and> drop (length ?s - (length m + 1)) ?s = CHR ''/'' # m"
  then have "?s = take (length ?s - (length m + 1)) ?s @ CHR ''/'' # m" by (metis append_take_drop_id)
  then obtain q where "?s = q @ CHR ''/'' # m" by blast
  then have "rev ?s = rev (q @ CHR ''/'' # m)" by (rule arg_cong)
  then have e: "rev l @ CHR ''/'' # rev p = rev m @ CHR ''/'' # rev q" by simp
  have "takeWhile (\<lambda>c. c \<noteq> CHR ''/'') (rev l @ CHR ''/'' # rev p) = rev l" using assms(1) by (simp add: takeWhile_append)
  moreover have "takeWhile (\<lambda>c. c \<noteq> CHR ''/'') (rev m @ CHR ''/'' # rev q) = rev m" using assms(2) by (simp add: takeWhile_append)
  ultimately show "l = m" using e by simp
qed simp

definition up_last :: "string list \<Rightarrow> string list" where
  "up_last ss = (if last ss = ''..'' then butlast (butlast ss) @ [''''] else ss)"

definition here_last :: "string list \<Rightarrow> string list" where
  "here_last ss = (if last ss = ''.'' then butlast ss @ [''''] else ss)"

lemma path_of_snoc: "ss \<noteq> [] \<Longrightarrow> path_of ss = path_of (butlast ss) @ CHR ''/'' # last ss"
  by (metis append_Nil2 append_butlast_last_id path_of.simps path_of_append)

lemma segments_last: "segments ss \<Longrightarrow> ss \<noteq> [] \<Longrightarrow> CHR ''/'' \<notin> set (last ss)"
  by (simp add: segments_def)

lemma segments_butlast: "segments ss \<Longrightarrow> segments (butlast ss)"
  by (auto simp: segments_def dest: in_set_butlastD)

lemma remove_last_double_dot_path:
  assumes "segments ss" and "ss \<noteq> []" and "short_path ss"
  shows "remove_last_double_dot (path_of ss) = Inr (path_of (up_last ss))"
proof (cases "last ss = ''..''")
  case False
  have "\<not> (length (path_of ss) \<ge> 3 \<and> drop (length (path_of ss) - 3) (path_of ss) = ''/..'')"
    using last_segment_match [of "last ss" "''..''" "path_of (butlast ss)"] segments_last [OF assms(1,2)] False
    by (simp add: path_of_snoc [OF assms(2), symmetric] numeral_3_eq_3)
  then show ?thesis using False by (auto simp: remove_last_double_dot_def up_last_def)
next
  case True
  let ?p = "path_of ss"
  have p: "?p = path_of (butlast ss) @ ''/..''" using path_of_snoc [OF assms(2)] True by simp
  have c: "length ?p \<ge> 3 \<and> drop (length ?p - 3) ?p = ''/..''" unfolding p by simp
  have "str_rfind ''/'' ?p (size_minus (length ?p) 4) = length (path_of (butlast (butlast ss)))"
  proof (cases "butlast ss = []")
    case True
    then have s: "?p = ''/..''" using p by simp
    have "min (size_minus (Suc (Suc (Suc 0))) 4) (Suc (Suc 0)) = Suc (Suc 0)" by (simp add: size_minus_def)
    then show ?thesis using True s by (simp add: str_rfind_def)
  next
    case False
    have pb: "path_of (butlast ss) = path_of (butlast (butlast ss)) @ CHR ''/'' # last (butlast ss)" by (rule path_of_snoc [OF False])
    have "str_rfind ''/'' (path_of (butlast (butlast ss)) @ CHR ''/'' # last (butlast ss) @ ''/..'') (length ?p - 4)
        = length (path_of (butlast (butlast ss)))"
      using segments_last [OF segments_butlast [OF assms(1)] False] p pb by (intro str_rfind_last) simp_all
    then show ?thesis using p pb by simp
  qed
  moreover have "length (path_of (butlast (butlast ss))) \<le> length (path_of (butlast ss))"
    by (cases "butlast ss = []") (simp_all add: path_of_snoc [of "butlast ss"])
  moreover have "take (length (path_of (butlast (butlast ss)))) ?p = path_of (butlast (butlast ss))"
    using p by (cases "butlast ss = []") (simp_all add: path_of_snoc [of "butlast ss"])
  ultimately show ?thesis
    using c True p assms(3) by (simp add: remove_last_double_dot_def up_last_def Let_def str_replace_def size_plus_def mod_less)
qed

lemma remove_last_dot_path:
  assumes "segments ss" and "ss \<noteq> []"
  shows "remove_last_dot (path_of ss) = path_of (here_last ss)"
proof -
  have n: "path_of ts \<noteq> ''.''" for ts by (cases ts) auto
  have m: "length (path_of ss) \<ge> 2 \<and> drop (length (path_of ss) - 2) (path_of ss) = ''/.'' \<longleftrightarrow> last ss = ''.''"
    using last_segment_match [of "last ss" "''.''" "path_of (butlast ss)"] segments_last [OF assms]
    by (simp add: path_of_snoc [OF assms(2), symmetric] numeral_2_eq_2)
  show ?thesis
  proof (cases "last ss = ''.''")
    case True
    have "take (length (path_of ss) - 1) (path_of ss) = path_of (here_last ss)"
      using path_of_snoc [OF assms(2)] True by (simp add: here_last_def)
    then show ?thesis using m True n by (simp only: remove_last_dot_def Let_def simp_thms if_True if_False)
  next
    case False
    then show ?thesis using m n by (simp only: remove_last_dot_def Let_def if_False here_last_def)
  qed
qed

section \<open>What normalizePath returns\<close>

text \<open>The four passes on segments: empty ones, \<open>..\<close>, a \<open>..\<close> at the end, \<open>.\<close>.\<close>

definition normal_segs :: "string list \<Rightarrow> string list" where
  "normal_segs ss = here_last (without_inner ''.'' (up_last (up [] (without_inner '''' ss))))"

lemma without_inner_props:
  assumes "ss \<noteq> []"
  shows "without_inner m ss \<noteq> []" and "segments ss \<Longrightarrow> segments (without_inner m ss)"
    and "length (path_of (without_inner m ss)) \<le> length (path_of ss)" and "m \<notin> set (butlast (without_inner m ss))"
    and "last (without_inner m ss) = last ss" and "set (butlast (without_inner m ss)) \<subseteq> set (butlast ss)"
proof -
  show "without_inner m ss \<noteq> []" "m \<notin> set (butlast (without_inner m ss))" "last (without_inner m ss) = last ss"
    "set (butlast (without_inner m ss)) \<subseteq> set (butlast ss)"
    by (simp_all add: without_inner_def)
  show "segments ss \<Longrightarrow> segments (without_inner m ss)"
    using assms by (auto simp: without_inner_def segments_def dest: in_set_butlastD)
  have "length (path_of (filter (\<lambda>s. s \<noteq> m) xs)) \<le> length (path_of xs)" for xs by (induction xs) auto
  then show "length (path_of (without_inner m ss)) \<le> length (path_of ss)"
    using path_of_snoc [OF assms] by (simp add: without_inner_def)
qed

lemma up_props:
  assumes "ss \<noteq> []"
  shows "up acc ss \<noteq> [] \<and> last (up acc ss) = last ss \<and> set (butlast (up acc ss)) \<subseteq> set acc \<union> set (butlast ss)
    \<and> (''..'' \<notin> set acc \<longrightarrow> ''..'' \<notin> set (butlast (up acc ss)))
    \<and> length (path_of (up acc ss)) \<le> length (path_of acc) + length (path_of ss)"
  using assms
proof (induction acc ss rule: up.induct)
  case (2 acc s)
  have "length (path_of (rev acc)) = length (path_of acc)" by (induction acc) simp_all
  then show ?case by simp
next
  case (3 acc s t ss)
  have "set (tl acc) \<subseteq> set acc" "length (path_of (tl acc)) \<le> length (path_of acc)" by (cases acc; auto)+
  then show ?case using 3 by (auto 0 3)
qed simp

lemma up_last_props:
  assumes "ss \<noteq> []"
  shows "up_last ss \<noteq> []" and "segments ss \<Longrightarrow> segments (up_last ss)" and "length (path_of (up_last ss)) \<le> length (path_of ss)"
    and "last (up_last ss) \<noteq> ''..''" and "set (butlast (up_last ss)) \<subseteq> set (butlast ss)"
proof -
  show "up_last ss \<noteq> []" "last (up_last ss) \<noteq> ''..''" by (auto simp: up_last_def assms)
  show "segments ss \<Longrightarrow> segments (up_last ss)" by (auto simp: up_last_def segments_butlast)
  show "set (butlast (up_last ss)) \<subseteq> set (butlast ss)" by (auto simp: up_last_def dest: in_set_butlastD)
  have "length (path_of (butlast (butlast ss))) \<le> length (path_of (butlast ss))"
    by (cases "butlast ss = []") (simp_all add: path_of_snoc [of "butlast ss"])
  then show "length (path_of (up_last ss)) \<le> length (path_of ss)" using path_of_snoc [OF assms] by (simp add: up_last_def)
qed

lemma set_last: "ts \<noteq> [] \<Longrightarrow> set ts = insert (last ts) (set (butlast ts))"
  by (cases ts rule: rev_cases) auto

lemma segments_subset: "segments ss \<Longrightarrow> ts \<noteq> [] \<Longrightarrow> set (butlast ts) \<subseteq> set ss \<Longrightarrow> last ts \<in> set ss \<Longrightarrow> segments ts"
  using set_last [of ts] by (auto simp: segments_def)

text \<open>A normalised list: no segment is empty or a dot, apart from an empty one at the end.\<close>

definition normal :: "string list \<Rightarrow> bool" where
  "normal ss \<longleftrightarrow> ss \<noteq> [] \<and> segments ss \<and> '''' \<notin> set (butlast ss) \<and> ''.'' \<notin> set ss \<and> ''..'' \<notin> set ss"

lemma normal_segs_normal:
  assumes "segments ss" and "ss \<noteq> []"
  shows "normal (normal_segs ss)" and "length (path_of (normal_segs ss)) \<le> length (path_of ss)"
    and "short_path ss \<Longrightarrow> normalizePath (path_of ss) = Some (Inr (path_of (normal_segs ss)))"
proof -
  define a where "a = without_inner '''' ss"
  define b where "b = up [] a"
  define c where "c = up_last b"
  define d where "d = without_inner ''.'' c"
  note a = without_inner_props [OF assms(2), of "''''", folded a_def] and b = up_props [OF a(1)[folded a_def], of "[]", folded b_def]
  have b': "b \<noteq> []" "last b = last a" "set (butlast b) \<subseteq> set (butlast a)" "''..'' \<notin> set (butlast b)" "length (path_of b) \<le> length (path_of a)"
    using b by simp_all
  have sb: "segments b"
    using b'(2,3) set_last [OF a(1)] by (intro segments_subset [OF a(2) [OF assms(1)] b'(1)]) auto
  note c = up_last_props [OF b'(1), folded c_def] and d = without_inner_props [OF c(1)[folded c_def], of "''.''", folded d_def]
  have n: "normal_segs ss = here_last d" by (simp add: normal_segs_def a_def b_def c_def d_def)
  have ne: "'''' \<notin> set (butlast d)" using a(4) b'(3) c(5) d(6) by blast
  have dd: "''..'' \<notin> set (butlast d)" "last d \<noteq> ''..''" using b'(4) c(4,5) d(5,6) by auto
  have sd: "segments d" using d(2) [OF c(2) [OF sb]] .
  note set_d = set_last [OF d(1)]
  show "normal (normal_segs ss)"
    using ne dd sd d(1,4) set_d segments_butlast [OF sd] by (auto simp: n normal_def here_last_def)
  have ld: "length (path_of d) \<le> length (path_of ss)" using a(3) b'(5) c(3) d(3) by linarith
  moreover have "length (path_of (here_last d)) \<le> length (path_of d)" using path_of_snoc [OF d(1)] by (simp add: here_last_def)
  ultimately show "length (path_of (normal_segs ss)) \<le> length (path_of ss)" by (simp add: n)
  assume sh: "short_path ss"
  have 1: "remove_double_slashes (path_of ss) = path_of a" by (simp add: a_def remove_double_slashes_path [OF assms sh])
  have 2: "remove_double_dots (path_of a) = Some (Inr (path_of b))"
    using remove_double_dots_path [of "[]" a] a(1-4) assms(1) sh by (simp add: b_def)
  have 3: "remove_last_double_dot (path_of b) = Inr (path_of c)"
    using remove_last_double_dot_path [OF sb b'(1)] b'(5) a(3) sh by (simp add: c_def)
  have 4: "remove_single_dots (path_of c) = path_of d"
    using remove_single_dots_path [OF c(2) [OF sb] c(1)] c(3) b'(5) a(3) sh by (simp add: d_def)
  show "normalizePath (path_of ss) = Some (Inr (path_of (normal_segs ss)))"
    by (simp add: normalizePath_def 1 2 3 4 n remove_last_dot_path [OF sd d(1)])
qed

lemma normal_segs_idem:
  assumes "normal ss"
  shows "normal_segs ss = ss"
proof -
  have n: "ss \<noteq> []" "segments ss" "'''' \<notin> set (butlast ss)" "''.'' \<notin> set ss" "''..'' \<notin> set ss" using assms by (simp_all add: normal_def)
  have "up acc ts = rev acc @ ts" if "''..'' \<notin> set ts" for acc ts
    using that by (induction acc ts rule: up.induct) auto
  then have "up [] ss = ss" using n by simp
  moreover have "''.'' \<notin> set (butlast ss)" using n(4) by (auto dest: in_set_butlastD)
  moreover have "last ss \<noteq> ''..''" "last ss \<noteq> ''.''" using n(4,5) last_in_set [OF n(1)] by auto
  ultimately show ?thesis using n by (simp add: normal_segs_def without_inner_none up_last_def here_last_def)
qed

text \<open>The usual reading of a path: one segment after the other, with the directories entered so far.\<close>

definition enter :: "string list \<Rightarrow> string \<Rightarrow> string list" where
  "enter acc s = (if s = ''..'' then tl acc else if s = '''' \<or> s = ''.'' then acc else s # acc)"

definition resolved :: "string list \<Rightarrow> string list" where
  "resolved ss = rev (foldl enter [] ss) @ (if last ss \<in> {'''', ''.'', ''..''} then [''''] else [])"

lemma up_enter:
  assumes "ss \<noteq> []" and "'''' \<notin> set (butlast ss)" and "''.'' \<notin> set ss"
  shows "up acc ss = rev (foldl enter acc (butlast ss)) @ [last ss]"
  using assms by (induction acc ss rule: up.induct) (auto simp: enter_def)

lemma enter_filter: "foldl enter acc (filter (\<lambda>s. s \<noteq> '''') ss) = foldl enter acc ss"
  by (induction ss arbitrary: acc) (auto simp: enter_def)

lemma entered: "set (foldl enter acc ys) \<subseteq> set acc \<union> set ys"
proof (induction ys arbitrary: acc)
  case (Cons y ys)
  have "set (enter acc y) \<subseteq> insert y (set acc)" by (cases acc) (auto simp: enter_def)
  then show ?case using Cons.IH [of "enter acc y"] by auto
qed simp

lemma normal_segs_resolved:
  assumes "ss \<noteq> []" and "''.'' \<notin> set ss"
  shows "normal_segs ss = resolved ss"
proof -
  obtain xs l where ss: "ss = xs @ [l]" using assms(1) by (cases ss rule: rev_cases) auto
  define a where "a = rev (foldl enter [] xs)"
  have w: "without_inner '''' ss = filter (\<lambda>s. s \<noteq> '''') xs @ [l]" by (simp add: without_inner_def ss)
  have up: "up [] (without_inner '''' ss) = a @ [l]"
    using up_enter [of "filter (\<lambda>s. s \<noteq> '''') xs @ [l]" "[]"] assms(2) enter_filter [of "[]" xs]
    unfolding w by (simp add: a_def ss)
  have na: "''.'' \<notin> set a" using entered [of "[]" xs] assms(2) by (auto simp: a_def ss)
  have dot: "''.'' \<notin> set (butlast (up_last (a @ [l])))" "last (up_last (a @ [l])) \<noteq> ''.''"
    using na assms(2) by (auto simp: up_last_def ss dest: in_set_butlastD)
  have n: "normal_segs ss = up_last (a @ [l])"
    using dot by (simp add: normal_segs_def up without_inner_none [OF up_last_props(1)] here_last_def)
  have "butlast a = rev (tl (foldl enter [] xs))" by (simp add: a_def butlast_rev)
  then show ?thesis using assms(2) unfolding n by (auto simp: up_last_def resolved_def ss enter_def a_def)
qed

text \<open>C30: For a path that begins with a slash \<open>normalizePath\<close> always returns; no directory of the result is empty, a dot or two dots,
  the result is not longer, normalising it again changes nothing, and a path without single dots is resolved like a file system does:
  two dots leave the directory entered last and are ignored at the root.\<close>

theorem normalizePath_correct:
  assumes "segments ss" and "ss \<noteq> []" and "length (path_of ss) < 18446744073709551600"
  shows "\<exists>r. normalizePath (path_of ss) = Some (Inr (path_of r)) \<and> normal r \<and> length (path_of r) \<le> length (path_of ss)
    \<and> normalizePath (path_of r) = Some (Inr (path_of r)) \<and> (''.'' \<notin> set ss \<longrightarrow> r = resolved ss)"
proof -
  note n = normal_segs_normal [OF assms(1,2)]
  have "normalizePath (path_of (normal_segs ss)) = Some (Inr (path_of (normal_segs ss)))"
    using normal_segs_normal(3) [of "normal_segs ss"] normal_segs_idem [OF n(1)] n(1,2) assms(3) by (simp add: normal_def)
  then show ?thesis using n assms(3) normal_segs_resolved [OF assms(2)] by blast
qed

theorem normalizePath_correct_witness:
  "\<exists>r. normalizePath ''/a//b/../c/..'' = Some (Inr (path_of r)) \<and> normal r \<and> length (path_of r) \<le> length ''/a//b/../c/..''
    \<and> normalizePath (path_of r) = Some (Inr (path_of r)) \<and> (True \<longrightarrow> r = resolved [''a'', '''', ''b'', ''..'', ''c'', ''..''])"
  using normalizePath_correct [of "[''a'', '''', ''b'', ''..'', ''c'', ''..'']"] by simp

section \<open>Where the code differs\<close>

text \<open>A path of a \<open>file\<close> URL need not begin with a slash. Then two dots after a directory with a name of one character make the
  loop run forever, and after a longer one \<open>std::string::replace\<close> throws.\<close>

lemma stuck_dots:
  assumes "str_find ''/../'' s 0 \<noteq> str_npos" and "one_dir_up (str_find ''/../'' s 0) s = Inr s"
  shows "remove_double_dots s = None"
proof (rule ccontr)
  assume "remove_double_dots s \<noteq> None"
  then obtain r where "remove_double_dots s = Some r" by blast
  moreover have "t \<noteq> s"
    if rec: "\<And>u r. loop u = Some r \<Longrightarrow> u \<noteq> s"
      and r: "(let d = str_find ''/../'' t 0 in if d = str_npos then Some (Inr t)
        else case one_dir_up d t of Inl e \<Rightarrow> Some (Inl e) | Inr s' \<Rightarrow> loop s') = Some r" for loop t r
  proof
    assume "t = s"
    then have "loop s = Some r" using r assms by (simp add: Let_def)
    then show False using rec by blast
  qed
  ultimately have "s \<noteq> s" by (rule remove_double_dots.raw_induct [where P = "\<lambda>t r. t \<noteq> s", rotated])
  then show False by simp
qed

lemma normalizePath_hangs: "normalizePath ''a/../b'' = None"
proof -
  have f: "str_find ''/../'' ''a/../b'' 0 = 1" "str_find ''//'' ''a/../b'' 0 = str_npos" by (simp_all add: str_find_def)
  have "one_dir_up (Suc 0) ''a/../b'' = Inr ''a/../b''"
  proof -
    have "min (size_minus (Suc 0) 2) (Suc (Suc (Suc (Suc (Suc 0))))) = Suc (Suc (Suc (Suc (Suc 0))))" by (simp add: size_minus_def)
    then have r: "str_rfind ''/'' ''a/../b'' (size_minus (Suc 0) 2) = Suc (Suc (Suc (Suc 0)))" by (simp add: str_rfind_def)
    have "size_plus (size_minus (Suc 0) (Suc (Suc (Suc (Suc 0))))) 3 = 0" by (simp add: size_plus_def size_minus_def)
    then show ?thesis by (simp add: one_dir_up_def Let_def r str_replace_def)
  qed
  then have "remove_double_dots ''a/../b'' = None" using f by (intro stuck_dots) (simp_all add: str_npos_def)
  moreover have "remove_double_slashes ''a/../b'' = ''a/../b''" using f by (subst remove_double_slashes.simps) simp
  ultimately show ?thesis by (simp add: normalizePath_def)
qed

lemma normalizePath_throws: "normalizePath ''ab/../c'' = Some (Inl OutOfBounds)"
proof -
  have f: "str_find ''/../'' ''ab/../c'' 0 = 2" "str_find ''//'' ''ab/../c'' 0 = str_npos" by (simp_all add: str_find_def)
  have "str_rfind ''/'' ''ab/../c'' 0 = str_npos" by (simp add: str_rfind_def)
  then have "one_dir_up 2 ''ab/../c'' = Inl OutOfBounds" by (simp add: one_dir_up_def Let_def str_replace_def str_npos_def)
  then have "remove_double_dots ''ab/../c'' = Some (Inl OutOfBounds)"
    using f by (subst remove_double_dots.simps) (simp add: str_npos_def)
  moreover have "remove_double_slashes ''ab/../c'' = ''ab/../c''" using f by (subst remove_double_slashes.simps) simp
  ultimately show ?thesis by (simp add: normalizePath_def)
qed

text \<open>Two dots are resolved before single ones, so they can cancel a single dot instead of a directory.\<close>

lemma single_dot_cancelled:
  "normalizePath ''/a/./../b'' = Some (Inr ''/a/b'') \<and> resolved [''a'', ''.'', ''..'', ''b''] = [''b'']"
proof -
  have "normal_segs [''a'', ''.'', ''..'', ''b''] = [''a'', ''b'']"
    by (simp add: normal_segs_def without_inner_def up_last_def here_last_def)
  then show ?thesis
    using normal_segs_normal(3) [of "[''a'', ''.'', ''..'', ''b'']"] by (simp add: resolved_def enter_def)
qed

end
