(* ===== verification/UriCodec.thy ===== *)
theory UriCodec
  imports Utf8Order
begin

unbundle bit_operations_syntax

text \<open>
  The percent encodings of \<open>URLInfo\<close> (\<open>backends/urlutils.cpp\<close>). Strings are lists of code points, as the iterators of
  \<open>tiny_string\<close> deliver them, and lists of bytes for \<open>std::string\<close>. A result says whether an \<open>URIError\<close> was
  raised on the way; the code goes on after it. A fault stands for a read past the end of a buffer.
\<close>

type_synonym uri_result = "(bool \<times> u32 list) res"

section \<open>Encoding\<close>

definition ascii :: "string \<Rightarrow> u32 list" where "ascii s = map of_char s"

definition uriReservedAndHash :: "u32 list" where "uriReservedAndHash = ascii '';/?:@&=+$,#''"

definition uriUnescaped :: "u32 list" where
  "uriUnescaped = ascii ''abcdefghijklmnopqrstuvwxyzABCDEFGHIJKLMNOPQRSTUVWXYZ0123456789-_.!~*'()''"

definition uriReservedAndUnescapedAndHash :: "u32 list" where
  "uriReservedAndUnescapedAndHash = uriUnescaped @ uriReservedAndHash"

definition hex_digit :: "u32 \<Rightarrow> u32" where "hex_digit n = (if n < 10 then n + 48 else n + 55)"

definition encodeOctet :: "u8 \<Rightarrow> u32 list" where
  "encodeOctet b = [37, hex_digit (ucast (drop_bit 4 b)), hex_digit (ucast (b AND 15))]"

definition encodeSingleChar :: "u32 \<Rightarrow> u32 list" where
  "encodeSingleChar c = concat (map encodeOctet (snd (unicodeToUTF8 c)))"

text \<open>A pair of surrogates. After a first one at the end of the string the caller steps past the end.\<close>

fun encodeURI :: "u32 list \<Rightarrow> u32 list \<Rightarrow> uri_result" where
  "encodeURI plain [] = Inr (False, [])"
| "encodeURI plain (c # cs) =
     (if c \<in> set plain then map_sum id (apsnd (\<lambda>r. c # r)) (encodeURI plain cs)
      else if 0xD800 \<le> c \<and> c \<le> 0xDFFF then
        if c \<ge> 0xDC00 then map_sum id (\<lambda>(e, r). (True, r)) (encodeURI plain cs)
        else (case cs of
            [] \<Rightarrow> Inl OutOfBounds
          | d # ds \<Rightarrow>
              if d < 0xDC00 \<or> d > 0xDFFF then map_sum id (\<lambda>(e, r). (True, r)) (encodeURI plain ds)
              else map_sum id (apsnd (\<lambda>r. encodeSingleChar ((c - 0xD800) * 0x400 + (d - 0xDC00) + 0x10000) @ r)) (encodeURI plain ds))
      else map_sum id (apsnd (\<lambda>r. encodeSingleChar c @ r)) (encodeURI plain cs))"

datatype encoding = ENCODE_SPACES | ENCODE_FORM | ENCODE_URI | ENCODE_URICOMPONENT | ENCODE_ESCAPE

text \<open>\<open>%X\<close> with at least \<open>n\<close> digits.\<close>

fun hex_of :: "nat \<Rightarrow> nat \<Rightarrow> u32 list" where
  "hex_of 0 m = (if m = 0 then [] else hex_of 0 (m div 16) @ [hex_digit (of_nat (m mod 16))])"
| "hex_of (Suc n) m = hex_of n (m div 16) @ [hex_digit (of_nat (m mod 16))]"

definition alphanumeric :: "u32 \<Rightarrow> bool" where
  "alphanumeric c \<longleftrightarrow> (0x41 \<le> c \<and> c \<le> 0x5a) \<or> (0x61 \<le> c \<and> c \<le> 0x7a) \<or> (0x30 \<le> c \<and> c \<le> 0x39)"

definition encode_char :: "encoding \<Rightarrow> u32 \<Rightarrow> u32 list" where
  "encode_char ty c =
     (if ty = ENCODE_SPACES then if c = 32 then ascii ''%20'' else [c]
      else if alphanumeric c then [c]
      else if ty = ENCODE_FORM \<and> c \<in> set (ascii ''-_.~'') then [c]
      else if ty = ENCODE_FORM \<and> c = 32 then ascii ''+''
      else if ty = ENCODE_ESCAPE \<and> c \<in> set (ascii ''@-_.*+/'') then [c]
      else if c < 256 then 37 # hex_of 2 (unat c) else 37 # 117 # hex_of 4 (unat c))"

definition url_encode :: "encoding \<Rightarrow> u32 list \<Rightarrow> uri_result" where
  "url_encode ty cs = (case ty of
       ENCODE_URI \<Rightarrow> encodeURI uriReservedAndUnescapedAndHash cs
     | ENCODE_URICOMPONENT \<Rightarrow> encodeURI uriUnescaped cs
     | _ \<Rightarrow> Inr (False, concat (map (encode_char ty) cs)))"

section \<open>Decoding\<close>

text \<open>The functions return whether an error was raised, a value and the rest of the string.\<close>

definition decodeHexDigit :: "u32 list \<Rightarrow> bool \<times> u32 \<times> u32 list" where
  "decodeHexDigit cs = (case cs of
       [] \<Rightarrow> (True, 0, [])
     | c # r \<Rightarrow> if c < 0x80 \<and> isxdigit_byte (ucast c) then (False, word_of_int (hex_value (ucast c)), r) else (True, 0, cs))"

definition decodeSingleEscapeSequence :: "u32 list \<Rightarrow> bool \<times> u32 \<times> u32 list" where
  "decodeSingleEscapeSequence cs = (case cs of
       [] \<Rightarrow> (True, 0, [])
     | c # r \<Rightarrow>
         if c \<noteq> 37 then (True, 0, cs)
         else case decodeHexDigit r of (e1, h1, r) \<Rightarrow> case decodeHexDigit r of (e2, h2, r) \<Rightarrow> (e1 \<or> e2, push_bit 4 h1 + h2, r))"

fun leading_ones :: "nat \<Rightarrow> u32 \<Rightarrow> nat" where
  "leading_ones 0 w = 0"
| "leading_ones (Suc k) w = (if bit w k then Suc (leading_ones k w) else 0)"

definition isSurrogateUTF8Sequence :: "u8 list \<Rightarrow> bool" where
  "isSurrogateUTF8Sequence os \<longleftrightarrow> length os = 3 \<and> os ! 0 = 0xED \<and> 0xA0 \<le> os ! 1 \<and> os ! 1 \<le> 0xBF"

fun decode_octets :: "nat \<Rightarrow> u32 list \<Rightarrow> bool \<times> u8 list \<times> u32 list" where
  "decode_octets 0 cs = (False, [], cs)"
| "decode_octets (Suc n) cs = (case decodeSingleEscapeSequence cs of (e, v, r) \<Rightarrow>
     case decode_octets n r of (e', os, r) \<Rightarrow> (e \<or> e', ucast v # os, r))"

text \<open>The check of all characters up to the first zero byte, on the octets and the zero after them.\<close>

definition octets_valid :: "u8 list \<Rightarrow> bool res" where
  "octets_valid os = map_sum id (\<lambda>r. case r of Return b \<Rightarrow> b | Continue _ \<Rightarrow> True)
     (char_loop (os @ [0]) (length (takeWhile (\<lambda>b. b \<noteq> 0) os))
       (\<lambda>p s. bindE (isValidUTF8 (os @ [0]) p) (\<lambda>b. Inr (if b then Continue s else Return False))) 0 ())"

definition decodeRestOfUTF8Sequence :: "u32 \<Rightarrow> u32 list \<Rightarrow> (bool \<times> u32 \<times> u32 list) res" where
  "decodeRestOfUTF8Sequence firstOctet cs =
     (let n = leading_ones 8 firstOctet in
      if n \<le> 1 \<or> n > 4 then Inr (True, 0, cs)
      else case decode_octets (n - 1) cs of (e, os, r) \<Rightarrow>
        let os = ucast firstOctet # os in
        if isSurrogateUTF8Sequence os then Inr (e, 0xFFFD, r)
        else bindE (octets_valid os) (\<lambda>ok.
          if \<not> ok then Inr (True, 0, r) else bindE (getChar (os @ [0]) 0) (\<lambda>c. Inr (e, c, r))))"

definition decodeSingleChar :: "u32 list \<Rightarrow> (bool \<times> u32 \<times> u32 list) res" where
  "decodeSingleChar cs = (case decodeSingleEscapeSequence cs of (e, v, r) \<Rightarrow>
     if v AND 0x80 \<noteq> 0 then map_sum id (\<lambda>(e', c, r). (e \<or> e', c, r)) (decodeRestOfUTF8Sequence v r) else Inr (e, v, r))"

lemma decodeHexDigit_rest: "decodeHexDigit cs = (e, v, r) \<Longrightarrow> length r \<le> length cs"
  by (auto simp: decodeHexDigit_def split: list.splits if_splits)

lemma decodeSingleEscapeSequence_rest:
  "decodeSingleEscapeSequence cs = (e, v, r) \<Longrightarrow> length r \<le> length cs"
  "decodeSingleEscapeSequence (37 # cs) = (e, v, r) \<Longrightarrow> length r \<le> length cs"
  by (force simp: decodeSingleEscapeSequence_def split: list.splits if_splits prod.splits dest!: decodeHexDigit_rest)+

lemma decode_octets_rest: "decode_octets n cs = (e, os, r) \<Longrightarrow> length r \<le> length cs"
  by (induction n arbitrary: cs e os r) (force split: prod.splits dest: decodeSingleEscapeSequence_rest)+

lemma decodeRest_rest: "decodeRestOfUTF8Sequence v cs = Inr (e, c, r) \<Longrightarrow> length r \<le> length cs"
  by (auto simp: decodeRestOfUTF8Sequence_def Let_def bindE_def split: if_splits prod.splits sum.splits dest: decode_octets_rest)

lemma decodeSingleChar_rest: "decodeSingleChar (37 # cs) = Inr (e, c, r) \<Longrightarrow> length r \<le> length cs"
proof -
  assume a: "decodeSingleChar (37 # cs) = Inr (e, c, r)"
  obtain e1 v r1 where s: "decodeSingleEscapeSequence (37 # cs) = (e1, v, r1)" using prod_cases3 by blast
  have l: "length r1 \<le> length cs" using decodeSingleEscapeSequence_rest(2) [OF s] .
  show ?thesis
  proof (cases "v AND 0x80 = 0")
    case False
    then obtain q where "decodeRestOfUTF8Sequence v r1 = Inr q" "(e, c, r) = (case q of (e', c, r) \<Rightarrow> (e1 \<or> e', c, r))"
      using a s by (cases "decodeRestOfUTF8Sequence v r1") (auto simp: decodeSingleChar_def)
    then show ?thesis using decodeRest_rest [of v r1] l by (cases q) fastforce
  qed (use a s l in \<open>simp add: decodeSingleChar_def\<close>)
qed

function decodeURI :: "u32 list \<Rightarrow> u32 list \<Rightarrow> uri_result" where
  "decodeURI reserved [] = Inr (False, [])"
| "decodeURI reserved (c # cs) =
     (if c = 37 then
        (case decodeSingleChar (37 # cs) of
           Inl x \<Rightarrow> Inl x
         | Inr (e, v, r) \<Rightarrow>
             map_sum id (\<lambda>(e', s). (e \<or> e', (if v \<in> set reserved then take (length cs + 1 - length r) (c # cs) else [v]) @ s))
               (decodeURI reserved r))
      else map_sum id (apsnd (\<lambda>s. c # s)) (decodeURI reserved cs))"
  by pat_completeness auto
termination
  by (relation "measure (\<lambda>(reserved, cs). length cs)") (auto dest!: decodeSingleChar_rest)

text \<open>The other encodings, on bytes.\<close>

definition byte_upper :: "u8 \<Rightarrow> u8" where "byte_upper b = (if 97 \<le> b \<and> b \<le> 122 then b - 32 else b)"

definition hex_bytes :: "u8 list \<Rightarrow> u32" where "hex_bytes bs = foldl (\<lambda>n b. n * 16 + word_of_int (hex_value b)) 0 bs"

function decode_plain :: "encoding \<Rightarrow> u8 list \<Rightarrow> u8 list" where
  "decode_plain ty [] = []"
| "decode_plain ty (b # bs) =
     (if length bs < 2 \<or> b \<noteq> 37 then b # decode_plain ty bs
      else if ty = ENCODE_SPACES \<and> map byte_upper (b # take 2 bs) = [37, 50, 48] then 32 # decode_plain ty bs
      else if ty = ENCODE_SPACES then map byte_upper (b # take 2 bs) @ decode_plain ty (drop 2 bs)
      else if bs ! 0 = 117 \<and> length bs \<ge> 5 \<and> list_all isxdigit_byte (take 4 (drop 1 bs))
        then utf8_enc (hex_bytes (take 4 (drop 1 bs))) @ decode_plain ty (drop 5 bs)
      else if isxdigit_byte (bs ! 0) \<and> isxdigit_byte (bs ! 1) then utf8_enc (hex_bytes (take 2 bs)) @ decode_plain ty (drop 2 bs)
      else b # decode_plain ty bs)"
  by pat_completeness auto
termination
  by (relation "measure (\<lambda>(ty, bs). length bs)") auto

section \<open>The round trip\<close>

lemma nibble_digit:
  fixes n :: u32
  assumes "n < 16"
  shows "hex_digit n < 0x80 \<and> isxdigit_byte (ucast (hex_digit n)) \<and> word_of_int (hex_value (ucast (hex_digit n))) = n"
proof -
  have "unat n < 16" using assms by (simp add: word_less_nat_alt)
  then have "unat n \<in> {0..15}" by simp
  then have "of_nat (unat n) \<in> (of_nat ` {0..15} :: u32 set)" by (rule imageI)
  then have "n \<in> of_nat ` {0..15}" by simp
  moreover have "{0..15} = {0,1,2,3,4,5,6,7,8,9,10,11,12,13,14,15::nat}" by (auto, arith)
  ultimately have "n \<in> {0,1,2,3,4,5,6,7,8,9,10,11,12,13,14,15}" by auto
  then show ?thesis
    by (elim insertE emptyE) (simp_all add: hex_digit_def isxdigit_byte_def isdigit_byte_def hex_value_def digit_value_def)
qed

lemma nibbles:
  fixes b :: u8
  shows "(ucast (drop_bit 4 b) :: u32) < 16" and "(ucast (b AND 15) :: u32) < 16"
    and "push_bit 4 (ucast (drop_bit 4 b)) + ucast (b AND 15) = (ucast b :: u32)"
proof -
  have b: "unat b < 256" using unsigned_less [of b, where 'a = nat] by simp
  have d: "unat (drop_bit 4 b) = unat b div 16" by (simp add: drop_bit_eq_div unat_div)
  have "b AND 15 = take_bit 4 b" by (simp add: take_bit_eq_mask mask_eq_exp_minus_1)
  then have m: "unat (b AND 15) = unat b mod 16" by (simp add: take_bit_eq_mod unat_mod)
  have u: "(ucast (drop_bit 4 b) :: u32) = of_nat (unat b div 16)" "(ucast (b AND 15) :: u32) = of_nat (unat b mod 16)"
    by (simp_all flip: d m)
  show "(ucast (drop_bit 4 b) :: u32) < 16" "(ucast (b AND 15) :: u32) < 16"
    unfolding u using b by (simp_all add: word_less_nat_alt unsigned_of_nat take_bit_eq_mod)
  have "push_bit 4 (of_nat (unat b div 16)) + of_nat (unat b mod 16) = (of_nat (unat b div 16 * 16 + unat b mod 16) :: u32)"
    by (simp only: push_bit_eq_mult of_nat_add of_nat_mult) simp
  also have "\<dots> = of_nat (unat b)" by (simp only: div_mult_mod_eq)
  also have "\<dots> = ucast b" by simp
  finally show "push_bit 4 (ucast (drop_bit 4 b)) + ucast (b AND 15) = (ucast b :: u32)" by (simp only: u)
qed

lemma decode_octet: "decodeSingleEscapeSequence (encodeOctet b @ r) = (False, ucast b, r)"
  using nibble_digit [OF nibbles(1) [of b]] nibble_digit [OF nibbles(2) [of b]] nibbles(3) [of b]
  by (simp add: encodeOctet_def decodeSingleEscapeSequence_def decodeHexDigit_def)

lemma byte_back: "ucast (ucast (b :: u8) :: u32) = b"
  by (rule bit_word_eqI) (simp add: bit_simps)

lemma decode_octets_encoded:
  "decode_octets (length bs) (concat (map encodeOctet bs) @ r) = (False, bs, r)"
  by (induction bs) (simp_all add: decode_octet byte_back)

lemma and_80: "(w :: u32) AND 0x80 = 0 \<longleftrightarrow> \<not> bit w 7"
  using and_exp_eq_0_iff_not_bit [of w 7] by simp

lemma octet_bit_7:
  fixes c :: u32
  shows "c < 0x80 \<Longrightarrow> ucast (ucast (c AND 0xff) :: u8) = c" and "c < 0x80 \<Longrightarrow> \<not> bit c 7"
    and "bit (ucast (ucast (c OR 0xc0) :: u8) :: u32) 7" and "bit (ucast (ucast (c OR 0xe0) :: u8) :: u32) 7"
    and "bit (ucast (ucast (c OR 0xf0) :: u8) :: u32) 7"
proof -
  show "bit (ucast (ucast (c OR 0xc0) :: u8) :: u32) 7" "bit (ucast (ucast (c OR 0xe0) :: u8) :: u32) 7"
    "bit (ucast (ucast (c OR 0xf0) :: u8) :: u32) 7"
    by (simp_all add: bit_simps bit_lead_consts)
  assume c: "c < 0x80"
  then show "\<not> bit c 7" using not_bit_small [of c 7] by simp
  show "ucast (ucast (c AND 0xff) :: u8) = c"
  proof (rule bit_word_eqI)
    fix k assume "k < LENGTH(32)"
    show "bit (ucast (ucast (c AND 0xff) :: u8) :: u32) k = bit c k"
      using not_bit_small [of c 7] c unfolding mask_consts by (cases "k < 7") (auto simp: bit_simps)
  qed
qed

text \<open>The first octet tells how many there are.\<close>

lemma leading_ones_lead:
  fixes c :: u32
  shows "c < 0x800 \<Longrightarrow> leading_ones 8 (ucast (ucast (drop_bit 6 c OR 0xc0) :: u8)) = 2"
    and "c < 0x10000 \<Longrightarrow> leading_ones 8 (ucast (ucast (drop_bit 12 c OR 0xe0) :: u8)) = 3"
    and "c < 0x200000 \<Longrightarrow> leading_ones 8 (ucast (ucast (drop_bit 18 c OR 0xf0) :: u8)) = 4"
  using not_bit_small [of c 11] not_bit_small [of c 16] not_bit_small [of c 21]
  by (auto simp: eval_nat_numeral bit_simps bit_lead_consts)

lemma multi_octet:
  assumes "valid_cp c" and "\<not> c < 0x80"
  shows "\<exists>b bs. utf8_enc c = b # bs \<and> bit (ucast b :: u32) 7 \<and> leading_ones 8 (ucast b) = length bs + 1
    \<and> length bs \<in> {1, 2, 3} \<and> (\<forall>x\<in>set (b # bs). x \<noteq> 0)"
proof -
  have nz: "x \<noteq> 0" if "bit (ucast x :: u32) 7" for x :: u8 using that by auto
  have cont: "bit (ucast (ucast (y OR 0x80 :: u32) :: u8) :: u32) 7" for y by (simp add: bit_simps bit_lead_consts)
  consider "c < 0x800" | "\<not> c < 0x800" "c < 0x10000" | "\<not> c < 0x800" "\<not> c < 0x10000" "c < 0x200000"
    using assms by (auto simp: valid_cp_def)
  then show ?thesis
    by cases (use assms(2) leading_ones_lead(1) [of c] leading_ones_lead(2) [of c] leading_ones_lead(3) [of c] nz [OF cont]
        nz [OF octet_bit_7(3)] nz [OF octet_bit_7(4)] nz [OF octet_bit_7(5)] octet_bit_7(3-5)
        in \<open>simp_all only: utf8_enc_def if_True if_False, simp_all\<close>)
qed

lemma not_surrogate_octets:
  assumes "\<not> (0xD800 \<le> c \<and> c \<le> 0xDFFF)" and "valid_cp c"
  shows "\<not> isSurrogateUTF8Sequence (utf8_enc c)"
proof
  assume s: "isSurrogateUTF8Sequence (utf8_enc c)"
  have r: "\<not> c < 0x80" "\<not> c < 0x800" "c < 0x10000"
    using s by (auto simp: isSurrogateUTF8Sequence_def utf8_enc_def split: if_splits)
  then have e: "utf8_enc c = [ucast (drop_bit 12 c OR 0xe0), ucast ((drop_bit 6 c AND 0x3f) OR 0x80), ucast ((c AND 0x3f) OR 0x80)]"
    by (simp add: utf8_enc_def)
  have "unat (ucast (drop_bit 12 c OR 0xe0) :: u8) = 237" using s e by (simp add: isSurrogateUTF8Sequence_def)
  then have "unat c div 4096 = 13" using unat_leads(2) [OF r(3)] by simp
  moreover have "unat (ucast ((drop_bit 6 c AND 0x3f) OR 0x80) :: u8) \<ge> 160" "unat (ucast ((drop_bit 6 c AND 0x3f) OR 0x80) :: u8) \<le> 191"
    using s e by (simp_all add: isSurrogateUTF8Sequence_def word_le_nat_alt)
  then have m: "unat c div 64 mod 64 \<ge> 32" using unat_cont [of "drop_bit 6 c"] by (simp add: unat_drop)
  moreover have "unat c div 64 div 64 = unat c div 4096" by (simp add: div_mult2_eq [symmetric])
  moreover have "unat c = 64 * (unat c div 64) + unat c mod 64" "unat c div 64 = 64 * (unat c div 64 div 64) + unat c div 64 mod 64"
    "unat c mod 64 < 64" "unat c div 64 mod 64 < 64" by simp_all
  ultimately have "unat c \<ge> 55296" "unat c \<le> 57343" by linarith+
  then show False using assms(1) by (simp add: word_le_nat_alt)
qed

lemma octets_valid_encoded:
  assumes "valid_cp c" and "\<forall>x\<in>set (utf8_enc c). x \<noteq> 0"
  shows "octets_valid (utf8_enc c) = Inr True"
proof -
  have tw: "takeWhile (\<lambda>b. b \<noteq> 0) (utf8_enc c) = utf8_enc c" using assms(2) by (simp add: takeWhile_eq_all_conv)
  have "getChar (utf8_enc c @ [0]) 0 = Inr c" using getChar_utf8_enc [OF assms(1), of "[]" "[0]"] by simp
  moreover have "c \<noteq> - 1" using assms(1) by (auto simp: valid_cp_def)
  ultimately show ?thesis
    unfolding octets_valid_def tw by (simp add: isValidUTF8_def char_loop_valid [of "[c]" "[]" "[0]", simplified] assms(1))
qed

lemma decode_encoded_char:
  assumes "valid_cp c" and "\<not> (0xD800 \<le> c \<and> c \<le> 0xDFFF)"
  shows "decodeSingleChar (encodeSingleChar c @ r) = Inr (False, c, r)"
proof (cases "c < 0x80")
  case True
  then show ?thesis
    using octet_bit_7(1,2) [OF True] by (simp add: encodeSingleChar_def unicodeToUTF8_def utf8_enc_ascii decodeSingleChar_def decode_octet and_80)
next
  case False
  obtain b bs where b: "utf8_enc c = b # bs" "bit (ucast b :: u32) 7" "leading_ones 8 (ucast b) = length bs + 1"
    "length bs \<in> {1, 2, 3}" "\<forall>x\<in>set (b # bs). x \<noteq> 0"
    using multi_octet [OF assms(1) False] by (elim exE conjE) (rule that)
  have "getChar (b # bs @ [0]) 0 = Inr c" using getChar_utf8_enc [OF assms(1), of "[]" "[0]"] b(1) by simp
  moreover have "octets_valid (b # bs) = Inr True" using octets_valid_encoded [OF assms(1)] b(1,5) by simp
  moreover have "\<not> isSurrogateUTF8Sequence (b # bs)" using not_surrogate_octets [OF assms(2,1)] b(1) by simp
  ultimately have "decodeRestOfUTF8Sequence (ucast b) (concat (map encodeOctet bs) @ r) = Inr (False, c, r)"
    using b(3,4) by (auto simp: decodeRestOfUTF8Sequence_def decode_octets_encoded byte_back)
  moreover have "(ucast b :: u32) AND 0x80 \<noteq> 0" using b(2) by (simp add: and_80)
  ultimately show ?thesis
    by (simp add: encodeSingleChar_def unicodeToUTF8_def b(1) decodeSingleChar_def decode_octet)
qed

lemma encoded_starts: "\<exists>s. encodeSingleChar c @ r = 37 # s"
  using length_utf8_enc [of c] by (cases "utf8_enc c") (auto simp: encodeSingleChar_def unicodeToUTF8_def encodeOctet_def)

lemma decode_encoded:
  assumes "\<forall>c\<in>set cs. valid_cp c \<and> \<not> (0xD800 \<le> c \<and> c \<le> 0xDFFF)" and "37 \<notin> set plain" and "set reserved \<subseteq> set plain"
  shows "\<exists>s. encodeURI plain cs = Inr (False, s) \<and> decodeURI reserved s = Inr (False, cs)"
  using assms(1)
proof (induction cs)
  case (Cons c cs)
  then obtain s where s: "encodeURI plain cs = Inr (False, s)" "decodeURI reserved s = Inr (False, cs)" by auto
  show ?case
  proof (cases "c \<in> set plain")
    case True
    then have "c \<noteq> 37" using assms(2) by auto
    then show ?thesis using s True by simp
  next
    case False
    have c: "valid_cp c" "\<not> (0xD800 \<le> c \<and> c \<le> 0xDFFF)" using Cons.prems by simp_all
    obtain t where t: "encodeSingleChar c @ s = 37 # t" using encoded_starts by blast
    have "c \<notin> set reserved" using False assms(3) by auto
    then have "decodeURI reserved (encodeSingleChar c @ s) = Inr (False, c # cs)"
      using decode_encoded_char [OF c, of s] s(2) unfolding t by simp
    then show ?thesis using s(1) False c(2) by (auto simp del: de_Morgan_conj)
  qed
qed simp

text \<open>C31: Encoding a string of characters that are no surrogates raises no error, and decoding the result gives the string back: for
  \<open>encodeURIComponent\<close> with \<open>decodeURIComponent\<close> and for \<open>encodeURI\<close> with \<open>decodeURI\<close>.\<close>

theorem uri_roundtrip:
  assumes "\<forall>c\<in>set cs. valid_cp c \<and> \<not> (0xD800 \<le> c \<and> c \<le> 0xDFFF)"
  shows "\<exists>s t. url_encode ENCODE_URICOMPONENT cs = Inr (False, s) \<and> decodeURI [] s = Inr (False, cs)
    \<and> url_encode ENCODE_URI cs = Inr (False, t) \<and> decodeURI uriReservedAndHash t = Inr (False, cs)"
proof -
  have "37 \<notin> set uriUnescaped" "37 \<notin> set uriReservedAndUnescapedAndHash" "set uriReservedAndHash \<subseteq> set uriReservedAndUnescapedAndHash"
    by (simp_all add: uriReservedAndUnescapedAndHash_def uriUnescaped_def uriReservedAndHash_def ascii_def)
  then show ?thesis
    using decode_encoded [OF assms, of uriUnescaped "[]"] decode_encoded [OF assms, of uriReservedAndUnescapedAndHash uriReservedAndHash]
    by (auto simp: url_encode_def)
qed

theorem uri_roundtrip_witness:
  "\<exists>s t. url_encode ENCODE_URICOMPONENT [97, 47, 0x20AC, 0x1F600] = Inr (False, s) \<and> decodeURI [] s = Inr (False, [97, 47, 0x20AC, 0x1F600])
    \<and> url_encode ENCODE_URI [97, 47, 0x20AC, 0x1F600] = Inr (False, t) \<and> decodeURI uriReservedAndHash t = Inr (False, [97, 47, 0x20AC, 0x1F600])"
  by (rule uri_roundtrip) (simp add: valid_cp_def)

section \<open>Where the code differs\<close>

text \<open>The first half of a surrogate pair at the end of a string makes \<open>encodeURI\<close> read past the end.\<close>

lemma encode_half_pair: "encodeURI plain [0xD83D] = Inl OutOfBounds \<or> 0xD83D \<in> set plain"
  by simp

text \<open>Octets that are no UTF-8 are accepted: \<open>%C3(\<close> is refused but \<open>%C3%28\<close> is decoded to a character.\<close>

lemma decode_malformed: "decodeURI [] (ascii ''%C3%28'') = Inr (False, [0xE8])"
  by code_simp

text \<open>Decoding of \<open>%20\<close> with \<open>ENCODE_SPACES\<close> keeps the digits.\<close>

lemma decode_space: "decode_plain ENCODE_SPACES [37, 50, 48] = [32, 50, 48]"
  by (simp add: byte_upper_def)

text \<open>\<open>escape\<close> writes five digits for a character above 65535, and \<open>unescape\<close> reads four.\<close>

lemma hex_of_4: "hex_of 4 m = hex_of (Suc (Suc (Suc (Suc 0)))) m"
  by (rule arg_cong [where f = "\<lambda>n. hex_of n m"]) simp

lemma escape_big:
  "url_encode ENCODE_ESCAPE [0x1F600] = Inr (False, ascii ''%u1F600'') \<and>
   decode_plain ENCODE_ESCAPE [37, 117, 49, 70, 54, 48, 48] = utf8_enc 0x1F60 @ [48]"
proof
  show "url_encode ENCODE_ESCAPE [0x1F600] = Inr (False, ascii ''%u1F600'')"
    by (simp add: url_encode_def encode_char_def alphanumeric_def ascii_def hex_of_4 hex_digit_def)
  show "decode_plain ENCODE_ESCAPE [37, 117, 49, 70, 54, 48, 48] = utf8_enc 0x1F60 @ [48]"
    by code_simp
qed

end
