(* ===== verification/UrlInfo.thy ===== *)
theory UrlInfo
  imports UrlPath UriCodec
begin

text \<open>
  The class \<open>URLInfo\<close> of \<open>backends/urlutils.cpp\<close>: taking a URL apart, printing it, going to another one from it
  and the comparisons that the security checks use. Strings are lists of bytes, written as characters, without a
  zero byte: the code reads some of them as C strings (\<open>raw_buf\<close>), which end at the first zero byte, and for strings
  that contain one the definitions here are not faithful.
\<close>

section \<open>The code\<close>

datatype invalid_reason = IS_EMPTY | MISSING_PROTOCOL | MISSING_PATH | MISSING_HOSTNAME | INVALID_PORT

text \<open>A reason that the constructor did not write is \<open>None\<close>.\<close>

record url_info =
  url :: string
  parsedURL :: string
  protocol :: string
  hostname :: string
  upath :: string
  pathDirectory :: string
  pathFile :: string
  query :: string
  fragment :: string
  stream :: string
  invalidReason :: "invalid_reason option"
  port :: nat
  valid :: bool

definition empty_url :: url_info where
  "empty_url = \<lparr>url = [], parsedURL = [], protocol = [], hostname = [], upath = [], pathDirectory = [], pathFile = [],
     query = [], fragment = [], stream = [], invalidReason = None, port = 0, valid = False\<rparr>"

definition default_url :: url_info where "default_url = empty_url\<lparr>invalidReason := Some IS_EMPTY\<rparr>"

definition isEmpty :: "url_info \<Rightarrow> bool res" where
  "isEmpty i = (if valid i then Inr False else case invalidReason i of None \<Rightarrow> Inl NullDeref | Some r \<Rightarrow> Inr (r = IS_EMPTY))"

text \<open>\<open>>>\<close> of a stream into a \<open>uint16_t\<close>: success and the value.\<close>

definition is_digit :: "char \<Rightarrow> bool" where "is_digit c \<longleftrightarrow> 48 \<le> (of_char c :: nat) \<and> (of_char c :: nat) \<le> 57"

definition is_blank :: "char \<Rightarrow> bool" where "is_blank c \<longleftrightarrow> of_char c \<in> {32, 9, 10, 11, 12, 13 :: nat}"

definition digits_value :: "string \<Rightarrow> nat" where "digits_value s = foldl (\<lambda>n c. n * 10 + (of_char c - 48)) 0 s"

definition read_u16 :: "string \<Rightarrow> bool \<times> nat" where
  "read_u16 s =
     (let s = dropWhile is_blank s;
          neg = (s \<noteq> [] \<and> hd s = CHR ''-'');
          ds = takeWhile is_digit (if s \<noteq> [] \<and> hd s \<in> {CHR ''-'', CHR ''+''} then tl s else s);
          v = digits_value ds
      in if ds = [] then (False, 0)
         else if v > 65535 then (False, 65535)
         else (True, if neg then (65536 - v) mod 65536 else v))"

fun decimal :: "nat \<Rightarrow> string" where
  "decimal n = (if n < 10 then [char_of (48 + n)] else decimal (n div 10) @ [char_of (48 + n mod 10)])"

declare decimal.simps [simp del]

definition encode_spaces :: "string \<Rightarrow> string" where
  "encode_spaces s = concat (map (\<lambda>c. if c = CHR '' '' then ''%20'' else [c]) s)"

definition bytes_of :: "string \<Rightarrow> u8 list" where "bytes_of s = map of_char s"

definition string_of :: "u8 list \<Rightarrow> string" where "string_of bs = map (\<lambda>b. char_of (unat b)) bs"

definition code_points :: "u8 list \<Rightarrow> u32 list res" where
  "code_points bs = map_sum id (\<lambda>r. case r of Return x \<Rightarrow> x | Continue x \<Rightarrow> x)
     (char_loop (bs @ [0]) (length bs) (\<lambda>p acc. bindE (getChar (bs @ [0]) p) (\<lambda>c. Inr (Continue (acc @ [c])))) 0 [])"

text \<open>\<open>decode(s, ENCODE_URI)\<close>; whether it raised an error is not kept.\<close>

definition decode_uri :: "string \<Rightarrow> string res" where
  "decode_uri s = bindE (code_points (bytes_of s)) (\<lambda>cs.
     bindE (decodeURI uriReservedAndHash cs) (\<lambda>(e, out). Inr (string_of (utf8s out))))"

text \<open>Where the parts of a URL begin.\<close>

record url_places =
  str :: string
  hostnamePos :: nat
  pathPos :: nat
  portPos :: nat
  queryPos :: nat
  fragmentPos :: nat
  reason :: "invalid_reason option"

definition url_protocol :: "string \<Rightarrow> string" where
  "url_protocol u = (let i = str_find ''://'' u 0 in if i = str_npos then [] else str_lower (take i u))"

definition find_places :: "string \<Rightarrow> url_places" where
  "find_places u =
     (let colonPos = str_find ''://'' u 0;
          r = (if colonPos = str_npos then Some MISSING_PROTOCOL else None);
          h = (if colonPos \<noteq> str_npos then colonPos + 3 else str_npos);
          cursor = (if h = str_npos then 0 else h)
      in if url_protocol u = ''file''
         then \<lparr>str = u, hostnamePos = h, pathPos = cursor, portPos = str_npos, queryPos = str_npos, fragmentPos = str_npos,
               reason = (if cursor = length u then Some MISSING_PATH else r)\<rparr>
         else let pa = str_find ''/'' u cursor;
                  po = str_rfind '':'' u pa;
                  po = (if po < h then str_npos else po);
                  q = str_find ''?'' u pa;
                  f = str_find ''#'' u (if q \<noteq> str_npos then q else pa)
              in \<lparr>str = encode_spaces u, hostnamePos = h, pathPos = pa, portPos = po, queryPos = q, fragmentPos = f,
                  reason = (if po = h \<or> pa = h \<or> q = h then Some MISSING_HOSTNAME else r)\<rparr>)"

definition url_hostname :: "url_places \<Rightarrow> string res" where
  "url_hostname w =
     (if hostnamePos w \<noteq> str_npos
      then bindE (str_substr (hostnamePos w) (size_minus (min (min (pathPos w) (portPos w)) (queryPos w)) (hostnamePos w)) (str w))
             (\<lambda>s. Inr (str_lower s))
      else Inr [])"

text \<open>The port and whether it could not be read.\<close>

definition url_port :: "url_places \<Rightarrow> (bool \<times> nat) res" where
  "url_port w =
     (if portPos w \<noteq> str_npos
         \<and> portPos w \<noteq> min (min (length (str w) - 1) (size_minus (pathPos w) 1)) (size_minus (queryPos w) 1)
      then bindE (str_substr (portPos w + 1) (size_minus (min (pathPos w) (length (str w))) (portPos w + 1)) (str w))
             (\<lambda>s. Inr (read_u16 s))
      else Inr (True, 0))"

text \<open>The path with its directory and its file.\<close>

definition url_path :: "url_places \<Rightarrow> (string \<times> string \<times> string) res option" where
  "url_path w =
     (if pathPos w = str_npos then Some (Inr (''/'', ''/'', []))
      else case str_substr (pathPos w) (size_minus (min (length (str w)) (queryPos w)) (pathPos w)) (str w) of
        Inl e \<Rightarrow> Some (Inl e)
      | Inr s \<Rightarrow> (case normalizePath s of
          None \<Rightarrow> None
        | Some r \<Rightarrow> Some (bindE r (\<lambda>p.
            let last = str_rfind ''/'' p str_npos in
            if last \<noteq> str_npos
            then bindE (decode_uri (take (last + 1) p)) (\<lambda>d. Inr (p, d, drop (last + 1) p))
            else Inr (p, [], p)))))"

definition after :: "nat \<Rightarrow> string \<Rightarrow> string" where
  "after pos s = (if pos \<noteq> str_npos \<and> pos < size_minus (length s) 1 then drop (pos + 1) s else [])"

definition print_url :: "url_info \<Rightarrow> string" where
  "print_url i = protocol i @ ''://'' @ hostname i @ (if port i > 0 then '':'' @ decimal (port i) else []) @ upath i
     @ (if query i \<noteq> [] then ''?'' @ query i else []) @ (if fragment i \<noteq> [] then ''#'' @ fragment i else [])"

definition URLInfo :: "string \<Rightarrow> url_info res option" where
  "URLInfo u =
     (if u = [] then Some (Inr empty_url)
      else let w = find_places u in
        case url_path w of
          None \<Rightarrow> None
        | Some r \<Rightarrow> Some (bindE (url_hostname w) (\<lambda>h. bindE (url_port w) (\<lambda>(ok, po). bindE r (\<lambda>(pa, d, f).
            let i = \<lparr>url = (if url_protocol u = ''file'' then u else encode_spaces u), parsedURL = [], protocol = url_protocol u,
                     hostname = h, upath = pa, pathDirectory = d, pathFile = f, query = after (queryPos w) (str w),
                     fragment = after (fragmentPos w) (str w), stream = [],
                     invalidReason = (if ok then reason w else Some INVALID_PORT), port = po, valid = True\<rparr>
            in Inr (i\<lparr>parsedURL := print_url i\<rparr>))))))"

definition getParsedURL :: "url_info \<Rightarrow> string" where "getParsedURL i = (if valid i then parsedURL i else url i)"

definition goToURL :: "url_info \<Rightarrow> string \<Rightarrow> url_info res option" where
  "goToURL i s =
     (if str_find ''//'' s 0 = 0 then URLInfo (''http:'' @ s)
      else if length s \<ge> 2 \<and> s ! 0 = CHR '':'' \<and> is_digit (s ! 1) then URLInfo (protocol i @ ''://'' @ hostname i @ s)
      else if str_find ''://'' s 0 = str_npos
      then URLInfo (protocol i @ ''://'' @ hostname i @ (if port i > 0 then '':'' @ decimal (port i) else [])
             @ (if take 1 s \<noteq> ''/'' then pathDirectory i else []) @ s)
      else URLInfo s)"

definition isSubPathOf :: "string \<Rightarrow> string \<Rightarrow> bool" where "isSubPathOf parent child = (take (length parent) child = parent)"

definition isSubOf :: "url_info \<Rightarrow> url_info \<Rightarrow> bool" where
  "isSubOf i parent =
     (if protocol i \<noteq> protocol parent then False
      else if hostname i \<noteq> hostname parent then False
      else isSubPathOf (pathDirectory parent) (pathDirectory i))"

definition isSubDomainOf :: "string \<Rightarrow> string \<Rightarrow> bool" where
  "isSubDomainOf parent child = (take (length parent) (str_lower child) = str_lower parent)"

definition matchesDomain :: "string \<Rightarrow> string \<Rightarrow> bool" where
  "matchesDomain expression subject =
     (let e = str_lower expression; s = str_lower subject in
      if e = ''*'' \<or> e = s then True
      else if take 2 e = ''*.''
      then if s = drop 2 e then True
           else length s \<ge> length e \<and> take (length e - 1) (drop (length s - length e + 1) s) = drop 1 e
      else False)"

definition sameHost :: "url_info \<Rightarrow> url_info \<Rightarrow> bool" where
  "sameHost i j \<longleftrightarrow> protocol i = protocol j \<and> hostname i = hostname j \<and> port i = port j"

definition isRTMP :: "url_info \<Rightarrow> bool" where
  "isRTMP i \<longleftrightarrow> protocol i \<in> {''rtmp'', ''rtmpe'', ''rtmps'', ''rtmpt'', ''rtmpte'', ''rtmpts'', ''rtmfp''}"

section \<open>Domains\<close>

lemma tolower_fixed:
  assumes "\<not> (97 \<le> (of_char x :: nat) \<and> (of_char x :: nat) \<le> 122)" and "\<not> (65 \<le> (of_char x :: nat) \<and> (of_char x :: nat) \<le> 90)"
  shows "tolower c = x \<longleftrightarrow> c = x"
proof
  assume t: "tolower c = x"
  show "c = x"
  proof (cases "65 \<le> (of_char c :: nat) \<and> (of_char c :: nat) \<le> 90")
    case True
    then have "x = char_of (of_char c + 32 :: nat)" using t by (simp add: tolower_def)
    then have "(of_char x :: nat) = of_char c + 32" using True by simp
    then show ?thesis using True assms(1) by simp
  next
    case False
    then show ?thesis using t by (simp only: tolower_def if_False)
  qed
next
  assume "c = x"
  then show "tolower c = x" using assms(2) by (simp only: tolower_def if_False)
qed

lemma tolower_idem [simp]: "tolower (tolower c) = tolower c"
  by (auto simp: tolower_def)

lemma str_lower_simps [simp]: "str_lower [] = []" "str_lower (c # s) = tolower c # str_lower s" "str_lower (s @ t) = str_lower s @ str_lower t"
  "length (str_lower s) = length s"
  by (simp_all add: str_lower_def)

lemma lower_star: "str_lower e = ''*'' \<longleftrightarrow> e = ''*''"
  by (cases e) (auto simp: tolower_fixed str_lower_def)

lemma lower_star_dot: "take 2 (str_lower e) = ''*.'' \<longleftrightarrow> (\<exists>d. e = ''*.'' @ d)"
proof
  assume "take 2 (str_lower e) = ''*.''"
  then obtain a b d where "e = a # b # d" "tolower a = CHR ''*''" "tolower b = CHR ''.''"
    by (cases e; cases "tl e") (auto simp: str_lower_def)
  then show "\<exists>d. e = ''*.'' @ d" by (simp add: tolower_fixed)
next
  assume "\<exists>d. e = ''*.'' @ d"
  then show "take 2 (str_lower e) = ''*.''" by (auto simp: tolower_def)
qed

lemma ends_with:
  assumes "length w < length s"
  shows "take (length w) (drop (length s - length w) s) = w \<longleftrightarrow> (\<exists>x. x \<noteq> [] \<and> s = x @ w)"
proof
  assume "take (length w) (drop (length s - length w) s) = w"
  then have "drop (length s - length w) s = w" using assms by simp
  then have "s = take (length s - length w) s @ w" by (metis append_take_drop_id)
  moreover have "take (length s - length w) s \<noteq> []" using assms by auto
  ultimately show "\<exists>x. x \<noteq> [] \<and> s = x @ w" by blast
qed auto

text \<open>C32: A domain expression matches a host exactly if it is a star, or the host itself, or a star and a dot before a domain
  that the host is or that it lies under, without regard to case.\<close>

theorem matchesDomain_correct:
  "matchesDomain e s \<longleftrightarrow> e = ''*'' \<or> str_lower s = str_lower e
     \<or> (\<exists>d. e = ''*.'' @ d \<and> (str_lower s = str_lower d \<or> (\<exists>x. x \<noteq> [] \<and> str_lower s = x @ ''.'' @ str_lower d)))"
proof (cases "take 2 (str_lower e) = ''*.''")
  case True
  then obtain d where d: "e = ''*.'' @ d" using lower_star_dot by blast
  have le: "str_lower e = ''*.'' @ str_lower d" by (simp add: d tolower_def)
  let ?w = "''.'' @ str_lower d"
  have len: "length s \<ge> length e \<longleftrightarrow> length ?w < length (str_lower s)" by (simp add: d Suc_le_eq)
  have "length s \<ge> length e \<and> take (length e - 1) (drop (length s - length e + 1) (str_lower s)) = drop 1 (str_lower e)
      \<longleftrightarrow> (\<exists>x. x \<noteq> [] \<and> str_lower s = x @ ?w)"
  proof (cases "length ?w < length (str_lower s)")
    case True
    then have "length s - length e + 1 = length (str_lower s) - length ?w" "length e - 1 = length ?w" "drop 1 (str_lower e) = ?w"
      by (simp_all only: le) (simp_all add: d)
    then show ?thesis using ends_with [OF True] len True by simp
  next
    case False
    have "\<not> (x \<noteq> [] \<and> str_lower s = x @ ?w)" for x
    proof
      assume x: "x \<noteq> [] \<and> str_lower s = x @ ?w"
      then have "length (str_lower s) = length x + length ?w" by (metis length_append)
      then show False using False x by simp
    qed
    then show ?thesis using False len by blast
  qed
  then show ?thesis using lower_star [of e] d le by (auto simp: matchesDomain_def Let_def)
next
  case False
  then show ?thesis using lower_star_dot [of e] lower_star [of e] by (auto simp: matchesDomain_def Let_def)
qed

section \<open>Numbers and plain text\<close>

lemma decimal_digits: "decimal n \<noteq> [] \<and> (\<forall>c\<in>set (decimal n). is_digit c)"
proof (induction n rule: decimal.induct)
  case (1 n)
  have d: "is_digit (char_of (48 + k))" if "k < 10" for k :: nat
    using that by (simp add: is_digit_def take_bit_eq_mod)
  show ?case
  proof (cases "n < 10")
    case True
    then show ?thesis using d [of n] by (subst (1 2) decimal.simps) simp
  next
    case False
    then show ?thesis using 1 d [of "n mod 10"] by (subst (1 2) decimal.simps) auto
  qed
qed

lemma digits_value_decimal: "digits_value (decimal n) = n"
proof (induction n rule: decimal.induct)
  case (1 n)
  have c: "of_char (char_of (48 + k) :: char) = (48 + k :: nat)" if "k < 10" for k :: nat
    using that by (simp add: take_bit_eq_mod)
  show ?case
  proof (cases "n < 10")
    case True
    then show ?thesis using c [of n] by (subst decimal.simps) (simp add: digits_value_def)
  next
    case False
    then have "digits_value (decimal (n div 10)) = n div 10" using 1 by simp
    then have "digits_value (decimal n) = n div 10 * 10 + n mod 10"
      using False c [of "n mod 10"] by (subst decimal.simps) (simp add: digits_value_def)
    then show ?thesis by simp
  qed
qed

lemma read_decimal:
  assumes "n \<le> 65535"
  shows "read_u16 (decimal n) = (True, n)"
proof -
  obtain c s where d: "decimal n = c # s" using decimal_digits by (cases "decimal n") blast+
  have all: "\<forall>x\<in>set (decimal n). is_digit x" using decimal_digits by blast
  then have c: "is_digit c" by (simp add: d)
  then have "\<not> is_blank c" "c \<noteq> CHR ''-''" "c \<noteq> CHR ''+''" by (auto simp: is_digit_def is_blank_def)
  moreover have "takeWhile is_digit (decimal n) = decimal n" using all by (simp add: takeWhile_eq_all_conv)
  ultimately show ?thesis
    using assms digits_value_decimal [of n] by (simp add: read_u16_def Let_def d)
qed

lemma no_spaces: "CHR '' '' \<notin> set s \<Longrightarrow> encode_spaces s = s"
  by (induction s) (auto simp: encode_spaces_def)

definition plain_char :: "char \<Rightarrow> bool" where
  "plain_char c \<longleftrightarrow> (of_char c :: nat) < 128 \<and> c \<notin> {CHR ''%'', CHR ''?'', CHR ''#'', CHR '' ''}"

lemma char_u32:
  assumes "(of_char c :: nat) < 128"
  shows "(of_char c :: u32) < 0x80" and "utf8_enc (of_char c) = [of_char c]" and "char_of (unat (of_char c :: u8)) = c"
proof -
  have o: "(of_char c :: u32) = of_nat (of_char c)" "(of_char c :: u8) = of_nat (of_char c)" by (simp_all only: of_nat_of_char)
  show l: "(of_char c :: u32) < 0x80" unfolding o(1) using assms by (simp add: word_less_nat_alt unsigned_of_nat take_bit_eq_mod del: of_nat_of_char)
  have "(ucast ((of_char c :: u32) AND 0xff) :: u8) = of_char c"
  proof -
    have "(of_char c :: u32) < 2 ^ 8" using l by (simp add: word_less_nat_alt)
    then have "of_char c AND mask 8 = (of_char c :: u32)" by (rule less_mask_eq)
    then have "(of_char c :: u32) AND 0xff = of_char c" by (simp only: mask_consts)
    then show ?thesis unfolding o using assms by (simp add: unsigned_of_nat take_bit_nat_eq_self del: of_nat_of_char)
  qed
  then show "utf8_enc (of_char c) = [of_char c]" by (simp add: utf8_enc_ascii [OF l])
  have "unat (of_char c :: u8) = of_char c"
    unfolding o(2) using assms by (simp add: unsigned_of_nat take_bit_eq_mod del: of_nat_of_char)
  then show "char_of (unat (of_char c :: u8)) = c" by simp
qed

lemma decode_plain_text:
  assumes "\<forall>c\<in>set s. plain_char c"
  shows "decode_uri s = Inr s"
proof -
  let ?cs = "map of_char s :: u32 list"
  have p: "(of_char c :: nat) < 128" if "c \<in> set s" for c using assms that by (simp add: plain_char_def)
  have b: "utf8s ?cs = bytes_of s" using char_u32(2) [OF p] unfolding bytes_of_def by (induction s) simp_all
  have v: "valid_cps ?cs" using char_u32(1) [OF p] by (auto simp: valid_cps_def intro!: valid_cp_ascii)
  have "foldl (\<lambda>acc c. acc @ [c]) acc xs = acc @ xs" for acc xs :: "u32 list"
    by (induction xs arbitrary: acc) simp_all
  then have "code_points (bytes_of s) = Inr ?cs"
    using char_loop_fold [OF v, where post = "[0]" and f = "\<lambda>acc c. acc @ [c]" and s = "[]" and 'b = "u32 list"
        and body = "\<lambda>p acc. bindE (getChar (bytes_of s @ [0]) p) (\<lambda>c. Inr (Continue (acc @ [c])))"]
    by (simp add: code_points_def b)
  moreover have "decodeURI r xs = Inr (False, xs)" if "37 \<notin> set xs" for r xs
    using that by (induction xs) auto
  moreover have "37 \<notin> set ?cs"
  proof
    assume "37 \<in> set ?cs"
    then obtain c where c: "c \<in> set s" "(of_char c :: u32) = 37" by auto
    then have "unat (of_nat (of_char c) :: u32) = 37" by (simp add: of_nat_of_char)
    then have "(of_char c :: nat) = 37" using p [OF c(1)] by (simp add: unsigned_of_nat take_bit_eq_mod del: of_nat_of_char)
    then have "of_char c = (of_char CHR ''%'' :: nat)" by simp
    then have "c = CHR ''%''" by (simp only: of_char_eq_iff)
    then show False using assms c(1) by (auto simp: plain_char_def)
  qed
  moreover have "string_of (bytes_of s) = s" using char_u32(3) [OF p] unfolding string_of_def bytes_of_def by (induction s) simp_all
  ultimately show ?thesis by (simp add: decode_uri_def b)
qed

section \<open>Taking a URL apart\<close>

text \<open>A URL in the form in which it is printed.\<close>

definition port_part :: "nat \<Rightarrow> string" where "port_part n = (if n > 0 then '':'' @ decimal n else [])"

definition query_part :: "string \<Rightarrow> string" where "query_part q = (if q \<noteq> [] then ''?'' @ q else [])"

definition url_text :: "string \<Rightarrow> string \<Rightarrow> nat \<Rightarrow> string list \<Rightarrow> string \<Rightarrow> string" where
  "url_text p h n ss q = p @ ''://'' @ h @ port_part n @ path_of ss @ query_part q"

definition good_url :: "string \<Rightarrow> string \<Rightarrow> nat \<Rightarrow> string list \<Rightarrow> string \<Rightarrow> bool" where
  "good_url p h n ss q \<longleftrightarrow>
     p \<noteq> [] \<and> p \<noteq> ''file'' \<and> (\<forall>c\<in>set p. 97 \<le> (of_char c :: nat) \<and> (of_char c :: nat) \<le> 122)
     \<and> h \<noteq> [] \<and> (\<forall>c\<in>set h. tolower c = c \<and> c \<notin> {CHR ''/'', CHR '':'', CHR ''?'', CHR ''#'', CHR '' ''})
     \<and> n \<le> 65535 \<and> normal ss \<and> (\<forall>s\<in>set ss. \<forall>c\<in>set s. plain_char c)
     \<and> CHR ''#'' \<notin> set q \<and> CHR '' '' \<notin> set q \<and> length (url_text p h n ss q) < 9223372036854775808"

lemma good_url_parts:
  assumes "good_url p h n ss q"
  shows "CHR '':'' \<notin> set p" and "CHR ''/'' \<notin> set p" and "str_lower p = p" and "str_lower h = h" and "CHR ''/'' \<notin> set (port_part n)"
    and "CHR ''?'' \<notin> set (path_of ss)" and "CHR ''#'' \<notin> set (url_text p h n ss q)" and "CHR '' '' \<notin> set (url_text p h n ss q)"
    and "\<exists>r. path_of ss = CHR ''/'' # r" and "CHR '':'' \<notin> set (decimal n)"
proof -
  note g = assms [unfolded good_url_def]
  have low: "\<not> (97 \<le> (of_char c :: nat) \<and> (of_char c :: nat) \<le> 122) \<Longrightarrow> c \<notin> set p" for c using g by auto
  show "CHR '':'' \<notin> set p" "CHR ''/'' \<notin> set p" by (rule low; simp)+
  have "tolower c = c" if "c \<in> set p" for c
  proof -
    have "97 \<le> (of_char c :: nat)" using g that by blast
    then have "\<not> (of_char c :: nat) \<le> 90" by linarith
    then show ?thesis by (simp only: tolower_def simp_thms if_False)
  qed
  then show "str_lower p = p" "str_lower h = h" using g by (simp_all add: str_lower_def map_idI)
  have dig: "is_digit c" if "c \<in> set (decimal n)" for c using decimal_digits that by blast
  show "CHR '':'' \<notin> set (decimal n)" using dig [of "CHR '':''"] by (auto simp: is_digit_def)
  have d2: "c \<notin> set (port_part n)" if "\<not> is_digit c" "c \<noteq> CHR '':''" for c using dig that by (auto simp: port_part_def)
  then show "CHR ''/'' \<notin> set (port_part n)" by (simp add: is_digit_def)
  have pa: "c = CHR ''/'' \<or> plain_char c" if "c \<in> set (path_of ss)" for c
  proof -
    have "\<forall>s\<in>set ss. \<forall>c\<in>set s. plain_char c" using g by blast
    then show ?thesis using that by (induction ss) auto
  qed
  then show "CHR ''?'' \<notin> set (path_of ss)" by (auto simp: plain_char_def)
  show "CHR ''#'' \<notin> set (url_text p h n ss q)" "CHR '' '' \<notin> set (url_text p h n ss q)"
    using g low [of "CHR ''#''"] low [of "CHR '' ''"] d2 [of "CHR ''#''"] d2 [of "CHR '' ''"] pa
    by (auto simp: url_text_def query_part_def is_digit_def plain_char_def)
  show "\<exists>r. path_of ss = CHR ''/'' # r" using g path_of_start by (simp add: normal_def)
qed

lemma str_find_after: "str_find w (a @ b) (length a) = find_from w b (length a)"
  by (simp add: str_find_def)

lemma drop_scheme: "drop (3 + k) (a # b # c # xs) = drop k xs" "drop (4 + k) (a # b # c # xs) = drop (1 + k) xs"
  by (simp_all add: numeral_eq_Suc)

lemma find_here: "find_from [c] (c # s) i = i"
  by simp

definition url_start :: "string \<Rightarrow> string \<Rightarrow> nat \<Rightarrow> nat" where
  "url_start p h n = length p + 3 + length h + length (port_part n)"

lemma good_places:
  assumes g: "good_url p h n ss q"
  shows "find_places (url_text p h n ss q) =
    \<lparr>str = url_text p h n ss q, hostnamePos = length p + 3, pathPos = url_start p h n,
     portPos = (if n > 0 then length p + 3 + length h else str_npos),
     queryPos = (if q \<noteq> [] then url_start p h n + length (path_of ss) else str_npos), fragmentPos = str_npos, reason = None\<rparr>"
    and "url_protocol (url_text p h n ss q) = p"
proof -
  let ?u = "url_text p h n ss q"
  note parts = good_url_parts [OF g] and gd = g [unfolded good_url_def]
  obtain r where r: "path_of ss = CHR ''/'' # r" using parts(9) by blast
  have len: "length ?u < 9223372036854775808" using gd by blast
  have u1: "?u = p @ ''://'' @ (h @ port_part n @ path_of ss @ query_part q)" by (simp add: url_text_def)
  have lens: "length ?u = url_start p h n + length (path_of ss) + length (query_part q)" by (simp add: url_text_def url_start_def)
  have colon: "str_find ''://'' ?u 0 = length p"
    using find_from_skip [of "''://''" p "''://'' @ h @ port_part n @ path_of ss @ query_part q" 0] parts(1)
    by (simp add: str_find_def u1)
  have np: "length p \<noteq> str_npos" "url_start p h n \<noteq> str_npos" using len lens by (auto simp: str_npos_def url_start_def)
  show proto: "url_protocol ?u = p" using colon np parts(3) by (simp add: url_protocol_def Let_def u1)
  have "str_find ''/'' ?u (length p + 3) = find_from ''/'' ((h @ port_part n) @ path_of ss @ query_part q) (length p + 3)"
    using str_find_after [of "''/''" "p @ ''://''" "h @ port_part n @ path_of ss @ query_part q"] by (simp add: u1 numeral_3_eq_3)
  also have "\<dots> = find_from ''/'' (path_of ss @ query_part q) (length p + 3 + length (h @ port_part n))"
    using gd parts(5) by (intro find_from_skip) auto
  also have "\<dots> = url_start p h n" by (simp add: r url_start_def)
  finally have path: "str_find ''/'' ?u (length p + 3) = url_start p h n" .
  have port1: "str_rfind '':'' ?u (url_start p h n) = length p + 3 + length h" if "n > 0"
  proof -
    have "str_rfind '':'' ((p @ ''://'' @ h) @ CHR '':'' # (decimal n @ ''/'') @ (r @ query_part q)) (url_start p h n) = length (p @ ''://'' @ h)"
      using parts(10) that by (intro str_rfind_last) (auto simp: url_start_def port_part_def)
    then show ?thesis using that by (simp add: url_text_def port_part_def r)
  qed
  have port0: "str_rfind '':'' ?u (url_start p h n) = length p" if "n = 0"
  proof -
    have "str_rfind '':'' (p @ CHR '':'' # (''//'' @ h @ ''/'') @ (r @ query_part q)) (url_start p h n) = length p"
    proof (rule str_rfind_last)
      have "CHR '':'' \<notin> set h" using gd by blast
      then show "CHR '':'' \<notin> set (''//'' @ h @ ''/'')" by simp
    qed (simp add: url_start_def port_part_def that)+
    then show ?thesis using that by (simp add: url_text_def port_part_def r)
  qed
  have "str_find ''?'' ?u (url_start p h n) = find_from ''?'' (path_of ss @ query_part q) (url_start p h n)"
    using str_find_after [of "''?''" "p @ ''://'' @ h @ port_part n" "path_of ss @ query_part q"]
    by (simp add: url_text_def url_start_def numeral_3_eq_3 add.assoc)
  also have "\<dots> = find_from ''?'' (query_part q) (url_start p h n + length (path_of ss))"
    using parts(6) by (intro find_from_skip) simp_all
  finally have query: "str_find ''?'' ?u (url_start p h n) = (if q \<noteq> [] then url_start p h n + length (path_of ss) else str_npos)"
    by (simp add: query_part_def)
  have frag: "str_find ''#'' ?u i = str_npos" for i by (rule str_find_none [OF parts(7)])
  have h: "length h > 0" using gd by simp
  show "find_places ?u = \<lparr>str = ?u, hostnamePos = length p + 3, pathPos = url_start p h n,
     portPos = (if n > 0 then length p + 3 + length h else str_npos),
     queryPos = (if q \<noteq> [] then url_start p h n + length (path_of ss) else str_npos), fragmentPos = str_npos, reason = None\<rparr>"
  proof -
    let ?po = "if n > 0 then length p + 3 + length h else str_npos" and ?q = "if q \<noteq> [] then url_start p h n + length (path_of ss) else str_npos"
    have po: "(if str_rfind '':'' ?u (url_start p h n) < length p + 3 then str_npos else str_rfind '':'' ?u (url_start p h n)) = ?po"
      using port1 port0 by simp
    have big: "length p + 3 \<noteq> str_npos" using len by (simp add: str_npos_def lens url_start_def)
    have r: "\<not> (?po = length p + 3 \<or> url_start p h n = length p + 3 \<or> ?q = length p + 3)"
      using big h by (auto simp: url_start_def)
    have enc: "encode_spaces ?u = ?u" by (rule no_spaces [OF parts(8)])
    have f: "p \<noteq> ''file''" using gd by blast
    have colon_if: "(if length p = str_npos then x else y) = y" "(if length p \<noteq> str_npos then x' else y') = x'" for x y x' y'
      using np(1) by auto
    have h_if: "(if length p + 3 = str_npos then x else y) = y" for x y using big by auto
    have p_if: "(if p = ''file'' then x else y) = y" for x y using f by auto
    have r_if: "(if ?po = length p + 3 \<or> url_start p h n = length p + 3 \<or> ?q = length p + 3 then x else y) = y" for x y
      using r by auto
    show ?thesis
      unfolding find_places_def Let_def colon proto colon_if h_if p_if path query frag po r_if enc ..
  qed
qed

lemma good_fields:
  assumes g: "good_url p h n ss q" and w: "w = find_places (url_text p h n ss q)"
  shows "str w = url_text p h n ss q" and "hostnamePos w = length p + 3" and "pathPos w = url_start p h n"
    and "portPos w = (if n > 0 then length p + 3 + length h else str_npos)"
    and "queryPos w = (if q \<noteq> [] then url_start p h n + length (path_of ss) else str_npos)"
    and "fragmentPos w = str_npos" and "reason w = None"
  by (simp_all add: w good_places(1) [OF g])

lemma good_path:
  assumes g: "good_url p h n ss q" and w: "w = find_places (url_text p h n ss q)"
  shows "url_path w = Some (Inr (path_of ss, path_of (butlast ss) @ ''/'', last ss))"
proof -
  note pl = good_fields [OF g w] and gd = g [unfolded good_url_def]
  have ns: "normal ss" using gd by blast
  have ne: "ss \<noteq> []" "segments ss" using ns by (simp_all add: normal_def)
  have len: "length (url_text p h n ss q) < 9223372036854775808" using gd by blast
  have sub: "str_substr (pathPos w) (size_minus (min (length (str w)) (queryPos w)) (pathPos w)) (str w) = Inr (path_of ss)"
    using len by (auto simp: pl str_substr_def url_text_def url_start_def query_part_def str_npos_def min_def drop_scheme)
  have short: "length (path_of ss) < 18446744073709551600" using len by (simp add: url_text_def)
  have norm: "normalizePath (path_of ss) = Some (Inr (path_of ss))"
    using normal_segs_normal(3) [OF ne(2,1) short] normal_segs_idem [OF ns] by simp
  let ?a = "path_of (butlast ss)"
  have sp: "path_of ss = ?a @ CHR ''/'' # last ss" by (rule path_of_snoc [OF ne(1)])
  have l: "str_rfind ''/'' (path_of ss) str_npos = length ?a"
  proof -
    have "str_rfind ''/'' (?a @ CHR ''/'' # last ss @ []) (length ?a + length (last ss)) = length ?a"
      using segments_last [OF ne(2,1)] by (intro str_rfind_last) simp_all
    moreover have "str_rfind ''/'' (?a @ CHR ''/'' # last ss) str_npos = str_rfind ''/'' (?a @ CHR ''/'' # last ss) (length ?a + length (last ss))"
      using short sp by (simp add: str_rfind_def str_npos_def min_def)
    ultimately show ?thesis by (simp add: sp)
  qed
  have "\<forall>c\<in>set (?a @ ''/''). plain_char c"
  proof -
    have s: "plain_char (CHR ''/'')" by (simp add: plain_char_def)
    have "\<forall>s\<in>set ss. \<forall>c\<in>set s. plain_char c" using gd by blast
    then have "\<forall>s\<in>set (butlast ss). \<forall>c\<in>set s. plain_char c" by (blast dest: in_set_butlastD)
    moreover have "\<forall>c\<in>set (path_of ys). plain_char c" if "\<forall>s\<in>set ys. \<forall>c\<in>set s. plain_char c" for ys
      using that s by (induction ys) auto
    ultimately show ?thesis using s by simp
  qed
  then have dec: "decode_uri (?a @ ''/'') = Inr (?a @ ''/'')" by (rule decode_plain_text)
  have np: "pathPos w \<noteq> str_npos" using len unfolding pl(3) by (simp add: str_npos_def url_text_def url_start_def)
  have "length ?a \<noteq> str_npos" using short unfolding sp by (simp add: str_npos_def)
  note np = np this
  have td: "take (length ?a + 1) (path_of ss) = ?a @ ''/''" "drop (length ?a + 1) (path_of ss) = last ss" by (simp_all add: sp)
  show ?thesis
    unfolding url_path_def sub using np dec by (simp only: if_False if_True simp_thms sum.case option.case norm l Let_def td bindE_simps)
qed

lemma good_hostname:
  assumes g: "good_url p h n ss q" and w: "w = find_places (url_text p h n ss q)"
  shows "url_hostname w = Inr h"
proof -
  note pl = good_fields [OF g w] and gd = g [unfolded good_url_def]
  have len: "length (url_text p h n ss q) < 9223372036854775808" using gd by blast
  have "str_substr (length p + 3) (length h) (url_text p h n ss q) = Inr h"
    by (simp add: str_substr_def url_text_def)
  moreover have "min (min (pathPos w) (portPos w)) (queryPos w) = length p + 3 + length h"
    using len by (auto simp: pl url_start_def port_part_def str_npos_def url_text_def)
  moreover have "length p + 3 \<noteq> str_npos" using len by (simp add: str_npos_def url_text_def)
  ultimately show ?thesis using good_url_parts(4) [OF g] by (simp add: url_hostname_def pl)
qed

lemma good_port:
  assumes g: "good_url p h n ss q" and w: "w = find_places (url_text p h n ss q)"
  shows "url_port w = Inr (True, n)"
proof (cases "n > 0")
  case True
  note pl = good_fields [OF g w] and gd = g [unfolded good_url_def]
  have len: "length (url_text p h n ss q) < 9223372036854775808" using gd by blast
  obtain r where r: "path_of ss = CHR ''/'' # r" using good_url_parts(9) [OF g] by blast
  have d: "length (decimal n) > 0" using decimal_digits by simp
  have us: "url_start p h n > 0" "url_start p h n < length (str w)" "url_start p h n + length (path_of ss) \<le> length (str w)"
    using r by (auto simp: pl(1) url_start_def url_text_def)
  have "min (min (length (str w) - 1) (size_minus (pathPos w) 1)) (size_minus (queryPos w) 1) = url_start p h n - 1"
  proof -
    have a: "size_minus (pathPos w) 1 = url_start p h n - 1" using us(1) by (simp add: pl(3))
    have b: "url_start p h n - 1 \<le> size_minus (queryPos w) 1"
    proof (cases "q = []")
      case True
      have "url_start p h n < 9223372036854775808" using us(2) len by (simp add: pl(1))
      then show ?thesis using True by (simp add: pl(5) str_npos_def)
    next
      case False
      then show ?thesis using us(1) by (simp add: pl(5))
    qed
    show ?thesis unfolding a using b us(2) by linarith
  qed
  moreover have "url_start p h n - 1 \<noteq> length p + 3 + length h" using True d by (simp add: url_start_def port_part_def)
  moreover have "str_substr (length p + 3 + length h + 1) (length (decimal n)) (url_text p h n ss q) = Inr (decimal n)"
    using True by (simp add: str_substr_def url_text_def port_part_def drop_scheme)
  moreover have "size_minus (min (pathPos w) (length (str w))) (portPos w + 1) = length (decimal n)"
    using True by (simp add: pl url_start_def port_part_def url_text_def)
  moreover have "length p + 3 + length h \<noteq> str_npos" using len by (simp add: str_npos_def url_text_def)
  ultimately show ?thesis using True read_decimal [of n] gd by (simp add: url_port_def pl)
qed (simp add: url_port_def good_fields [OF g w])

lemma url_parts:
  assumes "good_url p h n ss q"
  shows "\<exists>i. URLInfo (url_text p h n ss q) = Some (Inr i) \<and> protocol i = p \<and> hostname i = h \<and> port i = n \<and> upath i = path_of ss
    \<and> pathDirectory i = path_of (butlast ss) @ ''/'' \<and> pathFile i = last ss \<and> query i = q \<and> fragment i = [] \<and> valid i
    \<and> invalidReason i = None \<and> parsedURL i = url_text p h n ss q"
proof -
  let ?u = "url_text p h n ss q" and ?w = "find_places (url_text p h n ss q)"
  note pl = good_fields [OF assms refl] and gd = assms [unfolded good_url_def]
  have len: "length ?u < 9223372036854775808" using gd by blast
  have q: "after (queryPos ?w) (str ?w) = q"
  proof (cases "q = []")
    case True
    have "\<not> q \<noteq> []" using True by blast
    then have "queryPos ?w = str_npos" unfolding pl(5) by (rule if_not_P)
    then show ?thesis using True by (simp add: after_def)
  next
    case False
    have "length ?u = url_start p h n + length (path_of ss) + length q + 1" using False by (simp add: url_text_def url_start_def query_part_def)
    moreover have "drop (url_start p h n + length (path_of ss) + 1) ?u = q" using False by (simp add: url_text_def url_start_def query_part_def drop_scheme)
    ultimately show ?thesis using False len by (simp add: pl after_def str_npos_def)
  qed
  have f: "after (fragmentPos ?w) (str ?w) = []" by (simp add: pl after_def)
  have "?u \<noteq> []" by (simp add: url_text_def)
  moreover have "print_url i = ?u" if "protocol i = p" "hostname i = h" "port i = n" "upath i = path_of ss" "query i = q" "fragment i = []" for i
    using that by (simp add: print_url_def url_text_def port_part_def query_part_def)
  ultimately show ?thesis
    by (simp add: URLInfo_def Let_def good_path [OF assms refl] good_hostname [OF assms refl] good_port [OF assms refl]
        good_places(2) [OF assms] q f pl(7))
qed

text \<open>C29: A URL of plain characters is taken apart into its parts and printed as it was given. The URL is made of: a
  protocol of letters a to z other than \<open>file\<close>; a host that is not empty, has no upper-case letters and none of the
  characters / : ? # and space; a port (written unless it is 0); a normalised path (at least one segment, no empty segment but the
  last, no . and no ..) of ASCII characters without % ? # and space; and a query without # and spaces, with no fragment;
  altogether shorter than 2 ^ 63. Then protocol, host, port, path and query are just these, the directory and the file of the path
  are found, no reason for being invalid is noted, and \<open>parsedURL\<close> is the URL. Upper-case letters are made lower and
  spaces encoded on purpose; with a space before the query the parts are wrong (\<open>places_before_spaces\<close>).\<close>

theorem url_roundtrip:
  assumes "good_url p h n ss q"
  shows "\<exists>i. URLInfo (url_text p h n ss q) = Some (Inr i) \<and> protocol i = p \<and> hostname i = h \<and> port i = n \<and> upath i = path_of ss
    \<and> pathDirectory i = path_of (butlast ss) @ ''/'' \<and> pathFile i = last ss \<and> query i = q \<and> fragment i = [] \<and> valid i
    \<and> invalidReason i = None \<and> parsedURL i = url_text p h n ss q"
  using assms by (rule url_parts)

theorem url_roundtrip_witness:
  "\<exists>i. URLInfo (url_text ''http'' ''a.b'' 80 [''d'', ''f.swf''] ''x=1'') = Some (Inr i) \<and> protocol i = ''http'' \<and> hostname i = ''a.b''
    \<and> port i = 80 \<and> upath i = path_of [''d'', ''f.swf''] \<and> pathDirectory i = path_of (butlast [''d'', ''f.swf'']) @ ''/''
    \<and> pathFile i = last [''d'', ''f.swf''] \<and> query i = ''x=1'' \<and> fragment i = [] \<and> valid i \<and> invalidReason i = None
    \<and> parsedURL i = url_text ''http'' ''a.b'' 80 [''d'', ''f.swf''] ''x=1''"
proof -
  have "char_of (56 :: nat) = CHR ''8''" "char_of (48 :: nat) = CHR ''0''" by code_simp+
  then have "decimal 80 = ''80''" by (simp add: decimal.simps)
  then show ?thesis
    by (intro url_roundtrip) (simp add: good_url_def normal_def plain_char_def tolower_def url_text_def port_part_def query_part_def)
qed


section \<open>Where the code departs from its purpose\<close>

text \<open>Every URL but the empty one is valid, whatever reason against it has been found.\<close>

lemma never_invalid: "URLInfo u = Some (Inr i) \<Longrightarrow> valid i \<longleftrightarrow> u \<noteq> []"
  by (auto simp: URLInfo_def empty_url_def Let_def bindE_def split: if_splits option.splits sum.splits prod.splits)

text \<open>Whether the empty URL is empty is read from a member that was not set.\<close>

lemma empty_url_reason: "\<exists>i. URLInfo [] = Some (Inr i) \<and> isEmpty i = Inl NullDeref"
  by (simp add: URLInfo_def empty_url_def isEmpty_def)

text \<open>A query stands before the first slash: it is taken for a part of the host name.\<close>

lemma query_in_hostname:
  "url_hostname (find_places ''http://h?x'') = Inr ''h?x''"
  by (simp add: find_places_def url_protocol_def str_find_def str_rfind_def str_npos_def url_hostname_def str_substr_def size_minus_def
      encode_spaces_def str_lower_def tolower_def Let_def)

text \<open>A fragment stays in the path as well and is printed twice.\<close>

lemma fragment_in_path:
  "str_substr (pathPos w) (size_minus (min (length (str w)) (queryPos w)) (pathPos w)) (str w) = Inr ''/p#f'' \<and> after (fragmentPos w) (str w) = ''f''"
  if "w = find_places ''http://h/p#f''"
proof -
  have "w = \<lparr>str = ''http://h/p#f'', hostnamePos = 7, pathPos = 8, portPos = str_npos, queryPos = str_npos, fragmentPos = 10, reason = None\<rparr>"
    by (simp add: that find_places_def url_protocol_def str_find_def str_rfind_def str_npos_def encode_spaces_def str_lower_def tolower_def Let_def)
  then show ?thesis by (simp add: str_npos_def str_substr_def size_minus_def after_def)
qed

text \<open>The places are found before the spaces are replaced and are used after it.\<close>

lemma places_before_spaces:
  "str_substr (pathPos w) (size_minus (min (length (str w)) (queryPos w)) (pathPos w)) (str w) = Inr ''/a%2'' \<and> after (queryPos w) (str w) = ''b?x''"
  if "w = find_places ''http://h/a b?x''"
proof -
  have "w = \<lparr>str = ''http://h/a%20b?x'', hostnamePos = 7, pathPos = 8, portPos = str_npos, queryPos = 12, fragmentPos = str_npos, reason = None\<rparr>"
    by (simp add: that find_places_def url_protocol_def str_find_def str_rfind_def str_npos_def encode_spaces_def str_lower_def tolower_def Let_def)
  then show ?thesis by (simp add: str_npos_def str_substr_def size_minus_def after_def)
qed

text \<open>A host with the wanted name as a prefix is held for a subdomain, a real subdomain is not.\<close>

lemma subdomain_prefix: "isSubDomainOf ''a.com'' ''a.com.evil'' \<and> \<not> isSubDomainOf ''a.com'' ''x.a.com''"
  by (simp add: isSubDomainOf_def tolower_def)

end
