(* ===== verification/PolicyXml.thy ===== *)
theory PolicyXml
  imports UrlInfo
begin

text \<open>
  The elements of a cross domain policy file (\<open>parsing/crossdomainpolicy.cpp\<close>) and what they allow (the classes
  \<open>PortRange\<close>, \<open>PolicySiteControl\<close>, \<open>PolicyAllowAccessFrom\<close> and \<open>PolicyAllowHTTPRequestHeadersFrom\<close> of
  \<open>backends/security.cpp\<close>). A document, as the XML library delivers it, is the name of its first node and the
  children of that node.
\<close>

section \<open>The parser\<close>

datatype xml_node = XElement string "(string \<times> string) list" | XOther

type_synonym xml_doc = "string \<times> xml_node list"

text \<open>The kinds of policy files; a subtype may also be a value that names none of the three.\<close>

datatype file_type = URL_FILE | SOCKET_FILE

datatype file_subtype = HTTP | HTTPS | FTP | NO_SUBTYPE

datatype policy_element = POLICY_END | INVALID | SITE_CONTROL string
  | ALLOW_ACCESS_FROM string string bool bool | ALLOW_HTTP_REQUEST_HEADERS_FROM string string bool bool

text \<open>\<open>attribute(n).value()\<close>\<close>

definition attr_value :: "string \<Rightarrow> (string \<times> string) list \<Rightarrow> string" where
  "attr_value n as = (case map_of as n of None \<Rightarrow> [] | Some v \<Rightarrow> v)"

text \<open>The attribute \<open>secure\<close>: its value and whether it was specified.\<close>

definition attr_secure :: "(string \<times> string) list \<Rightarrow> bool \<times> bool" where
  "attr_secure as = (if attr_value ''secure'' as = ''false'' then (False, True)
     else if attr_value ''secure'' as = ''true'' then (True, True) else (False, False))"

record cross_domain_policy =
  cp_type :: file_type
  cp_subtype :: file_subtype
  cp_master :: bool
  cp_doc :: xml_doc
  cp_first :: bool
  cp_rest :: "xml_node list"
  cp_siteControlFound :: bool

definition CrossDomainPolicy :: "xml_doc \<Rightarrow> file_type \<Rightarrow> file_subtype \<Rightarrow> bool \<Rightarrow> cross_domain_policy" where
  "CrossDomainPolicy d ty sub master =
     \<lparr>cp_type = ty, cp_subtype = sub, cp_master = master, cp_doc = d, cp_first = True, cp_rest = [], cp_siteControlFound = False\<rparr>"

text \<open>What an element with a known name becomes.\<close>

definition site_control_element :: "cross_domain_policy \<Rightarrow> (string \<times> string) list \<Rightarrow> policy_element \<times> cross_domain_policy" where
  "site_control_element p as =
     (if \<not> cp_siteControlFound p \<and> cp_master p \<and> length as = 1
      then let v = attr_value ''permitted-cross-domain-policies'' as
           in (if v \<noteq> [] then SITE_CONTROL v else INVALID, p\<lparr>cp_siteControlFound := True\<rparr>)
      else (INVALID, p))"

definition access_element :: "cross_domain_policy \<Rightarrow> (string \<times> string) list \<Rightarrow> policy_element" where
  "access_element p as =
     (if 1 \<le> length as \<and> length as \<le> 3
      then let d = attr_value ''domain'' as; ports = attr_value ''to-ports'' as; (s, given) = attr_secure as
           in if cp_type p = URL_FILE \<and> d \<noteq> [] then ALLOW_ACCESS_FROM d ports s given
              else if cp_type p = SOCKET_FILE \<and> d \<noteq> [] \<and> ports \<noteq> [] then ALLOW_ACCESS_FROM d ports s given
              else INVALID
      else INVALID)"

definition headers_element :: "cross_domain_policy \<Rightarrow> (string \<times> string) list \<Rightarrow> policy_element" where
  "headers_element p as =
     (if cp_type p = URL_FILE \<and> (cp_subtype p = HTTP \<or> cp_subtype p = HTTPS) \<and> 2 \<le> length as \<and> length as \<le> 3
      then let d = attr_value ''domain'' as; h = attr_value ''headers'' as; (s, given) = attr_secure as
           in if d \<noteq> [] \<and> h \<noteq> [] then ALLOW_HTTP_REQUEST_HEADERS_FROM d h s given else INVALID
      else INVALID)"

fun next_node :: "xml_node list \<Rightarrow> cross_domain_policy \<Rightarrow> policy_element \<times> cross_domain_policy" where
  "next_node [] p = (POLICY_END, p\<lparr>cp_rest := []\<rparr>)"
| "next_node (XOther # ns) p = next_node ns p"
| "next_node (XElement n as # ns) p =
     (let p' = p\<lparr>cp_rest := ns\<rparr> in
      if n = ''site-control'' then site_control_element p' as
      else if n = ''allow-access-from'' then (access_element p' as, p')
      else if n = ''allow-http-request-headers-from'' then (headers_element p' as, p')
      else next_node ns p)"

definition getNextElement :: "cross_domain_policy \<Rightarrow> policy_element \<times> cross_domain_policy" where
  "getNextElement p =
     (if cp_first p
      then if fst (cp_doc p) \<noteq> ''cross-domain-policy'' then (INVALID, p)
           else next_node (snd (cp_doc p)) (p\<lparr>cp_first := False\<rparr>)
      else next_node (cp_rest p) p)"

section \<open>Site control\<close>

datatype metapolicy = META_ALL | META_BY_CONTENT_TYPE | META_BY_FTP_FILENAME | META_MASTER_ONLY | META_NONE
  | META_NONE_THIS_RESPONSE

definition PolicySiteControl :: "string \<Rightarrow> metapolicy" where
  "PolicySiteControl s =
     (if s = ''all'' then META_ALL
      else if s = ''by-content-type'' then META_BY_CONTENT_TYPE
      else if s = ''by-ftp-filename'' then META_BY_FTP_FILENAME
      else if s = ''master-only'' then META_MASTER_ONLY
      else META_NONE)"

definition defaultSitePolicy :: "file_type \<Rightarrow> metapolicy" where
  "defaultSitePolicy ty = (if ty = SOCKET_FILE then META_ALL else META_MASTER_ONLY)"

section \<open>Ports\<close>

record port_range =
  startPort :: nat
  endPort :: nat
  isRange :: bool
  matchAll :: bool

definition single_port :: "nat \<Rightarrow> port_range" where
  "single_port p = \<lparr>startPort = p, endPort = 0, isRange = False, matchAll = False\<rparr>"

definition port_span :: "nat \<Rightarrow> nat \<Rightarrow> port_range" where
  "port_span a b = \<lparr>startPort = a, endPort = b, isRange = True, matchAll = False\<rparr>"

definition all_ports :: port_range where
  "all_ports = \<lparr>startPort = 0, endPort = 0, isRange = False, matchAll = True\<rparr>"

definition port_matches :: "port_range \<Rightarrow> nat \<Rightarrow> bool" where
  "port_matches r p =
     (if matchAll r then True
      else if isRange r then startPort r \<ge> p \<and> endPort r \<le> p
      else startPort r = p)"

text \<open>\<open>atoi\<close> into a \<open>uint16_t\<close>, by way of a \<open>long\<close> that does not overflow but stays at its bounds.\<close>

definition atoi_u16 :: "string \<Rightarrow> nat" where
  "atoi_u16 s =
     (let s = dropWhile is_blank s;
          neg = (s \<noteq> [] \<and> hd s = CHR ''-'');
          ds = takeWhile is_digit (if s \<noteq> [] \<and> hd s \<in> {CHR ''-'', CHR ''+''} then tl s else s);
          v = int (digits_value ds);
          v = (if neg then max (- v) (- 9223372036854775808) else min v 9223372036854775807)
      in nat (v mod 65536))"

text \<open>One piece of \<open>to-ports\<close>: the ranges it adds and whether the loop ends.\<close>

definition port_piece :: "string \<Rightarrow> nat \<Rightarrow> nat \<Rightarrow> (port_range \<times> bool) res" where
  "port_piece ports cursor commaPos =
     (let dashPos = str_find ''-'' ports commaPos in
      if dashPos \<noteq> str_npos
      then bindE (str_substr cursor (size_minus dashPos cursor) ports) (\<lambda>s.
        if s = ''*'' then Inr (all_ports, True)
        else if length ports < size_plus dashPos 1
        then bindE (str_substr (size_plus dashPos 1) (size_minus commaPos (size_plus dashPos 1)) ports) (\<lambda>t.
          Inr (port_span (atoi_u16 s) (atoi_u16 t), False))
        else Inr (single_port (atoi_u16 s), False))
      else bindE (str_substr cursor (size_minus commaPos cursor) ports) (\<lambda>s.
        if s = ''*'' then Inr (all_ports, True) else Inr (single_port (atoi_u16 s), False)))"

function to_ports_loop :: "string \<Rightarrow> nat \<Rightarrow> port_range list res" where
  "to_ports_loop ports cursor =
     (let commaPos = str_find '','' ports cursor in
      bindE (port_piece ports cursor commaPos) (\<lambda>(r, stop).
        if stop \<or> commaPos = str_npos then Inr [r]
        else map_sum id (\<lambda>rs. r # rs) (to_ports_loop ports (commaPos + 1))))"
  by pat_completeness auto


lemma str_find_from_le: "str_find w s i \<noteq> str_npos \<Longrightarrow> i \<le> str_find w s i \<and> str_find w s i \<le> length s"
  using find_from_bounds [of w "drop i s" i] by (auto simp: str_find_def split: if_splits)

termination to_ports_loop
  by (relation "measure (\<lambda>(ports, cursor). length ports + 1 - cursor)") (auto dest!: str_find_from_le)

declare to_ports_loop.simps [simp del]

section \<open>Entries\<close>

record allow_access =
  aa_domain :: string
  aa_toPorts :: "port_range list"
  aa_secure :: bool

definition PolicyAllowAccessFrom ::
  "file_type \<Rightarrow> file_subtype \<Rightarrow> string \<Rightarrow> string \<Rightarrow> bool \<Rightarrow> bool \<Rightarrow> allow_access res" where
  "PolicyAllowAccessFrom ty sub domain toPorts secure given =
     bindE (if toPorts = [] \<or> toPorts = ''*'' then Inr [all_ports] else to_ports_loop toPorts 0) (\<lambda>rs.
       Inr \<lparr>aa_domain = domain, aa_toPorts = rs,
            aa_secure = (if given then secure
              else if ty = URL_FILE \<and> sub = HTTPS then True else if ty = SOCKET_FILE then False else secure)\<rparr>)"

definition access_allows :: "file_type \<Rightarrow> file_subtype \<Rightarrow> allow_access \<Rightarrow> url_info \<Rightarrow> nat \<Rightarrow> bool \<Rightarrow> bool" where
  "access_allows ty sub a u toPort checkHttps =
     (if \<not> matchesDomain (aa_domain a) (hostname u) then False
      else if checkHttps \<and> ty = URL_FILE \<and> sub = HTTPS \<and> aa_secure a \<and> protocol u \<noteq> ''https'' then False
      else if checkHttps \<and> ty = SOCKET_FILE \<and> aa_secure a \<and> protocol u \<noteq> ''https'' then False
      else if ty = SOCKET_FILE then
        if toPort = 0 then False else list_ex (\<lambda>r. port_matches r toPort) (aa_toPorts a)
      else True)"

record allow_headers =
  ah_domain :: string
  ah_headers :: "string list"
  ah_secure :: bool

function headers_loop :: "string \<Rightarrow> nat \<Rightarrow> string list res" where
  "headers_loop s cursor =
     (let commaPos = str_find '','' s cursor in
      bindE (str_substr cursor (size_minus commaPos cursor) s) (\<lambda>h.
        if commaPos = str_npos then Inr [h] else map_sum id (\<lambda>hs. h # hs) (headers_loop s (commaPos + 1))))"
  by pat_completeness auto
termination
  by (relation "measure (\<lambda>(s, cursor). length s + 1 - cursor)") (auto dest!: str_find_from_le)

declare headers_loop.simps [simp del]

definition PolicyAllowHTTPRequestHeadersFrom ::
  "file_subtype \<Rightarrow> string \<Rightarrow> string \<Rightarrow> bool \<Rightarrow> bool \<Rightarrow> allow_headers res" where
  "PolicyAllowHTTPRequestHeadersFrom sub domain headers secure given =
     bindE (if headers = [] \<or> headers = ''*'' then Inr [''*''] else headers_loop headers 0) (\<lambda>hs.
       Inr \<lparr>ah_domain = domain, ah_headers = hs, ah_secure = (if \<not> given \<and> sub = HTTPS then True else secure)\<rparr>)"

text \<open>The last character of an empty expression lies before its beginning.\<close>

fun header_found :: "string list \<Rightarrow> string \<Rightarrow> bool res" where
  "header_found [] header = Inr False"
| "header_found (x # xs) header =
     (let e = str_lower x in
      if e = header \<or> e = ''*'' then Inr True
      else if e = [] then Inl OutOfBounds
      else if last e = CHR ''*'' \<and> take (length e - 1) header = butlast e then Inr True
      else header_found xs header)"

definition headers_allow :: "file_subtype \<Rightarrow> allow_headers \<Rightarrow> url_info \<Rightarrow> string \<Rightarrow> bool res" where
  "headers_allow sub a u header =
     (if sub \<noteq> HTTP \<and> sub \<noteq> HTTPS then Inr False
      else if \<not> matchesDomain (ah_domain a) (hostname u) then Inr False
      else if sub = HTTPS \<and> ah_secure a \<and> protocol u \<noteq> ''https'' then Inr False
      else header_found (ah_headers a) header)"

section \<open>Lists of ports and headers\<close>

text \<open>No place lies past the end of the string, and no element of \<open>to-ports\<close> becomes a range of ports.\<close>

lemma str_substr_in: "cursor \<le> length s \<Longrightarrow> \<exists>t. str_substr cursor n s = Inr t"
  by (simp add: str_substr_def)

lemma find_char_less: "str_find [c] s i \<noteq> str_npos \<Longrightarrow> str_find [c] s i < length s"
proof -
  assume a: "str_find [c] s i \<noteq> str_npos"
  have "find_from [c] s i = str_npos \<or> find_from [c] s i < i + length s" for s i
    by (induction "[c]" s i rule: find_from.induct) (auto simp: str_npos_def)
  then show ?thesis using a by (auto simp: str_find_def split: if_splits) (metis add_diff_inverse_nat length_drop not_less)
qed

lemma port_piece_ok:
  assumes "cursor \<le> length ports" and "length ports < 18446744073709551615"
  shows "\<exists>r stop. port_piece ports cursor c = Inr (r, stop) \<and> \<not> isRange r"
proof -
  have "\<not> length ports < size_plus d 1" if "d < length ports" for d
    using that assms(2) by (simp add: size_plus_def)
  then show ?thesis
    using str_substr_in [OF assms(1)] find_char_less [of "CHR ''-''" ports c]
    by (auto simp: port_piece_def Let_def bindE_def all_ports_def single_port_def split: sum.splits) (metis sum.distinct(1))+
qed

lemma to_ports_ok:
  assumes "cursor \<le> length ports" and "length ports < 18446744073709551615"
  shows "\<exists>rs. to_ports_loop ports cursor = Inr rs \<and> (\<forall>r\<in>set rs. \<not> isRange r)"
  using assms
proof (induction ports cursor rule: to_ports_loop.induct)
  case (1 ports cursor)
  let ?c = "str_find '','' ports cursor"
  obtain r stop where p: "port_piece ports cursor ?c = Inr (r, stop)" "\<not> isRange r" using port_piece_ok [OF 1(2,3)] by blast
  show ?case
  proof (cases "stop \<or> ?c = str_npos")
    case True
    then show ?thesis using p by (subst to_ports_loop.simps) simp
  next
    case False
    then have "?c + 1 \<le> length ports" using find_char_less [of "CHR '',''" ports cursor] by simp
    then obtain rs where "to_ports_loop ports (?c + 1) = Inr rs" "\<forall>r\<in>set rs. \<not> isRange r"
      using 1 (1) [OF refl p(1) refl False] 1(3) by blast
    then show ?thesis using p False by (subst to_ports_loop.simps) simp
  qed
qed

end
