(* ===== verification/PolicyFiles.thy ===== *)
theory PolicyFiles
  imports PolicyXml
begin

text \<open>
  Policy files and the lists in which the security manager keeps them (\<open>backends/security.cpp\<close>). The files lie in a
  heap and are named by their places in it; the multimaps from host names to files are lists of pairs. The network and
  the XML library are parameters. The methods run one after the other; locks are left out.

  A fault stands for an exception or an access outside of a string, \<open>OutOfFuel\<close> for code that has not returned.
\<close>

section \<open>State\<close>

record policy_file =
  pf_originalURL :: url_info
  pf_url :: url_info
  pf_type :: file_type
  pf_subtype :: file_subtype
  pf_valid :: bool
  pf_ignore :: bool
  pf_loaded :: bool
  pf_siteControl :: "metapolicy option"
  pf_access :: "allow_access list"
  pf_headers :: "allow_headers list"

record security_manager =
  heap :: "policy_file list"
  pendingFiles :: "file_type \<Rightarrow> (string \<times> nat) list"
  loadedFiles :: "file_type \<Rightarrow> (string \<times> nat) list"

text \<open>What a download and a socket deliver, for each file; \<open>unset\<close> is the content of a subtype that was not written.\<close>

record download =
  d_failed :: bool
  d_redirected :: "string option"
  d_contentType :: string
  d_content :: "u8 list"

record socket =
  s_connected :: bool
  s_sent :: bool
  s_received :: "u8 list option list"

record world =
  downloads :: "nat \<Rightarrow> url_info \<Rightarrow> download"
  sockets :: "nat \<Rightarrow> url_info \<Rightarrow> socket"
  xml_parse :: "u8 list \<Rightarrow> xml_doc"
  unset :: file_subtype

definition set_file :: "nat \<Rightarrow> (policy_file \<Rightarrow> policy_file) \<Rightarrow> security_manager \<Rightarrow> security_manager" where
  "set_file i f m = m\<lparr>heap := (heap m)[i := f (heap m ! i)]\<rparr>"

section \<open>Adding and finding files\<close>

definition url_subtype :: "file_subtype \<Rightarrow> url_info \<Rightarrow> file_subtype" where
  "url_subtype junk u =
     (if protocol u = ''http'' then HTTP else if protocol u = ''https'' then HTTPS else if protocol u = ''ftp'' then FTP else junk)"

definition new_file :: "world \<Rightarrow> file_type \<Rightarrow> url_info \<Rightarrow> policy_file" where
  "new_file w ty u =
     \<lparr>pf_originalURL = u, pf_url = u, pf_type = ty, pf_subtype = (if ty = URL_FILE then url_subtype (unset w) u else NO_SUBTYPE),
      pf_valid = valid u, pf_ignore = False, pf_loaded = False, pf_siteControl = None, pf_access = [], pf_headers = []\<rparr>"

definition add_file :: "world \<Rightarrow> file_type \<Rightarrow> url_info \<Rightarrow> security_manager \<Rightarrow> nat \<times> security_manager" where
  "add_file w ty u m =
     (let i = length (heap m); m = m\<lparr>heap := heap m @ [new_file w ty u]\<rparr>
      in (i, if valid u then m\<lparr>pendingFiles := (pendingFiles m)(ty := pendingFiles m ty @ [(hostname u, i)])\<rparr> else m))"

definition addPolicyFile :: "world \<Rightarrow> url_info \<Rightarrow> security_manager \<Rightarrow> nat option \<times> security_manager" where
  "addPolicyFile w u m =
     (if protocol u \<in> {''http'', ''https'', ''ftp''} then apfst Some (add_file w URL_FILE u m)
      else if protocol u = ''xmlsocket'' then apfst Some (add_file w SOCKET_FILE u m)
      else (None, m))"

definition files_at :: "string \<Rightarrow> (string \<times> nat) list \<Rightarrow> nat list" where
  "files_at h xs = map snd (filter (\<lambda>(k, i). k = h) xs)"

definition getPolicyFileByURL :: "file_type \<Rightarrow> url_info \<Rightarrow> security_manager \<Rightarrow> nat option" where
  "getPolicyFileByURL ty u m =
     find (\<lambda>i. getParsedURL (pf_originalURL (heap m ! i)) = getParsedURL u)
       (files_at (hostname u) (loadedFiles m ty) @ files_at (hostname u) (pendingFiles m ty))"

section \<open>Master files\<close>

definition isMaster :: "policy_file \<Rightarrow> bool" where
  "isMaster f \<longleftrightarrow> (case pf_type f of URL_FILE \<Rightarrow> upath (pf_url f) = ''/crossdomain.xml'' | SOCKET_FILE \<Rightarrow> port (pf_url f) = 843)"

definition getMetaPolicy :: "policy_file \<Rightarrow> metapolicy" where
  "getMetaPolicy f =
     (if \<not> isMaster f then META_NONE
      else case pf_siteControl f of Some p \<Rightarrow> p
        | None \<Rightarrow> if pf_valid f \<and> pf_loaded f then defaultSitePolicy (pf_type f) else META_NONE)"

definition master_url :: "file_type \<Rightarrow> url_info \<Rightarrow> url_info res" where
  "master_url ty u = (case goToURL u (if ty = URL_FILE then ''/crossdomain.xml'' else '':843'') of None \<Rightarrow> Inl OutOfFuel | Some r \<Rightarrow> r)"

definition find_or_add :: "world \<Rightarrow> file_type \<Rightarrow> url_info \<Rightarrow> security_manager \<Rightarrow> nat \<times> security_manager" where
  "find_or_add w ty u m = (case getPolicyFileByURL ty u m of Some j \<Rightarrow> (j, m) | None \<Rightarrow> add_file w ty u m)"

definition getMasterPolicyFile :: "world \<Rightarrow> nat \<Rightarrow> security_manager \<Rightarrow> (nat \<times> security_manager) res" where
  "getMasterPolicyFile w i m =
     (let f = heap m ! i in
      if isMaster f then Inr (i, m)
      else bindE (master_url (pf_type f) (pf_url f)) (\<lambda>u. Inr (find_or_add w (pf_type f) u m)))"

section \<open>Retrieving a file\<close>

definition follow_redirection :: "download \<Rightarrow> policy_file \<Rightarrow> (bool \<times> policy_file) res" where
  "follow_redirection d f =
     (if d_failed d then Inr (False, f)
      else case d_redirected d of
        None \<Rightarrow> Inr (True, f)
      | Some s \<Rightarrow> (case URLInfo s of
          None \<Rightarrow> Inl OutOfFuel
        | Some r \<Rightarrow> bindE r (\<lambda>u. Inr (hostname (pf_url f) = hostname u, f\<lparr>pf_url := u\<rparr>))))"

definition content_type :: "download \<Rightarrow> string" where "content_type d = takeWhile (\<lambda>c. c \<noteq> CHR '';'') (d_contentType d)"

definition type_accepted :: "file_subtype \<Rightarrow> string \<Rightarrow> bool" where
  "type_accepted sub ct \<longleftrightarrow>
     \<not> ((sub = HTTP \<or> sub = HTTPS) \<and> take 5 ct \<noteq> ''text/'' \<and> ct \<noteq> ''application/xml'' \<and> ct \<noteq> ''application/xhtml+xml'')"

definition retrieve_url :: "world \<Rightarrow> nat \<Rightarrow> security_manager \<Rightarrow> (bool \<times> u8 list \<times> security_manager) res" where
  "retrieve_url w i m =
     (let d = downloads w i (pf_url (heap m ! i)); sub = pf_subtype (heap m ! i) in
      bindE (follow_redirection d (heap m ! i)) (\<lambda>(ok, f).
        let m = set_file i (\<lambda>_. f) m; ok = (ok \<and> type_accepted sub (content_type d)) in
        if ok \<and> \<not> isMaster f
        then bindE (getMasterPolicyFile w i m) (\<lambda>(j, m).
               let g = heap m ! j in
               Inr (True, d_content d,
                 if pf_valid g \<and> (sub = HTTP \<or> sub = HTTPS) \<and> getMetaPolicy g = META_BY_CONTENT_TYPE
                    \<and> content_type d \<noteq> ''text/x-cross-domain-policy''
                 then set_file i (pf_ignore_update (\<lambda>_. True)) m else m))
        else Inr (ok, if ok then d_content d else [], m)))"

definition default_policy :: "u8 list" where "default_policy = bytes_of ''<cross-domain-policy/>''"

text \<open>The data that arrive and whether the last call has failed.\<close>

fun receive_all :: "u8 list option list \<Rightarrow> u8 list \<times> bool" where
  "receive_all [] = ([], False)"
| "receive_all (None # cs) = ([], True)"
| "receive_all (Some b # cs) = (if length b = 4096 then apfst ((@) b) (receive_all cs) else (b, False))"

definition retrieve_socket :: "socket \<Rightarrow> policy_file \<Rightarrow> bool \<times> u8 list" where
  "retrieve_socket s f =
     (if \<not> s_connected s then if isMaster f then (True, default_policy) else (False, [])
      else if \<not> s_sent s then (False, [])
      else let (data, failed) = receive_all (s_received s) in
        if failed \<and> data = [] then (False, [])
        else if data = [] \<or> (last data \<noteq> 0 \<and> last data \<noteq> 62 \<and> last data \<noteq> 10) then (False, [])
        else (True, butlast data))"

definition retrievePolicyFile :: "world \<Rightarrow> nat \<Rightarrow> security_manager \<Rightarrow> (bool \<times> u8 list \<times> security_manager) res" where
  "retrievePolicyFile w i m =
     (let f = heap m ! i in
      case pf_type f of
        URL_FILE \<Rightarrow> retrieve_url w i m
      | SOCKET_FILE \<Rightarrow> (let (ok, data) = retrieve_socket (sockets w i (pf_url f)) f in Inr (ok, data, m)))"

section \<open>Reading a file\<close>

definition handlePolicyElement :: "policy_element \<Rightarrow> policy_file \<Rightarrow> policy_file res" where
  "handlePolicyElement e f = (case e of
       SITE_CONTROL v \<Rightarrow>
         (if pf_siteControl f \<noteq> None \<and> getMetaPolicy f = META_NONE then Inr f
          else Inr (f\<lparr>pf_siteControl := Some (PolicySiteControl v)\<rparr>))
     | ALLOW_ACCESS_FROM d ports s given \<Rightarrow>
         bindE (PolicyAllowAccessFrom (pf_type f) (pf_subtype f) d ports s given) (\<lambda>a. Inr (f\<lparr>pf_access := pf_access f @ [a]\<rparr>))
     | ALLOW_HTTP_REQUEST_HEADERS_FROM d h s given \<Rightarrow>
         if pf_type f = URL_FILE
         then bindE (PolicyAllowHTTPRequestHeadersFrom (pf_subtype f) d h s given) (\<lambda>a. Inr (f\<lparr>pf_headers := pf_headers f @ [a]\<rparr>))
         else Inr f
     | _ \<Rightarrow> Inr f)"

definition stops_parsing :: "policy_element \<Rightarrow> policy_file \<Rightarrow> bool" where
  "stops_parsing e f \<longleftrightarrow> (case e of SITE_CONTROL v \<Rightarrow> isMaster f \<and> getMetaPolicy f = META_NONE | _ \<Rightarrow> False)"

text \<open>The file after all elements and whether the last one was invalid.\<close>

function parse_elements :: "cross_domain_policy \<Rightarrow> policy_file \<Rightarrow> (bool \<times> policy_file) res" where
  "parse_elements p f = (case getNextElement p of (e, p') \<Rightarrow>
     if e = POLICY_END then Inr (False, f)
     else if e = INVALID then Inr (True, f)
     else bindE (handlePolicyElement e f) (\<lambda>f. if stops_parsing e f then Inr (False, f) else parse_elements p' f))"
  by pat_completeness auto

definition nodes_left :: "cross_domain_policy \<Rightarrow> nat" where
  "nodes_left p = (if cp_first p then Suc (length (snd (cp_doc p))) else length (cp_rest p))"

lemma next_node_rest:
  assumes "next_node ns p = (e, p')" and "e \<noteq> POLICY_END"
  shows "length (cp_rest p') < length ns \<and> cp_first p' = cp_first p"
  using assms
  by (induction ns p arbitrary: e p' rule: next_node.induct)
    (fastforce simp: Let_def site_control_element_def split: if_splits)+

lemma getNextElement_left:
  assumes "getNextElement p = (e, p')" and "e \<noteq> POLICY_END" and "e \<noteq> INVALID"
  shows "nodes_left p' < nodes_left p"
  using assms by (auto simp: getNextElement_def nodes_left_def split: if_splits dest!: next_node_rest)

termination parse_elements
  by (relation "measure (\<lambda>(p, f). nodes_left p)") (auto dest!: getNextElement_left [OF sym])

declare parse_elements.simps [simp del]

definition checkSiteControlValidity :: "policy_file \<Rightarrow> bool" where
  "checkSiteControlValidity f =
     (if pf_type f = SOCKET_FILE then True
      else if (pf_subtype f = HTTP \<or> pf_subtype f = HTTPS) \<and> getMetaPolicy f = META_BY_FTP_FILENAME then False
      else if pf_subtype f = FTP \<and> getMetaPolicy f = META_BY_CONTENT_TYPE then False
      else True)"

definition after_parsing :: "bool \<Rightarrow> policy_file \<Rightarrow> policy_file" where
  "after_parsing bad f =
     (let f = (if bad then f\<lparr>pf_valid := False\<rparr> else f) in
      if isMaster f
      then let f = (if getMetaPolicy f = META_NONE then f\<lparr>pf_ignore := True\<rparr> else f)
           in f\<lparr>pf_valid := checkSiteControlValidity f\<rparr>
      else f)"

definition read_policy :: "world \<Rightarrow> u8 list \<Rightarrow> policy_file \<Rightarrow> policy_file res" where
  "read_policy w data f =
     (if pf_valid f \<and> \<not> pf_ignore f
      then bindE (parse_elements (CrossDomainPolicy (xml_parse w data) (pf_type f) (pf_subtype f) (isMaster f)) f)
             (\<lambda>(bad, f). Inr (after_parsing bad f))
      else Inr (f\<lparr>pf_valid := False\<rparr>))"


section \<open>Loading\<close>

text \<open>\<open>ld\<close> is \<open>PolicyFile::load\<close>, which loads the master file first.\<close>

definition loadPolicyFile ::
  "(nat \<Rightarrow> security_manager \<Rightarrow> security_manager res) \<Rightarrow> file_type \<Rightarrow> nat \<Rightarrow> security_manager \<Rightarrow> security_manager res" where
  "loadPolicyFile ld ty i m =
     (if files_at (hostname (pf_url (heap m ! i))) (pendingFiles m ty) = [] then Inr m
      else bindE (ld i m) (\<lambda>m.
        let h = hostname (pf_url (heap m ! i)) in
        Inr (if (h, i) \<in> set (pendingFiles m ty)
             then m\<lparr>loadedFiles := (loadedFiles m)(ty := loadedFiles m ty @ [(h, i)]),
                    pendingFiles := (pendingFiles m)(ty := remove1 (h, i) (pendingFiles m ty))\<rparr>
             else m)))"

definition master_ignores :: "policy_file \<Rightarrow> policy_file \<Rightarrow> bool" where
  "master_ignores g f =
     (if \<not> pf_valid g then False
      else let p = getMetaPolicy g in
        if p = META_MASTER_ONLY \<or> p = META_NONE then True
        else pf_type f = URL_FILE \<and> pf_subtype f = FTP \<and> p = META_BY_FTP_FILENAME \<and> pathFile (pf_url f) \<noteq> ''crossdomain.xml'')"

definition isIgnoredByMaster ::
  "(nat \<Rightarrow> security_manager \<Rightarrow> security_manager res) \<Rightarrow> world \<Rightarrow> nat \<Rightarrow> security_manager \<Rightarrow> (bool \<times> security_manager) res" where
  "isIgnoredByMaster ld w i m =
     (let ty = pf_type (heap m ! i) in
      if isMaster (heap m ! i) then Inr (False, m)
      else bindE (getMasterPolicyFile w i m) (\<lambda>(j, m). bindE (loadPolicyFile ld ty j m) (\<lambda>m.
        Inr (master_ignores (heap m ! j) (heap m ! i), m))))"

primrec load :: "nat \<Rightarrow> world \<Rightarrow> nat \<Rightarrow> security_manager \<Rightarrow> security_manager res" where
  "load 0 w i m = Inl OutOfFuel"
| "load (Suc n) w i m =
     (if \<not> pf_valid (heap m ! i) \<or> pf_loaded (heap m ! i) then Inr m
      else bindE (isIgnoredByMaster (load n w) w i m) (\<lambda>(ig, m).
        let m = set_file i (pf_ignore_update (\<lambda>_. ig)) m in
        bindE (if ig then Inr (pf_valid (heap m ! i), [], m) else retrievePolicyFile w i m) (\<lambda>(ok, data, m).
          let m = set_file i (pf_valid_update (\<lambda>_. ok)) m in
          if pf_loaded (heap m ! i) then Inr m
          else bindE (read_policy w data ((heap m ! i)\<lparr>pf_loaded := True\<rparr>)) (\<lambda>f. Inr (set_file i (\<lambda>_. f) m)))))"

section \<open>Searching\<close>

text \<open>The pending files of a host are loaded one after the other, as long as there are any.\<close>

primrec load_pending :: "nat \<Rightarrow> world \<Rightarrow> file_type \<Rightarrow> string \<Rightarrow> security_manager \<Rightarrow> (nat list \<times> security_manager) res" where
  "load_pending 0 w ty h m = Inl OutOfFuel"
| "load_pending (Suc n) w ty h m = (case files_at h (pendingFiles m ty) of
       [] \<Rightarrow> Inr ([], m)
     | j # _ \<Rightarrow> bindE (loadPolicyFile (load (Suc n) w) ty j m) (\<lambda>m. bindE (load_pending n w ty h m) (\<lambda>(js, m). Inr (j # js, m))))"

definition searchPolicyFiles ::
  "nat \<Rightarrow> world \<Rightarrow> file_type \<Rightarrow> url_info \<Rightarrow> nat \<Rightarrow> bool \<Rightarrow> security_manager \<Rightarrow> (nat list option \<times> security_manager) res" where
  "searchPolicyFiles n w ty u master loadPending m =
     (let g = heap m ! master in
      if \<not> (pf_loaded g \<and> pf_valid g) then Inr (Some [], m)
      else if getMetaPolicy g = META_NONE then Inr (None, m)
      else if getMetaPolicy g = META_MASTER_ONLY then Inr (Some [master], m)
      else let js = master # filter (\<lambda>j. j \<noteq> master) (files_at (hostname u) (loadedFiles m ty)) in
        if loadPending then bindE (load_pending n w ty (hostname u) m) (\<lambda>(ks, m). Inr (Some (js @ ks), m))
        else Inr (Some js, m))"

text \<open>A file of the URL, found or added, and loaded if the caller wants it.\<close>

definition get_file :: "nat \<Rightarrow> world \<Rightarrow> file_type \<Rightarrow> url_info \<Rightarrow> bool \<Rightarrow> security_manager \<Rightarrow> (nat \<times> security_manager) res" where
  "get_file n w ty u loadPending m =
     (let (j, m) = find_or_add w ty u m in
      if loadPending then bindE (loadPolicyFile (load n w) ty j m) (\<lambda>m. Inr (j, m)) else Inr (j, m))"

definition searchURLPolicyFiles ::
  "nat \<Rightarrow> world \<Rightarrow> url_info \<Rightarrow> bool \<Rightarrow> security_manager \<Rightarrow> (nat list option \<times> security_manager) res" where
  "searchURLPolicyFiles n w u loadPending m =
     bindE (master_url URL_FILE u) (\<lambda>mu. bindE (get_file n w URL_FILE mu loadPending m) (\<lambda>(j, m).
       searchPolicyFiles n w URL_FILE u j loadPending m))"

text \<open>The port of the connection is asked last, unless its file is known already.\<close>

definition socket_target ::
  "nat \<Rightarrow> world \<Rightarrow> url_info \<Rightarrow> bool \<Rightarrow> nat \<Rightarrow> nat list option \<Rightarrow> security_manager \<Rightarrow> (nat list option \<times> security_manager) res" where
  "socket_target n w u loadPending j r m = (case r of
       None \<Rightarrow> Inr (None, m)
     | Some js \<Rightarrow>
         if pf_loaded (heap m ! j) \<and> pf_valid (heap m ! j) \<and> getMetaPolicy (heap m ! j) = META_ALL
            \<and> getPolicyFileByURL SOCKET_FILE u m = None
         then bindE (get_file n w SOCKET_FILE u loadPending m) (\<lambda>(k, m). Inr (Some (js @ [k]), m))
         else Inr (Some js, m))"

definition searchSocketPolicyFiles ::
  "nat \<Rightarrow> world \<Rightarrow> url_info \<Rightarrow> bool \<Rightarrow> security_manager \<Rightarrow> (nat list option \<times> security_manager) res" where
  "searchSocketPolicyFiles n w u loadPending m =
     bindE (master_url SOCKET_FILE u) (\<lambda>mu. bindE (get_file n w SOCKET_FILE mu loadPending m) (\<lambda>(j, m).
       if pf_loaded (heap m ! j) \<and> \<not> pf_valid (heap m ! j)
       then bindE (get_file n w SOCKET_FILE u loadPending m) (\<lambda>(k, m). Inr (Some [k], m))
       else bindE (searchPolicyFiles n w SOCKET_FILE u j loadPending m) (\<lambda>(r, m). socket_target n w u loadPending j r m)))"

section \<open>What a file allows\<close>

definition allowsAccessFrom :: "policy_file \<Rightarrow> url_info \<Rightarrow> url_info \<Rightarrow> bool" where
  "allowsAccessFrom f requesting to =
     (if \<not> pf_loaded f then False
      else if pf_type f = URL_FILE \<and> \<not> isMaster f \<and> \<not> isSubOf to (pf_url f) then False
      else if \<not> pf_valid f \<or> pf_ignore f then False
      else if pf_type f = URL_FILE
      then list_ex (\<lambda>a. access_allows URL_FILE (pf_subtype f) a requesting 0 (protocol requesting = ''https'')) (pf_access f)
      else list_ex (\<lambda>a. access_allows SOCKET_FILE (pf_subtype f) a requesting (port to) True) (pf_access f))"

fun any_header :: "file_subtype \<Rightarrow> allow_headers list \<Rightarrow> url_info \<Rightarrow> string \<Rightarrow> bool res" where
  "any_header sub [] u header = Inr False"
| "any_header sub (a # as) u header = bindE (headers_allow sub a u header) (\<lambda>b. if b then Inr True else any_header sub as u header)"

text \<open>The parameter \<open>url\<close> hides the URL of the file.\<close>

definition allowsHTTPRequestHeaderFrom :: "policy_file \<Rightarrow> url_info \<Rightarrow> url_info \<Rightarrow> string \<Rightarrow> bool res" where
  "allowsHTTPRequestHeaderFrom f u to header =
     (if \<not> pf_loaded f then Inr False
      else if pf_subtype f \<noteq> HTTP \<and> pf_subtype f \<noteq> HTTPS then Inr False
      else if \<not> isMaster f \<and> \<not> isSubOf to u then Inr False
      else if \<not> pf_valid f \<or> pf_ignore f then Inr False
      else any_header (pf_subtype f) (pf_headers f) u header)"

end
