(* ===== verification/PolicyInvariant.thy ===== *)
theory PolicyInvariant
  imports PolicyFiles
begin

text \<open>
  What all operations on policy files keep: an entry of a policy file stands in a document that the server of the file
  has delivered, the lists name files of the right kind and host, and a file that has been loaded does not change.
\<close>

section \<open>Where entries come from\<close>

definition lists_access :: "xml_doc \<Rightarrow> file_type \<Rightarrow> file_subtype \<Rightarrow> allow_access \<Rightarrow> bool" where
  "lists_access d ty sub a \<longleftrightarrow> fst d = ''cross-domain-policy'' \<and> (\<exists>as. XElement ''allow-access-from'' as \<in> set (snd d)
     \<and> PolicyAllowAccessFrom ty sub (attr_value ''domain'' as) (attr_value ''to-ports'' as) (fst (attr_secure as)) (snd (attr_secure as)) = Inr a)"

definition lists_headers :: "xml_doc \<Rightarrow> file_subtype \<Rightarrow> allow_headers \<Rightarrow> bool" where
  "lists_headers d sub a \<longleftrightarrow> fst d = ''cross-domain-policy'' \<and> (\<exists>as. XElement ''allow-http-request-headers-from'' as \<in> set (snd d)
     \<and> PolicyAllowHTTPRequestHeadersFrom sub (attr_value ''domain'' as) (attr_value ''headers'' as) (fst (attr_secure as)) (snd (attr_secure as)) = Inr a)"

text \<open>The document of a file as its server delivers it.\<close>

fun served :: "world \<Rightarrow> nat \<Rightarrow> file_type \<Rightarrow> url_info \<Rightarrow> u8 list \<Rightarrow> bool" where
  "served w i URL_FILE u data \<longleftrightarrow> (let d = downloads w i u in
     \<not> d_failed d \<and> (\<forall>s. d_redirected d = Some s \<longrightarrow> (\<exists>v. URLInfo s = Some (Inr v) \<and> hostname v = hostname u))
     \<and> type_accepted (url_subtype (unset w) u) (content_type d) \<and> data = d_content d)"
| "served w i SOCKET_FILE u data \<longleftrightarrow> retrieve_socket (sockets w i u) (new_file w SOCKET_FILE u) = (True, data)"

definition nodes_of :: "cross_domain_policy \<Rightarrow> xml_node set" where
  "nodes_of p = set (if cp_first p then snd (cp_doc p) else cp_rest p)"

fun comes_from :: "policy_element \<Rightarrow> xml_node set \<Rightarrow> bool" where
  "comes_from (ALLOW_ACCESS_FROM d q s g) N \<longleftrightarrow> (\<exists>as. XElement ''allow-access-from'' as \<in> N
     \<and> d = attr_value ''domain'' as \<and> q = attr_value ''to-ports'' as \<and> attr_secure as = (s, g))"
| "comes_from (ALLOW_HTTP_REQUEST_HEADERS_FROM d q s g) N \<longleftrightarrow> (\<exists>as. XElement ''allow-http-request-headers-from'' as \<in> N
     \<and> d = attr_value ''domain'' as \<and> q = attr_value ''headers'' as \<and> attr_secure as = (s, g))"
| "comes_from e N = True"

lemma comes_from_mono: "comes_from e N \<Longrightarrow> N \<subseteq> M \<Longrightarrow> comes_from e M"
  by (cases e) auto

lemma element_from:
  "comes_from (fst (site_control_element p as)) N"
  "XElement ''allow-access-from'' as \<in> N \<Longrightarrow> comes_from (access_element p as) N"
  "XElement ''allow-http-request-headers-from'' as \<in> N \<Longrightarrow> comes_from (headers_element p as) N"
  by (auto simp: site_control_element_def access_element_def headers_element_def Let_def split: prod.splits)

lemma site_control_same:
  "cp_rest (snd (site_control_element p as)) = cp_rest p" "cp_first (snd (site_control_element p as)) = cp_first p"
  "cp_doc (snd (site_control_element p as)) = cp_doc p"
  by (simp_all add: site_control_element_def Let_def)

lemma next_node_from:
  "comes_from (fst (next_node ns p)) (set ns) \<and> set (cp_rest (snd (next_node ns p))) \<subseteq> set ns
    \<and> cp_first (snd (next_node ns p)) = cp_first p \<and> cp_doc (snd (next_node ns p)) = cp_doc p"
proof (induction ns p rule: next_node.induct)
  case (3 n as ns p)
  have sub: "set ns \<subseteq> set (XElement n as # ns)" by auto
  show ?case
  proof (cases "n = ''site-control'' \<or> n = ''allow-access-from'' \<or> n = ''allow-http-request-headers-from''")
    case True
    then show ?thesis using element_from(1) element_from(2,3) [of as "set (XElement n as # ns)"] by (auto simp: Let_def site_control_same)
  next
    case False
    then have n: "next_node (XElement n as # ns) p = next_node ns p" by simp
    have "comes_from (fst (next_node ns p)) (set ns) \<and> set (cp_rest (snd (next_node ns p))) \<subseteq> set ns
        \<and> cp_first (snd (next_node ns p)) = cp_first p \<and> cp_doc (snd (next_node ns p)) = cp_doc p"
      using 3 False by blast
    then show ?thesis unfolding n using comes_from_mono [OF _ sub] sub by blast
  qed
next
  case (2 ns p)
  then show ?case using comes_from_mono [of _ "set ns" "set (XOther # ns)"] by auto
qed simp

lemma getNextElement_from:
  assumes "getNextElement p = (e, p')" and "e \<noteq> INVALID"
  shows "comes_from e (nodes_of p)" and "nodes_of p' \<subseteq> nodes_of p" and "cp_doc p' = cp_doc p" and "\<not> cp_first p'"
    and "cp_first p \<Longrightarrow> fst (cp_doc p) = ''cross-domain-policy''"
proof -
  let ?ns = "if cp_first p then snd (cp_doc p) else cp_rest p" and ?p = "if cp_first p then p\<lparr>cp_first := False\<rparr> else p"
  have n: "(e, p') = next_node ?ns ?p" using assms by (auto simp: getNextElement_def split: if_splits)
  show "cp_first p \<Longrightarrow> fst (cp_doc p) = ''cross-domain-policy''" using assms by (auto simp: getNextElement_def split: if_splits)
  show "comes_from e (nodes_of p)" "nodes_of p' \<subseteq> nodes_of p" "cp_doc p' = cp_doc p" "\<not> cp_first p'"
    using next_node_from [of ?ns ?p] unfolding n [symmetric] nodes_of_def by (auto split: if_splits)
qed

lemma handle_unchanged:
  assumes "handlePolicyElement e f = Inr f'"
  shows "pf_type f' = pf_type f \<and> pf_subtype f' = pf_subtype f \<and> pf_originalURL f' = pf_originalURL f \<and> pf_url f' = pf_url f
    \<and> pf_valid f' = pf_valid f \<and> pf_loaded f' = pf_loaded f \<and> pf_ignore f' = pf_ignore f"
  using assms by (auto simp: handlePolicyElement_def bindE_Inr_conv split: policy_element.splits if_splits)

lemma parse_unchanged:
  assumes "parse_elements p f = Inr (bad, f')"
  shows "pf_type f' = pf_type f \<and> pf_subtype f' = pf_subtype f \<and> pf_originalURL f' = pf_originalURL f \<and> pf_url f' = pf_url f
    \<and> pf_valid f' = pf_valid f \<and> pf_loaded f' = pf_loaded f \<and> pf_ignore f' = pf_ignore f"
  using assms
proof (induction p f arbitrary: bad f' rule: parse_elements.induct)
  case (1 p f)
  obtain e p' where g: "getNextElement p = (e, p')" by (cases "getNextElement p")
  show ?case
  proof (cases "e = POLICY_END \<or> e = INVALID")
    case True
    then show ?thesis using 1(2) g by (subst (asm) parse_elements.simps) (auto split: if_splits)
  next
    case False
    then obtain f1 where f1: "handlePolicyElement e f = Inr f1" "(if stops_parsing e f1 then Inr (False, f1) else parse_elements p' f1) = Inr (bad, f')"
      using 1(2) g by (subst (asm) parse_elements.simps) (auto simp: bindE_Inr_conv)
    then show ?thesis
      using 1(1) [OF g [symmetric] _ _ f1(1)] False handle_unchanged [OF f1(1)] by (cases "stops_parsing e f1") auto
  qed
qed


lemma handle_entries:
  assumes "handlePolicyElement e f = Inr f'" and "comes_from e (set (snd d))" and "fst d = ''cross-domain-policy''"
  shows "\<forall>a\<in>set (pf_access f'). a \<in> set (pf_access f) \<or> lists_access d (pf_type f) (pf_subtype f) a"
    and "\<forall>a\<in>set (pf_headers f'). a \<in> set (pf_headers f) \<or> lists_headers d (pf_subtype f) a"
  using assms
  by (cases e; fastforce simp: handlePolicyElement_def bindE_Inr_conv lists_access_def lists_headers_def split: if_splits)+

lemma parse_entries:
  assumes "parse_elements p f = Inr (bad, f')" and "nodes_of p \<subseteq> set (snd d)" and "cp_doc p = d"
    and "\<not> cp_first p \<Longrightarrow> fst d = ''cross-domain-policy''"
  shows "(\<forall>a\<in>set (pf_access f'). a \<in> set (pf_access f) \<or> lists_access d (pf_type f) (pf_subtype f) a)
    \<and> (\<forall>a\<in>set (pf_headers f'). a \<in> set (pf_headers f) \<or> lists_headers d (pf_subtype f) a)"
  using assms
proof (induction p f arbitrary: bad f' rule: parse_elements.induct)
  case (1 p f)
  obtain e p' where g: "getNextElement p = (e, p')" by (cases "getNextElement p")
  show ?case
  proof (cases "e = POLICY_END \<or> e = INVALID")
    case True
    then show ?thesis using 1(2) g by (subst (asm) parse_elements.simps) (auto split: if_splits)
  next
    case False
    then have e: "e \<noteq> POLICY_END" "e \<noteq> INVALID" by simp_all
    obtain f1 where f1: "handlePolicyElement e f = Inr f1" "(if stops_parsing e f1 then Inr (False, f1) else parse_elements p' f1) = Inr (bad, f')"
      using 1(2) g e by (subst (asm) parse_elements.simps) (auto simp: bindE_Inr_conv)
    note p' = getNextElement_from [OF g e(2)]
    have r: "fst d = ''cross-domain-policy''" using p'(5) 1(4,5) by blast
    note en = handle_entries [OF f1(1) comes_from_mono [OF p'(1) 1(3)] r]
    show ?thesis
    proof (cases "stops_parsing e f1")
      case True
      then show ?thesis using en f1(2) by simp
    next
      case False
      then have "parse_elements p' f1 = Inr (bad, f')" using f1(2) by simp
      from 1(1) [OF g [symmetric] e f1(1) False this] p' 1(3,4) r handle_unchanged [OF f1(1)] en
      show ?thesis by (metis (no_types, lifting) subset_trans)
    qed
  qed
qed

section \<open>Invariants\<close>

definition entries_ok :: "world \<Rightarrow> nat \<Rightarrow> policy_file \<Rightarrow> bool" where
  "entries_ok w i f \<longleftrightarrow> pf_subtype f = pf_subtype (new_file w (pf_type f) (pf_originalURL f))
     \<and> (\<forall>a\<in>set (pf_access f). \<exists>data. served w i (pf_type f) (pf_originalURL f) data \<and> lists_access (xml_parse w data) (pf_type f) (pf_subtype f) a)
     \<and> (\<forall>a\<in>set (pf_headers f). \<exists>data. served w i (pf_type f) (pf_originalURL f) data \<and> lists_headers (xml_parse w data) (pf_subtype f) a)"

definition fresh :: "policy_file \<Rightarrow> bool" where
  "fresh f \<longleftrightarrow> pf_loaded f \<or> pf_access f = [] \<and> pf_headers f = [] \<and> pf_url f = pf_originalURL f"

text \<open>The files in \<open>X\<close> are being loaded.\<close>

definition manager_ok :: "world \<Rightarrow> nat set \<Rightarrow> security_manager \<Rightarrow> bool" where
  "manager_ok w X m \<longleftrightarrow>
     (\<forall>i<length (heap m). entries_ok w i (heap m ! i) \<and> (i \<in> X \<or> fresh (heap m ! i)))
     \<and> (\<forall>ty h i. (h, i) \<in> set (pendingFiles m ty) \<union> set (loadedFiles m ty) \<longrightarrow>
          i < length (heap m) \<and> pf_type (heap m ! i) = ty \<and> hostname (pf_originalURL (heap m ! i)) = h)"

definition grows :: "security_manager \<Rightarrow> security_manager \<Rightarrow> bool" where
  "grows m m' \<longleftrightarrow> length (heap m) \<le> length (heap m') \<and> (\<forall>i<length (heap m).
     pf_type (heap m' ! i) = pf_type (heap m ! i) \<and> pf_originalURL (heap m' ! i) = pf_originalURL (heap m ! i)
     \<and> (pf_loaded (heap m ! i) \<longrightarrow> heap m' ! i = heap m ! i))"

lemma manager_grows_refl [simp]: "grows m m"
  by (simp add: grows_def)

lemma manager_grows_trans [trans]: "grows m m' \<Longrightarrow> grows m' m'' \<Longrightarrow> grows m m''"
  unfolding grows_def by (meson order_less_le_trans order_trans | simp)+

lemma manager_grows_length: "grows m m' \<Longrightarrow> i < length (heap m) \<Longrightarrow> i < length (heap m')"
  by (simp add: grows_def)

lemma set_file_sel [simp]:
  "length (heap (set_file i g m)) = length (heap m)" "pendingFiles (set_file i g m) = pendingFiles m"
  "loadedFiles (set_file i g m) = loadedFiles m"
  "i < length (heap m) \<Longrightarrow> heap (set_file i g m) ! i = g (heap m ! i)" "i \<noteq> j \<Longrightarrow> heap (set_file i g m) ! j = heap m ! j"
  by (simp_all add: set_file_def)

text \<open>A file that is not loaded may change, if it keeps its kind and its original URL.\<close>

lemma set_file_ok:
  assumes "manager_ok w X m" and "i < length (heap m)"
    and "pf_type (g (heap m ! i)) = pf_type (heap m ! i)" "pf_originalURL (g (heap m ! i)) = pf_originalURL (heap m ! i)"
    and "entries_ok w i (g (heap m ! i))" and "i \<in> Y \<or> fresh (g (heap m ! i))" and "X \<subseteq> insert i Y"
  shows "manager_ok w Y (set_file i g m)"
proof -
  have "entries_ok w j (heap (set_file i g m) ! j) \<and> (j \<in> Y \<or> fresh (heap (set_file i g m) ! j))" if "j < length (heap m)" for j
    using assms that by (cases "i = j") (auto simp: manager_ok_def)
  moreover have "pf_type (heap (set_file i g m) ! j) = pf_type (heap m ! j) \<and> pf_originalURL (heap (set_file i g m) ! j) = pf_originalURL (heap m ! j)" for j
    using assms by (cases "i = j") auto
  ultimately show ?thesis using assms(1) by (auto simp: manager_ok_def)
qed

lemma set_file_grows:
  assumes "grows m m'" and "i < length (heap m)" and "\<not> pf_loaded (heap m ! i)"
    and "pf_type (g (heap m' ! i)) = pf_type (heap m' ! i)" "pf_originalURL (g (heap m' ! i)) = pf_originalURL (heap m' ! i)"
  shows "grows m (set_file i g m')"
proof -
  have "i < length (heap m')" using manager_grows_length assms by blast
  then have "pf_type (heap (set_file i g m') ! j) = pf_type (heap m' ! j) \<and> pf_originalURL (heap (set_file i g m') ! j) = pf_originalURL (heap m' ! j)" for j
    using assms by (cases "i = j") auto
  moreover have "heap (set_file i g m') ! j = heap m' ! j" if "pf_loaded (heap m ! j)" for j using that assms(3) by (cases "i = j") auto
  ultimately show ?thesis using assms(1) by (auto simp: grows_def)
qed

lemma new_file_ok: "entries_ok w i (new_file w ty u)" "fresh (new_file w ty u)"
  by (simp_all add: new_file_def entries_ok_def fresh_def)

lemma add_file_ok:
  assumes "manager_ok w X m" and "add_file w ty u m = (i, m')"
  shows "manager_ok w X m'" and "grows m m'" and "i = length (heap m)" and "heap m' = heap m @ [new_file w ty u]" and "loadedFiles m' = loadedFiles m"
proof -
  show h: "heap m' = heap m @ [new_file w ty u]" "i = length (heap m)" "loadedFiles m' = loadedFiles m"
    using assms(2) by (auto simp: add_file_def Let_def)
  then show "grows m m'" by (simp add: grows_def nth_append)
  have new: "pf_type (new_file w ty u) = ty" "pf_originalURL (new_file w ty u) = u" by (simp_all add: new_file_def)
  have p: "(h, j) \<in> set (pendingFiles m t) \<or> t = ty \<and> h = hostname u \<and> j = length (heap m)" if "(h, j) \<in> set (pendingFiles m' t)" for h j t
    using assms(2) that by (auto simp: add_file_def Let_def split: if_splits)
  have old: "heap m' ! j = heap m ! j" if "j < length (heap m)" for j using h(1) that by (simp add: nth_append)
  have last: "heap m' ! length (heap m) = new_file w ty u" using h(1) by simp
  note ok = assms(1) [unfolded manager_ok_def]
  have "entries_ok w j (heap m' ! j) \<and> (j \<in> X \<or> fresh (heap m' ! j))" if "j < length (heap m')" for j
  proof (cases "j = length (heap m)")
    case True
    then show ?thesis using last new_file_ok by simp
  next
    case False
    then have "j < length (heap m)" using that h(1) by simp
    then show ?thesis using ok old by simp
  qed
  moreover have "j < length (heap m') \<and> pf_type (heap m' ! j) = t \<and> hostname (pf_originalURL (heap m' ! j)) = k"
    if "(k, j) \<in> set (pendingFiles m' t) \<union> set (loadedFiles m' t)" for k j t
  proof (cases "(k, j) \<in> set (pendingFiles m t) \<union> set (loadedFiles m t)")
    case True
    then have "j < length (heap m) \<and> pf_type (heap m ! j) = t \<and> hostname (pf_originalURL (heap m ! j)) = k" using ok by blast
    then show ?thesis using old h(1) by simp
  next
    case False
    then have "t = ty \<and> k = hostname u \<and> j = length (heap m)" using that p [of k j t] by (auto simp: h(3))
    then show ?thesis using last new h(1) by simp
  qed
  ultimately show "manager_ok w X m'" unfolding manager_ok_def by blast
qed


text \<open>A step from a good manager to one that is good and has grown.\<close>

definition good_step :: "world \<Rightarrow> nat set \<Rightarrow> security_manager \<Rightarrow> security_manager \<Rightarrow> bool" where
  "good_step w X m m' \<longleftrightarrow> manager_ok w X m' \<and> grows m m'"

lemma good_step_refl: "manager_ok w X m \<Longrightarrow> good_step w X m m"
  by (simp add: good_step_def)

lemma good_step_trans: "good_step w X m m' \<Longrightarrow> (manager_ok w X m' \<Longrightarrow> good_step w X m' m'') \<Longrightarrow> good_step w X m m''"
  unfolding good_step_def using manager_grows_trans by blast

lemma good_step_ok: "good_step w X m m' \<Longrightarrow> manager_ok w X m'"
  by (simp add: good_step_def)

section \<open>The operations keep them\<close>

text \<open>A file belongs to a URL if it is of the kind and was registered for this URL.\<close>

definition file_for :: "file_type \<Rightarrow> url_info \<Rightarrow> security_manager \<Rightarrow> nat \<Rightarrow> bool" where
  "file_for ty u m j \<longleftrightarrow> j < length (heap m) \<and> pf_type (heap m ! j) = ty \<and> hostname (pf_originalURL (heap m ! j)) = hostname u
     \<and> getParsedURL (pf_originalURL (heap m ! j)) = getParsedURL u"

lemma file_for_grows: "file_for ty u m j \<Longrightarrow> grows m m' \<Longrightarrow> file_for ty u m' j"
  by (simp add: file_for_def grows_def)

lemma files_at_ok:
  assumes "manager_ok w X m" and "j \<in> set (files_at h (pendingFiles m ty)) \<union> set (files_at h (loadedFiles m ty))"
  shows "j < length (heap m) \<and> pf_type (heap m ! j) = ty \<and> hostname (pf_originalURL (heap m ! j)) = h"
  using assms unfolding manager_ok_def files_at_def by auto

lemma find_in: "find P xs = Some x \<Longrightarrow> x \<in> set xs \<and> P x"
  by (induction xs) (auto split: if_splits)

lemma find_or_add_ok:
  assumes "manager_ok w X m" and "find_or_add w ty u m = (j, m')"
  shows "good_step w X m m'" and "file_for ty u m' j" and "j < length (heap m) \<Longrightarrow> m' = m"
proof -
  have "good_step w X m m' \<and> file_for ty u m' j \<and> (j < length (heap m) \<longrightarrow> m' = m)"
  proof (cases "getPolicyFileByURL ty u m")
    case (Some k)
    then have e: "k = j" "m' = m" using assms(2) by (simp_all add: find_or_add_def)
    have "j \<in> set (files_at (hostname u) (pendingFiles m ty)) \<union> set (files_at (hostname u) (loadedFiles m ty))"
      "getParsedURL (pf_originalURL (heap m ! j)) = getParsedURL u"
      using find_in [OF Some [unfolded getPolicyFileByURL_def]] e by auto
    then show ?thesis using files_at_ok [OF assms(1)] assms(1) e by (auto simp: good_step_def file_for_def)
  next
    case None
    then have a: "add_file w ty u m = (j, m')" using assms(2) by (simp add: find_or_add_def)
    then show ?thesis
      using add_file_ok [OF assms(1) a] by (simp add: good_step_def file_for_def new_file_def)
  qed
  then show "good_step w X m m'" and "file_for ty u m' j" and "j < length (heap m) \<Longrightarrow> m' = m" by blast+
qed

lemma find_or_add_keeps:
  assumes "find_or_add w ty u m = (j, m')"
  shows "length (heap m) \<le> length (heap m')" and "i < length (heap m) \<Longrightarrow> heap m' ! i = heap m ! i"
  using assms by (auto simp: find_or_add_def add_file_def Let_def nth_append split: option.splits if_splits)

lemma getMasterPolicyFile_ok:
  assumes "manager_ok w X m" and "i < length (heap m)" and "getMasterPolicyFile w i m = Inr (j, m')"
  shows "good_step w X m m'" and "j < length (heap m')" and "\<And>k. k < length (heap m) \<Longrightarrow> heap m' ! k = heap m ! k"
proof -
  have "good_step w X m m' \<and> j < length (heap m') \<and> (\<forall>k<length (heap m). heap m' ! k = heap m ! k)"
  proof (cases "isMaster (heap m ! i)")
    case True
    then show ?thesis using assms by (simp add: getMasterPolicyFile_def Let_def good_step_def)
  next
    case False
    then obtain u where f: "find_or_add w (pf_type (heap m ! i)) u m = (j, m')"
      using assms(3) by (auto simp: getMasterPolicyFile_def Let_def bindE_Inr_conv)
    then show ?thesis using find_or_add_ok [OF assms(1) f] find_or_add_keeps [OF f] by (simp add: file_for_def)
  qed
  then show "good_step w X m m'" and "j < length (heap m')" and "\<And>k. k < length (heap m) \<Longrightarrow> heap m' ! k = heap m ! k"
    by blast+
qed

lemma loadPolicyFile_ok:
  assumes ld: "\<And>m m'. manager_ok w {} m \<Longrightarrow> i < length (heap m) \<Longrightarrow> ld i m = Inr m' \<Longrightarrow> good_step w {} m m'"
    and m: "manager_ok w {} m" "i < length (heap m)" and r: "loadPolicyFile ld ty i m = Inr m'"
  shows "good_step w {} m m'"
proof (cases "files_at (hostname (pf_url (heap m ! i))) (pendingFiles m ty) = []")
  case True
  then show ?thesis using m r by (simp add: loadPolicyFile_def good_step_def)
next
  case False
  then obtain m1 where m1: "ld i m = Inr m1" using r by (auto simp: loadPolicyFile_def bindE_Inr_conv)
  define h where "h = hostname (pf_url (heap m1 ! i))"
  note s = ld [OF m m1]
  have m': "m' = (if (h, i) \<in> set (pendingFiles m1 ty)
             then m1\<lparr>loadedFiles := (loadedFiles m1)(ty := loadedFiles m1 ty @ [(h, i)]),
                    pendingFiles := (pendingFiles m1)(ty := remove1 (h, i) (pendingFiles m1 ty))\<rparr> else m1)"
    using r False m1 unfolding loadPolicyFile_def Let_def h_def by (simp only: if_False bindE_simps) blast
  have heap: "heap m' = heap m1" by (simp add: m')
  have "set (pendingFiles m' t) \<union> set (loadedFiles m' t) \<subseteq> set (pendingFiles m1 t) \<union> set (loadedFiles m1 t)" for t
    by (auto simp: m' dest: notin_set_remove1 set_mp [OF set_remove1_subset])
  then have "manager_ok w {} m'" using s unfolding good_step_def manager_ok_def heap by blast
  then show ?thesis using s by (simp add: good_step_def grows_def heap)
qed

lemma isIgnoredByMaster_ok:
  assumes ld: "\<And>i m m'. manager_ok w {} m \<Longrightarrow> i < length (heap m) \<Longrightarrow> ld i m = Inr m' \<Longrightarrow> good_step w {} m m'"
    and m: "manager_ok w {} m" "i < length (heap m)" and r: "isIgnoredByMaster ld w i m = Inr (b, m')"
  shows "good_step w {} m m'"
proof (cases "isMaster (heap m ! i)")
  case True
  then show ?thesis using m r by (simp add: isIgnoredByMaster_def Let_def good_step_def)
next
  case False
  then obtain j m1 where a: "getMasterPolicyFile w i m = Inr (j, m1)" and b: "loadPolicyFile ld (pf_type (heap m ! i)) j m1 = Inr m'"
    using r by (auto simp: isIgnoredByMaster_def Let_def bindE_Inr_conv)
  note g = getMasterPolicyFile_ok [OF m a]
  show ?thesis by (rule good_step_trans [OF g(1)]) (rule loadPolicyFile_ok [OF ld _ g(2) b]; assumption)
qed

lemma follow_redirection_ok:
  assumes "follow_redirection d f = Inr (ok, f')"
  shows "\<exists>u. f' = f\<lparr>pf_url := u\<rparr>"
    and "ok \<Longrightarrow> \<not> d_failed d \<and> (\<forall>s. d_redirected d = Some s \<longrightarrow> (\<exists>v. URLInfo s = Some (Inr v) \<and> hostname v = hostname (pf_url f)))"
  using assms by (auto simp: follow_redirection_def bindE_Inr_conv split: if_splits option.splits intro: exI [of _ "pf_url f"])

lemma entries_update: "entries_ok w i (f\<lparr>pf_url := u, pf_ignore := b\<rparr>) = entries_ok w i f"
  "entries_ok w i (pf_ignore_update g f) = entries_ok w i f" "entries_ok w i (pf_valid_update g f) = entries_ok w i f"
  "entries_ok w i (f\<lparr>pf_url := u\<rparr>) = entries_ok w i f" "entries_ok w i (pf_loaded_update g f) = entries_ok w i f"
  by (simp_all add: entries_ok_def new_file_def)

text \<open>Two versions of a file that differ in the URL and the mark for being ignored at most.\<close>

definition same_content :: "policy_file \<Rightarrow> policy_file \<Rightarrow> bool" where
  "same_content f g \<longleftrightarrow> pf_type g = pf_type f \<and> pf_originalURL g = pf_originalURL f \<and> pf_subtype g = pf_subtype f
     \<and> pf_access g = pf_access f \<and> pf_headers g = pf_headers f \<and> pf_siteControl g = pf_siteControl f
     \<and> pf_loaded g = pf_loaded f \<and> pf_valid g = pf_valid f"

lemma same_content_simps [simp]: "same_content f f" "same_content f (f\<lparr>pf_url := u\<rparr>)" "same_content f (pf_ignore_update h f)"
  "same_content f (pf_ignore_update h g) = same_content f g"
  by (simp_all add: same_content_def)

lemma entries_same: "same_content f g \<Longrightarrow> entries_ok w i g = entries_ok w i f"
  by (simp add: same_content_def entries_ok_def)

text \<open>What retrieving does to the file: its URL and its mark for being ignored.\<close>

lemma retrieve_url_ok:
  assumes m: "manager_ok w {i} m" "i < length (heap m)" and r: "retrieve_url w i m = Inr (ok, data, m')"
  shows "manager_ok w {i} m' \<and> same_content (heap m ! i) (heap m' ! i)
    \<and> length (heap m) \<le> length (heap m') \<and> (\<forall>j<length (heap m). j \<noteq> i \<longrightarrow> heap m' ! j = heap m ! j)
    \<and> (ok \<longrightarrow> pf_type (heap m ! i) = URL_FILE \<longrightarrow> pf_url (heap m ! i) = pf_originalURL (heap m ! i) \<longrightarrow>
      served w i URL_FILE (pf_originalURL (heap m ! i)) data)"
proof -
  define d where "d = downloads w i (pf_url (heap m ! i))"
  define sub where "sub = pf_subtype (heap m ! i)"
  obtain ok1 f where f: "follow_redirection d (heap m ! i) = Inr (ok1, f)"
    using r unfolding retrieve_url_def Let_def d_def [symmetric] by (auto simp: bindE_Inr_conv)
  define m1 where "m1 = set_file i (\<lambda>_. f) m"
  define ok2 where "ok2 = (ok1 \<and> type_accepted sub (content_type d))"
  obtain u where u: "f = (heap m ! i)\<lparr>pf_url := u\<rparr>" using follow_redirection_ok(1) [OF f] by blast
  have e: "entries_ok w i (heap m ! i)" using m by (simp add: manager_ok_def)
  have m1: "manager_ok w {i} m1" "heap m1 ! i = f" "length (heap m1) = length (heap m)"
    unfolding m1_def using m e by (auto intro!: set_file_ok [OF m] simp: u entries_update)
  have r1: "(if ok2 \<and> \<not> isMaster f
        then bindE (getMasterPolicyFile w i m1) (\<lambda>(j, m). Inr (True, d_content d,
                 if pf_valid (heap m ! j) \<and> (sub = HTTP \<or> sub = HTTPS) \<and> getMetaPolicy (heap m ! j) = META_BY_CONTENT_TYPE
                    \<and> content_type d \<noteq> ''text/x-cross-domain-policy'' then set_file i (pf_ignore_update (\<lambda>_. True)) m else m))
        else Inr (ok2, if ok2 then d_content d else [], m1)) = Inr (ok, data, m')"
    using r unfolding retrieve_url_def Let_def d_def [symmetric] sub_def [symmetric] f by (simp only: bindE_simps prod.case m1_def ok2_def)
  have sv: "served w i URL_FILE (pf_originalURL (heap m ! i)) (d_content d)"
    if "ok2" "pf_type (heap m ! i) = URL_FILE" "pf_url (heap m ! i) = pf_originalURL (heap m ! i)"
  proof -
    have "sub = url_subtype (unset w) (pf_originalURL (heap m ! i))" using e that(2) by (simp add: sub_def entries_ok_def new_file_def)
    then show ?thesis using that follow_redirection_ok(2) [OF f] by (simp add: ok2_def d_def)
  qed
  show ?thesis
  proof (cases "ok2 \<and> \<not> isMaster f")
    case False
    then have "m' = m1" "ok = ok2" "ok2 \<Longrightarrow> data = d_content d" using r1 by auto
    moreover have "heap m1 ! j = heap m ! j" if "j \<noteq> i" for j using that by (simp add: m1_def)
    ultimately show ?thesis using m1 sv by (simp add: u)
  next
    case True
    then obtain j m2 where a: "getMasterPolicyFile w i m1 = Inr (j, m2)" and b: "m' = m2 \<or> m' = set_file i (pf_ignore_update (\<lambda>_. True)) m2"
      and c: "ok" "data = d_content d"
      using r1 by (auto simp: bindE_Inr_conv)
    have i1: "i < length (heap m1)" using m(2) m1(3) by simp
    note g = getMasterPolicyFile_ok [OF m1(1) i1 a]
    have m2: "manager_ok w {i} m2" "length (heap m) \<le> length (heap m2)" "heap m2 ! i = f"
      using g(1) g(3) [OF i1] m1 by (simp_all add: good_step_def grows_def)
    have e2: "entries_ok w i f" using e by (simp add: u entries_update)
    have "manager_ok w {i} m'" using b m2 m(2) e2 set_file_ok [OF m2(1), of i _ "{i}"] by (auto simp: entries_update)
    moreover have "same_content (heap m ! i) (heap m' ! i)"
      using b m2 m(2) by (auto simp: u)
    moreover have "heap m' ! j = heap m ! j" if "j < length (heap m)" "j \<noteq> i" for j
      using b that g(3) [of j] m1(3) by (auto simp: m1_def)
    ultimately show ?thesis using b c m2 sv True by auto
  qed
qed

lemma retrievePolicyFile_ok:
  assumes m: "manager_ok w {i} m" "i < length (heap m)" and r: "retrievePolicyFile w i m = Inr (ok, data, m')"
  shows "manager_ok w {i} m' \<and> same_content (heap m ! i) (heap m' ! i)
    \<and> length (heap m) \<le> length (heap m') \<and> (\<forall>j<length (heap m). j \<noteq> i \<longrightarrow> heap m' ! j = heap m ! j)
    \<and> (ok \<longrightarrow> pf_url (heap m ! i) = pf_originalURL (heap m ! i) \<longrightarrow>
      served w i (pf_type (heap m ! i)) (pf_originalURL (heap m ! i)) data)"
proof (cases "pf_type (heap m ! i)")
  case URL_FILE
  then show ?thesis using retrieve_url_ok [OF m] r by (simp add: retrievePolicyFile_def)
next
  case SOCKET_FILE
  have s: "m' = m" "retrieve_socket (sockets w i (pf_url (heap m ! i))) (heap m ! i) = (ok, data)"
    using r SOCKET_FILE by (auto simp: retrievePolicyFile_def Let_def split: prod.splits)
  have e: "retrieve_socket s (heap m ! i) = retrieve_socket s (new_file w SOCKET_FILE (pf_originalURL (heap m ! i)))"
    if "pf_url (heap m ! i) = pf_originalURL (heap m ! i)" for s
    using that SOCKET_FILE by (simp add: retrieve_socket_def isMaster_def new_file_def)
  have "served w i SOCKET_FILE (pf_originalURL (heap m ! i)) data" if "ok" "pf_url (heap m ! i) = pf_originalURL (heap m ! i)"
    using s(2) that(1) unfolding that(2) e [OF that(2)] by simp
  then show ?thesis using m SOCKET_FILE by (simp add: s(1))
qed


lemma read_policy_ok:
  assumes r: "read_policy w data f = Inr f'" and e: "entries_ok w i f" and l: "pf_loaded f"
    and s: "pf_valid f \<Longrightarrow> \<not> pf_ignore f \<Longrightarrow> served w i (pf_type f) (pf_originalURL f) data"
  shows "entries_ok w i f' \<and> pf_loaded f' \<and> pf_type f' = pf_type f \<and> pf_originalURL f' = pf_originalURL f"
proof (cases "pf_valid f \<and> \<not> pf_ignore f")
  case False
  then show ?thesis using r e l by (auto simp: read_policy_def entries_update)
next
  case True
  let ?p = "CrossDomainPolicy (xml_parse w data) (pf_type f) (pf_subtype f) (isMaster f)"
  obtain bad g where g: "parse_elements ?p f = Inr (bad, g)" "f' = after_parsing bad g"
    using r True by (auto simp: read_policy_def bindE_Inr_conv)
  have d: "nodes_of ?p \<subseteq> set (snd (xml_parse w data))" "cp_doc ?p = xml_parse w data" "\<not> cp_first ?p \<Longrightarrow> fst (xml_parse w data) = ''cross-domain-policy''"
    by (simp_all add: nodes_of_def CrossDomainPolicy_def)
  have "served w i (pf_type f) (pf_originalURL f) data" using s True by blast
  then have "entries_ok w i g"
    using parse_entries [OF g(1) d] parse_unchanged [OF g(1)] e by (fastforce simp: entries_ok_def)
  moreover have "entries_ok w i f' = entries_ok w i g" "pf_loaded f' = pf_loaded g" "pf_type f' = pf_type g" "pf_originalURL f' = pf_originalURL g"
    by (simp_all add: g(2) after_parsing_def Let_def entries_update)
  ultimately show ?thesis using parse_unchanged [OF g(1)] l by simp
qed

lemma manager_ok_in:
  assumes "manager_ok w {} m" shows "manager_ok w X m"
  using assms by (auto simp: manager_ok_def)

lemma manager_ok_out:
  assumes "manager_ok w {i} m" and "i < length (heap m) \<Longrightarrow> fresh (heap m ! i)"
  shows "manager_ok w {} m"
  using assms by (auto simp: manager_ok_def)

text \<open>After the question to the master file: retrieving, and reading what has been retrieved.\<close>

definition retrieve_step :: "world \<Rightarrow> nat \<Rightarrow> bool \<Rightarrow> security_manager \<Rightarrow> (bool \<times> u8 list \<times> security_manager) res" where
  "retrieve_step w i ig m = (if ig then Inr (pf_valid (heap m ! i), [], m) else retrievePolicyFile w i m)"

definition read_step :: "world \<Rightarrow> nat \<Rightarrow> u8 list \<Rightarrow> security_manager \<Rightarrow> security_manager res" where
  "read_step w i data m =
     (if pf_loaded (heap m ! i) then Inr m
      else bindE (read_policy w data ((heap m ! i)\<lparr>pf_loaded := True\<rparr>)) (\<lambda>f. Inr (set_file i (\<lambda>_. f) m)))"

lemma load_steps:
  "load (Suc n) w i m =
     (if \<not> pf_valid (heap m ! i) \<or> pf_loaded (heap m ! i) then Inr m
      else bindE (isIgnoredByMaster (load n w) w i m) (\<lambda>(ig, m).
        bindE (retrieve_step w i ig (set_file i (pf_ignore_update (\<lambda>_. ig)) m)) (\<lambda>(ok, data, m).
          read_step w i data (set_file i (pf_valid_update (\<lambda>_. ok)) m))))"
  by (simp add: retrieve_step_def read_step_def Let_def)

lemma retrieve_step_ok:
  assumes ok1: "manager_ok w {} m1" and i1: "i < length (heap m1)"
    and c: "retrieve_step w i ig (set_file i (pf_ignore_update (\<lambda>_. ig)) m1) = Inr (ok, data, m3)"
  shows "manager_ok w {i} m3" and "same_content (heap m1 ! i) (heap m3 ! i)" and "length (heap m1) \<le> length (heap m3)"
    and "\<And>j. j < length (heap m1) \<Longrightarrow> j \<noteq> i \<Longrightarrow> heap m3 ! j = heap m1 ! j" and "ig \<Longrightarrow> pf_ignore (heap m3 ! i)"
    and "ok \<Longrightarrow> \<not> ig \<Longrightarrow> \<not> pf_loaded (heap m1 ! i) \<Longrightarrow> served w i (pf_type (heap m1 ! i)) (pf_originalURL (heap m1 ! i)) data"
proof -
  define m2 where "m2 = set_file i (pf_ignore_update (\<lambda>_. ig)) m1"
  have e1: "entries_ok w i (heap m1 ! i)" "fresh (heap m1 ! i)" using ok1 i1 by (simp_all add: manager_ok_def)
  have ok2: "manager_ok w {i} m2" unfolding m2_def
    by (rule set_file_ok [OF manager_ok_in [OF ok1] i1, where X = "{i}"]) (use e1 in \<open>simp_all add: entries_update\<close>)
  have i2: "i < length (heap m2)" "heap m2 ! i = pf_ignore_update (\<lambda>_. ig) (heap m1 ! i)" using i1 by (simp_all add: m2_def)
  have s2: "same_content (heap m1 ! i) (heap m2 ! i)" using i2(2) by simp
  note c2 = c [folded m2_def, unfolded retrieve_step_def]
  have "manager_ok w {i} m3 \<and> same_content (heap m2 ! i) (heap m3 ! i) \<and> length (heap m2) \<le> length (heap m3)
      \<and> (\<forall>j<length (heap m2). j \<noteq> i \<longrightarrow> heap m3 ! j = heap m2 ! j) \<and> (ig \<longrightarrow> pf_ignore (heap m3 ! i))
      \<and> (ok \<longrightarrow> \<not> ig \<longrightarrow> pf_url (heap m2 ! i) = pf_originalURL (heap m2 ! i) \<longrightarrow>
           served w i (pf_type (heap m2 ! i)) (pf_originalURL (heap m2 ! i)) data)"
    using retrievePolicyFile_ok [OF ok2 i2(1)] c2 ok2 i2(2) by (cases ig) simp_all
  then show "manager_ok w {i} m3" and "same_content (heap m1 ! i) (heap m3 ! i)" and "length (heap m1) \<le> length (heap m3)"
    and "\<And>j. j < length (heap m1) \<Longrightarrow> j \<noteq> i \<Longrightarrow> heap m3 ! j = heap m1 ! j" and "ig \<Longrightarrow> pf_ignore (heap m3 ! i)"
    and "ok \<Longrightarrow> \<not> ig \<Longrightarrow> \<not> pf_loaded (heap m1 ! i) \<Longrightarrow> served w i (pf_type (heap m1 ! i)) (pf_originalURL (heap m1 ! i)) data"
    using s2 e1(2) i2 by (simp_all add: same_content_def m2_def fresh_def)
qed

lemma grows_but_one:
  assumes "grows m m1" and "\<not> pf_loaded (heap m ! i)" and "length (heap m1) \<le> length (heap m4)"
    and "\<And>j. j < length (heap m1) \<Longrightarrow> j \<noteq> i \<Longrightarrow> heap m4 ! j = heap m1 ! j"
    and "pf_type (heap m4 ! i) = pf_type (heap m1 ! i)" "pf_originalURL (heap m4 ! i) = pf_originalURL (heap m1 ! i)"
  shows "grows m m4"
proof -
  have "pf_type (heap m4 ! k) = pf_type (heap m1 ! k) \<and> pf_originalURL (heap m4 ! k) = pf_originalURL (heap m1 ! k)"
    if "k < length (heap m1)" for k using assms(4) [OF that] assms(5,6) by (cases "k = i") simp_all
  moreover have "heap m4 ! k = heap m1 ! k" if "k < length (heap m1)" "pf_loaded (heap m ! k)" for k
    using assms(2,4) that by (cases "k = i") auto
  ultimately show ?thesis using assms(1,3) unfolding grows_def by fastforce
qed

lemma read_step_ok:
  assumes ok4: "manager_ok w {i} m4" and g4: "grows m m4" and i: "i < length (heap m)" and nl: "\<not> pf_loaded (heap m ! i)"
    and s: "pf_valid (heap m4 ! i) \<Longrightarrow> \<not> pf_ignore (heap m4 ! i) \<Longrightarrow> \<not> pf_loaded (heap m4 ! i) \<Longrightarrow>
      served w i (pf_type (heap m4 ! i)) (pf_originalURL (heap m4 ! i)) data"
    and d: "read_step w i data m4 = Inr m'"
  shows "good_step w {} m m'"
proof (cases "pf_loaded (heap m4 ! i)")
  case True
  then show ?thesis using d g4 manager_ok_out [OF ok4] by (simp add: read_step_def good_step_def fresh_def)
next
  case False
  let ?f = "(heap m4 ! i)\<lparr>pf_loaded := True\<rparr>"
  have i4: "i < length (heap m4)" using manager_grows_length [OF g4 i] .
  obtain f where f: "read_policy w data ?f = Inr f" "m' = set_file i (\<lambda>_. f) m4"
    using d False by (auto simp: read_step_def bindE_Inr_conv)
  have "entries_ok w i ?f" using ok4 i4 by (simp add: entries_update manager_ok_def)
  then have n: "entries_ok w i f \<and> pf_loaded f \<and> pf_type f = pf_type ?f \<and> pf_originalURL f = pf_originalURL ?f"
    using read_policy_ok [OF f(1)] s False by simp
  have "manager_ok w {} m'" unfolding f(2) by (rule set_file_ok [OF ok4 i4]) (use n in \<open>simp_all add: fresh_def\<close>)
  moreover have "grows m m'" unfolding f(2) by (rule set_file_grows [OF g4 i nl]) (use n in simp_all)
  ultimately show ?thesis by (simp add: good_step_def)
qed

lemma load_ok:
  assumes "manager_ok w {} m" and "i < length (heap m)" and "load n w i m = Inr m'"
  shows "good_step w {} m m'"
  using assms
proof (induction n arbitrary: i m m')
  case (Suc n)
  show ?case
  proof (cases "\<not> pf_valid (heap m ! i) \<or> pf_loaded (heap m ! i)")
    case True
    then show ?thesis using Suc.prems by (simp add: good_step_def)
  next
    case False
    then have nl: "\<not> pf_loaded (heap m ! i)" by simp
    obtain ig m1 ok data m3 where a: "isIgnoredByMaster (load n w) w i m = Inr (ig, m1)"
      and b: "retrieve_step w i ig (set_file i (pf_ignore_update (\<lambda>_. ig)) m1) = Inr (ok, data, m3)"
      and c: "read_step w i data (set_file i (pf_valid_update (\<lambda>_. ok)) m3) = Inr m'"
      using Suc.prems(3) False unfolding load_steps by (auto simp: bindE_Inr_conv)
    have g1: "manager_ok w {} m1" "grows m m1"
      using isIgnoredByMaster_ok [OF Suc.IH Suc.prems(1,2) a] by (simp_all add: good_step_def)
    have i1: "i < length (heap m1)" using g1(2) Suc.prems(2) manager_grows_length by blast
    note r = retrieve_step_ok [OF g1(1) i1 b]
    define m4 where "m4 = set_file i (pf_valid_update (\<lambda>_. ok)) m3"
    have i3: "i < length (heap m3)" using r(3) i1 by linarith
    have f4: "heap m4 ! i = (heap m3 ! i)\<lparr>pf_valid := ok\<rparr>" using i3 by (simp add: m4_def)
    have ok4: "manager_ok w {i} m4" unfolding m4_def
      by (rule set_file_ok [OF r(1) i3]) (use r(1) i3 in \<open>simp_all add: entries_update manager_ok_def\<close>)
    have g4: "grows m m4"
      by (rule grows_but_one [OF g1(2) nl]) (use r(2,3,4) f4 in \<open>simp_all add: m4_def same_content_def\<close>)
    show ?thesis
      by (rule read_step_ok [OF ok4 g4 Suc.prems(2) nl _ c [folded m4_def]])
        (use r(2,5,6) f4 in \<open>auto simp: same_content_def\<close>)
  qed
qed simp

end
