(* ===== verification/SecurityCheck.thy ===== *)
theory SecurityCheck
  imports PolicyInvariant
begin

text \<open>
  The decisions of the security manager (\<open>backends/security.cpp\<close>): which URLs, sockets and request headers a program
  may use, depending on where it comes from and on the policy files of the other side.
\<close>

section \<open>The code\<close>

datatype sandbox = REMOTE | LOCAL_WITH_FILE | LOCAL_WITH_NETWORK | LOCAL_TRUSTED

fun sandbox_bit :: "sandbox \<Rightarrow> u32" where
  "sandbox_bit REMOTE = 1"
| "sandbox_bit LOCAL_WITH_FILE = 2"
| "sandbox_bit LOCAL_WITH_NETWORK = 4"
| "sandbox_bit LOCAL_TRUSTED = 8"

datatype evaluation = ALLOWED | NA_RESTRICT_LOCAL_DIRECTORY | NA_REMOTE_SANDBOX | NA_LOCAL_SANDBOX | NA_CROSSDOMAIN_POLICY
  | NA_PORT | NA_HEADER

text \<open>The program that runs: the base URL and the origin of its main clip, and its sandbox.\<close>

record program =
  baseURL :: url_info
  origin :: url_info
  sandboxType :: sandbox

definition evaluateSandbox :: "sandbox \<Rightarrow> u32 \<Rightarrow> bool" where
  "evaluateSandbox s allowed \<longleftrightarrow> allowed AND sandbox_bit s \<noteq> 0"

definition evaluateSandboxURL :: "program \<Rightarrow> url_info \<Rightarrow> u32 \<Rightarrow> u32 \<Rightarrow> evaluation" where
  "evaluateSandboxURL pr u remote loc =
     (if protocol u \<noteq> ''file'' \<and> NOT remote AND sandbox_bit (sandboxType pr) \<noteq> 0 then NA_REMOTE_SANDBOX
      else if protocol u = ''file'' \<and> NOT loc AND sandbox_bit (sandboxType pr) \<noteq> 0 then NA_LOCAL_SANDBOX
      else ALLOWED)"

definition restricted_ports :: "nat list" where
  "restricted_ports = [1, 7, 9, 11, 13, 15, 17, 19, 22, 23, 25, 37, 42, 43, 53, 77, 79, 87, 95, 101, 102, 103, 104, 109, 110, 111,
     113, 115, 117, 119, 123, 135, 139, 143, 179, 389, 465, 512, 513, 514, 515, 526, 530, 531, 532, 540, 556, 563, 587, 601, 636,
     993, 995, 2049, 4045, 6000]"

definition evaluatePortURL :: "url_info \<Rightarrow> evaluation" where
  "evaluatePortURL u =
     (if (protocol u = ''http'' \<or> protocol u = ''https'') \<and> (port u = 20 \<or> port u = 21) then NA_PORT
      else if (protocol u = ''http'' \<or> protocol u = ''https'' \<or> protocol u = ''ftp'') \<and> port u \<in> set restricted_ports then NA_PORT
      else ALLOWED)"

definition evaluateLocalDirectoryURL :: "program \<Rightarrow> url_info \<Rightarrow> evaluation" where
  "evaluateLocalDirectoryURL pr u =
     (if protocol u = ''file'' \<and> \<not> isSubOf u (baseURL pr) then NA_RESTRICT_LOCAL_DIRECTORY else ALLOWED)"

definition evaluateURLStatic :: "program \<Rightarrow> url_info \<Rightarrow> u32 \<Rightarrow> u32 \<Rightarrow> bool \<Rightarrow> evaluation" where
  "evaluateURLStatic pr u remote loc restrict =
     (let s = evaluateSandboxURL pr u remote loc in
      if s \<noteq> ALLOWED then s
      else let p = evaluatePortURL u in
      if p \<noteq> ALLOWED then p
      else if restrict \<and> evaluateLocalDirectoryURL pr u \<noteq> ALLOWED then evaluateLocalDirectoryURL pr u
      else ALLOWED)"

text \<open>The overload for strings drops its last argument.\<close>

definition evaluateURLStatic_string :: "program \<Rightarrow> string \<Rightarrow> u32 \<Rightarrow> u32 \<Rightarrow> bool \<Rightarrow> evaluation res" where
  "evaluateURLStatic_string pr s remote loc restrict =
     (case URLInfo s of None \<Rightarrow> Inl OutOfFuel | Some r \<Rightarrow> bindE r (\<lambda>u. Inr (evaluateURLStatic pr u remote loc True)))"

text \<open>The message of the error that is raised, if any.\<close>

definition checkURLStaticAndThrow :: "program \<Rightarrow> url_info \<Rightarrow> u32 \<Rightarrow> u32 \<Rightarrow> bool \<Rightarrow> string option" where
  "checkURLStaticAndThrow pr u remote loc restrict = (case evaluateURLStatic pr u remote loc restrict of
       NA_REMOTE_SANDBOX \<Rightarrow> Some ''SecurityError: connect to network''
     | NA_LOCAL_SANDBOX \<Rightarrow> Some ''SecurityError: connect to local file''
     | NA_PORT \<Rightarrow> Some ''SecurityError: connect to restricted port''
     | NA_RESTRICT_LOCAL_DIRECTORY \<Rightarrow> Some ''SecurityError: not allowed to navigate up for local files''
     | _ \<Rightarrow> None)"

definition any_allows :: "nat list option \<Rightarrow> url_info \<Rightarrow> url_info \<Rightarrow> security_manager \<Rightarrow> bool" where
  "any_allows js from to m \<longleftrightarrow> (case js of None \<Rightarrow> False | Some js \<Rightarrow> list_ex (\<lambda>j. allowsAccessFrom (heap m ! j) from to) js)"

definition evaluatePoliciesURL ::
  "nat \<Rightarrow> world \<Rightarrow> program \<Rightarrow> url_info \<Rightarrow> bool \<Rightarrow> security_manager \<Rightarrow> (evaluation \<times> security_manager) res" where
  "evaluatePoliciesURL n w pr u loadPending m =
     bindE (isEmpty u) (\<lambda>e.
       if e then Inr (ALLOWED, m)
       else if protocol u = ''file'' \<and> protocol (baseURL pr) = ''file'' then Inr (ALLOWED, m)
       else if protocol (baseURL pr) = ''file'' \<and> sandboxType pr = LOCAL_TRUSTED then Inr (ALLOWED, m)
       else if isRTMP u then Inr (ALLOWED, m)
       else if protocol u = protocol (baseURL pr) \<and> hostname u = hostname (baseURL pr) then Inr (ALLOWED, m)
       else bindE (searchURLPolicyFiles n w u loadPending m) (\<lambda>(js, m).
         Inr (if any_allows js (baseURL pr) u m then ALLOWED else NA_CROSSDOMAIN_POLICY, m)))"

definition evaluateSocketConnection ::
  "nat \<Rightarrow> world \<Rightarrow> program \<Rightarrow> url_info \<Rightarrow> bool \<Rightarrow> security_manager \<Rightarrow> (evaluation \<times> security_manager) res" where
  "evaluateSocketConnection n w pr u loadPending m =
     (if protocol u \<noteq> ''xmlsocket'' then Inr (NA_CROSSDOMAIN_POLICY, m)
      else if sandboxType pr = LOCAL_TRUSTED \<and> (hostname u = ''127.0.0.1'' \<or> hostname u = ''localhost'') then Inr (ALLOWED, m)
      else bindE (searchSocketPolicyFiles n w u loadPending m) (\<lambda>(js, m).
        Inr (if any_allows js (origin pr) u m then ALLOWED else NA_CROSSDOMAIN_POLICY, m)))"

definition restricted_headers :: "string list" where
  "restricted_headers = [''accept-charset'', ''accept-encoding'', ''accept-ranges'', ''age'', ''allow'', ''allowed'', ''authorization'',
     ''charge-to'', ''connect'', ''connection'', ''content-length'', ''content-location'', ''content-range'', ''cookie'', ''date'',
     ''delete'', ''etag'', ''expect'', ''get'', ''head'', ''host'', ''if-modified-since'', ''keep-alive'', ''last-modified'',
     ''location'', ''max-forwards'', ''options'', ''origin'', ''post'', ''proxy-authenticate'', ''proxy-authorization'',
     ''proxy-connection'', ''public'', ''put'', ''range'', ''referer'', ''request-range'', ''retry-after'', ''server'', ''te'',
     ''trace'', ''trailer'', ''transfer-encoding'', ''upgrade'', ''uri'', ''user-agent'', ''vary'', ''via'', ''warning'',
     ''www-authenticate'', ''x-flash-version'']"

text \<open>The comparisons are joined by \<open>&&\<close>.\<close>

definition header_restricted :: "string \<Rightarrow> bool" where
  "header_restricted h \<longleftrightarrow> list_all (\<lambda>x. h = x) restricted_headers"

definition first_underscore :: "string \<Rightarrow> string" where
  "first_underscore s = (let i = str_find ''_'' s 0 in if i \<noteq> str_npos then take i s @ ''-'' @ drop (i + 1) s else s)"

fun any_allows_header :: "nat list \<Rightarrow> url_info \<Rightarrow> url_info \<Rightarrow> string \<Rightarrow> security_manager \<Rightarrow> bool res" where
  "any_allows_header [] from to h m = Inr False"
| "any_allows_header (j # js) from to h m = bindE (allowsHTTPRequestHeaderFrom (heap m ! j) from to h) (\<lambda>b.
     if b then Inr True else any_allows_header js from to h m)"

definition evaluateHeader ::
  "nat \<Rightarrow> world \<Rightarrow> program \<Rightarrow> url_info \<Rightarrow> string \<Rightarrow> bool \<Rightarrow> security_manager \<Rightarrow> (evaluation \<times> security_manager) res" where
  "evaluateHeader n w pr u header loadPending m =
     bindE (isEmpty u) (\<lambda>e.
       if e then Inr (ALLOWED, m)
       else if protocol u = ''file'' \<and> protocol (origin pr) = ''file'' then Inr (ALLOWED, m)
       else if header_restricted (first_underscore (str_lower header)) then Inr (NA_HEADER, m)
       else if protocol u = protocol (origin pr) \<and> hostname u = hostname (origin pr) then Inr (ALLOWED, m)
       else bindE (searchURLPolicyFiles n w u loadPending m) (\<lambda>(js, m).
         case js of None \<Rightarrow> Inr (NA_CROSSDOMAIN_POLICY, m)
         | Some js \<Rightarrow> bindE (any_allows_header js (origin pr) u (str_lower header) m) (\<lambda>b.
             Inr (if b then ALLOWED else NA_CROSSDOMAIN_POLICY, m))))"

section \<open>Searching\<close>

lemma load_pending_ok:
  assumes "manager_ok w {} m" and "load_pending n w ty h m = Inr (ks, m')"
  shows "good_step w {} m m' \<and> (\<forall>k\<in>set ks. k < length (heap m') \<and> pf_type (heap m' ! k) = ty \<and> hostname (pf_originalURL (heap m' ! k)) = h)"
  using assms
proof (induction n arbitrary: m ks)
  case (Suc n)
  show ?case
  proof (cases "files_at h (pendingFiles m ty)")
    case Nil
    then show ?thesis using Suc.prems by (simp add: good_step_def)
  next
    case (Cons j js)
    then obtain m1 ks1 where a: "loadPolicyFile (load (Suc n) w) ty j m = Inr m1" and b: "load_pending n w ty h m1 = Inr (ks1, m')" and k: "ks = j # ks1"
      using Suc.prems(2) by (auto simp: bindE_Inr_conv simp del: load.simps)
    have j: "j < length (heap m) \<and> pf_type (heap m ! j) = ty \<and> hostname (pf_originalURL (heap m ! j)) = h"
      using files_at_ok [OF Suc.prems(1), of j h ty] Cons by simp
    have s: "good_step w {} m m1" by (rule loadPolicyFile_ok [OF _ Suc.prems(1) _ a]) (use load_ok j in blast)+
    note r = Suc.IH [OF good_step_ok [OF s] b]
    have "good_step w {} m m'" using good_step_trans [OF s] r by blast
    then show ?thesis using r j k by (auto simp: good_step_def grows_def)
  qed
qed simp

lemma get_file_ok:
  assumes "manager_ok w {} m" and "get_file n w ty u lp m = Inr (j, m')"
  shows "good_step w {} m m'" and "file_for ty u m' j"
proof -
  obtain m1 where a: "find_or_add w ty u m = (j, m1)" and b: "m' = m1 \<or> loadPolicyFile (load n w) ty j m1 = Inr m'"
    using assms(2) by (auto simp: get_file_def Let_def bindE_Inr_conv split: prod.splits if_splits)
  note g = find_or_add_ok [OF assms(1) a]
  have "good_step w {} m1 m'"
    using b
  proof
    assume "loadPolicyFile (load n w) ty j m1 = Inr m'"
    then show ?thesis by (rule loadPolicyFile_ok [OF load_ok good_step_ok [OF g(1)], rotated -1]) (use g(2) in \<open>simp_all add: file_for_def\<close>)
  qed (use good_step_refl [OF good_step_ok [OF g(1)]] in simp)
  then show "good_step w {} m m'" "file_for ty u m' j"
    using good_step_trans [OF g(1)] file_for_grows [OF g(2)] by (auto simp: good_step_def)
qed

text \<open>The files that are asked: the master file, and other files of the host if the master file permits them.\<close>

definition asked :: "file_type \<Rightarrow> url_info \<Rightarrow> nat \<Rightarrow> security_manager \<Rightarrow> nat \<Rightarrow> bool" where
  "asked ty u j m k \<longleftrightarrow> k < length (heap m) \<and> pf_type (heap m ! k) = ty \<and> (k = j \<or> hostname (pf_originalURL (heap m ! k)) = hostname u
     \<and> pf_loaded (heap m ! j) \<and> pf_valid (heap m ! j) \<and> getMetaPolicy (heap m ! j) \<notin> {META_NONE, META_MASTER_ONLY})"

lemma searchPolicyFiles_ok:
  assumes m: "manager_ok w {} m" and j: "j < length (heap m)" "pf_type (heap m ! j) = ty"
    and r: "searchPolicyFiles n w ty u j lp m = Inr (r, m')"
  shows "good_step w {} m m' \<and> (\<forall>js k. r = Some js \<longrightarrow> k \<in> set js \<longrightarrow> asked ty u j m' k)"
proof (cases "pf_loaded (heap m ! j) \<and> pf_valid (heap m ! j) \<and> getMetaPolicy (heap m ! j) \<notin> {META_NONE, META_MASTER_ONLY}")
  case False
  then show ?thesis using m j r by (auto simp: searchPolicyFiles_def Let_def asked_def good_step_def split: if_splits)
next
  case True
  let ?js = "j # filter (\<lambda>k. k \<noteq> j) (files_at (hostname u) (loadedFiles m ty))"
  have js: "asked ty u j m k" if "k \<in> set ?js" for k
    using that True j files_at_ok [OF m, of k "hostname u" ty] by (auto simp: asked_def)
  have keep: "asked ty u j m' k" if "asked ty u j m k" "grows m m'" for k m'
    using that True j by (auto simp: asked_def grows_def)
  have r1: "(if lp then bindE (load_pending n w ty (hostname u) m) (\<lambda>(ks, m). Inr (Some (?js @ ks), m)) else Inr (Some ?js, m)) = Inr (r, m')"
    using r True by (simp add: searchPolicyFiles_def Let_def)
  show ?thesis
  proof (cases lp)
    case False
    then show ?thesis using r1 js m by (auto simp: good_step_def)
  next
    case True
    then obtain ks where ks: "load_pending n w ty (hostname u) m = Inr (ks, m')" "r = Some (?js @ ks)"
      using r1 by (auto simp: bindE_Inr_conv)
    note l = load_pending_ok [OF m ks(1)]
    have "asked ty u j m' k" if "k \<in> set ks" for k
      using that l \<open>pf_loaded (heap m ! j) \<and> pf_valid (heap m ! j) \<and> getMetaPolicy (heap m ! j) \<notin> {META_NONE, META_MASTER_ONLY}\<close> j
      by (auto simp: asked_def good_step_def grows_def)
    then show ?thesis using ks(2) l js keep by (auto simp: good_step_def)
  qed
qed

lemma searchURLPolicyFiles_ok:
  assumes "manager_ok w {} m" and "searchURLPolicyFiles n w u lp m = Inr (r, m')"
  shows "good_step w {} m m'"
    and "r = Some js \<Longrightarrow> k \<in> set js \<Longrightarrow> \<exists>mu j. master_url URL_FILE u = Inr mu \<and> file_for URL_FILE mu m' j \<and> asked URL_FILE u j m' k"
proof -
  obtain mu j m1 where a: "master_url URL_FILE u = Inr mu" and b: "get_file n w URL_FILE mu lp m = Inr (j, m1)"
    and c: "searchPolicyFiles n w URL_FILE u j lp m1 = Inr (r, m')"
    using assms(2) by (auto simp: searchURLPolicyFiles_def bindE_Inr_conv)
  note g = get_file_ok [OF assms(1) b]
  have j: "j < length (heap m1)" "pf_type (heap m1 ! j) = URL_FILE" using g(2) by (simp_all add: file_for_def)
  note s = searchPolicyFiles_ok [OF good_step_ok [OF g(1)] j c]
  show "good_step w {} m m'" using good_step_trans [OF g(1)] s by blast
  have "file_for URL_FILE mu m' j" using file_for_grows [OF g(2)] s by (simp add: good_step_def)
  then show "r = Some js \<Longrightarrow> k \<in> set js \<Longrightarrow> \<exists>mu j. master_url URL_FILE u = Inr mu \<and> file_for URL_FILE mu m' j \<and> asked URL_FILE u j m' k"
    using s a by blast
qed


text \<open>Socket policy files: those that are asked belong to the master port or to the host.\<close>

definition socket_asked :: "url_info \<Rightarrow> security_manager \<Rightarrow> nat \<Rightarrow> bool" where
  "socket_asked u m k \<longleftrightarrow> k < length (heap m) \<and> pf_type (heap m ! k) = SOCKET_FILE
      \<and> (hostname (pf_originalURL (heap m ! k)) = hostname u \<or> (\<exists>mu. master_url SOCKET_FILE u = Inr mu \<and> file_for SOCKET_FILE mu m k))"

lemma socket_asked_own: "file_for SOCKET_FILE u m k \<Longrightarrow> socket_asked u m k"
  by (simp add: file_for_def socket_asked_def)

lemma socket_asked_grows: "socket_asked u m k \<Longrightarrow> grows m m' \<Longrightarrow> socket_asked u m' k"
  using file_for_grows by (auto simp: grows_def socket_asked_def)

lemma socket_target_ok:
  assumes m: "manager_ok w {} m" and r: "socket_target n w u lp j r m = Inr (r', m')"
    and a: "\<And>js k. r = Some js \<Longrightarrow> k \<in> set js \<Longrightarrow> socket_asked u m k"
  shows "good_step w {} m m' \<and> (\<forall>js k. r' = Some js \<longrightarrow> k \<in> set js \<longrightarrow> socket_asked u m' k)"
proof (cases "r' = r \<and> m' = m")
  case True
  then show ?thesis using a good_step_refl [OF m] by blast
next
  case False
  then obtain js k where k: "r = Some js" "get_file n w SOCKET_FILE u lp m = Inr (k, m')" "r' = Some (js @ [k])"
    using r by (auto simp: socket_target_def bindE_Inr_conv split: option.splits if_splits)
  note g = get_file_ok [OF m k(2)]
  have "socket_asked u m' x" if "x \<in> set (js @ [k])" for x
    using that a [OF k(1)] socket_asked_grows [of u m _ m'] g socket_asked_own [of u m' k] by (auto simp: good_step_def)
  then show ?thesis using k(3) g(1) by blast
qed

lemma searchSocketPolicyFiles_ok:
  assumes "manager_ok w {} m" and "searchSocketPolicyFiles n w u lp m = Inr (r, m')"
  shows "good_step w {} m m'" and "r = Some js \<Longrightarrow> k \<in> set js \<Longrightarrow> socket_asked u m' k"
proof -
  obtain mu j m1 where a: "master_url SOCKET_FILE u = Inr mu" and b: "get_file n w SOCKET_FILE mu lp m = Inr (j, m1)"
    and c: "(if pf_loaded (heap m1 ! j) \<and> \<not> pf_valid (heap m1 ! j)
       then bindE (get_file n w SOCKET_FILE u lp m1) (\<lambda>(k, m). Inr (Some [k], m))
       else bindE (searchPolicyFiles n w SOCKET_FILE u j lp m1) (\<lambda>(r, m). socket_target n w u lp j r m)) = Inr (r, m')"
    using assms(2) by (auto simp: searchSocketPolicyFiles_def bindE_Inr_conv)
  note g = get_file_ok [OF assms(1) b]
  have "good_step w {} m1 m' \<and> (\<forall>js k. r = Some js \<longrightarrow> k \<in> set js \<longrightarrow> socket_asked u m' k)"
  proof (cases "pf_loaded (heap m1 ! j) \<and> \<not> pf_valid (heap m1 ! j)")
    case True
    then obtain k where k: "get_file n w SOCKET_FILE u lp m1 = Inr (k, m')" "r = Some [k]" using c by (auto simp: bindE_Inr_conv)
    then show ?thesis using get_file_ok [OF good_step_ok [OF g(1)] k(1)] socket_asked_own by simp
  next
    case False
    then obtain r2 m2 where s: "searchPolicyFiles n w SOCKET_FILE u j lp m1 = Inr (r2, m2)"
      and d: "socket_target n w u lp j r2 m2 = Inr (r, m')"
      using c by (auto simp: bindE_Inr_conv)
    have j: "j < length (heap m1)" "pf_type (heap m1 ! j) = SOCKET_FILE" using g(2) by (simp_all add: file_for_def)
    note sp = searchPolicyFiles_ok [OF good_step_ok [OF g(1)] j s]
    have g2: "good_step w {} m1 m2" using sp by blast
    have fj: "file_for SOCKET_FILE mu m2 j" using file_for_grows [OF g(2)] g2 by (simp add: good_step_def)
    have p2: "socket_asked u m2 k" if "r2 = Some js" "k \<in> set js" for js k
    proof -
      have "asked SOCKET_FILE u j m2 k" using sp that by blast
      then show ?thesis using fj a by (auto simp: asked_def socket_asked_def)
    qed
    have t: "good_step w {} m2 m' \<and> (\<forall>js k. r = Some js \<longrightarrow> k \<in> set js \<longrightarrow> socket_asked u m' k)"
      by (rule socket_target_ok [OF good_step_ok [OF g2] d p2])
    then have "good_step w {} m1 m'" using good_step_trans [OF g2] by blast
    then show ?thesis using t by blast
  qed
  then have t: "good_step w {} m1 m'" "r = Some js \<Longrightarrow> k \<in> set js \<Longrightarrow> socket_asked u m' k" for js k by blast+
  show "good_step w {} m m'" using good_step_trans [OF g(1)] t(1) by blast
  show "r = Some js \<Longrightarrow> k \<in> set js \<Longrightarrow> socket_asked u m' k" by (rule t(2))
qed

section \<open>Runs\<close>

definition no_files :: security_manager where
  "no_files = \<lparr>heap = [], pendingFiles = (\<lambda>_. []), loadedFiles = (\<lambda>_. [])\<rparr>"

text \<open>What the program may call, in any order and with any arguments.\<close>

inductive security_step :: "world \<Rightarrow> security_manager \<Rightarrow> security_manager \<Rightarrow> bool" for w where
  step_add: "addPolicyFile w u m = (r, m') \<Longrightarrow> security_step w m m'"
| step_url: "evaluatePoliciesURL n w pr u lp m = Inr (x, m') \<Longrightarrow> security_step w m m'"
| step_socket: "evaluateSocketConnection n w pr u lp m = Inr (x, m') \<Longrightarrow> security_step w m m'"
| step_header: "evaluateHeader n w pr u h lp m = Inr (x, m') \<Longrightarrow> security_step w m m'"

lemma evaluatePoliciesURL_cases:
  assumes "evaluatePoliciesURL n w pr u lp m = Inr (x, m')"
  shows "(x = ALLOWED \<and> m' = m) \<or> (\<exists>js. searchURLPolicyFiles n w u lp m = Inr (js, m')
    \<and> x = (if any_allows js (baseURL pr) u m' then ALLOWED else NA_CROSSDOMAIN_POLICY))"
  using assms by (auto simp: evaluatePoliciesURL_def bindE_Inr_conv split: if_splits)

lemma evaluateSocketConnection_cases:
  assumes "evaluateSocketConnection n w pr u lp m = Inr (x, m')"
  shows "m' = m \<or> (\<exists>js. searchSocketPolicyFiles n w u lp m = Inr (js, m')
    \<and> x = (if any_allows js (origin pr) u m' then ALLOWED else NA_CROSSDOMAIN_POLICY))"
  using assms by (auto simp: evaluateSocketConnection_def bindE_Inr_conv split: if_splits)

lemma evaluateHeader_cases:
  assumes "evaluateHeader n w pr u h lp m = Inr (x, m')"
  shows "m' = m \<or> (\<exists>js. searchURLPolicyFiles n w u lp m = Inr (js, m'))"
  using assms by (auto simp: evaluateHeader_def bindE_Inr_conv split: if_splits option.splits)

lemma security_step_ok:
  assumes "security_step w m m'" and "manager_ok w {} m"
  shows "good_step w {} m m'"
  using assms
proof cases
  case (step_add u r)
  then show ?thesis
    using add_file_ok(1,2) [OF assms(2)] assms(2) by (auto simp: addPolicyFile_def good_step_def apfst_def map_prod_def split: if_splits prod.splits)
next
  case step_url
  then show ?thesis using evaluatePoliciesURL_cases searchURLPolicyFiles_ok(1) [OF assms(2)] good_step_refl [OF assms(2)] by blast
next
  case step_socket
  then show ?thesis using evaluateSocketConnection_cases searchSocketPolicyFiles_ok(1) [OF assms(2)] good_step_refl [OF assms(2)] by blast
next
  case step_header
  then show ?thesis using evaluateHeader_cases searchURLPolicyFiles_ok(1) [OF assms(2)] good_step_refl [OF assms(2)] by blast
qed

lemma no_files_ok: "manager_ok w {} no_files"
  by (simp add: manager_ok_def no_files_def)

lemma security_run_ok:
  assumes "(security_step w)\<^sup>*\<^sup>* m m'" and "manager_ok w {} m"
  shows "good_step w {} m m'"
  using assms
proof (induction rule: rtranclp_induct)
  case (step m1 m2)
  then show ?case using good_step_trans security_step_ok by blast
qed (simp add: good_step_refl)


section \<open>What is granted\<close>

lemma entry_domain: "PolicyAllowAccessFrom ty sub d q s g = Inr a \<Longrightarrow> aa_domain a = d"
  by (auto simp: PolicyAllowAccessFrom_def bindE_Inr_conv)

lemma access_allows_needs:
  assumes "access_allows ty sub a u p c"
  shows "matchesDomain (aa_domain a) (hostname u)"
    and "ty = SOCKET_FILE \<longrightarrow> p = q \<and> c \<Longrightarrow> ty = SOCKET_FILE \<longrightarrow> q \<noteq> 0 \<and> list_ex (\<lambda>r. port_matches r q) (aa_toPorts a)
      \<and> (aa_secure a \<longrightarrow> protocol u = ''https'')"
  using assms by (auto simp: access_allows_def split: if_splits)

lemma access_entry:
  assumes "manager_ok w {} m" and "k < length (heap m)" and "allowsAccessFrom (heap m ! k) from to"
  shows "\<exists>data a. served w k (pf_type (heap m ! k)) (pf_originalURL (heap m ! k)) data
    \<and> lists_access (xml_parse w data) (pf_type (heap m ! k)) (pf_subtype (heap m ! k)) a \<and> matchesDomain (aa_domain a) (hostname from)
    \<and> (pf_type (heap m ! k) = SOCKET_FILE \<longrightarrow> port to \<noteq> 0 \<and> list_ex (\<lambda>r. port_matches r (port to)) (aa_toPorts a)
         \<and> (aa_secure a \<longrightarrow> protocol from = ''https''))"
proof -
  have e: "entries_ok w k (heap m ! k)" using assms(1,2) by (simp add: manager_ok_def)
  have "\<exists>a\<in>set (pf_access (heap m ! k)). \<exists>p c. access_allows (pf_type (heap m ! k)) (pf_subtype (heap m ! k)) a from p c
      \<and> (pf_type (heap m ! k) = SOCKET_FILE \<longrightarrow> p = port to \<and> c)"
    using assms(3) by (cases "pf_type (heap m ! k)") (auto simp: allowsAccessFrom_def list_ex_iff split: if_splits)
  then show ?thesis using e access_allows_needs unfolding entries_ok_def by meson
qed

text \<open>C33: A program from the net (its base URL is no file) gets at a valid URL of another host or protocol only if a policy
  file permits it, unless the URL is an RTMP one: \<open>evaluatePoliciesURL\<close> allows these on purpose, and the empty URL,
  without any policy file (\<open>rtmp_needs_no_policy\<close>). The permission is an entry allow-access-from, whose domain
  matches the host of the program, in a document that a server has delivered with an accepted content type, without leaving the
  host by a redirection. The file is the master file of the URL, or a file of the same host whose directory holds the URL (or that
  stands at the place of a master file) while a loaded and valid master file permits others than itself.\<close>

theorem access_granted_by_policy:
  assumes "(security_step w)\<^sup>*\<^sup>* no_files m" and "evaluatePoliciesURL n w pr u lp m = Inr (ALLOWED, m')"
    and "valid u" and "protocol (baseURL pr) \<noteq> ''file''" and "\<not> isRTMP u"
    and "protocol u \<noteq> protocol (baseURL pr) \<or> hostname u \<noteq> hostname (baseURL pr)"
  shows "\<exists>i data as j mu. served w i URL_FILE (pf_originalURL (heap m' ! i)) data \<and> fst (xml_parse w data) = ''cross-domain-policy''
    \<and> XElement ''allow-access-from'' as \<in> set (snd (xml_parse w data)) \<and> matchesDomain (attr_value ''domain'' as) (hostname (baseURL pr))
    \<and> master_url URL_FILE u = Inr mu \<and> file_for URL_FILE mu m' j
    \<and> (i = j \<or> hostname (pf_originalURL (heap m' ! i)) = hostname u \<and> (isMaster (heap m' ! i) \<or> isSubOf u (pf_url (heap m' ! i)))
         \<and> pf_loaded (heap m' ! j) \<and> pf_valid (heap m' ! j) \<and> getMetaPolicy (heap m' ! j) \<notin> {META_NONE, META_MASTER_ONLY})"
proof -
  have m: "manager_ok w {} m" using security_run_ok [OF assms(1) no_files_ok] by (simp add: good_step_def)
  obtain js where s: "searchURLPolicyFiles n w u lp m = Inr (Some js, m')" and al: "list_ex (\<lambda>j. allowsAccessFrom (heap m' ! j) (baseURL pr) u) js"
    using assms(2-6) by (auto simp: evaluatePoliciesURL_def isEmpty_def any_allows_def bindE_Inr_conv split: if_splits option.splits)
  then obtain k where k: "k \<in> set js" "allowsAccessFrom (heap m' ! k) (baseURL pr) u" by (auto simp: list_ex_iff)
  have m': "manager_ok w {} m'" using searchURLPolicyFiles_ok(1) [OF m s] by (simp add: good_step_def)
  obtain mu j where j: "master_url URL_FILE u = Inr mu" "file_for URL_FILE mu m' j" "asked URL_FILE u j m' k"
    using searchURLPolicyFiles_ok(2) [OF m s refl k(1)] by blast
  have kl: "k < length (heap m')" "pf_type (heap m' ! k) = URL_FILE" using j(3) by (simp_all add: asked_def)
  obtain data a where d: "served w k URL_FILE (pf_originalURL (heap m' ! k)) data" "lists_access (xml_parse w data) URL_FILE (pf_subtype (heap m' ! k)) a"
    "matchesDomain (aa_domain a) (hostname (baseURL pr))"
    using access_entry [OF m' kl(1) k(2)] kl(2) by auto
  obtain as where as: "fst (xml_parse w data) = ''cross-domain-policy''" "XElement ''allow-access-from'' as \<in> set (snd (xml_parse w data))"
    "aa_domain a = attr_value ''domain'' as"
    using d(2) entry_domain unfolding lists_access_def by blast
  have "isMaster (heap m' ! k) \<or> isSubOf u (pf_url (heap m' ! k))" using k(2) kl(2) by (auto simp: allowsAccessFrom_def split: if_splits)
  then show ?thesis using d(1,3) as j unfolding asked_def by metis
qed


text \<open>C34: A policy file is loaded once: whatever the program does afterwards, and whatever the servers deliver later, a file
  that has been loaded stays as it is.\<close>

theorem loaded_files_frozen:
  assumes "(security_step w)\<^sup>*\<^sup>* no_files m" and "(security_step w)\<^sup>*\<^sup>* m m'" and "i < length (heap m)" and "pf_loaded (heap m ! i)"
  shows "i < length (heap m') \<and> heap m' ! i = heap m ! i"
  using security_run_ok [OF assms(2) good_step_ok [OF security_run_ok [OF assms(1) no_files_ok]]] assms(3,4)
  by (auto simp: good_step_def grows_def)

text \<open>A connection with a socket to another machine needs an entry with its port in a policy file of the host.\<close>

lemma socket_granted_by_policy:
  assumes "(security_step w)\<^sup>*\<^sup>* no_files m" and "evaluateSocketConnection n w pr u lp m = Inr (ALLOWED, m')"
    and "sandboxType pr = LOCAL_TRUSTED \<Longrightarrow> hostname u \<notin> {''127.0.0.1'', ''localhost''}"
  shows "\<exists>i data a sub. served w i SOCKET_FILE (pf_originalURL (heap m' ! i)) data \<and> lists_access (xml_parse w data) SOCKET_FILE sub a
    \<and> matchesDomain (aa_domain a) (hostname (origin pr)) \<and> list_ex (\<lambda>r. port_matches r (port u)) (aa_toPorts a)
    \<and> (aa_secure a \<longrightarrow> protocol (origin pr) = ''https'') \<and> socket_asked u m' i"
proof -
  have m: "manager_ok w {} m" using security_run_ok [OF assms(1) no_files_ok] by (simp add: good_step_def)
  obtain js where s: "searchSocketPolicyFiles n w u lp m = Inr (Some js, m')" and al: "list_ex (\<lambda>j. allowsAccessFrom (heap m' ! j) (origin pr) u) js"
    using assms(2,3) by (auto simp: evaluateSocketConnection_def any_allows_def bindE_Inr_conv split: if_splits option.splits)
  then obtain k where k: "k \<in> set js" "allowsAccessFrom (heap m' ! k) (origin pr) u" by (auto simp: list_ex_iff)
  have m': "manager_ok w {} m'" using searchSocketPolicyFiles_ok(1) [OF m s] by (simp add: good_step_def)
  have a: "socket_asked u m' k" using searchSocketPolicyFiles_ok(2) [OF m s refl k(1)] .
  then have kl: "k < length (heap m')" "pf_type (heap m' ! k) = SOCKET_FILE" by (simp_all add: socket_asked_def)
  show ?thesis using access_entry [OF m' kl(1) k(2)] kl(2) a by auto
qed


section \<open>An example of a grant\<close>

definition granting_doc :: "string \<Rightarrow> xml_doc" where
  "granting_doc d = (''cross-domain-policy'', [XElement ''allow-access-from'' [(''domain'', d)]])"

lemma goToURL_master:
  "goToURL i ''/crossdomain.xml'' = URLInfo (url_text (protocol i) (hostname i) (port i) [''crossdomain.xml''] [])"
  by (simp add: goToURL_def url_text_def port_part_def query_part_def str_find_def str_npos_def)

lemma parse_granting:
  assumes "d \<noteq> []" and "pf_type f = URL_FILE" and "pf_access f = []"
  shows "\<exists>a. aa_domain a = d \<and> parse_elements (CrossDomainPolicy (granting_doc d) URL_FILE sub b) f = Inr (False, f\<lparr>pf_access := [a]\<rparr>)"
proof -
  let ?p = "CrossDomainPolicy (granting_doc d) URL_FILE sub b" and ?q = "(CrossDomainPolicy (granting_doc d) URL_FILE sub b)\<lparr>cp_first := False\<rparr>"
  have n: "getNextElement ?p = (ALLOW_ACCESS_FROM d [] False False, ?q)"
    using assms(1) by (simp add: CrossDomainPolicy_def getNextElement_def granting_doc_def access_element_def attr_value_def attr_secure_def)
  have q: "getNextElement ?q = (POLICY_END, ?q)" by (simp add: CrossDomainPolicy_def getNextElement_def)
  have p: "parse_elements ?q g = Inr (False, g)" for g by (subst parse_elements.simps) (simp add: q)
  obtain a where "PolicyAllowAccessFrom URL_FILE (pf_subtype f) d [] False False = Inr a \<and> aa_domain a = d"
    by (simp add: PolicyAllowAccessFrom_def)
  then show ?thesis
    using assms by (intro exI [of _ a]) (subst parse_elements.simps, simp add: n p handlePolicyElement_def stops_parsing_def)
qed

text \<open>With the right entry in the master file, access is granted.\<close>

lemma master_grants:
  assumes g: "good_url (protocol u) (hostname u) (port u) [''crossdomain.xml''] []" and u: "valid u" "protocol u = ''http''"
    and w: "\<And>mu. d_failed (downloads w 0 mu) = False" "\<And>mu. d_redirected (downloads w 0 mu) = None"
      "\<And>mu. d_contentType (downloads w 0 mu) = ''text/xml''" "\<And>data. xml_parse w data = granting_doc d"
    and d: "d \<noteq> []" "matchesDomain d (hostname (baseURL pr))" and pr: "protocol (baseURL pr) \<noteq> ''file''" "hostname u \<noteq> hostname (baseURL pr)"
  shows "\<exists>m'. evaluatePoliciesURL 1 w pr u True no_files = Inr (ALLOWED, m') \<and> length (heap m') = 1 \<and> pf_loaded (heap m' ! 0)"
proof -
  obtain mu where mu: "URLInfo (url_text (protocol u) (hostname u) (port u) [''crossdomain.xml''] []) = Some (Inr mu)"
    "protocol mu = protocol u" "hostname mu = hostname u" "upath mu = ''/crossdomain.xml''" "valid mu"
    using url_parts [OF g] by auto
  have mm: "master_url URL_FILE u = Inr mu" by (simp add: master_url_def goToURL_master mu(1))
  let ?f = "new_file w URL_FILE mu"
  have f: "isMaster ?f" "pf_type ?f = URL_FILE" "pf_subtype ?f = HTTP" "pf_valid ?f" "\<not> pf_loaded ?f" "\<not> pf_ignore ?f" "pf_url ?f = mu"
    "pf_siteControl ?f = None" "pf_access ?f = []"
    using mu u by (simp_all add: new_file_def isMaster_def url_subtype_def)
  let ?m = "\<lparr>heap = [?f], pendingFiles = (\<lambda>_. [])(URL_FILE := [(hostname mu, 0)]), loadedFiles = (\<lambda>_. [])\<rparr>"
  have a: "find_or_add w URL_FILE mu no_files = (0, ?m)"
    using mu(5) by (simp add: find_or_add_def getPolicyFileByURL_def no_files_def files_at_def add_file_def)
  obtain e where e: "aa_domain e = d" "parse_elements (CrossDomainPolicy (granting_doc d) URL_FILE HTTP True) (?f\<lparr>pf_loaded := True\<rparr>)
      = Inr (False, ?f\<lparr>pf_loaded := True, pf_access := [e]\<rparr>)"
    using parse_granting [OF d(1), of "?f\<lparr>pf_loaded := True\<rparr>" HTTP True] f by auto
  let ?n = "?m\<lparr>heap := [?f\<lparr>pf_loaded := True, pf_access := [e]\<rparr>]\<rparr>"
  have same: "set_file 0 (pf_ignore_update (\<lambda>_. False)) ?m = ?m" "set_file 0 (pf_valid_update (\<lambda>_. True)) ?m = ?m" "set_file 0 (\<lambda>_. ?f) ?m = ?m"
    using mu(5) by (simp_all add: set_file_def new_file_def)
  have i: "isIgnoredByMaster (load 0 w) w 0 ?m = Inr (False, ?m)" using f(1) by (simp add: isIgnoredByMaster_def)
  have "follow_redirection (downloads w 0 mu) ?f = Inr (True, ?f)" using w(1,2) by (simp add: follow_redirection_def)
  moreover have "type_accepted HTTP (content_type (downloads w 0 mu))" using w(3) by (simp add: type_accepted_def content_type_def)
  ultimately have "retrieve_url w 0 ?m = Inr (True, d_content (downloads w 0 mu), ?m)" using f same(3) by (simp add: retrieve_url_def)
  then have r: "retrieve_step w 0 False ?m = Inr (True, d_content (downloads w 0 mu), ?m)"
    using f(2) by (simp add: retrieve_step_def retrievePolicyFile_def)
  have meta: "getMetaPolicy (?f\<lparr>pf_loaded := True, pf_access := [e]\<rparr>) = META_MASTER_ONLY"
    using f by (simp add: getMetaPolicy_def isMaster_def defaultSitePolicy_def)
  have "after_parsing False (?f\<lparr>pf_loaded := True, pf_access := [e]\<rparr>) = ?f\<lparr>pf_loaded := True, pf_access := [e]\<rparr>"
    if "getMetaPolicy (?f\<lparr>pf_loaded := True, pf_access := [e]\<rparr>) = META_MASTER_ONLY"
    using that f mu(5) by (simp add: after_parsing_def checkSiteControlValidity_def isMaster_def)
  then have "read_step w 0 data ?m = Inr ?n" for data
    using f e(2) w(4) meta by (simp add: read_step_def read_policy_def set_file_def isMaster_def)
  then have l: "load 1 w 0 ?m = Inr ?n" using f(4,5) i r same unfolding One_nat_def load_steps by simp
  define m' where "m' = ?n\<lparr>pendingFiles := (\<lambda>_. []), loadedFiles := (\<lambda>_. [])(URL_FILE := [(hostname mu, 0)])\<rparr>"
  have h: "heap m' ! 0 = ?f\<lparr>pf_loaded := True, pf_access := [e]\<rparr>" "length (heap m') = 1" by (simp_all add: m'_def)
  have "loadPolicyFile (load 1 w) URL_FILE 0 ?m = Inr m'"
    using l f(7) by (simp add: loadPolicyFile_def files_at_def m'_def fun_upd_idem_iff del: load.simps)
  then have "get_file 1 w URL_FILE mu True no_files = Inr (0, m')" by (simp add: get_file_def a del: load.simps)
  moreover have "searchPolicyFiles 1 w URL_FILE u 0 True m' = Inr (Some [0], m')"
    using meta f by (simp add: searchPolicyFiles_def h)
  ultimately have s: "searchURLPolicyFiles 1 w u True no_files = Inr (Some [0], m')"
    by (simp add: searchURLPolicyFiles_def mm)
  have "allowsAccessFrom (heap m' ! 0) (baseURL pr) u"
    using f e(1) d(2) by (simp add: h allowsAccessFrom_def access_allows_def isMaster_def)
  then have "evaluatePoliciesURL 1 w pr u True no_files = Inr (ALLOWED, m')"
    using u pr by (simp add: evaluatePoliciesURL_def isEmpty_def isRTMP_def s [unfolded One_nat_def] any_allows_def)
  then show ?thesis using h by simp
qed


definition example_world :: world where
  "example_world = \<lparr>downloads = (\<lambda>i u. \<lparr>d_failed = False, d_redirected = None, d_contentType = ''text/xml'', d_content = []\<rparr>),
     sockets = (\<lambda>i u. \<lparr>s_connected = False, s_sent = False, s_received = []\<rparr>), xml_parse = (\<lambda>data. granting_doc ''*.a''), unset = HTTP\<rparr>"

definition example_url :: "string \<Rightarrow> url_info" where
  "example_url h = empty_url\<lparr>protocol := ''http'', hostname := h, upath := ''/'', valid := True\<rparr>"

definition example_program :: program where
  "example_program = \<lparr>baseURL = example_url ''x.a'', origin = example_url ''x.a'', sandboxType = REMOTE\<rparr>"

lemma example_grant:
  "\<exists>m'. evaluatePoliciesURL 1 example_world example_program (example_url ''b'') True no_files = Inr (ALLOWED, m') \<and> length (heap m') = 1
     \<and> pf_loaded (heap m' ! 0)"
proof -
  have g: "good_url ''http'' ''b'' 0 [''crossdomain.xml''] []"
    by (simp add: good_url_def normal_def plain_char_def tolower_def url_text_def port_part_def query_part_def)
  have d: "matchesDomain ''*.a'' ''x.a''" by (simp add: matchesDomain_def tolower_def)
  show ?thesis
    by (rule master_grants [where d = "''*.a''"])
      (use g d in \<open>simp_all add: example_url_def example_world_def example_program_def empty_url_def\<close>)
qed

theorem access_granted_by_policy_witness:
  "\<exists>m' i data as j mu. evaluatePoliciesURL 1 example_world example_program (example_url ''b'') True no_files = Inr (ALLOWED, m')
    \<and> served example_world i URL_FILE (pf_originalURL (heap m' ! i)) data \<and> fst (xml_parse example_world data) = ''cross-domain-policy''
    \<and> XElement ''allow-access-from'' as \<in> set (snd (xml_parse example_world data))
    \<and> matchesDomain (attr_value ''domain'' as) (hostname (baseURL example_program))
    \<and> master_url URL_FILE (example_url ''b'') = Inr mu \<and> file_for URL_FILE mu m' j"
proof -
  obtain m' where m': "evaluatePoliciesURL 1 example_world example_program (example_url ''b'') True no_files = Inr (ALLOWED, m')"
    using example_grant by blast
  have "valid (example_url ''b'')" "protocol (baseURL example_program) \<noteq> ''file''" "\<not> isRTMP (example_url ''b'')"
    "protocol (example_url ''b'') \<noteq> protocol (baseURL example_program) \<or> hostname (example_url ''b'') \<noteq> hostname (baseURL example_program)"
    by (simp_all add: example_url_def example_program_def isRTMP_def)
  from access_granted_by_policy [OF rtranclp.rtrancl_refl m' this] m' show ?thesis by blast
qed

theorem loaded_files_frozen_witness:
  "\<exists>m m'. evaluatePoliciesURL 1 example_world example_program (example_url ''b'') True no_files = Inr (ALLOWED, m)
    \<and> addPolicyFile example_world (example_url ''c'') m = (Some 1, m') \<and> 0 < length (heap m') \<and> heap m' ! 0 = heap m ! 0
    \<and> pf_loaded (heap m ! 0)"
proof -
  obtain m where m: "evaluatePoliciesURL 1 example_world example_program (example_url ''b'') True no_files = Inr (ALLOWED, m)"
    and l: "length (heap m) = 1" "pf_loaded (heap m ! 0)"
    using example_grant by blast
  obtain m' where m': "addPolicyFile example_world (example_url ''c'') m = (Some 1, m')"
    using l(1) by (simp add: addPolicyFile_def example_url_def add_file_def)
  have "(security_step example_world)\<^sup>*\<^sup>* no_files m" "(security_step example_world)\<^sup>*\<^sup>* m m'"
    using step_url [OF m] step_add [OF m'] by blast+
  from loaded_files_frozen [OF this, of 0] l m m' show ?thesis by auto
qed

section \<open>Where the code departs from its purpose\<close>

text \<open>A URL of RTMP is allowed without a policy file.\<close>

lemma rtmp_needs_no_policy:
  "valid u \<Longrightarrow> isRTMP u \<Longrightarrow> evaluatePoliciesURL n w pr u lp m = Inr (ALLOWED, m)"
  by (simp add: evaluatePoliciesURL_def isEmpty_def)

text \<open>A pending file that was redirected to another host stays pending for the host it was registered for: the search does not end.\<close>

lemma redirected_file_never_ends:
  assumes "files_at h (pendingFiles m ty) = j # js" and "pf_loaded (heap m ! j)" and "hostname (pf_url (heap m ! j)) \<noteq> h"
    and "manager_ok w {} m"
  shows "load_pending n w ty h m = Inl OutOfFuel"
proof (induction n)
  case (Suc n)
  have "(h, j) \<in> set (pendingFiles m ty)" using assms(1) by (auto simp: files_at_def filter_eq_Cons_iff)
  then have "hostname (pf_originalURL (heap m ! j)) = h" using assms(4) by (auto simp: manager_ok_def)
  then have "(hostname (pf_url (heap m ! j)), j) \<notin> set (pendingFiles m ty)" using assms(3,4) by (auto simp: manager_ok_def)
  then have "loadPolicyFile (load (Suc n) w) ty j m = Inr m" using assms(2) by (simp add: loadPolicyFile_def)
  then show ?case using assms(1) Suc by (simp del: load.simps)
qed simp

text \<open>No header is restricted, whatever it is.\<close>

lemma header_never_restricted: "\<not> header_restricted h"
  by (simp add: header_restricted_def restricted_headers_def)

text \<open>The attribute \<open>secure\<close> of an entry has no effect in the policy files of web servers.\<close>

lemma secure_not_enforced: "access_allows URL_FILE sub a u 0 (protocol u = ''https'') \<longleftrightarrow> matchesDomain (aa_domain a) (hostname u)"
  by (auto simp: access_allows_def)

text \<open>A range of ports matches its own bounds only if they are equal, and nothing between them.\<close>

lemma span_empty: "a < b \<Longrightarrow> \<not> port_matches (port_span a b) p"
  by (auto simp: port_matches_def port_span_def)

text \<open>A master file with a damaged element stays valid if it has a site control before that.\<close>

lemma damaged_master_valid:
  assumes "isMaster f" and "pf_siteControl f = Some META_ALL" and "pf_ignore f = False"
  shows "pf_valid (after_parsing True f) \<and> \<not> pf_ignore (after_parsing True f)"
proof -
  have m: "isMaster (f\<lparr>pf_valid := False\<rparr>)" using assms(1) by (simp add: isMaster_def cong: file_type.case_cong)
  then have "getMetaPolicy (f\<lparr>pf_valid := False\<rparr>) = META_ALL" using assms(2) by (simp add: getMetaPolicy_def)
  then show ?thesis using m assms(3) by (simp add: after_parsing_def Let_def checkSiteControlValidity_def)
qed

text \<open>The last character of what a socket delivers is cut off, also if it belongs to the document.\<close>

lemma socket_document_cut:
  assumes "length data < 4095"
  shows "retrieve_socket \<lparr>s_connected = True, s_sent = True, s_received = [Some (data @ [62])]\<rparr> f = (True, data)"
  using assms by (simp add: retrieve_socket_def)

text \<open>An empty piece in a list of headers is read before its beginning.\<close>

lemma empty_header_read: "header_found [[]] ''x'' = Inl OutOfBounds"
  by simp

end
