(* ===== verification/VmQueue.thy ===== *)
theory VmQueue
  imports LS_Prelude "HOL-Library.Multiset" "HOL-Library.Sublist"
begin

text \<open>
  The event queues of the virtual machine (\<open>ABCVm\<close> in \<open>scripting/abc.cpp\<close>): the methods that add events, the thread
  that handles them, errors while it does, and the end of the machine. The steps of the threads interleave.

  What the handling of an event does is part of the event here: the calls it makes and how it ends. As an event is
  any finite tree of that kind, all handlers that return are covered, and no others. Reference counts, the members that keep
  dispatchers alive and the messages on errors are left out, and so is \<open>checkExternalCallEvent\<close>.

  A method that takes the mutex is one step. The handler of SHUTDOWN moves the idle events to the other queue without
  taking it, while other threads may add events: this data race is left out, the move is one step too. A failed assertion
  stops the model; a build without assertions goes on, which for \<open>signalEventWaiters\<close> means that it signals and drops
  all events of the queue although the machine is not shutting down.
\<close>

section \<open>The code\<close>

datatype event_kind = EVENT | BIND_CLASS | SHUTDOWN | SYNC | MOUSE_EVENT | FUNCTION | FUNCTION_ASYNC | EXTERNAL_CALL | CONTEXT_INIT
  | INIT_FRAME | FLUSH_INVALIDATION_QUEUE | FLUSH_EVENT_BUFFER bool bool | ADVANCE_FRAME | PARSE_RPC_MESSAGE | EXECUTE_FRAMESCRIPT
  | TEXTINPUT_EVENT | IDLE_EVENT | SET_LOADER_CONTENT_EVENT | ROOTCONSTRUCTEDEVENT | LOCALCONNECTIONEVENT | GETMOUSETARGET_EVENT
  | RENDER_FRAME | BROADCAST_EVENT | STARTJOB_EVENT | GARBAGECOLLECTION_EVENT | FIRST_FRAME_AVAILABLE_EVENT
  | ADDTOINVALIDATEQUEUE_EVENT

text \<open>How handling ends: normally, with \<open>ScriptLimitException\<close>, with another \<open>LightsparkException\<close>, or with an object
  that the program has thrown, which may be an \<open>ASError\<close> or not.\<close>

datatype outcome = Normal | ScriptLimit | InternalError | ThrownError | ThrownObject

text \<open>An event with its dispatcher; \<open>foreign\<close> if it belongs to the worker of another thread.\<close>

datatype vm_event = VmEvent (eid: nat) (kind: event_kind) (dispatcher: "nat option") (waitable: bool) (foreign: bool) (etype: string)
    (calls: "vm_call list") (outcome_of: outcome)
  and vm_call = AddEvent vm_event bool | PrependEvent vm_event bool | AddIdleEvent vm_event bool | AddBufferEvent vm_event
    | PrependBufferEvent vm_event

text \<open>What can be seen from outside: \<open>onNewEvent\<close>, \<open>afterHandleEvent\<close> and \<open>signal\<close> are methods of the event and its
  dispatcher; \<open>Accepted\<close> notes that somebody may wait for an event from now on, \<open>Taken\<close> that it has left the queue.\<close>

datatype vm_effect = NewEvent vm_event | AfterHandle vm_event | Signalled vm_event | Accepted vm_event | Forwarded vm_event
  | ToWorkers vm_event | Taken vm_event | Flushed | Terminated | Drained

record vm =
  events_queue :: "vm_event list"
  idleevents_queue :: "vm_event list"
  event_buffer :: "vm_event list"
  shuttingdown :: bool
  halted :: bool
  isIdle :: bool
  canFlush :: bool
  running :: "(vm_event \<times> vm_call list \<times> outcome) list"
  ended :: bool
  failed :: bool
  sys_error :: bool
  sys_shutdown :: bool
  exit_on_error :: bool
  ignore_unhandled :: bool
  trace :: "vm_effect list"

definition new_vm :: "bool \<Rightarrow> bool \<Rightarrow> vm" where
  "new_vm exiting ignoring = \<lparr>events_queue = [], idleevents_queue = [], event_buffer = [], shuttingdown = False, halted = False, isIdle = True,
     canFlush = True, running = [], ended = False, failed = False, sys_error = False,
     sys_shutdown = False, exit_on_error = exiting, ignore_unhandled = ignoring, trace = []\<rparr>"

definition emit :: "vm_effect list \<Rightarrow> vm \<Rightarrow> vm" where "emit xs s = s\<lparr>trace := trace s @ xs\<rparr>"

definition after_handle :: "vm_event \<Rightarrow> vm_effect list" where
  "after_handle e = (if dispatcher e \<noteq> None then [AfterHandle e] else [])"

definition on_new :: "vm_event \<Rightarrow> vm_effect list" where
  "on_new e = (if dispatcher e \<noteq> None then [NewEvent e] else [])"

definition accepted :: "vm_event \<Rightarrow> vm_effect list" where "accepted e = (if waitable e then [Accepted e] else [])"

definition signalled :: "vm_event \<Rightarrow> vm_effect list" where "signalled e = (if waitable e then [Signalled e] else [])"

definition for_worker :: "vm_event \<Rightarrow> bool \<Rightarrow> bool" where
  "for_worker e isGlobalMessage \<longleftrightarrow> \<not> isGlobalMessage
     \<and> (dispatcher e \<noteq> None \<or> kind e \<in> {BIND_CLASS, FIRST_FRAME_AVAILABLE_EVENT, ROOTCONSTRUCTEDEVENT}) \<and> foreign e"

definition addEvent :: "vm_event \<Rightarrow> bool \<Rightarrow> vm \<Rightarrow> bool \<times> vm" where
  "addEvent e isGlobalMessage s =
     (if for_worker e isGlobalMessage then (True, emit [Forwarded e] s)
      else if shuttingdown s then (False, emit (accepted e @ signalled e @ after_handle e) s)
      else (True, emit (on_new e @ accepted e @ (if isGlobalMessage then [ToWorkers e] else [])) (s\<lparr>events_queue := events_queue s @ [e]\<rparr>)))"

definition prependEvent :: "vm_event \<Rightarrow> bool \<Rightarrow> vm \<Rightarrow> bool \<times> vm" where
  "prependEvent e force s =
     (if shuttingdown s then (False, emit (after_handle e) s)
      else (True, emit (on_new e @ accepted e)
        (s\<lparr>events_queue := (if isIdle s \<or> force then e # events_queue s else events_queue s @ [e])\<rparr>)))"

fun remove_similar :: "vm_event \<Rightarrow> vm_event list \<Rightarrow> vm_event list" where
  "remove_similar e [] = []"
| "remove_similar e (x # xs) = (if dispatcher x = dispatcher e \<and> etype x = etype e then xs else x # remove_similar e xs)"

definition addIdleEvent :: "vm_event \<Rightarrow> bool \<Rightarrow> vm \<Rightarrow> bool \<times> vm" where
  "addIdleEvent e removeprevious s =
     (if shuttingdown s then (False, emit (after_handle e) s)
      else if dispatcher e \<noteq> None \<and> foreign e then (True, emit [Forwarded e] s)
      else (True, emit (accepted e)
        (s\<lparr>idleevents_queue := (if removeprevious then remove_similar e (idleevents_queue s) else idleevents_queue s) @ [e]\<rparr>)))"

definition addBufferEvent :: "vm_event \<Rightarrow> vm \<Rightarrow> bool \<times> vm" where
  "addBufferEvent e s =
     (if shuttingdown s then (False, emit (after_handle e) s)
      else (True, emit (accepted e) (s\<lparr>event_buffer := event_buffer s @ [e]\<rparr>)))"

definition prependBufferEvent :: "vm_event \<Rightarrow> vm \<Rightarrow> bool \<times> vm" where
  "prependBufferEvent e s =
     (if shuttingdown s then (False, s) else (True, emit (accepted e) (s\<lparr>event_buffer := e # event_buffer s\<rparr>)))"

fun queue_call :: "vm_call \<Rightarrow> vm \<Rightarrow> bool \<times> vm" where
  "queue_call (AddEvent e g) s = addEvent e g s"
| "queue_call (PrependEvent e f) s = prependEvent e f s"
| "queue_call (AddIdleEvent e r) s = addIdleEvent e r s"
| "queue_call (AddBufferEvent e) s = addBufferEvent e s"
| "queue_call (PrependBufferEvent e) s = prependBufferEvent e s"

text \<open>Waitable events that the thread of the machine adds itself are handled at once.\<close>

fun direct_event :: "vm_call \<Rightarrow> vm_event option" where
  "direct_event (AddEvent e g) = (if \<not> for_worker e g \<and> waitable e then Some e else None)"
| "direct_event (PrependEvent e f) = (if waitable e then Some e else None)"
| "direct_event _ = None"

definition gc_event :: vm_event where "gc_event = VmEvent 0 GARBAGECOLLECTION_EVENT None False False [] [] Normal"

text \<open>The part of \<open>handleEvent\<close> that concerns the queues; a kind that no branch handles fails an assertion.\<close>

definition internal_action :: "vm_event \<Rightarrow> vm \<Rightarrow> vm" where
  "internal_action e s =
     (if dispatcher e \<noteq> None then s
      else case kind e of
        SHUTDOWN \<Rightarrow> emit [Terminated] (s\<lparr>events_queue := events_queue s @ idleevents_queue s, idleevents_queue := [], shuttingdown := True,
          sys_shutdown := True\<rparr>)
      | IDLE_EVENT \<Rightarrow> s\<lparr>events_queue := events_queue s @ idleevents_queue s @ [gc_event], idleevents_queue := [], isIdle := True\<rparr>
      | FLUSH_EVENT_BUFFER at_end reversed \<Rightarrow>
          s\<lparr>events_queue := (if at_end then events_queue s @ event_buffer s else event_buffer s @ events_queue s), event_buffer := []\<rparr>
      | EVENT \<Rightarrow> s\<lparr>failed := True\<rparr>
      | SYNC \<Rightarrow> s\<lparr>failed := True\<rparr>
      | MOUSE_EVENT \<Rightarrow> s\<lparr>failed := True\<rparr>
      | _ \<Rightarrow> s)"

definition after_event :: "vm_event \<Rightarrow> vm \<Rightarrow> vm" where
  "after_event e s =
     (let c = (if kind e = INIT_FRAME then False else if kind e = EXECUTE_FRAMESCRIPT then True else canFlush s)
      in emit ((if c \<and> (dispatcher e \<noteq> None \<or> kind e \<noteq> EXTERNAL_CALL) then [Flushed] else []) @ after_handle e) (s\<lparr>canFlush := c\<rparr>))"

definition signalEventWaiters :: "vm \<Rightarrow> vm" where
  "signalEventWaiters s =
     (if shuttingdown s then emit (concat (map signalled (events_queue s)) @ [Drained]) (s\<lparr>events_queue := []\<rparr>) else s\<lparr>failed := True\<rparr>)"

text \<open>\<open>SystemState::setShutdownFlag\<close> and \<open>setError\<close>; timers and rendering are left out.\<close>

definition shutdown_event :: vm_event where "shutdown_event = VmEvent 0 SHUTDOWN None False False [] [] Normal"

definition setShutdownFlag :: "vm \<Rightarrow> vm" where
  "setShutdownFlag s = (if \<not> sys_error s then snd (addEvent shutdown_event False s) else emit [Terminated] (s\<lparr>sys_shutdown := True\<rparr>))"

definition setError :: "vm \<Rightarrow> vm" where
  "setError s = (if exit_on_error s then setShutdownFlag (s\<lparr>sys_error := True\<rparr>) else s\<lparr>sys_error := True\<rparr>)"

definition unhandled :: "outcome \<Rightarrow> vm \<Rightarrow> vm" where
  "unhandled x s = (case x of
       Normal \<Rightarrow> s
     | ScriptLimit \<Rightarrow> s\<lparr>halted := True\<rparr>
     | InternalError \<Rightarrow> signalEventWaiters (setError s)
     | ThrownError \<Rightarrow> if ignore_unhandled s then s else setError s
     | ThrownObject \<Rightarrow>
         (let s = (if sys_shutdown s then s else setShutdownFlag s); s = setError s
          in if sys_shutdown s then s else setShutdownFlag s))"

definition catches :: "outcome \<Rightarrow> vm_event \<Rightarrow> bool" where
  "catches x e \<longleftrightarrow> dispatcher e = None \<and> (kind e = EXTERNAL_CALL \<and> x \<in> {ThrownError, ThrownObject} \<or> kind e = PARSE_RPC_MESSAGE)"

definition signals_error :: "outcome \<Rightarrow> vm_event \<Rightarrow> bool" where
  "signals_error x e \<longleftrightarrow> dispatcher e = None \<and> (kind e = FUNCTION \<or> kind e = EXTERNAL_CALL \<and> x \<notin> {ThrownError, ThrownObject})"

text \<open>An exception leaves the events that are being handled, up to one that catches it or to \<open>tryHandleEvent\<close>.\<close>

fun unwind :: "outcome \<Rightarrow> (vm_event \<times> vm_call list \<times> outcome) list \<Rightarrow> vm \<Rightarrow> vm" where
  "unwind x [] s = unhandled x (s\<lparr>running := []\<rparr>)"
| "unwind x ((e, cs, y) # fs) s =
     (if catches x e then s\<lparr>running := (e, [], Normal) # fs\<rparr>
      else unwind x fs (if signals_error x e then emit (signalled e) s else s))"

text \<open>One step of the thread of the machine; \<open>None\<close> if it waits, has ended or has failed.\<close>

definition start_event :: "vm_event \<Rightarrow> vm \<Rightarrow> vm" where
  "start_event e s = s\<lparr>running := (e, calls e, outcome_of e) # running s\<rparr>"

definition finish_event :: "vm_event \<Rightarrow> (vm_event \<times> vm_call list \<times> outcome) list \<Rightarrow> vm \<Rightarrow> vm" where
  "finish_event e fs s =
     (let s = emit (signalled e) (internal_action e (s\<lparr>running := fs\<rparr>))
      in if fs = [] then after_event e s else emit (after_handle e) s)"

definition handleFrontEvent :: "vm \<Rightarrow> vm" where
  "handleFrontEvent s =
     (let e = hd (events_queue s); s = emit [Taken e] (s\<lparr>events_queue := tl (events_queue s)\<rparr>) in
      if kind e \<noteq> SHUTDOWN \<and> \<not> waitable e \<and> halted s then emit (after_handle e) s else start_event e s)"

definition vm_thread :: "vm \<Rightarrow> vm option" where
  "vm_thread s =
     (if failed s \<or> ended s then None
      else case running s of
        [] \<Rightarrow> if events_queue s = [] then if shuttingdown s then Some (s\<lparr>ended := True\<rparr>) else None
              else Some (handleFrontEvent s)
      | (e, c # cs, x) # fs \<Rightarrow> (case direct_event c of
          Some d \<Rightarrow> Some (emit (accepted d) (start_event d (s\<lparr>running := (e, cs, x) # fs\<rparr>)))
        | None \<Rightarrow> Some (snd (queue_call c (s\<lparr>running := (e, cs, x) # fs\<rparr>))))
      | (e, [], x) # fs \<Rightarrow> Some (if x = Normal then finish_event e fs s else unwind x (running s) s))"

text \<open>The steps of all threads: those of the machine, calls by others, \<open>shutdown\<close> and the beginning of a frame.\<close>

inductive vm_step :: "(vm_call \<Rightarrow> bool) \<Rightarrow> vm \<Rightarrow> vm \<Rightarrow> bool" for ok :: "vm_call \<Rightarrow> bool" where
  by_vm: "vm_thread s = Some s' \<Longrightarrow> vm_step ok s s'"
| by_other: "ok c \<Longrightarrow> vm_step ok s (snd (queue_call c s))"
| by_shutdown: "vm_step ok s (s\<lparr>shuttingdown := True\<rparr>)"
| by_tick: "vm_step ok s (s\<lparr>isIdle := False\<rparr>)"


section \<open>Waiting\<close>

lemma emit_sel [simp]:
  "events_queue (emit xs s) = events_queue s" "idleevents_queue (emit xs s) = idleevents_queue s" "event_buffer (emit xs s) = event_buffer s"
  "shuttingdown (emit xs s) = shuttingdown s" "halted (emit xs s) = halted s" "isIdle (emit xs s) = isIdle s" "canFlush (emit xs s) = canFlush s"
  "running (emit xs s) = running s" "ended (emit xs s) = ended s" "failed (emit xs s) = failed s" "trace (emit xs s) = trace s @ xs"
  by (simp_all add: emit_def)

text \<open>Events for which others may wait, by where they are; those that were accepted and those that were signalled.\<close>

definition waits :: "vm_event list \<Rightarrow> vm_event multiset" where "waits es = filter_mset waitable (mset es)"

definition accepts :: "vm_effect list \<Rightarrow> vm_event multiset" where
  "accepts t = mset (concat (map (\<lambda>x. case x of Accepted e \<Rightarrow> [e] | _ \<Rightarrow> []) t))"

definition signals :: "vm_effect list \<Rightarrow> vm_event multiset" where
  "signals t = mset (concat (map (\<lambda>x. case x of Signalled e \<Rightarrow> [e] | _ \<Rightarrow> []) t))"

definition pending_waits :: "vm \<Rightarrow> vm_event multiset" where
  "pending_waits s = waits (events_queue s @ idleevents_queue s @ event_buffer s @ map fst (running s))"

lemma waits_simps [simp]: "waits [] = {#}" "waits (e # es) = (if waitable e then {#e#} else {#}) + waits es" "waits (xs @ ys) = waits xs + waits ys"
  by (auto simp: waits_def)

lemma accepts_simps [simp]: "accepts [] = {#}" "accepts (xs @ ys) = accepts xs + accepts ys" "accepts (Accepted e # t) = {#e#} + accepts t"
  "accepts (accepted e) = waits [e]" "accepts (signalled e) = {#}" "accepts (on_new e) = {#}" "accepts (after_handle e) = {#}"
  "accepts [Forwarded e] = {#}" "accepts [ToWorkers e] = {#}" "accepts [Taken e] = {#}" "accepts [Flushed] = {#}" "accepts [Terminated] = {#}"
  "accepts [Drained] = {#}"
  by (simp_all add: accepts_def accepted_def signalled_def on_new_def after_handle_def)

lemma signals_simps [simp]: "signals [] = {#}" "signals (xs @ ys) = signals xs + signals ys" "signals (Signalled e # t) = {#e#} + signals t"
  "signals (signalled e) = waits [e]" "signals (accepted e) = {#}" "signals (on_new e) = {#}" "signals (after_handle e) = {#}"
  "signals [Forwarded e] = {#}" "signals [ToWorkers e] = {#}" "signals [Taken e] = {#}" "signals [Flushed] = {#}" "signals [Terminated] = {#}"
  "signals [Drained] = {#}"
  by (simp_all add: signals_def accepted_def signalled_def on_new_def after_handle_def)

lemma drained_signals [simp]: "signals (concat (map signalled es)) = waits es" "accepts (concat (map signalled es)) = {#}"
  by (induction es) auto

text \<open>Waitable events are of the kinds that the player creates as such; those that do not signal in case of an error
  raise none.\<close>

primrec tame_event :: "vm_event \<Rightarrow> bool" and tame_call :: "vm_call \<Rightarrow> bool" where
  "tame_event (VmEvent i k d w f t cs x) \<longleftrightarrow>
     (w \<longrightarrow> d = None \<and> (k = FUNCTION \<or> k = EXTERNAL_CALL \<or> (k = IDLE_EVENT \<or> k = GETMOUSETARGET_EVENT) \<and> x = Normal \<and> cs = []))
     \<and> list_all id (map tame_call cs)"
| "tame_call (AddEvent e g) = tame_event e"
| "tame_call (PrependEvent e f) = tame_event e"
| "tame_call (AddIdleEvent e r) = (tame_event e \<and> \<not> waitable e)"
| "tame_call (AddBufferEvent e) = (tame_event e \<and> \<not> waitable e)"
| "tame_call (PrependBufferEvent e) = (tame_event e \<and> \<not> waitable e)"


lemma tame_event_simp:
  "tame_event e \<longleftrightarrow> (waitable e \<longrightarrow> dispatcher e = None \<and> (kind e = FUNCTION \<or> kind e = EXTERNAL_CALL
     \<or> (kind e = IDLE_EVENT \<or> kind e = GETMOUSETARGET_EVENT) \<and> outcome_of e = Normal \<and> calls e = [])) \<and> list_all tame_call (calls e)"
  by (cases e) (simp add: list.pred_map comp_def)

text \<open>An event that can tell those who wait for it about an exception.\<close>

definition tells :: "vm_event \<Rightarrow> bool" where
  "tells e \<longleftrightarrow> tame_event e \<and> (waitable e \<longrightarrow> kind e = FUNCTION \<or> kind e = EXTERNAL_CALL)"

fun stack_ok :: "(vm_event \<times> vm_call list \<times> outcome) list \<Rightarrow> bool" where
  "stack_ok [] = True"
| "stack_ok ((e, cs, x) # fs) \<longleftrightarrow> tame_event e \<and> list_all tame_call cs \<and> (cs = [] \<and> x = Normal \<or> tells e)
     \<and> (\<forall>(e, cs, x) \<in> set fs. tells e \<and> list_all tame_call cs)"

definition queues_ok :: "vm \<Rightarrow> bool" where
  "queues_ok s \<longleftrightarrow> list_all tame_event (events_queue s @ idleevents_queue s @ event_buffer s)
     \<and> list_all (\<lambda>e. \<not> waitable e) (idleevents_queue s @ event_buffer s) \<and> stack_ok (running s)
     \<and> (ended s \<longrightarrow> shuttingdown s \<and> events_queue s = [] \<and> running s = [])"

definition accounted :: "vm \<Rightarrow> bool" where "accounted s \<longleftrightarrow> accepts (trace s) = pending_waits s + signals (trace s)"

lemma stack_ok_tail: "stack_ok ((e, cs, x) # fs) \<Longrightarrow> stack_ok fs"
  by (cases fs) (auto simp: tells_def)

lemma remove_similar_subset: "set (remove_similar e es) \<subseteq> set es"
  by (induction es) auto

lemma waits_none: "list_all (\<lambda>e. \<not> waitable e) es \<Longrightarrow> waits es = {#}"
  by (induction es) auto

lemma remove_similar_ok:
  "list_all tame_event es \<Longrightarrow> list_all tame_event (remove_similar e es)"
  "list_all (\<lambda>e. \<not> waitable e) es \<Longrightarrow> list_all (\<lambda>e. \<not> waitable e) (remove_similar e es)"
  using remove_similar_subset [of e es] by (auto simp: list_all_iff)

lemma queue_call_ok:
  assumes "tame_call c" and "queues_ok s"
  shows "queues_ok (snd (queue_call c s))"
  using assms
  by (cases c) (auto simp: queues_ok_def addEvent_def prependEvent_def addIdleEvent_def addBufferEvent_def prependBufferEvent_def remove_similar_ok)

lemma queue_call_accounted:
  assumes "tame_call c" and "queues_ok s" and "accounted s"
  shows "accounted (snd (queue_call c s))"
proof -
  have w: "waits (idleevents_queue s) = {#}" "waits (event_buffer s) = {#}" "waits (remove_similar e (idleevents_queue s)) = {#}" for e
    using assms(2) by (auto simp: queues_ok_def intro!: waits_none remove_similar_ok)
  show ?thesis
    using assms(1,3) w
    by (cases c) (auto simp: accounted_def pending_waits_def addEvent_def prependEvent_def addIdleEvent_def addBufferEvent_def prependBufferEvent_def
        ac_simps)
qed

lemma queue_call_running [simp]: "running (snd (queue_call c s)) = running s" "failed (snd (queue_call c s)) = failed s"
  "ended (snd (queue_call c s)) = ended s"
  by (cases c; simp add: addEvent_def prependEvent_def addIdleEvent_def addBufferEvent_def prependBufferEvent_def)+

lemma signalEventWaiters_ok:
  assumes "queues_ok s" and "accounted s"
  shows "queues_ok (signalEventWaiters s)" and "accounted (signalEventWaiters s)"
  using assms by (auto simp: signalEventWaiters_def queues_ok_def accounted_def pending_waits_def ac_simps)

lemma setError_ok:
  "queues_ok s \<Longrightarrow> \<not> ended s \<Longrightarrow> queues_ok (setShutdownFlag s)" "accounted s \<Longrightarrow> accounted (setShutdownFlag s)"
  "queues_ok s \<Longrightarrow> \<not> ended s \<Longrightarrow> queues_ok (setError s)" "accounted s \<Longrightarrow> accounted (setError s)"
  "ended (setShutdownFlag s) = ended s" "ended (setError s) = ended s"
  by (auto simp: setError_def setShutdownFlag_def addEvent_def shutdown_event_def queues_ok_def accounted_def pending_waits_def)

lemma unhandled_ok:
  assumes "queues_ok s" and "accounted s" and "\<not> ended s"
  shows "queues_ok (unhandled x s) \<and> accounted (unhandled x s)"
proof (cases x)
  case ScriptLimit
  then show ?thesis using assms by (simp add: unhandled_def queues_ok_def accounted_def pending_waits_def)
qed (use assms in \<open>simp_all add: unhandled_def Let_def setError_ok signalEventWaiters_ok\<close>)

text \<open>Frames that an exception leaves are signalled, or the exception stops at them.\<close>

lemma unwind_ok:
  assumes "\<forall>(e, cs, x) \<in> set fs. tells e \<and> list_all tame_call cs" and "x \<noteq> Normal" and "\<not> ended s"
    and "queues_ok (s\<lparr>running := []\<rparr>)"
    and "accepts (trace s) = waits (events_queue s @ idleevents_queue s @ event_buffer s @ map fst fs) + signals (trace s)"
  shows "queues_ok (unwind x fs s) \<and> accounted (unwind x fs s)"
  using assms
proof (induction x fs s rule: unwind.induct)
  case (1 x s)
  then have "accounted (s\<lparr>running := []\<rparr>)" by (simp add: accounted_def pending_waits_def)
  then show ?case using 1 unhandled_ok [of "s\<lparr>running := []\<rparr>" x] by simp
next
  case (2 x e cs y fs s)
  show ?case
  proof (cases "catches x e")
    case True
    then show ?thesis using 2 by (auto simp: queues_ok_def accounted_def pending_waits_def tells_def)
  next
    case False
    let ?s = "if signals_error x e then emit (signalled e) s else s"
    have "waitable e \<Longrightarrow> signals_error x e"
      using False 2(2,3) by (auto simp: tells_def catches_def signals_error_def tame_event_simp)
    then have "accepts (trace ?s) = waits (events_queue ?s @ idleevents_queue ?s @ event_buffer ?s @ map fst fs) + signals (trace ?s)"
      using 2(6) by (auto simp: ac_simps)
    moreover have "queues_ok (?s\<lparr>running := []\<rparr>)" using 2(5) by (auto simp: queues_ok_def)
    ultimately have "queues_ok (unwind x fs ?s) \<and> accounted (unwind x fs ?s)" using 2(1) [OF False] 2(2-4) by auto
    then show ?thesis using False by simp
  qed
qed


lemma gc_event_simps [simp]: "waitable gc_event = False" "tame_event gc_event"
  by (simp_all add: gc_event_def)

lemma internal_action_ok:
  assumes "queues_ok s" and "\<not> ended s"
  shows "queues_ok (internal_action e s)" and "pending_waits (internal_action e s) = pending_waits s"
    and "accepts (trace (internal_action e s)) = accepts (trace s)" and "signals (trace (internal_action e s)) = signals (trace s)"
  using assms by (auto simp: internal_action_def queues_ok_def pending_waits_def ac_simps split: event_kind.splits)

lemma internal_action_running [simp]: "running (internal_action e s) = running s" "ended (internal_action e s) = ended s"
  by (auto simp: internal_action_def split: event_kind.splits)

lemma after_event_ok:
  "queues_ok s \<Longrightarrow> queues_ok (after_event e s)" "accounted s \<Longrightarrow> accounted (after_event e s)"
  by (auto simp: after_event_def Let_def queues_ok_def accounted_def pending_waits_def)

lemma emit_ok: "queues_ok (emit xs s) = queues_ok s" "accepts xs = {#} \<Longrightarrow> signals xs = {#} \<Longrightarrow> accounted (emit xs s) = accounted s"
  by (simp_all add: queues_ok_def accounted_def pending_waits_def)

lemma finish_event_ok:
  assumes "queues_ok s" and "accounted s" and "running s = (e, [], x) # fs" and "\<not> ended s"
  shows "queues_ok (finish_event e fs s) \<and> accounted (finish_event e fs s)"
proof -
  let ?s = "s\<lparr>running := fs\<rparr>"
  let ?t = "emit (signalled e) (internal_action e ?s)"
  have q: "queues_ok ?s" using assms stack_ok_tail [of e "[]" x fs] by (simp add: queues_ok_def)
  note i = internal_action_ok [OF q, of e]
  have "queues_ok ?t" using i assms(4) by (simp add: emit_ok)
  moreover have "accounted ?t"
    using i assms by (auto simp: accounted_def pending_waits_def ac_simps)
  ultimately show ?thesis
    unfolding finish_event_def Let_def using after_event_ok [of ?t e] emit_ok [of "after_handle e" ?t] by (cases "fs = []") simp_all
qed

lemma start_event_ok:
  assumes "queues_ok s" and "accepts (trace s) = pending_waits s + waits [e] + signals (trace s)" and "tame_event e" and "\<not> ended s"
    and "\<forall>(e, cs, x) \<in> set (running s). tells e \<and> list_all tame_call cs"
  shows "queues_ok (start_event e s) \<and> accounted (start_event e s)"
  using assms by (auto simp: start_event_def queues_ok_def accounted_def pending_waits_def tame_event_simp tells_def ac_simps)

lemma handleFrontEvent_ok:
  assumes "queues_ok s" and "accounted s" and "running s = []" and "events_queue s \<noteq> []" and "\<not> ended s"
  shows "queues_ok (handleFrontEvent s) \<and> accounted (handleFrontEvent s)"
proof -
  obtain e es where q: "events_queue s = e # es" using assms(4) by (cases "events_queue s") auto
  let ?s = "emit [Taken e] (s\<lparr>events_queue := es\<rparr>)"
  have t: "queues_ok ?s" "tame_event e" "accepts (trace ?s) = pending_waits ?s + waits [e] + signals (trace ?s)"
    using assms q by (auto simp: queues_ok_def accounted_def pending_waits_def ac_simps)
  show ?thesis
  proof (cases "kind e \<noteq> SHUTDOWN \<and> \<not> waitable e \<and> halted s")
    case True
    then show ?thesis using t q by (simp add: handleFrontEvent_def Let_def emit_ok) (simp add: accounted_def pending_waits_def)
  next
    case False
    then have "handleFrontEvent s = start_event e ?s" by (auto simp: handleFrontEvent_def Let_def q)
    then show ?thesis using start_event_ok [OF t(1,3,2)] assms(3,5) by simp
  qed
qed

lemma vm_thread_ok:
  assumes v: "vm_thread s = Some s'" and q: "queues_ok s" "accounted s"
  shows "queues_ok s' \<and> accounted s'"
proof (cases "running s")
  case Nil
  have n: "\<not> ended s" using v by (auto simp: vm_thread_def)
  show ?thesis
  proof (cases "events_queue s = []")
    case True
    then have "s' = s\<lparr>ended := True\<rparr>" "shuttingdown s" using v Nil by (auto simp: vm_thread_def split: if_splits)
    then show ?thesis using q True Nil by (simp add: queues_ok_def accounted_def pending_waits_def)
  next
    case False
    then show ?thesis using v Nil handleFrontEvent_ok [OF q Nil False n] by (simp add: vm_thread_def split: if_splits)
  qed
next
  case (Cons f fs)
  obtain e cs x where f: "f = (e, cs, x)" by (cases f)
  have n: "\<not> ended s" using v by (auto simp: vm_thread_def)
  have st: "stack_ok ((e, cs, x) # fs)" using q(1) Cons f by (simp add: queues_ok_def)
  show ?thesis
  proof (cases cs)
    case Nil
    show ?thesis
    proof (cases "x = Normal")
      case True
      then show ?thesis using v Cons f Nil finish_event_ok [OF q _ n] by (simp add: vm_thread_def split: if_splits)
    next
      case False
      then have "queues_ok (unwind x (running s) s) \<and> accounted (unwind x (running s) s)"
        using st q n Cons f Nil by (intro unwind_ok) (auto simp: queues_ok_def accounted_def pending_waits_def)
      then show ?thesis using v Cons f Nil False by (simp add: vm_thread_def split: if_splits)
    qed
  next
    case (Cons c cs')
    let ?s = "s\<lparr>running := (e, cs', x) # fs\<rparr>"
    have s: "queues_ok ?s" "accounted ?s" "tame_call c" "\<forall>(e, cs, x) \<in> set (running ?s). tells e \<and> list_all tame_call cs"
      using st q \<open>running s = f # fs\<close> f Cons by (auto simp: queues_ok_def accounted_def pending_waits_def)
    show ?thesis
    proof (cases "direct_event c")
      case None
      then have "s' = snd (queue_call c ?s)" using v \<open>running s = f # fs\<close> f Cons by (simp add: vm_thread_def split: if_splits)
      then show ?thesis using queue_call_ok [OF s(3,1)] queue_call_accounted [OF s(3,1,2)] by simp
    next
      case (Some d)
      then have "s' = emit (accepted d) (start_event d ?s)" using v \<open>running s = f # fs\<close> f Cons by (simp add: vm_thread_def split: if_splits)
      then have e: "s' = start_event d (emit (accepted d) ?s)" by (simp add: start_event_def emit_def)
      have "tame_event d" using Some s(3) by (cases c) (auto split: if_splits)
      moreover have "accepts (trace (emit (accepted d) ?s)) = pending_waits (emit (accepted d) ?s) + waits [d] + signals (trace (emit (accepted d) ?s))"
        using s(2) by (auto simp: accounted_def pending_waits_def ac_simps)
      ultimately show ?thesis unfolding e using s n by (intro start_event_ok) (auto simp: emit_ok)
    qed
  qed
qed

lemma vm_run_ok:
  assumes "(vm_step ok)\<^sup>*\<^sup>* s s'" and "\<And>c. ok c \<Longrightarrow> tame_call c" and "queues_ok s" and "accounted s"
  shows "queues_ok s' \<and> accounted s'"
  using assms(1)
proof (induction rule: rtranclp_induct)
  case (step t u)
  from step(2) step(3) show ?case
  proof cases
    case by_vm
    then show ?thesis using vm_thread_ok step(3) by blast
  next
    case (by_other c)
    then show ?thesis using queue_call_ok queue_call_accounted assms(2) step(3) by blast
  qed (auto simp: queues_ok_def accounted_def pending_waits_def)
qed (use assms in simp)

lemma new_vm_ok: "queues_ok (new_vm a b) \<and> accounted (new_vm a b)"
  by (simp add: queues_ok_def accounted_def pending_waits_def new_vm_def)

text \<open>C35: No waitable event is dropped without a call of its \<open>signal\<close>: whatever the threads and the handlers
  do (adding events, raising errors, shutting the machine down), as long as events to wait for are calls of functions or of the
  kinds that raise no error, and are not put into the idle queue or the buffer, every waitable event that was accepted is in the
  queue, being handled, or \<open>signal\<close> was called on it, each exactly once; and when the thread of the machine has
  ended, \<open>signal\<close> was called on all of them. The property counts the calls of \<open>signal\<close>; it does not say
  that the waiting thread wakes up, which the code does not ensure (\<open>WaitableEvent::wait\<close> tests its flag without a
  lock and can miss the wake-up of all waiters). Each method of the queue is one step; for the handler of SHUTDOWN, which moves
  the idle events without taking the mutex, this is an assumption.\<close>

theorem no_waiter_forgotten:
  assumes "(vm_step tame_call)\<^sup>*\<^sup>* (new_vm exiting ignoring) s"
  shows "accepts (trace s) = waits (events_queue s) + waits (map fst (running s)) + signals (trace s)
    \<and> (ended s \<longrightarrow> accepts (trace s) = signals (trace s))"
proof -
  have ok: "queues_ok s \<and> accounted s" using vm_run_ok [OF assms] new_vm_ok by blast
  then have "waits (idleevents_queue s) = {#}" "waits (event_buffer s) = {#}"
    by (auto simp: queues_ok_def intro!: waits_none)
  then show ?thesis using ok by (auto simp: accounted_def pending_waits_def queues_ok_def)
qed


definition waited_run :: vm where
  "waited_run = the (vm_thread (the (vm_thread (snd (queue_call (AddEvent (VmEvent 1 FUNCTION None True False [] [] ThrownObject) False)
     (new_vm False False))))))"

lemma no_waiter_forgotten_witness:
  "accepts (trace waited_run) = {#VmEvent 1 FUNCTION None True False [] [] ThrownObject#}
    \<and> accepts (trace waited_run) = waits (events_queue waited_run) + waits (map fst (running waited_run)) + signals (trace waited_run)"
proof -
  let ?c = "AddEvent (VmEvent 1 FUNCTION None True False [] [] ThrownObject) False"
  define t u where "t = snd (queue_call ?c (new_vm False False))" and "u = the (vm_thread t)"
  have "vm_step tame_call (new_vm False False) t" unfolding t_def by (rule by_other) simp
  moreover have "vm_thread t = Some u"
    by (simp add: u_def t_def new_vm_def addEvent_def for_worker_def vm_thread_def handleFrontEvent_def start_event_def)
  moreover have "vm_thread u = Some waited_run"
    by (simp add: waited_run_def u_def t_def new_vm_def addEvent_def for_worker_def vm_thread_def handleFrontEvent_def start_event_def Let_def)
  ultimately have "(vm_step tame_call)\<^sup>*\<^sup>* (new_vm False False) waited_run"
    by (meson by_vm rtranclp.rtrancl_into_rtrancl rtranclp.rtrancl_refl)
  note no_waiter_forgotten [OF this]
  moreover have "accepts (trace waited_run) = {#VmEvent 1 FUNCTION None True False [] [] ThrownObject#}"
    by (simp add: waited_run_def new_vm_def addEvent_def for_worker_def vm_thread_def handleFrontEvent_def start_event_def Let_def emit_def
        accepted_def on_new_def catches_def signals_error_def unhandled_def setShutdownFlag_def setError_def shutdown_event_def accepts_def
        signalled_def)
  ultimately show ?thesis by blast
qed


section \<open>Order\<close>

definition taken :: "vm_effect list \<Rightarrow> vm_event list" where
  "taken t = concat (map (\<lambda>x. case x of Taken e \<Rightarrow> [e] | _ \<Rightarrow> []) t)"

lemma taken_simps [simp]: "taken [] = []" "taken (xs @ ys) = taken xs @ taken ys" "taken (Taken e # t) = e # taken t"
  "taken (accepted e) = []" "taken (signalled e) = []" "taken (on_new e) = []" "taken (after_handle e) = []"
  "taken (Forwarded e # t) = taken t" "taken (ToWorkers e # t) = taken t" "taken (Flushed # t) = taken t" "taken (Terminated # t) = taken t" "taken (Drained # t) = taken t"
  by (simp_all add: taken_def accepted_def signalled_def on_new_def after_handle_def)

text \<open>Events are put before all others or after all others.\<close>

definition grows :: "vm \<Rightarrow> vm \<Rightarrow> bool" where
  "grows s s' \<longleftrightarrow> (\<exists>pre post rest. events_queue s' = pre @ events_queue s @ post \<and> trace s' = trace s @ rest \<and> taken rest = [])"

lemma queue_grows_refl: "events_queue s' = events_queue s \<Longrightarrow> trace s' = trace s \<Longrightarrow> grows s s'"
  unfolding grows_def by (metis append_Nil append_Nil2 taken_simps(1))

lemma queue_grows_trans: "grows s t \<Longrightarrow> grows t u \<Longrightarrow> grows s u"
  unfolding grows_def by (metis append.assoc append_Nil2 taken_simps(2))

lemma grows_emit: "grows s t \<Longrightarrow> taken xs = [] \<Longrightarrow> grows s (emit xs t)"
  unfolding grows_def by (metis append.assoc append_Nil2 emit_sel(1,11) taken_simps(2))

lemma grows_queue: "events_queue s' = pre @ events_queue s @ post \<Longrightarrow> trace s' = trace s \<Longrightarrow> grows s s'"
  unfolding grows_def by fastforce

lemma grows_front: "events_queue s' = pre @ events_queue s \<Longrightarrow> trace s' = trace s \<Longrightarrow> grows s s'"
  using grows_queue [of s' pre s "[]"] by simp

lemma grows_back: "events_queue s' = events_queue s @ post \<Longrightarrow> trace s' = trace s \<Longrightarrow> grows s s'"
  using grows_queue [of s' "[]" s post] by simp

lemma queue_call_grows: "grows s (snd (queue_call c s))"
  by (cases c) (auto simp: addEvent_def prependEvent_def addIdleEvent_def addBufferEvent_def prependBufferEvent_def
      intro!: grows_emit intro: queue_grows_refl grows_back grows_front [where pre = "[_]"])

lemma internal_action_grows: "grows s (internal_action e s)"
  by (auto simp: internal_action_def split: event_kind.splits intro!: grows_emit intro: grows_back grows_front queue_grows_refl)

lemma after_event_grows: "grows s (after_event e s)"
  by (auto simp: after_event_def Let_def intro!: grows_emit intro: queue_grows_refl)

lemma finish_event_grows: "grows s (finish_event e fs s)"
proof -
  have "grows s (emit (signalled e) (internal_action e (s\<lparr>running := fs\<rparr>)))"
    by (rule grows_emit [OF queue_grows_trans [OF queue_grows_refl internal_action_grows]]) simp_all
  then show ?thesis
    by (auto simp: finish_event_def Let_def intro: grows_emit queue_grows_trans [OF _ after_event_grows] simp del: emit_sel)
qed


lemma setError_grows: "grows s (setShutdownFlag s)" "grows s (setError s)"
proof -
  show g: "grows s (setShutdownFlag s)" for s
    using queue_call_grows [of s "AddEvent shutdown_event False"] by (auto simp: setShutdownFlag_def intro!: grows_emit intro: queue_grows_refl)
  show "grows s (setError s)"
    using queue_grows_trans [OF queue_grows_refl g, of "s\<lparr>sys_error := True\<rparr>" s] by (auto simp: setError_def intro: queue_grows_refl)
qed

lemma unhandled_grows: "grows s (unhandled x s) \<or> (\<exists>rest. trace (unhandled x s) = trace s @ rest \<and> Drained \<in> set rest)"
proof (cases "x = InternalError \<and> shuttingdown (setError s)")
  case True
  then have "trace (unhandled x s) = trace (setError s) @ concat (map signalled (events_queue (setError s))) @ [Drained]"
    by (simp add: unhandled_def signalEventWaiters_def)
  then show ?thesis using setError_grows(2) [of s] by (auto simp: grows_def)
next
  case False
  have r: "grows t (t\<lparr>halted := h\<rparr>)" "grows t (t\<lparr>failed := h\<rparr>)" for t h by (rule queue_grows_refl; simp)+
  have "grows s (unhandled x s)"
    using False by (cases x) (auto simp: unhandled_def Let_def signalEventWaiters_def intro: r queue_grows_refl setError_grows queue_grows_trans)
  then show ?thesis ..
qed

lemma unwind_grows: "grows s (unwind x fs s) \<or> (\<exists>rest. trace (unwind x fs s) = trace s @ rest \<and> Drained \<in> set rest)"
proof (induction x fs s rule: unwind.induct)
  case (1 x s)
  show ?case using unhandled_grows [of "s\<lparr>running := []\<rparr>" x] by (auto simp: grows_def)
next
  case (2 x e cs y fs s)
  let ?s = "if signals_error x e then emit (signalled e) s else s"
  have "grows s ?s" by (auto intro: grows_emit queue_grows_refl)
  show ?case
  proof (cases "catches x e")
    case True
    then show ?thesis by (simp add: queue_grows_refl)
  next
    case False
    then show ?thesis using 2 [OF False] queue_grows_trans [OF \<open>grows s ?s\<close>] by auto
  qed
qed

text \<open>What one step does to the queue: it grows, its first event is taken, or it is emptied.\<close>

definition order_step :: "vm \<Rightarrow> vm \<Rightarrow> bool" where
  "order_step s s' \<longleftrightarrow> grows s s'
     \<or> (\<exists>x rest. events_queue s = x # events_queue s' \<and> trace s' = trace s @ Taken x # rest \<and> taken rest = [])
     \<or> (\<exists>rest. trace s' = trace s @ rest \<and> Drained \<in> set rest)"

lemma handleFrontEvent_order: "events_queue s \<noteq> [] \<Longrightarrow> order_step s (handleFrontEvent s)"
  by (cases "events_queue s") (auto simp: order_step_def handleFrontEvent_def Let_def start_event_def)

lemma vm_step_order:
  assumes "vm_step ok s s'"
  shows "order_step s s'"
  using assms
proof cases
  case by_vm
  have "grows s (emit (accepted d) (start_event d (s\<lparr>running := r\<rparr>)))" "grows s (snd (queue_call c (s\<lparr>running := r\<rparr>)))"
    "grows s (s\<lparr>ended := True\<rparr>)" for d r c
    by (auto simp: start_event_def intro!: grows_emit intro: queue_grows_refl queue_grows_trans [OF queue_grows_refl queue_call_grows])
  then have g: "order_step s (emit (accepted d) (start_event d (s\<lparr>running := r\<rparr>)))"
    "order_step s (snd (queue_call c (s\<lparr>running := r\<rparr>)))" "order_step s (s\<lparr>ended := True\<rparr>)"
    "order_step s (finish_event e r s)" "order_step s (unwind x r s)" for d r c e x
    using finish_event_grows [of s] unwind_grows [of s] unfolding order_step_def by blast+
  show ?thesis
    using by_vm handleFrontEvent_order [of s] g
    by (auto simp: vm_thread_def simp del: unwind.simps split: if_splits list.splits option.splits prod.splits)
next
  case by_other
  then show ?thesis using queue_call_grows by (simp add: order_step_def)
qed (simp_all add: order_step_def queue_grows_refl)


text \<open>What a run does to the queue it starts with.\<close>

definition in_order :: "vm_event list \<Rightarrow> vm_event list \<Rightarrow> vm_effect list \<Rightarrow> bool" where
  "in_order es es' rest \<longleftrightarrow> (\<exists>n pre post. n \<le> length es \<and> es' = pre @ drop n es @ post \<and> subseq (take n es) (taken rest))"

lemma in_order_grows: "in_order es es' rest \<Longrightarrow> taken r = [] \<Longrightarrow> in_order es (pre @ es' @ post) (rest @ r)"
  unfolding in_order_def by (metis append.assoc append_Nil2 taken_simps(2))

lemma in_order_takes:
  assumes "in_order es (x # es') rest" and "taken r = []"
  shows "in_order es es' (rest @ Taken x # r)"
proof -
  obtain n pre post where n: "n \<le> length es" "x # es' = pre @ drop n es @ post" "subseq (take n es) (taken rest)"
    using assms(1) unfolding in_order_def by blast
  have t: "taken (rest @ Taken x # r) = taken rest @ [x]" using assms(2) by simp
  then have s: "subseq (take n es) (taken (rest @ Taken x # r))" using n(3) by (metis list_emb_append_mono append_Nil2 list_emb_Nil)
  show ?thesis
  proof (cases pre)
    case (Cons p ps)
    then have "es' = ps @ drop n es @ post" using n(2) by simp
    then show ?thesis unfolding in_order_def using n(1) s by blast
  next
    case Nil
    show ?thesis
    proof (cases "n < length es")
      case True
      then have d: "drop n es = x # drop (Suc n) es" "es ! n = x" using n(2) Nil by (auto simp: Cons_nth_drop_Suc [symmetric])
      then have "subseq (take (Suc n) es) (taken (rest @ Taken x # r))"
        using n(3) True t by (simp add: take_Suc_conv_app_nth list_emb_append_mono)
      moreover have "es' = [] @ drop (Suc n) es @ post" using n(2) Nil d by simp
      ultimately show ?thesis unfolding in_order_def using True by (metis Suc_leI)
    next
      case False
      then have "es' = es' @ drop n es @ []" by simp
      then show ?thesis unfolding in_order_def using n(1) s by blast
    qed
  qed
qed

text \<open>C36: Events are handled in the order of the queue: in every run of the threads, starting from any state, unless the waiting
  events are dropped after an internal error, a first part of the events in the queue has been taken out in its order,
  and the rest of them is still together and in its order.\<close>

theorem events_in_order:
  assumes "(vm_step ok)\<^sup>*\<^sup>* s s'"
  shows "\<exists>rest. trace s' = trace s @ rest \<and> (Drained \<in> set rest \<or> (\<exists>n pre post. n \<le> length (events_queue s)
    \<and> events_queue s' = pre @ drop n (events_queue s) @ post \<and> subseq (take n (events_queue s)) (taken rest)))"
  using assms
proof (induction rule: rtranclp_induct)
  case base
  have "events_queue s = [] @ drop 0 (events_queue s) @ []" by simp
  then show ?case by (metis append_Nil2 le0 list_emb_Nil take0)
next
  case (step t u)
  then obtain rest where r: "trace t = trace s @ rest" "Drained \<in> set rest \<or> in_order (events_queue s) (events_queue t) rest"
    by (auto simp: in_order_def)
  from vm_step_order [OF step(2)] have "\<exists>r. trace u = trace t @ r
      \<and> (Drained \<in> set r \<or> Drained \<in> set rest \<or> in_order (events_queue s) (events_queue u) (rest @ r))"
    unfolding order_step_def grows_def using r(2) by (metis in_order_grows in_order_takes)
  then show ?case using r(1) unfolding in_order_def by (metis append.assoc set_append UnCI)
qed


definition two_events :: vm where
  "two_events = (new_vm False False)\<lparr>events_queue := [VmEvent 1 FUNCTION_ASYNC None False False [] [] Normal, VmEvent 2 SYNC None False False [] [] Normal]\<rparr>"

lemma events_in_order_witness:
  "\<exists>s'. vm_thread two_events = Some s' \<and> (\<exists>rest. trace s' = trace two_events @ rest \<and> (Drained \<in> set rest \<or> (\<exists>n pre post. n \<le> 2
    \<and> events_queue s' = pre @ drop n (events_queue two_events) @ post \<and> subseq (take n (events_queue two_events)) (taken rest))))"
proof -
  obtain s' where s': "vm_thread two_events = Some s'" by (simp add: vm_thread_def two_events_def new_vm_def)
  then have "(vm_step (\<lambda>c. True))\<^sup>*\<^sup>* two_events s'" by (intro r_into_rtranclp by_vm)
  from events_in_order [OF this] have "\<exists>rest. trace s' = trace two_events @ rest \<and> (Drained \<in> set rest \<or> (\<exists>n pre post. n \<le> 2
    \<and> events_queue s' = pre @ drop n (events_queue two_events) @ post \<and> subseq (take n (events_queue two_events)) (taken rest)))"
    by (simp add: two_events_def numeral_2_eq_2)
  with s' show ?thesis by blast
qed


section \<open>The end\<close>

text \<open>What is left to do, once no more events are accepted: one more event follows the idle ones.\<close>

definition base_work :: "vm_event \<Rightarrow> nat" where "base_work e = (if kind e = IDLE_EVENT \<and> dispatcher e = None then 4 else 1)"

definition end_work :: "outcome \<Rightarrow> nat" where "end_work x = (if x = Normal then 0 else 1)"

primrec event_work :: "vm_event \<Rightarrow> nat" and call_work :: "vm_call \<Rightarrow> nat" where
  "event_work (VmEvent i k d w f t cs x) = 1 + (if k = IDLE_EVENT \<and> d = None then 4 else 1) + sum_list (map call_work cs) + end_work x"
| "call_work (AddEvent e g) = event_work e + 1"
| "call_work (PrependEvent e f) = event_work e + 1"
| "call_work (AddIdleEvent e r) = event_work e + 1"
| "call_work (AddBufferEvent e) = event_work e + 1"
| "call_work (PrependBufferEvent e) = event_work e + 1"

definition frame_work :: "vm_event \<times> vm_call list \<times> outcome \<Rightarrow> nat" where
  "frame_work f = (case f of (e, cs, x) \<Rightarrow> base_work e + sum_list (map call_work cs) + end_work x)"

definition queue_work :: "vm \<Rightarrow> nat" where
  "queue_work s = sum_list (map event_work (events_queue s)) + sum_list (map event_work (idleevents_queue s))
     + sum_list (map event_work (event_buffer s)) + (if ended s then 0 else 1)"

definition work :: "vm \<Rightarrow> nat" where "work s = queue_work s + sum_list (map frame_work (running s))"

lemma event_work_eq: "event_work e = 1 + frame_work (e, calls e, outcome_of e)"
  by (cases e) (simp add: frame_work_def base_work_def)

lemma frame_work_pos: "frame_work f > 0"
  by (cases f) (simp add: frame_work_def base_work_def)

lemma queue_work_cong [simp]: "queue_work (emit xs s) = queue_work s" "queue_work (s\<lparr>running := r\<rparr>) = queue_work s" "queue_work (s\<lparr>isIdle := i\<rparr>) = queue_work s"
  "queue_work (s\<lparr>canFlush := i\<rparr>) = queue_work s" "queue_work (s\<lparr>failed := i\<rparr>) = queue_work s" "queue_work (s\<lparr>halted := i\<rparr>) = queue_work s"
  "queue_work (s\<lparr>sys_error := i\<rparr>) = queue_work s" "queue_work (s\<lparr>sys_shutdown := i\<rparr>) = queue_work s" "queue_work (s\<lparr>shuttingdown := i\<rparr>) = queue_work s"
  by (simp_all add: queue_work_def)

lemma queue_call_down: "shuttingdown s \<Longrightarrow> queue_work (snd (queue_call c s)) = queue_work s \<and> shuttingdown (snd (queue_call c s))"
  by (cases c) (auto simp: addEvent_def prependEvent_def addIdleEvent_def addBufferEvent_def prependBufferEvent_def)

lemma setError_down:
  assumes "shuttingdown s"
  shows "queue_work (setShutdownFlag s) = queue_work s" "shuttingdown (setShutdownFlag s)"
    "queue_work (setError s) = queue_work s" "shuttingdown (setError s)"
    "running (setShutdownFlag s) = running s" "running (setError s) = running s"
proof -
  have f: "queue_work (setShutdownFlag s) = queue_work s \<and> shuttingdown (setShutdownFlag s) \<and> running (setShutdownFlag s) = running s"
    if "shuttingdown s" for s
    using that queue_call_down [of s "AddEvent shutdown_event False"] queue_call_running(1) [of "AddEvent shutdown_event False" s]
    by (auto simp: setShutdownFlag_def)
  show "queue_work (setShutdownFlag s) = queue_work s" "shuttingdown (setShutdownFlag s)" "running (setShutdownFlag s) = running s"
    "queue_work (setError s) = queue_work s" "shuttingdown (setError s)" "running (setError s) = running s"
    using f assms by (simp_all add: setError_def)
qed

lemma unhandled_down:
  assumes "shuttingdown s"
  shows "queue_work (unhandled x s) \<le> queue_work s \<and> shuttingdown (unhandled x s) \<and> running (unhandled x s) = running s"
proof (cases x)
  case InternalError
  then show ?thesis using setError_down [OF assms] by (simp add: unhandled_def signalEventWaiters_def) (simp add: queue_work_def)
qed (use assms setError_down in \<open>simp_all add: unhandled_def Let_def\<close>)

lemma unwind_down:
  assumes "shuttingdown s" and "x \<noteq> Normal"
  shows "queue_work (unwind x fs s) + sum_list (map frame_work (running (unwind x fs s)))
      \<le> queue_work s + sum_list (map frame_work fs)
    \<and> shuttingdown (unwind x fs s)"
  using assms
proof (induction x fs s rule: unwind.induct)
  case (1 x s)
  then show ?case using unhandled_down [of "s\<lparr>running := []\<rparr>" x] by simp
next
  case (2 x e cs y fs s)
  let ?s = "if signals_error x e then emit (signalled e) s else s"
  have "queue_work ?s = queue_work s" "shuttingdown ?s" using 2(2) by auto
  moreover have "frame_work (e, [], Normal) \<le> frame_work (e, cs, y)" by (simp add: frame_work_def end_work_def)
  ultimately show ?case using 2 by (cases "catches x e") auto
qed

lemma sum_list_moved: "sum_list (map f (xs @ ys)) = sum_list (map f xs) + (sum_list (map f ys) :: nat)"
  by simp

lemma internal_action_down:
  assumes "shuttingdown s" and "\<not> ended s"
  shows "queue_work (internal_action e s) < queue_work s + base_work e \<and> shuttingdown (internal_action e s)"
  using assms by (auto simp: internal_action_def queue_work_def base_work_def gc_event_def end_work_def split: event_kind.splits)

lemma finish_event_down:
  assumes "shuttingdown s" and "\<not> ended s" and "running s = (e, [], Normal) # fs"
  shows "work (finish_event e fs s) < work s \<and> shuttingdown (finish_event e fs s)"
proof -
  let ?t = "internal_action e (s\<lparr>running := fs\<rparr>)"
  have t: "queue_work ?t < queue_work s + base_work e" "shuttingdown ?t" "running ?t = fs"
    using internal_action_down [of "s\<lparr>running := fs\<rparr>" e] assms(1,2) by simp_all
  have "queue_work (finish_event e fs s) = queue_work ?t" "running (finish_event e fs s) = fs" "shuttingdown (finish_event e fs s)"
    using t by (cases "fs = []"; simp add: finish_event_def after_event_def Let_def)+
  then show ?thesis using t assms(3) by (simp add: work_def frame_work_def end_work_def)
qed

lemma vm_thread_down:
  assumes "vm_thread s = Some s'" and "shuttingdown s"
  shows "work s' < work s \<and> shuttingdown s'"
proof (cases "running s")
  case Nil
  have n: "\<not> ended s" using assms(1) by (auto simp: vm_thread_def)
  show ?thesis
  proof (cases "events_queue s")
    case Nil
    then have "s' = s\<lparr>ended := True\<rparr>" using assms \<open>running s = []\<close> by (auto simp: vm_thread_def split: if_splits)
    then show ?thesis using assms(2) n by (simp add: work_def queue_work_def)
  next
    case (Cons e es)
    then have "s' = handleFrontEvent s" using assms \<open>running s = []\<close> by (auto simp: vm_thread_def split: if_splits)
    then show ?thesis using assms(2) n Cons \<open>running s = []\<close> frame_work_pos
      by (simp add: handleFrontEvent_def Let_def start_event_def work_def queue_work_def event_work_eq)
  qed
next
  case (Cons f fs)
  obtain e cs x where f: "f = (e, cs, x)" by (cases f)
  have n: "\<not> ended s" "\<not> failed s" using assms(1) by (auto simp: vm_thread_def)
  show ?thesis
  proof (cases cs)
    case Nil
    show ?thesis
    proof (cases "x = Normal")
      case True
      then show ?thesis using assms n Cons f Nil finish_event_down [of s e fs] by (simp add: vm_thread_def)
    next
      case False
      then have s': "s' = unwind x ((e, [], x) # fs) s" using assms(1) n Cons f Nil by (simp add: vm_thread_def)
      let ?s = "if signals_error x e then emit (signalled e) s else s"
      show ?thesis
        using s' Cons f Nil assms(2) False unwind_down [of ?s x fs] frame_work_pos [of "(e, [], x)"]
        by (cases "catches x e") (auto simp: work_def frame_work_def end_work_def)
    qed
  next
    case (Cons c cs')
    let ?s = "s\<lparr>running := (e, cs', x) # fs\<rparr>"
    have w: "work s = work ?s + call_work c" using \<open>running s = f # fs\<close> f Cons by (simp add: work_def frame_work_def)
    have p: "call_work c > 0" by (cases c) simp_all
    show ?thesis
    proof (cases "direct_event c")
      case None
      then have "s' = snd (queue_call c ?s)" using assms(1) n \<open>running s = f # fs\<close> f Cons by (simp add: vm_thread_def)
      then show ?thesis using queue_call_down [of ?s c] assms(2) w p by (simp add: work_def)
    next
      case (Some d)
      then have s': "s' = emit (accepted d) (start_event d ?s)" using assms(1) n \<open>running s = f # fs\<close> f Cons by (simp add: vm_thread_def)
      have "event_work d < call_work c" using Some by (cases c) (auto split: if_splits)
      then show ?thesis using s' assms(2) w by (simp add: work_def start_event_def event_work_eq)
    qed
  qed
qed

lemma vm_step_down:
  assumes "vm_step ok s s'" and "shuttingdown s"
  shows "shuttingdown s' \<and> work s' \<le> work s"
  using assms(1)
proof cases
  case by_vm
  then show ?thesis using vm_thread_down assms(2) by (simp add: less_imp_le)
next
  case (by_other c)
  then show ?thesis using queue_call_down [OF assms(2), of c] by (simp add: work_def)
qed (use assms(2) in \<open>simp_all add: work_def\<close>)

lemma vm_thread_stops: "vm_thread s = None \<Longrightarrow> shuttingdown s \<Longrightarrow> ended s \<or> failed s"
  by (auto simp: vm_thread_def split: if_splits list.splits option.splits prod.splits)

text \<open>C37: The machine comes to its end, if its handlers do: once it shuts down, in every infinite sequence of steps of the
  threads in which the thread of the machine is not kept waiting for ever, that thread ends, or fails an assertion, after finitely
  many steps. That every handler returns after finitely many calls is part of the model (an event is a finite tree); a handler
  that loops for ever keeps the real thread from ending, as nothing interrupts it. The calls of the browser
  (\<open>checkExternalCallEvent\<close>) are not modelled. What is shown is that no sequence of errors, nested events and events
  that other threads go on adding keeps the queues of a machine that shuts down from running empty.\<close>

theorem vm_shutdown_ends:
  assumes "shuttingdown (f 0)" and "\<And>i. vm_step ok (f i) (f (Suc i))"
    and "\<And>i. \<exists>j\<ge>i. vm_thread (f j) = None \<or> vm_thread (f j) = Some (f (Suc j))"
  shows "\<exists>i. (ended (f i) \<or> failed (f i)) \<and> vm_thread (f i) = None"
proof -
  have down: "shuttingdown (f j) \<and> work (f j) \<le> work (f i)" if "i \<le> j" "shuttingdown (f i)" for i j
    using that by (induction rule: dec_induct) (use vm_step_down [OF assms(2)] order_trans in blast)+
  have "\<exists>j. vm_thread (f j) = None" if "shuttingdown (f i)" for i
    using that
  proof (induction "work (f i)" arbitrary: i rule: less_induct)
    case less
    obtain j where j: "i \<le> j" "vm_thread (f j) = None \<or> vm_thread (f j) = Some (f (Suc j))" using assms(3) by blast
    have d: "shuttingdown (f j)" "work (f j) \<le> work (f i)" using down [OF j(1) less(2)] by auto
    show ?case
    proof (cases "vm_thread (f j)")
      case (Some t)
      then have "work (f (Suc j)) < work (f i)" "shuttingdown (f (Suc j))" using j(2) vm_thread_down [of "f j" "f (Suc j)"] d by auto
      then show ?thesis using less(1) by blast
    qed blast
  qed
  then obtain i where "vm_thread (f i) = None" using assms(1) by blast
  then show ?thesis using vm_thread_stops down [of 0 i] assms(1) by auto
qed

text \<open>A machine with nothing left, which ends at once.\<close>

definition last_steps :: "nat \<Rightarrow> vm" where
  "last_steps i = (new_vm False False)\<lparr>shuttingdown := True, ended := 0 < i\<rparr>"

lemma vm_shutdown_ends_witness: "\<exists>i. (ended (last_steps i) \<or> failed (last_steps i)) \<and> vm_thread (last_steps i) = None"
proof (rule vm_shutdown_ends)
  show "shuttingdown (last_steps 0)" by (simp add: last_steps_def)
  show "vm_step (\<lambda>c. False) (last_steps i) (last_steps (Suc i))" for i
  proof (cases i)
    case 0
    then show ?thesis by (intro by_vm) (simp add: last_steps_def vm_thread_def new_vm_def)
  next
    case (Suc j)
    then show ?thesis using by_shutdown [of "\<lambda>c. False" "last_steps i"] by (simp add: last_steps_def new_vm_def)
  qed
  show "\<exists>j\<ge>i. vm_thread (last_steps j) = None \<or> vm_thread (last_steps j) = Some (last_steps (Suc j))" for i
    by (rule exI [of _ "Suc i"]) (simp add: last_steps_def vm_thread_def)
qed

end
