(* ===== verification/JsonParse.thy ===== *)
theory JsonParse
  imports LS_Prelude
begin

text \<open>
  \<open>JSON.parse\<close> without a reviver (\<open>scripting/toplevel/JSON.cpp\<close>). A text is the list of its characters, which
  is what the iterator over a well-formed string visits; behind the last one the iterator reads a zero.

  The code stores an object in its parent before it reads the content. As nothing else refers to the
  objects before the end, the model builds the same values from the inside. The number that \<open>ASString::toNumber\<close> makes of
  a text is a parameter, \<open>None\<close> for NaN. Calls and rounds of loops use up fuel; the amount that is enough is proved.
\<close>

section \<open>The code\<close>

type_synonym codes = "u32 list"

abbreviation QUOTE :: u32 where "QUOTE \<equiv> 0x22"
abbreviation BACKSLASH :: u32 where "BACKSLASH \<equiv> 0x5C"
abbreviation LBRACE :: u32 where "LBRACE \<equiv> 0x7B"
abbreviation RBRACE :: u32 where "RBRACE \<equiv> 0x7D"
abbreviation LBRACKET :: u32 where "LBRACKET \<equiv> 0x5B"
abbreviation RBRACKET :: u32 where "RBRACKET \<equiv> 0x5D"
abbreviation COMMA :: u32 where "COMMA \<equiv> 0x2C"
abbreviation COLON :: u32 where "COLON \<equiv> 0x3A"

text \<open>Arrays may have holes; a property may be stored under no name (\<open>UINT32_MAX\<close> as the identifier of the name).\<close>

datatype 'n json = JNull | JBool bool | JNumber 'n | JString codes | JArray "'n json option list" | JObject "(codes option \<times> 'n json) list"

definition is_ws :: "u32 \<Rightarrow> bool" where "is_ws c \<longleftrightarrow> c = 0x20 \<or> c = 0x09 \<or> c = 0x0A \<or> c = 0x0D"

definition skip_ws :: "codes \<Rightarrow> codes" where "skip_ws s = dropWhile is_ws s"

text \<open>\<open>char c = *it\<close>.\<close>

definition low_byte :: "codes \<Rightarrow> u8" where "low_byte s = (case s of [] \<Rightarrow> 0 | c # s \<Rightarrow> ucast c)"

definition parse_word :: "codes \<Rightarrow> 'a \<Rightarrow> codes \<Rightarrow> ('a \<times> codes) option" where
  "parse_word w v s = (if take (length w) s = w then Some (v, drop (length w) s) else None)"

definition parseIntDigit :: "u32 \<Rightarrow> int" where
  "parseIntDigit c = (if 0x30 \<le> c \<and> c \<le> 0x39 then uint c - 0x30 else if 0x61 \<le> c \<and> c \<le> 0x7A then uint c - 0x61 + 10
     else if 0x41 \<le> c \<and> c \<le> 0x5A then uint c - 0x41 + 10 else -1)"

definition is_hex :: "u32 \<Rightarrow> bool" where
  "is_hex c \<longleftrightarrow> 0x30 \<le> c \<and> c \<le> 0x39 \<or> 0x61 \<le> c \<and> c \<le> 0x66 \<or> 0x41 \<le> c \<and> c \<le> 0x46"

definition hex_digits :: "codes \<Rightarrow> int" where "hex_digits ds = foldl (\<lambda>r d. r * 16 + parseIntDigit d) 0 ds"

text \<open>What follows a backslash: the character it means, and the rest.\<close>

definition unicode_escape :: "codes \<Rightarrow> (u32 \<times> codes) option" where
  "unicode_escape s =
     (if length s < 4 \<or> \<not> list_all is_hex (take 4 s) then None
      else let h = hex_digits (take 4 s) in if h < 0x20 \<and> h \<noteq> 0xf then None else Some (word_of_int h, drop 4 s))"

definition escape :: "codes \<Rightarrow> (u32 \<times> codes) option" where
  "escape s = (case s of [] \<Rightarrow> None | d # s \<Rightarrow>
     if d = QUOTE then Some (QUOTE, s)
     else if d = BACKSLASH then Some (BACKSLASH, s)
     else if d = 0x2F then Some (0x2F, s)
     else if d = 0x62 then Some (0x08, s)
     else if d = 0x66 then Some (0x0C, s)
     else if d = 0x6E then Some (0x0A, s)
     else if d = 0x72 then Some (0x0D, s)
     else if d = 0x74 then Some (0x09, s)
     else if d = 0x75 then unicode_escape s
     else None)"

lemma escape_shorter: "escape s = Some (c, s') \<Longrightarrow> length s' < length s"
  by (auto simp: escape_def unicode_escape_def Let_def split: list.splits if_splits)

function string_loop :: "codes \<Rightarrow> codes \<Rightarrow> (codes \<times> codes) option" where
  "string_loop res [] = None"
| "string_loop res (c # s) =
     (if c = QUOTE then Some (res, s)
      else if c = BACKSLASH then (case escape s of None \<Rightarrow> None | Some (d, s') \<Rightarrow> string_loop (res @ [d]) s')
      else if c < 0x20 then None
      else string_loop (res @ [c]) s)"
  by pat_completeness auto
termination
  by (relation "measure (length \<circ> snd)") (auto dest: escape_shorter)

definition parseString :: "codes \<Rightarrow> (codes \<times> codes) option" where "parseString s = string_loop [] (tl s)"

text \<open>The digits, signs, point and exponent characters.\<close>

definition number_char :: "u8 \<Rightarrow> bool" where
  "number_char c \<longleftrightarrow> 0x30 \<le> c \<and> c \<le> 0x39 \<or> c = 0x2D \<or> c = 0x2B \<or> c = 0x2E \<or> c = 0x45 \<or> c = 0x65"

fun number_loop :: "codes \<Rightarrow> codes \<times> codes" where
  "number_loop [] = ([], [])"
| "number_loop (c # s) = (if number_char (ucast c) then (ucast (ucast c :: u8) # fst (number_loop s), snd (number_loop s)) else ([], c # s))"

definition parseNumber :: "(codes \<Rightarrow> 'n option) \<Rightarrow> codes \<Rightarrow> ('n \<times> codes) option" where
  "parseNumber num s = (let (ds, s) = number_loop s in case num ds of None \<Rightarrow> None | Some x \<Rightarrow> Some (x, s))"

text \<open>\<open>setVariableByMultiname\<close> on a new object and on a new array, which grows to take the index.\<close>

fun put_name :: "'k \<Rightarrow> 'v \<Rightarrow> ('k \<times> 'v) list \<Rightarrow> ('k \<times> 'v) list" where
  "put_name k v [] = [(k, v)]"
| "put_name k v ((k', v') # kvs) = (if k' = k then (k, v) # kvs else (k', v') # put_name k v kvs)"

definition put_index :: "nat \<Rightarrow> 'v \<Rightarrow> 'v option list \<Rightarrow> 'v option list" where
  "put_index i v xs = (if i < length xs then xs[i := Some v] else xs @ replicate (i - length xs) None @ [Some v])"

definition put :: "('v \<Rightarrow> 'c \<Rightarrow> 'c) \<Rightarrow> 'v option \<Rightarrow> 'c \<Rightarrow> 'c" where
  "put f v x = (case v of None \<Rightarrow> x | Some v \<Rightarrow> f v x)"

definition digit_byte :: "u8 \<Rightarrow> bool" where "digit_byte c \<longleftrightarrow> 0x30 \<le> c \<and> c \<le> 0x39"

definition parse_plain :: "(codes \<Rightarrow> 'n option) \<Rightarrow> codes \<Rightarrow> ('n json \<times> codes) option" where
  "parse_plain num s =
     (let c = low_byte s in
      if c = 0x22 then map_option (map_prod JString id) (parseString s)
      else if digit_byte c \<or> c = 0x2D then map_option (map_prod JNumber id) (parseNumber num s)
      else if c = 0x74 then parse_word [0x74, 0x72, 0x75, 0x65] (JBool True) s
      else if c = 0x66 then parse_word [0x66, 0x61, 0x6C, 0x73, 0x65] (JBool False) s
      else if c = 0x6E then parse_word [0x6E, 0x75, 0x6C, 0x6C] JNull s
      else None)"

text \<open>\<open>None\<close> stands for \<open>return false\<close>; no value is stored if the text is at its end.\<close>

function (sequential) parse :: "(codes \<Rightarrow> 'n option) \<Rightarrow> nat \<Rightarrow> codes \<Rightarrow> ('n json option \<times> codes) option res"
  and object_loop :: "(codes \<Rightarrow> 'n option) \<Rightarrow> nat \<Rightarrow> (codes option \<times> 'n json) list \<Rightarrow> codes option \<Rightarrow> bool \<Rightarrow> bool \<Rightarrow> bool \<Rightarrow> codes
    \<Rightarrow> ('n json option \<times> codes) option res"
  and array_loop :: "(codes \<Rightarrow> 'n option) \<Rightarrow> nat \<Rightarrow> 'n json option list \<Rightarrow> nat \<Rightarrow> bool \<Rightarrow> codes \<Rightarrow> ('n json option \<times> codes) option res" where
  "parse num 0 s = Inl OutOfFuel"
| "parse num (Suc n) s =
     (let s = skip_ws s in
      if s = [] then Inr (Some (None, []))
      else if low_byte s = 0x7B then object_loop num n [] None True True False (tl s)
      else if low_byte s = 0x5B then array_loop num n [] 0 False (tl s)
      else Inr (map_option (map_prod Some id) (parse_plain num s)))"
| "object_loop num 0 kvs name bfirst needkey needvalue s = Inl OutOfFuel"
| "object_loop num (Suc n) kvs name bfirst needkey needvalue s =
     (if s = [] then Inr None
      else let s = skip_ws s; c = low_byte s in
      if c = 0x7D then (if \<not> bfirst \<and> (needkey \<or> needvalue) then Inr None else Inr (Some (Some (JObject kvs), tl s)))
      else if c = 0x22 then
        (case parseString s of
           None \<Rightarrow> Inr None
         | Some (k, s) \<Rightarrow> object_loop num n kvs (Some k) False False True s)
      else if c = 0x2C then (if needkey \<or> needvalue then Inr None else object_loop num n kvs (Some []) False True needvalue (tl s))
      else if c = 0x3A then
        bindE (parse num n (tl s)) (\<lambda>r. case r of
          None \<Rightarrow> Inr None
        | Some (v, s) \<Rightarrow> object_loop num n (put (put_name name) v kvs) name False needkey False s)
      else Inr None)"
| "array_loop num 0 vs i needdata s = Inl OutOfFuel"
| "array_loop num (Suc n) vs i needdata s =
     (if s = [] then Inr None
      else let s = skip_ws s; c = low_byte s in
      if c = 0x5D then (if needdata then Inr None else Inr (Some (Some (JArray vs), tl s)))
      else if c = 0x2C then array_loop num n vs (i + 1) True (tl s)
      else bindE (parse num n s) (\<lambda>r. case r of
          None \<Rightarrow> Inr None
        | Some (v, s) \<Rightarrow> array_loop num n (put (put_index i) v vs) i False s))"
  by pat_completeness auto
termination
  by (relation "measure (\<lambda>x. case x of Inl (num, n, s) \<Rightarrow> n | Inr (Inl (num, n, kvs, name, bfirst, needkey, needvalue, s)) \<Rightarrow> n
    | Inr (Inr (num, n, vs, i, needdata, s)) \<Rightarrow> n)") auto

text \<open>If more follows an object or an array, the loop of \<open>parseAll\<close> goes on to store it in that object, under a name that has not been
  set; this is as far as the model follows it.\<close>

datatype 'n parsed = Accepted "'n json option" | Further "'n json" codes | Rejected

definition parseAll :: "(codes \<Rightarrow> 'n option) \<Rightarrow> nat \<Rightarrow> codes \<Rightarrow> 'n parsed res" where
  "parseAll num n s =
     (if s = [] then Inr (Accepted None)
      else bindE (parse num n s) (\<lambda>r. case r of
          None \<Rightarrow> Inr Rejected
        | Some (v, s) \<Rightarrow>
            (let s = skip_ws s in
             if s = [] then Inr (Accepted v)
             else case v of
               Some (JArray vs) \<Rightarrow> Inr (Further (JArray vs) s)
             | Some (JObject kvs) \<Rightarrow> Inr (Further (JObject kvs) s)
             | _ \<Rightarrow> Inr Rejected)))"


section \<open>Parsing ends\<close>

lemma skip_ws_length: "length (skip_ws s) \<le> length s"
  by (simp add: skip_ws_def length_dropWhile_le)

lemma string_loop_shorter: "string_loop res s = Some (r, s') \<Longrightarrow> length s' < length s"
proof (induction res s rule: string_loop.induct)
  case (2 res c s)
  show ?case
  proof (cases "c = BACKSLASH \<and> c \<noteq> QUOTE")
    case True
    then obtain d t where "escape s = Some (d, t)" "string_loop (res @ [d]) t = Some (r, s')" using 2(3) by (auto split: option.splits)
    then show ?thesis using 2(1) [of "(d, t)" d t] True escape_shorter [of s d t] by simp
  next
    case False
    then show ?thesis using 2(2,3) by (auto split: if_splits)
  qed
qed simp

lemma parseString_shorter: "parseString s = Some (r, s') \<Longrightarrow> length s' < length s"
  unfolding parseString_def using string_loop_shorter by (cases s) fastforce+

lemma number_loop_length: "length (snd (number_loop s)) \<le> length s"
  by (induction s rule: number_loop.induct) auto

lemma parse_plain_shorter:
  assumes "parse_plain num s = Some (v, s')"
  shows "length s' < length s"
proof (cases s)
  case Nil
  then show ?thesis using assms by (simp add: parse_plain_def low_byte_def digit_byte_def)
next
  case (Cons c t)
  have w: "length s' < length s" if "parse_word w x s = Some (v, s')" "w \<noteq> []" for w x
    using that Cons by (auto simp: parse_word_def split: if_splits)
  have n: "length s' < length s" if "parseNumber num s = Some (x, s')" "digit_byte (low_byte s) \<or> low_byte s = 0x2D" for x
  proof -
    have "number_char (ucast c)" using that(2) Cons by (auto simp: low_byte_def digit_byte_def number_char_def)
    moreover have "s' = snd (number_loop s)" using that(1) by (auto simp: parseNumber_def split: prod.splits option.splits)
    ultimately show ?thesis using Cons number_loop_length [of t] by simp
  qed
  show ?thesis
    using assms parseString_shorter w n by (auto simp: parse_plain_def Let_def split: if_splits)
qed

lemma low_byte_Nil [simp]: "low_byte [] = 0"
  by (simp add: low_byte_def)

text \<open>Every call that returns consumes something, if there is something.\<close>

lemma parse_shorter:
  "(\<forall>s v s'. parse num n s = Inr (Some (v, s')) \<longrightarrow> length s' \<le> length s - 1)
   \<and> (\<forall>kvs name b nk nv s v s'. object_loop num n kvs name b nk nv s = Inr (Some (v, s')) \<longrightarrow> length s' < length s)
   \<and> (\<forall>vs i nd s v s'. array_loop num n vs i nd s = Inr (Some (v, s')) \<longrightarrow> length s' < length s)"
proof (induction n)
  case (Suc n)
  have p: "length s' \<le> length s - 1" if "parse num n s = Inr (Some (v, s'))" for s v s' using Suc that by blast
  have ob: "length s' < length s" if "object_loop num n kvs name b nk nv s = Inr (Some (v, s'))" for kvs name b nk nv s v s'
    using Suc that by blast
  have ar: "length s' < length s" if "array_loop num n vs i nd s = Inr (Some (v, s'))" for vs i nd s v s' using Suc that by blast
  have w: "length (skip_ws s) \<le> length s" for s by (rule skip_ws_length)
  have "length s' \<le> length s - 1" if "parse num (Suc n) s = Inr (Some (v, s'))" for s v s'
    using that w [of s] parse_plain_shorter [of num "skip_ws s" _ s']
    by (auto simp: Let_def map_option_case dest!: ob ar split: if_splits option.splits)
  moreover have "length s' < length s" if h: "object_loop num (Suc n) kvs name b nk nv s = Inr (Some (v, s'))" for kvs name b nk nv s v s'
  proof -
    let ?t = "skip_ws s"
    have e: "s \<noteq> []" using h by auto
    consider "s' = tl ?t" | k t where "parseString ?t = Some (k, t)" "length s' < length t" | "length s' < length (tl ?t)"
      | v' t where "parse num n (tl ?t) = Inr (Some (v', t))" "length s' < length t"
      using h e ob by (fastforce simp: Let_def bindE_Inr_conv split: if_splits option.splits prod.splits)
    moreover have "length (tl ?t) = length ?t - 1" "0 < length s" using e by simp_all
    ultimately show ?thesis
      using w [of s] by cases ((drule p parseString_shorter)?, (drule arg_cong [where f = length])?, linarith)+
  qed
  moreover have "length s' < length s" if h: "array_loop num (Suc n) vs i nd s = Inr (Some (v, s'))" for vs i nd s v s'
  proof -
    let ?t = "skip_ws s"
    have e: "s \<noteq> []" using h by auto
    consider "s' = tl ?t" | "length s' < length (tl ?t)" | v' t where "parse num n ?t = Inr (Some (v', t))" "length s' < length t"
      using h e ar by (fastforce simp: Let_def bindE_Inr_conv split: if_splits option.splits prod.splits)
    moreover have "length (tl ?t) = length ?t - 1" "0 < length s" using e by simp_all
    ultimately show ?thesis
      using w [of s] by cases ((drule p)?, (drule arg_cong [where f = length])?, linarith)+
  qed
  ultimately show ?case by blast
qed simp

definition returns :: "'a res \<Rightarrow> bool" where "returns r \<longleftrightarrow> (\<exists>x. r = Inr x)"

lemma returns_simps [simp]: "returns (Inr x)" "\<not> returns (Inl e)" "returns (bindE m f) \<longleftrightarrow> (\<exists>x. m = Inr x \<and> returns (f x))"
  by (auto simp: returns_def bindE_Inr_conv)

lemma parse_enough:
  "(\<forall>s. 2 * length s + 2 \<le> n \<longrightarrow> returns (parse num n s))
   \<and> (\<forall>kvs name b nk nv s. 2 * length s + 3 \<le> n \<longrightarrow> returns (object_loop num n kvs name b nk nv s))
   \<and> (\<forall>vs i nd s. 2 * length s + 3 \<le> n \<longrightarrow> returns (array_loop num n vs i nd s))"
proof (induction n)
  case (Suc n)
  have p: "returns (parse num n s)" if "2 * length s + 2 \<le> n" for s using Suc that by blast
  have ob: "returns (object_loop num n kvs name b nk nv s)" if "2 * length s + 3 \<le> n" for kvs name b nk nv s using Suc that by blast
  have ar: "returns (array_loop num n vs i nd s)" if "2 * length s + 3 \<le> n" for vs i nd s using Suc that by blast
  have tl: "2 * length (tl (skip_ws s)) + 3 \<le> n" "2 * length (tl (skip_ws s)) + 2 \<le> n" if "2 * length s + 2 \<le> Suc n" "s \<noteq> []" for s
    using that skip_ws_length [of s] by (cases s; simp; linarith)+
  have "returns (parse num (Suc n) s)" if n: "2 * length s + 2 \<le> Suc n" for s
  proof (cases "skip_ws s = []")
    case False
    then have "s \<noteq> []" by (auto simp: skip_ws_def)
    then show ?thesis using ob ar tl(1) [OF n] by (simp add: Let_def)
  qed simp
  moreover have "returns (object_loop num (Suc n) kvs name b nk nv s)" if n: "2 * length s + 3 \<le> Suc n" for kvs name b nk nv s
  proof (cases "s = []")
    case False
    let ?t = "skip_ws s"
    have k: "returns (object_loop num n kvs name b nk nv t)" if "parseString ?t = Some (k, t)" for kvs name b nk nv k t
      using parseString_shorter [OF that] skip_ws_length [of s] n by (intro ob) simp
    have v: "returns (object_loop num n kvs name b nk nv t)" if "parse num n (tl ?t) = Inr (Some (v, t))" for kvs name b nk nv v t
      using parse_shorter [of num n] that skip_ws_length [of s] n False by (intro ob) (cases s; fastforce)
    have "returns (parse num n (tl ?t))" using tl(2) [OF _ False] n by (intro p) simp
    then show ?thesis
      using False k v ob tl(1) [OF _ False] n
      by (cases "parse num n (tl ?t)") (auto simp: Let_def split: option.splits)
  qed simp
  moreover have "returns (array_loop num (Suc n) vs i nd s)" if n: "2 * length s + 3 \<le> Suc n" for vs i nd s
  proof (cases "s = []")
    case False
    let ?t = "skip_ws s"
    have v: "returns (array_loop num n vs i nd t)" if "parse num n ?t = Inr (Some (v, t))" for vs i nd v t
      using parse_shorter [of num n] that skip_ws_length [of s] n False by (intro ar) (cases s; fastforce)
    have "returns (parse num n ?t)" using skip_ws_length [of s] n by (intro p) simp
    then show ?thesis
      using False v ar tl(1) [OF _ False] n
      by (cases "parse num n ?t") (auto simp: Let_def split: option.splits)
  qed simp
  ultimately show ?case by blast
qed simp

end
