(* ===== verification/JsonGrammar.thy ===== *)
theory JsonGrammar
  imports JsonParse
begin

text \<open>
  The grammar of JSON texts, and a proof that the parser understands every text of it. Two kinds of JSON texts are left out of the grammar:
  those with escapes of control characters in hexadecimal digits (except for 0x0f), because the parser refuses them, and
  those with an object in which a name occurs twice, whose meaning JSON does not fix.
\<close>

section \<open>The grammar\<close>

inductive string_text :: "codes \<Rightarrow> codes \<Rightarrow> bool" where
  no_character: "string_text [] []"
| plain: "0x20 \<le> c \<Longrightarrow> c \<noteq> QUOTE \<Longrightarrow> c \<noteq> BACKSLASH \<Longrightarrow> string_text t s \<Longrightarrow> string_text (c # t) (c # s)"
| escaped: "(d, c) \<in> {(QUOTE, QUOTE), (BACKSLASH, BACKSLASH), (0x2F, 0x2F), (0x62, 0x08), (0x66, 0x0C), (0x6E, 0x0A), (0x72, 0x0D), (0x74, 0x09)}
    \<Longrightarrow> string_text t s \<Longrightarrow> string_text (c # t) (BACKSLASH # d # s)"
| unicode: "length ds = 4 \<Longrightarrow> list_all is_hex ds \<Longrightarrow> 0x20 \<le> hex_digits ds \<or> hex_digits ds = 0xf
    \<Longrightarrow> string_text t s \<Longrightarrow> string_text (word_of_int (hex_digits ds) # t) (BACKSLASH # 0x75 # ds @ s)"

definition spaces_text :: "codes \<Rightarrow> bool" where "spaces_text w \<longleftrightarrow> list_all is_ws w"

text \<open>A text of digits, signs, points and exponents that begins with a digit or a minus.\<close>

definition number_text :: "(codes \<Rightarrow> 'n option) \<Rightarrow> 'n \<Rightarrow> codes \<Rightarrow> bool" where
  "number_text num x ds \<longleftrightarrow> num ds = Some x \<and> ds \<noteq> [] \<and> list_all (\<lambda>c. c < 0x80 \<and> number_char (ucast c)) ds
     \<and> (digit_byte (low_byte ds) \<or> low_byte ds = 0x2D)"

inductive value_text :: "(codes \<Rightarrow> 'n option) \<Rightarrow> 'n json \<Rightarrow> codes \<Rightarrow> bool"
  and elements_text :: "(codes \<Rightarrow> 'n option) \<Rightarrow> 'n json list \<Rightarrow> codes \<Rightarrow> bool"
  and members_text :: "(codes \<Rightarrow> 'n option) \<Rightarrow> (codes \<times> 'n json) list \<Rightarrow> codes \<Rightarrow> bool"
  for num :: "codes \<Rightarrow> 'n option" where
  null_value: "value_text num JNull [0x6E, 0x75, 0x6C, 0x6C]"
| true_value: "value_text num (JBool True) [0x74, 0x72, 0x75, 0x65]"
| false_value: "value_text num (JBool False) [0x66, 0x61, 0x6C, 0x73, 0x65]"
| number_value: "number_text num x ds \<Longrightarrow> value_text num (JNumber x) ds"
| string_value: "string_text t s \<Longrightarrow> value_text num (JString t) (QUOTE # s @ [QUOTE])"
| empty_array: "spaces_text w \<Longrightarrow> value_text num (JArray []) (LBRACKET # w @ [RBRACKET])"
| array_value: "elements_text num vs s \<Longrightarrow> value_text num (JArray (map Some vs)) (LBRACKET # s @ [RBRACKET])"
| empty_object: "spaces_text w \<Longrightarrow> value_text num (JObject []) (LBRACE # w @ [RBRACE])"
| object_value: "members_text num kvs s \<Longrightarrow> distinct (map fst kvs)
    \<Longrightarrow> value_text num (JObject (map (map_prod Some id) kvs)) (LBRACE # s @ [RBRACE])"
| last_element: "spaces_text w \<Longrightarrow> value_text num v s \<Longrightarrow> spaces_text w' \<Longrightarrow> elements_text num [v] (w @ s @ w')"
| next_element: "spaces_text w \<Longrightarrow> value_text num v s \<Longrightarrow> spaces_text w' \<Longrightarrow> elements_text num vs r
    \<Longrightarrow> elements_text num (v # vs) (w @ s @ w' @ COMMA # r)"
| last_member: "spaces_text w1 \<Longrightarrow> string_text k ks \<Longrightarrow> spaces_text w2 \<Longrightarrow> spaces_text w3 \<Longrightarrow> value_text num v s \<Longrightarrow> spaces_text w4
    \<Longrightarrow> members_text num [(k, v)] (w1 @ QUOTE # ks @ QUOTE # w2 @ COLON # w3 @ s @ w4)"
| next_member: "spaces_text w1 \<Longrightarrow> string_text k ks \<Longrightarrow> spaces_text w2 \<Longrightarrow> spaces_text w3 \<Longrightarrow> value_text num v s \<Longrightarrow> spaces_text w4
    \<Longrightarrow> members_text num kvs r
    \<Longrightarrow> members_text num ((k, v) # kvs) (w1 @ QUOTE # ks @ QUOTE # w2 @ COLON # w3 @ s @ w4 @ COMMA # r)"


section \<open>Strings, numbers and spaces\<close>

lemma escape_simps:
  "(d, c) \<in> {(QUOTE, QUOTE), (BACKSLASH, BACKSLASH), (0x2F, 0x2F), (0x62, 0x08), (0x66, 0x0C), (0x6E, 0x0A), (0x72, 0x0D), (0x74, 0x09)}
    \<Longrightarrow> escape (d # s) = Some (c, s)"
  by (auto simp: escape_def)

lemma escape_unicode:
  "length ds = 4 \<Longrightarrow> list_all is_hex ds \<Longrightarrow> 0x20 \<le> hex_digits ds \<or> hex_digits ds = 0xf
    \<Longrightarrow> escape (0x75 # ds @ s) = Some (word_of_int (hex_digits ds), s)"
  by (auto simp: escape_def unicode_escape_def Let_def)

lemma string_loop_text: "string_text t s \<Longrightarrow> string_loop res (s @ QUOTE # r) = Some (res @ t, r)"
proof (induction t s arbitrary: res rule: string_text.induct)
  case (plain c t s)
  then show ?case by (simp add: not_less)
next
  case (escaped d c t s)
  then show ?case using escape_simps [OF escaped(1)] by simp
next
  case (unicode ds t s)
  then show ?case using escape_unicode [OF unicode(1-3), of "s @ QUOTE # r"] by simp
qed simp

lemma parseString_text: "string_text t s \<Longrightarrow> parseString (QUOTE # s @ QUOTE # r) = Some (t, r)"
  using string_loop_text [of t s "[]"] by (simp add: parseString_def)

lemma number_loop_text:
  "list_all (\<lambda>c. c < 0x80 \<and> number_char (ucast c)) ds \<Longrightarrow> r = [] \<or> \<not> number_char (low_byte r) \<Longrightarrow> number_loop (ds @ r) = (ds, r)"
proof (induction ds)
  case Nil
  then show ?case by (cases r) (auto simp: low_byte_def)
next
  case (Cons c ds)
  have "ucast (ucast c :: u8) = c" 
    using Cons(2) uint_lt2p [of c] by (intro word_uint_eqI) (auto simp: word_less_def unsigned_ucast_eq take_bit_eq_mod uint_mod)
  then show ?case using Cons by simp
qed

lemma skip_ws_spaces: "spaces_text w \<Longrightarrow> skip_ws (w @ s) = skip_ws s"
  by (induction w) (auto simp: spaces_text_def skip_ws_def)

lemma skip_ws_Cons [simp]: "\<not> is_ws c \<Longrightarrow> skip_ws (c # s) = c # s"
  by (simp add: skip_ws_def)

lemma is_ws_simps [simp]: "\<not> is_ws QUOTE" "\<not> is_ws LBRACE" "\<not> is_ws RBRACE" "\<not> is_ws LBRACKET" "\<not> is_ws RBRACKET" "\<not> is_ws COMMA" "\<not> is_ws COLON"
  "\<not> is_ws 0x6E" "\<not> is_ws 0x74" "\<not> is_ws 0x66"
  by (simp_all add: is_ws_def)


lemma low_byte_Cons [simp]: "low_byte (c # s) = ucast c"
  by (simp add: low_byte_def)

lemma number_head:
  assumes "number_text num x ds"
  shows "ds \<noteq> [] \<and> (digit_byte (low_byte ds) \<or> low_byte ds = 0x2D) \<and> \<not> is_ws (hd ds)"
  using assms by (cases ds) (auto simp: number_text_def is_ws_def digit_byte_def)

text \<open>How the text of a value begins.\<close>

lemma value_head:
  assumes "value_text num v s"
  shows "s \<noteq> [] \<and> \<not> is_ws (hd s) \<and> low_byte s \<noteq> 0x5D \<and> low_byte s \<noteq> 0x2C"
  using assms by cases (auto dest!: number_head simp: digit_byte_def)

lemma value_parse_plain:
  assumes "digit_byte (low_byte s) \<or> low_byte s = 0x2D \<or> low_byte s = 0x22 \<or> low_byte s = 0x74 \<or> low_byte s = 0x66 \<or> low_byte s = 0x6E"
    and "s \<noteq> []" and "\<not> is_ws (hd s)" and "parse_plain num (s @ r) = Some (v, r)" and "spaces_text w"
  shows "parse num (Suc n) (w @ s @ r) = Inr (Some (Some v, r))"
proof -
  obtain c t where s: "s = c # t" using assms(2) by (cases s) auto
  have "skip_ws (w @ s @ r) = s @ r" using assms(3,5) s by (simp add: skip_ws_spaces)
  moreover have "low_byte (s @ r) \<noteq> 0x7B" "low_byte (s @ r) \<noteq> 0x5B" using assms(1) s by (auto simp: digit_byte_def)
  ultimately show ?thesis using assms(2,4) by (simp add: Let_def)
qed

definition stops :: "codes \<Rightarrow> bool" where "stops r \<longleftrightarrow> r = [] \<or> \<not> number_char (low_byte r)"

lemma parse_number_text:
  assumes "number_text num x ds" and "stops r"
  shows "parse_plain num (ds @ r) = Some (JNumber x, r)"
proof -
  have "parseNumber num (ds @ r) = Some (x, r)"
    using assms number_loop_text [of ds r] by (simp add: parseNumber_def number_text_def stops_def)
  moreover have "low_byte (ds @ r) = low_byte ds" using assms(1) by (cases ds) (simp_all add: number_text_def)
  ultimately show ?thesis using number_head [OF assms(1)] by (auto simp: parse_plain_def Let_def digit_byte_def)
qed

lemma parse_string_value: "string_text t s \<Longrightarrow> parse_plain num (QUOTE # s @ QUOTE # r) = Some (JString t, r)"
  using parseString_text by (simp add: parse_plain_def Let_def)

lemma parse_words [simp]:
  "parse_plain num (0x6E # 0x75 # 0x6C # 0x6C # r) = Some (JNull, r)"
  "parse_plain num (0x74 # 0x72 # 0x75 # 0x65 # r) = Some (JBool True, r)"
  "parse_plain num (0x66 # 0x61 # 0x6C # 0x73 # 0x65 # r) = Some (JBool False, r)"
  by (simp_all add: parse_plain_def Let_def digit_byte_def parse_word_def)

lemma stops_after: "stops (LBRACE # r)" "stops (RBRACE # r)" "stops (RBRACKET # r)" "stops (COMMA # r)" "stops []"
  by (simp_all add: stops_def number_char_def)

lemma stops_spaces: "spaces_text w \<Longrightarrow> stops r \<Longrightarrow> stops (w @ r)"
  by (cases w) (auto simp: stops_def spaces_text_def is_ws_def number_char_def)

lemma put_index_end: "put (put_index (length xs)) (Some v) xs = xs @ [Some v]"
  by (simp add: put_def put_index_def)

lemma put_name_new: "k \<notin> fst ` set kvs \<Longrightarrow> put (put_name k) (Some v) kvs = kvs @ [(k, v)]"
  unfolding put_def by (induction kvs) auto


section \<open>The loops\<close>

lemma not_empty: "w @ c # r \<noteq> []"
  by simp

lemma array_loop_close:
  "spaces_text w \<Longrightarrow> array_loop num (Suc n) xs i False (w @ RBRACKET # r) = Inr (Some (Some (JArray xs), r))"
  by (simp add: skip_ws_spaces Let_def)

lemma array_loop_comma:
  "spaces_text w \<Longrightarrow> array_loop num (Suc n) xs i nd (w @ COMMA # r) = array_loop num n xs (i + 1) True r"
  by (simp add: skip_ws_spaces Let_def)

lemma array_loop_value:
  assumes "spaces_text w" and "value_text num v s" and "parse num n (s @ r) = Inr (Some (Some v, r))"
  shows "array_loop num (Suc n) xs (length xs) nd (w @ s @ r) = array_loop num n (xs @ [Some v]) (length xs) False r"
proof -
  obtain c t where s: "s = c # t" using value_head [OF assms(2)] by (cases s) auto
  have "skip_ws (w @ s @ r) = s @ r" "low_byte (s @ r) \<noteq> 0x5D" "low_byte (s @ r) \<noteq> 0x2C"
    using value_head [OF assms(2)] s assms(1) by (simp_all add: skip_ws_spaces)
  then show ?thesis using s assms(3) by (simp add: Let_def put_index_end)
qed

lemma object_loop_close:
  "spaces_text w \<Longrightarrow> b \<or> \<not> nk \<and> \<not> nv
    \<Longrightarrow> object_loop num (Suc n) kvs name b nk nv (w @ RBRACE # r) = Inr (Some (Some (JObject kvs), r))"
  by (auto simp: skip_ws_spaces Let_def)

lemma object_loop_name:
  "spaces_text w \<Longrightarrow> string_text k ks
    \<Longrightarrow> object_loop num (Suc n) kvs name b nk nv (w @ QUOTE # ks @ QUOTE # r) = object_loop num n kvs (Some k) False False True r"
  by (simp add: skip_ws_spaces Let_def parseString_text)

lemma object_loop_colon:
  "spaces_text w \<Longrightarrow> parse num n s = Inr (Some (Some v, r)) \<Longrightarrow> name \<notin> fst ` set kvs
    \<Longrightarrow> object_loop num (Suc n) kvs name b nk nv (w @ COLON # s) = object_loop num n (kvs @ [(name, v)]) name False nk False r"
  by (simp add: skip_ws_spaces Let_def put_name_new)

lemma object_loop_comma:
  "spaces_text w \<Longrightarrow> object_loop num (Suc n) kvs name b False False (w @ COMMA # r) = object_loop num n kvs (Some []) False True False r"
  by (simp add: skip_ws_spaces Let_def)

text \<open>One member up to the end of its value.\<close>

lemma object_loop_member:
  assumes "spaces_text w1" and "string_text k ks" and "spaces_text w2"
    and "parse num n (w3 @ s @ r) = Inr (Some (Some v, r))" and "Some k \<notin> fst ` set kvs"
  shows "object_loop num (Suc (Suc n)) kvs name b True False (w1 @ QUOTE # ks @ QUOTE # w2 @ COLON # w3 @ s @ r)
    = object_loop num n (kvs @ [(Some k, v)]) (Some k) False False False r"
  using object_loop_name [OF assms(1,2), of num "Suc n"] object_loop_colon [OF assms(3,4,5)] by (simp only:)


section \<open>Completeness\<close>

text \<open>What the parser makes of the texts of a value, of elements and of members, for all amounts of fuel that are enough.\<close>

definition value_ok :: "(codes \<Rightarrow> 'n option) \<Rightarrow> 'n json \<Rightarrow> codes \<Rightarrow> bool" where
  "value_ok num v s \<longleftrightarrow> (\<forall>n w r. spaces_text w \<longrightarrow> stops r \<longrightarrow> 2 * length (w @ s @ r) + 2 \<le> n \<longrightarrow> parse num n (w @ s @ r) = Inr (Some (Some v, r)))"

definition elements_ok :: "(codes \<Rightarrow> 'n option) \<Rightarrow> 'n json list \<Rightarrow> codes \<Rightarrow> bool" where
  "elements_ok num vs s \<longleftrightarrow> (\<forall>n xs nd r. 2 * length (s @ RBRACKET # r) + 3 \<le> n
    \<longrightarrow> array_loop num n xs (length xs) nd (s @ RBRACKET # r) = Inr (Some (Some (JArray (xs @ map Some vs)), r)))"

definition members_ok :: "(codes \<Rightarrow> 'n option) \<Rightarrow> (codes \<times> 'n json) list \<Rightarrow> codes \<Rightarrow> bool" where
  "members_ok num kvs s \<longleftrightarrow> (\<forall>n os name b r. 2 * length (s @ RBRACE # r) + 3 \<le> n \<longrightarrow> distinct (map fst os @ map (Some \<circ> fst) kvs)
    \<longrightarrow> object_loop num n os name b True False (s @ RBRACE # r) = Inr (Some (Some (JObject (os @ map (map_prod Some id) kvs)), r)))"

lemma plain_value_ok:
  assumes "\<And>r. stops r \<Longrightarrow> parse_plain num (s @ r) = Some (v, r)" and "s \<noteq> []" and "\<not> is_ws (hd s)"
    and "digit_byte (low_byte s) \<or> low_byte s = 0x2D \<or> low_byte s = 0x22 \<or> low_byte s = 0x74 \<or> low_byte s = 0x66 \<or> low_byte s = 0x6E"
  shows "value_ok num v s"
  unfolding value_ok_def
proof (intro allI impI)
  fix n w r assume "spaces_text w" "stops r" "2 * length (w @ s @ r) + 2 \<le> n"
  then show "parse num n (w @ s @ r) = Inr (Some (Some v, r))"
    using value_parse_plain [OF assms(4,2,3) assms(1)] by (cases n) (simp_all del: parse.simps)
qed

lemma array_value_ok:
  assumes "elements_ok num vs s"
  shows "value_ok num (JArray (map Some vs)) (LBRACKET # s @ [RBRACKET])"
  unfolding value_ok_def
proof (intro allI impI)
  fix n w r assume w: "spaces_text w" and n: "2 * length (w @ (LBRACKET # s @ [RBRACKET]) @ r) + 2 \<le> n"
  then obtain m where m: "n = Suc m" "2 * length (s @ RBRACKET # r) + 3 \<le> m" by (cases n) auto
  have "array_loop num m [] (length ([] :: 'a json option list)) False (s @ RBRACKET # r) = Inr (Some (Some (JArray ([] @ map Some vs)), r))"
    using assms m(2) unfolding elements_ok_def by blast
  then show "parse num n (w @ (LBRACKET # s @ [RBRACKET]) @ r) = Inr (Some (Some (JArray (map Some vs)), r))"
    using w m(1) by (simp add: skip_ws_spaces Let_def)
qed

lemma object_value_ok:
  assumes "members_ok num kvs s" and "distinct (map fst kvs)"
  shows "value_ok num (JObject (map (map_prod Some id) kvs)) (LBRACE # s @ [RBRACE])"
  unfolding value_ok_def
proof (intro allI impI)
  fix n w r assume w: "spaces_text w" and n: "2 * length (w @ (LBRACE # s @ [RBRACE]) @ r) + 2 \<le> n"
  then obtain m where m: "n = Suc m" "2 * length (s @ RBRACE # r) + 3 \<le> m" by (cases n) auto
  have "distinct (map fst ([] :: (codes option \<times> 'a json) list) @ map (Some \<circ> fst) kvs)"
    using assms(2) by (auto simp: distinct_map inj_on_def)
  then have "object_loop num m [] None True True False (s @ RBRACE # r) = Inr (Some (Some (JObject ([] @ map (map_prod Some id) kvs)), r))"
    using assms(1) m(2) unfolding members_ok_def by blast
  then show "parse num n (w @ (LBRACE # s @ [RBRACE]) @ r) = Inr (Some (Some (JObject (map (map_prod Some id) kvs)), r))"
    using w m(1) by (simp add: skip_ws_spaces Let_def)
qed

lemma empty_values_ok:
  assumes "spaces_text w"
  shows "value_ok num (JArray []) (LBRACKET # w @ [RBRACKET])" and "value_ok num (JObject []) (LBRACE # w @ [RBRACE])"
proof -
  have a: "array_loop num n [] 0 False (w @ RBRACKET # r) = Inr (Some (Some (JArray []), r))" if "0 < n" for n r
    using gr0_implies_Suc [OF that] array_loop_close [OF assms] by metis
  have b: "object_loop num n [] None True True False (w @ RBRACE # r) = Inr (Some (Some (JObject []), r))" if "0 < n" for n r
    using gr0_implies_Suc [OF that] object_loop_close [OF assms] by metis
  show "value_ok num (JArray []) (LBRACKET # w @ [RBRACKET])" "value_ok num (JObject []) (LBRACE # w @ [RBRACE])"
    unfolding value_ok_def
  proof -
    have m: "\<exists>m. n = Suc m \<and> 0 < m" if "2 * length (u @ (c # w @ [d]) @ r) + 2 \<le> n" for u c d r n
      using that by (intro exI [of _ "n - 1"]) auto
    show "\<forall>n u r. spaces_text u \<longrightarrow> stops r \<longrightarrow> 2 * length (u @ (LBRACKET # w @ [RBRACKET]) @ r) + 2 \<le> n
        \<longrightarrow> parse num n (u @ (LBRACKET # w @ [RBRACKET]) @ r) = Inr (Some (Some (JArray []), r))"
      by (intro allI impI, drule m) (auto simp: skip_ws_spaces Let_def a simp del: array_loop.simps)
    show "\<forall>n u r. spaces_text u \<longrightarrow> stops r \<longrightarrow> 2 * length (u @ (LBRACE # w @ [RBRACE]) @ r) + 2 \<le> n
        \<longrightarrow> parse num n (u @ (LBRACE # w @ [RBRACE]) @ r) = Inr (Some (Some (JObject []), r))"
      by (intro allI impI, drule m) (auto simp: skip_ws_spaces Let_def b simp del: object_loop.simps)
  qed
qed

lemma value_okD:
  "value_ok num v s \<Longrightarrow> spaces_text w \<Longrightarrow> stops r \<Longrightarrow> 2 * length (w @ s @ r) + 2 \<le> n \<Longrightarrow> parse num n (w @ s @ r) = Inr (Some (Some v, r))"
  unfolding value_ok_def by blast

lemma elements_okD:
  "elements_ok num vs s \<Longrightarrow> 2 * length (s @ RBRACKET # r) + 3 \<le> n
    \<Longrightarrow> array_loop num n xs (length xs) nd (s @ RBRACKET # r) = Inr (Some (Some (JArray (xs @ map Some vs)), r))"
  unfolding elements_ok_def by blast

lemma members_okD:
  "members_ok num kvs s \<Longrightarrow> 2 * length (s @ RBRACE # r) + 3 \<le> n \<Longrightarrow> distinct (map fst os @ map (Some \<circ> fst) kvs)
    \<Longrightarrow> object_loop num n os name b True False (s @ RBRACE # r) = Inr (Some (Some (JObject (os @ map (map_prod Some id) kvs)), r))"
  unfolding members_ok_def by blast

lemma element_parsed:
  assumes "spaces_text w" and "value_text num v s" and "value_ok num v s" and "stops r" and "2 * length (w @ s @ r) + 3 \<le> Suc n"
  shows "array_loop num (Suc n) xs (length xs) nd (w @ s @ r) = array_loop num n (xs @ [Some v]) (length xs) False r"
proof -
  have "2 * length ([] @ s @ r) + 2 \<le> n" "spaces_text []" using assms(5) by (simp_all add: spaces_text_def)
  then have "parse num n ([] @ s @ r) = Inr (Some (Some v, r))" using assms(3,4) unfolding value_ok_def by blast
  then show ?thesis using array_loop_value [OF assms(1,2)] by simp
qed

lemma last_element_ok:
  assumes "spaces_text w" and "value_text num v s" and "value_ok num v s" and "spaces_text w'"
  shows "elements_ok num [v] (w @ s @ w')"
  unfolding elements_ok_def
proof (intro allI impI)
  fix n xs nd r assume n: "2 * length ((w @ s @ w') @ RBRACKET # r) + 3 \<le> n"
  then obtain m where m: "n = Suc (Suc m)" by (metis add_leD2 numeral_3_eq_3 Suc_le_D Suc_le_mono)
  have "array_loop num n xs (length xs) nd (w @ s @ w' @ RBRACKET # r) = array_loop num (Suc m) (xs @ [Some v]) (length xs) False (w' @ RBRACKET # r)"
    unfolding m using n m by (intro element_parsed assms stops_spaces stops_after) simp
  then show "array_loop num n xs (length xs) nd ((w @ s @ w') @ RBRACKET # r) = Inr (Some (Some (JArray (xs @ map Some [v])), r))"
    using array_loop_close [OF assms(4), of num m] by simp
qed

lemma next_element_ok:
  assumes "spaces_text w" and "value_text num v s" and "value_ok num v s" and "spaces_text w'" and "elements_ok num vs t"
  shows "elements_ok num (v # vs) (w @ s @ w' @ COMMA # t)"
  unfolding elements_ok_def
proof (intro allI impI)
  fix n xs nd r assume n: "2 * length ((w @ s @ w' @ COMMA # t) @ RBRACKET # r) + 3 \<le> n"
  then obtain m where m: "n = Suc (Suc m)" by (metis add_leD2 numeral_3_eq_3 Suc_le_D Suc_le_mono)
  let ?r = "t @ RBRACKET # r"
  have "array_loop num n xs (length xs) nd (w @ s @ w' @ COMMA # ?r) = array_loop num (Suc m) (xs @ [Some v]) (length xs) False (w' @ COMMA # ?r)"
    unfolding m using n m by (intro element_parsed assms stops_spaces stops_after) simp
  also have "\<dots> = array_loop num m (xs @ [Some v]) (length (xs @ [Some v])) True ?r"
    using array_loop_comma [OF assms(4), of num m] by simp
  also have "\<dots> = Inr (Some (Some (JArray ((xs @ [Some v]) @ map Some vs)), r))"
    by (rule elements_okD [OF assms(5)]) (use n m in simp)
  finally show "array_loop num n xs (length xs) nd ((w @ s @ w' @ COMMA # t) @ RBRACKET # r) = Inr (Some (Some (JArray (xs @ map Some (v # vs))), r))"
    by simp
qed

lemma member_parsed:
  assumes "spaces_text w1" and "string_text k ks" and "spaces_text w2" and "spaces_text w3" and "value_ok num v s" and "stops r"
    and "2 * length (w1 @ QUOTE # ks @ QUOTE # w2 @ COLON # w3 @ s @ r) + 3 \<le> Suc (Suc n)" and "Some k \<notin> fst ` set os"
  shows "object_loop num (Suc (Suc n)) os name b True False (w1 @ QUOTE # ks @ QUOTE # w2 @ COLON # w3 @ s @ r)
    = object_loop num n (os @ [(Some k, v)]) (Some k) False False False r"
  using assms(7) by (intro object_loop_member assms value_okD [OF assms(5)]) simp

lemma last_member_ok:
  assumes "spaces_text w1" and "string_text k ks" and "spaces_text w2" and "spaces_text w3" and "value_ok num v s" and "spaces_text w4"
  shows "members_ok num [(k, v)] (w1 @ QUOTE # ks @ QUOTE # w2 @ COLON # w3 @ s @ w4)"
  unfolding members_ok_def
proof (intro allI impI)
  fix n name b r and os :: "(codes option \<times> 'a json) list"
  assume n: "2 * length ((w1 @ QUOTE # ks @ QUOTE # w2 @ COLON # w3 @ s @ w4) @ RBRACE # r) + 3 \<le> n"
    and d: "distinct (map fst os @ map (Some \<circ> fst) [(k, v)])"
  obtain m where m: "n = Suc (Suc (Suc m))" using n by (intro that [of "n - 3"]) simp
  have "object_loop num n os name b True False (w1 @ QUOTE # ks @ QUOTE # w2 @ COLON # w3 @ s @ w4 @ RBRACE # r)
      = object_loop num (Suc m) (os @ [(Some k, v)]) (Some k) False False False (w4 @ RBRACE # r)"
    unfolding m using n m d by (intro member_parsed assms stops_spaces stops_after) auto
  then show "object_loop num n os name b True False ((w1 @ QUOTE # ks @ QUOTE # w2 @ COLON # w3 @ s @ w4) @ RBRACE # r)
      = Inr (Some (Some (JObject (os @ map (map_prod Some id) [(k, v)])), r))"
    using object_loop_close [OF assms(6), of False False False num m] by simp
qed

lemma next_member_ok:
  assumes "spaces_text w1" and "string_text k ks" and "spaces_text w2" and "spaces_text w3" and "value_ok num v s" and "spaces_text w4"
    and "members_ok num kvs t"
  shows "members_ok num ((k, v) # kvs) (w1 @ QUOTE # ks @ QUOTE # w2 @ COLON # w3 @ s @ w4 @ COMMA # t)"
  unfolding members_ok_def
proof (intro allI impI)
  fix n name b r and os :: "(codes option \<times> 'a json) list"
  assume n: "2 * length ((w1 @ QUOTE # ks @ QUOTE # w2 @ COLON # w3 @ s @ w4 @ COMMA # t) @ RBRACE # r) + 3 \<le> n"
    and d: "distinct (map fst os @ map (Some \<circ> fst) ((k, v) # kvs))"
  obtain m where m: "n = Suc (Suc (Suc m))" using n by (intro that [of "n - 3"]) simp
  let ?r = "t @ RBRACE # r"
  have "object_loop num n os name b True False (w1 @ QUOTE # ks @ QUOTE # w2 @ COLON # w3 @ s @ w4 @ COMMA # ?r)
      = object_loop num (Suc m) (os @ [(Some k, v)]) (Some k) False False False (w4 @ COMMA # ?r)"
    unfolding m using n m d by (intro member_parsed assms stops_spaces stops_after) auto
  also have "\<dots> = object_loop num m (os @ [(Some k, v)]) (Some []) False True False ?r"
    using object_loop_comma [OF assms(6)] by blast
  also have "\<dots> = Inr (Some (Some (JObject ((os @ [(Some k, v)]) @ map (map_prod Some id) kvs)), r))"
    by (rule members_okD [OF assms(7)]) (use n m d in auto)
  finally show "object_loop num n os name b True False ((w1 @ QUOTE # ks @ QUOTE # w2 @ COLON # w3 @ s @ w4 @ COMMA # t) @ RBRACE # r)
      = Inr (Some (Some (JObject (os @ map (map_prod Some id) ((k, v) # kvs))), r))"
    by simp
qed

lemma text_parsed:
  "value_text num v s \<Longrightarrow> value_ok num v s" "elements_text num vs es \<Longrightarrow> elements_ok num vs es" "members_text num kvs ms \<Longrightarrow> members_ok num kvs ms"
proof (induction rule: value_text_elements_text_members_text.inducts)
  case null_value show ?case by (rule plain_value_ok) (simp_all add: digit_byte_def)
next
  case true_value show ?case by (rule plain_value_ok) (simp_all add: digit_byte_def)
next
  case false_value show ?case by (rule plain_value_ok) (simp_all add: digit_byte_def)
next
  case (number_value x ds)
  then show ?case using number_head [OF number_value] by (intro plain_value_ok parse_number_text) auto
next
  case (string_value t s)
  then show ?case using parse_string_value by (intro plain_value_ok) auto
qed (auto intro: array_value_ok object_value_ok empty_values_ok last_element_ok next_element_ok last_member_ok next_member_ok)

lemma text_understood:
  assumes "value_text num v s" and "spaces_text w" and "spaces_text w'" and "2 * length (w @ s @ w') + 2 \<le> n"
  shows "parseAll num n (w @ s @ w') = Inr (Accepted (Some v))"
proof -
  have "stops w'" using stops_spaces [OF assms(3) stops_after(5)] by simp
  then have "parse num n (w @ s @ w') = Inr (Some (Some v, w'))"
    using text_parsed(1) [OF assms(1)] assms(2,4) by (intro value_okD)
  moreover have "skip_ws w' = []" using skip_ws_spaces [OF assms(3), of "[]"] by (simp add: skip_ws_def)
  moreover have "w @ s @ w' \<noteq> []" using value_head [OF assms(1)] by simp
  ultimately show ?thesis by (simp add: parseAll_def Let_def)
qed

text \<open>C38: The texts of a grammar of JSON are understood: for a text of it, with spaces anywhere between its parts,
  \<open>JSON.parse\<close> returns the value that it means (arrays without holes, the members of objects in their order). The
  grammar (\<open>value_text\<close>) is that of JSON without two kinds of texts: those with an escape in hexadecimal digits of a
  control character (other than 0x0f), which the code refuses (\<open>control_escape_rejected\<close>), and those with an object
  in which a name occurs twice. An escaped surrogate pair means two characters in it, as in the code, and what a number means is a
  parameter. The text may have any length and any depth as far as the definitions go; the code recurses once for each level of
  nesting, and the stack that it has for this is not modelled.\<close>

theorem json_understood:
  assumes "value_text num v s" and "spaces_text w" and "spaces_text w'" and "2 * length (w @ s @ w') + 2 \<le> n"
  shows "parseAll num n (w @ s @ w') = Inr (Accepted (Some v))"
  using assms by (rule text_understood)


lemma json_understood_witness:
  "parseAll (\<lambda>ds. if ds = [0x37] then Some (7 :: nat) else None) 24 ([0x20] @ (LBRACKET # ([0x37] @ [0x20] @ COMMA # [0x6E, 0x75, 0x6C, 0x6C]) @ [RBRACKET]) @ [0x0A])
    = Inr (Accepted (Some (JArray (map Some [JNumber 7, JNull]))))"
proof (rule json_understood)
  let ?num = "\<lambda>ds. if ds = [0x37] then Some (7 :: nat) else None"
  have s: "spaces_text []" "spaces_text [0x20]" "spaces_text [0x0A]" by (simp_all add: spaces_text_def is_ws_def)
  have "value_text ?num (JNumber 7) [0x37]" by (rule number_value) (simp add: number_text_def number_char_def digit_byte_def)
  moreover have "elements_text ?num [JNull] [0x6E, 0x75, 0x6C, 0x6C]" using last_element [OF s(1) null_value s(1)] by simp
  ultimately have "elements_text ?num [JNumber 7, JNull] ([0x37] @ [0x20] @ COMMA # [0x6E, 0x75, 0x6C, 0x6C])"
    using next_element [OF s(1), of ?num] s(2) by fastforce
  then show "value_text ?num (JArray (map Some [JNumber 7, JNull])) (LBRACKET # ([0x37] @ [0x20] @ COMMA # [0x6E, 0x75, 0x6C, 0x6C]) @ [RBRACKET])"
    by (rule array_value)
  show "spaces_text [0x20]" "spaces_text [0x0A]" by (rule s)+
qed simp


section \<open>Texts outside the grammar\<close>

text \<open>Only the low byte of a character decides: the Turkish dotted I is taken for the digit zero.\<close>

lemma lookalike_digit: "num [0x30] = Some x \<Longrightarrow> parseAll num (Suc n) [0x130] = Inr (Accepted (Some (JNumber x)))"
  by (simp add: parseAll_def parse_plain_def parseNumber_def number_char_def digit_byte_def skip_ws_def is_ws_def Let_def)

text \<open>The empty text, an array without a comma, an array with nothing before the comma, a member with two values.\<close>

lemma empty_text_accepted: "parseAll num n [] = Inr (Accepted None)"
  by (simp add: parseAll_def)

lemma missing_comma_accepted:
  "parseAll num (Suc (Suc (Suc (Suc (Suc n))))) [LBRACKET, 0x6E, 0x75, 0x6C, 0x6C, 0x22, 0x22, RBRACKET] = Inr (Accepted (Some (JArray [Some (JString [])])))"
  by (simp add: parseAll_def parse_plain_def parseString_def parse_word_def digit_byte_def skip_ws_def is_ws_def Let_def put_def
      put_index_def)

lemma leading_comma_accepted:
  "parseAll num (Suc (Suc (Suc (Suc (Suc n))))) [LBRACKET, COMMA, 0x6E, 0x75, 0x6C, 0x6C, RBRACKET] = Inr (Accepted (Some (JArray [None, Some JNull])))"
  by (simp add: parseAll_def parse_plain_def parse_word_def digit_byte_def skip_ws_def is_ws_def Let_def put_def put_index_def)

lemma control_escape_rejected:
  "parseAll num (Suc (Suc (Suc (Suc (Suc n))))) [QUOTE, BACKSLASH, 0x75, 0x30, 0x30, 0x30, 0x31, QUOTE] = Inr Rejected"
  by (simp add: parseAll_def parse_plain_def parseString_def escape_def unicode_escape_def is_hex_def hex_digits_def parseIntDigit_def
      digit_byte_def skip_ws_def is_ws_def Let_def)

end
