(* ===== verification/JsonPrint.thy ===== *)
theory JsonPrint
  imports JsonParse "HOL-Library.Sublist"
begin

text \<open>
  \<open>JSON.stringify\<close> without a function as replacer: \<open>JSON::_stringify\<close>, \<open>ASObject::toJSON\<close> for plain objects and primitive
  values, \<open>Array::toJSON\<close> and \<open>tiny_string::toQuotedString\<close>. Objects live in a heap, so that they may be shared and form cycles.
  No object has a function named \<open>toJSON\<close>, and indentations consist of ASCII characters.

  Objects are arrays and plain objects (of the class \<open>Object\<close>) with dynamic properties and without getters. \<open>ASObject::toJSON\<close> also
  goes through the borrowed variables of the class; those of \<open>Object\<close> are all in the AS3 namespace, whose members are not written, and
  this second loop is left out. The lengths of texts and of indentations (which double on every level) are not bounded.

  Parameters are the heap, the identifiers of strings that determine the order of properties, and the texts
  that \<open>toString\<close> makes of numbers.
\<close>

section \<open>The code\<close>

datatype 'n as_value = Undef | NullV | BoolV bool | NumV 'n | StrV codes | ObjV nat

text \<open>The dynamic properties of an object, the elements of an array (\<open>None\<close> for the invalid atom of a hole).\<close>

datatype 'n as_object = Plain "(codes \<times> 'n as_value) list" | ArrayOf "'n as_value option list"

record 'n printer =
  heap :: "nat \<Rightarrow> 'n as_object option"
  string_id :: "codes \<Rightarrow> nat"
  shown :: "'n \<Rightarrow> codes"
  only :: codes

definition hex_char :: "u32 \<Rightarrow> u32" where "hex_char d = (if d < 10 then 0x30 + d else 0x57 + d)"

text \<open>\<open>sprintf(hexstr, "\u%04x", *it)\<close> into seven bytes.\<close>

definition hex_escape :: "u32 \<Rightarrow> codes res" where
  "hex_escape c =
     (if c < 0x10000 then Inr (BACKSLASH # 0x75 # map hex_char [c div 4096, c div 256 mod 16, c div 16 mod 16, c mod 16])
      else Inl OutOfBounds)"

definition quote_char :: "u32 \<Rightarrow> codes res" where
  "quote_char c =
     (if c = 0x08 then Inr [BACKSLASH, 0x62]
      else if c = 0x0C then Inr [BACKSLASH, 0x66]
      else if c = 0x0A then Inr [BACKSLASH, 0x6E]
      else if c = 0x0D then Inr [BACKSLASH, 0x72]
      else if c = 0x09 then Inr [BACKSLASH, 0x74]
      else if c = QUOTE then Inr [BACKSLASH, QUOTE]
      else if c = BACKSLASH then Inr [BACKSLASH, BACKSLASH]
      else if c < 0x20 \<or> 0xff < c then hex_escape c
      else Inr [c])"

fun quote_loop :: "codes \<Rightarrow> codes \<Rightarrow> codes res" where
  "quote_loop res [] = Inr (res @ [QUOTE])"
| "quote_loop res (c # s) = bindE (quote_char c) (\<lambda>t. quote_loop (res @ t) s)"

definition toQuotedString :: "codes \<Rightarrow> codes res" where "toQuotedString s = quote_loop [QUOTE] s"

abbreviation null_text :: codes where "null_text \<equiv> [0x6E, 0x75, 0x6C, 0x6C]"

definition bool_text :: "bool \<Rightarrow> codes" where
  "bool_text b = (if b then [0x74, 0x72, 0x75, 0x65] else [0x66, 0x61, 0x6C, 0x73, 0x65])"

abbreviation infinity_text :: codes where "infinity_text \<equiv> [0x49, 0x6E, 0x66, 0x69, 0x6E, 0x69, 0x74, 0x79]"

definition number_json :: "codes \<Rightarrow> codes" where
  "number_json s = (if s = infinity_text \<or> s = 0x2D # infinity_text \<or> s = [0x4E, 0x61, 0x4E] then null_text else s)"

definition newline :: "codes \<Rightarrow> codes" where "newline spaces = (if spaces = [] then [] else [0x0A])"

definition half :: "codes \<Rightarrow> codes" where "half spaces = take (length spaces div 2) spaces"

definition piece_start :: "bool \<Rightarrow> codes \<Rightarrow> codes" where
  "piece_start bfirst spaces = (if bfirst then [] else [COMMA]) @ newline spaces @ spaces"

definition piece_end :: "bool \<Rightarrow> codes \<Rightarrow> codes" where
  "piece_end bfirst spaces = (if bfirst then [] else newline spaces @ half spaces)"

text \<open>\<open>filter.find(" " + name + " ") != npos\<close>, unless there is no filter.\<close>

fun occurs :: "codes \<Rightarrow> codes \<Rightarrow> bool" where
  "occurs w [] \<longleftrightarrow> w = []"
| "occurs w (c # s) \<longleftrightarrow> take (length w) (c # s) = w \<or> occurs w s"

definition selected :: "'n printer \<Rightarrow> codes \<Rightarrow> bool" where
  "selected P k \<longleftrightarrow> only P = [] \<or> occurs (0x20 # k @ [0x20]) (only P)"

text \<open>The result is the text, the objects on the path, and whether a \<open>TypeError\<close> has been raised, after which the code goes on.\<close>

definition cyclic :: "'n as_value \<Rightarrow> nat list \<Rightarrow> bool" where
  "cyclic v path \<longleftrightarrow> (case v of ObjV a \<Rightarrow> a \<in> set path | _ \<Rightarrow> False)"

type_synonym 'n to_json_call = "codes \<Rightarrow> 'n as_value \<Rightarrow> nat list \<Rightarrow> bool \<Rightarrow> (codes \<times> nat list \<times> bool) res"

text \<open>The loops over properties and elements, with the recursive call of \<open>toJSON\<close> as an argument.\<close>

fun members_loop :: "'n printer \<Rightarrow> 'n to_json_call \<Rightarrow> codes \<Rightarrow> (codes \<times> 'n as_value) list \<Rightarrow> bool \<Rightarrow> codes \<Rightarrow> nat list \<Rightarrow> bool
    \<Rightarrow> (codes \<times> nat list \<times> bool) res" where
  "members_loop P toJSON spaces [] bfirst res path err = Inr (res @ [RBRACE], butlast path, err)"
| "members_loop P toJSON spaces ((k, v) # kvs) bfirst res path err =
     (if v = Undef then members_loop P toJSON spaces kvs bfirst (res @ piece_end bfirst spaces) path err
      else if cyclic v path then Inr (res, path, True)
      else if selected P k then
        bindE (toJSON (spaces @ spaces) v path err) (\<lambda>(t, path, err).
          members_loop P toJSON spaces kvs False
            (res @ piece_start bfirst spaces @ QUOTE # k @ [QUOTE, COLON] @ (if spaces = [] then [] else [0x20]) @ t @ piece_end False spaces) path err)
      else members_loop P toJSON spaces kvs bfirst (res @ piece_end bfirst spaces) path err)"

fun elements_loop :: "'n to_json_call \<Rightarrow> codes \<Rightarrow> 'n as_value option list \<Rightarrow> bool \<Rightarrow> codes \<Rightarrow> nat list \<Rightarrow> bool
    \<Rightarrow> (codes \<times> nat list \<times> bool) res" where
  "elements_loop toJSON spaces [] bfirst res path err = Inr (res @ piece_end bfirst spaces @ [RBRACKET], butlast path, err)"
| "elements_loop toJSON spaces (v # vs) bfirst res path err =
     bindE (toJSON spaces (case v of None \<Rightarrow> NullV | Some v \<Rightarrow> v) path err) (\<lambda>(t, path, err).
       if t = [] then elements_loop toJSON spaces vs bfirst res path err
       else elements_loop toJSON spaces vs False (res @ piece_start bfirst spaces @ t) path err)"

primrec to_json :: "'n printer \<Rightarrow> nat \<Rightarrow> 'n to_json_call" where
  "to_json P 0 = (\<lambda>spaces v path err. Inl OutOfFuel)"
| "to_json P (Suc n) = (\<lambda>spaces v path err.
     case v of
       Undef \<Rightarrow> Inr (null_text, path, err)
     | NullV \<Rightarrow> Inr (null_text, path, err)
     | BoolV b \<Rightarrow> Inr (bool_text b, path, err)
     | NumV x \<Rightarrow> Inr (number_json (shown P x), path, err)
     | StrV s \<Rightarrow> bindE (toQuotedString s) (\<lambda>t. Inr (t, path, err))
     | ObjV a \<Rightarrow> (case heap P a of
         None \<Rightarrow> Inl NullDeref
       | Some (Plain kvs) \<Rightarrow> members_loop P (to_json P n) spaces (sort_key (string_id P \<circ> fst) kvs) True [LBRACE] (path @ [a]) err
       | Some (ArrayOf vs) \<Rightarrow>
           if a \<in> set path then Inr ([], path, True)
           else elements_loop (to_json P n) spaces vs True [LBRACKET] (path @ [a]) err))"

text \<open>The arguments of \<open>JSON.stringify\<close>.\<close>

datatype replacer = NoReplacer | Names "codes list" | OtherReplacer

definition filter_text :: "codes list \<Rightarrow> codes" where "filter_text names = 0x20 # concat (map (\<lambda>k. k @ [0x20]) names)"

datatype space_arg = NoSpace | SpaceNumber int | SpaceBool | SpaceString codes

definition space_text :: "space_arg \<Rightarrow> codes" where
  "space_text a = (case a of
       NoSpace \<Rightarrow> []
     | SpaceNumber v \<Rightarrow> replicate (nat (min (max v 0) 10)) 0x20
     | SpaceBool \<Rightarrow> []
     | SpaceString s \<Rightarrow> take 10 s)"

definition value_json :: "'n printer \<Rightarrow> nat \<Rightarrow> codes \<Rightarrow> 'n as_value \<Rightarrow> (codes \<times> bool) res" where
  "value_json P n spaces v =
     (case v of
        ObjV a \<Rightarrow> bindE (to_json P n spaces v [] False) (\<lambda>(t, path, err). Inr (t, err))
      | Undef \<Rightarrow> Inr (null_text, False)
      | StrV s \<Rightarrow> bindE (toQuotedString s) (\<lambda>t. Inr (t, False))
      | NullV \<Rightarrow> Inr (null_text, False)
      | BoolV b \<Rightarrow> Inr (bool_text b, False)
      | NumV x \<Rightarrow> Inr (shown P x, False))"

definition stringify :: "'n printer \<Rightarrow> nat \<Rightarrow> replacer \<Rightarrow> space_arg \<Rightarrow> 'n as_value \<Rightarrow> (codes \<times> bool) res" where
  "stringify P n r a v = (case r of
       NoReplacer \<Rightarrow> value_json (P\<lparr>only := []\<rparr>) n (space_text a) v
     | Names names \<Rightarrow> value_json (P\<lparr>only := filter_text names\<rparr>) n (space_text a) v
     | OtherReplacer \<Rightarrow> Inr ([], True))"

end
