(* ===== verification/JsonRoundtrip.thy ===== *)
theory JsonRoundtrip
  imports JsonGrammar JsonPrint
begin

text \<open>
  What \<open>JSON.stringify\<close> writes for objects without cycles is a JSON text, which \<open>JSON.parse\<close> reads back; and it always returns, with
  an error exactly if the objects form a cycle.
\<close>

section \<open>Strings\<close>

text \<open>Characters that come back: those above \<open>0xffff\<close> overflow a buffer, and the parser refuses the escapes of most
  control characters. The names of properties are written as they are.\<close>

definition quotable :: "u32 \<Rightarrow> bool" where
  "quotable c \<longleftrightarrow> c < 0x10000 \<and> (0x20 \<le> c \<or> c \<in> {0x08, 0x09, 0x0A, 0x0C, 0x0D, 0x0F})"

definition name_char :: "u32 \<Rightarrow> bool" where "name_char c \<longleftrightarrow> 0x20 \<le> c \<and> c \<noteq> QUOTE \<and> c \<noteq> BACKSLASH"

lemma hex_char_ok:
  assumes "d < 16"
  shows "is_hex (hex_char d)" and "parseIntDigit (hex_char d) = uint d"
proof -
  have "uint d < 16" "0 \<le> uint d" using assms by (simp_all add: word_less_def)
  moreover have "k \<in> {0, 1, 2, 3, 4, 5, 6, 7, 8, 9, 10, 11, 12, 13, 14, 15}" if "0 \<le> k" "k < 16" for k :: int
    using that by simp arith
  ultimately have "uint d \<in> {0, 1, 2, 3, 4, 5, 6, 7, 8, 9, 10, 11, 12, 13, 14, 15}" by blast
  then obtain k :: int where "d = word_of_int k" "k \<in> {0, 1, 2, 3, 4, 5, 6, 7, 8, 9, 10, 11, 12, 13, 14, 15}"
    by (metis word_of_int_uint)
  then show "is_hex (hex_char d)" "parseIntDigit (hex_char d) = uint d"
    by (elim insertE emptyE; simp add: hex_char_def is_hex_def parseIntDigit_def)+
qed

lemma uint_below: "(c :: u32) < 0x10000 \<Longrightarrow> uint c < 65536"
  by (simp add: word_less_def)

lemma hex_digits_four:
  assumes "a < 16" and "b < 16" and "c < 16" and "d < 16"
  shows "list_all is_hex (map hex_char [a, b, c, d])"
    and "hex_digits (map hex_char [a, b, c, d]) = ((uint a * 16 + uint b) * 16 + uint c) * 16 + uint d"
  using assms hex_char_ok by (simp_all add: hex_digits_def)

lemma four_digits: "((x div 4096 * 16 + x div 256 mod 16) * 16 + x div 16 mod 16) * 16 + x mod 16 = (x :: int)"
proof -
  have "x div 4096 * 16 + x div 256 mod 16 = x div 256" "x div 256 * 16 + x div 16 mod 16 = x div 16"
    using div_mult_mod_eq [of "x div 256" 16] div_mult_mod_eq [of "x div 16" 16] by (simp_all add: zdiv_zmult2_eq [symmetric])
  then show ?thesis by simp
qed

lemma hex_escape_ok:
  assumes "c < 0x10000"
  shows "\<exists>ds. hex_escape c = Inr (BACKSLASH # 0x75 # ds) \<and> length ds = 4 \<and> list_all is_hex ds \<and> hex_digits ds = uint c"
proof -
  let ?ds = "[c div 4096, c div 256 mod 16, c div 16 mod 16, c mod 16]"
  have u: "uint (c div 4096) = uint c div 4096" "uint (c div 256 mod 16) = uint c div 256 mod 16"
    "uint (c div 16 mod 16) = uint c div 16 mod 16" "uint (c mod 16) = uint c mod 16"
    by (simp_all only: uint_div uint_mod) simp_all
  have "uint c div 4096 < 16" using uint_below [OF assms] by (simp add: div_less_iff_less_mult)
  then have b: "c div 4096 < 16" "c div 256 mod 16 < 16" "c div 16 mod 16 < 16" "c mod 16 < 16"
    unfolding word_less_def u by simp_all
  have "hex_digits (map hex_char ?ds) = uint c" using hex_digits_four(2) [OF b] unfolding u four_digits .
  moreover have "hex_escape c = Inr (BACKSLASH # 0x75 # map hex_char ?ds)" using assms unfolding hex_escape_def by (rule if_P)
  ultimately show ?thesis using hex_digits_four(1) [OF b] by (intro exI [of _ "map hex_char ?ds"]) (simp only: length_map list.size, simp)
qed

lemma quote_char_ok:
  assumes "quotable c" and "string_text t s"
  shows "\<exists>q. quote_char c = Inr q \<and> string_text (c # t) (q @ s)"
proof (cases "c \<in> {0x08, 0x0C, 0x0A, 0x0D, 0x09, QUOTE, BACKSLASH}")
  case True
  then show ?thesis using escaped [OF _ assms(2)] by (auto simp: quote_char_def)
next
  case False
  show ?thesis
  proof (cases "c < 0x20 \<or> 0xff < c")
    case True
    obtain ds where ds: "hex_escape c = Inr (BACKSLASH # 0x75 # ds)" "length ds = 4" "list_all is_hex ds" "hex_digits ds = uint c"
      using hex_escape_ok assms(1) by (auto simp: quotable_def)
    have "0x20 \<le> hex_digits ds \<or> hex_digits ds = 0xf"
      using assms(1) False ds(4) by (auto simp: quotable_def word_le_def)
    then have "string_text (word_of_int (hex_digits ds) # t) (BACKSLASH # 0x75 # ds @ s)" using ds assms(2) by (intro unicode)
    then show ?thesis using ds False True by (simp add: quote_char_def)
  next
    case False
    then show ?thesis using plain [OF _ _ _ assms(2)] \<open>c \<notin> _\<close> by (auto simp: quote_char_def not_less)
  qed
qed

lemma quote_loop_ok: "list_all quotable t \<Longrightarrow> \<exists>q. quote_loop res t = Inr (res @ q @ [QUOTE]) \<and> string_text t q"
proof (induction t arbitrary: res)
  case (Cons c t)
  have c: "quotable c" and t: "list_all quotable t" using Cons.prems by simp_all
  obtain d where d: "quote_char c = Inr d" using quote_char_ok [OF c no_character] by blast
  obtain q where q: "quote_loop (res @ d) t = Inr ((res @ d) @ q @ [QUOTE])" "string_text t q" using Cons.IH [OF t] by blast
  then have "string_text (c # t) (d @ q)" using quote_char_ok [OF c q(2)] d by auto
  then show ?case using d q(1) by auto
qed (simp add: no_character)

lemma toQuotedString_ok: "list_all quotable t \<Longrightarrow> \<exists>q. toQuotedString t = Inr (QUOTE # q @ [QUOTE]) \<and> string_text t q"
  using quote_loop_ok [of t "[QUOTE]"] by (simp add: toQuotedString_def)

lemma name_text: "list_all name_char k \<Longrightarrow> string_text k k"
  by (induction k) (auto simp: name_char_def intro: no_character plain)


section \<open>The tree of an object\<close>

text \<open>The value of which \<open>stringify\<close> writes the text, for a heap \<open>P\<close>: properties in the order of their identifiers, those that are
  undefined left out; null for undefined elements, holes and numbers that are not finite.\<close>

definition number_tree :: "'n printer \<Rightarrow> 'n \<Rightarrow> 'n json" where
  "number_tree P x = (if number_json (shown P x) = shown P x then JNumber x else JNull)"

inductive shape :: "'n printer \<Rightarrow> 'n as_value \<Rightarrow> 'n json \<Rightarrow> bool"
  and members_shape :: "'n printer \<Rightarrow> (codes \<times> 'n as_value) list \<Rightarrow> (codes \<times> 'n json) list \<Rightarrow> bool"
  and elements_shape :: "'n printer \<Rightarrow> 'n as_value option list \<Rightarrow> 'n json list \<Rightarrow> bool"
  for P :: "'n printer" where
  undef_shape: "shape P Undef JNull"
| null_shape: "shape P NullV JNull"
| bool_shape: "shape P (BoolV b) (JBool b)"
| number_shape: "shape P (NumV x) (number_tree P x)"
| string_shape: "shape P (StrV s) (JString s)"
| plain_shape: "heap P a = Some (Plain kvs) \<Longrightarrow> members_shape P (sort_key (string_id P \<circ> fst) kvs) kts
    \<Longrightarrow> shape P (ObjV a) (JObject (map (map_prod Some id) kts))"
| array_shape: "heap P a = Some (ArrayOf vs) \<Longrightarrow> elements_shape P vs ts \<Longrightarrow> shape P (ObjV a) (JArray (map Some ts))"
| no_member: "members_shape P [] []"
| undef_member: "members_shape P kvs kts \<Longrightarrow> members_shape P ((k, Undef) # kvs) kts"
| member: "v \<noteq> Undef \<Longrightarrow> shape P v t \<Longrightarrow> members_shape P kvs kts \<Longrightarrow> members_shape P ((k, v) # kvs) ((k, t) # kts)"
| no_element: "elements_shape P [] []"
| element: "shape P (case v of None \<Rightarrow> NullV | Some v \<Rightarrow> v) t \<Longrightarrow> elements_shape P vs ts \<Longrightarrow> elements_shape P (v # vs) (t # ts)"

inductive_cases shape_cases: "shape P Undef t" "shape P NullV t" "shape P (BoolV b) t" "shape P (NumV x) t" "shape P (StrV s) t" "shape P (ObjV a) t"
inductive_cases members_cases: "members_shape P [] kts" "members_shape P ((k, v) # kvs) kts"
inductive_cases elements_cases: "elements_shape P [] ts" "elements_shape P (v # vs) ts"

lemma shape_unique:
  "shape P v t \<Longrightarrow> shape P v t' \<Longrightarrow> t = t'"
  "members_shape P kvs kts \<Longrightarrow> members_shape P kvs kts' \<Longrightarrow> kts = kts'"
  "elements_shape P vs ts \<Longrightarrow> elements_shape P vs ts' \<Longrightarrow> ts = ts'"
proof (induction arbitrary: t' and kts' and ts' rule: shape_members_shape_elements_shape.inducts)
  case (plain_shape a kvs kts)
  from plain_shape(4) show ?case by (elim shape_cases) (use plain_shape(1) in \<open>auto dest!: plain_shape(3)\<close>)
next
  case (array_shape a vs ts)
  from array_shape(4) show ?case by (elim shape_cases) (use array_shape(1) in \<open>auto dest!: array_shape(3)\<close>)
next
  case (member v t kvs kts k)
  from member(6) show ?case by (elim members_cases) (use member(1) in \<open>auto dest!: member(3,5)\<close>)
next
  case (element v t vs ts)
  from element(5) show ?case by (elim elements_cases) (auto dest!: element(2,4))
next
  case (undef_member kvs kts k)
  from undef_member(3) show ?case by (elim members_cases) (auto dest!: undef_member(2))
qed (erule shape_cases members_cases elements_cases, simp)+

text \<open>The parts of a tree are smaller.\<close>

lemma member_smaller: "(k, t) \<in> set kts \<Longrightarrow> size t < size (JObject (map (map_prod Some id) kts))"
proof -
  assume "(k, t) \<in> set kts"
  then have "(Some k, t) \<in> set (map (map_prod Some id) kts)" by force
  from size_list_estimation' [OF this, of "size t" "size_prod (\<lambda>x. 0) size"] show ?thesis by simp
qed

lemma element_smaller: "t \<in> set ts \<Longrightarrow> size t < size (JArray (map Some ts))"
proof -
  assume "t \<in> set ts"
  then have "Some t \<in> set (map Some ts)" by simp
  from size_list_estimation' [OF this, of "size t" "size_option size"] show ?thesis by simp
qed


section \<open>Printing\<close>

definition quotable_value :: "'n as_value \<Rightarrow> bool" where
  "quotable_value v = (case v of StrV s \<Rightarrow> list_all quotable s | _ \<Rightarrow> True)"

text \<open>Strings that can be written and read back, and names that need no escapes.\<close>

definition quotable_object :: "'n as_object \<Rightarrow> bool" where
  "quotable_object x = (case x of
     Plain kvs \<Rightarrow> distinct (map fst kvs) \<and> (\<forall>(k, v) \<in> set kvs. list_all name_char k \<and> quotable_value v)
   | ArrayOf vs \<Rightarrow> \<forall>v. Some v \<in> set vs \<longrightarrow> quotable_value v)"

definition quotable_heap :: "'n printer \<Rightarrow> bool" where
  "quotable_heap P \<longleftrightarrow> (\<forall>a x. heap P a = Some x \<longrightarrow> quotable_object x)"

text \<open>What \<open>toString\<close> makes of a number is a number again.\<close>

definition numbers_read_back :: "(codes \<Rightarrow> 'n option) \<Rightarrow> 'n printer \<Rightarrow> bool" where
  "numbers_read_back num P \<longleftrightarrow> (\<forall>x. number_json (shown P x) = shown P x \<longrightarrow> number_text num x (shown P x))"

lemma spaces_text_append [simp]: "spaces_text (v @ w) \<longleftrightarrow> spaces_text v \<and> spaces_text w"
  by (simp add: spaces_text_def)

lemma spaces_text_pieces [simp]: "spaces_text []" "spaces_text [0x20]" "spaces_text w \<Longrightarrow> spaces_text (piece_end b w)" "spaces_text w \<Longrightarrow> spaces_text (newline w)"
  by (auto simp: spaces_text_def piece_end_def newline_def half_def is_ws_def list_all_iff dest: in_set_takeD)

text \<open>The text after the first members, and after the first elements.\<close>

definition more_members :: "(codes \<Rightarrow> 'n option) \<Rightarrow> (codes \<times> 'n json) list \<Rightarrow> codes \<Rightarrow> bool" where
  "more_members num kts s \<longleftrightarrow> (if kts = [] then spaces_text s else \<exists>w e. spaces_text w \<and> s = w @ COMMA # e \<and> members_text num kts e)"

definition more_elements :: "(codes \<Rightarrow> 'n option) \<Rightarrow> 'n json list \<Rightarrow> codes \<Rightarrow> bool" where
  "more_elements num ts s \<longleftrightarrow> (if ts = [] then spaces_text s else \<exists>e. s = COMMA # e \<and> elements_text num ts e)"

definition members_piece :: "(codes \<Rightarrow> 'n option) \<Rightarrow> bool \<Rightarrow> (codes \<times> 'n json) list \<Rightarrow> codes \<Rightarrow> bool" where
  "members_piece num bfirst kts s \<longleftrightarrow> (if bfirst then if kts = [] then s = [] else members_text num kts s else more_members num kts s)"

definition elements_piece :: "(codes \<Rightarrow> 'n option) \<Rightarrow> bool \<Rightarrow> 'n json list \<Rightarrow> codes \<Rightarrow> bool" where
  "elements_piece num bfirst ts s \<longleftrightarrow> (if bfirst then if ts = [] then s = [] else elements_text num ts s else more_elements num ts s)"

lemma member_then_more:
  assumes "spaces_text w1" and "list_all name_char k" and "spaces_text w3" and "value_text num t s" and "spaces_text w4" and "more_members num kts r"
  shows "members_text num ((k, t) # kts) (w1 @ QUOTE # k @ [QUOTE, COLON] @ w3 @ s @ w4 @ r)"
proof (cases "kts = []")
  case True
  then have "spaces_text (w4 @ r)" using assms(5,6) by (simp add: more_members_def)
  from last_member [OF assms(1) name_text [OF assms(2)] spaces_text_pieces(1) assms(3,4) this] show ?thesis using True by simp
next
  case False
  then obtain w e where r: "spaces_text w" "r = w @ COMMA # e" "members_text num kts e" using assms(6) by (auto simp: more_members_def)
  then have "spaces_text (w4 @ w)" using assms(5) by simp
  from next_member [OF assms(1) name_text [OF assms(2)] spaces_text_pieces(1) assms(3,4) this r(3)] show ?thesis using r(2) by simp
qed

lemma more_membersI: "kts \<noteq> [] \<Longrightarrow> spaces_text w \<Longrightarrow> members_text num kts e \<Longrightarrow> more_members num kts (w @ COMMA # e)"
  unfolding more_members_def by auto

lemma member_piece:
  assumes "spaces_text spaces" and "list_all name_char k" and "value_text num t s" and "more_members num kts r"
  shows "members_piece num b ((k, t) # kts)
    (piece_start b spaces @ QUOTE # k @ [QUOTE, COLON] @ (if spaces = [] then [] else [0x20]) @ s @ piece_end False spaces @ r)"
proof -
  have "members_text num ((k, t) # kts)
      ((newline spaces @ spaces) @ QUOTE # k @ [QUOTE, COLON] @ (if spaces = [] then [] else [0x20]) @ s @ piece_end False spaces @ r)"
    using assms by (intro member_then_more) simp_all
  then show ?thesis using more_membersI [of "(k, t) # kts" "[]" num] by (cases b) (auto simp: members_piece_def piece_start_def)
qed

lemma undef_piece:
  assumes "spaces_text spaces" and "members_piece num b kts r"
  shows "members_piece num b kts (piece_end b spaces @ r)"
proof (cases b)
  case True
  then show ?thesis using assms(2) by (simp add: piece_end_def)
next
  case False
  have s: "spaces_text (piece_end False spaces)" using assms(1) by simp
  show ?thesis
  proof (cases "kts = []")
    case False
    then obtain w e where "spaces_text w" "r = w @ COMMA # e" "members_text num kts e"
      using assms(2) \<open>\<not> b\<close> by (auto simp: members_piece_def more_members_def)
    then show ?thesis using more_membersI [OF False, of "piece_end False spaces @ w" num e] \<open>\<not> b\<close> s by (simp add: members_piece_def)
  qed (use assms(2) False s in \<open>simp add: members_piece_def more_members_def\<close>)
qed

lemma element_piece:
  assumes "spaces_text spaces" and "value_text num t s" and "more_elements num ts r"
  shows "elements_piece num b (t # ts) (piece_start b spaces @ s @ r)"
proof -
  have w: "spaces_text (newline spaces @ spaces)" using assms(1) by simp
  have "elements_text num (t # ts) ((newline spaces @ spaces) @ s @ r)"
    using last_element [OF w assms(2), of r] next_element [OF w assms(2) spaces_text_pieces(1), of ts] assms(3)
    by (cases "ts = []") (auto simp: more_elements_def)
  then show ?thesis by (cases b) (auto simp: elements_piece_def more_elements_def piece_start_def)
qed

text \<open>An object on the path is larger than what is printed.\<close>

definition within :: "'n printer \<Rightarrow> nat list \<Rightarrow> 'n json \<Rightarrow> bool" where
  "within P path t \<longleftrightarrow> (\<forall>a \<in> set path. \<exists>t'. shape P (ObjV a) t' \<and> size t < size t')"

lemma within_not_cyclic: "within P path t \<Longrightarrow> shape P v t \<Longrightarrow> \<not> cyclic v path"
  by (cases v) (auto simp: within_def cyclic_def dest: shape_unique(1))

lemma within_part:
  assumes "within P path t" and "shape P (ObjV a) t" and "size u < size t"
  shows "within P (path @ [a]) u"
  using assms unfolding within_def by (fastforce dest: less_trans)

definition prints :: "(codes \<Rightarrow> 'n option) \<Rightarrow> 'n printer \<Rightarrow> 'n as_value \<Rightarrow> 'n json \<Rightarrow> bool" where
  "prints num P v t \<longleftrightarrow> (\<forall>n spaces path err. spaces_text spaces \<longrightarrow> quotable_value v \<longrightarrow> size t < n \<longrightarrow> within P path t
    \<longrightarrow> (\<exists>s. to_json P n spaces v path err = Inr (s, path, err) \<and> value_text num t s))"

definition prints_members :: "(codes \<Rightarrow> 'n option) \<Rightarrow> 'n printer \<Rightarrow> (codes \<times> 'n as_value) list \<Rightarrow> (codes \<times> 'n json) list \<Rightarrow> bool" where
  "prints_members num P kvs kts \<longleftrightarrow> (\<forall>n spaces b res path err. spaces_text spaces \<longrightarrow> (\<forall>(k, v) \<in> set kvs. list_all name_char k \<and> quotable_value v)
    \<longrightarrow> (\<forall>(k, t) \<in> set kts. size t < n \<and> within P path t)
    \<longrightarrow> (\<exists>s. members_loop P (to_json P n) spaces kvs b res path err = Inr (res @ s @ [RBRACE], butlast path, err) \<and> members_piece num b kts s))"

definition prints_elements :: "(codes \<Rightarrow> 'n option) \<Rightarrow> 'n printer \<Rightarrow> 'n as_value option list \<Rightarrow> 'n json list \<Rightarrow> bool" where
  "prints_elements num P vs ts \<longleftrightarrow> (\<forall>n spaces b res path err. spaces_text spaces \<longrightarrow> (\<forall>v. Some v \<in> set vs \<longrightarrow> quotable_value v)
    \<longrightarrow> (\<forall>t \<in> set ts. size t < n \<and> within P path t)
    \<longrightarrow> (\<exists>s. elements_loop (to_json P n) spaces vs b res path err = Inr (res @ s @ [RBRACKET], butlast path, err) \<and> elements_piece num b ts s))"

lemma prints_plain:
  assumes "quotable_heap P" and "heap P a = Some (Plain kvs)" and "members_shape P (sort_key (string_id P \<circ> fst) kvs) kts"
    and "prints_members num P (sort_key (string_id P \<circ> fst) kvs) kts" and "distinct (map fst kts)"
  shows "prints num P (ObjV a) (JObject (map (map_prod Some id) kts))"
  unfolding prints_def
proof (intro allI impI)
  fix n spaces path err
  let ?t = "JObject (map (map_prod Some id) kts)"
  assume sp: "spaces_text spaces" and n: "size ?t < n" and w: "within P path ?t"
  obtain m where m: "n = Suc m" "size ?t \<le> m" using n by (cases n) auto
  have sh: "shape P (ObjV a) ?t" using assms(2,3) by (rule plain_shape)
  have "\<forall>(k, t) \<in> set kts. size t < m \<and> within P (path @ [a]) t"
    using member_smaller [of _ _ kts] m(2) within_part [OF w sh] by fastforce
  moreover have "\<forall>(k, v) \<in> set (sort_key (string_id P \<circ> fst) kvs). list_all name_char k \<and> quotable_value v"
    using assms(1,2) by (auto simp: quotable_heap_def quotable_object_def dest!: spec [of _ a])
  ultimately obtain s where s: "members_loop P (to_json P m) spaces (sort_key (string_id P \<circ> fst) kvs) True [LBRACE] (path @ [a]) err
      = Inr ([LBRACE] @ s @ [RBRACE], butlast (path @ [a]), err)" "members_piece num True kts s"
    using assms(4) sp unfolding prints_members_def by blast
  have "value_text num ?t (LBRACE # s @ [RBRACE])"
    using s(2) object_value [OF _ assms(5)] empty_object [of "[]"] by (cases "kts = []") (auto simp: members_piece_def)
  then show "\<exists>s. to_json P n spaces (ObjV a) path err = Inr (s, path, err) \<and> value_text num ?t s"
    using s(1) m(1) assms(2) by simp
qed

lemma prints_array:
  assumes "quotable_heap P" and "heap P a = Some (ArrayOf vs)" and "elements_shape P vs ts" and "prints_elements num P vs ts"
  shows "prints num P (ObjV a) (JArray (map Some ts))"
  unfolding prints_def
proof (intro allI impI)
  fix n spaces path err
  let ?t = "JArray (map Some ts)"
  assume sp: "spaces_text spaces" and n: "size ?t < n" and w: "within P path ?t"
  obtain m where m: "n = Suc m" "size ?t \<le> m" using n by (cases n) auto
  have sh: "shape P (ObjV a) ?t" using assms(2,3) by (rule array_shape)
  have "\<forall>t \<in> set ts. size t < m \<and> within P (path @ [a]) t"
    using element_smaller [of _ ts] m(2) within_part [OF w sh] by fastforce
  moreover have "\<forall>v. Some v \<in> set vs \<longrightarrow> quotable_value v"
    using assms(1,2) by (auto simp: quotable_heap_def quotable_object_def dest!: spec [of _ a])
  ultimately obtain s where s: "elements_loop (to_json P m) spaces vs True [LBRACKET] (path @ [a]) err
      = Inr ([LBRACKET] @ s @ [RBRACKET], butlast (path @ [a]), err)" "elements_piece num True ts s"
    using assms(4) sp unfolding prints_elements_def by blast
  have "value_text num ?t (LBRACKET # s @ [RBRACKET])"
    using s(2) array_value [of num ts s] empty_array [of "[]" num] by (cases "ts = []") (auto simp: elements_piece_def)
  moreover have "a \<notin> set path" using within_not_cyclic [OF w sh] by (simp add: cyclic_def)
  ultimately show "\<exists>s. to_json P n spaces (ObjV a) path err = Inr (s, path, err) \<and> value_text num ?t s"
    using s(1) m(1) assms(2) by simp
qed

lemma prints_undef_member:
  assumes "prints_members num P kvs kts"
  shows "prints_members num P ((k, Undef) # kvs) kts"
  unfolding prints_members_def
proof (intro allI impI)
  fix n spaces b res path err
  assume sp: "spaces_text spaces" and q: "\<forall>(k, v) \<in> set ((k, Undef) # kvs). list_all name_char k \<and> quotable_value v"
    and t: "\<forall>(k, t) \<in> set kts. size t < n \<and> within P path t"
  have "\<forall>(k, v) \<in> set kvs. list_all name_char k \<and> quotable_value v" using q by auto
  then obtain s where "members_loop P (to_json P n) spaces kvs b (res @ piece_end b spaces) path err
      = Inr ((res @ piece_end b spaces) @ s @ [RBRACE], butlast path, err)" "members_piece num b kts s"
    using assms sp t unfolding prints_members_def by blast
  then show "\<exists>s. members_loop P (to_json P n) spaces ((k, Undef) # kvs) b res path err = Inr (res @ s @ [RBRACE], butlast path, err)
      \<and> members_piece num b kts s"
    using undef_piece [OF sp] by (intro exI [of _ "piece_end b spaces @ s"]) simp
qed

lemma prints_member:
  assumes "only P = []" and "v \<noteq> Undef" and "shape P v t" and "prints num P v t" and "prints_members num P kvs kts"
  shows "prints_members num P ((k, v) # kvs) ((k, t) # kts)"
  unfolding prints_members_def
proof (intro allI impI)
  fix n spaces b res path err
  assume sp: "spaces_text spaces" and q: "\<forall>(k, v) \<in> set ((k, v) # kvs). list_all name_char k \<and> quotable_value v"
    and t: "\<forall>(k, t) \<in> set ((k, t) # kts). size t < n \<and> within P path t"
  have "spaces_text (spaces @ spaces)" "quotable_value v" "size t < n" "within P path t" using sp q t by auto
  then obtain s where s: "to_json P n (spaces @ spaces) v path err = Inr (s, path, err)" "value_text num t s"
    using assms(4) unfolding prints_def by blast
  let ?piece = "piece_start b spaces @ QUOTE # k @ [QUOTE, COLON] @ (if spaces = [] then [] else [0x20]) @ s @ piece_end False spaces"
  have "\<forall>(k, v) \<in> set kvs. list_all name_char k \<and> quotable_value v" "\<forall>(k, t) \<in> set kts. size t < n \<and> within P path t" using q t by auto
  then obtain r where r: "members_loop P (to_json P n) spaces kvs False (res @ ?piece) path err = Inr ((res @ ?piece) @ r @ [RBRACE], butlast path, err)"
    "members_piece num False kts r"
    using assms(5) sp unfolding prints_members_def by blast
  have "members_piece num b ((k, t) # kts) (?piece @ r)"
    using member_piece [OF sp, of k num t s kts r b] q s(2) r(2) by (simp add: members_piece_def)
  moreover have "members_loop P (to_json P n) spaces ((k, v) # kvs) b res path err = Inr (res @ (?piece @ r) @ [RBRACE], butlast path, err)"
    using r(1) s(1) assms(1,2) within_not_cyclic [OF \<open>within P path t\<close> assms(3)] by (simp add: selected_def)
  ultimately show "\<exists>s. members_loop P (to_json P n) spaces ((k, v) # kvs) b res path err = Inr (res @ s @ [RBRACE], butlast path, err)
      \<and> members_piece num b ((k, t) # kts) s"
    by blast
qed

lemma prints_element:
  assumes "prints num P (case v of None \<Rightarrow> NullV | Some v \<Rightarrow> v) t" and "prints_elements num P vs ts"
  shows "prints_elements num P (v # vs) (t # ts)"
  unfolding prints_elements_def
proof (intro allI impI)
  fix n spaces b res path err
  assume sp: "spaces_text spaces" and q: "\<forall>w. Some w \<in> set (v # vs) \<longrightarrow> quotable_value w"
    and t: "\<forall>t \<in> set (t # ts). size t < n \<and> within P path t"
  have "quotable_value (case v of None \<Rightarrow> NullV | Some v \<Rightarrow> v)" "size t < n" "within P path t"
    using q t by (auto simp: quotable_value_def split: option.splits)
  then obtain s where s: "to_json P n spaces (case v of None \<Rightarrow> NullV | Some v \<Rightarrow> v) path err = Inr (s, path, err)" "value_text num t s"
    using assms(1) sp unfolding prints_def by blast
  let ?piece = "piece_start b spaces @ s"
  have "\<forall>v. Some v \<in> set vs \<longrightarrow> quotable_value v" "\<forall>t \<in> set ts. size t < n \<and> within P path t" using q t by auto
  then obtain r where r: "elements_loop (to_json P n) spaces vs False (res @ ?piece) path err = Inr ((res @ ?piece) @ r @ [RBRACKET], butlast path, err)"
    "elements_piece num False ts r"
    using assms(2) sp unfolding prints_elements_def by blast
  have "elements_piece num b (t # ts) (?piece @ r)"
    using element_piece [OF sp s(2), of ts r b] r(2) by (simp add: elements_piece_def)
  moreover have "elements_loop (to_json P n) spaces (v # vs) b res path err = Inr (res @ (?piece @ r) @ [RBRACKET], butlast path, err)"
    using r(1) s(1) value_head [OF s(2)] by simp
  ultimately show "\<exists>s. elements_loop (to_json P n) spaces (v # vs) b res path err = Inr (res @ s @ [RBRACKET], butlast path, err)
      \<and> elements_piece num b (t # ts) s"
    by blast
qed

lemma members_shape_names:
  "members_shape P kvs kts \<Longrightarrow> distinct (map fst kvs) \<Longrightarrow> distinct (map fst kts) \<and> set (map fst kts) \<subseteq> set (map fst kvs)"
proof (induction kvs arbitrary: kts)
  case (Cons kv kvs)
  obtain k v where kv: "kv = (k, v)" by (cases kv)
  have d: "distinct (map fst kvs)" "k \<notin> set (map fst kvs)" using Cons.prems(2) kv by simp_all
  consider (undefined) "members_shape P kvs kts" | (defined) t kts' where "kts = (k, t) # kts'" "members_shape P kvs kts'"
    using Cons.prems(1) [unfolded kv] by (auto elim: members_cases)
  then show ?case
  proof cases
    case undefined
    then have "distinct (map fst kts) \<and> set (map fst kts) \<subseteq> set (map fst kvs)" using Cons.IH d(1) by blast
    then show ?thesis by auto
  next
    case defined
    then have "distinct (map fst kts') \<and> set (map fst kts') \<subseteq> set (map fst kvs)" using Cons.IH d(1) by blast
    then show ?thesis using defined(1) d(2) kv by auto
  qed
qed (auto elim: members_cases)

lemma prints_primitive:
  assumes "\<And>n spaces path err. quotable_value v \<Longrightarrow> \<exists>s. to_json P (Suc n) spaces v path err = Inr (s, path, err) \<and> value_text num t s"
  shows "prints num P v t"
  unfolding prints_def
proof (intro allI impI)
  fix n spaces path err assume "spaces_text spaces" "quotable_value v" "size t < n" "within P path t"
  then show "\<exists>s. to_json P n spaces v path err = Inr (s, path, err) \<and> value_text num t s" using assms by (cases n) auto
qed

lemma prints_number:
  "numbers_read_back num P \<Longrightarrow> prints num P (NumV x) (number_tree P x)"
  using null_value [of num] number_value [of num x]
  by (intro prints_primitive) (auto simp: number_tree_def numbers_read_back_def number_json_def)

lemma prints_string: "prints num P (StrV s) (JString s)"
  using toQuotedString_ok [of s] string_value [of s _ num] by (intro prints_primitive) (auto simp: quotable_value_def)

lemma piece_end_True [simp]: "piece_end True w = []"
  by (simp add: piece_end_def)

lemma prints_empty: "prints_members num P [] []" "prints_elements num P [] []"
  by (auto simp: prints_members_def prints_elements_def members_piece_def more_members_def elements_piece_def more_elements_def)

lemma shape_prints:
  assumes "only P = []" and "quotable_heap P" and "numbers_read_back num P"
  shows "shape P v t \<Longrightarrow> prints num P v t" and "members_shape P kvs kts \<Longrightarrow> prints_members num P kvs kts"
    and "elements_shape P vs ts \<Longrightarrow> prints_elements num P vs ts"
proof (induction rule: shape_members_shape_elements_shape.inducts)
  case (plain_shape a kvs kts)
  have "distinct (map fst kvs)" using plain_shape(1) assms(2) by (fastforce simp: quotable_heap_def quotable_object_def)
  then have "distinct (map fst (sort_key (string_id P \<circ> fst) kvs))" by (simp add: distinct_map)
  then show ?case using prints_plain [OF assms(2) plain_shape(1-3)] members_shape_names [OF plain_shape(2)] by blast
next
  case (array_shape a vs ts)
  then show ?case by (intro prints_array assms)
next
  case (bool_shape b)
  show ?case using true_value [of num] false_value [of num] by (intro prints_primitive) (cases b; simp add: bool_text_def)
qed (use assms null_value [of num] in \<open>auto intro: prints_undef_member prints_member prints_element prints_number prints_string prints_empty prints_primitive\<close>)

lemma within_empty: "within P [] t" and quotable_object_value: "quotable_value (ObjV a)"
  by (simp_all add: within_def quotable_value_def)

lemma shape_only:
  "shape P v t \<Longrightarrow> shape (P\<lparr>only := f\<rparr>) v t" "members_shape P kvs kts \<Longrightarrow> members_shape (P\<lparr>only := f\<rparr>) kvs kts"
  "elements_shape P vs ts \<Longrightarrow> elements_shape (P\<lparr>only := f\<rparr>) vs ts"
proof (induction rule: shape_members_shape_elements_shape.inducts)
  case (number_shape x)
  show ?case using shape_members_shape_elements_shape.number_shape [of "P\<lparr>only := f\<rparr>" x] by (simp add: number_tree_def)
qed (auto intro: shape_members_shape_elements_shape.intros)

lemma space_text_spaces:
  "spaces_text (space_text a) \<longleftrightarrow> (case a of SpaceString s \<Rightarrow> spaces_text (take 10 s) | _ \<Rightarrow> True)"
  by (cases a) (simp_all add: space_text_def spaces_text_def is_ws_def list_all_iff)

text \<open>C39: What \<open>JSON.stringify\<close> writes, \<open>JSON.parse\<close> reads back: for an object (or array) whose
  objects form a tree or share parts without cycles, with no replacer and any indentation of white space, \<open>stringify\<close>
  raises no error, and \<open>parse\<close> of its text gives the tree of the values in the order of the properties. Assumed are:
  the names of the properties of an object are distinct and have no control characters, quotes or backslashes (the code writes
  names without escapes); strings have only characters below 0x10000 (the buffer for an escape overflows on others) and of the
  control characters only those that have a letter as escape and 0x0f (the parser refuses the escapes of others); and the number
  that \<open>toString\<close> writes is read back as that number (\<open>numbers_read_back\<close>), as both are parameters. The
  stack for the recursion and the memory for the indentations, whose length doubles on each level, are not bounded in the
  model.\<close>

theorem json_roundtrip:
  assumes "quotable_heap P" and "numbers_read_back num P" and "shape P (ObjV a) t" and "spaces_text (space_text i)" and "size t < n"
  shows "\<exists>s. stringify P n NoReplacer i (ObjV a) = Inr (s, False) \<and> (\<forall>m \<ge> 2 * length s + 2. parseAll num m s = Inr (Accepted (Some t)))"
proof -
  let ?P = "P\<lparr>only := []\<rparr>"
  have "quotable_heap ?P" "numbers_read_back num ?P" "shape ?P (ObjV a) t"
    using assms(1-3) shape_only by (simp_all add: quotable_heap_def numbers_read_back_def)
  then have "prints num ?P (ObjV a) t" by (intro shape_prints) simp_all
  then obtain s where s: "to_json ?P n (space_text i) (ObjV a) [] False = Inr (s, [], False)" "value_text num t s"
    using assms(4,5) within_empty quotable_object_value unfolding prints_def by blast
  have "stringify P n NoReplacer i (ObjV a) = Inr (s, False)" using s(1) by (simp add: stringify_def value_json_def)
  moreover have "parseAll num m s = Inr (Accepted (Some t))" if "2 * length s + 2 \<le> m" for m
    using text_understood [OF s(2), of "[]" "[]" m] that by simp
  ultimately show ?thesis by blast
qed

text \<open>Two properties whose order is not that of their names, and an array with a number and a hole.\<close>

definition two_objects :: "unit printer" where
  "two_objects = \<lparr>heap = [0 \<mapsto> Plain [([0x62], ObjV 1), ([0x61], NullV)], 1 \<mapsto> ArrayOf [Some (NumV ()), None]], string_id = \<lambda>k. unat (hd k),
     shown = \<lambda>x. [0x37], only = []\<rparr>"

definition number_seven :: "codes \<Rightarrow> unit option" where "number_seven ds = (if ds = [0x37] then Some () else None)"

lemma json_roundtrip_witness:
  "\<exists>s. stringify two_objects 40 NoReplacer (SpaceNumber 2) (ObjV 0) = Inr (s, False) \<and> (\<forall>m \<ge> 2 * length s + 2.
    parseAll number_seven m s = Inr (Accepted (Some (JObject [(Some [0x61], JNull), (Some [0x62], JArray [Some (JNumber ()), Some JNull])]))))"
proof (rule json_roundtrip)
  show "quotable_heap two_objects"
    by (auto simp: two_objects_def quotable_heap_def quotable_object_def quotable_value_def name_char_def split: if_splits)
  show "numbers_read_back number_seven two_objects"
    by (simp add: numbers_read_back_def two_objects_def number_text_def number_seven_def number_char_def digit_byte_def)
  have one: "shape two_objects (ObjV 1) (JArray (map Some [JNumber (), JNull]))"
  proof (rule array_shape)
    show "heap two_objects 1 = Some (ArrayOf [Some (NumV ()), None])" by (simp add: two_objects_def)
    have "number_tree two_objects () = JNumber ()" by (simp add: number_tree_def number_json_def two_objects_def)
    then have "shape two_objects (NumV ()) (JNumber ())" using number_shape [of two_objects "()"] by simp
    then show "elements_shape two_objects [Some (NumV ()), None] [JNumber (), JNull]" by (intro element no_element) (simp_all add: null_shape)
  qed
  have "shape two_objects (ObjV 0) (JObject (map (map_prod Some id) [([0x61], JNull), ([0x62], JArray (map Some [JNumber (), JNull]))]))"
  proof (rule plain_shape)
    show "heap two_objects 0 = Some (Plain [([0x62], ObjV 1), ([0x61], NullV)])" by (simp add: two_objects_def)
    show "members_shape two_objects (sort_key (string_id two_objects \<circ> fst) [([0x62], ObjV 1), ([0x61], NullV)])
        [([0x61], JNull), ([0x62], JArray (map Some [JNumber (), JNull]))]"
      using member [OF _ null_shape member [OF _ one no_member]] by (simp add: two_objects_def)
  qed
  then show "shape two_objects (ObjV 0) (JObject [(Some [0x61], JNull), (Some [0x62], JArray [Some (JNumber ()), Some JNull])])" by simp
  show "spaces_text (space_text (SpaceNumber 2))" by (simp add: space_text_spaces)
qed simp

end
