(* ===== verification/JsonCycles.thy ===== *)
theory JsonCycles
  imports JsonRoundtrip
begin

text \<open>
  \<open>JSON.stringify\<close> returns for every finite heap, and reports a cycle exactly if there is one.
\<close>

section \<open>Without an error\<close>

text \<open>One object refers to another by a property or an element.\<close>

definition refers :: "'n printer \<Rightarrow> nat \<Rightarrow> nat \<Rightarrow> bool" where
  "refers P a b \<longleftrightarrow> (case heap P a of
     None \<Rightarrow> False
   | Some (Plain kvs) \<Rightarrow> ObjV b \<in> snd ` set kvs
   | Some (ArrayOf vs) \<Rightarrow> Some (ObjV b) \<in> set vs)"

definition cycle_from :: "'n printer \<Rightarrow> nat \<Rightarrow> bool" where
  "cycle_from P a \<longleftrightarrow> (\<exists>x. (refers P)\<^sup>*\<^sup>* a x \<and> (refers P)\<^sup>+\<^sup>+ x x)"

text \<open>All objects on the path refer to the value, directly or indirectly, and the value is found from the root.\<close>

definition leads_to :: "'n printer \<Rightarrow> nat \<Rightarrow> nat list \<Rightarrow> 'n as_value \<Rightarrow> bool" where
  "leads_to P root path v \<longleftrightarrow> (\<forall>b. v = ObjV b \<longrightarrow> (refers P)\<^sup>*\<^sup>* root b \<and> (\<forall>x \<in> set path. (refers P)\<^sup>+\<^sup>+ x b))"

lemma leads_to_cyclic: "leads_to P root path v \<Longrightarrow> cyclic v path \<Longrightarrow> cycle_from P root"
  by (cases v) (auto simp: leads_to_def cyclic_def cycle_from_def)

lemma leads_to_part:
  assumes "leads_to P root path (ObjV a)" and "\<And>b. v = ObjV b \<Longrightarrow> refers P a b"
  shows "leads_to P root (path @ [a]) v"
  using assms unfolding leads_to_def by (auto intro: rtranclp.rtrancl_into_rtrancl tranclp.trancl_into_trancl)

text \<open>An error stays.\<close>

definition error_stays :: "'n to_json_call \<Rightarrow> bool" where
  "error_stays go \<longleftrightarrow> (\<forall>sp v path s p e. go sp v path True = Inr (s, p, e) \<longrightarrow> e)"

lemma members_loop_error: "error_stays go \<Longrightarrow> members_loop P go sp kvs b res path True = Inr (s, p, e) \<Longrightarrow> e"
proof (induction kvs arbitrary: b res path)
  case (Cons kv kvs)
  then show ?case by (cases kv) (fastforce simp: error_stays_def bindE_Inr_conv split: if_splits)
qed simp

lemma elements_loop_error: "error_stays go \<Longrightarrow> elements_loop go sp vs b res path True = Inr (s, p, e) \<Longrightarrow> e"
proof (induction vs arbitrary: b res path)
  case (Cons v vs)
  then show ?case by (fastforce simp: error_stays_def bindE_Inr_conv split: if_splits)
qed simp

lemma to_json_result:
  assumes "to_json P (Suc n) sp v path e0 = Inr (s, p, e)"
  obtains (primitive) "\<And>a. v \<noteq> ObjV a" "p = path" "e = e0"
  | (plain) a kvs where "v = ObjV a" "heap P a = Some (Plain kvs)"
      "members_loop P (to_json P n) sp (sort_key (string_id P \<circ> fst) kvs) True [LBRACE] (path @ [a]) e0 = Inr (s, p, e)"
  | (seen) a vs where "v = ObjV a" "heap P a = Some (ArrayOf vs)" "a \<in> set path" "e"
  | (array) a vs where "v = ObjV a" "heap P a = Some (ArrayOf vs)"
      "elements_loop (to_json P n) sp vs True [LBRACKET] (path @ [a]) e0 = Inr (s, p, e)"
proof (cases v)
  case (ObjV a)
  then obtain x where x: "heap P a = Some x" using assms by (cases "heap P a") auto
  then show ?thesis using that(2-4) assms ObjV by (cases x) (auto split: if_splits)
qed (use that(1) assms in \<open>auto simp: bindE_Inr_conv\<close>)

lemma to_json_error: "error_stays (to_json P n)"
proof (induction n)
  case (Suc n)
  show ?case
    unfolding error_stays_def
  proof (intro allI impI)
    fix sp v path s p e assume "to_json P (Suc n) sp v path True = Inr (s, p, e)"
    then show e by (cases rule: to_json_result) (use members_loop_error [OF Suc] elements_loop_error [OF Suc] in auto)
  qed
qed (simp add: error_stays_def)

text \<open>Either an error is raised and there is a cycle, or the path is as before and the value has a tree.\<close>

definition settles :: "'n printer \<Rightarrow> nat \<Rightarrow> 'n to_json_call \<Rightarrow> bool" where
  "settles P root go \<longleftrightarrow> (\<forall>sp v path s p e. leads_to P root path v \<longrightarrow> go sp v path False = Inr (s, p, e)
     \<longrightarrow> e \<and> cycle_from P root \<or> \<not> e \<and> p = path \<and> (\<exists>t. shape P v t))"

lemma members_loop_settles:
  assumes "settles P root go" and "error_stays go" and "only P = []"
  shows "members_loop P go sp kvs b res path False = Inr (s, p, e) \<Longrightarrow> (\<forall>(k, v) \<in> set kvs. leads_to P root path v)
    \<Longrightarrow> e \<and> cycle_from P root \<or> \<not> e \<and> p = butlast path \<and> (\<exists>kts. members_shape P kvs kts)"
proof (induction kvs arbitrary: b res)
  case Nil
  then show ?case using no_member by auto
next
  case (Cons kv kvs)
  obtain k v where kv: "kv = (k, v)" by (cases kv)
  have l: "leads_to P root path v" and ls: "\<forall>(k, v) \<in> set kvs. leads_to P root path v" using Cons.prems(2) kv by auto
  show ?case
  proof (cases "v = Undef")
    case True
    then show ?thesis using Cons.IH [OF _ ls] Cons.prems(1) kv undef_member by (fastforce simp del: prod.split_sel)
  next
    case u: False
    show ?thesis
    proof (cases "cyclic v path")
      case True
      then show ?thesis using leads_to_cyclic [OF l] Cons.prems(1) kv u by auto
    next
      case False
      then obtain t q f b' res' where g: "go (sp @ sp) v path False = Inr (t, q, f)" "members_loop P go sp kvs b' res' q f = Inr (s, p, e)"
        using Cons.prems(1) kv u assms(3) by (auto simp: bindE_Inr_conv selected_def)
      consider "f = True" "cycle_from P root" | t' where "\<not> f" "q = path" "shape P v t'"
        using assms(1) l g(1) unfolding settles_def by blast
      then show ?thesis
      proof cases
        case 1
        then show ?thesis using members_loop_error [OF assms(2) g(2) [unfolded 1(1)]] by blast
      next
        case 2
        then show ?thesis using Cons.IH [OF _ ls] g(2) kv member [OF u 2(3)] by fastforce
      qed
    qed
  qed
qed

lemma elements_loop_settles:
  assumes "settles P root go" and "error_stays go"
  shows "elements_loop go sp vs b res path False = Inr (s, p, e) \<Longrightarrow> (\<forall>v. Some v \<in> set vs \<longrightarrow> leads_to P root path v)
    \<Longrightarrow> e \<and> cycle_from P root \<or> \<not> e \<and> p = butlast path \<and> (\<exists>ts. elements_shape P vs ts)"
proof (induction vs arbitrary: b res)
  case Nil
  then show ?case using no_element by auto
next
  case (Cons v vs)
  let ?v = "case v of None \<Rightarrow> NullV | Some v \<Rightarrow> v"
  have l: "leads_to P root path ?v" and ls: "\<forall>v. Some v \<in> set vs \<longrightarrow> leads_to P root path v"
    using Cons.prems(2) by (auto simp: leads_to_def split: option.splits)
  obtain t q f b' res' where g: "go sp ?v path False = Inr (t, q, f)" "elements_loop go sp vs b' res' q f = Inr (s, p, e)"
    using Cons.prems(1) by (auto simp: bindE_Inr_conv split: if_splits)
  consider "f = True" "cycle_from P root" | t' where "\<not> f" "q = path" "shape P ?v t'"
    using assms(1) l g(1) unfolding settles_def by blast
  then show ?case
  proof cases
    case 1
    then show ?thesis using elements_loop_error [OF assms(2) g(2) [unfolded 1(1)]] by blast
  next
    case 2
    then show ?thesis using Cons.IH [OF _ ls] g(2) element [OF 2(3)] by fastforce
  qed
qed

lemma to_json_settles:
  assumes "only P = []"
  shows "settles P root (to_json P n)"
proof (induction n)
  case (Suc n)
  show ?case
    unfolding settles_def
  proof (intro allI impI)
    fix sp v path s p e assume l: "leads_to P root path v" and "to_json P (Suc n) sp v path False = Inr (s, p, e)"
    from this(2) show "e \<and> cycle_from P root \<or> \<not> e \<and> p = path \<and> (\<exists>t. shape P v t)"
    proof (cases rule: to_json_result)
      case primitive
      then have "\<exists>t. shape P v t" by (cases v) (auto intro: undef_shape null_shape bool_shape number_shape string_shape)
      then show ?thesis using primitive(2,3) by simp
    next
      case (plain a kvs)
      have "\<forall>(k, v) \<in> set (sort_key (string_id P \<circ> fst) kvs). leads_to P root (path @ [a]) v"
        using l plain(1,2) by (force simp: refers_def intro!: leads_to_part)
      from members_loop_settles [OF Suc to_json_error assms plain(3) this] show ?thesis using plain(1,2) plain_shape by fastforce
    next
      case (seen a vs)
      then show ?thesis using leads_to_cyclic [OF l] by (simp add: cyclic_def)
    next
      case (array a vs)
      have "\<forall>v. Some v \<in> set vs \<longrightarrow> leads_to P root (path @ [a]) v"
        using l array(1,2) by (force simp: refers_def intro!: leads_to_part)
      from elements_loop_settles [OF Suc to_json_error array(3) this] show ?thesis using array(1,2) array_shape by fastforce
    qed
  qed
qed (simp add: settles_def)


section \<open>Cycles have no tree\<close>

lemma members_shape_part: "members_shape P kvs kts \<Longrightarrow> v \<in> snd ` set kvs \<Longrightarrow> v \<noteq> Undef \<Longrightarrow> \<exists>k t. (k, t) \<in> set kts \<and> shape P v t"
proof (induction kvs arbitrary: kts)
  case (Cons kv kvs)
  obtain k w where kv: "kv = (k, w)" by (cases kv)
  consider "w = Undef" "members_shape P kvs kts" | u kts' where "shape P w u" "kts = (k, u) # kts'" "members_shape P kvs kts'"
    using Cons.prems(1) [unfolded kv] by (auto elim: members_cases)
  then show ?case
  proof cases
    case 1
    then show ?thesis using Cons.IH [OF 1(2)] Cons.prems(2,3) kv by auto
  next
    case 2
    then show ?thesis using Cons.IH [OF 2(3)] Cons.prems(2,3) kv by auto
  qed
qed simp

lemma elements_shape_part: "elements_shape P vs ts \<Longrightarrow> Some v \<in> set vs \<Longrightarrow> \<exists>t. t \<in> set ts \<and> shape P v t"
proof (induction vs arbitrary: ts)
  case (Cons w vs)
  then show ?case by (fastforce elim!: elements_cases)
qed simp

lemma refers_smaller:
  assumes "refers P a b" and "shape P (ObjV a) t"
  shows "\<exists>u. shape P (ObjV b) u \<and> size u < size t"
proof -
  consider (plain) kvs kts where "heap P a = Some (Plain kvs)" "members_shape P (sort_key (string_id P \<circ> fst) kvs) kts"
      "t = JObject (map (map_prod Some id) kts)"
    | (array) vs ts where "heap P a = Some (ArrayOf vs)" "elements_shape P vs ts" "t = JArray (map Some ts)"
    using assms(2) by (auto elim: shape_cases)
  then show ?thesis
  proof cases
    case plain
    have "ObjV b \<in> snd ` set (sort_key (string_id P \<circ> fst) kvs)" using assms(1) plain(1) by (simp add: refers_def)
    then obtain k u where "(k, u) \<in> set kts" "shape P (ObjV b) u" using members_shape_part [OF plain(2)] by blast
    then show ?thesis using member_smaller [of k u kts] plain(3) by auto
  next
    case array
    have "Some (ObjV b) \<in> set vs" using assms(1) array(1) by (simp add: refers_def)
    then obtain u where "u \<in> set ts" "shape P (ObjV b) u" using elements_shape_part [OF array(2)] by blast
    then show ?thesis using element_smaller [of u ts] array(3) by auto
  qed
qed

lemma refers_rtrancl_shape: "(refers P)\<^sup>*\<^sup>* a b \<Longrightarrow> shape P (ObjV a) t \<Longrightarrow> \<exists>u. shape P (ObjV b) u"
  by (induction rule: rtranclp_induct) (use refers_smaller in blast)+

lemma refers_trancl_smaller: "(refers P)\<^sup>+\<^sup>+ a b \<Longrightarrow> shape P (ObjV a) t \<Longrightarrow> \<exists>u. shape P (ObjV b) u \<and> size u < size t"
  by (induction rule: tranclp_induct) (use refers_smaller less_trans in \<open>blast, meson\<close>)

lemma cycle_no_shape: "cycle_from P a \<Longrightarrow> \<not> shape P (ObjV a) t"
  unfolding cycle_from_def using refers_rtrancl_shape refers_trancl_smaller shape_unique(1) by (metis less_irrefl)


section \<open>The end\<close>

text \<open>A closed set of objects whose strings have no characters above \<open>0xffff\<close>.\<close>

definition narrow_value :: "nat set \<Rightarrow> 'n as_value \<Rightarrow> bool" where
  "narrow_value A v = (case v of StrV s \<Rightarrow> list_all (\<lambda>c. c < 0x10000) s | ObjV a \<Rightarrow> a \<in> A | _ \<Rightarrow> True)"

definition narrow_object :: "nat set \<Rightarrow> 'n as_object option \<Rightarrow> bool" where
  "narrow_object A x = (case x of
     None \<Rightarrow> False
   | Some (Plain kvs) \<Rightarrow> \<forall>v \<in> snd ` set kvs. narrow_value A v
   | Some (ArrayOf vs) \<Rightarrow> \<forall>v. Some v \<in> set vs \<longrightarrow> narrow_value A v)"

definition narrow_heap :: "nat set \<Rightarrow> 'n printer \<Rightarrow> bool" where
  "narrow_heap A P \<longleftrightarrow> finite A \<and> (\<forall>a \<in> A. narrow_object A (heap P a))"

lemma toQuotedString_returns: "list_all (\<lambda>c. c < 0x10000) s \<Longrightarrow> \<exists>t. toQuotedString s = Inr t"
proof -
  have "\<exists>t. quote_char c = Inr t" if "c < 0x10000" for c using that hex_escape_ok [OF that] by (auto simp: quote_char_def)
  then have "list_all (\<lambda>c. c < 0x10000) s \<Longrightarrow> \<exists>t. quote_loop r s = Inr t" for r
    by (induction s arbitrary: r) fastforce+
  then show "list_all (\<lambda>c. c < 0x10000) s \<Longrightarrow> \<exists>t. toQuotedString s = Inr t" by (simp add: toQuotedString_def)
qed

text \<open>The objects that are not on the path.\<close>

definition fresh :: "nat set \<Rightarrow> nat list \<Rightarrow> nat" where "fresh A path = card (A - set path)"

lemma fresh_prefix: "finite A \<Longrightarrow> prefix p q \<Longrightarrow> fresh A q \<le> fresh A p"
  unfolding fresh_def by (intro card_mono) (auto dest: set_mono_prefix)

lemma fresh_next: "finite A \<Longrightarrow> a \<in> A \<Longrightarrow> a \<notin> set p \<Longrightarrow> fresh A p = Suc (fresh A (p @ [a]))"
  unfolding fresh_def using card_Suc_Diff1 [of "A - set p" a] by (simp add: Diff_insert [symmetric] Un_commute)

text \<open>With values that pass a test, a call returns and does not shorten the path.\<close>

definition returns_for :: "('n as_value \<Rightarrow> nat list \<Rightarrow> bool) \<Rightarrow> 'n to_json_call \<Rightarrow> bool" where
  "returns_for Q go \<longleftrightarrow> (\<forall>sp v path err. Q v path \<longrightarrow> (\<exists>s p e. go sp v path err = Inr (s, p, e) \<and> prefix path p))"

lemma members_loop_returns:
  assumes "returns_for Q go" and "\<And>v p. v \<in> snd ` set kvs \<Longrightarrow> v \<noteq> Undef \<Longrightarrow> prefix (path @ [a]) p \<Longrightarrow> \<not> cyclic v p \<Longrightarrow> Q v p"
  shows "prefix (path @ [a]) q \<Longrightarrow> \<exists>s p e. members_loop P go sp kvs b res q err = Inr (s, p, e) \<and> prefix path p"
  using assms(2)
proof (induction kvs arbitrary: b res q err)
  case Nil
  then show ?case by (auto simp: prefix_def butlast_append)
next
  case (Cons kv kvs)
  obtain k v where kv: "kv = (k, v)" by (cases kv)
  have IH: "\<exists>s p e. members_loop P go sp kvs b res q err = Inr (s, p, e) \<and> prefix path p" if "prefix (path @ [a]) q" for b res q err
    using Cons.IH [OF that] Cons.prems(2) by simp
  show ?case
  proof (cases "v \<noteq> Undef \<and> \<not> cyclic v q")
    case True
    then have "Q v q" using Cons.prems kv by auto
    then obtain s p e where g: "go (sp @ sp) v q err = Inr (s, p, e)" "prefix q p" using assms(1) unfolding returns_for_def by blast
    then have "prefix (path @ [a]) p" using Cons.prems(1) by (blast intro: prefix_order.trans)
    then show ?thesis using kv True g(1) IH Cons.prems(1) by simp
  next
    case False
    have "prefix path q" using Cons.prems(1) append_prefixD by blast
    then show ?thesis using kv False IH Cons.prems(1) by auto
  qed
qed

lemma elements_loop_returns:
  assumes "returns_for Q go" and "\<And>v p. v = NullV \<or> Some v \<in> set vs \<Longrightarrow> prefix (path @ [a]) p \<Longrightarrow> Q v p"
  shows "prefix (path @ [a]) q \<Longrightarrow> \<exists>s p e. elements_loop go sp vs b res q err = Inr (s, p, e) \<and> prefix path p"
  using assms(2)
proof (induction vs arbitrary: b res q err)
  case Nil
  then show ?case by (auto simp: prefix_def butlast_append)
next
  case (Cons v vs)
  have IH: "\<exists>s p e. elements_loop go sp vs b res q err = Inr (s, p, e) \<and> prefix path p" if "prefix (path @ [a]) q" for b res q err
    by (rule Cons.IH [OF that]) (rule Cons.prems(2), auto)
  have "Q (case v of None \<Rightarrow> NullV | Some v \<Rightarrow> v) q" using Cons.prems by (cases v) simp_all
  then obtain s p e where g: "go sp (case v of None \<Rightarrow> NullV | Some v \<Rightarrow> v) q err = Inr (s, p, e)" "prefix q p"
    using assms(1) unfolding returns_for_def by blast
  then have "prefix (path @ [a]) p" using Cons.prems(1) by (blast intro: prefix_order.trans)
  then show ?case using g(1) IH by simp
qed

definition plain_on_path :: "'n printer \<Rightarrow> 'n as_value \<Rightarrow> nat list \<Rightarrow> bool" where
  "plain_on_path P v path \<longleftrightarrow> (\<exists>a kvs. v = ObjV a \<and> a \<in> set path \<and> heap P a = Some (Plain kvs))"

text \<open>The depth of calls that is left, twice the number of objects that are not on the path.\<close>

definition enough :: "nat set \<Rightarrow> 'n printer \<Rightarrow> nat \<Rightarrow> 'n as_value \<Rightarrow> nat list \<Rightarrow> bool" where
  "enough A P n v path \<longleftrightarrow> narrow_value A v \<and> 2 * fresh A path + (if plain_on_path P v path then 2 else 1) \<le> n"

lemma to_json_returns:
  assumes "narrow_heap A P"
  shows "returns_for (enough A P n) (to_json P n)"
proof (induction n)
  case (Suc n)
  have A: "finite A" using assms by (simp add: narrow_heap_def)
  show ?case
    unfolding returns_for_def
  proof (intro allI impI)
    fix sp v path err assume e: "enough A P (Suc n) v path"
    show "\<exists>s p e. to_json P (Suc n) sp v path err = Inr (s, p, e) \<and> prefix path p"
    proof (cases v)
      case (StrV s)
      then show ?thesis using e toQuotedString_returns [of s] by (auto simp: enough_def narrow_value_def)
    next
      case (ObjV a)
      have a: "a \<in> A" using e ObjV by (simp add: enough_def narrow_value_def)
      then have na: "narrow_object A (heap P a)" using assms by (simp add: narrow_heap_def)
      then obtain x where x: "heap P a = Some x" by (cases "heap P a") (simp_all add: narrow_object_def)
      show ?thesis
      proof (cases x)
        case (Plain kvs)
        have f: "2 * fresh A (path @ [a]) + 1 \<le> n"
          using e ObjV x Plain fresh_next [OF A a] fresh_prefix [OF A, of path "path @ [a]"]
          by (cases "a \<in> set path") (auto simp: enough_def plain_on_path_def)
        have "enough A P n v p" if "v \<in> snd ` set (sort_key (string_id P \<circ> fst) kvs)" "prefix (path @ [a]) p" "\<not> cyclic v p" for v p
          using that na x Plain f fresh_prefix [OF A that(2)] by (auto simp: enough_def narrow_object_def plain_on_path_def cyclic_def)
        then show ?thesis
          using members_loop_returns [OF Suc, of "sort_key (string_id P \<circ> fst) kvs" path a "path @ [a]"] ObjV x Plain by simp
      next
        case (ArrayOf vs)
        show ?thesis
        proof (cases "a \<in> set path")
          case True
          then show ?thesis using ObjV x ArrayOf by (auto intro: exI [of _ True])
        next
          case False
          have f: "2 * fresh A (path @ [a]) + 2 \<le> n"
            using e ObjV x ArrayOf fresh_next [OF A a False] by (auto simp: enough_def plain_on_path_def)
          have "enough A P n v p" if "v = NullV \<or> Some v \<in> set vs" "prefix (path @ [a]) p" for v p
            using that na x ArrayOf f fresh_prefix [OF A that(2)] by (auto simp: enough_def narrow_object_def narrow_value_def plain_on_path_def)
          then show ?thesis using elements_loop_returns [OF Suc, of vs path a "path @ [a]"] ObjV x ArrayOf False by simp
        qed
      qed
    qed auto
  qed
qed (auto simp: returns_for_def enough_def)

text \<open>C40: Cycles are reported and do no harm: although \<open>JSON.stringify\<close> does not look at all objects before it
  goes into them and goes on after an error with objects on the path that it has left, for a finite heap of plain objects and
  arrays that refer to each other in any way the depth of its calls is at most twice the number of objects and one, it returns,
  and the error for cyclic structures is raised exactly if an object that can be reached refers to itself, directly or indirectly.
  This is for calls without a replacer and heaps whose strings have only characters below 0x10000 (\<open>narrow_heap\<close>; the
  escape of another one overflows its buffer). Time and memory are not bounded: the length of the indentation doubles on each
  level, so that with one the texts of deep heaps exceed any memory.\<close>

theorem stringify_reports_cycles:
  assumes "narrow_heap A P" and "a \<in> A" and "2 * card A + 1 \<le> n"
  shows "\<exists>s err. stringify P n NoReplacer i (ObjV a) = Inr (s, err) \<and> (err \<longleftrightarrow> cycle_from P a)"
proof -
  let ?P = "P\<lparr>only := []\<rparr>"
  have "narrow_heap A ?P" "enough A ?P n (ObjV a) []"
    using assms by (simp_all add: narrow_heap_def enough_def narrow_value_def fresh_def plain_on_path_def)
  then obtain s p e where r: "to_json ?P n (space_text i) (ObjV a) [] False = Inr (s, p, e)"
    using to_json_returns unfolding returns_for_def by blast
  have "leads_to ?P a [] (ObjV a)" by (simp add: leads_to_def)
  then have "e \<and> cycle_from ?P a \<or> \<not> e \<and> (\<exists>t. shape ?P (ObjV a) t)"
    using to_json_settles [of ?P a n] r unfolding settles_def by fastforce
  then have "e \<longleftrightarrow> cycle_from ?P a" using cycle_no_shape by blast
  moreover have "cycle_from ?P a = cycle_from P a"
  proof -
    have "refers ?P = refers P" by (intro ext) (simp add: refers_def)
    then show ?thesis by (simp add: cycle_from_def)
  qed
  ultimately show ?thesis using r by (simp add: stringify_def value_json_def)
qed

text \<open>An object that contains itself in an array.\<close>

definition self_reference :: "unit printer" where
  "self_reference = \<lparr>heap = [0 \<mapsto> Plain [([0x61], ObjV 1)], 1 \<mapsto> ArrayOf [Some (ObjV 0)]], string_id = \<lambda>k. 0, shown = \<lambda>x. [0x37], only = []\<rparr>"

lemma stringify_reports_cycles_witness:
  "cycle_from self_reference 0 \<and> (\<exists>s err. stringify self_reference 5 NoReplacer NoSpace (ObjV 0) = Inr (s, err) \<and> (err \<longleftrightarrow> cycle_from self_reference 0))"
proof
  have "refers self_reference 0 1" "refers self_reference 1 0" by (simp_all add: refers_def self_reference_def)
  then have "(refers self_reference)\<^sup>+\<^sup>+ 0 0" by (meson tranclp.r_into_trancl tranclp.trancl_into_trancl)
  then show "cycle_from self_reference 0" by (auto simp: cycle_from_def)
  show "\<exists>s err. stringify self_reference 5 NoReplacer NoSpace (ObjV 0) = Inr (s, err) \<and> (err \<longleftrightarrow> cycle_from self_reference 0)"
    by (rule stringify_reports_cycles [where A = "{0, 1}"]) (auto simp: narrow_heap_def narrow_object_def narrow_value_def self_reference_def)
qed

end
