(* ===== verification/Spec2Isabelle.thy ===== *)
theory Spec2Isabelle
  imports TinyText ByteArraySpec ByteArrayText AbcSound ArrayCompare ArrayLists TimerThread FlashTimer CircularQueue ThreadPool EventDispatch DisplayOps SecurityCheck VmQueue JsonCycles
begin

text \<open>
  Verification library for the core of Lightspark, a Flash player in C++ (directory \<open>src/src\<close> of the
  repository; the paths below are relative to it).

  The player reads a SWF file, loads the ActionScript bytecode (ABC) in it into the virtual machine,
  and runs it: values are 64-bit atoms, strings are \<open>tiny_string\<close>s, and the builtin classes
  (\<open>Array\<close>, \<open>ByteArray\<close>, \<dots>) are C++ classes whose methods the bytecode calls. The library models the
  layers from the bottom up; each theory uses those before it.

  \<^bold>\<open>Shared\<close> (\<open>LS_Prelude\<close>). The outcomes of C++ code as \<open>Inl fault\<close> or \<open>Inr result\<close>, checked access to
  byte buffers, byte order conversions (\<open>compat.h\<close>). An access outside of a buffer, a failed assertion,
  a C++ exception and a trapping division are faults, so that a theorem which says that a function
  returns \<open>Inr\<close> excludes them.

  \<^bold>\<open>Strings\<close> (\<open>tiny_string.h\<close>, \<open>tiny_string.cpp\<close>). \<open>Utf8\<close>: \<open>CharIterator\<close> and \<open>unicodeToUTF8\<close>, a round trip.
  \<open>Utf8Order\<close>: the order of encodings is the order of code points. \<open>TinyString\<close>: the buffer of a string,
  construction and concatenation, with the invariant \<open>ts_repr\<close> that relates a string to its code
  points. \<open>TinyIndex\<close>: characters by index, search (\<open>memcmp\<close> may read all the bytes that it is given, which is behind the
  buffer for some strings), \<open>substr\<close>, \<open>replace\<close>. \<open>CaseTables\<close> and \<open>TinyText\<close>:
  case conversion with the tables of the code, \<open>split\<close>, trimming, quoting.

  \<^bold>\<open>ByteArray\<close> (\<open>scripting/flash/utils/ByteArray.h\<close>, \<open>.cpp\<close>). \<open>ByteArray\<close>: the growing buffer with its
  position, byte order and lock. \<open>ByteArrayMethods\<close>: the methods ActionScript calls, with their end of
  file errors. \<open>ByteArrayCalls\<close>: a step relation of these calls (not of \<open>readObject\<close> and \<open>writeObject\<close>) and its invariant. \<open>ByteArraySpec\<close>: the methods
  in terms of the visible content, the table of strings of AMF3, decompression with zlib as a parameter.
  \<open>ByteArrayText\<close>: validation and repair of UTF-8.

  \<^bold>\<open>Bytecode files\<close> (\<open>scripting/abctypes.h\<close>, \<open>.cpp\<close>, \<open>scripting/abc.cpp\<close>, \<open>parsing/streams.h\<close>). \<open>AbcStream\<close>:
  the two readers of variable length integers. \<open>AbcTypes\<close>: the structures of a file and the operators
  that read them. \<open>AbcFormat\<close>: the format as writers, one interpretation of \<open>wire_format\<close> per structure.
  \<open>AbcOverride\<close>: the sets of overridden methods, shared between a class and its descendants.
  \<open>AbcFile\<close>: the constructor of \<open>ABCContext\<close>. \<open>AbcSound\<close>: what the readers guarantee on any bytes.

  \<^bold>\<open>Values\<close> (\<open>asobject.h\<close>). \<open>Atoms\<close>: the tags of the 64-bit values. \<open>AtomArith\<close>: conversions to integers
  and the arithmetic of the interpreter, with the doubles as their bits, \<open>dval\<close> their value, and the
  floating point unit as a parameter.

  \<^bold>\<open>Arrays\<close> (\<open>scripting/toplevel/Array.h\<close>, \<open>.cpp\<close>). \<open>ArraySort\<close>: the iterative quicksort with its stack of
  33 frames. \<open>ArrayCompare\<close>: the comparisons of \<open>sort\<close> and \<open>sortOn\<close>. \<open>ArrayData\<close>: the vector for the first
  65536 elements and the map behind them, refined to a list of elements. \<open>ArrayMethods\<close> and
  \<open>ArrayLists\<close>: the methods and their meaning on lists.

  \<^bold>\<open>Time\<close> (\<open>utils/timespec.h\<close>, \<open>timer.h\<close>, \<open>timer.cpp\<close>, \<open>swf.cpp\<close>, \<open>scripting/flash/utils\<close>). \<open>TimeSpec\<close>: points in
  time. \<open>TimerThread\<close>: the queue of the timer thread, its worker and the threads that add and remove jobs, as
  interleaved steps (an adding thread reads the clock in one and takes the mutex in the next). \<open>LSTimers\<close>: the timers of a program that runs in one thread. \<open>FlashTimer\<close>: the class \<open>Timer\<close>
  of ActionScript, \<open>setInterval\<close> and \<open>setTimeout\<close>, whose runners are taken, called and deleted by two threads.

  \<^bold>\<open>Threads\<close> (\<open>threading.h\<close>, \<open>thread_pool.cpp\<close>). \<open>CircularQueue\<close>: the ring of buffers between a decoder and its
  consumer, with its 32-bit indices, is a bounded queue for any order of puts and takes. \<open>ThreadPool\<close>: workers, additional threads and the ways to stop them, with a measure of
  the steps that are left and a record of every call of \<open>jobFence\<close>.

  \<^bold>\<open>Events\<close> (\<open>flashevents.cpp\<close>, \<open>abc.cpp\<close>). \<open>EventDispatch\<close>: the tables of listeners, the dispatch of an event
  along the chain of parents, with what listeners do as a parameter;
  the counters of frame listeners are those of the primordial worker.

  \<^bold>\<open>Display list\<close> (\<open>flashdisplay.cpp\<close>, \<open>DisplayObject.cpp\<close>, \<open>swf.cpp\<close>). \<open>DisplayList\<close>: containers with their
  children, the depths of the timeline and the marks for the stage. \<open>DisplayTree\<close>: what the single operations keep;
  \<open>DisplayOps\<close>: all sequences of allowed calls, with handlers that do not change the tree.

  \<^bold>\<open>URLs\<close> (\<open>backends/urlutils.cpp\<close>). \<open>StdString\<close>: searching and replacing in \<open>std::string\<close>. \<open>UrlPath\<close>: paths
  are normalised, compared with lists of segments; the loop that may not end is a partial function. \<open>UriCodec\<close>:
  percent encodings. \<open>UrlInfo\<close>: taking a URL apart (strings without a zero byte) and the comparisons of hosts and paths.

  \<^bold>\<open>Security\<close> (\<open>backends/security.cpp\<close>, \<open>parsing/crossdomainpolicy.cpp\<close>). \<open>PolicyXml\<close>: the elements of a policy file and
  what they allow. \<open>PolicyFiles\<close>: the files in a heap, loading with the master file first, the search. \<open>PolicyInvariant\<close>:
  entries come from documents that were delivered, loaded files do not change. \<open>SecurityCheck\<close>: the decisions on
  URLs, sockets and headers. Network and XML library are parameters; \<open>load\<close> and \<open>load_pending\<close> have fuel, since the
  code may not end (\<open>redirected_file_never_ends\<close>); what is granted is proved for every amount of it.

  \<^bold>\<open>Virtual machine\<close> (\<open>scripting/abc.cpp\<close>). \<open>VmQueue\<close>: the event queues, the thread that handles events and the calls of
  other threads as interleaved steps; an event carries the calls that its handling makes and how it ends, as a finite tree, so that
  handlers return. The move of the idle events at the shutdown, which the code makes without its mutex, is one step.

  \<^bold>\<open>JSON\<close> (\<open>scripting/toplevel/JSON.cpp\<close>, \<open>asobject.cpp\<close>, \<open>Array.cpp\<close>). \<open>JsonParse\<close>: the parser on lists of characters, with fuel
  (twice the length of the text and two is enough). \<open>JsonGrammar\<close>: a grammar of JSON without the escapes of control characters and without
  duplicate names, of which every text is understood.
  \<open>JsonPrint\<close>: \<open>stringify\<close> for objects in a heap, with the depth of its calls as fuel. \<open>JsonRoundtrip\<close>: the tree of an object is
  what its text is parsed to, for the names and strings that the code can write. \<open>JsonCycles\<close>: \<open>stringify\<close> without a replacer
  returns, with an error for cycles. The C++ stack and the memory for indentations are not bounded in these models.

  \<^bold>\<open>Bounds and fuel.\<close> Loops whose recursion is not structural have a measure, or fuel with a lemma that
  it suffices: \<open>scan_left\<close>, \<open>scan_right\<close> and \<open>partition_loop\<close> of the quicksort get more fuel than the range has elements and
  \<open>qsort_loop\<close> one more than the vector has, the readers of variable length integers five rounds, the loop
  of \<open>inflate\<close> one round per block of output. Signed integer overflow, undefined in C++, is
  modelled as the wrap-around that the compilers of the project produce; indices of \<open>splice\<close> are below
  2 to the 31. Memory allocation does not fail, and strings are shorter than 4 GiB.

  \<^bold>\<open>Not modelled.\<close> What only passes data to the operating system or a library (rendering, audio, video
  and image decoding, input, network transport, file dialogs, plugins), the just-in-time compiler
  to LLVM and the optimising translations of bytecode that repeat the plain opcodes, the old virtual
  machine, regular expressions (pcre), XML (pugixml), vendored code; reference counts and garbage
  collection are left out of the models of the builtin classes. The manifest lists every such part with its reason.
\<close>

end
